(* ===== verification/Prelude.thy ===== *)
theory Prelude
  imports Main "HOL-Library.Word" "HOL-Library.List_Lexorder"
begin

text \<open>
  The vocabulary shared by every component: Go's byte slices as \<open>8 word list\<close>, the machine
  integers \<open>uint16\<close>, \<open>uint32\<close>, \<open>uint64\<close> and \<open>int64\<close> as words of that width (an
  \<open>int64\<close> is a \<open>64 word\<close> read through \<open>sint\<close>), and the results of fallible Go functions as
  \<open>go_error + 'a\<close>.  \<open>Errorf\<close> is an error value returned to the caller; \<open>Panic\<close> is a run-time
  panic (an index or slice bound out of range, or an explicit call to panic).

  The generic lemmas are about the byte-lexicographic order of \<open>bytes.Compare\<close> (the order
  of \<open>List_Lexorder\<close>) and about big-endian byte strings.  \<open>dless\<close> is the order decided
  strictly before either string ends: appending anything to the two sides cannot change it.
\<close>

unbundle bit_operations_syntax

named_theorems append_buf \<open>an encoder that appends to a buffer, in terms of the empty buffer\<close>
named_theorems go_defs \<open>unfolding equations of small wrappers\<close>

subsection \<open>Types\<close>

type_synonym byte = "8 word"
type_synonym bytes = "byte list"
type_synonym uint16 = "16 word"
type_synonym uint32 = "32 word"
type_synonym uint64 = "64 word"
type_synonym int64 = "64 word"
type_synonym int32 = "32 word"

datatype go_error = Errorf string | Panic string

type_synonym 'a result = "go_error + 'a"

definition rbind :: "'a result \<Rightarrow> ('a \<Rightarrow> 'b result) \<Rightarrow> 'b result" where
  "rbind r f = (case r of Inl e \<Rightarrow> Inl e | Inr x \<Rightarrow> f x)"

lemma rbind_simps [simp]: "rbind (Inl e) f = Inl e" "rbind (Inr x) f = f x"
  by (simp_all add: rbind_def)

lemma rbind_Inr_conv: "rbind r f = Inr y \<longleftrightarrow> (\<exists>x. r = Inr x \<and> f x = Inr y)"
  by (cases r) auto

lemma rbind_Inl_conv: "rbind r f = Inl e \<longleftrightarrow> r = Inl e \<or> (\<exists>x. r = Inr x \<and> f x = Inl e)"
  by (cases r) auto

text \<open>Does a Go call return (a value or an error value) rather than panic?\<close>

fun panics :: "'a result \<Rightarrow> bool" where
  "panics (Inl (Panic _)) = True"
| "panics _ = False"

subsection \<open>The byte-lexicographic order\<close>

fun dless :: "'a::linorder list \<Rightarrow> 'a list \<Rightarrow> bool" where
  "dless (x # xs) (y # ys) = (x < y \<or> x = y \<and> dless xs ys)"
| "dless _ _ = False"

lemma dless_Nil [simp]: "\<not> dless [] ys" "\<not> dless xs []"
  by (cases ys; simp) (cases xs; simp)

lemma dless_append: "dless xs ys \<Longrightarrow> dless (xs @ r) (ys @ s)"
  by (induction xs ys rule: dless.induct) auto

lemma dless_imp_less: "dless xs ys \<Longrightarrow> xs < ys"
  by (induction xs ys rule: dless.induct) (auto simp: )

lemma dless_append_less: "dless xs ys \<Longrightarrow> xs @ r < ys @ s"
  by (rule dless_imp_less [OF dless_append])

lemma dless_same_prefix [simp]: "dless (p @ xs) (p @ ys) \<longleftrightarrow> dless xs ys"
  by (induction p) auto

lemma dless_same_length: "length xs = length ys \<Longrightarrow> dless xs ys \<longleftrightarrow> xs < ys"
  by (induction xs ys rule: dless.induct) auto

lemma dless_trans: "dless xs ys \<Longrightarrow> dless ys zs \<Longrightarrow> dless xs zs"
proof (induction xs ys arbitrary: zs rule: dless.induct)
  case (1 x xs y ys)
  then show ?case by (cases zs) auto
qed auto

lemma dless_irrefl [simp]: "\<not> dless xs xs"
  by (induction xs) auto

lemma less_cases_dless: "xs < ys \<Longrightarrow> dless xs ys \<or> (\<exists>z zs. ys = xs @ z # zs)"
proof (induction xs arbitrary: ys)
  case Nil
  then show ?case by (cases ys) auto
next
  case (Cons x xs)
  then show ?case by (cases ys) auto
qed

lemma append_less_same_prefix [simp]:
  "(p @ xs < p @ ys) \<longleftrightarrow> xs < (ys :: 'a::linorder list)"
  by (induction p) auto

lemma less_append_Cons [simp]: "(xs :: 'a::linorder list) < xs @ z # zs"
  by (induction xs) auto

lemma word_not_less_iff: "(NOT a < NOT b) \<longleftrightarrow> b < (a :: 'a::len word)"
proof -
  have "uint (NOT x) = mask LENGTH('a) - uint x" for x :: "'a word"
    by (simp add: unsigned_not_eq take_bit_not_eq_mask_diff take_bit_int_eq_self)
  then show ?thesis
    by (simp add: word_less_def)
qed

lemma dless_map_not: "dless (map NOT xs) (map NOT ys) \<longleftrightarrow> dless ys (xs :: 'a::len word list)"
  by (induction xs ys rule: dless.induct) (auto simp: word_not_less_iff)

subsection \<open>Big-endian byte strings\<close>

text \<open>\<open>be_val\<close> reads a byte string as a big-endian number, \<open>be_word\<close> is the accumulating
  loop \<open>v = (v << 8) | t\<close> of the decoders, and \<open>be_bytes n v\<close> lists the low \<open>n\<close> bytes
  \<open>byte(v>>8*(n-1)), \<dots>, byte(v>>8), byte(v)\<close> of a word.\<close>

definition be_val :: "bytes \<Rightarrow> nat" where
  "be_val xs = foldl (\<lambda>v t. v * 256 + unat t) 0 xs"

definition be_word :: "bytes \<Rightarrow> 'a::len word" where
  "be_word xs = foldl (\<lambda>v t. push_bit 8 v OR ucast t) 0 xs"

primrec be_bytes :: "nat \<Rightarrow> 'a::len word \<Rightarrow> bytes" where
  "be_bytes 0 v = []"
| "be_bytes (Suc n) v = ucast (drop_bit (8 * n) v) # be_bytes n v"

lemma length_be_bytes [simp]: "length (be_bytes n v) = n"
  by (induction n) auto

lemma be_val_foldl: "foldl (\<lambda>v t. v * 256 + unat (t :: byte)) a xs = a * 256 ^ length xs + be_val xs"
proof (induction xs rule: rev_induct)
  case Nil
  then show ?case by (simp add: be_val_def)
next
  case (snoc x xs)
  then show ?case by (simp add: be_val_def algebra_simps)
qed

lemma be_val_Nil [simp]: "be_val [] = 0"
  by (simp add: be_val_def)

lemma be_val_Cons [simp]: "be_val (x # xs) = unat x * 256 ^ length xs + be_val xs"
  using be_val_foldl [of "unat x" xs] by (simp add: be_val_def [of "x # xs"])

lemma byte_lt_256: "unat (x :: byte) < 256"
proof -
  have "unat x < 2 ^ LENGTH(8)" by (rule unsigned_less)
  then show ?thesis by simp
qed

lemma be_val_bound: "be_val xs < 256 ^ length xs"
proof (induction xs)
  case (Cons x xs)
  have "be_val (x # xs) < unat x * 256 ^ length xs + 256 ^ length xs"
    using Cons by simp
  also have "\<dots> = (unat x + 1) * 256 ^ length xs"
    by simp
  also have "\<dots> \<le> 256 * 256 ^ length xs"
    using byte_lt_256 [of x] by (intro mult_right_mono) auto
  finally show ?case by simp
qed simp

lemma be_val_digit_less:
  assumes "(x :: byte) < y" "length xs = length ys"
  shows "be_val (x # xs) < be_val (y # ys)"
proof -
  have "be_val (x # xs) < (unat x + 1) * 256 ^ length xs"
    using be_val_bound [of xs] by simp
  also have "\<dots> \<le> unat y * 256 ^ length xs"
    using assms(1) by (intro mult_right_mono) (auto simp: word_less_nat_alt)
  also have "\<dots> \<le> be_val (y # ys)"
    using assms(2) by simp
  finally show ?thesis .
qed

lemma be_val_less_iff:
  "length xs = length ys \<Longrightarrow> be_val xs < be_val ys \<longleftrightarrow> dless xs ys"
proof (induction xs ys rule: dless.induct)
  case (1 x xs y ys)
  then have len: "length xs = length ys" by simp
  show ?case
  proof (cases x y rule: linorder_cases)
    case less
    then show ?thesis using be_val_digit_less [OF less len] by simp
  next
    case equal
    then show ?thesis using 1 len by simp
  next
    case greater
    then show ?thesis using be_val_digit_less [OF greater len [symmetric]] by auto
  qed
qed auto

lemma be_val_be_bytes: "be_val (be_bytes n v) = unat v mod 256 ^ n"
proof (induction n)
  case (Suc n)
  have "unat (ucast (drop_bit (8 * n) v) :: byte) = unat v div 256 ^ n mod 256"
    by (simp add: unsigned_ucast_eq unat_drop_bit_eq take_bit_eq_mod)
      (simp add: drop_bit_eq_div power_mult)
  moreover have "unat v mod (256 ^ n * 256) = 256 ^ n * (unat v div 256 ^ n mod 256) + unat v mod 256 ^ n"
    by (rule mod_mult2_eq)
  ultimately show ?case using Suc by (simp add: mult.commute)
qed simp

lemma be_word_be_val: "be_word xs = (of_nat (be_val xs) :: 'a::len word)" if "8 \<le> LENGTH('a)"
proof (induction xs rule: rev_induct)
  case Nil
  then show ?case by (simp add: be_word_def)
next
  case (snoc x xs)
  have "push_bit 8 v OR ucast x = v * 256 + (of_nat (unat x) :: 'a word)" for v
  proof -
    have "push_bit 8 v OR ucast x = push_bit 8 v + (ucast x :: 'a word)"
      by (rule disjunctive_add_eq_or [symmetric], rule bit_word_eqI)
        (auto simp: bit_and_iff bit_push_bit_iff bit_ucast_iff dest: bit_imp_le_length)
    then show ?thesis
      by (simp add: push_bit_eq_mult mult.commute)
  qed
  with snoc show ?case
    by (simp add: be_word_def be_val_def)
qed

lemma be_val_be_bytes_full:
  "unat (v :: 'a::len word) < 256 ^ n \<Longrightarrow> be_val (be_bytes n v) = unat v"
  by (simp add: be_val_be_bytes)

lemma be_word_be_bytes:
  "8 \<le> LENGTH('a) \<Longrightarrow> unat (v :: 'a::len word) < 256 ^ n \<Longrightarrow> be_word (be_bytes n v) = v"
  by (simp add: be_word_be_val be_val_be_bytes_full)

lemma dless_be_bytes:
  "unat v < 256 ^ n \<Longrightarrow> unat w < 256 ^ n \<Longrightarrow> dless (be_bytes n v) (be_bytes n w) \<longleftrightarrow> v < (w :: 'a::len word)"
  by (simp add: be_val_less_iff [symmetric] be_val_be_bytes_full word_less_nat_alt)

lemma ucast_drop_bit_not:
  "k + 8 \<le> LENGTH('a) \<Longrightarrow> (ucast (drop_bit k (NOT v)) :: byte) = NOT (ucast (drop_bit k (v :: 'a::len word)))"
  by (rule bit_word_eqI) (auto simp: bit_ucast_iff bit_drop_bit_eq bit_not_iff)

lemma be_bytes_not: "8 * n \<le> LENGTH('a) \<Longrightarrow> be_bytes n (NOT (v :: 'a::len word)) = map NOT (be_bytes n v)"
  by (induction n) (auto simp: ucast_drop_bit_not)

lemma ucast_signed_drop_bit:
  "k + 8 \<le> LENGTH('a) \<Longrightarrow> (ucast (signed_drop_bit k (v :: 'a::len word)) :: byte) = ucast (drop_bit k v)"
  by (rule bit_word_eqI)
    (auto simp: bit_ucast_iff bit_signed_drop_bit_iff bit_drop_bit_eq dest: bit_imp_le_length)

lemma not_comp_not [simp]: "NOT \<circ> NOT = (id :: 'a::len word \<Rightarrow> 'a word)"
  by (rule ext) simp

lemma unat_less_uint: "unat x < n \<longleftrightarrow> uint (x :: 'a::len word) < int n"
proof -
  have "unat x < n \<longleftrightarrow> int (unat x) < int n" by (rule of_nat_less_iff [symmetric])
  then show ?thesis by simp
qed

lemma unat_le_uint: "n \<le> unat x \<longleftrightarrow> int n \<le> uint (x :: 'a::len word)"
  using unat_less_uint [of x n] by linarith

end
