(* ===== verification/Codec.thy ===== *)
theory Codec
  imports Prelude
begin

text \<open>
  The contract of an order-preserving key encoding, the interface between the encoders of
  \<open>util/encoding\<close> and everything that concatenates their outputs into a key (index keys, meta
  keys, system keys).  \<open>lt\<close> is the order of the encoded column: ascending encoders are
  interpreted with the value order, descending ones with its converse.

  What a provider promises is the round trip through its decoder and that the order of two
  encodings is decided before either of them ends (\<open>dless\<close>).  What a client gets is proved here
  once: an encoding is never a prefix of a different one, it is injective, and the byte order
  of concatenated encodings is the lexicographic order of the encoded tuples.
\<close>

locale key_codec =
  fixes enc :: "'a \<Rightarrow> bytes"
    and dec :: "bytes \<Rightarrow> (bytes \<times> 'a) result"
    and lt :: "'a \<Rightarrow> 'a \<Rightarrow> bool"
    and ok :: "'a \<Rightarrow> bool"
  assumes roundtrip: "ok v \<Longrightarrow> dec (enc v @ rest) = Inr (rest, v)"
    and ordered: "ok v \<Longrightarrow> ok w \<Longrightarrow> lt v w \<Longrightarrow> dless (enc v) (enc w)"
    and trichotomy: "ok v \<Longrightarrow> ok w \<Longrightarrow> lt v w \<or> v = w \<or> lt w v"
begin

lemma cut: "ok v \<Longrightarrow> ok w \<Longrightarrow> enc v @ r = enc w @ s \<Longrightarrow> v = w \<and> r = s"
  by (metis roundtrip Inr_inject prod.inject)

lemma inj: "ok v \<Longrightarrow> ok w \<Longrightarrow> enc v = enc w \<longleftrightarrow> v = w"
  using cut [of v w "[]" "[]"] by auto

lemma enc_nonempty: "ok v \<Longrightarrow> ok w \<Longrightarrow> v \<noteq> w \<Longrightarrow> enc v \<noteq> []"
  using trichotomy [of v w] ordered [of v w] ordered [of w v] by (cases "enc v") auto

lemma less_append_iff:
  assumes "ok v" "ok w"
  shows "enc v @ r < enc w @ s \<longleftrightarrow> lt v w \<or> v = w \<and> r < s"
proof -
  have "\<not> lt v v" using ordered [of v v] assms by auto
  moreover have "lt w v \<Longrightarrow> \<not> enc v @ r < enc w @ s"
    using ordered [of w v] assms dless_append_less [of "enc w" "enc v" s r] by auto
  moreover have "lt v w \<Longrightarrow> enc v @ r < enc w @ s"
    using ordered [of v w] assms by (auto intro: dless_append_less)
  moreover have "lt v w \<Longrightarrow> \<not> lt w v"
    using ordered [of v w] ordered [of w v] assms dless_trans by fastforce
  ultimately show ?thesis using trichotomy [of v w] assms by auto
qed

lemma less_iff: "ok v \<Longrightarrow> ok w \<Longrightarrow> enc v < enc w \<longleftrightarrow> lt v w"
  using less_append_iff [of v w "[]" "[]"] by auto

text \<open>A key of several columns of this encoding sorts as the list of its columns.\<close>

lemma columns_less:
  assumes "list_all ok vs" "list_all ok ws" "length vs = length ws"
  shows "concat (map enc vs) @ r < concat (map enc ws) @ s \<longleftrightarrow>
    (vs, ws) \<in> lexord {(x, y). lt x y} \<or> vs = ws \<and> r < s"
  using assms(3,1,2)
proof (induction vs ws rule: list_induct2)
  case Nil
  then show ?case by simp
next
  case (Cons x xs y ys)
  then show ?case by (simp add: less_append_iff) auto
qed

end

text \<open>Two columns of different types, each with its own codec.\<close>

locale pair_codec = A: key_codec encA decA ltA okA + B: key_codec encB decB ltB okB
  for encA :: "'a \<Rightarrow> bytes" and decA ltA okA
    and encB :: "'b \<Rightarrow> bytes" and decB ltB okB
begin

definition enc2 :: "'a \<times> 'b \<Rightarrow> bytes" where
  "enc2 p = encA (fst p) @ encB (snd p)"

definition dec2 :: "bytes \<Rightarrow> (bytes \<times> ('a \<times> 'b)) result" where
  "dec2 b = rbind (decA b) (\<lambda>(b1, x). rbind (decB b1) (\<lambda>(b2, y). Inr (b2, (x, y))))"

definition lt2 :: "'a \<times> 'b \<Rightarrow> 'a \<times> 'b \<Rightarrow> bool" where
  "lt2 p q \<longleftrightarrow> ltA (fst p) (fst q) \<or> fst p = fst q \<and> ltB (snd p) (snd q)"

definition ok2 :: "'a \<times> 'b \<Rightarrow> bool" where
  "ok2 p \<longleftrightarrow> okA (fst p) \<and> okB (snd p)"

sublocale pair: key_codec enc2 dec2 lt2 ok2
proof
  show "dec2 (enc2 v @ rest) = Inr (rest, v)" if "ok2 v" for v rest
    using that by (cases v) (simp add: dec2_def enc2_def ok2_def A.roundtrip B.roundtrip)
  show "dless (enc2 v) (enc2 w)" if "ok2 v" "ok2 w" "lt2 v w" for v w
    using that A.ordered [of "fst v" "fst w"] B.ordered [of "snd v" "snd w"]
    by (auto simp: enc2_def lt2_def ok2_def intro: dless_append)
  show "lt2 v w \<or> v = w \<or> lt2 w v" if "ok2 v" "ok2 w" for v w
    using that A.trichotomy [of "fst v" "fst w"] B.trichotomy [of "snd v" "snd w"]
    by (auto simp: lt2_def ok2_def prod_eq_iff)
qed

end

end
