(* ===== verification/Enc_Ints.thy ===== *)
theory Enc_Ints
  imports Codec
begin

text \<open>
  The integer key encodings of \<open>engine/pkg/util/encoding/encoding.go\<close>: the fixed-width
  big-endian ones and the length-prefixed variable-width ones, ascending and descending.
  An encoder appends to the buffer it is given.  A Go function that returns an error beside
  other results is modelled by the error alone.
\<close>

subsection \<open>Constants\<close>

abbreviation (input) IntMin :: "'a::numeral" where "IntMin \<equiv> 0x80"
abbreviation (input) intMaxWidth :: "'a::numeral" where "intMaxWidth \<equiv> 8"
abbreviation (input) intZero :: "'a::numeral" where "intZero \<equiv> 136"
abbreviation (input) intSmall :: "'a::numeral" where "intSmall \<equiv> 109"
abbreviation (input) IntMax :: "'a::numeral" where "IntMax \<equiv> 0xfd"

subsection \<open>Fixed-width encodings\<close>

definition EncodeUint16Ascending :: "bytes \<Rightarrow> uint16 \<Rightarrow> bytes" where
  "EncodeUint16Ascending b v = b @ [ucast (drop_bit 8 v), ucast v]"

definition EncodeUint32Ascending :: "bytes \<Rightarrow> uint32 \<Rightarrow> bytes" where
  "EncodeUint32Ascending b v =
     b @ [ucast (drop_bit 24 v), ucast (drop_bit 16 v), ucast (drop_bit 8 v), ucast v]"

definition EncodeUint64Ascending :: "bytes \<Rightarrow> uint64 \<Rightarrow> bytes" where
  "EncodeUint64Ascending b v =
     b @ [ucast (drop_bit 56 v), ucast (drop_bit 48 v), ucast (drop_bit 40 v), ucast (drop_bit 32 v),
          ucast (drop_bit 24 v), ucast (drop_bit 16 v), ucast (drop_bit 8 v), ucast v]"

definition EncodeUint32Descending :: "bytes \<Rightarrow> uint32 \<Rightarrow> bytes" where
  "EncodeUint32Descending b v = EncodeUint32Ascending b (NOT v)"

definition EncodeUint64Descending :: "bytes \<Rightarrow> uint64 \<Rightarrow> bytes" where
  "EncodeUint64Descending b v = EncodeUint64Ascending b (NOT v)"

text \<open>The slice is lengthened with zeros until the write fits, then written in place; a
  negative index panics.\<close>

definition lengthen :: "bytes \<Rightarrow> int \<Rightarrow> bytes" where
  "lengthen b n = b @ replicate (nat n - length b) 0"

definition PutUint16Ascending :: "bytes \<Rightarrow> uint16 \<Rightarrow> int \<Rightarrow> bytes result" where
  "PutUint16Ascending b v idx =
     (if idx < 0 then Inl (Panic ''index out of range'')
      else let i = nat idx in
        Inr ((lengthen b (idx + 2))[i := ucast (drop_bit 8 v), i + 1 := ucast v]))"

definition PutUint32Ascending :: "bytes \<Rightarrow> uint32 \<Rightarrow> int \<Rightarrow> bytes result" where
  "PutUint32Ascending b v idx =
     (if idx < 0 then Inl (Panic ''index out of range'')
      else let i = nat idx in
        Inr ((lengthen b (idx + 4))[i := ucast (drop_bit 24 v), i + 1 := ucast (drop_bit 16 v),
                                    i + 2 := ucast (drop_bit 8 v), i + 3 := ucast v]))"

text \<open>\<open>binary.BigEndian.UintN\<close> of the first bytes is the shift-and-or of \<open>be_word\<close>.\<close>

definition DecodeUint16Ascending :: "bytes \<Rightarrow> (bytes \<times> uint16) result" where
  "DecodeUint16Ascending b =
     (if length b < 2 then Inl (Errorf ''insufficient bytes to decode uint16 int value'')
      else Inr (drop 2 b, be_word (take 2 b)))"

definition DecodeUint32Ascending :: "bytes \<Rightarrow> (bytes \<times> uint32) result" where
  "DecodeUint32Ascending b =
     (if length b < 4 then Inl (Errorf ''insufficient bytes to decode uint32 int value'')
      else Inr (drop 4 b, be_word (take 4 b)))"

definition DecodeUint64Ascending :: "bytes \<Rightarrow> (bytes \<times> uint64) result" where
  "DecodeUint64Ascending b =
     (if length b < 8 then Inl (Errorf ''insufficient bytes to decode uint64 int value'')
      else Inr (drop 8 b, be_word (take 8 b)))"

definition DecodeUint32Descending :: "bytes \<Rightarrow> (bytes \<times> uint32) result" where
  "DecodeUint32Descending b =
     rbind (DecodeUint32Ascending b) (\<lambda>(leftover, v). Inr (leftover, NOT v))"

definition DecodeUint64Descending :: "bytes \<Rightarrow> (bytes \<times> uint64) result" where
  "DecodeUint64Descending b =
     rbind (DecodeUint64Ascending b) (\<lambda>(leftover, v). Inr (leftover, NOT v))"

subsection \<open>Variable-width encodings\<close>

definition EncodeUvarintAscending :: "bytes \<Rightarrow> uint64 \<Rightarrow> bytes" where
  "EncodeUvarintAscending b v =
    (if v \<le> intSmall then b @ [intZero + ucast v]
     else if v \<le> 0xff then b @ [IntMax - 7, ucast v]
     else if v \<le> 0xffff then b @ [IntMax - 6, ucast (drop_bit 8 v), ucast v]
     else if v \<le> 0xffffff then
       b @ [IntMax - 5, ucast (drop_bit 16 v), ucast (drop_bit 8 v), ucast v]
     else if v \<le> 0xffffffff then
       b @ [IntMax - 4, ucast (drop_bit 24 v), ucast (drop_bit 16 v), ucast (drop_bit 8 v), ucast v]
     else if v \<le> 0xffffffffff then
       b @ [IntMax - 3, ucast (drop_bit 32 v), ucast (drop_bit 24 v), ucast (drop_bit 16 v),
            ucast (drop_bit 8 v), ucast v]
     else if v \<le> 0xffffffffffff then
       b @ [IntMax - 2, ucast (drop_bit 40 v), ucast (drop_bit 32 v), ucast (drop_bit 24 v),
            ucast (drop_bit 16 v), ucast (drop_bit 8 v), ucast v]
     else if v \<le> 0xffffffffffffff then
       b @ [IntMax - 1, ucast (drop_bit 48 v), ucast (drop_bit 40 v), ucast (drop_bit 32 v),
            ucast (drop_bit 24 v), ucast (drop_bit 16 v), ucast (drop_bit 8 v), ucast v]
     else
       b @ [IntMax, ucast (drop_bit 56 v), ucast (drop_bit 48 v), ucast (drop_bit 40 v),
            ucast (drop_bit 32 v), ucast (drop_bit 24 v), ucast (drop_bit 16 v),
            ucast (drop_bit 8 v), ucast v])"

text \<open>An \<open>int64\<close> shifts arithmetically; \<open>byte(\<dots>)\<close> keeps the low eight bits.\<close>

definition EncodeVarintAscending :: "bytes \<Rightarrow> int64 \<Rightarrow> bytes" where
  "EncodeVarintAscending b v =
    (if sint v < 0 then
      (if sint v \<ge> - 0xff then b @ [IntMin + 7, ucast v]
       else if sint v \<ge> - 0xffff then b @ [IntMin + 6, ucast (signed_drop_bit 8 v), ucast v]
       else if sint v \<ge> - 0xffffff then
         b @ [IntMin + 5, ucast (signed_drop_bit 16 v), ucast (signed_drop_bit 8 v), ucast v]
       else if sint v \<ge> - 0xffffffff then
         b @ [IntMin + 4, ucast (signed_drop_bit 24 v), ucast (signed_drop_bit 16 v),
              ucast (signed_drop_bit 8 v), ucast v]
       else if sint v \<ge> - 0xffffffffff then
         b @ [IntMin + 3, ucast (signed_drop_bit 32 v), ucast (signed_drop_bit 24 v),
              ucast (signed_drop_bit 16 v), ucast (signed_drop_bit 8 v), ucast v]
       else if sint v \<ge> - 0xffffffffffff then
         b @ [IntMin + 2, ucast (signed_drop_bit 40 v), ucast (signed_drop_bit 32 v),
              ucast (signed_drop_bit 24 v), ucast (signed_drop_bit 16 v),
              ucast (signed_drop_bit 8 v), ucast v]
       else if sint v \<ge> - 0xffffffffffffff then
         b @ [IntMin + 1, ucast (signed_drop_bit 48 v), ucast (signed_drop_bit 40 v),
              ucast (signed_drop_bit 32 v), ucast (signed_drop_bit 24 v),
              ucast (signed_drop_bit 16 v), ucast (signed_drop_bit 8 v), ucast v]
       else
         b @ [IntMin, ucast (signed_drop_bit 56 v), ucast (signed_drop_bit 48 v),
              ucast (signed_drop_bit 40 v), ucast (signed_drop_bit 32 v),
              ucast (signed_drop_bit 24 v), ucast (signed_drop_bit 16 v),
              ucast (signed_drop_bit 8 v), ucast v])
     else EncodeUvarintAscending b v)"

definition EncodeVarintDescending :: "bytes \<Rightarrow> int64 \<Rightarrow> bytes" where
  "EncodeVarintDescending b v = EncodeVarintAscending b (NOT v)"

definition EncodedLengthUvarintAscending :: "uint64 \<Rightarrow> nat" where
  "EncodedLengthUvarintAscending v =
    (if v \<le> intSmall then 1
     else if v \<le> 0xff then 2
     else if v \<le> 0xffff then 3
     else if v \<le> 0xffffff then 4
     else if v \<le> 0xffffffff then 5
     else if v \<le> 0xffffffffff then 6
     else if v \<le> 0xffffffffffff then 7
     else if v \<le> 0xffffffffffffff then 8
     else 9)"

text \<open>Each branch assigns \<open>v = ^v\<close> before it appends the bytes.\<close>

definition EncodeUvarintDescending :: "bytes \<Rightarrow> uint64 \<Rightarrow> bytes" where
  "EncodeUvarintDescending b v =
    (let nv = NOT v in
     if v = 0 then b @ [IntMin + 8]
     else if v \<le> 0xff then b @ [IntMin + 7, ucast nv]
     else if v \<le> 0xffff then b @ [IntMin + 6, ucast (drop_bit 8 nv), ucast nv]
     else if v \<le> 0xffffff then
       b @ [IntMin + 5, ucast (drop_bit 16 nv), ucast (drop_bit 8 nv), ucast nv]
     else if v \<le> 0xffffffff then
       b @ [IntMin + 4, ucast (drop_bit 24 nv), ucast (drop_bit 16 nv), ucast (drop_bit 8 nv), ucast nv]
     else if v \<le> 0xffffffffff then
       b @ [IntMin + 3, ucast (drop_bit 32 nv), ucast (drop_bit 24 nv), ucast (drop_bit 16 nv),
            ucast (drop_bit 8 nv), ucast nv]
     else if v \<le> 0xffffffffffff then
       b @ [IntMin + 2, ucast (drop_bit 40 nv), ucast (drop_bit 32 nv), ucast (drop_bit 24 nv),
            ucast (drop_bit 16 nv), ucast (drop_bit 8 nv), ucast nv]
     else if v \<le> 0xffffffffffffff then
       b @ [IntMin + 1, ucast (drop_bit 48 nv), ucast (drop_bit 40 nv), ucast (drop_bit 32 nv),
            ucast (drop_bit 24 nv), ucast (drop_bit 16 nv), ucast (drop_bit 8 nv), ucast nv]
     else
       b @ [IntMin, ucast (drop_bit 56 nv), ucast (drop_bit 48 nv), ucast (drop_bit 40 nv),
            ucast (drop_bit 32 nv), ucast (drop_bit 24 nv), ucast (drop_bit 16 nv),
            ucast (drop_bit 8 nv), ucast nv])"

definition highestByteIndex :: "uint64 \<Rightarrow> nat" where
  "highestByteIndex v0 =
    (let (v1, l1) = (if v0 > 0xffffffff then (drop_bit 32 v0, 0 + 4) else (v0, 0));
         (v2, l2) = (if v1 > 0xffff then (drop_bit 16 v1, l1 + 2) else (v1, l1))
     in if v2 > 0xff then l2 + 1 else l2)"

definition EncLenUvarintAscending :: "uint64 \<Rightarrow> nat" where
  "EncLenUvarintAscending v = (if v \<le> intSmall then 1 else 2 + highestByteIndex v)"

definition EncLenUvarintDescending :: "uint64 \<Rightarrow> nat" where
  "EncLenUvarintDescending v = (if v = 0 then 1 else 2 + highestByteIndex v)"

subsection \<open>Decoders\<close>

text \<open>\<open>getVarintLen\<close> assumes a non-empty slice: Go panics on \<open>b[0]\<close> otherwise.\<close>

definition getVarintLen :: "bytes \<Rightarrow> int result" where
  "getVarintLen b =
    (case b of [] \<Rightarrow> Inl (Panic ''index out of range'')
     | t # _ \<Rightarrow>
       let len = int (unat t) - intZero in
       if len \<ge> 0 \<and> len \<le> intSmall then Inr 1
       else
         let len' = (if len \<ge> 0 then 1 + len - intSmall else 1 - len) in
         if len' > int (length b)
         then Inl (Errorf ''varint length %d exceeds slice length %d'')
         else Inr len')"

definition GetUvarintLen :: "bytes \<Rightarrow> int result" where
  "GetUvarintLen b =
    (case b of [] \<Rightarrow> Inl (Errorf ''insufficient bytes to decode uvarint value'')
     | t # _ \<Rightarrow>
       let len = int (unat t) - intZero in
       if len \<le> intSmall then Inr 1
       else
         let len' = len - intSmall in
         if len' < 0 \<or> len' > 8 then Inl (Errorf ''invalid uvarint length of %d'')
         else if int (length b) \<le> len'
         then Inl (Errorf ''insufficient bytes to decode uvarint value: %q'')
         else Inr (1 + len'))"

definition DecodeUvarintAscending :: "bytes \<Rightarrow> (bytes \<times> uint64) result" where
  "DecodeUvarintAscending b =
    (case b of [] \<Rightarrow> Inl (Errorf ''insufficient bytes to decode uvarint value'')
     | t # b1 \<Rightarrow>
       let len = int (unat t) - intZero in
       if len \<le> intSmall then Inr (b1, word_of_int len)
       else
         let len' = len - intSmall in
         if len' < 0 \<or> len' > 8 then Inl (Errorf ''invalid uvarint length of %d'')
         else if int (length b1) < len'
         then Inl (Errorf ''insufficient bytes to decode uvarint value: %q'')
         else Inr (drop (nat len') b1,
                   foldl (\<lambda>v t. push_bit 8 v OR ucast t) 0 (take (nat len') b1)))"

definition DecodeUvarintDescending :: "bytes \<Rightarrow> (bytes \<times> uint64) result" where
  "DecodeUvarintDescending b =
    (case b of [] \<Rightarrow> Inl (Errorf ''insufficient bytes to decode uvarint value'')
     | t # b1 \<Rightarrow>
       let len = intZero - int (unat t) in
       if len < 0 \<or> len > 8 then Inl (Errorf ''invalid uvarint length of %d'')
       else if int (length b1) < len
       then Inl (Errorf ''insufficient bytes to decode uvarint value: %q'')
       else Inr (drop (nat len) b1,
                 foldl (\<lambda>x t. push_bit 8 x OR ucast (NOT t)) 0 (take (nat len) b1)))"

definition DecodeVarintAscending :: "bytes \<Rightarrow> (bytes \<times> int64) result" where
  "DecodeVarintAscending b =
    (case b of [] \<Rightarrow> Inl (Errorf ''insufficient bytes to decode varint value'')
     | t # remB \<Rightarrow>
       let len = int (unat t) - intZero in
       if len < 0 then
         let len' = - len in
         if int (length remB) < len'
         then Inl (Errorf ''insufficient bytes to decode varint value: %q'')
         else Inr (drop (nat len') remB,
                   NOT (foldl (\<lambda>v t. push_bit 8 v OR ucast (NOT t)) 0 (take (nat len') remB)))
       else
         rbind (DecodeUvarintAscending b) (\<lambda>(remB, v).
           if v > 0x7fffffffffffffff then Inl (Errorf ''varint %d overflows int64'')
           else Inr (remB, v)))"

definition DecodeVarintDescending :: "bytes \<Rightarrow> (bytes \<times> int64) result" where
  "DecodeVarintDescending b =
     rbind (DecodeVarintAscending b) (\<lambda>(leftover, v). Inr (leftover, NOT v))"

subsection \<open>Fixed-width encodings are codecs\<close>

lemma be_bytes_unfold:
  "be_bytes 1 v = [ucast v]"
  "be_bytes 2 v = [ucast (drop_bit 8 v), ucast v]"
  "be_bytes 3 v = [ucast (drop_bit 16 v), ucast (drop_bit 8 v), ucast v]"
  "be_bytes 4 v = [ucast (drop_bit 24 v), ucast (drop_bit 16 v), ucast (drop_bit 8 v), ucast v]"
  "be_bytes 5 v = ucast (drop_bit 32 v) # be_bytes 4 v"
  "be_bytes 6 v = ucast (drop_bit 40 v) # be_bytes 5 v"
  "be_bytes 7 v = ucast (drop_bit 48 v) # be_bytes 6 v"
  "be_bytes 8 v = ucast (drop_bit 56 v) # be_bytes 7 v"
  by (simp_all add: eval_nat_numeral)

lemmas fixed_defs =
  EncodeUint16Ascending_def EncodeUint32Ascending_def EncodeUint64Ascending_def
  EncodeUint32Descending_def EncodeUint64Descending_def

lemma EncodeUint16Ascending_be [append_buf]: "EncodeUint16Ascending b v = b @ be_bytes 2 v"
  by (simp add: fixed_defs be_bytes_unfold)

lemma EncodeUint32Ascending_be [append_buf]: "EncodeUint32Ascending b v = b @ be_bytes 4 v"
  by (simp add: fixed_defs be_bytes_unfold)

lemma EncodeUint64Ascending_be [append_buf]: "EncodeUint64Ascending b v = b @ be_bytes 8 v"
  by (simp add: fixed_defs be_bytes_unfold)

lemma word_bound_256:
  "unat (v :: uint16) < 256 ^ 2" "unat (w :: uint32) < 256 ^ 4" "unat (x :: uint64) < 256 ^ 8"
  using unsigned_less [where 'a = nat and w = v] unsigned_less [where 'a = nat and w = w]
    unsigned_less [where 'a = nat and w = x] by simp_all

lemma be_full_width:
  "be_word (be_bytes 2 v) = (v :: uint16)" "dless (be_bytes 2 v) (be_bytes 2 v') \<longleftrightarrow> v < v'"
  "be_word (be_bytes 4 w) = (w :: uint32)" "dless (be_bytes 4 w) (be_bytes 4 w') \<longleftrightarrow> w < w'"
  "be_word (be_bytes 8 x) = (x :: uint64)" "dless (be_bytes 8 x) (be_bytes 8 x') \<longleftrightarrow> x < x'"
  by (rule be_word_be_bytes dless_be_bytes word_bound_256 | simp)+

interpretation uint16_asc: key_codec "EncodeUint16Ascending []" DecodeUint16Ascending "(<)" "\<lambda>_. True"
  by unfold_locales
    (auto simp: DecodeUint16Ascending_def append_buf be_full_width)

interpretation uint32_asc: key_codec "EncodeUint32Ascending []" DecodeUint32Ascending "(<)" "\<lambda>_. True"
  by unfold_locales
    (auto simp: DecodeUint32Ascending_def append_buf be_full_width)

interpretation uint64_asc: key_codec "EncodeUint64Ascending []" DecodeUint64Ascending "(<)" "\<lambda>_. True"
  by unfold_locales
    (auto simp: DecodeUint64Ascending_def append_buf be_full_width)

interpretation uint32_desc: key_codec "EncodeUint32Descending []" DecodeUint32Descending "(>)" "\<lambda>_. True"
  using uint32_asc.roundtrip uint32_asc.ordered
  by unfold_locales
    (auto simp: DecodeUint32Descending_def EncodeUint32Descending_def word_not_less_iff)

interpretation uint64_desc: key_codec "EncodeUint64Descending []" DecodeUint64Descending "(>)" "\<lambda>_. True"
  using uint64_asc.roundtrip uint64_asc.ordered
  by unfold_locales
    (auto simp: DecodeUint64Descending_def EncodeUint64Descending_def word_not_less_iff)

subsection \<open>The variable-width encodings in closed form\<close>

text \<open>The number of bytes that follow the tag, and the shape of each encoding: a tag that
  carries the width, then that many big-endian bytes.\<close>

definition uvarint_width :: "uint64 \<Rightarrow> nat" where
  "uvarint_width v =
    (if v \<le> 0xff then 1 else if v \<le> 0xffff then 2 else if v \<le> 0xffffff then 3
     else if v \<le> 0xffffffff then 4 else if v \<le> 0xffffffffff then 5
     else if v \<le> 0xffffffffffff then 6 else if v \<le> 0xffffffffffffff then 7 else 8)"

lemma uvarint_width_range: "1 \<le> uvarint_width v" "uvarint_width v \<le> 8"
  by (simp_all add: uvarint_width_def)

lemma uvarint_width_bound: "unat v < 256 ^ uvarint_width v"
  using word_bound_256(3) [of v] by (auto simp: uvarint_width_def word_le_nat_alt)

lemma uvarint_width_mono: "v \<le> w \<Longrightarrow> uvarint_width v \<le> uvarint_width w"
  by (auto simp: uvarint_width_def)

definition pos_tag :: "nat \<Rightarrow> byte" where "pos_tag n = word_of_nat (245 + n)"
definition neg_tag :: "nat \<Rightarrow> byte" where "neg_tag n = word_of_nat (136 - n)"

lemma EncodeUvarintAscending_closed [append_buf]:
  "EncodeUvarintAscending b v =
     b @ (if v \<le> intSmall then [intZero + ucast v]
          else pos_tag (uvarint_width v) # be_bytes (uvarint_width v) v)"
  by (simp add: EncodeUvarintAscending_def uvarint_width_def be_bytes_unfold pos_tag_def flip: One_nat_def)

lemma EncodeUvarintDescending_closed [append_buf]:
  "EncodeUvarintDescending b v =
     b @ (if v = 0 then [intZero]
          else neg_tag (uvarint_width v) # be_bytes (uvarint_width v) (NOT v))"
  by (simp add: EncodeUvarintDescending_def uvarint_width_def be_bytes_unfold neg_tag_def Let_def flip: One_nat_def)

lemma drop_bit_word_greater:
  "(of_nat k :: 'a::len word) < drop_bit n v \<longleftrightarrow> Suc k * 2 ^ n \<le> unat v" if "k < 2 ^ LENGTH('a)"
proof -
  have "(of_nat k :: 'a word) < drop_bit n v \<longleftrightarrow> Suc k \<le> unat v div 2 ^ n"
    using that by (simp add: word_less_nat_alt unat_drop_bit_eq unat_of_nat Suc_le_eq)
      (simp add: drop_bit_eq_div)
  also have "\<dots> \<longleftrightarrow> Suc k * 2 ^ n \<le> unat v"
    by (rule less_eq_div_iff_mult_less_eq) simp
  finally show ?thesis .
qed

lemma highestByteIndex_eq: "Suc (highestByteIndex v) = uvarint_width v"
proof -
  note shift = drop_bit_word_greater [of 65535 32 v, simplified] drop_bit_word_greater [of 255 16 v, simplified]
    drop_bit_word_greater [of 255 32 v, simplified] drop_bit_word_greater [of 255 48 v, simplified]
  show ?thesis
    by (simp add: highestByteIndex_def uvarint_width_def shift Let_def)
      (simp add: word_less_nat_alt word_le_nat_alt)
qed

lemma unat_small_tag: "v \<le> intSmall \<Longrightarrow> unat (intZero + ucast v :: byte) = 136 + unat (v :: uint64)"
proof -
  assume "v \<le> intSmall"
  then have le: "unat v \<le> 109" by (simp add: word_le_nat_alt)
  then have "unat (ucast v :: byte) = unat v"
    by (simp add: unsigned_ucast_eq take_bit_eq_mod)
  with le show ?thesis by (simp add: unat_word_ariths)
qed

lemma unat_pos_tag: "n \<le> 8 \<Longrightarrow> unat (pos_tag n) = 245 + n"
  unfolding pos_tag_def by (simp only: unsigned_of_nat) (simp add: take_bit_eq_mod)

lemma unat_neg_tag: "n \<le> 8 \<Longrightarrow> unat (neg_tag n) = 136 - n"
  unfolding neg_tag_def by (simp only: unsigned_of_nat) (simp add: take_bit_eq_mod)

lemmas unat_tag = unat_small_tag unat_pos_tag unat_neg_tag

lemma tag_less:
  "m \<le> 8 \<Longrightarrow> n \<le> 8 \<Longrightarrow> m < n \<Longrightarrow> pos_tag m < pos_tag n"
  "m \<le> 8 \<Longrightarrow> n \<le> 8 \<Longrightarrow> n < m \<Longrightarrow> neg_tag m < neg_tag n"
  "m \<le> 8 \<Longrightarrow> 0 < m \<Longrightarrow> neg_tag m < 136"
  "v \<le> intSmall \<Longrightarrow> n \<le> 8 \<Longrightarrow> 0 < n \<Longrightarrow> intZero + ucast (v :: uint64) < pos_tag n"
  "v \<le> intSmall \<Longrightarrow> w \<le> intSmall \<Longrightarrow> v < w \<Longrightarrow> intZero + ucast (v :: uint64) < (intZero + ucast w :: byte)"
  by (auto simp: word_less_nat_alt unat_tag) (simp add: word_le_nat_alt)

lemma be_word_foldl: "foldl (\<lambda>v t. push_bit 8 v OR ucast t) 0 xs = be_word xs"
  by (simp add: be_word_def)

lemma be_word_foldl_not: "foldl (\<lambda>v t. push_bit 8 v OR ucast (NOT t)) 0 xs = be_word (map NOT xs)"
  by (simp add: be_word_def foldl_map)

lemma be_word_uvarint: "be_word (be_bytes (uvarint_width v) v) = v"
  by (rule be_word_be_bytes) (simp_all add: uvarint_width_bound)

lemma DecodeUvarintAscending_roundtrip:
  "DecodeUvarintAscending (EncodeUvarintAscending [] v @ rest) = Inr (rest, v)"
proof (cases "v \<le> intSmall")
  case True
  then have "uint v \<le> 109" by (simp add: word_le_def)
  with True show ?thesis
    by (simp add: DecodeUvarintAscending_def append_buf unat_tag)
next
  case False
  have "uvarint_width v \<le> 8" "0 < uvarint_width v"
    using uvarint_width_range [of v] by simp_all
  with False show ?thesis
    by (simp add: DecodeUvarintAscending_def append_buf unat_tag be_word_foldl be_word_uvarint)
qed

lemma uvarint_asc_ordered:
  assumes "v < w"
  shows "dless (EncodeUvarintAscending [] v) (EncodeUvarintAscending [] w)"
proof -
  have "w \<le> intSmall \<Longrightarrow> v \<le> intSmall" using assms by simp
  moreover have "uvarint_width v \<le> uvarint_width w"
    using assms by (intro uvarint_width_mono) simp
  moreover have "dless (be_bytes (uvarint_width v) v) (be_bytes (uvarint_width v) w)"
    if "uvarint_width v = uvarint_width w"
    using that assms uvarint_width_bound [of v] uvarint_width_bound [of w] by (simp add: dless_be_bytes)
  ultimately show ?thesis
    using assms uvarint_width_range [of v] uvarint_width_range [of w]
    by (cases "uvarint_width v = uvarint_width w") (auto simp: append_buf tag_less)
qed

interpretation uvarint_asc: key_codec "EncodeUvarintAscending []" DecodeUvarintAscending "(<)" "\<lambda>_. True"
  by unfold_locales (auto simp: DecodeUvarintAscending_roundtrip uvarint_asc_ordered)

lemma DecodeUvarintDescending_roundtrip:
  "DecodeUvarintDescending (EncodeUvarintDescending [] v @ rest) = Inr (rest, v)"
proof (cases "v = 0")
  case True
  then show ?thesis by (simp add: DecodeUvarintDescending_def append_buf)
next
  case False
  have "uvarint_width v \<le> 8" using uvarint_width_range [of v] by simp
  with False show ?thesis
    by (simp add: DecodeUvarintDescending_def append_buf unat_tag be_word_foldl_not
        be_bytes_not be_word_uvarint)
qed

lemma uvarint_desc_ordered:
  assumes "w < v"
  shows "dless (EncodeUvarintDescending [] v) (EncodeUvarintDescending [] w)"
proof -
  have "uvarint_width w \<le> uvarint_width v" "uvarint_width v \<le> 8" "uvarint_width w \<le> 8"
    "0 < uvarint_width v" "0 < uvarint_width w" "v \<noteq> 0"
    using assms uvarint_width_range [of v] uvarint_width_range [of w] uvarint_width_mono [of w v]
    by (auto simp: word_le_0_iff not_less [symmetric])
  moreover have "dless (be_bytes (uvarint_width w) w) (be_bytes (uvarint_width w) v)"
    if "uvarint_width v = uvarint_width w"
    using that assms uvarint_width_bound [of v] uvarint_width_bound [of w] by (simp add: dless_be_bytes)
  ultimately show ?thesis
    by (cases "uvarint_width v = uvarint_width w")
      (auto simp: append_buf tag_less be_bytes_not dless_map_not)
qed

interpretation uvarint_desc: key_codec "EncodeUvarintDescending []" DecodeUvarintDescending "(>)" "\<lambda>_. True"
  by unfold_locales (auto simp: DecodeUvarintDescending_roundtrip uvarint_desc_ordered)

subsection \<open>Signed varints\<close>

text \<open>A negative value \<open>v\<close> is stored as the low bytes of \<open>v\<close>, that is the complemented
  bytes of \<open>^v\<close>, under a tag that falls as the width grows.\<close>

definition nvarint_width :: "int64 \<Rightarrow> nat" where
  "nvarint_width v =
    (if sint v \<ge> - 0xff then 1 else if sint v \<ge> - 0xffff then 2 else if sint v \<ge> - 0xffffff then 3
     else if sint v \<ge> - 0xffffffff then 4 else if sint v \<ge> - 0xffffffffff then 5
     else if sint v \<ge> - 0xffffffffffff then 6 else if sint v \<ge> - 0xffffffffffffff then 7 else 8)"

lemma nvarint_width_range: "1 \<le> nvarint_width v" "nvarint_width v \<le> 8"
  by (simp_all add: nvarint_width_def)

lemma nvarint_width_mono: "sint v \<le> sint w \<Longrightarrow> nvarint_width w \<le> nvarint_width v"
  by (auto simp: nvarint_width_def)

lemma sint_bounds: "- (2 ^ LENGTH('a)) \<le> sint v" "sint v < 2 ^ LENGTH('a)" for v :: "'a::len word"
proof -
  have "(2::int) ^ (LENGTH('a) - 1) \<le> 2 ^ LENGTH('a)" by (rule power_increasing) simp_all
  then show "- (2 ^ LENGTH('a)) \<le> sint v" "sint v < 2 ^ LENGTH('a)"
    using sint_lt [of v] sint_ge [of v] by linarith+
qed

lemma sint_eq_iff: "sint v = sint w \<longleftrightarrow> v = (w :: 'a::len word)"
  using signed_word_eqI [where ?'a = int and v = v and w = w] by blast

lemma sint_NOT: "sint (NOT v :: 'a::len word) = - sint v - 1"
  using sint_bounds [of v] by (subst signed_not_eq) (simp add: not_int_def signed_take_bit_int_eq_self)

lemma unat_sint_nonneg: "0 \<le> sint v \<Longrightarrow> uint (v :: 'a::len word) = sint v"
  using sint_bounds [of v] by (simp add: uint_sint take_bit_int_eq_self)

lemma unat_NOT_neg: "sint v < 0 \<Longrightarrow> uint (NOT (v :: int64)) = - sint v - 1"
  using sint_NOT [of v] unat_sint_nonneg [of "NOT v"] by simp

lemma nvarint_width_bound: "sint v < 0 \<Longrightarrow> unat (NOT v) < 256 ^ nvarint_width v"
  using unat_NOT_neg [of v] sint_ge [of v]
  by (auto simp: nvarint_width_def unat_less_uint)

lemma EncodeVarintAscending_closed [append_buf]:
  "EncodeVarintAscending b v =
     b @ (if sint v < 0 then neg_tag (nvarint_width v) # be_bytes (nvarint_width v) v
          else EncodeUvarintAscending [] v)"
proof (cases "sint v < 0")
  case True
  then show ?thesis
    by (simp add: EncodeVarintAscending_def nvarint_width_def be_bytes_unfold neg_tag_def
        ucast_signed_drop_bit flip: One_nat_def)
next
  case False
  then show ?thesis by (simp add: EncodeVarintAscending_def append_buf)
qed

lemma be_word_nvarint:
  "sint v < 0 \<Longrightarrow> NOT (be_word (map NOT (be_bytes (nvarint_width v) v))) = v"
proof -
  assume "sint v < 0"
  then have "be_word (be_bytes (nvarint_width v) (NOT v)) = NOT v"
    by (intro be_word_be_bytes) (simp_all add: nvarint_width_bound)
  then show ?thesis
    using nvarint_width_range [of v] by (simp add: be_bytes_not)
qed

lemma uvarint_tag_ge: "\<exists>t xs. EncodeUvarintAscending [] v = t # xs \<and> 136 \<le> unat t"
  using uvarint_width_range [of v] by (auto simp: append_buf unat_tag)

lemma sint_nonneg_le: "0 \<le> sint v \<Longrightarrow> \<not> (0x7fffffffffffffff :: int64) < v"
  using unat_sint_nonneg [of v] sint_lt [of v] by (simp add: word_less_def)

lemma DecodeVarintAscending_roundtrip:
  "DecodeVarintAscending (EncodeVarintAscending [] v @ rest) = Inr (rest, v)"
proof (cases "sint v < 0")
  case True
  then show ?thesis
    using nvarint_width_range [of v]
    by (simp add: DecodeVarintAscending_def append_buf unat_tag be_word_foldl_not be_word_nvarint)
next
  case False
  obtain t xs where enc: "EncodeUvarintAscending [] v = t # xs" and "136 \<le> unat t"
    using uvarint_tag_ge by blast
  moreover have "DecodeUvarintAscending (t # xs @ rest) = Inr (rest, v)"
    using uvarint_asc.roundtrip [of v rest] enc by simp
  ultimately show ?thesis
    using False by (simp add: DecodeVarintAscending_def EncodeVarintAscending_closed sint_nonneg_le unat_le_uint)
qed

lemma word_less_sint: "v < w \<longleftrightarrow> sint v < sint w" if "0 \<le> sint v" "0 \<le> sint (w :: 'a::len word)"
  using unat_sint_nonneg [OF that(1)] unat_sint_nonneg [OF that(2)] by (simp add: word_less_def)

lemma varint_asc_ordered:
  assumes "sint v < sint w"
  shows "dless (EncodeVarintAscending [] v) (EncodeVarintAscending [] w)"
proof -
  consider (neg) "sint w < 0" | (mixed) "sint v < 0" "0 \<le> sint w" | (pos) "0 \<le> sint v"
    by linarith
  then show ?thesis
  proof cases
    case neg
    have "NOT w < NOT v"
      using assms neg unat_NOT_neg [of v] unat_NOT_neg [of w] by (simp add: word_less_def)
    then have "dless (be_bytes (nvarint_width w) v) (be_bytes (nvarint_width w) w)"
      if "nvarint_width v = nvarint_width w"
      using that assms neg nvarint_width_bound [of v] nvarint_width_bound [of w] nvarint_width_range [of w]
        dless_be_bytes [of "NOT w" "nvarint_width w" "NOT v"]
      by (simp add: be_bytes_not dless_map_not)
    then show ?thesis
      using assms neg nvarint_width_range [of v] nvarint_width_range [of w] nvarint_width_mono [of v w]
      by (cases "nvarint_width v = nvarint_width w") (auto simp: append_buf tag_less)
  next
    case mixed
    then show ?thesis
      using uvarint_tag_ge [of w] nvarint_width_range [of v]
      by (auto simp: EncodeVarintAscending_closed word_less_nat_alt unat_tag)
  next
    case pos
    then show ?thesis
      using assms uvarint_asc_ordered [of v w] word_less_sint [of v w]
      by (simp add: EncodeVarintAscending_closed)
  qed
qed

interpretation varint_asc: key_codec "EncodeVarintAscending []" DecodeVarintAscending
    "\<lambda>v w. sint v < sint w" "\<lambda>_. True"
  by unfold_locales
    (auto simp: DecodeVarintAscending_roundtrip varint_asc_ordered not_less_iff_gr_or_eq sint_eq_iff)

interpretation varint_desc: key_codec "EncodeVarintDescending []" DecodeVarintDescending
    "\<lambda>v w. sint w < sint v" "\<lambda>_. True"
  using varint_asc.roundtrip varint_asc.ordered
  by unfold_locales
    (auto simp: EncodeVarintDescending_def DecodeVarintDescending_def sint_NOT not_less_iff_gr_or_eq
      sint_eq_iff)

subsection \<open>Buffers and lengths\<close>

lemma buffer_prefix:
  "EncodeUvarintAscending b x = b @ EncodeUvarintAscending [] x"
  "EncodeUvarintDescending b x = b @ EncodeUvarintDescending [] x"
  "EncodeVarintAscending b v = b @ EncodeVarintAscending [] v"
  "EncodeVarintDescending b v = b @ EncodeVarintDescending [] v"
  by (simp_all add: EncodeVarintDescending_def append_buf)

lemma unat_wrap_neg: "- (2 ^ 64) \<le> n \<Longrightarrow> n < 0 \<Longrightarrow> uint (word_of_int n :: uint64) = 2 ^ 64 + n"
  using mod_pos_pos_trivial [of "n + 2 ^ 64" "2 ^ 64"] by (simp add: uint_word_of_int)

lemma length_uvarint_asc:
  "length (EncodeUvarintAscending [] v) = (if v \<le> intSmall then 1 else 1 + uvarint_width v)"
  by (simp add: append_buf)

lemma length_uvarint_desc:
  "length (EncodeUvarintDescending [] v) = (if v = 0 then 1 else 1 + uvarint_width v)"
  by (simp add: append_buf)

lemma getVarintLen_decoded:
  "DecodeVarintAscending b = Inr (rest, v) \<Longrightarrow> getVarintLen b = Inr (int (length b) - int (length rest))"
  by (auto simp: getVarintLen_def DecodeVarintAscending_def DecodeUvarintAscending_def Let_def
      rbind_Inr_conv split: list.splits if_splits)

lemma getVarintLen_encoded:
  "getVarintLen (EncodeVarintAscending [] v @ rest) = Inr (int (length (EncodeVarintAscending [] v)))"
  using getVarintLen_decoded [OF DecodeVarintAscending_roundtrip] by simp

subsection \<open>Properties\<close>

text \<open>In a key, a variable-width column decides the byte order by the order of its value
  (its converse for the descending encoders), and leaves it to the rest of the key exactly when
  the two values are equal; so signed and unsigned columns sort numerically across all widths.\<close>

lemma varint_key_order:
  "(EncodeVarintAscending p v @ r < EncodeVarintAscending p w @ s \<longleftrightarrow>
      sint v < sint w \<or> v = w \<and> r < s) \<and>
   (EncodeVarintDescending p v @ r < EncodeVarintDescending p w @ s \<longleftrightarrow>
      sint w < sint v \<or> v = w \<and> r < s) \<and>
   (EncodeUvarintAscending p x @ r < EncodeUvarintAscending p y @ s \<longleftrightarrow>
      x < y \<or> x = y \<and> r < s) \<and>
   (EncodeUvarintDescending p x @ r < EncodeUvarintDescending p y @ s \<longleftrightarrow>
      y < x \<or> x = y \<and> r < s)"
  using varint_asc.less_append_iff [where v = v and w = w and r = r and s = s]
    varint_desc.less_append_iff [where v = v and w = w and r = r and s = s]
    uvarint_asc.less_append_iff [where v = x and w = y and r = r and s = s]
    uvarint_desc.less_append_iff [where v = x and w = y and r = r and s = s]
  by (simp add: buffer_prefix [of p])

text \<open>Every integer decoder gives back the value its encoder appended, and the bytes
  behind it, whatever they are.\<close>

lemma int_codecs_roundtrip:
  "(DecodeUint16Ascending (EncodeUint16Ascending [] a @ rest) = Inr (rest, a)) \<and>
   (DecodeUint32Ascending (EncodeUint32Ascending [] b @ rest) = Inr (rest, b)) \<and>
   (DecodeUint32Descending (EncodeUint32Descending [] b @ rest) = Inr (rest, b)) \<and>
   (DecodeUint64Ascending (EncodeUint64Ascending [] x @ rest) = Inr (rest, x)) \<and>
   (DecodeUint64Descending (EncodeUint64Descending [] x @ rest) = Inr (rest, x)) \<and>
   (DecodeUvarintAscending (EncodeUvarintAscending [] x @ rest) = Inr (rest, x)) \<and>
   (DecodeUvarintDescending (EncodeUvarintDescending [] x @ rest) = Inr (rest, x)) \<and>
   (DecodeVarintAscending (EncodeVarintAscending [] v @ rest) = Inr (rest, v)) \<and>
   (DecodeVarintDescending (EncodeVarintDescending [] v @ rest) = Inr (rest, v))"
  by (intro conjI; rule uint16_asc.roundtrip uint32_asc.roundtrip uint32_desc.roundtrip uint64_asc.roundtrip
      uint64_desc.roundtrip uvarint_asc.roundtrip uvarint_desc.roundtrip varint_asc.roundtrip
      varint_desc.roundtrip; simp)

text \<open>The three length functions, one of them a binary search for the highest non-zero
  byte, return the length of what the encoders append, at most nine bytes.\<close>

lemma uvarint_lengths:
  "(EncodedLengthUvarintAscending x = length (EncodeUvarintAscending [] x)) \<and>
   (EncLenUvarintAscending x = length (EncodeUvarintAscending [] x)) \<and>
   (EncLenUvarintDescending x = length (EncodeUvarintDescending [] x)) \<and>
   (length (EncodeUvarintAscending [] x) \<le> 9)"
  using uvarint_width_range [of x] highestByteIndex_eq [of x]
  by (auto simp: length_uvarint_asc length_uvarint_desc EncodedLengthUvarintAscending_def
      EncLenUvarintAscending_def EncLenUvarintDescending_def uvarint_width_def)

text \<open>\<open>GetUvarintLen\<close> returns the number of bytes \<open>DecodeUvarintAscending\<close> consumes, and
  fails on the same inputs with the same error.\<close>

lemma GetUvarintLen_agrees:
  "GetUvarintLen b =
    (case DecodeUvarintAscending b of
       Inr (rest, _) \<Rightarrow> Inr (int (length b) - int (length rest))
     | Inl e \<Rightarrow> Inl e)"
  by (auto simp: GetUvarintLen_def DecodeUvarintAscending_def Let_def split: list.split)

text \<open>On a slice a signed varint decodes from, \<open>getVarintLen\<close> returns the number of bytes
  consumed.\<close>

lemma getVarintLen_consumed:
  "DecodeVarintAscending b = Inr (rest, v) \<Longrightarrow> getVarintLen b = Inr (int (length b) - int (length rest))"
  by (rule getVarintLen_decoded)

text \<open>A tag byte below \<open>intZero\<close>, which only signed encodings use, is not rejected by the
  unsigned decoder: it succeeds with the tag's negative offset wrapped into a 64-bit value.\<close>

lemma DecodeUvarintAscending_low_tag:
  "unat t < 136 \<Longrightarrow>
    DecodeUvarintAscending (t # b) = Inr (b, word_of_int (int (unat t) - 136)) \<and>
    uint (word_of_int (int (unat t) - 136) :: uint64) = 2 ^ 64 - 136 + int (unat t) \<and>
    GetUvarintLen (t # b) = Inr 1"
  using unat_wrap_neg [of "int (unat t) - 136"]
  by (simp add: DecodeUvarintAscending_def GetUvarintLen_def unat_less_uint)

end
