(* ===== verification/Enc_Bytes.thy ===== *)
theory Enc_Bytes
  imports Enc_Ints
begin

text \<open>
  The escape-based byte-string encodings of \<open>engine/pkg/util/encoding/encoding.go\<close> and the
  in-place complement of \<open>complement_fast.go\<close>.  A Go string is its bytes.  Slices are values
  here: the \<open>deepCopy\<close> flag, which only decides whether the result may alias its input, is kept
  as the code has it.
\<close>

subsection \<open>Constants and markers\<close>

abbreviation (input) bytesMarker :: byte where "bytesMarker \<equiv> 0x12"
abbreviation (input) bytesDescMarker :: byte where "bytesDescMarker \<equiv> 0x13"
abbreviation (input) geoMarker :: byte where "geoMarker \<equiv> 61"
abbreviation (input) geoDescMarker :: byte where "geoDescMarker \<equiv> 62"

abbreviation (input) escape :: byte where "escape \<equiv> 0x00"
abbreviation (input) escapedTerm :: byte where "escapedTerm \<equiv> 0x01"
abbreviation (input) escapedJSONObjectKeyTerm :: byte where "escapedJSONObjectKeyTerm \<equiv> 0x02"
abbreviation (input) escapedJSONArray :: byte where "escapedJSONArray \<equiv> 0x03"
abbreviation (input) escaped00 :: byte where "escaped00 \<equiv> 0xff"
abbreviation (input) escapedFF :: byte where "escapedFF \<equiv> 0x00"
abbreviation (input) escapeLength :: nat where "escapeLength \<equiv> 2"

record escapes =
  e_escape :: byte
  e_escapedTerm :: byte
  e_escaped00 :: byte
  e_escapedFF :: byte
  e_marker :: byte

definition ascendingBytesEscapes :: escapes where
  "ascendingBytesEscapes = \<lparr>e_escape = escape, e_escapedTerm = escapedTerm,
     e_escaped00 = escaped00, e_escapedFF = escapedFF, e_marker = bytesMarker\<rparr>"

definition descendingBytesEscapes :: escapes where
  "descendingBytesEscapes = \<lparr>e_escape = NOT escape, e_escapedTerm = NOT escapedTerm,
     e_escaped00 = NOT escaped00, e_escapedFF = NOT escapedFF, e_marker = bytesDescMarker\<rparr>"

definition ascendingGeoEscapes :: escapes where
  "ascendingGeoEscapes = \<lparr>e_escape = escape, e_escapedTerm = escapedTerm,
     e_escaped00 = escaped00, e_escapedFF = escapedFF, e_marker = geoMarker\<rparr>"

definition descendingGeoEscapes :: escapes where
  "descendingGeoEscapes = \<lparr>e_escape = NOT escape, e_escapedTerm = NOT escapedTerm,
     e_escaped00 = NOT escaped00, e_escapedFF = NOT escapedFF, e_marker = geoDescMarker\<rparr>"

text \<open>\<open>bytes.IndexByte\<close>: the position of the first occurrence; Go's -1 is \<open>None\<close>.\<close>

fun IndexByte :: "bytes \<Rightarrow> byte \<Rightarrow> nat option" where
  "IndexByte [] c = None"
| "IndexByte (x # xs) c = (if x = c then Some 0 else map_option Suc (IndexByte xs c))"

lemma IndexByte_Some:
  "IndexByte xs c = Some i \<Longrightarrow>
    i < length xs \<and> xs ! i = c \<and> c \<notin> set (take i xs) \<and> xs = take i xs @ c # drop (Suc i) xs"
  by (induction xs arbitrary: i) (auto split: if_splits)

lemma IndexByte_None: "IndexByte xs c = None \<longleftrightarrow> c \<notin> set xs"
  by (induction xs) auto

lemma IndexByte_append: "c \<notin> set xs \<Longrightarrow> IndexByte (xs @ c # ys) c = Some (length xs)"
  by (induction xs) auto

subsection \<open>Ones complement in place\<close>

text \<open>\<open>onesComplement\<close> flips whole machine words first and the trailing bytes one by one;
  \<open>ws\<close> is \<open>unsafe.Sizeof(uintptr(0))\<close>.\<close>

definition complementWord :: "nat \<Rightarrow> bytes \<Rightarrow> nat \<Rightarrow> bytes" where
  "complementWord ws b i =
     take (i * ws) b @ map NOT (take ws (drop (i * ws) b)) @ drop (i * ws + ws) b"

definition complementByte :: "bytes \<Rightarrow> nat \<Rightarrow> bytes" where
  "complementByte b i = b[i := NOT (b ! i)]"

definition onesComplement :: "nat \<Rightarrow> bytes \<Rightarrow> bytes" where
  "onesComplement ws b =
    (let n = length b; w = n div ws;
         b1 = (if w > 0 then foldl (complementWord ws) b [0..<w] else b)
     in foldl complementByte b1 [w * ws..<n])"

subsection \<open>Encoders\<close>

function encodeBytesAscendingWithoutTerminatorOrPrefix :: "bytes \<Rightarrow> bytes \<Rightarrow> bytes" where
  "encodeBytesAscendingWithoutTerminatorOrPrefix b data =
    (case IndexByte data escape of
       None \<Rightarrow> b @ data
     | Some i \<Rightarrow> encodeBytesAscendingWithoutTerminatorOrPrefix
                   ((b @ take i data) @ [escape, escaped00]) (drop (i + 1) data))"
  by pat_completeness auto
termination
  by (relation "measure (\<lambda>(b, data). length data)") (auto dest: IndexByte_Some)

declare encodeBytesAscendingWithoutTerminatorOrPrefix.simps [simp del]

definition encodeBytesAscendingWithTerminator :: "bytes \<Rightarrow> bytes \<Rightarrow> byte \<Rightarrow> bytes" where
  "encodeBytesAscendingWithTerminator b data terminator =
    (let bs = encodeBytesAscendingWithoutTerminatorOrPrefix b data in bs @ [escape, terminator])"

definition encodeBytesAscendingWithTerminatorAndPrefix ::
    "bytes \<Rightarrow> bytes \<Rightarrow> byte \<Rightarrow> byte \<Rightarrow> bytes" where
  "encodeBytesAscendingWithTerminatorAndPrefix b data terminator prefix =
     encodeBytesAscendingWithTerminator (b @ [prefix]) data terminator"

definition encodeNextBytesAscendingWithTerminator :: "bytes \<Rightarrow> bytes \<Rightarrow> byte \<Rightarrow> bytes" where
  "encodeNextBytesAscendingWithTerminator b data terminator =
    (let bs = encodeBytesAscendingWithoutTerminatorOrPrefix b data
     in bs @ [escape, escaped00, escape, terminator])"

definition EncodeBytesAscending :: "bytes \<Rightarrow> bytes \<Rightarrow> bytes" where
  "EncodeBytesAscending b data =
     encodeBytesAscendingWithTerminatorAndPrefix b data (e_escapedTerm ascendingBytesEscapes) bytesMarker"

definition EncodeNextBytesAscending :: "bytes \<Rightarrow> bytes \<Rightarrow> bytes" where
  "EncodeNextBytesAscending b data =
     encodeNextBytesAscendingWithTerminator (b @ [bytesMarker]) data (e_escapedTerm ascendingBytesEscapes)"

text \<open>The descending form overwrites the marker and complements everything after it.\<close>

definition EncodeBytesDescending :: "nat \<Rightarrow> bytes \<Rightarrow> bytes \<Rightarrow> bytes" where
  "EncodeBytesDescending ws b data =
    (let n = length b;
         b1 = EncodeBytesAscending b data;
         b2 = b1[n := bytesDescMarker]
     in take (n + 1) b2 @ onesComplement ws (drop (n + 1) b2))"

definition EncodeBytesSize :: "bytes \<Rightarrow> nat" where
  "EncodeBytesSize data = length data + 3 + count_list data escape"

definition EncodeNextBytesSize :: "bytes \<Rightarrow> nat" where
  "EncodeNextBytesSize data = length data + 5 + count_list data escape"

subsection \<open>Decoders\<close>

function decodeBytesLoop :: "bytes \<Rightarrow> bytes \<Rightarrow> escapes \<Rightarrow> bool \<Rightarrow> (bytes \<times> bytes) result" where
  "decodeBytesLoop b r e deepCopy =
    (case IndexByte b (e_escape e) of
       None \<Rightarrow> Inl (Errorf ''did not find terminator %#x in buffer %#x'')
     | Some i \<Rightarrow>
         if i + 1 \<ge> length b then Inl (Errorf ''malformed escape in buffer %#x'')
         else
           let v = b ! (i + 1) in
           if v = e_escapedTerm e then
             Inr (drop (i + 2) b, if r = [] \<and> \<not> deepCopy then take i b else r @ take i b)
           else if v \<noteq> e_escaped00 e then Inl (Errorf ''unknown escape sequence: %#x %#x'')
           else decodeBytesLoop (drop (i + 2) b) ((r @ take i b) @ [e_escapedFF e]) e deepCopy)"
  by pat_completeness auto
termination
  by (relation "measure (\<lambda>(b, r, e, d). length b)") auto

declare decodeBytesLoop.simps [simp del]

definition decodeBytesInternal ::
    "bytes \<Rightarrow> bytes \<Rightarrow> escapes \<Rightarrow> bool \<Rightarrow> bool \<Rightarrow> (bytes \<times> bytes) result" where
  "decodeBytesInternal b r e expectMarker deepCopy =
    (if expectMarker then
       (case b of [] \<Rightarrow> Inl (Errorf ''did not find marker %#x in buffer %#x'')
        | t # b1 \<Rightarrow> if t \<noteq> e_marker e then Inl (Errorf ''did not find marker %#x in buffer %#x'')
                    else decodeBytesLoop b1 r e deepCopy)
     else decodeBytesLoop b r e deepCopy)"

definition DecodeBytesAscending :: "bytes \<Rightarrow> bytes \<Rightarrow> (bytes \<times> bytes) result" where
  "DecodeBytesAscending b r = decodeBytesInternal b r ascendingBytesEscapes True False"

definition DecodeBytesAscendingDeepCopy :: "bytes \<Rightarrow> bytes \<Rightarrow> (bytes \<times> bytes) result" where
  "DecodeBytesAscendingDeepCopy b r = decodeBytesInternal b r ascendingBytesEscapes True True"

definition DecodeBytesDescending :: "nat \<Rightarrow> bytes \<Rightarrow> bytes \<Rightarrow> (bytes \<times> bytes) result" where
  "DecodeBytesDescending ws b r =
     rbind (decodeBytesInternal b r descendingBytesEscapes True True)
       (\<lambda>(b1, r1). Inr (b1, onesComplement ws r1))"

text \<open>\<open>getBytesLength\<close> indexes \<open>b\<close> after a bounds check against the whole slice.\<close>

function getBytesLengthLoop :: "bytes \<Rightarrow> escapes \<Rightarrow> nat \<Rightarrow> nat result" where
  "getBytesLengthLoop b e skipped =
    (if skipped > length b then Inl (Panic ''slice bounds out of range'')
     else case IndexByte (drop skipped b) (e_escape e) of
       None \<Rightarrow> Inl (Errorf ''did not find terminator %#x in buffer %#x'')
     | Some i \<Rightarrow>
         if i + 1 \<ge> length b then Inl (Errorf ''malformed escape in buffer %#x'')
         else
           let skipped' = skipped + i + escapeLength in
           if skipped' - 1 \<ge> length b then Inl (Panic ''index out of range'')
           else if b ! (skipped' - 1) = e_escapedTerm e then Inr skipped'
           else getBytesLengthLoop b e skipped')"
  by pat_completeness auto
termination
  by (relation "measure (\<lambda>(b, e, skipped). Suc (length b) - skipped)") auto

declare getBytesLengthLoop.simps [simp del]

definition getBytesLength :: "bytes \<Rightarrow> escapes \<Rightarrow> nat result" where
  "getBytesLength b e = getBytesLengthLoop b e 1"

subsection \<open>Strings and JSON path pieces\<close>

definition UnsafeConvertStringToBytes :: "bytes \<Rightarrow> bytes" where
  "UnsafeConvertStringToBytes s = (if length s = 0 then [] else take (length s) s)"

definition encodeStringAscendingWithTerminatorAndPrefix ::
    "bytes \<Rightarrow> bytes \<Rightarrow> byte \<Rightarrow> byte \<Rightarrow> bytes" where
  "encodeStringAscendingWithTerminatorAndPrefix b s terminator prefix =
     encodeBytesAscendingWithTerminatorAndPrefix b (UnsafeConvertStringToBytes s) terminator prefix"

definition EncodeStringAscending :: "bytes \<Rightarrow> bytes \<Rightarrow> bytes" where
  "EncodeStringAscending b s =
     encodeStringAscendingWithTerminatorAndPrefix b s (e_escapedTerm ascendingBytesEscapes) bytesMarker"

definition EncodeStringDescending :: "nat \<Rightarrow> bytes \<Rightarrow> bytes \<Rightarrow> bytes" where
  "EncodeStringDescending ws b s =
    (if length s = 0 then EncodeBytesDescending ws b []
     else EncodeBytesDescending ws b (take (length s) s))"

definition DecodeUnsafeStringAscending :: "bytes \<Rightarrow> bytes \<Rightarrow> (bytes \<times> bytes) result" where
  "DecodeUnsafeStringAscending b r = DecodeBytesAscending b r"

definition DecodeUnsafeStringAscendingDeepCopy :: "bytes \<Rightarrow> bytes \<Rightarrow> (bytes \<times> bytes) result" where
  "DecodeUnsafeStringAscendingDeepCopy b r = DecodeBytesAscendingDeepCopy b r"

definition DecodeUnsafeStringDescending :: "nat \<Rightarrow> bytes \<Rightarrow> bytes \<Rightarrow> (bytes \<times> bytes) result" where
  "DecodeUnsafeStringDescending ws b r = DecodeBytesDescending ws b r"

definition EncodeJSONKeyStringAscending :: "bytes \<Rightarrow> bytes \<Rightarrow> bool \<Rightarrow> bytes" where
  "EncodeJSONKeyStringAscending b s isEnd =
    (let str = UnsafeConvertStringToBytes s in
     if isEnd then encodeBytesAscendingWithoutTerminatorOrPrefix b str
     else encodeBytesAscendingWithTerminator b str escapedJSONObjectKeyTerm)"

definition AddJSONPathTerminator :: "bytes \<Rightarrow> bytes" where
  "AddJSONPathTerminator b = b @ [escape, escapedTerm]"

definition AddJSONPathSeparator :: "bytes \<Rightarrow> bytes" where
  "AddJSONPathSeparator b = b @ [escape, escapedJSONObjectKeyTerm]"

definition EncodeJSONObjectSpanStartAscending :: "bytes \<Rightarrow> bytes" where
  "EncodeJSONObjectSpanStartAscending b = b @ [escape, escaped00]"

definition EncodeArrayAscending :: "bytes \<Rightarrow> bytes" where
  "EncodeArrayAscending b = b @ [escape, escapedJSONArray]"

subsection \<open>Ones complement is the bytewise complement\<close>

lemma complement_words:
  "w * ws \<le> length b \<Longrightarrow>
    foldl (complementWord ws) b [0..<w] = map NOT (take (w * ws) b) @ drop (w * ws) b"
proof (induction w)
  case (Suc w)
  let ?c = "map NOT (take (w * ws) b) @ drop (w * ws) b"
  have len: "length (take (w * ws) b) = w * ws" using Suc.prems by simp
  have "foldl (complementWord ws) b [0..<Suc w] = complementWord ws ?c w"
    using Suc by simp
  also have "\<dots> = map NOT (take (w * ws) b) @ map NOT (take ws (drop (w * ws) b)) @ drop (w * ws + ws) b"
    using len by (simp add: complementWord_def add.commute)
  also have "\<dots> = map NOT (take (Suc w * ws) b) @ drop (Suc w * ws) b"
    using take_add [of "w * ws" ws b] by (simp add: add.commute flip: map_append)
  finally show ?case .
qed simp

lemma complement_bytes:
  "foldl complementByte (map NOT (take k b) @ drop k b) [k..<k + m] =
    map NOT (take (k + m) b) @ drop (k + m) b" if "k + m \<le> length b"
  using that
proof (induction m)
  case (Suc m)
  then have "k + m < length b" by simp
  then show ?case
    using Suc by (simp add: complementByte_def list_update_append nth_append take_Suc_conv_app_nth
        flip: Cons_nth_drop_Suc)
qed simp

lemma onesComplement_eq: "0 < ws \<Longrightarrow> onesComplement ws b = map NOT b"
proof -
  assume "0 < ws"
  let ?k = "length b div ws * ws"
  have le: "?k \<le> length b" by simp
  have "onesComplement ws b = foldl complementByte (map NOT (take ?k b) @ drop ?k b) [?k..<length b]"
    using complement_words [OF le] by (simp add: onesComplement_def Let_def)
  also have "\<dots> = map NOT b"
    using complement_bytes [of ?k "length b - ?k" b] le by simp
  finally show ?thesis .
qed

subsection \<open>The escaped form\<close>

definition esc :: "escapes \<Rightarrow> bytes \<Rightarrow> bytes" where
  "esc e data = concat (map (\<lambda>x. if x = e_escape e then [e_escape e, e_escaped00 e] else [x]) data)"

lemma esc_simps [simp]:
  "esc e [] = []"
  "esc e (x # xs) = (if x = e_escape e then [e_escape e, e_escaped00 e] else [x]) @ esc e xs"
  by (simp_all add: esc_def)

lemma esc_append [simp]: "esc e (xs @ ys) = esc e xs @ esc e ys"
  by (simp add: esc_def)

lemma esc_clean: "e_escape e \<notin> set xs \<Longrightarrow> esc e xs = xs"
  by (induction xs) auto

lemma length_esc: "length (esc e data) = length data + count_list data (e_escape e)"
  by (induction data) auto

lemmas escapes_defs = ascendingBytesEscapes_def descendingBytesEscapes_def
  ascendingGeoEscapes_def descendingGeoEscapes_def

lemma encodeBytes_esc:
  "encodeBytesAscendingWithoutTerminatorOrPrefix b data = b @ esc ascendingBytesEscapes data"
proof (induction b data rule: encodeBytesAscendingWithoutTerminatorOrPrefix.induct)
  case (1 b data)
  show ?case
  proof (cases "IndexByte data escape")
    case None
    moreover have "escape \<notin> set data" using None by (simp add: IndexByte_None)
    ultimately show ?thesis
      by (simp add: encodeBytesAscendingWithoutTerminatorOrPrefix.simps [of b data] esc_clean escapes_defs)
  next
    case (Some i)
    have split: "data = take i data @ escape # drop (Suc i) data" "escape \<notin> set (take i data)"
      using IndexByte_Some [OF Some] by auto
    have "esc ascendingBytesEscapes data =
        take i data @ [escape, escaped00] @ esc ascendingBytesEscapes (drop (Suc i) data)"
      by (subst split(1)) (simp add: esc_clean split(2) escapes_defs)
    then show ?thesis
      using 1 [OF Some]
      by (simp add: encodeBytesAscendingWithoutTerminatorOrPrefix.simps [of b data] Some)
  qed
qed

lemma EncodeBytesAscending_closed [append_buf]:
  "EncodeBytesAscending b data = b @ bytesMarker # esc ascendingBytesEscapes data @ [escape, escapedTerm]"
  by (simp add: EncodeBytesAscending_def encodeBytesAscendingWithTerminatorAndPrefix_def
      encodeBytesAscendingWithTerminator_def encodeBytes_esc ascendingBytesEscapes_def)

lemma map_not_esc: "map NOT (esc ascendingBytesEscapes data) = esc descendingBytesEscapes (map NOT data)"
proof (induction data)
  case (Cons x xs)
  have "NOT x = - 1 \<longleftrightarrow> x = 0"
    by (metis bit.compl_zero bit.double_compl)
  with Cons show ?case by (simp add: escapes_defs)
qed simp

lemma EncodeBytesDescending_closed [append_buf]:
  "0 < ws \<Longrightarrow> EncodeBytesDescending ws b data =
    b @ bytesDescMarker # map NOT (esc ascendingBytesEscapes data @ [escape, escapedTerm])"
  by (simp add: EncodeBytesDescending_def EncodeBytesAscending_closed onesComplement_eq Let_def
      list_update_append)

subsection \<open>Decoding\<close>

text \<open>What a set of escapes must satisfy for its strings to be decodable.\<close>

definition wf_escapes :: "escapes \<Rightarrow> bool" where
  "wf_escapes e \<longleftrightarrow> e_escapedFF e = e_escape e \<and> e_escaped00 e \<noteq> e_escapedTerm e"

lemma wf_escapes_all [simp]:
  "wf_escapes ascendingBytesEscapes" "wf_escapes descendingBytesEscapes"
  "wf_escapes ascendingGeoEscapes" "wf_escapes descendingGeoEscapes"
  by (simp_all add: wf_escapes_def escapes_defs)

lemma decode_clean_byte:
  "x \<noteq> e_escape e \<Longrightarrow> decodeBytesLoop (x # b) r e d = decodeBytesLoop b (r @ [x]) e d"
  by (cases "IndexByte b (e_escape e)")
    (auto simp: decodeBytesLoop.simps [of "x # b"] decodeBytesLoop.simps [of b] Let_def)

lemma decode_terminator:
  "decodeBytesLoop (e_escape e # e_escapedTerm e # b) r e d = Inr (b, r)"
  by (simp add: decodeBytesLoop.simps [of "e_escape e # e_escapedTerm e # b"] Let_def)

lemma decode_escaped:
  "wf_escapes e \<Longrightarrow> decodeBytesLoop (e_escape e # e_escaped00 e # b) r e d =
    decodeBytesLoop b (r @ [e_escape e]) e d"
  by (simp add: decodeBytesLoop.simps [of "e_escape e # e_escaped00 e # b"] wf_escapes_def Let_def)

lemma decodeBytesLoop_esc:
  "wf_escapes e \<Longrightarrow>
    decodeBytesLoop (esc e data @ e_escape e # e_escapedTerm e # rest) r e d = Inr (rest, r @ data)"
  by (induction data arbitrary: r) (auto simp: decode_terminator decode_escaped decode_clean_byte)

lemma decodeBytesInternal_asc:
  "decodeBytesInternal (EncodeBytesAscending [] data @ rest) r ascendingBytesEscapes True d =
    Inr (rest, r @ data)"
  using decodeBytesLoop_esc [of ascendingBytesEscapes data rest r d]
  by (simp add: decodeBytesInternal_def append_buf) (simp add: escapes_defs)

lemma DecodeBytesDescending_enc:
  assumes "0 < ws"
  shows "DecodeBytesDescending ws (EncodeBytesDescending ws [] data @ rest) r =
    Inr (rest, map NOT r @ data)"
  using decodeBytesLoop_esc [of descendingBytesEscapes "map NOT data" rest r True] assms
  by (simp add: DecodeBytesDescending_def decodeBytesInternal_def append_buf onesComplement_eq map_not_esc)
    (simp add: escapes_defs onesComplement_eq)

subsection \<open>Order\<close>

lemma esc_asc_ordered:
  "data < data' \<Longrightarrow>
    dless (esc ascendingBytesEscapes data @ [escape, escapedTerm])
          (esc ascendingBytesEscapes data' @ [escape, escapedTerm])"
proof (induction data arbitrary: data')
  case Nil
  then show ?case
    by (cases data') (auto simp: escapes_defs word_neq_0_conv)
next
  case (Cons x xs)
  then obtain y ys where "data' = y # ys" by (cases data') auto
  with Cons show ?case
    by (auto simp: escapes_defs word_neq_0_conv)
qed

lemma bytes_asc_ordered: "v < w \<Longrightarrow> dless (EncodeBytesAscending [] v) (EncodeBytesAscending [] w)"
  by (simp add: EncodeBytesAscending_closed esc_asc_ordered)

lemma bytes_desc_ordered:
  "0 < ws \<Longrightarrow> w < v \<Longrightarrow> dless (EncodeBytesDescending ws [] v) (EncodeBytesDescending ws [] w)"
  by (simp add: EncodeBytesDescending_closed dless_map_not esc_asc_ordered del: map_append)

interpretation bytes_asc: key_codec "EncodeBytesAscending []" "\<lambda>b. DecodeBytesAscending b []" "(<)" "\<lambda>_. True"
  by unfold_locales (auto simp: DecodeBytesAscending_def decodeBytesInternal_asc bytes_asc_ordered)

interpretation bytes_desc: key_codec "EncodeBytesDescending 8 []" "\<lambda>b. DecodeBytesDescending 8 b []" "(>)" "\<lambda>_. True"
  by unfold_locales (auto simp: DecodeBytesDescending_enc bytes_desc_ordered)

subsection \<open>Scanning for the end of an encoding\<close>

lemma getBytesLengthLoop_skip:
  "0 < s \<Longrightarrow> drop s b = x # c \<Longrightarrow> x \<noteq> e_escape e \<Longrightarrow>
    getBytesLengthLoop b e s = getBytesLengthLoop b e (Suc s)"
proof -
  assume s: "0 < s" and d: "drop s b = x # c" and x: "x \<noteq> e_escape e"
  have c: "drop (Suc s) b = c" using d by (metis drop_Suc tl_drop list.sel(3))
  have "s < length b" using d by (metis drop_eq_Nil list.distinct(1) not_le)
  moreover have "length c = length b - Suc s" using c by (metis length_drop)
  ultimately show ?thesis
    using s x d c
    by (cases "IndexByte c (e_escape e)")
      (auto simp: getBytesLengthLoop.simps [of b e s] getBytesLengthLoop.simps [of b e "Suc s"] Let_def
        dest!: IndexByte_Some)
qed

lemma getBytesLengthLoop_esc:
  assumes "wf_escapes e" "p \<noteq> []"
  shows "getBytesLengthLoop (p @ esc e data @ e_escape e # e_escapedTerm e # rest) e (length p) =
    Inr (length p + length (esc e data) + 2)"
  using assms(2)
proof (induction data arbitrary: p)
  case Nil
  then show ?case by (simp add: getBytesLengthLoop.simps nth_append Let_def)
next
  case (Cons x xs)
  let ?tl = "esc e xs @ e_escape e # e_escapedTerm e # rest"
  show ?case
  proof (cases "x = e_escape e")
    case True
    have "getBytesLengthLoop (p @ e_escape e # e_escaped00 e # ?tl) e (length p) =
        getBytesLengthLoop ((p @ [e_escape e, e_escaped00 e]) @ ?tl) e (length (p @ [e_escape e, e_escaped00 e]))"
      using Cons.prems assms(1)
      by (subst getBytesLengthLoop.simps) (auto simp: nth_append wf_escapes_def Let_def)
    also have "\<dots> = Inr (length p + 2 + length (esc e xs) + 2)"
      using Cons.IH [of "p @ [e_escape e, e_escaped00 e]"] by simp
    finally show ?thesis using True by simp
  next
    case False
    have "getBytesLengthLoop (p @ x # ?tl) e (length p) = getBytesLengthLoop ((p @ [x]) @ ?tl) e (length (p @ [x]))"
      using getBytesLengthLoop_skip [of "length p" "p @ x # ?tl" x ?tl e] Cons.prems False by simp
    also have "\<dots> = Inr (length p + 1 + length (esc e xs) + 2)"
      using Cons.IH [of "p @ [x]"] by simp
    finally show ?thesis using False by simp
  qed
qed

text \<open>The loop of \<open>decodeBytesInternal\<close> accepts nothing but what the encoder writes.\<close>

lemma decodeBytesLoop_sound:
  "decodeBytesLoop b r e d = Inr (rest, out) \<Longrightarrow> wf_escapes e \<Longrightarrow>
    \<exists>data. out = r @ data \<and> b = esc e data @ e_escape e # e_escapedTerm e # rest"
proof (induction b r e d rule: decodeBytesLoop.induct)
  case (1 b r e d)
  note IH = "1.IH" and wf = "1.prems"(2)
  from "1.prems"(1) obtain i where i: "IndexByte b (e_escape e) = Some i" and len: "\<not> i + 1 \<ge> length b"
    by (auto simp: decodeBytesLoop.simps [of b] split: option.splits if_splits)
  have split: "b = take i b @ e_escape e # drop (Suc i) b" "e_escape e \<notin> set (take i b)"
    using IndexByte_Some [OF i] by auto
  have tl: "drop (Suc i) b = b ! (i + 1) # drop (i + 2) b"
    using len by (simp add: Cons_nth_drop_Suc)
  have b: "b = take i b @ e_escape e # b ! (i + 1) # drop (i + 2) b"
    using split(1) tl by simp
  show ?case
  proof (cases "b ! (i + 1) = e_escapedTerm e")
    case True
    then have "out = r @ take i b" "rest = drop (i + 2) b"
      using "1.prems"(1) i len by (auto simp: decodeBytesLoop.simps [of b] Let_def split: if_splits)
    then show ?thesis using b True split(2) by (auto simp: esc_clean)
  next
    case False
    then have v: "b ! (i + 1) = e_escaped00 e"
      and rec: "decodeBytesLoop (drop (i + 2) b) ((r @ take i b) @ [e_escapedFF e]) e d = Inr (rest, out)"
      using "1.prems"(1) i len by (auto simp: decodeBytesLoop.simps [of b] Let_def split: if_splits)
    then obtain data where data: "out = ((r @ take i b) @ [e_escapedFF e]) @ data"
        "drop (i + 2) b = esc e data @ e_escape e # e_escapedTerm e # rest"
      using IH [OF i len refl False _ rec wf] v by auto
    have "b = esc e (take i b @ e_escape e # data) @ e_escape e # e_escapedTerm e # rest"
      using b v data(2) split(2) by (simp add: esc_clean)
    then show ?thesis using data(1) wf by (intro exI [of _ "take i b @ e_escape e # data"]) (simp add: wf_escapes_def)
  qed
qed

lemma DecodeBytesAscending_iff:
  "DecodeBytesAscending b r = Inr (rest, out) \<longleftrightarrow>
    (\<exists>data. out = r @ data \<and> b = EncodeBytesAscending [] data @ rest)"
proof
  assume "DecodeBytesAscending b r = Inr (rest, out)"
  then obtain c where "b = bytesMarker # c" "decodeBytesLoop c r ascendingBytesEscapes False = Inr (rest, out)"
    by (cases b) (auto simp: DecodeBytesAscending_def decodeBytesInternal_def escapes_defs split: if_splits)
  then show "\<exists>data. out = r @ data \<and> b = EncodeBytesAscending [] data @ rest"
    using decodeBytesLoop_sound [of c r ascendingBytesEscapes False rest out]
    by (auto simp: append_buf) (auto simp: escapes_defs)
qed (auto simp: DecodeBytesAscending_def decodeBytesInternal_asc)

lemma EncodeNextBytesAscending_eq: "EncodeNextBytesAscending b data = EncodeBytesAscending b (data @ [0])"
  by (simp add: EncodeNextBytesAscending_def encodeNextBytesAscendingWithTerminator_def encodeBytes_esc append_buf)
    (simp add: escapes_defs)

lemma EncodeBytesSize_eq: "EncodeBytesSize data = length (EncodeBytesAscending [] data)"
  by (simp add: append_buf length_esc EncodeBytesSize_def) (simp add: escapes_defs)

lemma EncodeNextBytesSize_eq: "EncodeNextBytesSize data = length (EncodeNextBytesAscending [] data)"
  by (simp add: EncodeNextBytesAscending_eq append_buf length_esc EncodeNextBytesSize_def)
    (simp add: escapes_defs)

subsection \<open>Properties\<close>

text \<open>In a key, an ascending byte-string column decides the byte order by the
  lexicographic order of the strings and a descending one by its converse, embedded zero
  bytes and prefixes included; the rest of the key decides only between equal strings.\<close>

lemma bytes_key_order:
  "(EncodeBytesAscending p v @ r < EncodeBytesAscending p w @ s \<longleftrightarrow> v < w \<or> v = w \<and> r < s) \<and>
   (EncodeBytesDescending 8 p v @ r < EncodeBytesDescending 8 p w @ s \<longleftrightarrow> w < v \<or> v = w \<and> r < s)"
  using bytes_asc.less_append_iff [where v = v and w = w and r = r and s = s]
    bytes_desc.less_append_iff [where v = v and w = w and r = r and s = s]
  by (simp add: EncodeBytesAscending_closed [of p] EncodeBytesAscending_closed [of "[]"]
      EncodeBytesDescending_closed [of 8 p] EncodeBytesDescending_closed [of 8 "[]"])

text \<open>C33: \<open>DecodeBytesAscending\<close> is the exact inverse of the encoder: it appends the encoded
  string to \<open>r\<close> and returns the rest of the buffer on an encoding, and succeeds on no other
  input.\<close>

theorem DecodeBytesAscending_exact:
  "DecodeBytesAscending b r = Inr (rest, out) \<longleftrightarrow>
    (\<exists>data. out = r @ data \<and> b = EncodeBytesAscending [] data @ rest)"
  by (rule DecodeBytesAscending_iff)

text \<open>Decoding a descending string gives back the string and the rest of the buffer; bytes
  already in the destination come back complemented, unlike in the ascending decoder.\<close>

lemma DecodeBytesDescending_roundtrip:
  "DecodeBytesDescending 8 (EncodeBytesDescending 8 [] data @ rest) r = Inr (rest, map NOT r @ data)"
  by (rule DecodeBytesDescending_enc) simp

text \<open>\<open>EncodeNextBytesAscending\<close> encodes the immediate successor of its argument, and the
  two size functions return the exact lengths of the two encodings.\<close>

lemma EncodeNextBytesAscending_succ:
  "EncodeNextBytesAscending b data = EncodeBytesAscending b (data @ [0]) \<and>
   EncodeBytesSize data = length (EncodeBytesAscending [] data) \<and>
   EncodeNextBytesSize data = length (EncodeNextBytesAscending [] data)"
  by (simp add: EncodeNextBytesAscending_eq EncodeBytesSize_eq EncodeNextBytesSize_eq)

text \<open>Complementing a word at a time and then the trailing bytes is the bytewise
  complement, for every word size.\<close>

lemma onesComplement_bytewise: "0 < ws \<Longrightarrow> onesComplement ws b = map NOT b"
  by (rule onesComplement_eq)

text \<open>On an encoded string \<open>getBytesLength\<close> finds the length of the encoding; on a marker,
  bytes that hold no escape, and a trailing escape byte it panics instead of reporting the
  malformed escape, since it compares an index relative to the skipped part with the length of
  the whole slice.\<close>

lemma getBytesLength_behaviour:
  "getBytesLength (EncodeBytesAscending [] data @ rest) ascendingBytesEscapes =
      Inr (length (EncodeBytesAscending [] data)) \<and>
   getBytesLength (EncodeBytesDescending 8 [] data @ rest) descendingBytesEscapes =
      Inr (length (EncodeBytesDescending 8 [] data)) \<and>
   getBytesLength (bytesMarker # filter (\<lambda>x. x \<noteq> escape) data @ [escape]) ascendingBytesEscapes =
      Inl (Panic ''index out of range'')"
proof -
  have asc: "EncodeBytesAscending [] data =
      [bytesMarker] @ esc ascendingBytesEscapes data @ [e_escape ascendingBytesEscapes, e_escapedTerm ascendingBytesEscapes]"
    by (simp add: append_buf) (simp add: escapes_defs)
  have desc: "EncodeBytesDescending 8 [] data =
      [bytesDescMarker] @ esc descendingBytesEscapes (map NOT data) @
      [e_escape descendingBytesEscapes, e_escapedTerm descendingBytesEscapes]"
    by (simp add: append_buf map_not_esc) (simp add: escapes_defs)
  have "getBytesLength (EncodeBytesAscending [] data @ rest) ascendingBytesEscapes =
      Inr (length (EncodeBytesAscending [] data))"
    using getBytesLengthLoop_esc [of ascendingBytesEscapes "[bytesMarker]" data rest]
    by (simp add: getBytesLength_def asc)
  moreover have "getBytesLength (EncodeBytesDescending 8 [] data @ rest) descendingBytesEscapes =
      Inr (length (EncodeBytesDescending 8 [] data))"
    using getBytesLengthLoop_esc [of descendingBytesEscapes "[bytesDescMarker]" "map NOT data" rest]
    by (simp add: getBytesLength_def desc)
  moreover have "getBytesLength (bytesMarker # filter (\<lambda>x. x \<noteq> escape) data @ [escape]) ascendingBytesEscapes =
      Inl (Panic ''index out of range'')"
    using IndexByte_append [of escape "filter (\<lambda>x. x \<noteq> escape) data" "[]"]
    by (simp add: getBytesLength_def getBytesLengthLoop.simps Let_def ascendingBytesEscapes_def)
  ultimately show ?thesis by blast
qed

end
