(* ===== verification/Enc_Keys.thy ===== *)
theory Enc_Keys
  imports Enc_Bytes
begin

text \<open>
  Typed keys, \<open>engine/pkg/util/encoding/encoding.go\<close>: the type marker at the front of an encoded
  column and its lookup table, NULL and not-NULL markers, times and times of day with a zone, void,
  and the markers of array keys.  The time codecs are the pair of two signed varints behind a
  marker, so their order and round trip come from the contract of a pair of codecs.
\<close>

subsection \<open>Types and markers\<close>

type_synonym Type = int

abbreviation (input) Unknown :: Type where "Unknown \<equiv> 0"
abbreviation (input) Null :: Type where "Null \<equiv> 1"
abbreviation (input) NotNull :: Type where "NotNull \<equiv> 2"
abbreviation (input) Type_Int :: Type where "Type_Int \<equiv> 3"
abbreviation (input) Float :: Type where "Float \<equiv> 4"
abbreviation (input) Decimal :: Type where "Decimal \<equiv> 5"
abbreviation (input) Bytes :: Type where "Bytes \<equiv> 6"
abbreviation (input) BytesDesc :: Type where "BytesDesc \<equiv> 7"
abbreviation (input) Time :: Type where "Time \<equiv> 8"
abbreviation (input) Duration :: Type where "Duration \<equiv> 9"
abbreviation (input) Type_True :: Type where "Type_True \<equiv> 10"
abbreviation (input) Type_False :: Type where "Type_False \<equiv> 11"
abbreviation (input) UUID :: Type where "UUID \<equiv> 12"
abbreviation (input) Array :: Type where "Array \<equiv> 13"
abbreviation (input) IPAddr :: Type where "IPAddr \<equiv> 14"
abbreviation (input) SentinelType :: Type where "SentinelType \<equiv> 15"
abbreviation (input) JSON :: Type where "JSON \<equiv> 15"
abbreviation (input) Tuple :: Type where "Tuple \<equiv> 16"
abbreviation (input) BitArray :: Type where "BitArray \<equiv> 17"
abbreviation (input) BitArrayDesc :: Type where "BitArrayDesc \<equiv> 18"
abbreviation (input) TimeTZ :: Type where "TimeTZ \<equiv> 19"
abbreviation (input) Geo :: Type where "Geo \<equiv> 20"
abbreviation (input) GeoDesc :: Type where "GeoDesc \<equiv> 21"
abbreviation (input) ArrayKeyAsc :: Type where "ArrayKeyAsc \<equiv> 22"
abbreviation (input) ArrayKeyDesc :: Type where "ArrayKeyDesc \<equiv> 23"
abbreviation (input) Box2D :: Type where "Box2D \<equiv> 24"
abbreviation (input) Void :: Type where "Void \<equiv> 25"
abbreviation (input) TSQuery :: Type where "TSQuery \<equiv> 26"
abbreviation (input) TSVector :: Type where "TSVector \<equiv> 27"

abbreviation (input) encodedNull :: byte where "encodedNull \<equiv> 0x00"
abbreviation (input) encodedNotNull :: byte where "encodedNotNull \<equiv> 0x01"
abbreviation (input) encodedNotNullDesc :: byte where "encodedNotNullDesc \<equiv> 0xfe"
abbreviation (input) encodedNullDesc :: byte where "encodedNullDesc \<equiv> 0xff"
abbreviation (input) floatNaN :: byte where "floatNaN \<equiv> 2"
abbreviation (input) floatNaNDesc :: byte where "floatNaNDesc \<equiv> 6"
abbreviation (input) timeMarker :: byte where "timeMarker \<equiv> 20"
abbreviation (input) durationBigNegMarker :: byte where "durationBigNegMarker \<equiv> 21"
abbreviation (input) durationMarker :: byte where "durationMarker \<equiv> 22"
abbreviation (input) durationBigPosMarker :: byte where "durationBigPosMarker \<equiv> 23"
abbreviation (input) decimalNaN :: byte where "decimalNaN \<equiv> 24"
abbreviation (input) decimalNaNDesc :: byte where "decimalNaNDesc \<equiv> 54"
abbreviation (input) jsonInvertedIndex :: byte where "jsonInvertedIndex \<equiv> 55"
abbreviation (input) jsonEmptyArray :: byte where "jsonEmptyArray \<equiv> 56"
abbreviation (input) jsonEmptyObject :: byte where "jsonEmptyObject \<equiv> 57"
abbreviation (input) bitArrayMarker :: byte where "bitArrayMarker \<equiv> 58"
abbreviation (input) bitArrayDescMarker :: byte where "bitArrayDescMarker \<equiv> 59"
abbreviation (input) timeTZMarker :: byte where "timeTZMarker \<equiv> 60"
abbreviation (input) arrayKeyMarker :: byte where "arrayKeyMarker \<equiv> 63"
abbreviation (input) arrayKeyDescendingMarker :: byte where "arrayKeyDescendingMarker \<equiv> 64"
abbreviation (input) box2DMarker :: byte where "box2DMarker \<equiv> 65"
abbreviation (input) geoInvertedIndexMarker :: byte where "geoInvertedIndexMarker \<equiv> 66"
abbreviation (input) emptyArray :: byte where "emptyArray \<equiv> 67"
abbreviation (input) voidMarker :: byte where "voidMarker \<equiv> 68"
abbreviation (input) arrayKeyTerminator :: byte where "arrayKeyTerminator \<equiv> 0x00"
abbreviation (input) arrayKeyDescendingTerminator :: byte where "arrayKeyDescendingTerminator \<equiv> 0xff"
abbreviation (input) ascendingNullWithinArrayKey :: byte where "ascendingNullWithinArrayKey \<equiv> 0x01"
abbreviation (input) descendingNullWithinArrayKey :: byte where "descendingNullWithinArrayKey \<equiv> 0xfe"

definition slowPeekType :: "bytes \<Rightarrow> Type" where
  "slowPeekType b =
    (case b of [] \<Rightarrow> Unknown
     | m # _ \<Rightarrow>
       if m = encodedNull \<or> m = encodedNullDesc then Null
       else if m = encodedNotNull \<or> m = encodedNotNullDesc then NotNull
       else if m = arrayKeyMarker then ArrayKeyAsc
       else if m = arrayKeyDescendingMarker then ArrayKeyDesc
       else if m = bytesMarker then Bytes
       else if m = bytesDescMarker then BytesDesc
       else if m = bitArrayMarker then BitArray
       else if m = bitArrayDescMarker then BitArrayDesc
       else if m = timeMarker then Time
       else if m = timeTZMarker then TimeTZ
       else if m = geoMarker then Geo
       else if m = box2DMarker then Box2D
       else if m = geoDescMarker then GeoDesc
       else if m = 13 then Array
       else if m = 10 then Type_True
       else if m = 11 then Type_False
       else if m = durationBigNegMarker \<or> m = durationMarker \<or> m = durationBigPosMarker then Duration
       else if m \<ge> IntMin \<and> m \<le> IntMax then Type_Int
       else if m \<ge> floatNaN \<and> m \<le> floatNaNDesc then Float
       else if m \<ge> decimalNaN \<and> m \<le> decimalNaNDesc then Decimal
       else if m = voidMarker then Void
       else Unknown)"

text \<open>The table \<open>init\<close> fills.\<close>

definition typMap :: "Type list" where
  "typMap = map (\<lambda>i. slowPeekType [word_of_nat i]) [0..<256]"

definition PeekType :: "bytes \<Rightarrow> Type" where
  "PeekType b = (if length b \<ge> 1 then typMap ! unat (b ! 0) else Unknown)"

subsection \<open>NULL and the other one-byte encodings\<close>

definition EncodeNullAscending :: "bytes \<Rightarrow> bytes" where
  "EncodeNullAscending b = b @ [encodedNull]"

definition EncodeJSONAscending :: "bytes \<Rightarrow> bytes" where
  "EncodeJSONAscending b = b @ [jsonInvertedIndex]"

definition EncodeNullDescending :: "bytes \<Rightarrow> bytes" where
  "EncodeNullDescending b = b @ [encodedNullDesc]"

definition EncodeNotNullAscending :: "bytes \<Rightarrow> bytes" where
  "EncodeNotNullAscending b = b @ [encodedNotNull]"

definition EncodeNotNullDescending :: "bytes \<Rightarrow> bytes" where
  "EncodeNotNullDescending b = b @ [encodedNotNullDesc]"

definition EncodeTrueAscending :: "bytes \<Rightarrow> bytes" where
  "EncodeTrueAscending b = b @ [word_of_int Type_True]"

definition EncodeFalseAscending :: "bytes \<Rightarrow> bytes" where
  "EncodeFalseAscending b = b @ [word_of_int Type_False]"

definition DecodeIfNull :: "bytes \<Rightarrow> bytes \<times> bool" where
  "DecodeIfNull b = (if PeekType b = Null then (drop 1 b, True) else (b, False))"

definition DecodeIfNotNull :: "bytes \<Rightarrow> bytes \<times> bool" where
  "DecodeIfNotNull b = (if PeekType b = NotNull then (drop 1 b, True) else (b, False))"

definition EncodeVoidAscendingOrDescending :: "bytes \<Rightarrow> bytes" where
  "EncodeVoidAscendingOrDescending b = b @ [voidMarker]"

definition DecodeVoidAscendingOrDescending :: "bytes \<Rightarrow> bytes result" where
  "DecodeVoidAscendingOrDescending b =
    (if PeekType b \<noteq> Void then Inl (Errorf ''did not find Void marker'') else Inr (drop 1 b))"

subsection \<open>Times\<close>

text \<open>A \<open>time.Time\<close> as the program reads it: the Unix second and the nanosecond within it.\<close>

record GoTime =
  Unix :: int64
  Nanosecond :: int64

text \<open>\<open>time.Unix\<close> carries nanoseconds outside a second into the second, with a truncating division.\<close>

definition time_Unix :: "int64 \<Rightarrow> int64 \<Rightarrow> GoTime" where
  "time_Unix sec nsec =
    (if sint nsec < 0 \<or> sint nsec \<ge> 1000000000 then
       let n = word_of_int (sgn (sint nsec) * (\<bar>sint nsec\<bar> div 1000000000));
           sec1 = sec + n;
           nsec1 = nsec - n * 1000000000
       in if sint nsec1 < 0 then \<lparr>Unix = sec1 - 1, Nanosecond = nsec1 + 1000000000\<rparr>
          else \<lparr>Unix = sec1, Nanosecond = nsec1\<rparr>
     else \<lparr>Unix = sec, Nanosecond = nsec\<rparr>)"

definition encodeTime :: "bytes \<Rightarrow> int64 \<Rightarrow> int64 \<Rightarrow> bytes" where
  "encodeTime b unix nanos =
    (let b1 = b @ [timeMarker];
         b2 = EncodeVarintAscending b1 unix
     in EncodeVarintAscending b2 nanos)"

definition EncodeTimeAscending :: "bytes \<Rightarrow> GoTime \<Rightarrow> bytes" where
  "EncodeTimeAscending b t = encodeTime b (Unix t) (Nanosecond t)"

definition EncodeTimeDescending :: "bytes \<Rightarrow> GoTime \<Rightarrow> bytes" where
  "EncodeTimeDescending b t = encodeTime b (NOT (Unix t)) (NOT (Nanosecond t))"

definition decodeTime :: "bytes \<Rightarrow> (bytes \<times> int64 \<times> int64) result" where
  "decodeTime b =
    (if PeekType b \<noteq> Time then Inl (Errorf ''did not find marker'')
     else rbind (DecodeVarintAscending (drop 1 b)) (\<lambda>(b1, sec).
       rbind (DecodeVarintAscending b1) (\<lambda>(b2, nsec). Inr (b2, sec, nsec))))"

definition DecodeTimeAscending :: "bytes \<Rightarrow> (bytes \<times> GoTime) result" where
  "DecodeTimeAscending b = rbind (decodeTime b) (\<lambda>(b1, sec, nsec). Inr (b1, time_Unix sec nsec))"

definition DecodeTimeDescending :: "bytes \<Rightarrow> (bytes \<times> GoTime) result" where
  "DecodeTimeDescending b =
     rbind (decodeTime b) (\<lambda>(b1, sec, nsec). Inr (b1, time_Unix (NOT sec) (NOT nsec)))"

subsection \<open>Times of day with a zone\<close>

record TimeTZ_t =
  TimeOfDay :: int64
  OffsetSecs :: int32

abbreviation (input) offsetSecsToMicros :: int64 where "offsetSecsToMicros \<equiv> 1000000"

definition encodeTimeTZ :: "bytes \<Rightarrow> int64 \<Rightarrow> int32 \<Rightarrow> bytes" where
  "encodeTimeTZ b unixMicros offsetSecs =
    (let b1 = b @ [timeTZMarker];
         b2 = EncodeVarintAscending b1 unixMicros
     in EncodeVarintAscending b2 (scast offsetSecs))"

definition EncodeTimeTZAscending :: "bytes \<Rightarrow> TimeTZ_t \<Rightarrow> bytes" where
  "EncodeTimeTZAscending b t =
     encodeTimeTZ b (TimeOfDay t + scast (OffsetSecs t) * offsetSecsToMicros) (OffsetSecs t)"

definition EncodeTimeTZDescending :: "bytes \<Rightarrow> TimeTZ_t \<Rightarrow> bytes" where
  "EncodeTimeTZDescending b t =
     encodeTimeTZ b (NOT (TimeOfDay t + scast (OffsetSecs t) * offsetSecsToMicros)) (NOT (OffsetSecs t))"

definition decodeTimeTZ :: "bytes \<Rightarrow> (bytes \<times> int64 \<times> int32) result" where
  "decodeTimeTZ b =
    (if PeekType b \<noteq> TimeTZ then Inl (Errorf ''did not find marker'')
     else rbind (DecodeVarintAscending (drop 1 b)) (\<lambda>(b1, unixMicros).
       rbind (DecodeVarintAscending b1) (\<lambda>(b2, offsetSecs). Inr (b2, unixMicros, ucast offsetSecs))))"

definition DecodeTimeTZAscending :: "bytes \<Rightarrow> (bytes \<times> TimeTZ_t) result" where
  "DecodeTimeTZAscending b = rbind (decodeTimeTZ b) (\<lambda>(b1, unixMicros, offsetSecs).
     Inr (b1, \<lparr>TimeOfDay = unixMicros - scast offsetSecs * offsetSecsToMicros, OffsetSecs = offsetSecs\<rparr>))"

definition DecodeTimeTZDescending :: "bytes \<Rightarrow> (bytes \<times> TimeTZ_t) result" where
  "DecodeTimeTZDescending b = rbind (decodeTimeTZ b) (\<lambda>(b1, unixMicros, offsetSecs).
     Inr (b1, \<lparr>TimeOfDay = NOT unixMicros - scast (NOT offsetSecs) * offsetSecsToMicros,
               OffsetSecs = NOT offsetSecs\<rparr>))"

subsection \<open>Lengths and array keys\<close>

text \<open>The loop \<open>for i := 0; i < num && p < len(b); i++\<close>, with \<open>n\<close> turns left.\<close>

fun GetMultiVarintLenLoop :: "bytes \<Rightarrow> nat \<Rightarrow> int \<Rightarrow> int result" where
  "GetMultiVarintLenLoop b 0 p = Inr p"
| "GetMultiVarintLenLoop b (Suc n) p =
    (if p < int (length b)
     then rbind (getVarintLen (drop (nat p) b)) (\<lambda>len. GetMultiVarintLenLoop b n (p + len))
     else Inr p)"

definition GetMultiVarintLen :: "bytes \<Rightarrow> int \<Rightarrow> int result" where
  "GetMultiVarintLen b num = GetMultiVarintLenLoop b (nat num) 1"

datatype Direction = Ascending | Descending | InvalidDirection int

definition EncodeArrayKeyMarker :: "bytes \<Rightarrow> Direction \<Rightarrow> bytes result" where
  "EncodeArrayKeyMarker buf dir =
    (case dir of Ascending \<Rightarrow> Inr (buf @ [arrayKeyMarker])
     | Descending \<Rightarrow> Inr (buf @ [arrayKeyDescendingMarker])
     | _ \<Rightarrow> Inl (Panic ''invalid direction''))"

definition EncodeArrayKeyTerminator :: "bytes \<Rightarrow> Direction \<Rightarrow> bytes result" where
  "EncodeArrayKeyTerminator buf dir =
    (case dir of Ascending \<Rightarrow> Inr (buf @ [arrayKeyTerminator])
     | Descending \<Rightarrow> Inr (buf @ [arrayKeyDescendingTerminator])
     | _ \<Rightarrow> Inl (Panic ''invalid direction''))"

definition EncodeNullWithinArrayKey :: "bytes \<Rightarrow> Direction \<Rightarrow> bytes result" where
  "EncodeNullWithinArrayKey buf dir =
    (case dir of Ascending \<Rightarrow> Inr (buf @ [ascendingNullWithinArrayKey])
     | Descending \<Rightarrow> Inr (buf @ [descendingNullWithinArrayKey])
     | _ \<Rightarrow> Inl (Panic ''invalid direction''))"

definition IsNextByteArrayEncodedNull :: "bytes \<Rightarrow> Direction \<Rightarrow> bool result" where
  "IsNextByteArrayEncodedNull buf dir =
    (let expected = (if dir = Descending then descendingNullWithinArrayKey else ascendingNullWithinArrayKey)
     in case buf of [] \<Rightarrow> Inl (Panic ''index out of range'') | m # _ \<Rightarrow> Inr (m = expected))"

definition ValidateAndConsumeArrayKeyMarker :: "bytes \<Rightarrow> Direction \<Rightarrow> bytes result" where
  "ValidateAndConsumeArrayKeyMarker buf dir =
    (let typ = PeekType buf;
         expected = (if dir = Descending then ArrayKeyDesc else ArrayKeyAsc)
     in if typ \<noteq> expected then Inl (Errorf ''invalid type found %s'') else Inr (drop 1 buf))"

definition IsArrayKeyDone :: "bytes \<Rightarrow> Direction \<Rightarrow> bool result" where
  "IsArrayKeyDone buf dir =
    (let expected = (if dir = Descending then arrayKeyDescendingTerminator else arrayKeyTerminator)
     in case buf of [] \<Rightarrow> Inl (Panic ''index out of range'') | m # _ \<Rightarrow> Inr (m = expected))"

subsection \<open>The lookup table\<close>

lemma PeekType_eq: "PeekType b = slowPeekType b"
proof (cases b)
  case (Cons m r)
  have "unat m < 256" by (rule byte_lt_256)
  then have "typMap ! unat m = slowPeekType [m]" by (simp add: typMap_def)
  then show ?thesis by (simp add: PeekType_def Cons slowPeekType_def)
qed (simp add: PeekType_def slowPeekType_def)

lemma PeekType_int: "unat m \<ge> 128 \<Longrightarrow> unat m \<le> 253 \<Longrightarrow> PeekType (m # b) = Type_Int"
  by (auto simp: PeekType_eq slowPeekType_def word_le_nat_alt)

lemma uvarint_tag_range: "\<exists>t xs. EncodeUvarintAscending [] v = t # xs \<and> 136 \<le> unat t \<and> unat t \<le> 253"
  using uvarint_width_range [of v] word_le_nat_alt [of v 109] by (auto simp: append_buf unat_tag)

lemma varint_tag_range: "\<exists>t xs. EncodeVarintAscending [] v = t # xs \<and> 128 \<le> unat t \<and> unat t \<le> 253"
proof (cases "sint v < 0")
  case True
  then show ?thesis
    using nvarint_width_range [of v] by (auto simp: EncodeVarintAscending_closed unat_tag)
next
  case False
  then show ?thesis using uvarint_tag_range [of v] by (auto simp: EncodeVarintAscending_closed)
qed

lemma PeekType_varint: "PeekType (EncodeVarintAscending [] v @ r) = Type_Int"
  using varint_tag_range [of v] by (auto intro: PeekType_int)

subsection \<open>Times are codecs\<close>

interpretation time_pair: pair_codec
    "EncodeVarintAscending []" DecodeVarintAscending "\<lambda>v w. sint v < sint w" "\<lambda>_. True"
    "EncodeVarintAscending []" DecodeVarintAscending "\<lambda>v w. sint v < sint w" "\<lambda>_. True"
  by unfold_locales

text \<open>The invariant of a \<open>time.Time\<close>, and its order \<open>Before\<close>.\<close>

definition wf_time :: "GoTime \<Rightarrow> bool" where
  "wf_time t \<longleftrightarrow> 0 \<le> sint (Nanosecond t) \<and> sint (Nanosecond t) < 1000000000"

definition Before :: "GoTime \<Rightarrow> GoTime \<Rightarrow> bool" where
  "Before t u \<longleftrightarrow> sint (Unix t) < sint (Unix u) \<or>
     Unix t = Unix u \<and> sint (Nanosecond t) < sint (Nanosecond u)"

lemma encodeTime_pair: "encodeTime b u n = b @ timeMarker # time_pair.enc2 (u, n)"
  by (simp add: encodeTime_def time_pair.enc2_def buffer_prefix(3) [of "b @ _"] buffer_prefix(3) [of "_ # _"]
      buffer_prefix(3) [of "_ @ _"])

lemma decodeTime_roundtrip: "decodeTime (encodeTime [] u n @ rest) = Inr (rest, u, n)"
proof -
  have "time_pair.dec2 (time_pair.enc2 (u, n) @ rest) = Inr (rest, (u, n))"
    by (rule time_pair.pair.roundtrip) (simp add: time_pair.ok2_def)
  then show ?thesis
    by (auto simp: decodeTime_def encodeTime_pair PeekType_eq slowPeekType_def time_pair.dec2_def
        rbind_Inr_conv split: prod.splits)
qed

lemma encodeTime_dless:
  "sint u < sint u' \<or> u = u' \<and> sint n < sint n' \<Longrightarrow> dless (encodeTime [] u n) (encodeTime [] u' n')"
  using time_pair.pair.ordered [of "(u, n)" "(u', n')"]
  by (simp add: encodeTime_pair time_pair.ok2_def time_pair.lt2_def)

lemma time_Unix_wf: "wf_time t \<Longrightarrow> time_Unix (Unix t) (Nanosecond t) = t"
  by (simp add: time_Unix_def wf_time_def)

lemma Before_total: "Before t u \<or> t = u \<or> Before u t"
  by (cases t; cases u) (auto simp: Before_def sint_eq_iff [symmetric])

interpretation time_asc: key_codec "EncodeTimeAscending []" DecodeTimeAscending Before wf_time
  by unfold_locales
    (use Before_total in \<open>auto simp: EncodeTimeAscending_def DecodeTimeAscending_def decodeTime_roundtrip time_Unix_wf
      Before_def intro!: encodeTime_dless\<close>)

interpretation time_desc: key_codec "EncodeTimeDescending []" DecodeTimeDescending "\<lambda>t u. Before u t" wf_time
  by unfold_locales
    (use Before_total in \<open>auto simp: EncodeTimeDescending_def DecodeTimeDescending_def decodeTime_roundtrip time_Unix_wf
      Before_def sint_NOT intro!: encodeTime_dless\<close>)

subsection \<open>Times of day with a zone are codecs\<close>

text \<open>The instant in UTC microseconds, which orders the encodings, ties broken by the offset.\<close>

definition tz_micros :: "TimeTZ_t \<Rightarrow> int64" where
  "tz_micros t = TimeOfDay t + scast (OffsetSecs t) * offsetSecsToMicros"

definition tz_before :: "TimeTZ_t \<Rightarrow> TimeTZ_t \<Rightarrow> bool" where
  "tz_before t u \<longleftrightarrow> sint (tz_micros t) < sint (tz_micros u) \<or>
     tz_micros t = tz_micros u \<and> sint (OffsetSecs t) < sint (OffsetSecs u)"

lemma encodeTimeTZ_pair: "encodeTimeTZ b u n = b @ timeTZMarker # time_pair.enc2 (u, scast n)"
  by (simp add: encodeTimeTZ_def time_pair.enc2_def buffer_prefix(3) [of "b @ _"] buffer_prefix(3) [of "_ # _"]
      buffer_prefix(3) [of "_ @ _"])

lemma ucast_scast32: "(ucast (scast (n :: int32) :: int64) :: int32) = n"
  by (simp add: bit_eq_iff bit_ucast_iff bit_signed_iff)

lemma sint_scast32: "sint (scast (n :: int32) :: int64) = sint n"
  using sint_lt [of n] sint_ge [of n] by (simp add: signed_scast_eq signed_take_bit_int_eq_self)

lemma decodeTimeTZ_roundtrip: "decodeTimeTZ (encodeTimeTZ [] u n @ rest) = Inr (rest, u, n)"
proof -
  have "time_pair.dec2 (time_pair.enc2 (u, scast n) @ rest) = Inr (rest, (u, scast n))"
    by (rule time_pair.pair.roundtrip) (simp add: time_pair.ok2_def)
  then show ?thesis
    by (auto simp: decodeTimeTZ_def encodeTimeTZ_pair PeekType_eq slowPeekType_def time_pair.dec2_def
        rbind_Inr_conv ucast_scast32 split: prod.splits)
qed

lemma encodeTimeTZ_dless:
  "sint u < sint u' \<or> u = u' \<and> sint n < sint n' \<Longrightarrow> dless (encodeTimeTZ [] u n) (encodeTimeTZ [] u' n')"
  using time_pair.pair.ordered [of "(u, scast n)" "(u', scast n')"]
  by (simp add: encodeTimeTZ_pair time_pair.ok2_def time_pair.lt2_def sint_scast32)

lemma tz_total: "tz_before t u \<or> t = u \<or> tz_before u t"
proof -
  have "t = u" if "tz_micros t = tz_micros u" "OffsetSecs t = OffsetSecs u"
    using that by (cases t; cases u) (simp add: tz_micros_def)
  then show ?thesis unfolding tz_before_def by (metis linorder_less_linear sint_eq_iff)
qed

interpretation timetz_asc: key_codec "EncodeTimeTZAscending []" DecodeTimeTZAscending tz_before "\<lambda>_. True"
  by unfold_locales
    (use tz_total in \<open>auto simp: EncodeTimeTZAscending_def DecodeTimeTZAscending_def decodeTimeTZ_roundtrip
      tz_before_def tz_micros_def intro!: encodeTimeTZ_dless\<close>)

interpretation timetz_desc: key_codec "EncodeTimeTZDescending []" DecodeTimeTZDescending "\<lambda>t u. tz_before u t" "\<lambda>_. True"
  by unfold_locales
    (use tz_total in \<open>auto simp: EncodeTimeTZDescending_def DecodeTimeTZDescending_def decodeTimeTZ_roundtrip
      tz_before_def tz_micros_def sint_NOT intro!: encodeTimeTZ_dless\<close>)

subsection \<open>Order around the markers, lengths\<close>

lemma bytes_tag:
  "\<exists>xs. EncodeBytesAscending [] d = bytesMarker # xs"
  "0 < ws \<Longrightarrow> \<exists>xs. EncodeBytesDescending ws [] d = bytesDescMarker # xs"
  by (simp_all add: append_buf)

lemma time_tag:
  "\<exists>xs. EncodeTimeAscending [] t = timeMarker # xs" "\<exists>xs. EncodeTimeDescending [] t = timeMarker # xs"
  "\<exists>xs. EncodeTimeTZAscending [] z = timeTZMarker # xs" "\<exists>xs. EncodeTimeTZDescending [] z = timeTZMarker # xs"
  by (simp_all add: EncodeTimeAscending_def EncodeTimeDescending_def encodeTime_pair
      EncodeTimeTZAscending_def EncodeTimeTZDescending_def encodeTimeTZ_pair)

text \<open>The encodings of column values.\<close>

inductive column_value :: "bytes \<Rightarrow> Type \<Rightarrow> bool" where
  varint: "column_value (EncodeVarintAscending [] v) Type_Int"
| varint_desc: "column_value (EncodeVarintDescending [] v) Type_Int"
| bytes: "column_value (EncodeBytesAscending [] d) Bytes"
| bytes_desc: "column_value (EncodeBytesDescending 8 [] d) BytesDesc"
| time: "column_value (EncodeTimeAscending [] t) Time"
| time_desc: "column_value (EncodeTimeDescending [] t) Time"
| timetz: "column_value (EncodeTimeTZAscending [] z) TimeTZ"
| timetz_desc: "column_value (EncodeTimeTZDescending [] z) TimeTZ"

inductive_cases column_valueE: "column_value c ty"

lemma marker_types:
  "slowPeekType [bytesMarker] = Bytes" "slowPeekType [bytesDescMarker] = BytesDesc"
  "slowPeekType [timeMarker] = Time" "slowPeekType [timeTZMarker] = TimeTZ"
  by (simp_all add: slowPeekType_def)

lemma varint_column_tag:
  "\<exists>m xs. EncodeVarintAscending [] v = m # xs \<and> 1 < m \<and> m < 0xfe \<and> slowPeekType [m] = Type_Int"
proof -
  obtain m xs where m: "EncodeVarintAscending [] v = m # xs" "128 \<le> unat m" "unat m \<le> 253"
    using varint_tag_range [of v] by auto
  then have "slowPeekType [m] = Type_Int" using PeekType_int [of m "[]"] by (simp add: PeekType_eq)
  with m show ?thesis by (auto simp: word_less_nat_alt)
qed

lemma column_value_tag:
  "column_value c ty \<Longrightarrow> \<exists>m xs. c = m # xs \<and> 1 < m \<and> m < 0xfe \<and> slowPeekType [m] = ty"
proof (induction rule: column_value.induct)
  case (varint v)
  then show ?case by (rule varint_column_tag)
next
  case (varint_desc v)
  then show ?case unfolding EncodeVarintDescending_def by (rule varint_column_tag)
next
  case (bytes d)
  then show ?case using bytes_tag(1) [of d] by (auto simp: marker_types)
next
  case (bytes_desc d)
  then show ?case using bytes_tag(2) [of 8 d] by (auto simp: marker_types)
next
  case (time t)
  then show ?case using time_tag(1) [of t] by (auto simp: marker_types)
next
  case (time_desc t)
  then show ?case using time_tag(2) [of t] by (auto simp: marker_types)
next
  case (timetz z)
  then show ?case using time_tag(3) [of z] by (auto simp: marker_types)
next
  case (timetz_desc z)
  then show ?case using time_tag(4) [of z] by (auto simp: marker_types)
qed

lemma multi_varint_pair:
  "GetMultiVarintLen (m # time_pair.enc2 (u, n) @ rest) 2 = Inr (1 + int (length (time_pair.enc2 (u, n))))"
proof -
  let ?u = "EncodeVarintAscending [] u" and ?n = "EncodeVarintAscending [] n"
  have ne: "0 < length ?u" "0 < length ?n" using varint_tag_range [of u] varint_tag_range [of n] by auto
  have d: "drop (nat (1 + int (length ?u))) (m # ?u @ ?n @ rest) = ?n @ rest"
    by (simp add: nat_add_distrib)
  have "GetMultiVarintLenLoop (m # ?u @ ?n @ rest) (Suc (Suc 0)) 1 = Inr (1 + int (length ?u) + int (length ?n))"
    using ne d getVarintLen_encoded [of u "?n @ rest"] getVarintLen_encoded [of n rest]
    by (simp del: length_greater_0_conv)
  then show ?thesis by (simp add: GetMultiVarintLen_def time_pair.enc2_def numeral_2_eq_2)
qed

subsection \<open>Properties\<close>

text \<open>The 256-entry table gives the type the slow routine computes, and from the first byte of
  every column encoding the type of the column, so a reader can tell what follows.\<close>

lemma PeekType_correct:
  "PeekType b = slowPeekType b \<and> (\<forall>c ty. column_value c ty \<longrightarrow> PeekType (c @ rest) = ty)"
proof -
  have "PeekType (c @ rest) = ty" if "column_value c ty" for c ty
    using column_value_tag [OF that] by (auto simp: PeekType_eq slowPeekType_def)
  then show ?thesis using PeekType_eq by blast
qed

text \<open>NULL sorts before and descending NULL after every column value, the not-NULL markers
  between them and the values, whatever the keys continue with; \<open>DecodeIfNull\<close> recognises exactly
  the NULLs in front of values.\<close>

lemma null_order:
  assumes "column_value c ty"
  shows "EncodeNullAscending p @ r < EncodeNotNullAscending p @ s \<and>
    EncodeNotNullAscending p @ r < p @ c @ s \<and>
    p @ c @ r < EncodeNotNullDescending p @ s \<and>
    EncodeNotNullDescending p @ r < EncodeNullDescending p @ s \<and>
    DecodeIfNull (c @ r) = (c @ r, False) \<and> DecodeIfNotNull (c @ r) = (c @ r, False) \<and>
    DecodeIfNull (EncodeNullAscending [] @ r) = (r, True) \<and>
    DecodeIfNull (EncodeNullDescending [] @ r) = (r, True)"
proof -
  obtain m xs where c: "c = m # xs" "1 < m" "m < 0xfe" "slowPeekType [m] = ty"
    using column_value_tag [OF assms] by blast
  then have "m \<noteq> 0" "m \<noteq> 0xff" "m \<noteq> 1" "m \<noteq> 0xfe" by auto
  then have "slowPeekType (m # xs @ r) \<noteq> Null" "slowPeekType (m # xs @ r) \<noteq> NotNull"
    by (simp_all add: slowPeekType_def)
  with c show ?thesis
    by (simp add: EncodeNullAscending_def EncodeNotNullAscending_def EncodeNotNullDescending_def
        EncodeNullDescending_def DecodeIfNull_def DecodeIfNotNull_def PeekType_eq)
      (simp add: slowPeekType_def)
qed

text \<open>Times sort in keys by the instant, ascending or descending, and decode to the same
  second and nanosecond; the length skipped over is the length of the encoding.\<close>

lemma time_keys:
  assumes "wf_time t" "wf_time u"
  shows "(EncodeTimeAscending p t @ r < EncodeTimeAscending p u @ s \<longleftrightarrow> Before t u \<or> t = u \<and> r < s) \<and>
    (EncodeTimeDescending p t @ r < EncodeTimeDescending p u @ s \<longleftrightarrow> Before u t \<or> t = u \<and> r < s) \<and>
    DecodeTimeAscending (EncodeTimeAscending [] t @ r) = Inr (r, t) \<and>
    DecodeTimeDescending (EncodeTimeDescending [] t @ r) = Inr (r, t) \<and>
    GetMultiVarintLen (EncodeTimeAscending [] t @ r) 2 = Inr (int (length (EncodeTimeAscending [] t)))"
proof -
  have buf: "EncodeTimeAscending p x = p @ EncodeTimeAscending [] x"
    "EncodeTimeDescending p x = p @ EncodeTimeDescending [] x" for x
    by (simp_all add: EncodeTimeAscending_def EncodeTimeDescending_def encodeTime_pair)
  have "GetMultiVarintLen (EncodeTimeAscending [] t @ r) 2 = Inr (int (length (EncodeTimeAscending [] t)))"
    using multi_varint_pair by (simp add: EncodeTimeAscending_def encodeTime_pair)
  then show ?thesis
    using time_asc.less_append_iff [OF assms] time_desc.less_append_iff [OF assms]
      time_asc.roundtrip [OF assms(1)] time_desc.roundtrip [OF assms(1)] by (simp add: buf)
qed

text \<open>Times of day with a zone sort in keys by the UTC instant and then by the offset, and
  decode to the same pair, with the microsecond arithmetic wrapping the same way in both
  directions.\<close>

lemma timetz_keys:
  "(EncodeTimeTZAscending p t @ r < EncodeTimeTZAscending p u @ s \<longleftrightarrow> tz_before t u \<or> t = u \<and> r < s) \<and>
   (EncodeTimeTZDescending p t @ r < EncodeTimeTZDescending p u @ s \<longleftrightarrow> tz_before u t \<or> t = u \<and> r < s) \<and>
   DecodeTimeTZAscending (EncodeTimeTZAscending [] t @ r) = Inr (r, t) \<and>
   DecodeTimeTZDescending (EncodeTimeTZDescending [] t @ r) = Inr (r, t)"
proof -
  have buf: "EncodeTimeTZAscending p x = p @ EncodeTimeTZAscending [] x"
    "EncodeTimeTZDescending p x = p @ EncodeTimeTZDescending [] x" for x
    by (simp_all add: EncodeTimeTZAscending_def EncodeTimeTZDescending_def encodeTimeTZ_pair)
  show ?thesis
    using timetz_asc.less_append_iff [where v = t and w = u and r = r and s = s]
      timetz_desc.less_append_iff [where v = t and w = u and r = r and s = s]
      timetz_asc.roundtrip [where v = t and rest = r] timetz_desc.roundtrip [where v = t and rest = r]
    by (simp add: buf)
qed

end
