(* ===== verification/Enc_Values.thy ===== *)
theory Enc_Values
  imports Enc_Keys
begin

text \<open>
  The value encoding of \<open>engine/pkg/util/encoding/encoding.go\<close>: varints that need not sort, the tag
  that packs a column id and a type, and the tagged and untagged values of the fixed types.
  \<open>encoding/binary\<close>'s \<open>PutUvarint\<close>, \<open>PutVarint\<close>, \<open>Uvarint\<close> and \<open>Varint\<close> are written out.  A float
  is its IEEE bit pattern, on which \<open>math.Float64bits\<close> is the identity; a UUID is its sixteen bytes.
  \<open>PeekValueLength\<close> finds the end of a value of any type without decoding it.
\<close>

subsection \<open>Varints of \<open>encoding/binary\<close>\<close>

function PutUvarint :: "uint64 \<Rightarrow> bytes" where
  "PutUvarint x =
    (if x \<ge> 0x80 then (ucast x OR 0x80) # PutUvarint (drop_bit 7 x) else [ucast x])"
  by pat_completeness auto
termination
proof (relation "measure unat")
  fix x :: uint64
  assume "0x80 \<le> x"
  then have "128 \<le> unat x" by (simp add: word_le_nat_alt)
  then show "(drop_bit 7 x, x) \<in> measure unat"
    by (simp add: drop_bit_eq_div unat_div_distrib)
qed simp

declare PutUvarint.simps [simp del]

definition PutVarint :: "int64 \<Rightarrow> bytes" where
  "PutVarint x =
    (let ux = push_bit 1 x in PutUvarint (if sint x < 0 then NOT ux else ux))"

text \<open>The result is the value and the number of bytes read, zero for a short buffer and negative
  for an overflow.\<close>

fun UvarintLoop :: "bytes \<Rightarrow> nat \<Rightarrow> uint64 \<Rightarrow> nat \<Rightarrow> uint64 \<times> int" where
  "UvarintLoop [] i x s = (0, 0)"
| "UvarintLoop (b # buf) i x s =
    (if i = 10 then (0, - (int i + 1))
     else if b < 0x80 then
       (if i = 9 \<and> b > 1 then (0, - (int i + 1)) else (x OR push_bit s (ucast b), int i + 1))
     else UvarintLoop buf (i + 1) (x OR push_bit s (ucast (b AND 0x7f))) (s + 7))"

definition Uvarint :: "bytes \<Rightarrow> uint64 \<times> int" where
  "Uvarint buf = UvarintLoop buf 0 0 0"

definition Varint :: "bytes \<Rightarrow> int64 \<times> int" where
  "Varint buf =
    (let (ux, n) = Uvarint buf; x = drop_bit 1 ux in ((if ux AND 1 \<noteq> 0 then NOT x else x), n))"

definition EncodeNonsortingStdlibVarint :: "bytes \<Rightarrow> int64 \<Rightarrow> bytes" where
  "EncodeNonsortingStdlibVarint appendTo x = appendTo @ PutVarint x"

definition DecodeNonsortingStdlibVarint :: "bytes \<Rightarrow> (bytes \<times> int \<times> int64) result" where
  "DecodeNonsortingStdlibVarint b =
    (let (value, len) = Varint b in
     if len \<le> 0 then Inl (Errorf ''int64 varint decoding failed: %d'')
     else Inr (drop (nat len) b, len, value))"

definition DecodeNonsortingStdlibUvarint :: "bytes \<Rightarrow> (bytes \<times> int \<times> uint64) result" where
  "DecodeNonsortingStdlibUvarint buf =
    (let (i, n) = Uvarint buf in
     if n \<le> 0 then Inl (Errorf ''buffer too small'') else Inr (drop (nat n) buf, n, i))"

subsection \<open>Varints with the most significant bits first\<close>

definition EncodeNonsortingUvarint :: "bytes \<Rightarrow> uint64 \<Rightarrow> bytes" where
  "EncodeNonsortingUvarint appendTo x =
    (if x < 0x80 then appendTo @ [ucast x]
     else if x < 0x4000 then appendTo @ [0x80 OR ucast (drop_bit 7 x), 0x7f AND ucast x]
     else if x < 0x200000 then
       appendTo @ [0x80 OR ucast (drop_bit 14 x), 0x80 OR ucast (drop_bit 7 x), 0x7f AND ucast x]
     else if x < 0x10000000 then
       appendTo @ [0x80 OR ucast (drop_bit 21 x), 0x80 OR ucast (drop_bit 14 x),
         0x80 OR ucast (drop_bit 7 x), 0x7f AND ucast x]
     else if x < 0x800000000 then
       appendTo @ [0x80 OR ucast (drop_bit 28 x), 0x80 OR ucast (drop_bit 21 x),
         0x80 OR ucast (drop_bit 14 x), 0x80 OR ucast (drop_bit 7 x), 0x7f AND ucast x]
     else if x < 0x40000000000 then
       appendTo @ [0x80 OR ucast (drop_bit 35 x), 0x80 OR ucast (drop_bit 28 x),
         0x80 OR ucast (drop_bit 21 x), 0x80 OR ucast (drop_bit 14 x),
         0x80 OR ucast (drop_bit 7 x), 0x7f AND ucast x]
     else if x < 0x2000000000000 then
       appendTo @ [0x80 OR ucast (drop_bit 42 x), 0x80 OR ucast (drop_bit 35 x),
         0x80 OR ucast (drop_bit 28 x), 0x80 OR ucast (drop_bit 21 x),
         0x80 OR ucast (drop_bit 14 x), 0x80 OR ucast (drop_bit 7 x), 0x7f AND ucast x]
     else if x < 0x100000000000000 then
       appendTo @ [0x80 OR ucast (drop_bit 49 x), 0x80 OR ucast (drop_bit 42 x),
         0x80 OR ucast (drop_bit 35 x), 0x80 OR ucast (drop_bit 28 x),
         0x80 OR ucast (drop_bit 21 x), 0x80 OR ucast (drop_bit 14 x),
         0x80 OR ucast (drop_bit 7 x), 0x7f AND ucast x]
     else if x < 0x8000000000000000 then
       appendTo @ [0x80 OR ucast (drop_bit 56 x), 0x80 OR ucast (drop_bit 49 x),
         0x80 OR ucast (drop_bit 42 x), 0x80 OR ucast (drop_bit 35 x),
         0x80 OR ucast (drop_bit 28 x), 0x80 OR ucast (drop_bit 21 x),
         0x80 OR ucast (drop_bit 14 x), 0x80 OR ucast (drop_bit 7 x), 0x7f AND ucast x]
     else
       appendTo @ [0x80 OR ucast (drop_bit 63 x), 0x80 OR ucast (drop_bit 56 x),
         0x80 OR ucast (drop_bit 49 x), 0x80 OR ucast (drop_bit 42 x),
         0x80 OR ucast (drop_bit 35 x), 0x80 OR ucast (drop_bit 28 x),
         0x80 OR ucast (drop_bit 21 x), 0x80 OR ucast (drop_bit 14 x),
         0x80 OR ucast (drop_bit 7 x), 0x7f AND ucast x])"

text \<open>The remaining bytes, the length and the value; the error result is always nil.  A buffer
  without a last byte comes back whole, with length and value zero.\<close>

fun DecodeNonsortingUvarintLoop :: "bytes \<Rightarrow> bytes \<Rightarrow> nat \<Rightarrow> uint64 \<Rightarrow> bytes \<times> int \<times> uint64" where
  "DecodeNonsortingUvarintLoop buf [] i value = (buf, 0, 0)"
| "DecodeNonsortingUvarintLoop buf (b # bs) i value =
    (let value1 = value + ucast (b AND 0x7f) in
     if b < 0x80 then (bs, int i + 1, value1)
     else DecodeNonsortingUvarintLoop buf bs (i + 1) (push_bit 7 value1))"

definition DecodeNonsortingUvarint :: "bytes \<Rightarrow> bytes \<times> int \<times> uint64" where
  "DecodeNonsortingUvarint buf = DecodeNonsortingUvarintLoop buf buf 0 0"

fun PeekLengthNonsortingUvarintLoop :: "bytes \<Rightarrow> nat \<Rightarrow> nat" where
  "PeekLengthNonsortingUvarintLoop [] i = 0"
| "PeekLengthNonsortingUvarintLoop (b # bs) i =
    (if b AND 0x80 = 0 then i + 1 else PeekLengthNonsortingUvarintLoop bs (i + 1))"

definition PeekLengthNonsortingUvarint :: "bytes \<Rightarrow> nat" where
  "PeekLengthNonsortingUvarint buf = PeekLengthNonsortingUvarintLoop buf 0"

subsection \<open>Value tags\<close>

abbreviation (input) NoColumnID :: uint32 where "NoColumnID \<equiv> 0"

definition EncodeValueTag :: "bytes \<Rightarrow> uint32 \<Rightarrow> Type \<Rightarrow> bytes" where
  "EncodeValueTag appendTo colID typ =
    (if typ \<ge> SentinelType then
       EncodeNonsortingUvarint
         (EncodeNonsortingUvarint appendTo (push_bit 4 (ucast colID) OR word_of_int SentinelType))
         (word_of_int typ)
     else if colID = NoColumnID then appendTo @ [word_of_int typ]
     else EncodeNonsortingUvarint appendTo (push_bit 4 (ucast colID) OR word_of_int typ))"

text \<open>The type offset, the data offset, the column id and the type.\<close>

definition DecodeValueTag :: "bytes \<Rightarrow> (int \<times> int \<times> uint32 \<times> Type) result" where
  "DecodeValueTag b =
    (if length b = 0 then Inl (Errorf ''empty array'')
     else
       let (b1, n, tag) = DecodeNonsortingUvarint b;
           colID = ucast (drop_bit 4 tag);
           typ = sint (tag AND 0xf);
           typeOffset = n - 1;
           dataOffset = n
       in if typ = SentinelType then
            let (_, n2, tag2) = DecodeNonsortingUvarint b1
            in Inr (typeOffset, dataOffset + n2, colID, sint tag2)
          else Inr (typeOffset, dataOffset, colID, typ))"

definition decodeValueTypeAssert :: "bytes \<Rightarrow> Type \<Rightarrow> bytes result" where
  "decodeValueTypeAssert b expected =
     rbind (DecodeValueTag b) (\<lambda>(_, dataOffset, _, typ).
       if typ \<noteq> expected then Inl (Errorf ''value type is not %s: %s'')
       else Inr (drop (nat dataOffset) b))"

subsection \<open>Encoders of values\<close>

definition EncodeNullValue :: "bytes \<Rightarrow> uint32 \<Rightarrow> bytes" where
  "EncodeNullValue appendTo colID = EncodeValueTag appendTo colID Null"

definition EncodeNotNullValue :: "bytes \<Rightarrow> uint32 \<Rightarrow> bytes" where
  "EncodeNotNullValue appendTo colID = EncodeValueTag appendTo colID NotNull"

definition EncodeBoolValue :: "bytes \<Rightarrow> uint32 \<Rightarrow> bool \<Rightarrow> bytes" where
  "EncodeBoolValue appendTo colID b =
    (if b then EncodeValueTag appendTo colID Type_True else EncodeValueTag appendTo colID Type_False)"

definition EncodeUntaggedIntValue :: "bytes \<Rightarrow> int64 \<Rightarrow> bytes" where
  "EncodeUntaggedIntValue appendTo i = EncodeNonsortingStdlibVarint appendTo i"

definition EncodeIntValue :: "bytes \<Rightarrow> uint32 \<Rightarrow> int64 \<Rightarrow> bytes" where
  "EncodeIntValue appendTo colID i = EncodeUntaggedIntValue (EncodeValueTag appendTo colID Type_Int) i"

definition EncodeUntaggedFloatValue :: "bytes \<Rightarrow> uint64 \<Rightarrow> bytes" where
  "EncodeUntaggedFloatValue appendTo f = EncodeUint64Ascending appendTo f"

definition EncodeFloatValue :: "bytes \<Rightarrow> uint32 \<Rightarrow> uint64 \<Rightarrow> bytes" where
  "EncodeFloatValue appendTo colID f = EncodeUntaggedFloatValue (EncodeValueTag appendTo colID Float) f"

definition EncodeUntaggedBytesValue :: "bytes \<Rightarrow> bytes \<Rightarrow> bytes" where
  "EncodeUntaggedBytesValue appendTo data =
     EncodeNonsortingUvarint appendTo (word_of_nat (length data)) @ data"

definition EncodeBytesValue :: "bytes \<Rightarrow> uint32 \<Rightarrow> bytes \<Rightarrow> bytes" where
  "EncodeBytesValue appendTo colID data = EncodeUntaggedBytesValue (EncodeValueTag appendTo colID Bytes) data"

definition EncodeArrayValue :: "bytes \<Rightarrow> uint32 \<Rightarrow> bytes \<Rightarrow> bytes" where
  "EncodeArrayValue appendTo colID data = EncodeUntaggedBytesValue (EncodeValueTag appendTo colID Array) data"

definition EncodeJSONValue :: "bytes \<Rightarrow> uint32 \<Rightarrow> bytes \<Rightarrow> bytes" where
  "EncodeJSONValue appendTo colID data = EncodeUntaggedBytesValue (EncodeValueTag appendTo colID JSON) data"

definition EncodeTSQueryValue :: "bytes \<Rightarrow> uint32 \<Rightarrow> bytes \<Rightarrow> bytes" where
  "EncodeTSQueryValue appendTo colID data = EncodeUntaggedBytesValue (EncodeValueTag appendTo colID TSQuery) data"

definition EncodeTSVectorValue :: "bytes \<Rightarrow> uint32 \<Rightarrow> bytes \<Rightarrow> bytes" where
  "EncodeTSVectorValue appendTo colID data = EncodeUntaggedBytesValue (EncodeValueTag appendTo colID TSVector) data"

definition EncodeUntaggedTimeValue :: "bytes \<Rightarrow> GoTime \<Rightarrow> bytes" where
  "EncodeUntaggedTimeValue appendTo t =
     EncodeNonsortingStdlibVarint (EncodeNonsortingStdlibVarint appendTo (Unix t)) (Nanosecond t)"

definition EncodeTimeValue :: "bytes \<Rightarrow> uint32 \<Rightarrow> GoTime \<Rightarrow> bytes" where
  "EncodeTimeValue appendTo colID t = EncodeUntaggedTimeValue (EncodeValueTag appendTo colID Time) t"

definition EncodeUntaggedTimeTZValue :: "bytes \<Rightarrow> TimeTZ_t \<Rightarrow> bytes" where
  "EncodeUntaggedTimeTZValue appendTo t =
     EncodeNonsortingStdlibVarint (EncodeNonsortingStdlibVarint appendTo (TimeOfDay t)) (scast (OffsetSecs t))"

definition EncodeTimeTZValue :: "bytes \<Rightarrow> uint32 \<Rightarrow> TimeTZ_t \<Rightarrow> bytes" where
  "EncodeTimeTZValue appendTo colID t = EncodeUntaggedTimeTZValue (EncodeValueTag appendTo colID TimeTZ) t"

definition EncodeVoidValue :: "bytes \<Rightarrow> uint32 \<Rightarrow> bytes" where
  "EncodeVoidValue appendTo colID = EncodeValueTag appendTo colID Void"

record Duration_t =
  Months :: int64
  Days :: int64
  nanos :: int64

definition EncodeUntaggedDurationValue :: "bytes \<Rightarrow> Duration_t \<Rightarrow> bytes" where
  "EncodeUntaggedDurationValue appendTo d =
     EncodeNonsortingStdlibVarint
       (EncodeNonsortingStdlibVarint (EncodeNonsortingStdlibVarint appendTo (Months d)) (Days d)) (nanos d)"

definition EncodeDurationValue :: "bytes \<Rightarrow> uint32 \<Rightarrow> Duration_t \<Rightarrow> bytes" where
  "EncodeDurationValue appendTo colID d = EncodeUntaggedDurationValue (EncodeValueTag appendTo colID Duration) d"

definition EncodeUntaggedUUIDValue :: "bytes \<Rightarrow> bytes \<Rightarrow> bytes" where
  "EncodeUntaggedUUIDValue appendTo u = appendTo @ u"

definition EncodeUUIDValue :: "bytes \<Rightarrow> uint32 \<Rightarrow> bytes \<Rightarrow> bytes" where
  "EncodeUUIDValue appendTo colID u = EncodeUntaggedUUIDValue (EncodeValueTag appendTo colID UUID) u"

subsection \<open>Decoders of values\<close>

definition DecodeBoolValue :: "bytes \<Rightarrow> (bytes \<times> bool) result" where
  "DecodeBoolValue buf =
     rbind (DecodeValueTag buf) (\<lambda>(_, dataOffset, _, typ).
       let buf1 = drop (nat dataOffset) buf in
       if typ = Type_True then Inr (buf1, True)
       else if typ = Type_False then Inr (buf1, False)
       else Inl (Errorf ''value type is not %s or %s: %s''))"

definition DecodeUntaggedIntValue :: "bytes \<Rightarrow> (bytes \<times> int64) result" where
  "DecodeUntaggedIntValue b = rbind (DecodeNonsortingStdlibVarint b) (\<lambda>(b1, _, i). Inr (b1, i))"

definition DecodeIntValue :: "bytes \<Rightarrow> (bytes \<times> int64) result" where
  "DecodeIntValue b = rbind (decodeValueTypeAssert b Type_Int) DecodeUntaggedIntValue"

definition DecodeUntaggedFloatValue :: "bytes \<Rightarrow> (bytes \<times> uint64) result" where
  "DecodeUntaggedFloatValue b =
    (if length b < 8 then Inl (Errorf ''float64 value should be exactly 8 bytes: %d'')
     else DecodeUint64Ascending b)"

definition DecodeFloatValue :: "bytes \<Rightarrow> (bytes \<times> uint64) result" where
  "DecodeFloatValue b = rbind (decodeValueTypeAssert b Float) DecodeUntaggedFloatValue"

definition DecodeUntaggedBytesValue :: "bytes \<Rightarrow> (bytes \<times> bytes) result" where
  "DecodeUntaggedBytesValue b =
    (let (b1, _, i) = DecodeNonsortingUvarint b in
     if sint i < 0 \<or> sint i > int (length b1) then Inl (Panic ''slice bounds out of range'')
     else Inr (drop (unat i) b1, take (unat i) b1))"

definition DecodeBytesValue :: "bytes \<Rightarrow> (bytes \<times> bytes) result" where
  "DecodeBytesValue b = rbind (decodeValueTypeAssert b Bytes) DecodeUntaggedBytesValue"

definition DecodeUntaggedTimeValue :: "bytes \<Rightarrow> (bytes \<times> GoTime) result" where
  "DecodeUntaggedTimeValue b =
     rbind (DecodeNonsortingStdlibVarint b) (\<lambda>(b1, _, sec).
       rbind (DecodeNonsortingStdlibVarint b1) (\<lambda>(b2, _, nsec). Inr (b2, time_Unix sec nsec)))"

definition DecodeTimeValue :: "bytes \<Rightarrow> (bytes \<times> GoTime) result" where
  "DecodeTimeValue b = rbind (decodeValueTypeAssert b Time) DecodeUntaggedTimeValue"

definition DecodeUntaggedTimeTZValue :: "bytes \<Rightarrow> (bytes \<times> TimeTZ_t) result" where
  "DecodeUntaggedTimeTZValue b =
     rbind (DecodeNonsortingStdlibVarint b) (\<lambda>(b1, _, timeOfDayMicros).
       rbind (DecodeNonsortingStdlibVarint b1) (\<lambda>(b2, _, offsetSecs).
         Inr (b2, \<lparr>TimeOfDay = timeOfDayMicros, OffsetSecs = ucast offsetSecs\<rparr>)))"

definition DecodeTimeTZValue :: "bytes \<Rightarrow> (bytes \<times> TimeTZ_t) result" where
  "DecodeTimeTZValue b = rbind (decodeValueTypeAssert b TimeTZ) DecodeUntaggedTimeTZValue"

definition DecodeUntaggedDurationValue :: "bytes \<Rightarrow> (bytes \<times> Duration_t) result" where
  "DecodeUntaggedDurationValue b =
     rbind (DecodeNonsortingStdlibVarint b) (\<lambda>(b1, _, months).
       rbind (DecodeNonsortingStdlibVarint b1) (\<lambda>(b2, _, days).
         rbind (DecodeNonsortingStdlibVarint b2) (\<lambda>(b3, _, nanos).
           Inr (b3, \<lparr>Months = months, Days = days, nanos = nanos\<rparr>))))"

definition DecodeDurationValue :: "bytes \<Rightarrow> (bytes \<times> Duration_t) result" where
  "DecodeDurationValue b = rbind (decodeValueTypeAssert b Duration) DecodeUntaggedDurationValue"

definition DecodeUntaggedUUIDValue :: "bytes \<Rightarrow> (bytes \<times> bytes) result" where
  "DecodeUntaggedUUIDValue b =
    (if length b < 16 then Inl (Panic ''slice bounds out of range'') else Inr (drop 16 b, take 16 b))"

definition DecodeUUIDValue :: "bytes \<Rightarrow> (bytes \<times> bytes) result" where
  "DecodeUUIDValue b = rbind (decodeValueTypeAssert b UUID) DecodeUntaggedUUIDValue"

subsection \<open>Finding the end of a value\<close>

fun getMultiNonsortingVarintLenLoop :: "bytes \<Rightarrow> nat \<Rightarrow> int \<Rightarrow> int result" where
  "getMultiNonsortingVarintLenLoop b 0 p = Inr p"
| "getMultiNonsortingVarintLenLoop b (Suc n) p =
    (if p < int (length b)
     then rbind (DecodeNonsortingStdlibVarint (drop (nat p) b))
            (\<lambda>(_, len, _). getMultiNonsortingVarintLenLoop b n (p + len))
     else Inr p)"

definition getMultiNonsortingVarintLen :: "bytes \<Rightarrow> int \<Rightarrow> int result" where
  "getMultiNonsortingVarintLen b num = getMultiNonsortingVarintLenLoop b (nat num) 0"

text \<open>The four turns of the loop, \<open>n\<close> of them left.\<close>

fun peekBox2DLengthLoop :: "nat \<Rightarrow> bytes \<Rightarrow> int \<Rightarrow> int result" where
  "peekBox2DLengthLoop 0 cur len = Inr len"
| "peekBox2DLengthLoop (Suc n) cur len =
    (case cur of [] \<Rightarrow> Inl (Errorf ''slice too short for box2d'')
     | m # _ \<Rightarrow>
       if m = 2 \<or> m = 6 \<or> m = 4 then peekBox2DLengthLoop n (drop 1 cur) (len + 1)
       else if m = 3 \<or> m = 5 then
         (if length cur < 9 then Inl (Panic ''slice bounds out of range'')
          else peekBox2DLengthLoop n (drop 9 cur) (len + 9))
       else Inl (Errorf ''unexpected marker for box2d: %x''))"

definition peekBox2DLength :: "bytes \<Rightarrow> int result" where
  "peekBox2DLength b = peekBox2DLengthLoop 4 b 0"

definition SizesForBitLen :: "uint64 \<Rightarrow> uint64 \<times> uint64" where
  "SizesForBitLen bitLen =
    (let numWords = (bitLen + 64 - 1) div 64;
         lastBitsUsed = bitLen mod 64
     in (numWords, if lastBitsUsed = 0 then 64 else lastBitsUsed))"

text \<open>Go's \<open>int\<close> has 64 bits: sums with a decoded length wrap.\<close>

definition go_int :: "int \<Rightarrow> int" where
  "go_int i = sint (word_of_int i :: int64)"

lemma DecodeNonsortingUvarintLoop_consumed:
  "DecodeNonsortingUvarintLoop buf bs i v = (r, n, x) \<Longrightarrow>
    (r = buf \<and> n = 0 \<and> x = 0) \<or> (0 < n \<and> length r < length bs)"
proof (induction bs arbitrary: i v)
  case (Cons b bs)
  then show ?case
    by (cases "b < 0x80") (force simp: Let_def)+
qed simp

lemma DecodeNonsortingUvarint_consumed:
  "DecodeNonsortingUvarint b = (r, n, x) \<Longrightarrow> (r = b \<and> n = 0 \<and> x = 0) \<or> (0 < n \<and> length r < length b)"
  unfolding DecodeNonsortingUvarint_def by (rule DecodeNonsortingUvarintLoop_consumed)

text \<open>Nested values shrink: a tuple's entries start behind its header.\<close>

fun peek_measure :: "bytes + (bytes \<times> int \<times> Type) + (nat \<times> bytes \<times> int) \<Rightarrow> nat \<times> nat" where
  "peek_measure (Inl b) = (2 * length b + 1, 0)"
| "peek_measure (Inr (Inl (b, _))) = (2 * length b, 1)"
| "peek_measure (Inr (Inr (n, rem, _))) = (if n = 0 then (0, 0) else (2 * length rem + 1, n))"

function (sequential) PeekValueLength :: "bytes \<Rightarrow> (int \<times> int) result"
  and PeekValueLengthWithOffsetsAndType :: "bytes \<Rightarrow> int \<Rightarrow> Type \<Rightarrow> int result"
  and PeekTupleLoop :: "nat \<Rightarrow> bytes \<Rightarrow> int \<Rightarrow> int result" where
  "PeekValueLength b =
    (if length b = 0 then Inr (0, 0)
     else case DecodeValueTag b of
       Inl e \<Rightarrow> Inl e
     | Inr (typeOffset, dataOffset, _, typ) \<Rightarrow>
         (case PeekValueLengthWithOffsetsAndType b dataOffset typ of
            Inl e \<Rightarrow> Inl e | Inr len \<Rightarrow> Inr (typeOffset, len)))"
| "PeekValueLengthWithOffsetsAndType b0 dataOffset typ =
    (if dataOffset < 0 \<or> dataOffset > int (length b0) then Inl (Panic ''slice bounds out of range'')
     else
       let b = drop (nat dataOffset) b0 in
       if typ = Null \<or> typ = Void \<or> typ = Type_True \<or> typ = Type_False then Inr dataOffset
       else if typ = Type_Int then
         rbind (DecodeNonsortingStdlibVarint b) (\<lambda>(_, n, _). Inr (dataOffset + n))
       else if typ = Float then Inr (dataOffset + 8)
       else if typ = Bytes \<or> typ = Array \<or> typ = JSON \<or> typ = Geo \<or> typ = TSVector \<or> typ = TSQuery then
         (let (_, n, i) = DecodeNonsortingUvarint b in Inr (go_int (dataOffset + n + sint i)))
       else if typ = Box2D then
         rbind (peekBox2DLength b) (\<lambda>len. Inr (dataOffset + len))
       else if typ = BitArray then
         (let (_, n, bitLen) = DecodeNonsortingUvarint b; (numWords, _) = SizesForBitLen bitLen
          in Inr (go_int (dataOffset + n + sint numWords * 8)))
       else if typ = Tuple then
         (let (rem, l, numTuples) = DecodeNonsortingUvarint b in
          case PeekTupleLoop (nat (sint numTuples)) rem l of
            Inl e \<Rightarrow> Inl e | Inr l' \<Rightarrow> Inr (go_int (dataOffset + l')))
       else if typ = Decimal then
         rbind (DecodeNonsortingStdlibUvarint b) (\<lambda>(_, n, i). Inr (go_int (dataOffset + n + sint i)))
       else if typ = Time \<or> typ = TimeTZ then
         rbind (getMultiNonsortingVarintLen b 2) (\<lambda>n. Inr (dataOffset + n))
       else if typ = Duration then
         rbind (getMultiNonsortingVarintLen b 3) (\<lambda>n. Inr (dataOffset + n))
       else if typ = UUID then Inr (dataOffset + 16)
       else if typ = IPAddr then
         (case b of [] \<Rightarrow> Inl (Panic ''index out of range'')
          | family # _ \<Rightarrow>
            if family = 0 then Inr (dataOffset + 6)
            else if family = 1 then Inr (dataOffset + 18)
            else Inl (Errorf ''got invalid INET IP family: %d''))
       else Inl (Errorf ''unknown type %s''))"
| "PeekTupleLoop 0 rem l = Inr l"
| "PeekTupleLoop (Suc n) rem l =
    (case PeekValueLength rem of
       Inl (Panic m) \<Rightarrow> Inl (Panic m)
     | Inl (Errorf _) \<Rightarrow> Inl (Errorf ''cannot peek tuple entry %d'')
     | Inr (_, entryLen) \<Rightarrow>
         if entryLen < 0 \<or> entryLen > int (length rem) then Inl (Panic ''slice bounds out of range'')
         else PeekTupleLoop n (drop (nat entryLen) rem) (go_int (l + entryLen)))"
  by pat_completeness auto

termination
  by (relation "inv_image (less_than <*lex*> less_than) peek_measure")
    (auto dest!: DecodeNonsortingUvarint_consumed [OF sym])

declare PeekValueLength.simps [simp del] PeekValueLengthWithOffsetsAndType.simps [simp del]

subsection \<open>The varint codecs round-trip\<close>

lemma mask7: "x AND 0x7f = take_bit 7 (x :: 'a::len word)" "0x7f AND x = take_bit 7 (x :: 'a::len word)"
proof -
  have "(0x7f :: 'a word) = mask 7" by (simp add: mask_eq_exp_minus_1)
  then show "x AND 0x7f = take_bit 7 x" "0x7f AND x = take_bit 7 x"
    by (simp_all add: take_bit_eq_mask and.commute)
qed

lemma bit_0x80: "bit (0x80 :: byte) n \<longleftrightarrow> n = 7"
  using bit_exp_iff [where 'a = byte and m = 7 and n = n] by auto

lemma low7: "ucast (take_bit 7 (ucast x OR 0x80 :: byte)) = take_bit 7 (x :: uint64)"
  "ucast (take_bit 7 (0x80 OR ucast x :: byte)) = take_bit 7 (x :: uint64)"
  "ucast (take_bit 7 (ucast x :: byte)) = take_bit 7 (x :: uint64)"
  by (auto simp: bit_eq_iff bit_simps bit_0x80)

lemma high_bit_set: "0x80 \<le> (x OR 0x80 :: byte)" "0x80 \<le> (0x80 OR x :: byte)"
  by (rule le_word_or1, rule le_word_or2)

lemma join7: "push_bit s (take_bit 7 x) OR push_bit (s + 7) (drop_bit 7 x) = push_bit s (x :: uint64)"
proof -
  have "bit (take_bit 7 x OR push_bit 7 (drop_bit 7 x)) n = bit x n" if "n < 64" for n
    using that by (cases "n < 7") (auto simp: bit_simps)
  then have "take_bit 7 x OR push_bit 7 (drop_bit 7 x) = x" by (simp add: bit_eq_iff)
  then have "push_bit s (take_bit 7 x OR push_bit 7 (drop_bit 7 x)) = push_bit s x" by simp
  then show ?thesis by (simp add: push_bit_or add.commute)
qed

lemma UvarintLoop_PutUvarint:
  "unat x < 2 ^ (64 - 7 * i) \<Longrightarrow> i \<le> 9 \<Longrightarrow>
    UvarintLoop (PutUvarint x @ rest) i acc (7 * i) =
      (acc OR push_bit (7 * i) x, int i + int (length (PutUvarint x)))"
proof (induction x arbitrary: i acc rule: PutUvarint.induct)
  case (1 x)
  show ?case
  proof (cases "x \<ge> 0x80")
    case True
    then have x: "128 \<le> unat x" by (simp add: word_le_nat_alt)
    have "i \<noteq> 9"
    proof
      assume "i = 9"
      then show False using "1.prems"(1) x by simp
    qed
    then have i: "i \<le> 8" using "1.prems"(2) by simp
    have "64 - 7 * i = 7 + (64 - 7 * Suc i)" using i by simp
    then have "(2 :: nat) ^ (64 - 7 * i) = 2 ^ (7 + (64 - 7 * Suc i))" by presburger
    then have "(2 :: nat) ^ (64 - 7 * i) = 128 * 2 ^ (64 - 7 * Suc i)" by (simp only: power_add) simp
    then have "unat (drop_bit 7 x) < 2 ^ (64 - 7 * Suc i)"
      using "1.prems"(1) by (simp add: drop_bit_eq_div unat_div_distrib)
    note IH = "1.IH" [OF True this, of "acc OR push_bit (7 * i) (take_bit 7 x)"]
    have b: "\<not> (ucast x OR 0x80 :: byte) < 0x80" using high_bit_set(1) [of "ucast x"] by simp
    show ?thesis
      using True i b IH join7 [of "7 * i" x]
      by (simp add: PutUvarint.simps [of x] mask7 low7 add.commute or.assoc)
  next
    case False
    then have x: "unat x < 128" by (simp add: word_le_nat_alt)
    then have u: "unat (ucast x :: byte) = unat x" by (simp add: unsigned_ucast_eq take_bit_eq_mod)
    have "unat (ucast (ucast x :: byte) :: uint64) = unat x"
      using x by (simp add: unsigned_ucast_eq take_bit_eq_mod unat_mod_distrib)
    then have "(ucast (ucast x :: byte) :: uint64) = x" by (rule unsigned_word_eqI)
    moreover have "(ucast x :: byte) < 0x80" using x u by (simp add: word_less_nat_alt)
    moreover have "i = 9 \<Longrightarrow> \<not> (ucast x :: byte) > 1" using u "1.prems"(1) by (simp add: word_less_nat_alt)
    ultimately show ?thesis using False "1.prems"(2) by (simp add: PutUvarint.simps [of x])
  qed
qed

lemma Uvarint_PutUvarint: "Uvarint (PutUvarint x @ rest) = (x, int (length (PutUvarint x)))"
  using UvarintLoop_PutUvarint [of x 0 rest 0] unsigned_less [where 'a = nat and w = x]
  by (simp add: Uvarint_def)

lemma zigzag:
  assumes "ux = (if sint x < 0 then NOT (push_bit 1 x) else push_bit 1 (x :: int64))"
  shows "(if ux AND 1 \<noteq> 0 then NOT (drop_bit 1 ux) else drop_bit 1 ux) = x"
proof -
  have neg: "sint x < 0 \<longleftrightarrow> bit x 63" using bit_last_iff [of x] by simp
  have odd: "ux AND 1 \<noteq> 0 \<longleftrightarrow> sint x < 0"
    by (simp add: assms and_one_eq odd_iff_mod_2_eq_one [symmetric] even_push_bit_iff)
  define y where "y = push_bit 1 x"
  have y: "bit y m \<longleftrightarrow> 1 \<le> m \<and> m < 64 \<and> bit x (m - 1)" for m
    unfolding y_def bit_push_bit_iff by simp
  have ux: "ux = (if sint x < 0 then NOT y else y)" unfolding assms y_def by (rule refl)
  have "bit (if ux AND 1 \<noteq> 0 then NOT (drop_bit 1 ux) else drop_bit 1 ux) n = bit x n" if "n < 64" for n
    unfolding odd using that neg by (cases "n = 63") (auto simp: ux bit_not_iff bit_drop_bit_eq y)
  then show ?thesis by (simp add: bit_eq_iff)
qed

lemma Varint_PutVarint: "Varint (PutVarint x @ rest) = (x, int (length (PutVarint x)))"
proof -
  define ux where "ux = (if sint x < 0 then NOT (push_bit 1 x) else push_bit 1 x)"
  have "PutVarint x = PutUvarint ux" unfolding PutVarint_def Let_def ux_def by (rule refl)
  then show ?thesis
    unfolding Varint_def using zigzag [OF ux_def] by (simp only: Uvarint_PutUvarint Let_def prod.case)
qed

lemma PutUvarint_nonempty: "PutUvarint x \<noteq> []"
  by (simp add: PutUvarint.simps [of x])

lemma PutVarint_length: "0 < length (PutVarint x)"
  unfolding PutVarint_def Let_def using PutUvarint_nonempty by simp

lemma stdlib_roundtrip:
  "DecodeNonsortingStdlibVarint (PutVarint x @ rest) = Inr (rest, int (length (PutVarint x)), x)"
  "DecodeNonsortingStdlibUvarint (PutUvarint y @ rest) = Inr (rest, int (length (PutUvarint y)), y)"
  using PutUvarint_nonempty [of y] PutVarint_length [of x]
  by (simp_all add: DecodeNonsortingStdlibVarint_def DecodeNonsortingStdlibUvarint_def Varint_PutVarint
      Uvarint_PutUvarint)

text \<open>The most-significant-first form: \<open>n\<close> groups of seven bits, all but the last flagged.\<close>

definition groups7 :: "nat \<Rightarrow> uint64 \<Rightarrow> bytes" where
  "groups7 n x = map (\<lambda>i. 0x80 OR ucast (drop_bit (7 * i) x)) (rev [1..<n]) @ [0x7f AND ucast x]"

definition width7 :: "uint64 \<Rightarrow> nat" where
  "width7 x =
    (if x < 0x80 then 1 else if x < 0x4000 then 2 else if x < 0x200000 then 3 else if x < 0x10000000 then 4
     else if x < 0x800000000 then 5 else if x < 0x40000000000 then 6 else if x < 0x2000000000000 then 7
     else if x < 0x100000000000000 then 8 else if x < 0x8000000000000000 then 9 else 10)"

lemma small7: "x < 0x80 \<Longrightarrow> (0x7f AND ucast x :: byte) = ucast (x :: uint64)"
proof -
  assume "x < 0x80"
  then have "unat x < 128" by (simp add: word_less_nat_alt)
  then have "unat (take_bit 7 (ucast x :: byte)) = unat (ucast x :: byte)"
    by (simp add: unsigned_take_bit_eq unsigned_ucast_eq) (simp add: take_bit_eq_mod)
  then show ?thesis unfolding mask7 by (rule unsigned_word_eqI)
qed

lemma EncodeNonsortingUvarint_closed [append_buf]:
  "EncodeNonsortingUvarint b x = b @ groups7 (width7 x) x"
  by (auto simp: EncodeNonsortingUvarint_def width7_def groups7_def upt_rec small7)

lemma drop_bit_small: "unat x < 2 ^ k \<Longrightarrow> drop_bit k x = (0 :: 'a::len word)"
  by (rule unsigned_word_eqI [where 'a = nat], simp only: unat_drop_bit_eq) (simp add: drop_bit_eq_div)

lemma width7_bound: "drop_bit (7 * width7 x) x = 0" "1 \<le> width7 x"
proof -
  have "unat x < 2 ^ 64" using unsigned_less [where 'a = nat and w = x] by simp
  then have "unat x < 2 ^ (7 * width7 x)" by (auto simp: width7_def word_less_nat_alt)
  then show "drop_bit (7 * width7 x) x = 0" by (rule drop_bit_small)
qed (simp add: width7_def)

lemma groups7_rec: "groups7 1 x = [0x7f AND ucast x]"
  "1 \<le> n \<Longrightarrow> groups7 (Suc n) x = (0x80 OR ucast (drop_bit (7 * n) x)) # groups7 n x"
  by (simp_all add: groups7_def)

lemma length_groups7: "1 \<le> n \<Longrightarrow> length (groups7 n x) = n"
  by (simp add: groups7_def)

lemma seven_lt: "take_bit 7 b < (0x80 :: byte)"
proof -
  have "unat (take_bit 7 b) < 128" by (simp only: unsigned_take_bit_eq) (simp add: take_bit_eq_mod)
  then show ?thesis by (simp add: word_less_nat_alt)
qed

lemma decode_groups7:
  "1 \<le> n \<Longrightarrow>
    DecodeNonsortingUvarintLoop buf (groups7 n x @ rest) i (push_bit 7 (drop_bit (7 * n) x)) =
      (rest, int i + int n, x)"
proof (induction n arbitrary: i rule: nat_induct_at_least)
  case base
  have "push_bit 7 (drop_bit 7 x) + take_bit 7 x = x" by (rule bits_ident)
  then show ?case
    by (simp add: groups7_rec(1) mask7 low7 seven_lt Let_def del: One_nat_def)
next
  case (Suc n)
  have dd: "drop_bit (7 + 7 * n) x = drop_bit 7 (drop_bit (7 * n) x)" by (simp add: add.commute)
  have v: "push_bit 7 (drop_bit (7 + 7 * n) x) + take_bit 7 (drop_bit (7 * n) x) = drop_bit (7 * n) x"
    unfolding dd by (rule bits_ident)
  have b: "\<not> (0x80 OR ucast (drop_bit (7 * n) x) :: byte) < 0x80"
    using high_bit_set(2) by (simp add: not_less)
  show ?case using Suc.IH [of "Suc i"] v b by (simp add: groups7_rec(2) [OF Suc.hyps] mask7 low7 Let_def)
qed

lemma nonsorting_roundtrip:
  "DecodeNonsortingUvarint (EncodeNonsortingUvarint [] x @ rest) =
    (rest, int (length (EncodeNonsortingUvarint [] x)), x)"
  using decode_groups7 [OF width7_bound(2) [of x], of "groups7 (width7 x) x @ rest" x rest 0] width7_bound [of x]
  by (simp add: DecodeNonsortingUvarint_def append_buf length_groups7)

subsection \<open>Value tags\<close>

definition value_tag :: "uint32 \<Rightarrow> int \<Rightarrow> uint64" where
  "value_tag colID t = push_bit 4 (ucast colID) OR word_of_int t"

lemma value_tag_fields:
  assumes "0 \<le> t" "t < 16"
  shows "drop_bit 4 (value_tag c t) = ucast c" "value_tag c t AND 0xf = word_of_int t"
    "ucast (drop_bit 4 (value_tag c t)) = c" "sint (value_tag c t AND 0xf) = t"
proof -
  let ?t = "word_of_int t :: uint64"
  have ut: "uint ?t = t" using assms by (simp add: uint_word_of_int)
  have m: "(0xf :: uint64) = mask 4" by (simp add: mask_eq_exp_minus_1)
  have tt: "take_bit 4 ?t = ?t" "drop_bit 4 ?t = 0"
    using assms ut by (auto intro!: unsigned_word_eqI [where 'a = int] simp: take_bit_eq_mod drop_bit_eq_div uint_mod_distrib uint_div_distrib)
  have "drop_bit 4 (push_bit 4 (ucast c :: uint64)) = ucast c"
    by (auto simp: bit_eq_iff bit_simps dest: bit_imp_le_length)
  then show d: "drop_bit 4 (value_tag c t) = ucast c" by (simp add: value_tag_def drop_bit_or tt)
  show a: "value_tag c t AND 0xf = ?t"
    unfolding m value_tag_def by (simp add: take_bit_eq_mask [symmetric] take_bit_or take_bit_push_bit tt)
  show "ucast (drop_bit 4 (value_tag c t)) = c" unfolding d by (auto simp: bit_eq_iff bit_simps dest: bit_imp_le_length)
  have "sint ?t = t" using assms by (simp add: sint_uint ut signed_take_bit_int_eq_self)
  then show "sint (value_tag c t AND 0xf) = t" unfolding a .
qed

lemma nonsorting_one: "x < 0x80 \<Longrightarrow> EncodeNonsortingUvarint [] x = [ucast x]"
  unfolding EncodeNonsortingUvarint_def by simp

lemma EncodeValueTag_closed:
  assumes "0 \<le> typ"
  shows "EncodeValueTag b c typ =
    b @ EncodeNonsortingUvarint [] (value_tag c (min typ 15)) @
      (if typ \<ge> 15 then EncodeNonsortingUvarint [] (word_of_int typ) else [])"
proof (cases "typ \<ge> 15")
  case True
  then show ?thesis by (simp add: EncodeValueTag_def value_tag_def append_buf)
next
  case False
  have u: "uint (word_of_int typ :: uint64) = typ" using False assms by (simp add: uint_word_of_int)
  then have "word_of_int typ < (0x80 :: uint64)" using False by (simp add: word_less_def)
  moreover have "ucast (word_of_int typ :: uint64) = (word_of_int typ :: byte)" by (simp only: ucast_eq u)
  ultimately have one: "EncodeNonsortingUvarint [] (word_of_int typ) = [word_of_int typ]"
    by (simp add: nonsorting_one)
  have "EncodeNonsortingUvarint b x = b @ EncodeNonsortingUvarint [] x" for x by (simp add: append_buf)
  then show ?thesis using False one by (simp add: EncodeValueTag_def value_tag_def)
qed

text \<open>The bytes before the type part of the tag.\<close>

definition type_offset :: "uint32 \<Rightarrow> int \<Rightarrow> nat" where
  "type_offset c typ = length (EncodeNonsortingUvarint [] (value_tag c (min typ 15))) - 1"

lemma nonsorting_length: "1 \<le> length (EncodeNonsortingUvarint [] x)"
  using width7_bound(2) [of x] by (simp add: append_buf length_groups7)

lemma DecodeValueTag_enc:
  assumes "0 \<le> typ" "typ < 2 ^ 63"
  shows "DecodeValueTag (EncodeValueTag [] c typ @ rest) =
    Inr (int (type_offset c typ), int (length (EncodeValueTag [] c typ)), c, typ)"
proof -
  let ?t = "EncodeNonsortingUvarint [] (value_tag c (min typ 15))"
  have t: "0 \<le> min typ 15" "min typ 15 < 16" using assms by auto
  have len: "1 \<le> length ?t" by (rule nonsorting_length)
  then have ne: "?t \<noteq> []" by auto
  have s: "sint (word_of_int typ :: uint64) = typ"
    using assms by (simp add: signed_of_int signed_take_bit_int_eq_self)
  show ?thesis
  proof (cases "typ \<ge> 15")
    case True
    then show ?thesis
      using ne len s value_tag_fields [OF t, of c]
      by (simp add: DecodeValueTag_def EncodeValueTag_closed assms nonsorting_roundtrip Let_def type_offset_def)
  next
    case False
    then show ?thesis
      using ne len value_tag_fields [OF t, of c]
      by (simp add: DecodeValueTag_def EncodeValueTag_closed assms nonsorting_roundtrip Let_def type_offset_def)
  qed
qed

lemma value_assert:
  "0 \<le> typ \<Longrightarrow> typ < 2 ^ 63 \<Longrightarrow> decodeValueTypeAssert (EncodeValueTag [] c typ @ rest) typ = Inr rest"
  by (simp add: decodeValueTypeAssert_def DecodeValueTag_enc)

lemma drop_groups7: "1 \<le> n \<Longrightarrow> drop (n - 1) (groups7 n x) = [0x7f AND ucast x]"
  by (simp add: groups7_def)

lemma type_part:
  "DecodeNonsortingUvarint ((0x7f AND ucast tag) # rest) = (rest, 1, take_bit 7 tag)"
  by (simp add: DecodeNonsortingUvarint_def mask7 low7 seven_lt)

lemma tag_low: "take_bit 7 tag AND 0xf = tag AND (0xf :: uint64)"
proof -
  have m: "(0xf :: uint64) = mask 4" by (simp add: mask_eq_exp_minus_1)
  show ?thesis unfolding m by (simp add: take_bit_eq_mask [symmetric])
qed

text \<open>Dropping the bytes before the type part leaves a tag with the same type.\<close>

lemma DecodeValueTag_type_part:
  assumes "0 \<le> typ" "typ < 2 ^ 63"
  shows "\<exists>c'. DecodeValueTag (drop (type_offset c typ) (EncodeValueTag [] c typ @ rest)) =
    Inr (0, int (length (EncodeValueTag [] c typ) - type_offset c typ), c', typ)"
proof -
  let ?tag = "value_tag c (min typ 15)"
  let ?more = "if typ \<ge> 15 then EncodeNonsortingUvarint [] (word_of_int typ) else []"
  have t: "0 \<le> min typ 15" "min typ 15 < 16" using assms by auto
  note f = value_tag_fields [OF t, of c]
  have len: "length (groups7 (width7 ?tag) ?tag) = width7 ?tag" "1 \<le> width7 ?tag"
    using width7_bound(2) length_groups7 by auto
  have d: "drop (type_offset c typ) (EncodeValueTag [] c typ @ rest) = (0x7f AND ucast ?tag) # ?more @ rest"
    unfolding EncodeValueTag_closed [OF assms(1)] type_offset_def using len drop_groups7 [OF len(2)]
    by (simp add: append_buf)
  have l: "length (EncodeValueTag [] c typ) - type_offset c typ = 1 + length ?more"
    unfolding EncodeValueTag_closed [OF assms(1)] type_offset_def using len by (simp add: append_buf)
  have s: "sint (word_of_int typ :: uint64) = typ"
    using assms by (simp add: signed_of_int signed_take_bit_int_eq_self)
  show ?thesis unfolding d l
    using f(4) s
    by (cases "typ \<ge> 15") (simp_all add: DecodeValueTag_def type_part tag_low Let_def nonsorting_roundtrip)
qed

subsection \<open>Values round-trip\<close>

lemma untagged_roundtrip:
  "DecodeUntaggedIntValue (EncodeUntaggedIntValue [] i @ rest) = Inr (rest, i)"
  "DecodeUntaggedFloatValue (EncodeUntaggedFloatValue [] f @ rest) = Inr (rest, f)"
  "wf_time t \<Longrightarrow> DecodeUntaggedTimeValue (EncodeUntaggedTimeValue [] t @ rest) = Inr (rest, t)"
  "DecodeUntaggedTimeTZValue (EncodeUntaggedTimeTZValue [] z @ rest) = Inr (rest, z)"
  "DecodeUntaggedDurationValue (EncodeUntaggedDurationValue [] d @ rest) = Inr (rest, d)"
  "length u = 16 \<Longrightarrow> DecodeUntaggedUUIDValue (EncodeUntaggedUUIDValue [] u @ rest) = Inr (rest, u)"
  using uint64_asc.roundtrip [of f rest] EncodeUint64Ascending_be [of "[]" f]
  by (simp_all add: DecodeUntaggedIntValue_def EncodeUntaggedIntValue_def EncodeNonsortingStdlibVarint_def
      stdlib_roundtrip DecodeUntaggedFloatValue_def EncodeUntaggedFloatValue_def
      DecodeUntaggedTimeValue_def EncodeUntaggedTimeValue_def time_Unix_wf
      DecodeUntaggedTimeTZValue_def EncodeUntaggedTimeTZValue_def ucast_scast32
      DecodeUntaggedDurationValue_def EncodeUntaggedDurationValue_def
      DecodeUntaggedUUIDValue_def EncodeUntaggedUUIDValue_def)

lemma untagged_bytes_roundtrip:
  assumes "length data < 2 ^ 63"
  shows "DecodeUntaggedBytesValue (EncodeUntaggedBytesValue [] data @ rest) = Inr (rest, data)"
proof -
  let ?n = "word_of_nat (length data) :: uint64"
  have u: "unat ?n = length data" using assms by (simp add: unsigned_of_nat take_bit_nat_eq_self)
  then have "uint ?n = int (length data)" by (metis uint_nat)
  then have "sint ?n = int (length data)"
    using assms by (subst sint_uint) (simp add: signed_take_bit_int_eq_self)
  with u show ?thesis
    by (simp add: DecodeUntaggedBytesValue_def EncodeUntaggedBytesValue_def nonsorting_roundtrip)
qed

subsection \<open>Tagged values\<close>

lemma tag_nonempty: "0 \<le> typ \<Longrightarrow> EncodeValueTag [] c typ \<noteq> []"
  using nonsorting_length [of "value_tag c (min typ 15)"] by (auto simp: EncodeValueTag_closed)

lemma buffer_tag: "0 \<le> typ \<Longrightarrow> EncodeValueTag b c typ = b @ EncodeValueTag [] c typ"
  by (simp add: EncodeValueTag_closed)

lemma peek_tagged:
  assumes "0 \<le> typ" "typ < 2 ^ 63"
  shows "PeekValueLength (EncodeValueTag [] c typ @ d) =
    (case PeekValueLengthWithOffsetsAndType (EncodeValueTag [] c typ @ d) (int (length (EncodeValueTag [] c typ))) typ of
       Inl e \<Rightarrow> Inl e | Inr len \<Rightarrow> Inr (int (type_offset c typ), len))"
  using tag_nonempty [of "typ" c] assms
  by (subst PeekValueLength.simps) (simp add: DecodeValueTag_enc split del: if_split)

text \<open>The encodings of values with their column id and type.\<close>

inductive tagged_value :: "bytes \<Rightarrow> uint32 \<Rightarrow> Type \<Rightarrow> bool" where
  null: "tagged_value (EncodeNullValue [] c) c Null"
| bool: "tagged_value (EncodeBoolValue [] c b) c (if b then Type_True else Type_False)"
| int: "tagged_value (EncodeIntValue [] c i) c Type_Int"
| float: "tagged_value (EncodeFloatValue [] c f) c Float"
| bytes: "length data < 2 ^ 62 \<Longrightarrow> tagged_value (EncodeBytesValue [] c data) c Bytes"
| array: "length data < 2 ^ 62 \<Longrightarrow> tagged_value (EncodeArrayValue [] c data) c Array"
| json: "length data < 2 ^ 62 \<Longrightarrow> tagged_value (EncodeJSONValue [] c data) c JSON"
| tsquery: "length data < 2 ^ 62 \<Longrightarrow> tagged_value (EncodeTSQueryValue [] c data) c TSQuery"
| tsvector: "length data < 2 ^ 62 \<Longrightarrow> tagged_value (EncodeTSVectorValue [] c data) c TSVector"
| time: "tagged_value (EncodeTimeValue [] c t) c Time"
| timetz: "tagged_value (EncodeTimeTZValue [] c z) c TimeTZ"
| duration: "tagged_value (EncodeDurationValue [] c d) c Duration"
| uuid: "length u = 16 \<Longrightarrow> tagged_value (EncodeUUIDValue [] c u) c UUID"
| void: "tagged_value (EncodeVoidValue [] c) c Void"

lemma two_varints_len:
  "getMultiNonsortingVarintLen (PutVarint x @ PutVarint y @ rest) 2 = Inr (int (length (PutVarint x)) + int (length (PutVarint y)))"
  using PutVarint_length [of x] PutVarint_length [of y]
  by (simp add: getMultiNonsortingVarintLen_def numeral_2_eq_2 stdlib_roundtrip del: length_greater_0_conv)

lemma three_varints_len:
  "getMultiNonsortingVarintLen (PutVarint x @ PutVarint y @ PutVarint z @ rest) 3 =
    Inr (int (length (PutVarint x)) + int (length (PutVarint y)) + int (length (PutVarint z)))"
  using PutVarint_length [of x] PutVarint_length [of y] PutVarint_length [of z]
  by (simp add: getMultiNonsortingVarintLen_def numeral_3_eq_3 stdlib_roundtrip nat_add_distrib del: length_greater_0_conv)

lemma nonsorting_length_le: "length (EncodeNonsortingUvarint [] x) \<le> 10"
  using width7_bound(2) [of x] by (simp add: append_buf length_groups7) (simp add: width7_def)

lemma tag_length_le: "0 \<le> typ \<Longrightarrow> length (EncodeValueTag [] c typ) \<le> 20"
  using add_mono [OF nonsorting_length_le nonsorting_length_le, of "value_tag c (min typ 15)" "word_of_int typ"]
  by (auto simp: EncodeValueTag_closed)

lemma go_int_id: "0 \<le> i \<Longrightarrow> i < 2 ^ 63 \<Longrightarrow> go_int i = i"
  by (simp add: go_int_def signed_of_int signed_take_bit_int_eq_self)

lemma sint_length: "n < 2 ^ 63 \<Longrightarrow> sint (word_of_nat n :: uint64) = int n"
  by (simp add: signed_of_nat signed_take_bit_int_eq_self)

lemma untagged_bytes_buffer: "EncodeUntaggedBytesValue b data = b @ EncodeUntaggedBytesValue [] data"
  by (simp add: EncodeUntaggedBytesValue_def append_buf)

lemma peek_bytes:
  assumes "length data < 2 ^ 62" "typ \<in> {Bytes, Array, JSON, Geo, TSVector, TSQuery}"
  shows "PeekValueLengthWithOffsetsAndType (EncodeValueTag [] c typ @ EncodeUntaggedBytesValue [] data @ rest)
      (int (length (EncodeValueTag [] c typ))) typ =
    Inr (int (length (EncodeValueTag [] c typ)) + int (length (EncodeUntaggedBytesValue [] data)))"
proof -
  let ?t = "EncodeValueTag [] c typ" and ?u = "EncodeNonsortingUvarint [] (word_of_nat (length data))"
  have "0 \<le> typ" using assms(2) by auto
  then have le: "length ?t \<le> 20" "length ?u \<le> 10" using tag_length_le nonsorting_length_le by blast+
  have g: "go_int (int (length ?t) + int (length ?u) + int (length data)) =
      int (length ?t) + int (length ?u) + int (length data)"
    using le assms(1) by (intro go_int_id) auto
  have s: "sint (word_of_nat (length data) :: uint64) = int (length data)"
    using assms(1) by (intro sint_length) simp
  have "PeekValueLengthWithOffsetsAndType (?t @ EncodeUntaggedBytesValue [] data @ rest) (int (length ?t)) typ =
      Inr (go_int (int (length ?t) + int (length ?u) + int (length data)))"
    using assms(2) s
    by (subst PeekValueLengthWithOffsetsAndType.simps)
      (auto simp: EncodeUntaggedBytesValue_def nonsorting_roundtrip Let_def)
  then show ?thesis unfolding g by (simp add: EncodeUntaggedBytesValue_def)
qed

lemmas tagged_defs =
  EncodeNullValue_def EncodeBoolValue_def EncodeIntValue_def EncodeFloatValue_def EncodeBytesValue_def
  EncodeArrayValue_def EncodeJSONValue_def EncodeTSQueryValue_def EncodeTSVectorValue_def
  EncodeTimeValue_def EncodeTimeTZValue_def EncodeDurationValue_def EncodeUUIDValue_def EncodeVoidValue_def
  EncodeUntaggedIntValue_def EncodeUntaggedFloatValue_def EncodeUntaggedTimeValue_def
  EncodeUntaggedTimeTZValue_def EncodeUntaggedDurationValue_def EncodeUntaggedUUIDValue_def
  EncodeNonsortingStdlibVarint_def

text \<open>A tagged value is a tag and a body; the body's length is what the type says.\<close>

definition tagged :: "bytes \<Rightarrow> uint32 \<Rightarrow> Type \<Rightarrow> bool" where
  "tagged e c typ \<longleftrightarrow> 0 \<le> typ \<and> typ < 2 ^ 63 \<and> (\<exists>body. e = EncodeValueTag [] c typ @ body \<and>
    (\<forall>rest. PeekValueLengthWithOffsetsAndType (e @ rest) (int (length (EncodeValueTag [] c typ))) typ =
      Inr (int (length e))))"

lemma taggedI:
  "0 \<le> typ \<Longrightarrow> typ < 2 ^ 63 \<Longrightarrow> e = EncodeValueTag [] c typ @ body \<Longrightarrow>
    (\<And>rest. PeekValueLengthWithOffsetsAndType (EncodeValueTag [] c typ @ body @ rest)
        (int (length (EncodeValueTag [] c typ))) typ =
      Inr (int (length (EncodeValueTag [] c typ)) + int (length body))) \<Longrightarrow> tagged e c typ"
  by (auto simp: tagged_def)

lemma tagged_bytes:
  "length data < 2 ^ 62 \<Longrightarrow> typ \<in> {Bytes, Array, JSON, Geo, TSVector, TSQuery} \<Longrightarrow>
    tagged (EncodeUntaggedBytesValue (EncodeValueTag [] c typ) data) c typ"
  by (rule taggedI [where body = "EncodeUntaggedBytesValue [] data"])
    (auto simp: peek_bytes untagged_bytes_buffer [of "EncodeValueTag _ _ _"])

lemma tagged_value_tagged: "tagged_value e c typ \<Longrightarrow> tagged e c typ"
proof (induction rule: tagged_value.induct)
  case (bool c b)
  show ?case
    by (rule taggedI [where body = "[]"])
      (auto simp: tagged_defs PeekValueLengthWithOffsetsAndType.simps)
next
  case (int c i)
  show ?case
    by (rule taggedI [where body = "PutVarint i"])
      (simp_all add: tagged_defs, subst PeekValueLengthWithOffsetsAndType.simps, simp add: stdlib_roundtrip)
next
  case (float c f)
  show ?case
    by (rule taggedI [where body = "be_bytes 8 f"])
      (simp_all add: tagged_defs append_buf, subst PeekValueLengthWithOffsetsAndType.simps, simp)
next
  case (time c t)
  show ?case
    by (rule taggedI [where body = "PutVarint (Unix t) @ PutVarint (Nanosecond t)"])
      (simp_all add: tagged_defs, subst PeekValueLengthWithOffsetsAndType.simps, simp add: two_varints_len)
next
  case (timetz c z)
  show ?case
    by (rule taggedI [where body = "PutVarint (TimeOfDay z) @ PutVarint (scast (OffsetSecs z))"])
      (simp_all add: tagged_defs, subst PeekValueLengthWithOffsetsAndType.simps, simp add: two_varints_len)
next
  case (duration c d)
  show ?case
    by (rule taggedI [where body = "PutVarint (Months d) @ PutVarint (Days d) @ PutVarint (nanos d)"])
      (simp_all add: tagged_defs, subst PeekValueLengthWithOffsetsAndType.simps, simp add: three_varints_len)
next
  case (uuid u c)
  then show ?case
    by (intro taggedI [where body = u])
      (simp_all add: tagged_defs, subst PeekValueLengthWithOffsetsAndType.simps, simp)
next
  case (null c)
  show ?case
    by (rule taggedI [where body = "[]"])
      (simp_all add: tagged_defs, subst PeekValueLengthWithOffsetsAndType.simps, simp)
next
  case (void c)
  show ?case
    by (rule taggedI [where body = "[]"])
      (simp_all add: tagged_defs, subst PeekValueLengthWithOffsetsAndType.simps, simp)
qed (simp_all add: tagged_defs tagged_bytes)

lemma tagged_peek:
  assumes "tagged e c typ"
  shows "PeekValueLength (e @ rest) = Inr (int (type_offset c typ), int (length e))"
proof -
  obtain body where b: "0 \<le> typ" "typ < 2 ^ 63" "e = EncodeValueTag [] c typ @ body"
      "PeekValueLengthWithOffsetsAndType (e @ rest) (int (length (EncodeValueTag [] c typ))) typ = Inr (int (length e))"
    using assms by (auto simp: tagged_def)
  show ?thesis using peek_tagged [OF b(1,2), of c "body @ rest"] b(3,4) by simp
qed

lemma high_bit_iff: "b AND 0x80 = 0 \<longleftrightarrow> b < (0x80 :: byte)"
proof -
  have "bit b 7 \<longleftrightarrow> odd (unat b div 128)"
    using bit_unsigned_iff [of b 7, where 'a = nat] by (simp add: bit_iff_odd)
  also have "\<dots> \<longleftrightarrow> \<not> b < 0x80"
  proof (cases "unat b < 128")
    case True
    then show ?thesis by (simp add: word_less_nat_alt)
  next
    case False
    then have "unat b div 128 = 1" using byte_lt_256 [of b] by (intro div_nat_eqI) auto
    with False show ?thesis by (simp add: word_less_nat_alt)
  qed
  finally have b: "bit b 7 \<longleftrightarrow> \<not> b < 0x80" .
  have "bit (b AND 0x80) n \<longleftrightarrow> n = 7 \<and> bit b 7" for n
    unfolding bit_and_iff bit_0x80 by auto
  then have "b AND 0x80 = 0 \<longleftrightarrow> \<not> bit b 7" by (metis bit_0_eq bot_apply bot_bool_def bit_eqI)
  with b show ?thesis by simp
qed

lemma PeekLengthLoop_agrees:
  "DecodeNonsortingUvarintLoop buf bs i v = (r, n, x) \<Longrightarrow> int (PeekLengthNonsortingUvarintLoop bs i) = n"
  by (induction bs arbitrary: i v) (auto simp: Let_def high_bit_iff split: if_splits)

subsection \<open>Properties\<close>

text \<open>For every tagged value of a fixed type, however the buffer continues, the tag gives back
  the column id and the type, \<open>PeekValueLength\<close> returns the offset of the type part and the length of
  the value, and the tag still decodes to the same type when the column id is cut off at that offset.\<close>

lemma tagged_value_peek:
  assumes "tagged_value e c ty"
  shows "\<exists>dataOffset.
    DecodeValueTag (e @ rest) = Inr (int (type_offset c ty), dataOffset, c, ty) \<and>
    PeekValueLength (e @ rest) = Inr (int (type_offset c ty), int (length e)) \<and>
    (\<exists>c'. DecodeValueTag (drop (type_offset c ty) (e @ rest)) =
      Inr (0, dataOffset - int (type_offset c ty), c', ty))"
proof -
  have t: "tagged e c ty" by (rule tagged_value_tagged [OF assms])
  then obtain body where b: "0 \<le> ty" "ty < 2 ^ 63" "e = EncodeValueTag [] c ty @ body"
    by (auto simp: tagged_def)
  have "type_offset c ty \<le> length (EncodeValueTag [] c ty)"
    using b(1) by (simp add: type_offset_def EncodeValueTag_closed)
  then show ?thesis
    using DecodeValueTag_enc [OF b(1,2), of c "body @ rest"] tagged_peek [OF t]
      DecodeValueTag_type_part [OF b(1,2), of c "body @ rest"] b(3)
    by (auto simp: of_nat_diff)
qed

text \<open>Every decoder of a tagged value inverts its encoder in front of any rest of the
  buffer.\<close>

lemma tagged_value_roundtrip:
  "DecodeBoolValue (EncodeBoolValue [] c b @ rest) = Inr (rest, b) \<and>
   DecodeIntValue (EncodeIntValue [] c i @ rest) = Inr (rest, i) \<and>
   DecodeFloatValue (EncodeFloatValue [] c f @ rest) = Inr (rest, f) \<and>
   DecodeTimeTZValue (EncodeTimeTZValue [] c z @ rest) = Inr (rest, z) \<and>
   DecodeDurationValue (EncodeDurationValue [] c d @ rest) = Inr (rest, d) \<and>
   (wf_time t \<longrightarrow> DecodeTimeValue (EncodeTimeValue [] c t @ rest) = Inr (rest, t)) \<and>
   (length u = 16 \<longrightarrow> DecodeUUIDValue (EncodeUUIDValue [] c u @ rest) = Inr (rest, u)) \<and>
   (length data < 2 ^ 63 \<longrightarrow> DecodeBytesValue (EncodeBytesValue [] c data @ rest) = Inr (rest, data))"
proof -
  have a: "0 \<le> ty \<Longrightarrow> ty < 2 ^ 63 \<Longrightarrow> decodeValueTypeAssert (EncodeValueTag [] c ty @ r) ty = Inr r" for ty r
    by (rule value_assert)
  have buf: "EncodeUntaggedIntValue p i = p @ EncodeUntaggedIntValue [] i"
    "EncodeUntaggedFloatValue p f = p @ EncodeUntaggedFloatValue [] f"
    "EncodeUntaggedTimeTZValue p z = p @ EncodeUntaggedTimeTZValue [] z"
    "EncodeUntaggedDurationValue p d = p @ EncodeUntaggedDurationValue [] d"
    "EncodeUntaggedTimeValue p t = p @ EncodeUntaggedTimeValue [] t"
    "EncodeUntaggedUUIDValue p u = p @ EncodeUntaggedUUIDValue [] u"
    "EncodeUntaggedBytesValue p data = p @ EncodeUntaggedBytesValue [] data" for p
    by (simp_all add: tagged_defs append_buf EncodeUntaggedBytesValue_def)
  have "DecodeBoolValue (EncodeBoolValue [] c b @ rest) = Inr (rest, b)"
    by (simp add: DecodeBoolValue_def EncodeBoolValue_def DecodeValueTag_enc)
  then show ?thesis
    by (simp add: DecodeIntValue_def EncodeIntValue_def DecodeFloatValue_def EncodeFloatValue_def
        DecodeTimeTZValue_def EncodeTimeTZValue_def DecodeDurationValue_def EncodeDurationValue_def
        DecodeTimeValue_def EncodeTimeValue_def DecodeUUIDValue_def EncodeUUIDValue_def
        DecodeBytesValue_def EncodeBytesValue_def buf [of "EncodeValueTag [] c _"] a
        untagged_roundtrip untagged_bytes_roundtrip)
qed

text \<open>The two kinds of non-sorting varints decode to the encoded value and its length, the
  length scan agrees with the decoder on every buffer, and an unterminated varint comes back as
  length zero without an error, which gives a value tag a type offset of minus one.\<close>

lemma nonsorting_varints:
  "DecodeNonsortingUvarint (EncodeNonsortingUvarint [] x @ rest) =
      (rest, int (length (EncodeNonsortingUvarint [] x)), x) \<and>
   DecodeNonsortingStdlibVarint (EncodeNonsortingStdlibVarint [] v @ rest) =
      Inr (rest, int (length (EncodeNonsortingStdlibVarint [] v)), v) \<and>
   int (PeekLengthNonsortingUvarint buf) = fst (snd (DecodeNonsortingUvarint buf)) \<and>
   DecodeValueTag [0x80] = Inr (- 1, 0, 0, Unknown)"
proof -
  have "int (PeekLengthNonsortingUvarint buf) = fst (snd (DecodeNonsortingUvarint buf))"
    using PeekLengthLoop_agrees [of buf buf 0 0]
    by (cases "DecodeNonsortingUvarintLoop buf buf 0 0") (simp add: PeekLengthNonsortingUvarint_def DecodeNonsortingUvarint_def)
  then show ?thesis
    by (simp add: nonsorting_roundtrip EncodeNonsortingStdlibVarint_def stdlib_roundtrip)
      (simp add: DecodeValueTag_def DecodeNonsortingUvarint_def)
qed

end
