(* ===== verification/Enc_Floats.thy ===== *)
theory Enc_Floats
  imports Enc_Keys
begin

text \<open>
  Keys of floating-point columns (\<open>engine/pkg/util/encoding/float.go\<close>).  A \<open>float64\<close> is its IEEE 754 bit
  pattern, on which \<open>math.Float64bits\<close> and \<open>math.Float64frombits\<close> are the identity.  The order of floats
  is that of the numbers they denote, as integers in units of the least subnormal number (the infinities
  are one step above the greatest finite number).
\<close>

subsection \<open>Floating-point numbers\<close>

abbreviation (input) floatNeg :: byte where "floatNeg \<equiv> 3"
abbreviation (input) floatZero :: byte where "floatZero \<equiv> 4"
abbreviation (input) floatPos :: byte where "floatPos \<equiv> 5"

type_synonym float64 = "64 word"

definition NaN :: float64 where "NaN = 0x7FF8000000000001"

definition signbit :: "float64 \<Rightarrow> bool" where "signbit f \<longleftrightarrow> bit f 63"

definition magnitude :: "float64 \<Rightarrow> nat" where "magnitude f = unat f mod 2 ^ 63"

definition IsNaN :: "float64 \<Rightarrow> bool" where "IsNaN f \<longleftrightarrow> magnitude f > 0x7FF0000000000000"

definition isZero :: "float64 \<Rightarrow> bool" where "isZero f \<longleftrightarrow> magnitude f = 0"

definition neg :: "float64 \<Rightarrow> float64" where "neg f = f XOR (push_bit 63 1)"

subsection \<open>Encoding\<close>

definition EncodeFloatAscending :: "bytes \<Rightarrow> float64 \<Rightarrow> bytes" where
  "EncodeFloatAscending b f =
    (if IsNaN f then b @ [floatNaN]
     else if isZero f then b @ [floatZero]
     else if f AND push_bit 63 1 \<noteq> 0 then EncodeUint64Ascending (b @ [floatNeg]) (NOT f)
     else EncodeUint64Ascending (b @ [floatPos]) f)"

definition EncodeFloatDescending :: "bytes \<Rightarrow> float64 \<Rightarrow> bytes" where
  "EncodeFloatDescending b f =
    (if IsNaN f then b @ [floatNaNDesc] else EncodeFloatAscending b (neg f))"

definition DecodeFloatAscending :: "bytes \<Rightarrow> (bytes \<times> float64) result" where
  "DecodeFloatAscending buf =
    (if PeekType buf \<noteq> Float then Inl (Errorf ''did not find marker'')
     else
       let m = buf ! 0 in
       if m = floatNaN \<or> m = floatNaNDesc then Inr (drop 1 buf, NaN)
       else if m = floatNeg then rbind (DecodeUint64Ascending (drop 1 buf)) (\<lambda>(b, u). Inr (b, NOT u))
       else if m = floatZero then Inr (drop 1 buf, 0)
       else if m = floatPos then rbind (DecodeUint64Ascending (drop 1 buf)) (\<lambda>(b, u). Inr (b, u))
       else Inl (Errorf ''unknown prefix of the encoded byte slice: %q''))"

definition DecodeFloatDescending :: "bytes \<Rightarrow> (bytes \<times> float64) result" where
  "DecodeFloatDescending buf =
    rbind (DecodeFloatAscending buf) (\<lambda>(b, r).
      if \<not> isZero r \<and> \<not> IsNaN r then Inr (b, neg r) else Inr (b, r))"

subsection \<open>The numbers\<close>

text \<open>The magnitude of a number in units of \<open>2\<close> to the power \<open>-1074\<close>: exponent field 0 is subnormal.\<close>

definition units :: "nat \<Rightarrow> nat" where
  "units n = (let e = n div 2 ^ 52; m = n mod 2 ^ 52 in if e = 0 then m else (2 ^ 52 + m) * 2 ^ (e - 1))"

definition num :: "float64 \<Rightarrow> int" where
  "num f = (if signbit f then - int (units (magnitude f)) else int (units (magnitude f)))"

text \<open>The order of a floating-point column: NaN first, then by number.\<close>

definition float_less :: "float64 \<Rightarrow> float64 \<Rightarrow> bool" where
  "float_less f g \<longleftrightarrow> IsNaN f \<and> \<not> IsNaN g \<or> \<not> IsNaN f \<and> \<not> IsNaN g \<and> num f < num g"

lemma units_mono: "a < b \<Longrightarrow> units a < units b"
proof -
  assume ab: "a < b"
  define ea ma eb mb where d: "ea = a div 2 ^ 52" "ma = a mod 2 ^ 52" "eb = b div 2 ^ 52" "mb = b mod 2 ^ 52"
  have u: "units a = (if ea = 0 then ma else (2 ^ 52 + ma) * 2 ^ (ea - 1))"
    "units b = (if eb = 0 then mb else (2 ^ 52 + mb) * 2 ^ (eb - 1))" unfolding units_def Let_def d by (rule refl)+
  have m: "ma < 2 ^ 52" "mb < 2 ^ 52" by (simp_all add: d)
  have le: "ea \<le> eb" using ab by (simp add: d div_le_mono)
  show ?thesis
  proof (cases "ea = eb")
    case True
    moreover have "a = ea * 2 ^ 52 + ma" "b = eb * 2 ^ 52 + mb" by (simp_all add: d)
    ultimately have "ma < mb" using ab by simp
    with True show ?thesis by (simp add: u)
  next
    case False
    then have lt: "ea < eb" using le by simp
    have "units a < 2 ^ 52 * 2 ^ ea"
    proof (cases "ea = 0")
      case False
      then have "(2 ^ ea :: nat) = 2 * 2 ^ (ea - 1)" by (metis power_eq_if)
      with False m(1) show ?thesis by (simp add: u)
    qed (use m in \<open>simp add: u\<close>)
    also have "\<dots> \<le> 2 ^ 52 * 2 ^ (eb - 1)" using lt by simp
    also have "\<dots> \<le> units b" using lt by (simp add: u)
    finally show ?thesis .
  qed
qed

lemma units_less_iff: "units a < units b \<longleftrightarrow> a < b"
  using units_mono [of a b] units_mono [of b a] by (cases a b rule: linorder_cases) auto

lemma units_zero: "units n = 0 \<longleftrightarrow> n = 0"
  using units_mono [of 0 n] by (cases "n = 0") (auto simp: units_def)

subsection \<open>Bits and numbers\<close>

lemma magnitude_take_bit: "magnitude f = unat (take_bit 63 f)"
  unfolding magnitude_def by (subst take_bit_eq_mod [symmetric]) (rule unsigned_take_bit_eq [symmetric])

lemma unat_float: "unat f = (if signbit f then 2 ^ 63 else 0) + magnitude f"
proof -
  have lt: "unat f < 2 ^ 64" using unsigned_less [of f] by simp
  have "bit (unat f) 63 \<longleftrightarrow> signbit f" by (simp add: signbit_def bit_unsigned_iff)
  then have "signbit f \<longleftrightarrow> odd (unat f div 2 ^ 63)" using bit_iff_odd [of "unat f" 63] by blast
  moreover have "unat f div 2 ^ 63 = 0 \<or> unat f div 2 ^ 63 = 1" using lt by auto
  ultimately have "unat f div 2 ^ 63 = (if signbit f then 1 else 0)" by auto
  then show ?thesis using div_mult_mod_eq [of "unat f" "2 ^ 63"] by (auto simp: magnitude_def)
qed

lemma sign_mask: "f AND push_bit 63 1 \<noteq> 0 \<longleftrightarrow> signbit (f :: float64)"
  by (simp add: signbit_def bit_iff_and_push_bit_not_eq_0)

lemma neg_simps [simp]: "signbit (neg f) \<longleftrightarrow> \<not> signbit f" "magnitude (neg f) = magnitude f" "neg (neg f) = f"
proof -
  show "signbit (neg f) \<longleftrightarrow> \<not> signbit f" by (simp add: signbit_def neg_def bit_simps)
  have "take_bit 63 (neg f) = take_bit 63 f" unfolding neg_def by (rule bit_word_eqI) (auto simp: bit_simps)
  then show "magnitude (neg f) = magnitude f" by (simp add: magnitude_take_bit)
  show "neg (neg f) = f" unfolding neg_def by (rule bit_word_eqI) (auto simp: bit_simps)
qed

lemma neg_kind [simp]: "IsNaN (neg f) \<longleftrightarrow> IsNaN f" "isZero (neg f) \<longleftrightarrow> isZero f" "num (neg f) = - num f"
  by (simp_all add: IsNaN_def isZero_def num_def)

lemma num_less_iff:
  "num f < num g \<longleftrightarrow>
    (if signbit f then (if signbit g then magnitude g < magnitude f else \<not> (isZero f \<and> isZero g))
     else \<not> signbit g \<and> magnitude f < magnitude g)"
proof -
  have "int (units (magnitude x)) = 0 \<longleftrightarrow> isZero x" "0 \<le> int (units (magnitude x))" for x
    by (simp_all add: units_zero isZero_def)
  then show ?thesis unfolding num_def using units_less_iff by (smt (verit) of_nat_less_iff)
qed

lemma float_eqI: "signbit f = signbit g \<Longrightarrow> magnitude f = magnitude g \<Longrightarrow> f = g"
  using unat_float [of f] unat_float [of g] by (metis word_unat_eq_iff)

text \<open>The floats that come back as they were: the NaN and the zero of the decoder, and all others.\<close>

definition canonical :: "float64 \<Rightarrow> bool" where
  "canonical f \<longleftrightarrow> (IsNaN f \<longrightarrow> f = NaN) \<and> (isZero f \<longrightarrow> f = 0)"

lemma float_less_total: "canonical f \<Longrightarrow> canonical g \<Longrightarrow> float_less f g \<or> f = g \<or> float_less g f"
proof -
  assume c: "canonical f" "canonical g"
  show ?thesis
  proof (cases "IsNaN f \<or> IsNaN g \<or> isZero f \<and> isZero g")
    case True
    then show ?thesis using c by (auto simp: canonical_def float_less_def)
  next
    case False
    have "f = g" if "\<not> num f < num g" "\<not> num g < num f"
      using that False by (intro float_eqI) (auto simp: num_less_iff isZero_def split: if_splits)
    then show ?thesis using False by (auto simp: float_less_def)
  qed
qed

subsection \<open>Order and round trip\<close>

lemma asc_cases:
  "EncodeFloatAscending b f = b @
    (if IsNaN f then [2] else if isZero f then [4] else if signbit f then 3 # be_bytes 8 (NOT f) else 5 # be_bytes 8 f)"
  unfolding EncodeFloatAscending_def sign_mask EncodeUint64Ascending_be by simp

lemma desc_cases:
  "EncodeFloatDescending b f = b @
    (if IsNaN f then [6] else if isZero f then [4] else if signbit f then 5 # be_bytes 8 (neg f) else 3 # be_bytes 8 (NOT (neg f)))"
  by (simp add: EncodeFloatDescending_def asc_cases)

lemma word_less_magnitude: "signbit f = signbit g \<Longrightarrow> f < g \<longleftrightarrow> magnitude f < magnitude g"
  using unat_float [of f] unat_float [of g] by (simp add: word_less_nat_alt)

lemma dless_be8: "dless (be_bytes 8 v) (be_bytes 8 w) \<longleftrightarrow> v < (w :: float64)"
  using unsigned_less [of v] unsigned_less [of w] by (intro dless_be_bytes) simp_all

lemma EncodeFloatAscending_ordered:
  assumes "float_less f g"
  shows "dless (EncodeFloatAscending [] f) (EncodeFloatAscending [] g)"
proof -
  have "\<not> IsNaN g" using assms by (auto simp: float_less_def)
  then show ?thesis
    using assms by (auto simp: isZero_def asc_cases float_less_def num_less_iff dless_be8 word_less_magnitude word_not_less_iff split: if_splits)
qed

lemma EncodeFloatDescending_ordered:
  assumes "float_less g f"
  shows "dless (EncodeFloatDescending [] f) (EncodeFloatDescending [] g)"
proof (cases "IsNaN g")
  case True
  then show ?thesis using assms by (auto simp: desc_cases float_less_def)
next
  case False
  then have "\<not> IsNaN f" "float_less (neg f) (neg g)" using assms by (auto simp: float_less_def)
  then show ?thesis using False EncodeFloatAscending_ordered [of "neg f" "neg g"] by (simp add: EncodeFloatDescending_def)
qed

definition canon :: "float64 \<Rightarrow> float64" where
  "canon f = (if IsNaN f then NaN else if isZero f then 0 else f)"

lemma canon_canonical: "canonical f \<Longrightarrow> canon f = f"
  by (auto simp: canon_def canonical_def)

lemma canon_kind [simp]: "canonical (canon f)" "IsNaN (canon f) \<longleftrightarrow> IsNaN f" "num (canon f) = (if IsNaN f then num NaN else num f)"
  by (auto simp: canon_def canonical_def IsNaN_def isZero_def magnitude_def NaN_def num_def units_def signbit_def)

lemma PeekType_float:
  "PeekType (2 # b) = Float" "PeekType (3 # b) = Float" "PeekType (4 # b) = Float" "PeekType (5 # b) = Float" "PeekType (6 # b) = Float"
  by (simp_all add: PeekType_eq slowPeekType_def)

lemma DecodeUint64_be: "DecodeUint64Ascending (be_bytes 8 v @ rest) = Inr (rest, v)"
  using uint64_asc.roundtrip [of v rest] by (simp add: EncodeUint64Ascending_be)

lemma DecodeFloatAscending_roundtrip: "DecodeFloatAscending (EncodeFloatAscending [] f @ rest) = Inr (rest, canon f)"
  by (auto simp: asc_cases DecodeFloatAscending_def PeekType_float DecodeUint64_be canon_def Let_def)

lemma DecodeFloatDescending_roundtrip: "DecodeFloatDescending (EncodeFloatDescending [] f @ rest) = Inr (rest, canon f)"
proof (cases "IsNaN f")
  case True
  then show ?thesis
    by (simp add: desc_cases DecodeFloatDescending_def DecodeFloatAscending_def PeekType_float canon_def NaN_def IsNaN_def magnitude_def)
next
  case False
  then have "DecodeFloatAscending (EncodeFloatDescending [] f @ rest) = Inr (rest, canon (neg f))"
    using DecodeFloatAscending_roundtrip by (simp add: EncodeFloatDescending_def)
  moreover have "isZero 0" by (simp add: isZero_def magnitude_def)
  ultimately show ?thesis using False by (simp add: DecodeFloatDescending_def canon_def)
qed

interpretation float_asc: key_codec "EncodeFloatAscending []" DecodeFloatAscending float_less canonical
  by unfold_locales (simp_all add: DecodeFloatAscending_roundtrip canon_canonical EncodeFloatAscending_ordered float_less_total)

interpretation float_desc: key_codec "EncodeFloatDescending []" DecodeFloatDescending "\<lambda>f g. float_less g f" canonical
  using float_less_total
  by unfold_locales (auto simp: DecodeFloatDescending_roundtrip canon_canonical EncodeFloatDescending_ordered)

lemma Encode_canon: "EncodeFloatAscending [] (canon f) = EncodeFloatAscending [] f" "EncodeFloatDescending [] (canon f) = EncodeFloatDescending [] f"
  by (auto simp: canon_def asc_cases desc_cases IsNaN_def isZero_def magnitude_def NaN_def)

lemma canon_eq_iff: "canon f = canon g \<longleftrightarrow> IsNaN f \<and> IsNaN g \<or> \<not> IsNaN f \<and> \<not> IsNaN g \<and> num f = num g"
proof -
  have "num f = num g" if "\<not> IsNaN f" "\<not> IsNaN g" "canon f = canon g" using that canon_kind(3) by metis
  moreover have "canon f = canon g" if "\<not> IsNaN f" "\<not> IsNaN g" "num f = num g"
    using that float_less_total [of "canon f" "canon g"] by (auto simp: float_less_def)
  ultimately show ?thesis using canon_kind(2) by (metis canon_def)
qed

text \<open>Keys of floating-point columns.  In front of any rest of the key, keys of two floats compare as
  the numbers they denote, NaN below all of them, and in the opposite order for descending columns;
  floats with equal numbers (the two zeros) and all NaNs share a key; and each decodes to the number
  that was encoded.\<close>

lemma float_keys:
  "(EncodeFloatAscending [] f @ r < EncodeFloatAscending [] g @ s \<longleftrightarrow>
      float_less f g \<or> (IsNaN f \<and> IsNaN g \<or> \<not> IsNaN f \<and> \<not> IsNaN g \<and> num f = num g) \<and> r < s) \<and>
   (EncodeFloatDescending [] f @ r < EncodeFloatDescending [] g @ s \<longleftrightarrow>
      float_less g f \<or> (IsNaN f \<and> IsNaN g \<or> \<not> IsNaN f \<and> \<not> IsNaN g \<and> num f = num g) \<and> r < s) \<and>
   DecodeFloatAscending (EncodeFloatAscending [] f @ r) = Inr (r, canon f) \<and>
   DecodeFloatDescending (EncodeFloatDescending [] f @ r) = Inr (r, canon f)"
proof -
  have "float_less (canon f) (canon g) \<longleftrightarrow> float_less f g" for f g by (auto simp: float_less_def)
  then show ?thesis
    using float_asc.less_append_iff [of "canon f" "canon g" r s] float_desc.less_append_iff [of "canon f" "canon g" r s]
    by (simp add: Encode_canon canon_eq_iff DecodeFloatAscending_roundtrip DecodeFloatDescending_roundtrip)
qed

end
