(* ===== verification/Hlc.thy ===== *)
theory Hlc
  imports Enc_Ints
begin

text \<open>
  Hybrid logical clock timestamps, \<open>engine/pkg/util/hlc/timestamp.go\<close>.  \<open>WallTime\<close> is an
  \<open>int64\<close>, \<open>Logical\<close> an \<open>int32\<close>; both wrap as Go's integers do.  \<open>Less\<close> and its kin ignore
  the \<open>Synthetic\<close> flag, so the timestamps are compared through \<open>ts_pair\<close>, the pair the order
  looks at.  Methods with a pointer receiver return the new receiver.
\<close>

record Timestamp =
  WallTime :: int64
  Logical :: int32
  Synthetic :: bool

text \<open>A \<open>LegacyTimestamp\<close> has a pointer to its flag, nil for absent.\<close>

record LegacyTimestamp =
  LWallTime :: int64
  LLogical :: int32
  LSynthetic :: "bool option"

type_synonym ClockTimestamp = Timestamp

abbreviation (input) MaxInt64 :: int64 where "MaxInt64 \<equiv> 0x7fffffffffffffff"
abbreviation (input) MaxInt32 :: int32 where "MaxInt32 \<equiv> 0x7fffffff"

definition MaxTimestamp :: Timestamp where
  "MaxTimestamp = \<lparr>WallTime = MaxInt64, Logical = MaxInt32, Synthetic = False\<rparr>"

definition MinTimestamp :: Timestamp where
  "MinTimestamp = \<lparr>WallTime = 0, Logical = 1, Synthetic = False\<rparr>"

definition emptyTimestamp :: Timestamp where
  "emptyTimestamp = \<lparr>WallTime = 0, Logical = 0, Synthetic = False\<rparr>"

definition EqOrdering :: "Timestamp \<Rightarrow> Timestamp \<Rightarrow> bool" where
  "EqOrdering t s \<longleftrightarrow> WallTime t = WallTime s \<and> Logical t = Logical s"

definition Less :: "Timestamp \<Rightarrow> Timestamp \<Rightarrow> bool" where
  "Less t s \<longleftrightarrow> sint (WallTime t) < sint (WallTime s) \<or>
     (WallTime t = WallTime s \<and> sint (Logical t) < sint (Logical s))"

definition LessEq :: "Timestamp \<Rightarrow> Timestamp \<Rightarrow> bool" where
  "LessEq t s \<longleftrightarrow> sint (WallTime t) < sint (WallTime s) \<or>
     (WallTime t = WallTime s \<and> sint (Logical t) \<le> sint (Logical s))"

definition Compare :: "Timestamp \<Rightarrow> Timestamp \<Rightarrow> int" where
  "Compare t s =
    (if sint (WallTime t) > sint (WallTime s) then 1
     else if sint (WallTime t) < sint (WallTime s) then - 1
     else if sint (Logical t) > sint (Logical s) then 1
     else if sint (Logical t) < sint (Logical s) then - 1
     else 0)"

definition IsEmpty :: "Timestamp \<Rightarrow> bool" where
  "IsEmpty t \<longleftrightarrow> WallTime t = 0 \<and> Logical t = 0 \<and> \<not> Synthetic t"

definition IsSet :: "Timestamp \<Rightarrow> bool" where
  "IsSet t \<longleftrightarrow> \<not> IsEmpty t"

definition Add :: "Timestamp \<Rightarrow> int64 \<Rightarrow> int32 \<Rightarrow> Timestamp" where
  "Add t wallTime logical =
     \<lparr>WallTime = WallTime t + wallTime, Logical = Logical t + logical, Synthetic = Synthetic t\<rparr>"

definition WithSynthetic :: "Timestamp \<Rightarrow> bool \<Rightarrow> Timestamp" where
  "WithSynthetic t val = t\<lparr>Synthetic := val\<rparr>"

definition Next :: "Timestamp \<Rightarrow> Timestamp result" where
  "Next t =
    (if Logical t = MaxInt32 then
       (if WallTime t = MaxInt64 then Inl (Panic ''cannot take the next value to a max timestamp'')
        else Inr \<lparr>WallTime = WallTime t + 1, Logical = 0, Synthetic = Synthetic t\<rparr>)
     else Inr \<lparr>WallTime = WallTime t, Logical = Logical t + 1, Synthetic = Synthetic t\<rparr>)"

definition Prev :: "Timestamp \<Rightarrow> Timestamp result" where
  "Prev t =
    (if sint (Logical t) > 0 then
       Inr \<lparr>WallTime = WallTime t, Logical = Logical t - 1, Synthetic = Synthetic t\<rparr>
     else if sint (WallTime t) > 0 then
       Inr \<lparr>WallTime = WallTime t - 1, Logical = MaxInt32, Synthetic = Synthetic t\<rparr>
     else Inl (Panic ''cannot take the previous value to a zero timestamp''))"

definition FloorPrev :: "Timestamp \<Rightarrow> Timestamp result" where
  "FloorPrev t =
    (if sint (Logical t) > 0 then
       Inr \<lparr>WallTime = WallTime t, Logical = Logical t - 1, Synthetic = Synthetic t\<rparr>
     else if sint (WallTime t) > 0 then
       Inr \<lparr>WallTime = WallTime t - 1, Logical = 0, Synthetic = Synthetic t\<rparr>
     else Inl (Panic ''cannot take the previous value to a zero timestamp''))"

definition WallNext :: "Timestamp \<Rightarrow> Timestamp" where
  "WallNext t = \<lparr>WallTime = WallTime t + 1, Logical = 0, Synthetic = Synthetic t\<rparr>"

definition WallPrev :: "Timestamp \<Rightarrow> Timestamp" where
  "WallPrev t = \<lparr>WallTime = WallTime t - 1, Logical = 0, Synthetic = Synthetic t\<rparr>"

definition bothSynthetic :: "Timestamp \<Rightarrow> Timestamp \<Rightarrow> bool" where
  "bothSynthetic l r \<longleftrightarrow> Synthetic l \<and> Synthetic r"

definition Forward :: "Timestamp \<Rightarrow> Timestamp \<Rightarrow> Timestamp \<times> bool" where
  "Forward t s =
    (if Less t s then (s, True)
     else if EqOrdering t s then (t\<lparr>Synthetic := bothSynthetic t s\<rparr>, False)
     else (t, False))"

definition Backward :: "Timestamp \<Rightarrow> Timestamp \<Rightarrow> Timestamp" where
  "Backward t s =
    (let syn = bothSynthetic t s;
         t' = (if Less s t then s else t)
     in t'\<lparr>Synthetic := syn\<rparr>)"

definition ToLegacyTimestamp :: "Timestamp \<Rightarrow> LegacyTimestamp" where
  "ToLegacyTimestamp t = \<lparr>LWallTime = WallTime t, LLogical = Logical t,
     LSynthetic = (if Synthetic t then Some True else None)\<rparr>"

definition LegacyToTimestamp :: "LegacyTimestamp \<Rightarrow> Timestamp" where
  "LegacyToTimestamp t = \<lparr>WallTime = LWallTime t, Logical = LLogical t,
     Synthetic = (case LSynthetic t of None \<Rightarrow> False | Some b \<Rightarrow> b)\<rparr>"

definition LegacyEqOrdering :: "LegacyTimestamp \<Rightarrow> LegacyTimestamp \<Rightarrow> bool" where
  "LegacyEqOrdering t s = EqOrdering (LegacyToTimestamp t) (LegacyToTimestamp s)"

definition LegacyLess :: "LegacyTimestamp \<Rightarrow> LegacyTimestamp \<Rightarrow> bool" where
  "LegacyLess t s = Less (LegacyToTimestamp t) (LegacyToTimestamp s)"

definition DeprecatedTryToClockTimestamp :: "Timestamp \<Rightarrow> ClockTimestamp \<times> bool" where
  "DeprecatedTryToClockTimestamp t =
    (if Synthetic t then (emptyTimestamp, False) else (t, True))"

definition UnsafeToClockTimestamp :: "Timestamp \<Rightarrow> ClockTimestamp" where
  "UnsafeToClockTimestamp t = t\<lparr>Synthetic := False\<rparr>"

definition ClockToTimestamp :: "ClockTimestamp \<Rightarrow> Timestamp result" where
  "ClockToTimestamp t =
    (if Synthetic t then Inl (Panic ''ClockTimestamp with Synthetic flag set'') else Inr t)"

subsection \<open>The order\<close>

text \<open>The order of timestamps is the lexicographic order of this pair of integers.\<close>

definition ts_pair :: "Timestamp \<Rightarrow> int \<times> int" where
  "ts_pair t = (sint (WallTime t), sint (Logical t))"

lemma Less_pair: "Less t s \<longleftrightarrow> fst (ts_pair t) < fst (ts_pair s) \<or>
    fst (ts_pair t) = fst (ts_pair s) \<and> snd (ts_pair t) < snd (ts_pair s)"
  by (auto simp: Less_def ts_pair_def sint_eq_iff)

lemma LessEq_pair: "LessEq t s \<longleftrightarrow> fst (ts_pair t) < fst (ts_pair s) \<or>
    fst (ts_pair t) = fst (ts_pair s) \<and> snd (ts_pair t) \<le> snd (ts_pair s)"
  by (auto simp: LessEq_def ts_pair_def sint_eq_iff)

lemma EqOrdering_pair: "EqOrdering t s \<longleftrightarrow> ts_pair t = ts_pair s"
  by (auto simp: EqOrdering_def ts_pair_def sint_eq_iff)

lemmas ts_order = Less_pair LessEq_pair EqOrdering_pair

lemma LessEq_iff: "LessEq t s \<longleftrightarrow> Less t s \<or> EqOrdering t s"
  by (auto simp: ts_order prod_eq_iff)

lemma not_Less [simp]: "\<not> Less t s \<longleftrightarrow> LessEq s t"
  by (auto simp: ts_order)

lemma not_LessEq [simp]: "\<not> LessEq t s \<longleftrightarrow> Less s t"
  by (auto simp: ts_order)

lemma LessEq_refl [simp]: "LessEq t t"
  by (simp add: ts_order)

lemma Less_irrefl [simp]: "\<not> Less t t"
  by (simp add: ts_order del: not_Less)

lemma ts_trans:
  "LessEq t s \<Longrightarrow> LessEq s u \<Longrightarrow> LessEq t u"
  "Less t s \<Longrightarrow> LessEq s u \<Longrightarrow> Less t u"
  "LessEq t s \<Longrightarrow> Less s u \<Longrightarrow> Less t u"
  "Less t s \<Longrightarrow> Less s u \<Longrightarrow> Less t u"
  by (auto simp: ts_order)

lemma Less_imp_LessEq: "Less t s \<Longrightarrow> LessEq t s"
  by (auto simp: ts_order)

lemma ts_total: "LessEq t s \<or> LessEq s t"
  by (auto simp: ts_order)

lemma Synthetic_update_order [simp]:
  "Less (t\<lparr>Synthetic := b\<rparr>) s \<longleftrightarrow> Less t s" "Less s (t\<lparr>Synthetic := b\<rparr>) \<longleftrightarrow> Less s t"
  "LessEq (t\<lparr>Synthetic := b\<rparr>) s \<longleftrightarrow> LessEq t s" "LessEq s (t\<lparr>Synthetic := b\<rparr>) \<longleftrightarrow> LessEq s t"
  "ts_pair (t\<lparr>Synthetic := b\<rparr>) = ts_pair t"
  by (simp_all add: ts_order ts_pair_def)

lemma Compare_iff:
  "Compare t s = - 1 \<longleftrightarrow> Less t s" "Compare t s = 0 \<longleftrightarrow> EqOrdering t s" "Compare t s = 1 \<longleftrightarrow> Less s t"
  by (auto simp: Compare_def ts_order ts_pair_def)

subsection \<open>Next, Prev, Forward, Backward\<close>

lemma sint_add1:
  "1 < LENGTH('a) \<Longrightarrow> sint x \<noteq> 2 ^ (LENGTH('a) - 1) - 1 \<Longrightarrow> sint (x + 1) = sint (x :: 'a::len word) + 1"
  using sint_lt [of x] sint_ge [of x]
  by (subst sint_word_ariths(1)) (simp add: signed_take_bit_int_eq_self)

lemma sint_sub1: "1 < LENGTH('a) \<Longrightarrow> sint x > 0 \<Longrightarrow> sint (x - 1) = sint (x :: 'a::len word) - 1"
  using sint_lt [of x] sint_ge [of x]
  by (subst sint_word_ariths(2)) (simp add: signed_take_bit_int_eq_self)

lemma sint_diff_nonneg:
  "0 \<le> sint (a :: int64) \<Longrightarrow> 0 \<le> sint b \<Longrightarrow> sint (a - b) = sint a - sint b"
proof -
  assume "0 \<le> sint a" "0 \<le> sint b"
  moreover have "sint a < 2 ^ 63" "sint b < 2 ^ 63" using sint_lt [of a] sint_lt [of b] by simp_all
  moreover have "a - b = word_of_int (sint a - sint b)" by simp
  ultimately show ?thesis by (simp only: sint_sbintrunc') (simp add: signed_take_bit_int_eq_self)
qed

lemma sint_max: "sint MaxInt64 = 2 ^ 63 - 1" "sint MaxInt32 = 2 ^ 31 - 1"
  by (simp_all add: sint_uint)

lemma sint_max_iff: "sint x = 2 ^ 63 - 1 \<longleftrightarrow> x = MaxInt64" "sint y = 2 ^ 31 - 1 \<longleftrightarrow> y = MaxInt32"
  using sint_eq_iff [of x MaxInt64] sint_eq_iff [of y MaxInt32] by (simp_all add: sint_max)

lemma sint_succ64: "x \<noteq> MaxInt64 \<Longrightarrow> sint (x + 1) = sint (x :: int64) + 1"
  using sint_add1 [of x] sint_max_iff(1) [of x] by simp

lemma sint_succ32: "x \<noteq> MaxInt32 \<Longrightarrow> sint (x + 1) = sint (x :: int32) + 1"
  using sint_add1 [of x] sint_max_iff(2) [of x] by simp

lemmas sint_step = sint_succ64 sint_succ32 sint_sub1

text \<open>Timestamps in use have a non-negative logical component.\<close>

definition wf_ts :: "Timestamp \<Rightarrow> bool" where
  "wf_ts t \<longleftrightarrow> 0 \<le> sint (Logical t)"

lemma sint_logical_le: "sint (x :: int32) \<le> 2 ^ 31 - 1"
  using sint_lt [of x] by simp

lemma Next_Less: "Next t = Inr s \<Longrightarrow> Less t s"
  by (auto simp: Next_def Less_def sint_step split: if_splits)

lemma Next_least:
  assumes "Next t = Inr s" "wf_ts u" "Less t u"
  shows "LessEq s u"
proof (cases "Logical t = MaxInt32")
  case True
  then have "sint (WallTime t) < sint (WallTime u)"
    using assms(3) sint_logical_le [of "Logical u"] by (auto simp: Less_def sint_max)
  then show ?thesis
    using assms True by (auto simp: Next_def LessEq_def wf_ts_def sint_step sint_eq_iff [symmetric] split: if_splits)
next
  case False
  then show ?thesis
    using assms by (auto simp: Next_def LessEq_def Less_def sint_step)
qed

lemma Prev_Less: "Prev t = Inr s \<Longrightarrow> Less s t"
  by (auto simp: Prev_def Less_def sint_step split: if_splits)

lemma FloorPrev_Less: "FloorPrev t = Inr s \<Longrightarrow> Less s t"
  by (auto simp: FloorPrev_def Less_def sint_step split: if_splits)

lemma Prev_greatest:
  assumes "Prev t = Inr s" "wf_ts u" "Less u t"
  shows "LessEq u s"
proof (cases "sint (Logical t) > 0")
  case True
  then show ?thesis
    using assms by (auto simp: Prev_def LessEq_def Less_def sint_step)
next
  case False
  then have "sint (WallTime u) < sint (WallTime t)"
    using assms(2,3) by (auto simp: Less_def wf_ts_def)
  then show ?thesis
    using assms False sint_logical_le [of "Logical u"]
    by (auto simp: Prev_def LessEq_def sint_step sint_max sint_eq_iff [symmetric] split: if_splits)
qed

lemma Prev_Next: "Next t = Inr s \<Longrightarrow> wf_ts t \<Longrightarrow> 0 \<le> sint (WallTime t) \<Longrightarrow> Prev s = Inr t"
  by (cases t) (auto simp: Next_def Prev_def wf_ts_def sint_step split: if_splits)

lemma Next_Prev:
  assumes "Prev t = Inr s" "wf_ts t"
  shows "Next s = Inr t"
proof (cases "sint (Logical t) > 0")
  case True
  then have "Logical t - 1 \<noteq> MaxInt32"
    using sint_sub1 [of "Logical t"] sint_logical_le [of "Logical t"] sint_max(2) by fastforce
  with True assms show ?thesis by (cases t) (auto simp: Prev_def Next_def)
next
  case False
  with assms(2) have "sint (Logical t) = sint (0 :: int32)" by (simp add: wf_ts_def)
  then have 0: "Logical t = 0" by (simp only: sint_eq_iff)
  moreover have "WallTime t - 1 \<noteq> MaxInt64" if "sint (WallTime t) > 0"
    using sint_sub1 [of "WallTime t"] that sint_lt [of "WallTime t"] sint_max(1) by fastforce
  ultimately show ?thesis
    using False assms(1) by (cases t) (auto simp: Prev_def Next_def split: if_splits)
qed

lemma Forward_max:
  "LessEq t (fst (Forward t s))" "LessEq s (fst (Forward t s))"
  "ts_pair (fst (Forward t s)) = ts_pair t \<or> ts_pair (fst (Forward t s)) = ts_pair s"
  "snd (Forward t s) \<longleftrightarrow> Less t s"
  by (auto simp: Forward_def ts_order)

lemma Backward_min:
  "LessEq (Backward t s) t" "LessEq (Backward t s) s"
  "ts_pair (Backward t s) = ts_pair t \<or> ts_pair (Backward t s) = ts_pair s"
  by (auto simp: Backward_def Let_def ts_order)

text \<open>\<open>Forward\<close> is a join: it is associative and commutative up to the order.\<close>

lemma Forward_idem: "Forward (fst (Forward t s)) s = (fst (Forward t s), False)"
  by (auto simp: Forward_def EqOrdering_def bothSynthetic_def)

lemma Forward_comm: "EqOrdering (fst (Forward t s)) (fst (Forward s t))"
  by (auto simp: Forward_def ts_order prod_eq_iff)

lemma Legacy_roundtrip: "LegacyToTimestamp (ToLegacyTimestamp t) = t"
  by (cases t) (simp add: LegacyToTimestamp_def ToLegacyTimestamp_def)

subsection \<open>Properties\<close>

text \<open>\<open>Next\<close> is the immediate successor among timestamps with a non-negative logical part, and
  \<open>Prev\<close> undoes it; \<open>Next\<close> panics on the maximal timestamp only.\<close>

lemma Next_adjacent:
  assumes "wf_ts t" "0 \<le> sint (WallTime t)"
  shows "case Next t of
      Inr s \<Rightarrow> Less t s \<and> (\<forall>u. wf_ts u \<longrightarrow> Less t u \<longrightarrow> LessEq s u) \<and> Prev s = Inr t
    | Inl _ \<Rightarrow> EqOrdering t MaxTimestamp"
proof (cases "Next t")
  case (Inl e)
  then show ?thesis by (auto simp: Next_def EqOrdering_def MaxTimestamp_def split: if_splits)
next
  case (Inr s)
  then show ?thesis using assms by (simp add: Next_Less Next_least Prev_Next)
qed

text \<open>\<open>Prev\<close> is the immediate predecessor among timestamps with a non-negative logical part,
  \<open>Next\<close> undoes it, and \<open>FloorPrev\<close> succeeds on the same timestamps with an earlier result.\<close>

lemma Prev_adjacent:
  assumes "Prev t = Inr s" "wf_ts t"
  shows "Less s t \<and> (\<forall>u. wf_ts u \<longrightarrow> Less u t \<longrightarrow> LessEq u s) \<and> Next s = Inr t \<and>
    (\<exists>f. FloorPrev t = Inr f \<and> LessEq f s)"
proof -
  have "\<exists>f. FloorPrev t = Inr f \<and> LessEq f s"
    using assms(1) by (auto simp: Prev_def FloorPrev_def LessEq_def sint_max split: if_splits)
  then show ?thesis using assms Prev_Less Prev_greatest Next_Prev by blast
qed

text \<open>\<open>Forward\<close> moves a timestamp to the least upper bound of the two and reports whether it
  moved; \<open>Backward\<close> takes the greatest lower bound.  A tie of \<open>Forward\<close> is synthetic only if both are,
  and so is every result of \<open>Backward\<close>.\<close>

lemma Forward_Backward_lattice:
  "(\<forall>u. LessEq (fst (Forward t s)) u \<longleftrightarrow> LessEq t u \<and> LessEq s u) \<and>
   (snd (Forward t s) \<longleftrightarrow> Less t s) \<and>
   (Synthetic (fst (Forward t s)) \<longleftrightarrow>
     (if EqOrdering t s then Synthetic t \<and> Synthetic s else if Less t s then Synthetic s else Synthetic t)) \<and>
   (\<forall>u. LessEq u (Backward t s) \<longleftrightarrow> LessEq u t \<and> LessEq u s) \<and>
   (Synthetic (Backward t s) \<longleftrightarrow> Synthetic t \<and> Synthetic s)"
  by (auto simp: Forward_def Backward_def bothSynthetic_def Let_def ts_order split: if_splits)

text \<open>The legacy wire form of a timestamp carries the whole timestamp and its order.\<close>

lemma Legacy_embedding:
  "LegacyToTimestamp (ToLegacyTimestamp t) = t \<and>
   (LegacyLess (ToLegacyTimestamp t) (ToLegacyTimestamp s) \<longleftrightarrow> Less t s) \<and>
   (LegacyEqOrdering (ToLegacyTimestamp t) (ToLegacyTimestamp s) \<longleftrightarrow> EqOrdering t s)"
  by (simp add: LegacyLess_def LegacyEqOrdering_def Legacy_roundtrip)

end
