(* ===== verification/Hlc_Clock.thy ===== *)
theory Hlc_Clock
  imports Hlc "HOL-Library.Signed_Division"
begin

text \<open>
  The hybrid logical clock, \<open>engine/pkg/util/hlc/hlc.go\<close>.  The record holds the fields of
  \<open>Clock\<close>; the reading of the physical clock that an operation takes (\<open>c.wallClock.Now()\<close>) is an
  argument.  \<open>log.Fatalf\<close> ends the process and is a \<open>Panic\<close>.  An operation under the mutex is one
  step; the compare-and-swap loop on \<open>lastPhysicalTime\<close> is modelled for the interleaving in which
  no other goroutine writes the field between the load and the swap, so its first swap succeeds.
\<close>

record Clock =
  maxOffset :: int64
  toleratedOffset :: int64
  lastPhysicalTime :: int64
  monotonicityErrorsCount :: int32
  forwardClockJumpCheckEnabled :: int32
  mu_timestamp :: ClockTimestamp
  isMonitoringForwardClockJumps :: bool
  wallTimeUpperBound :: int64

definition NewClock :: "int64 \<Rightarrow> int64 \<Rightarrow> Clock" where
  "NewClock maxOff tolOff = \<lparr>maxOffset = maxOff, toleratedOffset = tolOff, lastPhysicalTime = 0,
     monotonicityErrorsCount = 0, forwardClockJumpCheckEnabled = 0, mu_timestamp = emptyTimestamp,
     isMonitoringForwardClockJumps = False, wallTimeUpperBound = 0\<rparr>"

text \<open>Go's integer division truncates.\<close>

definition toleratedForwardClockJump :: "Clock \<Rightarrow> int" where
  "toleratedForwardClockJump c = sint (maxOffset c) sdiv 2"

definition checkPhysicalClock :: "Clock \<Rightarrow> int64 \<Rightarrow> int64 \<Rightarrow> Clock result" where
  "checkPhysicalClock c oldTime newTime =
    (if oldTime = 0 then Inr c
     else
       let interval = oldTime - newTime;
           c1 = (if sint interval > sint (maxOffset c) sdiv 10
                 then c\<lparr>monotonicityErrorsCount := monotonicityErrorsCount c + 1\<rparr> else c)
       in if forwardClockJumpCheckEnabled c1 \<noteq> 0 \<and>
             toleratedForwardClockJump c1 \<le> sint (- interval)
          then Inl (Panic ''detected forward time jump of %f seconds is not allowed with tolerance of %f seconds'')
          else Inr c1)"

definition getPhysicalClockAndCheck :: "Clock \<Rightarrow> int64 \<Rightarrow> (Clock \<times> int64) result" where
  "getPhysicalClockAndCheck c newTime =
    (let oldTime = lastPhysicalTime c;
         c1 = c\<lparr>lastPhysicalTime := newTime\<rparr>
     in rbind (checkPhysicalClock c1 oldTime newTime) (\<lambda>c2. Inr (c2, newTime)))"

definition enforceWallTimeWithinBoundLocked :: "Clock \<Rightarrow> Clock result" where
  "enforceWallTimeWithinBoundLocked c =
    (if wallTimeUpperBound c \<noteq> 0 \<and> sint (WallTime (mu_timestamp c)) > sint (wallTimeUpperBound c)
     then Inl (Panic ''wall time %d is not allowed to be greater than upper bound of %d.'')
     else Inr c)"

definition NowAsClockTimestamp :: "Clock \<Rightarrow> int64 \<Rightarrow> (Clock \<times> ClockTimestamp) result" where
  "NowAsClockTimestamp c phys =
     rbind (getPhysicalClockAndCheck c phys) (\<lambda>(c1, physicalClock).
       let ts = mu_timestamp c1;
           ts' = (if sint (WallTime ts) \<ge> sint physicalClock
                  then ts\<lparr>Logical := Logical ts + 1\<rparr>
                  else ts\<lparr>WallTime := physicalClock, Logical := 0\<rparr>)
       in rbind (enforceWallTimeWithinBoundLocked (c1\<lparr>mu_timestamp := ts'\<rparr>))
            (\<lambda>c2. Inr (c2, mu_timestamp c2)))"

definition Now :: "Clock \<Rightarrow> int64 \<Rightarrow> (Clock \<times> Timestamp) result" where
  "Now c phys = rbind (NowAsClockTimestamp c phys)
     (\<lambda>(c1, ts). rbind (ClockToTimestamp ts) (\<lambda>t. Inr (c1, t)))"

definition Update :: "Clock \<Rightarrow> ClockTimestamp \<Rightarrow> Clock result" where
  "Update c rt =
    (let ts = mu_timestamp c in
     if sint (WallTime rt) < sint (WallTime ts) then Inr c
     else
       let ts' = (if sint (WallTime rt) > sint (WallTime ts)
                  then ts\<lparr>WallTime := WallTime rt, Logical := Logical rt\<rparr>
                  else if WallTime rt = WallTime ts then
                    (if sint (Logical rt) > sint (Logical ts) then ts\<lparr>Logical := Logical rt\<rparr> else ts)
                  else ts)
       in enforceWallTimeWithinBoundLocked (c\<lparr>mu_timestamp := ts'\<rparr>))"

text \<open>A returned error value stands beside the new state of the clock.\<close>

definition UpdateAndCheckMaxOffset ::
    "Clock \<Rightarrow> int64 \<Rightarrow> ClockTimestamp \<Rightarrow> (Clock \<times> go_error option) result" where
  "UpdateAndCheckMaxOffset c phys rt =
     rbind (getPhysicalClockAndCheck c phys) (\<lambda>(c1, physicalClock).
       let offset = WallTime rt - physicalClock in
       if sint (maxOffset c1) > 0 \<and> sint offset > sint (maxOffset c1)
       then Inr (c1, Some (Errorf ''remote wall time is too far ahead (%s) to be trustworthy''))
       else rbind (if sint physicalClock > sint (WallTime rt)
                   then Update c1 \<lparr>WallTime = physicalClock, Logical = 0, Synthetic = False\<rparr>
                   else Update c1 rt)
              (\<lambda>c2. Inr (c2, None)))"

definition setForwardJumpCheckEnabled :: "Clock \<Rightarrow> bool \<Rightarrow> Clock" where
  "setForwardJumpCheckEnabled c b = c\<lparr>forwardClockJumpCheckEnabled := (if b then 1 else 0)\<rparr>"

definition setMonitoringClockJump :: "Clock \<Rightarrow> Clock \<times> bool" where
  "setMonitoringClockJump c =
     (c\<lparr>isMonitoringForwardClockJumps := True\<rparr>, isMonitoringForwardClockJumps c)"

text \<open>\<open>persistFn\<close> is the caller's callback: \<open>None\<close> when it succeeds.\<close>

definition persistHLCUpperBound ::
    "Clock \<Rightarrow> (int64 \<Rightarrow> go_error option) \<Rightarrow> int64 \<Rightarrow> Clock \<times> go_error option" where
  "persistHLCUpperBound c persistFn hlcUpperBound =
    (case persistFn hlcUpperBound of
       Some e \<Rightarrow> (c, Some e)
     | None \<Rightarrow> (c\<lparr>wallTimeUpperBound := hlcUpperBound\<rparr>, None))"

definition RefreshHLCUpperBound ::
    "Clock \<Rightarrow> int64 \<Rightarrow> (int64 \<Rightarrow> go_error option) \<Rightarrow> int64 \<Rightarrow> (Clock \<times> go_error option) result" where
  "RefreshHLCUpperBound c phys persistFn delta =
    (if sint delta < 0 then Inr (c, Some (Errorf ''HLC upper bound delta %d should be positive''))
     else rbind (Now c phys) (\<lambda>(c1, now).
            Inr (persistHLCUpperBound c1 persistFn (WallTime now + delta))))"

definition ResetHLCUpperBound ::
    "Clock \<Rightarrow> (int64 \<Rightarrow> go_error option) \<Rightarrow> Clock \<times> go_error option" where
  "ResetHLCUpperBound c persistFn = persistHLCUpperBound c persistFn 0"

subsection \<open>SleepUntil\<close>

abbreviation (input) minSleep :: int where "minSleep \<equiv> 25000"
abbreviation (input) maxSleep :: int where "maxSleep \<equiv> 1000000000"

text \<open>\<open>time.Time.Sub\<close> saturates at the ends of \<open>int64\<close>.\<close>

definition saturate64 :: "int \<Rightarrow> int" where
  "saturate64 d = max (- (2 ^ 63)) (min (2 ^ 63 - 1) d)"

definition sleepDuration :: "Timestamp \<Rightarrow> Timestamp \<Rightarrow> int" where
  "sleepDuration now t =
    (let d = saturate64 (sint (WallTime now) - sint (WallTime t)) in
     if d < minSleep then minSleep else if d > maxSleep then maxSleep else d)"

text \<open>One turn of the loop sees whether the context is done at the top, what the physical clock
  reads, and whether the context is done while it sleeps (which is noticed only in a sleep of at
  least a millisecond).  Running out of turns is \<open>None\<close>: still sleeping.\<close>

record sleep_turn =
  ctx_err :: bool
  reading :: int64
  done_in_sleep :: bool

fun SleepUntil ::
    "Clock \<Rightarrow> Timestamp \<Rightarrow> sleep_turn list \<Rightarrow> (Clock \<times> go_error option \<times> int list) result option" where
  "SleepUntil c t [] = None"
| "SleepUntil c t (turn # turns) =
    (if ctx_err turn then Some (Inr (c, Some (Errorf ''context canceled''), []))
     else case Now c (reading turn) of
       Inl e \<Rightarrow> Some (Inl e)
     | Inr (c1, now) \<Rightarrow>
         if LessEq t now then Some (Inr (c1, None, []))
         else
           let d = sleepDuration now t in
           if d \<ge> 1000000 \<and> done_in_sleep turn
           then Some (Inr (c1, Some (Errorf ''context canceled''), [d]))
           else map_option (\<lambda>r. rbind r (\<lambda>(c2, e, ds). Inr (c2, e, d # ds))) (SleepUntil c1 t turns))"

subsection \<open>What one operation does to the clock\<close>

text \<open>The next tick does not overflow the \<open>int32\<close> logical counter.\<close>

definition headroom :: "Clock \<Rightarrow> bool" where
  "headroom c \<longleftrightarrow> Logical (mu_timestamp c) \<noteq> MaxInt32"

lemma getPhysical_frame:
  "getPhysicalClockAndCheck c p = Inr (c', p') \<Longrightarrow>
    p' = p \<and> mu_timestamp c' = mu_timestamp c \<and> wallTimeUpperBound c' = wallTimeUpperBound c \<and>
    maxOffset c' = maxOffset c \<and> lastPhysicalTime c' = p"
  by (auto simp: getPhysicalClockAndCheck_def checkPhysicalClock_def Let_def rbind_Inr_conv
      split: if_splits)

lemma enforce_bound_Inr:
  "enforceWallTimeWithinBoundLocked c = Inr c' \<longleftrightarrow>
    c' = c \<and> (wallTimeUpperBound c = 0 \<or> sint (WallTime (mu_timestamp c)) \<le> sint (wallTimeUpperBound c))"
  by (auto simp: enforceWallTimeWithinBoundLocked_def)

text \<open>\<open>Now\<close>: the reading dominates the physical clock and everything the clock has seen.\<close>

lemma NowAsClockTimestamp_Inr:
  assumes "NowAsClockTimestamp c phys = Inr (c', ts)"
  shows "mu_timestamp c' = ts"
    and "Synthetic ts = Synthetic (mu_timestamp c)"
    and "wallTimeUpperBound c' = wallTimeUpperBound c"
    and "wallTimeUpperBound c = 0 \<or> sint (WallTime ts) \<le> sint (wallTimeUpperBound c)"
    and "sint phys \<le> sint (WallTime ts)"
    and "headroom c \<Longrightarrow> Less (mu_timestamp c) ts"
proof -
  let ?t = "mu_timestamp c"
  define ts' where "ts' = (if sint phys \<le> sint (WallTime ?t) then ?t\<lparr>Logical := Logical ?t + 1\<rparr>
      else ?t\<lparr>WallTime := phys, Logical := 0\<rparr>)"
  obtain c1 where c1: "getPhysicalClockAndCheck c phys = Inr (c1, phys)"
    using assms by (auto simp: NowAsClockTimestamp_def rbind_Inr_conv dest: getPhysical_frame)
  have f: "mu_timestamp c1 = ?t" "wallTimeUpperBound c1 = wallTimeUpperBound c"
    using getPhysical_frame [OF c1] by auto
  have c': "c' = c1\<lparr>mu_timestamp := ts'\<rparr>" "ts = ts'"
    and b: "wallTimeUpperBound c = 0 \<or> sint (WallTime ts') \<le> sint (wallTimeUpperBound c)"
    using assms f
    by (auto simp: NowAsClockTimestamp_def c1 rbind_Inr_conv enforce_bound_Inr Let_def ts'_def
        split: if_splits)
  show "mu_timestamp c' = ts" "wallTimeUpperBound c' = wallTimeUpperBound c"
    "wallTimeUpperBound c = 0 \<or> sint (WallTime ts) \<le> sint (wallTimeUpperBound c)"
    using c' b f by auto
  show "Synthetic ts = Synthetic ?t" "sint phys \<le> sint (WallTime ts)"
    using c' by (auto simp: ts'_def)
  show "headroom c \<Longrightarrow> Less ?t ts"
    using c' by (auto simp: ts'_def headroom_def Less_def sint_succ32)
qed

text \<open>\<open>Update\<close> joins the remote timestamp into the clock, by the order of \<open>Forward\<close>.\<close>

lemma Update_Inr:
  assumes "Update c rt = Inr c'"
  shows "ts_pair (mu_timestamp c') = ts_pair (fst (Forward (mu_timestamp c) rt))"
    and "Synthetic (mu_timestamp c') = Synthetic (mu_timestamp c)"
    and "wallTimeUpperBound c' = wallTimeUpperBound c"
  using assms
  by (auto simp: Update_def Forward_def enforce_bound_Inr Let_def ts_order ts_pair_def
      sint_eq_iff split: if_splits)

lemma Update_LessEq:
  assumes "Update c rt = Inr c'"
  shows "LessEq (mu_timestamp c) (mu_timestamp c')" "LessEq rt (mu_timestamp c')"
  using Update_Inr(1) [OF assms] Forward_max(1,2) [where t = "mu_timestamp c" and s = rt]
  by (auto simp: LessEq_pair)

lemma Update_total: "wallTimeUpperBound c = 0 \<Longrightarrow> \<exists>c'. Update c rt = Inr c'"
  by (auto simp: Update_def Let_def enforceWallTimeWithinBoundLocked_def)

lemma UpdateAndCheck_Inr:
  assumes "UpdateAndCheckMaxOffset c phys rt = Inr (c', err)"
  shows "LessEq (mu_timestamp c) (mu_timestamp c')"
    and "err = None \<Longrightarrow> LessEq rt (mu_timestamp c')"
    and "err \<noteq> None \<longleftrightarrow> sint (maxOffset c) > 0 \<and> sint (WallTime rt - phys) > sint (maxOffset c)"
    and "err \<noteq> None \<Longrightarrow> mu_timestamp c' = mu_timestamp c"
    and "Synthetic (mu_timestamp c') = Synthetic (mu_timestamp c)"
proof -
  obtain c1 where c1: "getPhysicalClockAndCheck c phys = Inr (c1, phys)"
    "mu_timestamp c1 = mu_timestamp c" "maxOffset c1 = maxOffset c"
    using assms by (auto simp: UpdateAndCheckMaxOffset_def rbind_Inr_conv dest: getPhysical_frame)
  let ?far = "sint (maxOffset c) > 0 \<and> sint (WallTime rt - phys) > sint (maxOffset c)"
  let ?low = "\<lparr>WallTime = phys, Logical = 0, Synthetic = False\<rparr>"
  consider (far) "?far" "c' = c1" "err \<noteq> None"
    | (phys) "\<not> ?far" "err = None" "Update c1 ?low = Inr c'" "sint phys > sint (WallTime rt)"
    | (remote) "\<not> ?far" "err = None" "Update c1 rt = Inr c'"
    using assms c1 by (auto simp: UpdateAndCheckMaxOffset_def rbind_Inr_conv Let_def split: if_splits)
  note cases = this
  have low: "LessEq rt (mu_timestamp c')" if "Update c1 ?low = Inr c'" "sint phys > sint (WallTime rt)"
  proof -
    have "LessEq rt ?low" using that(2) by (simp add: LessEq_def)
    then show ?thesis using Update_LessEq(2) [OF that(1)] by (rule ts_trans(1))
  qed
  show "LessEq (mu_timestamp c) (mu_timestamp c')"
    using cases c1 by cases (auto dest: Update_LessEq(1))
  show "err = None \<Longrightarrow> LessEq rt (mu_timestamp c')"
    using cases low by cases (auto dest: Update_LessEq(2))
  show "err \<noteq> None \<longleftrightarrow> ?far" using cases by cases auto
  show "err \<noteq> None \<Longrightarrow> mu_timestamp c' = mu_timestamp c" using cases c1 by cases auto
  show "Synthetic (mu_timestamp c') = Synthetic (mu_timestamp c)"
    using cases c1 by cases (auto dest: Update_Inr(2))
qed

lemma persist_timestamp [simp]: "mu_timestamp (fst (persistHLCUpperBound c f u)) = mu_timestamp c"
  by (simp add: persistHLCUpperBound_def split: option.split)

lemma Now_eq:
  "\<not> Synthetic (mu_timestamp c) \<Longrightarrow> Now c phys = NowAsClockTimestamp c phys"
  by (cases "NowAsClockTimestamp c phys")
    (auto simp: Now_def ClockToTimestamp_def dest: NowAsClockTimestamp_Inr(2))

lemma Refresh_Inr:
  assumes "RefreshHLCUpperBound c phys f delta = Inr (c', err)" "\<not> Synthetic (mu_timestamp c)"
  shows "mu_timestamp c' = mu_timestamp c \<or>
    (\<exists>c1. NowAsClockTimestamp c phys = Inr (c1, mu_timestamp c'))"
proof (cases "sint delta < 0")
  case True
  with assms show ?thesis by (simp add: RefreshHLCUpperBound_def)
next
  case False
  with assms obtain c1 now where n: "NowAsClockTimestamp c phys = Inr (c1, now)"
    and "(c', err) = persistHLCUpperBound c1 f (WallTime now + delta)"
    by (auto simp: RefreshHLCUpperBound_def rbind_Inr_conv Now_eq)
  then have "mu_timestamp c' = mu_timestamp c1" by (metis fst_conv persist_timestamp)
  with n show ?thesis using NowAsClockTimestamp_Inr(1) [OF n] by auto
qed

subsection \<open>Runs of the clock\<close>

text \<open>The operations as events, in the order in which they take the mutex.\<close>

datatype clock_event =
    NowE int64 ClockTimestamp
  | UpdateE ClockTimestamp
  | CheckedUpdateE int64 ClockTimestamp "go_error option"
  | RefreshE int64 "int64 \<Rightarrow> go_error option" int64
  | ResetE "int64 \<Rightarrow> go_error option"
  | JumpCheckE bool

inductive clock_step :: "Clock \<Rightarrow> clock_event \<Rightarrow> Clock \<Rightarrow> bool" where
  now: "NowAsClockTimestamp c phys = Inr (c', ts) \<Longrightarrow> clock_step c (NowE phys ts) c'"
| update: "Update c rt = Inr c' \<Longrightarrow> clock_step c (UpdateE rt) c'"
| checked: "UpdateAndCheckMaxOffset c phys rt = Inr (c', err) \<Longrightarrow>
    clock_step c (CheckedUpdateE phys rt err) c'"
| refresh: "RefreshHLCUpperBound c phys f delta = Inr (c', err) \<Longrightarrow>
    clock_step c (RefreshE phys f delta) c'"
| reset: "ResetHLCUpperBound c f = (c', err) \<Longrightarrow> clock_step c (ResetE f) c'"
| jump: "clock_step c (JumpCheckE b) (setForwardJumpCheckEnabled c b)"

inductive_cases clock_stepE: "clock_step c e c'"

text \<open>A run in which the logical counter never overflows.\<close>

inductive clock_run :: "Clock \<Rightarrow> clock_event list \<Rightarrow> Clock \<Rightarrow> bool" where
  start: "clock_run c [] c"
| step: "clock_run c es c1 \<Longrightarrow> headroom c1 \<Longrightarrow> clock_step c1 e c2 \<Longrightarrow> clock_run c (es @ [e]) c2"

text \<open>The timestamp an event hands out or takes in.\<close>

fun event_ts :: "clock_event \<Rightarrow> Timestamp option" where
  "event_ts (NowE _ ts) = Some ts"
| "event_ts (UpdateE rt) = Some rt"
| "event_ts (CheckedUpdateE _ rt None) = Some rt"
| "event_ts _ = None"

lemma clock_step_synthetic:
  "clock_step c e c' \<Longrightarrow> \<not> Synthetic (mu_timestamp c) \<Longrightarrow> \<not> Synthetic (mu_timestamp c')"
proof (induction rule: clock_step.induct)
  case (now c phys c' ts)
  then show ?case using NowAsClockTimestamp_Inr(1,2) [OF now(1)] by simp
next
  case (refresh c phys f delta c' err)
  then show ?case using Refresh_Inr [OF refresh(1)] NowAsClockTimestamp_Inr(2) by auto
next
  case (reset c f c' err)
  then show ?case using persist_timestamp [of c f 0] by (simp add: ResetHLCUpperBound_def)
qed (simp_all add: setForwardJumpCheckEnabled_def Update_Inr(2) UpdateAndCheck_Inr(5))

lemma clock_step_mono:
  "clock_step c e c' \<Longrightarrow> headroom c \<Longrightarrow> \<not> Synthetic (mu_timestamp c) \<Longrightarrow>
    LessEq (mu_timestamp c) (mu_timestamp c')"
proof (induction rule: clock_step.induct)
  case (now c phys c' ts)
  then show ?case
    using NowAsClockTimestamp_Inr(1,6) [OF now(1)] by (auto intro: Less_imp_LessEq)
next
  case (refresh c phys f delta c' err)
  then show ?case
    using Refresh_Inr [OF refresh(1)] NowAsClockTimestamp_Inr(6) by (auto intro: Less_imp_LessEq)
next
  case (reset c f c' err)
  then show ?case using persist_timestamp [of c f 0] by (simp add: ResetHLCUpperBound_def)
qed (simp_all add: setForwardJumpCheckEnabled_def Update_LessEq(1) UpdateAndCheck_Inr(1))

lemma clock_step_event_ts:
  "clock_step c e c' \<Longrightarrow> event_ts e = Some t \<Longrightarrow> LessEq t (mu_timestamp c')"
proof (induction rule: clock_step.induct)
  case (now c phys c' ts)
  then show ?case using NowAsClockTimestamp_Inr(1) [OF now(1)] by simp
next
  case (update c rt c')
  then show ?case using Update_LessEq(2) by simp
next
  case (checked c phys rt c' err)
  then show ?case using UpdateAndCheck_Inr(2) [OF checked(1)] by (cases err) auto
qed simp_all

lemma clock_run_inv:
  "clock_run c es c' \<Longrightarrow> \<not> Synthetic (mu_timestamp c) \<Longrightarrow>
    \<not> Synthetic (mu_timestamp c') \<and> LessEq (mu_timestamp c) (mu_timestamp c') \<and>
    (\<forall>e \<in> set es. \<forall>t. event_ts e = Some t \<longrightarrow> LessEq t (mu_timestamp c'))"
proof (induction rule: clock_run.induct)
  case (step c es c1 e c2)
  then have "LessEq (mu_timestamp c1) (mu_timestamp c2)" by (intro clock_step_mono) auto
  with step show ?case
    by (auto intro: clock_step_event_ts ts_trans(1) dest: clock_step_synthetic)
qed simp

lemma SleepUntil_duration: "\<not> LessEq t now \<Longrightarrow> sleepDuration now t = minSleep"
  by (auto simp: sleepDuration_def saturate64_def Less_def)

lemma SleepUntil_done:
  "SleepUntil c t turns = Some (Inr (c', None, ds)) \<Longrightarrow> \<not> Synthetic (mu_timestamp c) \<Longrightarrow>
    LessEq t (mu_timestamp c') \<and> (\<forall>d \<in> set ds. d = minSleep)"
proof (induction turns arbitrary: c ds)
  case (Cons turn turns)
  obtain c1 now where n: "Now c (reading turn) = Inr (c1, now)"
    using Cons.prems by (auto split: if_splits sum.splits)
  have now: "mu_timestamp c1 = now" "\<not> Synthetic now"
    using n Cons.prems(2) NowAsClockTimestamp_Inr(1,2) by (auto simp: Now_eq)
  show ?case
  proof (cases "LessEq t now")
    case True
    then show ?thesis using Cons.prems n now by (auto split: if_splits)
  next
    case False
    then obtain ds' where "SleepUntil c1 t turns = Some (Inr (c', None, ds'))" "ds = sleepDuration now t # ds'"
      using Cons.prems n by (auto simp: Let_def rbind_Inr_conv simp del: not_LessEq split: if_splits)
    then show ?thesis using Cons.IH [of c1 ds'] now SleepUntil_duration [OF False] by auto
  qed
qed simp

subsection \<open>Properties\<close>

text \<open>C14: causality.  After any sequence of operations on a clock, in whatever order they took
  the mutex, a new reading is strictly later than every reading handed out and every remote
  timestamp taken in before it, and not behind the physical clock, as long as the logical
  counter has not reached its maximum.\<close>

theorem clock_causality:
  assumes "clock_run c es c1" "\<not> Synthetic (mu_timestamp c)" "headroom c1"
    and "NowAsClockTimestamp c1 phys = Inr (c2, ts)"
  shows "(\<forall>e \<in> set es. \<forall>t. event_ts e = Some t \<longrightarrow> Less t ts) \<and> Less (mu_timestamp c) ts \<and>
    sint phys \<le> sint (WallTime ts)"
proof -
  have "Less (mu_timestamp c1) ts" "sint phys \<le> sint (WallTime ts)"
    using NowAsClockTimestamp_Inr(5,6) [OF assms(4)] assms(3) by auto
  moreover note clock_run_inv [OF assms(1,2)]
  ultimately show ?thesis by (auto intro: ts_trans(3))
qed

lemma witness_update:
  "Update (NewClock 0 0) \<lparr>WallTime = 9, Logical = 3, Synthetic = False\<rparr> =
    Inr ((NewClock 0 0)\<lparr>mu_timestamp := \<lparr>WallTime = 9, Logical = 3, Synthetic = False\<rparr>\<rparr>)"
  by (simp add: Update_def NewClock_def emptyTimestamp_def enforceWallTimeWithinBoundLocked_def Let_def)

lemma witness_run:
  "clock_run (NewClock 0 0) [UpdateE \<lparr>WallTime = 9, Logical = 3, Synthetic = False\<rparr>]
    ((NewClock 0 0)\<lparr>mu_timestamp := \<lparr>WallTime = 9, Logical = 3, Synthetic = False\<rparr>\<rparr>)"
  using clock_run.step [OF clock_run.start _ clock_step.update [OF witness_update]]
  by (simp add: headroom_def NewClock_def emptyTimestamp_def)

lemma witness_now:
  "NowAsClockTimestamp ((NewClock 0 0)\<lparr>mu_timestamp := \<lparr>WallTime = 9, Logical = 3, Synthetic = False\<rparr>\<rparr>) 2 =
    Inr ((NewClock 0 0)\<lparr>lastPhysicalTime := 2, mu_timestamp := \<lparr>WallTime = 9, Logical = 4, Synthetic = False\<rparr>\<rparr>,
      \<lparr>WallTime = 9, Logical = 4, Synthetic = False\<rparr>)"
  by (simp add: NewClock_def emptyTimestamp_def NowAsClockTimestamp_def
      getPhysicalClockAndCheck_def checkPhysicalClock_def enforceWallTimeWithinBoundLocked_def Let_def)

theorem clock_causality_witness:
  "\<exists>c1 c2 ts. clock_run (NewClock 0 0) [UpdateE \<lparr>WallTime = 9, Logical = 3, Synthetic = False\<rparr>] c1 \<and>
    NowAsClockTimestamp c1 2 = Inr (c2, ts) \<and> Less \<lparr>WallTime = 9, Logical = 3, Synthetic = False\<rparr> ts \<and> 2 \<le> sint (WallTime ts)"
proof -
  have "\<not> Synthetic (mu_timestamp (NewClock 0 0))" "headroom ((NewClock 0 0)\<lparr>mu_timestamp := \<lparr>WallTime = 9, Logical = 3, Synthetic = False\<rparr>\<rparr>)"
    by (simp_all add: headroom_def NewClock_def emptyTimestamp_def)
  from clock_causality [OF witness_run this witness_now] show ?thesis using witness_run witness_now by fastforce
qed

text \<open>A remote timestamp is refused exactly when it is ahead of the physical reading by more
  than a positive maximum offset; a refusal leaves the clock's timestamp as it was, an accepted one
  is not later than the clock afterwards, and the clock never goes back.\<close>

lemma UpdateAndCheckMaxOffset_correct:
  assumes "UpdateAndCheckMaxOffset c phys rt = Inr (c', err)"
  shows "(err \<noteq> None \<longleftrightarrow> sint (maxOffset c) > 0 \<and> sint (WallTime rt - phys) > sint (maxOffset c)) \<and>
    (if err = None then LessEq rt (mu_timestamp c') else mu_timestamp c' = mu_timestamp c) \<and>
    LessEq (mu_timestamp c) (mu_timestamp c')"
  using UpdateAndCheck_Inr [OF assms] by auto

subsection \<open>How far the clock runs ahead\<close>

text \<open>The events of a clock that takes in remote timestamps only through \<open>UpdateAndCheckMaxOffset\<close>, and the readings of
  the physical clock.\<close>

fun checked_event :: "clock_event \<Rightarrow> bool" where
  "checked_event (UpdateE _) = False"
| "checked_event _ = True"

fun event_phys :: "clock_event \<Rightarrow> int64 option" where
  "event_phys (NowE p _) = Some p"
| "event_phys (CheckedUpdateE p _ _) = Some p"
| "event_phys (RefreshE p _ _) = Some p"
| "event_phys _ = None"

definition phys_within :: "int \<Rightarrow> clock_event \<Rightarrow> bool" where
  "phys_within P e \<longleftrightarrow> (case event_phys e of None \<Rightarrow> True | Some p \<Rightarrow> 0 \<le> sint p \<and> sint p \<le> P)"

lemma Now_wall:
  assumes "NowAsClockTimestamp c phys = Inr (c', ts)"
  shows "sint (WallTime ts) \<le> max (sint (WallTime (mu_timestamp c))) (sint phys)" "maxOffset c' = maxOffset c"
  using assms by (auto simp: NowAsClockTimestamp_def rbind_Inr_conv enforce_bound_Inr Let_def
      dest!: getPhysical_frame split: if_splits)

lemma Update_wall: "Update c rt = Inr c' \<Longrightarrow>
    sint (WallTime (mu_timestamp c')) \<le> max (sint (WallTime (mu_timestamp c))) (sint (WallTime rt)) \<and> maxOffset c' = maxOffset c"
  by (auto simp: Update_def enforce_bound_Inr Let_def split: if_splits)

lemma checked_wall:
  assumes "UpdateAndCheckMaxOffset c phys rt = Inr (c', e)" "0 < sint (maxOffset c)" "0 \<le> sint phys"
  shows "sint (WallTime (mu_timestamp c')) \<le> max (sint (WallTime (mu_timestamp c))) (sint phys + sint (maxOffset c))"
    "maxOffset c' = maxOffset c"
proof -
  obtain c1 where c1: "getPhysicalClockAndCheck c phys = Inr (c1, phys)"
    "mu_timestamp c1 = mu_timestamp c" "maxOffset c1 = maxOffset c"
    using assms(1) by (auto simp: UpdateAndCheckMaxOffset_def rbind_Inr_conv dest: getPhysical_frame)
  consider (far) "c' = c1"
    | (phys) "Update c1 \<lparr>WallTime = phys, Logical = 0, Synthetic = False\<rparr> = Inr c'"
    | (remote) "\<not> sint (WallTime rt - phys) > sint (maxOffset c)" "sint phys \<le> sint (WallTime rt)" "Update c1 rt = Inr c'"
    using assms(1,2) c1 by (auto simp: UpdateAndCheckMaxOffset_def rbind_Inr_conv Let_def split: if_splits)
  then have "sint (WallTime (mu_timestamp c')) \<le> max (sint (WallTime (mu_timestamp c))) (sint phys + sint (maxOffset c)) \<and>
    maxOffset c' = maxOffset c"
  proof cases
    case far
    then show ?thesis using c1 by simp
  next
    case phys
    then show ?thesis using Update_wall [OF phys] c1 assms(2) by auto
  next
    case remote
    have "sint (WallTime rt - phys) = sint (WallTime rt) - sint phys"
      by (rule sint_diff_nonneg) (use remote(2) assms(3) in simp_all)
    then show ?thesis using remote(1) Update_wall [OF remote(3)] c1 by auto
  qed
  then show "sint (WallTime (mu_timestamp c')) \<le> max (sint (WallTime (mu_timestamp c))) (sint phys + sint (maxOffset c))"
    "maxOffset c' = maxOffset c" by blast+
qed

lemma persist_maxOffset [simp]: "maxOffset (fst (persistHLCUpperBound c f u)) = maxOffset c"
  by (simp add: persistHLCUpperBound_def split: option.split)

lemma clock_step_wall:
  "clock_step c e c' \<Longrightarrow> checked_event e \<Longrightarrow> phys_within P e \<Longrightarrow> 0 < sint (maxOffset c) \<Longrightarrow> \<not> Synthetic (mu_timestamp c) \<Longrightarrow>
    sint (WallTime (mu_timestamp c)) \<le> P + sint (maxOffset c) \<Longrightarrow>
    sint (WallTime (mu_timestamp c')) \<le> P + sint (maxOffset c) \<and> maxOffset c' = maxOffset c"
proof (induction rule: clock_step.induct)
  case (now c phys c' ts)
  then show ?case using Now_wall [OF now(1)] NowAsClockTimestamp_Inr(1) [OF now(1)] by (auto simp: phys_within_def)
next
  case (checked c phys rt c' err)
  then show ?case using checked_wall [OF checked(1)] by (auto simp: phys_within_def)
next
  case (refresh c phys f delta c' err)
  show ?case
  proof (cases "sint delta < 0")
    case True
    then show ?thesis using refresh by (simp add: RefreshHLCUpperBound_def)
  next
    case False
    then obtain c1 ts where n: "NowAsClockTimestamp c phys = Inr (c1, ts)" and "(c', err) = persistHLCUpperBound c1 f (WallTime ts + delta)"
      using refresh by (auto simp: RefreshHLCUpperBound_def rbind_Inr_conv Now_eq)
    then have c': "mu_timestamp c' = mu_timestamp c1" "maxOffset c' = maxOffset c1"
      by (metis fst_conv persist_timestamp, metis fst_conv persist_maxOffset)
    then show ?thesis
      using Now_wall [OF n] NowAsClockTimestamp_Inr(1) [OF n] refresh.prems by (auto simp: phys_within_def)
  qed
next
  case (reset c f c' err)
  then show ?case using persist_timestamp [of c f 0] persist_maxOffset [of c f 0] by (simp add: ResetHLCUpperBound_def)
qed (auto simp: setForwardJumpCheckEnabled_def)

lemma clock_run_wall:
  assumes "clock_run c es c'" "\<forall>e \<in> set es. checked_event e \<and> phys_within P e" "0 < sint (maxOffset c)"
    "\<not> Synthetic (mu_timestamp c)" "sint (WallTime (mu_timestamp c)) \<le> P + sint (maxOffset c)"
  shows "sint (WallTime (mu_timestamp c')) \<le> P + sint (maxOffset c) \<and> maxOffset c' = maxOffset c \<and>
    (\<forall>p ts. NowE p ts \<in> set es \<longrightarrow> sint (WallTime ts) \<le> P + sint (maxOffset c))"
  using assms
proof (induction rule: clock_run.induct)
  case (step c es c1 e c2)
  have syn: "\<not> Synthetic (mu_timestamp c1)" using clock_run_inv [OF step.hyps(1)] step.prems(3) by simp
  have IH: "sint (WallTime (mu_timestamp c1)) \<le> P + sint (maxOffset c)" "maxOffset c1 = maxOffset c"
    "\<forall>p ts. NowE p ts \<in> set es \<longrightarrow> sint (WallTime ts) \<le> P + sint (maxOffset c)"
    using step by auto
  have s: "sint (WallTime (mu_timestamp c2)) \<le> P + sint (maxOffset c)" "maxOffset c2 = maxOffset c"
    using clock_step_wall [OF step.hyps(3), of P] step.prems syn IH by auto
  have "sint (WallTime ts) \<le> P + sint (maxOffset c)" if "e = NowE p ts" for p ts
    using step.hyps(3) s(1) unfolding that by (auto elim!: clock_stepE dest: NowAsClockTimestamp_Inr(1))
  then show ?case using s IH(3) by auto
qed simp

text \<open>C39: how far a clock runs ahead.  As long as a clock takes in remote timestamps only through
  \<open>UpdateAndCheckMaxOffset\<close>, with a maximum offset to enforce, neither it nor any reading it handed out
  is ever ahead of the latest reading of its physical clock by more than that offset, whatever
  timestamps other nodes send.\<close>

theorem clock_wall_bound:
  assumes "clock_run (NewClock maxOff tolOff) es c" "0 < sint maxOff" "0 \<le> P"
    and "\<forall>e \<in> set es. checked_event e \<and> phys_within P e"
  shows "sint (WallTime (mu_timestamp c)) \<le> P + sint maxOff \<and>
    (\<forall>p ts. NowE p ts \<in> set es \<longrightarrow> sint (WallTime ts) \<le> P + sint maxOff)"
  using clock_run_wall [OF assms(1,4)] assms(2,3) by (simp add: NewClock_def emptyTimestamp_def)

definition ex_remote :: Timestamp where
  "ex_remote = \<lparr>WallTime = 9, Logical = 3, Synthetic = False\<rparr>"

definition ex_clock :: Clock where
  "ex_clock = (NewClock 5 0)\<lparr>lastPhysicalTime := 4, mu_timestamp := ex_remote\<rparr>"

lemma ex_checked: "UpdateAndCheckMaxOffset (NewClock 5 0) 4 ex_remote = Inr (ex_clock, None)"
  by (simp add: UpdateAndCheckMaxOffset_def ex_clock_def NewClock_def ex_remote_def emptyTimestamp_def getPhysicalClockAndCheck_def
      checkPhysicalClock_def Update_def enforceWallTimeWithinBoundLocked_def Let_def)

theorem clock_wall_bound_witness:
  "clock_run (NewClock 5 0) [CheckedUpdateE 4 ex_remote None] ex_clock \<and> sint (WallTime (mu_timestamp ex_clock)) \<le> 4 + 5"
proof -
  have run: "clock_run (NewClock 5 0) [CheckedUpdateE 4 ex_remote None] ex_clock"
    using clock_run.step [OF clock_run.start _ clock_step.checked [OF ex_checked]]
    by (simp add: headroom_def NewClock_def emptyTimestamp_def)
  show ?thesis using clock_wall_bound [OF run, of 4] run by (simp add: phys_within_def)
qed

subsection \<open>SleepUntil returns\<close>

text \<open>When \<open>SleepUntil\<close> returns without an error the clock has reached the target.  Every sleep it took
  lasted \<open>minSleep\<close>, since the difference it sleeps for has the wrong sign, although its comment says
  that it typically sleeps for the duration between the target and the clock.\<close>

lemma SleepUntil_reaches:
  "SleepUntil c t turns = Some (Inr (c', None, ds)) \<Longrightarrow> \<not> Synthetic (mu_timestamp c) \<Longrightarrow>
    LessEq t (mu_timestamp c') \<and> (\<forall>d \<in> set ds. d = minSleep)"
  by (rule SleepUntil_done)

text \<open>The loop ends as soon as the physical clock reads a wall time after the target, if the context is not
  cancelled and neither check of the clock can fail.\<close>

lemma Now_unchecked:
  assumes "forwardClockJumpCheckEnabled c = 0" "wallTimeUpperBound c = 0" "\<not> Synthetic (mu_timestamp c)"
  shows "\<exists>c1 now. Now c p = Inr (c1, now) \<and> forwardClockJumpCheckEnabled c1 = 0 \<and> wallTimeUpperBound c1 = 0 \<and>
    \<not> Synthetic (mu_timestamp c1) \<and> mu_timestamp c1 = now \<and> sint p \<le> sint (WallTime now)"
  using assms by (auto simp: Now_eq NowAsClockTimestamp_def getPhysicalClockAndCheck_def checkPhysicalClock_def
      enforceWallTimeWithinBoundLocked_def Let_def)

lemma SleepUntil_returns:
  assumes "forwardClockJumpCheckEnabled c = 0" "wallTimeUpperBound c = 0" "\<not> Synthetic (mu_timestamp c)"
    and "i < length turns" "\<forall>j \<le> i. \<not> ctx_err (turns ! j)" "sint (WallTime t) < sint (reading (turns ! i))"
  shows "\<exists>c' ds. SleepUntil c t turns = Some (Inr (c', None, ds)) \<and> LessEq t (mu_timestamp c') \<and> length ds \<le> i"
  using assms
proof (induction turns arbitrary: c i)
  case (Cons turn turns)
  obtain c1 now where n: "Now c (reading turn) = Inr (c1, now)" "forwardClockJumpCheckEnabled c1 = 0" "wallTimeUpperBound c1 = 0"
    "\<not> Synthetic (mu_timestamp c1)" "mu_timestamp c1 = now" "sint (reading turn) \<le> sint (WallTime now)"
    using Now_unchecked [OF Cons.prems(1-3)] by blast
  have ctx: "\<not> ctx_err turn" using Cons.prems(5) by fastforce
  show ?case
  proof (cases "LessEq t now")
    case True
    then show ?thesis using n ctx by simp
  next
    case False
    have "i \<noteq> 0"
    proof
      assume "i = 0"
      then have "LessEq t now" using Cons.prems(6) n(6) by (simp add: LessEq_def)
      then show False using False by simp
    qed
    then obtain k where i: "i = Suc k" by (cases i) auto
    have "\<forall>j \<le> k. \<not> ctx_err (turns ! j)" using Cons.prems(5) unfolding i by fastforce
    then obtain c' ds where "SleepUntil c1 t turns = Some (Inr (c', None, ds))" "LessEq t (mu_timestamp c')" "length ds \<le> k"
      using Cons.IH [OF n(2-4), of k] Cons.prems(4,6) unfolding i by auto
    then show ?thesis using False n(1) ctx SleepUntil_duration [OF False] by (simp add: i Let_def del: not_LessEq)
  qed
qed simp

end
