(* ===== verification/Keys_Spans.thy ===== *)
theory Keys_Spans
  imports Enc_Bytes "HOL-Library.Sublist" "HOL-Library.Product_Lexorder"
begin

text \<open>
  Keys and key spans: \<open>engine/pkg/keysbase/data.go\<close>, the byte-slice helpers at the end of
  \<open>engine/pkg/util/encoding/encoding.go\<close>, and \<open>Key\<close>, \<open>Span\<close> and \<open>RSpan\<close> of
  \<open>engine/pkg/roachpb/data.go\<close>.  A nil slice and an empty one are both \<open>[]\<close>.

  \<open>span_keys\<close> is the abstract meaning of a span, the set of keys it covers; the operations on
  spans are shown to compute on these sets.
\<close>

subsection \<open>Byte slices\<close>

abbreviation (input) KeyMax :: bytes where "KeyMax \<equiv> [0xff, 0xff]"
abbreviation (input) KeyMin :: bytes where "KeyMin \<equiv> []"
abbreviation (input) LocalMax :: bytes where "LocalMax \<equiv> [0x02]"

text \<open>The loop runs from the last index down; \<open>incrementFrom b i\<close> is its state with \<open>i\<close> bytes
  left, the bytes from \<open>i\<close> on having wrapped to zero.\<close>

fun prefixEndLoop :: "bytes \<Rightarrow> bytes \<Rightarrow> nat \<Rightarrow> bytes" where
  "prefixEndLoop b bs' 0 = b"
| "prefixEndLoop b bs' (Suc i) =
    (let bs'' = bs'[i := bs' ! i + 1] in
     if bs'' ! i \<noteq> 0 then take (i + 1) bs'' else prefixEndLoop b bs'' i)"

definition PrefixEnd :: "bytes \<Rightarrow> bytes" where
  "PrefixEnd b = (if length b = 0 then KeyMax else prefixEndLoop b b (length b))"

definition UndoPrefixEnd :: "bytes \<Rightarrow> bytes \<times> bool" where
  "UndoPrefixEnd b =
    (if length b = 0 \<or> b ! (length b - 1) = 0 then ([], False)
     else (b[length b - 1 := b ! (length b - 1) - 1], True))"

text \<open>\<open>spare\<close> is the byte behind the slice when its capacity exceeds its length.\<close>

definition BytesNext :: "byte option \<Rightarrow> bytes \<Rightarrow> bytes" where
  "BytesNext spare b =
    (let bn = (b @ [0])[length b := 0] in
     case spare of
       Some x \<Rightarrow> (let bNext = b @ [x] in if bNext ! (length bNext - 1) = 0 then bNext else bn)
     | None \<Rightarrow> bn)"

definition BytesPrevish :: "bytes \<Rightarrow> nat \<Rightarrow> bytes" where
  "BytesPrevish b len =
    (let bLen = length b in
     if bLen = 0 then b
     else if b ! (bLen - 1) = 0 then take (bLen - 1) b
     else
       let len' = (if bLen > len then bLen else len);
           buf = b @ replicate (len' - bLen) 0;
           buf1 = buf[bLen - 1 := buf ! (bLen - 1) - 1]
       in take bLen buf1 @ replicate (len' - bLen) 0xff)"

text \<open>\<open>bytes.Compare\<close>.\<close>

definition bytes_Compare :: "bytes \<Rightarrow> bytes \<Rightarrow> int" where
  "bytes_Compare a b = (if a < b then - 1 else if a = b then 0 else 1)"

subsection \<open>Keys\<close>

definition KeyNext :: "bytes \<Rightarrow> bytes" where
  "KeyNext k = BytesNext None k"

definition IsPrev :: "bytes \<Rightarrow> bytes \<Rightarrow> bool" where
  "IsPrev k m \<longleftrightarrow>
    (let l = int (length m) - 1 in
     l = int (length k) \<and> m ! nat l = 0 \<and> k = take (nat l) m)"

subsection \<open>Spans\<close>

record Span =
  Key :: bytes
  EndKey :: bytes

definition emptySpan :: Span where
  "emptySpan = \<lparr>Key = [], EndKey = []\<rparr>"

definition Valid :: "Span \<Rightarrow> bool" where
  "Valid s =
    (if length (Key s) = 0 \<and> length (EndKey s) = 0 then False
     else if length (EndKey s) = 0 then True
     else if bytes_Compare (Key s) (EndKey s) \<ge> 0 then False
     else True)"

definition SpanEqual :: "Span \<Rightarrow> Span \<Rightarrow> bool" where
  "SpanEqual s u \<longleftrightarrow> Key s = Key u \<and> EndKey s = EndKey u"

definition Overlaps :: "Span \<Rightarrow> Span \<Rightarrow> bool" where
  "Overlaps s u =
    (if \<not> Valid s \<or> \<not> Valid u then False
     else if length (EndKey s) = 0 \<and> length (EndKey u) = 0 then Key s = Key u
     else if length (EndKey s) = 0 then
       bytes_Compare (Key s) (Key u) \<ge> 0 \<and> bytes_Compare (Key s) (EndKey u) < 0
     else if length (EndKey u) = 0 then
       bytes_Compare (Key u) (Key s) \<ge> 0 \<and> bytes_Compare (Key u) (EndKey s) < 0
     else bytes_Compare (EndKey s) (Key u) > 0 \<and> bytes_Compare (Key s) (EndKey u) < 0)"

definition Intersect :: "Span \<Rightarrow> Span \<Rightarrow> Span" where
  "Intersect s u =
    (if \<not> Overlaps s u then emptySpan
     else if length (EndKey s) = 0 then s
     else if length (EndKey u) = 0 then u
     else
       let key = (if bytes_Compare (Key s) (Key u) < 0 then Key u else Key s);
           endKey = (if bytes_Compare (EndKey s) (EndKey u) > 0 then EndKey u else EndKey s)
       in \<lparr>Key = key, EndKey = endKey\<rparr>)"

definition Combine :: "Span \<Rightarrow> Span \<Rightarrow> Span" where
  "Combine s u =
    (if \<not> Valid s \<or> \<not> Valid u then emptySpan
     else
       let min0 = Key s;
           max0 = (if length (EndKey s) > 0 then EndKey s else Key s);
           min1 = (if bytes_Compare (Key u) min0 < 0 then Key u else min0);
           max1 = (if bytes_Compare (Key u) min0 < 0 then max0
                   else if bytes_Compare (Key u) max0 > 0 then Key u else max0);
           max2 = (if length (EndKey u) > 0 \<and> bytes_Compare (EndKey u) max1 > 0 then EndKey u else max1)
       in if min1 = max2 then \<lparr>Key = min1, EndKey = []\<rparr>
          else if Key s = max2 \<or> Key u = max2 then \<lparr>Key = min1, EndKey = KeyNext max2\<rparr>
          else \<lparr>Key = min1, EndKey = max2\<rparr>)"

definition Contains :: "Span \<Rightarrow> Span \<Rightarrow> bool" where
  "Contains s u =
    (if \<not> Valid s \<or> \<not> Valid u then False
     else if length (EndKey s) = 0 \<and> length (EndKey u) = 0 then Key s = Key u
     else if length (EndKey s) = 0 then False
     else if length (EndKey u) = 0 then
       bytes_Compare (Key u) (Key s) \<ge> 0 \<and> bytes_Compare (Key u) (EndKey s) < 0
     else bytes_Compare (Key s) (Key u) \<le> 0 \<and> bytes_Compare (EndKey s) (EndKey u) \<ge> 0)"

definition ContainsKey :: "Span \<Rightarrow> bytes \<Rightarrow> bool" where
  "ContainsKey s key \<longleftrightarrow> bytes_Compare key (Key s) \<ge> 0 \<and> bytes_Compare key (EndKey s) < 0"

definition CompareKey :: "Span \<Rightarrow> bytes \<Rightarrow> int" where
  "CompareKey s key =
    (if bytes_Compare key (Key s) \<ge> 0 then
       (if bytes_Compare key (EndKey s) < 0 then 0 else 1)
     else - 1)"

definition ProperlyContainsKey :: "Span \<Rightarrow> bytes \<Rightarrow> bool" where
  "ProperlyContainsKey s key \<longleftrightarrow> bytes_Compare key (Key s) > 0 \<and> bytes_Compare key (EndKey s) < 0"

definition AsRange :: "Span \<Rightarrow> bytes \<times> bytes" where
  "AsRange s =
    (if length (EndKey s) = 0 then
       (let endKey = KeyNext (Key s) in (take (length (Key s)) endKey, endKey))
     else (Key s, EndKey s))"

definition SplitOnKey :: "Span \<Rightarrow> bytes \<Rightarrow> Span \<times> Span" where
  "SplitOnKey s key =
    (if bytes_Compare key (Key s) \<le> 0 \<or> bytes_Compare key (EndKey s) \<ge> 0 then (s, emptySpan)
     else (\<lparr>Key = Key s, EndKey = key\<rparr>, \<lparr>Key = key, EndKey = EndKey s\<rparr>))"

fun SpansContainsKey :: "Span list \<Rightarrow> bytes \<Rightarrow> bool" where
  "SpansContainsKey [] key = False"
| "SpansContainsKey (span # a) key = (if ContainsKey span key then True else SpansContainsKey a key)"

subsection \<open>Resolved spans\<close>

record RSpan =
  rKey :: bytes
  rEndKey :: bytes

definition KeySpan :: "RSpan \<Rightarrow> RSpan" where
  "KeySpan rs = \<lparr>rKey = (if rKey rs = KeyMin then LocalMax else rKey rs), rEndKey = rEndKey rs\<rparr>"

definition RContainsKey :: "RSpan \<Rightarrow> bytes \<Rightarrow> bool" where
  "RContainsKey rs key \<longleftrightarrow> bytes_Compare key (rKey rs) \<ge> 0 \<and> bytes_Compare key (rEndKey rs) < 0"

definition ContainsKeyInverted :: "RSpan \<Rightarrow> bytes \<Rightarrow> bool" where
  "ContainsKeyInverted rs key \<longleftrightarrow> bytes_Compare key (rKey rs) > 0 \<and> bytes_Compare key (rEndKey rs) \<le> 0"

definition ContainsKeyRange :: "RSpan \<Rightarrow> bytes \<Rightarrow> bytes \<Rightarrow> bool" where
  "ContainsKeyRange rs start bs' =
    (if length bs' = 0 then RContainsKey rs start
     else
       let comp = bytes_Compare bs' start in
       if comp < 0 then False
       else if comp = 0 then RContainsKey rs start
       else bytes_Compare start (rKey rs) \<ge> 0 \<and> bytes_Compare (rEndKey rs) bs' \<ge> 0)"

definition RIntersect :: "RSpan \<Rightarrow> RSpan \<Rightarrow> RSpan result" where
  "RIntersect rs rspan =
    (if \<not> rKey rs < rEndKey rspan \<or> \<not> rKey rspan < rEndKey rs
     then Inl (Errorf ''spans do not overlap: %s vs %s'')
     else
       let key = (if rKey rs < rKey rspan then rKey rspan else rKey rs);
           endKey = (if \<not> ContainsKeyRange rspan (rKey rspan) (rEndKey rs) then rEndKey rspan else rEndKey rs)
       in Inr \<lparr>rKey = key, rEndKey = endKey\<rparr>)"

subsection \<open>The order of keys\<close>

lemma bytes_Compare_simps [simp]:
  "bytes_Compare a b < 0 \<longleftrightarrow> a < b" "bytes_Compare a b \<ge> 0 \<longleftrightarrow> b \<le> a"
  "bytes_Compare a b > 0 \<longleftrightarrow> b < a" "bytes_Compare a b \<le> 0 \<longleftrightarrow> a \<le> b"
  "bytes_Compare a b = 0 \<longleftrightarrow> a = b"
  by (auto simp: bytes_Compare_def)

lemma BytesNext_eq [simp]: "BytesNext spare b = b @ [0]"
  by (simp add: BytesNext_def Let_def split: option.split)

lemma KeyNext_eq [simp]: "KeyNext k = k @ [0]"
  by (simp add: KeyNext_def)

lemma less_snoc_zero: "x < k @ [0] \<longleftrightarrow> x \<le> (k :: bytes)"
proof (induction k arbitrary: x)
  case Nil
  show ?case by (cases x) (auto simp: word_coorder.not_eq_extremum)
next
  case (Cons a k)
  show ?case using Cons by (cases x) auto
qed

lemma not_less_Nil_bytes [simp]:
  "\<not> (x :: bytes) < []" "[] \<le> (x :: bytes)" "[] < (x :: bytes) \<longleftrightarrow> x \<noteq> []"
  by (cases x; simp)+

lemma between_same_prefix:
  "p @ s \<le> k \<Longrightarrow> k < p @ t \<Longrightarrow> \<exists>r. k = p @ r \<and> s \<le> r \<and> r < (t :: bytes)"
proof (induction p arbitrary: k)
  case Nil
  then show ?case by simp
next
  case (Cons a p)
  then obtain c k' where k: "k = c # k'" by (cases k) auto
  with Cons.prems have "c = a" by auto
  with Cons k show ?case by auto
qed

lemma byte_le_255: "x \<le> (255 :: byte)"
  using byte_lt_256 [of x] by (simp add: word_le_nat_alt)

lemma byte_Suc: "x \<noteq> 255 \<Longrightarrow> unat (x + 1 :: byte) = Suc (unat x)"
proof -
  assume "x \<noteq> 255"
  then have "x < 255" using byte_le_255 [of x] by simp
  then have "unat x < 255" by (simp add: word_less_nat_alt)
  then show ?thesis by (simp add: unat_word_ariths)
qed

lemma byte_less_Suc: "x \<noteq> 255 \<Longrightarrow> y < x + 1 \<longleftrightarrow> y \<le> (x :: byte)"
  using byte_Suc [of x] by (auto simp: word_less_nat_alt word_le_nat_alt)

lemma byte_256 [simp]: "(256 :: byte) = 0"
  by (simp add: word_eq_iff_unsigned)

lemma byte_Suc_eq_0: "x + 1 = 0 \<longleftrightarrow> x = (255 :: byte)"
proof (cases "x = 255")
  case False
  then have "unat (x + 1) \<noteq> 0" by (simp add: byte_Suc)
  with False show ?thesis by (metis unsigned_0)
qed simp

lemma max_prefix_le: "replicate n 255 \<le> r \<Longrightarrow> prefix (replicate n 255) (r :: bytes)"
proof (induction n arbitrary: r)
  case (Suc n)
  then obtain y r' where "r = y # r'" by (cases r) auto
  with Suc show ?case using byte_le_255 [of y] by auto
qed simp

lemma split_max: "(\<exists>n. b = replicate n 255) \<or> (\<exists>p x n. b = p @ x # replicate n 255 \<and> x \<noteq> (255 :: byte))"
proof (induction b rule: rev_induct)
  case Nil
  then show ?case by simp
next
  case (snoc y b)
  show ?case
  proof (cases "y = 255")
    case True
    have r: "replicate n 255 @ [255] = replicate (Suc n) (255 :: byte)" for n
      by (simp add: replicate_append_same)
    from snoc True r show ?thesis by (metis append.assoc append_Cons)
  next
    case False
    then show ?thesis by (metis append.right_neutral append_Cons replicate_0)
  qed
qed

lemma prefixEndLoop_carry:
  "take i e = p @ x # replicate n 255 \<Longrightarrow> x \<noteq> 255 \<Longrightarrow> i \<le> length e \<Longrightarrow> prefixEndLoop b e i = p @ [x + 1]"
proof (induction n arbitrary: i e)
  case 0
  then obtain j where i: "i = Suc j" "j < length e" by (cases i) auto
  have "take j e @ [e ! j] = p @ [x]"
    using 0 i by (simp add: take_Suc_conv_app_nth)
  then show ?case
    using i 0(2) byte_Suc_eq_0 by (auto simp: Let_def take_Suc_conv_app_nth)
next
  case (Suc n)
  then obtain j where i: "i = Suc j" "j < length e" by (cases i) auto
  have "take j e @ [e ! j] = (p @ x # replicate n 255) @ [255]"
    using Suc i by (simp add: take_Suc_conv_app_nth replicate_append_same)
  then have j: "take j e = p @ x # replicate n 255" "e ! j = 255" by auto
  then show ?case
    using i Suc.IH [of j "e[j := 0]"] Suc.prems(2) by (auto simp: Let_def)
qed

lemma prefixEndLoop_max:
  "take i e = replicate i 255 \<Longrightarrow> i \<le> length e \<Longrightarrow> prefixEndLoop b e i = b"
proof (induction i arbitrary: e)
  case (Suc i)
  then have "take i e @ [e ! i] = replicate i 255 @ [255]"
    by (simp add: take_Suc_conv_app_nth replicate_append_same)
  then have "take i e = replicate i 255" "e ! i = 255" by auto
  then show ?case using Suc by (auto simp: Let_def)
qed simp

lemma PrefixEnd_carry: "x \<noteq> 255 \<Longrightarrow> PrefixEnd (p @ x # replicate n 255) = p @ [x + 1]"
  by (simp add: PrefixEnd_def prefixEndLoop_carry [of _ _ p x n] del: prefixEndLoop.simps)

lemma PrefixEnd_max: "0 < n \<Longrightarrow> PrefixEnd (replicate n 255) = replicate n 255"
  by (simp add: PrefixEnd_def prefixEndLoop_max)

lemma prefix_le: "xs \<le> xs @ (ys :: bytes)"
  by (induction xs) auto

lemma prefix_iff_PrefixEnd:
  assumes "b \<noteq> replicate (length b) 255"
  shows "prefix b k \<longleftrightarrow> b \<le> k \<and> k < PrefixEnd b"
proof -
  obtain p x n where b: "b = p @ x # replicate n 255" and x: "x \<noteq> 255"
    using split_max [of b] assms by auto
  have "b \<le> k" "k < PrefixEnd b" if "prefix b k"
  proof -
    from that obtain zs where k: "k = b @ zs" by (rule prefixE)
    show "b \<le> k" by (simp add: k prefix_le)
    show "k < PrefixEnd b" using x byte_less_Suc [of x x] by (simp add: k b PrefixEnd_carry)
  qed
  moreover have "prefix b k" if le: "b \<le> k" and lt: "k < PrefixEnd b"
  proof -
    obtain r where k: "k = p @ r" and r: "x # replicate n 255 \<le> r" "r < [x + 1]"
      using between_same_prefix [of p "x # replicate n 255" k "[x + 1]"] le lt x
      by (auto simp: b PrefixEnd_carry)
    then obtain y r' where "r = y # r'" by (cases r) auto
    with r x have "y = x" "replicate n 255 \<le> r'" by (auto simp: byte_less_Suc)
    then show ?thesis
      using max_prefix_le [of n r'] \<open>r = y # r'\<close> by (auto simp: k b)
  qed
  ultimately show ?thesis by blast
qed

lemma UndoPrefixEnd_PrefixEnd: "UndoPrefixEnd b = (p, True) \<Longrightarrow> PrefixEnd p = b"
proof -
  assume u: "UndoPrefixEnd b = (p, True)"
  then have "b \<noteq> []" by (auto simp: UndoPrefixEnd_def)
  then obtain q x where b: "b = q @ [x]" by (cases b rule: rev_cases) auto
  with u have p: "p = q @ (x - 1) # replicate 0 255" and "x \<noteq> 0"
    by (auto simp: UndoPrefixEnd_def nth_append split: if_splits)
  have "x - 1 \<noteq> 255" using \<open>x \<noteq> 0\<close> by (metis byte_Suc_eq_0 diff_add_cancel)
  then have "PrefixEnd p = q @ [x - 1 + 1]" unfolding p by (rule PrefixEnd_carry)
  then show ?thesis by (simp add: b)
qed

lemma byte_less_pred: "x \<noteq> 0 \<Longrightarrow> y < x \<longleftrightarrow> y \<le> x - (1 :: byte)"
  using byte_less_Suc [of "x - 1" y] byte_Suc_eq_0 [of "x - 1"] by simp

lemma le_max: "length k \<le> n \<Longrightarrow> k \<le> replicate n (255 :: byte)"
proof (induction n arbitrary: k)
  case (Suc n)
  then show ?case using byte_le_255 by (cases k) (auto simp: order_le_less)
qed simp

lemma BytesPrevish_greatest:
  assumes "k < b" "length k \<le> len"
  shows "BytesPrevish b len < b" "k \<le> BytesPrevish b len"
proof -
  from assms have "b \<noteq> []" by auto
  then obtain p x where b: "b = p @ [x]" by (cases b rule: rev_cases) auto
  define m where "m = (if length b > len then 0 else len - length b)"
  have P: "BytesPrevish b len = (if x = 0 then p else p @ (x - 1) # replicate m 255)"
    by (auto simp: BytesPrevish_def Let_def b nth_append list_update_append m_def)
  show "BytesPrevish b len < b"
    using byte_less_pred [of x "x - 1"] by (subst P) (auto simp: b)
  show "k \<le> BytesPrevish b len"
  proof (cases "x = 0")
    case True
    then have "k \<le> p" using assms by (simp add: b less_snoc_zero)
    with True show ?thesis by (subst P) simp
  next
    case False
    show ?thesis
    proof (rule ccontr)
      assume "\<not> ?thesis"
      then have "p @ (x - 1) # replicate m 255 \<le> k" "k < p @ [x]" using assms False by (subst (asm) P, auto simp: b)
      then obtain r where k: "k = p @ r" "(x - 1) # replicate m 255 \<le> r" "r < [x]"
        using between_same_prefix by blast
      then obtain y r' where r: "r = y # r'" by (cases r) auto
      with k False have y: "y = x - 1" by (auto simp: byte_less_pred)
      have "length r' \<le> m" using assms k r by (auto simp: m_def b)
      then have "k \<le> p @ (x - 1) # replicate m 255"
        using le_max [of r' m] by (simp add: k r y order_le_less)
      with \<open>\<not> ?thesis\<close> False show False by (subst (asm) P) simp
    qed
  qed
qed

lemma IsPrev_iff: "IsPrev k m \<longleftrightarrow> m = KeyNext k"
proof (cases m rule: rev_cases)
  case (snoc q x)
  then show ?thesis by (auto simp: IsPrev_def)
qed (simp add: IsPrev_def)

subsection \<open>Spans as sets of keys\<close>

definition span_keys :: "Span \<Rightarrow> bytes set" where
  "span_keys s =
    (if \<not> Valid s then {}
     else if EndKey s = [] then {Key s}
     else {k. Key s \<le> k \<and> k < EndKey s})"

lemma Valid_cases:
  "Valid s \<longleftrightarrow> (EndKey s = [] \<and> Key s \<noteq> []) \<or> (EndKey s \<noteq> [] \<and> Key s < EndKey s)"
  by (auto simp: Valid_def)

lemma span_keys_cases:
  "span_keys s = (if EndKey s = [] then (if Key s = [] then {} else {Key s}) else {k. Key s \<le> k \<and> k < EndKey s})"
  by (auto simp: span_keys_def Valid_cases)

lemma span_keys_empty [simp]: "span_keys emptySpan = {}"
  by (simp add: span_keys_cases emptySpan_def)

lemma Valid_iff_keys: "Valid s \<longleftrightarrow> span_keys s \<noteq> {}"
  by (auto simp: span_keys_def Valid_cases)

lemma range_overlap:
  "a < b \<Longrightarrow> c < d \<Longrightarrow> (\<exists>k. a \<le> k \<and> k < b \<and> c \<le> k \<and> k < d) \<longleftrightarrow> c < b \<and> a < (d :: 'a :: linorder)"
  by (meson dual_order.strict_trans1 le_less_trans linorder_le_cases order_refl)

lemma Overlaps_iff: "Overlaps s u \<longleftrightarrow> span_keys s \<inter> span_keys u \<noteq> {}"
proof (cases "Valid s \<and> Valid u")
  case True
  then consider "EndKey s = []" | "EndKey u = []" | "EndKey s \<noteq> []" "EndKey u \<noteq> []" by blast
  then show ?thesis
  proof cases
    case 3
    with True have "Key s < EndKey s" "Key u < EndKey u" by (auto simp: Valid_cases)
    note ov = range_overlap [OF this]
    from 3 True have "Overlaps s u \<longleftrightarrow> Key u < EndKey s \<and> Key s < EndKey u"
      by (simp add: Overlaps_def)
    also have "\<dots> \<longleftrightarrow> span_keys s \<inter> span_keys u \<noteq> {}"
      using 3 True ov by (auto simp: span_keys_def)
    finally show ?thesis .
  qed (use True in \<open>auto simp: Overlaps_def span_keys_def\<close>)
next
  case False
  then show ?thesis by (auto simp: Overlaps_def span_keys_def)
qed

lemma Intersect_keys: "span_keys (Intersect s u) = span_keys s \<inter> span_keys u"
proof (cases "Overlaps s u")
  case True
  then have v: "Valid s" "Valid u" by (auto simp: Overlaps_def split: if_splits)
  with True show ?thesis
    by (auto simp: Intersect_def Overlaps_iff Let_def span_keys_cases split: if_splits)
next
  case False
  then show ?thesis using Overlaps_iff [of s u] by (simp add: Intersect_def)
qed

lemma Contains_subset: "Contains s u \<Longrightarrow> Valid u \<and> span_keys u \<subseteq> span_keys s"
  by (auto simp: Contains_def span_keys_def split: if_splits)

lemma range_subset:
  "a < b \<Longrightarrow> c < d \<Longrightarrow> {k. a \<le> k \<and> k < b} \<subseteq> {k. c \<le> k \<and> k < d} \<Longrightarrow> c \<le> a \<and> b \<le> (d :: 'a :: linorder)"
proof -
  assume ab: "a < b" and cd: "c < d" and sub: "{k. a \<le> k \<and> k < b} \<subseteq> {k. c \<le> k \<and> k < d}"
  have ca: "c \<le> a" using sub ab by blast
  moreover have "b \<le> d"
  proof (rule ccontr)
    assume "\<not> b \<le> d"
    then have "max a d \<in> {k. a \<le> k \<and> k < b}" using ab by (simp add: max_def linorder_not_le)
    with sub have "max a d < d" by blast
    then show False by simp
  qed
  ultimately show ?thesis by simp
qed

lemma Contains_iff:
  assumes "EndKey s \<noteq> [] \<or> EndKey u = []"
  shows "Contains s u \<longleftrightarrow> Valid u \<and> span_keys u \<subseteq> span_keys s"
proof
  assume r: "Valid u \<and> span_keys u \<subseteq> span_keys s"
  then have v: "Valid s" "Valid u" by (auto simp: Valid_iff_keys)
  show "Contains s u"
  proof (cases "EndKey u = []")
    case True
    with r v show ?thesis by (auto simp: Contains_def span_keys_def split: if_splits)
  next
    case False
    with assms v have "Key u < EndKey u" "Key s < EndKey s" by (auto simp: Valid_cases)
    then have "Key s \<le> Key u \<and> EndKey u \<le> EndKey s"
      by (rule range_subset) (use r v assms False in \<open>simp add: span_keys_def\<close>)
    with v assms False show ?thesis by (simp add: Contains_def)
  qed
qed (rule Contains_subset)

lemma ContainsKey_iff: "ContainsKey s k \<longleftrightarrow> EndKey s \<noteq> [] \<and> k \<in> span_keys s"
  by (auto simp: ContainsKey_def span_keys_cases)

lemma SpansContainsKey_iff: "SpansContainsKey a k \<longleftrightarrow> (\<exists>s \<in> set a. ContainsKey s k)"
  by (induction a) auto

lemma AsRange_keys: "Valid s \<Longrightarrow> span_keys s = {k. fst (AsRange s) \<le> k \<and> k < snd (AsRange s)}"
  by (auto simp: AsRange_def Let_def span_keys_def less_snoc_zero)

lemma SplitOnKey_keys:
  assumes "SplitOnKey s k = (l, r)"
  shows "span_keys l \<union> span_keys r = span_keys s" "span_keys l \<inter> span_keys r = {}"
    "ProperlyContainsKey s k \<Longrightarrow> span_keys l = {x \<in> span_keys s. x < k} \<and> span_keys r = {x \<in> span_keys s. k \<le> x}"
proof -
  have *: "span_keys l \<union> span_keys r = span_keys s \<and> span_keys l \<inter> span_keys r = {} \<and>
    (ProperlyContainsKey s k \<longrightarrow> span_keys l = {x \<in> span_keys s. x < k} \<and> span_keys r = {x \<in> span_keys s. k \<le> x})"
  proof (cases "ProperlyContainsKey s k")
    case True
    then have k: "Key s < k" "k < EndKey s" by (auto simp: ProperlyContainsKey_def)
    then have ne: "k \<noteq> []" "EndKey s \<noteq> []" by auto
    have lr: "l = \<lparr>Key = Key s, EndKey = k\<rparr>" "r = \<lparr>Key = k, EndKey = EndKey s\<rparr>"
      using assms k by (auto simp: SplitOnKey_def linorder_not_le [symmetric])
    show ?thesis using k ne by (auto simp: lr span_keys_cases)
  next
    case False
    then have "l = s" "r = emptySpan"
      using assms by (auto simp: SplitOnKey_def ProperlyContainsKey_def not_less split: if_splits)
    with False show ?thesis by simp
  qed
  then show "span_keys l \<union> span_keys r = span_keys s" "span_keys l \<inter> span_keys r = {}"
    "ProperlyContainsKey s k \<Longrightarrow> span_keys l = {x \<in> span_keys s. x < k} \<and> span_keys r = {x \<in> span_keys s. k \<le> x}"
    by blast+
qed

subsection \<open>Combining spans\<close>

definition hull :: "bytes set \<Rightarrow> bytes set" where
  "hull S = {k. \<exists>a \<in> S. \<exists>b \<in> S. a \<le> k \<and> k \<le> b}"

text \<open>The upper end of a valid span, and whether it belongs to the span.\<close>

definition upper :: "Span \<Rightarrow> bytes" where
  "upper s = (if EndKey s \<noteq> [] then EndKey s else Key s)"

lemma Combine_closed:
  assumes "Valid s" "Valid u"
  shows "Combine s u =
    (let lo = min (Key s) (Key u); hi = max (upper s) (upper u) in
     if lo = hi then \<lparr>Key = lo, EndKey = []\<rparr>
     else if Key s = hi \<or> Key u = hi then \<lparr>Key = lo, EndKey = hi @ [0]\<rparr>
     else \<lparr>Key = lo, EndKey = hi\<rparr>)"
proof -
  have le: "Key s \<le> upper s" "Key u \<le> upper u" using assms by (auto simp: upper_def Valid_cases)
  define max1 where "max1 = (if Key u < Key s then upper s else if upper s < Key u then Key u else upper s)"
  have hi: "(if EndKey u \<noteq> [] \<and> max1 < EndKey u then EndKey u else max1) = max (upper s) (upper u)"
    using assms le unfolding max1_def upper_def by (auto simp: max_def Valid_cases)
  have lo: "(if Key u < Key s then Key u else Key s) = min (Key s) (Key u)"
    by (auto simp: min_def)
  have "Combine s u =
    (let lo = if Key u < Key s then Key u else Key s;
         hi = if EndKey u \<noteq> [] \<and> max1 < EndKey u then EndKey u else max1 in
     if lo = hi then \<lparr>Key = lo, EndKey = []\<rparr>
     else if Key s = hi \<or> Key u = hi then \<lparr>Key = lo, EndKey = hi @ [0]\<rparr>
     else \<lparr>Key = lo, EndKey = hi\<rparr>)"
    unfolding Combine_def max1_def upper_def Let_def using assms
    by (simp only: not_True_eq_False bytes_Compare_simps KeyNext_eq length_greater_0_conv if_False simp_thms if_cancel if_not_P)
  then show ?thesis unfolding hi lo .
qed

lemma upper_keys:
  assumes "Valid s"
  shows "k \<in> span_keys s \<longleftrightarrow> Key s \<le> k \<and> (k < upper s \<or> k = upper s \<and> Key s = upper s)"
  using assms by (auto simp: span_keys_def upper_def Valid_cases)

lemma Combine_keys:
  assumes "Valid s" "Valid u"
  shows "span_keys (Combine s u) = hull (span_keys s \<union> span_keys u)"
proof -
  define lo hi where "lo = min (Key s) (Key u)" and "hi = max (upper s) (upper u)"
  have le: "Key s \<le> upper s" "Key u \<le> upper u" using assms by (auto simp: upper_def Valid_cases)
  have ks: "Key s \<in> span_keys s" "Key u \<in> span_keys u"
    using le assms by (auto simp: upper_keys)
  have ne: "hi \<noteq> []" using assms by (auto simp: hi_def max_def upper_def Valid_cases split: if_splits)
  have lohi: "lo \<le> hi" using le by (auto simp: lo_def hi_def min_def max_def)
  have C: "k \<in> span_keys (Combine s u) \<longleftrightarrow> lo \<le> k \<and> (k < hi \<or> k = hi \<and> (Key s = hi \<or> Key u = hi))" for k
  proof -
    have "lo = hi \<Longrightarrow> Key s = hi \<or> Key u = hi" by (auto simp: lo_def min_def split: if_splits)
    then show ?thesis
      using ne lohi by (auto simp: Combine_closed [OF assms] Let_def lo_def [symmetric] hi_def [symmetric] span_keys_cases less_snoc_zero)
  qed
  show ?thesis
  proof (intro set_eqI iffI)
    fix k assume k: "k \<in> span_keys (Combine s u)"
    have low: "\<exists>a \<in> span_keys s \<union> span_keys u. a \<le> k"
      using k ks unfolding C lo_def min_def by (auto split: if_splits)
    moreover have "\<exists>b \<in> span_keys s \<union> span_keys u. k \<le> b"
    proof (cases "k \<le> Key s \<or> k \<le> Key u")
      case True
      then show ?thesis using ks by blast
    next
      case False
      with k have "k < hi" unfolding C by auto
      then have "k < upper s \<or> k < upper u" by (simp add: hi_def max_def split: if_splits)
      with False assms have "k \<in> span_keys s \<union> span_keys u" by (auto simp: upper_keys)
      then show ?thesis by blast
    qed
    ultimately show "k \<in> hull (span_keys s \<union> span_keys u)" by (auto simp: hull_def)
  next
    fix k assume "k \<in> hull (span_keys s \<union> span_keys u)"
    then obtain a b where ab: "a \<in> span_keys s \<union> span_keys u" "b \<in> span_keys s \<union> span_keys u" "a \<le> k" "k \<le> b"
      by (auto simp: hull_def)
    then have "lo \<le> a" using assms unfolding lo_def by (auto simp: upper_keys min_le_iff_disj)
    moreover have "b < hi \<or> b = hi \<and> (Key s = hi \<or> Key u = hi)"
      using ab(2) assms unfolding hi_def by (auto simp: upper_keys less_max_iff_disj)
    ultimately show "k \<in> span_keys (Combine s u)" using ab unfolding C by auto
  qed
qed

subsection \<open>Resolved spans as sets of keys\<close>

definition rspan_keys :: "RSpan \<Rightarrow> bytes set" where
  "rspan_keys rs = {k. rKey rs \<le> k \<and> k < rEndKey rs}"

lemma RIntersect_keys:
  assumes "rKey rs < rEndKey rs" "rKey u < rEndKey u"
  shows "case RIntersect rs u of
      Inr r \<Rightarrow> rspan_keys r = rspan_keys rs \<inter> rspan_keys u \<and> rKey r < rEndKey r
    | Inl e \<Rightarrow> e = Errorf ''spans do not overlap: %s vs %s'' \<and> rspan_keys rs \<inter> rspan_keys u = {}"
proof (cases "rKey rs < rEndKey u \<and> rKey u < rEndKey rs")
  case True
  then have "ContainsKeyRange u (rKey u) (rEndKey rs) \<longleftrightarrow> rEndKey rs \<le> rEndKey u"
    by (auto simp: ContainsKeyRange_def Let_def)
  with True assms show ?thesis
    by (auto simp: RIntersect_def Let_def rspan_keys_def)
next
  case False
  then show ?thesis by (auto simp: RIntersect_def rspan_keys_def)
qed

lemma ContainsKeyRange_iff:
  assumes "rKey rs < rEndKey rs" "start < stop"
  shows "ContainsKeyRange rs start stop \<longleftrightarrow> {k. start \<le> k \<and> k < stop} \<subseteq> rspan_keys rs"
proof
  assume "{k. start \<le> k \<and> k < stop} \<subseteq> rspan_keys rs"
  then have "rKey rs \<le> start \<and> stop \<le> rEndKey rs"
    using range_subset [OF assms(2,1)] by (simp add: rspan_keys_def)
  with assms(2) show "ContainsKeyRange rs start stop" by (auto simp: ContainsKeyRange_def Let_def)
qed (use assms in \<open>auto simp: ContainsKeyRange_def Let_def rspan_keys_def split: if_splits\<close>)

subsection \<open>Properties\<close>

text \<open>\<open>PrefixEnd b\<close> bounds the keys with prefix \<open>b\<close> from above: for a \<open>b\<close> with a byte below
  \<open>0xff\<close> the keys from \<open>b\<close> up to it are exactly the keys that start with \<open>b\<close>; a non-empty \<open>b\<close> of
  maximal bytes is returned as it is.\<close>

lemma PrefixEnd_range:
  "if \<exists>x \<in> set b. x \<noteq> 0xff then (\<forall>k. prefix b k \<longleftrightarrow> b \<le> k \<and> k < PrefixEnd b)
   else PrefixEnd b = (if b = [] then KeyMax else b)"
proof (cases "\<exists>x \<in> set b. x \<noteq> 0xff")
  case True
  then have "b \<noteq> replicate (length b) 255" by (metis in_set_replicate)
  then show ?thesis using True prefix_iff_PrefixEnd by auto
next
  case False
  then have r: "b = replicate (length b) 255" by (intro replicate_length_same [symmetric]) simp
  then have "b \<noteq> [] \<Longrightarrow> PrefixEnd b = b" by (metis PrefixEnd_max length_greater_0_conv)
  with False show ?thesis by (auto simp: PrefixEnd_def)
qed

text \<open>When \<open>UndoPrefixEnd\<close> succeeds, \<open>PrefixEnd\<close> of its result is its argument; the other way
  round fails for a prefix that ends in \<open>0xff\<close>.\<close>

lemma UndoPrefixEnd_inverse:
  "(\<forall>b p. UndoPrefixEnd b = (p, True) \<longrightarrow> PrefixEnd p = b) \<and>
   UndoPrefixEnd (PrefixEnd [1, 0xff]) = ([1], True)"
  using UndoPrefixEnd_PrefixEnd by (auto simp: UndoPrefixEnd_def PrefixEnd_def Let_def)

text \<open>\<open>BytesNext\<close> is the immediate successor in the order of keys, \<open>IsPrev\<close> decides it, and
  \<open>BytesPrevish\<close> is the greatest key of at most the given length below a key.\<close>

lemma key_neighbours:
  "k < BytesNext spare k \<and> (\<forall>x. x < BytesNext spare k \<longleftrightarrow> x \<le> k) \<and>
   (IsPrev k m \<longleftrightarrow> m = KeyNext k) \<and>
   (\<forall>x. x < k \<and> length x \<le> n \<longrightarrow> BytesPrevish k n < k \<and> x \<le> BytesPrevish k n)"
  using BytesPrevish_greatest by (auto simp: less_snoc_zero IsPrev_iff)

text \<open>Spans denote sets of keys, and \<open>Overlaps\<close> and \<open>Intersect\<close> compute on them: \<open>Overlaps\<close>
  decides whether two spans share a key and \<open>Intersect\<close> covers exactly the shared keys, for
  points, ranges and invalid spans alike.\<close>

lemma span_intersection:
  "(Overlaps s u \<longleftrightarrow> span_keys s \<inter> span_keys u \<noteq> {}) \<and>
   span_keys (Intersect s u) = span_keys s \<inter> span_keys u \<and>
   (Valid s \<longleftrightarrow> span_keys s \<noteq> {})"
  using Overlaps_iff Intersect_keys Valid_iff_keys by blast

text \<open>\<open>Combine\<close> of two valid spans covers exactly the keys between keys of the two, the
  smallest contiguous span that holds both.\<close>

lemma Combine_hull:
  "Valid s \<Longrightarrow> Valid u \<Longrightarrow>
    span_keys (Combine s u) = {k. \<exists>a \<in> span_keys s \<union> span_keys u. \<exists>b \<in> span_keys s \<union> span_keys u. a \<le> k \<and> k \<le> b}"
  using Combine_keys by (simp add: hull_def)

text \<open>\<open>Contains\<close> decides inclusion of a valid span, except that a point is never said to contain
  a range, and \<open>ContainsKey\<close> decides membership in a range; \<open>AsRange\<close> keeps the keys.\<close>

lemma span_containment:
  "(Contains s u \<longleftrightarrow>
     Valid u \<and> span_keys u \<subseteq> span_keys s \<and> \<not> (EndKey s = [] \<and> EndKey u \<noteq> [])) \<and>
   (ContainsKey s k \<longleftrightarrow> EndKey s \<noteq> [] \<and> k \<in> span_keys s) \<and>
   (Valid s \<longrightarrow> span_keys s = {k. fst (AsRange s) \<le> k \<and> k < snd (AsRange s)})"
proof -
  have "Contains s u \<Longrightarrow> \<not> (EndKey s = [] \<and> EndKey u \<noteq> [])" by (auto simp: Contains_def split: if_splits)
  then show ?thesis using Contains_iff [of s u] Contains_subset [of s u] ContainsKey_iff AsRange_keys by blast
qed

text \<open>\<open>SplitOnKey\<close> cuts a span into two disjoint parts that together cover it, at the key when
  it lies strictly inside.\<close>

lemma SplitOnKey_partition:
  "span_keys (fst (SplitOnKey s k)) \<union> span_keys (snd (SplitOnKey s k)) = span_keys s \<and>
   span_keys (fst (SplitOnKey s k)) \<inter> span_keys (snd (SplitOnKey s k)) = {} \<and>
   (ProperlyContainsKey s k \<longrightarrow>
     span_keys (fst (SplitOnKey s k)) = {x \<in> span_keys s. x < k} \<and>
     span_keys (snd (SplitOnKey s k)) = {x \<in> span_keys s. k \<le> x})"
  using SplitOnKey_keys [of s k "fst (SplitOnKey s k)" "snd (SplitOnKey s k)"] by simp

text \<open>Intersecting two resolved spans gives the span of the shared keys, and fails exactly when
  there are none.\<close>

lemma RSpan_intersection:
  assumes "rKey rs < rEndKey rs" "rKey u < rEndKey u"
  shows "case RIntersect rs u of
      Inr r \<Rightarrow> rspan_keys r = rspan_keys rs \<inter> rspan_keys u \<and> rKey r < rEndKey r
    | Inl e \<Rightarrow> e = Errorf ''spans do not overlap: %s vs %s'' \<and> rspan_keys rs \<inter> rspan_keys u = {}"
  using assms by (rule RIntersect_keys)

end
