(* ===== verification/Merge_Spans.thy ===== *)
theory Merge_Spans
  imports Keys_Spans
begin

text \<open>
  Sets of spans as sorted lists, \<open>engine/pkg/roachpb/merge_spans.go\<close>: \<open>MergeSpans\<close> and
  \<open>SubtractSpans\<close> are shown to compute the union and the difference of the key sets.

  \<open>MergeSpans\<close> distinguishes an end key that is nil from one that is empty but not nil, so its spans have
  an optional end key; all other code of spans looks at the length of the end key only.

  \<open>sort.Sort\<close> is the sort of the library by the key the source's \<open>Less\<close> compares.  \<open>MergeSpans\<close>
  compares both ends, so spans that compare equal are equal; \<open>SubtractSpans\<close> compares start keys,
  which are distinct for the non-overlapping, non-empty spans it is specified for.
\<close>

subsection \<open>MergeSpans\<close>

text \<open>A span as \<open>MergeSpans\<close> sees it, with nil for an absent end key; \<open>len\<close> and \<open>Compare\<close> treat nil as empty.\<close>

record RawSpan =
  RKey :: bytes
  REndKey :: "bytes option"

definition endBytes :: "RawSpan \<Rightarrow> bytes" where
  "endBytes s = (case REndKey s of None \<Rightarrow> [] | Some e \<Rightarrow> e)"

text \<open>One turn of the loop: what replaces \<open>prev\<close>, the last merged span, and whether the turn
  keeps the result distinct.\<close>

definition mergeOne :: "RawSpan \<Rightarrow> RawSpan \<Rightarrow> RawSpan list \<times> bool" where
  "mergeOne prev cur =
    (if length (endBytes cur) = 0 \<and> length (endBytes prev) = 0 then
       (if bytes_Compare (RKey cur) (RKey prev) \<noteq> 0 then ([prev, cur], True) else ([prev], False))
     else if length (endBytes prev) = 0 then
       (if bytes_Compare (RKey cur) (RKey prev) = 0 then ([prev\<lparr>REndKey := REndKey cur\<rparr>], False)
        else ([prev, cur], True))
     else
       let c = bytes_Compare (endBytes prev) (RKey cur) in
       if c \<ge> 0 then
         (if REndKey cur \<noteq> None then
            (if bytes_Compare (endBytes prev) (endBytes cur) < 0
             then ([prev\<lparr>REndKey := REndKey cur\<rparr>], \<not> c > 0)
             else ([prev], False))
          else if c = 0 then ([prev\<lparr>REndKey := Some (KeyNext (RKey cur))\<rparr>], True)
          else ([prev], False))
       else ([prev, cur], True))"

fun mergeStep :: "RawSpan list \<times> bool \<Rightarrow> RawSpan \<Rightarrow> RawSpan list \<times> bool" where
  "mergeStep (r, dist) cur =
    (let (ps, d) = mergeOne (last r) cur in (butlast r @ ps, dist \<and> d))"

definition MergeSpans :: "RawSpan list \<Rightarrow> RawSpan list \<times> bool" where
  "MergeSpans spans =
    (if length spans = 0 then (spans, True)
     else
       let spans' = sort_key (\<lambda>s. (RKey s, endBytes s)) spans
       in foldl mergeStep ([hd spans'], True) (tl spans'))"

subsection \<open>SubtractSpans\<close>

definition appendRemaining :: "Span list \<Rightarrow> Span \<Rightarrow> Span list" where
  "appendRemaining remaining s =
    (if length remaining > 0 \<and> EndKey (last remaining) = Key s
     then butlast remaining @ [(last remaining)\<lparr>EndKey := EndKey s\<rparr>]
     else remaining @ [s])"

text \<open>The unread parts of \<open>todo\<close> and \<open>done\<close>; shrinking \<open>todo[t]\<close> replaces the head of the first.\<close>

function subtractLoop :: "Span list \<Rightarrow> Span list \<Rightarrow> Span list \<Rightarrow> Span list" where
  "subtractLoop (t # ts) (d # ds) remaining =
    (if Key t = EndKey t then subtractLoop ts (d # ds) remaining
     else if bytes_Compare (Key d) (EndKey t) \<ge> 0 then
       subtractLoop ts (d # ds) (appendRemaining remaining t)
     else if bytes_Compare (EndKey d) (Key t) \<le> 0 then subtractLoop (t # ts) ds remaining
     else
       let endCmp = bytes_Compare (EndKey d) (EndKey t) in
       if bytes_Compare (Key d) (Key t) \<le> 0 then
         (if endCmp < 0 then subtractLoop (t\<lparr>Key := EndKey d\<rparr> # ts) ds remaining
          else if endCmp > 0 then subtractLoop ts (d # ds) remaining
          else subtractLoop ts ds remaining)
       else
         let remaining' = appendRemaining remaining \<lparr>Key = Key t, EndKey = Key d\<rparr> in
         (if endCmp < 0 then subtractLoop (t\<lparr>Key := EndKey d\<rparr> # ts) ds remaining'
          else if endCmp > 0 then subtractLoop ts (d # ds) remaining'
          else subtractLoop ts ds remaining'))"
| "subtractLoop [] ds remaining = remaining"
| "subtractLoop (t # ts) [] remaining = remaining @ t # ts"
  by pat_completeness auto
termination
  by (relation "measure (\<lambda>(t, d, r). length t + length d)") auto

definition SubtractSpans :: "Span list \<Rightarrow> Span list \<Rightarrow> Span list" where
  "SubtractSpans todo ds =
    (if length ds = 0 then todo
     else subtractLoop (sort_key Key todo) (sort_key Key ds) [])"

subsection \<open>Lists of spans as sets of keys\<close>

definition spans_keys :: "Span list \<Rightarrow> bytes set" where
  "spans_keys xs = \<Union> (span_keys ` set xs)"

lemma spans_keys_simps [simp]:
  "spans_keys [] = {}" "spans_keys (s # xs) = span_keys s \<union> spans_keys xs"
  "spans_keys (xs @ ys) = spans_keys xs \<union> spans_keys ys"
  "spans_keys (sort_key f xs) = spans_keys xs"
  by (auto simp: spans_keys_def)

text \<open>All keys of one span before all keys of another.\<close>

definition before :: "Span \<Rightarrow> Span \<Rightarrow> bool" where
  "before a b \<longleftrightarrow> (\<forall>k \<in> span_keys a. \<forall>l \<in> span_keys b. k < l)"

definition apart :: "Span \<Rightarrow> Span \<Rightarrow> bool" where
  "apart a b \<longleftrightarrow> \<not> Overlaps a b"

lemma apart_iff: "apart a b \<longleftrightarrow> span_keys a \<inter> span_keys b = {}"
  by (simp add: apart_def Overlaps_iff)

lemma apart_sym: "apart a b \<longleftrightarrow> apart b a"
  by (auto simp: apart_iff)

lemma sorted_wrt_insort_sym:
  assumes "\<And>a b. P a b \<longleftrightarrow> P b a"
  shows "sorted_wrt P (insort_key f x xs) \<longleftrightarrow> (\<forall>y \<in> set xs. P x y) \<and> sorted_wrt P xs"
  using assms by (induction xs) (auto simp: set_insort_key)

lemma sorted_wrt_sort_sym:
  assumes "\<And>a b. P a b \<longleftrightarrow> P b a"
  shows "sorted_wrt P (sort_key f xs) \<longleftrightarrow> sorted_wrt P xs"
  by (induction xs) (auto simp: sorted_wrt_insort_sym [of P, OF assms])

lemma Key_in_span: "Valid s \<Longrightarrow> Key s \<in> span_keys s"
  by (auto simp: span_keys_def Valid_cases)

lemma Key_least: "k \<in> span_keys s \<Longrightarrow> Key s \<le> k"
  by (auto simp: span_keys_cases split: if_splits)

subsection \<open>The union of spans\<close>

text \<open>The merge of spans in which an empty end key means a single key, whether it is nil or not.\<close>

definition unionOne :: "Span \<Rightarrow> Span \<Rightarrow> Span list \<times> bool" where
  "unionOne prev cur =
    (if length (EndKey cur) = 0 \<and> length (EndKey prev) = 0 then
       (if bytes_Compare (Key cur) (Key prev) \<noteq> 0 then ([prev, cur], True) else ([prev], False))
     else if length (EndKey prev) = 0 then
       (if bytes_Compare (Key cur) (Key prev) = 0 then ([prev\<lparr>EndKey := EndKey cur\<rparr>], False)
        else ([prev, cur], True))
     else
       let c = bytes_Compare (EndKey prev) (Key cur) in
       if c \<ge> 0 then
         (if EndKey cur \<noteq> [] then
            (if bytes_Compare (EndKey prev) (EndKey cur) < 0
             then ([prev\<lparr>EndKey := EndKey cur\<rparr>], \<not> c > 0)
             else ([prev], False))
          else if c = 0 then ([prev\<lparr>EndKey := KeyNext (Key cur)\<rparr>], True)
          else ([prev], False))
       else ([prev, cur], True))"

fun unionStep :: "Span list \<times> bool \<Rightarrow> Span \<Rightarrow> Span list \<times> bool" where
  "unionStep (r, dist) cur =
    (let (ps, d) = unionOne (last r) cur in (butlast r @ ps, dist \<and> d))"

definition unionSpans :: "Span list \<Rightarrow> Span list \<times> bool" where
  "unionSpans spans =
    (if length spans = 0 then (spans, True)
     else
       let spans' = sort_key (\<lambda>s. (Key s, EndKey s)) spans
       in foldl unionStep ([hd spans'], True) (tl spans'))"

subsection \<open>The merge computes the union\<close>

definition merge_ok :: "Span \<Rightarrow> Span \<Rightarrow> Span list \<times> bool \<Rightarrow> bool" where
  "merge_ok prev cur m \<longleftrightarrow>
    spans_keys (fst m) = span_keys prev \<union> span_keys cur \<and> (snd m \<longleftrightarrow> apart prev cur) \<and>
    ((\<exists>p. fst m = [p] \<and> Valid p \<and> Key p = Key prev) \<or> (fst m = [prev, cur] \<and> before prev cur))"

lemma merge_ok_one:
  "Valid p \<Longrightarrow> Key p = Key prev \<Longrightarrow> span_keys p = span_keys prev \<union> span_keys cur \<Longrightarrow>
    (d \<longleftrightarrow> span_keys prev \<inter> span_keys cur = {}) \<Longrightarrow> merge_ok prev cur ([p], d)"
  by (simp add: merge_ok_def apart_iff)

lemma merge_ok_two:
  assumes "\<And>k. k \<in> span_keys prev \<Longrightarrow> k < Key cur"
  shows "merge_ok prev cur ([prev, cur], True)"
proof -
  have "before prev cur" using assms Key_least unfolding before_def by (metis order_less_le_trans)
  then show ?thesis by (auto simp: merge_ok_def before_def apart_iff)
qed

lemma unionOne_point:
  assumes "Valid prev" "Valid cur" "Key prev \<le> Key cur" "EndKey prev = []"
  shows "merge_ok prev cur (unionOne prev cur)"
proof (cases "Key cur = Key prev")
  case True
  have "prev\<lparr>EndKey := EndKey cur\<rparr> = cur" using True by (cases prev; cases cur) simp
  moreover have "EndKey cur = [] \<Longrightarrow> prev = cur" using True assms(4) by (cases prev; cases cur) simp
  ultimately have "unionOne prev cur = ([cur], False)" using assms(4) True by (auto simp: unionOne_def)
  moreover have "merge_ok prev cur ([cur], False)"
    by (rule merge_ok_one) (use assms True Key_in_span [of cur] in \<open>auto simp: span_keys_def\<close>)
  ultimately show ?thesis by simp
next
  case False
  then have "unionOne prev cur = ([prev, cur], True)" using assms(4) by (auto simp: unionOne_def)
  moreover have "merge_ok prev cur ([prev, cur], True)"
    using False assms by (intro merge_ok_two) (auto simp: span_keys_def)
  ultimately show ?thesis by simp
qed

lemma unionOne_touch:
  assumes "Valid prev" "Valid cur" "EndKey prev \<noteq> []" "EndKey prev = Key cur"
  shows "merge_ok prev cur (unionOne prev cur)"
proof -
  define e where "e = (if EndKey cur = [] then Key cur @ [0] else EndKey cur)"
  have ec: "EndKey cur \<noteq> [] \<Longrightarrow> EndKey prev < EndKey cur" using assms(2,4) by (auto simp: Valid_cases)
  then have m: "unionOne prev cur = ([prev\<lparr>EndKey := e\<rparr>], True)"
    using assms(3,4) by (simp add: unionOne_def Let_def e_def)
  have pv: "Key prev < Key cur" using assms by (auto simp: Valid_cases)
  have e: "k < e \<longleftrightarrow> k < Key cur \<or> k \<in> span_keys cur" for k
  proof (cases "EndKey cur = []")
    case True
    then show ?thesis using assms by (auto simp: e_def less_snoc_zero span_keys_cases)
  next
    case False
    then show ?thesis using ec assms by (auto simp: e_def span_keys_cases)
  qed
  have ne: "e \<noteq> []" by (simp add: e_def)
  have kp: "k \<in> span_keys prev \<longleftrightarrow> Key prev \<le> k \<and> k < Key cur" for k
    using assms by (simp add: span_keys_cases)
  have ke: "k \<in> span_keys (prev\<lparr>EndKey := e\<rparr>) \<longleftrightarrow> Key prev \<le> k \<and> k < e" for k
    using ne by (simp add: span_keys_cases)
  have cur: "k \<in> span_keys cur \<Longrightarrow> Key prev \<le> k \<and> \<not> k < Key cur" for k
    using Key_least [of k cur] pv by auto
  show ?thesis unfolding m
  proof (rule merge_ok_one)
    show "Valid (prev\<lparr>EndKey := e\<rparr>)" using ne pv e [of "Key prev"] by (simp add: Valid_cases)
    show "span_keys (prev\<lparr>EndKey := e\<rparr>) = span_keys prev \<union> span_keys cur"
      using kp ke e cur by blast
    show "True = (span_keys prev \<inter> span_keys cur = {})" using kp cur by blast
  qed simp
qed

lemma unionOne_over:
  assumes "Valid prev" "Valid cur" "Key prev \<le> Key cur" "EndKey prev \<noteq> []" "Key cur < EndKey prev"
  shows "merge_ok prev cur (unionOne prev cur)"
proof -
  define e where "e = (if EndKey prev < EndKey cur then EndKey cur else EndKey prev)"
  have "prev\<lparr>EndKey := EndKey prev\<rparr> = prev" by (cases prev) simp
  then have m: "unionOne prev cur = ([prev\<lparr>EndKey := e\<rparr>], False)"
    using assms(4,5) by (auto simp: unionOne_def Let_def e_def)
  have ne: "e \<noteq> []" "Key prev < e" using assms by (auto simp: e_def Valid_cases)
  have kp: "k \<in> span_keys prev \<longleftrightarrow> Key prev \<le> k \<and> k < EndKey prev" for k
    using assms by (simp add: span_keys_cases)
  have ke: "k \<in> span_keys (prev\<lparr>EndKey := e\<rparr>) \<longleftrightarrow> Key prev \<le> k \<and> k < e" for k
    using ne by (simp add: span_keys_cases)
  have cur: "Key cur \<le> k \<and> k < e" if "k \<in> span_keys cur" for k
    using that assms by (cases "EndKey cur = []") (auto simp: span_keys_cases e_def split: if_splits)
  have sub: "k \<in> span_keys prev \<or> k \<in> span_keys cur" if "Key prev \<le> k" "k < e" for k
    using that assms kp by (auto simp: e_def span_keys_cases not_less split: if_splits)
  have "k < EndKey prev \<Longrightarrow> k < e" for k by (auto simp: e_def)
  then have "span_keys (prev\<lparr>EndKey := e\<rparr>) = span_keys prev \<union> span_keys cur"
    using kp ke cur sub assms(3) by (meson UnE UnI1 UnI2 order_trans subsetI subset_antisym)
  moreover have "Key cur \<in> span_keys prev \<inter> span_keys cur"
    using kp assms Key_in_span [OF assms(2)] by auto
  ultimately show ?thesis unfolding m
    by (intro merge_ok_one) (use ne in \<open>auto simp: Valid_cases\<close>)
qed

lemma unionOne_correct:
  assumes "Valid prev" "Valid cur" "Key prev \<le> Key cur"
  shows "merge_ok prev cur (unionOne prev cur)"
proof (cases "EndKey prev = []")
  case True
  then show ?thesis using assms unionOne_point by blast
next
  case False
  show ?thesis
  proof (cases "EndKey prev" "Key cur" rule: linorder_cases)
    case less
    then have "unionOne prev cur = ([prev, cur], True)" using False by (auto simp: unionOne_def Let_def)
    moreover have "merge_ok prev cur ([prev, cur], True)"
      using less False by (intro merge_ok_two) (auto simp: span_keys_cases)
    ultimately show ?thesis by simp
  qed (use assms False unionOne_touch unionOne_over in blast)+
qed

text \<open>The invariant of the merge loop: \<open>r\<close> covers what was read, in order; every unread span starts
  at or after the last merged one.\<close>

definition merge_inv :: "Span list \<Rightarrow> Span list \<times> bool \<Rightarrow> Span list \<Rightarrow> bool" where
  "merge_inv read st rest \<longleftrightarrow>
    (let (r, d) = st in
     r \<noteq> [] \<and> list_all Valid r \<and> sorted_wrt before r \<and> spans_keys r = spans_keys read \<and>
     (d \<longleftrightarrow> sorted_wrt apart read) \<and> (\<forall>s \<in> set rest. Key (last r) \<le> Key s))"

lemma before_last:
  assumes "sorted_wrt before (r @ [p])" "Valid p" "Key p \<le> Key s"
  shows "spans_keys r \<inter> span_keys s = {}"
proof -
  have "k < l" if "k \<in> span_keys a" "a \<in> set r" "l \<in> span_keys s" for k a l
  proof -
    have "k < Key p" using assms that by (auto simp: sorted_wrt_append before_def dest!: Key_in_span)
    also have "Key p \<le> l" using assms(3) Key_least [OF that(3)] by simp
    finally show ?thesis .
  qed
  then show ?thesis unfolding spans_keys_def by fastforce
qed

lemma apart_snoc:
  "sorted_wrt apart (xs @ [s]) \<longleftrightarrow> sorted_wrt apart xs \<and> spans_keys xs \<inter> span_keys s = {}"
  by (auto simp: sorted_wrt_append apart_iff spans_keys_def)

lemma before_extend:
  assumes "sorted_wrt before (r @ [p])" "Valid p" "Key p \<le> Key q"
  shows "sorted_wrt before (r @ [q])"
proof -
  have "before a q" if "a \<in> set r" for a
  proof -
    have "\<forall>k \<in> span_keys a. k < Key p"
      using assms(1) that Key_in_span [OF assms(2)] by (auto simp: sorted_wrt_append before_def)
    then show ?thesis
      using assms(3) unfolding before_def by (metis Key_least order_less_le_trans order_trans)
  qed
  with assms(1) show ?thesis by (simp add: sorted_wrt_append)
qed

lemma merge_inv_snoc:
  "merge_inv read (r @ [p], d) rest \<longleftrightarrow>
    list_all Valid r \<and> Valid p \<and> sorted_wrt before (r @ [p]) \<and> spans_keys r \<union> span_keys p = spans_keys read \<and>
    (d \<longleftrightarrow> sorted_wrt apart read) \<and> (\<forall>s \<in> set rest. Key p \<le> Key s)"
  by (simp add: merge_inv_def)

lemma merge_step_inv:
  assumes "merge_inv read (r @ [p], d) (cur # rest)" "Valid cur" "\<forall>s \<in> set rest. Key cur \<le> Key s"
  shows "merge_inv (read @ [cur]) (unionStep (r @ [p], d) cur) rest"
proof -
  have inv: "list_all Valid r" "Valid p" "sorted_wrt before (r @ [p])"
    "spans_keys r \<union> span_keys p = spans_keys read" "d \<longleftrightarrow> sorted_wrt apart read" "Key p \<le> Key cur"
    "\<forall>s \<in> set rest. Key p \<le> Key s"
    using assms(1) unfolding merge_inv_snoc by auto
  obtain ps e where m: "unionOne p cur = (ps, e)" by (cases "unionOne p cur")
  have c: "merge_ok p cur (ps, e)" using unionOne_correct [OF inv(2) assms(2) inv(6)] by (simp add: m)
  then have ck: "spans_keys ps = span_keys p \<union> span_keys cur" and ce: "e \<longleftrightarrow> span_keys p \<inter> span_keys cur = {}"
    by (simp_all add: merge_ok_def apart_iff)
  have "spans_keys r \<inter> span_keys cur = {}" by (rule before_last [OF inv(3,2,6)])
  then have ap: "d \<and> e \<longleftrightarrow> sorted_wrt apart (read @ [cur])"
    unfolding apart_snoc inv(4) [symmetric] inv(5) ce by blast
  have step: "unionStep (r @ [p], d) cur = (r @ ps, d \<and> e)" by (simp add: m)
  have cov: "spans_keys r \<union> spans_keys ps = spans_keys (read @ [cur])"
    unfolding ck by (simp add: inv(4) [symmetric] Un_assoc)
  from c consider (one) q where "ps = [q]" "Valid q" "Key q = Key p" | (two) "ps = [p, cur]" "before p cur"
    by (auto simp: merge_ok_def)
  then show ?thesis
  proof cases
    case one
    then show ?thesis
      using inv cov before_extend [OF inv(3,2), of q] unfolding step one(1) merge_inv_snoc ap by simp
  next
    case two
    have "sorted_wrt before ((r @ [p]) @ [cur])"
      using inv(3) two(2) before_extend [OF inv(3,2,6)] by (auto simp: sorted_wrt_append)
    moreover have rps: "r @ ps = (r @ [p]) @ [cur]" using two by simp
    ultimately show ?thesis
      using inv(1,2) cov assms(2,3) two(1) unfolding step rps ap merge_inv_snoc by (simp add: Un_assoc)
  qed
qed

lemma merge_fold_inv:
  "merge_inv read st rest \<Longrightarrow> list_all Valid rest \<Longrightarrow> sorted (map Key rest) \<Longrightarrow>
    merge_inv (read @ rest) (foldl unionStep st rest) []"
proof (induction rest arbitrary: read st)
  case (Cons cur rest)
  from Cons.prems(1) obtain r d where st: "st = (r, d)" "r \<noteq> []" by (cases st) (simp add: merge_inv_def)
  then obtain q p where "r = q @ [p]" by (meson rev_exhaust)
  with Cons.prems st have "merge_inv (read @ [cur]) (unionStep st cur) rest"
    using merge_step_inv [of read q p d cur rest] by simp
  with Cons show ?case by fastforce
qed simp

lemma sorted_Keys: "sorted (map Key (sort_key (\<lambda>s. (Key s, EndKey s)) spans))"
proof -
  have "sorted (map (\<lambda>s. (Key s, EndKey s)) (sort_key (\<lambda>s. (Key s, EndKey s)) spans))" by simp
  then show ?thesis by (simp add: sorted_map less_eq_prod_def) (rule sorted_wrt_mono_rel, auto)
qed

lemma unionSpans_inv:
  assumes "list_all Valid spans" "spans \<noteq> []"
  shows "merge_inv (sort_key (\<lambda>s. (Key s, EndKey s)) spans) (unionSpans spans) []"
proof -
  define xs where "xs = sort_key (\<lambda>s. (Key s, EndKey s)) spans"
  have "xs \<noteq> []" using assms(2) by (metis xs_def set_empty set_sort)
  then obtain x ys where xs: "xs = x # ys" by (cases xs) auto
  have v: "list_all Valid xs" using assms(1) by (simp add: xs_def list_all_iff)
  have "sorted (map Key xs)" unfolding xs_def by (rule sorted_Keys)
  then have "merge_inv [x] ([] @ [x], True) ys" "sorted (map Key ys)"
    using v xs unfolding merge_inv_snoc by simp_all
  then have "merge_inv ([x] @ ys) (foldl unionStep ([x], True) ys) []"
    using merge_fold_inv [of "[x]" "([x], True)" ys] v xs by simp
  moreover have "unionSpans spans = foldl unionStep ([x], True) ys"
    using assms(2) xs by (simp add: unionSpans_def xs_def [symmetric])
  ultimately show ?thesis by (simp add: xs xs_def [symmetric])
qed

lemma unionSpans_correct:
  assumes "list_all Valid spans" "unionSpans spans = (r, d)"
  shows "spans_keys r = spans_keys spans \<and> list_all Valid r \<and> sorted_wrt before r \<and> (d \<longleftrightarrow> sorted_wrt apart spans)"
proof (cases "spans = []")
  case True
  then show ?thesis using assms(2) by (simp add: unionSpans_def)
next
  case False
  from unionSpans_inv [OF assms(1) False] assms(2) show ?thesis
    by (simp add: merge_inv_def sorted_wrt_sort_sym [of apart, OF apart_sym])
qed

subsection \<open>SubtractSpans computes the difference\<close>

abbreviation (input) is_range :: "Span \<Rightarrow> bool" where
  "is_range s \<equiv> Key s < EndKey s"

definition ends_before :: "Span \<Rightarrow> Span \<Rightarrow> bool" where
  "ends_before a b \<longleftrightarrow> EndKey a \<le> Key b"

lemma range_keys: "is_range s \<Longrightarrow> span_keys s = {k. Key s \<le> k \<and> k < EndKey s}"
  by (auto simp: span_keys_cases)

lemma range_keys_le: "Key s \<le> EndKey s \<Longrightarrow> EndKey s \<noteq> [] \<Longrightarrow> span_keys s = {k. Key s \<le> k \<and> k < EndKey s}"
  by (auto simp: span_keys_cases)

text \<open>What the loop has written so far ends before the next unread \<open>todo\<close> key \<open>b\<close>.\<close>

definition rem_ok :: "Span list \<Rightarrow> bytes \<Rightarrow> bool" where
  "rem_ok remaining b \<longleftrightarrow> list_all is_range remaining \<and> sorted_wrt ends_before remaining \<and>
     (\<forall>s \<in> set remaining. EndKey s \<le> b)"

lemma appendRemaining_ok:
  assumes "rem_ok remaining b" "is_range s" "b \<le> Key s" "EndKey s \<le> c"
  shows "rem_ok (appendRemaining remaining s) c"
    "spans_keys (appendRemaining remaining s) = spans_keys remaining \<union> span_keys s"
proof -
  have b: "\<forall>x \<in> set remaining. EndKey x \<le> Key s \<and> EndKey x \<le> c"
    using assms by (auto simp: rem_ok_def)
  consider (join) xs x where "remaining = xs @ [x]" "EndKey x = Key s" "appendRemaining remaining s = xs @ [x\<lparr>EndKey := EndKey s\<rparr>]"
    | (add) "appendRemaining remaining s = remaining @ [s]"
  proof (cases "remaining \<noteq> [] \<and> EndKey (last remaining) = Key s")
    case True
    then show ?thesis using join [of "butlast remaining" "last remaining"] by (simp add: appendRemaining_def)
  next
    case False
    then show ?thesis using add by (auto simp: appendRemaining_def)
  qed
  then have "rem_ok (appendRemaining remaining s) c \<and>
    spans_keys (appendRemaining remaining s) = spans_keys remaining \<union> span_keys s"
  proof cases
    case join
    have x: "is_range x" using assms(1) join by (simp add: rem_ok_def)
    then have x': "is_range (x\<lparr>EndKey := EndKey s\<rparr>)" using assms(2) join by simp
    have "span_keys (x\<lparr>EndKey := EndKey s\<rparr>) = span_keys x \<union> span_keys s"
      unfolding range_keys [OF x] range_keys [OF x'] range_keys [OF assms(2)]
      using x assms(2) join(2) by auto
    then show ?thesis using assms b x' join by (auto simp: rem_ok_def sorted_wrt_append ends_before_def)
  next
    case add
    then show ?thesis using assms b by (auto simp: rem_ok_def sorted_wrt_append ends_before_def)
  qed
  then show "rem_ok (appendRemaining remaining s) c"
    "spans_keys (appendRemaining remaining s) = spans_keys remaining \<union> span_keys s" by auto
qed

lemma rem_ok_mono: "rem_ok remaining b \<Longrightarrow> b \<le> c \<Longrightarrow> rem_ok remaining c"
  by (auto simp: rem_ok_def)

text \<open>The todo spans are non-empty ranges in order; the done spans are ranges sorted by start.\<close>

definition todo_ok :: "bytes \<Rightarrow> Span list \<Rightarrow> bool" where
  "todo_ok b ts \<longleftrightarrow> list_all is_range ts \<and> sorted_wrt ends_before ts \<and> (\<forall>s \<in> set ts. b \<le> Key s)"

lemma todo_ok_Cons:
  "todo_ok b (t # ts) \<longleftrightarrow> b \<le> Key t \<and> is_range t \<and> todo_ok (EndKey t) ts"
  by (auto simp: todo_ok_def ends_before_def)

lemma todo_keys: "todo_ok b ts \<Longrightarrow> k \<in> spans_keys ts \<Longrightarrow> b \<le> k"
  by (auto simp: todo_ok_def spans_keys_def dest!: Key_least)

lemma done_keys: "sorted (map Key (d # ds)) \<Longrightarrow> k \<in> spans_keys (d # ds) \<Longrightarrow> Key d \<le> k"
  by (auto simp: spans_keys_def dest!: Key_least)

definition sub_inv :: "bytes \<Rightarrow> Span list \<Rightarrow> Span list \<Rightarrow> Span list \<Rightarrow> bool" where
  "sub_inv b ts ds remaining \<longleftrightarrow>
    todo_ok b ts \<and> rem_ok remaining b \<and> list_all is_range ds \<and> sorted (map Key ds)"

text \<open>The keys the loop will have written when it ends.\<close>

definition sub_keys :: "Span list \<Rightarrow> Span list \<Rightarrow> Span list \<Rightarrow> bytes set" where
  "sub_keys ts ds remaining = spans_keys remaining \<union> (spans_keys ts - spans_keys ds)"

definition covered_prefix :: "Span list \<Rightarrow> Span \<Rightarrow> Span \<Rightarrow> Span list" where
  "covered_prefix remaining t d =
    (if Key d \<le> Key t then remaining else appendRemaining remaining \<lparr>Key = Key t, EndKey = Key d\<rparr>)"

lemma subtractLoop_cases:
  assumes "is_range t" "is_range d"
  shows "subtractLoop (t # ts) (d # ds) remaining =
    (if EndKey t \<le> Key d then subtractLoop ts (d # ds) (appendRemaining remaining t)
     else if EndKey d \<le> Key t then subtractLoop (t # ts) ds remaining
     else if EndKey d < EndKey t then subtractLoop (t\<lparr>Key := EndKey d\<rparr> # ts) ds (covered_prefix remaining t d)
     else if EndKey t < EndKey d then subtractLoop ts (d # ds) (covered_prefix remaining t d)
     else subtractLoop ts ds (covered_prefix remaining t d))"
  using assms by (auto simp: covered_prefix_def Let_def)

lemma covered_prefix_ok:
  assumes "rem_ok remaining b" "b \<le> Key t" "Key t \<le> c" "Key d \<le> c"
  shows "rem_ok (covered_prefix remaining t d) c"
    "k \<in> spans_keys (covered_prefix remaining t d) \<longleftrightarrow> k \<in> spans_keys remaining \<or> Key t \<le> k \<and> k < Key d"
proof -
  let ?p = "\<lparr>Key = Key t, EndKey = Key d\<rparr>"
  have p: "is_range ?p" if "\<not> Key d \<le> Key t" using that by simp
  show "rem_ok (covered_prefix remaining t d) c"
    using assms appendRemaining_ok(1) [OF assms(1) p, of c] rem_ok_mono [OF assms(1), of c]
    by (auto simp: covered_prefix_def)
  show "k \<in> spans_keys (covered_prefix remaining t d) \<longleftrightarrow> k \<in> spans_keys remaining \<or> Key t \<le> k \<and> k < Key d"
    using assms appendRemaining_ok(2) [OF assms(1) p, of c] range_keys [OF p]
    by (auto simp: covered_prefix_def)
qed

text \<open>Membership of one key, before and after a turn of the loop.\<close>

lemma diff_after:
  fixes k :: "'a :: linorder"
  assumes "D \<Longrightarrow> dS \<le> k" "tE \<le> dS"
  shows "(R \<or> tS \<le> k \<and> k < tE) \<or> T \<and> \<not> (dS \<le> k \<and> k < dE \<or> D) \<longleftrightarrow>
    R \<or> (tS \<le> k \<and> k < tE \<or> T) \<and> \<not> (dS \<le> k \<and> k < dE \<or> D)"
  using assms by fastforce

lemma diff_skip:
  fixes k :: "'a :: linorder"
  assumes "T \<Longrightarrow> tE \<le> k" "tS < tE" "dE \<le> tS"
  shows "R \<or> (tS \<le> k \<and> k < tE \<or> T) \<and> \<not> D \<longleftrightarrow>
    R \<or> (tS \<le> k \<and> k < tE \<or> T) \<and> \<not> (dS \<le> k \<and> k < dE \<or> D)"
  using assms by fastforce

lemma diff_shrink:
  fixes k :: "'a :: linorder"
  assumes "T \<Longrightarrow> tE \<le> k" "D \<Longrightarrow> dS \<le> k" "dS < dE" "dS < tE" "tS < dE" "dE < tE"
  shows "(R \<or> tS \<le> k \<and> k < dS) \<or> (dE \<le> k \<and> k < tE \<or> T) \<and> \<not> D \<longleftrightarrow>
    R \<or> (tS \<le> k \<and> k < tE \<or> T) \<and> \<not> (dS \<le> k \<and> k < dE \<or> D)"
  using assms by fastforce

lemma diff_cover:
  fixes k :: "'a :: linorder"
  assumes "D \<Longrightarrow> dS \<le> k" "dS < tE" "tE < dE"
  shows "(R \<or> tS \<le> k \<and> k < dS) \<or> T \<and> \<not> (dS \<le> k \<and> k < dE \<or> D) \<longleftrightarrow>
    R \<or> (tS \<le> k \<and> k < tE \<or> T) \<and> \<not> (dS \<le> k \<and> k < dE \<or> D)"
  using assms by fastforce

lemma diff_both:
  fixes k :: "'a :: linorder"
  assumes "T \<Longrightarrow> tE \<le> k" "D \<Longrightarrow> dS \<le> k" "dS < tE" "tE = dE"
  shows "(R \<or> tS \<le> k \<and> k < dS) \<or> T \<and> \<not> D \<longleftrightarrow>
    R \<or> (tS \<le> k \<and> k < tE \<or> T) \<and> \<not> (dS \<le> k \<and> k < dE \<or> D)"
  using assms by fastforce

lemma sub_keys_eqI:
  "(\<And>k. (k \<in> spans_keys r \<or> k \<in> spans_keys ts \<and> \<not> k \<in> spans_keys ds) \<longleftrightarrow>
     (k \<in> spans_keys r' \<or> k \<in> spans_keys ts' \<and> \<not> k \<in> spans_keys ds')) \<Longrightarrow>
    sub_keys ts ds r = sub_keys ts' ds' r'"
  by (auto simp: sub_keys_def)

lemma sub_inv_heads:
  assumes "sub_inv b (t # ts) (d # ds) remaining"
  shows "b \<le> Key t" "is_range t" "todo_ok (EndKey t) ts" "rem_ok remaining b" "is_range d"
    "list_all is_range (d # ds)" "sorted (map Key (d # ds))" "list_all is_range ds" "sorted (map Key ds)"
    "k \<in> span_keys t \<longleftrightarrow> Key t \<le> k \<and> k < EndKey t" "k \<in> span_keys d \<longleftrightarrow> Key d \<le> k \<and> k < EndKey d"
    "k \<in> spans_keys ts \<Longrightarrow> EndKey t \<le> k" "k \<in> spans_keys ds \<Longrightarrow> Key d \<le> k"
  using assms done_keys [of d ds k] todo_keys [of "EndKey t" ts k]
  by (auto simp: sub_inv_def todo_ok_Cons range_keys)

lemma sub_after:
  assumes inv: "sub_inv b (t # ts) (d # ds) remaining" and "EndKey t \<le> Key d"
  shows "sub_inv (EndKey t) ts (d # ds) (appendRemaining remaining t)"
    "sub_keys ts (d # ds) (appendRemaining remaining t) = sub_keys (t # ts) (d # ds) remaining"
proof -
  note h = sub_inv_heads [OF inv]
  note ap = appendRemaining_ok [OF h(4,2,1) order_refl]
  show "sub_inv (EndKey t) ts (d # ds) (appendRemaining remaining t)"
    unfolding sub_inv_def using h(3,6,7) ap(1) by blast
  show "sub_keys ts (d # ds) (appendRemaining remaining t) = sub_keys (t # ts) (d # ds) remaining"
    by (rule sub_keys_eqI)
      (simp only: ap spans_keys_simps Un_iff h(10,11) diff_after [OF h(13) assms(2)])
qed

lemma sub_skip:
  assumes inv: "sub_inv b (t # ts) (d # ds) remaining" and "EndKey d \<le> Key t"
  shows "sub_inv b (t # ts) ds remaining" "sub_keys (t # ts) ds remaining = sub_keys (t # ts) (d # ds) remaining"
proof -
  note h = sub_inv_heads [OF inv]
  show "sub_inv b (t # ts) ds remaining" using inv by (auto simp: sub_inv_def)
  show "sub_keys (t # ts) ds remaining = sub_keys (t # ts) (d # ds) remaining"
    by (rule sub_keys_eqI)
      (simp only: spans_keys_simps Un_iff h(10,11) diff_skip [OF h(12,2) assms(2)])
qed

lemma sub_shrink:
  assumes inv: "sub_inv b (t # ts) (d # ds) remaining"
    and o: "Key d < EndKey t" "Key t < EndKey d" "EndKey d < EndKey t"
  shows "sub_inv (EndKey d) (t\<lparr>Key := EndKey d\<rparr> # ts) ds (covered_prefix remaining t d)"
    "sub_keys (t\<lparr>Key := EndKey d\<rparr> # ts) ds (covered_prefix remaining t d) = sub_keys (t # ts) (d # ds) remaining"
proof -
  note h = sub_inv_heads [OF inv]
  have le: "Key t \<le> EndKey d" "Key d \<le> EndKey d" using o h(5) by auto
  note pre = covered_prefix_ok [OF h(4,1) le]
  have kt: "k \<in> span_keys (t\<lparr>Key := EndKey d\<rparr>) \<longleftrightarrow> EndKey d \<le> k \<and> k < EndKey t" for k
    using o by (simp add: range_keys)
  show "sub_inv (EndKey d) (t\<lparr>Key := EndKey d\<rparr> # ts) ds (covered_prefix remaining t d)"
    using h(3,8,9) o pre(1) by (simp add: sub_inv_def todo_ok_Cons)
  show "sub_keys (t\<lparr>Key := EndKey d\<rparr> # ts) ds (covered_prefix remaining t d) = sub_keys (t # ts) (d # ds) remaining"
    by (rule sub_keys_eqI)
      (simp only: spans_keys_simps Un_iff h(10,11) kt pre(2) diff_shrink [OF h(12,13,5) o])
qed

lemma sub_cover:
  assumes inv: "sub_inv b (t # ts) (d # ds) remaining"
    and o: "Key d < EndKey t" "EndKey t < EndKey d"
  shows "sub_inv (EndKey t) ts (d # ds) (covered_prefix remaining t d)"
    "sub_keys ts (d # ds) (covered_prefix remaining t d) = sub_keys (t # ts) (d # ds) remaining"
proof -
  note h = sub_inv_heads [OF inv]
  have le: "Key t \<le> EndKey t" "Key d \<le> EndKey t" using o h(2) by auto
  note pre = covered_prefix_ok [OF h(4,1) le]
  show "sub_inv (EndKey t) ts (d # ds) (covered_prefix remaining t d)"
    unfolding sub_inv_def using h(3,6,7) pre(1) by blast
  show "sub_keys ts (d # ds) (covered_prefix remaining t d) = sub_keys (t # ts) (d # ds) remaining"
    by (rule sub_keys_eqI)
      (simp only: spans_keys_simps Un_iff h(10,11) pre(2) diff_cover [OF h(13) o])
qed

lemma sub_both:
  assumes inv: "sub_inv b (t # ts) (d # ds) remaining"
    and o: "Key d < EndKey t" "EndKey t = EndKey d"
  shows "sub_inv (EndKey t) ts ds (covered_prefix remaining t d)"
    "sub_keys ts ds (covered_prefix remaining t d) = sub_keys (t # ts) (d # ds) remaining"
proof -
  note h = sub_inv_heads [OF inv]
  have le: "Key t \<le> EndKey t" "Key d \<le> EndKey t" using o h(2) by auto
  note pre = covered_prefix_ok [OF h(4,1) le]
  show "sub_inv (EndKey t) ts ds (covered_prefix remaining t d)"
    unfolding sub_inv_def using h(3,8,9) pre(1) by blast
  show "sub_keys ts ds (covered_prefix remaining t d) = sub_keys (t # ts) (d # ds) remaining"
    by (rule sub_keys_eqI)
      (simp only: spans_keys_simps Un_iff h(10,11) pre(2) diff_both [OF h(12,13) o])
qed

definition sub_ok :: "bytes set \<Rightarrow> Span list \<Rightarrow> bool" where
  "sub_ok K R \<longleftrightarrow> list_all is_range R \<and> sorted_wrt ends_before R \<and> spans_keys R = K"

lemma sub_base:
  assumes "sub_inv b ts ds remaining" "ts = [] \<or> ds = []"
  shows "sub_ok (sub_keys ts ds remaining) (subtractLoop ts ds remaining)"
  using assms
  by (cases ts) (auto simp: sub_inv_def sub_ok_def sub_keys_def rem_ok_def todo_ok_def sorted_wrt_append
      ends_before_def intro: order_trans)

lemma subtractLoop_correct:
  "sub_inv b ts ds remaining \<Longrightarrow> sub_ok (sub_keys ts ds remaining) (subtractLoop ts ds remaining)"
proof (induction "length ts + length ds" arbitrary: b ts ds remaining rule: less_induct)
  case less
  show ?case
  proof (cases "ts = [] \<or> ds = []")
    case True
    with less.prems show ?thesis by (rule sub_base)
  next
    case False
    then obtain t ts' d ds' where eq: "ts = t # ts'" "ds = d # ds'" by (cases ts; cases ds) auto
    note inv = less.prems [unfolded eq] and IH = less.hyps [unfolded eq]
    have step: "subtractLoop (t # ts') (d # ds') remaining =
        (if EndKey t \<le> Key d then subtractLoop ts' (d # ds') (appendRemaining remaining t)
         else if EndKey d \<le> Key t then subtractLoop (t # ts') ds' remaining
         else if EndKey d < EndKey t then subtractLoop (t\<lparr>Key := EndKey d\<rparr> # ts') ds' (covered_prefix remaining t d)
         else if EndKey t < EndKey d then subtractLoop ts' (d # ds') (covered_prefix remaining t d)
         else subtractLoop ts' ds' (covered_prefix remaining t d))"
      using inv by (intro subtractLoop_cases) (auto dest: sub_inv_heads)
    have "sub_ok (sub_keys (t # ts') (d # ds') remaining) (subtractLoop (t # ts') (d # ds') remaining)"
      unfolding step
      using IH [OF _ sub_after(1) [OF inv]] IH [OF _ sub_skip(1) [OF inv]] IH [OF _ sub_shrink(1) [OF inv]]
        IH [OF _ sub_cover(1) [OF inv]] IH [OF _ sub_both(1) [OF inv]]
      by (simp add: not_le not_less sub_after(2) [OF inv] sub_skip(2) [OF inv] sub_shrink(2) [OF inv]
          sub_cover(2) [OF inv] sub_both(2) [OF inv] del: subtractLoop.simps)
    then show ?thesis by (simp only: eq)
  qed
qed

lemma apart_ends_before:
  assumes "is_range a" "is_range b" "Key a \<le> Key b"
  shows "apart a b \<longleftrightarrow> ends_before a b"
proof
  assume "apart a b"
  moreover have "Key b \<in> span_keys b" using assms(2) by (simp add: range_keys)
  ultimately have "Key b \<notin> span_keys a" by (auto simp: apart_iff)
  then show "ends_before a b" using assms by (simp add: range_keys ends_before_def)
next
  assume "ends_before a b"
  then show "apart a b" using assms by (auto simp: apart_iff range_keys ends_before_def)
qed

lemma sorted_apart_ends_before:
  "sorted (map Key xs) \<Longrightarrow> list_all is_range xs \<Longrightarrow> sorted_wrt apart xs \<longleftrightarrow> sorted_wrt ends_before xs"
  by (induction xs) (auto simp: apart_ends_before list_all_iff)

lemma ends_before_sorted: "sorted_wrt ends_before xs \<Longrightarrow> list_all is_range xs \<Longrightarrow> sorted (map Key xs)"
  by (induction xs) (auto simp: ends_before_def list_all_iff intro: order_trans less_imp_le)

lemma SubtractSpans_sub_ok:
  assumes "list_all is_range todo" "list_all is_range ds" "sorted_wrt apart todo" "ds \<noteq> []"
  shows "sub_ok (spans_keys todo - spans_keys ds) (SubtractSpans todo ds)"
proof -
  let ?t = "sort_key Key todo" and ?d = "sort_key Key ds"
  have r: "list_all is_range ?t" "list_all is_range ?d" using assms by (auto simp: list_all_iff)
  have "sorted_wrt apart ?t" using assms(3) sorted_wrt_sort_sym [of apart Key todo, OF apart_sym] by simp
  then have "sorted_wrt ends_before ?t" using sorted_apart_ends_before [of ?t] r(1) by simp
  then have "sub_inv [] ?t ?d []"
    using r by (simp add: sub_inv_def todo_ok_def rem_ok_def)
  from subtractLoop_correct [OF this] show ?thesis
    using assms(4) by (simp add: SubtractSpans_def sub_keys_def)
qed

subsection \<open>MergeSpans is that merge\<close>

definition spanOf :: "RawSpan \<Rightarrow> Span" where
  "spanOf s = \<lparr>Key = RKey s, EndKey = endBytes s\<rparr>"

lemma spanOf_simps [simp]: "Key (spanOf s) = RKey s" "EndKey (spanOf s) = endBytes s"
  "spanOf (s\<lparr>REndKey := e\<rparr>) = (spanOf s)\<lparr>EndKey := endBytes \<lparr>RKey = [], REndKey = e\<rparr>\<rparr>"
  by (simp_all add: spanOf_def endBytes_def)

text \<open>An end key is nil or has a byte.\<close>

definition nil_end :: "RawSpan \<Rightarrow> bool" where
  "nil_end s \<longleftrightarrow> REndKey s \<noteq> Some []"

lemma mergeOne_union:
  assumes "nil_end prev" "nil_end cur"
  shows "map spanOf (fst (mergeOne prev cur)) = fst (unionOne (spanOf prev) (spanOf cur))"
    "snd (mergeOne prev cur) = snd (unionOne (spanOf prev) (spanOf cur))"
    "list_all nil_end (fst (mergeOne prev cur))" "fst (mergeOne prev cur) \<noteq> []"
proof -
  have e: "REndKey cur = None \<longleftrightarrow> endBytes cur = []" using assms(2) by (auto simp: nil_end_def endBytes_def split: option.splits)
  have eb: "endBytes \<lparr>RKey = [], REndKey = REndKey cur\<rparr> = endBytes cur" "endBytes \<lparr>RKey = [], REndKey = Some x\<rparr> = x" for x
    by (simp_all add: endBytes_def)
  show "map spanOf (fst (mergeOne prev cur)) = fst (unionOne (spanOf prev) (spanOf cur))"
    "snd (mergeOne prev cur) = snd (unionOne (spanOf prev) (spanOf cur))"
    unfolding mergeOne_def unionOne_def e spanOf_simps by (simp_all add: Let_def eb)
  show "list_all nil_end (fst (mergeOne prev cur))" "fst (mergeOne prev cur) \<noteq> []"
    using assms by (simp_all add: mergeOne_def Let_def) (auto simp: nil_end_def)
qed

lemma foldl_mergeStep:
  assumes "list_all nil_end r" "r \<noteq> []" "list_all nil_end xs"
  shows "map spanOf (fst (foldl mergeStep (r, d) xs)) = fst (foldl unionStep (map spanOf r, d) (map spanOf xs)) \<and>
    snd (foldl mergeStep (r, d) xs) = snd (foldl unionStep (map spanOf r, d) (map spanOf xs))"
  using assms
proof (induction xs arbitrary: r d)
  case (Cons x xs)
  have l: "nil_end (last r)" "nil_end x" using Cons.prems by (auto simp: list_all_iff)
  note m = mergeOne_union [OF l]
  obtain ps e where ps: "mergeOne (last r) x = (ps, e)" by fastforce
  have u: "unionOne (spanOf (last r)) (spanOf x) = (map spanOf ps, e)" using m(1,2) ps by (simp add: prod_eq_iff)
  have "list_all nil_end (butlast r @ ps)" using Cons.prems(1) m(3) ps by (auto simp: list_all_iff dest: in_set_butlastD)
  from Cons.IH [OF this, of "d \<and> e"] show ?case
    using Cons.prems m(4) ps u by (simp add: last_map map_butlast)
qed simp

lemma map_insort_spanOf:
  "map spanOf (insort_key (\<lambda>s. (RKey s, endBytes s)) x xs) = insort_key (\<lambda>s. (Key s, EndKey s)) (spanOf x) (map spanOf xs)"
  by (induction xs) auto

lemma map_sort_spanOf:
  "map spanOf (sort_key (\<lambda>s. (RKey s, endBytes s)) xs) = sort_key (\<lambda>s. (Key s, EndKey s)) (map spanOf xs)"
  by (induction xs) (simp_all add: map_insort_spanOf)

lemma MergeSpans_unionSpans:
  assumes "list_all nil_end xs"
  shows "map spanOf (fst (MergeSpans xs)) = fst (unionSpans (map spanOf xs))"
    "snd (MergeSpans xs) = snd (unionSpans (map spanOf xs))"
proof -
  let ?s = "sort_key (\<lambda>s. (RKey s, endBytes s)) xs"
  have "map spanOf (fst (MergeSpans xs)) = fst (unionSpans (map spanOf xs)) \<and> snd (MergeSpans xs) = snd (unionSpans (map spanOf xs))"
  proof (cases "xs = []")
    case False
    then have ne: "?s \<noteq> []" by (metis length_0_conv length_sort)
    have ok: "list_all nil_end ?s" using assms by (simp add: list_all_iff)
    then have "list_all nil_end [hd ?s]" "list_all nil_end (tl ?s)" using ne by (cases ?s; simp)+
    from foldl_mergeStep [OF this(1) _ this(2), of True] show ?thesis
      using False ne by (simp add: MergeSpans_def unionSpans_def Let_def map_sort_spanOf [symmetric] hd_map map_tl)
  qed (simp add: MergeSpans_def unionSpans_def)
  then show "map spanOf (fst (MergeSpans xs)) = fst (unionSpans (map spanOf xs))"
    "snd (MergeSpans xs) = snd (unionSpans (map spanOf xs))" by blast+
qed

text \<open>With an end key that is empty but not nil, \<open>MergeSpans\<close> takes a single key for a range: the key 2 of the
  second span is lost, and the spans are not reported as distinct, although both spans are valid.\<close>

lemma MergeSpans_empty_end:
  "MergeSpans [\<lparr>RKey = [1], REndKey = Some [2]\<rparr>, \<lparr>RKey = [2], REndKey = Some []\<rparr>] = ([\<lparr>RKey = [1], REndKey = Some [2]\<rparr>], False) \<and>
   Valid (spanOf \<lparr>RKey = [2], REndKey = Some []\<rparr>) \<and> [2] \<in> span_keys (spanOf \<lparr>RKey = [2], REndKey = Some []\<rparr>) \<and>
   [2] \<notin> span_keys (spanOf \<lparr>RKey = [1], REndKey = Some [2]\<rparr>)"
  by (simp add: MergeSpans_def mergeOne_def endBytes_def spanOf_def Let_def Valid_def span_keys_cases)

subsection \<open>Properties\<close>

text \<open>C36: \<open>MergeSpans\<close> of valid spans, points and ranges mixed, in which no end key is empty without being nil,
  covers exactly the keys of its input with valid spans in strictly increasing order, and returns true
  exactly when no two of the input spans share a key.\<close>

theorem MergeSpans_union:
  assumes "list_all (\<lambda>s. Valid (spanOf s)) spans" "list_all (\<lambda>s. REndKey s \<noteq> Some []) spans"
  shows "spans_keys (map spanOf (fst (MergeSpans spans))) = spans_keys (map spanOf spans) \<and>
    list_all (\<lambda>s. Valid (spanOf s)) (fst (MergeSpans spans)) \<and> sorted_wrt before (map spanOf (fst (MergeSpans spans))) \<and>
    (snd (MergeSpans spans) \<longleftrightarrow> sorted_wrt apart (map spanOf spans))"
proof -
  have v: "list_all Valid (map spanOf spans)" using assms(1) by (simp add: list_all_iff)
  have "list_all nil_end spans" using assms(2) by (simp add: list_all_iff nil_end_def)
  note m = MergeSpans_unionSpans [OF this]
  have "unionSpans (map spanOf spans) = (map spanOf (fst (MergeSpans spans)), snd (MergeSpans spans))" using m by (simp add: prod_eq_iff)
  from unionSpans_correct [OF v this] show ?thesis by (simp add: list_all_iff)
qed

theorem MergeSpans_union_witness:
  "MergeSpans [\<lparr>RKey = [5], REndKey = None\<rparr>, \<lparr>RKey = [1], REndKey = Some [5]\<rparr>, \<lparr>RKey = [7], REndKey = Some [9]\<rparr>] =
     ([\<lparr>RKey = [1], REndKey = Some [5, 0]\<rparr>, \<lparr>RKey = [7], REndKey = Some [9]\<rparr>], True) \<and>
   spans_keys [\<lparr>Key = [1], EndKey = [5, 0]\<rparr>, \<lparr>Key = [7], EndKey = [9]\<rparr>] =
     spans_keys [\<lparr>Key = [5], EndKey = []\<rparr>, \<lparr>Key = [1], EndKey = [5]\<rparr>, \<lparr>Key = [7], EndKey = [9]\<rparr>]"
proof -
  let ?xs = "[\<lparr>RKey = [5], REndKey = None\<rparr>, \<lparr>RKey = [1], REndKey = Some [5]\<rparr>, \<lparr>RKey = [7], REndKey = Some [9]\<rparr>]"
  have m: "MergeSpans ?xs = ([\<lparr>RKey = [1], REndKey = Some [5, 0]\<rparr>, \<lparr>RKey = [7], REndKey = Some [9]\<rparr>], True)"
    by (simp add: MergeSpans_def mergeOne_def endBytes_def Let_def KeyNext_def)
  have "list_all (\<lambda>s. Valid (spanOf s)) ?xs" "list_all (\<lambda>s. REndKey s \<noteq> Some []) ?xs"
    by (simp_all add: Valid_def endBytes_def spanOf_def)
  from MergeSpans_union [OF this] show ?thesis unfolding m by (simp add: spanOf_def endBytes_def)
qed

text \<open>\<open>SubtractSpans\<close> of a set of non-overlapping ranges and any ranges covers exactly the keys of
  the first that are not in the second, with non-empty ranges that do not overlap.\<close>

lemma SubtractSpans_difference:
  assumes "list_all (\<lambda>s. Key s < EndKey s) todo" "list_all (\<lambda>s. Key s < EndKey s) ds"
    and "sorted_wrt apart todo"
  shows "spans_keys (SubtractSpans todo ds) = spans_keys todo - spans_keys ds \<and>
    list_all (\<lambda>s. Key s < EndKey s) (SubtractSpans todo ds) \<and> sorted_wrt apart (SubtractSpans todo ds)"
proof (cases "ds = []")
  case True
  then show ?thesis using assms by (simp add: SubtractSpans_def)
next
  case False
  note r = SubtractSpans_sub_ok [OF assms False, unfolded sub_ok_def]
  then show ?thesis using sorted_apart_ends_before ends_before_sorted by blast
qed

end
