(* ===== verification/Lock_Modes.thy ===== *)
theory Lock_Modes
  imports Hlc
begin

text \<open>
  Lock strengths and modes (\<open>engine/pkg/kv/kvserver/concurrency/lock/locking.go\<close>; the types are in
  \<open>locking.pb.go\<close>) and which modes conflict.  The cluster setting
  \<open>kv.lock.exclusive_locks_block_non_locking_reads.enabled\<close> that \<open>Conflicts\<close> reads is an argument.
\<close>

type_synonym Strength = int

abbreviation (input) LockNone :: Strength where "LockNone \<equiv> 0"
abbreviation (input) LockShared :: Strength where "LockShared \<equiv> 1"
abbreviation (input) LockUpdate :: Strength where "LockUpdate \<equiv> 2"
abbreviation (input) LockExclusive :: Strength where "LockExclusive \<equiv> 3"
abbreviation (input) LockIntent :: Strength where "LockIntent \<equiv> 4"

record Mode =
  mStrength :: Strength
  mTimestamp :: Timestamp

definition ModeEmpty :: "Mode \<Rightarrow> bool" where
  "ModeEmpty m \<longleftrightarrow> mStrength m = LockNone \<and> IsEmpty (mTimestamp m)"

definition Conflicts :: "bool \<Rightarrow> Mode \<Rightarrow> Mode \<Rightarrow> bool result" where
  "Conflicts ExclusiveLocksBlockNonLockingReads m ou =
    (if ModeEmpty m \<or> ModeEmpty ou then Inl (Panic ''cannot check conflict for uninitialized locks'')
     else if mStrength m = LockNone then Inr False
     else if mStrength m = LockShared then
       Inr (mStrength ou = LockExclusive \<or> mStrength ou = LockIntent)
     else if mStrength m = LockUpdate then
       Inr (mStrength ou = LockUpdate \<or> mStrength ou = LockExclusive \<or> mStrength ou = LockIntent)
     else if mStrength m = LockExclusive then
       (if ExclusiveLocksBlockNonLockingReads
        then Inr (\<not> (mStrength ou = LockNone \<and> Less (mTimestamp ou) (mTimestamp m)))
        else Inr (mStrength ou \<noteq> LockNone))
     else if mStrength m = LockIntent then
       Inr (\<not> (mStrength ou = LockNone \<and> Less (mTimestamp ou) (mTimestamp m)))
     else Inl (Panic ''unknown strength: %s''))"

definition MakeModeNone :: "Timestamp \<Rightarrow> Mode" where
  "MakeModeNone ts = \<lparr>mStrength = LockNone, mTimestamp = ts\<rparr>"
definition MakeModeShared :: Mode where
  "MakeModeShared = \<lparr>mStrength = LockShared, mTimestamp = emptyTimestamp\<rparr>"
definition MakeModeUpdate :: Mode where
  "MakeModeUpdate = \<lparr>mStrength = LockUpdate, mTimestamp = emptyTimestamp\<rparr>"
definition MakeModeExclusive :: "Timestamp \<Rightarrow> Mode" where
  "MakeModeExclusive ts = \<lparr>mStrength = LockExclusive, mTimestamp = ts\<rparr>"
definition MakeModeIntent :: "Timestamp \<Rightarrow> Mode" where
  "MakeModeIntent ts = \<lparr>mStrength = LockIntent, mTimestamp = ts\<rparr>"

subsection \<open>The compatibility matrix\<close>

text \<open>The matrix drawn at the type \<open>Mode\<close>, upper triangle: \<open>s\<close> is the weaker of two strengths.  The
  two cells with a footnote are conflicts of a read with a lock it is not below.\<close>

definition matrix :: "bool \<Rightarrow> Mode \<Rightarrow> Mode \<Rightarrow> bool" where
  "matrix block a b \<longleftrightarrow>
    (let weak = (if mStrength a \<le> mStrength b then a else b);
         strong = (if mStrength a \<le> mStrength b then b else a)
     in if mStrength weak = LockNone then
          (mStrength strong = LockIntent \<or> mStrength strong = LockExclusive \<and> block) \<and>
          \<not> Less (mTimestamp weak) (mTimestamp strong)
        else mStrength strong \<ge> LockExclusive \<or> mStrength weak = LockUpdate \<and> mStrength strong = LockUpdate)"

definition wf_mode :: "Mode \<Rightarrow> bool" where
  "wf_mode m \<longleftrightarrow> \<not> ModeEmpty m \<and> mStrength m \<in> {LockNone, LockShared, LockUpdate, LockExclusive, LockIntent}"

text \<open>On initialised modes \<open>Conflicts\<close> returns, and its answer is the documented compatibility
  matrix in every cell but the row of a non-locking read: a read asked whether it conflicts with a
  lock always answers no, while the lock asked about the read answers by their timestamps.\<close>

lemma Conflicts_matrix:
  assumes "wf_mode a" "wf_mode b"
  shows "Conflicts block a b = Inr (mStrength a \<noteq> LockNone \<and> matrix block a b) \<and>
    (mStrength a \<noteq> LockNone \<longrightarrow> mStrength b \<noteq> LockNone \<longrightarrow> Conflicts block a b = Conflicts block b a)"
  using assms by (auto simp: wf_mode_def Conflicts_def matrix_def Let_def)

end
