(* ===== verification/Mvcc_Key.thy ===== *)
theory Mvcc_Key
  imports Keys_Spans Hlc
begin

text \<open>
  Versioned keys of the storage engine: \<open>MVCCKey\<close> and its encoding (\<open>engine/pkg/storage/mvcc_key.go\<close>),
  its decoder (\<open>engine/pkg/storage/enginepb/decode.go\<close>) and the comparer the store sorts encoded keys
  with (\<open>EngineKeyCompare\<close> and \<open>EngineKeyEqual\<close> of \<open>engine/pkg/storage/pebble.go\<close>).

  The encoders write into a buffer of the right size, which may be reused and hold old bytes; a
  buffer argument stands for its whole capacity.
\<close>

subsection \<open>Versioned keys\<close>

record MVCCKey =
  MKey :: bytes
  MTimestamp :: Timestamp

definition MakeMVCCMetadataKey :: "bytes \<Rightarrow> MVCCKey" where
  "MakeMVCCMetadataKey key = \<lparr>MKey = key, MTimestamp = emptyTimestamp\<rparr>"

definition IsValue :: "MVCCKey \<Rightarrow> bool" where
  "IsValue k \<longleftrightarrow> \<not> IsEmpty (MTimestamp k)"

definition MVCCKeyNext :: "MVCCKey \<Rightarrow> MVCCKey result" where
  "MVCCKeyNext k =
     rbind (Prev (MTimestamp k)) (\<lambda>ts.
       if IsEmpty ts then Inr \<lparr>MKey = KeyNext (MKey k), MTimestamp = emptyTimestamp\<rparr>
       else Inr \<lparr>MKey = MKey k, MTimestamp = ts\<rparr>)"

definition MVCCKeyCompare :: "MVCCKey \<Rightarrow> MVCCKey \<Rightarrow> int" where
  "MVCCKeyCompare k u =
    (let c = bytes_Compare (MKey k) (MKey u) in
     if c \<noteq> 0 then c
     else if IsEmpty (MTimestamp k) \<and> \<not> IsEmpty (MTimestamp u) then - 1
     else if \<not> IsEmpty (MTimestamp k) \<and> IsEmpty (MTimestamp u) then 1
     else - Compare (MTimestamp k) (MTimestamp u))"

definition MVCCKeyLess :: "MVCCKey \<Rightarrow> MVCCKey \<Rightarrow> bool" where
  "MVCCKeyLess k l =
    (let c = bytes_Compare (MKey k) (MKey l) in
     if c \<noteq> 0 then c < 0
     else if \<not> IsValue k then IsValue l
     else if \<not> IsValue l then False
     else Less (MTimestamp l) (MTimestamp k))"

definition MVCCKeyEqual :: "MVCCKey \<Rightarrow> MVCCKey \<Rightarrow> bool" where
  "MVCCKeyEqual k l \<longleftrightarrow> bytes_Compare (MKey k) (MKey l) = 0 \<and> EqOrdering (MTimestamp k) (MTimestamp l)"

definition EncodedSize :: "MVCCKey \<Rightarrow> nat" where
  "EncodedSize k = length (MKey k) + 1 + (if IsValue k then 12 else 0)"

subsection \<open>The encoding\<close>

abbreviation (input) mvccEncodedTimeSentinelLen :: nat where "mvccEncodedTimeSentinelLen \<equiv> 1"
abbreviation (input) mvccEncodedTimeWallLen :: nat where "mvccEncodedTimeWallLen \<equiv> 8"
abbreviation (input) mvccEncodedTimeLogicalLen :: nat where "mvccEncodedTimeLogicalLen \<equiv> 4"
abbreviation (input) mvccEncodedTimeSyntheticLen :: nat where "mvccEncodedTimeSyntheticLen \<equiv> 1"
abbreviation (input) mvccEncodedTimeLengthLen :: nat where "mvccEncodedTimeLengthLen \<equiv> 1"

text \<open>Overwriting bytes of a buffer from a position on: \<open>copy\<close> and \<open>PutUint64\<close> into \<open>buf[pos:]\<close>.\<close>

definition put_at :: "bytes \<Rightarrow> nat \<Rightarrow> bytes \<Rightarrow> bytes" where
  "put_at buf pos bs = take pos buf @ bs @ drop (pos + length bs) buf"

definition encodedMVCCKeyLength :: "MVCCKey \<Rightarrow> nat" where
  "encodedMVCCKeyLength key =
    (let keyLen = length (MKey key) + mvccEncodedTimeSentinelLen; ts = MTimestamp key in
     if \<not> IsEmpty ts then
       keyLen + mvccEncodedTimeWallLen + mvccEncodedTimeLengthLen +
       (if Logical ts \<noteq> 0 \<or> Synthetic ts
        then mvccEncodedTimeLogicalLen + (if Synthetic ts then mvccEncodedTimeSyntheticLen else 0)
        else 0)
     else keyLen)"

definition EncodedMVCCKeyPrefixLength :: "bytes \<Rightarrow> nat" where
  "EncodedMVCCKeyPrefixLength key = length key + mvccEncodedTimeSentinelLen"

definition encodedMVCCTimestampLength :: "Timestamp \<Rightarrow> nat" where
  "encodedMVCCTimestampLength ts =
    (let tsLen = encodedMVCCKeyLength \<lparr>MKey = [], MTimestamp = ts\<rparr> - mvccEncodedTimeSentinelLen in
     if tsLen > 0 then tsLen - mvccEncodedTimeLengthLen else tsLen)"

definition EncodedMVCCTimestampSuffixLength :: "Timestamp \<Rightarrow> nat" where
  "EncodedMVCCTimestampSuffixLength ts =
     encodedMVCCKeyLength \<lparr>MKey = [], MTimestamp = ts\<rparr> - mvccEncodedTimeSentinelLen"

definition encodeMVCCTimestampToBuf :: "bytes \<Rightarrow> Timestamp \<Rightarrow> bytes" where
  "encodeMVCCTimestampToBuf buf ts =
    (let buf1 = put_at buf 0 (be_bytes 8 (WallTime ts)) in
     if Logical ts \<noteq> 0 \<or> Synthetic ts then
       let buf2 = put_at buf1 mvccEncodedTimeWallLen (be_bytes 4 (Logical ts)) in
       if Synthetic ts then buf2[mvccEncodedTimeWallLen + mvccEncodedTimeLogicalLen := 1] else buf2
     else buf1)"

definition encodeMVCCKeyToBuf :: "bytes \<Rightarrow> MVCCKey \<Rightarrow> nat \<Rightarrow> bytes" where
  "encodeMVCCKeyToBuf buf key keyLen =
    (let buf1 = put_at buf 0 (MKey key);
         pos = length (MKey key);
         buf2 = buf1[pos := 0];
         pos1 = pos + mvccEncodedTimeSentinelLen;
         tsLen = int keyLen - int pos1 - int mvccEncodedTimeLengthLen
     in if tsLen > 0 then
          let buf3 = take pos1 buf2 @ encodeMVCCTimestampToBuf (drop pos1 buf2) (MTimestamp key)
          in buf3[pos1 + nat tsLen := word_of_int (tsLen + int mvccEncodedTimeLengthLen)]
        else buf2)"

definition EncodeMVCCKey :: "MVCCKey \<Rightarrow> bytes" where
  "EncodeMVCCKey key =
    (let keyLen = encodedMVCCKeyLength key in encodeMVCCKeyToBuf (replicate keyLen 0) key keyLen)"

definition EncodeMVCCKeyToBuf :: "bytes \<Rightarrow> MVCCKey \<Rightarrow> bytes" where
  "EncodeMVCCKeyToBuf buf key =
    (let keyLen = encodedMVCCKeyLength key;
         buf1 = (if length buf < keyLen then replicate keyLen 0 else take keyLen buf)
     in encodeMVCCKeyToBuf buf1 key keyLen)"

definition EncodeMVCCKeyPrefix :: "bytes \<Rightarrow> bytes" where
  "EncodeMVCCKeyPrefix key = EncodeMVCCKey \<lparr>MKey = key, MTimestamp = emptyTimestamp\<rparr>"

definition encodeMVCCTimestamp :: "Timestamp \<Rightarrow> bytes" where
  "encodeMVCCTimestamp ts =
    (let tsLen = encodedMVCCTimestampLength ts in
     if tsLen = 0 then [] else encodeMVCCTimestampToBuf (replicate tsLen 0) ts)"

definition encodeMVCCTimestampSuffixToBuf :: "bytes \<Rightarrow> Timestamp \<Rightarrow> bytes" where
  "encodeMVCCTimestampSuffixToBuf buf ts =
    (let tsLen = encodedMVCCTimestampLength ts in
     if tsLen = 0 then []
     else
       let suffixLen = tsLen + mvccEncodedTimeLengthLen;
           buf1 = (if length buf < suffixLen then replicate suffixLen 0 else take suffixLen buf)
       in (encodeMVCCTimestampToBuf buf1 ts)[tsLen := word_of_nat suffixLen])"

definition EncodeMVCCTimestampSuffix :: "Timestamp \<Rightarrow> bytes" where
  "EncodeMVCCTimestampSuffix ts = encodeMVCCTimestampSuffixToBuf [] ts"

definition EncodeMVCCTimestampToBuf :: "bytes \<Rightarrow> Timestamp \<Rightarrow> bytes" where
  "EncodeMVCCTimestampToBuf buf ts =
    (let tsLen = encodedMVCCTimestampLength ts in
     if tsLen = 0 then []
     else
       let buf1 = (if length buf < tsLen then replicate tsLen 0 else take tsLen buf)
       in encodeMVCCTimestampToBuf buf1 ts)"

subsection \<open>The decoder\<close>

definition SplitMVCCKey :: "bytes \<Rightarrow> (bytes \<times> bytes) option" where
  "SplitMVCCKey mvccKey =
    (if length mvccKey = 0 then None
     else
       let tsLen = unat (mvccKey ! (length mvccKey - 1));
           keyPartEnd = int (length mvccKey) - 1 - int tsLen
       in if keyPartEnd < 0 then None
          else Some (take (nat keyPartEnd) mvccKey,
                     if tsLen > 0 then drop (nat keyPartEnd + 1) (take (length mvccKey - 1) mvccKey) else []))"

definition decodeMVCCTimestamp :: "bytes \<Rightarrow> Timestamp result" where
  "decodeMVCCTimestamp e =
    (if length e = 0 then Inr emptyTimestamp
     else if length e = 8 then Inr \<lparr>WallTime = be_word (take 8 e), Logical = 0, Synthetic = False\<rparr>
     else if length e = 12 then
       Inr \<lparr>WallTime = be_word (take 8 e), Logical = be_word (drop 8 e), Synthetic = False\<rparr>
     else if length e = 13 then
       Inr \<lparr>WallTime = be_word (take 8 e), Logical = be_word (drop 8 (take 12 e)), Synthetic = (e ! 12 \<noteq> 0)\<rparr>
     else Inl (Errorf ''bad timestamp %x''))"

definition DecodeKey :: "bytes \<Rightarrow> (bytes \<times> Timestamp) result" where
  "DecodeKey encodedKey =
    (case SplitMVCCKey encodedKey of None \<Rightarrow> Inl (Errorf ''invalid encoded mvcc key: %x'')
     | Some (key, e) \<Rightarrow>
       if length e = 0 then Inr (key, emptyTimestamp)
       else if length e = 8 then
         Inr (key, \<lparr>WallTime = be_word (take 8 e), Logical = 0, Synthetic = False\<rparr>)
       else if length e = 12 then
         Inr (key, \<lparr>WallTime = be_word (take 8 e), Logical = be_word (drop 8 e), Synthetic = False\<rparr>)
       else if length e = 13 then
         Inr (key, \<lparr>WallTime = be_word (take 8 e), Logical = be_word (drop 8 (take 12 e)), Synthetic = (e ! 12 \<noteq> 0)\<rparr>)
       else Inl (Errorf ''invalid encoded mvcc key: %x bad timestamp %x''))"

definition DecodeMVCCKey :: "bytes \<Rightarrow> MVCCKey result" where
  "DecodeMVCCKey encodedKey = rbind (DecodeKey encodedKey) (\<lambda>(k, ts). Inr \<lparr>MKey = k, MTimestamp = ts\<rparr>)"

definition DecodeMVCCTimestampSuffix :: "bytes \<Rightarrow> Timestamp result" where
  "DecodeMVCCTimestampSuffix e =
    (if length e = 0 then Inr emptyTimestamp
     else
       let suffixLen = unat (e ! (length e - 1)) in
       if suffixLen \<noteq> length e then Inl (Errorf ''bad timestamp: found length suffix %d, actual length %d'')
       else decodeMVCCTimestamp (take (length e - 1) e))"

subsection \<open>The comparer of the store\<close>

definition normalizeEngineKeyVersionForCompare :: "bytes \<Rightarrow> bytes" where
  "normalizeEngineKeyVersionForCompare a =
    (let withWall = mvccEncodedTimeSentinelLen + mvccEncodedTimeWallLen;
         withLogical = withWall + mvccEncodedTimeLogicalLen;
         withSynthetic = withLogical + mvccEncodedTimeSyntheticLen;
         a1 = (if length a = withSynthetic then take withLogical a else a)
     in if length a1 = withLogical \<and> drop withWall a1 = replicate mvccEncodedTimeLogicalLen 0
        then take withWall a1 else a1)"

definition EngineKeyCompare :: "bytes \<Rightarrow> bytes \<Rightarrow> int" where
  "EngineKeyCompare a b =
    (let aEnd = int (length a) - 1; bEnd = int (length b) - 1 in
     if aEnd < 0 \<or> bEnd < 0 then bytes_Compare a b
     else
       let aSep0 = aEnd - int (unat (a ! nat aEnd));
           bSep0 = bEnd - int (unat (b ! nat bEnd));
           (aSep, bSep) = (if aSep0 = - 1 \<and> bSep0 = - 1 then (0, 0) else (aSep0, bSep0))
       in if aSep < 0 \<or> bSep < 0 then bytes_Compare a b
          else
            let c = bytes_Compare (take (nat aSep) a) (take (nat bSep) b) in
            if c \<noteq> 0 then c
            else
              let aVer = drop (nat aSep) (take (nat aEnd) a);
                  bVer = drop (nat bSep) (take (nat bEnd) b)
              in if length aVer = 0 then (if length bVer = 0 then 0 else - 1)
                 else if length bVer = 0 then 1
                 else bytes_Compare (normalizeEngineKeyVersionForCompare bVer)
                        (normalizeEngineKeyVersionForCompare aVer))"

abbreviation (input) engineKeyVersionLockTableLen :: nat where "engineKeyVersionLockTableLen \<equiv> 17"

definition EngineKeyEqual :: "bytes \<Rightarrow> bytes \<Rightarrow> bool" where
  "EngineKeyEqual a b =
    (let aEnd = int (length a) - 1; bEnd = int (length b) - 1 in
     if aEnd < 0 \<or> bEnd < 0 then a = b
     else
       let aVerLen = unat (a ! nat aEnd); bVerLen = unat (b ! nat bEnd);
           withWall = mvccEncodedTimeSentinelLen + mvccEncodedTimeWallLen;
           withLockTableLen = mvccEncodedTimeSentinelLen + engineKeyVersionLockTableLen
       in if aVerLen \<le> withWall \<and> bVerLen \<le> withWall \<or> aVerLen = withLockTableLen \<and> bVerLen = withLockTableLen
          then a = b
          else
            let aSep0 = aEnd - int aVerLen; bSep0 = bEnd - int bVerLen;
                (aSep, bSep) = (if aSep0 = - 1 \<and> bSep0 = - 1 then (0, 0) else (aSep0, bSep0))
            in if aSep < 0 \<or> bSep < 0 then a = b
               else if take (nat aSep) a \<noteq> take (nat bSep) b then False
               else normalizeEngineKeyVersionForCompare (drop (nat aSep) (take (nat aEnd) a)) =
                    normalizeEngineKeyVersionForCompare (drop (nat bSep) (take (nat bEnd) b)))"

subsection \<open>The encoding in closed form\<close>

text \<open>Whatever a buffer held before, an encoder of the right length leaves only the encoding.\<close>

definition ts_bytes :: "Timestamp \<Rightarrow> bytes" where
  "ts_bytes ts = be_bytes 8 (WallTime ts) @
    (if Logical ts \<noteq> 0 \<or> Synthetic ts then be_bytes 4 (Logical ts) @ (if Synthetic ts then [1] else []) else [])"

definition ts_suffix :: "Timestamp \<Rightarrow> bytes" where
  "ts_suffix ts = (if IsEmpty ts then [] else ts_bytes ts @ [word_of_nat (length (ts_bytes ts) + 1)])"

lemma length_ts_bytes:
  "length (ts_bytes ts) = 8 + (if Logical ts \<noteq> 0 \<or> Synthetic ts then 4 + (if Synthetic ts then 1 else 0) else 0)"
  by (simp add: ts_bytes_def)

lemma encodedMVCCKeyLength_eq: "encodedMVCCKeyLength k = length (MKey k) + 1 + length (ts_suffix (MTimestamp k))"
  by (simp add: encodedMVCCKeyLength_def ts_suffix_def length_ts_bytes Let_def)

lemma encodedMVCCTimestampLength_eq:
  "encodedMVCCTimestampLength ts = (if IsEmpty ts then 0 else length (ts_bytes ts))"
  by (simp add: encodedMVCCTimestampLength_def encodedMVCCKeyLength_eq ts_suffix_def Let_def)

lemma put_at_0: "put_at buf 0 bs = bs @ drop (length bs) buf"
  by (simp add: put_at_def)

lemma upd_append_skip: "length p \<le> i \<Longrightarrow> (p @ xs)[i := x] = p @ xs[i - length p := x]"
  by (simp add: list_update_append)

lemma encodeMVCCTimestampToBuf_eq:
  assumes "length (ts_bytes ts) \<le> length buf"
  shows "encodeMVCCTimestampToBuf buf ts = ts_bytes ts @ drop (length (ts_bytes ts)) buf"
proof (cases "Logical ts \<noteq> 0 \<or> Synthetic ts")
  case True
  let ?w = "be_bytes 8 (WallTime ts)" and ?l = "be_bytes 4 (Logical ts)"
  have two: "put_at (put_at buf 0 ?w) 8 ?l = (?w @ ?l) @ drop 12 buf"
    by (simp add: put_at_def)
  show ?thesis
  proof (cases "Synthetic ts")
    case syn: True
    then have "13 \<le> length buf" using assms by (simp add: length_ts_bytes)
    then obtain x xs where d: "drop 12 buf = x # xs" by (cases "drop 12 buf") auto
    have "drop 13 buf = drop 1 (drop 12 buf)" by simp
    then have xs: "drop 13 buf = xs" by (simp only: d) simp
    have "((?w @ ?l) @ drop 12 buf)[12 := 1] = (?w @ ?l) @ 1 # xs"
      by (subst upd_append_skip) (simp_all add: d)
    then show ?thesis using syn two xs by (simp add: encodeMVCCTimestampToBuf_def ts_bytes_def)
  next
    case False
    then show ?thesis using True two by (simp add: encodeMVCCTimestampToBuf_def ts_bytes_def)
  qed
next
  case False
  then show ?thesis by (simp add: encodeMVCCTimestampToBuf_def ts_bytes_def put_at_0)
qed

lemma encodeMVCCKeyToBuf_eq:
  assumes "length buf = encodedMVCCKeyLength k"
  shows "encodeMVCCKeyToBuf buf k (encodedMVCCKeyLength k) = MKey k @ 0 # ts_suffix (MTimestamp k)"
proof -
  let ?n = "length (MKey k)" and ?ts = "MTimestamp k"
  have len: "length buf = ?n + 1 + length (ts_suffix ?ts)" using assms by (simp add: encodedMVCCKeyLength_eq)
  then obtain x rest where d: "drop ?n buf = x # rest" "length rest = length (ts_suffix ?ts)"
    by (cases "drop ?n buf") (auto dest: arg_cong [of _ _ length])
  have key: "(put_at buf 0 (MKey k))[?n := 0] = (MKey k @ [0]) @ rest"
    by (simp add: put_at_0 upd_append_skip d)
  show ?thesis
  proof (cases "IsEmpty ?ts")
    case True
    then show ?thesis using key d(2) by (simp add: encodeMVCCKeyToBuf_def encodedMVCCKeyLength_eq ts_suffix_def Let_def)
  next
    case False
    let ?t = "ts_bytes ?ts"
    have r: "length rest = length ?t + 1" using d(2) False by (simp add: ts_suffix_def)
    then obtain y where y: "drop (length ?t) rest = [y]"
      by (cases "drop (length ?t) rest") (auto dest: arg_cong [of _ _ length])
    have tb: "encodeMVCCTimestampToBuf rest ?ts = ?t @ [y]"
      using encodeMVCCTimestampToBuf_eq [of ?ts rest] r y by simp
    have pos: "0 < length ?t" by (simp add: length_ts_bytes)
    have "((MKey k @ [0]) @ ?t @ [y])[?n + 1 + length ?t := z] = (MKey k @ [0]) @ ?t @ [z]" for z
      by (simp add: upd_append_skip)
    then show ?thesis
      unfolding encodeMVCCKeyToBuf_def Let_def key
      using tb pos False by (simp add: encodedMVCCKeyLength_eq ts_suffix_def add.commute)
  qed
qed

lemma EncodeMVCCKey_eq: "EncodeMVCCKey k = MKey k @ 0 # ts_suffix (MTimestamp k)"
  by (simp add: EncodeMVCCKey_def Let_def encodeMVCCKeyToBuf_eq)

lemma EncodeMVCCKeyToBuf_eq: "EncodeMVCCKeyToBuf buf k = EncodeMVCCKey k"
  by (simp add: EncodeMVCCKeyToBuf_def EncodeMVCCKey_eq Let_def encodeMVCCKeyToBuf_eq)

lemma encodeMVCCTimestampSuffixToBuf_eq: "encodeMVCCTimestampSuffixToBuf buf ts = ts_suffix ts"
proof (cases "IsEmpty ts")
  case True
  then show ?thesis by (simp add: encodeMVCCTimestampSuffixToBuf_def encodedMVCCTimestampLength_eq ts_suffix_def)
next
  case False
  let ?n = "length (ts_bytes ts)"
  define b where "b = (if length buf < ?n + 1 then replicate (?n + 1) 0 else take (?n + 1) buf)"
  have "length b = ?n + 1" by (simp add: b_def)
  then obtain y where "drop ?n b = [y]" by (cases "drop ?n b") (auto dest: arg_cong [of _ _ length])
  then have "encodeMVCCTimestampToBuf b ts = ts_bytes ts @ [y]"
    using encodeMVCCTimestampToBuf_eq [of ts b] \<open>length b = ?n + 1\<close> by simp
  moreover have "0 < ?n" by (simp add: length_ts_bytes)
  then have "encodeMVCCTimestampSuffixToBuf buf ts = (encodeMVCCTimestampToBuf b ts)[?n := word_of_nat (?n + 1)]"
    using False by (simp add: encodeMVCCTimestampSuffixToBuf_def encodedMVCCTimestampLength_eq Let_def b_def)
  ultimately show ?thesis using False by (simp add: ts_suffix_def)
qed

subsection \<open>Decoding\<close>

lemma length_ts_bytes_cases: "length (ts_bytes ts) = 8 \<or> length (ts_bytes ts) = 12 \<or> length (ts_bytes ts) = 13"
  by (simp add: length_ts_bytes)

lemma ts_bytes_last: "unat (word_of_nat (length (ts_bytes ts) + 1) :: byte) = length (ts_bytes ts) + 1"
  using length_ts_bytes_cases [of ts] by (elim disjE) simp_all

lemma decodeMVCCTimestamp_bytes: "decodeMVCCTimestamp (ts_bytes ts) = Inr ts"
proof (cases ts)
  case (fields w l s)
  have "ts_bytes ts \<noteq> []" using length_ts_bytes_cases [of ts] by auto
  then show ?thesis
    using fields
    by (cases s; cases "l = 0")
      (simp_all add: decodeMVCCTimestamp_def ts_bytes_def be_full_width nth_append)
qed

text \<open>How the store finds the key and the version in an encoded key: the last byte is the length of
  what follows the key.\<close>

definition version :: "Timestamp \<Rightarrow> bytes" where
  "version ts = (if IsEmpty ts then [] else 0 # ts_bytes ts)"

lemma encoded_parts:
  fixes k :: MVCCKey
  defines "e \<equiv> EncodeMVCCKey k"
  shows "0 < length e" "unat (e ! (length e - 1)) = length (version (MTimestamp k))"
    "length e - 1 = length (MKey k) + length (version (MTimestamp k))"
    "take (length (MKey k)) e = MKey k"
    "drop (length (MKey k)) (take (length e - 1) e) = version (MTimestamp k)"
proof -
  let ?t = "ts_bytes (MTimestamp k)"
  have "e = (if IsEmpty (MTimestamp k) then MKey k @ [0] else (MKey k @ 0 # ?t) @ [word_of_nat (length ?t + 1)])"
    by (simp add: e_def EncodeMVCCKey_eq ts_suffix_def)
  then have e: "e = (MKey k @ version (MTimestamp k)) @ [if IsEmpty (MTimestamp k) then 0 else word_of_nat (length ?t + 1)]"
    by (simp add: version_def)
  show "0 < length e" "length e - 1 = length (MKey k) + length (version (MTimestamp k))"
    "take (length (MKey k)) e = MKey k" "drop (length (MKey k)) (take (length e - 1) e) = version (MTimestamp k)"
    by (simp_all add: e)
  have "e ! (length e - 1) = (if IsEmpty (MTimestamp k) then 0 else word_of_nat (length ?t + 1))"
    by (simp only: e nth_append length_append list.size) simp
  then show "unat (e ! (length e - 1)) = length (version (MTimestamp k))"
    by (simp only: ts_bytes_last version_def split: if_split) simp
qed

lemma SplitMVCCKey_enc:
  "SplitMVCCKey (EncodeMVCCKey k) = Some (MKey k, drop 1 (version (MTimestamp k)))"
proof -
  let ?e = "EncodeMVCCKey k" and ?v = "version (MTimestamp k)"
  note p = encoded_parts [of k]
  have split: "drop (Suc (length (MKey k))) (take (length ?e - 1) ?e) = drop 1 ?v"
    using p(5) by (metis drop_drop plus_1_eq_Suc)
  have "int (length ?e) - 1 - int (length ?v) = int (length (MKey k))" using p(1,3) by linarith
  then show ?thesis
    using p(1,2,4) split by (auto simp: SplitMVCCKey_def Let_def)
qed

lemma DecodeKey_split:
  "DecodeKey e = (case SplitMVCCKey e of None \<Rightarrow> Inl (Errorf ''invalid encoded mvcc key: %x'')
    | Some (key, s) \<Rightarrow> (case decodeMVCCTimestamp s of Inl _ \<Rightarrow> Inl (Errorf ''invalid encoded mvcc key: %x bad timestamp %x'')
        | Inr ts \<Rightarrow> Inr (key, ts)))"
  by (auto simp: DecodeKey_def decodeMVCCTimestamp_def split: option.split prod.split)

lemma version_decode: "decodeMVCCTimestamp (drop 1 (version ts)) = Inr (if IsEmpty ts then emptyTimestamp else ts)"
  by (simp add: version_def decodeMVCCTimestamp_bytes) (simp add: decodeMVCCTimestamp_def)

lemma IsEmpty_eq: "IsEmpty ts \<longleftrightarrow> ts = emptyTimestamp"
  by (cases ts) (simp add: IsEmpty_def emptyTimestamp_def)

lemma DecodeMVCCKey_enc: "DecodeMVCCKey (EncodeMVCCKey k) = Inr k"
proof -
  have "(if IsEmpty (MTimestamp k) then emptyTimestamp else MTimestamp k) = MTimestamp k" by (simp add: IsEmpty_eq)
  then have "DecodeKey (EncodeMVCCKey k) = Inr (MKey k, MTimestamp k)"
    by (simp only: DecodeKey_split SplitMVCCKey_enc version_decode option.case prod.case sum.case)
  then show ?thesis by (simp add: DecodeMVCCKey_def)
qed

lemma DecodeMVCCTimestampSuffix_enc: "DecodeMVCCTimestampSuffix (ts_suffix ts) = Inr ts"
proof (cases "IsEmpty ts")
  case True
  then show ?thesis by (simp add: DecodeMVCCTimestampSuffix_def ts_suffix_def IsEmpty_eq)
next
  case False
  let ?t = "ts_bytes ts"
  have "(?t @ [word_of_nat (length ?t + 1)]) ! length ?t = (word_of_nat (length ?t + 1) :: byte)" by simp
  then show ?thesis
    using False ts_bytes_last [of ts]
    by (simp only: DecodeMVCCTimestampSuffix_def ts_suffix_def Let_def) (simp add: decodeMVCCTimestamp_bytes)
qed

subsection \<open>Order\<close>

definition nonneg_ts :: "Timestamp \<Rightarrow> bool" where
  "nonneg_ts ts \<longleftrightarrow> 0 \<le> sint (WallTime ts) \<and> 0 \<le> sint (Logical ts)"

text \<open>The bytes two versions are compared by.\<close>

definition order_bytes :: "Timestamp \<Rightarrow> bytes" where
  "order_bytes ts = be_bytes 8 (WallTime ts) @ (if Logical ts = 0 then [] else be_bytes 4 (Logical ts))"

lemma be_bytes_zero_iff: "be_bytes 4 (l :: int32) = replicate 4 0 \<longleftrightarrow> l = 0"
proof
  assume "be_bytes 4 l = replicate 4 0"
  also have "replicate 4 0 = be_bytes 4 (0 :: int32)" by (simp add: be_bytes_unfold eval_nat_numeral)
  finally show "l = 0" using be_full_width(3) by metis
qed (simp add: be_bytes_unfold eval_nat_numeral)

lemma normalize_version:
  "normalizeEngineKeyVersionForCompare (0 # ts_bytes ts) = 0 # order_bytes ts"
proof -
  have "take 13 (0 # be_bytes 8 w @ be_bytes 4 l @ [1]) = 0 # be_bytes 8 w @ be_bytes 4 l"
    "drop 9 (0 # be_bytes 8 w @ be_bytes 4 l) = be_bytes 4 l"
    "take 9 (0 # be_bytes 8 w @ be_bytes 4 l) = 0 # be_bytes 8 w" for w :: int64 and l :: int32
    by (simp_all add: take_Cons' drop_Cons')
  then show ?thesis
    by (cases "Synthetic ts"; cases "Logical ts = 0")
      (simp_all add: normalizeEngineKeyVersionForCompare_def ts_bytes_def order_bytes_def be_bytes_zero_iff Let_def)
qed

lemma order_bytes_less:
  assumes "nonneg_ts t" "nonneg_ts s"
  shows "order_bytes t < order_bytes s \<longleftrightarrow> Less t s"
proof -
  have w: "WallTime t < WallTime s \<longleftrightarrow> sint (WallTime t) < sint (WallTime s)"
    and l: "Logical t < Logical s \<longleftrightarrow> sint (Logical t) < sint (Logical s)"
    using assms unat_sint_nonneg [of "WallTime t"] unat_sint_nonneg [of "WallTime s"]
      unat_sint_nonneg [of "Logical t"] unat_sint_nonneg [of "Logical s"]
    by (simp_all add: nonneg_ts_def word_less_def)
  have zero: "0 < sint (Logical s)" if "Logical s \<noteq> 0"
    using that assms(2) by (metis nonneg_ts_def order_le_less sint_eq_iff signed_0)
  have "be_bytes 4 (Logical t) < be_bytes 4 (Logical s) \<longleftrightarrow> Logical t < Logical s"
    using uint32_asc.less_iff [where v = "Logical t" and w = "Logical s"] by (simp add: append_buf)
  moreover have "be_bytes 4 (Logical s) \<noteq> []" by (simp add: be_bytes_unfold)
  ultimately have logical: "(if Logical t = 0 then [] else be_bytes 4 (Logical t)) < (if Logical s = 0 then [] else be_bytes 4 (Logical s))
      \<longleftrightarrow> sint (Logical t) < sint (Logical s)"
    using l zero assms by (auto simp: nonneg_ts_def Nil_less_Cons neq_Nil_conv)
  show ?thesis
    using uint64_asc.less_append_iff [where v = "WallTime t" and w = "WallTime s"] w logical
    by (simp add: append_buf order_bytes_def Less_def)
qed

lemma be_bytes_inj:
  "be_bytes 4 l = be_bytes 4 l' \<longleftrightarrow> l = (l' :: int32)" "be_bytes 8 w = be_bytes 8 w' \<longleftrightarrow> w = (w' :: int64)"
  by (metis be_full_width(3)) (metis be_full_width(5))

lemma be_bytes_4_nonempty: "be_bytes 4 l \<noteq> []" "[] \<noteq> be_bytes 4 l"
  by (simp_all add: be_bytes_unfold)

lemma order_bytes_eq: "order_bytes t = order_bytes s \<longleftrightarrow> EqOrdering t s"
  by (auto simp: order_bytes_def EqOrdering_def be_bytes_inj be_bytes_4_nonempty)

lemma Compare_order_bytes:
  "nonneg_ts t \<Longrightarrow> nonneg_ts s \<Longrightarrow> bytes_Compare (0 # order_bytes s) (0 # order_bytes t) = - Compare t s"
  using order_bytes_less [of s t] order_bytes_less [of t s] order_bytes_eq [of s t]
  by (auto simp: bytes_Compare_def Compare_iff [symmetric] Compare_def EqOrdering_def Less_def)

lemma EngineKeyCompare_enc:
  "EngineKeyCompare (EncodeMVCCKey a) (EncodeMVCCKey b) =
    (let c = bytes_Compare (MKey a) (MKey b); va = version (MTimestamp a); vb = version (MTimestamp b) in
     if c \<noteq> 0 then c else if va = [] then (if vb = [] then 0 else - 1) else if vb = [] then 1
     else bytes_Compare (normalizeEngineKeyVersionForCompare vb) (normalizeEngineKeyVersionForCompare va))"
proof -
  let ?a = "EncodeMVCCKey a" and ?b = "EncodeMVCCKey b"
  note pa = encoded_parts [of a] and pb = encoded_parts [of b]
  have ne: "\<not> (int (length ?a) - 1 < 0 \<or> int (length ?b) - 1 < 0)" using pa(1) pb(1) by simp
  have na: "nat (int (length ?a) - 1) = length ?a - 1" "nat (int (length ?b) - 1) = length ?b - 1" by simp_all
  have sa: "int (length ?a) - 1 - int (length (version (MTimestamp a))) = int (length (MKey a))"
    and sb: "int (length ?b) - 1 - int (length (version (MTimestamp b))) = int (length (MKey b))"
    using pa(1,3) pb(1,3) by linarith+
  have bare: "\<not> (int (length (MKey a)) = - 1 \<and> int (length (MKey b)) = - 1)"
    and sep: "\<not> (int (length (MKey a)) < 0 \<or> int (length (MKey b)) < 0)" by simp_all
  show ?thesis
    unfolding EngineKeyCompare_def Let_def if_not_P [OF ne] na pa(2) pb(2) sa sb
      if_not_P [OF bare] prod.case if_not_P [OF sep] nat_int pa(4,5) pb(4,5) by simp
qed

lemma bytes_Compare_0 [simp]: "bytes_Compare a b = 0 \<longleftrightarrow> a = b"
  by (simp add: bytes_Compare_def)

lemma version_normal: "length (version ts) \<le> 9 \<Longrightarrow> normalizeEngineKeyVersionForCompare (version ts) = version ts"
  by (simp add: normalizeEngineKeyVersionForCompare_def Let_def)

lemma normalize_version_Nil: "normalizeEngineKeyVersionForCompare (version ts) = [] \<longleftrightarrow> version ts = []"
  by (simp add: version_def normalize_version) (simp add: normalizeEngineKeyVersionForCompare_def)

lemma enc_eq_iff: "EncodeMVCCKey a = EncodeMVCCKey b \<longleftrightarrow> MKey a = MKey b \<and> version (MTimestamp a) = version (MTimestamp b)"
proof
  assume "EncodeMVCCKey a = EncodeMVCCKey b"
  then have "a = b" by (metis DecodeMVCCKey_enc Inr_inject)
  then show "MKey a = MKey b \<and> version (MTimestamp a) = version (MTimestamp b)" by simp
next
  assume eq: "MKey a = MKey b \<and> version (MTimestamp a) = version (MTimestamp b)"
  then have "ts_suffix (MTimestamp a) = ts_suffix (MTimestamp b)"
    by (auto simp: ts_suffix_def version_def split: if_splits)
  then show "EncodeMVCCKey a = EncodeMVCCKey b" using eq by (simp add: EncodeMVCCKey_eq)
qed

lemma EngineKeyEqual_enc:
  "EngineKeyEqual (EncodeMVCCKey a) (EncodeMVCCKey b) \<longleftrightarrow> MKey a = MKey b \<and>
    normalizeEngineKeyVersionForCompare (version (MTimestamp a)) = normalizeEngineKeyVersionForCompare (version (MTimestamp b))"
proof -
  let ?a = "EncodeMVCCKey a" and ?b = "EncodeMVCCKey b"
  let ?va = "version (MTimestamp a)" and ?vb = "version (MTimestamp b)"
  note pa = encoded_parts [of a] and pb = encoded_parts [of b]
  have ne: "\<not> (int (length ?a) - 1 < 0 \<or> int (length ?b) - 1 < 0)" using pa(1) pb(1) by simp
  have na: "nat (int (length ?a) - 1) = length ?a - 1" "nat (int (length ?b) - 1) = length ?b - 1" by simp_all
  have sa: "int (length ?a) - 1 - int (length ?va) = int (length (MKey a))"
    and sb: "int (length ?b) - 1 - int (length ?vb) = int (length (MKey b))"
    using pa(1,3) pb(1,3) by linarith+
  have bare: "\<not> (int (length (MKey a)) = - 1 \<and> int (length (MKey b)) = - 1)"
    and sep: "\<not> (int (length (MKey a)) < 0 \<or> int (length (MKey b)) < 0)" by simp_all
  have lock: "length ?va \<noteq> 18" using length_ts_bytes_cases [of "MTimestamp a"] by (auto simp: version_def)
  have "EngineKeyEqual ?a ?b \<longleftrightarrow> (if length ?va \<le> 9 \<and> length ?vb \<le> 9 \<or> length ?va = 18 \<and> length ?vb = 18 then ?a = ?b
      else MKey a = MKey b \<and> normalizeEngineKeyVersionForCompare ?va = normalizeEngineKeyVersionForCompare ?vb)"
    unfolding EngineKeyEqual_def Let_def if_not_P [OF ne] na pa(2) pb(2) sa sb
      if_not_P [OF bare] prod.case if_not_P [OF sep] nat_int pa(4,5) pb(4,5) by simp
  then show ?thesis using lock by (auto simp: enc_eq_iff version_normal)
qed

lemma Less_Compare: "MVCCKeyLess a b \<longleftrightarrow> MVCCKeyCompare a b = - 1"
proof -
  have "(- c = - 1) \<longleftrightarrow> c = (1 :: int)" for c by auto
  then show ?thesis
    by (auto simp: MVCCKeyLess_def MVCCKeyCompare_def IsValue_def Compare_iff bytes_Compare_def Let_def IsEmpty_eq)
qed

lemma EngineKeyCompare_Compare:
  assumes "nonneg_ts (MTimestamp a)" "nonneg_ts (MTimestamp b)"
  shows "EngineKeyCompare (EncodeMVCCKey a) (EncodeMVCCKey b) = MVCCKeyCompare a b"
proof -
  have "Compare emptyTimestamp emptyTimestamp = 0" by (simp add: Compare_def)
  then show ?thesis
    using Compare_order_bytes [OF assms]
    by (auto simp: EngineKeyCompare_enc MVCCKeyCompare_def version_def normalize_version Let_def IsEmpty_eq)
qed

subsection \<open>Properties\<close>

text \<open>C16: The store sorts encoded keys as the versioned keys they encode: by key, a metadata key before
  its versions, and versions from the newest to the oldest, whatever parts of the timestamp were left
  out of the encoding or marked synthetic.  The equality test of the store, fast path included, is its
  comparison with zero, on timestamps of any sign.\<close>

theorem engine_key_order:
  assumes "nonneg_ts (MTimestamp a)" "nonneg_ts (MTimestamp b)"
  shows "EngineKeyCompare (EncodeMVCCKey a) (EncodeMVCCKey b) = MVCCKeyCompare a b \<and>
    (MVCCKeyLess a b \<longleftrightarrow> EngineKeyCompare (EncodeMVCCKey a) (EncodeMVCCKey b) = - 1) \<and>
    (\<forall>x y. EngineKeyEqual (EncodeMVCCKey x) (EncodeMVCCKey y) \<longleftrightarrow>
      EngineKeyCompare (EncodeMVCCKey x) (EncodeMVCCKey y) = 0)"
proof (intro conjI allI)
  fix x y
  show "EngineKeyEqual (EncodeMVCCKey x) (EncodeMVCCKey y) \<longleftrightarrow>
      EngineKeyCompare (EncodeMVCCKey x) (EncodeMVCCKey y) = 0"
    using normalize_version_Nil [of "MTimestamp x"] normalize_version_Nil [of "MTimestamp y"]
    by (auto simp: EngineKeyEqual_enc EngineKeyCompare_enc Let_def)
qed (use EngineKeyCompare_Compare [OF assms] Less_Compare in auto)

theorem engine_key_order_witness:
  "MVCCKeyLess \<lparr>MKey = [1], MTimestamp = \<lparr>WallTime = 7, Logical = 0, Synthetic = True\<rparr>\<rparr>
     \<lparr>MKey = [1], MTimestamp = \<lparr>WallTime = 5, Logical = 3, Synthetic = False\<rparr>\<rparr> \<longleftrightarrow>
   EngineKeyCompare (EncodeMVCCKey \<lparr>MKey = [1], MTimestamp = \<lparr>WallTime = 7, Logical = 0, Synthetic = True\<rparr>\<rparr>)
     (EncodeMVCCKey \<lparr>MKey = [1], MTimestamp = \<lparr>WallTime = 5, Logical = 3, Synthetic = False\<rparr>\<rparr>) = - 1"
  using engine_key_order [of "\<lparr>MKey = [1], MTimestamp = \<lparr>WallTime = 7, Logical = 0, Synthetic = True\<rparr>\<rparr>"
      "\<lparr>MKey = [1], MTimestamp = \<lparr>WallTime = 5, Logical = 3, Synthetic = False\<rparr>\<rparr>"]
  by (simp add: nonneg_ts_def)

text \<open>A versioned key survives its encoding, also into a reused buffer of any size and contents;
  the length functions are exact, and the suffix of a timestamp decodes to it on its own.\<close>

lemma mvcc_key_roundtrip:
  "DecodeMVCCKey (EncodeMVCCKeyToBuf buf k) = Inr k \<and>
   EncodeMVCCKeyToBuf buf k = EncodeMVCCKey k \<and>
   length (EncodeMVCCKey k) = encodedMVCCKeyLength k \<and>
   EncodeMVCCKey k = EncodeMVCCKeyPrefix (MKey k) @ EncodeMVCCTimestampSuffix (MTimestamp k) \<and>
   DecodeMVCCTimestampSuffix (encodeMVCCTimestampSuffixToBuf buf ts) = Inr ts \<and>
   length (EncodeMVCCTimestampSuffix ts) = EncodedMVCCTimestampSuffixLength ts"
proof -
  have "ts_suffix emptyTimestamp = []" by (simp add: ts_suffix_def IsEmpty_eq)
  then have "EncodeMVCCKey k = EncodeMVCCKeyPrefix (MKey k) @ EncodeMVCCTimestampSuffix (MTimestamp k)"
    by (simp add: EncodeMVCCKey_eq EncodeMVCCKeyPrefix_def EncodeMVCCTimestampSuffix_def encodeMVCCTimestampSuffixToBuf_eq)
  moreover have "length (EncodeMVCCKey k) = encodedMVCCKeyLength k"
    by (simp add: EncodeMVCCKey_eq encodedMVCCKeyLength_eq)
  ultimately show ?thesis
    using DecodeMVCCKey_enc [of k]
    by (simp add: EncodeMVCCKeyToBuf_eq encodeMVCCTimestampSuffixToBuf_eq
      DecodeMVCCTimestampSuffix_enc EncodeMVCCTimestampSuffix_def EncodedMVCCTimestampSuffixLength_def
      encodedMVCCKeyLength_eq)
qed

text \<open>\<open>Next\<close> of a version is the next key in the order of the store: the version just before it, or
  the metadata key of the next key after the last version.\<close>

lemma mvcc_key_next:
  assumes "MVCCKeyNext k = Inr n" "nonneg_ts (MTimestamp k)" "\<not> Synthetic (MTimestamp k)"
  shows "MVCCKeyLess k n \<and>
    (\<forall>m. nonneg_ts (MTimestamp m) \<longrightarrow> \<not> Synthetic (MTimestamp m) \<longrightarrow> MVCCKeyLess k m \<longrightarrow> \<not> MVCCKeyLess m n)"
proof -
  obtain p where p: "Prev (MTimestamp k) = Inr p" using assms(1) by (cases "Prev (MTimestamp k)") (auto simp: MVCCKeyNext_def)
  have val: "IsValue k" using p by (auto simp: IsValue_def IsEmpty_def Prev_def split: if_splits)
  have below: "Less p (MTimestamp k)" using p by (rule Prev_Less)
  have gap: "LessEq (MTimestamp m) p" if "nonneg_ts (MTimestamp m)" "Less (MTimestamp m) (MTimestamp k)" for m
    using Prev_greatest [OF p, of "MTimestamp m"] that by (simp add: wf_ts_def nonneg_ts_def)
  show ?thesis
  proof (cases "IsEmpty p")
    case True
    then have n: "n = \<lparr>MKey = MKey k @ [0], MTimestamp = emptyTimestamp\<rparr>"
      using assms(1) p by (simp add: MVCCKeyNext_def)
    have "\<not> MVCCKeyLess m n" if m: "nonneg_ts (MTimestamp m)" "\<not> Synthetic (MTimestamp m)" "MVCCKeyLess k m" for m
    proof
      assume "MVCCKeyLess m n"
      then have lt: "MKey m < MKey k @ [0]"
        by (auto simp: n MVCCKeyLess_def IsValue_def bytes_Compare_def IsEmpty_eq Let_def split: if_splits)
      show False
      proof (cases "MKey m = MKey k")
        case True
        then have "Less (MTimestamp m) (MTimestamp k)" "IsValue m"
          using m(3) val by (auto simp: MVCCKeyLess_def Let_def split: if_splits)
        moreover have "LessEq (MTimestamp m) emptyTimestamp"
          using gap [OF m(1)] calculation(1) \<open>IsEmpty p\<close> by (simp add: IsEmpty_eq)
        ultimately have "MTimestamp m = emptyTimestamp"
          using m(1,2)
          by (cases "MTimestamp m") (auto simp: LessEq_def emptyTimestamp_def nonneg_ts_def sint_eq_iff [symmetric])
        then show False using \<open>IsValue m\<close> by (simp add: IsValue_def IsEmpty_eq)
      next
        case False
        then have "MKey k < MKey m" using m(3) by (auto simp: MVCCKeyLess_def bytes_Compare_def Let_def split: if_splits)
        then show False using lt by (simp add: less_snoc_zero)
      qed
    qed
    then show ?thesis using val by (simp add: n MVCCKeyLess_def bytes_Compare_def)
  next
    case False
    then have n: "n = \<lparr>MKey = MKey k, MTimestamp = p\<rparr>" using assms(1) p by (simp add: MVCCKeyNext_def)
    have "\<not> MVCCKeyLess m n" if m: "nonneg_ts (MTimestamp m)" "MVCCKeyLess k m" for m
      using m(2) val gap [OF m(1)] False
      by (auto simp: n MVCCKeyLess_def IsValue_def bytes_Compare_def Let_def split: if_splits)
    then show ?thesis using val below False by (simp add: n MVCCKeyLess_def IsValue_def)
  qed
qed

end
