(* ===== verification/Keys_Local.thy ===== *)
theory Keys_Local
  imports Keys_Spans Enc_Ints
begin

text \<open>
  The local key space (\<open>engine/pkg/keys/keys.go\<close> and \<open>engine/pkg/keys/constants.go\<close>): keys of a
  store, keys of a range by its ID (the replicated and the unreplicated ones), keys of a range by a
  key it holds, and the lock table.  \<open>Addr\<close> gives the global key a local key belongs to, the
  address by which requests for it are routed.

  A \<open>RangeIDPrefixBuf\<close> is the byte string it holds; its methods append to it.  Scratch buffers are
  arguments and stand for their whole capacity.
\<close>

subsection \<open>Constants\<close>

definition gostr :: "string \<Rightarrow> bytes" where
  "gostr s = map of_char s"

abbreviation (input) LocalPrefix :: bytes where "LocalPrefix \<equiv> [0x01]"
abbreviation (input) localSuffixLength :: nat where "localSuffixLength \<equiv> 4"

definition LocalRangeIDPrefix :: bytes where "LocalRangeIDPrefix = LocalPrefix @ gostr ''i''"
definition LocalRangeIDReplicatedInfix :: bytes where "LocalRangeIDReplicatedInfix = gostr ''r''"
definition LocalAbortSpanSuffix :: bytes where "LocalAbortSpanSuffix = gostr ''abc-''"
definition LocalRangeGCThresholdSuffix :: bytes where "LocalRangeGCThresholdSuffix = gostr ''lgc-''"
definition LocalRangeAppliedStateSuffix :: bytes where "LocalRangeAppliedStateSuffix = gostr ''rask''"
definition LocalRangeGCHintSuffix :: bytes where "LocalRangeGCHintSuffix = gostr ''rgch''"
definition LocalRangeLeaseSuffix :: bytes where "LocalRangeLeaseSuffix = gostr ''rll-''"
definition LocalRangePriorReadSummarySuffix :: bytes where "LocalRangePriorReadSummarySuffix = gostr ''rprs''"
definition LocalRangeVersionSuffix :: bytes where "LocalRangeVersionSuffix = gostr ''rver''"

definition localRangeIDUnreplicatedInfix :: bytes where "localRangeIDUnreplicatedInfix = gostr ''u''"
definition LocalRangeTombstoneSuffix :: bytes where "LocalRangeTombstoneSuffix = gostr ''rftb''"
definition LocalRaftHardStateSuffix :: bytes where "LocalRaftHardStateSuffix = gostr ''rfth''"
definition LocalRaftLogSuffix :: bytes where "LocalRaftLogSuffix = gostr ''rftl''"
definition LocalRaftReplicaIDSuffix :: bytes where "LocalRaftReplicaIDSuffix = gostr ''rftr''"
definition LocalRaftTruncatedStateSuffix :: bytes where "LocalRaftTruncatedStateSuffix = gostr ''rftt''"
definition LocalRangeLastReplicaGCTimestampSuffix :: bytes where
  "LocalRangeLastReplicaGCTimestampSuffix = gostr ''rlrt''"
definition LocalRangeMVCCRangeKeyGCLockSuffix :: bytes where
  "LocalRangeMVCCRangeKeyGCLockSuffix = gostr ''rltu''"

definition LocalRangePrefix :: bytes where "LocalRangePrefix = LocalPrefix @ gostr ''k''"
definition LocalRangeProbeSuffix :: bytes where "LocalRangeProbeSuffix = gostr ''prbe''"
definition LocalQueueLastProcessedSuffix :: bytes where "LocalQueueLastProcessedSuffix = gostr ''qlpt''"
definition LocalRangeDescriptorSuffix :: bytes where "LocalRangeDescriptorSuffix = gostr ''rdsc''"
definition LocalTransactionSuffix :: bytes where "LocalTransactionSuffix = gostr ''txn-''"

definition LocalStorePrefix :: bytes where "LocalStorePrefix = LocalPrefix @ gostr ''s''"
definition localStoreClusterVersionSuffix :: bytes where "localStoreClusterVersionSuffix = gostr ''cver''"
definition localStoreGossipSuffix :: bytes where "localStoreGossipSuffix = gostr ''goss''"
definition localStoreHLCUpperBoundSuffix :: bytes where "localStoreHLCUpperBoundSuffix = gostr ''hlcu''"
definition localStoreIdentSuffix :: bytes where "localStoreIdentSuffix = gostr ''iden''"
definition localStoreLossOfQuorumRecoveryInfix :: bytes where
  "localStoreLossOfQuorumRecoveryInfix = gostr ''loqr''"
definition localStoreUnsafeReplicaRecoverySuffix :: bytes where
  "localStoreUnsafeReplicaRecoverySuffix = localStoreLossOfQuorumRecoveryInfix @ gostr ''applied''"
definition localStoreLossOfQuorumRecoveryStatusSuffix :: bytes where
  "localStoreLossOfQuorumRecoveryStatusSuffix = localStoreLossOfQuorumRecoveryInfix @ gostr ''status''"
definition localStoreLossOfQuorumRecoveryCleanupActionsSuffix :: bytes where
  "localStoreLossOfQuorumRecoveryCleanupActionsSuffix = localStoreLossOfQuorumRecoveryInfix @ gostr ''cleanup''"
definition localStoreNodeTombstoneSuffix :: bytes where "localStoreNodeTombstoneSuffix = gostr ''ntmb''"
definition localStoreCachedSettingsSuffix :: bytes where "localStoreCachedSettingsSuffix = gostr ''stng''"
definition localStoreLastUpSuffix :: bytes where "localStoreLastUpSuffix = gostr ''uptm''"

definition LocalRangeLockTablePrefix :: bytes where "LocalRangeLockTablePrefix = LocalPrefix @ gostr ''z''"
definition LockTableSingleKeyInfix :: bytes where "LockTableSingleKeyInfix = gostr ''k''"

lemma gostr_simps [simp]: "gostr [] = []" "gostr (c # s) = of_char c # gostr s"
  by (simp_all add: gostr_def)

lemmas prefix_defs = LocalRangeIDPrefix_def LocalRangePrefix_def LocalStorePrefix_def LocalRangeLockTablePrefix_def

lemmas infix_defs = LocalRangeIDReplicatedInfix_def localRangeIDUnreplicatedInfix_def LockTableSingleKeyInfix_def

lemmas suffix_defs = LocalAbortSpanSuffix_def LocalRangeGCThresholdSuffix_def LocalRangeAppliedStateSuffix_def
  LocalRangeGCHintSuffix_def LocalRangeLeaseSuffix_def LocalRangePriorReadSummarySuffix_def
  LocalRangeVersionSuffix_def LocalRangeTombstoneSuffix_def LocalRaftHardStateSuffix_def
  LocalRaftLogSuffix_def LocalRaftReplicaIDSuffix_def LocalRaftTruncatedStateSuffix_def
  LocalRangeLastReplicaGCTimestampSuffix_def LocalRangeMVCCRangeKeyGCLockSuffix_def
  LocalRangeProbeSuffix_def LocalQueueLastProcessedSuffix_def LocalRangeDescriptorSuffix_def
  LocalTransactionSuffix_def

lemmas store_suffix_defs = localStoreClusterVersionSuffix_def localStoreGossipSuffix_def
  localStoreHLCUpperBoundSuffix_def localStoreIdentSuffix_def localStoreNodeTombstoneSuffix_def
  localStoreCachedSettingsSuffix_def localStoreLastUpSuffix_def localStoreUnsafeReplicaRecoverySuffix_def
  localStoreLossOfQuorumRecoveryInfix_def localStoreLossOfQuorumRecoveryStatusSuffix_def
  localStoreLossOfQuorumRecoveryCleanupActionsSuffix_def

subsection \<open>Transaction and recovery IDs\<close>

text \<open>A \<open>uuid.UUID\<close> is its 16 bytes.\<close>

definition FromBytes :: "bytes \<Rightarrow> bytes result" where
  "FromBytes input =
    (if length input \<noteq> 16 then Inl (Errorf ''uuid: UUID must be exactly 16 bytes long, got %d bytes'')
     else Inr input)"

subsection \<open>Store-local keys\<close>

definition MakeStoreKey :: "bytes \<Rightarrow> bytes \<Rightarrow> bytes" where
  "MakeStoreKey suf detail = (LocalStorePrefix @ suf) @ detail"

definition DecodeStoreKey :: "bytes \<Rightarrow> (bytes \<times> bytes) result" where
  "DecodeStoreKey key =
    (if \<not> prefix LocalStorePrefix key then Inl (Errorf ''key %s does not have %s prefix'')
     else
       let key1 = drop (length LocalStorePrefix) key in
       if length key1 < localSuffixLength then Inl (Errorf ''malformed key does not contain local store suffix'')
       else Inr (take localSuffixLength key1, drop localSuffixLength key1))"

definition StoreIdentKey :: bytes where "StoreIdentKey = MakeStoreKey localStoreIdentSuffix []"
definition StoreGossipKey :: bytes where "StoreGossipKey = MakeStoreKey localStoreGossipSuffix []"
definition DeprecatedStoreClusterVersionKey :: bytes where
  "DeprecatedStoreClusterVersionKey = MakeStoreKey localStoreClusterVersionSuffix []"
definition StoreLastUpKey :: bytes where "StoreLastUpKey = MakeStoreKey localStoreLastUpSuffix []"
definition StoreHLCUpperBoundKey :: bytes where
  "StoreHLCUpperBoundKey = MakeStoreKey localStoreHLCUpperBoundSuffix []"

definition StoreNodeTombstoneKey :: "int32 \<Rightarrow> bytes" where
  "StoreNodeTombstoneKey nodeID =
     MakeStoreKey localStoreNodeTombstoneSuffix (EncodeUint32Ascending [] nodeID)"

definition DecodeNodeTombstoneKey :: "bytes \<Rightarrow> int32 result" where
  "DecodeNodeTombstoneKey key =
    rbind (DecodeStoreKey key) (\<lambda>(suf, detail).
      if suf \<noteq> localStoreNodeTombstoneSuffix then Inl (Errorf ''key with suffix %q != %q'')
      else rbind (DecodeUint32Ascending detail) (\<lambda>(detail1, nodeID).
        if length detail1 \<noteq> 0 then Inl (Errorf ''invalid key has trailing garbage: %q'')
        else Inr nodeID))"

definition StoreCachedSettingsKey :: "bytes \<Rightarrow> bytes" where
  "StoreCachedSettingsKey settingKey =
     MakeStoreKey localStoreCachedSettingsSuffix (EncodeBytesAscending [] settingKey)"

definition DecodeStoreCachedSettingsKey :: "bytes \<Rightarrow> bytes result" where
  "DecodeStoreCachedSettingsKey key =
    rbind (DecodeStoreKey key) (\<lambda>(suf, detail).
      if suf \<noteq> localStoreCachedSettingsSuffix then Inl (Errorf ''key with suffix %q != %q'')
      else rbind (DecodeBytesAscending detail []) (\<lambda>(detail1, settingKey).
        if length detail1 \<noteq> 0 then Inl (Errorf ''invalid key has trailing garbage: %q'')
        else Inr settingKey))"

definition StoreLossOfQuorumRecoveryStatusKey :: bytes where
  "StoreLossOfQuorumRecoveryStatusKey = MakeStoreKey localStoreLossOfQuorumRecoveryStatusSuffix []"

definition StoreLossOfQuorumRecoveryCleanupActionsKey :: bytes where
  "StoreLossOfQuorumRecoveryCleanupActionsKey =
     MakeStoreKey localStoreLossOfQuorumRecoveryCleanupActionsSuffix []"

definition LocalStoreUnsafeReplicaRecoveryKeyMin :: bytes where
  "LocalStoreUnsafeReplicaRecoveryKeyMin = MakeStoreKey localStoreUnsafeReplicaRecoverySuffix []"

definition StoreUnsafeReplicaRecoveryKey :: "bytes \<Rightarrow> bytes" where
  "StoreUnsafeReplicaRecoveryKey uuid = LocalStoreUnsafeReplicaRecoveryKeyMin @ uuid"

definition DecodeStoreUnsafeReplicaRecoveryKey :: "bytes \<Rightarrow> bytes result" where
  "DecodeStoreUnsafeReplicaRecoveryKey key =
    (if \<not> prefix LocalStoreUnsafeReplicaRecoveryKeyMin key
     then Inl (Errorf ''key %q does not have %q prefix'')
     else case FromBytes (drop (length LocalStoreUnsafeReplicaRecoveryKeyMin) key) of
       Inl _ \<Rightarrow> Inl (Errorf ''failed to get uuid from unsafe replica recovery key'')
     | Inr entryID \<Rightarrow> Inr entryID)"

subsection \<open>Keys by range ID\<close>

definition makePrefixWithRangeID :: "bytes \<Rightarrow> int64 \<Rightarrow> bytes \<Rightarrow> bytes" where
  "makePrefixWithRangeID pre rangeID infx = EncodeUvarintAscending ([] @ pre) rangeID @ infx"

definition MakeRangeIDPrefix :: "int64 \<Rightarrow> bytes" where
  "MakeRangeIDPrefix rangeID = makePrefixWithRangeID LocalRangeIDPrefix rangeID []"

definition MakeRangeIDReplicatedPrefix :: "int64 \<Rightarrow> bytes" where
  "MakeRangeIDReplicatedPrefix rangeID = makePrefixWithRangeID LocalRangeIDPrefix rangeID LocalRangeIDReplicatedInfix"

definition makeRangeIDReplicatedKey :: "int64 \<Rightarrow> bytes \<Rightarrow> bytes \<Rightarrow> bytes result" where
  "makeRangeIDReplicatedKey rangeID suf detail =
    (if length suf \<noteq> localSuffixLength then Inl (Panic ''suffix len(%q) != %d'')
     else Inr ((MakeRangeIDReplicatedPrefix rangeID @ suf) @ detail))"

definition MakeRangeIDUnreplicatedPrefix :: "int64 \<Rightarrow> bytes" where
  "MakeRangeIDUnreplicatedPrefix rangeID =
     makePrefixWithRangeID LocalRangeIDPrefix rangeID localRangeIDUnreplicatedInfix"

definition makeRangeIDUnreplicatedKey :: "int64 \<Rightarrow> bytes \<Rightarrow> bytes \<Rightarrow> bytes result" where
  "makeRangeIDUnreplicatedKey rangeID suf detail =
    (if length suf \<noteq> localSuffixLength then Inl (Panic ''suffix len(%q) != %d'')
     else Inr ((MakeRangeIDUnreplicatedPrefix rangeID @ suf) @ detail))"

definition DecodeRangeIDKey :: "bytes \<Rightarrow> (int64 \<times> bytes \<times> bytes \<times> bytes) result" where
  "DecodeRangeIDKey key =
    (if \<not> prefix LocalRangeIDPrefix key then Inl (Errorf ''key %s does not have %s prefix'')
     else rbind (DecodeUvarintAscending (drop (length LocalRangeIDPrefix) key)) (\<lambda>(b, rangeInt).
       if length b < localSuffixLength + 1
       then Inl (Errorf ''malformed key does not contain range ID infix and suffix'')
       else
         let infx = take 1 b; b1 = drop 1 b; suf = take localSuffixLength b1; b2 = drop localSuffixLength b1
         in Inr (rangeInt, infx, suf, b2)))"

definition MakeRangeIDPrefixBuf :: "int64 \<Rightarrow> bytes" where
  "MakeRangeIDPrefixBuf rangeID = MakeRangeIDPrefix rangeID"

definition replicatedPrefix :: "bytes \<Rightarrow> bytes" where
  "replicatedPrefix b = b @ LocalRangeIDReplicatedInfix"

definition unreplicatedPrefix :: "bytes \<Rightarrow> bytes" where
  "unreplicatedPrefix b = b @ localRangeIDUnreplicatedInfix"

definition bufAbortSpanKey :: "bytes \<Rightarrow> bytes \<Rightarrow> bytes" where
  "bufAbortSpanKey b txnID = EncodeBytesAscending (replicatedPrefix b @ LocalAbortSpanSuffix) txnID"

definition bufRangeAppliedStateKey :: "bytes \<Rightarrow> bytes" where
  "bufRangeAppliedStateKey b = replicatedPrefix b @ LocalRangeAppliedStateSuffix"
definition bufRangeLeaseKey :: "bytes \<Rightarrow> bytes" where
  "bufRangeLeaseKey b = replicatedPrefix b @ LocalRangeLeaseSuffix"
definition bufRangePriorReadSummaryKey :: "bytes \<Rightarrow> bytes" where
  "bufRangePriorReadSummaryKey b = replicatedPrefix b @ LocalRangePriorReadSummarySuffix"
definition bufRangeGCThresholdKey :: "bytes \<Rightarrow> bytes" where
  "bufRangeGCThresholdKey b = replicatedPrefix b @ LocalRangeGCThresholdSuffix"
definition bufRangeGCHintKey :: "bytes \<Rightarrow> bytes" where
  "bufRangeGCHintKey b = replicatedPrefix b @ LocalRangeGCHintSuffix"
definition bufRangeVersionKey :: "bytes \<Rightarrow> bytes" where
  "bufRangeVersionKey b = replicatedPrefix b @ LocalRangeVersionSuffix"
definition bufRangeTombstoneKey :: "bytes \<Rightarrow> bytes" where
  "bufRangeTombstoneKey b = unreplicatedPrefix b @ LocalRangeTombstoneSuffix"
definition bufRaftTruncatedStateKey :: "bytes \<Rightarrow> bytes" where
  "bufRaftTruncatedStateKey b = unreplicatedPrefix b @ LocalRaftTruncatedStateSuffix"
definition bufRaftHardStateKey :: "bytes \<Rightarrow> bytes" where
  "bufRaftHardStateKey b = unreplicatedPrefix b @ LocalRaftHardStateSuffix"
definition bufRaftLogPrefix :: "bytes \<Rightarrow> bytes" where
  "bufRaftLogPrefix b = unreplicatedPrefix b @ LocalRaftLogSuffix"

definition RaftLogKeyFromPrefix :: "bytes \<Rightarrow> uint64 \<Rightarrow> bytes" where
  "RaftLogKeyFromPrefix raftLogPrefix logIndex = EncodeUint64Ascending raftLogPrefix logIndex"

definition DecodeRaftLogKeyFromSuffix :: "bytes \<Rightarrow> uint64 result" where
  "DecodeRaftLogKeyFromSuffix raftLogSuffix =
     rbind (DecodeUint64Ascending raftLogSuffix) (\<lambda>(_, logIndex). Inr logIndex)"

definition bufRaftLogKey :: "bytes \<Rightarrow> uint64 \<Rightarrow> bytes" where
  "bufRaftLogKey b logIndex = RaftLogKeyFromPrefix (bufRaftLogPrefix b) logIndex"
definition bufRaftReplicaIDKey :: "bytes \<Rightarrow> bytes" where
  "bufRaftReplicaIDKey b = unreplicatedPrefix b @ LocalRaftReplicaIDSuffix"
definition bufRangeLastReplicaGCTimestampKey :: "bytes \<Rightarrow> bytes" where
  "bufRangeLastReplicaGCTimestampKey b = unreplicatedPrefix b @ LocalRangeLastReplicaGCTimestampSuffix"
definition bufMVCCRangeKeyGCKey :: "bytes \<Rightarrow> bytes" where
  "bufMVCCRangeKeyGCKey b = unreplicatedPrefix b @ LocalRangeMVCCRangeKeyGCLockSuffix"

definition AbortSpanKey :: "int64 \<Rightarrow> bytes \<Rightarrow> bytes" where
  "AbortSpanKey rangeID txnID = bufAbortSpanKey (MakeRangeIDPrefixBuf rangeID) txnID"

definition DecodeAbortSpanKey :: "bytes \<Rightarrow> bytes \<Rightarrow> bytes result" where
  "DecodeAbortSpanKey key dest =
    rbind (DecodeRangeIDKey key) (\<lambda>(_, _, suf, detail).
      if suf \<noteq> LocalAbortSpanSuffix then Inl (Errorf ''key %s does not contain the AbortSpan suffix %s'')
      else rbind (DecodeBytesAscending detail dest) (\<lambda>(detail1, idBytes).
        if length detail1 > 0
        then Inl (Errorf ''key %q has leftover bytes after decode: %s; indicates corrupt key'')
        else FromBytes idBytes))"

definition RangeAppliedStateKey :: "int64 \<Rightarrow> bytes" where
  "RangeAppliedStateKey rangeID = bufRangeAppliedStateKey (MakeRangeIDPrefixBuf rangeID)"
definition RangeLeaseKey :: "int64 \<Rightarrow> bytes" where
  "RangeLeaseKey rangeID = bufRangeLeaseKey (MakeRangeIDPrefixBuf rangeID)"
definition RangePriorReadSummaryKey :: "int64 \<Rightarrow> bytes" where
  "RangePriorReadSummaryKey rangeID = bufRangePriorReadSummaryKey (MakeRangeIDPrefixBuf rangeID)"
definition RangeGCThresholdKey :: "int64 \<Rightarrow> bytes" where
  "RangeGCThresholdKey rangeID = bufRangeGCThresholdKey (MakeRangeIDPrefixBuf rangeID)"
definition RangeGCHintKey :: "int64 \<Rightarrow> bytes" where
  "RangeGCHintKey rangeID = bufRangeGCHintKey (MakeRangeIDPrefixBuf rangeID)"
definition MVCCRangeKeyGCKey :: "int64 \<Rightarrow> bytes" where
  "MVCCRangeKeyGCKey rangeID = bufMVCCRangeKeyGCKey (MakeRangeIDPrefixBuf rangeID)"
definition RangeVersionKey :: "int64 \<Rightarrow> bytes" where
  "RangeVersionKey rangeID = bufRangeVersionKey (MakeRangeIDPrefixBuf rangeID)"
definition RangeTombstoneKey :: "int64 \<Rightarrow> bytes" where
  "RangeTombstoneKey rangeID = bufRangeTombstoneKey (MakeRangeIDPrefixBuf rangeID)"
definition RaftTruncatedStateKey :: "int64 \<Rightarrow> bytes" where
  "RaftTruncatedStateKey rangeID = bufRaftTruncatedStateKey (MakeRangeIDPrefixBuf rangeID)"
definition RaftHardStateKey :: "int64 \<Rightarrow> bytes" where
  "RaftHardStateKey rangeID = bufRaftHardStateKey (MakeRangeIDPrefixBuf rangeID)"
definition RaftLogPrefix :: "int64 \<Rightarrow> bytes" where
  "RaftLogPrefix rangeID = bufRaftLogPrefix (MakeRangeIDPrefixBuf rangeID)"
definition RaftLogKey :: "int64 \<Rightarrow> uint64 \<Rightarrow> bytes" where
  "RaftLogKey rangeID logIndex = bufRaftLogKey (MakeRangeIDPrefixBuf rangeID) logIndex"
definition RaftReplicaIDKey :: "int64 \<Rightarrow> bytes" where
  "RaftReplicaIDKey rangeID = bufRaftReplicaIDKey (MakeRangeIDPrefixBuf rangeID)"
definition RangeLastReplicaGCTimestampKey :: "int64 \<Rightarrow> bytes" where
  "RangeLastReplicaGCTimestampKey rangeID = bufRangeLastReplicaGCTimestampKey (MakeRangeIDPrefixBuf rangeID)"

subsection \<open>Keys by range key, and their addresses\<close>

definition makeRangeKeyPrefixWithExtraCapacity :: "bytes \<Rightarrow> nat \<Rightarrow> bytes" where
  "makeRangeKeyPrefixWithExtraCapacity key extra = EncodeBytesAscending ([] @ LocalRangePrefix) key"

definition MakeRangeKeyPrefix :: "bytes \<Rightarrow> bytes" where
  "MakeRangeKeyPrefix key = makeRangeKeyPrefixWithExtraCapacity key 0"

definition MakeRangeKey :: "bytes \<Rightarrow> bytes \<Rightarrow> bytes \<Rightarrow> bytes result" where
  "MakeRangeKey key suf detail =
    (if length suf \<noteq> localSuffixLength then Inl (Panic ''suffix len(%q) != %d'')
     else Inr ((makeRangeKeyPrefixWithExtraCapacity key (length suf + length detail) @ suf) @ detail))"

definition DecodeRangeKey :: "bytes \<Rightarrow> (bytes \<times> bytes \<times> bytes) result" where
  "DecodeRangeKey key =
    (if \<not> prefix LocalRangePrefix key then Inl (Errorf ''key %q does not have %q prefix'')
     else rbind (DecodeBytesAscending (drop (length LocalRangePrefix) key) []) (\<lambda>(b, startKey).
       if length b < localSuffixLength then Inl (Errorf ''key %q does not have suffix of length %d'')
       else Inr (startKey, take localSuffixLength b, drop localSuffixLength b)))"

definition RangeDescriptorKey :: "bytes \<Rightarrow> bytes result" where
  "RangeDescriptorKey key = MakeRangeKey key LocalRangeDescriptorSuffix []"

definition QueueLastProcessedKey :: "bytes \<Rightarrow> bytes \<Rightarrow> bytes result" where
  "QueueLastProcessedKey key queue = MakeRangeKey key LocalQueueLastProcessedSuffix queue"

definition RangeProbeKey :: "bytes \<Rightarrow> bytes result" where
  "RangeProbeKey key = MakeRangeKey key LocalRangeProbeSuffix []"

definition IsLocal :: "bytes \<Rightarrow> bool" where
  "IsLocal k \<longleftrightarrow> prefix LocalPrefix k"

text \<open>One iteration of the loop of \<open>Addr\<close>, and the loop.\<close>

definition AddrStep :: "bytes \<Rightarrow> bytes result" where
  "AddrStep k =
    (if prefix LocalStorePrefix k then Inl (Errorf ''store-local key %q is not addressable'')
     else if prefix LocalRangeIDPrefix k then Inl (Errorf ''local range ID key %q is not addressable'')
     else if \<not> prefix LocalRangePrefix k then Inl (Errorf ''local key %q malformed; should contain prefix %q'')
     else rbind (DecodeBytesAscending (drop (length LocalRangePrefix) k) []) (\<lambda>(_, k1). Inr k1))"

lemma AddrStep_shrinks: "AddrStep k = Inr k' \<Longrightarrow> length k' + 5 \<le> length k"
  by (auto simp: AddrStep_def rbind_Inr_conv DecodeBytesAscending_iff append_buf length_esc
      prefix_defs prefix_def split: if_splits)

function AddrLoop :: "bytes \<Rightarrow> bytes result" where
  "AddrLoop k =
    (case AddrStep k of
       Inl e \<Rightarrow> Inl e
     | Inr k1 \<Rightarrow> if \<not> IsLocal k1 then Inr k1 else AddrLoop k1)"
  by pat_completeness auto
termination
  by (relation "measure length") (auto dest: AddrStep_shrinks)

declare AddrLoop.simps [simp del]

definition Addr :: "bytes \<Rightarrow> bytes result" where
  "Addr k = (if \<not> IsLocal k then Inr k else AddrLoop k)"

definition MustAddr :: "bytes \<Rightarrow> bytes result" where
  "MustAddr k = (case Addr k of Inl _ \<Rightarrow> Inl (Panic ''could not take address of '') | Inr rk \<Rightarrow> Inr rk)"

definition TransactionKey :: "bytes \<Rightarrow> bytes \<Rightarrow> bytes result" where
  "TransactionKey key txnID = rbind (MustAddr key) (\<lambda>rk. MakeRangeKey rk LocalTransactionSuffix txnID)"

definition AddrUpperBound :: "bytes \<Rightarrow> bytes result" where
  "AddrUpperBound k =
    rbind (Addr k) (\<lambda>rk.
      if IsLocal k \<and> k \<noteq> MakeRangeKeyPrefix rk then Inr (KeyNext rk) else Inr rk)"

definition SpanAddr :: "Span \<Rightarrow> RSpan result" where
  "SpanAddr span =
    rbind (Addr (Key span)) (\<lambda>rk.
      rbind (if length (EndKey span) > 0 then Addr (EndKey span) else Inr []) (\<lambda>rek.
        Inr \<lparr>rKey = rk, rEndKey = rek\<rparr>))"

subsection \<open>Lock table keys\<close>

definition LockTableSingleKey :: "bytes \<Rightarrow> bytes \<Rightarrow> bytes \<times> bytes" where
  "LockTableSingleKey key buf =
    (let keyLen = length LocalRangeLockTablePrefix + length LockTableSingleKeyInfix + EncodeBytesSize key;
         buf1 = (if length buf < keyLen then [] else take 0 buf);
         buf2 = EncodeBytesAscending ((buf1 @ LocalRangeLockTablePrefix) @ LockTableSingleKeyInfix) key
     in (buf2, buf2))"

definition LockTableSingleNextKey :: "bytes \<Rightarrow> bytes \<Rightarrow> bytes \<times> bytes" where
  "LockTableSingleNextKey key buf =
    (let keyLen = length LocalRangeLockTablePrefix + length LockTableSingleKeyInfix + EncodeNextBytesSize key;
         buf1 = (if length buf < keyLen then [] else take 0 buf);
         buf2 = EncodeNextBytesAscending ((buf1 @ LocalRangeLockTablePrefix) @ LockTableSingleKeyInfix) key
     in (buf2, buf2))"

definition DecodeLockTableSingleKey :: "bytes \<Rightarrow> bytes result" where
  "DecodeLockTableSingleKey key =
    (if \<not> prefix LocalRangeLockTablePrefix key then Inl (Errorf ''key %q does not have %q prefix'')
     else
       let b = drop (length LocalRangeLockTablePrefix) key in
       if \<not> prefix LockTableSingleKeyInfix b then Inl (Errorf ''key %q is not for a single-key lock'')
       else rbind (DecodeBytesAscending (drop (length LockTableSingleKeyInfix) b) []) (\<lambda>(b1, lockedKey).
         if length b1 \<noteq> 0 then Inl (Errorf ''key %q has left-over bytes %d after decoding'')
         else Inr lockedKey))"

subsection \<open>The span of a batch\<close>

text \<open>What \<open>Range\<close> reads of a request: whether it is a ranged one, and its header.\<close>

record ReqHeader =
  reqIsRange :: bool
  hKey :: bytes
  hEndKey :: bytes

fun RangeLoop :: "ReqHeader list \<Rightarrow> bytes \<Rightarrow> bytes \<Rightarrow> RSpan result" where
  "RangeLoop [] from0 to0 = Inr \<lparr>rKey = from0, rEndKey = to0\<rparr>"
| "RangeLoop (h # reqs) from0 to0 =
    (if \<not> reqIsRange h \<and> length (hEndKey h) \<noteq> 0
     then Inl (Errorf ''end key specified for non-range operation: %s'')
     else rbind (Addr (hKey h)) (\<lambda>key.
       let from1 = (if key < from0 then key else from0) in
       if \<not> key < to0 \<and> bytes_Compare key KeyMax > 0 then Inl (Errorf ''%s must be less than KeyMax'')
       else
         let to1 = (if \<not> key < to0 then KeyNext key else to0) in
         if length (hEndKey h) = 0 then RangeLoop reqs from1 to1
         else rbind (AddrUpperBound (hEndKey h)) (\<lambda>endKey.
           if bytes_Compare KeyMax endKey < 0 then Inl (Errorf ''%s must be less than or equal to KeyMax'')
           else RangeLoop reqs from1 (if to1 < endKey then endKey else to1))))"

definition Range :: "ReqHeader list \<Rightarrow> RSpan result" where
  "Range reqs = RangeLoop reqs KeyMax KeyMin"

subsection \<open>Addresses\<close>

lemma MakeRangeKeyPrefix_closed: "MakeRangeKeyPrefix k = LocalRangePrefix @ EncodeBytesAscending [] k"
  by (simp add: MakeRangeKeyPrefix_def makeRangeKeyPrefixWithExtraCapacity_def append_buf)

lemma MakeRangeKey_eq:
  "MakeRangeKey k suf detail = Inr key \<longleftrightarrow> length suf = 4 \<and> key = MakeRangeKeyPrefix k @ suf @ detail"
  by (auto simp: MakeRangeKey_def MakeRangeKeyPrefix_def makeRangeKeyPrefixWithExtraCapacity_def)

lemma AddrStep_range_key: "AddrStep (MakeRangeKeyPrefix k @ r) = Inr k"
  using bytes_asc.roundtrip [of k r]
  by (simp add: AddrStep_def MakeRangeKeyPrefix_closed prefix_defs)

lemma IsLocal_range_key [simp]: "IsLocal (MakeRangeKeyPrefix k @ r)"
  by (simp add: IsLocal_def MakeRangeKeyPrefix_closed prefix_defs)

text \<open>A key of a range is addressed to what the key inside it is addressed to.\<close>

lemma Addr_range_key: "Addr (MakeRangeKeyPrefix k @ r) = Addr k"
  by (simp add: Addr_def AddrLoop.simps [of "MakeRangeKeyPrefix k @ r"] AddrStep_range_key)

lemma AddrLoop_global: "AddrLoop k = Inr k' \<Longrightarrow> \<not> IsLocal k'"
proof (induction k rule: AddrLoop.induct)
  case (1 k)
  then show ?case by (auto simp: AddrLoop.simps [of k] split: sum.splits if_splits)
qed

lemma Addr_global: "Addr k = Inr k' \<Longrightarrow> \<not> IsLocal k'"
  by (auto simp: Addr_def AddrLoop_global split: if_splits)

lemma Addr_global_key: "\<not> IsLocal k \<Longrightarrow> Addr k = Inr k"
  by (simp add: Addr_def)

lemma Addr_fixpoint: "Addr k = Inr k \<longleftrightarrow> \<not> IsLocal k"
  using Addr_global [of k k] by (auto simp: Addr_def)

lemma decodeBytesLoop_no_panic: "\<not> panics (decodeBytesLoop b r e d)"
proof (induction b r e d rule: decodeBytesLoop.induct)
  case (1 b r e d)
  then show ?case
    by (auto simp: decodeBytesLoop.simps [of b] Let_def split: option.splits)
qed

lemma AddrStep_no_panic: "\<not> panics (AddrStep k)"
proof -
  have "\<not> panics (DecodeBytesAscending b [])" for b
    by (cases b) (simp_all add: DecodeBytesAscending_def decodeBytesInternal_def decodeBytesLoop_no_panic)
  from this [of "drop (length LocalRangePrefix) k"] show ?thesis
    by (cases "DecodeBytesAscending (drop (length LocalRangePrefix) k) []") (auto simp: AddrStep_def elim: panics.elims)
qed

text \<open>The loop as a number of rounds.\<close>

lemma AddrLoop_rounds:
  "IsLocal k \<Longrightarrow>
    \<exists>n. 5 * n \<le> length k + 4 \<and> AddrLoop k = ((\<lambda>r. rbind r AddrStep) ^^ n) (Inr k) \<and> \<not> panics (AddrLoop k)"
proof (induction k rule: AddrLoop.induct)
  case (1 k)
  then have k: "1 \<le> length k" by (auto simp: IsLocal_def prefix_def)
  show ?case
  proof (cases "\<exists>k1. AddrStep k = Inr k1 \<and> IsLocal k1")
    case False
    then have "AddrLoop k = AddrStep k"
      by (auto simp: AddrLoop.simps [of k] split: sum.splits)
    then show ?thesis using k AddrStep_no_panic [of k] by (intro exI [of _ 1]) simp
  next
    case True
    then obtain k1 where k1: "AddrStep k = Inr k1" "IsLocal k1" by blast
    then obtain n where "5 * n \<le> length k1 + 4" "AddrLoop k1 = ((\<lambda>r. rbind r AddrStep) ^^ n) (Inr k1)"
        "\<not> panics (AddrLoop k1)"
      using "1.IH" by blast
    then show ?thesis using k1 AddrStep_shrinks [OF k1(1)]
      by (intro exI [of _ "Suc n"]) (simp add: AddrLoop.simps [of k] funpow_Suc_right del: funpow.simps)
  qed
qed

lemma range_keys_less:
  "MakeRangeKeyPrefix k1 @ r < MakeRangeKeyPrefix k2 @ s \<longleftrightarrow> k1 < k2 \<or> k1 = k2 \<and> r < s"
  using bytes_asc.less_append_iff [where v = k1 and w = k2 and r = r and s = s]
  by (simp add: MakeRangeKeyPrefix_closed)

lemma AddrUpperBound_range_key:
  "\<not> IsLocal k \<Longrightarrow> AddrUpperBound (MakeRangeKeyPrefix k @ s) = Inr (if s = [] then k else k @ [0])"
  by (simp add: AddrUpperBound_def Addr_range_key Addr_global_key)

subsection \<open>Keys by range ID\<close>

lemma RangeIDPrefix_closed: "MakeRangeIDPrefix r = LocalRangeIDPrefix @ EncodeUvarintAscending [] r"
  by (simp add: MakeRangeIDPrefix_def makePrefixWithRangeID_def append_buf)

lemma DecodeRangeIDKey_enc:
  "length infx = 1 \<Longrightarrow> length suf = 4 \<Longrightarrow>
    DecodeRangeIDKey (MakeRangeIDPrefix r @ infx @ suf @ detail) = Inr (r, infx, suf, detail)"
  using uvarint_asc.roundtrip [of r "infx @ suf @ detail"]
  by (simp add: DecodeRangeIDKey_def RangeIDPrefix_closed)

lemma range_id_keys_less:
  "MakeRangeIDPrefix r @ x < MakeRangeIDPrefix r' @ y \<longleftrightarrow> r < r' \<or> r = r' \<and> x < y"
  using uvarint_asc.less_append_iff [where v = r and w = r' and r = x and s = y]
  by (simp add: RangeIDPrefix_closed)

lemmas raft_log_defs = RaftLogKey_def bufRaftLogKey_def RaftLogKeyFromPrefix_def bufRaftLogPrefix_def
  RaftLogPrefix_def unreplicatedPrefix_def MakeRangeIDPrefixBuf_def

lemma RaftLogKey_less: "RaftLogKey r i < RaftLogKey r' i' \<longleftrightarrow> r < r' \<or> r = r' \<and> i < i'"
  using uint64_asc.less_iff [of i i']
  by (simp add: raft_log_defs append_buf range_id_keys_less)

subsection \<open>Properties\<close>

text \<open>C19: \<open>Addr\<close> ends on every key, however deeply local keys are nested: it is the result of \<open>n\<close>
  unwrapping rounds with \<open>5 n\<close> at most four more than the length of the key, it never panics, and
  the address it returns is a global key.  The keys that are their own address are exactly the
  keys \<open>IsLocal\<close> rejects.\<close>

theorem Addr_terminates:
  "(\<exists>n. 5 * n \<le> length k + 4 \<and> Addr k = ((\<lambda>r. rbind r AddrStep) ^^ n) (Inr k)) \<and>
   (case Addr k of Inl e \<Rightarrow> \<not> panics (Inl e :: bytes result) | Inr k' \<Rightarrow> \<not> IsLocal k') \<and>
   (IsLocal k \<longleftrightarrow> Addr k \<noteq> Inr k)"
proof (cases "IsLocal k")
  case True
  then obtain n where "5 * n \<le> length k + 4" "AddrLoop k = ((\<lambda>r. rbind r AddrStep) ^^ n) (Inr k)"
      "\<not> panics (AddrLoop k)"
    using AddrLoop_rounds by blast
  then show ?thesis using True AddrLoop_global [of k] Addr_fixpoint [of k]
    by (auto simp: Addr_def split: sum.splits)
next
  case False
  then show ?thesis by (auto simp: Addr_def intro: exI [of _ 0])
qed

text \<open>A key made by \<open>MakeRangeKey\<close> decodes to its three parts, is local and is addressed to
  whatever the key it is made of is addressed to; the keys of a range key sort together, in the
  order of the range keys first.\<close>

lemma range_local_keys:
  assumes "MakeRangeKey k suf detail = Inr key"
    and "MakeRangeKey k' suf' detail' = Inr key'"
  shows "DecodeRangeKey key = Inr (k, suf, detail) \<and> IsLocal key \<and> Addr key = Addr k \<and>
    (key < key' \<longleftrightarrow> k < k' \<or> k = k' \<and> suf @ detail < suf' @ detail')"
proof -
  have key: "length suf = 4" "key = MakeRangeKeyPrefix k @ suf @ detail" "key' = MakeRangeKeyPrefix k' @ suf' @ detail'"
    using assms by (simp_all add: MakeRangeKey_eq)
  have "DecodeRangeKey key = Inr (k, suf, detail)"
    using bytes_asc.roundtrip [of k "suf @ detail"] key(1)
    by (simp add: DecodeRangeKey_def key(2) MakeRangeKeyPrefix_closed)
  then show ?thesis by (simp add: key(2,3) Addr_range_key range_keys_less)
qed

text \<open>\<open>AddrUpperBound\<close> is the least sound end of the address range: for an end key under the
  range key \<open>k2\<close>, the global keys below the bound it returns are exactly those that own a
  range-local key below that end key.\<close>

lemma AddrUpperBound_exact:
  assumes "\<not> IsLocal k1" "\<not> IsLocal k2"
  shows "Addr (MakeRangeKeyPrefix k1 @ r) = Inr k1 \<and>
    (case AddrUpperBound (MakeRangeKeyPrefix k2 @ s) of Inl _ \<Rightarrow> False
     | Inr u \<Rightarrow> k1 < u \<longleftrightarrow> (\<exists>r. MakeRangeKeyPrefix k1 @ r < MakeRangeKeyPrefix k2 @ s))"
proof -
  have "k1 < k2 @ [0] \<longleftrightarrow> (\<exists>r. MakeRangeKeyPrefix k1 @ r < MakeRangeKeyPrefix k2 @ s)" if "s \<noteq> []"
    using that by (auto simp: less_snoc_zero range_keys_less neq_Nil_conv intro: exI [of _ "[]"])
  then show ?thesis using assms
    by (auto simp: Addr_range_key Addr_global_key AddrUpperBound_range_key range_keys_less)
qed

text \<open>The keys of a range by its ID: \<open>DecodeRangeIDKey\<close> inverts the constructors,
  \<open>DecodeAbortSpanKey\<close> gives back the transaction of an abort-span key, raft log entries sort by range and
  then by log index, and every replicated key of a range sorts before its unreplicated ones.\<close>

lemma range_id_keys:
  assumes "length txnID = 16"
  shows "DecodeAbortSpanKey (AbortSpanKey r txnID) [] = Inr txnID \<and>
    DecodeRangeIDKey (RaftLogKey r i) = Inr (r, localRangeIDUnreplicatedInfix, LocalRaftLogSuffix, EncodeUint64Ascending [] i) \<and>
    DecodeRaftLogKeyFromSuffix (drop (length (RaftLogPrefix r)) (RaftLogKey r i)) = Inr i \<and>
    (RaftLogKey r i < RaftLogKey r' i' \<longleftrightarrow> r < r' \<or> r = r' \<and> i < i') \<and>
    MakeRangeIDReplicatedPrefix r @ x < MakeRangeIDUnreplicatedPrefix r @ y"
proof -
  have "DecodeRangeIDKey (AbortSpanKey r txnID) =
      Inr (r, LocalRangeIDReplicatedInfix, LocalAbortSpanSuffix, EncodeBytesAscending [] txnID)"
    using DecodeRangeIDKey_enc [of LocalRangeIDReplicatedInfix LocalAbortSpanSuffix r "EncodeBytesAscending [] txnID"]
    by (simp add: AbortSpanKey_def bufAbortSpanKey_def replicatedPrefix_def MakeRangeIDPrefixBuf_def
        EncodeBytesAscending_closed infix_defs suffix_defs)
  moreover have "DecodeBytesAscending (EncodeBytesAscending [] txnID) [] = Inr ([], txnID)"
    using bytes_asc.roundtrip [of txnID "[]"] by simp
  ultimately have "DecodeAbortSpanKey (AbortSpanKey r txnID) [] = Inr txnID"
    using assms by (simp add: DecodeAbortSpanKey_def FromBytes_def)
  moreover have "DecodeRangeIDKey (RaftLogKey r i) =
      Inr (r, localRangeIDUnreplicatedInfix, LocalRaftLogSuffix, EncodeUint64Ascending [] i)"
    using DecodeRangeIDKey_enc [of localRangeIDUnreplicatedInfix LocalRaftLogSuffix r "EncodeUint64Ascending [] i"]
    by (simp add: raft_log_defs append_buf infix_defs suffix_defs)
  moreover have "DecodeRaftLogKeyFromSuffix (drop (length (RaftLogPrefix r)) (RaftLogKey r i)) = Inr i"
    using uint64_asc.roundtrip [of i "[]"]
    by (simp add: raft_log_defs append_buf DecodeRaftLogKeyFromSuffix_def)
  moreover have "MakeRangeIDReplicatedPrefix r @ x < MakeRangeIDUnreplicatedPrefix r @ y"
    by (simp add: MakeRangeIDReplicatedPrefix_def MakeRangeIDUnreplicatedPrefix_def makePrefixWithRangeID_def infix_defs)
  ultimately show ?thesis by (simp add: RaftLogKey_less)
qed

text \<open>A span of addresses covers a request when it holds the address of its key and reaches the
  upper bound of its end key.\<close>

definition covers :: "RSpan \<Rightarrow> ReqHeader \<Rightarrow> bool" where
  "covers rs h =
    (case Addr (hKey h) of Inl _ \<Rightarrow> False
     | Inr k \<Rightarrow> rKey rs \<le> k \<and> k < rEndKey rs \<and>
         (hEndKey h = [] \<or> (case AddrUpperBound (hEndKey h) of Inl _ \<Rightarrow> False | Inr e \<Rightarrow> e \<le> rEndKey rs)))"

lemma covers_mono:
  "covers rs h \<Longrightarrow> rKey u \<le> rKey rs \<Longrightarrow> rEndKey rs \<le> rEndKey u \<Longrightarrow> covers u h"
  by (auto simp: covers_def split: sum.splits)

lemma RangeLoop_step:
  assumes "RangeLoop (h # reqs) f t = Inr rs"
  obtains f1 t1 where "RangeLoop reqs f1 t1 = Inr rs" "f1 \<le> f" "t \<le> t1"
    "covers \<lparr>rKey = f1, rEndKey = t1\<rparr> h"
    "\<And>u. covers u h \<Longrightarrow> rKey u \<le> f \<Longrightarrow> t \<le> rEndKey u \<Longrightarrow> rKey u \<le> f1 \<and> t1 \<le> rEndKey u"
proof -
  obtain k where k: "Addr (hKey h) = Inr k"
    using assms by (auto simp: rbind_Inr_conv split: if_splits)
  define f1 where "f1 = (if k < f then k else f)"
  define t1 where "t1 = (if \<not> k < t then KeyNext k else t)"
  have k1: "f1 \<le> f" "t \<le> t1" "f1 \<le> k" "k < t1"
    by (auto simp: f1_def t1_def not_less less_snoc_zero intro: order_trans [OF _ prefix_le])
  have least: "rKey u \<le> f1 \<and> t1 \<le> rEndKey u" if "covers u h" "rKey u \<le> f" "t \<le> rEndKey u" for u
    using that k by (auto simp: covers_def f1_def t1_def less_snoc_zero not_less [symmetric])
  show ?thesis
  proof (cases "hEndKey h = []")
    case True
    then have "RangeLoop reqs f1 t1 = Inr rs"
      using assms k by (simp add: Let_def f1_def t1_def split: if_splits)
    then show ?thesis using that [of f1 t1] k1 least True k by (simp add: covers_def)
  next
    case False
    then obtain e where e: "AddrUpperBound (hEndKey h) = Inr e"
        "RangeLoop reqs f1 (if t1 < e then e else t1) = Inr rs"
      using assms k by (auto simp: Let_def f1_def t1_def rbind_Inr_conv split: if_splits)
    let ?t2 = "if t1 < e then e else t1"
    have t2: "t1 \<le> ?t2" "e \<le> ?t2" by auto
    then have "covers \<lparr>rKey = f1, rEndKey = ?t2\<rparr> h"
      using k k1 e(1) by (auto simp: covers_def)
    moreover have "rKey u \<le> f1 \<and> ?t2 \<le> rEndKey u" if u: "covers u h" "rKey u \<le> f" "t \<le> rEndKey u" for u
      using least [OF u] u(1) k e(1) False by (auto simp: covers_def)
    ultimately show ?thesis using that [of f1 ?t2] e(2) k1 t2 by auto
  qed
qed

lemma RangeLoop_least:
  "RangeLoop reqs f t = Inr rs \<Longrightarrow>
    rKey rs \<le> f \<and> t \<le> rEndKey rs \<and> list_all (covers rs) reqs \<and>
    (\<forall>u. list_all (covers u) reqs \<longrightarrow> rKey u \<le> f \<longrightarrow> t \<le> rEndKey u \<longrightarrow> rKey u \<le> rKey rs \<and> rEndKey rs \<le> rEndKey u)"
proof (induction reqs arbitrary: f t)
  case (Cons h reqs)
  from Cons.prems obtain f1 t1 where s: "RangeLoop reqs f1 t1 = Inr rs" "f1 \<le> f" "t \<le> t1"
      "covers \<lparr>rKey = f1, rEndKey = t1\<rparr> h"
      "\<And>u. covers u h \<Longrightarrow> rKey u \<le> f \<Longrightarrow> t \<le> rEndKey u \<Longrightarrow> rKey u \<le> f1 \<and> t1 \<le> rEndKey u"
    by (rule RangeLoop_step) blast
  note IH = Cons.IH [OF s(1)]
  have "covers rs h" using covers_mono [OF s(4)] IH by simp
  then show ?case using IH s(2,3,5) by auto
qed auto

text \<open>The span \<open>Range\<close> computes for a batch is the least one that holds the address of every
  request's key and reaches the address bound of every end key.\<close>

lemma Range_least:
  assumes "Range reqs = Inr rs" "list_all (covers u) reqs" "rKey u \<le> KeyMax"
  shows "list_all (covers rs) reqs \<and> rKey u \<le> rKey rs \<and> rEndKey rs \<le> rEndKey u"
  using RangeLoop_least [OF assms(1) [unfolded Range_def]] assms(2,3) by simp

text \<open>Store-local keys decode to what they were made of.\<close>

lemma DecodeStoreKey_enc: "length suf = 4 \<Longrightarrow> DecodeStoreKey (MakeStoreKey suf detail) = Inr (suf, detail)"
  by (simp add: DecodeStoreKey_def MakeStoreKey_def)

lemma store_keys_roundtrip:
  "DecodeNodeTombstoneKey (StoreNodeTombstoneKey n) = Inr n"
  "DecodeStoreCachedSettingsKey (StoreCachedSettingsKey k) = Inr k"
  "length u = 16 \<Longrightarrow> DecodeStoreUnsafeReplicaRecoveryKey (StoreUnsafeReplicaRecoveryKey u) = Inr u"
  using uint32_asc.roundtrip [of n "[]"] bytes_asc.roundtrip [of k "[]"]
  by (simp_all add: DecodeNodeTombstoneKey_def StoreNodeTombstoneKey_def DecodeStoreKey_enc store_suffix_defs
      DecodeStoreCachedSettingsKey_def StoreCachedSettingsKey_def DecodeStoreUnsafeReplicaRecoveryKey_def
      StoreUnsafeReplicaRecoveryKey_def FromBytes_def)

end
