(* ===== verification/Engine_Key.thy ===== *)
theory Engine_Key
  imports Mvcc_Key Keys_Local Lock_Modes
begin

text \<open>
  General engine keys (\<open>engine/pkg/storage/engine_key.go\<close>): a key with an optional version, which is
  an encoded timestamp (an MVCC key) or a lock strength with a transaction ID (a key of the lock
  table).  The lemmas relate the encoding of an \<open>EngineKey\<close> to that of the versioned keys of
  \<open>Mvcc_Key\<close>, and the lock table to the local key space of \<open>Keys_Local\<close>.
\<close>

record EngineKey =
  EKey :: bytes
  Version :: bytes

definition EncodedLen :: "EngineKey \<Rightarrow> nat" where
  "EncodedLen k =
    (let n = length (EKey k) + 1; versionLen = length (Version k) in
     if versionLen > 0 then n + (1 + versionLen) else n)"

definition encodeToSizedBuf :: "EngineKey \<Rightarrow> bytes \<Rightarrow> bytes" where
  "encodeToSizedBuf k buf =
    (let buf1 = put_at buf 0 (EKey k);
         pos = length (EKey k);
         suffixLen = int (length buf) - int pos - 1;
         buf2 = (if suffixLen > 0 then put_at (buf1[pos := 0]) (pos + 1) (Version k) else buf1)
     in buf2[length buf - 1 := word_of_int suffixLen])"

definition Encode :: "EngineKey \<Rightarrow> bytes" where
  "Encode k = (let encodedLen = EncodedLen k in encodeToSizedBuf k (replicate encodedLen 0))"

definition EncodeToBuf :: "EngineKey \<Rightarrow> bytes \<Rightarrow> bytes" where
  "EncodeToBuf k buf =
    (let encodedLen = EncodedLen k;
         buf1 = (if length buf < encodedLen then replicate encodedLen 0 else take encodedLen buf)
     in encodeToSizedBuf k buf1)"

definition CopyEngineKey :: "EngineKey \<Rightarrow> EngineKey" where
  "CopyEngineKey k =
    (let buf = put_at (replicate (length (EKey k) + length (Version k)) 0) 0 (EKey k);
         k1 = k\<lparr>EKey := take (length (EKey k)) buf\<rparr>
     in if length (Version k1) > 0
        then k1\<lparr>Version := put_at (drop (length (EKey k1)) buf) 0 (Version k1)\<rparr> else k1)"

definition IsMVCCKey :: "EngineKey \<Rightarrow> bool" where
  "IsMVCCKey k \<longleftrightarrow> (let l = length (Version k) in l = 0 \<or> l = 8 \<or> l = 12 \<or> l = 13)"

definition IsLockTableKey :: "EngineKey \<Rightarrow> bool" where
  "IsLockTableKey k \<longleftrightarrow> length (Version k) = engineKeyVersionLockTableLen"

definition ToMVCCKey :: "EngineKey \<Rightarrow> MVCCKey result" where
  "ToMVCCKey k =
    (let key = \<lparr>MKey = EKey k, MTimestamp = emptyTimestamp\<rparr>;
         v = Version k;
         wall = be_word (take 8 v); logical = be_word (take 4 (drop 8 v)) in
     if length v = 0 then Inr key
     else if length v = 8 then
       Inr (key\<lparr>MTimestamp := \<lparr>WallTime = wall, Logical = 0, Synthetic = False\<rparr>\<rparr>)
     else if length v = 12 then
       Inr (key\<lparr>MTimestamp := \<lparr>WallTime = wall, Logical = logical, Synthetic = False\<rparr>\<rparr>)
     else if length v = 13 then
       Inr (key\<lparr>MTimestamp := \<lparr>WallTime = wall, Logical = logical, Synthetic = v ! 12 \<noteq> 0\<rparr>\<rparr>)
     else Inl (Errorf ''version is not an encoded timestamp %x''))"

record LockTableKey =
  LKey :: bytes
  LStrength :: Strength
  TxnUUID :: bytes

definition ToLockTableKey :: "EngineKey \<Rightarrow> LockTableKey result" where
  "ToLockTableKey k =
    rbind (DecodeLockTableSingleKey (EKey k)) (\<lambda>lockedKey.
      if length (Version k) = engineKeyVersionLockTableLen then
        let strength = int (unat (Version k ! 0)) in
        if strength < LockNone \<or> strength > LockExclusive then Inl (Errorf ''unknown strength %d'')
        else Inr \<lparr>LKey = lockedKey, LStrength = strength, TxnUUID = drop 1 (Version k)\<rparr>
      else Inl (Errorf ''version is not valid for a LockTableKey %x''))"

definition ValidateEngineKey :: "EngineKey \<Rightarrow> unit result" where
  "ValidateEngineKey k =
    (if isl (ToMVCCKey k) \<and> isl (ToLockTableKey k)
     then Inl (Errorf ''key %s is neither an MVCCKey or LockTableKey'') else Inr ())"

definition DecodeEngineKey :: "bytes \<Rightarrow> EngineKey option" where
  "DecodeEngineKey b =
    (if length b = 0 then None
     else
       let versionLen = unat (b ! (length b - 1));
           keyPartEnd = int (length b) - 1 - int versionLen
       in if keyPartEnd < 0 then None
          else Some \<lparr>EKey = take (nat keyPartEnd) b,
                     Version = (if versionLen > 0 then drop (nat keyPartEnd + 1) (take (length b - 1) b) else [])\<rparr>)"

definition GetKeyPartFromEngineKey :: "bytes \<Rightarrow> bytes option" where
  "GetKeyPartFromEngineKey engineKey =
    (if length engineKey = 0 then None
     else
       let versionLen = unat (engineKey ! (length engineKey - 1));
           keyPartEnd = int (length engineKey) - 1 - int versionLen
       in if keyPartEnd < 0 then None else Some (take (nat keyPartEnd) engineKey))"

text \<open>The scratch buffer only decides where the result is stored; the version is written into the
  17 bytes after the key, in the buffer or in a fresh slice.\<close>

definition ToEngineKey :: "LockTableKey \<Rightarrow> bytes \<Rightarrow> (EngineKey \<times> bytes) result" where
  "ToEngineKey lk buf =
    (if length (TxnUUID lk) \<noteq> 16 then Inl (Panic ''invalid TxnUUID'')
     else if LStrength lk \<noteq> LockExclusive then Inl (Panic ''unsupported lock strength'')
     else
       let estimatedLen = (length LocalRangeLockTablePrefix + length LockTableSingleKeyInfix + length (LKey lk) + 3) +
             engineKeyVersionLockTableLen;
           cap0 = (if length buf < estimatedLen then replicate estimatedLen 0 else buf);
           (ltKey, buf1) = LockTableSingleKey (LKey lk) cap0;
           spare = drop (length buf1) cap0;
           v0 = (if length spare \<ge> engineKeyVersionLockTableLen then take engineKeyVersionLockTableLen spare
                 else replicate engineKeyVersionLockTableLen 0);
           v1 = put_at (v0[0 := word_of_int (LStrength lk)]) 1 (TxnUUID lk)
       in Inr (\<lparr>EKey = ltKey, Version = v1\<rparr>, buf1))"

subsection \<open>The encoding in closed form\<close>

definition vpart :: "bytes \<Rightarrow> bytes" where
  "vpart v = (if v = [] then [] else 0 # v)"

lemma encodeToSizedBuf_eq:
  assumes "length buf = EncodedLen k"
  shows "encodeToSizedBuf k buf = EKey k @ vpart (Version k) @ [word_of_nat (length (vpart (Version k)))]"
proof (cases "Version k = []")
  case True
  then have "length (drop (length (EKey k)) buf) = Suc 0" using assms by (simp add: EncodedLen_def)
  then obtain x where "drop (length (EKey k)) buf = [x]" by (auto simp only: length_Suc_conv length_0_conv)
  then show ?thesis using True assms
    by (simp add: encodeToSizedBuf_def EncodedLen_def vpart_def put_at_0 Let_def)
next
  case False
  let ?n = "length (EKey k)" and ?m = "length (Version k)"
  have len: "length buf = ?n + ?m + 2" using assms False by (simp add: EncodedLen_def)
  then have "length (drop ?n buf) = ?m + 2" by simp
  then obtain x xs where x: "drop ?n buf = x # xs" "length xs = ?m + 1" by (cases "drop ?n buf") auto
  then obtain ys y where ys: "xs = ys @ [y]" "length ys = ?m" by (cases xs rule: rev_cases) auto
  have "put_at ((put_at buf 0 (EKey k))[?n := 0]) (?n + 1) (Version k) = EKey k @ 0 # Version k @ [y]"
    using ys(2) by (simp add: put_at_0 x(1) ys(1)) (simp add: put_at_def)
  moreover have "int (length buf) - int ?n - 1 = int (length (vpart (Version k)))"
    using len False by (simp add: vpart_def)
  moreover have "(EKey k @ 0 # Version k @ [y])[length buf - 1 := z] = EKey k @ 0 # Version k @ [z]" for z
    using len by (simp add: list_update_append)
  ultimately show ?thesis using False
    by (simp only: encodeToSizedBuf_def Let_def) (simp add: vpart_def)
qed

lemma Encode_eq: "Encode k = EKey k @ vpart (Version k) @ [word_of_nat (length (vpart (Version k)))]"
  by (simp add: Encode_def Let_def encodeToSizedBuf_eq)

lemma EncodeToBuf_eq: "EncodeToBuf k buf = Encode k"
  by (simp add: EncodeToBuf_def Let_def encodeToSizedBuf_eq Encode_eq)

lemma CopyEngineKey_eq: "CopyEngineKey k = k"
  by (cases k) (simp add: CopyEngineKey_def put_at_0 Let_def)

lemma last_byte:
  "length p < 256 \<Longrightarrow> unat ((k @ p @ [word_of_nat (length p) :: byte]) ! (length (k @ p @ [word_of_nat (length p) :: byte]) - 1)) = length p"
  by (simp add: nth_append unat_of_nat take_bit_nat_eq_self)

lemma DecodeEngineKey_parts:
  assumes "length p < 256"
  shows "DecodeEngineKey (k @ p @ [word_of_nat (length p)]) = Some \<lparr>EKey = k, Version = drop 1 p\<rparr>"
proof -
  let ?b = "k @ p @ [word_of_nat (length p) :: byte]"
  have n: "unat (?b ! (length ?b - 1)) = length p" by (rule last_byte [OF assms])
  have e: "int (length ?b) - 1 - int (length p) = int (length k)" by simp
  have "length ?b \<noteq> 0" by simp
  then have "DecodeEngineKey ?b = Some \<lparr>EKey = take (length k) ?b,
      Version = (if length p > 0 then drop (length k + 1) (take (length ?b - 1) ?b) else [])\<rparr>"
    unfolding DecodeEngineKey_def if_not_P [OF \<open>length ?b \<noteq> 0\<close>] n Let_def e by simp
  then show ?thesis by simp
qed

lemma DecodeEngineKey_Encode: "length (Version k) < 255 \<Longrightarrow> DecodeEngineKey (Encode k) = Some k"
  using DecodeEngineKey_parts [of "vpart (Version k)" "EKey k"] by (cases k) (simp add: Encode_eq vpart_def split: if_splits)

lemma GetKeyPartFromEngineKey_eq: "GetKeyPartFromEngineKey b = map_option EKey (DecodeEngineKey b)"
  by (simp add: GetKeyPartFromEngineKey_def DecodeEngineKey_def Let_def)

text \<open>The engine key of a versioned key.\<close>

definition mvcc_version :: "Timestamp \<Rightarrow> bytes" where
  "mvcc_version ts = (if IsEmpty ts then [] else ts_bytes ts)"

lemma vpart_mvcc: "vpart (mvcc_version ts) = version ts"
  using length_ts_bytes_cases [of ts] by (auto simp: vpart_def mvcc_version_def version_def)

lemma EncodeMVCCKey_engine: "EncodeMVCCKey m = Encode \<lparr>EKey = MKey m, Version = mvcc_version (MTimestamp m)\<rparr>"
  by (simp add: EncodeMVCCKey_eq Encode_eq vpart_mvcc) (simp add: ts_suffix_def version_def)

lemma ToMVCCKey_version:
  "ToMVCCKey \<lparr>EKey = MKey m, Version = mvcc_version (MTimestamp m)\<rparr> = Inr m"
proof (cases "IsEmpty (MTimestamp m)")
  case True
  then show ?thesis by (cases m) (simp add: ToMVCCKey_def mvcc_version_def IsEmpty_eq)
next
  case False
  have "be_bytes 8 w \<noteq> []" for w :: int64 by (simp add: be_bytes_unfold)
  with False show ?thesis
    by (cases m; cases "MTimestamp m"; cases "Logical (MTimestamp m) = 0"; cases "Synthetic (MTimestamp m)")
      (simp_all add: ToMVCCKey_def mvcc_version_def ts_bytes_def Let_def be_full_width nth_append)
qed

subsection \<open>The lock table\<close>

lemma LockTableSingleKey_closed:
  "LockTableSingleKey k buf = (LocalRangeLockTablePrefix @ LockTableSingleKeyInfix @ EncodeBytesAscending [] k,
     LocalRangeLockTablePrefix @ LockTableSingleKeyInfix @ EncodeBytesAscending [] k)"
  by (simp add: LockTableSingleKey_def Let_def append_buf)

lemma LockTableSingleNextKey_eq: "LockTableSingleNextKey k buf = LockTableSingleKey (KeyNext k) buf"
  by (simp add: LockTableSingleNextKey_def LockTableSingleKey_closed Let_def EncodeNextBytesAscending_eq EncodeBytesAscending_closed)

lemma DecodeLockTableSingleKey_iff:
  "DecodeLockTableSingleKey key = Inr k \<longleftrightarrow> key = fst (LockTableSingleKey k [])"
proof -
  have "DecodeLockTableSingleKey (fst (LockTableSingleKey k [])) = Inr k"
    using bytes_asc.roundtrip [of k "[]"] by (simp add: DecodeLockTableSingleKey_def LockTableSingleKey_closed)
  moreover have "key = fst (LockTableSingleKey k [])" if "DecodeLockTableSingleKey key = Inr k"
  proof -
    from that obtain b where b: "key = LocalRangeLockTablePrefix @ LockTableSingleKeyInfix @ b"
        and d: "DecodeBytesAscending b [] = Inr ([], k)"
      by (auto simp: DecodeLockTableSingleKey_def prefix_def Let_def rbind_Inr_conv split: if_splits)
    from d have "b = EncodeBytesAscending [] k" by (simp add: DecodeBytesAscending_iff)
    then show ?thesis by (simp add: b LockTableSingleKey_closed)
  qed
  ultimately show ?thesis by metis
qed

lemma LockTableSingleKey_less: "fst (LockTableSingleKey k buf) < fst (LockTableSingleKey k' buf') \<longleftrightarrow> k < k'"
  using bytes_asc.less_iff [of k k'] by (simp add: LockTableSingleKey_closed)

lemma LockTableSingleKey_inj: "fst (LockTableSingleKey k buf) = fst (LockTableSingleKey k' buf') \<longleftrightarrow> k = k'"
  using bytes_asc.inj [of k k'] by (simp add: LockTableSingleKey_closed)

definition lock_version :: "LockTableKey \<Rightarrow> bytes" where
  "lock_version lk = word_of_int (LStrength lk) # TxnUUID lk"

lemma ToEngineKey_eq:
  assumes "length (TxnUUID lk) = 16" "LStrength lk = LockExclusive"
  shows "ToEngineKey lk buf =
    Inr (\<lparr>EKey = fst (LockTableSingleKey (LKey lk) []), Version = lock_version lk\<rparr>, fst (LockTableSingleKey (LKey lk) []))"
proof -
  have "put_at (v[0 := x]) 1 (TxnUUID lk) = x # TxnUUID lk" if "length v = 17" for x v
    using that assms(1) by (cases v) (simp_all add: put_at_def)
  then have "put_at (v[0 := 3]) 1 (TxnUUID lk) = lock_version lk" if "length v = 17" for v
    using that assms(2) by (simp add: lock_version_def)
  then show ?thesis using assms by (simp add: ToEngineKey_def LockTableSingleKey_closed Let_def)
qed

lemma EngineKeyCompare_parts:
  assumes "length p < 256" "length q < 256"
  shows "EngineKeyCompare (k @ p @ [word_of_nat (length p)]) (l @ q @ [word_of_nat (length q)]) =
    (let c = bytes_Compare k l in
     if c \<noteq> 0 then c else if p = [] then (if q = [] then 0 else - 1) else if q = [] then 1
     else bytes_Compare (normalizeEngineKeyVersionForCompare q) (normalizeEngineKeyVersionForCompare p))"
proof -
  let ?a = "k @ p @ [word_of_nat (length p) :: byte]" and ?b = "l @ q @ [word_of_nat (length q) :: byte]"
  have ne: "\<not> (int (length ?a) - 1 < 0 \<or> int (length ?b) - 1 < 0)" by simp
  have na: "nat (int (length ?a) - 1) = length ?a - 1" "nat (int (length ?b) - 1) = length ?b - 1" by simp_all
  have sa: "int (length ?a) - 1 - int (length p) = int (length k)"
    and sb: "int (length ?b) - 1 - int (length q) = int (length l)" by simp_all
  have bare: "\<not> (int (length k) = - 1 \<and> int (length l) = - 1)"
    and sep: "\<not> (int (length k) < 0 \<or> int (length l) < 0)" by simp_all
  have parts: "take (length k) ?a = k" "take (length l) ?b = l"
      "drop (length k) (take (length ?a - 1) ?a) = p" "drop (length l) (take (length ?b - 1) ?b) = q" by simp_all
  show ?thesis
    unfolding EngineKeyCompare_def Let_def if_not_P [OF ne] na last_byte [OF assms(1)] last_byte [OF assms(2)] sa sb
      if_not_P [OF bare] prod.case if_not_P [OF sep] nat_int parts by simp
qed

lemma lock_compare:
  assumes "length (TxnUUID a) = 16" "length (TxnUUID b) = 16"
  shows "EngineKeyCompare (Encode \<lparr>EKey = ka, Version = lock_version a\<rparr>) (Encode \<lparr>EKey = kb, Version = lock_version b\<rparr>) =
    (if ka \<noteq> kb then bytes_Compare ka kb else bytes_Compare (lock_version b) (lock_version a))"
proof -
  have "vpart (lock_version l) = 0 # lock_version l" for l by (simp add: vpart_def lock_version_def)
  moreover have "normalizeEngineKeyVersionForCompare (0 # lock_version l) = 0 # lock_version l"
    if "length (TxnUUID l) = 16" for l
    using that by (simp add: normalizeEngineKeyVersionForCompare_def lock_version_def Let_def)
  moreover have "bytes_Compare (0 # x) (0 # y) = bytes_Compare x y" for x y by (simp add: bytes_Compare_def)
  ultimately show ?thesis
    using EngineKeyCompare_parts [of "0 # lock_version a" "0 # lock_version b" ka kb] assms
    by (simp add: Encode_eq lock_version_def Let_def del: of_nat_Suc)
qed

lemma ValidateEngineKey_iff:
  "ValidateEngineKey k = Inr () \<longleftrightarrow>
    IsMVCCKey k \<or> IsLockTableKey k \<and> unat (Version k ! 0) \<le> 3 \<and> (\<exists>key. EKey k = fst (LockTableSingleKey key []))"
proof -
  have m: "isl (ToMVCCKey k) \<longleftrightarrow> \<not> IsMVCCKey k"
    by (simp add: ToMVCCKey_def IsMVCCKey_def Let_def)
  have "\<not> isl (DecodeLockTableSingleKey (EKey k)) \<longleftrightarrow> (\<exists>key. EKey k = fst (LockTableSingleKey key []))"
    by (cases "DecodeLockTableSingleKey (EKey k)") (auto simp flip: DecodeLockTableSingleKey_iff)
  then have "\<not> isl (ToLockTableKey k) \<longleftrightarrow>
      IsLockTableKey k \<and> unat (Version k ! 0) \<le> 3 \<and> (\<exists>key. EKey k = fst (LockTableSingleKey key []))"
    using unat_less_uint [of "Version k ! 0" 4]
    by (cases "DecodeLockTableSingleKey (EKey k)") (auto simp: ToLockTableKey_def IsLockTableKey_def Let_def)
  then show ?thesis using m by (auto simp: ValidateEngineKey_def)
qed

subsection \<open>Properties\<close>

text \<open>An engine key with a version of fewer than 255 bytes survives its encoding into a buffer of
  any size and contents, with the length \<open>EncodedLen\<close> announces; the encoding of a versioned key
  is that of the engine key with the encoded timestamp as its version, and \<open>ToMVCCKey\<close> reads the
  versioned key back from it.\<close>

lemma engine_key_roundtrip:
  assumes "length (Version k) < 255"
  shows "DecodeEngineKey (EncodeToBuf k buf) = Some k \<and>
    GetKeyPartFromEngineKey (EncodeToBuf k buf) = Some (EKey k) \<and>
    length (EncodeToBuf k buf) = EncodedLen k \<and>
    rbind (case DecodeEngineKey (EncodeMVCCKey m) of None \<Rightarrow> Inl (Errorf []) | Some e \<Rightarrow> Inr e) ToMVCCKey = Inr m"
proof -
  have "length (mvcc_version ts) < 255" for ts
    using length_ts_bytes_cases [of ts] by (auto simp: mvcc_version_def)
  then have "DecodeEngineKey (EncodeMVCCKey m) = Some \<lparr>EKey = MKey m, Version = mvcc_version (MTimestamp m)\<rparr>"
    using DecodeEngineKey_Encode by (simp add: EncodeMVCCKey_engine)
  moreover have "length (Encode k) = EncodedLen k" by (simp add: Encode_eq EncodedLen_def vpart_def)
  ultimately show ?thesis
    using DecodeEngineKey_Encode [OF assms]
    by (simp add: EncodeToBuf_eq GetKeyPartFromEngineKey_eq ToMVCCKey_version)
qed

text \<open>C27: the lock table.  A lock converted to an engine key, whatever the scratch buffer, is valid and
  converts back; the store sorts locks by the locked key and the locks on one key from the greatest
  transaction ID down; the key for the successor of a locked key is the successor's lock key, so a
  span of keys and its span of lock keys hold the same locks.\<close>

theorem lock_table_keys:
  assumes "ToEngineKey a buf = Inr (ea, buf1)" "ToEngineKey b bufb = Inr (eb, buf2)"
  shows "ToLockTableKey ea = Inr a \<and> ValidateEngineKey ea = Inr () \<and>
    EngineKeyCompare (Encode ea) (Encode eb) =
      (if LKey a \<noteq> LKey b then bytes_Compare (LKey a) (LKey b) else bytes_Compare (TxnUUID b) (TxnUUID a)) \<and>
    LockTableSingleNextKey (LKey a) buf = LockTableSingleKey (KeyNext (LKey a)) buf \<and>
    (EKey ea < fst (LockTableSingleKey e scratch) \<longleftrightarrow> LKey a < e)"
proof -
  have wf: "length (TxnUUID a) = 16" "LStrength a = LockExclusive" "length (TxnUUID b) = 16" "LStrength b = LockExclusive"
    using assms by (auto simp: ToEngineKey_def split: if_splits)
  have ea: "ea = \<lparr>EKey = fst (LockTableSingleKey (LKey a) []), Version = lock_version a\<rparr>"
    and eb: "eb = \<lparr>EKey = fst (LockTableSingleKey (LKey b) []), Version = lock_version b\<rparr>"
    using assms ToEngineKey_eq wf by auto
  have conv: "ToLockTableKey ea = Inr a"
    using DecodeLockTableSingleKey_iff [of "EKey ea" "LKey a"] wf
    by (cases a) (simp add: ToLockTableKey_def ea lock_version_def)
  have valid: "ValidateEngineKey ea = Inr ()" using conv by (simp add: ValidateEngineKey_def)
  have "bytes_Compare (lock_version b) (lock_version a) = bytes_Compare (TxnUUID b) (TxnUUID a)"
    using wf by (simp add: bytes_Compare_def lock_version_def)
  moreover have "bytes_Compare (EKey ea) (EKey eb) = bytes_Compare (LKey a) (LKey b)"
    by (simp add: ea eb bytes_Compare_def LockTableSingleKey_less LockTableSingleKey_inj)
  ultimately have "EngineKeyCompare (Encode ea) (Encode eb) =
      (if LKey a \<noteq> LKey b then bytes_Compare (LKey a) (LKey b) else bytes_Compare (TxnUUID b) (TxnUUID a))"
    using lock_compare [OF wf(1,3)] by (simp add: ea eb LockTableSingleKey_inj)
  then show ?thesis
    using conv valid by (simp add: LockTableSingleNextKey_eq ea LockTableSingleKey_less)
qed

theorem lock_table_keys_witness:
  "ToLockTableKey \<lparr>EKey = [1, 0x7a, 0x6b, 0x12, 0x61, 0, 1], Version = 3 # replicate 16 7\<rparr> =
    Inr \<lparr>LKey = [0x61], LStrength = 3, TxnUUID = replicate 16 7\<rparr>"
proof -
  let ?lk = "\<lparr>LKey = [0x61], LStrength = 3, TxnUUID = replicate 16 7\<rparr>"
  have "ToEngineKey ?lk [] = Inr (\<lparr>EKey = [1, 0x7a, 0x6b, 0x12, 0x61, 0, 1], Version = 3 # replicate 16 7\<rparr>,
      [1, 0x7a, 0x6b, 0x12, 0x61, 0, 1])"
    using ToEngineKey_eq [of ?lk "[]"]
    by (simp add: LockTableSingleKey_closed lock_version_def prefix_defs infix_defs append_buf) (simp add: escapes_defs)
  from lock_table_keys [OF this this] show ?thesis by simp
qed

end
