(* ===== verification/Keys_Meta.thy ===== *)
theory Keys_Meta
  imports Keys_Local
begin

text \<open>
  Range addressing (\<open>engine/pkg/keys/keys.go\<close>): the two levels of meta keys under which range
  descriptors are stored, from a key to its meta key and back, and the bounds of the scans that look
  a descriptor up.  A descriptor of the range \<open>[start, end)\<close> is stored at \<open>RangeMetaKey(end)\<close>.
\<close>

subsection \<open>Meta keys\<close>

abbreviation (input) meta1PrefixByte :: byte where "meta1PrefixByte \<equiv> 0x02"
abbreviation (input) meta2PrefixByte :: byte where "meta2PrefixByte \<equiv> 0x03"
abbreviation (input) Meta1Prefix :: bytes where "Meta1Prefix \<equiv> [meta1PrefixByte]"
abbreviation (input) Meta2Prefix :: bytes where "Meta2Prefix \<equiv> [meta2PrefixByte]"

definition Meta1KeyMax :: bytes where "Meta1KeyMax = Meta1Prefix @ KeyMax"
definition Meta2KeyMax :: bytes where "Meta2KeyMax = Meta2Prefix @ KeyMax"

definition RangeMetaKey :: "bytes \<Rightarrow> bytes" where
  "RangeMetaKey key =
    (if length key = 0 then KeyMin
     else if key ! 0 = meta1PrefixByte then KeyMin
     else if key ! 0 = meta2PrefixByte then Meta1Prefix @ drop (length Meta2Prefix) key
     else Meta2Prefix @ key)"

definition UserKey :: "bytes \<Rightarrow> bytes" where
  "UserKey key =
    (if length key = 0 then Meta1Prefix
     else if key ! 0 = meta1PrefixByte then Meta2Prefix @ drop (length Meta1Prefix) key
     else if key ! 0 = meta2PrefixByte then drop (length Meta2Prefix) key
     else key)"

definition InMeta1 :: "bytes \<Rightarrow> bool result" where
  "InMeta1 k =
    (if k = KeyMin then Inr True else rbind (MustAddr Meta1Prefix) (\<lambda>p. Inr (prefix p k)))"

definition validateRangeMetaKey :: "bytes \<Rightarrow> unit result" where
  "validateRangeMetaKey key =
    (if key = KeyMin then Inr ()
     else if length key < length Meta1Prefix then Inl (Errorf ''too short'')
     else
       let pre = take (length Meta1Prefix) key; body = drop (length Meta1Prefix) key in
       if pre \<noteq> Meta2Prefix \<and> pre \<noteq> Meta1Prefix then Inl (Errorf ''not a meta key'')
       else if KeyMax < body then Inl (Errorf ''body of meta key range lookup is > KeyMax'')
       else Inr ())"

definition MetaScanBounds :: "bytes \<Rightarrow> RSpan result" where
  "MetaScanBounds key =
    rbind (validateRangeMetaKey key) (\<lambda>_.
      if key = Meta2KeyMax then Inl (Errorf ''Meta2KeyMax can't be used as the key of scan'')
      else if key = KeyMin then Inr \<lparr>rKey = Meta1Prefix, rEndKey = PrefixEnd Meta1Prefix\<rparr>
      else if key = Meta1KeyMax then Inr \<lparr>rKey = Meta1KeyMax, rEndKey = PrefixEnd Meta1Prefix\<rparr>
      else Inr \<lparr>rKey = KeyNext key, rEndKey = PrefixEnd (take (length Meta1Prefix) key)\<rparr>)"

definition MetaReverseScanBounds :: "bytes \<Rightarrow> RSpan result" where
  "MetaReverseScanBounds key =
    rbind (validateRangeMetaKey key) (\<lambda>_.
      if key = KeyMin \<or> key = Meta1Prefix
      then Inl (Errorf ''KeyMin and Meta1Prefix can't be used as the key of reverse scan'')
      else if key = Meta2Prefix then Inr \<lparr>rKey = Meta1Prefix, rEndKey = KeyNext key\<rparr>
      else Inr \<lparr>rKey = take (length Meta1Prefix) key, rEndKey = KeyNext key\<rparr>)"

subsection \<open>Properties\<close>

text \<open>Keys that are addressed by a second-level meta key.\<close>

definition ordinary :: "bytes \<Rightarrow> bool" where
  "ordinary k \<longleftrightarrow> k \<noteq> [] \<and> hd k \<noteq> meta1PrefixByte \<and> hd k \<noteq> meta2PrefixByte"

lemma RangeMetaKey_simps [simp]:
  "RangeMetaKey [] = []" "RangeMetaKey (2 # x) = []" "RangeMetaKey (3 # x) = 2 # x"
  "ordinary k \<Longrightarrow> RangeMetaKey k = 3 # k"
  by (auto simp: RangeMetaKey_def ordinary_def hd_conv_nth)

lemma key_kinds:
  obtains "k = []" | x where "k = 2 # x" | x where "k = 3 # x" | "ordinary k"
  by (cases k) (auto simp: ordinary_def)

lemma PrefixEnd_meta [simp]: "PrefixEnd [2] = [3]" "PrefixEnd [3] = [4]"
  using PrefixEnd_carry [of 2 "[]" 0] PrefixEnd_carry [of 3 "[]" 0] by simp_all

lemma MetaScanBounds_body:
  assumes "p \<in> {2, 3}" "body < KeyMax"
  shows "MetaScanBounds (p # body) = Inr \<lparr>rKey = p # body @ [0], rEndKey = [p + 1]\<rparr>"
  using assms by (auto simp: MetaScanBounds_def validateRangeMetaKey_def Meta1KeyMax_def Meta2KeyMax_def)

lemma MetaReverseScanBounds_body:
  assumes "p \<in> {2, 3}" "body \<noteq> []" "body \<le> KeyMax"
  shows "MetaReverseScanBounds (p # body) = Inr \<lparr>rKey = [p], rEndKey = p # body @ [0]\<rparr>"
  using assms by (auto simp: MetaReverseScanBounds_def validateRangeMetaKey_def)

lemma not_snoc_le [simp]: "\<not> k @ [0] \<le> (k :: bytes)"
  using less_append_Cons [of k 0 "[]"] by (simp add: not_le del: less_append_Cons)

lemma byte_gap: "(y :: byte) < 3 \<Longrightarrow> \<not> 2 < y"
  by (simp add: word_less_nat_alt)

lemma in_level:
  "RContainsKey \<lparr>rKey = p # body @ [0], rEndKey = [p + 1]\<rparr> (p # e) \<longleftrightarrow> body < e" if "p \<in> {2, 3 :: byte}"
  using that by (auto simp: RContainsKey_def bytes_Compare_def less_snoc_zero)

lemma in_level_reverse:
  "RContainsKey \<lparr>rKey = [p], rEndKey = p # body @ [0]\<rparr> (p # e) \<longleftrightarrow> e \<le> body" if "p \<in> {2, 3 :: byte}"
  using that by (auto simp: RContainsKey_def bytes_Compare_def less_snoc_zero)

text \<open>\<open>UserKey\<close> undoes \<open>RangeMetaKey\<close> on exactly the keys that have a meta key of their own
  (and on the meta1 prefix itself), two levels of indirection end at \<open>KeyMin\<close>'s record, and above
  the local key space meta keys are ordered as the keys they address.\<close>

lemma meta_addressing:
  "(UserKey (RangeMetaKey k) = k \<longleftrightarrow> k \<noteq> [] \<and> (hd k \<noteq> meta1PrefixByte \<or> k = Meta1Prefix)) \<and>
   RangeMetaKey (RangeMetaKey (RangeMetaKey k)) = KeyMin \<and>
   (LocalMax \<le> k \<and> k < k' \<longrightarrow> RangeMetaKey k \<le> RangeMetaKey k') \<and>
   InMeta1 (RangeMetaKey (RangeMetaKey k)) = Inr True"
proof -
  have in1: "InMeta1 k = Inr (k = [] \<or> prefix [2] k)" for k
    by (simp add: InMeta1_def MustAddr_def Addr_def IsLocal_def)
  have 1: "UserKey (RangeMetaKey k) = k \<longleftrightarrow> k \<noteq> [] \<and> (hd k \<noteq> meta1PrefixByte \<or> k = Meta1Prefix)"
    by (cases k rule: key_kinds) (auto simp: UserKey_def ordinary_def)
  have 2: "RangeMetaKey k \<le> RangeMetaKey k'" if "[2] \<le> k" "k < k'"
    using that
    by (cases k rule: key_kinds; cases k' rule: key_kinds) (auto simp: ordinary_def neq_Nil_conv dest: byte_gap)
  show ?thesis using 1 2 by (cases k rule: key_kinds) (auto simp: in1)
qed

text \<open>C29: range lookup.  The records of ranges ending at \<open>e\<close> that the forward scan for \<open>k\<close> can return
  are exactly those with \<open>k < e\<close>, at both meta levels, so the first one is the range that holds
  \<open>k\<close>; the reverse scan returns exactly those with \<open>e \<le> k\<close>.\<close>

theorem meta_scan_exact:
  assumes "ordinary k" "ordinary e" "k < KeyMax"
  shows "(case MetaScanBounds (RangeMetaKey k) of Inl _ \<Rightarrow> False
      | Inr rs \<Rightarrow> RContainsKey rs (RangeMetaKey e) \<longleftrightarrow> k < e) \<and>
    (case MetaScanBounds (RangeMetaKey (RangeMetaKey k)) of Inl _ \<Rightarrow> False
      | Inr rs \<Rightarrow> RContainsKey rs (RangeMetaKey (RangeMetaKey e)) \<longleftrightarrow> k < e) \<and>
    (case MetaReverseScanBounds (RangeMetaKey k) of Inl _ \<Rightarrow> False
      | Inr rs \<Rightarrow> RContainsKey rs (RangeMetaKey e) \<longleftrightarrow> e \<le> k) \<and>
    (case MetaReverseScanBounds (RangeMetaKey (RangeMetaKey k)) of Inl _ \<Rightarrow> False
      | Inr rs \<Rightarrow> RContainsKey rs (RangeMetaKey (RangeMetaKey e)) \<longleftrightarrow> e \<le> k)"
proof -
  have "k \<noteq> []" "k \<le> KeyMax" using assms by (auto simp: ordinary_def)
  then show ?thesis
    using assms in_level [of 3 k e] in_level [of 2 k e] in_level_reverse [of 3 k e] in_level_reverse [of 2 k e]
    by (simp add: MetaScanBounds_body MetaReverseScanBounds_body)
qed

theorem meta_scan_exact_witness:
  "case MetaScanBounds (RangeMetaKey [0x61]) of Inl _ \<Rightarrow> False
      | Inr rs \<Rightarrow> RContainsKey rs (RangeMetaKey [0x62])"
  using meta_scan_exact [of "[0x61]" "[0x62]"] by (simp add: ordinary_def split: sum.splits)

end
