(* ===== verification/Keys_Sql.thy ===== *)
theory Keys_Sql
  imports Keys_Local Enc_Keys
begin

text \<open>
  Keys of SQL data (\<open>engine/pkg/keys/sql.go\<close> and the table-key functions of
  \<open>engine/pkg/keys/keys.go\<close>): the tenant prefix, table and index prefixes, the column family suffix,
  and the split key of a row.  A \<open>TenantID\<close> is its 64-bit number, where 0 is the unset one; the codec
  of a tenant is a record of the two keys it holds.
\<close>

subsection \<open>Tenants\<close>

abbreviation (input) tenantPrefixByte :: byte where "tenantPrefixByte \<equiv> 0xfe"
abbreviation (input) TenantPrefix :: bytes where "TenantPrefix \<equiv> [tenantPrefixByte]"
abbreviation (input) SystemTenantID :: uint64 where "SystemTenantID \<equiv> 1"

definition checkValid :: "uint64 \<Rightarrow> unit result" where
  "checkValid i = (if i = 0 then Inl (Errorf ''invalid tenant ID 0'') else Inr ())"

definition assertValid :: "uint64 \<Rightarrow> unit result" where
  "assertValid i = (case checkValid i of Inl _ \<Rightarrow> Inl (Panic ''invalid tenant ID 0'') | Inr u \<Rightarrow> Inr u)"

definition MustMakeTenantID :: "uint64 \<Rightarrow> uint64 result" where
  "MustMakeTenantID i = rbind (assertValid i) (\<lambda>_. Inr i)"

definition MakeTenantID :: "uint64 \<Rightarrow> uint64 result" where
  "MakeTenantID i = rbind (checkValid i) (\<lambda>_. Inr i)"

definition ToUint64 :: "uint64 \<Rightarrow> uint64 result" where
  "ToUint64 t = rbind (assertValid t) (\<lambda>_. Inr t)"

definition MakeTenantPrefix :: "uint64 \<Rightarrow> bytes result" where
  "MakeTenantPrefix tenID =
    (if tenID = SystemTenantID then Inr []
     else rbind (ToUint64 tenID) (\<lambda>i. Inr (EncodeUvarintAscending TenantPrefix i)))"

definition MakeTenantSpan :: "uint64 \<Rightarrow> Span result" where
  "MakeTenantSpan tenID =
    (if tenID = SystemTenantID then Inr \<lparr>Key = KeyMin, EndKey = KeyMax\<rparr>
     else rbind (ToUint64 tenID) (\<lambda>tenIDint.
       Inr \<lparr>Key = EncodeUvarintAscending TenantPrefix tenIDint,
            EndKey = EncodeUvarintAscending TenantPrefix (tenIDint + 1)\<rparr>))"

definition DecodeTenantPrefix :: "bytes \<Rightarrow> (bytes \<times> uint64) result" where
  "DecodeTenantPrefix key =
    (if length key = 0 then Inr ([], SystemTenantID)
     else if key ! 0 \<noteq> tenantPrefixByte then Inr (key, SystemTenantID)
     else rbind (DecodeUvarintAscending (drop 1 key)) (\<lambda>(rm, tenID).
       rbind (MakeTenantID tenID) (\<lambda>i. Inr (rm, i))))"

definition DecodeTenantPrefixE :: "bytes \<Rightarrow> (bytes \<times> uint64) result" where
  "DecodeTenantPrefixE key =
    (if length key = 0 then Inr ([], SystemTenantID)
     else if key ! 0 \<noteq> tenantPrefixByte then Inr (key, SystemTenantID)
     else rbind (DecodeUvarintAscending (drop 1 key)) (\<lambda>(rm, tenID).
       rbind (MakeTenantID tenID) (\<lambda>i. Inr (rm, i))))"

definition StripTenantPrefix :: "bytes \<Rightarrow> bytes result" where
  "StripTenantPrefix key =
    (if length key = 0 then Inr []
     else if key ! 0 \<noteq> tenantPrefixByte then Inr key
     else rbind (DecodeUvarintAscending (drop 1 key)) (\<lambda>(key1, _). Inr key1))"

definition StripTablePrefix :: "bytes \<Rightarrow> bytes result" where
  "StripTablePrefix key =
    rbind (StripTenantPrefix key) (\<lambda>key1.
      if PeekType key1 \<noteq> Type_Int then Inl (Errorf ''invalid table key prefix: %q'')
      else rbind (DecodeUvarintAscending key1) (\<lambda>(key2, _). Inr key2))"

definition StripIndexPrefix :: "bytes \<Rightarrow> bytes result" where
  "StripIndexPrefix key =
    rbind (StripTablePrefix key) (\<lambda>key1.
      if PeekType key1 \<noteq> Type_Int then Inl (Errorf ''invalid index key prefix: %q'')
      else rbind (DecodeUvarintAscending key1) (\<lambda>(key2, _). Inr key2))"

subsection \<open>Table keys\<close>

definition MakeTableIDIndexID :: "bytes \<Rightarrow> uint32 \<Rightarrow> uint32 \<Rightarrow> bytes" where
  "MakeTableIDIndexID key tableID indexID =
     EncodeUvarintAscending (EncodeUvarintAscending key (ucast tableID)) (ucast indexID)"

definition DecodeTableIDIndexID :: "bytes \<Rightarrow> (bytes \<times> uint32 \<times> uint32) result" where
  "DecodeTableIDIndexID key =
    rbind (DecodeUvarintAscending key) (\<lambda>(key1, tableID).
      rbind (DecodeUvarintAscending key1) (\<lambda>(key2, indexID).
        Inr (key2, ucast tableID, ucast indexID)))"

definition MakeFamilyKey :: "bytes \<Rightarrow> uint32 \<Rightarrow> bytes" where
  "MakeFamilyKey key famID =
    (if famID = 0 then EncodeUvarintAscending key 0
     else
       let size = length key;
           key1 = EncodeUvarintAscending key (ucast famID)
       in EncodeUvarintAscending key1 (word_of_nat (length key1 - size)))"

definition GetRowPrefixLength :: "bytes \<Rightarrow> int result" where
  "GetRowPrefixLength key =
    (let n = int (length key) in
     case DecodeTenantPrefix key of
       Inl _ \<Rightarrow> Inl (Errorf ''%s: not a valid table key'')
     | Inr (sqlKey, _) \<Rightarrow>
       let sqlN = int (length sqlKey) in
       if PeekType sqlKey \<noteq> Type_Int then Inr n
       else rbind (GetUvarintLen sqlKey) (\<lambda>tableIDLen.
         if PeekType (drop (nat tableIDLen) sqlKey) \<noteq> Type_Int then Inr n
         else rbind (GetUvarintLen (drop (nat tableIDLen) sqlKey)) (\<lambda>indexIDLen.
           if tableIDLen + indexIDLen = sqlN then Inr n
           else
             let colFamIDLenByte = drop (nat (sqlN - 1)) sqlKey in
             if PeekType colFamIDLenByte \<noteq> Type_Int then Inl (Errorf ''%s: not a valid table key'')
             else rbind (DecodeUvarintAscending colFamIDLenByte) (\<lambda>(_, colFamIDLen).
               if int (unat colFamIDLen) > sqlN - 1 then Inl (Errorf ''%s: malformed table key'')
               else Inr (n - int (unat colFamIDLen) - 1)))))"

definition DecodeFamilyKey :: "bytes \<Rightarrow> uint32 result" where
  "DecodeFamilyKey key =
    rbind (GetRowPrefixLength key) (\<lambda>n.
      if n \<le> 0 \<or> n \<ge> int (length key) then Inl (Errorf ''invalid row prefix, got prefix length %d for key %s'')
      else rbind (DecodeUvarintAscending (drop (nat n) key)) (\<lambda>(_, colFamilyID).
        if colFamilyID > 0xffffffff then Inl (Errorf ''column family ID overflow, got %d'')
        else Inr (ucast colFamilyID)))"

definition EnsureSafeSplitKey :: "bytes \<Rightarrow> bytes result" where
  "EnsureSafeSplitKey key =
    rbind (GetRowPrefixLength key) (\<lambda>idx.
      if idx < 0 \<or> idx > int (length key) then Inl (Panic ''slice bounds out of range'')
      else Inr (take (nat idx) key))"

subsection \<open>The codec of a tenant\<close>

record SQLCodec =
  cbuf :: bytes
  cendKey :: bytes

definition MakeSQLCodec :: "uint64 \<Rightarrow> SQLCodec result" where
  "MakeSQLCodec tenID = rbind (MakeTenantSpan tenID) (\<lambda>sp. Inr \<lparr>cbuf = Key sp, cendKey = EndKey sp\<rparr>)"

abbreviation (input) codecTenantPrefix :: "SQLCodec \<Rightarrow> bytes" where "codecTenantPrefix e \<equiv> cbuf e"

definition ForSystemTenant :: "SQLCodec \<Rightarrow> bool" where
  "ForSystemTenant e \<longleftrightarrow> length (codecTenantPrefix e) = 0"

definition TenantSpan :: "SQLCodec \<Rightarrow> Span" where
  "TenantSpan e = \<lparr>Key = cbuf e, EndKey = cendKey e\<rparr>"

definition TablePrefix :: "SQLCodec \<Rightarrow> uint32 \<Rightarrow> bytes" where
  "TablePrefix e tableID = EncodeUvarintAscending (codecTenantPrefix e) (ucast tableID)"

definition IndexPrefix :: "SQLCodec \<Rightarrow> uint32 \<Rightarrow> uint32 \<Rightarrow> bytes" where
  "IndexPrefix e tableID indexID = EncodeUvarintAscending (TablePrefix e tableID) (ucast indexID)"

definition DescMetadataPrefix :: "SQLCodec \<Rightarrow> bytes" where
  "DescMetadataPrefix e = IndexPrefix e 3 1"

definition DescMetadataKey :: "SQLCodec \<Rightarrow> uint32 \<Rightarrow> bytes" where
  "DescMetadataKey e descID = MakeFamilyKey (EncodeUvarintAscending (DescMetadataPrefix e) (ucast descID)) 2"

definition TenantMetadataKey :: "SQLCodec \<Rightarrow> uint64 \<Rightarrow> bytes result" where
  "TenantMetadataKey e tenID =
    (let k = IndexPrefix e 8 1 in
     rbind (ToUint64 tenID) (\<lambda>i. Inr (MakeFamilyKey (EncodeUvarintAscending k i) 0)))"

definition SequenceKey :: "SQLCodec \<Rightarrow> uint32 \<Rightarrow> bytes" where
  "SequenceKey e tableID = MakeFamilyKey (EncodeUvarintAscending (IndexPrefix e tableID 1) 0) 0"

definition codecStripTenantPrefix :: "SQLCodec \<Rightarrow> bytes \<Rightarrow> bytes result" where
  "codecStripTenantPrefix d key =
    (let tenPrefix = cbuf d in
     if \<not> prefix tenPrefix key then Inl (Errorf ''invalid tenant id prefix: %q'')
     else Inr (drop (length tenPrefix) key))"

definition DecodeTablePrefix :: "SQLCodec \<Rightarrow> bytes \<Rightarrow> (bytes \<times> uint32) result" where
  "DecodeTablePrefix d key =
    rbind (codecStripTenantPrefix d key) (\<lambda>key1.
      if PeekType key1 \<noteq> Type_Int then Inl (Errorf ''invalid key prefix: %q'')
      else rbind (DecodeUvarintAscending key1) (\<lambda>(key2, tableID). Inr (key2, ucast tableID)))"

definition DecodeIndexPrefix :: "SQLCodec \<Rightarrow> bytes \<Rightarrow> (bytes \<times> uint32 \<times> uint32) result" where
  "DecodeIndexPrefix d key =
    rbind (DecodeTablePrefix d key) (\<lambda>(key1, tableID).
      if PeekType key1 \<noteq> Type_Int then Inl (Errorf ''invalid key prefix: %q'')
      else rbind (DecodeUvarintAscending key1) (\<lambda>(key2, indexID). Inr (key2, tableID, ucast indexID)))"

definition DecodeDescMetadataID :: "SQLCodec \<Rightarrow> bytes \<Rightarrow> uint32 result" where
  "DecodeDescMetadataID d key =
    rbind (DecodeIndexPrefix d key) (\<lambda>(remaining, tableID, _).
      if tableID \<noteq> 3 then Inl (Errorf ''key is not a descriptor table entry: %v'')
      else rbind (DecodeUvarintAscending remaining) (\<lambda>(_, i).
        if i > 0xffffffff then Inl (Errorf ''descriptor ID %d exceeds uint32 bounds'')
        else Inr (ucast i)))"

definition DecodeTenantMetadataID :: "SQLCodec \<Rightarrow> bytes \<Rightarrow> uint64 result" where
  "DecodeTenantMetadataID d key =
    rbind (DecodeIndexPrefix d key) (\<lambda>(remaining, tableID, indexID).
      if tableID \<noteq> 8 \<or> indexID \<noteq> 1 then Inl (Errorf ''key is not a tenant table entry: %v'')
      else rbind (DecodeUvarintAscending remaining) (\<lambda>(_, i). MustMakeTenantID i))"

definition DecodeZoneConfigMetadataID :: "SQLCodec \<Rightarrow> bytes \<Rightarrow> (bytes \<times> uint32) result" where
  "DecodeZoneConfigMetadataID d key =
    rbind (DecodeIndexPrefix d key) (\<lambda>(remaining, tableID, indexID).
      if tableID \<noteq> 5 \<or> indexID \<noteq> 1 then Inl (Errorf ''key is not a zones table entry: %v'')
      else rbind (DecodeUvarintAscending remaining) (\<lambda>(remaining1, i). Inr (remaining1, ucast i)))"

text \<open>The key is rewritten in place when the new prefix is not longer than the old one: the tail of
  the slice is kept and the prefix copied over its head.\<close>

definition RewriteKeyToTenantPrefix :: "bytes \<Rightarrow> bytes \<Rightarrow> bytes result" where
  "RewriteKeyToTenantPrefix key pre =
    (if length pre = 0 \<and> prefix TenantPrefix key \<or> \<not> prefix pre key then
       rbind (DecodeTenantPrefix key) (\<lambda>(suf, _).
         let extra = int (length key) - int (length pre) - int (length suf) in
         if extra \<ge> 0 then Inr (pre @ drop (length pre) (drop (nat extra) key))
         else Inr (pre @ suf))
     else Inr key)"

definition RewriteSpanToTenantPrefix :: "Span \<Rightarrow> bytes \<Rightarrow> Span result" where
  "RewriteSpanToTenantPrefix sp pre =
    rbind (RewriteKeyToTenantPrefix (Key sp) pre) (\<lambda>k.
      rbind (RewriteKeyToTenantPrefix (EndKey sp) pre) (\<lambda>ek. Inr \<lparr>Key = k, EndKey = ek\<rparr>))"

subsection \<open>Tenant prefixes\<close>

lemma tenant_prefix_cases:
  assumes "MakeTenantPrefix t = Inr tp"
  obtains "t = 1" "tp = []" | "t \<noteq> 1" "t \<noteq> 0" "tp = 0xfe # EncodeUvarintAscending [] t"
  using assms by (auto simp: MakeTenantPrefix_def ToUint64_def assertValid_def checkValid_def append_buf split: if_splits)

definition sql_key :: "bytes \<Rightarrow> bool" where
  "sql_key k \<longleftrightarrow> \<not> prefix TenantPrefix k"

lemma DecodeTenantPrefix_enc:
  assumes "MakeTenantPrefix t = Inr tp" "sql_key r"
  shows "DecodeTenantPrefix (tp @ r) = Inr (r, t)"
  using assms(1)
proof (cases rule: tenant_prefix_cases)
  case 1
  then show ?thesis using assms(2) by (cases r) (auto simp: DecodeTenantPrefix_def sql_key_def)
next
  case 2
  then show ?thesis using uvarint_asc.roundtrip [of t r]
    by (simp add: DecodeTenantPrefix_def MakeTenantID_def checkValid_def)
qed

lemma uvarint_sql_key: "sql_key (EncodeUvarintAscending [] v @ r)"
proof -
  obtain x xs where x: "EncodeUvarintAscending [] v = x # xs" "unat x \<le> 253" using uvarint_tag_range [of v] by blast
  then have "x \<noteq> 0xfe" by auto
  then show ?thesis using x(1) by (simp add: sql_key_def)
qed

lemma PeekType_uvarint: "PeekType (EncodeUvarintAscending [] v @ r) = Type_Int"
proof -
  obtain t xs where t: "EncodeUvarintAscending [] v = t # xs" "136 \<le> unat t" "unat t \<le> 253"
    using uvarint_tag_range [of v] by blast
  then show ?thesis by (simp add: PeekType_int)
qed

lemma GetUvarintLen_enc: "GetUvarintLen (EncodeUvarintAscending [] v @ r) = Inr (int (length (EncodeUvarintAscending [] v)))"
  using uvarint_asc.roundtrip [of v r] by (simp add: GetUvarintLen_agrees)

lemma length_uvarint_le: "length (EncodeUvarintAscending [] v) \<le> 9" "0 < length (EncodeUvarintAscending [] v)"
  using uvarint_width_range [of v] by (auto simp: length_uvarint_asc)

subsection \<open>Column families\<close>

definition family_suffix :: "uint32 \<Rightarrow> bytes" where
  "family_suffix f = (if f = 0 then [] else EncodeUvarintAscending [] (ucast f))"

lemma uvarint_small: "v \<le> intSmall \<Longrightarrow> EncodeUvarintAscending b v = b @ [intZero + ucast v]"
  by (simp add: append_buf)

lemma uvarint_append: "NO_MATCH [] b \<Longrightarrow> EncodeUvarintAscending b v = b @ EncodeUvarintAscending [] v"
  by (simp add: append_buf)

lemma MakeFamilyKey_closed:
  "MakeFamilyKey key f = key @ family_suffix f @ EncodeUvarintAscending [] (word_of_nat (length (family_suffix f)))"
  by (simp add: MakeFamilyKey_def family_suffix_def Let_def uvarint_append)

lemma family_length_byte:
  "\<exists>x. EncodeUvarintAscending [] (word_of_nat (length (family_suffix f))) = [x] \<and>
    DecodeUvarintAscending [x] = Inr ([], word_of_nat (length (family_suffix f))) \<and> PeekType [x] = Type_Int"
proof -
  let ?n = "word_of_nat (length (family_suffix f)) :: uint64"
  have "length (family_suffix f) \<le> 9" using length_uvarint_le by (simp add: family_suffix_def)
  then have "?n \<le> intSmall" by (simp add: word_le_nat_alt unat_of_nat take_bit_nat_eq_self)
  then have e: "EncodeUvarintAscending [] ?n = [intZero + ucast ?n]" using uvarint_small [of ?n "[]"] by simp
  show ?thesis
    using uvarint_asc.roundtrip [of ?n "[]"] PeekType_uvarint [of ?n "[]"] unfolding e by simp
qed

text \<open>The key of a row: the prefixes of its tenant, table and index, and the encoded columns.\<close>

definition row_prefix :: "bytes \<Rightarrow> uint32 \<Rightarrow> uint32 \<Rightarrow> bytes \<Rightarrow> bytes" where
  "row_prefix tp tableID indexID cols = tp @ MakeTableIDIndexID [] tableID indexID @ cols"

lemma GetRowPrefixLength_family:
  assumes "MakeTenantPrefix t = Inr tp"
  shows "GetRowPrefixLength (MakeFamilyKey (row_prefix tp tableID indexID cols) f) =
    Inr (int (length (row_prefix tp tableID indexID cols)))"
proof -
  obtain x where x: "EncodeUvarintAscending [] (word_of_nat (length (family_suffix f))) = [x]"
      "DecodeUvarintAscending [x] = Inr ([], word_of_nat (length (family_suffix f)))" "PeekType [x] = Type_Int"
    using family_length_byte by blast
  let ?t = "EncodeUvarintAscending [] (ucast tableID)" and ?i = "EncodeUvarintAscending [] (ucast indexID)"
  let ?tail = "cols @ family_suffix f @ [x]"
  let ?sql = "?t @ ?i @ ?tail"
  have key: "MakeFamilyKey (row_prefix tp tableID indexID cols) f = tp @ ?sql"
    by (simp add: MakeFamilyKey_closed x(1) row_prefix_def MakeTableIDIndexID_def uvarint_append)
  have dec: "DecodeTenantPrefix (tp @ ?sql) = Inr (?sql, t)"
    by (rule DecodeTenantPrefix_enc [OF assms]) (rule uvarint_sql_key)
  have n: "unat (word_of_nat (length (family_suffix f)) :: uint64) = length (family_suffix f)"
    using length_uvarint_le(1) [of "ucast f"] by (simp add: family_suffix_def unat_of_nat take_bit_nat_eq_self)
  have len: "length (row_prefix tp tableID indexID cols) = length tp + length ?t + length ?i + length cols"
    by (simp add: row_prefix_def MakeTableIDIndexID_def uvarint_append)
  have idx: "PeekType (drop (nat (int (length ?t))) ?sql) = Type_Int"
      "GetUvarintLen (drop (nat (int (length ?t))) ?sql) = Inr (int (length ?i))"
    by (simp_all add: PeekType_uvarint GetUvarintLen_enc)
  have more: "int (length ?t) + int (length ?i) \<noteq> int (length ?sql)" by simp
  have last: "drop (nat (int (length ?sql) - 1)) ?sql = [x]" by simp
  have fits: "\<not> int (length ?sql) - 1 < int (length (family_suffix f))" by simp
  have "GetRowPrefixLength (tp @ ?sql) = Inr (int (length (tp @ ?sql)) - int (length (family_suffix f)) - 1)"
    unfolding GetRowPrefixLength_def Let_def dec sum.case prod.case PeekType_uvarint GetUvarintLen_enc rbind_simps
      idx if_not_P [OF more] last x n if_not_P [OF fits] by simp
  then show ?thesis by (simp add: key len)
qed

lemma DecodeUvarintAscending_shrinks: "DecodeUvarintAscending b = Inr (r, v) \<Longrightarrow> length r < length b"
  by (auto simp: DecodeUvarintAscending_def Let_def split: list.splits if_splits)

lemma DecodeTenantPrefix_shrinks: "DecodeTenantPrefix key = Inr (sqlKey, t) \<Longrightarrow> length sqlKey \<le> length key"
  by (auto simp: DecodeTenantPrefix_def rbind_Inr_conv split: if_splits dest!: DecodeUvarintAscending_shrinks)

lemma GetRowPrefixLength_bounds:
  assumes "GetRowPrefixLength key = Inr i"
  shows "0 \<le> i \<and> i \<le> int (length key)"
proof -
  obtain sqlKey t where d: "DecodeTenantPrefix key = Inr (sqlKey, t)"
    using assms by (auto simp: GetRowPrefixLength_def Let_def split: sum.splits)
  have "- 1 \<le> uint b" for b :: uint64 using unsigned_greater_eq [of b, where ?'a = int] by linarith
  with DecodeTenantPrefix_shrinks [OF d] show ?thesis using assms d
    by (auto simp: GetRowPrefixLength_def Let_def rbind_Inr_conv split: if_splits)
qed

lemma DecodeUvarintAscending_no_panic: "DecodeUvarintAscending b \<noteq> Inl (Panic m)"
  by (auto simp: DecodeUvarintAscending_def Let_def split: list.split)

lemma GetUvarintLen_no_panic: "GetUvarintLen b \<noteq> Inl (Panic m)"
  by (auto simp: GetUvarintLen_def Let_def split: list.split)

lemma GetRowPrefixLength_no_panic: "GetRowPrefixLength key \<noteq> Inl (Panic m)"
  by (auto simp: GetRowPrefixLength_def Let_def rbind_Inl_conv DecodeUvarintAscending_no_panic
      GetUvarintLen_no_panic split: sum.splits)

lemma unat_ucast32: "unat (ucast (x :: uint32) :: uint64) = unat x"
  using unsigned_less [of x, where ?'a = nat] by (simp add: unsigned_ucast_eq take_bit_nat_eq_self)

lemma MakeFamilyKey_less: "MakeFamilyKey key f < MakeFamilyKey key g \<longleftrightarrow> f < g"
proof -
  have e: "MakeFamilyKey key f = key @ EncodeUvarintAscending [] (ucast f) @
      (if f = 0 then [] else EncodeUvarintAscending [] (word_of_nat (length (family_suffix f))))" for f
    by (simp add: MakeFamilyKey_closed) (simp add: family_suffix_def)
  have "(ucast f :: uint64) = ucast g \<longleftrightarrow> f = g" "(ucast f :: uint64) < ucast g \<longleftrightarrow> f < g"
    by (simp_all add: word_less_nat_alt unat_ucast32 word_unat_eq_iff)
  then show ?thesis
    using uvarint_asc.less_append_iff [where v = "ucast f" and w = "ucast g"
        and r = "if f = 0 then [] else EncodeUvarintAscending [] (word_of_nat (length (family_suffix f)))"
        and s = "if g = 0 then [] else EncodeUvarintAscending [] (word_of_nat (length (family_suffix g)))"]
    by (auto simp: e [of f] e [of g])
qed

subsection \<open>The codec\<close>

lemma MakeSQLCodec_prefix: "MakeSQLCodec t = Inr c \<Longrightarrow> MakeTenantPrefix t = Inr (cbuf c)"
  by (auto simp: MakeSQLCodec_def MakeTenantSpan_def MakeTenantPrefix_def rbind_Inr_conv split: if_splits)

lemma IndexPrefix_closed:
  "IndexPrefix c tbl idx = cbuf c @ EncodeUvarintAscending [] (ucast tbl) @ EncodeUvarintAscending [] (ucast idx)"
  by (simp add: IndexPrefix_def TablePrefix_def uvarint_append)

lemma ucast_ucast32 [simp]: "(ucast (ucast (x :: uint32) :: uint64) :: uint32) = x"
  by (rule bit_word_eqI) (simp add: bit_ucast_iff)

lemma DecodeIndexPrefix_enc: "DecodeIndexPrefix c (IndexPrefix c tbl idx @ r) = Inr (r, tbl, idx)"
  using uvarint_asc.roundtrip [of "ucast tbl" "EncodeUvarintAscending [] (ucast idx) @ r"]
    uvarint_asc.roundtrip [of "ucast idx" r]
  by (simp add: DecodeIndexPrefix_def DecodeTablePrefix_def codecStripTenantPrefix_def IndexPrefix_closed PeekType_uvarint)

lemma RewriteKey_enc:
  assumes "MakeTenantPrefix t = Inr tp" "MakeTenantPrefix u = Inr up" "sql_key r"
  shows "RewriteKeyToTenantPrefix (tp @ r) up = Inr (up @ r)"
proof (cases "length up = 0 \<and> prefix TenantPrefix (tp @ r) \<or> \<not> prefix up (tp @ r)")
  case True
  have "drop (length up) (drop (nat (int (length (tp @ r)) - int (length up) - int (length r))) (tp @ r)) = r"
    if "int (length (tp @ r)) - int (length up) - int (length r) \<ge> 0"
    using that by (simp add: nat_diff_distrib')
  with True show ?thesis
    by (simp add: RewriteKeyToTenantPrefix_def DecodeTenantPrefix_enc [OF assms(1,3)] Let_def)
next
  case False
  have "tp = up"
    using assms(1)
  proof (cases rule: tenant_prefix_cases)
    case 1
    then show ?thesis using False assms(3) by (cases rule: tenant_prefix_cases [OF assms(2)]) (auto simp: sql_key_def prefix_def)
  next
    case 2
    then show ?thesis using False
      by (cases rule: tenant_prefix_cases [OF assms(2)]) (auto simp: prefix_def dest: uvarint_asc.cut [rotated 2])
  qed
  then show ?thesis using False unfolding RewriteKeyToTenantPrefix_def if_not_P [OF False] by simp
qed

lemma tenant_span_member:
  assumes "t \<notin> {0, 1}" "t + 1 \<noteq> 0" "u \<notin> {0, 1}"
  shows "ContainsKey \<lparr>Key = 0xfe # EncodeUvarintAscending [] t, EndKey = 0xfe # EncodeUvarintAscending [] (t + 1)\<rparr>
      (0xfe # EncodeUvarintAscending [] u @ r) \<longleftrightarrow> t = u"
proof -
  have "unat (t + 1) = Suc (unat t)" using assms(2) by (simp add: unatSuc add.commute)
  then have suc: "u < t + 1 \<longleftrightarrow> u \<le> t" by (simp add: word_less_nat_alt word_le_nat_alt less_Suc_eq_le)
  have "\<not> EncodeUvarintAscending [] u @ r < EncodeUvarintAscending [] t \<longleftrightarrow> t \<le> u"
    using uvarint_asc.less_append_iff [where v = u and w = t and r = r and s = "[]"] by auto
  moreover have "EncodeUvarintAscending [] u @ r < EncodeUvarintAscending [] (t + 1) \<longleftrightarrow> u \<le> t"
    using uvarint_asc.less_append_iff [where v = u and w = "t + 1" and r = r and s = "[]"] suc by auto
  ultimately show ?thesis
    by (auto simp: ContainsKey_def bytes_Compare_def not_less)
qed

subsection \<open>Properties\<close>

text \<open>C28: for the key of any column family of any row, the split key \<open>EnsureSafeSplitKey\<close> computes is
  the row's prefix, the same for all families and no later than any of them, so no split falls
  inside a row; \<open>DecodeFamilyKey\<close> gives the family back, and the families of a row sort by their IDs.\<close>

theorem family_keys:
  assumes "MakeTenantPrefix t = Inr tp"
  shows "EnsureSafeSplitKey (MakeFamilyKey (row_prefix tp tbl idx cols) f) = Inr (row_prefix tp tbl idx cols) \<and>
    row_prefix tp tbl idx cols < MakeFamilyKey (row_prefix tp tbl idx cols) f \<and>
    DecodeFamilyKey (MakeFamilyKey (row_prefix tp tbl idx cols) f) = Inr f \<and>
    (MakeFamilyKey (row_prefix tp tbl idx cols) f < MakeFamilyKey (row_prefix tp tbl idx cols) g \<longleftrightarrow> f < g)"
proof -
  let ?P = "row_prefix tp tbl idx cols"
  obtain x where x: "EncodeUvarintAscending [] (word_of_nat (length (family_suffix f))) = [x]"
      "DecodeUvarintAscending [x] = Inr ([], word_of_nat (length (family_suffix f)))"
    using family_length_byte by blast
  have key: "MakeFamilyKey ?P f = ?P @ family_suffix f @ [x]" by (simp add: MakeFamilyKey_closed x(1))
  have len: "0 < length ?P" using length_uvarint_le(2)
    by (simp add: row_prefix_def MakeTableIDIndexID_def uvarint_append)
  obtain rest where "DecodeUvarintAscending (family_suffix f @ [x]) = Inr (rest, ucast f)"
    using uvarint_asc.roundtrip [of "ucast f" "[x]"] x(2) by (cases "f = 0") (auto simp: family_suffix_def)
  moreover have "(ucast f :: uint64) \<le> 0xffffffff"
    using unsigned_less [of f, where ?'a = nat] by (simp add: word_le_nat_alt unat_ucast32)
  ultimately have "DecodeFamilyKey (MakeFamilyKey ?P f) = Inr f"
    using GetRowPrefixLength_family [OF assms, of tbl idx cols f] len
    by (simp add: DecodeFamilyKey_def key)
  moreover have "EnsureSafeSplitKey (MakeFamilyKey ?P f) = Inr ?P"
    using GetRowPrefixLength_family [OF assms, of tbl idx cols f] by (simp add: EnsureSafeSplitKey_def key)
  moreover have "?P < MakeFamilyKey ?P f" by (cases "family_suffix f") (simp_all add: key)
  ultimately show ?thesis using MakeFamilyKey_less by blast
qed

theorem family_keys_witness:
  "EnsureSafeSplitKey (MakeFamilyKey (row_prefix [0xfe, 0x8d] 100 1 [0x89]) 300) = Inr (row_prefix [0xfe, 0x8d] 100 1 [0x89])"
proof -
  have "MakeTenantPrefix 5 = Inr [0xfe, 0x8d]"
    by (simp add: MakeTenantPrefix_def ToUint64_def assertValid_def checkValid_def append_buf)
  from family_keys [OF this] show ?thesis by simp
qed

text \<open>On every byte string \<open>EnsureSafeSplitKey\<close> returns, without panicking, an error or a prefix of
  the key, since the row prefix length is never negative nor longer than the key.\<close>

lemma EnsureSafeSplitKey_total:
  "case EnsureSafeSplitKey key of
     Inl e \<Rightarrow> \<not> panics (Inl e :: bytes result) | Inr k \<Rightarrow> prefix k key"
proof (cases "GetRowPrefixLength key")
  case (Inl e)
  then show ?thesis using GetRowPrefixLength_no_panic [of key] by (cases e) (auto simp: EnsureSafeSplitKey_def)
next
  case (Inr i)
  then show ?thesis using GetRowPrefixLength_bounds [OF Inr] by (auto simp: EnsureSafeSplitKey_def take_is_prefix)
qed

text \<open>C31: tenant isolation.  The span of a secondary tenant holds the keys under its own prefix and no
  key of another secondary tenant, its codec accepts exactly its own keys, and rewriting a key
  to another tenant, in place or not, changes the prefix and keeps the rest.\<close>

theorem tenant_keys:
  assumes "MakeTenantPrefix t = Inr tp" "MakeTenantPrefix u = Inr up" "sql_key r"
    and "MakeSQLCodec t = Inr c" "t \<noteq> SystemTenantID" "u \<noteq> SystemTenantID" "t + 1 \<noteq> 0"
  shows "(ContainsKey (TenantSpan c) (up @ r) \<longleftrightarrow> t = u) \<and>
    DecodeTenantPrefix (up @ r) = Inr (r, u) \<and>
    (codecStripTenantPrefix c (up @ r) = Inr r \<longleftrightarrow> t = u) \<and>
    RewriteKeyToTenantPrefix (tp @ r) up = Inr (up @ r) \<and>
    RewriteKeyToTenantPrefix r up = Inr (up @ r) \<and>
    RewriteKeyToTenantPrefix (tp @ r) [] = Inr r"
proof -
  have p: "tp = 0xfe # EncodeUvarintAscending [] t" "up = 0xfe # EncodeUvarintAscending [] u"
      and tu: "t \<notin> {0, 1}" "u \<notin> {0, 1}"
    using assms(5,6) tenant_prefix_cases [OF assms(1)] tenant_prefix_cases [OF assms(2)] by blast+
  have c: "c = \<lparr>cbuf = tp, cendKey = 0xfe # EncodeUvarintAscending [] (t + 1)\<rparr>"
    using assms(4) tu by (auto simp: MakeSQLCodec_def MakeTenantSpan_def ToUint64_def assertValid_def checkValid_def
        p append_buf split: if_splits)
  have "ContainsKey (TenantSpan c) (up @ r) \<longleftrightarrow> t = u"
    using tenant_span_member [OF tu(1) assms(7) tu(2)] by (simp add: c TenantSpan_def p)
  moreover have "codecStripTenantPrefix c (up @ r) = Inr r \<longleftrightarrow> t = u"
    using uvarint_asc.cut [where v = u and w = t] by (auto simp: codecStripTenantPrefix_def c p prefix_def)
  moreover have sys: "MakeTenantPrefix 1 = Inr []" by (simp add: MakeTenantPrefix_def)
  ultimately show ?thesis
    using DecodeTenantPrefix_enc [OF assms(2,3)] RewriteKey_enc [OF assms(1-3)] RewriteKey_enc [OF sys assms(2,3)]
      RewriteKey_enc [OF assms(1) sys assms(3)] by simp
qed

theorem tenant_keys_witness:
  "RewriteKeyToTenantPrefix ([0xfe, 0x8d] @ [0xec, 0x89]) [0xfe, 0xf6, 0xff] = Inr ([0xfe, 0xf6, 0xff] @ [0xec, 0x89])"
proof -
  have "MakeTenantPrefix 5 = Inr [0xfe, 0x8d]" "MakeTenantPrefix 255 = Inr [0xfe, 0xf6, 0xff]"
    and "MakeSQLCodec 5 = Inr \<lparr>cbuf = [0xfe, 0x8d], cendKey = [0xfe, 0x8e]\<rparr>"
    by (simp_all add: MakeSQLCodec_def MakeTenantSpan_def MakeTenantPrefix_def ToUint64_def assertValid_def checkValid_def
        append_buf uvarint_width_def pos_tag_def)
  from tenant_keys [OF this(1,2) _ this(3), of "[0xec, 0x89]"] show ?thesis by (simp add: sql_key_def)
qed

text \<open>The codec of a tenant reads back the table and index of its index prefixes and the IDs of
  descriptor, tenant and sequence keys; index prefixes sort by table and then by index.\<close>

lemma table_keys:
  "DecodeIndexPrefix c (IndexPrefix c tbl idx @ r) = Inr (r, tbl, idx) \<and>
   DecodeTableIDIndexID (MakeTableIDIndexID [] tbl idx @ r) = Inr (r, tbl, idx) \<and>
   DecodeDescMetadataID c (DescMetadataKey c descID) = Inr descID \<and>
   rbind (TenantMetadataKey c t) (DecodeTenantMetadataID c) = rbind (ToUint64 t) Inr \<and>
   (IndexPrefix c tbl idx @ r < IndexPrefix c tbl' idx' @ s \<longleftrightarrow>
     tbl < tbl' \<or> tbl = tbl' \<and> (idx < idx' \<or> idx = idx' \<and> r < s))"
proof -
  have u32: "(ucast x :: uint64) < ucast y \<longleftrightarrow> x < y" "(ucast x :: uint64) = ucast y \<longleftrightarrow> x = y" for x y :: uint32
    by (simp_all add: word_less_nat_alt unat_ucast32 word_unat_eq_iff)
  have "(ucast descID :: uint64) \<le> 0xffffffff"
    using unsigned_less [of descID, where ?'a = nat] by (simp add: word_le_nat_alt unat_ucast32)
  then have "DecodeDescMetadataID c (DescMetadataKey c descID) = Inr descID"
    using uvarint_asc.roundtrip [of "ucast descID"]
    by (simp add: DecodeDescMetadataID_def DescMetadataKey_def DescMetadataPrefix_def MakeFamilyKey_closed
        uvarint_append DecodeIndexPrefix_enc)
  moreover have "rbind (TenantMetadataKey c t) (DecodeTenantMetadataID c) = rbind (ToUint64 t) Inr"
    using uvarint_asc.roundtrip [of t]
    by (cases "t = 0") (simp_all add: DecodeTenantMetadataID_def TenantMetadataKey_def MakeFamilyKey_closed ToUint64_def
        uvarint_append DecodeIndexPrefix_enc MustMakeTenantID_def assertValid_def checkValid_def)
  moreover have "DecodeTableIDIndexID (MakeTableIDIndexID [] tbl idx @ r) = Inr (r, tbl, idx)"
    using uvarint_asc.roundtrip [of "ucast tbl" "EncodeUvarintAscending [] (ucast idx) @ r"] uvarint_asc.roundtrip [of "ucast idx" r]
    by (simp add: DecodeTableIDIndexID_def MakeTableIDIndexID_def uvarint_append)
  moreover have "IndexPrefix c tbl idx @ r < IndexPrefix c tbl' idx' @ s \<longleftrightarrow>
      tbl < tbl' \<or> tbl = tbl' \<and> (idx < idx' \<or> idx = idx' \<and> r < s)"
    using uvarint_asc.less_append_iff [where v = "ucast tbl" and w = "ucast tbl'"]
      uvarint_asc.less_append_iff [where v = "ucast idx" and w = "ucast idx'"]
    by (simp add: IndexPrefix_closed u32)
  ultimately show ?thesis using DecodeIndexPrefix_enc by blast
qed

end
