(* ===== verification/Replicas.thy ===== *)
theory Replicas
  imports Keys_Spans Hlc "HOL-Library.Multiset"
begin

text \<open>
  Replica sets and range descriptors (\<open>engine/pkg/roachpb/metadata_replicas.go\<close> and
  \<open>engine/pkg/roachpb/metadata.go\<close>): which replicas vote in the old and in the new configuration of a
  range, the raft configuration a descriptor describes, whether a set of live replicas can make
  progress, and the operations that change a descriptor.  A \<open>ReplicaSet\<close> is the list it wraps.

  \<open>quorum_system\<close> is the contract the rest of the system relies on: two sets of replicas that can
  both make progress share a replica.
\<close>

subsection \<open>Replica descriptors\<close>

datatype ReplicaType = VOTER_FULL | LEARNER | VOTER_INCOMING | VOTER_OUTGOING | VOTER_DEMOTING_LEARNER
  | NON_VOTER | VOTER_DEMOTING_NON_VOTER | OtherReplicaType int

record ReplicaDescriptor =
  NodeID :: int32
  StoreID :: int32
  ReplicaID :: int32
  RType :: ReplicaType

definition noReplica :: ReplicaDescriptor where
  "noReplica = \<lparr>NodeID = 0, StoreID = 0, ReplicaID = 0, RType = VOTER_FULL\<rparr>"

type_synonym ReplicaSet = "ReplicaDescriptor list"

definition IsSame :: "ReplicaDescriptor \<Rightarrow> ReplicaDescriptor \<Rightarrow> bool" where
  "IsSame r ou \<longleftrightarrow> NodeID r = NodeID ou \<and> StoreID r = StoreID ou \<and> ReplicaID r = ReplicaID ou"

definition ValidateReplica :: "ReplicaDescriptor \<Rightarrow> unit result" where
  "ValidateReplica r =
    (if NodeID r = 0 then Inl (Errorf ''NodeID must not be zero'')
     else if StoreID r = 0 then Inl (Errorf ''StoreID must not be zero'')
     else if ReplicaID r = 0 then Inl (Errorf ''ReplicaID must not be zero'')
     else Inr ())"

definition IsVoterOldConfig :: "ReplicaDescriptor \<Rightarrow> bool" where
  "IsVoterOldConfig r =
    (case RType r of VOTER_FULL \<Rightarrow> True | VOTER_OUTGOING \<Rightarrow> True | VOTER_DEMOTING_NON_VOTER \<Rightarrow> True
     | VOTER_DEMOTING_LEARNER \<Rightarrow> True | _ \<Rightarrow> False)"

definition IsVoterNewConfig :: "ReplicaDescriptor \<Rightarrow> bool" where
  "IsVoterNewConfig r = (case RType r of VOTER_FULL \<Rightarrow> True | VOTER_INCOMING \<Rightarrow> True | _ \<Rightarrow> False)"

definition IsAnyVoter :: "ReplicaDescriptor \<Rightarrow> bool" where
  "IsAnyVoter r =
    (case RType r of VOTER_FULL \<Rightarrow> True | VOTER_INCOMING \<Rightarrow> True | VOTER_OUTGOING \<Rightarrow> True
     | VOTER_DEMOTING_NON_VOTER \<Rightarrow> True | VOTER_DEMOTING_LEARNER \<Rightarrow> True | _ \<Rightarrow> False)"

definition IsNonVoter :: "ReplicaDescriptor \<Rightarrow> bool" where
  "IsNonVoter r = (case RType r of NON_VOTER \<Rightarrow> True | _ \<Rightarrow> False)"

definition predVoterFull :: "ReplicaDescriptor \<Rightarrow> bool" where
  "predVoterFull rDesc = (case RType rDesc of VOTER_FULL \<Rightarrow> True | _ \<Rightarrow> False)"

definition predVoterFullOrIncoming :: "ReplicaDescriptor \<Rightarrow> bool" where
  "predVoterFullOrIncoming rDesc = (case RType rDesc of VOTER_FULL \<Rightarrow> True | VOTER_INCOMING \<Rightarrow> True | _ \<Rightarrow> False)"

definition predVoterIncoming :: "ReplicaDescriptor \<Rightarrow> bool" where
  "predVoterIncoming rDesc = (case RType rDesc of VOTER_INCOMING \<Rightarrow> True | _ \<Rightarrow> False)"

definition predLearner :: "ReplicaDescriptor \<Rightarrow> bool" where
  "predLearner rDesc \<longleftrightarrow> RType rDesc = LEARNER"

definition predNonVoter :: "ReplicaDescriptor \<Rightarrow> bool" where
  "predNonVoter rDesc \<longleftrightarrow> RType rDesc = NON_VOTER"

definition predVoterOrNonVoter :: "ReplicaDescriptor \<Rightarrow> bool" where
  "predVoterOrNonVoter rDesc \<longleftrightarrow> predVoterFullOrIncoming rDesc \<or> predNonVoter rDesc"

definition predVoterFullOrNonVoter :: "ReplicaDescriptor \<Rightarrow> bool" where
  "predVoterFullOrNonVoter rDesc \<longleftrightarrow> predVoterFull rDesc \<or> predNonVoter rDesc"

subsection \<open>Replica sets\<close>

text \<open>The loop keeps the receiver's slice until the first replica that does not match, and copies from
  then on.\<close>

definition filterStep :: "(ReplicaDescriptor \<Rightarrow> bool) \<Rightarrow> ReplicaSet \<Rightarrow> bool \<times> ReplicaSet \<Rightarrow> nat \<Rightarrow> bool \<times> ReplicaSet" where
  "filterStep pred d s i =
    (case s of (fastpath, out) \<Rightarrow>
      if pred (d ! i) then (if \<not> fastpath then (fastpath, out @ [d ! i]) else (fastpath, out))
      else if fastpath then (False, [] @ take i d) else (fastpath, out))"

definition FilterToDescriptors :: "ReplicaSet \<Rightarrow> (ReplicaDescriptor \<Rightarrow> bool) \<Rightarrow> ReplicaSet" where
  "FilterToDescriptors d pred = snd (foldl (filterStep pred d) (True, d) [0..<length d])"

definition VoterDescriptors :: "ReplicaSet \<Rightarrow> ReplicaSet" where
  "VoterDescriptors d = FilterToDescriptors d predVoterFullOrIncoming"
definition containsVoterIncoming :: "ReplicaSet \<Rightarrow> bool" where
  "containsVoterIncoming d \<longleftrightarrow> length (FilterToDescriptors d predVoterIncoming) > 0"
definition LearnerDescriptors :: "ReplicaSet \<Rightarrow> ReplicaSet" where
  "LearnerDescriptors d = FilterToDescriptors d predLearner"
definition NonVoterDescriptors :: "ReplicaSet \<Rightarrow> ReplicaSet" where
  "NonVoterDescriptors d = FilterToDescriptors d predNonVoter"
definition VoterFullAndNonVoterDescriptors :: "ReplicaSet \<Rightarrow> ReplicaSet" where
  "VoterFullAndNonVoterDescriptors d = FilterToDescriptors d predVoterFullOrNonVoter"
definition VoterAndNonVoterDescriptors :: "ReplicaSet \<Rightarrow> ReplicaSet" where
  "VoterAndNonVoterDescriptors d = FilterToDescriptors d predVoterOrNonVoter"

definition setAddReplica :: "ReplicaSet \<Rightarrow> ReplicaDescriptor \<Rightarrow> ReplicaSet" where
  "setAddReplica d r = d @ [r]"

text \<open>The index of the first match, as the loops that \<open>break\<close> find it.\<close>

fun find_idx :: "('a \<Rightarrow> bool) \<Rightarrow> 'a list \<Rightarrow> nat option" where
  "find_idx p [] = None"
| "find_idx p (x # xs) = (if p x then Some 0 else map_option Suc (find_idx p xs))"

definition setRemoveReplica :: "ReplicaSet \<Rightarrow> int32 \<Rightarrow> int32 \<Rightarrow> ReplicaDescriptor \<times> bool \<times> ReplicaSet" where
  "setRemoveReplica d nodeID storeID =
    (case find_idx (\<lambda>r. NodeID r = nodeID \<and> StoreID r = storeID) d of
       None \<Rightarrow> (noReplica, False, d)
     | Some idx \<Rightarrow>
         let d1 = d[idx := d ! (length d - 1), length d - 1 := d ! idx] in
         (d1 ! (length d - 1), True, take (length d - 1) d1))"

fun InAtomicReplicationChange :: "ReplicaSet \<Rightarrow> bool result" where
  "InAtomicReplicationChange [] = Inr False"
| "InAtomicReplicationChange (rDesc # d) =
    (case RType rDesc of
       VOTER_INCOMING \<Rightarrow> Inr True
     | VOTER_OUTGOING \<Rightarrow> Inr True
     | VOTER_DEMOTING_LEARNER \<Rightarrow> Inr True
     | VOTER_DEMOTING_NON_VOTER \<Rightarrow> Inr True
     | VOTER_FULL \<Rightarrow> InAtomicReplicationChange d
     | LEARNER \<Rightarrow> InAtomicReplicationChange d
     | NON_VOTER \<Rightarrow> InAtomicReplicationChange d
     | OtherReplicaType _ \<Rightarrow> Inl (Panic ''unknown replica type %d''))"

text \<open>The fields of raft's \<open>ConfState\<close> that are set.\<close>

record ConfState_t =
  Voters :: "uint64 list"
  Learners :: "uint64 list"
  VotersOutgoing :: "uint64 list"
  LearnersNext :: "uint64 list"

fun confStateLoop :: "bool \<Rightarrow> ReplicaSet \<Rightarrow> ConfState_t \<Rightarrow> ConfState_t result" where
  "confStateLoop joint [] cs = Inr cs"
| "confStateLoop joint (rep # d) cs =
    (let i = scast (ReplicaID rep) :: uint64 in
     case RType rep of
       VOTER_FULL \<Rightarrow>
         (let cs1 = cs\<lparr>Voters := Voters cs @ [i]\<rparr> in
          confStateLoop joint d (if joint then cs1\<lparr>VotersOutgoing := VotersOutgoing cs1 @ [i]\<rparr> else cs1))
     | VOTER_INCOMING \<Rightarrow> confStateLoop joint d (cs\<lparr>Voters := Voters cs @ [i]\<rparr>)
     | VOTER_OUTGOING \<Rightarrow> confStateLoop joint d (cs\<lparr>VotersOutgoing := VotersOutgoing cs @ [i]\<rparr>)
     | VOTER_DEMOTING_LEARNER \<Rightarrow>
         confStateLoop joint d (cs\<lparr>VotersOutgoing := VotersOutgoing cs @ [i], LearnersNext := LearnersNext cs @ [i]\<rparr>)
     | VOTER_DEMOTING_NON_VOTER \<Rightarrow>
         confStateLoop joint d (cs\<lparr>VotersOutgoing := VotersOutgoing cs @ [i], LearnersNext := LearnersNext cs @ [i]\<rparr>)
     | LEARNER \<Rightarrow> confStateLoop joint d (cs\<lparr>Learners := Learners cs @ [i]\<rparr>)
     | NON_VOTER \<Rightarrow> confStateLoop joint d (cs\<lparr>Learners := Learners cs @ [i]\<rparr>)
     | OtherReplicaType _ \<Rightarrow> Inl (Panic ''unknown ReplicaType %d''))"

definition ConfState :: "ReplicaSet \<Rightarrow> ConfState_t result" where
  "ConfState d =
    rbind (InAtomicReplicationChange d) (\<lambda>joint.
      confStateLoop joint d \<lparr>Voters = [], Learners = [], VotersOutgoing = [], LearnersNext = []\<rparr>)"

fun HasReplicaOnNode :: "ReplicaSet \<Rightarrow> int32 \<Rightarrow> bool" where
  "HasReplicaOnNode [] nodeID = False"
| "HasReplicaOnNode (rep # d) nodeID = (if NodeID rep = nodeID then True else HasReplicaOnNode d nodeID)"

fun setGetReplicaDescriptorByID :: "ReplicaSet \<Rightarrow> int32 \<Rightarrow> ReplicaDescriptor option" where
  "setGetReplicaDescriptorByID [] i = None"
| "setGetReplicaDescriptorByID (r # d) i = (if ReplicaID r = i then Some r else setGetReplicaDescriptorByID d i)"

record RangeStatusReport =
  Available :: bool
  UnderReplicated :: bool
  OverReplicated :: bool
  UnderReplicatedNonVoters :: bool
  OverReplicatedNonVoters :: bool

definition ReplicationStatus ::
    "ReplicaSet \<Rightarrow> (ReplicaDescriptor \<Rightarrow> bool) \<Rightarrow> int \<Rightarrow> int \<Rightarrow> RangeStatusReport" where
  "ReplicationStatus d liveFunc neededVoters neededNonVoters =
    (let isBoth = (\<lambda>pred1 pred2 rDesc. pred1 rDesc \<and> pred2 rDesc);
         votersOldGroup = FilterToDescriptors d IsVoterOldConfig;
         liveVotersOldGroup = FilterToDescriptors d (isBoth IsVoterOldConfig liveFunc);
         n = length votersOldGroup;
         availableOutgoingGroup = (n = 0 \<or> length liveVotersOldGroup \<ge> n div 2 + 1);
         votersNewGroup = FilterToDescriptors d IsVoterNewConfig;
         liveVotersNewGroup = FilterToDescriptors d (isBoth IsVoterNewConfig liveFunc);
         n' = length votersNewGroup;
         availableIncomingGroup = (length liveVotersNewGroup \<ge> n' div 2 + 1);
         res = \<lparr>Available = (availableIncomingGroup \<and> availableOutgoingGroup),
                UnderReplicated = (int (length liveVotersOldGroup) < neededVoters \<or> int (length liveVotersNewGroup) < neededVoters),
                OverReplicated = (int (length votersOldGroup) > neededVoters \<or> int (length votersNewGroup) > neededVoters),
                UnderReplicatedNonVoters = False, OverReplicatedNonVoters = False\<rparr>
     in if neededNonVoters = - 1 then res
        else
          let nonVoters = FilterToDescriptors d IsNonVoter;
              liveNonVoters = FilterToDescriptors d (isBoth IsNonVoter liveFunc)
          in res\<lparr>UnderReplicatedNonVoters := int (length liveNonVoters) < neededNonVoters,
                 OverReplicatedNonVoters := int (length nonVoters) > neededNonVoters\<rparr>)"

definition CanMakeProgress :: "ReplicaSet \<Rightarrow> (ReplicaDescriptor \<Rightarrow> bool) \<Rightarrow> bool" where
  "CanMakeProgress d liveFunc = Available (ReplicationStatus d liveFunc 0 (- 1))"

definition ReplicationTargets :: "ReplicaSet \<Rightarrow> (int32 \<times> int32) list" where
  "ReplicationTargets d = map (\<lambda>i. (NodeID (d ! i), StoreID (d ! i))) [0..<length d]"

definition CheckCanReceiveLease :: "ReplicaDescriptor \<Rightarrow> ReplicaSet \<Rightarrow> bool \<Rightarrow> unit result" where
  "CheckCanReceiveLease wouldbeLeaseholder replDescs wasLastLeaseholder =
    (case setGetReplicaDescriptorByID replDescs (ReplicaID wouldbeLeaseholder) of
       None \<Rightarrow> Inl (Errorf ''lease target replica not found in RangeDescriptor'')
     | Some repDesc \<Rightarrow>
         if \<not> (IsVoterNewConfig repDesc \<or>
               (IsVoterOldConfig repDesc \<and> containsVoterIncoming replDescs \<and> wasLastLeaseholder))
         then Inl (Errorf ''lease target replica cannot hold lease'')
         else Inr ())"

text \<open>Attribute lists.\<close>

definition AttributesEquals :: "string list \<Rightarrow> string list \<Rightarrow> bool" where
  "AttributesEquals a b \<longleftrightarrow> length a = length b \<and> list_all (\<lambda>aAttr. list_ex (\<lambda>bAttr. aAttr = bAttr) b) a"

subsection \<open>Range descriptors\<close>

record RangeDescriptor =
  RangeID :: int64
  StartKey :: bytes
  DEndKey :: bytes
  InternalReplicas :: ReplicaSet
  NextReplicaID :: int32
  Generation :: int64
  StickyBit :: Timestamp

definition NewRangeDescriptor :: "int64 \<Rightarrow> bytes \<Rightarrow> bytes \<Rightarrow> ReplicaSet \<Rightarrow> RangeDescriptor" where
  "NewRangeDescriptor rangeID start bs replicas =
    (let repls = map (\<lambda>i. (replicas ! i)\<lparr>ReplicaID := word_of_nat (i + 1)\<rparr>) [0..<length replicas] in
     \<lparr>RangeID = rangeID, StartKey = start, DEndKey = bs, InternalReplicas = repls,
      NextReplicaID = word_of_nat (length repls + 1), Generation = 0, StickyBit = emptyTimestamp\<rparr>)"

definition SetReplicaType ::
    "RangeDescriptor \<Rightarrow> int32 \<Rightarrow> int32 \<Rightarrow> ReplicaType \<Rightarrow> ReplicaDescriptor \<times> ReplicaType \<times> bool \<times> RangeDescriptor" where
  "SetReplicaType r nodeID storeID t =
    (case find_idx (\<lambda>desc. StoreID desc = storeID \<and> NodeID desc = nodeID) (InternalReplicas r) of
       None \<Rightarrow> (noReplica, VOTER_FULL, False, r)
     | Some i \<Rightarrow>
         let desc = InternalReplicas r ! i;
             prevTyp = RType desc;
             desc1 = desc\<lparr>RType := t\<rparr>
         in (desc1, prevTyp, True, r\<lparr>InternalReplicas := (InternalReplicas r)[i := desc1]\<rparr>))"

definition AddReplica :: "RangeDescriptor \<Rightarrow> int32 \<Rightarrow> int32 \<Rightarrow> ReplicaType \<Rightarrow> ReplicaDescriptor \<times> RangeDescriptor" where
  "AddReplica r nodeID storeID t =
    (let toAdd = \<lparr>NodeID = nodeID, StoreID = storeID, ReplicaID = NextReplicaID r, RType = t\<rparr>;
         rs = setAddReplica (InternalReplicas r) toAdd
     in (toAdd, r\<lparr>InternalReplicas := rs, NextReplicaID := NextReplicaID r + 1\<rparr>))"

definition RemoveReplica :: "RangeDescriptor \<Rightarrow> int32 \<Rightarrow> int32 \<Rightarrow> ReplicaDescriptor \<times> bool \<times> RangeDescriptor" where
  "RemoveReplica r nodeID storeID =
    (case setRemoveReplica (InternalReplicas r) nodeID storeID of
       (removedRepl, ok, rs) \<Rightarrow> (removedRepl, ok, if ok then r\<lparr>InternalReplicas := rs\<rparr> else r))"

fun GetReplicaDescriptorLoop :: "ReplicaSet \<Rightarrow> int32 \<Rightarrow> ReplicaDescriptor option" where
  "GetReplicaDescriptorLoop [] storeID = None"
| "GetReplicaDescriptorLoop (repDesc # d) storeID =
    (if StoreID repDesc = storeID then Some repDesc else GetReplicaDescriptorLoop d storeID)"

definition GetReplicaDescriptor :: "RangeDescriptor \<Rightarrow> int32 \<Rightarrow> ReplicaDescriptor option" where
  "GetReplicaDescriptor r storeID = GetReplicaDescriptorLoop (InternalReplicas r) storeID"

definition GetReplicaDescriptorByID :: "RangeDescriptor \<Rightarrow> int32 \<Rightarrow> ReplicaDescriptor option" where
  "GetReplicaDescriptorByID r replicaID = setGetReplicaDescriptorByID (InternalReplicas r) replicaID"

definition DescRSpan :: "RangeDescriptor \<Rightarrow> RSpan" where
  "DescRSpan r = \<lparr>rKey = StartKey r, rEndKey = DEndKey r\<rparr>"

definition DescKeySpan :: "RangeDescriptor \<Rightarrow> RSpan" where
  "DescKeySpan r = KeySpan (DescRSpan r)"

definition DescContainsKey :: "RangeDescriptor \<Rightarrow> bytes \<Rightarrow> bool" where
  "DescContainsKey r key = RContainsKey (DescRSpan r) key"

definition DescContainsKeyInverted :: "RangeDescriptor \<Rightarrow> bytes \<Rightarrow> bool" where
  "DescContainsKeyInverted r key = ContainsKeyInverted (DescRSpan r) key"

definition DescContainsKeyRange :: "RangeDescriptor \<Rightarrow> bytes \<Rightarrow> bytes \<Rightarrow> bool" where
  "DescContainsKeyRange r start bs = ContainsKeyRange (DescRSpan r) start bs"

definition IsInitialized :: "RangeDescriptor \<Rightarrow> bool" where
  "IsInitialized r \<longleftrightarrow> length (DEndKey r) \<noteq> 0"

definition IncrementGeneration :: "RangeDescriptor \<Rightarrow> RangeDescriptor" where
  "IncrementGeneration r = r\<lparr>Generation := Generation r + 1\<rparr>"

fun validateLoop :: "int32 \<Rightarrow> int32 set \<Rightarrow> int32 set \<Rightarrow> ReplicaSet \<Rightarrow> unit result" where
  "validateLoop next seen stores [] = Inr ()"
| "validateLoop next seen stores (rep # d) =
    (case ValidateReplica rep of
       Inl _ \<Rightarrow> Inl (Errorf ''replica %d is invalid'')
     | Inr _ \<Rightarrow>
         if sint (ReplicaID rep) \<ge> sint next then Inl (Errorf ''ReplicaID %d must be less than NextReplicaID %d'')
         else if ReplicaID rep \<in> seen then Inl (Errorf ''ReplicaID %d was reused'')
         else if StoreID rep \<in> stores then Inl (Errorf ''StoreID %d was reused'')
         else validateLoop next (insert (ReplicaID rep) seen) (insert (StoreID rep) stores) d)"

definition ValidateDesc :: "RangeDescriptor \<Rightarrow> unit result" where
  "ValidateDesc r =
    (if NextReplicaID r = 0 then Inl (Errorf ''NextReplicaID must be non-zero'')
     else validateLoop (NextReplicaID r) {} {} (InternalReplicas r))"

subsection \<open>Lists of replicas\<close>

lemma FilterToDescriptors_filter: "FilterToDescriptors d pred = filter pred d"
proof -
  have "foldl (filterStep pred d) (True, d) [0..<n] =
      (if \<forall>x \<in> set (take n d). pred x then (True, d) else (False, filter pred (take n d)))" if "n \<le> length d" for n
    using that
  proof (induction n)
    case (Suc n)
    then have t: "take (Suc n) d = take n d @ [d ! n]" by (simp add: take_Suc_conv_app_nth)
    show ?case
      using Suc by (auto simp: t filterStep_def simp del: upt_Suc simp add: upt_Suc_append filter_id_conv)
  qed simp
  from this [of "length d"] show ?thesis
    by (simp add: FilterToDescriptors_def filter_id_conv)
qed

lemma find_idx_Some: "find_idx p xs = Some i \<longleftrightarrow> i < length xs \<and> p (xs ! i) \<and> (\<forall>j < i. \<not> p (xs ! j))"
proof (induction xs arbitrary: i)
  case (Cons x xs)
  then show ?case by (cases i) (auto simp: less_Suc_eq_0_disj)
qed simp

lemma find_idx_None: "find_idx p xs = None \<longleftrightarrow> (\<forall>x \<in> set xs. \<not> p x)"
  by (induction xs) auto

lemma setRemoveReplica_None:
  "find_idx (\<lambda>r. NodeID r = n \<and> StoreID r = s) d = None \<Longrightarrow> setRemoveReplica d n s = (noReplica, False, d)"
  by (simp add: setRemoveReplica_def)

text \<open>Swapping with the last element and truncating removes the found one.\<close>

lemma setRemoveReplica_Some:
  assumes "find_idx (\<lambda>r. NodeID r = n \<and> StoreID r = s) d = Some i"
  shows "\<exists>d'. setRemoveReplica d n s = (d ! i, True, d') \<and> mset d = add_mset (d ! i) (mset d')"
proof -
  have i: "i < length d" using assms by (simp add: find_idx_Some)
  then obtain e x where d: "d = e @ [x]" by (cases d rule: rev_cases) auto
  let ?d1 = "d[i := d ! (length d - 1), length d - 1 := d ! i]"
  have last: "?d1 ! (length d - 1) = d ! i" using i by simp
  have "mset ?d1 = mset d" using i by (intro mset_swap) auto
  moreover have "?d1 = take (length d - 1) ?d1 @ [d ! i]"
    using last i by (metis Suc_pred' append_eq_conv_conj length_greater_0_conv length_list_update less_nat_zero_code
        list.size(3) take_Suc_conv_app_nth lessI take_all order.refl)
  ultimately have "mset d = add_mset (d ! i) (mset (take (length d - 1) ?d1))" by (metis add_mset_add_single mset.simps mset_append)
  then show ?thesis using assms last by (simp add: setRemoveReplica_def Let_def)
qed

lemma GetReplicaDescriptorLoop_find:
  "GetReplicaDescriptorLoop d s = map_option (\<lambda>i. d ! i) (find_idx (\<lambda>r. StoreID r = s) d)"
  by (induction d) (auto simp: option.map_comp comp_def)

lemma validateLoop_iff:
  "validateLoop next seen stores d = Inr () \<longleftrightarrow>
    (\<forall>r \<in> set d. NodeID r \<noteq> 0 \<and> StoreID r \<noteq> 0 \<and> ReplicaID r \<noteq> 0 \<and> sint (ReplicaID r) < sint next \<and>
       ReplicaID r \<notin> seen \<and> StoreID r \<notin> stores) \<and>
    distinct (map ReplicaID d) \<and> distinct (map StoreID d)"
  by (induction d arbitrary: seen stores) (auto simp: ValidateReplica_def image_iff split: if_splits)

definition valid_desc :: "RangeDescriptor \<Rightarrow> bool" where
  "valid_desc r \<longleftrightarrow> NextReplicaID r \<noteq> 0 \<and>
    (\<forall>x \<in> set (InternalReplicas r). NodeID x \<noteq> 0 \<and> StoreID x \<noteq> 0 \<and> ReplicaID x \<noteq> 0 \<and> sint (ReplicaID x) < sint (NextReplicaID r)) \<and>
    distinct (map ReplicaID (InternalReplicas r)) \<and> distinct (map StoreID (InternalReplicas r))"

lemma ValidateDesc_iff: "ValidateDesc r = Inr () \<longleftrightarrow> valid_desc r"
  by (simp add: ValidateDesc_def valid_desc_def validateLoop_iff)

subsection \<open>Quorums\<close>

text \<open>What clients of a replica set rely on when they ask which replicas suffice to make progress.\<close>

locale quorum_system =
  fixes quorum :: "('r \<Rightarrow> bool) \<Rightarrow> bool"
  assumes overlap: "quorum p \<Longrightarrow> quorum q \<Longrightarrow> \<exists>r. p r \<and> q r"
    and mono: "quorum p \<Longrightarrow> (\<And>r. p r \<Longrightarrow> q r) \<Longrightarrow> quorum q"
begin

lemma no_split_brain: "quorum p \<Longrightarrow> \<not> quorum (\<lambda>r. \<not> p r)"
  using overlap [of p "\<lambda>r. \<not> p r"] by auto

lemma quorum_nonempty: "quorum p \<Longrightarrow> \<exists>r. p r"
  using overlap [of p p] by auto

lemma all_live: "quorum p \<Longrightarrow> quorum (\<lambda>_. True)"
  using mono [of p "\<lambda>_. True"] by simp

end

definition majority :: "'a multiset \<Rightarrow> ('a \<Rightarrow> bool) \<Rightarrow> bool" where
  "majority M p \<longleftrightarrow> size M div 2 < size (filter_mset p M)"

lemma filter_mset_overlap:
  "size M < size (filter_mset p M) + size (filter_mset q M) \<Longrightarrow> \<exists>x \<in># M. p x \<and> q x"
proof (rule ccontr)
  assume a: "size M < size (filter_mset p M) + size (filter_mset q M)" "\<not> (\<exists>x \<in># M. p x \<and> q x)"
  then have "filter_mset q M \<subseteq># filter_mset (\<lambda>x. \<not> p x) M"
    by (intro filter_mset_mono_strong) auto
  then have "size (filter_mset q M) \<le> size (filter_mset (\<lambda>x. \<not> p x) M)" by (rule size_mset_mono)
  moreover have "size M = size (filter_mset p M) + size (filter_mset (\<lambda>x. \<not> p x) M)"
    using multiset_partition [of M p] by (metis size_union)
  ultimately show False using a(1) by simp
qed

lemma majority_overlap: "majority M p \<Longrightarrow> majority M q \<Longrightarrow> \<exists>x \<in># M. p x \<and> q x"
  by (rule filter_mset_overlap) (auto simp: majority_def)

lemma majority_overlap_add:
  "majority M p \<Longrightarrow> majority (add_mset x M) q \<Longrightarrow> \<exists>y \<in># add_mset x M. p y \<and> q y"
  by (rule filter_mset_overlap) (auto simp: majority_def split: if_splits)

lemma majority_mono: "majority M p \<Longrightarrow> (\<And>x. p x \<Longrightarrow> q x) \<Longrightarrow> majority M q"
  using size_mset_mono [OF filter_mset_mono_strong [of M M p q]] by (auto simp: majority_def)

definition old_voters :: "ReplicaSet \<Rightarrow> ReplicaDescriptor multiset" where
  "old_voters d = filter_mset IsVoterOldConfig (mset d)"

definition new_voters :: "ReplicaSet \<Rightarrow> ReplicaDescriptor multiset" where
  "new_voters d = filter_mset IsVoterNewConfig (mset d)"

lemma length_filter_mset: "length (filter p d) = size (filter_mset p (mset d))"
  by (metis mset_filter size_mset)

text \<open>Progress is a majority of the new voters, and one of the old voters if there are any.\<close>

lemma CanMakeProgress_iff:
  "CanMakeProgress d live \<longleftrightarrow>
    majority (new_voters d) live \<and> (old_voters d = {#} \<or> majority (old_voters d) live)"
proof -
  have "CanMakeProgress d live \<longleftrightarrow>
      size (new_voters d) div 2 + 1 \<le> size (filter_mset (\<lambda>x. IsVoterNewConfig x \<and> live x) (mset d)) \<and>
      (size (old_voters d) = 0 \<or>
       size (old_voters d) div 2 + 1 \<le> size (filter_mset (\<lambda>x. IsVoterOldConfig x \<and> live x) (mset d)))"
    unfolding CanMakeProgress_def ReplicationStatus_def FilterToDescriptors_filter Let_def
      new_voters_def old_voters_def length_filter_mset by simp
  then show ?thesis
    by (simp add: majority_def new_voters_def old_voters_def filter_filter_mset Suc_le_eq)
qed

interpretation progress: quorum_system "CanMakeProgress d" for d
proof
  fix p q
  show "\<exists>r. p r \<and> q r" if "CanMakeProgress d p" "CanMakeProgress d q"
    using that majority_overlap [of "new_voters d" p q] by (auto simp: CanMakeProgress_iff)
  show "CanMakeProgress d q" if "CanMakeProgress d p" "\<And>r. p r \<Longrightarrow> q r"
    using that majority_mono [of "new_voters d" p q] majority_mono [of "old_voters d" p q]
    by (auto simp: CanMakeProgress_iff)
qed

subsection \<open>The raft configuration\<close>

definition known_type :: "ReplicaDescriptor \<Rightarrow> bool" where
  "known_type r \<longleftrightarrow> (case RType r of OtherReplicaType _ \<Rightarrow> False | _ \<Rightarrow> True)"

definition joint_type :: "ReplicaDescriptor \<Rightarrow> bool" where
  "joint_type r \<longleftrightarrow> RType r \<in> {VOTER_INCOMING, VOTER_OUTGOING, VOTER_DEMOTING_LEARNER, VOTER_DEMOTING_NON_VOTER}"

lemmas type_defs = known_type_def joint_type_def IsVoterOldConfig_def IsVoterNewConfig_def

lemma InAtomicReplicationChange_iff:
  "list_all known_type d \<Longrightarrow> InAtomicReplicationChange d = Inr (list_ex joint_type d)"
  by (induction d) (auto simp: type_defs split: ReplicaType.splits)

lemma InAtomicReplicationChange_False: "InAtomicReplicationChange d = Inr False \<Longrightarrow> list_all known_type d \<and> \<not> list_ex joint_type d"
  by (induction d) (auto simp: type_defs split: ReplicaType.splits)

definition ids :: "(ReplicaDescriptor \<Rightarrow> bool) \<Rightarrow> ReplicaSet \<Rightarrow> uint64 list" where
  "ids p d = map (\<lambda>r. scast (ReplicaID r)) (filter p d)"

lemma ids_simps [simp]:
  "ids p [] = []" "ids p (r # d) = (if p r then [scast (ReplicaID r)] else []) @ ids p d" "ids p d = [] \<longleftrightarrow> filter p d = []"
  by (simp_all add: ids_def)

lemma confStateLoop_closed:
  "list_all known_type d \<Longrightarrow>
    confStateLoop joint d cs = Inr
      \<lparr>Voters = Voters cs @ ids IsVoterNewConfig d,
       Learners = Learners cs @ ids (\<lambda>r. RType r = LEARNER \<or> RType r = NON_VOTER) d,
       VotersOutgoing = VotersOutgoing cs @ ids (\<lambda>r. IsVoterOldConfig r \<and> (joint \<or> RType r \<noteq> VOTER_FULL)) d,
       LearnersNext = LearnersNext cs @ ids (\<lambda>r. RType r = VOTER_DEMOTING_LEARNER \<or> RType r = VOTER_DEMOTING_NON_VOTER) d\<rparr>"
proof (induction d arbitrary: cs)
  case (Cons rep d)
  then show ?case
    by (cases "RType rep") (simp_all add: known_type_def [of rep] IsVoterOldConfig_def [of rep] IsVoterNewConfig_def [of rep] Let_def)
qed simp

lemma not_joint_voters:
  "\<not> list_ex joint_type d \<Longrightarrow> list_all known_type d \<Longrightarrow> filter IsVoterOldConfig d = filter IsVoterNewConfig d"
  by (induction d) (auto simp: type_defs split: ReplicaType.splits)

definition raft_majority :: "(uint64 \<Rightarrow> bool) \<Rightarrow> uint64 list \<Rightarrow> bool" where
  "raft_majority up vs \<longleftrightarrow> length vs div 2 < length (filter up vs)"

lemma majority_ids:
  "majority (filter_mset p (mset d)) (\<lambda>r. up (scast (ReplicaID r))) \<longleftrightarrow> raft_majority up (ids p d)"
proof -
  have "length (filter up (ids p d)) = size (filter_mset (\<lambda>r. up (scast (ReplicaID r))) (filter_mset p (mset d)))"
    by (simp add: ids_def filter_map comp_def filter_filter_mset length_filter_mset)
  then show ?thesis by (simp add: majority_def raft_majority_def ids_def length_filter_mset)
qed

subsection \<open>Well-formed descriptors\<close>

lemma SetReplicaType_cases:
  obtains "SetReplicaType r n s t = (noReplica, VOTER_FULL, False, r)"
      "\<forall>x \<in> set (InternalReplicas r). \<not> (StoreID x = s \<and> NodeID x = n)"
  | i where "i < length (InternalReplicas r)" "StoreID (InternalReplicas r ! i) = s" "NodeID (InternalReplicas r ! i) = n"
      "SetReplicaType r n s t = ((InternalReplicas r ! i)\<lparr>RType := t\<rparr>, RType (InternalReplicas r ! i), True,
         r\<lparr>InternalReplicas := (InternalReplicas r)[i := (InternalReplicas r ! i)\<lparr>RType := t\<rparr>]\<rparr>)"
      "\<forall>j < i. \<not> (StoreID (InternalReplicas r ! j) = s \<and> NodeID (InternalReplicas r ! j) = n)"
  by (cases "find_idx (\<lambda>desc. StoreID desc = s \<and> NodeID desc = n) (InternalReplicas r)")
    (auto simp: SetReplicaType_def find_idx_None find_idx_Some Let_def)

lemma map_update_same: "i < length d \<Longrightarrow> f y = f (d ! i) \<Longrightarrow> map f (d[i := y]) = map f d"
  by (simp add: map_update list_update_same_conv)

lemma distinct_mset_sub: "mset xs \<subseteq># mset ys \<Longrightarrow> distinct ys \<Longrightarrow> distinct xs"
proof -
  assume sub: "mset xs \<subseteq># mset ys" and "distinct ys"
  then have "count (mset xs) a \<le> 1" for a
    using mset_subset_eq_count [OF sub, of a] unfolding distinct_count_atmost_1 by (metis le_trans zero_le_one order.refl)
  then show "distinct xs"
    by (metis (no_types) count_mset_gt_0 distinct_count_atmost_1 le_antisym One_nat_def Suc_leI not_gr_zero count_mset_0_iff)
qed

text \<open>Only the IDs, nodes and stores of the replicas matter for validity.\<close>

lemma valid_desc_cong:
  assumes "NextReplicaID r' = NextReplicaID r"
    and "image_mset (\<lambda>x. (NodeID x, StoreID x, ReplicaID x)) (mset (InternalReplicas r')) \<subseteq>#
         image_mset (\<lambda>x. (NodeID x, StoreID x, ReplicaID x)) (mset (InternalReplicas r))"
    and "valid_desc r"
  shows "valid_desc r'"
proof -
  let ?f = "\<lambda>x. (NodeID x, StoreID x, ReplicaID x)"
  have sub: "?f x \<in> ?f ` set (InternalReplicas r)" if "x \<in> set (InternalReplicas r')" for x
    using mset_subset_eqD [OF assms(2), of "?f x"] that by auto
  have dist: "distinct (map g (InternalReplicas r'))"
    if "distinct (map g (InternalReplicas r))" "\<And>x. g x = h (?f x)" for g :: "ReplicaDescriptor \<Rightarrow> int32" and h
  proof -
    have "image_mset h (image_mset ?f (mset d)) = mset (map g d)" for d
      by (simp add: image_mset.compositionality comp_def that(2) [abs_def])
    then have "mset (map g (InternalReplicas r')) \<subseteq># mset (map g (InternalReplicas r))"
      using image_mset_subseteq_mono [OF assms(2), of h] by metis
    then show ?thesis using that(1) by (rule distinct_mset_sub)
  qed
  have "distinct (map ReplicaID (InternalReplicas r'))" "distinct (map StoreID (InternalReplicas r'))"
    using assms(3) dist [of ReplicaID "\<lambda>(n, s, i). i"] dist [of StoreID "\<lambda>(n, s, i). s"]
    by (simp_all add: valid_desc_def)
  moreover have "NodeID x \<noteq> 0 \<and> StoreID x \<noteq> 0 \<and> ReplicaID x \<noteq> 0 \<and> sint (ReplicaID x) < sint (NextReplicaID r)"
    if "x \<in> set (InternalReplicas r')" for x
    using sub [OF that] assms(3) by (auto simp: valid_desc_def)
  ultimately show ?thesis using assms(1,3) by (simp add: valid_desc_def)
qed

lemma SetReplicaType_valid: "valid_desc r \<Longrightarrow> valid_desc (snd (snd (snd (SetReplicaType r n s t))))"
proof (cases rule: SetReplicaType_cases [of r n s t])
  case (2 i)
  assume "valid_desc r"
  then show ?thesis using 2(1) by (simp add: 2(4) valid_desc_def map_update_same all_set_conv_all_nth nth_list_update)
qed simp

lemma RemoveReplica_cases:
  obtains "RemoveReplica r n s = (noReplica, False, r)"
      "\<forall>x \<in> set (InternalReplicas r). \<not> (NodeID x = n \<and> StoreID x = s)"
  | i d where "i < length (InternalReplicas r)" "NodeID (InternalReplicas r ! i) = n" "StoreID (InternalReplicas r ! i) = s"
      "RemoveReplica r n s = (InternalReplicas r ! i, True, r\<lparr>InternalReplicas := d\<rparr>)"
      "mset (InternalReplicas r) = add_mset (InternalReplicas r ! i) (mset d)"
      "\<forall>j < i. \<not> (NodeID (InternalReplicas r ! j) = n \<and> StoreID (InternalReplicas r ! j) = s)"
proof (cases "find_idx (\<lambda>x. NodeID x = n \<and> StoreID x = s) (InternalReplicas r)")
  case None
  then show ?thesis using that(1) by (simp add: RemoveReplica_def setRemoveReplica_None find_idx_None)
next
  case (Some i)
  from setRemoveReplica_Some [OF this] obtain d where
    "setRemoveReplica (InternalReplicas r) n s = (InternalReplicas r ! i, True, d)"
    "mset (InternalReplicas r) = add_mset (InternalReplicas r ! i) (mset d)" by blast
  with Some show ?thesis using that(2) [of i d] by (simp add: RemoveReplica_def find_idx_Some)
qed

lemma RemoveReplica_valid: "valid_desc r \<Longrightarrow> valid_desc (snd (snd (RemoveReplica r n s)))"
proof (cases rule: RemoveReplica_cases [of r n s])
  case (2 i d)
  assume "valid_desc r"
  then show ?thesis by (rule valid_desc_cong [rotated 2]) (simp_all add: 2(4,5))
qed simp

lemma AddReplica_valid:
  assumes "valid_desc r" "n \<noteq> 0" "s \<noteq> 0" "GetReplicaDescriptor r s = None"
    and "0 < sint (NextReplicaID r)" "NextReplicaID r \<noteq> 0x7fffffff"
  shows "valid_desc (snd (AddReplica r n s t)) \<and> ReplicaID (fst (AddReplica r n s t)) \<notin> ReplicaID ` set (InternalReplicas r)"
proof -
  let ?next = "NextReplicaID r"
  have fresh: "ReplicaID x \<noteq> ?next" if "x \<in> set (InternalReplicas r)" for x
    using assms(1) that by (auto simp: valid_desc_def)
  have store: "StoreID x \<noteq> s" if "x \<in> set (InternalReplicas r)" for x
    using assms(4) that by (auto simp: GetReplicaDescriptor_def GetReplicaDescriptorLoop_find find_idx_None)
  have "sint (0x7fffffff :: int32) = 2 ^ 31 - 1" by simp
  then have "sint ?next \<noteq> 2 ^ 31 - 1" using assms(6) sint_eq_iff by metis
  moreover have "sint ?next < 2 ^ 31" using sint_bounds(2) [of ?next] sint_lt [of ?next] by simp
  ultimately have inc: "sint (?next + 1) = sint ?next + 1"
    using assms(5) by (simp add: signed_take_bit_int_eq_self sint_word_ariths)
  then have nz: "?next + 1 \<noteq> 0" using assms(5) by (metis signed_0 add_pos_pos zero_less_one less_irrefl)
  have new: "valid_desc (r\<lparr>InternalReplicas := InternalReplicas r @ [x], NextReplicaID := ?next + 1\<rparr>)"
    if "NodeID x = n" "StoreID x = s" "ReplicaID x = ?next" for x
  proof -
    have "sint (ReplicaID y) < sint ?next + 1" if "y \<in> set (InternalReplicas r)" for y
      using assms(1) that by (fastforce simp: valid_desc_def)
    moreover have "?next \<noteq> 0" using assms(1) by (simp add: valid_desc_def)
    moreover have "s \<notin> StoreID ` set (InternalReplicas r)" "?next \<notin> ReplicaID ` set (InternalReplicas r)"
      using store fresh by (metis imageE)+
    ultimately show ?thesis using that assms(1-3) nz inc by (auto simp: valid_desc_def)
  qed
  have "?next \<notin> ReplicaID ` set (InternalReplicas r)" using fresh by (metis imageE)
  then show ?thesis using new by (simp add: AddReplica_def setAddReplica_def Let_def)
qed

subsection \<open>Properties\<close>

text \<open>C18: a range can make progress exactly when the live replicas are a majority of the voters of the
  raft configuration the descriptor describes and, in a joint configuration, of its outgoing voters
  too; so two sets of live replicas that can make progress always share a replica, and the rest
  of the replicas never can.\<close>

theorem progress_is_raft_quorum:
  assumes "list_all known_type d"
  shows "(case ConfState d of Inl _ \<Rightarrow> False
      | Inr cs \<Rightarrow> CanMakeProgress d (\<lambda>r. up (scast (ReplicaID r))) \<longleftrightarrow>
          raft_majority up (Voters cs) \<and> (VotersOutgoing cs = [] \<or> raft_majority up (VotersOutgoing cs))) \<and>
    (CanMakeProgress d p \<longrightarrow> \<not> CanMakeProgress d (\<lambda>r. \<not> p r))"
proof -
  let ?j = "list_ex joint_type d"
  obtain cs where cs: "ConfState d = Inr cs" "Voters cs = ids IsVoterNewConfig d"
      "VotersOutgoing cs = ids (\<lambda>r. IsVoterOldConfig r \<and> (?j \<or> RType r \<noteq> VOTER_FULL)) d"
    by (simp add: ConfState_def InAtomicReplicationChange_iff [OF assms] confStateLoop_closed [OF assms])
  have old: "majority (old_voters d) (\<lambda>r. up (scast (ReplicaID r))) \<longleftrightarrow> raft_majority up (ids IsVoterOldConfig d)"
    and new: "majority (new_voters d) (\<lambda>r. up (scast (ReplicaID r))) \<longleftrightarrow> raft_majority up (ids IsVoterNewConfig d)"
    by (simp_all add: new_voters_def old_voters_def majority_ids)
  have empty: "old_voters d = {#} \<longleftrightarrow> ids IsVoterOldConfig d = []"
    by (simp add: old_voters_def flip: mset_filter)
  have "CanMakeProgress d (\<lambda>r. up (scast (ReplicaID r))) \<longleftrightarrow>
      raft_majority up (Voters cs) \<and> (VotersOutgoing cs = [] \<or> raft_majority up (VotersOutgoing cs))"
  proof (cases ?j)
    case True
    then show ?thesis by (simp add: CanMakeProgress_iff old new empty cs(2,3))
  next
    case False
    then have "\<not> (IsVoterOldConfig r \<and> RType r \<noteq> VOTER_FULL)" if "r \<in> set d" for r
      using that by (auto simp: list_ex_iff joint_type_def IsVoterOldConfig_def split: ReplicaType.splits)
    then have "VotersOutgoing cs = []" using False by (auto simp: cs(3) filter_empty_conv)
    moreover have "ids IsVoterOldConfig d = ids IsVoterNewConfig d"
      using not_joint_voters [OF False assms] by (simp add: ids_def)
    ultimately show ?thesis by (auto simp: CanMakeProgress_iff old new cs(2))
  qed
  then show ?thesis using cs(1) progress.no_split_brain by auto
qed

theorem progress_is_raft_quorum_witness:
  "ConfState [\<lparr>NodeID = 1, StoreID = 1, ReplicaID = 1, RType = VOTER_FULL\<rparr>,
      \<lparr>NodeID = 2, StoreID = 2, ReplicaID = 2, RType = VOTER_OUTGOING\<rparr>] =
     Inr \<lparr>Voters = [1], Learners = [], VotersOutgoing = [1, 2], LearnersNext = []\<rparr> \<and>
   \<not> CanMakeProgress [\<lparr>NodeID = 1, StoreID = 1, ReplicaID = 1, RType = VOTER_FULL\<rparr>,
      \<lparr>NodeID = 2, StoreID = 2, ReplicaID = 2, RType = VOTER_OUTGOING\<rparr>] (\<lambda>r. (\<lambda>i. i = 1) (scast (ReplicaID r) :: uint64))"
proof -
  let ?d = "[\<lparr>NodeID = 1, StoreID = 1, ReplicaID = 1, RType = VOTER_FULL\<rparr>,
      \<lparr>NodeID = 2, StoreID = 2, ReplicaID = 2, RType = VOTER_OUTGOING\<rparr>]"
  have "ConfState ?d = Inr \<lparr>Voters = [1], Learners = [], VotersOutgoing = [1, 2], LearnersNext = []\<rparr>"
    by (simp add: ConfState_def)
  then show ?thesis
    using progress_is_raft_quorum [of ?d "\<lambda>i. i = 1"] by (simp add: known_type_def raft_majority_def)
qed

text \<open>C34: the well-formedness of a range descriptor, as \<open>Validate\<close> checks it, is an invariant of its
  operations: changing the type of a replica and removing one keep it always, adding one keeps it
  for a non-zero node and store that holds no replica yet, as long as the replica ID does not
  reach the end of its range; the ID given out is one that no replica of the range has had.\<close>

theorem descriptor_invariant:
  assumes "ValidateDesc r = Inr ()"
  shows "ValidateDesc (snd (snd (snd (SetReplicaType r n s t)))) = Inr () \<and>
    ValidateDesc (snd (snd (RemoveReplica r n s))) = Inr () \<and>
    (n \<noteq> 0 \<and> s \<noteq> 0 \<and> GetReplicaDescriptor r s = None \<and> 0 < sint (NextReplicaID r) \<and> NextReplicaID r \<noteq> 0x7fffffff \<longrightarrow>
      ValidateDesc (snd (AddReplica r n s t)) = Inr () \<and>
      ReplicaID (fst (AddReplica r n s t)) \<notin> ReplicaID ` set (InternalReplicas r))"
  using SetReplicaType_valid RemoveReplica_valid AddReplica_valid assms by (simp add: ValidateDesc_iff)

theorem descriptor_invariant_witness:
  "ValidateDesc (snd (AddReplica (NewRangeDescriptor 7 [] [0xff, 0xff] [noReplica\<lparr>NodeID := 4, StoreID := 5\<rparr>]) 6 9 LEARNER)) = Inr ()"
proof -
  let ?r = "NewRangeDescriptor 7 [] [0xff, 0xff] [noReplica\<lparr>NodeID := 4, StoreID := 5\<rparr>]"
  have r: "?r = \<lparr>RangeID = 7, StartKey = [], DEndKey = [0xff, 0xff],
      InternalReplicas = [\<lparr>NodeID = 4, StoreID = 5, ReplicaID = 1, RType = VOTER_FULL\<rparr>],
      NextReplicaID = 2, Generation = 0, StickyBit = emptyTimestamp\<rparr>"
    by (simp add: NewRangeDescriptor_def noReplica_def)
  have "ValidateDesc ?r = Inr ()" by (simp add: r ValidateDesc_def ValidateReplica_def)
  from descriptor_invariant [OF this, of 6 9 LEARNER] show ?thesis
    by (simp add: r GetReplicaDescriptor_def)
qed

lemma AttributesEquals_not_symmetric:
  "AttributesEquals [''a'', ''a''] [''a'', ''b''] \<and> \<not> AttributesEquals [''a'', ''b''] [''a'', ''a'']"
  by (simp add: AttributesEquals_def)

end
