(* ===== verification/Replica_Change.thy ===== *)
theory Replica_Change
  imports Replicas
begin

text \<open>
  Changing the replicas of a range: the raft configuration change of a trigger (\<open>confChangeImpl\<close> of
  \<open>engine/pkg/roachpb/data.go\<close>) and the trigger itself (\<open>prepareChangeReplicasTrigger\<close> of
  \<open>engine/pkg/kv/kvserver/replica_command.go\<close>), which moves a range descriptor into a joint
  configuration, out of it, or through a single simple change.

  The main result is the safety of every such step: a quorum of the configuration before it and a
  quorum of the configuration after it share a replica.
\<close>

subsection \<open>The raft configuration change\<close>

datatype ConfChangeType = ConfChangeAddNode | ConfChangeRemoveNode | ConfChangeAddLearnerNode

datatype ConfChangeTransition = ConfChangeTransitionAuto | ConfChangeTransitionJointImplicit
  | ConfChangeTransitionJointExplicit

type_synonym ConfChangeSingle = "ConfChangeType \<times> uint64"

datatype ConfChangeI = ConfChangeV1 ConfChangeType uint64 bytes
  | ConfChangeV2 ConfChangeTransition "ConfChangeSingle list" bytes

record ChangeReplicasTrigger =
  Desc :: RangeDescriptor
  InternalAddedReplicas :: ReplicaSet
  InternalRemovedReplicas :: ReplicaSet

fun checkExists :: "ReplicaSet \<Rightarrow> ReplicaDescriptor \<Rightarrow> unit result" where
  "checkExists [] inn = Inl (Errorf ''%s missing from descriptors %v'')"
| "checkExists (rDesc # replicas) inn =
    (if ReplicaID rDesc = ReplicaID inn then
       (if RType inn \<noteq> RType rDesc then Inl (Errorf ''have %s, but descriptor has %s'') else Inr ())
     else checkExists replicas inn)"

fun checkNotExists :: "ReplicaSet \<Rightarrow> ReplicaDescriptor \<Rightarrow> unit result" where
  "checkNotExists [] inn = Inr ()"
| "checkNotExists (rDesc # replicas) inn =
    (if ReplicaID rDesc = ReplicaID inn then Inl (Errorf ''%s must no longer be present in descriptor'')
     else checkNotExists replicas inn)"

definition removedChange :: "ReplicaSet \<Rightarrow> ReplicaDescriptor \<Rightarrow> ConfChangeSingle list \<Rightarrow> ConfChangeSingle list result" where
  "removedChange replicas rDesc sl =
    (let i = scast (ReplicaID rDesc) :: uint64;
         sl1 = sl @ [(ConfChangeRemoveNode, i)];
         demoted = rbind (checkExists replicas rDesc) (\<lambda>_. Inr (sl1 @ [(ConfChangeAddLearnerNode, i)]));
         gone = rbind (checkNotExists replicas rDesc) (\<lambda>_. Inr sl1)
     in case RType rDesc of
          VOTER_OUTGOING \<Rightarrow> rbind (checkExists replicas rDesc) (\<lambda>_. Inr sl1)
        | VOTER_DEMOTING_LEARNER \<Rightarrow> demoted
        | VOTER_DEMOTING_NON_VOTER \<Rightarrow> demoted
        | LEARNER \<Rightarrow> gone
        | NON_VOTER \<Rightarrow> gone
        | VOTER_FULL \<Rightarrow> gone
        | _ \<Rightarrow> Inl (Errorf ''can't remove replica in state %v''))"

fun removedLoop :: "ReplicaSet \<Rightarrow> ReplicaSet \<Rightarrow> ConfChangeSingle list \<Rightarrow> ConfChangeSingle list result" where
  "removedLoop replicas [] sl = Inr sl"
| "removedLoop replicas (rDesc # removed) sl =
     rbind (removedChange replicas rDesc sl) (removedLoop replicas removed)"

definition addedChange :: "ReplicaSet \<Rightarrow> ReplicaDescriptor \<Rightarrow> ConfChangeSingle list \<Rightarrow> ConfChangeSingle list result" where
  "addedChange replicas rDesc sl =
    rbind (checkExists replicas rDesc) (\<lambda>_.
      let i = scast (ReplicaID rDesc) :: uint64 in
      case RType rDesc of
        VOTER_FULL \<Rightarrow> Inr (sl @ [(ConfChangeAddNode, i)])
      | VOTER_INCOMING \<Rightarrow> Inr (sl @ [(ConfChangeAddNode, i)])
      | LEARNER \<Rightarrow> Inr (sl @ [(ConfChangeAddLearnerNode, i)])
      | NON_VOTER \<Rightarrow> Inr (sl @ [(ConfChangeAddLearnerNode, i)])
      | _ \<Rightarrow> Inl (Errorf ''can't add replica in state %v''))"

fun addedLoop :: "ReplicaSet \<Rightarrow> ReplicaSet \<Rightarrow> ConfChangeSingle list \<Rightarrow> ConfChangeSingle list result" where
  "addedLoop replicas [] sl = Inr sl"
| "addedLoop replicas (rDesc # added) sl =
     rbind (addedChange replicas rDesc sl) (addedLoop replicas added)"

definition confChangeImpl ::
    "ReplicaSet \<Rightarrow> ReplicaSet \<Rightarrow> ReplicaSet \<Rightarrow> bool \<Rightarrow> bytes \<Rightarrow> ConfChangeI result" where
  "confChangeImpl added removed replicas alwaysV2 encodedCtx =
    rbind (removedLoop replicas removed []) (\<lambda>sl1.
      rbind (addedLoop replicas added sl1) (\<lambda>sl.
        let enteringJoint = list_ex (\<lambda>rDesc. case RType rDesc of
                VOTER_INCOMING \<Rightarrow> True | VOTER_OUTGOING \<Rightarrow> True | VOTER_DEMOTING_LEARNER \<Rightarrow> True
              | VOTER_DEMOTING_NON_VOTER \<Rightarrow> True | _ \<Rightarrow> False) replicas;
            wantLeaveJoint = (length added + length removed = 0)
        in if \<not> enteringJoint \<and> length added + length removed > 1
           then Inl (Errorf ''change requires joint consensus'')
           else if enteringJoint \<and> wantLeaveJoint
           then Inl (Errorf ''descriptor enters joint state, but trigger is requesting to leave one'')
           else if enteringJoint \<or> alwaysV2 then
             Inr (ConfChangeV2 (if \<not> enteringJoint then ConfChangeTransitionAuto
                                else ConfChangeTransitionJointExplicit) sl encodedCtx)
           else if wantLeaveJoint then Inr (ConfChangeV2 ConfChangeTransitionAuto [] encodedCtx)
           else case sl of
               [] \<Rightarrow> Inl (Panic ''index out of range'')
             | (t, i) # _ \<Rightarrow> Inr (ConfChangeV1 t i encodedCtx)))"

definition ConfChange :: "ChangeReplicasTrigger \<Rightarrow> bytes \<Rightarrow> ConfChangeI result" where
  "ConfChange crt encodedCtx =
     confChangeImpl (InternalAddedReplicas crt) (InternalRemovedReplicas crt) (InternalReplicas (Desc crt)) False encodedCtx"

subsection \<open>The trigger\<close>

datatype internalChangeType = internalChangeTypeAddLearner | internalChangeTypeAddNonVoter
  | internalChangeTypePromoteLearner | internalChangeTypePromoteNonVoter
  | internalChangeTypeDemoteVoterToLearner | internalChangeTypeDemoteVoterToNonVoter
  | internalChangeTypeRemoveLearner | internalChangeTypeRemoveNonVoter | otherChangeType int

record internalReplicationChange =
  tNodeID :: int32
  tStoreID :: int32
  ctyp :: internalChangeType

definition leaveJoint :: "internalReplicationChange list \<Rightarrow> bool" where
  "leaveJoint c \<longleftrightarrow> length c = 0"

definition useJoint :: "internalReplicationChange list \<Rightarrow> bool" where
  "useJoint c \<longleftrightarrow>
    (let isDemotion = (ctyp (c ! 0) = internalChangeTypeDemoteVoterToNonVoter \<or>
                       ctyp (c ! 0) = internalChangeTypeDemoteVoterToLearner)
     in length c > 1 \<or> isDemotion)"

definition isSingleLearnerRemoval :: "internalReplicationChange list \<Rightarrow> bool" where
  "isSingleLearnerRemoval c \<longleftrightarrow> length c = 1 \<and> ctyp (c ! 0) = internalChangeTypeRemoveLearner"

type_synonym change_state = "RangeDescriptor \<times> ReplicaSet \<times> ReplicaSet"

definition promote :: "bool \<Rightarrow> ReplicaType \<Rightarrow> internalReplicationChange \<Rightarrow> change_state \<Rightarrow> change_state result" where
  "promote joint from chg s =
    (case s of (updatedDesc, added, removed) \<Rightarrow>
      let t = (if joint then VOTER_INCOMING else VOTER_FULL) in
      case SetReplicaType updatedDesc (tNodeID chg) (tStoreID chg) t of
        (rDesc, prevTyp, ok, updatedDesc1) \<Rightarrow>
          if \<not> ok \<or> prevTyp \<noteq> from then Inl (Errorf ''cannot promote target %v which is missing'')
          else Inr (updatedDesc1, added @ [rDesc], removed))"

definition demote :: "bool \<Rightarrow> ReplicaType \<Rightarrow> internalReplicationChange \<Rightarrow> change_state \<Rightarrow> change_state result" where
  "demote joint target chg s =
    (case s of (updatedDesc, added, removed) \<Rightarrow>
      case GetReplicaDescriptor updatedDesc (tStoreID chg) of
        None \<Rightarrow> Inl (Errorf ''target %s not found'')
      | Some rDesc \<Rightarrow>
          if \<not> joint then Inl (Errorf ''demotions require joint consensus'')
          else if RType rDesc \<noteq> VOTER_FULL then Inl (Errorf ''cannot transition from %s'')
          else case SetReplicaType updatedDesc (tNodeID chg) (tStoreID chg) target of
            (rDesc1, _, _, updatedDesc1) \<Rightarrow> Inr (updatedDesc1, added, removed @ [rDesc1]))"

definition removeTarget :: "bool \<Rightarrow> internalReplicationChange \<Rightarrow> change_state \<Rightarrow> change_state result" where
  "removeTarget joint chg s =
    (case s of (updatedDesc, added, removed) \<Rightarrow>
      case GetReplicaDescriptor updatedDesc (tStoreID chg) of
        None \<Rightarrow> Inl (Errorf ''target %s not found'')
      | Some rDesc \<Rightarrow>
          let prevTyp = RType rDesc;
              isRaftLearner = (prevTyp = LEARNER \<or> prevTyp = NON_VOTER)
          in if \<not> joint \<or> isRaftLearner then
               (case RemoveReplica updatedDesc (tNodeID chg) (tStoreID chg) of
                  (rDesc1, _, updatedDesc1) \<Rightarrow> Inr (updatedDesc1, added, removed @ [rDesc1]))
             else if prevTyp \<noteq> VOTER_FULL then Inl (Errorf ''cannot transition from %s to VOTER_OUTGOING'')
             else case SetReplicaType updatedDesc (tNodeID chg) (tStoreID chg) VOTER_OUTGOING of
               (rDesc1, _, _, updatedDesc1) \<Rightarrow> Inr (updatedDesc1, added, removed @ [rDesc1]))"

definition applyChange :: "bool \<Rightarrow> internalReplicationChange \<Rightarrow> change_state \<Rightarrow> change_state result" where
  "applyChange joint chg s =
    (case ctyp chg of
       internalChangeTypeAddLearner \<Rightarrow>
         (case s of (updatedDesc, added, removed) \<Rightarrow>
           case AddReplica updatedDesc (tNodeID chg) (tStoreID chg) LEARNER of
             (rDesc, updatedDesc1) \<Rightarrow> Inr (updatedDesc1, added @ [rDesc], removed))
     | internalChangeTypeAddNonVoter \<Rightarrow>
         (case s of (updatedDesc, added, removed) \<Rightarrow>
           case AddReplica updatedDesc (tNodeID chg) (tStoreID chg) NON_VOTER of
             (rDesc, updatedDesc1) \<Rightarrow> Inr (updatedDesc1, added @ [rDesc], removed))
     | internalChangeTypePromoteLearner \<Rightarrow> promote joint LEARNER chg s
     | internalChangeTypePromoteNonVoter \<Rightarrow> promote joint NON_VOTER chg s
     | internalChangeTypeRemoveLearner \<Rightarrow> removeTarget joint chg s
     | internalChangeTypeRemoveNonVoter \<Rightarrow> removeTarget joint chg s
     | internalChangeTypeDemoteVoterToLearner \<Rightarrow> demote joint VOTER_DEMOTING_LEARNER chg s
     | internalChangeTypeDemoteVoterToNonVoter \<Rightarrow> demote joint VOTER_DEMOTING_NON_VOTER chg s
     | otherChangeType _ \<Rightarrow> Inl (Errorf ''unsupported internal change type %d''))"

fun applyChanges :: "bool \<Rightarrow> internalReplicationChange list \<Rightarrow> change_state \<Rightarrow> change_state result" where
  "applyChanges joint [] s = Inr s"
| "applyChanges joint (chg # chgs) s = rbind (applyChange joint chg s) (applyChanges joint chgs)"

text \<open>One iteration of the loop that leaves a joint configuration; it runs over a copy of the replicas
  as they were before the loop.\<close>

definition leaveStep :: "RangeDescriptor \<times> bool \<Rightarrow> ReplicaDescriptor \<Rightarrow> RangeDescriptor \<times> bool" where
  "leaveStep s rDesc =
    (case s of (updatedDesc, isJoint) \<Rightarrow>
      let setType = (\<lambda>t. snd (snd (snd (SetReplicaType updatedDesc (NodeID rDesc) (StoreID rDesc) t)))) in
      case RType rDesc of
        VOTER_INCOMING \<Rightarrow> (setType VOTER_FULL, True)
      | VOTER_OUTGOING \<Rightarrow> (snd (snd (RemoveReplica updatedDesc (NodeID rDesc) (StoreID rDesc))), True)
      | VOTER_DEMOTING_LEARNER \<Rightarrow> (setType LEARNER, True)
      | VOTER_DEMOTING_NON_VOTER \<Rightarrow> (setType NON_VOTER, True)
      | _ \<Rightarrow> (updatedDesc, isJoint))"

text \<open>\<open>force\<close> is the result of the testing knob.\<close>

definition prepareChangeReplicasTrigger ::
    "RangeDescriptor \<Rightarrow> internalReplicationChange list \<Rightarrow> bool \<Rightarrow> ChangeReplicasTrigger result" where
  "prepareChangeReplicasTrigger desc chgs force =
    (let updatedDesc = IncrementGeneration desc;
         changed =
           (if \<not> leaveJoint chgs then
              rbind (InAtomicReplicationChange (InternalReplicas desc)) (\<lambda>atomic.
                if atomic then Inl (Errorf ''must transition out of joint config first: %s'')
                else
                  let joint = (if force then True else useJoint chgs)
                  in applyChanges joint chgs (updatedDesc, [], []))
            else
              case foldl leaveStep (updatedDesc, False) (InternalReplicas updatedDesc) of
                (updatedDesc1, isJoint) \<Rightarrow>
                  if \<not> isJoint then Inl (Errorf ''cannot leave a joint config; desc not joint: %s'')
                  else Inr (updatedDesc1, [], []))
     in rbind changed (\<lambda>(updatedDesc1, added, removed).
          case ValidateDesc updatedDesc1 of
            Inl _ \<Rightarrow> Inl (Errorf ''validating updated descriptor %s'')
          | Inr _ \<Rightarrow>
              let crt = \<lparr>Desc = updatedDesc1, InternalAddedReplicas = added, InternalRemovedReplicas = removed\<rparr> in
              case ConfChange crt [] of
                Inl (Panic m) \<Rightarrow> Inl (Panic m)
              | Inl (Errorf _) \<Rightarrow> Inl (Errorf ''programming error: malformed trigger created from desc %s to %s'')
              | Inr _ \<Rightarrow> Inr crt))"

subsection \<open>Voters by replica ID\<close>

definition old_ids :: "RangeDescriptor \<Rightarrow> int32 multiset" where
  "old_ids d = image_mset ReplicaID (old_voters (InternalReplicas d))"

definition new_ids :: "RangeDescriptor \<Rightarrow> int32 multiset" where
  "new_ids d = image_mset ReplicaID (new_voters (InternalReplicas d))"

lemma majority_image: "majority (image_mset f M) p \<longleftrightarrow> majority M (\<lambda>x. p (f x))"
  by (simp add: majority_def filter_mset_image_mset)

lemma progress_ids:
  "CanMakeProgress (InternalReplicas d) (\<lambda>r. live (ReplicaID r)) \<longleftrightarrow>
    majority (new_ids d) live \<and> (old_ids d = {#} \<or> majority (old_ids d) live)"
  by (simp add: CanMakeProgress_iff new_ids_def old_ids_def majority_image)

lemma majority_nonempty: "majority M p \<Longrightarrow> M \<noteq> {#}"
  by (auto simp: majority_def)

definition one_id :: "(ReplicaDescriptor \<Rightarrow> bool) \<Rightarrow> ReplicaDescriptor \<Rightarrow> int32 multiset" where
  "one_id p r = (if p r then {#ReplicaID r#} else {#})"

lemma voters_update:
  assumes "i < length ds" "ReplicaID y = ReplicaID (ds ! i)" "p y = p (ds ! i)"
  shows "image_mset ReplicaID (filter_mset p (mset (ds[i := y]))) = image_mset ReplicaID (filter_mset p (mset ds))"
proof -
  obtain M where M: "mset ds = add_mset (ds ! i) M" using assms(1) by (metis multi_member_split nth_mem set_mset_mset)
  then have "mset (ds[i := y]) = add_mset y M" using assms(1) by (simp add: mset_update)
  then show ?thesis using assms(2,3) M by simp
qed

lemma voters_remove:
  "mset ds = add_mset x (mset es) \<Longrightarrow>
    image_mset ReplicaID (filter_mset p (mset ds)) = one_id p x + image_mset ReplicaID (filter_mset p (mset es))"
  by (simp add: one_id_def)

text \<open>Every store is on one node.\<close>

definition located :: "(int32 \<Rightarrow> int32) \<Rightarrow> RangeDescriptor \<Rightarrow> bool" where
  "located nodeOf d \<longleftrightarrow> (\<forall>r \<in> set (InternalReplicas d). NodeID r = nodeOf (StoreID r))"

lemma find_idx_cong: "(\<And>x. x \<in> set xs \<Longrightarrow> p x = q x) \<Longrightarrow> find_idx p xs = find_idx q xs"
  by (induction xs) auto

lemma located_get:
  assumes "located nodeOf d" "n = nodeOf s" "GetReplicaDescriptor d s = Some r"
  obtains i where "i < length (InternalReplicas d)" "r = InternalReplicas d ! i"
    "find_idx (\<lambda>x. StoreID x = s \<and> NodeID x = n) (InternalReplicas d) = Some i"
    "find_idx (\<lambda>x. NodeID x = n \<and> StoreID x = s) (InternalReplicas d) = Some i"
proof -
  obtain i where i: "find_idx (\<lambda>x. StoreID x = s) (InternalReplicas d) = Some i" "r = InternalReplicas d ! i"
    using assms(3) by (auto simp: GetReplicaDescriptor_def GetReplicaDescriptorLoop_find)
  have eq: "find_idx p (InternalReplicas d) = find_idx (\<lambda>x. StoreID x = s) (InternalReplicas d)"
    if "\<And>x. p x \<longleftrightarrow> StoreID x = s \<and> NodeID x = n" for p
  proof (rule find_idx_cong)
    fix x
    assume "x \<in> set (InternalReplicas d)"
    then have "NodeID x = nodeOf (StoreID x)" using assms(1) by (simp add: located_def)
    then show "p x \<longleftrightarrow> StoreID x = s" using that [of x] assms(2) by auto
  qed
  show ?thesis
  proof (rule that [of i])
    show "i < length (InternalReplicas d)" using i(1) by (simp add: find_idx_Some)
    show "r = InternalReplicas d ! i" by (rule i(2))
    show "find_idx (\<lambda>x. StoreID x = s \<and> NodeID x = n) (InternalReplicas d) = Some i"
      using eq [of "\<lambda>x. StoreID x = s \<and> NodeID x = n"] i(1) by simp
    show "find_idx (\<lambda>x. NodeID x = n \<and> StoreID x = s) (InternalReplicas d) = Some i"
      by (subst eq) (auto simp: i(1))
  qed
qed

subsection \<open>Entering a joint configuration\<close>

lemma promote_effect:
  assumes "promote joint frm chg (d, a, rm) = Inr (d', a', rm')"
  obtains i where "i < length (InternalReplicas d)" "RType (InternalReplicas d ! i) = frm"
    "d' = d\<lparr>InternalReplicas := (InternalReplicas d)[i := (InternalReplicas d ! i)\<lparr>RType := if joint then VOTER_INCOMING else VOTER_FULL\<rparr>]\<rparr>"
  using assms
  by (cases rule: SetReplicaType_cases [of d "tNodeID chg" "tStoreID chg" "if joint then VOTER_INCOMING else VOTER_FULL"])
    (auto simp: promote_def Let_def split: if_splits)

lemma set_type_effect:
  assumes "located nodeOf d" "n = nodeOf s" "GetReplicaDescriptor d s = Some r"
    and "SetReplicaType d n s t = (r', pt, ok, d')"
  obtains i where "i < length (InternalReplicas d)" "r = InternalReplicas d ! i"
    "d' = d\<lparr>InternalReplicas := (InternalReplicas d)[i := r\<lparr>RType := t\<rparr>]\<rparr>"
proof -
  obtain i where "i < length (InternalReplicas d)" "r = InternalReplicas d ! i"
      "find_idx (\<lambda>x. StoreID x = s \<and> NodeID x = n) (InternalReplicas d) = Some i"
    using located_get [OF assms(1-3)] by blast
  then show ?thesis using that [of i] assms(4) by (auto simp: SetReplicaType_def Let_def)
qed

lemma located_update:
  assumes "located nodeOf d" "i < length (InternalReplicas d)"
  shows "located nodeOf (d\<lparr>InternalReplicas := (InternalReplicas d)[i := (InternalReplicas d ! i)\<lparr>RType := t\<rparr>]\<rparr>)"
proof -
  have "set ((InternalReplicas d)[i := y]) \<subseteq> insert y (set (InternalReplicas d))" for y by (rule set_update_subset_insert)
  then show ?thesis using assms by (fastforce simp: located_def)
qed

lemma mset_add_subset: "mset ds = add_mset x (mset es) \<Longrightarrow> set es \<subseteq> set ds"
  by (metis set_mset_add_mset_insert set_mset_mset subset_insertI)

lemma located_remove: "located nodeOf d \<Longrightarrow> located nodeOf (snd (snd (RemoveReplica d n s)))"
proof (cases rule: RemoveReplica_cases [of d n s])
  case (2 i es)
  assume "located nodeOf d"
  then show ?thesis using mset_add_subset [OF 2(5)] by (auto simp: 2(4) located_def)
qed simp

lemmas ids_defs = old_ids_def new_ids_def old_voters_def new_voters_def

text \<open>In a joint change no step touches the voters of the old configuration.\<close>

lemma promote_joint:
  assumes "promote True frm chg (d, a, rm) = Inr (d', a', rm')" "located nodeOf d" "frm = LEARNER \<or> frm = NON_VOTER"
  shows "old_ids d' = old_ids d \<and> located nodeOf d'"
proof -
  obtain i where i: "i < length (InternalReplicas d)" "RType (InternalReplicas d ! i) = frm"
      "d' = d\<lparr>InternalReplicas := (InternalReplicas d)[i := (InternalReplicas d ! i)\<lparr>RType := VOTER_INCOMING\<rparr>]\<rparr>"
    using promote_effect [OF assms(1)] by auto
  then have "old_ids d' = old_ids d"
    using assms(3) by (auto simp: ids_defs i(3) IsVoterOldConfig_def intro!: voters_update)
  then show ?thesis using located_update [OF assms(2) i(1)] i(3) by simp
qed

lemma set_voter_joint:
  assumes "SetReplicaType d n s t = (r', pt, ok, d')" "located nodeOf d" "n = nodeOf s"
    and "GetReplicaDescriptor d s = Some r" "RType r = VOTER_FULL"
    and "t \<in> {VOTER_OUTGOING, VOTER_DEMOTING_LEARNER, VOTER_DEMOTING_NON_VOTER}"
  shows "old_ids d' = old_ids d \<and> located nodeOf d'"
proof -
  obtain i where i: "i < length (InternalReplicas d)" "r = InternalReplicas d ! i"
      "d' = d\<lparr>InternalReplicas := (InternalReplicas d)[i := r\<lparr>RType := t\<rparr>]\<rparr>"
    using set_type_effect [OF assms(2,3,4,1)] by blast
  then have "old_ids d' = old_ids d"
    using assms(5,6) by (auto simp: ids_defs i(3) IsVoterOldConfig_def intro!: voters_update)
  then show ?thesis using located_update [OF assms(2) i(1), of t] i(2,3) by simp
qed

lemma remove_learner_joint:
  assumes "located nodeOf d" "n = nodeOf s" "GetReplicaDescriptor d s = Some r" "\<not> p r"
  shows "image_mset ReplicaID (filter_mset p (mset (InternalReplicas (snd (snd (RemoveReplica d n s)))))) =
    image_mset ReplicaID (filter_mset p (mset (InternalReplicas d)))"
proof -
  obtain i where i: "r = InternalReplicas d ! i" "find_idx (\<lambda>x. NodeID x = n \<and> StoreID x = s) (InternalReplicas d) = Some i"
    using located_get [OF assms(1-3)] by blast
  then obtain es where es: "setRemoveReplica (InternalReplicas d) n s = (r, True, es)"
      "mset (InternalReplicas d) = add_mset r (mset es)"
    using setRemoveReplica_Some [OF i(2)] by blast
  then show ?thesis using voters_remove [OF es(2), of p] assms(4) by (simp add: RemoveReplica_def one_id_def)
qed

lemma removeTarget_joint:
  assumes "removeTarget True chg (d, a, rm) = Inr (d', a', rm')" "located nodeOf d" "tNodeID chg = nodeOf (tStoreID chg)"
  shows "old_ids d' = old_ids d \<and> located nodeOf d'"
proof -
  obtain r where r: "GetReplicaDescriptor d (tStoreID chg) = Some r"
    using assms(1) by (auto simp: removeTarget_def split: option.splits)
  show ?thesis
  proof (cases "RType r = LEARNER \<or> RType r = NON_VOTER")
    case True
    then have "\<not> IsVoterOldConfig r" by (auto simp: IsVoterOldConfig_def)
    moreover have "d' = snd (snd (RemoveReplica d (tNodeID chg) (tStoreID chg)))"
      using assms(1) True r by (auto simp: removeTarget_def split: prod.splits)
    ultimately show ?thesis
      using remove_learner_joint [OF assms(2,3) r] located_remove [OF assms(2)] by (simp add: ids_defs)
  next
    case False
    then have "RType r = VOTER_FULL" and
        d': "d' = snd (snd (snd (SetReplicaType d (tNodeID chg) (tStoreID chg) VOTER_OUTGOING)))"
      using assms(1) r by (auto simp: removeTarget_def split: prod.splits if_splits)
    then show ?thesis
      by (cases "SetReplicaType d (tNodeID chg) (tStoreID chg) VOTER_OUTGOING")
        (use set_voter_joint [OF _ assms(2,3) r] in auto)
  qed
qed

lemma demote_joint:
  assumes "demote True t chg (d, a, rm) = Inr (d', a', rm')" "located nodeOf d" "tNodeID chg = nodeOf (tStoreID chg)"
    and "t \<in> {VOTER_DEMOTING_LEARNER, VOTER_DEMOTING_NON_VOTER}"
  shows "old_ids d' = old_ids d \<and> located nodeOf d'"
proof -
  obtain r where r: "GetReplicaDescriptor d (tStoreID chg) = Some r" "RType r = VOTER_FULL"
    using assms(1) by (auto simp: demote_def split: option.splits if_splits)
  have "d' = snd (snd (snd (SetReplicaType d (tNodeID chg) (tStoreID chg) t)))"
    using assms(1) r by (auto simp: demote_def split: prod.splits)
  then show ?thesis
    by (cases "SetReplicaType d (tNodeID chg) (tStoreID chg) t")
      (use set_voter_joint [OF _ assms(2,3) r] assms(4) in auto)
qed

lemma applyChange_joint:
  assumes "applyChange True chg (d, a, rm) = Inr (d', a', rm')" "located nodeOf d" "tNodeID chg = nodeOf (tStoreID chg)"
  shows "old_ids d' = old_ids d \<and> located nodeOf d'"
proof -
  have add: "old_ids (snd (AddReplica d (tNodeID chg) (tStoreID chg) t)) = old_ids d \<and>
      located nodeOf (snd (AddReplica d (tNodeID chg) (tStoreID chg) t))" if "t = LEARNER \<or> t = NON_VOTER" for t
    using that assms(2,3) by (auto simp: AddReplica_def setAddReplica_def ids_defs located_def IsVoterOldConfig_def Let_def)
  show ?thesis
  proof (cases "ctyp chg")
    case internalChangeTypeAddLearner
    then show ?thesis using assms(1) add [of LEARNER] by (auto simp: applyChange_def split: prod.splits)
  next
    case internalChangeTypeAddNonVoter
    then show ?thesis using assms(1) add [of NON_VOTER] by (auto simp: applyChange_def split: prod.splits)
  qed (use assms promote_joint removeTarget_joint [OF _ assms(2,3)] demote_joint [OF _ assms(2,3)]
      in \<open>auto simp: applyChange_def\<close>)
qed

lemma applyChanges_joint:
  "applyChanges True chgs (d, a, rm) = Inr (d', a', rm') \<Longrightarrow> located nodeOf d \<Longrightarrow>
    list_all (\<lambda>c. tNodeID c = nodeOf (tStoreID c)) chgs \<Longrightarrow> old_ids d' = old_ids d"
proof (induction chgs arbitrary: d a rm)
  case (Cons chg chgs)
  then obtain d1 a1 rm1 where s: "applyChange True chg (d, a, rm) = Inr (d1, a1, rm1)"
      "applyChanges True chgs (d1, a1, rm1) = Inr (d', a', rm')"
    by (auto simp: rbind_Inr_conv)
  with Cons applyChange_joint [OF s(1)] show ?case by auto
qed simp

subsection \<open>A simple change\<close>

text \<open>A change that does not go through a joint configuration moves at most one voter.\<close>

lemma voters_promoted:
  assumes "i < length ds" "\<not> p (ds ! i)" "p y"
  shows "image_mset ReplicaID (filter_mset p (mset (ds[i := y]))) =
    add_mset (ReplicaID y) (image_mset ReplicaID (filter_mset p (mset ds)))"
proof -
  obtain M where M: "mset ds = add_mset (ds ! i) M" using assms(1) by (metis multi_member_split nth_mem set_mset_mset)
  then have "mset (ds[i := y]) = add_mset y M" using assms(1) by (simp add: mset_update)
  then show ?thesis using assms(2,3) M by simp
qed

definition near :: "int32 multiset \<Rightarrow> int32 multiset \<Rightarrow> bool" where
  "near M N \<longleftrightarrow> N = M \<or> (\<exists>x. N = add_mset x M) \<or> (\<exists>x. M = add_mset x N)"

lemma near_overlap: "near M N \<Longrightarrow> majority M p \<Longrightarrow> majority N q \<Longrightarrow> \<exists>x. p x \<and> q x"
  using majority_overlap [of M p q] majority_overlap_add [of M p _ q] majority_overlap_add [of N q _ p]
  unfolding near_def by blast

lemma promote_simple:
  assumes "promote False frm chg (d, a, rm) = Inr (d', a', rm')" "frm = LEARNER \<or> frm = NON_VOTER"
  shows "near (new_ids d) (new_ids d')"
proof -
  obtain i where i: "i < length (InternalReplicas d)" "RType (InternalReplicas d ! i) = frm"
      "d' = d\<lparr>InternalReplicas := (InternalReplicas d)[i := (InternalReplicas d ! i)\<lparr>RType := VOTER_FULL\<rparr>]\<rparr>"
    using promote_effect [OF assms(1)] by auto
  have "\<not> IsVoterNewConfig (InternalReplicas d ! i)" "IsVoterNewConfig ((InternalReplicas d ! i)\<lparr>RType := VOTER_FULL\<rparr>)"
    using i(2) assms(2) by (auto simp: IsVoterNewConfig_def)
  from voters_promoted [OF i(1) this] show ?thesis by (auto simp: near_def ids_defs i(3))
qed

lemma removeTarget_simple:
  assumes "removeTarget False chg (d, a, rm) = Inr (d', a', rm')"
  shows "near (new_ids d) (new_ids d')"
proof -
  have d': "d' = snd (snd (RemoveReplica d (tNodeID chg) (tStoreID chg)))"
    using assms by (auto simp: removeTarget_def split: option.splits prod.splits)
  show ?thesis
  proof (cases rule: RemoveReplica_cases [of d "tNodeID chg" "tStoreID chg"])
    case 1
    then show ?thesis by (simp add: d' near_def)
  next
    case (2 i es)
    from voters_remove [OF 2(5), of IsVoterNewConfig] show ?thesis
      by (auto simp: d' 2(4) near_def ids_defs one_id_def)
  qed
qed

lemma applyChange_simple:
  assumes "applyChange False chg (d, a, rm) = Inr (d', a', rm')"
  shows "near (new_ids d) (new_ids d')"
proof -
  have add: "new_ids (snd (AddReplica d n s t)) = new_ids d" if "t = LEARNER \<or> t = NON_VOTER" for n s t
    using that by (auto simp: AddReplica_def setAddReplica_def ids_defs IsVoterNewConfig_def Let_def)
  show ?thesis
  proof (cases "ctyp chg")
    case internalChangeTypeAddLearner
    then show ?thesis using assms(1) add [of LEARNER "tNodeID chg" "tStoreID chg"]
      by (auto simp: applyChange_def near_def split: prod.splits)
  next
    case internalChangeTypeAddNonVoter
    then show ?thesis using assms(1) add [of NON_VOTER "tNodeID chg" "tStoreID chg"]
      by (auto simp: applyChange_def near_def split: prod.splits)
  qed (use assms promote_simple removeTarget_simple in \<open>auto simp: applyChange_def demote_def split: option.splits\<close>)
qed

subsection \<open>Leaving a joint configuration\<close>

definition left :: "ReplicaDescriptor \<Rightarrow> ReplicaSet" where
  "left r =
    (case RType r of VOTER_INCOMING \<Rightarrow> [r\<lparr>RType := VOTER_FULL\<rparr>] | VOTER_OUTGOING \<Rightarrow> []
     | VOTER_DEMOTING_LEARNER \<Rightarrow> [r\<lparr>RType := LEARNER\<rparr>] | VOTER_DEMOTING_NON_VOTER \<Rightarrow> [r\<lparr>RType := NON_VOTER\<rparr>]
     | _ \<Rightarrow> [r])"

lemma distinct_store_index:
  assumes "distinct (map StoreID ds)" "i < length ds" "StoreID (ds ! i) = StoreID r" "r \<in> set ds"
  shows "ds ! i = r"
proof -
  obtain j where "j < length ds" "r = ds ! j" using assms(4) by (auto simp: in_set_conv_nth)
  then show ?thesis using assms(1-3) nth_eq_iff_index_eq [of "map StoreID ds" i j] by simp
qed

lemma set_type_unique:
  assumes "distinct (map StoreID (InternalReplicas d))" "mset (InternalReplicas d) = add_mset r M"
  shows "mset (InternalReplicas (snd (snd (snd (SetReplicaType d (NodeID r) (StoreID r) t))))) = add_mset (r\<lparr>RType := t\<rparr>) M"
proof -
  have r: "r \<in> set (InternalReplicas d)" using assms(2) by (metis union_single_eq_member set_mset_mset)
  show ?thesis
  proof (cases rule: SetReplicaType_cases [of d "NodeID r" "StoreID r" t])
    case 1
    then show ?thesis using r by blast
  next
    case (2 i)
    have "InternalReplicas d ! i = r" by (rule distinct_store_index [OF assms(1) 2(1,2) r])
    then show ?thesis using 2(1,4) assms(2) by (simp add: mset_update)
  qed
qed

lemma remove_unique:
  assumes "distinct (map StoreID (InternalReplicas d))" "mset (InternalReplicas d) = add_mset r M"
  shows "mset (InternalReplicas (snd (snd (RemoveReplica d (NodeID r) (StoreID r))))) = M"
proof -
  have r: "r \<in> set (InternalReplicas d)" using assms(2) by (metis union_single_eq_member set_mset_mset)
  show ?thesis
  proof (cases rule: RemoveReplica_cases [of d "NodeID r" "StoreID r"])
    case 1
    then show ?thesis using r by blast
  next
    case (2 i es)
    have "InternalReplicas d ! i = r" by (rule distinct_store_index [OF assms(1) 2(1,3) r])
    then show ?thesis using 2(4,5) assms(2) by simp
  qed
qed

lemma leaveStep_effect:
  assumes "distinct (map StoreID (InternalReplicas d))" "mset (InternalReplicas d) = add_mset r M"
  shows "mset (InternalReplicas (fst (leaveStep (d, j) r))) = mset (left r) + M"
  using set_type_unique [OF assms] remove_unique [OF assms] assms(2)
  by (cases "RType r") (simp_all add: leaveStep_def left_def Let_def)

lemma leaveStep_joint: "snd (leaveStep (d, j) r) \<longleftrightarrow> j \<or> joint_type r"
  by (cases "RType r") (auto simp: leaveStep_def joint_type_def Let_def)

lemma left_stores: "image_mset StoreID (mset (left r)) \<subseteq># {#StoreID r#}"
  by (cases "RType r") (auto simp: left_def)

lemma leave_loop:
  "mset (InternalReplicas d) = mset (finished @ todo) \<Longrightarrow> distinct (map StoreID (finished @ todo)) \<Longrightarrow>
    mset (InternalReplicas (fst (foldl leaveStep (d, j) todo))) = mset (finished @ concat (map left todo)) \<and>
    (snd (foldl leaveStep (d, j) todo) \<longleftrightarrow> j \<or> list_ex joint_type todo)"
proof (induction todo arbitrary: d j finished)
  case (Cons r todo)
  obtain d1 j1 where s: "leaveStep (d, j) r = (d1, j1)" by fastforce
  have "distinct (map StoreID (InternalReplicas d))"
    using Cons.prems by (metis mset_map distinct_mset_sub subset_mset.order_refl)
  from leaveStep_effect [OF this, of r "mset (finished @ todo)" j] Cons.prems(1)
  have m: "mset (InternalReplicas d1) = mset ((finished @ left r) @ todo)" by (simp add: s)
  have "mset (map StoreID ((finished @ left r) @ todo)) \<subseteq># mset (map StoreID (finished @ r # todo))"
    using left_stores [of r] by (simp add: ac_simps)
  from distinct_mset_sub [OF this Cons.prems(2)] Cons.IH [OF m] show ?case
    using leaveStep_joint [of d j r] s by simp
qed simp

lemma left_new_ids:
  "image_mset ReplicaID (filter_mset IsVoterNewConfig (mset (concat (map left ds)))) =
   image_mset ReplicaID (filter_mset IsVoterNewConfig (mset ds))"
proof (induction ds)
  case (Cons r ds)
  then show ?case by (cases "RType r") (simp_all add: left_def IsVoterNewConfig_def [of r] IsVoterNewConfig_def [of "RType_update f r" for f])
qed simp

lemma left_not_joint: "list_all known_type ds \<Longrightarrow> list_all (\<lambda>r. known_type r \<and> \<not> joint_type r) (concat (map left ds))"
proof (induction ds)
  case (Cons r ds)
  then show ?case by (cases "RType r") (auto simp: left_def known_type_def joint_type_def)
qed simp

subsection \<open>The trigger as a whole\<close>

lemma checked_Inr_conv:
  "(case r of Inl e \<Rightarrow> Inl (f e) | Inr x \<Rightarrow> g x) = Inr y \<longleftrightarrow> (\<exists>x. r = Inr x \<and> g x = Inr y)"
  "(case r of Inl (Panic m) \<Rightarrow> Inl (Panic m) | Inl (Errorf _) \<Rightarrow> Inl (Errorf msg) | Inr x \<Rightarrow> g x) = Inr y \<longleftrightarrow>
    (\<exists>x. r = Inr x \<and> g x = Inr y)"
  by (auto split: sum.splits go_error.splits)

lemma trigger_checked:
  "prepareChangeReplicasTrigger desc chgs force = Inr crt \<Longrightarrow>
    ValidateDesc (Desc crt) = Inr () \<and> (\<exists>cc. ConfChange crt [] = Inr cc)"
  by (auto simp: prepareChangeReplicasTrigger_def Let_def rbind_Inr_conv checked_Inr_conv)

lemma trigger_cases:
  assumes "prepareChangeReplicasTrigger desc chgs force = Inr crt"
  obtains (leave) "chgs = []" "foldl leaveStep (IncrementGeneration desc, False) (InternalReplicas desc) = (Desc crt, True)"
      "InternalAddedReplicas crt = []" "InternalRemovedReplicas crt = []"
  | (enter) joint where "chgs \<noteq> []" "InAtomicReplicationChange (InternalReplicas desc) = Inr False"
      "joint \<or> length chgs = 1"
      "applyChanges joint chgs (IncrementGeneration desc, [], []) =
         Inr (Desc crt, InternalAddedReplicas crt, InternalRemovedReplicas crt)"
proof (cases "chgs = []")
  case True
  then show ?thesis using assms leave
    by (auto simp: prepareChangeReplicasTrigger_def leaveJoint_def Let_def rbind_Inr_conv checked_Inr_conv
        IncrementGeneration_def split: prod.splits if_splits)
next
  case False
  let ?j = "if force then True else useJoint chgs"
  have "?j \<or> length chgs = 1" using False by (cases chgs; cases "tl chgs") (auto simp: useJoint_def)
  moreover have "InAtomicReplicationChange (InternalReplicas desc) = Inr False \<and>
      applyChanges ?j chgs (IncrementGeneration desc, [], []) =
        Inr (Desc crt, InternalAddedReplicas crt, InternalRemovedReplicas crt)"
    using False assms
    by (auto simp: prepareChangeReplicasTrigger_def leaveJoint_def Let_def rbind_Inr_conv checked_Inr_conv
        split: prod.splits if_splits)
  ultimately show ?thesis using enter [of ?j] False by blast
qed

lemma generation_ids [simp]:
  "old_ids (IncrementGeneration d) = old_ids d" "new_ids (IncrementGeneration d) = new_ids d"
  "located f (IncrementGeneration d) = located f d" "InternalReplicas (IncrementGeneration d) = InternalReplicas d"
  by (simp_all add: IncrementGeneration_def ids_defs located_def)

lemma not_joint_ids: "InAtomicReplicationChange (InternalReplicas d) = Inr False \<Longrightarrow> old_ids d = new_ids d"
  using InAtomicReplicationChange_False [of "InternalReplicas d"] not_joint_voters [of "InternalReplicas d"]
  by (simp add: ids_defs flip: mset_filter)

text \<open>The span, the ID and everything else of a descriptor but its replicas, next ID and generation.\<close>

definition frame :: "RangeDescriptor \<Rightarrow> int64 \<times> bytes \<times> bytes \<times> int64 \<times> Timestamp" where
  "frame d = (RangeID d, StartKey d, DEndKey d, Generation d, StickyBit d)"

lemma frame_ops [simp]:
  "frame (snd (AddReplica d n s t)) = frame d"
  "frame (snd (snd (RemoveReplica d n s))) = frame d"
  "frame (snd (snd (snd (SetReplicaType d n s t)))) = frame d"
  by (simp_all add: frame_def AddReplica_def RemoveReplica_def SetReplicaType_def Let_def split: prod.split option.split)

lemma frame_results:
  "AddReplica d n s t = (x, d') \<Longrightarrow> frame d' = frame d"
  "RemoveReplica d n s = (x, ok, d') \<Longrightarrow> frame d' = frame d"
  "SetReplicaType d n s t = (x, pt, ok, d') \<Longrightarrow> frame d' = frame d"
  using frame_ops(1) [of d n s t] frame_ops(2) [of d n s] frame_ops(3) [of d n s t] by simp_all

lemma applyChange_frame: "applyChange joint chg (d, a, rm) = Inr (d', a', rm') \<Longrightarrow> frame d' = frame d"
  by (cases "ctyp chg")
    (auto simp: applyChange_def promote_def demote_def removeTarget_def Let_def
      split: prod.splits option.splits if_splits dest: frame_results)

lemma applyChanges_frame: "applyChanges joint chgs (d, a, rm) = Inr (d', a', rm') \<Longrightarrow> frame d' = frame d"
proof (induction chgs arbitrary: d a rm)
  case (Cons chg chgs)
  then show ?case by (auto simp: rbind_Inr_conv dest: applyChange_frame)
qed simp

lemma leave_frame: "frame (fst (foldl leaveStep (d, j) todo)) = frame d"
proof (induction todo arbitrary: d j)
  case (Cons r todo)
  have "frame (fst (leaveStep (d, j) r)) = frame d"
    by (cases "RType r") (simp_all add: leaveStep_def Let_def)
  then show ?case using Cons.IH by (metis foldl_Cons prod.collapse)
qed simp

subsection \<open>Properties\<close>

text \<open>C3: reconfiguration is safe.  Whenever \<open>prepareChangeReplicasTrigger\<close> accepts a change of a valid
  descriptor whose stores each live on one node, a set of replicas that can make progress before the
  change and a set that can make progress after it share a replica: entering a joint configuration
  keeps the old voters, leaving it keeps the new ones, and a change made in one step moves one
  voter.\<close>

theorem reconfiguration_safe:
  assumes "prepareChangeReplicasTrigger desc chgs force = Inr crt" "ValidateDesc desc = Inr ()"
    and "located nodeOf desc" "list_all (\<lambda>c. tNodeID c = nodeOf (tStoreID c)) chgs"
    and "CanMakeProgress (InternalReplicas desc) (\<lambda>r. before (ReplicaID r))"
    and "CanMakeProgress (InternalReplicas (Desc crt)) (\<lambda>r. after (ReplicaID r))"
  shows "\<exists>i. before i \<and> after i"
proof -
  have b: "majority (new_ids desc) before" "old_ids desc = {#} \<or> majority (old_ids desc) before"
    and a: "majority (new_ids (Desc crt)) after" "old_ids (Desc crt) = {#} \<or> majority (old_ids (Desc crt)) after"
    using assms(5,6) by (simp_all add: progress_ids)
  show ?thesis
    using assms(1)
  proof (cases rule: trigger_cases)
    case leave
    have "distinct (map StoreID (InternalReplicas desc))"
      using assms(2) by (simp add: ValidateDesc_iff valid_desc_def)
    then have "mset (InternalReplicas (Desc crt)) = mset (concat (map left (InternalReplicas desc)))"
      using leave_loop [of "IncrementGeneration desc" "[]" "InternalReplicas desc" False] leave(2) by simp
    then have "new_ids (Desc crt) = new_ids desc" by (simp add: ids_defs left_new_ids)
    then show ?thesis using a(1) b(1) majority_overlap [of "new_ids desc"] by auto
  next
    case (enter joint)
    show ?thesis
    proof (cases joint)
      case True
      have "old_ids (Desc crt) = old_ids desc"
        using applyChanges_joint [of chgs "IncrementGeneration desc"] enter(4) True assms(3,4) by simp
      moreover have "old_ids desc = new_ids desc" by (rule not_joint_ids [OF enter(2)])
      ultimately show ?thesis
        using a(2) b(1) majority_nonempty [OF b(1)] majority_overlap [of "old_ids desc" before after] by auto
    next
      case False
      then obtain chg where "chgs = [chg]" using enter(3) by (auto simp: length_Suc_conv)
      then have "near (new_ids desc) (new_ids (Desc crt))"
        using applyChange_simple [of chg "IncrementGeneration desc"] enter(4) False by (auto simp: rbind_Inr_conv)
      then show ?thesis using near_overlap b(1) a(1) by blast
    qed
  qed
qed

theorem reconfiguration_safe_witness:
  "prepareChangeReplicasTrigger
     \<lparr>RangeID = 7, StartKey = [], DEndKey = [0xff, 0xff],
      InternalReplicas = [\<lparr>NodeID = 1, StoreID = 1, ReplicaID = 1, RType = VOTER_FULL\<rparr>,
        \<lparr>NodeID = 2, StoreID = 2, ReplicaID = 2, RType = LEARNER\<rparr>],
      NextReplicaID = 3, Generation = 4, StickyBit = emptyTimestamp\<rparr>
     [\<lparr>tNodeID = 2, tStoreID = 2, ctyp = internalChangeTypePromoteLearner\<rparr>] False =
   Inr \<lparr>Desc = \<lparr>RangeID = 7, StartKey = [], DEndKey = [0xff, 0xff],
      InternalReplicas = [\<lparr>NodeID = 1, StoreID = 1, ReplicaID = 1, RType = VOTER_FULL\<rparr>,
        \<lparr>NodeID = 2, StoreID = 2, ReplicaID = 2, RType = VOTER_FULL\<rparr>],
      NextReplicaID = 3, Generation = 5, StickyBit = emptyTimestamp\<rparr>,
      InternalAddedReplicas = [\<lparr>NodeID = 2, StoreID = 2, ReplicaID = 2, RType = VOTER_FULL\<rparr>],
      InternalRemovedReplicas = []\<rparr> \<and>
   (\<exists>i :: int32. i = 1 \<and> (i = 1 \<or> i = 2))"
proof -
  let ?d = "\<lparr>RangeID = 7, StartKey = [], DEndKey = [0xff, 0xff],
      InternalReplicas = [\<lparr>NodeID = 1, StoreID = 1, ReplicaID = 1, RType = VOTER_FULL\<rparr>,
        \<lparr>NodeID = 2, StoreID = 2, ReplicaID = 2, RType = LEARNER\<rparr>],
      NextReplicaID = 3, Generation = 4, StickyBit = emptyTimestamp\<rparr>"
  let ?chgs = "[\<lparr>tNodeID = 2, tStoreID = 2, ctyp = internalChangeTypePromoteLearner\<rparr>]"
  let ?d' = "\<lparr>RangeID = 7, StartKey = [], DEndKey = [0xff, 0xff],
      InternalReplicas = [\<lparr>NodeID = 1, StoreID = 1, ReplicaID = 1, RType = VOTER_FULL\<rparr>,
        \<lparr>NodeID = 2, StoreID = 2, ReplicaID = 2, RType = VOTER_FULL\<rparr>],
      NextReplicaID = 3, Generation = 5, StickyBit = emptyTimestamp\<rparr>"
  have t: "prepareChangeReplicasTrigger ?d ?chgs False = Inr \<lparr>Desc = ?d',
      InternalAddedReplicas = [\<lparr>NodeID = 2, StoreID = 2, ReplicaID = 2, RType = VOTER_FULL\<rparr>],
      InternalRemovedReplicas = []\<rparr>"
    by (simp add: prepareChangeReplicasTrigger_def leaveJoint_def useJoint_def IncrementGeneration_def applyChange_def
        promote_def SetReplicaType_def ValidateDesc_def ValidateReplica_def ConfChange_def confChangeImpl_def addedChange_def Let_def)
  have v: "ValidateDesc ?d = Inr ()" by (simp add: ValidateDesc_def ValidateReplica_def)
  have "CanMakeProgress (InternalReplicas ?d) (\<lambda>r. ReplicaID r = 1)"
      "CanMakeProgress (InternalReplicas ?d') (\<lambda>r. ReplicaID r = 1 \<or> ReplicaID r = 2)"
    by (simp_all add: CanMakeProgress_def ReplicationStatus_def FilterToDescriptors_filter IsVoterNewConfig_def IsVoterOldConfig_def Let_def)
  with reconfiguration_safe [OF t v, of "\<lambda>s. s" "\<lambda>i. i = 1" "\<lambda>i. i = 1 \<or> i = 2"] t show ?thesis
    by (simp add: located_def)
qed

text \<open>C35: the trigger of an accepted change carries a valid descriptor one generation later with the
  same span and ID; an empty change is accepted only in a joint configuration and leaves it, with the
  empty raft change that raft expects for that, and any other change only outside of one.\<close>

theorem trigger_descriptor:
  assumes "prepareChangeReplicasTrigger desc chgs force = Inr crt" "ValidateDesc desc = Inr ()"
    and "list_all known_type (InternalReplicas desc)"
  shows "ValidateDesc (Desc crt) = Inr () \<and> RangeID (Desc crt) = RangeID desc \<and>
    StartKey (Desc crt) = StartKey desc \<and> DEndKey (Desc crt) = DEndKey desc \<and>
    Generation (Desc crt) = Generation desc + 1 \<and>
    InAtomicReplicationChange (InternalReplicas desc) = Inr (chgs = []) \<and>
    (chgs = [] \<longrightarrow> InAtomicReplicationChange (InternalReplicas (Desc crt)) = Inr False \<and>
       ConfChange crt ctx = Inr (ConfChangeV2 ConfChangeTransitionAuto [] ctx))"
proof -
  have frame: "frame (Desc crt) = frame (IncrementGeneration desc)"
    using assms(1)
  proof (cases rule: trigger_cases)
    case leave
    then show ?thesis using leave_frame [of "IncrementGeneration desc" False "InternalReplicas desc"] by simp
  next
    case (enter joint)
    then show ?thesis using applyChanges_frame by blast
  qed
  have left: "InAtomicReplicationChange (InternalReplicas desc) = Inr True \<and>
      InAtomicReplicationChange (InternalReplicas (Desc crt)) = Inr False \<and>
      ConfChange crt ctx = Inr (ConfChangeV2 ConfChangeTransitionAuto [] ctx)" if "chgs = []"
    using assms(1)
  proof (cases rule: trigger_cases)
    case leave
    have "distinct (map StoreID (InternalReplicas desc))"
      using assms(2) by (simp add: ValidateDesc_iff valid_desc_def)
    then have m: "mset (InternalReplicas (Desc crt)) = mset (concat (map left (InternalReplicas desc)))"
        and j: "list_ex joint_type (InternalReplicas desc)"
      using leave_loop [of "IncrementGeneration desc" "[]" "InternalReplicas desc" False] leave(2) by simp_all
    have all: "list_all (\<lambda>r. known_type r \<and> \<not> joint_type r) (InternalReplicas (Desc crt))"
      using left_not_joint [OF assms(3)] mset_eq_setD [OF m] by (simp add: list_all_iff)
    then have "list_all known_type (InternalReplicas (Desc crt))" "\<not> list_ex joint_type (InternalReplicas (Desc crt))"
      by (auto simp: list_all_iff list_ex_iff)
    moreover from this(2) have "ConfChange crt ctx = Inr (ConfChangeV2 ConfChangeTransitionAuto [] ctx)"
      by (auto simp: ConfChange_def confChangeImpl_def leave(3,4) Let_def list_ex_iff joint_type_def split: ReplicaType.splits)
    ultimately show ?thesis using InAtomicReplicationChange_iff assms(3) j by auto
  next
    case (enter joint)
    then show ?thesis using that by simp
  qed
  have "InAtomicReplicationChange (InternalReplicas desc) = Inr False" if "chgs \<noteq> []"
    using assms(1) by (cases rule: trigger_cases) (use that in auto)
  then have "InAtomicReplicationChange (InternalReplicas desc) = Inr (chgs = [])" using left by (cases "chgs = []") auto
  with left frame trigger_checked [OF assms(1)] show ?thesis
    by (simp add: frame_def IncrementGeneration_def)
qed

theorem trigger_descriptor_witness:
  "ConfChange \<lparr>Desc = \<lparr>RangeID = 7, StartKey = [], DEndKey = [0xff, 0xff],
      InternalReplicas = [\<lparr>NodeID = 1, StoreID = 1, ReplicaID = 1, RType = VOTER_FULL\<rparr>],
      NextReplicaID = 3, Generation = 5, StickyBit = emptyTimestamp\<rparr>,
      InternalAddedReplicas = [], InternalRemovedReplicas = []\<rparr> [9] = Inr (ConfChangeV2 ConfChangeTransitionAuto [] [9])"
proof -
  let ?d = "\<lparr>RangeID = 7, StartKey = [], DEndKey = [0xff, 0xff],
      InternalReplicas = [\<lparr>NodeID = 2, StoreID = 2, ReplicaID = 2, RType = VOTER_OUTGOING\<rparr>,
        \<lparr>NodeID = 1, StoreID = 1, ReplicaID = 1, RType = VOTER_INCOMING\<rparr>],
      NextReplicaID = 3, Generation = 4, StickyBit = emptyTimestamp\<rparr>"
  let ?d' = "\<lparr>RangeID = 7, StartKey = [], DEndKey = [0xff, 0xff],
      InternalReplicas = [\<lparr>NodeID = 1, StoreID = 1, ReplicaID = 1, RType = VOTER_FULL\<rparr>],
      NextReplicaID = 3, Generation = 5, StickyBit = emptyTimestamp\<rparr>"
  have t: "prepareChangeReplicasTrigger ?d [] False = Inr \<lparr>Desc = ?d', InternalAddedReplicas = [], InternalRemovedReplicas = []\<rparr>"
    by (simp add: prepareChangeReplicasTrigger_def leaveJoint_def IncrementGeneration_def leaveStep_def RemoveReplica_def
        setRemoveReplica_def SetReplicaType_def ValidateDesc_def ValidateReplica_def ConfChange_def confChangeImpl_def Let_def)
  have v: "ValidateDesc ?d = Inr ()" by (simp add: ValidateDesc_def ValidateReplica_def)
  from trigger_descriptor [OF t v, of "[9]"] show ?thesis by (simp add: known_type_def)
qed

lemma removedLoop_length: "removedLoop reps rs sl = Inr sl' \<Longrightarrow> length sl + length rs \<le> length sl'"
proof (induction rs arbitrary: sl)
  case (Cons r rs)
  then obtain sl1 where s: "removedChange reps r sl = Inr sl1" "removedLoop reps rs sl1 = Inr sl'" by (auto simp: rbind_Inr_conv)
  then have "length sl + 1 \<le> length sl1"
    by (auto simp: removedChange_def Let_def rbind_Inr_conv split: ReplicaType.splits)
  with Cons.IH [OF s(2)] show ?case by simp
qed simp

lemma addedLoop_length: "addedLoop reps rs sl = Inr sl' \<Longrightarrow> length sl' = length sl + length rs"
proof (induction rs arbitrary: sl)
  case (Cons r rs)
  then obtain sl1 where s: "addedChange reps r sl = Inr sl1" "addedLoop reps rs sl1 = Inr sl'" by (auto simp: rbind_Inr_conv)
  then have "length sl1 = length sl + 1"
    by (auto simp: addedChange_def Let_def rbind_Inr_conv split: ReplicaType.splits)
  with Cons.IH [OF s(2)] show ?case by simp
qed simp

lemma check_no_panic: "checkExists reps r \<noteq> Inl (Panic m)" "checkNotExists reps r \<noteq> Inl (Panic m)"
  by (induction reps) auto

lemma loops_no_panic: "removedLoop reps rs sl \<noteq> Inl (Panic m)" "addedLoop reps rs sl \<noteq> Inl (Panic m)"
  by (induction rs arbitrary: sl)
    (auto simp: rbind_Inl_conv removedChange_def addedChange_def Let_def check_no_panic split: ReplicaType.splits)

text \<open>\<open>confChangeImpl\<close> never panics, and the shape of the raft change it returns says what it is:
  an explicit joint change exactly when the descriptor is joint, a plain single change when
  one replica is added or removed outside of a joint state, and the empty change to leave.\<close>

lemma conf_change_shape:
  "case confChangeImpl added removed replicas False ctx of
     Inl e \<Rightarrow> \<not> panics (Inl e :: ConfChangeI result)
   | Inr (ConfChangeV1 t i c) \<Rightarrow> \<not> list_ex joint_type replicas \<and> length added + length removed = 1 \<and> c = ctx
   | Inr (ConfChangeV2 tr sl c) \<Rightarrow> c = ctx \<and>
       (if list_ex joint_type replicas
        then tr = ConfChangeTransitionJointExplicit \<and> 0 < length added + length removed \<and> length added + length removed \<le> length sl
        else tr = ConfChangeTransitionAuto \<and> sl = [] \<and> added = [] \<and> removed = [])"
proof -
  have j: "list_ex (\<lambda>rDesc. case RType rDesc of VOTER_INCOMING \<Rightarrow> True | VOTER_OUTGOING \<Rightarrow> True
      | VOTER_DEMOTING_LEARNER \<Rightarrow> True | VOTER_DEMOTING_NON_VOTER \<Rightarrow> True | _ \<Rightarrow> False) replicas \<longleftrightarrow> list_ex joint_type replicas"
    by (intro arg_cong [of _ _ "\<lambda>p. list_ex p replicas"] ext) (auto simp: joint_type_def split: ReplicaType.splits)
  show ?thesis
  proof (cases "rbind (removedLoop replicas removed []) (addedLoop replicas added)")
    case (Inl e)
    then have "\<not> panics (Inl e :: ConfChangeI result)"
      using loops_no_panic by (cases e) (auto simp: rbind_Inl_conv)
    moreover have "confChangeImpl added removed replicas False ctx = Inl e"
      using Inl by (auto simp: confChangeImpl_def rbind_Inl_conv)
    ultimately show ?thesis by simp
  next
    case (Inr sl)
    then obtain sl1 where sl: "removedLoop replicas removed [] = Inr sl1" "addedLoop replicas added sl1 = Inr sl"
      by (auto simp: rbind_Inr_conv)
    have len: "length added + length removed \<le> length sl"
      using removedLoop_length [OF sl(1)] addedLoop_length [OF sl(2)] by simp
    have one: "length added + length removed = Suc 0"
      if "\<not> Suc 0 < length added + length removed" "added \<noteq> [] \<or> removed \<noteq> []"
      using that by (cases added; cases removed) auto
    show ?thesis
      using len unfolding confChangeImpl_def sl rbind_simps j Let_def
      by (cases sl) (auto split: prod.split simp: one)
  qed
qed

end
