(* ===== verification/Gc_Hint.thy ===== *)
theory Gc_Hint
  imports Hlc
begin

text \<open>
  Garbage collection hints of a range (\<open>GCHint\<close> of \<open>engine/pkg/roachpb/metadata.go\<close>).  A hint stands for
  the set of timestamps up to which garbage was scheduled for collection: it keeps the smallest and the
  greatest of them.  Methods with a pointer receiver return whether they changed it, and the new
  receiver.
\<close>

subsection \<open>Operations\<close>

record GCHint =
  LatestRangeDeleteTimestamp :: Timestamp
  GCTimestamp :: Timestamp
  GCTimestampNext :: Timestamp

definition HintIsEmpty :: "GCHint \<Rightarrow> bool" where
  "HintIsEmpty h \<longleftrightarrow> IsEmpty (LatestRangeDeleteTimestamp h) \<and> IsEmpty (GCTimestamp h)"

definition ScheduleGCFor :: "GCHint \<Rightarrow> Timestamp \<Rightarrow> bool \<times> GCHint" where
  "ScheduleGCFor h ts =
    (if IsEmpty ts then (False, h)
     else if IsEmpty (GCTimestamp h) then (True, h\<lparr>GCTimestamp := ts\<rparr>)
     else
       let cmp = Compare (GCTimestamp h) ts in
       if cmp > 0 then
         (let h1 = (if IsEmpty (GCTimestampNext h) then h\<lparr>GCTimestampNext := GCTimestamp h\<rparr> else h)
          in (True, h1\<lparr>GCTimestamp := ts\<rparr>))
       else if cmp = 0 then (False, h)
       else if IsEmpty (GCTimestampNext h) then (True, h\<lparr>GCTimestampNext := ts\<rparr>)
       else if LessEq ts (GCTimestampNext h) then (False, h)
       else (True, h\<lparr>GCTimestampNext := ts\<rparr>))"

definition ForwardLatestRangeDeleteTimestamp :: "GCHint \<Rightarrow> Timestamp \<Rightarrow> bool \<times> GCHint" where
  "ForwardLatestRangeDeleteTimestamp h ts =
    (if Less (LatestRangeDeleteTimestamp h) ts then (True, h\<lparr>LatestRangeDeleteTimestamp := ts\<rparr>) else (False, h))"

definition MergeHint :: "GCHint \<Rightarrow> GCHint \<Rightarrow> bool \<Rightarrow> bool \<Rightarrow> bool \<times> GCHint" where
  "MergeHint h rhs leftEmpty rightEmpty =
    (case ScheduleGCFor h (GCTimestamp rhs) of (updated, h1) \<Rightarrow>
     case ScheduleGCFor h1 (GCTimestampNext rhs) of (u2, h2) \<Rightarrow>
       let updated2 = (u2 \<or> updated) in
       if (IsEmpty (LatestRangeDeleteTimestamp rhs) \<and> \<not> rightEmpty) \<or>
          (IsEmpty (LatestRangeDeleteTimestamp h2) \<and> \<not> leftEmpty)
       then (updated2 \<or> IsSet (LatestRangeDeleteTimestamp h2), h2\<lparr>LatestRangeDeleteTimestamp := emptyTimestamp\<rparr>)
       else case ForwardLatestRangeDeleteTimestamp h2 (LatestRangeDeleteTimestamp rhs) of
         (u3, h3) \<Rightarrow> (u3 \<or> updated2, h3))"

definition advanceGCTimestamp :: "GCHint \<Rightarrow> Timestamp \<Rightarrow> bool \<times> GCHint" where
  "advanceGCTimestamp h gcThreshold =
    (if IsEmpty (GCTimestamp h) \<or> Less gcThreshold (GCTimestamp h) then (False, h)
     else if IsEmpty (GCTimestampNext h) \<or> Less gcThreshold (GCTimestampNext h)
     then (True, h\<lparr>GCTimestamp := GCTimestampNext h, GCTimestampNext := emptyTimestamp\<rparr>)
     else (True, h\<lparr>GCTimestamp := emptyTimestamp, GCTimestampNext := emptyTimestamp\<rparr>))"

definition UpdateAfterGC :: "GCHint \<Rightarrow> Timestamp \<Rightarrow> bool \<times> GCHint" where
  "UpdateAfterGC h gcThreshold =
    (case advanceGCTimestamp h gcThreshold of (updated, h1) \<Rightarrow>
       let t = LatestRangeDeleteTimestamp h1 in
       if IsSet t \<and> LessEq t gcThreshold
       then (True, h1\<lparr>LatestRangeDeleteTimestamp := emptyTimestamp\<rparr>)
       else (updated, h1))"

subsection \<open>The set a hint stands for\<close>

text \<open>Timestamps of data: set, and read off a clock.\<close>

definition data_ts :: "Timestamp \<Rightarrow> bool" where
  "data_ts t \<longleftrightarrow> \<not> IsEmpty t \<and> \<not> Synthetic t"

definition represents :: "GCHint \<Rightarrow> Timestamp set \<Rightarrow> bool" where
  "represents h S \<longleftrightarrow> (\<forall>t \<in> S. data_ts t) \<and>
    (if S = {} then GCTimestamp h = emptyTimestamp \<and> GCTimestampNext h = emptyTimestamp
     else GCTimestamp h \<in> S \<and> (\<forall>t \<in> S. LessEq (GCTimestamp h) t) \<and>
       (if S = {GCTimestamp h} then GCTimestampNext h = emptyTimestamp
        else GCTimestampNext h \<in> S \<and> (\<forall>t \<in> S. LessEq t (GCTimestampNext h))))"

lemma data_antisym: "data_ts a \<Longrightarrow> data_ts b \<Longrightarrow> LessEq a b \<Longrightarrow> LessEq b a \<Longrightarrow> a = b"
  by (cases a; cases b) (auto simp: data_ts_def LessEq_def sint_eq_iff)

lemma data_IsEmpty: "data_ts t \<Longrightarrow> IsEmpty t = False" "IsEmpty emptyTimestamp"
  by (auto simp: data_ts_def IsEmpty_def emptyTimestamp_def)

lemma Compare_pos: "Compare a b > 0 \<longleftrightarrow> Less b a" "data_ts a \<Longrightarrow> data_ts b \<Longrightarrow> Compare a b = 0 \<longleftrightarrow> a = b"
  by (cases a; cases b; auto simp: Compare_def Less_def data_ts_def sint_eq_iff not_less_iff_gr_or_eq)+

lemma represents_delete [simp]: "represents (h\<lparr>LatestRangeDeleteTimestamp := x\<rparr>) S \<longleftrightarrow> represents h S"
  by (simp add: represents_def)

lemma represents_unique:
  assumes "represents h S" "represents h' S"
  shows "GCTimestamp h = GCTimestamp h'" "GCTimestampNext h = GCTimestampNext h'"
proof -
  show gc: "GCTimestamp h = GCTimestamp h'"
    using assms data_antisym unfolding represents_def by (metis (full_types))
  show "GCTimestampNext h = GCTimestampNext h'"
    using assms data_antisym gc unfolding represents_def by (metis (full_types))
qed

lemma represents_data: "represents h S \<Longrightarrow> t \<in> S \<Longrightarrow> data_ts t"
  by (simp add: represents_def)

lemma represents_cases:
  assumes "represents h S"
  obtains (none) "S = {}" "GCTimestamp h = emptyTimestamp" "GCTimestampNext h = emptyTimestamp"
  | (one) m where "S = {m}" "GCTimestamp h = m" "GCTimestampNext h = emptyTimestamp" "data_ts m"
  | (more) m n where "GCTimestamp h = m" "GCTimestampNext h = n" "m \<in> S" "n \<in> S" "Less m n"
      "\<forall>t \<in> S. LessEq m t \<and> LessEq t n" "\<forall>t \<in> S. data_ts t"
proof (cases "S = {}")
  case True
  then show ?thesis using assms none by (simp add: represents_def)
next
  case False
  let ?m = "GCTimestamp h" and ?n = "GCTimestampNext h"
  have m: "?m \<in> S" "\<forall>t \<in> S. LessEq ?m t" "\<forall>t \<in> S. data_ts t" using assms False by (auto simp: represents_def)
  show ?thesis
  proof (cases "S = {?m}")
    case True
    then show ?thesis using assms m one by (metis represents_def insert_not_empty singletonI)
  next
    case no: False
    then have n: "?n \<in> S" "\<forall>t \<in> S. LessEq t ?n" using assms False by (auto simp: represents_def)
    obtain t where "t \<in> S" "t \<noteq> ?m" using no m(1) by blast
    then have "\<not> LessEq ?n ?m" using m n data_antisym ts_trans(1) by (metis (full_types))
    then show ?thesis using more m n by simp
  qed
qed

lemma represents_more:
  assumes "m \<in> S" "n \<in> S" "Less m n" "\<forall>t \<in> S. LessEq m t \<and> LessEq t n" "\<forall>t \<in> S. data_ts t"
    and "GCTimestamp h = m" "GCTimestampNext h = n"
  shows "represents h S"
  using assms by (auto simp: represents_def)

lemma ScheduleGCFor_represents:
  assumes "represents h S" "data_ts ts"
  shows "represents (snd (ScheduleGCFor h ts)) (insert ts S) \<and>
    (fst (ScheduleGCFor h ts) \<longleftrightarrow> snd (ScheduleGCFor h ts) \<noteq> h) \<and>
    LatestRangeDeleteTimestamp (snd (ScheduleGCFor h ts)) = LatestRangeDeleteTimestamp h"
proof -
  note ts = data_IsEmpty(1) [OF assms(2)]
  have upd: "h\<lparr>GCTimestamp := x\<rparr> \<noteq> h \<longleftrightarrow> x \<noteq> GCTimestamp h" "h\<lparr>GCTimestampNext := x\<rparr> \<noteq> h \<longleftrightarrow> x \<noteq> GCTimestampNext h"
    "h\<lparr>GCTimestampNext := y, GCTimestamp := x\<rparr> = h \<longleftrightarrow> y = GCTimestampNext h \<and> x = GCTimestamp h" for x y
    by (cases h; auto; fail)+
  have ne: "ts \<noteq> emptyTimestamp" using ts data_IsEmpty(2) by auto
  from assms(1) show ?thesis
  proof (cases rule: represents_cases)
    case none
    then show ?thesis using ts ne assms(2) by (simp add: ScheduleGCFor_def data_IsEmpty(2) represents_def upd)
  next
    case (one m)
    have m: "IsEmpty m = False" "m \<noteq> emptyTimestamp" using one(4) data_IsEmpty by auto
    consider "Less ts m" | "ts = m" | "Less m ts" "ts \<noteq> m" using ts_total data_antisym [OF one(4) assms(2)] by (metis not_LessEq)
    then show ?thesis
    proof cases
      case 1
      then have "represents (h\<lparr>GCTimestampNext := m, GCTimestamp := ts\<rparr>) (insert ts S)" "ts \<noteq> m"
        using one assms(2) by (auto intro!: represents_more [of ts _ m] simp: Less_imp_LessEq)
      then show ?thesis using 1 one ts m by (simp add: ScheduleGCFor_def Compare_pos data_IsEmpty(2) upd Let_def)
    next
      case 2
      then show ?thesis using one ts m assms by (simp add: ScheduleGCFor_def Compare_pos Let_def)
    next
      case 3
      then have "represents (h\<lparr>GCTimestampNext := ts\<rparr>) (insert ts S)"
        using one assms(2) by (auto intro!: represents_more [of m _ ts] simp: Less_imp_LessEq)
      moreover have "\<not> Compare m ts > 0" "Compare m ts \<noteq> 0"
        using 3 Compare_pos one(4) assms(2) Less_imp_LessEq by (auto simp: Compare_pos)
      ultimately show ?thesis using 3 one ts m ne by (simp add: ScheduleGCFor_def data_IsEmpty(2) upd Let_def)
    qed
  next
    case (more m n)
    have m: "IsEmpty m = False" "IsEmpty n = False" "data_ts m" "data_ts n" using more data_IsEmpty by auto
    consider "Less ts m" | "ts = m" | "Less m ts" "LessEq ts n" | "Less m ts" "Less n ts"
      using ts_total data_antisym [OF m(3) assms(2)] by (metis not_LessEq)
    then show ?thesis
    proof cases
      case 1
      then have "represents (h\<lparr>GCTimestamp := ts\<rparr>) (insert ts S)" "ts \<noteq> m"
        using more assms(2) by (auto intro!: represents_more [of ts _ n] dest: ts_trans Less_imp_LessEq)
      then show ?thesis using 1 more ts m by (simp add: ScheduleGCFor_def Compare_pos upd Let_def)
    next
      case 2
      then show ?thesis using more ts m assms by (simp add: ScheduleGCFor_def Compare_pos Let_def insert_absorb)
    next
      case 3
      then have "represents h (insert ts S)"
        using more assms(2) by (auto intro!: represents_more [of m _ n] dest: Less_imp_LessEq)
      moreover have "\<not> Compare m ts > 0" "Compare m ts \<noteq> 0"
        using 3 Compare_pos m(3) assms(2) Less_imp_LessEq by (auto simp: Compare_pos)
      ultimately show ?thesis using 3 more ts m by (simp add: ScheduleGCFor_def Let_def)
    next
      case 4
      then have "\<forall>t \<in> S. LessEq t ts" using more(6) ts_trans(3) Less_imp_LessEq by blast
      with 4 have "represents (h\<lparr>GCTimestampNext := ts\<rparr>) (insert ts S)" "ts \<noteq> n"
        using more assms(2) by (auto intro!: represents_more [of m _ ts] dest: ts_trans Less_imp_LessEq)
      moreover have "\<not> Compare m ts > 0" "Compare m ts \<noteq> 0" "\<not> LessEq ts n"
        using 4 Compare_pos m(3) assms(2) Less_imp_LessEq by (auto simp: Compare_pos)
      ultimately show ?thesis using 4 more ts m by (simp add: ScheduleGCFor_def upd Let_def del: not_LessEq)
    qed
  qed
qed

text \<open>Scheduling the bounds of a set schedules the set.\<close>

lemma represents_bounds:
  assumes "represents h (insert a (insert b S))" "represents g T" "GCTimestamp g = a" "GCTimestampNext g = b" "data_ts b"
  shows "represents h (S \<union> T)"
proof -
  from assms(2) show ?thesis
  proof (cases rule: represents_cases)
    case none
    then show ?thesis using assms(4,5) data_IsEmpty by auto
  next
    case (one m)
    then show ?thesis using assms(4,5) data_IsEmpty by auto
  next
    case (more m n)
    then have ab: "a \<in> T" "b \<in> T" "a \<noteq> b" "\<forall>t \<in> T. LessEq a t \<and> LessEq t b" using assms(3,4) by auto
    from assms(1) show ?thesis
    proof (cases rule: represents_cases)
      case more2: (more m' n')
      then have "\<forall>t \<in> T. LessEq m' t \<and> LessEq t n'" using ab ts_trans(1) by (meson insertCI)
      moreover have "m' \<in> S \<union> T" "n' \<in> S \<union> T" "\<forall>t \<in> S \<union> T. data_ts t"
        using more2 ab more(7) by auto
      ultimately show ?thesis using more2 by (intro represents_more [of m' _ n']) auto
    qed (use ab(3) in auto)
  qed
qed

lemma ScheduleGCFor_empty: "IsEmpty ts \<Longrightarrow> ScheduleGCFor h ts = (False, h)"
  by (simp add: ScheduleGCFor_def)

lemma represents_between:
  assumes "represents h S" "represents h U" "S \<subseteq> T" "T \<subseteq> U"
  shows "represents h T"
  using assms(1)
proof (cases rule: represents_cases)
  case none
  then have "U = {}" using assms(2) data_IsEmpty unfolding represents_def by (metis (full_types))
  then show ?thesis using assms(1,4) none(1) by simp
next
  case (one m)
  have "GCTimestampNext h \<notin> U" using assms(2) one(3) data_IsEmpty by (auto simp: represents_def)
  then have "U = {m}" using assms(2) one assms(3,4) unfolding represents_def by (metis empty_iff insert_subset subset_empty)
  then have "T = {m}" using assms(3,4) one(1) by auto
  then show ?thesis using assms(1) one(1) by simp
next
  case (more m n)
  have "m \<in> U" "n \<in> U" "m \<noteq> n" using more assms(3,4) by auto
  then have "U \<noteq> {}" "U \<noteq> {m}" by auto
  then have "\<forall>t \<in> U. data_ts t" "\<forall>t \<in> U. LessEq m t" "\<forall>t \<in> U. LessEq t n"
    using assms(2) more(1,2) unfolding represents_def by simp_all
  then show ?thesis using more assms(3,4) by (intro represents_more [of m _ n]) auto
qed

lemma schedule_both:
  assumes "represents h S" "represents g T"
    and "h1 = snd (ScheduleGCFor h (GCTimestamp g))" "h2 = snd (ScheduleGCFor h1 (GCTimestampNext g))"
  shows "represents h2 (S \<union> T) \<and> LatestRangeDeleteTimestamp h2 = LatestRangeDeleteTimestamp h \<and>
    (fst (ScheduleGCFor h1 (GCTimestampNext g)) \<or> fst (ScheduleGCFor h (GCTimestamp g)) \<longleftrightarrow> h2 \<noteq> h)"
  using assms(2)
proof (cases rule: represents_cases)
  case none
  then show ?thesis using assms by (simp add: ScheduleGCFor_empty data_IsEmpty(2))
next
  case (one m)
  then have "ScheduleGCFor h1 (GCTimestampNext g) = (False, h1)" by (simp add: ScheduleGCFor_empty data_IsEmpty(2))
  then show ?thesis using ScheduleGCFor_represents [OF assms(1) one(4)] unfolding assms(3,4) one(1,2) by simp
next
  case (more m n)
  then have "data_ts m" "data_ts n" by auto
  then have h1: "represents h1 (insert m S)" "fst (ScheduleGCFor h m) \<longleftrightarrow> h1 \<noteq> h"
      "LatestRangeDeleteTimestamp h1 = LatestRangeDeleteTimestamp h"
    using ScheduleGCFor_represents [OF assms(1) \<open>data_ts m\<close>] unfolding assms(3) more(1) by blast+
  have h2: "represents h2 (insert n (insert m S))" "fst (ScheduleGCFor h1 n) \<longleftrightarrow> h2 \<noteq> h1"
      "LatestRangeDeleteTimestamp h2 = LatestRangeDeleteTimestamp h1"
    using ScheduleGCFor_represents [OF h1(1) \<open>data_ts n\<close>] unfolding assms(4) more(2) by blast+
  have "represents h2 (S \<union> T)"
    using represents_bounds [OF _ assms(2) more(1,2) \<open>data_ts n\<close>, of h2 S] h2(1) by (simp add: insert_commute)
  moreover have "h1 = h" if "h2 = h"
  proof -
    have "represents h (insert m S)" using represents_between [OF assms(1), of "insert n (insert m S)" "insert m S"] h2(1) that by blast
    then have "GCTimestamp h1 = GCTimestamp h" "GCTimestampNext h1 = GCTimestampNext h"
      using represents_unique [OF h1(1)] by auto
    then show ?thesis using h1(3) by (cases h; cases h1) simp
  qed
  moreover have "fst (ScheduleGCFor h1 (GCTimestampNext g)) \<longleftrightarrow> h2 \<noteq> h1" "fst (ScheduleGCFor h (GCTimestamp g)) \<longleftrightarrow> h1 \<noteq> h"
    using h1(2) h2(2) more(1,2) by simp_all
  moreover have "LatestRangeDeleteTimestamp h2 = LatestRangeDeleteTimestamp h" using h1(3) h2(3) by simp
  ultimately show ?thesis by blast
qed

subsection \<open>Merging and collecting\<close>

definition hint_ts :: "Timestamp \<Rightarrow> bool" where
  "hint_ts t \<longleftrightarrow> t = emptyTimestamp \<or> data_ts t"

lemma hint_ts_empty: "hint_ts t \<Longrightarrow> IsEmpty t \<longleftrightarrow> t = emptyTimestamp"
  using data_IsEmpty by (auto simp: hint_ts_def)

lemma hint_ts_antisym: "hint_ts a \<Longrightarrow> hint_ts b \<Longrightarrow> LessEq a b \<Longrightarrow> LessEq b a \<Longrightarrow> a = b"
proof -
  assume a: "hint_ts a" "hint_ts b" "LessEq a b" "LessEq b a"
  have "\<not> Synthetic a" "\<not> Synthetic b" using a(1,2) by (auto simp: hint_ts_def data_ts_def emptyTimestamp_def)
  moreover have "WallTime a = WallTime b" "Logical a = Logical b" using a(3,4) by (auto simp: LessEq_def sint_eq_iff)
  ultimately show "a = b" by simp
qed

text \<open>The range tombstone part of a merged hint.\<close>

definition merged_delete :: "GCHint \<Rightarrow> GCHint \<Rightarrow> bool \<Rightarrow> bool \<Rightarrow> Timestamp" where
  "merged_delete h g leftEmpty rightEmpty =
    (let a = LatestRangeDeleteTimestamp h; b = LatestRangeDeleteTimestamp g in
     if (IsEmpty b \<and> \<not> rightEmpty) \<or> (IsEmpty a \<and> \<not> leftEmpty) then emptyTimestamp else if Less a b then b else a)"

lemma MergeHint_eq:
  assumes "represents h S" "represents g T" "hint_ts (LatestRangeDeleteTimestamp h)" "hint_ts (LatestRangeDeleteTimestamp g)"
  shows "represents (snd (MergeHint h g le re)) (S \<union> T)"
    "LatestRangeDeleteTimestamp (snd (MergeHint h g le re)) = merged_delete h g le re"
    "fst (MergeHint h g le re) \<longleftrightarrow> snd (MergeHint h g le re) \<noteq> h"
proof -
  define h1 where "h1 = snd (ScheduleGCFor h (GCTimestamp g))"
  define h2 where "h2 = snd (ScheduleGCFor h1 (GCTimestampNext g))"
  define u1 where "u1 = fst (ScheduleGCFor h (GCTimestamp g))"
  define u2 where "u2 = fst (ScheduleGCFor h1 (GCTimestampNext g))"
  define u where "u \<longleftrightarrow> u2 \<or> u1"
  have both: "represents h2 (S \<union> T)" "LatestRangeDeleteTimestamp h2 = LatestRangeDeleteTimestamp h" "u \<longleftrightarrow> h2 \<noteq> h"
    using schedule_both [OF assms(1,2) h1_def h2_def] by (simp_all only: u_def u1_def u2_def simp_thms)
  let ?d = "merged_delete h g le re" and ?L = LatestRangeDeleteTimestamp
  have pairs: "ScheduleGCFor h (GCTimestamp g) = (u1, h1)" "ScheduleGCFor h1 (GCTimestampNext g) = (u2, h2)"
    by (simp_all add: h1_def h2_def u1_def u2_def)
  have self: "h2\<lparr>LatestRangeDeleteTimestamp := ?L h\<rparr> = h2" using both(2) by (cases h2) simp
  have m: "MergeHint h g le re = (u \<or> ?d \<noteq> ?L h, h2\<lparr>LatestRangeDeleteTimestamp := ?d\<rparr>)"
  proof (cases "(IsEmpty (?L g) \<and> \<not> re) \<or> (IsEmpty (?L h) \<and> \<not> le)")
    case True
    have d: "?d = emptyTimestamp" unfolding merged_delete_def Let_def if_P [OF True] by (rule refl)
    have "IsSet (?L h) \<longleftrightarrow> emptyTimestamp \<noteq> ?L h" using hint_ts_empty [OF assms(3)] by (auto simp: IsSet_def)
    then show ?thesis unfolding MergeHint_def pairs(1) prod.case pairs(2) Let_def both(2) if_P [OF True] d u_def by simp
  next
    case False
    have d: "?d = (if Less (?L h) (?L g) then ?L g else ?L h)"
      unfolding merged_delete_def Let_def if_not_P [OF False] by (rule refl)
    note unf = MergeHint_def pairs(1) prod.case pairs(2) Let_def both(2) if_not_P [OF False] d u_def
      ForwardLatestRangeDeleteTimestamp_def
    show ?thesis
    proof (cases "Less (?L h) (?L g)")
      case less: True
      then have "?L g \<noteq> ?L h" by auto
      then show ?thesis unfolding unf if_P [OF less] prod.case by (simp only: simp_thms)
    next
      case nless: False
      show ?thesis unfolding unf if_not_P [OF nless] prod.case self by (simp only: simp_thms)
    qed
  qed
  show "LatestRangeDeleteTimestamp (snd (MergeHint h g le re)) = ?d" using m by simp
  show "represents (snd (MergeHint h g le re)) (S \<union> T)" using both(1) unfolding m by simp
  have "h2\<lparr>LatestRangeDeleteTimestamp := ?d\<rparr> = h \<longleftrightarrow> h2 = h \<and> ?d = LatestRangeDeleteTimestamp h"
    using both(2) by (cases h; cases h2) (auto simp only: GCHint.simps GCHint.update_convs)
  then show "fst (MergeHint h g le re) \<longleftrightarrow> snd (MergeHint h g le re) \<noteq> h" using m both(3) by simp
qed

lemma merged_delete_comm:
  assumes "hint_ts (LatestRangeDeleteTimestamp h)" "hint_ts (LatestRangeDeleteTimestamp g)"
  shows "merged_delete h g le re = merged_delete g h re le"
proof -
  let ?a = "LatestRangeDeleteTimestamp h" and ?b = "LatestRangeDeleteTimestamp g"
  have "(if Less ?a ?b then ?b else ?a) = (if Less ?b ?a then ?a else ?b)"
    using hint_ts_antisym [OF assms] Less_imp_LessEq by (cases "Less ?a ?b"; cases "Less ?b ?a") (auto simp: not_Less)
  then show ?thesis unfolding merged_delete_def Let_def by (auto simp del: not_Less)
qed

lemma MergeHint_comm:
  assumes "represents h S" "represents g T" "hint_ts (LatestRangeDeleteTimestamp h)" "hint_ts (LatestRangeDeleteTimestamp g)"
  shows "snd (MergeHint h g le re) = snd (MergeHint g h re le)"
proof -
  note a = MergeHint_eq [OF assms, of le re] and b = MergeHint_eq [OF assms(2,1,4,3), of re le]
  have "represents (snd (MergeHint g h re le)) (S \<union> T)" using b(1) by (simp add: Un_commute)
  note u = represents_unique [OF a(1) this]
  show ?thesis using u a(2) b(2) merged_delete_comm [OF assms(3,4)]
    by (cases "snd (MergeHint h g le re)"; cases "snd (MergeHint g h re le)") simp
qed

text \<open>What collecting up to \<open>th\<close> leaves of a set: nothing at or below \<open>th\<close>, and something at or above
  everything else.\<close>

definition leaves :: "Timestamp \<Rightarrow> Timestamp set \<Rightarrow> Timestamp set \<Rightarrow> bool" where
  "leaves th S S' \<longleftrightarrow> S' \<subseteq> {t \<in> S. Less th t} \<and> (\<forall>t \<in> S. Less th t \<longrightarrow> (\<exists>t' \<in> S'. LessEq t t'))"

lemma leaves_simps:
  "\<forall>t \<in> S. Less th t \<Longrightarrow> leaves th S S" "\<forall>t \<in> S. LessEq t th \<Longrightarrow> leaves th S {}"
  "n \<in> S \<Longrightarrow> Less th n \<Longrightarrow> \<forall>t \<in> S. LessEq t n \<Longrightarrow> leaves th S {n}"
  unfolding leaves_def using LessEq_refl by (blast, metis empty_iff empty_subsetI not_Less, blast)

lemma advanceGCTimestamp_eq:
  assumes "represents h S"
  shows "\<exists>S'. represents (snd (advanceGCTimestamp h th)) S' \<and> leaves th S S'"
  using assms
proof (cases rule: represents_cases)
  case none
  then have "snd (advanceGCTimestamp h th) = h" by (simp add: advanceGCTimestamp_def data_IsEmpty(2))
  then show ?thesis using assms none(1) leaves_simps(2) by (metis empty_iff)
next
  case (one m)
  have e: "IsEmpty m = False" using one data_IsEmpty by auto
  show ?thesis
  proof (cases "Less th m")
    case True
    then have "snd (advanceGCTimestamp h th) = h" using one by (simp add: advanceGCTimestamp_def)
    then show ?thesis using assms one(1) True leaves_simps(1) [of S th] by auto
  next
    case False
    then have "represents (snd (advanceGCTimestamp h th)) {}"
      using one e by (simp add: advanceGCTimestamp_def data_IsEmpty(2) represents_def del: not_Less)
    then show ?thesis using one(1) False leaves_simps(2) [of S th] by auto
  qed
next
  case (more m n)
  have e: "IsEmpty m = False" "IsEmpty n = False" using more data_IsEmpty by auto
  consider "Less th m" | "\<not> Less th m" "Less th n" | "\<not> Less th m" "\<not> Less th n" by blast
  then show ?thesis
  proof cases
    case 1
    then have "\<forall>t \<in> S. Less th t" using more(6) ts_trans(2) by blast
    moreover have "snd (advanceGCTimestamp h th) = h" using 1 more(1) by (simp add: advanceGCTimestamp_def)
    ultimately show ?thesis using assms leaves_simps(1) by metis
  next
    case 2
    then have "represents (snd (advanceGCTimestamp h th)) {n}"
      using more e by (simp add: advanceGCTimestamp_def represents_def del: not_Less)
    then show ?thesis using 2 more(4,6) leaves_simps(3) by blast
  next
    case 3
    then have "\<forall>t \<in> S. LessEq t th" using more(6) ts_trans(1) unfolding not_Less by blast
    moreover have "represents (snd (advanceGCTimestamp h th)) {}"
      using 3 more e by (simp add: advanceGCTimestamp_def represents_def del: not_Less)
    ultimately show ?thesis using leaves_simps(2) by blast
  qed
qed

lemma UpdateAfterGC_eq:
  assumes "represents h S"
  shows "\<exists>S'. represents (snd (UpdateAfterGC h th)) S' \<and> leaves th S S'"
proof -
  have "represents (snd (UpdateAfterGC h th)) S' \<longleftrightarrow> represents (snd (advanceGCTimestamp h th)) S'" for S'
    by (simp add: UpdateAfterGC_def Let_def split: prod.split)
  then show ?thesis using advanceGCTimestamp_eq [OF assms] by simp
qed

text \<open>C37: a hint stands for a set of scheduled timestamps by its least and greatest element.  Scheduling
  a timestamp adds it to the set, merging the hints of two ranges gives the hint of the union and does
  not depend on the order of the ranges, and after a collection nothing at or below its threshold
  stays scheduled while everything above it is still covered by a scheduled timestamp; the flags
  returned say whether the hint changed.\<close>

theorem gc_hint_set:
  assumes "represents h S" "represents g T" "data_ts ts"
    and "hint_ts (LatestRangeDeleteTimestamp h)" "hint_ts (LatestRangeDeleteTimestamp g)"
  shows "represents (snd (ScheduleGCFor h ts)) (insert ts S) \<and>
    (fst (ScheduleGCFor h ts) \<longleftrightarrow> snd (ScheduleGCFor h ts) \<noteq> h) \<and>
    represents (snd (MergeHint h g le re)) (S \<union> T) \<and>
    snd (MergeHint h g le re) = snd (MergeHint g h re le) \<and>
    (fst (MergeHint h g le re) \<longleftrightarrow> snd (MergeHint h g le re) \<noteq> h) \<and>
    (\<exists>S'. represents (snd (UpdateAfterGC h th)) S' \<and> leaves th S S')"
  using ScheduleGCFor_represents [OF assms(1,3)] MergeHint_eq [OF assms(1,2,4,5)] MergeHint_comm [OF assms(1,2,4,5)]
    UpdateAfterGC_eq [OF assms(1)] by blast

theorem gc_hint_set_witness:
  "snd (MergeHint \<lparr>LatestRangeDeleteTimestamp = emptyTimestamp, GCTimestamp = MinTimestamp, GCTimestampNext = emptyTimestamp\<rparr>
      \<lparr>LatestRangeDeleteTimestamp = MaxTimestamp, GCTimestamp = MaxTimestamp, GCTimestampNext = emptyTimestamp\<rparr> True False) =
   snd (MergeHint \<lparr>LatestRangeDeleteTimestamp = MaxTimestamp, GCTimestamp = MaxTimestamp, GCTimestampNext = emptyTimestamp\<rparr>
      \<lparr>LatestRangeDeleteTimestamp = emptyTimestamp, GCTimestamp = MinTimestamp, GCTimestampNext = emptyTimestamp\<rparr> False True)"
proof -
  let ?h = "\<lparr>LatestRangeDeleteTimestamp = emptyTimestamp, GCTimestamp = MinTimestamp, GCTimestampNext = emptyTimestamp\<rparr>"
  let ?g = "\<lparr>LatestRangeDeleteTimestamp = MaxTimestamp, GCTimestamp = MaxTimestamp, GCTimestampNext = emptyTimestamp\<rparr>"
  have d: "data_ts MinTimestamp" "data_ts MaxTimestamp"
    by (simp_all add: data_ts_def IsEmpty_def MinTimestamp_def MaxTimestamp_def)
  then have "represents ?h {MinTimestamp}" "represents ?g {MaxTimestamp}" by (simp_all add: represents_def)
  from gc_hint_set [OF this d(1), of True False emptyTimestamp] show ?thesis using d by (simp add: hint_ts_def)
qed

end
