(* ===== verification/Mvcc_Results.thy ===== *)
theory Mvcc_Results
  imports Engine_Key Keys_Sql
begin

text \<open>
  The result set of a scan (\<open>pebbleResults\<close> in \<open>engine/pkg/storage/pebble_mvcc_scanner.go\<close>): key-value
  pairs in their wire format, packed into buffers of growing capacity, with a ring of the offsets of
  the last pairs so that an incomplete SQL row can be cut off the end.

  A buffer is its contents and its capacity; those of the last one are fields.  \<open>grow\<close> is the
  reservation of memory, which may be denied.  A put returns its error with the state it leaves.
\<close>

subsection \<open>Result sets\<close>

record pebbleResults =
  count :: int
  nbytes :: int
  repr :: bytes
  reprCap :: nat
  bufs :: "(bytes \<times> nat) list"
  lastOffsetsEnabled :: bool
  lastOffsets :: "nat list"
  lastOffsetIdx :: nat

definition noResults :: pebbleResults where
  "noResults = \<lparr>count = 0, nbytes = 0, repr = [], reprCap = 0, bufs = [], lastOffsetsEnabled = False,
     lastOffsets = [], lastOffsetIdx = 0\<rparr>"

definition clear :: "pebbleResults \<Rightarrow> pebbleResults" where
  "clear p = noResults"

abbreviation (input) pebbleResultsKVLenSize :: nat where "pebbleResultsKVLenSize \<equiv> 8"

definition pebbleResultsKVSizeOf :: "nat \<Rightarrow> nat \<Rightarrow> nat" where
  "pebbleResultsKVSizeOf lenKey lenValue = pebbleResultsKVLenSize + lenKey + lenValue"

definition sizeInfo :: "pebbleResults \<Rightarrow> nat \<Rightarrow> nat \<Rightarrow> int \<times> int \<times> int" where
  "sizeInfo p lenKey lenValue = (count p, nbytes p, int (pebbleResultsKVSizeOf lenKey lenValue))"

abbreviation (input) minSize :: nat where "minSize \<equiv> 16"
abbreviation (input) maxSize :: nat where "maxSize \<equiv> 128 * 2 ^ 20"

function growTo :: "nat \<Rightarrow> nat \<Rightarrow> nat" where
  "growTo newSize lenToAdd = (if 0 < newSize \<and> newSize < lenToAdd then growTo (newSize * 2) lenToAdd else newSize)"
  by pat_completeness auto

termination
  by (relation "measure (\<lambda>(newSize, lenToAdd). lenToAdd - newSize)") auto

declare growTo.simps [simp del]

definition newBufSize :: "nat \<Rightarrow> nat \<Rightarrow> int \<Rightarrow> nat" where
  "newBufSize oldCap lenToAdd maxNewSize =
    (let n0 = 2 * oldCap;
         n1 = (if n0 = 0 \<or> n0 > maxSize then minSize else n0);
         n2 = growTo n1 lenToAdd;
         n3 = (if n2 > maxSize then maxSize else n2);
         n4 = (if maxNewSize > 0 \<and> int n3 > maxNewSize then nat maxNewSize else n3)
     in if n4 < lenToAdd then lenToAdd else n4)"

definition le32 :: "uint32 \<Rightarrow> bytes" where
  "le32 w = rev (be_bytes 4 w)"

definition kvBytes :: "bytes \<Rightarrow> bytes \<Rightarrow> bytes" where
  "kvBytes key value = le32 (of_nat (length value)) @ le32 (of_nat (length key)) @ key @ value"

text \<open>The first half of \<open>put\<close>: a new buffer when the pair does not fit.\<close>

definition makeRoom :: "(int \<Rightarrow> unit result) \<Rightarrow> pebbleResults \<Rightarrow> nat \<Rightarrow> int \<Rightarrow> unit result \<times> pebbleResults" where
  "makeRoom grow p lenToAdd maxNewSize =
    (if length (repr p) + lenToAdd > reprCap p then
       if maxNewSize > 0 \<and> maxNewSize < int lenToAdd
       then (Inl (Errorf ''maxNewSize %dB is not sufficient, %dB required''), p)
       else
         let newSize = newBufSize (reprCap p) lenToAdd maxNewSize;
             p0 = (if length (repr p) > 0 then p\<lparr>bufs := bufs p @ [(repr p, reprCap p)]\<rparr> else p)
         in case grow (int newSize) of
              Inl e \<Rightarrow> (Inl e, p0)
            | Inr _ \<Rightarrow> (Inr (), p0\<lparr>repr := [], reprCap := newSize\<rparr>)
     else (Inr (), p))"

definition put ::
    "(int \<Rightarrow> unit result) \<Rightarrow> pebbleResults \<Rightarrow> bytes \<Rightarrow> bytes \<Rightarrow> int \<Rightarrow> unit result \<times> pebbleResults" where
  "put grow p key value maxNewSize =
    (let lenToAdd = pebbleResultsKVSizeOf (length key) (length value) in
     case makeRoom grow p lenToAdd maxNewSize of
       (Inl e, p1) \<Rightarrow> (Inl e, p1)
     | (Inr _, p1) \<Rightarrow>
         let startIdx = length (repr p1);
             p2 = p1\<lparr>repr := repr p1 @ kvBytes key value, count := count p1 + 1, nbytes := nbytes p1 + int lenToAdd\<rparr>
         in if lastOffsetsEnabled p2 then
              if lastOffsetIdx p2 \<ge> length (lastOffsets p2) then (Inl (Panic ''index out of range''), p2)
              else
                let p3 = p2\<lparr>lastOffsets := (lastOffsets p2)[lastOffsetIdx p2 := startIdx], lastOffsetIdx := lastOffsetIdx p2 + 1\<rparr>
                in (Inr (), if lastOffsetIdx p3 = length (lastOffsets p3) then p3\<lparr>lastOffsetIdx := 0\<rparr> else p3)
            else (Inr (), p2))"

definition getRowPrefix :: "bytes \<Rightarrow> bytes option" where
  "getRowPrefix key =
    (if length key = 0 then None
     else case GetRowPrefixLength key of
       Inl _ \<Rightarrow> None
     | Inr n \<Rightarrow> if n \<le> 0 \<or> n \<ge> int (length key) then None else Some (take (nat n) key))"

definition extractResultKey :: "bytes \<Rightarrow> bytes result" where
  "extractResultKey r =
    (if length r < 8 then Inl (Panic ''slice bounds out of range'')
     else
       let keyLen = unat (be_word (rev (take 4 (drop 4 r))) :: uint32) in
       if 8 + keyLen > length r then Inl (Panic ''slice bounds out of range'')
       else Inr (case DecodeEngineKey (take keyLen (drop 8 r)) of None \<Rightarrow> [] | Some k \<Rightarrow> EKey k))"

definition continuesFirstRow :: "pebbleResults \<Rightarrow> bytes \<Rightarrow> bool result" where
  "continuesFirstRow p key =
    (let r = (case bufs p of [] \<Rightarrow> repr p | b # _ \<Rightarrow> fst b) in
     if length r = 0 then Inr True
     else case getRowPrefix key of
       None \<Rightarrow> Inr False
     | Some rowPrefix \<Rightarrow> rbind (extractResultKey r) (\<lambda>k. Inr (getRowPrefix k = Some rowPrefix)))"

definition keyHasFinalColumnFamily :: "bytes \<Rightarrow> uint32 \<Rightarrow> bool \<Rightarrow> bool" where
  "keyHasFinalColumnFamily key maxFamilyID reverse =
    (case DecodeFamilyKey key of
       Inl _ \<Rightarrow> False
     | Inr colFamilyID \<Rightarrow> if reverse then colFamilyID = 0 else colFamilyID = maxFamilyID)"

text \<open>The slot of the ring before the one where the next offset goes; \<open>-1\<close> for an empty ring.\<close>

definition prevIdx :: "pebbleResults \<Rightarrow> int" where
  "prevIdx p = (if int (lastOffsetIdx p) - 1 < 0 then int (length (lastOffsets p)) - 1 else int (lastOffsetIdx p) - 1)"

definition lastKVAt :: "pebbleResults \<Rightarrow> (nat \<times> bytes) result" where
  "lastKVAt p =
    (let i = prevIdx p in
     if i < 0 \<or> i \<ge> int (length (lastOffsets p)) then Inl (Panic ''index out of range'')
     else
       let lastOffset = lastOffsets p ! nat i in
       if lastOffset > length (repr p) then Inl (Panic ''slice bounds out of range'')
       else rbind (extractResultKey (drop lastOffset (repr p))) (\<lambda>key. Inr (lastOffset, key)))"

definition lastRowHasFinalColumnFamily :: "pebbleResults \<Rightarrow> bool \<Rightarrow> bool result" where
  "lastRowHasFinalColumnFamily p reverse =
     rbind (lastKVAt p) (\<lambda>(_, key).
       Inr (keyHasFinalColumnFamily key (of_int (int (length (lastOffsets p)) - 1)) reverse))"

text \<open>The trimming loop: \<open>n\<close> rounds are left, and \<open>firstTrimmedKey\<close> is the last key removed, if any.\<close>

primrec trimLoop :: "nat \<Rightarrow> bytes \<Rightarrow> bytes option \<Rightarrow> pebbleResults \<Rightarrow> bytes option result \<times> pebbleResults" where
  "trimLoop 0 trimRowPrefix firstTrimmedKey p = (Inl (Errorf ''row exceeds expected max size (%d): %s''), p)"
| "trimLoop (Suc n) trimRowPrefix firstTrimmedKey p =
    (case lastKVAt p of
       Inl e \<Rightarrow> (Inl e, p)
     | Inr (lastOffset, key) \<Rightarrow>
         if (case getRowPrefix key of None \<Rightarrow> [] | Some r \<Rightarrow> r) \<noteq> trimRowPrefix then (Inr firstTrimmedKey, p)
         else
           let p1 = p\<lparr>repr := take lastOffset (repr p), count := count p - 1,
                      nbytes := nbytes p - int (length (repr p) - lastOffset),
                      lastOffsetIdx := nat (prevIdx p), lastOffsets := (lastOffsets p)[nat (prevIdx p) := 0]\<rparr>
           in if length (repr p1) = 0 then
                if bufs p1 = [] then (Inr (Some key), p1)
                else trimLoop n trimRowPrefix (Some key)
                       (p1\<lparr>repr := fst (last (bufs p1)), reprCap := snd (last (bufs p1)), bufs := butlast (bufs p1)\<rparr>)
              else trimLoop n trimRowPrefix (Some key) p1)"

definition maybeTrimPartialLastRow :: "pebbleResults \<Rightarrow> bytes \<Rightarrow> bytes option result \<times> pebbleResults" where
  "maybeTrimPartialLastRow p nextKey =
    (if \<not> lastOffsetsEnabled p \<or> length (repr p) = 0 then (Inr None, p)
     else case getRowPrefix nextKey of
       None \<Rightarrow> (Inr None, p)
     | Some trimRowPrefix \<Rightarrow> trimLoop (length (lastOffsets p)) trimRowPrefix None p)"

definition finish :: "pebbleResults \<Rightarrow> bytes list \<times> pebbleResults" where
  "finish p =
    (let p1 = (if length (repr p) > 0 then p\<lparr>bufs := bufs p @ [(repr p, reprCap p)], repr := [], reprCap := 0\<rparr> else p)
     in (map fst (bufs p1), p1))"

subsection \<open>What a result set stands for\<close>

text \<open>The pairs are packed in groups, one per buffer.  \<open>offsets\<close> are the start positions of the pairs in
  their buffers.\<close>

definition pack :: "(bytes \<times> bytes) list \<Rightarrow> bytes" where
  "pack g = concat (map (\<lambda>(k, v). kvBytes k v) g)"

definition offsets :: "(bytes \<times> bytes) list \<Rightarrow> nat list" where
  "offsets g = map (\<lambda>i. length (pack (take i g))) [0..<length g]"

definition kvsize :: "(bytes \<times> bytes) list \<Rightarrow> nat" where
  "kvsize g = (\<Sum>(k, v) \<leftarrow> g. 8 + length k + length v)"

definition packed :: "pebbleResults \<Rightarrow> (bytes \<times> bytes) list list \<Rightarrow> (bytes \<times> bytes) list \<Rightarrow> bool" where
  "packed p gs g \<longleftrightarrow> map fst (bufs p) = map pack gs \<and> repr p = pack g \<and> [] \<notin> set gs \<and>
     length (repr p) \<le> reprCap p \<and> list_all (\<lambda>(b, c). length b \<le> c) (bufs p) \<and>
     count p = int (length (concat gs @ g)) \<and> nbytes p = int (kvsize (concat gs @ g))"

text \<open>The ring holds the offsets of the last \<open>r\<close> pairs.\<close>

definition ring :: "nat list \<Rightarrow> nat \<Rightarrow> nat list \<Rightarrow> nat \<Rightarrow> bool" where
  "ring los idx offs r \<longleftrightarrow> r \<le> length los \<and> r \<le> length offs \<and> idx < length los \<and>
     (\<forall>j < r. los ! ((idx + length los - Suc j) mod length los) = offs ! (length offs - Suc j))"

lemma pack_simps [simp]: "pack [] = []" "pack (kv # g) = kvBytes (fst kv) (snd kv) @ pack g" "pack (g @ h) = pack g @ pack h"
  by (simp_all add: pack_def split: prod.split)

lemma length_le32 [simp]: "length (le32 w) = 4"
  by (simp add: le32_def)

lemma length_kvBytes [simp]: "length (kvBytes k v) = 8 + length k + length v"
  by (simp add: kvBytes_def)

lemma length_pack: "length (pack g) = kvsize g"
  by (induction g) (auto simp: kvsize_def)

lemma kvsize_simps [simp]: "kvsize [] = 0" "kvsize (kv # g) = 8 + length (fst kv) + length (snd kv) + kvsize g"
    "kvsize (g @ h) = kvsize g + kvsize h"
  by (auto simp: kvsize_def split: prod.split)

lemma offsets_snoc: "offsets (g @ [kv]) = offsets g @ [length (pack g)]"
  by (simp add: offsets_def)

lemma length_offsets [simp]: "length (offsets g) = length g"
  by (simp add: offsets_def)

lemma extractResultKey_eq:
  assumes "length k < 2 ^ 32"
  shows "extractResultKey (kvBytes k v @ rest) = Inr (case DecodeEngineKey k of None \<Rightarrow> [] | Some e \<Rightarrow> EKey e)"
proof -
  have "unat (of_nat (length k) :: uint32) = length k" using assms by (simp add: unat_of_nat)
  moreover have "(be_word (rev (le32 w)) :: uint32) = w" for w
    using unsigned_less [of w, where ?'a = nat] by (simp add: le32_def be_word_be_bytes)
  ultimately show ?thesis by (simp add: extractResultKey_def Let_def kvBytes_def)
qed

subsection \<open>Adding a pair\<close>

lemma growTo_pos: "0 < n \<Longrightarrow> 0 < growTo n l"
  by (induction n l rule: growTo.induct) (subst growTo.simps, auto)

lemma newBufSize_ge: "lenToAdd \<le> newBufSize oldCap lenToAdd maxNewSize"
  by (simp add: newBufSize_def Let_def)

lemma ring_mod:
  assumes "idx < (n :: nat)" "j \<le> n"
  shows "(idx + n - j) mod n = (if j \<le> idx then idx - j else idx + n - j)"
proof (cases "j \<le> idx")
  case True
  then have "idx + n - j = (idx - j) + n" by simp
  then have "(idx + n - j) mod n = (idx - j) mod n" by (simp only: mod_add_self2)
  then show ?thesis using True assms by simp
next
  case False
  then show ?thesis using assms by simp
qed

lemma ring_nth:
  assumes "ring los idx offs r" "j < r"
  shows "los ! (if j < idx then idx - Suc j else idx + length los - Suc j) = offs ! (length offs - Suc j)"
proof -
  have "(idx + length los - Suc j) mod length los = (if Suc j \<le> idx then idx - Suc j else idx + length los - Suc j)"
    using assms by (intro ring_mod) (auto simp: ring_def)
  moreover have "los ! ((idx + length los - Suc j) mod length los) = offs ! (length offs - Suc j)"
    using assms by (simp add: ring_def)
  ultimately show ?thesis by (simp only: Suc_le_eq)
qed

lemma ringI:
  assumes "r \<le> length los" "r \<le> length offs" "idx < length los"
    and "\<And>j. j < r \<Longrightarrow> los ! (if j < idx then idx - Suc j else idx + length los - Suc j) = offs ! (length offs - Suc j)"
  shows "ring los idx offs r"
  unfolding ring_def using assms ring_mod [OF assms(3)] by (simp add: Suc_le_eq)

lemma ring_put:
  assumes "ring los idx offs r"
  shows "ring (los[idx := x]) (if idx + 1 = length los then 0 else idx + 1) (offs @ [x]) (min (length los) (Suc r))"
proof (rule ringI)
  have i: "idx < length los" and r: "r \<le> length los" "r \<le> length offs" using assms by (auto simp: ring_def)
  show "min (length los) (Suc r) \<le> length (los[idx := x])" "min (length los) (Suc r) \<le> length (offs @ [x])"
    using r by simp_all
  show "(if idx + 1 = length los then 0 else idx + 1) < length (los[idx := x])" using i by auto
  fix j
  assume j: "j < min (length los) (Suc r)"
  let ?i = "if idx + 1 = length los then 0 else idx + 1"
  have pos: "(if j < ?i then ?i - Suc j else ?i + length los - Suc j) = (if j \<le> idx then idx - j else idx + length los - j)"
    using i j by auto
  show "los[idx := x] ! (if j < ?i then ?i - Suc j else ?i + length (los[idx := x]) - Suc j) = (offs @ [x]) ! (length (offs @ [x]) - Suc j)"
  proof (cases j)
    case 0
    then show ?thesis using i unfolding length_list_update pos by simp
  next
    case (Suc j')
    then have j': "j' < r" "Suc j' < length los" using j by auto
    have "length offs - Suc j' < length offs" using j'(1) r(2) by linarith
    moreover have "(if Suc j' \<le> idx then idx - Suc j' else idx + length los - Suc j') \<noteq> idx" using j' i by auto
    ultimately show ?thesis using ring_nth [OF assms j'(1)] unfolding Suc length_list_update pos [unfolded Suc] Suc_le_eq
      by (simp only: nth_list_update_neq nth_append length_append_singleton diff_Suc_Suc if_True)
  qed
qed

text \<open>The invariant: a packing of the pairs in which no buffer is empty, and a ring that holds the last
  offsets, or all of them.\<close>

definition holds :: "pebbleResults \<Rightarrow> (bytes \<times> bytes) list \<Rightarrow> bool" where
  "holds p kvs \<longleftrightarrow> (\<exists>gs g. packed p gs g \<and> kvs = concat gs @ g \<and> (g = [] \<longrightarrow> gs = []) \<and>
     (lastOffsetsEnabled p \<longrightarrow> ring (lastOffsets p) (lastOffsetIdx p) (concat (map offsets gs) @ offsets g)
        (min (length (lastOffsets p)) (length kvs))))"

lemma holds_empty:
  "0 < n \<Longrightarrow> holds (noResults\<lparr>lastOffsetsEnabled := e, lastOffsets := replicate n 0\<rparr>) []"
  unfolding holds_def by (intro exI [of _ "[]"]) (simp add: packed_def noResults_def ring_def)

lemma makeRoom_same:
  "makeRoom grow p l maxNewSize = (err, p1) \<Longrightarrow> lastOffsetsEnabled p1 = lastOffsetsEnabled p \<and>
    lastOffsets p1 = lastOffsets p \<and> lastOffsetIdx p1 = lastOffsetIdx p"
  by (auto simp: makeRoom_def Let_def split: if_splits sum.splits)

lemma makeRoom_packed:
  assumes "packed p gs g" "makeRoom grow p l maxNewSize = (Inr u, p1)"
  shows "\<exists>gs' g'. packed p1 gs' g' \<and> concat gs' @ g' = concat gs @ g \<and> length (repr p1) + l \<le> reprCap p1 \<and>
    concat (map offsets gs') @ offsets g' = concat (map offsets gs) @ offsets g"
proof (cases "length (repr p) + l > reprCap p")
  case False
  then show ?thesis using assms by (intro exI [of _ gs] exI [of _ g]) (auto simp: makeRoom_def)
next
  case True
  let ?n = "newBufSize (reprCap p) l maxNewSize"
  show ?thesis
  proof (cases "g = []")
    case g: True
    then have "p1 = p\<lparr>repr := [], reprCap := ?n\<rparr>" using assms True
      by (auto simp: makeRoom_def packed_def Let_def split: if_splits sum.splits)
    then show ?thesis using assms(1) g newBufSize_ge
      by (intro exI [of _ gs] exI [of _ "[]"]) (auto simp: packed_def)
  next
    case g: False
    then have "0 < length (repr p)" using assms(1) by (cases g) (auto simp: packed_def length_pack simp del: length_greater_0_conv)
    then have "p1 = p\<lparr>bufs := bufs p @ [(repr p, reprCap p)], repr := [], reprCap := ?n\<rparr>" using assms(2) True
      by (auto simp: makeRoom_def Let_def split: if_splits sum.splits)
    then show ?thesis using assms(1) g newBufSize_ge
      by (intro exI [of _ "gs @ [g]"] exI [of _ "[]"]) (auto simp: packed_def offsets_def)
  qed
qed

lemma put_Inr:
  assumes "put grow p k v maxNewSize = (Inr (), p')"
  obtains u p1 where "makeRoom grow p (8 + length k + length v) maxNewSize = (Inr u, p1)"
    "p' = p1\<lparr>repr := repr p1 @ kvBytes k v, count := count p1 + 1, nbytes := nbytes p1 + int (8 + length k + length v),
      lastOffsets := (if lastOffsetsEnabled p then (lastOffsets p)[lastOffsetIdx p := length (repr p1)] else lastOffsets p),
      lastOffsetIdx := (if \<not> lastOffsetsEnabled p then lastOffsetIdx p
        else if lastOffsetIdx p + 1 = length (lastOffsets p) then 0 else lastOffsetIdx p + 1)\<rparr>"
proof -
  obtain err p1 where m: "makeRoom grow p (8 + length k + length v) maxNewSize = (err, p1)" by fastforce
  note s = makeRoom_same [OF m]
  from assms m obtain u where u: "err = Inr u" by (cases err) (auto simp: put_def pebbleResultsKVSizeOf_def)
  have "p' = p1\<lparr>repr := repr p1 @ kvBytes k v, count := count p1 + 1, nbytes := nbytes p1 + int (8 + length k + length v),
      lastOffsets := (if lastOffsetsEnabled p then (lastOffsets p)[lastOffsetIdx p := length (repr p1)] else lastOffsets p),
      lastOffsetIdx := (if \<not> lastOffsetsEnabled p then lastOffsetIdx p
        else if lastOffsetIdx p + 1 = length (lastOffsets p) then 0 else lastOffsetIdx p + 1)\<rparr>"
    using assms m s u by (cases p1) (auto simp: put_def pebbleResultsKVSizeOf_def Let_def split: if_splits)
  then show ?thesis using that m u by blast
qed

lemma holds_put:
  assumes "holds p kvs" "put grow p k v maxNewSize = (Inr (), p')"
  shows "holds p' (kvs @ [(k, v)])"
proof -
  from assms(1) obtain gs g where h: "packed p gs g" "kvs = concat gs @ g"
    "lastOffsetsEnabled p \<Longrightarrow> ring (lastOffsets p) (lastOffsetIdx p) (concat (map offsets gs) @ offsets g)
        (min (length (lastOffsets p)) (length kvs))" unfolding holds_def by blast
  from assms(2) obtain u p1 where m: "makeRoom grow p (8 + length k + length v) maxNewSize = (Inr u, p1)"
    and p': "p' = p1\<lparr>repr := repr p1 @ kvBytes k v, count := count p1 + 1, nbytes := nbytes p1 + int (8 + length k + length v),
      lastOffsets := (if lastOffsetsEnabled p then (lastOffsets p)[lastOffsetIdx p := length (repr p1)] else lastOffsets p),
      lastOffsetIdx := (if \<not> lastOffsetsEnabled p then lastOffsetIdx p
        else if lastOffsetIdx p + 1 = length (lastOffsets p) then 0 else lastOffsetIdx p + 1)\<rparr>"
    by (rule put_Inr)
  from makeRoom_packed [OF h(1) m] obtain gs' g' where g': "packed p1 gs' g'" "concat gs' @ g' = concat gs @ g"
      "length (repr p1) + (8 + length k + length v) \<le> reprCap p1"
      "concat (map offsets gs') @ offsets g' = concat (map offsets gs) @ offsets g" by blast
  have "packed p' gs' (g' @ [(k, v)])" using g'(1,3) p' by (auto simp: packed_def)
  moreover have "lastOffsetsEnabled p' = lastOffsetsEnabled p" using p' makeRoom_same [OF m] by simp
  moreover have "ring (lastOffsets p') (lastOffsetIdx p') (concat (map offsets gs') @ offsets (g' @ [(k, v)]))
      (min (length (lastOffsets p')) (length (kvs @ [(k, v)])))" if "lastOffsetsEnabled p"
  proof -
    have x: "length (repr p1) = length (pack g')" using g'(1) by (simp add: packed_def)
    have "concat (map offsets gs') @ offsets (g' @ [(k, v)]) = (concat (map offsets gs) @ offsets g) @ [length (repr p1)]"
      using g'(4) by (simp add: offsets_snoc x flip: append_assoc)
    moreover have "min (length (lastOffsets p)) (Suc (min (length (lastOffsets p)) (length kvs))) =
        min (length (lastOffsets p)) (length (kvs @ [(k, v)]))" by simp
    ultimately show ?thesis using ring_put [OF h(3) [OF that], of "length (repr p1)"] that p' by simp
  qed
  ultimately show ?thesis using g'(2) h(2) unfolding holds_def
    by (intro exI [of _ gs'] exI [of _ "g' @ [(k, v)]"]) simp
qed

subsection \<open>Trimming the last row\<close>

text \<open>The key of a pair without its version, and the row it belongs to.\<close>

definition userKey :: "bytes \<Rightarrow> bytes" where
  "userKey k = (case DecodeEngineKey k of None \<Rightarrow> [] | Some e \<Rightarrow> EKey e)"

definition inRow :: "bytes \<Rightarrow> bytes \<times> bytes \<Rightarrow> bool" where
  "inRow r kv \<longleftrightarrow> getRowPrefix (userKey (fst kv)) = Some r"

definition tracked :: "pebbleResults \<Rightarrow> (bytes \<times> bytes) list \<Rightarrow> nat \<Rightarrow> bool" where
  "tracked p kvs r \<longleftrightarrow> (\<exists>gs g. packed p gs g \<and> kvs = concat gs @ g \<and> (g = [] \<longrightarrow> gs = []) \<and>
     ring (lastOffsets p) (lastOffsetIdx p) (concat (map offsets gs) @ offsets g) r)"

lemma holds_tracked: "holds p kvs \<Longrightarrow> lastOffsetsEnabled p \<Longrightarrow> tracked p kvs (min (length (lastOffsets p)) (length kvs))"
  unfolding holds_def tracked_def by blast

lemma holds_contents:
  "holds p kvs \<Longrightarrow> concat (fst (finish p)) = pack kvs \<and> count p = int (length kvs) \<and> nbytes p = int (kvsize kvs)"
proof -
  assume "holds p kvs"
  then obtain gs g where h: "packed p gs g" "kvs = concat gs @ g" unfolding holds_def by blast
  have "concat (map pack gs) = pack (concat gs)" by (induction gs) simp_all
  then show ?thesis using h by (auto simp: finish_def packed_def Let_def)
qed

lemma ring_pop:
  assumes "ring los idx (offs @ [x]) (Suc r)"
  shows "ring (los[(if idx = 0 then length los - 1 else idx - 1) := 0]) (if idx = 0 then length los - 1 else idx - 1) offs r"
    "los ! (if idx = 0 then length los - 1 else idx - 1) = x"
proof -
  let ?i = "if idx = 0 then length los - 1 else idx - 1"
  have b: "r < length los" "r \<le> length offs" "idx < length los" using assms by (auto simp: ring_def)
  show "los ! ?i = x" using ring_nth [OF assms, of 0] by (cases "idx = 0") simp_all
  show "ring (los[?i := 0]) ?i offs r"
  proof (rule ringI)
    fix j
    assume j: "j < r"
    have pos: "(if j < ?i then ?i - Suc j else ?i + length los - Suc j) = (if Suc j < idx then idx - Suc (Suc j) else idx + length los - Suc (Suc j))"
      using b j by auto
    have "(if Suc j < idx then idx - Suc (Suc j) else idx + length los - Suc (Suc j)) \<noteq> ?i" using b j by auto
    moreover have "length offs - Suc j < length offs" using j b(2) by linarith
    ultimately show "los[?i := 0] ! (if j < ?i then ?i - Suc j else ?i + length (los[?i := 0]) - Suc j) = offs ! (length offs - Suc j)"
      using ring_nth [OF assms, of "Suc j"] j unfolding length_list_update pos
      by (simp only: nth_list_update_neq nth_append length_append_singleton diff_Suc_Suc if_True Suc_less_eq)
  qed (use b in auto)
qed

lemma tracked_last:
  assumes "tracked p (kvs @ [(k, v)]) (Suc r)" "length k < 2 ^ 32"
  shows "\<exists>gs g. packed p gs (g @ [(k, v)]) \<and> kvs = concat gs @ g \<and> lastKVAt p = Inr (length (pack g), userKey k) \<and>
    ring ((lastOffsets p)[nat (prevIdx p) := 0]) (nat (prevIdx p)) (concat (map offsets gs) @ offsets g) r"
proof -
  from assms(1) obtain gs g1 where t: "packed p gs g1" "kvs @ [(k, v)] = concat gs @ g1" "g1 = [] \<longrightarrow> gs = []"
    "ring (lastOffsets p) (lastOffsetIdx p) (concat (map offsets gs) @ offsets g1) (Suc r)" unfolding tracked_def by blast
  then obtain g where g: "g1 = g @ [(k, v)]" "kvs = concat gs @ g"
    by (cases g1 rule: rev_cases) auto
  let ?los = "lastOffsets p" and ?idx = "lastOffsetIdx p"
  have "ring ?los ?idx ((concat (map offsets gs) @ offsets g) @ [length (pack g)]) (Suc r)"
    using t(4) by (simp add: g(1) offsets_snoc)
  note pop = ring_pop [OF this]
  have i: "?idx < length ?los" using t(4) by (simp add: ring_def)
  define i where "i = (if ?idx = 0 then length ?los - 1 else ?idx - 1)"
  have prev: "prevIdx p = int i" "i < length ?los" using i by (auto simp: prevIdx_def i_def)
  have "drop (length (pack g)) (repr p) = kvBytes k v" using t(1) by (simp add: packed_def g(1))
  then have "lastKVAt p = Inr (length (pack g), userKey k)"
    using extractResultKey_eq [OF assms(2), of v "[]"] pop(2) [folded i_def] prev t(1)
    by (simp add: lastKVAt_def Let_def packed_def g(1) userKey_def)
  then show ?thesis using t(1) g pop(1) [folded i_def] prev by (intro exI [of _ gs] exI [of _ g]) simp
qed

text \<open>One round removes the last pair, taking the previous buffer back when its own is used up.\<close>

definition dropLast :: "pebbleResults \<Rightarrow> nat \<Rightarrow> pebbleResults" where
  "dropLast p lastOffset =
    (let p1 = p\<lparr>repr := take lastOffset (repr p), count := count p - 1,
                nbytes := nbytes p - int (length (repr p) - lastOffset),
                lastOffsetIdx := nat (prevIdx p), lastOffsets := (lastOffsets p)[nat (prevIdx p) := 0]\<rparr>
     in if length (repr p1) = 0 \<and> bufs p1 \<noteq> []
        then p1\<lparr>repr := fst (last (bufs p1)), reprCap := snd (last (bufs p1)), bufs := butlast (bufs p1)\<rparr> else p1)"

lemma pack_eq_Nil [simp]: "pack g = [] \<longleftrightarrow> g = []"
proof -
  have "length (pack g) = 0 \<longleftrightarrow> g = []" unfolding length_pack by (cases g) auto
  then show ?thesis by simp
qed

lemma tracked_dropLast:
  assumes "packed p gs (g @ [(k, v)])"
    and "ring ((lastOffsets p)[nat (prevIdx p) := 0]) (nat (prevIdx p)) (concat (map offsets gs) @ offsets g) r"
  shows "tracked (dropLast p (length (pack g))) (concat gs @ g) r"
proof -
  let ?p1 = "p\<lparr>repr := pack g, count := count p - 1, nbytes := nbytes p - int (8 + length k + length v),
                lastOffsetIdx := nat (prevIdx p), lastOffsets := (lastOffsets p)[nat (prevIdx p) := 0]\<rparr>"
  have p1: "packed ?p1 gs g" using assms(1) by (auto simp: packed_def)
  have d: "dropLast p (length (pack g)) = (if g = [] \<and> bufs p \<noteq> []
      then ?p1\<lparr>repr := fst (last (bufs p)), reprCap := snd (last (bufs p)), bufs := butlast (bufs p)\<rparr> else ?p1)"
    using assms(1) by (simp add: dropLast_def Let_def packed_def)
  have e: "bufs p = [] \<longleftrightarrow> gs = []" using assms(1) by (auto simp: packed_def)
  show "tracked (dropLast p (length (pack g))) (concat gs @ g) r"
  proof (cases "g = [] \<and> gs \<noteq> []")
    case False
    then show ?thesis using p1 assms(2) d e unfolding tracked_def by (intro exI [of _ gs] exI [of _ g]) auto
  next
    case True
    define gs' g' where "gs' = butlast gs" and "g' = last gs"
    have gs: "gs = gs' @ [g']" using True by (simp add: gs'_def g'_def)
    obtain bs b c where bs: "bufs p = bs @ [(b, c)]" using True e by (metis append_butlast_last_id surj_pair)
    have "packed (dropLast p (length (pack g))) gs' g'" using assms(1) True d e by (auto simp: packed_def gs bs)
    moreover have "g' \<noteq> []" using assms(1) by (auto simp: packed_def gs)
    moreover have "offsets [] = []" by (simp add: offsets_def)
    ultimately show ?thesis using assms(2) True d e gs unfolding tracked_def
      by (intro exI [of _ gs'] exI [of _ g']) simp
  qed
qed

lemma trimLoop_match:
  assumes "tracked p (kvs @ [(k, v)]) (Suc r)" "length k < 2 ^ 32" "t \<noteq> []"
  shows "trimLoop (Suc n) t ft p =
      (if inRow t (k, v) then
         if kvs = [] then (Inr (Some (userKey k)), dropLast p (fst (projr (lastKVAt p))))
         else trimLoop n t (Some (userKey k)) (dropLast p (fst (projr (lastKVAt p))))
       else (Inr ft, p))"
    "tracked (dropLast p (fst (projr (lastKVAt p)))) kvs r"
proof -
  from tracked_last [OF assms(1,2)] obtain gs g where l: "packed p gs (g @ [(k, v)])" "kvs = concat gs @ g"
    "lastKVAt p = Inr (length (pack g), userKey k)"
    "ring ((lastOffsets p)[nat (prevIdx p) := 0]) (nat (prevIdx p)) (concat (map offsets gs) @ offsets g) r" by blast
  show "tracked (dropLast p (fst (projr (lastKVAt p)))) kvs r" using tracked_dropLast [OF l(1,4)] l(2,3) by simp
  have e: "bufs p = [] \<longleftrightarrow> gs = []" "repr p = pack g @ kvBytes k v" using l(1) by (auto simp: packed_def)
  have row: "(case getRowPrefix (userKey k) of None \<Rightarrow> [] | Some r \<Rightarrow> r) = t \<longleftrightarrow> inRow t (k, v)"
    using assms(3) by (auto simp: inRow_def split: option.splits)
  have "concat gs = [] \<longleftrightarrow> gs = []" using l(1) by (cases gs) (auto simp: packed_def)
  then have kvs: "kvs = [] \<longleftrightarrow> pack g = [] \<and> bufs p = []" using l(2) e by auto
  show "trimLoop (Suc n) t ft p =
      (if inRow t (k, v) then
         if kvs = [] then (Inr (Some (userKey k)), dropLast p (fst (projr (lastKVAt p))))
         else trimLoop n t (Some (userKey k)) (dropLast p (fst (projr (lastKVAt p))))
       else (Inr ft, p))"
    using row kvs e(2) by (auto simp: l(3) dropLast_def Let_def)
qed

definition suffixLen :: "bytes \<Rightarrow> (bytes \<times> bytes) list \<Rightarrow> nat" where
  "suffixLen t kvs = length (takeWhile (inRow t) (rev kvs))"

lemma suffixLen_snoc [simp]: "suffixLen t (kvs @ [kv]) = (if inRow t kv then Suc (suffixLen t kvs) else 0)"
  by (simp add: suffixLen_def)

lemma suffixLen_le: "suffixLen t kvs \<le> length kvs"
  using length_takeWhile_le [of "inRow t" "rev kvs"] by (simp add: suffixLen_def)

lemma trimLoop_eq:
  assumes "tracked p kvs (min n (length kvs))" "kvs \<noteq> []" "list_all (\<lambda>(k, _). length k < 2 ^ 32) kvs" "t \<noteq> []"
  defines "m \<equiv> suffixLen t kvs"
  shows "if m < n \<or> m = length kvs \<and> m \<le> n
    then \<exists>p' r. trimLoop n t ft p = (Inr (if m = 0 then ft else Some (userKey (fst (kvs ! (length kvs - m))))), p') \<and>
      tracked p' (take (length kvs - m) kvs) r
    else \<exists>p' e. trimLoop n t ft p = (Inl (Errorf e), p')"
  using assms(1-4) unfolding m_def
proof (induction n arbitrary: p kvs ft)
  case 0
  then show ?case using suffixLen_le [of t kvs] by (auto simp: Let_def)
next
  case (Suc n)
  from Suc.prems(2) obtain kvs0 k v where kvs: "kvs = kvs0 @ [(k, v)]" by (metis rev_exhaust surj_pair)
  have t: "tracked p (kvs0 @ [(k, v)]) (Suc (min n (length kvs0)))" "length k < 2 ^ 32"
    using Suc.prems(1,3) by (simp_all add: kvs)
  note step = trimLoop_match(1) [OF t Suc.prems(4), of n ft] trimLoop_match(2) [OF t Suc.prems(4)]
  let ?p = "dropLast p (fst (projr (lastKVAt p)))"
  consider "\<not> inRow t (k, v)" | "inRow t (k, v)" "kvs0 = []" | "inRow t (k, v)" "kvs0 \<noteq> []" by blast
  then show ?case
  proof cases
    case 1
    then show ?thesis using step(1) Suc.prems(1) by (auto simp: kvs)
  next
    case 2
    then show ?thesis using step by (auto simp: kvs suffixLen_def)
  next
    case 3
    have all: "list_all (\<lambda>(k, _). length k < 2 ^ 32) kvs0" using Suc.prems(3) by (simp add: kvs)
    note IH = Suc.IH [OF step(2) 3(2) all Suc.prems(4), of "Some (userKey k)"]
    have s: "trimLoop (Suc n) t ft p = trimLoop n t (Some (userKey k)) ?p" using step(1) 3 by simp
    have n: "(kvs0 @ [(k, v)]) ! (length kvs0 - suffixLen t kvs0) = (if suffixLen t kvs0 = 0 then (k, v) else kvs0 ! (length kvs0 - suffixLen t kvs0))"
      using 3(2) by (auto simp: nth_append)
    show ?thesis using IH suffixLen_le [of t kvs0] 3 unfolding s kvs
      by (auto simp: n split: if_splits)
  qed
qed

lemma tracked_contents: "tracked p kvs r \<Longrightarrow> concat (fst (finish p)) = pack kvs \<and> count p = int (length kvs)"
proof -
  assume "tracked p kvs r"
  then obtain gs g where h: "packed p gs g" "kvs = concat gs @ g" unfolding tracked_def by blast
  have "concat (map pack gs) = pack (concat gs)" by (induction gs) simp_all
  then show ?thesis using h by (auto simp: finish_def packed_def Let_def)
qed

lemma getRowPrefix_ne: "getRowPrefix key = Some t \<Longrightarrow> t \<noteq> []"
  by (auto simp: getRowPrefix_def split: if_splits sum.splits)

lemma trim_row:
  assumes "holds p kvs" "lastOffsetsEnabled p" "kvs \<noteq> []" "list_all (\<lambda>(k, _). length k < 2 ^ 32) kvs"
    and "getRowPrefix nextKey = Some t" "m = suffixLen t kvs"
    and "m < length (lastOffsets p) \<or> m = length kvs \<and> m \<le> length (lastOffsets p)"
  shows "\<exists>p' r. maybeTrimPartialLastRow p nextKey =
      (Inr (if m = 0 then None else Some (userKey (fst (kvs ! (length kvs - m))))), p') \<and>
    tracked p' (take (length kvs - m) kvs) r"
proof -
  from assms(1) obtain gs g where h: "packed p gs g" "kvs = concat gs @ g" "g = [] \<longrightarrow> gs = []" unfolding holds_def by blast
  then have "repr p \<noteq> []" using assms(3) by (auto simp: packed_def)
  then have "maybeTrimPartialLastRow p nextKey = trimLoop (length (lastOffsets p)) t None p"
    using assms(2,5) by (simp add: maybeTrimPartialLastRow_def)
  then show ?thesis using trimLoop_eq [OF holds_tracked [OF assms(1,2)] assms(3,4) getRowPrefix_ne [OF assms(5)], of None]
      assms(6,7) by auto
qed

text \<open>C25: a result set holds the pairs put into it, in order and with their number and size, however they
  are spread over buffers.  When a scan stops in front of a key, trimming removes exactly the pairs at
  the end that belong to the SQL row of that key, provided they are fewer than the ring tracks or the
  whole result, and returns the first key removed; the last pair kept is in another row.\<close>

theorem results_rows:
  assumes "holds p kvs" "lastOffsetsEnabled p" "kvs \<noteq> []" "list_all (\<lambda>(k, _). length k < 2 ^ 32) kvs"
    and "put grow p k v maxNewSize = (Inr (), p1)"
    and "getRowPrefix nextKey = Some t" "m = suffixLen t kvs"
    and "m < length (lastOffsets p) \<or> m = length kvs \<and> m \<le> length (lastOffsets p)"
  shows "concat (fst (finish p)) = pack kvs \<and> sizeInfo p 0 0 = (int (length kvs), int (kvsize kvs), 8) \<and>
    holds p1 (kvs @ [(k, v)]) \<and>
    (\<exists>p'. maybeTrimPartialLastRow p nextKey =
        (Inr (if m = 0 then None else Some (userKey (fst (kvs ! (length kvs - m))))), p') \<and>
      concat (fst (finish p')) = pack (take (length kvs - m) kvs) \<and> count p' = int (length kvs - m)) \<and>
    list_all (inRow t) (drop (length kvs - m) kvs) \<and> (m = length kvs \<or> \<not> inRow t (kvs ! (length kvs - Suc m)))"
proof -
  obtain p' r where t: "maybeTrimPartialLastRow p nextKey =
      (Inr (if m = 0 then None else Some (userKey (fst (kvs ! (length kvs - m))))), p')" "tracked p' (take (length kvs - m) kvs) r"
    using trim_row [OF assms(1-4,6-8)] by blast
  have m: "m \<le> length kvs" using assms(7) suffixLen_le by simp
  have "drop (length kvs - m) kvs = rev (take m (rev kvs))" by (simp add: rev_take)
  also have "take m (rev kvs) = takeWhile (inRow t) (rev kvs)"
    unfolding assms(7) suffixLen_def by (rule takeWhile_eq_take [symmetric])
  finally have "drop (length kvs - m) kvs = rev (takeWhile (inRow t) (rev kvs))" .
  then have "list_all (inRow t) (drop (length kvs - m) kvs)" by (auto simp: list_all_iff dest: set_takeWhileD)
  moreover have "\<not> inRow t (kvs ! (length kvs - Suc m))" if "m \<noteq> length kvs"
    using nth_length_takeWhile [of "inRow t" "rev kvs"] m that assms(7) by (simp add: suffixLen_def rev_nth)
  moreover have "count p' = int (length kvs - m)" "concat (fst (finish p')) = pack (take (length kvs - m) kvs)"
    using tracked_contents [OF t(2)] by simp_all
  ultimately show ?thesis
    using holds_contents [OF assms(1)] holds_put [OF assms(1,5)] t(1)
    by (auto simp: sizeInfo_def pebbleResultsKVSizeOf_def)
qed

text \<open>A result with one column family of a row, cut off in front of the next one.\<close>

definition ex_results :: pebbleResults where
  "ex_results = snd (put (\<lambda>_. Inr ()) (noResults\<lparr>lastOffsetsEnabled := True, lastOffsets := replicate 2 0\<rparr>)
     [0x89, 0x89, 0x8a, 0x88, 0] [1] 0)"

lemma ex_results_holds: "holds ex_results [([0x89, 0x89, 0x8a, 0x88, 0], [1])]"
proof -
  have "fst (put (\<lambda>_. Inr ()) (noResults\<lparr>lastOffsetsEnabled := True, lastOffsets := replicate 2 0\<rparr>)
     [0x89, 0x89, 0x8a, 0x88, 0] [1] 0) = Inr ()"
    by (simp add: put_def makeRoom_def noResults_def Let_def pebbleResultsKVSizeOf_def)
  then show ?thesis using holds_put [OF holds_empty [of 2 True]] unfolding ex_results_def by (metis append_Nil prod.collapse zero_less_numeral)
qed

lemma ex_rows:
  "getRowPrefix [0x89, 0x89, 0x8a, 0x88] = Some [0x89, 0x89, 0x8a]"
  "getRowPrefix [0x89, 0x89, 0x8a, 0x89, 0x89] = Some [0x89, 0x89, 0x8a]"
proof -
  have t: "MakeTenantPrefix 1 = Inr []" by (simp add: MakeTenantPrefix_def assertValid_def checkValid_def)
  have p: "row_prefix [] 1 1 [0x8a] = [0x89, 0x89, 0x8a]"
    by (simp add: row_prefix_def MakeTableIDIndexID_def uvarint_small)
  have f: "MakeFamilyKey [0x89, 0x89, 0x8a] 0 = [0x89, 0x89, 0x8a, 0x88]" "MakeFamilyKey [0x89, 0x89, 0x8a] 1 = [0x89, 0x89, 0x8a, 0x89, 0x89]"
    by (simp_all add: MakeFamilyKey_def uvarint_small)
  show "getRowPrefix [0x89, 0x89, 0x8a, 0x88] = Some [0x89, 0x89, 0x8a]" "getRowPrefix [0x89, 0x89, 0x8a, 0x89, 0x89] = Some [0x89, 0x89, 0x8a]"
    using GetRowPrefixLength_family [OF t, of 1 1 "[0x8a]" 0] GetRowPrefixLength_family [OF t, of 1 1 "[0x8a]" 1]
    by (simp_all add: p f getRowPrefix_def)
qed

lemma ex_results_ring:
  "lastOffsetsEnabled ex_results" "length (lastOffsets ex_results) = 2" "fst (put (\<lambda>_. Inr ()) ex_results [1] [] 0) = Inr ()"
  by (simp_all add: ex_results_def put_def makeRoom_def noResults_def Let_def pebbleResultsKVSizeOf_def)

theorem results_rows_witness:
  "\<exists>p'. maybeTrimPartialLastRow ex_results [0x89, 0x89, 0x8a, 0x89, 0x89] = (Inr (Some [0x89, 0x89, 0x8a, 0x88]), p') \<and>
     concat (fst (finish p')) = []"
proof -
  let ?kvs = "[([0x89, 0x89, 0x8a, 0x88, 0] :: bytes, [1] :: bytes)]"
  have u: "userKey [0x89, 0x89, 0x8a, 0x88, 0] = [0x89, 0x89, 0x8a, 0x88]" by (simp add: userKey_def DecodeEngineKey_def)
  then have m: "1 = suffixLen [0x89, 0x89, 0x8a] ?kvs" by (simp add: suffixLen_def inRow_def ex_rows)
  have "put (\<lambda>_. Inr ()) ex_results [1] [] 0 = (Inr (), snd (put (\<lambda>_. Inr ()) ex_results [1] [] 0))"
    using ex_results_ring(3) by (metis prod.collapse)
  from results_rows [OF ex_results_holds ex_results_ring(1) _ _ this ex_rows(2) m] show ?thesis
    by (auto simp: u ex_results_ring(2))
qed

end
