(* ===== verification/Proto_Wire.thy ===== *)
theory Proto_Wire
  imports Hlc
begin

text \<open>
  The wire format of the generated protocol buffer code, for the two messages that every versioned
  value is stored with: a timestamp (\<open>engine/pkg/util/hlc/timestamp.pb.go\<close>) and the header of an MVCC
  value (\<open>engine/pkg/storage/enginepb/mvcc3.pb.go\<close> and \<open>mvcc3_valueheader.go\<close>).  Both files contain the
  same generated routines for varints and unknown fields.

  Marshalling fills a buffer of the computed size from its end; unmarshalling is a loop over an index.
  Indices are integers; since a slice is shorter than \<open>2 ^ 63\<close> bytes and a length is below \<open>2 ^ 63\<close>, a sum
  of the two is negative in Go exactly when it is at least \<open>2 ^ 63\<close>.
\<close>

subsection \<open>Varints\<close>

fun bits_Len :: "nat \<Rightarrow> nat" where
  "bits_Len n = (if n = 0 then 0 else Suc (bits_Len (n div 2)))"

declare bits_Len.simps [simp del]

definition sov :: "uint64 \<Rightarrow> nat" where
  "sov x = (bits_Len (unat (x OR 1)) + 6) div 7"

definition setByte :: "bytes \<Rightarrow> int \<Rightarrow> byte \<Rightarrow> bytes result" where
  "setByte dAtA i b =
    (if i < 0 \<or> int (length dAtA) \<le> i then Inl (Panic ''index out of range'') else Inr (dAtA[nat i := b]))"

lemma unat_drop_bit7: "unat (drop_bit 7 v) = unat v div 128" for v :: "'a::len word"
  unfolding unat_drop_bit_eq by (simp add: drop_bit_eq_div)

lemma ge_128: "128 \<le> v \<longleftrightarrow> unat v \<ge> 128" for v :: uint64
  by (simp add: word_le_nat_alt)

function encodeVarintLoop :: "bytes \<Rightarrow> int \<Rightarrow> uint64 \<Rightarrow> bytes result" where
  "encodeVarintLoop dAtA offset v =
    (if v \<ge> push_bit 7 1
     then rbind (setByte dAtA offset (ucast (v AND 0x7f OR 0x80))) (\<lambda>dAtA1. encodeVarintLoop dAtA1 (offset + 1) (drop_bit 7 v))
     else setByte dAtA offset (ucast v))"
  by pat_completeness auto

termination
  by (relation "measure (\<lambda>(_, _, v). unat v)") (auto simp: unat_drop_bit7 ge_128)

declare encodeVarintLoop.simps [simp del]

definition encodeVarint :: "bytes \<Rightarrow> int \<Rightarrow> uint64 \<Rightarrow> (bytes \<times> int) result" where
  "encodeVarint dAtA offset v =
    (let base = offset - int (sov v) in rbind (encodeVarintLoop dAtA base v) (\<lambda>dAtA1. Inr (dAtA1, base)))"

function readVarint :: "bytes \<Rightarrow> nat \<Rightarrow> nat \<Rightarrow> 'a::len word \<Rightarrow> ('a word \<times> nat) result" where
  "readVarint dAtA iNdEx shift v =
    (if shift \<ge> 64 then Inl (Errorf ''proto: integer overflow'')
     else if iNdEx \<ge> length dAtA then Inl (Errorf ''unexpected EOF'')
     else
       let b = dAtA ! iNdEx; v1 = v OR push_bit shift (ucast (b AND 0x7F)) in
       if b < 0x80 then Inr (v1, iNdEx + 1) else readVarint dAtA (iNdEx + 1) (shift + 7) v1)"
  by pat_completeness auto

termination
  by (relation "measure (\<lambda>(_, _, shift, _). 64 - shift)") auto

declare readVarint.simps [simp del]

lemma readVarint_advances: "readVarint d i shift v = Inr (w, j) \<Longrightarrow> i < j \<and> j \<le> length d"
proof (induction d i shift v rule: readVarint.induct)
  case (1 d i shift v)
  show ?case
  proof (cases "d ! i < 0x80")
    case True
    then show ?thesis using "1.prems" by (simp add: readVarint.simps [of d i] Let_def split: if_splits)
  next
    case False
    then show ?thesis using "1.prems" "1.IH" [OF _ _ refl refl]
      by (simp add: readVarint.simps [of d i] Let_def split: if_splits)
  qed
qed

subsection \<open>Skipping an unknown field\<close>

lemma rbind_cong [fundef_cong]: "r = s \<Longrightarrow> (\<And>x. s = Inr x \<Longrightarrow> f x = g x) \<Longrightarrow> rbind r f = rbind s g"
  by (cases s) auto

definition skipField :: "bytes \<Rightarrow> nat \<Rightarrow> uint64 \<Rightarrow> nat \<Rightarrow> (nat \<times> nat) result" where
  "skipField dAtA iNdEx wireType depth =
    (if wireType = 0 then rbind (readVarint dAtA iNdEx 0 (0 :: int64)) (\<lambda>(_, i). Inr (i, depth))
     else if wireType = 1 then Inr (iNdEx + 8, depth)
     else if wireType = 2 then
       rbind (readVarint dAtA iNdEx 0 (0 :: int64)) (\<lambda>(len, i).
         if sint len < 0 then Inl (Errorf ''proto: negative length found during unmarshaling'')
         else Inr (i + nat (sint len), depth))
     else if wireType = 3 then Inr (iNdEx, depth + 1)
     else if wireType = 4 then
       (if depth = 0 then Inl (Errorf ''proto: unexpected end of group'') else Inr (iNdEx, depth - 1))
     else if wireType = 5 then Inr (iNdEx + 4, depth)
     else Inl (Errorf ''proto: illegal wireType %d''))"

lemma skipField_advances: "skipField d i w depth = Inr (j, depth') \<Longrightarrow> i \<le> j"
  by (auto simp: skipField_def rbind_Inr_conv dest!: readVarint_advances split: if_splits)

function skipLoop :: "bytes \<Rightarrow> nat \<Rightarrow> nat \<Rightarrow> nat result" where
  "skipLoop dAtA iNdEx depth =
    (if iNdEx < length dAtA then
       rbind (readVarint dAtA iNdEx 0 (0 :: uint64)) (\<lambda>(wire, i1).
       rbind (skipField dAtA i1 (wire AND 0x7) depth) (\<lambda>(i2, depth1).
         if i2 \<ge> 2 ^ 63 then Inl (Errorf ''proto: negative length found during unmarshaling'')
         else if depth1 = 0 then Inr i2
         else skipLoop dAtA i2 depth1))
     else Inl (Errorf ''unexpected EOF''))"
  by pat_completeness auto

termination
proof (relation "measure (\<lambda>(d, i, _). length d - i)", goal_cases)
  case (2 d i depth x wire i1 y i2 depth1)
  then have "i < i1" "i1 \<le> i2" using readVarint_advances skipField_advances by blast+
  then show ?case using 2(1) by simp
qed simp

declare skipLoop.simps [simp del]

definition skip :: "bytes \<Rightarrow> nat result" where
  "skip dAtA = skipLoop dAtA 0 0"

lemma skipLoop_advances: "skipLoop d i depth = Inr j \<Longrightarrow> i < j"
proof (induction d i depth rule: skipLoop.induct)
  case (1 d i depth)
  from "1.prems" obtain wire i1 i2 depth1 where
    s: "i < length d" "readVarint d i 0 (0 :: uint64) = Inr (wire, i1)" "skipField d i1 (wire AND 7) depth = Inr (i2, depth1)"
       "i2 < 2 ^ 63" "if depth1 = 0 then j = i2 else skipLoop d i2 depth1 = Inr j"
    by (auto simp: skipLoop.simps [of d i] rbind_Inr_conv not_le split: if_splits)
  have "i < i2" using readVarint_advances [OF s(2)] skipField_advances [OF s(3)] by linarith
  moreover have "depth1 \<noteq> 0 \<Longrightarrow> i2 < j"
    using "1.IH" [OF s(1,2) refl s(3) refl] s(4,5) by simp
  ultimately show ?case using s(5) by (cases "depth1 = 0") auto
qed

subsection \<open>Timestamps\<close>

definition timestampSize :: "Timestamp \<Rightarrow> nat" where
  "timestampSize m =
    (if WallTime m \<noteq> 0 then 1 + sov (WallTime m) else 0) +
    (if Logical m \<noteq> 0 then 1 + sov (scast (Logical m)) else 0) +
    (if Synthetic m then 2 else 0)"

text \<open>Writing from the end of a buffer: the position moves down before a byte is stored.\<close>

definition putByte :: "byte \<Rightarrow> bytes \<times> int \<Rightarrow> (bytes \<times> int) result" where
  "putByte b = (\<lambda>(dAtA, i). rbind (setByte dAtA (i - 1) b) (\<lambda>dAtA1. Inr (dAtA1, i - 1)))"

definition marshalTimestampBuf :: "Timestamp \<Rightarrow> bytes \<times> int \<Rightarrow> (bytes \<times> int) result" where
  "marshalTimestampBuf m di =
     rbind (if Synthetic m then rbind (putByte 1 di) (putByte 0x18) else Inr di) (\<lambda>di1.
     rbind (if Logical m \<noteq> 0
            then rbind (encodeVarint (fst di1) (snd di1) (scast (Logical m))) (putByte 0x10) else Inr di1) (\<lambda>di2.
     if WallTime m \<noteq> 0
     then rbind (encodeVarint (fst di2) (snd di2) (WallTime m)) (putByte 0x8) else Inr di2))"

text \<open>The number of bytes written, with the filled buffer.\<close>

definition MarshalTimestampToSizedBuffer :: "Timestamp \<Rightarrow> bytes \<Rightarrow> (bytes \<times> nat) result" where
  "MarshalTimestampToSizedBuffer m dAtA =
     rbind (marshalTimestampBuf m (dAtA, int (length dAtA))) (\<lambda>(dAtA1, i). Inr (dAtA1, length dAtA - nat i))"

definition MarshalTimestamp :: "Timestamp \<Rightarrow> bytes result" where
  "MarshalTimestamp m =
     rbind (MarshalTimestampToSizedBuffer m (replicate (timestampSize m) 0)) (\<lambda>(dAtA, n). Inr (take n dAtA))"

function UnmarshalTimestampLoop :: "bytes \<Rightarrow> nat \<Rightarrow> Timestamp \<Rightarrow> Timestamp result" where
  "UnmarshalTimestampLoop dAtA iNdEx m =
    (if iNdEx < length dAtA then
       rbind (readVarint dAtA iNdEx 0 (0 :: uint64)) (\<lambda>(wire, i1).
         let fieldNum = (ucast (drop_bit 3 wire) :: int32); wireType = wire AND 0x7 in
         if wireType = 4 then Inl (Errorf ''proto: Timestamp: wiretype end group for non-group'')
         else if sint fieldNum \<le> 0 then Inl (Errorf ''proto: Timestamp: illegal tag %d (wire type %d)'')
         else if fieldNum = 1 then
           (if wireType \<noteq> 0 then Inl (Errorf ''proto: wrong wireType = %d for field WallTime'')
            else rbind (readVarint dAtA i1 0 (0 :: int64)) (\<lambda>(v, i2).
              UnmarshalTimestampLoop dAtA i2 (m\<lparr>WallTime := v\<rparr>)))
         else if fieldNum = 2 then
           (if wireType \<noteq> 0 then Inl (Errorf ''proto: wrong wireType = %d for field Logical'')
            else rbind (readVarint dAtA i1 0 (0 :: int32)) (\<lambda>(v, i2).
              UnmarshalTimestampLoop dAtA i2 (m\<lparr>Logical := v\<rparr>)))
         else if fieldNum = 3 then
           (if wireType \<noteq> 0 then Inl (Errorf ''proto: wrong wireType = %d for field Synthetic'')
            else rbind (readVarint dAtA i1 0 (0 :: int64)) (\<lambda>(v, i2).
              UnmarshalTimestampLoop dAtA i2 (m\<lparr>Synthetic := (v \<noteq> 0)\<rparr>)))
         else rbind (skip (drop iNdEx dAtA)) (\<lambda>skippy.
           if iNdEx + skippy \<ge> 2 ^ 63 then Inl (Errorf ''proto: negative length found during unmarshaling'')
           else if iNdEx + skippy > length dAtA then Inl (Errorf ''unexpected EOF'')
           else UnmarshalTimestampLoop dAtA (iNdEx + skippy) m))
     else if iNdEx > length dAtA then Inl (Errorf ''unexpected EOF'')
     else Inr m)"
  by pat_completeness auto

termination
proof (relation "measure (\<lambda>(d, i, _). length d - i)", goal_cases)
  case 5
  then show ?case using skipLoop_advances by (fastforce simp: skip_def)
qed (auto dest!: readVarint_advances)

declare UnmarshalTimestampLoop.simps [simp del]

definition UnmarshalTimestamp :: "bytes \<Rightarrow> Timestamp \<Rightarrow> Timestamp result" where
  "UnmarshalTimestamp dAtA m = UnmarshalTimestampLoop dAtA 0 m"

subsection \<open>The header of an MVCC value\<close>

text \<open>The field \<open>KVNemesisSeq\<close> has size zero outside test builds: it is skipped when read and never
  written.\<close>

record MVCCValueHeader =
  LocalTimestamp :: ClockTimestamp

definition headerIsEmpty :: "MVCCValueHeader \<Rightarrow> bool" where
  "headerIsEmpty h \<longleftrightarrow> IsEmpty (LocalTimestamp h)"

definition headerSize :: "MVCCValueHeader \<Rightarrow> nat" where
  "headerSize m = (let l = timestampSize (LocalTimestamp m) in 1 + l + sov (of_nat l))"

definition MarshalHeaderToSizedBuffer :: "MVCCValueHeader \<Rightarrow> bytes \<Rightarrow> (bytes \<times> nat) result" where
  "MarshalHeaderToSizedBuffer m dAtA =
     rbind (MarshalTimestampToSizedBuffer (LocalTimestamp m) dAtA) (\<lambda>(dAtA1, size).
     rbind (encodeVarint dAtA1 (int (length dAtA) - int size) (of_nat size)) (\<lambda>di.
     rbind (putByte 0xa di) (\<lambda>(dAtA2, i). Inr (dAtA2, length dAtA - nat i))))"

function UnmarshalHeaderLoop :: "bytes \<Rightarrow> nat \<Rightarrow> MVCCValueHeader \<Rightarrow> MVCCValueHeader result" where
  "UnmarshalHeaderLoop dAtA iNdEx m =
    (if iNdEx < length dAtA then
       rbind (readVarint dAtA iNdEx 0 (0 :: uint64)) (\<lambda>(wire, i1).
         let fieldNum = (ucast (drop_bit 3 wire) :: int32); wireType = wire AND 0x7 in
         if wireType = 4 then Inl (Errorf ''proto: MVCCValueHeader: wiretype end group for non-group'')
         else if sint fieldNum \<le> 0 then Inl (Errorf ''proto: MVCCValueHeader: illegal tag %d (wire type %d)'')
         else if fieldNum = 2 \<or> fieldNum = 1 then
           (if wireType \<noteq> 2 then Inl (Errorf (if fieldNum = 2 then ''proto: wrong wireType = %d for field KVNemesisSeq''
                                       else ''proto: wrong wireType = %d for field LocalTimestamp''))
            else rbind (readVarint dAtA i1 0 (0 :: int64)) (\<lambda>(msglen, i2).
              if sint msglen < 0 \<or> i2 + nat (sint msglen) \<ge> 2 ^ 63
              then Inl (Errorf ''proto: negative length found during unmarshaling'')
              else if i2 + nat (sint msglen) > length dAtA then Inl (Errorf ''unexpected EOF'')
              else if fieldNum = 2 then UnmarshalHeaderLoop dAtA (i2 + nat (sint msglen)) m
              else rbind (UnmarshalTimestamp (take (nat (sint msglen)) (drop i2 dAtA)) (LocalTimestamp m)) (\<lambda>ts.
                UnmarshalHeaderLoop dAtA (i2 + nat (sint msglen)) (m\<lparr>LocalTimestamp := ts\<rparr>))))
         else rbind (skip (drop iNdEx dAtA)) (\<lambda>skippy.
           if iNdEx + skippy \<ge> 2 ^ 63 then Inl (Errorf ''proto: negative length found during unmarshaling'')
           else if iNdEx + skippy > length dAtA then Inl (Errorf ''unexpected EOF'')
           else UnmarshalHeaderLoop dAtA (iNdEx + skippy) m))
     else if iNdEx > length dAtA then Inl (Errorf ''unexpected EOF'')
     else Inr m)"
  by pat_completeness auto

termination
proof (relation "measure (\<lambda>(d, i, _). length d - i)", goal_cases)
  case 4
  then show ?case using skipLoop_advances by (fastforce simp: skip_def)
qed (auto dest!: readVarint_advances)

declare UnmarshalHeaderLoop.simps [simp del]

definition UnmarshalHeader :: "bytes \<Rightarrow> MVCCValueHeader \<Rightarrow> MVCCValueHeader result" where
  "UnmarshalHeader dAtA m = UnmarshalHeaderLoop dAtA 0 m"

subsection \<open>Varints as byte strings\<close>

fun varint :: "nat \<Rightarrow> bytes" where
  "varint n = (if n < 128 then [of_nat n] else of_nat (n mod 128 + 128) # varint (n div 128))"

declare varint.simps [simp del]

lemma varint_ne [simp]: "varint n \<noteq> []"
  by (simp add: varint.simps [of n])

lemma bits_Len_0 [simp]: "bits_Len 0 = 0"
  by (simp add: bits_Len.simps)

lemma bits_Len_le: "n < 2 ^ k \<Longrightarrow> bits_Len n \<le> k"
proof (induction k arbitrary: n)
  case (Suc k)
  then have "bits_Len (n div 2) \<le> k" by (intro Suc.IH) simp
  then show ?case by (simp add: bits_Len.simps [of n])
qed simp

lemma bits_Len_shift: "2 ^ k \<le> 2 * n \<Longrightarrow> bits_Len n = k + bits_Len (n div 2 ^ k)"
proof (induction k arbitrary: n)
  case (Suc k)
  then have "0 < n" by (metis less_le_trans mult_0_right not_gr_zero zero_less_numeral zero_less_power not_less)
  then have "bits_Len n = Suc (bits_Len (n div 2))" by (simp add: bits_Len.simps [of n])
  also have "bits_Len (n div 2) = k + bits_Len (n div 2 div 2 ^ k)"
  proof (cases "k = 0")
    case False
    then have "(2 :: nat) ^ k = 2 * 2 ^ (k - 1)" by (cases k) auto
    then show ?thesis using Suc.prems by (intro Suc.IH) auto
  qed simp
  finally show ?case by (simp add: div_mult2_eq)
qed simp

lemma bits_Len_or1: "bits_Len (n OR 1) = Suc (bits_Len (n div 2))"
proof -
  have e: "n OR 1 = n + of_bool (even n)" by (rule or_one_eq)
  have "(n + of_bool (even n)) div 2 = n div 2" by (cases "even n") (auto elim!: evenE)
  moreover have "n + of_bool (even n) \<noteq> 0" by (cases "n = 0") auto
  ultimately show ?thesis unfolding e by (simp add: bits_Len.simps [of "n + of_bool (even n)"])
qed

lemma length_varint_bits: "length (varint n) = (bits_Len (n div 2) + 7) div 7"
proof (induction n rule: varint.induct)
  case (1 n)
  show ?case
  proof (cases "n < 128")
    case True
    then have "bits_Len (n div 2) \<le> 6" by (intro bits_Len_le) simp
    then show ?thesis using True by (simp add: varint.simps [of n])
  next
    case False
    then have "bits_Len (n div 2) = 7 + bits_Len (n div 2 div 2 ^ 7)" by (intro bits_Len_shift) simp
    also have "n div 2 div 2 ^ 7 = n div 128 div 2" by (simp add: div_mult2_eq [symmetric])
    finally have "(bits_Len (n div 2) + 7) div 7 = (bits_Len (n div 128 div 2) + 7 + 7) div 7" by simp
    also have "\<dots> = Suc ((bits_Len (n div 128 div 2) + 7) div 7)" by (simp only: div_add_self2)
    finally show ?thesis using False 1 by (simp add: varint.simps [of n])
  qed
qed

lemma sov_varint: "sov x = length (varint (unat x))"
  using bits_Len_or1 [of "unat x"] by (simp add: sov_def length_varint_bits unsigned_or_eq)

lemma varint_le_10: "length (varint (unat (x :: uint64))) \<le> 10"
proof -
  have "unat x < 2 ^ 64" using unsigned_less [of x, where ?'a = nat] by simp
  then have "unat x div 2 < 2 ^ 63" by simp
  then have "bits_Len (unat x div 2) \<le> 63" by (rule bits_Len_le)
  then show ?thesis by (simp add: length_varint_bits)
qed

lemma setByte_at: "length pre = n \<Longrightarrow> setByte (pre @ a # post) (int n) b = Inr (pre @ b # post)"
  by (auto simp: setByte_def list_update_append)

lemma continuation_byte: "(ucast (v AND 0x7f OR 0x80) :: byte) = of_nat (unat v mod 128 + 128)" for v :: uint64
proof -
  have "\<not> bit (0x80 :: uint64) n" if "n < 7" for n
  proof -
    have "n \<in> {0, 1, 2, 3, 4, 5, 6}" using that by auto
    then show ?thesis by (auto simp: bit_numeral_rec)
  qed
  then have "take_bit 7 v OR 0x80 = take_bit 7 v + 0x80"
    by (intro disjunctive_add [symmetric]) (auto simp: bit_take_bit_iff)
  moreover have "v AND 0x7f = take_bit 7 v" by (simp add: take_bit_eq_mask mask_eq_exp_minus_1)
  moreover have "take_bit 7 v = of_nat (unat v mod 128)"
    by (rule word_unat_eq_iff [THEN iffD2]) (simp add: unat_mod unat_of_nat take_bit_eq_mod)
  ultimately have "v AND 0x7f OR 0x80 = of_nat (unat v mod 128 + 128)" by simp
  moreover have "take_bit LENGTH(64) (unat v mod 128 + 128) = unat v mod 128 + 128"
    by (rule take_bit_nat_eq_self) (simp add: trans_less_add1)
  ultimately show ?thesis by (simp only: unsigned_of_nat)
qed

lemma encodeVarintLoop_eq:
  "length old = length (varint (unat v)) \<Longrightarrow>
    encodeVarintLoop (pre @ old @ post) (int (length pre)) v = Inr (pre @ varint (unat v) @ post)"
proof (induction "unat v" arbitrary: v pre old rule: varint.induct)
  case 1
  from "1.prems" obtain a old' where old: "old = a # old'" by (cases old) auto
  show ?case
  proof (cases "unat v < 128")
    case True
    then have "old' = []" "\<not> 128 \<le> v" "varint (unat v) = [ucast v]"
      using "1.prems" old by (auto simp: varint.simps [of "unat v"] ge_128)
    then show ?thesis using old by (simp add: encodeVarintLoop.simps [of _ _ v] setByte_at)
  next
    case False
    then have v: "varint (unat v) = of_nat (unat v mod 128 + 128) # varint (unat (drop_bit 7 v))" "128 \<le> v"
      by (simp_all add: varint.simps [of "unat v"] unat_drop_bit7 ge_128)
    have "encodeVarintLoop ((pre @ [of_nat (unat v mod 128 + 128)]) @ old' @ post)
        (int (length (pre @ [of_nat (unat v mod 128 + 128) :: byte]))) (drop_bit 7 v) =
      Inr ((pre @ [of_nat (unat v mod 128 + 128)]) @ varint (unat (drop_bit 7 v)) @ post)"
      using False "1.prems" old v by (intro "1.hyps") (simp_all add: unat_drop_bit7)
    then show ?thesis using v(2) old by (simp add: encodeVarintLoop.simps [of _ _ v] setByte_at v(1) continuation_byte add.commute [of 1 "int _"] del: of_nat_add)
  qed
qed

lemma two7: "(2 :: nat) ^ 7 = 128"
  by simp

lemma ucast_nat: "ucast a = of_nat (unat a)"
  by simp

lemma byte_and_7f: "unat (b AND 0x7F) = unat b mod 128" for b :: byte
proof -
  have "b AND 0x7F = take_bit 7 b" by (simp add: take_bit_eq_mask mask_eq_exp_minus_1)
  then show ?thesis by (simp add: unat_mod take_bit_eq_mod)
qed

lemma of_nat_split7:
  "push_bit s (of_nat (n mod 128)) OR push_bit (s + 7) (of_nat (n div 128)) = (push_bit s (of_nat n) :: 'a::len word)"
proof -
  have "take_bit 7 n OR push_bit 7 (drop_bit 7 n) = n"
    by (rule bit_eqI) (auto simp: bit_or_iff bit_take_bit_iff bit_push_bit_iff bit_drop_bit_eq, metis add_diff_inverse_nat)
  then have "(of_nat n :: 'a word) = of_nat (n mod 128) OR push_bit 7 (of_nat (n div 128))"
    by (metis of_nat_or_eq of_nat_push_bit take_bit_eq_mod drop_bit_eq_div two7)
  then show ?thesis by (simp add: push_bit_or push_bit_push_bit add.commute)
qed

lemma readVarint_step:
  "s < 64 \<Longrightarrow> readVarint (pre @ b # post) (length pre) s v =
    (if b < 0x80 then Inr (v OR push_bit s (ucast (b AND 0x7F)), length pre + 1)
     else readVarint ((pre @ [b]) @ post) (length (pre @ [b])) (s + 7) (v OR push_bit s (ucast (b AND 0x7F))))"
  by (subst readVarint.simps) (simp add: Let_def)

lemma varint_last:
  assumes "n < 128"
  shows "(of_nat n :: byte) < 0x80" "ucast ((of_nat n :: byte) AND 0x7F) = (of_nat n :: 'a::len word)"
proof -
  have u: "unat (of_nat n :: byte) = n" using assms by (simp add: unat_of_nat)
  then show "(of_nat n :: byte) < 0x80" using assms by (simp add: word_less_nat_alt)
  show "ucast ((of_nat n :: byte) AND 0x7F) = (of_nat n :: 'a word)"
    unfolding ucast_nat byte_and_7f u using assms by simp
qed

lemma varint_more:
  "\<not> (of_nat (n mod 128 + 128) :: byte) < 0x80"
  "ucast ((of_nat (n mod 128 + 128) :: byte) AND 0x7F) = (of_nat (n mod 128) :: 'a::len word)"
proof -
  have u: "unat (of_nat (n mod 128 + 128) :: byte) = n mod 128 + 128"
    by (simp only: unat_of_nat) (simp add: trans_less_add1)
  then show "\<not> (of_nat (n mod 128 + 128) :: byte) < 0x80" by (simp only: word_less_nat_alt) simp
  show "ucast ((of_nat (n mod 128 + 128) :: byte) AND 0x7F) = (of_nat (n mod 128) :: 'a word)"
    unfolding ucast_nat byte_and_7f u by simp
qed

lemma readVarint_eq:
  assumes "n * 2 ^ s < 2 ^ 64" "s < 64"
  shows "readVarint (pre @ varint n @ post) (length pre) s (v :: 'a::len word) =
    Inr (v OR push_bit s (of_nat n), length pre + length (varint n))"
  using assms
proof (induction n arbitrary: pre s v rule: varint.induct)
  case (1 n)
  show ?case
  proof (cases "n < 128")
    case True
    then have "varint n = [of_nat n]" by (simp add: varint.simps [of n])
    then show ?thesis using readVarint_step [OF "1.prems"(2), of pre "of_nat n" post v] by (simp add: varint_last [OF True])
  next
    case False
    let ?b = "of_nat (n mod 128 + 128) :: byte"
    have v: "varint n = ?b # varint (n div 128)" using False by (simp add: varint.simps [of n] del: of_nat_add)
    have "n div 128 * 2 ^ (s + 7) \<le> n * 2 ^ s"
      using mult_le_mono1 [OF div_times_less_eq_dividend [of n 128], of "2 ^ s"] by (simp add: power_add ac_simps)
    from this "1.prems"(1) have lt: "n div 128 * 2 ^ (s + 7) < 2 ^ 64" by (rule le_less_trans)
    have "2 ^ (s + 7) \<le> n div 128 * 2 ^ (s + 7)" using False by (simp add: div_greater_zero_iff Suc_le_eq)
    from this lt have "(2 :: nat) ^ (s + 7) < 2 ^ 64" by (rule le_less_trans)
    then have s: "s + 7 < 64" by (rule power_less_imp_less_exp [rotated]) simp
    let ?w = "v OR push_bit s (of_nat (n mod 128))"
    have "readVarint (pre @ varint n @ post) (length pre) s v =
      readVarint ((pre @ [?b]) @ varint (n div 128) @ post) (length (pre @ [?b])) (s + 7) ?w"
      using readVarint_step [OF "1.prems"(2), of pre ?b "varint (n div 128) @ post" v]
      unfolding v varint_more(2) if_not_P [OF varint_more(1)] append_Cons .
    also have "\<dots> = Inr (?w OR push_bit (s + 7) (of_nat (n div 128)), length (pre @ [?b]) + length (varint (n div 128)))"
      by (rule "1.IH" [OF False lt s])
    also have "?w OR push_bit (s + 7) (of_nat (n div 128)) = v OR push_bit s (of_nat n)"
      unfolding or.assoc of_nat_split7 ..
    finally show ?thesis unfolding v by simp
  qed
qed

subsection \<open>Filling a buffer from its end\<close>

definition fills :: "(bytes \<times> int \<Rightarrow> (bytes \<times> int) result) \<Rightarrow> bytes \<Rightarrow> bool" where
  "fills f s \<longleftrightarrow> (\<forall>pre old post. length old = length s \<longrightarrow>
     f (pre @ old @ post, int (length pre + length old)) = Inr (pre @ s @ post, int (length pre)))"

lemma fillsD:
  "fills f s \<Longrightarrow> length old = length s \<Longrightarrow> f (pre @ old @ post, int (length pre + length old)) = Inr (pre @ s @ post, int (length pre))"
  unfolding fills_def by blast

lemma fills_done: "fills Inr []"
  by (simp add: fills_def)

lemma fills_putByte: "fills (putByte b) [b]"
  by (auto simp: fills_def putByte_def length_Suc_conv setByte_at)

lemma fills_encodeVarint: "fills (\<lambda>di. encodeVarint (fst di) (snd di) v) (varint (unat v))"
  using encodeVarintLoop_eq by (auto simp: fills_def encodeVarint_def Let_def sov_varint)

lemma fills_bind:
  assumes "fills f s" "fills g t"
  shows "fills (\<lambda>di. rbind (f di) g) (t @ s)"
  unfolding fills_def
proof (intro allI impI)
  fix pre old post :: bytes
  assume l: "length old = length (t @ s)"
  define a b where "a = take (length t) old" and "b = drop (length t) old"
  have ab: "old = a @ b" "length a = length t" "length b = length s" using l by (simp_all add: a_def b_def)
  have "f (pre @ old @ post, int (length pre + length old)) = Inr (pre @ a @ s @ post, int (length pre + length a))"
    using fillsD [OF assms(1) ab(3), of "pre @ a" post] by (simp add: ab(1) add.assoc)
  then show "rbind (f (pre @ old @ post, int (length pre + length old))) g = Inr (pre @ (t @ s) @ post, int (length pre))"
    using fillsD [OF assms(2) ab(2), of pre "s @ post"] by simp
qed

lemma fills_if: "(c \<Longrightarrow> fills f s) \<Longrightarrow> (\<not> c \<Longrightarrow> fills g t) \<Longrightarrow> fills (\<lambda>di. if c then f di else g di) (if c then s else t)"
  by simp

text \<open>The bytes of the two messages.\<close>

definition timestampBytes :: "Timestamp \<Rightarrow> bytes" where
  "timestampBytes m =
    (if WallTime m \<noteq> 0 then 0x8 # varint (unat (WallTime m)) else []) @
    (if Logical m \<noteq> 0 then 0x10 # varint (unat (scast (Logical m) :: uint64)) else []) @
    (if Synthetic m then [0x18, 1] else [])"

definition headerBytes :: "MVCCValueHeader \<Rightarrow> bytes" where
  "headerBytes h = 0xa # varint (length (timestampBytes (LocalTimestamp h))) @ timestampBytes (LocalTimestamp h)"

lemma timestampSize_eq: "timestampSize m = length (timestampBytes m)"
  by (simp add: timestampSize_def timestampBytes_def sov_varint)

lemma fills_timestamp: "fills (marshalTimestampBuf m) (timestampBytes m)"
proof -
  note v = fills_bind [OF fills_encodeVarint fills_putByte]
  have "fills (\<lambda>di. rbind (if Synthetic m then rbind (putByte 1 di) (putByte 0x18) else Inr di) (\<lambda>di1.
     rbind (if Logical m \<noteq> 0
            then rbind (encodeVarint (fst di1) (snd di1) (scast (Logical m))) (putByte 0x10) else Inr di1) (\<lambda>di2.
     if WallTime m \<noteq> 0
     then rbind (encodeVarint (fst di2) (snd di2) (WallTime m)) (putByte 0x8) else Inr di2)))
     (((if WallTime m \<noteq> 0 then [0x8] @ varint (unat (WallTime m)) else []) @
      (if Logical m \<noteq> 0 then [0x10] @ varint (unat (scast (Logical m) :: uint64)) else [])) @
      (if Synthetic m then [0x18] @ [1] else []))"
    by (intro fills_bind fills_if v fills_done fills_putByte)
  then show ?thesis unfolding marshalTimestampBuf_def [abs_def] timestampBytes_def append_assoc append_Cons append_Nil .
qed

lemma MarshalTimestampToSizedBuffer_eq:
  assumes "length old = length (timestampBytes m)"
  shows "MarshalTimestampToSizedBuffer m (pre @ old) = Inr (pre @ timestampBytes m, length (timestampBytes m))"
  using fillsD [OF fills_timestamp assms, of pre "[]"] assms by (simp add: MarshalTimestampToSizedBuffer_def)

lemma MarshalTimestamp_eq: "MarshalTimestamp m = Inr (timestampBytes m)"
  using MarshalTimestampToSizedBuffer_eq [of "replicate (timestampSize m) 0" m "[]"]
  by (simp add: MarshalTimestamp_def timestampSize_eq)

lemma length_timestampBytes: "length (timestampBytes m) \<le> 24"
  using varint_le_10 [of "WallTime m"] varint_le_10 [of "scast (Logical m)"] by (auto simp: timestampBytes_def)

lemma headerSize_eq: "headerSize h = length (headerBytes h)"
proof -
  have "unat (of_nat (length (timestampBytes (LocalTimestamp h))) :: uint64) = length (timestampBytes (LocalTimestamp h))"
    using length_timestampBytes [of "LocalTimestamp h"] by (simp add: unat_of_nat)
  then show ?thesis by (simp add: headerSize_def headerBytes_def Let_def timestampSize_eq sov_varint)
qed

lemma MarshalHeaderToSizedBuffer_eq:
  assumes "length old = length (headerBytes h)"
  shows "MarshalHeaderToSizedBuffer h old = Inr (headerBytes h, length (headerBytes h))"
proof -
  let ?t = "timestampBytes (LocalTimestamp h)" and ?v = "of_nat (length (timestampBytes (LocalTimestamp h))) :: uint64"
  have v: "unat ?v = length ?t" using length_timestampBytes [of "LocalTimestamp h"] by (simp add: unat_of_nat)
  define a b where "a = take (Suc (length (varint (length ?t)))) old" and "b = drop (Suc (length (varint (length ?t)))) old"
  have ab: "old = a @ b" "length b = length ?t" "length a = Suc (length (varint (length ?t)))"
    using assms by (simp_all add: a_def b_def headerBytes_def)
  have m: "MarshalTimestampToSizedBuffer (LocalTimestamp h) old = Inr (a @ ?t, length ?t)"
    unfolding ab(1) by (rule MarshalTimestampToSizedBuffer_eq [OF ab(2)])
  have f: "fills (\<lambda>di. rbind (encodeVarint (fst di) (snd di) ?v) (putByte 0xa)) ([0xa] @ varint (unat ?v))"
    by (intro fills_bind fills_encodeVarint fills_putByte)
  have "rbind (encodeVarint (a @ ?t) (int (length old) - int (length ?t)) ?v) (putByte 0xa) =
      Inr ([0xa] @ varint (unat ?v) @ ?t, 0)"
    using fillsD [OF f, of a "[]" ?t] ab v by simp
  then show ?thesis unfolding MarshalHeaderToSizedBuffer_def m
    by (auto simp: headerBytes_def rbind_Inr_conv v ab split: prod.splits)
qed

subsection \<open>Round trips\<close>

lemma readVarint_tag:
  "b \<in> {0x8, 0x10, 0x18, 0xa} \<Longrightarrow> readVarint (pre @ b # post) (length pre) 0 (0 :: uint64) = Inr (ucast b, length pre + 1)"
  using readVarint_step [of 0 pre b post "0 :: uint64"] by auto

lemma readVarint_word:
  "n < 2 ^ 64 \<Longrightarrow> readVarint (pre @ b # varint n @ post) (Suc (length pre)) 0 0 =
    Inr (of_nat n :: 'a::len word, length (pre @ b # varint n))"
  using readVarint_eq [of n 0 "pre @ [b]" post "0 :: 'a word"] by simp

lemma unmarshal_WallTime:
  "n < 2 ^ 64 \<Longrightarrow> UnmarshalTimestampLoop (pre @ 8 # varint n @ post) (length pre) m =
    UnmarshalTimestampLoop ((pre @ 8 # varint n) @ post) (length (pre @ 8 # varint n)) (m\<lparr>WallTime := of_nat n\<rparr>)"
  by (subst UnmarshalTimestampLoop.simps) (simp add: readVarint_tag readVarint_word)

lemma unmarshal_Logical:
  "n < 2 ^ 64 \<Longrightarrow> UnmarshalTimestampLoop (pre @ 0x10 # varint n @ post) (length pre) m =
    UnmarshalTimestampLoop ((pre @ 0x10 # varint n) @ post) (length (pre @ 0x10 # varint n)) (m\<lparr>Logical := of_nat n\<rparr>)"
  by (subst UnmarshalTimestampLoop.simps) (simp add: readVarint_tag readVarint_word)

lemma unmarshal_end: "UnmarshalTimestampLoop d (length d) m = Inr m"
  by (subst UnmarshalTimestampLoop.simps) simp

lemma unmarshal_Synthetic:
  "UnmarshalTimestampLoop (pre @ [0x18, 1]) (length pre) m = Inr (m\<lparr>Synthetic := True\<rparr>)"
proof -
  have "varint 1 = [1]" by (subst varint.simps) simp
  then have "readVarint (pre @ [0x18, 1]) (Suc (length pre)) 0 (0 :: int64) = Inr (1, length (pre @ [0x18, 1 :: byte]))"
    using readVarint_word [of 1 pre "0x18" "[]", where ?'a = 64] by simp
  then show ?thesis using unmarshal_end [of "pre @ [0x18, 1]"]
    by (subst UnmarshalTimestampLoop.simps) (simp add: readVarint_tag)
qed

lemma UnmarshalTimestamp_eq:
  "UnmarshalTimestamp (timestampBytes m) emptyTimestamp = Inr m"
proof -
  let ?w = "if WallTime m \<noteq> 0 then 0x8 # varint (unat (WallTime m)) else []"
  let ?l = "if Logical m \<noteq> 0 then 0x10 # varint (unat (scast (Logical m) :: uint64)) else []"
  let ?s = "if Synthetic m then [0x18, 1] else []"
  have lt: "unat (x :: uint64) < 2 ^ 64" for x using unsigned_less [of x, where ?'a = nat] by simp
  have "UnmarshalTimestampLoop (?w @ ?l @ ?s) 0 emptyTimestamp =
      UnmarshalTimestampLoop (?w @ ?l @ ?s) (length ?w) (emptyTimestamp\<lparr>WallTime := WallTime m\<rparr>)"
    using unmarshal_WallTime [OF lt [of "WallTime m"], of "[]" "?l @ ?s" emptyTimestamp]
    by (cases "WallTime m = 0") (simp_all add: emptyTimestamp_def)
  also have "\<dots> = UnmarshalTimestampLoop (?w @ ?l @ ?s) (length (?w @ ?l))
      (emptyTimestamp\<lparr>WallTime := WallTime m, Logical := Logical m\<rparr>)"
  proof (cases "Logical m = 0")
    case False
    have "(of_nat (unat (scast (Logical m) :: uint64)) :: int32) = Logical m"
      by (rule bit_word_eqI) (simp add: bit_simps)
    then show ?thesis using unmarshal_Logical [OF lt [of "scast (Logical m)"], of ?w ?s "emptyTimestamp\<lparr>WallTime := WallTime m\<rparr>"] False by simp
  qed (simp add: emptyTimestamp_def)
  also have "\<dots> = Inr m"
  proof (cases "Synthetic m")
    case True
    then show ?thesis using unmarshal_Synthetic [of "?w @ ?l" "emptyTimestamp\<lparr>WallTime := WallTime m, Logical := Logical m\<rparr>"]
      by (simp add: emptyTimestamp_def)
  next
    case False
    then show ?thesis using unmarshal_end [of "?w @ ?l" "emptyTimestamp\<lparr>WallTime := WallTime m, Logical := Logical m\<rparr>"]
      by (simp add: emptyTimestamp_def)
  qed
  finally show ?thesis by (simp only: UnmarshalTimestamp_def timestampBytes_def)
qed

lemma sint_small: "k < 2 ^ 62 \<Longrightarrow> sint (of_nat k :: int64) = int k"
proof -
  assume k: "k < 2 ^ 62"
  have "(of_nat k :: int64) = word_of_int (int k)" by simp
  moreover have "signed_take_bit 63 (int k) = int k" using k by (intro signed_take_bit_int_eq_self) simp_all
  ultimately show ?thesis by (simp only: sint_sbintrunc') simp
qed

lemma UnmarshalHeader_eq: "UnmarshalHeader (headerBytes h) \<lparr>LocalTimestamp = emptyTimestamp\<rparr> = Inr h"
proof -
  let ?t = "timestampBytes (LocalTimestamp h)"
  have l: "length ?t < 2 ^ 64" "length ?t < 2 ^ 62" "length ?t < 2 ^ 60"
    using length_timestampBytes [of "LocalTimestamp h"] by simp_all
  note s = sint_small [OF l(2)]
  have v: "length (varint (length ?t)) = 1"
    using length_timestampBytes [of "LocalTimestamp h"] by (simp add: varint.simps [of "length ?t"])
  then have d: "drop 2 (headerBytes h) = ?t" "length (headerBytes h) = 2 + length ?t" by (simp_all add: headerBytes_def)
  have r: "readVarint (headerBytes h) 0 0 (0 :: uint64) = Inr (0xa, 1)"
    using readVarint_tag [of "0xa" "[]"] by (simp add: headerBytes_def)
  have r2: "readVarint (headerBytes h) 1 0 (0 :: int64) = Inr (of_nat (length ?t), 2)"
    using readVarint_word [OF l(1), of "[]" "0xa" ?t, where ?'a = 64] v by (simp add: headerBytes_def)
  have e: "UnmarshalHeaderLoop (headerBytes h) (2 + length ?t) m = Inr m" for m
    unfolding d(2) [symmetric] by (subst UnmarshalHeaderLoop.simps) simp
  have "UnmarshalHeaderLoop (headerBytes h) 0 \<lparr>LocalTimestamp = emptyTimestamp\<rparr> =
      UnmarshalHeaderLoop (headerBytes h) (2 + length ?t) \<lparr>LocalTimestamp = LocalTimestamp h\<rparr>"
    by (subst UnmarshalHeaderLoop.simps) (use l d in \<open>simp add: r r2 [unfolded One_nat_def] s UnmarshalTimestamp_eq\<close>)
  then show ?thesis unfolding UnmarshalHeader_def e by simp
qed

subsection \<open>Unmarshalling returns\<close>

lemma panics_rbind: "panics (rbind r f) \<longleftrightarrow> panics r \<or> (\<exists>x. r = Inr x \<and> panics (f x))"
proof (cases r)
  case (Inl e)
  then show ?thesis by (cases e) auto
qed auto

lemma readVarint_returns [simp]: "\<not> panics (readVarint d i shift v)"
proof (induction d i shift v rule: readVarint.induct)
  case (1 d i shift v)
  then show ?case by (subst readVarint.simps) (simp add: Let_def)
qed

lemma skipField_returns [simp]: "\<not> panics (skipField d i w depth)"
  by (auto simp: skipField_def panics_rbind)

lemma skip_returns [simp]: "\<not> panics (skipLoop d i depth)" "\<not> panics (skip d)"
proof -
  show r: "\<not> panics (skipLoop d i depth)" for i depth
  proof (induction d i depth rule: skipLoop.induct)
    case (1 d i depth)
    then show ?case by (subst skipLoop.simps) (auto simp: panics_rbind)
  qed
  show "\<not> panics (skip d)" using r by (simp add: skip_def)
qed

lemma UnmarshalTimestamp_returns [simp]: "\<not> panics (UnmarshalTimestamp d m)"
proof -
  have "\<not> panics (UnmarshalTimestampLoop d i m)" for i
  proof (induction d i m rule: UnmarshalTimestampLoop.induct)
    case (1 d i m)
    then show ?case by (subst UnmarshalTimestampLoop.simps) (auto simp: panics_rbind Let_def)
  qed
  then show ?thesis by (simp add: UnmarshalTimestamp_def)
qed

lemma UnmarshalHeader_returns [simp]: "\<not> panics (UnmarshalHeader d m)"
proof -
  have "\<not> panics (UnmarshalHeaderLoop d i m)" for i
  proof (induction d i m rule: UnmarshalHeaderLoop.induct)
    case (1 d i m)
    then show ?case by (subst UnmarshalHeaderLoop.simps) (auto simp: panics_rbind Let_def)
  qed
  then show ?thesis by (simp add: UnmarshalHeader_def)
qed

end
