(* ===== verification/Mvcc_Value.thy ===== *)
theory Mvcc_Value
  imports Proto_Wire
begin

text \<open>
  Versioned values (\<open>engine/pkg/storage/mvcc_value.go\<close>): a value with an optional header, encoded simply
  when the header is empty and with a length, a sentinel and the header in front otherwise.  The
  argument \<open>disableSimple\<close> is the variable \<open>disableSimpleValueEncoding\<close>, which only test builds set.
  The size of the header is a \<open>uint32\<close>, so the sum with the size of the prelude wraps around.
\<close>

subsection \<open>Values\<close>

abbreviation (input) extendedLenSize :: nat where "extendedLenSize \<equiv> 4"
abbreviation (input) tagPos :: nat where "tagPos \<equiv> 4"
abbreviation (input) extendedPreludeSize :: nat where "extendedPreludeSize \<equiv> 5"
abbreviation (input) extendedEncodingSentinel :: byte where "extendedEncodingSentinel \<equiv> 101"

record MVCCValue =
  ValueHeader :: MVCCValueHeader
  RawBytes :: bytes

definition noHeader :: MVCCValueHeader where
  "noHeader = \<lparr>LocalTimestamp = emptyTimestamp\<rparr>"

definition IsTombstone :: "MVCCValue \<Rightarrow> bool" where
  "IsTombstone v \<longleftrightarrow> length (RawBytes v) = 0"

definition LocalTimestampNeeded :: "MVCCValue \<Rightarrow> Timestamp \<Rightarrow> bool result" where
  "LocalTimestampNeeded v keyTS =
    (if IsEmpty (LocalTimestamp (ValueHeader v)) then Inr False
     else rbind (ClockToTimestamp (LocalTimestamp (ValueHeader v))) (\<lambda>ts. Inr (Less ts keyTS)))"

definition GetLocalTimestamp :: "MVCCValue \<Rightarrow> Timestamp \<Rightarrow> ClockTimestamp" where
  "GetLocalTimestamp v keyTS =
    (if IsEmpty (LocalTimestamp (ValueHeader v)) then (if Synthetic keyTS then MinTimestamp else keyTS)
     else LocalTimestamp (ValueHeader v))"

definition encodedMVCCValueSize :: "bool \<Rightarrow> MVCCValue \<Rightarrow> nat" where
  "encodedMVCCValueSize disableSimple v =
    (if headerIsEmpty (ValueHeader v) \<and> \<not> disableSimple then length (RawBytes v)
     else extendedPreludeSize + headerSize (ValueHeader v) + length (RawBytes v))"

definition EncodeMVCCValue :: "bool \<Rightarrow> MVCCValue \<Rightarrow> bytes result" where
  "EncodeMVCCValue disableSimple v =
    (if headerIsEmpty (ValueHeader v) \<and> \<not> disableSimple then Inr (RawBytes v)
     else
       let headerLen = headerSize (ValueHeader v) in
       rbind (MarshalHeaderToSizedBuffer (ValueHeader v) (replicate headerLen 0)) (\<lambda>(header, _).
         Inr (be_bytes 4 (of_nat headerLen :: uint32) @ [extendedEncodingSentinel] @ header @ RawBytes v)))"

definition tryDecodeSimpleMVCCValue :: "bytes \<Rightarrow> MVCCValue option result" where
  "tryDecodeSimpleMVCCValue buf =
    (if length buf = 0 then Inr (Some \<lparr>ValueHeader = noHeader, RawBytes = []\<rparr>)
     else if length buf \<le> tagPos then Inl (Errorf ''invalid encoded mvcc value, missing tag'')
     else if buf ! tagPos \<noteq> extendedEncodingSentinel then Inr (Some \<lparr>ValueHeader = noHeader, RawBytes = buf\<rparr>)
     else Inr None)"

definition decodeExtendedMVCCValue :: "bytes \<Rightarrow> MVCCValue result" where
  "decodeExtendedMVCCValue buf =
    (if length buf < 4 then Inl (Panic ''index out of range'')
     else
       let headerLen = (be_word (take 4 buf) :: uint32); headerSize = unat (5 + headerLen) in
       if length buf < headerSize then Inl (Errorf ''invalid encoded mvcc value, missing header'')
       else if headerSize < extendedPreludeSize then Inl (Panic ''slice bounds out of range'')
       else rbind (UnmarshalHeader (drop extendedPreludeSize (take headerSize buf)) noHeader) (\<lambda>h.
         Inr \<lparr>ValueHeader = h, RawBytes = drop headerSize buf\<rparr>))"

definition DecodeMVCCValue :: "bytes \<Rightarrow> MVCCValue result" where
  "DecodeMVCCValue buf =
     rbind (tryDecodeSimpleMVCCValue buf) (\<lambda>v. case v of Some x \<Rightarrow> Inr x | None \<Rightarrow> decodeExtendedMVCCValue buf)"

definition EncodedMVCCValueIsTombstone :: "bytes \<Rightarrow> bool result" where
  "EncodedMVCCValueIsTombstone buf =
    (if length buf = 0 then Inr True
     else if length buf \<le> tagPos then Inl (Errorf ''invalid encoded mvcc value, missing tag'')
     else if buf ! tagPos \<noteq> extendedEncodingSentinel then Inr False
     else
       let headerSize = unat (5 + (be_word (take 4 buf) :: uint32)) in
       if length buf < headerSize then Inl (Errorf ''invalid encoded mvcc value, missing header'')
       else Inr (length buf = headerSize))"

subsection \<open>Encoding and decoding\<close>

text \<open>The raw bytes of a value are empty, for a tombstone, or a checksum and a tag with data, where no tag
  is the sentinel.\<close>

definition raw_ok :: "bytes \<Rightarrow> bool" where
  "raw_ok raw \<longleftrightarrow> raw = [] \<or> (tagPos < length raw \<and> raw ! tagPos \<noteq> extendedEncodingSentinel)"

definition extended :: "MVCCValue \<Rightarrow> bytes" where
  "extended v = be_bytes 4 (of_nat (length (headerBytes (ValueHeader v))) :: uint32) @ [extendedEncodingSentinel] @
     headerBytes (ValueHeader v) @ RawBytes v"

lemma EncodeMVCCValue_eq:
  "EncodeMVCCValue disableSimple v =
    Inr (if headerIsEmpty (ValueHeader v) \<and> \<not> disableSimple then RawBytes v else extended v)"
  by (simp add: EncodeMVCCValue_def extended_def Let_def headerSize_eq MarshalHeaderToSizedBuffer_eq)

lemma encodedMVCCValueSize_eq:
  "EncodeMVCCValue disableSimple v = Inr buf \<Longrightarrow> encodedMVCCValueSize disableSimple v = length buf"
  by (auto simp: EncodeMVCCValue_eq encodedMVCCValueSize_def extended_def headerSize_eq split: if_splits)

lemma length_headerBytes: "length (headerBytes h) \<le> 26"
  using length_timestampBytes [of "LocalTimestamp h"] varint.simps [of "length (timestampBytes (LocalTimestamp h))"]
  by (simp add: headerBytes_def)

lemma extended_header:
  "unat (5 + (be_word (take 4 (extended v)) :: uint32)) = 5 + length (headerBytes (ValueHeader v))"
proof -
  let ?n = "length (headerBytes (ValueHeader v))"
  have "(be_word (take 4 (extended v)) :: uint32) = of_nat ?n" by (simp add: extended_def be_word_be_bytes unat_of_nat)
  moreover have "unat (5 + of_nat ?n :: uint32) = 5 + ?n"
    using length_headerBytes [of "ValueHeader v"] unat_of_nat [of "5 + ?n", where ?'a = 32] by simp
  ultimately show ?thesis by simp
qed

lemma extended_shape:
  "4 < length (extended v)" "extended v ! 4 = 101" "length (extended v) = 5 + length (headerBytes (ValueHeader v)) + length (RawBytes v)"
  by (simp_all add: extended_def nth_append)

lemma decode_extended: "decodeExtendedMVCCValue (extended v) = Inr v"
proof -
  let ?h = "headerBytes (ValueHeader v)"
  have "extended v = (be_bytes 4 (of_nat (length ?h) :: uint32) @ [101]) @ ?h @ RawBytes v" by (simp add: extended_def)
  then have d: "drop (5 + length ?h) (extended v) = RawBytes v" "drop 5 (take (5 + length ?h) (extended v)) = ?h" by simp_all
  show ?thesis using extended_shape [of v] UnmarshalHeader_eq [of "ValueHeader v"]
    by (simp add: decodeExtendedMVCCValue_def Let_def extended_header d noHeader_def del: drop_take)
qed

text \<open>An encoded value comes back as it was, except that an empty local timestamp loses its synthetic
  flag in the simple encoding.\<close>

lemma DecodeMVCCValue_roundtrip:
  assumes "raw_ok (RawBytes v)" "EncodeMVCCValue disableSimple v = Inr buf"
    "\<not> IsEmpty (LocalTimestamp (ValueHeader v)) \<or> ValueHeader v = noHeader"
  shows "DecodeMVCCValue buf = Inr v"
proof (cases "headerIsEmpty (ValueHeader v) \<and> \<not> disableSimple")
  case True
  then have "buf = RawBytes v" "ValueHeader v = noHeader" using assms by (auto simp: EncodeMVCCValue_eq headerIsEmpty_def)
  then show ?thesis using assms(1) by (cases v) (auto simp: DecodeMVCCValue_def tryDecodeSimpleMVCCValue_def raw_ok_def)
next
  case False
  then have "buf = extended v" using assms(2) by (auto simp: EncodeMVCCValue_eq)
  then show ?thesis using extended_shape [of v]
    by (auto simp: DecodeMVCCValue_def tryDecodeSimpleMVCCValue_def decode_extended)
qed

lemma EncodedMVCCValueIsTombstone_eq:
  assumes "raw_ok (RawBytes v)" "EncodeMVCCValue disableSimple v = Inr buf"
  shows "EncodedMVCCValueIsTombstone buf = Inr (IsTombstone v)"
proof (cases "headerIsEmpty (ValueHeader v) \<and> \<not> disableSimple")
  case True
  then have "buf = RawBytes v" using assms(2) by (auto simp: EncodeMVCCValue_eq)
  then show ?thesis using assms(1) by (auto simp: EncodedMVCCValueIsTombstone_def raw_ok_def IsTombstone_def)
next
  case False
  then have "buf = extended v" using assms(2) by (auto simp: EncodeMVCCValue_eq)
  then show ?thesis using extended_shape [of v]
    by (auto simp: EncodedMVCCValueIsTombstone_def Let_def extended_header IsTombstone_def)
qed

text \<open>C24: decoding a value never fails to return, and it panics on exactly the byte strings whose announced
  header length is within the prelude of \<open>2 ^ 32\<close>; every other malformed value is an error.\<close>

theorem mvcc_value_decode_total:
  "panics (DecodeMVCCValue buf) \<longleftrightarrow>
    tagPos < length buf \<and> buf ! tagPos = extendedEncodingSentinel \<and> 2 ^ 32 - 5 \<le> be_val (take 4 buf)"
proof (cases "tagPos < length buf \<and> buf ! tagPos = extendedEncodingSentinel")
  case True
  let ?w = "be_word (take 4 buf) :: uint32"
  have v: "unat ?w = be_val (take 4 buf)" using be_val_bound [of "take 4 buf"] True
    by (simp add: be_word_be_val unat_of_nat)
  have lt: "be_val (take 4 buf) < 2 ^ 32" using be_val_bound [of "take 4 buf"] True by simp
  have s: "unat (5 + ?w) = (5 + be_val (take 4 buf)) mod 2 ^ 32" by (simp add: unat_word_ariths v)
  have "unat (5 + ?w) < 5 \<longleftrightarrow> 2 ^ 32 - 5 \<le> be_val (take 4 buf)"
    unfolding s using lt by (cases "5 + be_val (take 4 buf) < 2 ^ 32") (auto simp: le_mod_geq mod_if)
  moreover have "panics (DecodeMVCCValue buf) \<longleftrightarrow> unat (5 + ?w) < 5"
    using True by (auto simp: DecodeMVCCValue_def tryDecodeSimpleMVCCValue_def decodeExtendedMVCCValue_def Let_def panics_rbind)
  ultimately show ?thesis using True by simp
next
  case False
  then show ?thesis by (auto simp: DecodeMVCCValue_def tryDecodeSimpleMVCCValue_def)
qed

text \<open>C23: encoding a value, simply or with its header, and decoding it gives the value back, the size
  computed in advance is the size of the encoding, and the tombstone test on the encoded bytes
  agrees with the test on the value.\<close>

theorem mvcc_value_roundtrip:
  assumes "raw_ok (RawBytes v)" "\<not> IsEmpty (LocalTimestamp (ValueHeader v)) \<or> ValueHeader v = noHeader"
  shows "\<exists>buf. EncodeMVCCValue disableSimple v = Inr buf \<and> DecodeMVCCValue buf = Inr v \<and>
    encodedMVCCValueSize disableSimple v = length buf \<and> EncodedMVCCValueIsTombstone buf = Inr (IsTombstone v)"
proof -
  obtain buf where e: "EncodeMVCCValue disableSimple v = Inr buf" by (simp add: EncodeMVCCValue_eq)
  show ?thesis
    using e DecodeMVCCValue_roundtrip [OF assms(1) e assms(2)] encodedMVCCValueSize_eq [OF e]
      EncodedMVCCValueIsTombstone_eq [OF assms(1) e] by blast
qed

theorem mvcc_value_roundtrip_witness:
  "\<exists>buf. EncodeMVCCValue False \<lparr>ValueHeader = \<lparr>LocalTimestamp = MaxTimestamp\<rparr>, RawBytes = []\<rparr> = Inr buf \<and>
    DecodeMVCCValue buf = Inr \<lparr>ValueHeader = \<lparr>LocalTimestamp = MaxTimestamp\<rparr>, RawBytes = []\<rparr> \<and>
    encodedMVCCValueSize False \<lparr>ValueHeader = \<lparr>LocalTimestamp = MaxTimestamp\<rparr>, RawBytes = []\<rparr> = length buf \<and>
    EncodedMVCCValueIsTombstone buf = Inr (IsTombstone \<lparr>ValueHeader = \<lparr>LocalTimestamp = MaxTimestamp\<rparr>, RawBytes = []\<rparr>)"
  by (rule mvcc_value_roundtrip) (simp_all add: raw_ok_def IsEmpty_def MaxTimestamp_def)

end
