(* ===== verification/Mvcc_Meta.thy ===== *)
theory Mvcc_Meta
  imports Hlc "HOL-Library.Signed_Division"
begin

text \<open>
  \<open>engine/pkg/storage/enginepb/mvcc.go\<close>: range statistics with their ages, the ignored sequence
  number ranges of a transaction, and the intent history of a provisional value.  \<open>sort.Search\<close> of the
  standard library is written out, with what it finds on a sorted slice.  Statistics are \<open>int64\<close>
  and wrap; sequence numbers are \<open>int32\<close>.
\<close>

subsection \<open>Binary search\<close>

function searchLoop :: "(nat \<Rightarrow> bool) \<Rightarrow> nat \<Rightarrow> nat \<Rightarrow> nat" where
  "searchLoop f i j =
    (if i < j then
       let h = (i + j) div 2 in
       if \<not> f h then searchLoop f (h + 1) j else searchLoop f i h
     else i)"
  by pat_completeness auto
termination
  by (relation "measure (\<lambda>(f, i, j). j - i)") auto

declare searchLoop.simps [simp del]

definition sort_Search :: "nat \<Rightarrow> (nat \<Rightarrow> bool) \<Rightarrow> nat" where
  "sort_Search n f = searchLoop f 0 n"

lemma searchLoop_end: "\<not> i < j \<Longrightarrow> searchLoop f i j = i"
  by (simp add: searchLoop.simps)

lemma searchLoop_bounds: "i \<le> j \<Longrightarrow> i \<le> searchLoop f i j \<and> searchLoop f i j \<le> j"
proof (induction "j - i" arbitrary: i j rule: less_induct)
  case less
  show ?case
  proof (cases "i < j")
    case True
    define h where "h = (i + j) div 2"
    have h: "i \<le> h" "h < j" using True by (auto simp: h_def)
    have "searchLoop f i j = (if \<not> f h then searchLoop f (h + 1) j else searchLoop f i h)"
      using True by (simp add: searchLoop.simps [of f i j] h_def)
    moreover have "h + 1 \<le> searchLoop f (h + 1) j \<and> searchLoop f (h + 1) j \<le> j"
      using h by (intro less.hyps) auto
    moreover have "i \<le> searchLoop f i h \<and> searchLoop f i h \<le> h"
      using h by (intro less.hyps) auto
    ultimately show ?thesis using h by auto
  qed (use less.prems in \<open>simp add: searchLoop_end\<close>)
qed

lemma sort_Search_le: "sort_Search n f \<le> n"
  using searchLoop_bounds [of 0 n f] by (simp add: sort_Search_def)

text \<open>On a predicate that stays true once it holds, the search returns the first index at which it
  does.\<close>

lemma searchLoop_first:
  assumes "\<And>a b. a \<le> b \<Longrightarrow> b < n \<Longrightarrow> f a \<Longrightarrow> f b"
  shows "i \<le> j \<Longrightarrow> j \<le> n \<Longrightarrow> (\<forall>k < i. \<not> f k) \<Longrightarrow> (\<forall>k. j \<le> k \<longrightarrow> k < n \<longrightarrow> f k) \<Longrightarrow>
    (\<forall>k < searchLoop f i j. \<not> f k) \<and> (\<forall>k. searchLoop f i j \<le> k \<longrightarrow> k < n \<longrightarrow> f k)"
proof (induction "j - i" arbitrary: i j rule: less_induct)
  case less
  show ?case
  proof (cases "i < j")
    case True
    define h where "h = (i + j) div 2"
    have h: "i \<le> h" "h < j" using True by (auto simp: h_def)
    have step: "searchLoop f i j = (if \<not> f h then searchLoop f (h + 1) j else searchLoop f i h)"
      using True by (simp add: searchLoop.simps [of f i j] h_def)
    show ?thesis
    proof (cases "f h")
      case f: True
      have up: "\<forall>k. h \<le> k \<longrightarrow> k < n \<longrightarrow> f k" using assms f by blast
      show ?thesis unfolding step using f
        by (simp only: not_True_eq_False if_False) (rule less.hyps, use h less.prems up in auto)
    next
      case f: False
      have dn: "\<forall>k < h + 1. \<not> f k"
      proof (intro allI impI notI)
        fix k assume "k < h + 1" "f k"
        then show False using assms [of k h] f h less.prems(2) by auto
      qed
      show ?thesis unfolding step using f
        by (simp only: not_False_eq_True if_True) (rule less.hyps, use h less.prems dn in auto)
    qed
  qed (use less.prems in \<open>simp add: searchLoop_end\<close>)
qed

lemma sort_Search_first:
  assumes "\<And>a b. a \<le> b \<Longrightarrow> b < n \<Longrightarrow> f a \<Longrightarrow> f b"
  shows "\<forall>k < sort_Search n f. \<not> f k" "\<forall>k. sort_Search n f \<le> k \<longrightarrow> k < n \<longrightarrow> f k"
  using searchLoop_first [of n f 0 n] assms by (auto simp: sort_Search_def)

text \<open>On a slice sorted by \<open>key\<close>, searching for the first element at or after \<open>k\<close> splits it into the
  elements before \<open>k\<close> and the others.\<close>

lemma sort_Search_split:
  fixes key :: "'a \<Rightarrow> 'b :: linorder"
  assumes "sorted (map key xs)" "n \<le> length xs"
  shows "take (sort_Search n (\<lambda>i. k \<le> key (xs ! i))) (take n xs) = filter (\<lambda>x. key x < k) (take n xs)"
    "drop (sort_Search n (\<lambda>i. k \<le> key (xs ! i))) (take n xs) = filter (\<lambda>x. k \<le> key x) (take n xs)"
proof -
  define f where "f = (\<lambda>i. k \<le> key (xs ! i))"
  define r where "r = sort_Search n f"
  have mono: "f b" if "a \<le> b" "b < n" "f a" for a b
  proof -
    have "key (xs ! a) \<le> key (xs ! b)" using sorted_nth_mono [OF assms(1) that(1)] that assms(2) by simp
    with \<open>f a\<close> show ?thesis unfolding f_def by (rule order_trans)
  qed
  have first: "\<forall>i < r. \<not> f i" "\<forall>i. r \<le> i \<longrightarrow> i < n \<longrightarrow> f i"
    using sort_Search_first [of n f] mono unfolding r_def by blast+
  have le: "r \<le> n" unfolding r_def by (rule sort_Search_le)
  have lo: "key x < k" if mem: "x \<in> set (take r (take n xs))" for x
  proof -
    obtain i where "i < r" "x = xs ! i" using mem le assms(2) by (auto simp: in_set_conv_nth)
    then show ?thesis using first(1) unfolding f_def by force
  qed
  have hi: "k \<le> key x" if mem: "x \<in> set (drop r (take n xs))" for x
  proof -
    have "\<exists>i. r \<le> i \<and> i < n \<and> x = xs ! i"
    proof -
      obtain j where j: "j < n - r" "x = drop r (take n xs) ! j"
        using mem le assms(2) by (auto simp: in_set_conv_nth)
      then have "x = xs ! (r + j)" using le assms(2) by simp
      with j show ?thesis by (intro exI [of _ "r + j"]) simp
    qed
    then show ?thesis using first(2) unfolding f_def by blast
  qed
  have split: "filter P (take n xs) = filter P (take r (take n xs)) @ filter P (drop r (take n xs))" for P
    by (metis append_take_drop_id filter_append)
  have "filter (\<lambda>x. key x < k) (take r (take n xs)) = take r (take n xs)"
    "filter (\<lambda>x. key x < k) (drop r (take n xs)) = []"
    using lo hi by (meson filter_True, meson filter_False leD)
  then have t: "take r (take n xs) = filter (\<lambda>x. key x < k) (take n xs)" unfolding split [of "\<lambda>x. key x < k"] by simp
  have "filter (\<lambda>x. k \<le> key x) (take r (take n xs)) = []"
    "filter (\<lambda>x. k \<le> key x) (drop r (take n xs)) = drop r (take n xs)"
    using lo hi by (meson filter_False leD, meson filter_True)
  then have d: "drop r (take n xs) = filter (\<lambda>x. k \<le> key x) (take n xs)" unfolding split [of "\<lambda>x. k \<le> key x"] by simp
  show "take (sort_Search n (\<lambda>i. k \<le> key (xs ! i))) (take n xs) = filter (\<lambda>x. key x < k) (take n xs)"
    "drop (sort_Search n (\<lambda>i. k \<le> key (xs ! i))) (take n xs) = filter (\<lambda>x. k \<le> key x) (take n xs)"
    using t d unfolding r_def f_def by blast+
qed

subsection \<open>Slices read by binary search\<close>

text \<open>Go code keeps small maps as slices in the order of a signed key and reads them with
  \<open>sort.Search\<close>.  Such a lookup is the map of the slice, and inserting or overwriting at the index
  the search returns is an update of that map.\<close>

locale searched_slice =
  fixes key :: "'a \<Rightarrow> 'k::len word" and val :: "'a \<Rightarrow> 'v" and lookup :: "'a list \<Rightarrow> 'k word \<Rightarrow> 'v option"
  assumes lookup_search: "lookup xs k =
    (let i = sort_Search (length xs) (\<lambda>i. sint k \<le> sint (key (xs ! i))) in
     if i < length xs \<and> key (xs ! i) = k then Some (val (xs ! i)) else None)"
begin

definition index :: "'a list \<Rightarrow> 'k word \<Rightarrow> nat" where
  "index xs k = sort_Search (length xs) (\<lambda>i. sint k \<le> sint (key (xs ! i)))"

definition ordered :: "'a list \<Rightarrow> bool" where
  "ordered xs \<longleftrightarrow> sorted_wrt (<) (map (\<lambda>e. sint (key e)) xs)"

definition assoc :: "'a list \<Rightarrow> 'k word \<Rightarrow> 'v option" where
  "assoc xs = map_of (map (\<lambda>e. (key e, val e)) xs)"

lemma assoc_None: "assoc xs k = None \<longleftrightarrow> k \<notin> key ` set xs"
  by (simp add: assoc_def map_of_eq_None_iff image_image)

lemma assoc_append: "assoc (xs @ ys) k = (case assoc xs k of None \<Rightarrow> assoc ys k | Some v \<Rightarrow> Some v)"
  by (simp add: assoc_def map_add_def split: option.split)

lemma assoc_Cons [simp]: "assoc (x # xs) k = (if k = key x then Some (val x) else assoc xs k)"
  by (simp add: assoc_def)

lemma assoc_Nil [simp]: "assoc [] k = None"
  by (simp add: assoc_def)

lemma ordered_split:
  assumes "ordered xs"
  shows "\<forall>e \<in> set (take (index xs k) xs). sint (key e) < sint k"
    "\<forall>e \<in> set (drop (index xs k) xs). sint k \<le> sint (key e)"
proof -
  have "sorted (map (\<lambda>e. sint (key e)) xs)" using assms unfolding ordered_def by (rule strict_sorted_imp_sorted)
  then have "take (index xs k) xs = filter (\<lambda>e. sint (key e) < sint k) xs"
    "drop (index xs k) xs = filter (\<lambda>e. sint k \<le> sint (key e)) xs"
    using sort_Search_split [of "\<lambda>e. sint (key e)" xs "length xs" "sint k"] by (simp_all add: index_def)
  then show "\<forall>e \<in> set (take (index xs k) xs). sint (key e) < sint k"
    "\<forall>e \<in> set (drop (index xs k) xs). sint k \<le> sint (key e)" by auto
qed

lemma ordered_append:
  "ordered (xs @ ys) \<longleftrightarrow> ordered xs \<and> ordered ys \<and> (\<forall>x \<in> set xs. \<forall>y \<in> set ys. sint (key x) < sint (key y))"
  by (auto simp: ordered_def sorted_wrt_append)

lemma ordered_Cons [simp]: "ordered (x # xs) \<longleftrightarrow> (\<forall>y \<in> set xs. sint (key x) < sint (key y)) \<and> ordered xs"
  by (auto simp: ordered_def)

lemma ordered_Nil [simp]: "ordered []"
  by (simp add: ordered_def)

text \<open>The slice cut at the index of a key that is there, and of one that is not.\<close>

lemma index_found:
  assumes "ordered xs" "index xs k < length xs \<and> key (xs ! index xs k) = k"
  shows "xs = take (index xs k) xs @ xs ! index xs k # drop (Suc (index xs k)) xs"
    "k \<notin> key ` set (take (index xs k) xs)"
  using assms(2) id_take_nth_drop [of "index xs k" xs] ordered_split(1) [OF assms(1), of k] by auto

lemma index_missing:
  assumes ord: "ordered xs" and no: "\<not> (index xs k < length xs \<and> key (xs ! index xs k) = k)"
  shows "\<forall>e \<in> set (drop (index xs k) xs). sint k < sint (key e)"
proof (cases "index xs k < length xs")
  case True
  have dr: "drop (index xs k) xs = xs ! index xs k # drop (Suc (index xs k)) xs"
    by (rule Cons_nth_drop_Suc [OF True, symmetric])
  have "sint k \<noteq> sint (key (xs ! index xs k))" using no True by (simp add: sint_eq_iff)
  then have lt: "sint k < sint (key (xs ! index xs k))" using ordered_split(2) [OF ord, of k] dr by auto
  moreover have "ordered (drop (index xs k) xs)"
    using ord ordered_append [of "take (index xs k) xs" "drop (index xs k) xs"] by simp
  ultimately show ?thesis unfolding dr by auto
qed simp

lemma lookup_assoc: "ordered xs \<Longrightarrow> lookup xs k = assoc xs k"
proof -
  assume ord: "ordered xs"
  have look: "lookup xs k = (if index xs k < length xs \<and> key (xs ! index xs k) = k then Some (val (xs ! index xs k)) else None)"
    by (simp add: lookup_search index_def Let_def)
  show ?thesis
  proof (cases "index xs k < length xs \<and> key (xs ! index xs k) = k")
    case True
    have "assoc (take (index xs k) xs) k = None" using index_found(2) [OF ord True] by (simp add: assoc_None)
    then have "assoc (take (index xs k) xs @ xs ! index xs k # drop (Suc (index xs k)) xs) k = Some (val (xs ! index xs k))"
      using True by (simp add: assoc_append)
    then show ?thesis using True look index_found(1) [OF ord True] by simp
  next
    case False
    have "key e \<noteq> k" if mem: "e \<in> set (take (index xs k) xs) \<union> set (drop (index xs k) xs)" for e
      using mem ordered_split(1) [OF ord, of k] index_missing [OF ord False] by auto
    then have "k \<notin> key ` set xs" by (metis append_take_drop_id imageE set_append)
    then have "assoc xs k = None" by (simp add: assoc_None)
    then show ?thesis using False look by simp
  qed
qed

lemma lookup_insert:
  assumes ord: "ordered xs" and no: "\<not> (index xs (key e) < length xs \<and> key (xs ! index xs (key e)) = key e)"
  shows "ordered (take (index xs (key e)) xs @ e # drop (index xs (key e)) xs)"
    "lookup (take (index xs (key e)) xs @ e # drop (index xs (key e)) xs) = (lookup xs)(key e \<mapsto> val e)"
proof -
  let ?i = "index xs (key e)"
  have split: "ordered (take ?i xs) \<and> ordered (drop ?i xs) \<and> (\<forall>x \<in> set (take ?i xs). \<forall>y \<in> set (drop ?i xs). sint (key x) < sint (key y))"
    using ord ordered_append [of "take ?i xs" "drop ?i xs"] by simp
  then show ord': "ordered (take ?i xs @ e # drop ?i xs)"
    using ordered_split(1) [OF ord, of "key e"] index_missing [OF ord no] by (auto simp: ordered_append)
  have "assoc (take ?i xs) (key e) = None" using ordered_split(1) [OF ord, of "key e"] by (auto simp: assoc_None)
  then have "assoc (take ?i xs @ e # drop ?i xs) k = ((assoc (take ?i xs @ drop ?i xs))(key e \<mapsto> val e)) k" for k
    by (simp add: assoc_append del: append_take_drop_id split: option.split)
  then show "lookup (take ?i xs @ e # drop ?i xs) = (lookup xs)(key e \<mapsto> val e)"
    by (simp add: fun_eq_iff lookup_assoc [OF ord] lookup_assoc [OF ord'])
qed

lemma lookup_overwrite:
  assumes ord: "ordered xs" and yes: "index xs (key e) < length xs \<and> key (xs ! index xs (key e)) = key e"
  shows "ordered (xs[index xs (key e) := e])" "lookup (xs[index xs (key e) := e]) = (lookup xs)(key e \<mapsto> val e)"
proof -
  let ?i = "index xs (key e)"
  let ?a = "take ?i xs" and ?x = "xs ! ?i" and ?b = "drop (Suc ?i) xs"
  have xs: "xs = ?a @ ?x # ?b" and none: "assoc ?a (key e) = None"
    using index_found [OF ord yes] by (simp_all add: assoc_None)
  have upd: "xs[?i := e] = ?a @ e # ?b" using yes by (simp add: upd_conv_take_nth_drop)
  have "ordered (?a @ ?x # ?b)" using ord xs by simp
  then show ord': "ordered (xs[?i := e])" unfolding upd using yes by (auto simp: ordered_append)
  have "assoc (?a @ e # ?b) k = ((assoc (?a @ ?x # ?b))(key e \<mapsto> val e)) k" for k
    using none yes by (simp add: assoc_append split: option.split)
  then show "lookup (xs[?i := e]) = (lookup xs)(key e \<mapsto> val e)"
    using xs ord' by (simp add: fun_eq_iff lookup_assoc ord upd)
qed

lemma lookup_snoc:
  assumes "ordered xs" "\<forall>x \<in> set xs. sint (key x) < sint (key e)"
  shows "ordered (xs @ [e])" "lookup (xs @ [e]) = (lookup xs)(key e \<mapsto> val e)"
proof -
  show ord: "ordered (xs @ [e])" using assms by (simp add: ordered_append)
  have "assoc xs (key e) = None" using assms(2) by (auto simp: assoc_None)
  then have "assoc (xs @ [e]) k = ((assoc xs)(key e \<mapsto> val e)) k" for k
    by (simp add: assoc_append split: option.split)
  then show "lookup (xs @ [e]) = (lookup xs)(key e \<mapsto> val e)"
    by (simp add: fun_eq_iff lookup_assoc [OF assms(1)] lookup_assoc [OF ord])
qed

end

subsection \<open>Range statistics\<close>

record MVCCStats =
  ContainsEstimates :: int64
  LastUpdateNanos :: int64
  IntentAge :: int64
  GCBytesAge :: int64
  LiveBytes :: int64
  LiveCount :: int64
  KeyBytes :: int64
  KeyCount :: int64
  ValBytes :: int64
  ValCount :: int64
  IntentBytes :: int64
  IntentCount :: int64
  SeparatedIntentCount :: int64
  RangeKeyCount :: int64
  RangeKeyBytes :: int64
  RangeValCount :: int64
  RangeValBytes :: int64
  SysBytes :: int64
  SysCount :: int64
  AbortSpanBytes :: int64

definition Total :: "MVCCStats \<Rightarrow> int64" where
  "Total ms = KeyBytes ms + ValBytes ms + RangeKeyBytes ms + RangeValBytes ms"

definition GCBytes :: "MVCCStats \<Rightarrow> int64" where
  "GCBytes ms = Total ms - LiveBytes ms"

definition HasNoUserData :: "MVCCStats \<Rightarrow> bool" where
  "HasNoUserData ms \<longleftrightarrow>
     ContainsEstimates ms = 0 \<and> RangeKeyCount ms = 0 \<and> KeyCount ms = 0 \<and> IntentCount ms = 0"

text \<open>Whole seconds of a nanosecond timestamp; Go's division truncates.\<close>

definition seconds :: "int64 \<Rightarrow> int64" where
  "seconds nanos = word_of_int (sint nanos sdiv 1000000000)"

definition AgeTo :: "MVCCStats \<Rightarrow> int64 \<Rightarrow> MVCCStats" where
  "AgeTo ms nowNanos =
    (let diffSeconds = seconds nowNanos - seconds (LastUpdateNanos ms) in
     ms\<lparr>GCBytesAge := GCBytesAge ms + GCBytes ms * diffSeconds,
        IntentAge := IntentAge ms + IntentCount ms * diffSeconds,
        LastUpdateNanos := nowNanos\<rparr>)"

definition StatsForward :: "MVCCStats \<Rightarrow> int64 \<Rightarrow> MVCCStats" where
  "StatsForward ms nowNanos =
    (if sint (LastUpdateNanos ms) \<ge> sint nowNanos then ms else AgeTo ms nowNanos)"

definition GCByteAge :: "MVCCStats \<Rightarrow> int64 \<Rightarrow> int64" where
  "GCByteAge ms nowNanos = GCBytesAge (AgeTo ms nowNanos)"

definition StatsAdd :: "MVCCStats \<Rightarrow> MVCCStats \<Rightarrow> MVCCStats" where
  "StatsAdd ms0 oms0 =
    (let ms = StatsForward ms0 (LastUpdateNanos oms0);
         oms = StatsForward oms0 (LastUpdateNanos ms)
     in \<lparr>ContainsEstimates = ContainsEstimates ms + ContainsEstimates oms,
         LastUpdateNanos = LastUpdateNanos ms,
         IntentAge = IntentAge ms + IntentAge oms,
         GCBytesAge = GCBytesAge ms + GCBytesAge oms,
         LiveBytes = LiveBytes ms + LiveBytes oms,
         LiveCount = LiveCount ms + LiveCount oms,
         KeyBytes = KeyBytes ms + KeyBytes oms,
         KeyCount = KeyCount ms + KeyCount oms,
         ValBytes = ValBytes ms + ValBytes oms,
         ValCount = ValCount ms + ValCount oms,
         IntentBytes = IntentBytes ms + IntentBytes oms,
         IntentCount = IntentCount ms + IntentCount oms,
         SeparatedIntentCount = SeparatedIntentCount ms + SeparatedIntentCount oms,
         RangeKeyCount = RangeKeyCount ms + RangeKeyCount oms,
         RangeKeyBytes = RangeKeyBytes ms + RangeKeyBytes oms,
         RangeValCount = RangeValCount ms + RangeValCount oms,
         RangeValBytes = RangeValBytes ms + RangeValBytes oms,
         SysBytes = SysBytes ms + SysBytes oms,
         SysCount = SysCount ms + SysCount oms,
         AbortSpanBytes = AbortSpanBytes ms + AbortSpanBytes oms\<rparr>)"

definition StatsSubtract :: "MVCCStats \<Rightarrow> MVCCStats \<Rightarrow> MVCCStats" where
  "StatsSubtract ms0 oms0 =
    (let ms = StatsForward ms0 (LastUpdateNanos oms0);
         oms = StatsForward oms0 (LastUpdateNanos ms)
     in \<lparr>ContainsEstimates = ContainsEstimates ms - ContainsEstimates oms,
         LastUpdateNanos = LastUpdateNanos ms,
         IntentAge = IntentAge ms - IntentAge oms,
         GCBytesAge = GCBytesAge ms - GCBytesAge oms,
         LiveBytes = LiveBytes ms - LiveBytes oms,
         LiveCount = LiveCount ms - LiveCount oms,
         KeyBytes = KeyBytes ms - KeyBytes oms,
         KeyCount = KeyCount ms - KeyCount oms,
         ValBytes = ValBytes ms - ValBytes oms,
         ValCount = ValCount ms - ValCount oms,
         IntentBytes = IntentBytes ms - IntentBytes oms,
         IntentCount = IntentCount ms - IntentCount oms,
         SeparatedIntentCount = SeparatedIntentCount ms - SeparatedIntentCount oms,
         RangeKeyCount = RangeKeyCount ms - RangeKeyCount oms,
         RangeKeyBytes = RangeKeyBytes ms - RangeKeyBytes oms,
         RangeValCount = RangeValCount ms - RangeValCount oms,
         RangeValBytes = RangeValBytes ms - RangeValBytes oms,
         SysBytes = SysBytes ms - SysBytes oms,
         SysCount = SysCount ms - SysCount oms,
         AbortSpanBytes = AbortSpanBytes ms - AbortSpanBytes oms\<rparr>)"

subsection \<open>Ignored sequence numbers and the intent history\<close>

type_synonym TxnSeq = int32

record IgnoredSeqNumRange =
  Start :: TxnSeq
  End :: TxnSeq

text \<open>The loop runs from the last range to the first.\<close>

fun TxnSeqIsIgnoredLoop :: "TxnSeq \<Rightarrow> IgnoredSeqNumRange list \<Rightarrow> bool" where
  "TxnSeqIsIgnoredLoop seq [] = False"
| "TxnSeqIsIgnoredLoop seq (r # rs) =
    (if sint seq < sint (Start r) then TxnSeqIsIgnoredLoop seq rs
     else if sint seq > sint (End r) then False
     else True)"

definition TxnSeqIsIgnored :: "TxnSeq \<Rightarrow> IgnoredSeqNumRange list \<Rightarrow> bool" where
  "TxnSeqIsIgnored seq ignored = TxnSeqIsIgnoredLoop seq (rev ignored)"

record SequencedIntent =
  ISequence :: TxnSeq
  IValue :: bytes

definition AddToIntentHistory :: "SequencedIntent list \<Rightarrow> TxnSeq \<Rightarrow> bytes \<Rightarrow> SequencedIntent list" where
  "AddToIntentHistory history seq val = history @ [\<lparr>ISequence = seq, IValue = val\<rparr>]"

function GetPrevIntentSeqLoop ::
    "SequencedIntent list \<Rightarrow> TxnSeq \<Rightarrow> IgnoredSeqNumRange list \<Rightarrow> nat \<Rightarrow> SequencedIntent option" where
  "GetPrevIntentSeqLoop history seq ignored end' =
    (let index = sort_Search end' (\<lambda>i. sint seq \<le> sint (ISequence (history ! i))) in
     if index = 0 then None
     else
       let candidate = index - 1 in
       if TxnSeqIsIgnored (ISequence (history ! candidate)) ignored
       then GetPrevIntentSeqLoop history seq ignored candidate
       else Some (history ! candidate))"
  by pat_completeness auto
termination
proof (relation "measure (\<lambda>(h, s, g, e). e)")
  fix seq end' index candidate and history :: "SequencedIntent list" and ignored :: "IgnoredSeqNumRange list"
  assume "index = sort_Search end' (\<lambda>i. sint seq \<le> sint (ISequence (history ! i)))" "index \<noteq> 0" "candidate = index - 1"
  then show "((history, seq, ignored, candidate), history, seq, ignored, end') \<in> measure (\<lambda>(h, s, g, e). e)"
    using sort_Search_le [of end' "\<lambda>i. sint seq \<le> sint (ISequence (history ! i))"] by simp
qed simp

declare GetPrevIntentSeqLoop.simps [simp del]

definition GetPrevIntentSeq ::
    "SequencedIntent list \<Rightarrow> TxnSeq \<Rightarrow> IgnoredSeqNumRange list \<Rightarrow> SequencedIntent option" where
  "GetPrevIntentSeq history seq ignored = GetPrevIntentSeqLoop history seq ignored (length history)"

definition GetIntentValue :: "SequencedIntent list \<Rightarrow> TxnSeq \<Rightarrow> bytes option" where
  "GetIntentValue history seq =
    (let index = sort_Search (length history) (\<lambda>i. sint seq \<le> sint (ISequence (history ! i))) in
     if index < length history \<and> ISequence (history ! index) = seq
     then Some (IValue (history ! index)) else None)"

subsection \<open>Ages and sums\<close>

text \<open>Ageing in two steps is ageing in one, with wrap-around: the seconds telescope and what they
  are multiplied with does not change.\<close>

lemma AgeTo_AgeTo: "AgeTo (AgeTo ms a) b = AgeTo ms b"
  by (cases ms) (simp add: AgeTo_def Let_def GCBytes_def Total_def algebra_simps)

lemma AgeTo_self: "AgeTo ms (LastUpdateNanos ms) = ms"
  by (cases ms) (simp add: AgeTo_def Let_def)

lemma AgeTo_last [simp]: "LastUpdateNanos (AgeTo ms a) = a"
  by (simp add: AgeTo_def Let_def)

definition later :: "int64 \<Rightarrow> int64 \<Rightarrow> int64" where
  "later a b = (if sint b \<le> sint a then a else b)"

lemma StatsForward_AgeTo: "StatsForward ms b = AgeTo ms (later (LastUpdateNanos ms) b)"
  by (simp add: StatsForward_def later_def AgeTo_self)

lemma later_simps [simp]: "later a a = a" "later b (later a b) = later a b" "later (later a b) b = later a b"
  "later a (later a b) = later a b"
  by (auto simp: later_def sint_eq_iff [symmetric])

lemma later_comm: "later a b = later b a"
  by (auto simp: later_def sint_eq_iff [symmetric])

lemma later_assoc: "later (later a b) c = later a (later b c)"
  by (auto simp: later_def)

text \<open>The sum and the difference of statistics of the same time.\<close>

definition stats_plus :: "MVCCStats \<Rightarrow> MVCCStats \<Rightarrow> MVCCStats" where
  "stats_plus a b =
    \<lparr>ContainsEstimates = ContainsEstimates a + ContainsEstimates b,
     LastUpdateNanos = LastUpdateNanos a, IntentAge = IntentAge a + IntentAge b,
     GCBytesAge = GCBytesAge a + GCBytesAge b, LiveBytes = LiveBytes a + LiveBytes b,
     LiveCount = LiveCount a + LiveCount b, KeyBytes = KeyBytes a + KeyBytes b,
     KeyCount = KeyCount a + KeyCount b, ValBytes = ValBytes a + ValBytes b,
     ValCount = ValCount a + ValCount b, IntentBytes = IntentBytes a + IntentBytes b,
     IntentCount = IntentCount a + IntentCount b,
     SeparatedIntentCount = SeparatedIntentCount a + SeparatedIntentCount b,
     RangeKeyCount = RangeKeyCount a + RangeKeyCount b,
     RangeKeyBytes = RangeKeyBytes a + RangeKeyBytes b,
     RangeValCount = RangeValCount a + RangeValCount b,
     RangeValBytes = RangeValBytes a + RangeValBytes b, SysBytes = SysBytes a + SysBytes b,
     SysCount = SysCount a + SysCount b, AbortSpanBytes = AbortSpanBytes a + AbortSpanBytes b\<rparr>"

definition stats_minus :: "MVCCStats \<Rightarrow> MVCCStats \<Rightarrow> MVCCStats" where
  "stats_minus a b =
    \<lparr>ContainsEstimates = ContainsEstimates a - ContainsEstimates b,
     LastUpdateNanos = LastUpdateNanos a, IntentAge = IntentAge a - IntentAge b,
     GCBytesAge = GCBytesAge a - GCBytesAge b, LiveBytes = LiveBytes a - LiveBytes b,
     LiveCount = LiveCount a - LiveCount b, KeyBytes = KeyBytes a - KeyBytes b,
     KeyCount = KeyCount a - KeyCount b, ValBytes = ValBytes a - ValBytes b,
     ValCount = ValCount a - ValCount b, IntentBytes = IntentBytes a - IntentBytes b,
     IntentCount = IntentCount a - IntentCount b,
     SeparatedIntentCount = SeparatedIntentCount a - SeparatedIntentCount b,
     RangeKeyCount = RangeKeyCount a - RangeKeyCount b,
     RangeKeyBytes = RangeKeyBytes a - RangeKeyBytes b,
     RangeValCount = RangeValCount a - RangeValCount b,
     RangeValBytes = RangeValBytes a - RangeValBytes b, SysBytes = SysBytes a - SysBytes b,
     SysCount = SysCount a - SysCount b, AbortSpanBytes = AbortSpanBytes a - AbortSpanBytes b\<rparr>"

lemma StatsAdd_plus:
  "StatsAdd ms oms = (let m = later (LastUpdateNanos ms) (LastUpdateNanos oms) in stats_plus (AgeTo ms m) (AgeTo oms m))"
  by (simp add: StatsAdd_def StatsForward_AgeTo Let_def stats_plus_def)

lemma StatsSubtract_minus:
  "StatsSubtract ms oms = (let m = later (LastUpdateNanos ms) (LastUpdateNanos oms) in stats_minus (AgeTo ms m) (AgeTo oms m))"
  by (simp add: StatsSubtract_def StatsForward_AgeTo Let_def stats_minus_def)

lemma stats_minus_plus: "stats_minus (stats_plus a b) b = a"
  by (cases a) (simp add: stats_minus_def stats_plus_def)

lemma stats_plus_comm: "LastUpdateNanos a = LastUpdateNanos b \<Longrightarrow> stats_plus a b = stats_plus b a"
  by (simp add: stats_plus_def add.commute)

lemma stats_plus_assoc: "stats_plus (stats_plus a b) c = stats_plus a (stats_plus b c)"
  by (simp add: stats_plus_def add.assoc)

lemma stats_plus_last [simp]: "LastUpdateNanos (stats_plus a b) = LastUpdateNanos a"
  by (simp add: stats_plus_def)

lemma AgeTo_plus:
  "LastUpdateNanos a = LastUpdateNanos b \<Longrightarrow> AgeTo (stats_plus a b) m = stats_plus (AgeTo a m) (AgeTo b m)"
  by (cases a; cases b) (simp add: AgeTo_def stats_plus_def Let_def GCBytes_def Total_def algebra_simps)

lemma AgeTo_eq: "LastUpdateNanos ms = a \<Longrightarrow> AgeTo ms a = ms"
  using AgeTo_self by blast

subsection \<open>Ignored ranges as sets\<close>

text \<open>The invariant of a list of ignored ranges: sorted and without overlap.\<close>

definition ignored_ok :: "IgnoredSeqNumRange list \<Rightarrow> bool" where
  "ignored_ok rs \<longleftrightarrow> (\<forall>r \<in> set rs. sint (Start r) \<le> sint (End r)) \<and>
     sorted_wrt (\<lambda>a b. sint (End a) < sint (Start b)) rs"

definition in_range :: "TxnSeq \<Rightarrow> IgnoredSeqNumRange \<Rightarrow> bool" where
  "in_range seq r \<longleftrightarrow> sint (Start r) \<le> sint seq \<and> sint seq \<le> sint (End r)"

lemma TxnSeqIsIgnored_iff:
  "ignored_ok rs \<Longrightarrow> TxnSeqIsIgnored seq rs \<longleftrightarrow> (\<exists>r \<in> set rs. in_range seq r)"
proof (induction rs rule: rev_induct)
  case Nil
  then show ?case by (simp add: TxnSeqIsIgnored_def)
next
  case (snoc r rs)
  then have rs: "ignored_ok rs" and lt: "\<forall>q \<in> set rs. sint (End q) < sint (Start r)" "sint (Start r) \<le> sint (End r)"
    by (auto simp: ignored_ok_def sorted_wrt_append)
  have step: "TxnSeqIsIgnored seq (rs @ [r]) \<longleftrightarrow>
      (if sint seq < sint (Start r) then TxnSeqIsIgnored seq rs else sint seq \<le> sint (End r))"
    by (simp add: TxnSeqIsIgnored_def not_less)
  show ?case
  proof (cases "sint seq < sint (Start r)")
    case True
    then show ?thesis using snoc.IH [OF rs] step by (auto simp: in_range_def)
  next
    case False
    then have "\<not> in_range seq q" if "q \<in> set rs" for q using lt that by (auto simp: in_range_def)
    then show ?thesis using False step by (auto simp: in_range_def)
  qed
qed

subsection \<open>The intent history\<close>

lemma GetPrevIntentSeqLoop_spec:
  assumes "sorted (map (\<lambda>e. sint (ISequence e)) history)"
  shows "n \<le> length history \<Longrightarrow> GetPrevIntentSeqLoop history seq ignored n =
    (let es = filter (\<lambda>e. sint (ISequence e) < sint seq \<and> \<not> TxnSeqIsIgnored (ISequence e) ignored) (take n history)
     in if es = [] then None else Some (last es))"
proof (induction n rule: less_induct)
  case (less n)
  let ?old = "\<lambda>e. sint (ISequence e) < sint seq" and ?ign = "\<lambda>e. TxnSeqIsIgnored (ISequence e) ignored"
  define idx where "idx = sort_Search n (\<lambda>i. sint seq \<le> sint (ISequence (history ! i)))"
  have le: "idx \<le> n" unfolding idx_def by (rule sort_Search_le)
  have tk: "take idx history = filter ?old (take n history)"
    using sort_Search_split(1) [OF assms less.prems, of "sint seq"] le unfolding idx_def by simp
  have es: "filter (\<lambda>e. ?old e \<and> \<not> ?ign e) (take n history) = filter (\<lambda>e. \<not> ?ign e) (take idx history)"
    unfolding tk filter_filter by (rule filter_cong) auto
  show ?case
  proof (cases "idx = 0")
    case True
    then show ?thesis using es by (simp add: GetPrevIntentSeqLoop.simps [of _ _ _ n] idx_def [symmetric] Let_def)
  next
    case False
    then obtain c where c: "idx = Suc c" by (cases idx) auto
    have cl: "c < length history" using c le less.prems by simp
    have snoc: "take idx history = take c history @ [history ! c]" using c cl by (simp add: take_Suc_conv_app_nth)
    have "set (take idx history) \<subseteq> {e. ?old e}" using tk by auto
    then have old: "\<forall>e \<in> set (take c history). ?old e" using snoc by auto
    have loop: "GetPrevIntentSeqLoop history seq ignored n =
        (if ?ign (history ! c) then GetPrevIntentSeqLoop history seq ignored c else Some (history ! c))"
      using c by (simp add: GetPrevIntentSeqLoop.simps [of _ _ _ n] idx_def [symmetric] Let_def)
    show ?thesis
    proof (cases "?ign (history ! c)")
      case True
      have "filter (\<lambda>e. ?old e \<and> \<not> ?ign e) (take c history) = filter (\<lambda>e. \<not> ?ign e) (take c history)"
        by (rule filter_cong) (use old in auto)
      then show ?thesis using less.IH [of c] c le less.prems loop True es snoc by simp
    next
      case False
      then show ?thesis using loop es snoc by simp
    qed
  qed
qed

lemma GetPrevIntentSeq_eq:
  "sorted (map (\<lambda>e. sint (ISequence e)) history) \<Longrightarrow> GetPrevIntentSeq history seq ignored =
    (let es = filter (\<lambda>e. sint (ISequence e) < sint seq \<and> \<not> TxnSeqIsIgnored (ISequence e) ignored) history
     in if es = [] then None else Some (last es))"
  using GetPrevIntentSeqLoop_spec [of history "length history"] by (simp add: GetPrevIntentSeq_def)

lemma sorted_last_max: "sorted xs \<Longrightarrow> x \<in> set xs \<Longrightarrow> x \<le> last xs"
  by (induction xs rule: rev_induct) (auto simp: sorted_append)

interpretation intents: searched_slice ISequence IValue GetIntentValue
  by unfold_locales (simp add: GetIntentValue_def)

text \<open>The entries a read at \<open>seq\<close> may see: older, and in no rolled-back range.\<close>

definition visible_entries :: "SequencedIntent list \<Rightarrow> TxnSeq \<Rightarrow> IgnoredSeqNumRange list \<Rightarrow> SequencedIntent set" where
  "visible_entries history seq ignored =
    {e \<in> set history. sint (ISequence e) < sint seq \<and> \<not> (\<exists>r \<in> set ignored. in_range (ISequence e) r)}"

subsection \<open>Properties\<close>

text \<open>Statistics add up whatever the times they were last updated at.  Adding is commutative and
  associative (with wrap-around, and with the ages moved to the later of the two times), and
  subtracting what was added gives back the first statistics, forwarded to the time of the second.\<close>

lemma StatsAdd_laws:
  "StatsAdd a b = StatsAdd b a \<and> StatsAdd (StatsAdd a b) c = StatsAdd a (StatsAdd b c) \<and>
   StatsSubtract (StatsAdd a b) b = StatsForward a (LastUpdateNanos b)"
proof (intro conjI)
  show "StatsAdd a b = StatsAdd b a"
    by (simp add: StatsAdd_plus Let_def later_comm [of "LastUpdateNanos b"] stats_plus_comm)
  show "StatsAdd (StatsAdd a b) c = StatsAdd a (StatsAdd b c)"
    by (simp add: StatsAdd_plus Let_def AgeTo_plus AgeTo_AgeTo later_assoc stats_plus_assoc)
  show "StatsSubtract (StatsAdd a b) b = StatsForward a (LastUpdateNanos b)"
    by (simp add: StatsAdd_plus StatsSubtract_minus Let_def AgeTo_plus AgeTo_AgeTo stats_minus_plus StatsForward_AgeTo)
qed

text \<open>Ageing statistics in steps is ageing them at once, whatever the intermediate time; and
  \<open>GCByteAge\<close> reports the age \<open>AgeTo\<close> computes also for a time in the past, where the age shrinks
  by the seconds crossed (the comment of \<open>GCByteAge\<close> says such a time is ignored).\<close>

lemma AgeTo_steps:
  "AgeTo (AgeTo ms a) b = AgeTo ms b \<and>
   GCByteAge ms b = GCBytesAge ms + GCBytes ms * (seconds b - seconds (LastUpdateNanos ms)) \<and>
   (\<exists>ms past. sint past < sint (LastUpdateNanos ms) \<and> GCByteAge ms past \<noteq> GCBytesAge ms)"
proof (intro conjI)
  let ?z = "\<lparr>ContainsEstimates = 0, LastUpdateNanos = 2000000000, IntentAge = 0, GCBytesAge = 10, LiveBytes = 0,
    LiveCount = 0, KeyBytes = 1, KeyCount = 0, ValBytes = 0, ValCount = 0, IntentBytes = 0, IntentCount = 0,
    SeparatedIntentCount = 0, RangeKeyCount = 0, RangeKeyBytes = 0, RangeValCount = 0, RangeValBytes = 0,
    SysBytes = 0, SysCount = 0, AbortSpanBytes = 0\<rparr>"
  show "AgeTo (AgeTo ms a) b = AgeTo ms b" by (rule AgeTo_AgeTo)
  show "GCByteAge ms b = GCBytesAge ms + GCBytes ms * (seconds b - seconds (LastUpdateNanos ms))"
    by (simp add: GCByteAge_def AgeTo_def Let_def)
  show "\<exists>ms past. sint past < sint (LastUpdateNanos ms) \<and> GCByteAge ms past \<noteq> GCBytesAge ms"
    by (rule exI [of _ ?z], rule exI [of _ 1000000000])
      (simp add: GCByteAge_def AgeTo_def Let_def GCBytes_def Total_def seconds_def signed_divide_int_def)
qed

text \<open>A read of a transaction's own intent at sequence number \<open>seq\<close>: on a history in sequence
  order, \<open>GetPrevIntentSeq\<close> fails exactly when every older entry lies in a rolled-back range, and
  otherwise returns an entry of the history older than \<open>seq\<close>, not rolled back, and at least as new
  as every other such entry.\<close>

lemma GetPrevIntentSeq_latest:
  assumes "sorted (map (\<lambda>e. sint (ISequence e)) history)" "ignored_ok ignored"
  shows "case GetPrevIntentSeq history seq ignored of
      None \<Rightarrow> visible_entries history seq ignored = {}
    | Some e \<Rightarrow> e \<in> visible_entries history seq ignored \<and> (\<forall>e' \<in> visible_entries history seq ignored. sint (ISequence e') \<le> sint (ISequence e))"
proof -
  define es where "es = filter (\<lambda>e. sint (ISequence e) < sint seq \<and> \<not> TxnSeqIsIgnored (ISequence e) ignored) history"
  have set: "set es = visible_entries history seq ignored"
    using TxnSeqIsIgnored_iff [OF assms(2)] by (auto simp: es_def visible_entries_def)
  have "sorted (map (\<lambda>e. sint (ISequence e)) es)" using assms(1) unfolding es_def by (rule sorted_filter)
  then have mx: "sint (ISequence e') \<le> sint (ISequence (last es))" if mem: "e' \<in> set es" for e'
    using sorted_last_max [of "map (\<lambda>e. sint (ISequence e)) es" "sint (ISequence e')"] mem
    by (cases "es = []") (auto simp: last_map)
  have "GetPrevIntentSeq history seq ignored = (if es = [] then None else Some (last es))"
    using GetPrevIntentSeq_eq [OF assms(1)] by (simp add: es_def Let_def)
  then show ?thesis using mx by (auto simp: set [symmetric])
qed

text \<open>\<open>GetIntentValue\<close> reads a history in strict sequence order as a map from sequence numbers to
  values, and \<open>AddToIntentHistory\<close> with a newer sequence number extends that map by one entry and
  keeps the order.\<close>

lemma intent_history_map:
  assumes "sorted_wrt (<) (map (\<lambda>e. sint (ISequence e)) history)"
    "\<forall>e \<in> set history. sint (ISequence e) < sint new"
  shows "GetIntentValue history = map_of (map (\<lambda>e. (ISequence e, IValue e)) history) \<and>
    sorted_wrt (<) (map (\<lambda>e. sint (ISequence e)) (AddToIntentHistory history new val)) \<and>
    GetIntentValue (AddToIntentHistory history new val) = (GetIntentValue history)(new \<mapsto> val)"
proof -
  have ord: "intents.ordered history" using assms(1) by (simp add: intents.ordered_def)
  show ?thesis
    using intents.lookup_snoc [OF ord, of "\<lparr>ISequence = new, IValue = val\<rparr>"] assms(2) intents.lookup_assoc [OF ord]
    by (simp add: AddToIntentHistory_def intents.ordered_def intents.assoc_def fun_eq_iff)
qed

end
