(* ===== verification/Range_Keys.thy ===== *)
theory Range_Keys
  imports Mvcc_Key Mvcc_Meta
begin

text \<open>
  Range keys of the store (\<open>engine/pkg/storage/mvcc_key.go\<close>): a versioned key span, and the stack of
  versions an iterator returns for one fragment, from newest to oldest.  The operations on a stack
  use a linear search from the newest version or a binary search; they are shown to compute on the
  set of versions.
\<close>

subsection \<open>Range keys\<close>

record MVCCRangeKey =
  RStartKey :: bytes
  REndKey :: bytes
  RTimestamp :: Timestamp

record MVCCRangeKeyVersion =
  VTimestamp :: Timestamp
  VValue :: bytes

type_synonym MVCCRangeKeyVersions = "MVCCRangeKeyVersion list"

record MVCCRangeKeyStack =
  Bounds :: Span
  Versions :: MVCCRangeKeyVersions

definition RangeKeyBounds :: "MVCCRangeKey \<Rightarrow> Span" where
  "RangeKeyBounds k = \<lparr>Key = RStartKey k, EndKey = REndKey k\<rparr>"

definition AsStack :: "MVCCRangeKey \<Rightarrow> bytes \<Rightarrow> MVCCRangeKeyStack" where
  "AsStack k valueRaw = \<lparr>Bounds = RangeKeyBounds k, Versions = [\<lparr>VTimestamp = RTimestamp k, VValue = valueRaw\<rparr>]\<rparr>"

definition RangeKeyCompare :: "MVCCRangeKey \<Rightarrow> MVCCRangeKey \<Rightarrow> int" where
  "RangeKeyCompare k ou =
    (let c = bytes_Compare (RStartKey k) (RStartKey ou) in
     if c \<noteq> 0 then c
     else if IsEmpty (RTimestamp k) \<and> \<not> IsEmpty (RTimestamp ou) then - 1
     else if \<not> IsEmpty (RTimestamp k) \<and> IsEmpty (RTimestamp ou) then 1
     else
       let c' = Compare (RTimestamp k) (RTimestamp ou) in
       if c' \<noteq> 0 then - c' else bytes_Compare (REndKey k) (REndKey ou))"

definition RangeKeyEncodedSize :: "MVCCRangeKey \<Rightarrow> nat" where
  "RangeKeyEncodedSize k =
     EncodedMVCCKeyPrefixLength (RStartKey k) + EncodedMVCCKeyPrefixLength (REndKey k) +
     EncodedMVCCTimestampSuffixLength (RTimestamp k)"

definition ValidateRangeKey :: "MVCCRangeKey \<Rightarrow> unit result" where
  "ValidateRangeKey k =
    (if length (RStartKey k) = 0 then Inl (Errorf ''no start key'')
     else if length (REndKey k) = 0 then Inl (Errorf ''no end key'')
     else if IsEmpty (RTimestamp k) then Inl (Errorf ''no timestamp'')
     else if bytes_Compare (RStartKey k) (REndKey k) \<ge> 0
     then Inl (Errorf ''start key %s is at or after end key %s'')
     else Inr ())"

definition Includes :: "MVCCRangeKey \<Rightarrow> bytes \<Rightarrow> bool" where
  "Includes k key \<longleftrightarrow> bytes_Compare (RStartKey k) key \<le> 0 \<and> bytes_Compare (REndKey k) key > 0"

definition RangeKeyOverlaps :: "MVCCRangeKey \<Rightarrow> MVCCRangeKey \<Rightarrow> bool" where
  "RangeKeyOverlaps k b \<longleftrightarrow>
     bytes_Compare (RStartKey k) (REndKey b) < 0 \<and> bytes_Compare (REndKey k) (RStartKey b) > 0"

definition Deletes :: "MVCCRangeKey \<Rightarrow> MVCCKey \<Rightarrow> bool" where
  "Deletes k key \<longleftrightarrow> Includes k (MKey key) \<and> \<not> Less (RTimestamp k) (MTimestamp key)"

subsection \<open>Versions\<close>

definition VersionEqual :: "MVCCRangeKeyVersion \<Rightarrow> MVCCRangeKeyVersion \<Rightarrow> bool" where
  "VersionEqual v ou \<longleftrightarrow> VTimestamp v = VTimestamp ou \<and> VValue v = VValue ou"

definition VersionsCovers :: "MVCCRangeKeyVersions \<Rightarrow> Timestamp \<Rightarrow> bool" where
  "VersionsCovers v ts \<longleftrightarrow> \<not> length v = 0 \<and> \<not> IsEmpty ts \<and> LessEq ts (VTimestamp (v ! 0))"

definition VersionsEqual :: "MVCCRangeKeyVersions \<Rightarrow> MVCCRangeKeyVersions \<Rightarrow> bool" where
  "VersionsEqual v other \<longleftrightarrow>
    (if length v \<noteq> length other then False else list_all (\<lambda>i. VersionEqual (v ! i) (other ! i)) [0..<length v])"

text \<open>The linear search of \<open>Excise\<close> and \<open>Trim\<close> for the first version at or below a timestamp.\<close>

fun startIndex :: "MVCCRangeKeyVersions \<Rightarrow> Timestamp \<Rightarrow> nat" where
  "startIndex [] to0 = 0"
| "startIndex (ver # v) to0 = (if LessEq (VTimestamp ver) to0 then 0 else Suc (startIndex v to0))"

definition Excise :: "MVCCRangeKeyVersions \<Rightarrow> Timestamp \<Rightarrow> Timestamp \<Rightarrow> bool \<times> MVCCRangeKeyVersions" where
  "Excise v from0 to0 =
    (let start = startIndex v to0;
         end0 = sort_Search (length v) (\<lambda>i. Less (VTimestamp (v ! i)) from0)
     in if start \<ge> end0 then (False, v)
        else if start = 0 then (True, drop end0 v)
        else (True, take start v @ drop end0 v))"

definition FirstAtOrAbove :: "MVCCRangeKeyVersions \<Rightarrow> Timestamp \<Rightarrow> MVCCRangeKeyVersion option" where
  "FirstAtOrAbove v ts =
    (if length v > 0 then
       let i = sort_Search (length v) (\<lambda>i. Less (VTimestamp (v ! i)) ts) in
       if i > 0 then Some (v ! (i - 1)) else None
     else None)"

definition FirstAtOrBelow :: "MVCCRangeKeyVersions \<Rightarrow> Timestamp \<Rightarrow> MVCCRangeKeyVersion option" where
  "FirstAtOrBelow v ts =
    (if length v > 0 then
       let i = sort_Search (length v) (\<lambda>i. LessEq (VTimestamp (v ! i)) ts) in
       if i < length v then Some (v ! i) else None
     else None)"

definition HasBetween :: "MVCCRangeKeyVersions \<Rightarrow> Timestamp \<Rightarrow> Timestamp \<Rightarrow> bool" where
  "HasBetween v low high =
    (case FirstAtOrAbove v low of Some ver \<Rightarrow> LessEq (VTimestamp ver) high | None \<Rightarrow> False)"

definition Newest :: "MVCCRangeKeyVersions \<Rightarrow> Timestamp" where
  "Newest v = (if length v = 0 then emptyTimestamp else VTimestamp (v ! 0))"

definition Oldest :: "MVCCRangeKeyVersions \<Rightarrow> Timestamp" where
  "Oldest v = (if length v = 0 then emptyTimestamp else VTimestamp (v ! (length v - 1)))"

definition RemoveVersion :: "MVCCRangeKeyVersions \<Rightarrow> Timestamp \<Rightarrow> MVCCRangeKeyVersion option \<times> MVCCRangeKeyVersions" where
  "RemoveVersion v ts =
    (if length v = 0 then (None, v)
     else if VTimestamp (v ! 0) = ts then (Some (v ! 0), drop 1 v)
     else
       let i = sort_Search (length v) (\<lambda>i. LessEq (VTimestamp (v ! i)) ts) in
       if i < length v \<and> VTimestamp (v ! i) = ts then (Some (v ! i), take i v @ drop (i + 1) v)
       else (None, v))"

definition VersionTimestamps :: "MVCCRangeKeyVersions \<Rightarrow> Timestamp list" where
  "VersionTimestamps v = map VTimestamp v"

definition Trim :: "MVCCRangeKeyVersions \<Rightarrow> Timestamp \<Rightarrow> Timestamp \<Rightarrow> bool \<times> MVCCRangeKeyVersions" where
  "Trim v from0 to0 =
    (let start = startIndex v to0;
         v1 = drop start v;
         removed = (start > 0);
         end0 = sort_Search (length v1) (\<lambda>i. Less (VTimestamp (v1 ! i)) from0)
     in if end0 < length v1 then (True, take end0 v1) else (removed, v1))"

subsection \<open>Stacks\<close>

definition AsRangeKey :: "MVCCRangeKeyStack \<Rightarrow> MVCCRangeKeyVersion \<Rightarrow> MVCCRangeKey" where
  "AsRangeKey s v = \<lparr>RStartKey = Key (Bounds s), REndKey = EndKey (Bounds s), RTimestamp = VTimestamp v\<rparr>"

definition AsRangeKeys :: "MVCCRangeKeyStack \<Rightarrow> MVCCRangeKey list" where
  "AsRangeKeys s = map (AsRangeKey s) (Versions s)"

definition AsRangeKeyValues :: "MVCCRangeKeyStack \<Rightarrow> (MVCCRangeKey \<times> bytes) list" where
  "AsRangeKeyValues s = map (\<lambda>v. (AsRangeKey s v, VValue v)) (Versions s)"

definition CanMergeRight :: "MVCCRangeKeyStack \<Rightarrow> MVCCRangeKeyStack \<Rightarrow> bool" where
  "CanMergeRight s r \<longleftrightarrow>
    (if length (Versions s) = 0 \<or> length (Versions s) \<noteq> length (Versions r) \<or> EndKey (Bounds s) \<noteq> Key (Bounds r)
     then False
     else list_all (\<lambda>i. VersionEqual (Versions s ! i) (Versions r ! i)) [0..<length (Versions s)])"

definition StackCovers :: "MVCCRangeKeyStack \<Rightarrow> MVCCKey \<Rightarrow> bool" where
  "StackCovers s k \<longleftrightarrow> VersionsCovers (Versions s) (MTimestamp k) \<and> ContainsKey (Bounds s) (MKey k)"

definition StackEqual :: "MVCCRangeKeyStack \<Rightarrow> MVCCRangeKeyStack \<Rightarrow> bool" where
  "StackEqual s ou \<longleftrightarrow> SpanEqual (Bounds s) (Bounds ou) \<and> VersionsEqual (Versions s) (Versions ou)"

subsection \<open>Searching\<close>

text \<open>Versions from the newest to the oldest, no two at the same time.\<close>

definition newest_first :: "MVCCRangeKeyVersions \<Rightarrow> bool" where
  "newest_first v \<longleftrightarrow> sorted_wrt (\<lambda>a b. Less (VTimestamp b) (VTimestamp a)) v"

text \<open>A condition that holds of everything older than something it holds of.\<close>

definition older_closed :: "(MVCCRangeKeyVersion \<Rightarrow> bool) \<Rightarrow> bool" where
  "older_closed p \<longleftrightarrow> (\<forall>a b. p a \<longrightarrow> Less (VTimestamp b) (VTimestamp a) \<longrightarrow> p b)"

lemma older_closed_ts [simp]: "older_closed (\<lambda>v. Less (VTimestamp v) ts)" "older_closed (\<lambda>v. LessEq (VTimestamp v) ts)"
  by (auto simp: older_closed_def dest: ts_trans Less_imp_LessEq)

lemma newest_first_Cons:
  "newest_first (a # v) \<longleftrightarrow> (\<forall>x \<in> set v. Less (VTimestamp x) (VTimestamp a)) \<and> newest_first v"
  by (simp add: newest_first_def)

lemma newest_first_split:
  assumes "newest_first v" "older_closed p"
  shows "takeWhile (\<lambda>x. \<not> p x) v = filter (\<lambda>x. \<not> p x) v" "dropWhile (\<lambda>x. \<not> p x) v = filter p v"
proof -
  have "takeWhile (\<lambda>x. \<not> p x) v = filter (\<lambda>x. \<not> p x) v \<and> dropWhile (\<lambda>x. \<not> p x) v = filter p v"
    using assms(1)
  proof (induction v)
    case (Cons a v)
    show ?case
    proof (cases "p a")
      case True
      then have "\<forall>x \<in> set v. p x"
        using Cons.prems assms(2) unfolding newest_first_Cons older_closed_def by blast
      then have "filter (\<lambda>x. \<not> p x) v = []" "filter p v = v" by (simp_all add: filter_empty_conv filter_id_conv)
      with True show ?thesis by simp
    next
      case False
      then show ?thesis using Cons.IH Cons.prems unfolding newest_first_Cons by simp
    qed
  qed simp
  then show "takeWhile (\<lambda>x. \<not> p x) v = filter (\<lambda>x. \<not> p x) v" "dropWhile (\<lambda>x. \<not> p x) v = filter p v"
    by simp_all
qed

lemma older_closed_nth:
  assumes "newest_first v" "older_closed p" "a \<le> b" "b < length v" "p (v ! a)"
  shows "p (v ! b)"
proof (cases "a = b")
  case False
  then have "Less (VTimestamp (v ! b)) (VTimestamp (v ! a))"
    using assms(1,3,4) unfolding newest_first_def sorted_wrt_iff_nth_less by simp
  then show ?thesis using assms(2,5) unfolding older_closed_def by blast
qed (use assms(5) in simp)

lemma search_newest_first:
  assumes "newest_first v" "older_closed p"
  shows "sort_Search (length v) (\<lambda>i. p (v ! i)) = length (filter (\<lambda>x. \<not> p x) v)"
proof -
  let ?f = "\<lambda>i. p (v ! i)" and ?n = "length (takeWhile (\<lambda>x. \<not> p x) v)"
  let ?r = "sort_Search (length v) ?f"
  have mono: "?f b" if "a \<le> b" "b < length v" "?f a" for a b
    by (rule older_closed_nth [OF assms that])
  have first: "\<forall>k < ?r. \<not> ?f k" "\<forall>k. ?r \<le> k \<longrightarrow> k < length v \<longrightarrow> ?f k"
    by (rule sort_Search_first, erule (2) mono)+
  have below: "\<not> ?f k" if "k < ?n" for k
    using set_takeWhileD [of "v ! k" "\<lambda>x. \<not> p x" v] nth_mem [OF that] takeWhile_nth [OF that] by simp
  have at: "?f ?n" if "?n < length v" using nth_length_takeWhile [OF that] by simp
  have le: "?n \<le> length v" by (rule length_takeWhile_le)
  have rle: "?r \<le> length v" by (rule sort_Search_le)
  have "\<not> ?r < ?n" using first(2) below [of ?r] le by auto
  moreover have "\<not> ?n < ?r" using first(1) at rle by auto
  ultimately show ?thesis using newest_first_split(1) [OF assms] by simp
qed

lemma newest_first_take_drop:
  assumes "newest_first v" "older_closed p"
  shows "take (length (filter (\<lambda>x. \<not> p x) v)) v = filter (\<lambda>x. \<not> p x) v"
    "drop (length (filter (\<lambda>x. \<not> p x) v)) v = filter p v"
  using newest_first_split [OF assms] takeWhile_eq_take [of "\<lambda>x. \<not> p x" v] dropWhile_eq_drop [of "\<lambda>x. \<not> p x" v]
  by simp_all

lemma startIndex_newest_first: "startIndex v to0 = length (takeWhile (\<lambda>x. \<not> LessEq (VTimestamp x) to0) v)"
  by (induction v) (auto simp del: not_LessEq)

subsection \<open>The operations on the set of versions\<close>

text \<open>The three parts of a stack: the versions above \<open>to0\<close>, those in \<open>[from0, to0]\<close>, those below
  \<open>from0\<close>.\<close>

definition inside :: "Timestamp \<Rightarrow> Timestamp \<Rightarrow> MVCCRangeKeyVersion \<Rightarrow> bool" where
  "inside from0 to0 x \<longleftrightarrow> LessEq from0 (VTimestamp x) \<and> LessEq (VTimestamp x) to0"

lemma startIndex_eq:
  assumes "newest_first v"
  shows "startIndex v to0 = length (filter (\<lambda>x. Less to0 (VTimestamp x)) v)"
    "take (startIndex v to0) v = filter (\<lambda>x. Less to0 (VTimestamp x)) v"
    "drop (startIndex v to0) v = filter (\<lambda>x. LessEq (VTimestamp x) to0) v"
  using newest_first_split(1) [OF assms older_closed_ts(2)] newest_first_take_drop [OF assms older_closed_ts(2), of to0]
  by (simp_all add: startIndex_newest_first)

lemma search_below:
  assumes "newest_first v"
  shows "sort_Search (length v) (\<lambda>i. Less (VTimestamp (v ! i)) ts) = length (filter (\<lambda>x. LessEq ts (VTimestamp x)) v)"
    "take (length (filter (\<lambda>x. LessEq ts (VTimestamp x)) v)) v = filter (\<lambda>x. LessEq ts (VTimestamp x)) v"
    "drop (length (filter (\<lambda>x. LessEq ts (VTimestamp x)) v)) v = filter (\<lambda>x. Less (VTimestamp x) ts) v"
  using search_newest_first [OF assms older_closed_ts(1), of ts] newest_first_take_drop [OF assms older_closed_ts(1), of ts]
  by simp_all

lemma search_at_or_below:
  assumes "newest_first v"
  shows "sort_Search (length v) (\<lambda>i. LessEq (VTimestamp (v ! i)) ts) = length (filter (\<lambda>x. Less ts (VTimestamp x)) v)"
    "take (length (filter (\<lambda>x. Less ts (VTimestamp x)) v)) v = filter (\<lambda>x. Less ts (VTimestamp x)) v"
    "drop (length (filter (\<lambda>x. Less ts (VTimestamp x)) v)) v = filter (\<lambda>x. LessEq (VTimestamp x) ts) v"
  using search_newest_first [OF assms older_closed_ts(2), of ts] newest_first_take_drop [OF assms older_closed_ts(2), of ts]
  by simp_all

lemma length_filter_lt: "length (filter p w) < length w \<longleftrightarrow> (\<exists>x \<in> set w. \<not> p x)"
  by (metis filter_True length_filter_less less_irrefl)

lemma length_filter_mono: "(\<And>x. p x \<Longrightarrow> q x) \<Longrightarrow> length (filter p w) \<le> length (filter q w)"
  by (induction w) (simp_all add: le_SucI)

lemma newest_first_filter: "newest_first v \<Longrightarrow> newest_first (filter p v)"
  by (simp add: newest_first_def sorted_wrt_filter)

lemma Trim_spec:
  assumes "newest_first v"
  shows "Trim v from0 to0 = ((\<exists>x \<in> set v. \<not> inside from0 to0 x), filter (inside from0 to0) v)"
proof -
  let ?w = "filter (\<lambda>x. LessEq (VTimestamp x) to0) v"
  let ?k = "filter (\<lambda>x. LessEq from0 (VTimestamp x)) ?w"
  have w: "newest_first ?w" by (rule newest_first_filter [OF assms])
  have in_eq: "?k = filter (inside from0 to0) v" unfolding filter_filter by (rule filter_cong) (auto simp: inside_def)
  have start: "startIndex v to0 > 0 \<longleftrightarrow> (\<exists>x \<in> set v. Less to0 (VTimestamp x))"
    using startIndex_eq(1) [OF assms, of to0] by (simp add: filter_empty_conv)
  have cut: "length ?k < length ?w \<longleftrightarrow> (\<exists>x \<in> set ?w. Less (VTimestamp x) from0)"
    using length_filter_lt [of "\<lambda>x. LessEq from0 (VTimestamp x)" ?w] by simp
  have full: "?k = ?w" if "\<not> length ?k < length ?w"
    using that by (metis filter_True length_filter_lt)
  show ?thesis
    unfolding Trim_def Let_def startIndex_eq(3) [OF assms] search_below(1) [OF w] search_below(2) [OF w] in_eq [symmetric]
    using start cut full by (auto simp: inside_def simp del: not_LessEq not_Less simp flip: not_LessEq)
qed

lemma newest_first_above:
  assumes "newest_first (a # v)" "LessEq (VTimestamp a) to0"
  shows "filter (\<lambda>x. Less to0 (VTimestamp x)) v = []"
proof -
  have "LessEq (VTimestamp x) to0" if "x \<in> set v" for x
    using assms that Less_imp_LessEq ts_trans unfolding newest_first_Cons by blast
  then show ?thesis by (simp add: filter_empty_conv)
qed

lemma newest_first_parts:
  assumes "newest_first v" "LessEq from0 to0"
  shows "filter (\<lambda>x. \<not> inside from0 to0 x) v =
      filter (\<lambda>x. Less to0 (VTimestamp x)) v @ filter (\<lambda>x. Less (VTimestamp x) from0) v"
    "filter (\<lambda>x. LessEq from0 (VTimestamp x)) v =
      filter (\<lambda>x. Less to0 (VTimestamp x)) v @ filter (inside from0 to0) v"
proof -
  let ?above = "\<lambda>x. Less to0 (VTimestamp x)" and ?below = "\<lambda>x. Less (VTimestamp x) from0"
  have above: "LessEq from0 (VTimestamp x)" "\<not> inside from0 to0 x" if "?above x" for x
    using that ts_trans(3) [OF assms(2) that] Less_imp_LessEq unfolding inside_def not_Less [symmetric] by blast+
  have below: "\<not> inside from0 to0 x \<longleftrightarrow> ?below x" "LessEq from0 (VTimestamp x) \<longleftrightarrow> inside from0 to0 x"
    if "\<not> ?above x" for x using that by (auto simp: inside_def)
  have "filter (\<lambda>x. \<not> inside from0 to0 x) v = filter ?above v @ filter ?below v \<and>
    filter (\<lambda>x. LessEq from0 (VTimestamp x)) v = filter ?above v @ filter (inside from0 to0) v"
    using assms(1)
  proof (induction v)
    case (Cons a v)
    then have IH: "filter (\<lambda>x. \<not> inside from0 to0 x) v = filter ?above v @ filter ?below v"
      "filter (\<lambda>x. LessEq from0 (VTimestamp x)) v = filter ?above v @ filter (inside from0 to0) v"
      by (simp_all add: newest_first_Cons)
    show ?case
    proof (cases "?above a")
      case True
      then have "\<not> ?below a" using above(1) [OF True] by (simp add: not_Less [symmetric] del: not_Less)
      with above [OF True] IH True show ?thesis by simp
    next
      case False
      then have "filter ?above v = []" using newest_first_above [OF Cons.prems] by simp
      with below [OF False] IH False show ?thesis by simp
    qed
  qed simp
  then show "filter (\<lambda>x. \<not> inside from0 to0 x) v = filter ?above v @ filter ?below v"
    "filter (\<lambda>x. LessEq from0 (VTimestamp x)) v = filter ?above v @ filter (inside from0 to0) v" by simp_all
qed

lemma Excise_spec:
  assumes "newest_first v"
  shows "Excise v from0 to0 = ((\<exists>x \<in> set v. inside from0 to0 x), filter (\<lambda>x. \<not> inside from0 to0 x) v)"
proof (cases "LessEq from0 to0")
  case True
  have "length (filter (\<lambda>x. LessEq from0 (VTimestamp x)) v) =
    startIndex v to0 + length (filter (inside from0 to0) v)"
    using newest_first_parts(2) [OF assms True] startIndex_eq(1) [OF assms, of to0] by simp
  moreover have "filter (\<lambda>x. \<not> inside from0 to0 x) v = v" if "filter (inside from0 to0) v = []"
    using that by (simp add: filter_empty_conv filter_id_conv)
  moreover have "take (startIndex v to0) v @ filter (\<lambda>x. Less (VTimestamp x) from0) v =
    filter (\<lambda>x. \<not> inside from0 to0 x) v"
    using newest_first_parts(1) [OF assms True] startIndex_eq(2) [OF assms] by simp
  moreover have "filter (inside from0 to0) v = [] \<longleftrightarrow> \<not> (\<exists>x \<in> set v. inside from0 to0 x)"
    by (auto simp: filter_empty_conv)
  ultimately show ?thesis
    unfolding Excise_def Let_def search_below(1) [OF assms] search_below(3) [OF assms] by auto
next
  case False
  have none: "\<not> inside from0 to0 x" for x using False ts_trans(1) unfolding inside_def by blast
  have "Less to0 (VTimestamp x)" if "LessEq from0 (VTimestamp x)" for x
    using ts_trans(2) [of to0 from0] False that by simp
  then have "length (filter (\<lambda>x. LessEq from0 (VTimestamp x)) v) \<le> length (filter (\<lambda>x. Less to0 (VTimestamp x)) v)"
    by (rule length_filter_mono)
  with none show ?thesis
    unfolding Excise_def Let_def search_below(1) [OF assms] startIndex_eq(1) [OF assms] by simp
qed

lemma FirstAtOrAbove_spec:
  assumes "newest_first v"
  shows "FirstAtOrAbove v ts =
    (let w = filter (\<lambda>x. LessEq ts (VTimestamp x)) v in if w = [] then None else Some (last w))"
proof -
  let ?w = "filter (\<lambda>x. LessEq ts (VTimestamp x)) v"
  have "v ! (length ?w - 1) = last ?w" if "?w \<noteq> []"
    using that search_below(2) [OF assms, of ts] by (metis last_conv_nth nth_take diff_less length_greater_0_conv zero_less_one)
  moreover have "v \<noteq> []" if "?w \<noteq> []" using that by auto
  ultimately show ?thesis unfolding FirstAtOrAbove_def Let_def search_below(1) [OF assms] by auto
qed

lemma FirstAtOrBelow_spec:
  assumes "newest_first v"
  shows "FirstAtOrBelow v ts =
    (let w = filter (\<lambda>x. LessEq (VTimestamp x) ts) v in if w = [] then None else Some (hd w))"
proof -
  let ?n = "length (filter (\<lambda>x. Less ts (VTimestamp x)) v)" and ?w = "filter (\<lambda>x. LessEq (VTimestamp x) ts) v"
  have drop: "drop ?n v = ?w" by (rule search_at_or_below(3) [OF assms])
  then have "?n < length v \<longleftrightarrow> ?w \<noteq> []" by (metis drop_eq_Nil leD leI)
  moreover have "v ! ?n = hd ?w" if "?n < length v" using drop hd_drop_conv_nth [OF that] by simp
  ultimately show ?thesis unfolding FirstAtOrBelow_def Let_def search_at_or_below(1) [OF assms] by auto
qed

lemma HasBetween_spec:
  assumes "newest_first v"
  shows "HasBetween v low high \<longleftrightarrow> (\<exists>x \<in> set v. inside low high x)"
proof -
  let ?w = "filter (\<lambda>x. LessEq low (VTimestamp x)) v"
  have w: "newest_first ?w" by (rule newest_first_filter [OF assms])
  have "LessEq (VTimestamp (last ?w)) (VTimestamp x)" if "x \<in> set ?w" for x
  proof -
    have "LessEq (VTimestamp (last w)) (VTimestamp x)" if "newest_first w" "x \<in> set w" for w x
      using that
    proof (induction w)
      case (Cons a w)
      then show ?case
        using last_in_set [of w] by (auto simp: newest_first_Cons intro: Less_imp_LessEq split: if_splits)
    qed simp
    then show ?thesis using w that by blast
  qed
  moreover have "last ?w \<in> set ?w" if "?w \<noteq> []" by (rule last_in_set [OF that])
  ultimately show ?thesis
    unfolding HasBetween_def FirstAtOrAbove_spec [OF assms] Let_def inside_def
    using ts_trans(1) by (auto simp: filter_empty_conv split: if_splits)
qed

lemma at_split:
  assumes "newest_first v" "i < length v"
  shows "v = take i v @ v ! i # drop (i + 1) v"
    "x \<in> set (take i v) \<Longrightarrow> Less (VTimestamp (v ! i)) (VTimestamp x)"
    "x \<in> set (drop (i + 1) v) \<Longrightarrow> Less (VTimestamp x) (VTimestamp (v ! i))"
proof -
  show split: "v = take i v @ v ! i # drop (i + 1) v" using id_take_nth_drop [OF assms(2)] by simp
  have "newest_first (take i v @ v ! i # drop (i + 1) v)" using assms(1) split by simp
  then show "x \<in> set (take i v) \<Longrightarrow> Less (VTimestamp (v ! i)) (VTimestamp x)"
    "x \<in> set (drop (i + 1) v) \<Longrightarrow> Less (VTimestamp x) (VTimestamp (v ! i))"
    unfolding newest_first_def sorted_wrt_append by simp_all
qed

lemma remove_at:
  assumes "newest_first v" "i < length v"
  shows "filter (\<lambda>x. VTimestamp x \<noteq> VTimestamp (v ! i)) v = take i v @ drop (i + 1) v" (is "filter ?p v = _")
    "List.find (\<lambda>x. VTimestamp x = VTimestamp (v ! i)) v = Some (v ! i)"
    "length (filter (\<lambda>x. Less (VTimestamp (v ! i)) (VTimestamp x)) v) = i" (is "length (filter ?q v) = _")
proof -
  have before: "?p x" "?q x" if "x \<in> set (take i v)" for x using at_split(2) [OF assms that] by auto
  have after: "?p x" "\<not> ?q x" if "x \<in> set (drop (i + 1) v)" for x
    using at_split(3) [OF assms that] Less_imp_LessEq by auto
  have "filter ?p (take i v @ v ! i # drop (i + 1) v) = take i v @ drop (i + 1) v"
    using before(1) after(1) by (simp add: filter_id_conv)
  then show "filter ?p v = take i v @ drop (i + 1) v" unfolding at_split(1) [OF assms, symmetric] .
  have "filter ?q (take i v @ v ! i # drop (i + 1) v) = take i v"
    using before(2) after(2) by (simp add: filter_id_conv filter_empty_conv)
  then have "filter ?q v = take i v" unfolding at_split(1) [OF assms, symmetric] .
  then show "length (filter ?q v) = i" using assms(2) by simp
  have "\<forall>j < i. ?p (v ! j)" using before(1) assms(2) by (force simp: in_set_conv_nth)
  then show "List.find (\<lambda>x. VTimestamp x = VTimestamp (v ! i)) v = Some (v ! i)"
    using assms(2) by (auto simp: find_Some_iff)
qed

lemma RemoveVersion_spec:
  assumes "newest_first v"
  shows "RemoveVersion v ts = (List.find (\<lambda>x. VTimestamp x = ts) v, filter (\<lambda>x. VTimestamp x \<noteq> ts) v)"
proof (cases "\<exists>x \<in> set v. VTimestamp x = ts")
  case True
  then obtain j where j: "j < length v" "VTimestamp (v ! j) = ts" by (metis in_set_conv_nth)
  have "v \<noteq> []" using j by auto
  moreover have "j = 0" if "VTimestamp (v ! 0) = ts"
    using remove_at(3) [OF assms, of 0] remove_at(3) [OF assms j(1)] j(2) that \<open>v \<noteq> []\<close> by simp
  ultimately show ?thesis
    using remove_at [OF assms j(1)] j
    unfolding RemoveVersion_def Let_def search_at_or_below(1) [OF assms] by auto
next
  case False
  then have "List.find (\<lambda>x. VTimestamp x = ts) v = None" "filter (\<lambda>x. VTimestamp x \<noteq> ts) v = v"
    by (auto simp: find_None_iff filter_id_conv)
  with False show ?thesis unfolding RemoveVersion_def Let_def by (auto dest: nth_mem)
qed

subsection \<open>Covering\<close>

text \<open>A stack covers a point exactly when one of its range keys deletes the point, except that a
  point without a timestamp, the position of an intent, is never covered but is deleted by every
  range key with a timestamp of a non-negative wall time.\<close>

lemma VersionsCovers_iff:
  assumes "newest_first v"
  shows "VersionsCovers v ts \<longleftrightarrow> \<not> IsEmpty ts \<and> (\<exists>x \<in> set v. LessEq ts (VTimestamp x))"
proof (cases v)
  case (Cons a w)
  have "LessEq ts (VTimestamp a)" if "x \<in> set w" "LessEq ts (VTimestamp x)" for x
    using assms that ts_trans(2) Less_imp_LessEq ts_trans(1) unfolding Cons newest_first_Cons by blast
  then show ?thesis unfolding Cons VersionsCovers_def by auto
qed (simp add: VersionsCovers_def)

lemma Includes_ContainsKey: "Includes (AsRangeKey s x) k \<longleftrightarrow> ContainsKey (Bounds s) k"
  by (auto simp: Includes_def ContainsKey_def AsRangeKey_def bytes_Compare_def)

lemma StackCovers_iff:
  assumes "newest_first (Versions s)"
  shows "StackCovers s k \<longleftrightarrow> \<not> IsEmpty (MTimestamp k) \<and> (\<exists>r \<in> set (AsRangeKeys s). Deletes r k)"
proof -
  have "Deletes (AsRangeKey s x) k \<longleftrightarrow> ContainsKey (Bounds s) (MKey k) \<and> LessEq (MTimestamp k) (VTimestamp x)" for x
    unfolding Deletes_def Includes_ContainsKey not_Less by (simp add: AsRangeKey_def)
  then show ?thesis unfolding StackCovers_def VersionsCovers_iff [OF assms] AsRangeKeys_def by auto
qed

text \<open>C38: the binary searches over a stack of range key versions, ordered from newest to oldest, compute on
  the set of its versions.  \<open>Excise\<close> removes the versions in \<open>[from, to]\<close> and \<open>Trim\<close> the others, each
  returning whether it removed any; \<open>Remove\<close> takes out the version at a timestamp and returns it;
  \<open>FirstAtOrAbove\<close> returns the oldest version at or above a timestamp, \<open>FirstAtOrBelow\<close> the newest at
  or below it; \<open>HasBetween\<close> tells whether a version lies between two timestamps; and a stack is still
  ordered after each removal.\<close>

theorem version_stack_operations:
  assumes "newest_first v"
  shows "Excise v from0 to0 = ((\<exists>x \<in> set v. inside from0 to0 x), filter (\<lambda>x. \<not> inside from0 to0 x) v) \<and>
    Trim v from0 to0 = ((\<exists>x \<in> set v. \<not> inside from0 to0 x), filter (inside from0 to0) v) \<and>
    RemoveVersion v ts = (List.find (\<lambda>x. VTimestamp x = ts) v, filter (\<lambda>x. VTimestamp x \<noteq> ts) v) \<and>
    FirstAtOrAbove v ts =
      (let w = filter (\<lambda>x. LessEq ts (VTimestamp x)) v in if w = [] then None else Some (last w)) \<and>
    FirstAtOrBelow v ts =
      (let w = filter (\<lambda>x. LessEq (VTimestamp x) ts) v in if w = [] then None else Some (hd w)) \<and>
    (HasBetween v from0 to0 \<longleftrightarrow> (\<exists>x \<in> set v. inside from0 to0 x)) \<and>
    newest_first (snd (Excise v from0 to0)) \<and> newest_first (snd (Trim v from0 to0)) \<and>
    newest_first (snd (RemoveVersion v ts))"
  by (simp only: Excise_spec [OF assms] Trim_spec [OF assms] RemoveVersion_spec [OF assms]
      FirstAtOrAbove_spec [OF assms] FirstAtOrBelow_spec [OF assms] HasBetween_spec [OF assms]
      newest_first_filter [OF assms] snd_conv simp_thms)

definition ver_at :: "int64 \<Rightarrow> MVCCRangeKeyVersion" where
  "ver_at w = \<lparr>VTimestamp = \<lparr>WallTime = w, Logical = 0, Synthetic = False\<rparr>, VValue = []\<rparr>"

theorem version_stack_operations_witness:
  "Excise [ver_at 9, ver_at 7, ver_at 4] (VTimestamp (ver_at 5)) (VTimestamp (ver_at 8)) = (True, [ver_at 9, ver_at 4]) \<and>
   Trim [ver_at 9, ver_at 7, ver_at 4] (VTimestamp (ver_at 5)) (VTimestamp (ver_at 8)) = (True, [ver_at 7]) \<and>
   RemoveVersion [ver_at 9, ver_at 7, ver_at 4] (VTimestamp (ver_at 7)) = (Some (ver_at 7), [ver_at 9, ver_at 4]) \<and>
   FirstAtOrAbove [ver_at 9, ver_at 7, ver_at 4] (VTimestamp (ver_at 5)) = Some (ver_at 7) \<and>
   FirstAtOrBelow [ver_at 9, ver_at 7, ver_at 4] (VTimestamp (ver_at 5)) = Some (ver_at 4)"
proof -
  have ok: "newest_first [ver_at 9, ver_at 7, ver_at 4]" by (simp add: newest_first_def ver_at_def Less_def)
  have t: "VTimestamp (ver_at a) = VTimestamp (ver_at b) \<longleftrightarrow> a = b"
    "LessEq (VTimestamp (ver_at a)) (VTimestamp (ver_at b)) \<longleftrightarrow> sint a \<le> sint b" for a b
    by (auto simp: ver_at_def LessEq_def order_le_less simp flip: sint_eq_iff)
  show ?thesis
    using version_stack_operations [OF ok, of "VTimestamp (ver_at 5)" "VTimestamp (ver_at 8)" "VTimestamp (ver_at 5)"]
      version_stack_operations [OF ok, of "VTimestamp (ver_at 5)" "VTimestamp (ver_at 8)" "VTimestamp (ver_at 7)"]
    by (simp add: inside_def t Let_def)
qed

end
