(* ===== verification/Leases.thy ===== *)
theory Leases
  imports Replicas Hlc
begin

text \<open>
  Range leases: the lease record and its equivalence (\<open>engine/pkg/roachpb/data.go\<close>), the status of a
  lease at a point in time, the check a replica makes before serving a request and the lease it
  asks for (\<open>engine/pkg/kv/kvserver/replica_range_lease.go\<close>), and the evaluation of lease requests and
  transfers (\<open>engine/pkg/kv/kvserver/batcheval/cmd_lease.go\<close>, \<open>cmd_lease_request.go\<close>,
  \<open>cmd_lease_transfer.go\<close>).

  Pointers to timestamps are options.  \<open>Equivalent\<close> compares structs that hold such pointers; where it
  leaves a pointer in place the two timestamps differ, so comparing the options is the same.  Clock
  readings carry no synthetic flag, so the panic of \<open>ClockTimestamp.ToTimestamp\<close> on such a flag is left
  out here.  How liveness records are written and what a lease task does with them before it sends a
  request is in theory \<open>Node_Liveness\<close>.  What a
  replica reads of its store (liveness records, settings, durations) is part of the record
  \<open>Replica_t\<close>; clock readings and the writes to the batch are arguments.
\<close>

subsection \<open>Leases\<close>

record Lease =
  LeaseStart :: Timestamp
  LeaseExp :: "Timestamp option"
  LeaseReplica :: ReplicaDescriptor
  LeaseStasis :: "Timestamp option"
  LeaseProposedTS :: "Timestamp option"
  LeaseEpochNo :: int64
  LeaseSeq :: int64
  LeaseAcq :: int

datatype LeaseType_t = LeaseNone | LeaseExpiration | LeaseEpoch

definition emptyLease :: Lease where
  "emptyLease = \<lparr>LeaseStart = emptyTimestamp, LeaseExp = None, LeaseReplica = noReplica, LeaseStasis = None,
     LeaseProposedTS = None, LeaseEpochNo = 0, LeaseSeq = 0, LeaseAcq = 0\<rparr>"

definition LeaseEmpty :: "Lease option \<Rightarrow> bool" where
  "LeaseEmpty l \<longleftrightarrow> l = None \<or> l = Some emptyLease"

definition OwnedBy :: "Lease \<Rightarrow> int32 \<Rightarrow> bool" where
  "OwnedBy l store \<longleftrightarrow> StoreID (LeaseReplica l) = store"

definition LeaseType :: "Lease \<Rightarrow> LeaseType_t" where
  "LeaseType l = (if LeaseEpochNo l = 0 then LeaseExpiration else LeaseEpoch)"

definition Speculative :: "Lease \<Rightarrow> bool" where
  "Speculative l \<longleftrightarrow> LeaseSeq l = 0"

definition GetExpiration :: "Lease \<Rightarrow> Timestamp" where
  "GetExpiration l = (case LeaseExp l of None \<Rightarrow> emptyTimestamp | Some e \<Rightarrow> e)"

definition ignoreFields :: "Lease \<Rightarrow> Lease" where
  "ignoreFields l = l\<lparr>LeaseProposedTS := None, LeaseStasis := None, LeaseSeq := 0, LeaseAcq := 0,
     LeaseReplica := (LeaseReplica l)\<lparr>RType := VOTER_FULL\<rparr>\<rparr>"

definition Equivalent :: "Lease \<Rightarrow> Lease \<Rightarrow> bool" where
  "Equivalent l newL =
    (let l1 = ignoreFields l; newL1 = ignoreFields newL in
     case LeaseType l1 of
       LeaseEpoch \<Rightarrow>
         let l2 = l1\<lparr>LeaseExp := None\<rparr>; newL2 = newL1\<lparr>LeaseExp := None\<rparr> in
         if LeaseEpochNo l2 = LeaseEpochNo newL2
         then l2\<lparr>LeaseEpochNo := 0\<rparr> = newL2\<lparr>LeaseEpochNo := 0\<rparr>
         else l2 = newL2
     | LeaseExpiration \<Rightarrow>
         let l2 = l1\<lparr>LeaseEpochNo := 0\<rparr>; newL2 = newL1\<lparr>LeaseEpochNo := 0\<rparr> in
         if LessEq (GetExpiration l2) (GetExpiration newL2)
         then l2\<lparr>LeaseExp := None\<rparr> = newL2\<lparr>LeaseExp := None\<rparr>
         else l2 = newL2
     | LeaseNone \<Rightarrow> l1 = newL1)"

definition equivalentTimestamps :: "Timestamp option \<Rightarrow> Timestamp option \<Rightarrow> bool" where
  "equivalentTimestamps a b =
    (case a of
       None \<Rightarrow> (case b of None \<Rightarrow> True | Some t \<Rightarrow> if IsEmpty t then True else False)
     | Some s \<Rightarrow> (case b of None \<Rightarrow> if IsEmpty s then True else False | Some t \<Rightarrow> s = t))"

definition LeaseEqual :: "Lease \<Rightarrow> Lease \<Rightarrow> bool" where
  "LeaseEqual l that \<longleftrightarrow>
     LeaseStart l = LeaseStart that \<and> equivalentTimestamps (LeaseExp l) (LeaseExp that) \<and>
     LeaseReplica l = LeaseReplica that \<and> equivalentTimestamps (LeaseStasis l) (LeaseStasis that) \<and>
     LeaseProposedTS l = LeaseProposedTS that \<and> LeaseEpochNo l = LeaseEpochNo that \<and> LeaseSeq l = LeaseSeq that"

subsection \<open>Node liveness\<close>

datatype MembershipStatus = ACTIVE | DECOMMISSIONING | DECOMMISSIONED

record Liveness =
  LvNodeID :: int32
  LvEpoch :: int64
  LvExpiration :: LegacyTimestamp
  Draining :: bool
  Membership :: MembershipStatus

definition noLiveness :: Liveness where
  "noLiveness = \<lparr>LvNodeID = 0, LvEpoch = 0, LvExpiration = ToLegacyTimestamp emptyTimestamp, Draining = False,
     Membership = ACTIVE\<rparr>"

definition LivenessCompare :: "Liveness \<Rightarrow> Liveness \<Rightarrow> int" where
  "LivenessCompare l ou =
    (if LvEpoch l \<noteq> LvEpoch ou then (if sint (LvEpoch l) < sint (LvEpoch ou) then - 1 else 1)
     else if \<not> LegacyEqOrdering (LvExpiration l) (LvExpiration ou)
     then (if LegacyLess (LvExpiration l) (LvExpiration ou) then - 1 else 1)
     else 0)"

definition ValidateTransition :: "Liveness \<Rightarrow> Liveness \<Rightarrow> unit result" where
  "ValidateTransition old new =
    (if Membership old = Membership new then Inr ()
     else if Membership old = DECOMMISSIONED \<and> Membership new = DECOMMISSIONING then Inr ()
     else if Membership new = ACTIVE \<and> \<not> Membership old = DECOMMISSIONING
     then Inl (Errorf ''can only recommission a decommissioning node; n%d found to be %s'')
     else if Membership new = DECOMMISSIONED \<and> \<not> Membership old = DECOMMISSIONING
     then Inl (Errorf ''can only fully decommission an already decommissioning node; n%d found to be %s'')
     else Inr ())"

subsection \<open>The status of a lease\<close>

datatype LeaseState = ERROR | VALID | UNUSABLE | EXPIRED | PROSCRIBED

record LeaseStatus =
  StLease :: Lease
  StNow :: Timestamp
  RequestTime :: Timestamp
  State :: LeaseState
  ErrInfo :: string
  StLiveness :: Liveness
  MinValidObservedTimestamp :: Timestamp

definition StIsValid :: "LeaseStatus \<Rightarrow> bool" where
  "StIsValid st \<longleftrightarrow> State st = VALID"

definition StOwnedBy :: "LeaseStatus \<Rightarrow> int32 \<Rightarrow> bool" where
  "StOwnedBy st store = OwnedBy (StLease st) store"

definition StExpiration :: "LeaseStatus \<Rightarrow> Timestamp result" where
  "StExpiration st =
    (case LeaseType (StLease st) of
       LeaseExpiration \<Rightarrow> Inr (GetExpiration (StLease st))
     | LeaseEpoch \<Rightarrow> Inr (LegacyToTimestamp (LvExpiration (StLiveness st)))
     | LeaseNone \<Rightarrow> Inl (Panic ''unexpected''))"

definition ClosedTimestampUpperBound :: "LeaseStatus \<Rightarrow> Timestamp result" where
  "ClosedTimestampUpperBound st = rbind (StExpiration st) (\<lambda>e. Inr (WallPrev (WithSynthetic e True)))"

text \<open>What a replica holds and reads of its store: the cache of liveness records (nil in some tests), the
  maximum clock offset, the replicated state, the timestamps that bound which leases it may use, the
  lease it is asking for, the setting for expiration-based leases and the renewal durations.\<close>

record Replica_t =
  storeID :: int32
  NodeLiveness :: "(int32 \<Rightarrow> Liveness option) option"
  MaxOffset :: int64
  stateLease :: Lease
  stateDesc :: RangeDescriptor
  minLeaseProposedTS :: Timestamp
  minValidObservedTimestamp :: Timestamp
  nextLease :: Lease
  ExpirationLeasesOnly :: bool
  rangeLeaseDuration :: int64
  rangeLeaseRenewal :: int64
  livenessRenewal :: int64

definition leaseState :: "Replica_t \<Rightarrow> Lease \<Rightarrow> Timestamp \<Rightarrow> Timestamp \<Rightarrow> Timestamp \<Rightarrow> Timestamp \<Rightarrow> LeaseState" where
  "leaseState r lease now minProposedTS reqTS expiration =
    (let stasis = Add expiration (- MaxOffset r) 0;
         ownedLocally = OwnedBy lease (storeID r)
     in if LessEq expiration now then EXPIRED
        else if ownedLocally \<and> (case LeaseProposedTS lease of None \<Rightarrow> False | Some p \<Rightarrow> Less p minProposedTS)
        then PROSCRIBED
        else if LessEq stasis reqTS then UNUSABLE
        else VALID)"

definition leaseStatus :: "Replica_t \<Rightarrow> Lease \<Rightarrow> Timestamp \<Rightarrow> Timestamp \<Rightarrow> Timestamp \<Rightarrow> Timestamp \<Rightarrow> LeaseStatus result" where
  "leaseStatus r lease now minProposedTS minValidObservedTS reqTS =
    (let status = \<lparr>StLease = lease, StNow = now, RequestTime = reqTS, State = ERROR, ErrInfo = [],
                   StLiveness = noLiveness, MinValidObservedTimestamp = minValidObservedTS\<rparr>
     in if LeaseType lease = LeaseExpiration
        then Inr (status\<lparr>State := leaseState r lease now minProposedTS reqTS (GetExpiration lease)\<rparr>)
        else case NodeLiveness r of
          None \<Rightarrow> Inl (Panic ''invalid memory address or nil pointer dereference'')
        | Some getLiveness \<Rightarrow>
            case getLiveness (NodeID (LeaseReplica lease)) of
              None \<Rightarrow> Inr (status\<lparr>ErrInfo := ''can't determine lease status of %s due to node liveness error: %v''\<rparr>)
            | Some l \<Rightarrow>
                let status = status\<lparr>StLiveness := l\<rparr> in
                if sint (LvEpoch l) < sint (LeaseEpochNo lease)
                then Inr (status\<lparr>ErrInfo := ''can't determine lease status of %s because node liveness info for n%d is stale. lease: %s, liveness: %s''\<rparr>)
                else if sint (LvEpoch l) > sint (LeaseEpochNo lease) then Inr (status\<lparr>State := EXPIRED\<rparr>)
                else Inr (status\<lparr>State := leaseState r lease now minProposedTS reqTS (LegacyToTimestamp (LvExpiration l))\<rparr>))"

definition leaseStatusForRequestRLocked :: "Replica_t \<Rightarrow> Timestamp \<Rightarrow> Timestamp \<Rightarrow> LeaseStatus result" where
  "leaseStatusForRequestRLocked r now reqTS =
    (let reqTS1 = (if IsEmpty reqTS then now else reqTS) in
     leaseStatus r (stateLease r) now (minLeaseProposedTS r) (minValidObservedTimestamp r) reqTS1)"

definition leaseStatusAtRLocked :: "Replica_t \<Rightarrow> Timestamp \<Rightarrow> LeaseStatus result" where
  "leaseStatusAtRLocked r now = leaseStatusForRequestRLocked r now emptyTimestamp"

definition ownsValidLeaseRLocked :: "Replica_t \<Rightarrow> Timestamp \<Rightarrow> bool result" where
  "ownsValidLeaseRLocked r now =
     rbind (leaseStatusAtRLocked r now) (\<lambda>st. Inr (StIsValid st \<and> StOwnedBy st (storeID r)))"

subsection \<open>Serving a request\<close>

definition NodeLivenessKeyMax :: bytes where
  "NodeLivenessKeyMax = PrefixEnd ([4] @ 0 # map of_char ''liveness-'')"

definition requiresExpirationLeaseRLocked :: "Replica_t \<Rightarrow> bool" where
  "requiresExpirationLeaseRLocked r \<longleftrightarrow> NodeLiveness r = None \<or> StartKey (stateDesc r) < NodeLivenessKeyMax"

definition shouldUseExpirationLeaseRLocked :: "Replica_t \<Rightarrow> bool" where
  "shouldUseExpirationLeaseRLocked r \<longleftrightarrow> ExpirationLeasesOnly r \<or> requiresExpirationLeaseRLocked r"

definition hasCorrectLeaseTypeRLocked :: "Replica_t \<Rightarrow> Lease \<Rightarrow> bool" where
  "hasCorrectLeaseTypeRLocked r lease \<longleftrightarrow>
     (LeaseType lease = LeaseExpiration) = shouldUseExpirationLeaseRLocked r"

definition RequestPending :: "Replica_t \<Rightarrow> Lease \<times> bool" where
  "RequestPending r = (nextLease r, nextLease r \<noteq> emptyLease)"

definition checkRequestTimeRLocked :: "Replica_t \<Rightarrow> Timestamp \<Rightarrow> Timestamp \<Rightarrow> unit result" where
  "checkRequestTimeRLocked r now reqTS =
    (let leaseRenewal = (if shouldUseExpirationLeaseRLocked r then rangeLeaseRenewal r else livenessRenewal r);
         leaseRenewalMinusStasis = leaseRenewal - MaxOffset r;
         leaseRenewalMinusStasis1 = (if sint leaseRenewalMinusStasis < 0 then 0 else leaseRenewalMinusStasis);
         maxReqTS = Add now leaseRenewalMinusStasis1 0
     in if Less maxReqTS reqTS then Inl (Errorf ''request timestamp %s too far in future (> %s)'')
        else Inr ())"

definition shouldExtendLeaseRLocked :: "Replica_t \<Rightarrow> LeaseStatus \<Rightarrow> bool result" where
  "shouldExtendLeaseRLocked r st =
    (if LeaseType (StLease st) \<noteq> LeaseExpiration then Inr False
     else if \<not> OwnedBy (StLease st) (storeID r) then Inr False
     else if snd (RequestPending r) then Inr False
     else case LeaseExp (StLease st) of
       None \<Rightarrow> Inl (Panic ''invalid memory address or nil pointer dereference'')
     | Some e \<Rightarrow> Inr (LessEq (Add e (- rangeLeaseRenewal r) 0) (StNow st)))"

text \<open>The structured errors of the check carry their name.\<close>

definition leaseGoodToGoForStatusRLocked :: "Replica_t \<Rightarrow> Timestamp \<Rightarrow> Timestamp \<Rightarrow> LeaseStatus \<Rightarrow> bool result" where
  "leaseGoodToGoForStatusRLocked r now reqTS st =
     rbind (checkRequestTimeRLocked r now reqTS) (\<lambda>_.
       if \<not> StIsValid st then Inl (Errorf ''InvalidLeaseError'')
       else if \<not> OwnedBy (StLease st) (storeID r)
       then Inl (Errorf ''NotLeaseHolderError: lease held by different store'')
       else shouldExtendLeaseRLocked r st)"

definition leaseGoodToGoRLocked :: "Replica_t \<Rightarrow> Timestamp \<Rightarrow> Timestamp \<Rightarrow> (LeaseStatus \<times> bool) result" where
  "leaseGoodToGoRLocked r now reqTS =
     rbind (leaseStatusForRequestRLocked r now reqTS) (\<lambda>st.
       rbind (leaseGoodToGoForStatusRLocked r now reqTS st) (\<lambda>shouldExtend. Inr (st, shouldExtend)))"

subsection \<open>Asking for a lease\<close>

datatype LeaseRequest = TransferLeaseRequest Lease Lease bool | RequestLeaseRequest Lease Lease Timestamp

datatype LeaseHandle = Joined | Resolved string | Pending LeaseRequest

text \<open>\<open>transferExpiration\<close> is the setting, with its version gate, by which transfers use expiration-based
  leases first; \<open>started\<close> tells whether the asynchronous task could be started.  \<open>log.Fatalf\<close> is a
  panic.\<close>

definition makeReqLease :: "Replica_t \<Rightarrow> ReplicaDescriptor \<Rightarrow> LeaseStatus \<Rightarrow> bool \<Rightarrow> Lease option" where
  "makeReqLease r nextLeaseHolder status useExpiration =
    (let reqLease = emptyLease\<lparr>LeaseStart := StNow status, LeaseReplica := nextLeaseHolder,
                               LeaseProposedTS := Some (StNow status)\<rparr>
     in if useExpiration then Some (reqLease\<lparr>LeaseExp := Some (Add (StNow status) (rangeLeaseDuration r) 0)\<rparr>)
        else case (case NodeLiveness r of None \<Rightarrow> None | Some get \<Rightarrow> get (NodeID nextLeaseHolder)) of
          None \<Rightarrow> None
        | Some l \<Rightarrow> if LvEpoch l = 0 then None else Some (reqLease\<lparr>LeaseEpochNo := LvEpoch l\<rparr>))"

definition InitOrJoinRequest ::
    "Replica_t \<Rightarrow> ReplicaDescriptor \<Rightarrow> LeaseStatus \<Rightarrow> bool \<Rightarrow> bool \<Rightarrow> bool \<Rightarrow> (LeaseHandle \<times> Replica_t) result" where
  "InitOrJoinRequest r nextLeaseHolder status bypassSafetyChecks transferExpiration started =
    (case RequestPending r of (pending, ok) \<Rightarrow>
      if ok then
        (if ReplicaID (LeaseReplica pending) = ReplicaID nextLeaseHolder then Inr (Joined, r)
         else Inr (Resolved ''request for different replica in progress (requesting: %+v, in progress: %+v)'', r))
      else
        let prevLocal = OwnedBy (StLease status) (storeID r);
            nextLocal = (StoreID nextLeaseHolder = storeID r);
            acquisition = (\<not> prevLocal \<and> nextLocal);
            transfer = (prevLocal \<and> \<not> nextLocal);
            remote = (\<not> prevLocal \<and> \<not> nextLocal)
        in if remote then Inl (Panic ''cannot acquire/extend lease for remote replica: %v -> %v'')
           else if acquisition \<and> State status \<noteq> EXPIRED
           then Inl (Panic ''cannot acquire lease from another node before it has expired: %v'')
           else case makeReqLease r nextLeaseHolder status
                       (shouldUseExpirationLeaseRLocked r \<or> (transfer \<and> transferExpiration)) of
             None \<Rightarrow> Inr (Resolved ''couldn't request lease for %+v: %v'', r)
           | Some reqLease \<Rightarrow>
               if \<not> transfer \<and> bypassSafetyChecks
               then Inl (Panic ''bypassSafetyChecks not supported for RequestLeaseRequest'')
               else
                 let leaseReq = (if transfer then TransferLeaseRequest reqLease (StLease status) bypassSafetyChecks
                                 else RequestLeaseRequest reqLease (StLease status) (minLeaseProposedTS r))
                 in if \<not> started
                    then Inr (Resolved ''lease acquisition task couldn't be started; node is shutting down'', r)
                    else Inr (Pending leaseReq, r\<lparr>nextLease := reqLease\<rparr>))"

subsection \<open>Read summaries\<close>

record ReadSummary =
  LocalLowWater :: Timestamp
  GlobalLowWater :: Timestamp

definition FromTimestamp :: "Timestamp \<Rightarrow> ReadSummary" where
  "FromTimestamp ts = \<lparr>LocalLowWater = ts, GlobalLowWater = ts\<rparr>"

definition MergeSummary :: "ReadSummary \<Rightarrow> ReadSummary \<Rightarrow> ReadSummary" where
  "MergeSummary c ou =
    \<lparr>LocalLowWater = fst (Forward (LocalLowWater c) (LocalLowWater ou)),
     GlobalLowWater = fst (Forward (GlobalLowWater c) (GlobalLowWater ou))\<rparr>"

subsection \<open>Evaluating a lease\<close>

record LeaseResult =
  ResLease :: Lease
  PrevLeaseProposal :: "Timestamp option"
  PriorReadSummary :: "ReadSummary option"

text \<open>\<open>SetLease\<close> and \<open>SetSummary\<close> are the writes to the batch.\<close>

definition evalNewLease ::
    "RangeDescriptor \<Rightarrow> (Lease \<Rightarrow> unit result) \<Rightarrow> (ReadSummary \<Rightarrow> unit result) \<Rightarrow> Lease \<Rightarrow> Lease \<Rightarrow>
      ReadSummary option \<Rightarrow> bool \<Rightarrow> LeaseResult result" where
  "evalNewLease desc SetLease SetSummary lease prevLease priorReadSum isTransfer =
    (if LeaseProposedTS lease = None then Inl (Errorf ''ProposedTS must be set'')
     else if (LeaseType lease = LeaseExpiration \<and> LessEq (GetExpiration lease) (LeaseStart lease)) \<or>
             (LeaseType lease = LeaseEpoch \<and> LeaseExp lease \<noteq> None)
     then Inl (Errorf ''illegal lease: epoch=%d, interval=[%s, %s)'')
     else if GetReplicaDescriptor desc (StoreID (LeaseReplica lease)) = None
     then Inl (Errorf ''replica not found'')
     else if LeaseSeq lease \<noteq> 0 then Inl (Errorf ''sequence number should not be set'')
     else
       let lease1 = (if Equivalent prevLease lease then lease\<lparr>LeaseSeq := LeaseSeq prevLease\<rparr>
                     else lease\<lparr>LeaseSeq := LeaseSeq prevLease + 1\<rparr>);
           lease2 = lease1\<lparr>LeaseAcq := (if isTransfer then 1 else 2)\<rparr>
       in rbind (SetLease lease2) (\<lambda>_.
            rbind (case priorReadSum of None \<Rightarrow> Inr () | Some s \<Rightarrow> SetSummary s) (\<lambda>_.
              Inr \<lparr>ResLease = lease2, PrevLeaseProposal = LeaseProposedTS prevLease,
                   PriorReadSummary = priorReadSum\<rparr>)))"

definition effectiveStartOf :: "Lease \<Rightarrow> Lease \<Rightarrow> bool \<Rightarrow> Timestamp option \<Rightarrow> Timestamp result" where
  "effectiveStartOf prevLease newLease isExtension MinProposedTS =
    (if StoreID (LeaseReplica prevLease) = 0 \<or> isExtension then
       let effectiveStart = Backward (LeaseStart newLease) (LeaseStart prevLease) in
       Inr (case MinProposedTS of None \<Rightarrow> effectiveStart
            | Some ts \<Rightarrow> if isExtension then fst (Forward effectiveStart ts) else effectiveStart)
     else if LeaseType prevLease = LeaseExpiration then
       (case LeaseExp prevLease of
          None \<Rightarrow> Inl (Panic ''invalid memory address or nil pointer dereference'')
        | Some e \<Rightarrow> rbind (Next e) (\<lambda>n. Inr (Backward (LeaseStart newLease) n)))
     else Inr (LeaseStart newLease))"

definition checkOverlap :: "Lease \<Rightarrow> Lease \<Rightarrow> bool \<Rightarrow> Timestamp \<Rightarrow> Lease result" where
  "checkOverlap prevLease newLease isExtension effectiveStart =
    (if isExtension then
       (if Less effectiveStart (LeaseStart prevLease)
        then Inl (Errorf ''extension moved start timestamp backwards'')
        else if LeaseType newLease = LeaseExpiration then
          (case LeaseExp newLease of
             None \<Rightarrow> Inl (Panic ''invalid memory address or nil pointer dereference'')
           | Some t \<Rightarrow> Inr (newLease\<lparr>LeaseExp := Some (fst (Forward t (GetExpiration prevLease)))\<rparr>))
        else Inr newLease)
     else if LeaseType prevLease = LeaseExpiration \<and> Less effectiveStart (GetExpiration prevLease)
     then Inl (Errorf ''requested lease overlaps previous lease'')
     else Inr newLease)"

definition RequestLease ::
    "RangeDescriptor \<Rightarrow> (Lease \<Rightarrow> unit result) \<Rightarrow> (ReadSummary \<Rightarrow> unit result) \<Rightarrow> Lease \<Rightarrow> Lease \<Rightarrow> Lease \<Rightarrow>
      Timestamp option \<Rightarrow> LeaseResult result" where
  "RequestLease desc SetLease SetSummary prevLease argsLease argsPrevLease MinProposedTS =
    (if LeaseSeq prevLease \<noteq> LeaseSeq argsPrevLease \<or> LeaseProposedTS prevLease \<noteq> LeaseProposedTS argsPrevLease
     then Inl (Errorf ''expected previous lease %s, found %s'')
     else
       let newLease = (if LeaseStasis argsLease = None then argsLease\<lparr>LeaseStasis := LeaseExp argsLease\<rparr> else argsLease);
           isExtension = (StoreID (LeaseReplica prevLease) = StoreID (LeaseReplica newLease))
       in rbind (CheckCanReceiveLease (LeaseReplica argsLease) (InternalReplicas desc) isExtension) (\<lambda>_.
          rbind (effectiveStartOf prevLease newLease isExtension MinProposedTS) (\<lambda>effectiveStart.
          rbind (checkOverlap prevLease newLease isExtension effectiveStart) (\<lambda>newLease1.
            let newLease2 = newLease1\<lparr>LeaseStart := effectiveStart\<rparr>;
                priorReadSum = (if \<not> Equivalent prevLease newLease2 then Some (FromTimestamp (LeaseStart newLease2)) else None)
            in evalNewLease desc SetLease SetSummary newLease2 prevLease priorReadSum False))))"

text \<open>A revocation and a transfer read the clock of the replica; the transfer reads it again, after the
  revocation.\<close>

definition RevokeLease :: "Replica_t \<Rightarrow> int64 \<Rightarrow> Timestamp \<Rightarrow> Replica_t" where
  "RevokeLease r seq now = (if LeaseSeq (stateLease r) = seq then r\<lparr>minLeaseProposedTS := now\<rparr> else r)"

definition TransferLease ::
    "Replica_t \<Rightarrow> (Lease \<Rightarrow> unit result) \<Rightarrow> (ReadSummary \<Rightarrow> unit result) \<Rightarrow> Lease \<Rightarrow> Lease \<Rightarrow> Timestamp \<Rightarrow> Timestamp \<Rightarrow>
      (Replica_t \<Rightarrow> ReadSummary) \<Rightarrow> LeaseResult result \<times> Replica_t" where
  "TransferLease r SetLease SetSummary argsLease argsPrevLease now1 now2 GetCurrentReadSummary =
    (case CheckCanReceiveLease (LeaseReplica argsLease) (InternalReplicas (stateDesc r)) False of
       Inl e \<Rightarrow> (Inl e, r)
     | Inr _ \<Rightarrow>
         let r1 = RevokeLease r (LeaseSeq argsPrevLease) now1;
             newLease = argsLease\<lparr>LeaseStart := fst (Forward (LeaseStart argsLease) now2)\<rparr>;
             priorReadSum = MergeSummary (GetCurrentReadSummary r1) (FromTimestamp (LeaseStart newLease))
         in (evalNewLease (stateDesc r1) SetLease SetSummary newLease (stateLease r1) (Some priorReadSum) True, r1))"

subsection \<open>Equivalence\<close>

lemma Equivalent_iff:
  "Equivalent l n \<longleftrightarrow> LeaseStart l = LeaseStart n \<and> IsSame (LeaseReplica l) (LeaseReplica n) \<and>
    (if LeaseType l = LeaseEpoch then LeaseEpochNo l = LeaseEpochNo n
     else LessEq (GetExpiration l) (GetExpiration n))"
proof -
  have rep: "a\<lparr>RType := VOTER_FULL\<rparr> = b\<lparr>RType := VOTER_FULL\<rparr> \<longleftrightarrow> IsSame a b" for a b :: ReplicaDescriptor
    by (cases a; cases b) (auto simp: IsSame_def)
  have "LeaseExp l = LeaseExp n \<Longrightarrow> LessEq (GetExpiration l) (GetExpiration n)"
    by (simp add: GetExpiration_def)
  then show ?thesis
    by (cases l; cases n) (auto simp: Equivalent_def ignoreFields_def LeaseType_def Let_def rep GetExpiration_def simp del: not_LessEq)
qed

lemma stasis_le:
  assumes "0 \<le> sint off" "0 \<le> sint (WallTime e)"
  shows "LessEq (Add e (- off) 0) e"
  using assms sint_diff_nonneg [OF assms(2,1)] sint_eq_iff [of off 0] by (auto simp: LessEq_def Add_def)

subsection \<open>The status in time\<close>

lemma leaseState_iff:
  "leaseState r l now mp req e = EXPIRED \<longleftrightarrow> LessEq e now"
  "leaseState r l now mp req e = VALID \<longleftrightarrow> Less now e \<and> Less req (Add e (- MaxOffset r) 0) \<and>
     \<not> (OwnedBy l (storeID r) \<and> (\<exists>p. LeaseProposedTS l = Some p \<and> Less p mp))"
  "leaseState r l now mp req e \<noteq> ERROR"
  by (auto simp: leaseState_def Let_def split: option.splits)

text \<open>The expiration a status was computed from.\<close>

definition expires :: "Replica_t \<Rightarrow> Lease \<Rightarrow> Timestamp \<Rightarrow> bool" where
  "expires r l e \<longleftrightarrow>
    (if LeaseType l = LeaseExpiration then e = GetExpiration l
     else \<exists>get lv. NodeLiveness r = Some get \<and> get (NodeID (LeaseReplica l)) = Some lv \<and>
       LvEpoch lv = LeaseEpochNo l \<and> e = LegacyToTimestamp (LvExpiration lv))"

lemma leaseStatus_VALID:
  "leaseStatus r l now mp mv req = Inr st \<Longrightarrow> State st = VALID \<Longrightarrow>
    \<exists>e. expires r l e \<and> leaseState r l now mp req e = VALID"
  by (auto simp: leaseStatus_def expires_def Let_def not_less sint_eq_iff order_antisym split: if_splits option.splits)

subsection \<open>Accepted leases\<close>

lemma evalNewLease_Inr:
  assumes "evalNewLease desc SetLease SetSummary lease prev priorReadSum tr = Inr res"
  shows "ResLease res = lease\<lparr>LeaseSeq := (if Equivalent prev lease then LeaseSeq prev else LeaseSeq prev + 1),
      LeaseAcq := (if tr then 1 else 2)\<rparr>"
    "PriorReadSummary res = priorReadSum"
    "LeaseType lease = LeaseExpiration \<Longrightarrow> Less (LeaseStart lease) (GetExpiration lease)"
    "LeaseType lease = LeaseEpoch \<Longrightarrow> LeaseExp lease = None"
    "LeaseProposedTS lease \<noteq> None"
  using assms by (auto simp: evalNewLease_def Let_def rbind_Inr_conv split: if_splits)

lemma Equivalent_seq [simp]: "Equivalent l (n\<lparr>LeaseSeq := s, LeaseAcq := a\<rparr>) \<longleftrightarrow> Equivalent l n"
  by (simp add: Equivalent_iff GetExpiration_def)

lemma evalNewLease_seq:
  assumes "evalNewLease desc SetLease SetSummary lease prev priorReadSum tr = Inr res"
  shows "LeaseSeq (ResLease res) = (if Equivalent prev (ResLease res) then LeaseSeq prev else LeaseSeq prev + 1)"
  unfolding evalNewLease_Inr(1) [OF assms] by simp

lemma RequestLease_Inr:
  assumes "RequestLease desc SetLease SetSummary prev args argsPrev minTS = Inr res"
  obtains new ext start new1 where
    "new = (if LeaseStasis args = None then args\<lparr>LeaseStasis := LeaseExp args\<rparr> else args)"
    "ext \<longleftrightarrow> StoreID (LeaseReplica prev) = StoreID (LeaseReplica args)"
    "effectiveStartOf prev new ext minTS = Inr start" "checkOverlap prev new ext start = Inr new1"
    "evalNewLease desc SetLease SetSummary (new1\<lparr>LeaseStart := start\<rparr>) prev
       (if \<not> Equivalent prev (new1\<lparr>LeaseStart := start\<rparr>) then Some (FromTimestamp start) else None) False = Inr res"
  using assms by (auto simp: RequestLease_def Let_def rbind_Inr_conv split: if_splits)

lemma RequestLease_takeover:
  assumes "RequestLease desc SetLease SetSummary prev args argsPrev minTS = Inr res"
    and "StoreID (LeaseReplica prev) \<noteq> StoreID (LeaseReplica args)"
  shows "LeaseType prev = LeaseExpiration \<Longrightarrow> LessEq (GetExpiration prev) (LeaseStart (ResLease res))"
    "LeaseType prev = LeaseEpoch \<Longrightarrow> StoreID (LeaseReplica prev) \<noteq> 0 \<Longrightarrow> LeaseStart (ResLease res) = LeaseStart args"
    "PriorReadSummary res = Some (FromTimestamp (LeaseStart (ResLease res)))"
proof -
  obtain new ext start new1 where
      new: "new = (if LeaseStasis args = None then args\<lparr>LeaseStasis := LeaseExp args\<rparr> else args)"
    and ext: "ext \<longleftrightarrow> StoreID (LeaseReplica prev) = StoreID (LeaseReplica args)"
    and start: "effectiveStartOf prev new ext minTS = Inr start"
    and over: "checkOverlap prev new ext start = Inr new1"
    and eval: "evalNewLease desc SetLease SetSummary (new1\<lparr>LeaseStart := start\<rparr>) prev
       (if \<not> Equivalent prev (new1\<lparr>LeaseStart := start\<rparr>) then Some (FromTimestamp start) else None) False = Inr res"
    using RequestLease_Inr [OF assms(1)] by metis
  have no: "\<not> ext" using ext assms(2) by simp
  have st: "LeaseStart (ResLease res) = start" using evalNewLease_Inr(1) [OF eval] by simp
  have new1: "new1 = new" "LeaseType prev = LeaseExpiration \<Longrightarrow> LessEq (GetExpiration prev) start"
    using over no by (auto simp: checkOverlap_def split: if_splits)
  have rep: "LeaseReplica new = LeaseReplica args" "LeaseStart new = LeaseStart args" by (simp_all add: new)
  then have "\<not> IsSame (LeaseReplica prev) (LeaseReplica (new1\<lparr>LeaseStart := start\<rparr>))"
    using assms(2) by (simp add: IsSame_def new1(1))
  then show "PriorReadSummary res = Some (FromTimestamp (LeaseStart (ResLease res)))"
    using evalNewLease_Inr(2) [OF eval] st by (simp add: Equivalent_iff)
  show "LeaseType prev = LeaseExpiration \<Longrightarrow> LessEq (GetExpiration prev) (LeaseStart (ResLease res))"
    using new1(2) st by simp
  show "LeaseType prev = LeaseEpoch \<Longrightarrow> StoreID (LeaseReplica prev) \<noteq> 0 \<Longrightarrow> LeaseStart (ResLease res) = LeaseStart args"
    using start no rep(2) st by (simp add: effectiveStartOf_def)
qed

text \<open>An acquisition: the request a replica makes for a lease another store owns.\<close>

lemma makeReqLease_Some:
  "makeReqLease r rep st exp = Some l \<Longrightarrow> LeaseStart l = StNow st \<and> LeaseReplica l = rep"
  by (auto simp: makeReqLease_def Let_def split: if_splits option.splits)

lemma InitOrJoinRequest_acquisition:
  assumes "InitOrJoinRequest r rep st bypass te started = Inr (Pending (RequestLeaseRequest new prev minTS), r')"
    and "\<not> OwnedBy (StLease st) (storeID r)"
  shows "State st = EXPIRED" "LeaseStart new = StNow st" "StoreID (LeaseReplica new) = storeID r" "prev = StLease st"
    "nextLease r' = new"
  using assms by (auto simp: InitOrJoinRequest_def Let_def dest: makeReqLease_Some split: prod.splits if_splits option.splits)

lemma leaseStatus_fields:
  "leaseStatus r l now mp mv req = Inr st \<Longrightarrow> StLease st = l \<and> StNow st = now \<and> RequestTime st = req \<and>
    MinValidObservedTimestamp st = mv"
  by (auto simp: leaseStatus_def Let_def split: if_splits option.splits)

lemma LeaseType_cases: "LeaseType l = LeaseExpiration \<or> LeaseType l = LeaseEpoch"
  by (simp add: LeaseType_def)

subsection \<open>The history of a range's leases\<close>

text \<open>The leases a range goes through, the newest first: each is accepted against the one before it.\<close>

inductive lease_history :: "Lease list \<Rightarrow> bool" where
  first: "lease_history [l]"
| request: "lease_history (prev # h) \<Longrightarrow>
    RequestLease desc SetLease SetSummary prev args argsPrev minTS = Inr res \<Longrightarrow>
    lease_history (ResLease res # prev # h)"
| transfer: "lease_history (prev # h) \<Longrightarrow> stateLease r = prev \<Longrightarrow>
    fst (TransferLease r SetLease SetSummary args argsPrev now1 now2 summary) = Inr res \<Longrightarrow>
    lease_history (ResLease res # prev # h)"

lemma TransferLease_seq:
  assumes "fst (TransferLease r SetLease SetSummary args argsPrev now1 now2 summary) = Inr res"
  shows "LeaseSeq (ResLease res) =
    (if Equivalent (stateLease r) (ResLease res) then LeaseSeq (stateLease r) else LeaseSeq (stateLease r) + 1)"
proof -
  have lease: "stateLease (RevokeLease r x y) = stateLease r" for x y by (simp add: RevokeLease_def)
  show ?thesis
    using assms unfolding TransferLease_def Let_def by (auto simp: lease dest: evalNewLease_seq split: sum.splits)
qed

lemma RequestLease_seq:
  assumes "RequestLease desc SetLease SetSummary prev args argsPrev minTS = Inr res"
  shows "LeaseSeq (ResLease res) = (if Equivalent prev (ResLease res) then LeaseSeq prev else LeaseSeq prev + 1)"
  using RequestLease_Inr [OF assms] evalNewLease_seq by metis

lemma history_step:
  "lease_history (l # prev # h) \<Longrightarrow>
    LeaseSeq l = (if Equivalent prev l then LeaseSeq prev else LeaseSeq prev + 1) \<and> lease_history (prev # h)"
  by (erule lease_history.cases) (auto dest: RequestLease_seq TransferLease_seq)

definition same_lease :: "Lease \<Rightarrow> Lease \<Rightarrow> bool" where
  "same_lease a b \<longleftrightarrow> LeaseStart a = LeaseStart b \<and> IsSame (LeaseReplica a) (LeaseReplica b)"

lemma same_lease_eq: "same_lease a a" "same_lease a b \<Longrightarrow> same_lease b a"
  "same_lease a b \<Longrightarrow> same_lease b c \<Longrightarrow> same_lease a c"
  by (auto simp: same_lease_def IsSame_def)

lemma history_newest:
  assumes "lease_history h" "h = l # t" "list_all (\<lambda>x. LeaseSeq x \<noteq> MaxInt64) h" "b \<in> set h"
  shows "sint (LeaseSeq b) \<le> sint (LeaseSeq l) \<and> (LeaseSeq b = LeaseSeq l \<longrightarrow> same_lease l b)"
  using assms
proof (induction t arbitrary: h l rule: list.induct)
  case (Cons prev t)
  have step: "LeaseSeq l = (if Equivalent prev l then LeaseSeq prev else LeaseSeq prev + 1)" "lease_history (prev # t)"
    using history_step Cons.prems(1,2) by blast+
  have eqv: "same_lease l prev" if "Equivalent prev l" using that by (auto simp: Equivalent_iff same_lease_def IsSame_def)
  show ?case
  proof (cases "b = l")
    case False
    then have "b \<in> set (prev # t)" "list_all (\<lambda>x. LeaseSeq x \<noteq> MaxInt64) (prev # t)" using Cons.prems by auto
    then have IH: "sint (LeaseSeq b) \<le> sint (LeaseSeq prev)" "LeaseSeq b = LeaseSeq prev \<Longrightarrow> same_lease prev b"
      using Cons.IH [OF step(2) refl] by blast+
    show ?thesis
    proof (cases "Equivalent prev l")
      case True
      then have "LeaseSeq l = LeaseSeq prev" using step(1) by simp
      then show ?thesis using IH same_lease_eq(3) [OF eqv [OF True]] by simp
    next
      case False
      have "LeaseSeq prev \<noteq> MaxInt64" using Cons.prems by simp
      then have "sint (LeaseSeq l) = sint (LeaseSeq prev) + 1" using step(1) False sint_succ64 by simp
      then show ?thesis using IH(1) by auto
    qed
  qed (simp add: same_lease_eq(1))
qed (simp add: same_lease_eq(1))

lemma history_tail: "lease_history (l # t) \<Longrightarrow> t \<noteq> [] \<Longrightarrow> lease_history t"
  by (cases t) (use history_step in blast)+

lemma history_sequence:
  assumes "lease_history h" "list_all (\<lambda>x. LeaseSeq x \<noteq> MaxInt64) h" "a \<in> set h" "b \<in> set h" "LeaseSeq a = LeaseSeq b"
  shows "same_lease a b"
  using assms
proof (induction h rule: list.induct)
  case (Cons l t)
  note newest = history_newest [OF Cons.prems(1) refl Cons.prems(2)]
  consider "a = l" | "b = l" | "a \<in> set t" "b \<in> set t" using Cons.prems(3,4) by auto
  then show ?case
  proof cases
    case 1
    then show ?thesis using newest [OF Cons.prems(4)] Cons.prems(5) by simp
  next
    case 2
    then show ?thesis using newest [OF Cons.prems(3)] Cons.prems(5) same_lease_eq(2) by simp
  next
    case 3
    then have "t \<noteq> []" by auto
    then show ?thesis using Cons.IH history_tail [OF Cons.prems(1)] Cons.prems(2,5) 3 by simp
  qed
qed simp

text \<open>C17: a lease sequence number identifies a lease.  In the history of a range, whatever requests,
  extensions and transfers were accepted, two leases with the same sequence number have the same
  holder and the same start, and a later lease never has a smaller number, so a command proposed
  under one lease can be matched against the current one by the number alone.\<close>

theorem lease_sequence_identifies:
  assumes "lease_history h" "list_all (\<lambda>x. LeaseSeq x \<noteq> MaxInt64) h" "a \<in> set h" "b \<in> set h" "LeaseSeq a = LeaseSeq b"
  shows "LeaseStart a = LeaseStart b \<and> IsSame (LeaseReplica a) (LeaseReplica b) \<and> sint (LeaseSeq a) \<le> sint (LeaseSeq (hd h))"
proof -
  obtain l t where "h = l # t" using assms(3) by (cases h) auto
  then have "sint (LeaseSeq a) \<le> sint (LeaseSeq (hd h))" using history_newest [OF assms(1) _ assms(2,3)] by simp
  then show ?thesis using history_sequence [OF assms] by (simp add: same_lease_def)
qed

subsection \<open>Transfers and extensions\<close>

lemma Forward_ge: "LessEq t (fst (Forward t s))" "LessEq s (fst (Forward t s))"
  by (auto simp: Forward_def EqOrdering_pair LessEq_pair Less_pair ts_pair_def)

lemma proscribed:
  assumes "OwnedBy (stateLease r) (storeID r)" "LeaseProposedTS (stateLease r) = Some p" "Less p (minLeaseProposedTS r)"
    and "leaseStatusForRequestRLocked r now req = Inr st"
  shows "State st \<noteq> VALID \<and> State st \<noteq> UNUSABLE"
proof -
  have no: "leaseState r (stateLease r) now (minLeaseProposedTS r) q e = EXPIRED \<or>
      leaseState r (stateLease r) now (minLeaseProposedTS r) q e = PROSCRIBED" for q e
    using assms(1-3) by (auto simp: leaseState_def Let_def)
  have "leaseState r (stateLease r) now (minLeaseProposedTS r) q e \<noteq> VALID"
    "leaseState r (stateLease r) now (minLeaseProposedTS r) q e \<noteq> UNUSABLE" for q e using no [of q e] by auto
  then show ?thesis
    using assms(4) by (auto simp: leaseStatusForRequestRLocked_def leaseStatus_def Let_def split: if_splits option.splits)
qed

lemma TransferLease_state:
  assumes "TransferLease r SetLease SetSummary args argsPrev now1 now2 summary = (Inr res, r')"
  shows "r' = RevokeLease r (LeaseSeq argsPrev) now1"
    "LeaseStart (ResLease res) = fst (Forward (LeaseStart args) now2)"
    "PriorReadSummary res = Some (MergeSummary (summary r') (FromTimestamp (LeaseStart (ResLease res))))"
proof -
  let ?r1 = "RevokeLease r (LeaseSeq argsPrev) now1" and ?new = "args\<lparr>LeaseStart := fst (Forward (LeaseStart args) now2)\<rparr>"
  have r': "r' = ?r1" and eval: "evalNewLease (stateDesc ?r1) SetLease SetSummary ?new (stateLease ?r1)
      (Some (MergeSummary (summary ?r1) (FromTimestamp (LeaseStart ?new)))) True = Inr res"
    using assms by (auto simp: TransferLease_def Let_def split: sum.splits)
  show "r' = ?r1" by (rule r')
  show "LeaseStart (ResLease res) = fst (Forward (LeaseStart args) now2)" using evalNewLease_Inr(1) [OF eval] by simp
  then show "PriorReadSummary res = Some (MergeSummary (summary r') (FromTimestamp (LeaseStart (ResLease res))))"
    using evalNewLease_Inr(2) [OF eval] r' by simp
qed

text \<open>C30: a transfer gives up the lease before it hands it on.  Once a holder has evaluated the transfer
  of the lease it uses, none of its later requests passes the lease check, at any time; the new lease starts
  no earlier than the clock reading taken after that, and the read summary it carries covers both the reads
  served so far and everything below the new start.\<close>

theorem transfer_revokes:
  assumes "TransferLease r SetLease SetSummary args argsPrev now1 now2 summary = (Inr res, r')"
    and "LeaseSeq argsPrev = LeaseSeq (stateLease r)" "OwnedBy (stateLease r) (storeID r)"
    and "LeaseProposedTS (stateLease r) = Some p" "Less p now1"
  shows "(case leaseGoodToGoRLocked r' now req of Inl _ \<Rightarrow> True | Inr _ \<Rightarrow> False) \<and>
    LessEq now2 (LeaseStart (ResLease res)) \<and>
    (case PriorReadSummary res of None \<Rightarrow> False
     | Some s \<Rightarrow> LessEq (LocalLowWater (summary r')) (LocalLowWater s) \<and> LessEq (LeaseStart (ResLease res)) (LocalLowWater s) \<and>
         LessEq (GlobalLowWater (summary r')) (GlobalLowWater s) \<and> LessEq (LeaseStart (ResLease res)) (GlobalLowWater s))"
proof -
  note state = TransferLease_state [OF assms(1)]
  have r': "stateLease r' = stateLease r" "storeID r' = storeID r" "minLeaseProposedTS r' = now1"
    using assms(2) by (simp_all add: state(1) RevokeLease_def)
  have "State st \<noteq> VALID" if "leaseStatusForRequestRLocked r' now req = Inr st" for st
    using proscribed [of r' p, OF _ _ _ that] assms(3-5) r' by simp
  then have "(case leaseGoodToGoRLocked r' now req of Inl _ \<Rightarrow> True | Inr _ \<Rightarrow> False)"
    by (auto simp: leaseGoodToGoRLocked_def leaseGoodToGoForStatusRLocked_def StIsValid_def rbind_Inr_conv split: sum.splits if_splits)
  moreover have "LessEq now2 (LeaseStart (ResLease res))" unfolding state(2) by (rule Forward_ge)
  moreover have "(case PriorReadSummary res of None \<Rightarrow> False
     | Some s \<Rightarrow> LessEq (LocalLowWater (summary r')) (LocalLowWater s) \<and> LessEq (LeaseStart (ResLease res)) (LocalLowWater s) \<and>
         LessEq (GlobalLowWater (summary r')) (GlobalLowWater s) \<and> LessEq (LeaseStart (ResLease res)) (GlobalLowWater s))"
    unfolding state(3) by (simp add: MergeSummary_def FromTimestamp_def Forward_ge)
  ultimately show ?thesis by blast
qed

lemma Backward_le: "LessEq (Backward t s) s" "LessEq (Backward t s) t"
  by (auto simp: Backward_def Let_def EqOrdering_pair LessEq_pair Less_pair ts_pair_def)

lemma extension_start:
  assumes "effectiveStartOf prev new True minTS = Inr start" "LessEq (LeaseStart prev) start"
  shows "EqOrdering start (LeaseStart prev) \<or> (\<exists>m. minTS = Some m \<and> EqOrdering start m)"
proof -
  let ?b = "Backward (LeaseStart new) (LeaseStart prev)"
  have b: "LessEq ?b (LeaseStart prev)" by (rule Backward_le)
  have eq: "EqOrdering t s" if "LessEq t s" "LessEq s t" for t s using that by (auto simp: ts_order prod_eq_iff)
  show ?thesis
  proof (cases minTS)
    case None
    then show ?thesis using assms b eq by (simp add: effectiveStartOf_def)
  next
    case (Some m)
    then have start: "start = fst (Forward ?b m)" using assms(1) by (simp add: effectiveStartOf_def)
    show ?thesis
    proof (cases "Less ?b m")
      case True
      then show ?thesis using Some start by (simp add: Forward_def EqOrdering_def)
    next
      case False
      then have "EqOrdering start ?b" using start unfolding Forward_def if_not_P [OF False] by (auto simp: EqOrdering_def)
      then have "LessEq start (LeaseStart prev)" using b by (simp add: EqOrdering_def LessEq_def)
      then show ?thesis using assms(2) eq by blast
    qed
  qed
qed

text \<open>An extension by the holder's own store.  An accepted request never moves the start of the lease
  back nor shortens its expiration: it starts with the lease it extends or at the timestamp below which the
  holder promised to propose nothing, and it keeps the sequence number exactly when the holder, the start
  and, for an epoch-based lease, the epoch are unchanged.\<close>

lemma lease_extension:
  assumes "RequestLease desc SetLease SetSummary prev args argsPrev minTS = Inr res"
    and "StoreID (LeaseReplica prev) = StoreID (LeaseReplica args)" "LeaseType args = LeaseType prev"
  shows "LessEq (LeaseStart prev) (LeaseStart (ResLease res)) \<and>
    (EqOrdering (LeaseStart (ResLease res)) (LeaseStart prev) \<or>
      (\<exists>m. minTS = Some m \<and> EqOrdering (LeaseStart (ResLease res)) m)) \<and>
    (LeaseType prev = LeaseExpiration \<longrightarrow> LessEq (GetExpiration prev) (GetExpiration (ResLease res))) \<and>
    (LeaseSeq (ResLease res) = LeaseSeq prev \<longleftrightarrow>
      IsSame (LeaseReplica prev) (LeaseReplica args) \<and> LeaseStart (ResLease res) = LeaseStart prev \<and>
      LeaseEpochNo args = LeaseEpochNo prev)"
proof -
  obtain new ext start new1 where
      new: "new = (if LeaseStasis args = None then args\<lparr>LeaseStasis := LeaseExp args\<rparr> else args)"
    and ext: "ext \<longleftrightarrow> StoreID (LeaseReplica prev) = StoreID (LeaseReplica args)"
    and start: "effectiveStartOf prev new ext minTS = Inr start"
    and over: "checkOverlap prev new ext start = Inr new1"
    and eval: "evalNewLease desc SetLease SetSummary (new1\<lparr>LeaseStart := start\<rparr>) prev
       (if \<not> Equivalent prev (new1\<lparr>LeaseStart := start\<rparr>) then Some (FromTimestamp start) else None) False = Inr res"
    using RequestLease_Inr [OF assms(1)] by metis
  have ext: "ext" using ext assms(2) by simp
  have fields: "LeaseReplica new = LeaseReplica args" "LeaseEpochNo new = LeaseEpochNo args" by (simp_all add: new)
  then have ty: "LeaseType new = LeaseType prev" using assms(3) by (simp add: LeaseType_def)
  have le: "LessEq (LeaseStart prev) start" using over ext by (simp add: checkOverlap_def split: if_splits)
  have new1: "LeaseReplica new1 = LeaseReplica new" "LeaseEpochNo new1 = LeaseEpochNo new"
    "LeaseType prev = LeaseExpiration \<Longrightarrow> LessEq (GetExpiration prev) (GetExpiration new1)"
    using over ext Forward_ge ty by (auto simp: checkOverlap_def GetExpiration_def split: if_splits option.splits)
  let ?n = "new1\<lparr>LeaseStart := start\<rparr>"
  have res: "LeaseStart (ResLease res) = start" "GetExpiration (ResLease res) = GetExpiration new1"
    "LeaseSeq (ResLease res) = LeaseSeq prev \<longleftrightarrow> Equivalent prev ?n"
    using evalNewLease_Inr(1) [OF eval] by (simp_all add: GetExpiration_def)
  have "Equivalent prev ?n \<longleftrightarrow> IsSame (LeaseReplica prev) (LeaseReplica args) \<and> start = LeaseStart prev \<and>
      LeaseEpochNo args = LeaseEpochNo prev"
    using new1 fields ty assms(3) unfolding Equivalent_iff by (auto simp: GetExpiration_def LeaseType_def split: if_splits)
  then show ?thesis
    using res le new1(3) extension_start [OF start [unfolded eqTrueI [OF ext]] le] by simp
qed

subsection \<open>Examples\<close>

text \<open>A range with two replicas; the first holds an expiration-based lease from 1 to 10, the second asks
  for it at 20.\<close>

definition ex_ts :: "int64 \<Rightarrow> Timestamp" where
  "ex_ts w = \<lparr>WallTime = w, Logical = 0, Synthetic = False\<rparr>"

definition ex_replica :: "int32 \<Rightarrow> ReplicaDescriptor" where
  "ex_replica i = \<lparr>NodeID = i, StoreID = i, ReplicaID = i, RType = VOTER_FULL\<rparr>"

definition ex_desc :: RangeDescriptor where
  "ex_desc = NewRangeDescriptor 7 [] [9] [ex_replica 1, ex_replica 2]"

definition ex_lease :: "int32 \<Rightarrow> int64 \<Rightarrow> int64 \<Rightarrow> Lease" where
  "ex_lease i a b = emptyLease\<lparr>LeaseStart := ex_ts a, LeaseExp := Some (ex_ts b), LeaseReplica := ex_replica i,
     LeaseProposedTS := Some (ex_ts a)\<rparr>"

definition ex_prev :: Lease where
  "ex_prev = (ex_lease 1 1 10)\<lparr>LeaseSeq := 3\<rparr>"

definition ex_node :: "int32 \<Rightarrow> Replica_t" where
  "ex_node i = \<lparr>storeID = i, NodeLiveness = Some (\<lambda>_. None), MaxOffset = 2, stateLease = ex_prev, stateDesc = ex_desc,
     minLeaseProposedTS = emptyTimestamp, minValidObservedTimestamp = emptyTimestamp, nextLease = emptyLease,
     ExpirationLeasesOnly = True, rangeLeaseDuration = 10, rangeLeaseRenewal = 5, livenessRenewal = 5\<rparr>"

definition ex_taken :: LeaseResult where
  "ex_taken = \<lparr>ResLease = (ex_lease 2 20 30)\<lparr>LeaseStart := (ex_ts 10)\<lparr>Logical := 1\<rparr>, LeaseStasis := Some (ex_ts 30), LeaseSeq := 4, LeaseAcq := 2\<rparr>,
     PrevLeaseProposal = Some (ex_ts 1), PriorReadSummary = Some (FromTimestamp ((ex_ts 10)\<lparr>Logical := 1\<rparr>))\<rparr>"

lemmas ex_defs = ex_ts_def ex_replica_def ex_desc_def ex_lease_def ex_prev_def emptyLease_def noReplica_def emptyTimestamp_def
  NewRangeDescriptor_def setAddReplica_def

lemma ex_request:
  "RequestLease ex_desc (\<lambda>_. Inr ()) (\<lambda>_. Inr ()) ex_prev (ex_lease 2 20 30) ex_prev (Some emptyTimestamp) = Inr ex_taken"
  by (simp add: ex_defs ex_taken_def RequestLease_def CheckCanReceiveLease_def IsVoterNewConfig_def
      effectiveStartOf_def checkOverlap_def evalNewLease_def LeaseType_def GetExpiration_def Equivalent_iff IsSame_def
      Next_def Backward_def Let_def Less_def LessEq_def bothSynthetic_def GetReplicaDescriptor_def FromTimestamp_def)

text \<open>The holder of \<open>ex_prev\<close> extends its lease to 20.\<close>

definition ex_extended :: LeaseResult where
  "ex_extended = \<lparr>ResLease = (ex_lease 1 1 20)\<lparr>LeaseProposedTS := Some (ex_ts 5), LeaseStasis := Some (ex_ts 20), LeaseSeq := 3, LeaseAcq := 2\<rparr>,
     PrevLeaseProposal = Some (ex_ts 1), PriorReadSummary = None\<rparr>"

lemma ex_extends:
  "RequestLease ex_desc (\<lambda>_. Inr ()) (\<lambda>_. Inr ()) ex_prev (ex_lease 1 5 20) ex_prev (Some emptyTimestamp) = Inr ex_extended"
  by (simp add: ex_defs ex_extended_def RequestLease_def CheckCanReceiveLease_def IsVoterNewConfig_def
      effectiveStartOf_def checkOverlap_def evalNewLease_def LeaseType_def GetExpiration_def Equivalent_iff IsSame_def
      Forward_def Backward_def Let_def Less_def LessEq_def EqOrdering_def bothSynthetic_def GetReplicaDescriptor_def)

theorem lease_sequence_identifies_witness:
  "LeaseExp (ResLease ex_extended) \<noteq> LeaseExp ex_prev \<and> LeaseStart (ResLease ex_extended) = LeaseStart ex_prev \<and>
   IsSame (LeaseReplica (ResLease ex_extended)) (LeaseReplica ex_prev)"
proof -
  have h: "lease_history [ResLease ex_extended, ex_prev]"
    by (rule lease_history.request [OF lease_history.first ex_extends])
  have ne: "LeaseExp (ResLease ex_extended) \<noteq> LeaseExp ex_prev"
    by (simp add: ex_extended_def ex_prev_def ex_lease_def ex_ts_def)
  from lease_sequence_identifies [OF h, of "ResLease ex_extended" "ex_prev"] ne show ?thesis
    by (simp add: ex_extended_def ex_prev_def)
qed

theorem transfer_revokes_witness:
  "LessEq (ex_ts 6) (LeaseStart (ResLease (projr (fst (TransferLease (ex_node 1) (\<lambda>_. Inr ()) (\<lambda>_. Inr ()) (ex_lease 2 5 30) ex_prev
      (ex_ts 5) (ex_ts 6) (\<lambda>_. FromTimestamp (ex_ts 4)))))))"
proof -
  let ?t = "TransferLease (ex_node 1) (\<lambda>_. Inr ()) (\<lambda>_. Inr ()) (ex_lease 2 5 30) ex_prev (ex_ts 5) (ex_ts 6) (\<lambda>_. FromTimestamp (ex_ts 4))"
  have "\<exists>res r'. ?t = (Inr res, r')"
    by (simp add: TransferLease_def evalNewLease_def ex_node_def ex_defs CheckCanReceiveLease_def IsVoterNewConfig_def RevokeLease_def
        LeaseType_def GetExpiration_def Forward_def LessEq_def Less_def GetReplicaDescriptor_def Let_def)
  then obtain res r' where t: "?t = (Inr res, r')" by blast
  show ?thesis
    using transfer_revokes [OF t, of "ex_ts 1"] unfolding t
    by (simp add: ex_node_def ex_defs OwnedBy_def Less_def)
qed

end
