(* ===== verification/Txn.thy ===== *)
theory Txn
  imports Keys_Spans Mvcc_Meta
begin

text \<open>
  Transactions, \<open>engine/pkg/roachpb/data.go\<close>: the transaction record and its operations, observed
  timestamps, rolled-back sequence numbers and lock updates.  The embedded
  \<open>enginepb.TxnMeta\<close> is the parent record of \<open>Transaction\<close>; methods with a pointer receiver return
  the new receiver.  A UUID is a \<open>128 word\<close> (zero for the zero UUID), a key that may be nil is an
  option, and \<open>log.Fatalf\<close> is \<open>Panic\<close>.  The random inputs are arguments: the fresh UUID of
  \<open>MakeTransaction\<close> and the result of \<open>MakePriority\<close>.
\<close>

type_synonym UUID = "128 word"

subsection \<open>Data\<close>

datatype TransactionStatus = PENDING | COMMITTED | ABORTED | STAGING

definition IsFinalized :: "TransactionStatus \<Rightarrow> bool" where
  "IsFinalized ts \<longleftrightarrow> ts = COMMITTED \<or> ts = ABORTED"

record ObservedTimestamp =
  NodeID :: int32
  OTimestamp :: ClockTimestamp

record SequencedWrite =
  WriteKey :: bytes
  WriteSequence :: TxnSeq

record TxnMeta =
  ID :: UUID
  TxnKey :: "bytes option"
  Epoch :: int32
  WriteTimestamp :: Timestamp
  TxnMinTimestamp :: Timestamp
  Priority :: int32
  Sequence :: TxnSeq
  CoordinatorNodeID :: int32

record Transaction = TxnMeta +
  Name :: string
  Status :: TransactionStatus
  LastHeartbeat :: Timestamp
  CommitTimestampFixed :: bool
  ReadTimestamp :: Timestamp
  GlobalUncertaintyLimit :: Timestamp
  ObservedTimestamps :: "ObservedTimestamp list"
  WriteTooOld :: bool
  LockSpans :: "Span list"
  InFlightWrites :: "SequencedWrite list"
  IgnoredSeqNums :: "IgnoredSeqNumRange list"

record TransactionRecord = TxnMeta +
  RecStatus :: TransactionStatus
  RecLastHeartbeat :: Timestamp
  RecLockSpans :: "Span list"
  RecInFlightWrites :: "SequencedWrite list"
  RecIgnoredSeqNums :: "IgnoredSeqNumRange list"

abbreviation (input) MinTxnPriority :: int32 where "MinTxnPriority \<equiv> 0"

definition MakeTransaction ::
    "UUID \<Rightarrow> int32 \<Rightarrow> string \<Rightarrow> bytes option \<Rightarrow> Timestamp \<Rightarrow> int64 \<Rightarrow> int32 \<Rightarrow> Transaction" where
  "MakeTransaction u priority name baseKey now maxOffsetNs coordinatorNodeID =
    (let gul = Add now maxOffsetNs 0 in
     \<lparr>ID = u, TxnKey = baseKey, Epoch = 0, WriteTimestamp = now, TxnMinTimestamp = now,
      Priority = priority, Sequence = 0, CoordinatorNodeID = coordinatorNodeID,
      Name = name, Status = PENDING, LastHeartbeat = now, CommitTimestampFixed = False,
      ReadTimestamp = now, GlobalUncertaintyLimit = gul, ObservedTimestamps = [],
      WriteTooOld = False, LockSpans = [], InFlightWrites = [], IgnoredSeqNums = []\<rparr>)"

definition LastActive :: "Transaction \<Rightarrow> Timestamp" where
  "LastActive t =
    (let ts = LastHeartbeat t in
     if \<not> Synthetic (ReadTimestamp t) then fst (Forward ts (ReadTimestamp t)) else ts)"

definition RequiredFrontier :: "Transaction \<Rightarrow> Timestamp" where
  "RequiredFrontier t =
    (let ts = ReadTimestamp t;
         ts = fst (Forward ts (WriteTimestamp t));
         ts = fst (Forward ts (GlobalUncertaintyLimit t))
     in ts)"

definition AssertInitialized :: "Transaction \<Rightarrow> unit result" where
  "AssertInitialized t =
    (if ID t = 0 \<or> IsEmpty (WriteTimestamp t) then Inl (Panic ''uninitialized txn'') else Inr ())"

subsection \<open>Observed timestamps\<close>

definition otsIndex :: "ObservedTimestamp list \<Rightarrow> int32 \<Rightarrow> nat" where
  "otsIndex s nodeID = sort_Search (length s) (\<lambda>i. sint nodeID \<le> sint (NodeID (s ! i)))"

definition otsGet :: "ObservedTimestamp list \<Rightarrow> int32 \<Rightarrow> ClockTimestamp option" where
  "otsGet s nodeID =
    (let i = otsIndex s nodeID in
     if i < length s \<and> NodeID (s ! i) = nodeID then Some (OTimestamp (s ! i)) else None)"

definition otsUpdate :: "ObservedTimestamp list \<Rightarrow> int32 \<Rightarrow> ClockTimestamp \<Rightarrow> ObservedTimestamp list" where
  "otsUpdate s nodeID timestamp =
    (let i = otsIndex s nodeID in
     if i < length s \<and> NodeID (s ! i) = nodeID then
       (if Less timestamp (OTimestamp (s ! i)) then s[i := (s ! i)\<lparr>OTimestamp := timestamp\<rparr>] else s)
     else take i s @ \<lparr>NodeID = nodeID, OTimestamp = timestamp\<rparr> # drop i s)"

definition ResetObservedTimestamps :: "Transaction \<Rightarrow> Transaction" where
  "ResetObservedTimestamps t = t\<lparr>ObservedTimestamps := []\<rparr>"

definition UpdateObservedTimestamp :: "Transaction \<Rightarrow> int32 \<Rightarrow> ClockTimestamp \<Rightarrow> Transaction" where
  "UpdateObservedTimestamp t nodeID timestamp =
    (let l = length (ObservedTimestamps t) in
     if l = 0 then t\<lparr>ObservedTimestamps := [\<lparr>NodeID = nodeID, OTimestamp = timestamp\<rparr>]\<rparr>
     else if l = 1 \<and> NodeID (ObservedTimestamps t ! 0) = nodeID then
       (if Less timestamp (OTimestamp (ObservedTimestamps t ! 0))
        then t\<lparr>ObservedTimestamps := [\<lparr>NodeID = nodeID, OTimestamp = timestamp\<rparr>]\<rparr> else t)
     else t\<lparr>ObservedTimestamps := otsUpdate (ObservedTimestamps t) nodeID timestamp\<rparr>)"

definition GetObservedTimestamp :: "Transaction \<Rightarrow> int32 \<Rightarrow> ClockTimestamp option" where
  "GetObservedTimestamp t nodeID = otsGet (ObservedTimestamps t) nodeID"

subsection \<open>Operations\<close>

definition BumpEpoch :: "Transaction \<Rightarrow> Transaction" where
  "BumpEpoch t = t\<lparr>Epoch := Epoch t + 1\<rparr>"

definition UpgradePriority :: "Transaction \<Rightarrow> int32 \<Rightarrow> Transaction" where
  "UpgradePriority t minPriority =
    (if sint minPriority > sint (Priority t) \<and> Priority t \<noteq> MinTxnPriority
     then t\<lparr>Priority := minPriority\<rparr> else t)"

text \<open>The first argument after the transaction is what \<open>MakePriority(userPriority)\<close> returned.\<close>

definition Restart :: "Transaction \<Rightarrow> int32 \<Rightarrow> int32 \<Rightarrow> Timestamp \<Rightarrow> Transaction" where
  "Restart t madePriority upgradePriority timestamp =
    (let t = BumpEpoch t;
         t = (if Less (WriteTimestamp t) timestamp then t\<lparr>WriteTimestamp := timestamp\<rparr> else t);
         t = t\<lparr>ReadTimestamp := WriteTimestamp t\<rparr>;
         t = UpgradePriority t madePriority;
         t = UpgradePriority t upgradePriority
     in t\<lparr>Sequence := 0, WriteTooOld := False, CommitTimestampFixed := False, LockSpans := [],
          InFlightWrites := [], IgnoredSeqNums := []\<rparr>)"

definition Refresh :: "Transaction \<Rightarrow> Timestamp \<Rightarrow> Transaction" where
  "Refresh t timestamp =
    (let t = t\<lparr>WriteTimestamp := fst (Forward (WriteTimestamp t) timestamp)\<rparr>;
         t = t\<lparr>ReadTimestamp := fst (Forward (ReadTimestamp t) (WriteTimestamp t))\<rparr>
     in t\<lparr>WriteTooOld := False\<rparr>)"

text \<open>The three parts of \<open>Update\<close> on two states of one transaction: the epoch-scoped state, the
  timestamps, and the rest.\<close>

definition updateNewerEpoch :: "Transaction \<Rightarrow> Transaction \<Rightarrow> Transaction" where
  "updateNewerEpoch t u =
    (let t = (if \<not> IsFinalized (Status t) then t\<lparr>Status := Status u\<rparr> else t)
     in t\<lparr>Epoch := Epoch u, WriteTooOld := WriteTooOld u, CommitTimestampFixed := CommitTimestampFixed u,
          Sequence := Sequence u, LockSpans := LockSpans u, InFlightWrites := InFlightWrites u,
          IgnoredSeqNums := IgnoredSeqNums u\<rparr>)"

definition updateSameEpoch :: "Transaction \<Rightarrow> Transaction \<Rightarrow> Transaction" where
  "updateSameEpoch t u =
    (let t = (case Status t of
                PENDING \<Rightarrow> t\<lparr>Status := Status u\<rparr>
              | STAGING \<Rightarrow> (if Status u \<noteq> PENDING then t\<lparr>Status := Status u\<rparr> else t)
              | ABORTED \<Rightarrow> t
              | COMMITTED \<Rightarrow> t);
         t = (if ReadTimestamp t = ReadTimestamp u then
                t\<lparr>WriteTooOld := WriteTooOld t \<or> WriteTooOld u,
                  CommitTimestampFixed := CommitTimestampFixed t \<or> CommitTimestampFixed u\<rparr>
              else if Less (ReadTimestamp t) (ReadTimestamp u) then
                t\<lparr>WriteTooOld := WriteTooOld u, CommitTimestampFixed := CommitTimestampFixed u\<rparr>
              else t);
         t = (if sint (Sequence t) < sint (Sequence u) then t\<lparr>Sequence := Sequence u\<rparr> else t);
         t = (if length (LockSpans u) > 0 then t\<lparr>LockSpans := LockSpans u\<rparr> else t);
         t = (if length (InFlightWrites u) > 0 then t\<lparr>InFlightWrites := InFlightWrites u\<rparr> else t);
         t = (if length (IgnoredSeqNums u) > 0 then t\<lparr>IgnoredSeqNums := IgnoredSeqNums u\<rparr> else t)
     in t)"

definition updateOlderEpoch :: "Transaction \<Rightarrow> Transaction \<Rightarrow> Transaction" where
  "updateOlderEpoch t u =
    (case Status u of ABORTED \<Rightarrow> t\<lparr>Status := ABORTED\<rparr> | COMMITTED \<Rightarrow> t | _ \<Rightarrow> t)"

definition updateTimestamps :: "Transaction \<Rightarrow> Transaction \<Rightarrow> Transaction" where
  "updateTimestamps t u =
    (let t = t\<lparr>WriteTimestamp := fst (Forward (WriteTimestamp t) (WriteTimestamp u))\<rparr>;
         t = t\<lparr>LastHeartbeat := fst (Forward (LastHeartbeat t) (LastHeartbeat u))\<rparr>;
         t = t\<lparr>GlobalUncertaintyLimit := fst (Forward (GlobalUncertaintyLimit t) (GlobalUncertaintyLimit u))\<rparr>;
         t = t\<lparr>ReadTimestamp := fst (Forward (ReadTimestamp t) (ReadTimestamp u))\<rparr>
     in if IsEmpty (TxnMinTimestamp t) then t\<lparr>TxnMinTimestamp := TxnMinTimestamp u\<rparr>
        else if \<not> IsEmpty (TxnMinTimestamp u) then
          t\<lparr>TxnMinTimestamp := Backward (TxnMinTimestamp t) (TxnMinTimestamp u)\<rparr>
        else t)"

definition updateObserved :: "Transaction \<Rightarrow> Transaction \<Rightarrow> Transaction" where
  "updateObserved t u =
    foldl (\<lambda>t v. UpdateObservedTimestamp t (NodeID v) (OTimestamp v)) t (ObservedTimestamps u)"

definition TxnUpdate :: "Transaction \<Rightarrow> Transaction option \<Rightarrow> Transaction result" where
  "TxnUpdate t o' =
    (case o' of None \<Rightarrow> Inr t
     | Some u \<Rightarrow>
       rbind (AssertInitialized u) (\<lambda>_.
         if ID t = 0 then Inr u
         else if ID t \<noteq> ID u then Inl (Panic ''updating txn with different txn'')
         else
           let t = (if TxnKey t = None \<or> TxnKey t = Some [] then t\<lparr>TxnKey := TxnKey u\<rparr> else t);
               t = (if sint (Epoch t) < sint (Epoch u) then updateNewerEpoch t u
                    else if Epoch t = Epoch u then updateSameEpoch t u
                    else updateOlderEpoch t u);
               t = updateTimestamps t u;
               t = updateObserved t u
           in Inr (UpgradePriority t (Priority u))))"

definition IsLocking :: "Transaction \<Rightarrow> bool" where
  "IsLocking t \<longleftrightarrow> TxnKey t \<noteq> None"

definition AddIgnoredSeqNumRange :: "Transaction \<Rightarrow> IgnoredSeqNumRange \<Rightarrow> Transaction" where
  "AddIgnoredSeqNumRange t newRange =
    (let list = IgnoredSeqNums t;
         i = sort_Search (length list) (\<lambda>i. sint (Start newRange) \<le> sint (End (list ! i)))
     in t\<lparr>IgnoredSeqNums := take i list @ [newRange]\<rparr>)"

definition AsRecord :: "Transaction \<Rightarrow> TransactionRecord" where
  "AsRecord t = TxnMeta.extend (TxnMeta.truncate t)
    \<lparr>RecStatus = Status t, RecLastHeartbeat = LastHeartbeat t, RecLockSpans = LockSpans t,
     RecInFlightWrites = InFlightWrites t, RecIgnoredSeqNums = IgnoredSeqNums t\<rparr>"

definition AsTransaction :: "TransactionRecord \<Rightarrow> Transaction" where
  "AsTransaction tr = TxnMeta.extend (TxnMeta.truncate tr)
    \<lparr>Name = [], Status = RecStatus tr, LastHeartbeat = RecLastHeartbeat tr, CommitTimestampFixed = False,
     ReadTimestamp = emptyTimestamp, GlobalUncertaintyLimit = emptyTimestamp, ObservedTimestamps = [],
     WriteTooOld = False, LockSpans = RecLockSpans tr, InFlightWrites = RecInFlightWrites tr,
     IgnoredSeqNums = RecIgnoredSeqNums tr\<rparr>"

subsection \<open>Locks\<close>

datatype Durability = Replicated | Unreplicated

record LockAcquisition =
  AcqSpan :: Span
  AcqTxn :: TxnMeta
  AcqDurability :: Durability

record LockUpdate =
  UpdSpan :: Span
  UpdTxn :: TxnMeta
  UpdStatus :: TransactionStatus
  UpdIgnoredSeqNums :: "IgnoredSeqNumRange list"
  ClockWhilePending :: ObservedTimestamp

record Intent =
  IntentKey :: bytes
  IntentTxn :: TxnMeta

definition zeroTxnMeta :: TxnMeta where
  "zeroTxnMeta = \<lparr>ID = 0, TxnKey = None, Epoch = 0, WriteTimestamp = emptyTimestamp,
     TxnMinTimestamp = emptyTimestamp, Priority = 0, Sequence = 0, CoordinatorNodeID = 0\<rparr>"

definition MakeIntent :: "TxnMeta \<Rightarrow> bytes \<Rightarrow> Intent" where
  "MakeIntent txn key = \<lparr>IntentKey = key, IntentTxn = txn\<rparr>"

definition AsIntents :: "TxnMeta \<Rightarrow> bytes list \<Rightarrow> Intent list" where
  "AsIntents txn keys = map (MakeIntent txn) keys"

definition MakeLockAcquisition :: "Transaction \<Rightarrow> bytes \<Rightarrow> Durability \<Rightarrow> LockAcquisition" where
  "MakeLockAcquisition txn key dur =
    \<lparr>AcqSpan = \<lparr>Key = key, EndKey = []\<rparr>, AcqTxn = TxnMeta.truncate txn, AcqDurability = dur\<rparr>"

definition SetTxn :: "LockUpdate \<Rightarrow> Transaction \<Rightarrow> LockUpdate" where
  "SetTxn u txn = u\<lparr>UpdTxn := TxnMeta.truncate txn, UpdStatus := Status txn,
     UpdIgnoredSeqNums := IgnoredSeqNums txn\<rparr>"

definition MakeLockUpdate :: "Transaction \<Rightarrow> Span \<Rightarrow> LockUpdate" where
  "MakeLockUpdate txn span =
    SetTxn \<lparr>UpdSpan = span, UpdTxn = zeroTxnMeta, UpdStatus = PENDING, UpdIgnoredSeqNums = [],
            ClockWhilePending = \<lparr>NodeID = 0, OTimestamp = emptyTimestamp\<rparr>\<rparr> txn"

definition LocksAsLockUpdates :: "Transaction \<Rightarrow> LockUpdate list" where
  "LocksAsLockUpdates t = map (MakeLockUpdate t) (LockSpans t)"

subsection \<open>Observed timestamps are a map to minima\<close>

interpretation observed: searched_slice NodeID OTimestamp otsGet
  by unfold_locales (simp add: otsGet_def otsIndex_def)

lemma otsIndex_index: "otsIndex s n = observed.index s n"
  by (simp add: otsIndex_def observed.index_def)

text \<open>The smaller of an observation that may be missing and a new one; the old one wins a tie.\<close>

definition observe :: "ClockTimestamp option \<Rightarrow> ClockTimestamp \<Rightarrow> ClockTimestamp" where
  "observe old ts = (case old of None \<Rightarrow> ts | Some x \<Rightarrow> if Less ts x then ts else x)"

lemma otsUpdate_map:
  assumes ord: "observed.ordered s"
  shows "observed.ordered (otsUpdate s n ts)" "otsGet (otsUpdate s n ts) = (otsGet s)(n \<mapsto> observe (otsGet s n) ts)"
proof -
  let ?i = "otsIndex s n"
  have "observed.ordered (otsUpdate s n ts) \<and> otsGet (otsUpdate s n ts) = (otsGet s)(n \<mapsto> observe (otsGet s n) ts)"
  proof (cases "?i < length s \<and> NodeID (s ! ?i) = n")
    case True
    define e where "e = (s ! ?i)\<lparr>OTimestamp := ts\<rparr>"
    have e: "NodeID e = n" "OTimestamp e = ts" using True by (simp_all add: e_def)
    have get: "otsGet s n = Some (OTimestamp (s ! ?i))" using True by (simp add: otsGet_def Let_def)
    have upd: "otsUpdate s n ts = (if Less ts (OTimestamp (s ! ?i)) then s[?i := e] else s)"
      using True by (simp add: otsUpdate_def Let_def e_def del: not_Less)
    show ?thesis
      using observed.lookup_overwrite [OF ord, of e] True ord get e
      by (auto simp: upd observe_def otsIndex_index fun_eq_iff simp del: not_Less)
  next
    case False
    define e where "e = \<lparr>NodeID = n, OTimestamp = ts\<rparr>"
    have get: "otsGet s n = None" using False by (auto simp: otsGet_def Let_def)
    have upd: "otsUpdate s n ts = take ?i s @ e # drop ?i s" using False by (auto simp: otsUpdate_def Let_def e_def)
    show ?thesis
      using observed.lookup_insert [OF ord, of e] False get
      by (auto simp: upd observe_def otsIndex_index e_def)
  qed
  then show "observed.ordered (otsUpdate s n ts)" "otsGet (otsUpdate s n ts) = (otsGet s)(n \<mapsto> observe (otsGet s n) ts)"
    by auto
qed

text \<open>The fast paths of \<open>UpdateObservedTimestamp\<close> compute what \<open>update\<close> does.\<close>

lemma UpdateObservedTimestamp_ots:
  "UpdateObservedTimestamp t n ts = t\<lparr>ObservedTimestamps := otsUpdate (ObservedTimestamps t) n ts\<rparr>"
proof -
  let ?s = "ObservedTimestamps t"
  have one: "otsIndex [x] (NodeID x) = 0" for x by (simp add: otsIndex_def sort_Search_def searchLoop.simps)
  have zero: "otsIndex [] n = 0" by (simp add: otsIndex_def sort_Search_def searchLoop.simps)
  consider "?s = []" | x where "?s = [x]" "NodeID x = n"
    | "\<not> (length ?s = 0)" "\<not> (length ?s = 1 \<and> NodeID (?s ! 0) = n)"
    by (cases ?s) (auto simp: length_Suc_conv)
  then show ?thesis
  proof cases
    case 1
    then show ?thesis by (simp add: UpdateObservedTimestamp_def otsUpdate_def Let_def zero)
  next
    case (2 x)
    moreover from 2 have "otsIndex [x] n = 0" using one [of x] by simp
    moreover have "x\<lparr>OTimestamp := ts\<rparr> = \<lparr>NodeID = n, OTimestamp = ts\<rparr>" using 2 by (cases x) simp
    moreover have "t\<lparr>ObservedTimestamps := ObservedTimestamps t\<rparr> = t" by simp
    ultimately show ?thesis
      by (simp add: UpdateObservedTimestamp_def otsUpdate_def Let_def del: not_Less Transaction.update_convs)
  next
    case 3
    then show ?thesis unfolding UpdateObservedTimestamp_def Let_def by (simp only: if_False)
  qed
qed

definition otsMerge :: "ObservedTimestamp list \<Rightarrow> ObservedTimestamp list \<Rightarrow> ObservedTimestamp list" where
  "otsMerge s r = foldl (\<lambda>s v. otsUpdate s (NodeID v) (OTimestamp v)) s r"

lemma updateObserved_merge:
  "updateObserved t u = t\<lparr>ObservedTimestamps := otsMerge (ObservedTimestamps t) (ObservedTimestamps u)\<rparr>"
proof -
  have "foldl (\<lambda>t v. UpdateObservedTimestamp t (NodeID v) (OTimestamp v)) t r =
      t\<lparr>ObservedTimestamps := foldl (\<lambda>s v. otsUpdate s (NodeID v) (OTimestamp v)) (ObservedTimestamps t) r\<rparr>" for r
    by (induction r arbitrary: t) (simp_all add: UpdateObservedTimestamp_ots)
  then show ?thesis by (simp add: updateObserved_def otsMerge_def)
qed

lemma otsMerge_ordered: "observed.ordered s \<Longrightarrow> observed.ordered (otsMerge s r)"
  unfolding otsMerge_def by (induction r arbitrary: s) (simp_all add: otsUpdate_map)

lemma otsMerge_get:
  "observed.ordered s \<Longrightarrow> observed.ordered r \<Longrightarrow>
   otsGet (otsMerge s r) n = (case otsGet r n of None \<Rightarrow> otsGet s n | Some x \<Rightarrow> Some (observe (otsGet s n) x))"
proof (induction r arbitrary: s)
  case Nil
  then show ?case by (simp add: otsMerge_def observed.lookup_assoc)
next
  case (Cons v r)
  let ?s = "otsUpdate s (NodeID v) (OTimestamp v)"
  have r: "observed.ordered r" "\<forall>w \<in> set r. sint (NodeID v) < sint (NodeID w)" using Cons.prems(2) by simp_all
  have "otsMerge s (v # r) = otsMerge ?s r" by (simp add: otsMerge_def)
  moreover have "otsGet r (NodeID v) = None" using r by (auto simp: observed.lookup_assoc observed.assoc_None)
  moreover have "otsGet (v # r) n = (if n = NodeID v then Some (OTimestamp v) else otsGet r n)"
    using Cons.prems(2) r(1) by (simp add: observed.lookup_assoc)
  ultimately show ?case
    using Cons.IH [of ?s] otsUpdate_map [OF Cons.prems(1)] r(1) by (auto split: option.split)
qed

subsection \<open>What Update computes, field by field\<close>

definition mergeStatus :: "Transaction \<Rightarrow> Transaction \<Rightarrow> TransactionStatus" where
  "mergeStatus t u =
    (if sint (Epoch t) < sint (Epoch u) then (if IsFinalized (Status t) then Status t else Status u)
     else if Epoch t = Epoch u then
       (if IsFinalized (Status t) \<or> Status t = STAGING \<and> Status u = PENDING then Status t else Status u)
     else if Status u = ABORTED then ABORTED else Status t)"

text \<open>Fields reset by a newer epoch and kept over an older one; \<open>same\<close> is the value for equal epochs.\<close>

definition scoped :: "Transaction \<Rightarrow> Transaction \<Rightarrow> (Transaction \<Rightarrow> 'a) \<Rightarrow> 'a \<Rightarrow> 'a" where
  "scoped t u f same =
    (if sint (Epoch t) < sint (Epoch u) then f u else if Epoch t = Epoch u then same else f t)"

text \<open>A flag cleared by a refresh: cumulative at one read timestamp, else the later one decides.\<close>

definition mergeFlag :: "Transaction \<Rightarrow> Transaction \<Rightarrow> (Transaction \<Rightarrow> bool) \<Rightarrow> bool" where
  "mergeFlag t u f =
    (if ReadTimestamp t = ReadTimestamp u then f t \<or> f u
     else if Less (ReadTimestamp t) (ReadTimestamp u) then f u else f t)"

definition txnMerge :: "Transaction \<Rightarrow> Transaction \<Rightarrow> Transaction" where
  "txnMerge t u =
    \<lparr>ID = ID t,
     TxnKey = (if TxnKey t = None \<or> TxnKey t = Some [] then TxnKey u else TxnKey t),
     Epoch = (if sint (Epoch t) < sint (Epoch u) then Epoch u else Epoch t),
     WriteTimestamp = fst (Forward (WriteTimestamp t) (WriteTimestamp u)),
     TxnMinTimestamp =
       (if IsEmpty (TxnMinTimestamp t) then TxnMinTimestamp u
        else if IsEmpty (TxnMinTimestamp u) then TxnMinTimestamp t
        else Backward (TxnMinTimestamp t) (TxnMinTimestamp u)),
     Priority = (if sint (Priority t) < sint (Priority u) \<and> Priority t \<noteq> MinTxnPriority then Priority u else Priority t),
     Sequence = scoped t u Sequence (if sint (Sequence t) < sint (Sequence u) then Sequence u else Sequence t),
     CoordinatorNodeID = CoordinatorNodeID t,
     Name = Name t,
     Status = mergeStatus t u,
     LastHeartbeat = fst (Forward (LastHeartbeat t) (LastHeartbeat u)),
     CommitTimestampFixed = scoped t u CommitTimestampFixed (mergeFlag t u CommitTimestampFixed),
     ReadTimestamp = fst (Forward (ReadTimestamp t) (ReadTimestamp u)),
     GlobalUncertaintyLimit = fst (Forward (GlobalUncertaintyLimit t) (GlobalUncertaintyLimit u)),
     ObservedTimestamps = otsMerge (ObservedTimestamps t) (ObservedTimestamps u),
     WriteTooOld = scoped t u WriteTooOld (mergeFlag t u WriteTooOld),
     LockSpans = scoped t u LockSpans (if LockSpans u = [] then LockSpans t else LockSpans u),
     InFlightWrites = scoped t u InFlightWrites (if InFlightWrites u = [] then InFlightWrites t else InFlightWrites u),
     IgnoredSeqNums = scoped t u IgnoredSeqNums (if IgnoredSeqNums u = [] then IgnoredSeqNums t else IgnoredSeqNums u)\<rparr>"

lemma updateNewerEpoch_eq:
  "updateNewerEpoch t u = t\<lparr>Status := (if IsFinalized (Status t) then Status t else Status u), Epoch := Epoch u,
     WriteTooOld := WriteTooOld u, CommitTimestampFixed := CommitTimestampFixed u, Sequence := Sequence u,
     LockSpans := LockSpans u, InFlightWrites := InFlightWrites u, IgnoredSeqNums := IgnoredSeqNums u\<rparr>"
  by (simp add: updateNewerEpoch_def Let_def)

lemma updateSameEpoch_sel:
  "Status (updateSameEpoch t u) =
     (if IsFinalized (Status t) \<or> Status t = STAGING \<and> Status u = PENDING then Status t else Status u)"
  "WriteTooOld (updateSameEpoch t u) = mergeFlag t u WriteTooOld"
  "CommitTimestampFixed (updateSameEpoch t u) = mergeFlag t u CommitTimestampFixed"
  "Sequence (updateSameEpoch t u) = (if sint (Sequence t) < sint (Sequence u) then Sequence u else Sequence t)"
  "LockSpans (updateSameEpoch t u) = (if LockSpans u = [] then LockSpans t else LockSpans u)"
  "InFlightWrites (updateSameEpoch t u) = (if InFlightWrites u = [] then InFlightWrites t else InFlightWrites u)"
  "IgnoredSeqNums (updateSameEpoch t u) = (if IgnoredSeqNums u = [] then IgnoredSeqNums t else IgnoredSeqNums u)"
  by (cases "Status t"; simp add: updateSameEpoch_def Let_def mergeFlag_def IsFinalized_def del: not_Less)+

lemma updateSameEpoch_frame:
  "ID (updateSameEpoch t u) = ID t" "TxnKey (updateSameEpoch t u) = TxnKey t" "Epoch (updateSameEpoch t u) = Epoch t"
  "WriteTimestamp (updateSameEpoch t u) = WriteTimestamp t" "TxnMinTimestamp (updateSameEpoch t u) = TxnMinTimestamp t"
  "Priority (updateSameEpoch t u) = Priority t" "CoordinatorNodeID (updateSameEpoch t u) = CoordinatorNodeID t"
  "Name (updateSameEpoch t u) = Name t" "LastHeartbeat (updateSameEpoch t u) = LastHeartbeat t"
  "ReadTimestamp (updateSameEpoch t u) = ReadTimestamp t"
  "GlobalUncertaintyLimit (updateSameEpoch t u) = GlobalUncertaintyLimit t"
  "ObservedTimestamps (updateSameEpoch t u) = ObservedTimestamps t"
  by (cases "Status t"; simp add: updateSameEpoch_def Let_def del: not_Less)+

lemma updateOlderEpoch_eq:
  "updateOlderEpoch t u = t\<lparr>Status := (if Status u = ABORTED then ABORTED else Status t)\<rparr>"
  by (cases "Status u") (simp_all add: updateOlderEpoch_def)

lemma updateTimestamps_eq:
  "updateTimestamps t u = t\<lparr>
     WriteTimestamp := fst (Forward (WriteTimestamp t) (WriteTimestamp u)),
     LastHeartbeat := fst (Forward (LastHeartbeat t) (LastHeartbeat u)),
     GlobalUncertaintyLimit := fst (Forward (GlobalUncertaintyLimit t) (GlobalUncertaintyLimit u)),
     ReadTimestamp := fst (Forward (ReadTimestamp t) (ReadTimestamp u)),
     TxnMinTimestamp := (if IsEmpty (TxnMinTimestamp t) then TxnMinTimestamp u
        else if IsEmpty (TxnMinTimestamp u) then TxnMinTimestamp t
        else Backward (TxnMinTimestamp t) (TxnMinTimestamp u))\<rparr>"
  by (simp add: updateTimestamps_def Let_def)

lemma UpgradePriority_eq:
  "UpgradePriority t p = t\<lparr>Priority := (if sint (Priority t) < sint p \<and> Priority t \<noteq> MinTxnPriority then p else Priority t)\<rparr>"
  by (simp add: UpgradePriority_def)

lemma TxnUpdate_merge:
  assumes "ID t \<noteq> 0" "ID u = ID t" "\<not> IsEmpty (WriteTimestamp u)"
  shows "TxnUpdate t (Some u) = Inr (txnMerge t u)"
proof -
  define k where "k = (if TxnKey t = None \<or> TxnKey t = Some [] then t\<lparr>TxnKey := TxnKey u\<rparr> else t)"
  define e where "e = (if sint (Epoch k) < sint (Epoch u) then updateNewerEpoch k u
    else if Epoch k = Epoch u then updateSameEpoch k u else updateOlderEpoch k u)"
  have k: "k = t\<lparr>TxnKey := (if TxnKey t = None \<or> TxnKey t = Some [] then TxnKey u else TxnKey t)\<rparr>"
    by (simp add: k_def)
  have flags: "mergeFlag k u f = mergeFlag t u f" if "\<And>x. f (t\<lparr>TxnKey := x\<rparr>) = f t" for f
    using that by (simp add: mergeFlag_def k del: not_Less)
  have "TxnUpdate t (Some u) = Inr (UpgradePriority (updateObserved (updateTimestamps e u) u) (Priority u))"
    using assms by (simp add: TxnUpdate_def AssertInitialized_def Let_def k_def e_def)
  also have "UpgradePriority (updateObserved (updateTimestamps e u) u) (Priority u) = txnMerge t u"
    unfolding UpgradePriority_eq updateObserved_merge updateTimestamps_eq
    by (rule Transaction.equality)
      (simp_all add: txnMerge_def e_def updateNewerEpoch_eq updateSameEpoch_sel updateSameEpoch_frame updateOlderEpoch_eq
        scoped_def mergeStatus_def flags, auto simp: k)
  finally show ?thesis .
qed

lemma AsRecord_AsTransaction: "AsRecord (AsTransaction tr) = tr"
  by (cases tr) (simp add: AsRecord_def AsTransaction_def TxnMeta.defs)

subsection \<open>Steps of a transaction\<close>

text \<open>A transaction in use has an ID and a positive write timestamp, reads at or below it, was created
  at or before it, and lists observed timestamps in node order.\<close>

definition txn_wf :: "Transaction \<Rightarrow> bool" where
  "txn_wf t \<longleftrightarrow> ID t \<noteq> 0 \<and> Less emptyTimestamp (WriteTimestamp t) \<and>
     LessEq (ReadTimestamp t) (WriteTimestamp t) \<and> LessEq (TxnMinTimestamp t) (WriteTimestamp t) \<and>
     observed.ordered (ObservedTimestamps t)"

lemma Less_empty_IsEmpty: "Less emptyTimestamp t \<Longrightarrow> \<not> IsEmpty t"
  by (auto simp: Less_def IsEmpty_def emptyTimestamp_def)

lemma Forward_LessEq: "LessEq (fst (Forward t s)) u \<longleftrightarrow> LessEq t u \<and> LessEq s u"
  by (auto simp: Forward_def ts_order)

lemma LessEq_Forward: "LessEq u (fst (Forward t s)) \<longleftrightarrow> LessEq u t \<or> LessEq u s"
  by (auto simp: Forward_def ts_order)

lemma Less_Forward: "Less u (fst (Forward t s)) \<longleftrightarrow> Less u t \<or> Less u s"
  by (auto simp: Forward_def ts_order)

lemma Forward_mono:
  "LessEq r w \<Longrightarrow> LessEq r' w' \<Longrightarrow> LessEq (fst (Forward r r')) (fst (Forward w w'))"
  by (auto simp: Forward_def ts_order)

lemmas forward_order = Forward_LessEq LessEq_Forward Less_Forward

lemma LessEq_Backward: "LessEq s u \<Longrightarrow> LessEq (Backward s r) u"
  using Backward_min(1) ts_trans(1) by blast

lemma MakeTransaction_wf:
  "u \<noteq> 0 \<Longrightarrow> Less emptyTimestamp now \<Longrightarrow> txn_wf (MakeTransaction u p name key now off nid)"
  by (simp add: txn_wf_def MakeTransaction_def Let_def)

lemma txnMerge_wf: "txn_wf t \<Longrightarrow> txn_wf u \<Longrightarrow> txn_wf (txnMerge t u)"
  by (simp add: txn_wf_def txnMerge_def Forward_mono Less_Forward LessEq_Forward [of "TxnMinTimestamp _"]
    LessEq_Forward [of "Backward _ _"] otsMerge_ordered LessEq_Backward del: not_Less)

lemma TxnUpdate_wf_eq: "txn_wf t \<Longrightarrow> txn_wf u \<Longrightarrow> ID u = ID t \<Longrightarrow> TxnUpdate t (Some u) = Inr (txnMerge t u)"
  by (rule TxnUpdate_merge) (auto simp: txn_wf_def dest: Less_empty_IsEmpty)

text \<open>A step, with the states of the transaction it absorbs, and a run of steps.\<close>

inductive txn_step :: "Transaction list \<Rightarrow> Transaction \<Rightarrow> Transaction \<Rightarrow> bool" where
  update: "txn_wf u \<Longrightarrow> ID u = ID t \<Longrightarrow> TxnUpdate t (Some u) = Inr t' \<Longrightarrow> txn_step [u] t t'"
| restart: "txn_step [] t (Restart t p q ts)"
| refresh: "txn_step [] t (Refresh t ts)"
| upgrade: "txn_step [] t (UpgradePriority t p)"
| observe: "txn_step [] t (UpdateObservedTimestamp t n cts)"
| reset: "txn_step [] t (ResetObservedTimestamps t)"
| ignore: "txn_step [] t (AddIgnoredSeqNumRange t r)"


text \<open>What no step takes back.\<close>

definition txn_le :: "Transaction \<Rightarrow> Transaction \<Rightarrow> bool" where
  "txn_le t t' \<longleftrightarrow> ID t' = ID t \<and> LessEq (ReadTimestamp t) (ReadTimestamp t') \<and>
     LessEq (WriteTimestamp t) (WriteTimestamp t') \<and> sint (Priority t) \<le> sint (Priority t') \<and>
     (Priority t = MinTxnPriority \<longrightarrow> Priority t' = MinTxnPriority) \<and>
     (Status t = ABORTED \<longrightarrow> Status t' = ABORTED) \<and> (IsFinalized (Status t) \<longrightarrow> IsFinalized (Status t'))"



lemma mergeStatus_finalized:
  "Status t = ABORTED \<Longrightarrow> mergeStatus t u = ABORTED" "IsFinalized (Status t) \<Longrightarrow> IsFinalized (mergeStatus t u)"
  by (auto simp: mergeStatus_def IsFinalized_def)

lemma txnMerge_le: "txn_le t (txnMerge t u)"
  by (simp add: txn_le_def txnMerge_def forward_order mergeStatus_finalized)

lemma Restart_sel:
  "ID (Restart t p q ts) = ID t" "Status (Restart t p q ts) = Status t"
  "WriteTimestamp (Restart t p q ts) = (if Less (WriteTimestamp t) ts then ts else WriteTimestamp t)"
  "ReadTimestamp (Restart t p q ts) = WriteTimestamp (Restart t p q ts)"
  "TxnMinTimestamp (Restart t p q ts) = TxnMinTimestamp t" "ObservedTimestamps (Restart t p q ts) = ObservedTimestamps t"
  "Epoch (Restart t p q ts) = Epoch t + 1"
  "Priority (Restart t p q ts) = Priority (UpgradePriority (UpgradePriority t p) q)"
  by (auto simp: Restart_def BumpEpoch_def UpgradePriority_def Let_def simp del: not_Less)

lemma Refresh_sel:
  "ID (Refresh t ts) = ID t" "Status (Refresh t ts) = Status t" "Priority (Refresh t ts) = Priority t"
  "WriteTimestamp (Refresh t ts) = fst (Forward (WriteTimestamp t) ts)"
  "ReadTimestamp (Refresh t ts) = fst (Forward (ReadTimestamp t) (fst (Forward (WriteTimestamp t) ts)))"
  "TxnMinTimestamp (Refresh t ts) = TxnMinTimestamp t" "ObservedTimestamps (Refresh t ts) = ObservedTimestamps t"
  by (simp_all add: Refresh_def Let_def)

lemma txn_step_wf: "txn_step us t t' \<Longrightarrow> txn_wf t \<Longrightarrow> txn_wf t' \<and> txn_le t t'"
proof (induction rule: txn_step.induct)
  case (update u t t')
  then have "t' = txnMerge t u" using TxnUpdate_wf_eq [of t u] by simp
  then show ?case using update.prems update.hyps(1) by (simp add: txnMerge_wf txnMerge_le)
next
  case (restart t p q ts)
  have w: "LessEq (WriteTimestamp t) (WriteTimestamp (Restart t p q ts))" by (simp add: Restart_sel Less_imp_LessEq)
  show ?case
    using restart w ts_trans(1) [OF _ w] ts_trans(2) [OF _ w]
    by (simp add: txn_wf_def txn_le_def Restart_sel(1,2,4-8)) (simp add: UpgradePriority_eq)
next
  case (refresh t ts)
  then show ?case by (auto simp: txn_wf_def txn_le_def Refresh_sel forward_order intro: Less_imp_LessEq
      ts_trans(3) [THEN Less_imp_LessEq])
next
  case (upgrade t p)
  then show ?case by (auto simp: txn_wf_def txn_le_def UpgradePriority_eq)
next
  case (observe t n cts)
  then show ?case by (auto simp: txn_wf_def txn_le_def UpdateObservedTimestamp_ots otsUpdate_map)
next
  case (reset t)
  then show ?case by (auto simp: txn_wf_def txn_le_def ResetObservedTimestamps_def)
next
  case (ignore t r)
  then show ?case by (auto simp: txn_wf_def txn_le_def AddIgnoredSeqNumRange_def Let_def)
qed



subsection \<open>Rolled-back sequence numbers\<close>

lemma AddIgnored_list:
  assumes "ignored_ok (IgnoredSeqNums t)"
  shows "IgnoredSeqNums (AddIgnoredSeqNumRange t new) =
    filter (\<lambda>r. sint (End r) < sint (Start new)) (IgnoredSeqNums t) @ [new]"
proof -
  let ?l = "IgnoredSeqNums t"
  have "sorted_wrt (\<lambda>a b. sint (End a) \<le> sint (End b)) ?l"
    using assms by (auto simp: ignored_ok_def elim!: sorted_wrt_mono_rel [rotated])
  then have "sorted (map (\<lambda>r. sint (End r)) ?l)" by (simp add: sorted_wrt_map)
  then show ?thesis
    using sort_Search_split(1) [of "\<lambda>r. sint (End r)" ?l "length ?l" "sint (Start new)"]
    by (simp add: AddIgnoredSeqNumRange_def Let_def)
qed

lemma ignored_ok_snoc:
  "ignored_ok rs \<Longrightarrow> sint (Start new) \<le> sint (End new) \<Longrightarrow>
   ignored_ok (filter (\<lambda>r. sint (End r) < sint (Start new)) rs @ [new])"
  by (auto simp: ignored_ok_def sorted_wrt_append intro: sorted_wrt_filter)

subsection \<open>Updating twice\<close>

text \<open>With every comparison written with \<open>Less\<close>, contradictory ones are recognised.\<close>

lemma LessEq_not: "LessEq a b \<longleftrightarrow> \<not> Less b a"
  by simp

lemma Less_asym: "Less a b \<Longrightarrow> \<not> Less b a"
  by (auto simp: ts_order simp del: not_Less)

lemma observe_again: "observe (Some (observe old ts)) ts = observe old ts"
  by (auto simp: observe_def simp del: not_Less split: option.split)

lemma otsUpdate_noop:
  "otsGet s n = Some x \<Longrightarrow> LessEq x ts \<Longrightarrow> otsUpdate s n ts = s"
  by (auto simp: otsUpdate_def otsGet_def Let_def LessEq_not simp del: not_Less split: if_splits)

lemma otsMerge_noop:
  "(\<And>v. v \<in> set r \<Longrightarrow> \<exists>x. otsGet s (NodeID v) = Some x \<and> LessEq x (OTimestamp v)) \<Longrightarrow> otsMerge s r = s"
proof (induction r)
  case (Cons v r)
  then have "otsUpdate s (NodeID v) (OTimestamp v) = s" by (meson list.set_intros(1) otsUpdate_noop)
  then show ?case using Cons by (simp add: otsMerge_def)
qed (simp add: otsMerge_def)

lemma observe_LessEq: "LessEq (observe old ts) ts"
  by (auto simp: observe_def Less_imp_LessEq split: option.split)

lemma otsMerge_idem:
  assumes "observed.ordered s" "observed.ordered r"
  shows "otsMerge (otsMerge s r) r = otsMerge s r"
proof (rule otsMerge_noop)
  fix v assume v: "v \<in> set r"
  then have "observed.assoc r (NodeID v) = Some (OTimestamp v)"
    using assms(2) by (induction r) auto
  then show "\<exists>x. otsGet (otsMerge s r) (NodeID v) = Some x \<and> LessEq x (OTimestamp v)"
    using otsMerge_get [OF assms, of "NodeID v"] observed.lookup_assoc [OF assms(2)] observe_LessEq by auto
qed

lemma Forward_fst_idem [simp]: "fst (Forward (fst (Forward t s)) s) = fst (Forward t s)"
  by (simp add: Forward_idem)

lemma Backward_idem: "\<not> IsEmpty t \<Longrightarrow> \<not> IsEmpty s \<Longrightarrow> \<not> Synthetic t \<Longrightarrow> \<not> Synthetic s \<Longrightarrow>
    \<not> IsEmpty (Backward t s) \<and> Backward (Backward t s) s = Backward t s"
  by (auto simp: Backward_def Let_def bothSynthetic_def IsEmpty_def simp del: not_Less)

lemma mergeFlag_again:
  assumes "\<not> Synthetic (ReadTimestamp t)" "\<not> Synthetic (ReadTimestamp u)" "Epoch t = Epoch u"
  shows "(if fst (Forward (ReadTimestamp t) (ReadTimestamp u)) = ReadTimestamp u then mergeFlag t u f \<or> f u
     else if Less (fst (Forward (ReadTimestamp t) (ReadTimestamp u))) (ReadTimestamp u) then f u else mergeFlag t u f) =
     mergeFlag t u f"
proof -
  have "Less (ReadTimestamp t) (ReadTimestamp u) \<or> ReadTimestamp t = ReadTimestamp u \<or> Less (ReadTimestamp u) (ReadTimestamp t)"
    using assms by (cases "ReadTimestamp t"; cases "ReadTimestamp u") (auto simp: Less_def sint_eq_iff [symmetric])
  then show ?thesis
  proof (elim disjE)
    assume "Less (ReadTimestamp t) (ReadTimestamp u)"
    then show ?thesis by (simp add: mergeFlag_def Forward_def del: not_Less)
  next
    assume "ReadTimestamp t = ReadTimestamp u"
    then show ?thesis by (simp add: mergeFlag_def Forward_def EqOrdering_def bothSynthetic_def)
  next
    assume gt: "Less (ReadTimestamp u) (ReadTimestamp t)"
    then have "\<not> EqOrdering (ReadTimestamp t) (ReadTimestamp u)" by (auto simp: ts_order)
    then have "fst (Forward (ReadTimestamp t) (ReadTimestamp u)) = ReadTimestamp t"
      using Less_asym [OF gt] by (simp add: Forward_def del: not_Less)
    moreover have "ReadTimestamp t \<noteq> ReadTimestamp u" using gt by auto
    ultimately show ?thesis using Less_asym [OF gt] by (simp add: mergeFlag_def del: not_Less)
  qed
qed

lemma Backward_self: "Backward t t = t"
  by (simp add: Backward_def bothSynthetic_def Let_def)

lemma txnMerge_sel:
  "Epoch (txnMerge t u) = (if sint (Epoch t) < sint (Epoch u) then Epoch u else Epoch t)"
  "ReadTimestamp (txnMerge t u) = fst (Forward (ReadTimestamp t) (ReadTimestamp u))"
  "Status (txnMerge t u) = mergeStatus t u"
  "CommitTimestampFixed (txnMerge t u) = scoped t u CommitTimestampFixed (mergeFlag t u CommitTimestampFixed)"
  "WriteTooOld (txnMerge t u) = scoped t u WriteTooOld (mergeFlag t u WriteTooOld)"
  by (simp_all add: txnMerge_def)

lemma scoped_flag_again:
  assumes "\<not> Synthetic (ReadTimestamp t)" "\<not> Synthetic (ReadTimestamp u)"
    and fm: "f (txnMerge t u) = scoped t u f (mergeFlag t u f)"
  shows "scoped (txnMerge t u) u f (mergeFlag (txnMerge t u) u f) = f (txnMerge t u)"
proof (cases "Epoch t = Epoch u")
  case True
  then have "scoped (txnMerge t u) u f (mergeFlag (txnMerge t u) u f) = mergeFlag (txnMerge t u) u f"
    by (simp add: scoped_def txnMerge_sel)
  also have "\<dots> = mergeFlag t u f"
    using mergeFlag_again [OF assms(1,2) True] fm True
    by (simp only: mergeFlag_def [of "txnMerge t u"] txnMerge_sel scoped_def if_True less_irrefl if_False simp_thms(6))
  finally show ?thesis using fm True by (simp add: scoped_def)
next
  case False
  then consider "sint (Epoch t) < sint (Epoch u)" | "sint (Epoch u) < sint (Epoch t)"
    by (metis linorder_neqE sint_eq_iff)
  then show ?thesis
  proof cases
    case 1
    then have "f (txnMerge t u) = f u" using fm by (simp add: scoped_def)
    then show ?thesis using 1 by (simp add: scoped_def txnMerge_sel mergeFlag_def)
  next
    case 2
    then show ?thesis using False by (auto simp: scoped_def txnMerge_sel)
  qed
qed

lemma mergeStatus_again: "mergeStatus (txnMerge t u) u = mergeStatus t u"
  by (auto simp: mergeStatus_def txnMerge_sel IsFinalized_def)

lemma txnMerge_idem:
  assumes "\<not> Synthetic (ReadTimestamp t)" "\<not> Synthetic (ReadTimestamp u)"
    "\<not> Synthetic (TxnMinTimestamp t)" "\<not> Synthetic (TxnMinTimestamp u)"
    "observed.ordered (ObservedTimestamps t)" "observed.ordered (ObservedTimestamps u)"
  shows "txnMerge (txnMerge t u) u = txnMerge t u"
proof (rule Transaction.equality)
  let ?m = "txnMerge t u"
  show "CommitTimestampFixed (txnMerge ?m u) = CommitTimestampFixed ?m" "WriteTooOld (txnMerge ?m u) = WriteTooOld ?m"
    using scoped_flag_again [OF assms(1,2)] by (simp_all only: txnMerge_sel(4,5))
  show "Status (txnMerge ?m u) = Status ?m"
    by (simp only: txnMerge_sel mergeStatus_again)
  show "TxnMinTimestamp (txnMerge ?m u) = TxnMinTimestamp ?m"
    using Backward_idem [of "TxnMinTimestamp t" "TxnMinTimestamp u"] assms(3,4) by (auto simp: txnMerge_def Backward_self)
  show "ObservedTimestamps (txnMerge ?m u) = ObservedTimestamps ?m"
    using otsMerge_idem [OF assms(5,6)] by (simp add: txnMerge_def)
  show "Sequence (txnMerge ?m u) = Sequence ?m" "LockSpans (txnMerge ?m u) = LockSpans ?m"
    "InFlightWrites (txnMerge ?m u) = InFlightWrites ?m" "IgnoredSeqNums (txnMerge ?m u) = IgnoredSeqNums ?m"
    by (simp_all add: txnMerge_def scoped_def)
  show "Priority (txnMerge ?m u) = Priority ?m" "TxnKey (txnMerge ?m u) = TxnKey ?m" "Epoch (txnMerge ?m u) = Epoch ?m"
    by (simp_all add: txnMerge_def)
qed (simp_all add: txnMerge_def)

text \<open>An update with an aborted state of an earlier epoch aborts a transaction, a committed one too,
  although the comment of \<open>IsFinalized\<close> calls both states terminal.\<close>

lemma Update_leaves_COMMITTED:
  "\<exists>t u t'. txn_wf t \<and> txn_wf u \<and> Status t = COMMITTED \<and> TxnUpdate t (Some u) = Inr t' \<and> Status t' = ABORTED"
proof -
  define now :: Timestamp where "now = \<lparr>WallTime = 5, Logical = 0, Synthetic = False\<rparr>"
  define u where "u = (MakeTransaction 1 10 ''t'' None now 7 1)\<lparr>Status := ABORTED\<rparr>"
  define t where "t = (BumpEpoch u)\<lparr>Status := COMMITTED\<rparr>"
  have wf: "txn_wf t" "txn_wf u"
    by (simp_all add: t_def u_def txn_wf_def MakeTransaction_def BumpEpoch_def Let_def now_def Less_def emptyTimestamp_def)
  then have "TxnUpdate t (Some u) = Inr (txnMerge t u)"
    by (rule TxnUpdate_wf_eq) (simp add: t_def BumpEpoch_def)
  moreover have "Status (txnMerge t u) = ABORTED"
    by (simp add: txnMerge_def mergeStatus_def t_def u_def BumpEpoch_def MakeTransaction_def Let_def)
  ultimately show ?thesis using wf by (intro exI [of _ t] exI [of _ u] exI [of _ "txnMerge t u"]) (simp add: t_def)
qed

text \<open>Both preconditions in the comment of \<open>AddIgnoredSeqNumRange\<close> hold below, yet contiguous ranges
  stay apart, and a range that straddles the start of the new one is dropped as a whole, so that a
  rolled-back sequence number is visible again.\<close>

lemma AddIgnoredSeqNumRange_straddle:
  "IgnoredSeqNums t = [\<lparr>Start = 3, End = 5\<rparr>] \<Longrightarrow>
   IgnoredSeqNums (AddIgnoredSeqNumRange t \<lparr>Start = 6, End = 8\<rparr>) = [\<lparr>Start = 3, End = 5\<rparr>, \<lparr>Start = 6, End = 8\<rparr>] \<and>
   IgnoredSeqNums (AddIgnoredSeqNumRange t \<lparr>Start = 4, End = 8\<rparr>) = [\<lparr>Start = 4, End = 8\<rparr>] \<and>
   TxnSeqIsIgnored 3 (IgnoredSeqNums t) \<and>
   \<not> TxnSeqIsIgnored 3 (IgnoredSeqNums (AddIgnoredSeqNumRange t \<lparr>Start = 4, End = 8\<rparr>))"
  by (simp add: AddIgnored_list ignored_ok_def TxnSeqIsIgnored_def)

subsection \<open>Properties\<close>

text \<open>\<open>Update\<close> computes \<open>txnMerge\<close>; it copies into an empty transaction, ignores nil, and crashes exactly on
  an uninitialized or a different transaction.\<close>

lemma TxnUpdate_fieldwise:
  "TxnUpdate t None = Inr t \<and>
   TxnUpdate t (Some u) =
    (if ID u = 0 \<or> IsEmpty (WriteTimestamp u) then Inl (Panic ''uninitialized txn'')
     else if ID t = 0 then Inr u
     else if ID t \<noteq> ID u then Inl (Panic ''updating txn with different txn'')
     else Inr (txnMerge t u))"
  using TxnUpdate_merge [of t u] by (simp add: TxnUpdate_def AssertInitialized_def)



text \<open>C32: absorbing the same state of a transaction a second time changes nothing, so a response may be
  merged more than once (for states whose read and minimum timestamps are not synthetic).\<close>

theorem TxnUpdate_idempotent:
  assumes "txn_wf t" "txn_wf u" "ID u = ID t"
    "\<not> Synthetic (ReadTimestamp t)" "\<not> Synthetic (ReadTimestamp u)"
    "\<not> Synthetic (TxnMinTimestamp t)" "\<not> Synthetic (TxnMinTimestamp u)"
  shows "\<exists>t'. TxnUpdate t (Some u) = Inr t' \<and> TxnUpdate t' (Some u) = Inr t'"
proof -
  have "TxnUpdate t (Some u) = Inr (txnMerge t u)" using assms(1-3) by (rule TxnUpdate_wf_eq)
  moreover have "TxnUpdate (txnMerge t u) (Some u) = Inr (txnMerge (txnMerge t u) u)"
    using assms(1-3) by (intro TxnUpdate_wf_eq txnMerge_wf) (simp_all add: txnMerge_def)
  moreover have "txnMerge (txnMerge t u) u = txnMerge t u"
    using assms by (intro txnMerge_idem) (simp_all add: txn_wf_def)
  ultimately show ?thesis by simp
qed

theorem TxnUpdate_idempotent_witness:
  "let t = MakeTransaction 1 10 ''t'' None \<lparr>WallTime = 5, Logical = 0, Synthetic = False\<rparr> 7 1;
       u = Restart t 12 3 \<lparr>WallTime = 9, Logical = 0, Synthetic = False\<rparr>
   in \<exists>t'. TxnUpdate t (Some u) = Inr t' \<and> TxnUpdate t' (Some u) = Inr t'"
proof -
  define t where "t = MakeTransaction 1 10 ''t'' None \<lparr>WallTime = 5, Logical = 0, Synthetic = False\<rparr> 7 1"
  define u where "u = Restart t 12 3 \<lparr>WallTime = 9, Logical = 0, Synthetic = False\<rparr>"
  have wf: "txn_wf t" unfolding t_def by (rule MakeTransaction_wf) (simp_all add: Less_def emptyTimestamp_def)
  then have wfu: "txn_wf u" using txn_step_wf [OF txn_step.restart] by (simp add: u_def)
  have flags: "\<not> Synthetic (ReadTimestamp t)" "\<not> Synthetic (TxnMinTimestamp t)" "\<not> Synthetic (WriteTimestamp t)"
    by (simp_all add: t_def MakeTransaction_def Let_def)
  then have flagsu: "\<not> Synthetic (ReadTimestamp u)" "\<not> Synthetic (TxnMinTimestamp u)" "ID u = ID t"
    by (simp_all add: u_def Restart_sel)
  show ?thesis using TxnUpdate_idempotent [OF wf wfu flagsu(3) flags(1) flagsu(1) flags(2) flagsu(2)]
    by (simp add: t_def u_def Let_def)
qed

text \<open>The observed timestamps are a map from nodes to the least timestamp observed.  An
  observation, on each of the three paths of \<open>UpdateObservedTimestamp\<close>, changes the entry of its node
  only and to the smaller timestamp; an update merges the observations of the two states.\<close>

lemma observed_timestamps_minima:
  assumes "txn_wf t" "txn_wf u" "ID u = ID t"
  shows "GetObservedTimestamp (UpdateObservedTimestamp t n ts) =
      (GetObservedTimestamp t)(n \<mapsto> observe (GetObservedTimestamp t n) ts) \<and>
    (\<exists>t'. TxnUpdate t (Some u) = Inr t' \<and> (\<forall>m. GetObservedTimestamp t' m =
      (case GetObservedTimestamp u m of None \<Rightarrow> GetObservedTimestamp t m
       | Some x \<Rightarrow> Some (observe (GetObservedTimestamp t m) x))))"
proof -
  have ord: "observed.ordered (ObservedTimestamps t)" "observed.ordered (ObservedTimestamps u)"
    using assms(1,2) by (simp_all add: txn_wf_def)
  have "GetObservedTimestamp (UpdateObservedTimestamp t n ts) =
      (GetObservedTimestamp t)(n \<mapsto> observe (GetObservedTimestamp t n) ts)"
    using otsUpdate_map(2) [OF ord(1), of n ts]
    by (simp add: fun_eq_iff GetObservedTimestamp_def UpdateObservedTimestamp_ots)
  moreover have "GetObservedTimestamp (txnMerge t u) m = (case GetObservedTimestamp u m of
      None \<Rightarrow> GetObservedTimestamp t m | Some x \<Rightarrow> Some (observe (GetObservedTimestamp t m) x))" for m
    using otsMerge_get [OF ord, of m] by (simp add: GetObservedTimestamp_def txnMerge_def split: option.split)
  ultimately show ?thesis using TxnUpdate_wf_eq [OF assms] by simp
qed

text \<open>A savepoint rollback adds exactly its range to the rolled-back sequence numbers and keeps the
  list sorted and without overlap, when the new range is at the end and starts at or before every
  range that reaches into it.\<close>

lemma AddIgnoredSeqNumRange_union:
  assumes "ignored_ok (IgnoredSeqNums t)" "sint (Start new) \<le> sint (End new)"
    "\<forall>r \<in> set (IgnoredSeqNums t). sint (End r) \<le> sint (End new)"
    "\<forall>r \<in> set (IgnoredSeqNums t). sint (Start new) \<le> sint (End r) \<longrightarrow> sint (Start new) \<le> sint (Start r)"
  shows "ignored_ok (IgnoredSeqNums (AddIgnoredSeqNumRange t new)) \<and>
    (\<forall>seq. TxnSeqIsIgnored seq (IgnoredSeqNums (AddIgnoredSeqNumRange t new)) \<longleftrightarrow>
       TxnSeqIsIgnored seq (IgnoredSeqNums t) \<or> in_range seq new)"
proof -
  have ok: "ignored_ok (IgnoredSeqNums (AddIgnoredSeqNumRange t new))"
    using ignored_ok_snoc [OF assms(1,2)] by (simp add: AddIgnored_list [OF assms(1)])
  have "in_range seq new" if "r \<in> set (IgnoredSeqNums t)" "in_range seq r" "sint (Start new) \<le> sint (End r)" for seq r
    using that assms(3,4) by (force simp: in_range_def)
  then have "(\<exists>r \<in> set (IgnoredSeqNums (AddIgnoredSeqNumRange t new)). in_range seq r) \<longleftrightarrow>
      (\<exists>r \<in> set (IgnoredSeqNums t). in_range seq r) \<or> in_range seq new" for seq
    by (auto simp: AddIgnored_list [OF assms(1)] not_less) blast
  then show ?thesis using ok by (simp add: TxnSeqIsIgnored_iff assms(1))
qed

end
