(* ===== verification/Uncertainty.thy ===== *)
theory Uncertainty
  imports Leases Txn
begin

text \<open>
  Uncertainty intervals (\<open>engine/pkg/kv/kvserver/uncertainty/interval.go\<close> and \<open>compute.go\<close>): the window in
  which a value above a reader's timestamp may have been written before the reader began, so that the
  reader has to restart above it.  The interval combines the transaction's observed timestamps with
  the status of the lease it evaluates under.
\<close>

subsection \<open>Intervals\<close>

record Interval =
  GlobalLimit :: Timestamp
  LocalLimit :: Timestamp

definition noInterval :: Interval where
  "noInterval = \<lparr>GlobalLimit = emptyTimestamp, LocalLimit = emptyTimestamp\<rparr>"

definition IsUncertain :: "Interval \<Rightarrow> Timestamp \<Rightarrow> Timestamp \<Rightarrow> bool result" where
  "IsUncertain inn valueTs localTs =
    (if IsEmpty valueTs then Inl (Panic ''unexpected empty value timestamp'')
     else if IsEmpty localTs then Inl (Panic ''unexpected empty local timestamp'')
     else if \<not> IsEmpty (LocalLimit inn) \<and> Less (LocalLimit inn) localTs then Inr False
     else Inr (LessEq valueTs (GlobalLimit inn)))"

subsection \<open>The interval of a request\<close>

text \<open>The header of a request: its transaction, the timestamp its server gave it, and whether it reads
  consistently.\<close>

record Header =
  HTxn :: "Transaction option"
  TimestampFromServerClock :: "ClockTimestamp option"
  ConsistentRead :: bool

definition computeIntervalForTxn :: "Transaction \<Rightarrow> LeaseStatus \<Rightarrow> Interval" where
  "computeIntervalForTxn txn status =
    (let inn = \<lparr>GlobalLimit = GlobalUncertaintyLimit txn, LocalLimit = emptyTimestamp\<rparr> in
     if State status \<noteq> VALID then inn
     else case GetObservedTimestamp txn (ReplicaDescriptor.NodeID (LeaseReplica (StLease status))) of
       None \<Rightarrow> inn
     | Some obsTs \<Rightarrow>
         let limit = fst (Forward obsTs (MinValidObservedTimestamp status)) in
         inn\<lparr>LocalLimit := Backward limit (GlobalLimit inn)\<rparr>)"

definition computeIntervalForNonTxn :: "Header \<Rightarrow> LeaseStatus \<Rightarrow> int64 \<Rightarrow> Interval result" where
  "computeIntervalForNonTxn h status maxOffset =
    (case TimestampFromServerClock h of
       None \<Rightarrow> Inr noInterval
     | Some serverTs \<Rightarrow>
         if \<not> ConsistentRead h then Inr noInterval
         else rbind (ClockToTimestamp serverTs) (\<lambda>ts.
           let inn = \<lparr>GlobalLimit = Add ts maxOffset 0, LocalLimit = emptyTimestamp\<rparr> in
           if State status \<noteq> VALID then Inr inn
           else
             let limit = fst (Forward serverTs (MinValidObservedTimestamp status)) in
             Inr (inn\<lparr>LocalLimit := Backward limit (GlobalLimit inn)\<rparr>)))"

definition ComputeInterval :: "Header \<Rightarrow> LeaseStatus \<Rightarrow> int64 \<Rightarrow> Interval result" where
  "ComputeInterval h status maxOffset =
    (case HTxn h of Some txn \<Rightarrow> Inr (computeIntervalForTxn txn status)
     | None \<Rightarrow> computeIntervalForNonTxn h status maxOffset)"

subsection \<open>What is uncertain\<close>

text \<open>The clock reading on the leaseholder's node that limits the interval of a request, if any.\<close>

definition observed :: "Header \<Rightarrow> LeaseStatus \<Rightarrow> Timestamp option" where
  "observed h st =
    (if State st \<noteq> VALID then None
     else case HTxn h of Some txn \<Rightarrow> GetObservedTimestamp txn (ReplicaDescriptor.NodeID (LeaseReplica (StLease st)))
       | None \<Rightarrow> TimestampFromServerClock h)"

definition has_interval :: "Header \<Rightarrow> bool" where
  "has_interval h \<longleftrightarrow> HTxn h \<noteq> None \<or> (TimestampFromServerClock h \<noteq> None \<and> ConsistentRead h)"

text \<open>The panic on a timestamp of the server clock that carries the synthetic flag.\<close>

lemma ComputeInterval_Inl:
  "ComputeInterval h st off = Inl e \<longleftrightarrow> e = Panic ''ClockTimestamp with Synthetic flag set'' \<and> HTxn h = None \<and> ConsistentRead h \<and>
    (\<exists>ts. TimestampFromServerClock h = Some ts \<and> Synthetic ts)"
  by (auto simp: ComputeInterval_def computeIntervalForNonTxn_def ClockToTimestamp_def Let_def split: option.splits)

lemma LocalLimit_eq:
  "has_interval h \<Longrightarrow> ComputeInterval h st off = Inr i \<Longrightarrow> LocalLimit i =
    (case observed h st of None \<Rightarrow> emptyTimestamp
     | Some obs \<Rightarrow> Backward (fst (Forward obs (MinValidObservedTimestamp st))) (GlobalLimit i))"
  by (auto simp: has_interval_def observed_def ComputeInterval_def computeIntervalForTxn_def computeIntervalForNonTxn_def
      ClockToTimestamp_def Let_def split: option.splits if_splits)

lemma Backward_iff: "Less (Backward t s) u \<longleftrightarrow> Less t u \<or> Less s u"
  by (auto simp: Backward_def Let_def Less_pair ts_pair_def)

lemma Forward_iff: "LessEq u (fst (Forward t s)) \<longleftrightarrow> LessEq u t \<or> LessEq u s"
  by (auto simp: Forward_def LessEq_pair Less_pair EqOrdering_pair ts_pair_def)

lemma IsEmpty_le: "IsEmpty t \<Longrightarrow> LessEq t emptyTimestamp"
  by (simp add: IsEmpty_def LessEq_def emptyTimestamp_def)

lemma uncertain_limited:
  assumes "\<not> IsEmpty v" "\<not> IsEmpty l" "LessEq l v" "Less emptyTimestamp t"
  shows "IsUncertain \<lparr>GlobalLimit = g, LocalLimit = Backward t g\<rparr> v l = Inr (LessEq v g \<and> LessEq l t)"
proof (cases "IsEmpty (Backward t g)")
  case True
  then have "\<not> Less (Backward t g) t \<or> LessEq g emptyTimestamp"
    using IsEmpty_le [OF True] by (auto simp: Backward_def Let_def LessEq_pair Less_pair ts_pair_def split: if_splits)
  moreover have "Less (Backward t g) t" using IsEmpty_le [OF True] assms(4) ts_trans(3) by blast
  ultimately have "LessEq l t" if "LessEq v g" using that assms(3,4) ts_trans Less_imp_LessEq by blast
  then show ?thesis using True assms(1,2) by (auto simp: IsUncertain_def)
next
  case False
  have "Less g l \<Longrightarrow> \<not> LessEq v g" using assms(3) ts_trans(2) by (auto simp del: not_Less not_LessEq dest: ts_trans)
  then show ?thesis using False assms(1,2) by (auto simp: IsUncertain_def Backward_iff)
qed

lemma IsUncertain_cong:
  "GlobalLimit i = g \<Longrightarrow> LocalLimit i = t \<Longrightarrow> IsUncertain i v l = IsUncertain \<lparr>GlobalLimit = g, LocalLimit = t\<rparr> v l"
  by (simp add: IsUncertain_def del: not_Less not_LessEq)

lemma emptyTimestamp_IsEmpty [simp]: "IsEmpty emptyTimestamp"
  by (simp add: IsEmpty_def emptyTimestamp_def)

lemma interval_exact:
  assumes "\<not> IsEmpty v" "\<not> IsEmpty l" "LessEq l v" "Less emptyTimestamp v"
    and "\<forall>obs. observed h st = Some obs \<longrightarrow> Less emptyTimestamp obs" and i: "ComputeInterval h st off = Inr i"
  shows "IsUncertain i v l = Inr (has_interval h \<and> LessEq v (GlobalLimit i) \<and>
        (case observed h st of None \<Rightarrow> True
         | Some obs \<Rightarrow> LessEq l obs \<or> LessEq l (MinValidObservedTimestamp st)))"
    "IsEmpty (LocalLimit i) \<or> LessEq (LocalLimit i) (GlobalLimit i)"
proof -
  have "IsUncertain i v l = Inr (has_interval h \<and> LessEq v (GlobalLimit i) \<and>
        (case observed h st of None \<Rightarrow> True
         | Some obs \<Rightarrow> LessEq l obs \<or> LessEq l (MinValidObservedTimestamp st))) \<and>
    (IsEmpty (LocalLimit i) \<or> LessEq (LocalLimit i) (GlobalLimit i))"
  proof (cases "has_interval h")
    case False
    then have "i = noInterval"
      using i by (auto simp: has_interval_def ComputeInterval_def computeIntervalForNonTxn_def split: option.splits)
    then show ?thesis using False assms(1,2,4) by (simp add: IsUncertain_def noInterval_def not_Less [symmetric] del: not_Less)
  next
    case True
    show ?thesis
    proof (cases "observed h st")
      case None
      then have "LocalLimit i = emptyTimestamp" using LocalLimit_eq [OF True i] by simp
      then show ?thesis using True None assms(1,2) by (simp add: IsUncertain_def)
    next
      case (Some obs)
      let ?t = "fst (Forward obs (MinValidObservedTimestamp st))"
      have local: "LocalLimit i = Backward ?t (GlobalLimit i)" using LocalLimit_eq [OF True i] Some by simp
      have "Less emptyTimestamp ?t" using assms(5) Some Forward_ge(1) ts_trans(2) by blast
      from uncertain_limited [OF assms(1-3) this, of "GlobalLimit i"]
      show ?thesis using True Some IsUncertain_cong [OF refl local] local Backward_le(1) by (simp add: Forward_iff)
    qed
  qed
  then show "IsUncertain i v l = Inr (has_interval h \<and> LessEq v (GlobalLimit i) \<and>
        (case observed h st of None \<Rightarrow> True
         | Some obs \<Rightarrow> LessEq l obs \<or> LessEq l (MinValidObservedTimestamp st)))"
    "IsEmpty (LocalLimit i) \<or> LessEq (LocalLimit i) (GlobalLimit i)" by blast+
qed

text \<open>C15: what a reader treats as uncertain.  For a value with version timestamp \<open>v\<close>, written when the
  leaseholder's clock showed \<open>l\<close>, a request without an applicable clock reading (the lease is not
  valid, or the transaction has no reading of the leaseholder's node) is uncertain about
  everything up to its global limit; with one it is uncertain exactly about the values up to the
  global limit that were written at or before the reading, or at or before the minimum timestamp of
  the lease, so no value of an earlier leaseholder is ever taken for concurrent.  The local limit never exceeds
  the global one, and requests without linearizability guarantees are never uncertain.  Computing the
  interval panics only for a request without a transaction whose server timestamp carries the synthetic flag.\<close>

theorem uncertainty_exact:
  assumes "\<not> IsEmpty v" "\<not> IsEmpty l" "LessEq l v" "Less emptyTimestamp v"
    and "\<forall>obs. observed h st = Some obs \<longrightarrow> Less emptyTimestamp obs"
  shows "case ComputeInterval h st off of
      Inl _ \<Rightarrow> HTxn h = None \<and> ConsistentRead h \<and> (\<exists>ts. TimestampFromServerClock h = Some ts \<and> Synthetic ts)
    | Inr i \<Rightarrow>
        IsUncertain i v l = Inr (has_interval h \<and> LessEq v (GlobalLimit i) \<and>
          (case observed h st of None \<Rightarrow> True
           | Some obs \<Rightarrow> LessEq l obs \<or> LessEq l (MinValidObservedTimestamp st))) \<and>
        (IsEmpty (LocalLimit i) \<or> LessEq (LocalLimit i) (GlobalLimit i))"
proof (cases "ComputeInterval h st off")
  case (Inl e)
  then show ?thesis using ComputeInterval_Inl [of h st off e] by simp
next
  case (Inr i)
  then show ?thesis using interval_exact [OF assms Inr] by simp
qed

definition ex_header :: Header where
  "ex_header = \<lparr>HTxn = None, TimestampFromServerClock = Some (ex_ts 10), ConsistentRead = True\<rparr>"

definition ex_lease_status :: LeaseStatus where
  "ex_lease_status = \<lparr>StLease = ex_prev, StNow = ex_ts 9, RequestTime = ex_ts 9, State = VALID, ErrInfo = [],
     StLiveness = noLiveness, MinValidObservedTimestamp = ex_ts 12\<rparr>"

definition ex_interval :: Interval where
  "ex_interval = \<lparr>GlobalLimit = ex_ts 15, LocalLimit = ex_ts 12\<rparr>"

lemma ex_computes: "ComputeInterval ex_header ex_lease_status 5 = Inr ex_interval"
  by (simp add: ComputeInterval_def computeIntervalForNonTxn_def ex_header_def ex_lease_status_def ex_interval_def Add_def ex_ts_def
      ClockToTimestamp_def Forward_def Backward_def Less_def bothSynthetic_def Let_def)

theorem uncertainty_exact_witness:
  "IsUncertain ex_interval (ex_ts 14) (ex_ts 11) = Inr True \<and> IsUncertain ex_interval (ex_ts 14) (ex_ts 13) = Inr False"
proof -
  have obs: "observed ex_header ex_lease_status = Some (ex_ts 10)" by (simp add: observed_def ex_lease_status_def ex_header_def)
  have ts: "\<not> IsEmpty (ex_ts 11)" "\<not> IsEmpty (ex_ts 13)" "\<not> IsEmpty (ex_ts 14)" "Less emptyTimestamp (ex_ts 10)"
    "Less emptyTimestamp (ex_ts 14)" "LessEq (ex_ts 11) (ex_ts 14)" "LessEq (ex_ts 13) (ex_ts 14)"
    by (simp_all add: ex_ts_def IsEmpty_def Less_def LessEq_def emptyTimestamp_def)
  have le: "LessEq (ex_ts 14) (ex_ts 15)" "LessEq (ex_ts 11) (ex_ts 12)" "\<not> LessEq (ex_ts 13) (ex_ts 10)" "\<not> LessEq (ex_ts 13) (ex_ts 12)"
    by (simp_all add: ex_ts_def LessEq_def del: not_LessEq)
  have flds: "MinValidObservedTimestamp ex_lease_status = ex_ts 12" "GlobalLimit ex_interval = ex_ts 15" "has_interval ex_header"
    by (simp_all add: ex_lease_status_def ex_interval_def has_interval_def ex_header_def)
  have pos: "\<forall>t. observed ex_header ex_lease_status = Some t \<longrightarrow> Less emptyTimestamp t" using ts(4) by (simp add: obs)
  show ?thesis
    using uncertainty_exact [OF ts(3) ts(1) ts(6) ts(5) pos, of 5] uncertainty_exact [OF ts(3) ts(2) ts(7) ts(5) pos, of 5]
    unfolding ex_computes obs flds sum.case option.case using le flds(3) by (simp del: not_LessEq)
qed

end
