(* ===== verification/Mvcc_Scan.thy ===== *)
theory Mvcc_Scan
  imports Mvcc_Results Mvcc_Value Range_Keys Uncertainty Lock_Modes "HOL-Library.Monad_Syntax"
begin

text \<open>
  Reads of the versioned store (\<open>pebbleMVCCScanner\<close> in \<open>engine/pkg/storage/pebble_mvcc_scanner.go\<close>): the
  get of one key and the scan of a span, forward or in reverse, at a timestamp.  The scanner walks an
  iterator over versioned keys, finds the version each key has at the read timestamp, checks newer
  versions for uncertainty, meets the intents of transactions, and adds what it finds to a result set.

  The iterator is the interface \<open>MVCCIterator\<close> of \<open>engine.go\<close> over the third-party store: a record of
  its operations on a state of any type.  The lock table, the memory account and the unmarshalling of
  intent metadata are functions of the environment.  A panic is recorded as an error and stops the scan.
  Loops over the iterator take fuel, \<open>None\<close> being its exhaustion; the loop bounded by \<open>itersBeforeSeek\<close>
  counts down.
\<close>

subsection \<open>The environment\<close>

record 'i MVCCIterator =
  iSeekGE :: "MVCCKey \<Rightarrow> 'i \<Rightarrow> 'i"
  iSeekLT :: "MVCCKey \<Rightarrow> 'i \<Rightarrow> 'i"
  iNext :: "'i \<Rightarrow> 'i"
  iNextKey :: "'i \<Rightarrow> 'i"
  iPrev :: "'i \<Rightarrow> 'i"
  iValid :: "'i \<Rightarrow> bool result"
  iUnsafeRawMVCCKey :: "'i \<Rightarrow> bytes"
  iUnsafeKey :: "'i \<Rightarrow> MVCCKey"
  iUnsafeLazyValue :: "'i \<Rightarrow> bytes result"
  iHasPointAndRange :: "'i \<Rightarrow> bool \<times> bool"
  iRangeKeys :: "'i \<Rightarrow> MVCCRangeKeyStack"
  iRangeKeyChanged :: "'i \<Rightarrow> bool"

record MVCCMetadata =
  MetaTxn :: "TxnMeta option"
  MetaTimestamp :: LegacyTimestamp
  MetaRawBytes :: bytes
  IntentHistory :: "SequencedIntent list"

record 'i Env =
  iter :: "'i MVCCIterator"
  unmarshalMeta :: "bytes \<Rightarrow> MVCCMetadata result"
  marshalMeta :: "MVCCMetadata \<Rightarrow> bytes result"
  IsKeyLocked :: "bytes \<Rightarrow> Strength \<Rightarrow> bool \<times> TxnMeta option"
  Grow :: "int \<Rightarrow> unit result"
  maxItersBeforeSeek :: int

subsection \<open>The scanner\<close>

datatype advanceFn =
  advanceNone | advanceKeyForward_fn | advanceKeyAtEndForward_fn | advanceKeyAtNewKeyForward_fn
| advanceKeyReverse_fn | advanceKeyAtEndReverse_fn | advanceKeyAtNewKeyReverse_fn

datatype ResumeReason = RESUME_UNKNOWN | RESUME_KEY_LIMIT | RESUME_BYTE_LIMIT | RESUME_INTENT_LIMIT

datatype scan_error =
  GoError go_error
| WriteTooOldError Timestamp Timestamp bytes
| ReadWithinUncertaintyIntervalError Timestamp Timestamp Timestamp Timestamp

record 'i pebbleMVCCScanner =
  parent :: 'i
  reverse :: bool
  peeked :: bool
  startKey :: bytes
  endKey :: bytes
  readTS :: Timestamp
  maxKeys :: int
  targetBytes :: int
  allowEmpty :: bool
  wholeRows :: bool
  maxIntents :: int
  resumeReason :: ResumeReason
  resumeKey :: bytes
  resumeNextBytes :: int
  scanTxn :: "Transaction option"
  txnEpoch :: int32
  txnSequence :: TxnSeq
  txnIgnoredSeqNums :: "IgnoredSeqNumRange list"
  uncertainty :: Interval
  checkUncertainty :: bool
  scanMeta :: MVCCMetadata
  inconsistent :: bool
  skipLocked :: bool
  tombstones :: bool
  failOnMoreRecent :: bool
  curUnsafeKey :: MVCCKey
  curRawKey :: bytes
  curUnsafeValue :: MVCCValue
  curRawValue :: "bytes result"
  curRangeKeys :: MVCCRangeKeyStack
  results :: pebbleResults
  intents :: "(bytes \<times> bytes) list"
  mostRecentTS :: Timestamp
  mostRecentKey :: bytes
  err :: "scan_error option"
  itersBeforeSeek :: int
  machineFn :: advanceFn
  machineOrigKey :: bytes

definition fail :: "scan_error \<Rightarrow> 'i pebbleMVCCScanner \<Rightarrow> 'i pebbleMVCCScanner" where
  "fail e p = p\<lparr>err := Some e\<rparr>"

definition scan_init ::
    "'i Env \<Rightarrow> Transaction option \<Rightarrow> Interval \<Rightarrow> pebbleResults \<Rightarrow> 'i pebbleMVCCScanner \<Rightarrow> 'i pebbleMVCCScanner" where
  "scan_init env txn ui res p =
    (let p = p\<lparr>itersBeforeSeek := maxItersBeforeSeek env div 2, results := res\<rparr>;
         p = (case txn of None \<Rightarrow> p
              | Some t \<Rightarrow> p\<lparr>scanTxn := Some t, txnEpoch := Epoch t, txnSequence := Sequence t,
                            txnIgnoredSeqNums := IgnoredSeqNums t\<rparr>)
     in p\<lparr>uncertainty := ui, checkUncertainty := Less (readTS p) (GlobalLimit ui)\<rparr>)"

definition incrementItersBeforeSeek :: "'i Env \<Rightarrow> 'i pebbleMVCCScanner \<Rightarrow> 'i pebbleMVCCScanner" where
  "incrementItersBeforeSeek env p =
    (let n = itersBeforeSeek p + 1 in
     p\<lparr>itersBeforeSeek := (if n > maxItersBeforeSeek env then maxItersBeforeSeek env else n)\<rparr>)"

definition decrementItersBeforeSeek :: "'i Env \<Rightarrow> 'i pebbleMVCCScanner \<Rightarrow> 'i pebbleMVCCScanner" where
  "decrementItersBeforeSeek env p =
    (let n = itersBeforeSeek p - 1 in
     p\<lparr>itersBeforeSeek :=
        (if n < 1 then (if maxItersBeforeSeek env > 0 then 1 else if n < 0 then 0 else n) else n)\<rparr>)"

function getFromIntentHistoryLoop :: "SequencedIntent list \<Rightarrow> IgnoredSeqNumRange list \<Rightarrow> nat \<Rightarrow> nat" where
  "getFromIntentHistoryLoop history ignored upIdx =
    (if upIdx > 0 \<and> TxnSeqIsIgnored (ISequence (history ! (upIdx - 1))) ignored
     then getFromIntentHistoryLoop history ignored (upIdx - 1) else upIdx)"
  by pat_completeness auto

termination
  by (relation "measure (\<lambda>(_, _, n). n)") auto

declare getFromIntentHistoryLoop.simps [simp del]

definition getFromIntentHistory :: "'i pebbleMVCCScanner \<Rightarrow> bytes option" where
  "getFromIntentHistory p =
    (let history = IntentHistory (scanMeta p);
         upIdx = sort_Search (length history) (\<lambda>i. sint (txnSequence p) < sint (ISequence (history ! i)));
         upIdx = getFromIntentHistoryLoop history (txnIgnoredSeqNums p) upIdx
     in if upIdx = 0 then None else Some (IValue (history ! (upIdx - 1))))"

definition maybeFailOnMoreRecent :: "'i pebbleMVCCScanner \<Rightarrow> 'i pebbleMVCCScanner" where
  "maybeFailOnMoreRecent p =
    (if err p \<noteq> None \<or> IsEmpty (mostRecentTS p) then p
     else case Next (mostRecentTS p) of
       Inl e \<Rightarrow> fail (GoError e) p
     | Inr ts \<Rightarrow> (fail (WriteTooOldError (readTS p) ts (mostRecentKey p)) p)\<lparr>results := noResults, intents := []\<rparr>)"

definition uncertaintyError :: "Timestamp \<Rightarrow> Timestamp \<Rightarrow> 'i pebbleMVCCScanner \<Rightarrow> 'i pebbleMVCCScanner" where
  "uncertaintyError valueTs localTs p =
    (fail (ReadWithinUncertaintyIntervalError (readTS p) (LocalLimit (uncertainty p)) valueTs localTs) p)
      \<lparr>results := noResults, intents := []\<rparr>"

subsection \<open>Intents and results\<close>

definition addRawIntent :: "'i Env \<Rightarrow> bytes \<Rightarrow> bytes \<Rightarrow> 'i pebbleMVCCScanner \<Rightarrow> bool \<times> 'i pebbleMVCCScanner" where
  "addRawIntent env key value p =
    (case Grow env (int (length key + length value)) of
       Inl e \<Rightarrow> (False, fail (GoError e) p)
     | Inr _ \<Rightarrow> (True, p\<lparr>err := None, intents := intents p @ [(key, value)]\<rparr>))"

definition addCurIntent :: "'i Env \<Rightarrow> 'i pebbleMVCCScanner \<Rightarrow> bool \<times> 'i pebbleMVCCScanner" where
  "addCurIntent env p =
    (case curRawValue p of Inl e \<Rightarrow> (False, fail (GoError e) p) | Inr v \<Rightarrow> addRawIntent env (curRawKey p) v p)"

definition noMeta :: MVCCMetadata where
  "noMeta = \<lparr>MetaTxn = None, MetaTimestamp = ToLegacyTimestamp emptyTimestamp, MetaRawBytes = [], IntentHistory = []\<rparr>"

definition addKeyAndMetaAsIntent ::
    "'i Env \<Rightarrow> bytes \<Rightarrow> TxnMeta option \<Rightarrow> 'i pebbleMVCCScanner \<Rightarrow> bool \<times> 'i pebbleMVCCScanner" where
  "addKeyAndMetaAsIntent env key txn p =
    (case txn of
       None \<Rightarrow> (False, fail (GoError (Errorf ''nil txn passed to addKeyAndMetaAsIntent'')) p)
     | Some t \<Rightarrow>
         case marshalMeta env (noMeta\<lparr>MetaTxn := Some t\<rparr>) of
           Inl e \<Rightarrow> (False, fail (GoError e) p)
         | Inr v \<Rightarrow> addRawIntent env (EncodeMVCCKey (MakeMVCCMetadataKey key)) v p)"

definition hasRoom :: "'i pebbleMVCCScanner \<Rightarrow> bool" where
  "hasRoom p \<longleftrightarrow> maxIntents p = 0 \<or> int (length (intents p)) < maxIntents p"

text \<open>The first component tells whether the key is locked, the second whether the call succeeded.\<close>

definition isKeyLockedByConflictingTxn ::
    "'i Env \<Rightarrow> bytes \<Rightarrow> 'i pebbleMVCCScanner \<Rightarrow> bool \<times> bool \<times> 'i pebbleMVCCScanner" where
  "isKeyLockedByConflictingTxn env rawKey p =
    (case DecodeKey rawKey of
       Inl e \<Rightarrow> (False, False, fail (GoError e) p)
     | Inr (key, _) \<Rightarrow>
         let strength = (if failOnMoreRecent p then LockExclusive else LockNone) in
         case IsKeyLocked env key strength of
           (False, _) \<Rightarrow> (False, True, p)
         | (True, txn) \<Rightarrow>
             if txn \<noteq> None \<and> hasRoom p then
               (case addKeyAndMetaAsIntent env key txn p of
                  (False, p1) \<Rightarrow> (False, False, p1)
                | (True, p1) \<Rightarrow> (True, True, p1))
             else (True, True, p))"

text \<open>The end of \<open>add\<close>, after the limits: put the pair and stop at the key limit.\<close>

definition addPut ::
    "'i Env \<Rightarrow> bytes \<Rightarrow> bytes \<Rightarrow> int \<Rightarrow> int \<Rightarrow> bool \<Rightarrow> 'i pebbleMVCCScanner \<Rightarrow> (bool \<times> bool) \<times> 'i pebbleMVCCScanner" where
  "addPut env rawKey rawValue numKeys numBytes mustPutKey p =
    (let maxNewSize = (if targetBytes p > 0 \<and> targetBytes p > numBytes \<and> \<not> mustPutKey
                       then targetBytes p - numBytes else 0)
     in case put (Grow env) (results p) rawKey rawValue maxNewSize of
          (Inl e, r) \<Rightarrow> ((False, False), fail (GoError e) (p\<lparr>results := r\<rparr>))
        | (Inr _, r) \<Rightarrow>
            let p1 = p\<lparr>results := r\<rparr>; numKeys1 = numKeys + 1 in
            if maxKeys p1 > 0 \<and> numKeys1 \<ge> maxKeys p1 then
              if \<not> wholeRows p1 then ((False, True), p1\<lparr>resumeReason := RESUME_KEY_LIMIT\<rparr>)
              else case lastRowHasFinalColumnFamily r (reverse p1) of
                Inl e \<Rightarrow> ((False, False), fail (GoError e) p1)
              | Inr True \<Rightarrow> ((False, True), p1\<lparr>resumeReason := RESUME_KEY_LIMIT\<rparr>)
              | Inr False \<Rightarrow> ((True, True), p1)
            else ((True, True), p1))"

text \<open>The limits of \<open>add\<close>.\<close>

definition addLimits ::
    "'i Env \<Rightarrow> bytes \<Rightarrow> bytes \<Rightarrow> bytes \<Rightarrow> 'i pebbleMVCCScanner \<Rightarrow> (bool \<times> bool) \<times> 'i pebbleMVCCScanner" where
  "addLimits env key rawKey rawValue p =
    (case sizeInfo (results p) (length rawKey) (length rawValue) of (numKeys, numBytes, numBytesInc) \<Rightarrow>
       let p1 = (if targetBytes p > 0 \<and> numBytes + numBytesInc > targetBytes p
                 then p\<lparr>resumeReason := RESUME_BYTE_LIMIT, resumeNextBytes := numBytesInc\<rparr>
                 else if maxKeys p > 0 \<and> numKeys \<ge> maxKeys p then p\<lparr>resumeReason := RESUME_KEY_LIMIT\<rparr> else p)
       in if resumeReason p1 = RESUME_UNKNOWN then addPut env rawKey rawValue numKeys numBytes False p1
          else
            let continues = (if allowEmpty p1 then Inr False
                             else if numKeys = 0 then Inr True
                             else if wholeRows p1 then continuesFirstRow (results p1) key else Inr False)
            in case continues of
              Inl e \<Rightarrow> ((False, False), fail (GoError e) p1)
            | Inr True \<Rightarrow>
                addPut env rawKey rawValue numKeys numBytes True
                  (p1\<lparr>resumeReason := RESUME_UNKNOWN, resumeNextBytes := 0\<rparr>)
            | Inr False \<Rightarrow>
                let p2 = p1\<lparr>resumeKey := key\<rparr> in
                if wholeRows p2 then
                  (case maybeTrimPartialLastRow (results p2) key of
                     (Inl e, r) \<Rightarrow> ((False, False), fail (GoError e) (p2\<lparr>results := r\<rparr>))
                   | (Inr None, r) \<Rightarrow> ((False, False), p2\<lparr>results := r\<rparr>)
                   | (Inr (Some trimmedKey), r) \<Rightarrow> ((False, False), p2\<lparr>results := r, resumeKey := trimmedKey\<rparr>))
                else ((False, False), p2))"

definition add ::
    "'i Env \<Rightarrow> bytes \<Rightarrow> bytes \<Rightarrow> bytes \<Rightarrow> 'i pebbleMVCCScanner \<Rightarrow> (bool \<times> bool) \<times> 'i pebbleMVCCScanner" where
  "add env key rawKey rawValue p =
    (if length rawValue = 0 \<and> \<not> tombstones p then ((True, False), p)
     else if skipLocked p then
       (case isKeyLockedByConflictingTxn env rawKey p of
          (_, False, p1) \<Rightarrow> ((False, False), p1)
        | (True, True, p1) \<Rightarrow> ((True, False), p1)
        | (False, True, p1) \<Rightarrow> addLimits env key rawKey rawValue p1)
     else addLimits env key rawKey rawValue p)"

definition addSynthetic ::
    "'i Env \<Rightarrow> bytes \<Rightarrow> MVCCRangeKeyVersion \<Rightarrow> 'i pebbleMVCCScanner \<Rightarrow> (bool \<times> bool) \<times> 'i pebbleMVCCScanner" where
  "addSynthetic env key rkv p =
    (case DecodeMVCCValue (VValue rkv) of
       Inl e \<Rightarrow> ((False, False), fail (GoError e) p)
     | Inr value \<Rightarrow>
         add env key (EncodeMVCCKey \<lparr>MKey = key, MTimestamp = VTimestamp rkv\<rparr>) (RawBytes value) (p\<lparr>err := None\<rparr>))"

definition coveredByRangeKey :: "Timestamp \<Rightarrow> 'i pebbleMVCCScanner \<Rightarrow> MVCCRangeKeyVersion option" where
  "coveredByRangeKey ts p =
    (let vs = Versions (curRangeKeys p) in
     if length vs > 0 \<and> (tombstones p \<or> LessEq ts (Newest vs))
     then (case FirstAtOrBelow vs (readTS p) of
             None \<Rightarrow> None | Some rkv \<Rightarrow> if LessEq ts (VTimestamp rkv) then Some rkv else None)
     else None)"

subsection \<open>Moving the iterator\<close>

definition iterValid :: "'i Env \<Rightarrow> 'i pebbleMVCCScanner \<Rightarrow> bool \<times> 'i pebbleMVCCScanner" where
  "iterValid env p =
    (case iValid (iter env) (parent p) of Inl e \<Rightarrow> (False, fail (GoError e) p) | Inr valid \<Rightarrow> (valid, p))"

definition updateCurrent :: "'i Env \<Rightarrow> 'i pebbleMVCCScanner \<Rightarrow> bool \<times> 'i pebbleMVCCScanner" where
  "updateCurrent env p =
    (let p1 = p\<lparr>curRawKey := iUnsafeRawMVCCKey (iter env) (parent p)\<rparr> in
     case DecodeMVCCKey (curRawKey p1) of
       Inl e \<Rightarrow> (False, fail (GoError e) p1)
     | Inr k \<Rightarrow> (True, p1\<lparr>curUnsafeKey := k, curRawValue := iUnsafeLazyValue (iter env) (parent p)\<rparr>))"

fun checkRangeKeys :: "MVCCRangeKeyVersion list \<Rightarrow> 'i pebbleMVCCScanner \<Rightarrow> bool \<times> 'i pebbleMVCCScanner" where
  "checkRangeKeys [] p = (True, p)"
| "checkRangeKeys (rkv # vs) p =
    (if LessEq (VTimestamp rkv) (readTS p) then (True, p)
     else case DecodeMVCCValue (VValue rkv) of
       Inl e \<Rightarrow> (False, fail (GoError e) p)
     | Inr value \<Rightarrow>
         let p1 = p\<lparr>err := None\<rparr>; localTS = GetLocalTimestamp value (VTimestamp rkv) in
         case IsUncertain (uncertainty p1) (VTimestamp rkv) localTS of
           Inl e \<Rightarrow> (False, fail (GoError e) p1)
         | Inr True \<Rightarrow> (False, uncertaintyError (VTimestamp rkv) localTS p1)
         | Inr False \<Rightarrow> checkRangeKeys vs p1)"

definition newRangeKeys :: "'i Env \<Rightarrow> bool \<Rightarrow> 'i pebbleMVCCScanner \<Rightarrow> bool \<times> 'i pebbleMVCCScanner" where
  "newRangeKeys env hasPoint p =
    (let p1 = p\<lparr>curRangeKeys := iRangeKeys (iter env) (parent p)\<rparr>;
         key = iUnsafeKey (iter env) (parent p);
         newest = Newest (Versions (curRangeKeys p1));
         p2 = (if failOnMoreRecent p1 \<and> (\<not> hasPoint \<or> \<not> IsEmpty (MTimestamp key)) \<and> LessEq (readTS p1) newest
               then p1\<lparr>mostRecentTS := fst (Forward (mostRecentTS p1) newest),
                       mostRecentKey := (if length (mostRecentKey p1) = 0 then MKey key else mostRecentKey p1)\<rparr>
               else p1)
     in if checkUncertainty p2 then checkRangeKeys (Versions (curRangeKeys p2)) p2 else (True, p2))"

primrec processRangeKeys ::
    "nat \<Rightarrow> 'i Env \<Rightarrow> bool \<Rightarrow> bool \<Rightarrow> 'i pebbleMVCCScanner \<Rightarrow> (bool \<times> 'i pebbleMVCCScanner) option" where
  "processRangeKeys 0 env seeked rev0 p = None"
| "processRangeKeys (Suc fuel) env seeked rev0 p =
    (let rangeKeyChanged = iRangeKeyChanged (iter env) (parent p) in
     if \<not> rangeKeyChanged \<and> \<not> rev0 \<and> \<not> seeked then Some (True, p)
     else
       let (hasPoint, hasRange) = iHasPointAndRange (iter env) (parent p) in
       if \<not> hasRange then Some (True, p\<lparr>curRangeKeys := \<lparr>Bounds = \<lparr>Key = [], EndKey = []\<rparr>, Versions = []\<rparr>\<rparr>)
       else
         let (ok, p1) = (if rangeKeyChanged \<or> (seeked \<and> length (Versions (curRangeKeys p)) = 0)
                         then newRangeKeys env hasPoint p else (True, p))
         in if \<not> ok then Some (False, p1)
            else if hasPoint then Some (True, p1)
            else
              let p2 = p1\<lparr>parent := (if \<not> rev0 then iNext (iter env) (parent p1) else iPrev (iter env) (parent p1))\<rparr>;
                  (valid, p3) = iterValid env p2
              in if \<not> valid then Some (False, p3) else processRangeKeys fuel env seeked rev0 p3)"

text \<open>The steps that follow every move: check the iterator, process range keys, read the position.\<close>

definition arrive ::
    "nat \<Rightarrow> 'i Env \<Rightarrow> bool \<Rightarrow> bool \<Rightarrow> 'i pebbleMVCCScanner \<Rightarrow> (bool \<times> 'i pebbleMVCCScanner) option" where
  "arrive fuel env seeked rev0 p =
    (let (valid, p1) = iterValid env p in
     if \<not> valid then Some (False, p1)
     else do {
       (ok, p2) \<leftarrow> processRangeKeys fuel env seeked rev0 p1;
       if \<not> ok then Some (False, p2) else Some (updateCurrent env p2)
     })"

definition clearPeeked :: "'i pebbleMVCCScanner \<Rightarrow> 'i pebbleMVCCScanner" where
  "clearPeeked p = (if reverse p then p\<lparr>peeked := False\<rparr> else p)"

definition iterSeek :: "nat \<Rightarrow> 'i Env \<Rightarrow> MVCCKey \<Rightarrow> 'i pebbleMVCCScanner \<Rightarrow> (bool \<times> 'i pebbleMVCCScanner) option" where
  "iterSeek fuel env key p =
    (let p1 = clearPeeked p in arrive fuel env True False (p1\<lparr>parent := iSeekGE (iter env) key (parent p1)\<rparr>))"

definition iterNext :: "nat \<Rightarrow> 'i Env \<Rightarrow> 'i pebbleMVCCScanner \<Rightarrow> (bool \<times> 'i pebbleMVCCScanner) option" where
  "iterNext fuel env p =
    (let (ok, p1) = (if reverse p \<and> peeked p
                     then iterValid env (p\<lparr>peeked := False, parent := iNext (iter env) (parent p)\<rparr>) else (True, p))
     in if \<not> ok then Some (False, p1)
        else arrive fuel env False False (p1\<lparr>parent := iNext (iter env) (parent p1)\<rparr>))"

definition iterPrev :: "nat \<Rightarrow> 'i Env \<Rightarrow> 'i pebbleMVCCScanner \<Rightarrow> (bool \<times> 'i pebbleMVCCScanner) option" where
  "iterPrev fuel env p =
     arrive fuel env False True
       (if peeked p then p\<lparr>peeked := False\<rparr> else p\<lparr>parent := iPrev (iter env) (parent p)\<rparr>)"

text \<open>A peek leaves the current position of the scanner and moves the iterator: the key peeked at and
  whether it has a point, or nothing at the beginning.\<close>

definition iterPeekPrev :: "'i Env \<Rightarrow> 'i pebbleMVCCScanner \<Rightarrow> (bytes \<times> bool) option \<times> 'i pebbleMVCCScanner" where
  "iterPeekPrev env p =
    (let p1 = (if \<not> peeked p then p\<lparr>peeked := True, parent := iPrev (iter env) (parent p)\<rparr> else p);
         (valid, p2) = iterValid env p1
     in if \<not> valid then (None, p2)
        else
          let peekedKey = iUnsafeKey (iter env) (parent p2);
              hasPoint = (if IsEmpty (MTimestamp peekedKey) then fst (iHasPointAndRange (iter env) (parent p2)) else True)
          in (Some (MKey peekedKey, hasPoint), p2))"

definition nextKey :: "nat \<Rightarrow> 'i Env \<Rightarrow> 'i pebbleMVCCScanner \<Rightarrow> (bool \<times> 'i pebbleMVCCScanner) option" where
  "nextKey fuel env p = do {
     (ok, p1) \<leftarrow> (if reverse p \<and> peeked p then iterNext fuel env p else Some (True, p));
     if \<not> ok then Some (False, p1)
     else arrive fuel env False False (p1\<lparr>parent := iNextKey (iter env) (parent p1)\<rparr>)
   }"

text \<open>\<open>n\<close> steps are left before the fallback to a seek.\<close>

primrec backwardLatestVersionLoop ::
    "nat \<Rightarrow> nat \<Rightarrow> 'i Env \<Rightarrow> bytes \<Rightarrow> 'i pebbleMVCCScanner \<Rightarrow> (bool \<times> 'i pebbleMVCCScanner) option" where
  "backwardLatestVersionLoop 0 fuel env key p =
     iterSeek fuel env \<lparr>MKey = key, MTimestamp = emptyTimestamp\<rparr> (decrementItersBeforeSeek env p)"
| "backwardLatestVersionLoop (Suc n) fuel env key p =
    (case iterPeekPrev env p of
       (None, p1) \<Rightarrow> Some (True, p1)
     | (Some (peekedKey, hasPoint), p1) \<Rightarrow>
         if peekedKey \<noteq> key \<or> \<not> hasPoint then Some (True, incrementItersBeforeSeek env p1)
         else do {
           (ok, p2) \<leftarrow> iterPrev fuel env p1;
           if \<not> ok then Some (False, p2) else backwardLatestVersionLoop n fuel env key p2
         })"

definition backwardLatestVersion ::
    "nat \<Rightarrow> 'i Env \<Rightarrow> bytes \<Rightarrow> int \<Rightarrow> 'i pebbleMVCCScanner \<Rightarrow> (bool \<times> 'i pebbleMVCCScanner) option" where
  "backwardLatestVersion fuel env key i p = backwardLatestVersionLoop (nat (itersBeforeSeek p - i)) fuel env key p"

definition iterSeekReverse :: "nat \<Rightarrow> 'i Env \<Rightarrow> MVCCKey \<Rightarrow> 'i pebbleMVCCScanner \<Rightarrow> (bool \<times> 'i pebbleMVCCScanner) option" where
  "iterSeekReverse fuel env key p =
    (let p1 = clearPeeked p in do {
       (ok, p2) \<leftarrow> arrive fuel env True True (p1\<lparr>parent := iSeekLT (iter env) key (parent p1)\<rparr>);
       if \<not> ok then Some (False, p2)
       else if IsEmpty (MTimestamp (curUnsafeKey p2)) then Some (True, p2)
       else backwardLatestVersion fuel env (MKey (curUnsafeKey p2)) 0 p2
     })"

primrec prevKeyLoop ::
    "nat \<Rightarrow> int \<Rightarrow> nat \<Rightarrow> 'i Env \<Rightarrow> bytes \<Rightarrow> 'i pebbleMVCCScanner \<Rightarrow> (bool \<times> 'i pebbleMVCCScanner) option" where
  "prevKeyLoop 0 i fuel env key p =
     iterSeekReverse fuel env \<lparr>MKey = key, MTimestamp = emptyTimestamp\<rparr> (decrementItersBeforeSeek env p)"
| "prevKeyLoop (Suc n) i fuel env key p = do {
     (ok, p1) \<leftarrow> iterPrev fuel env p;
     if \<not> ok then Some (False, p1)
     else if MKey (curUnsafeKey p1) \<noteq> key then backwardLatestVersion fuel env (MKey (curUnsafeKey p1)) (i + 1) p1
     else prevKeyLoop n (i + 1) fuel env key p1
   }"

definition prevKey :: "nat \<Rightarrow> 'i Env \<Rightarrow> bytes \<Rightarrow> 'i pebbleMVCCScanner \<Rightarrow> (bool \<times> 'i pebbleMVCCScanner) option" where
  "prevKey fuel env key p = prevKeyLoop (nat (itersBeforeSeek p)) 0 fuel env key p"

definition advanceKeyForward :: "nat \<Rightarrow> 'i Env \<Rightarrow> 'i pebbleMVCCScanner \<Rightarrow> (bool \<times> 'i pebbleMVCCScanner) option" where
  "advanceKeyForward fuel env p = nextKey fuel env p"

definition advanceKeyReverse :: "nat \<Rightarrow> 'i Env \<Rightarrow> 'i pebbleMVCCScanner \<Rightarrow> (bool \<times> 'i pebbleMVCCScanner) option" where
  "advanceKeyReverse fuel env p = prevKey fuel env (MKey (curUnsafeKey p)) p"

definition advanceKeyAtEndReverse :: "nat \<Rightarrow> 'i Env \<Rightarrow> 'i pebbleMVCCScanner \<Rightarrow> (bool \<times> 'i pebbleMVCCScanner) option" where
  "advanceKeyAtEndReverse fuel env p = do {
     (ok, p1) \<leftarrow> arrive fuel env True True
       (p\<lparr>peeked := False, parent := iSeekLT (iter env) \<lparr>MKey = endKey p, MTimestamp = emptyTimestamp\<rparr> (parent p)\<rparr>);
     if \<not> ok then Some (False, p1) else advanceKeyReverse fuel env p1
   }"

definition advanceKeyAtNewKeyReverse :: "nat \<Rightarrow> 'i Env \<Rightarrow> 'i pebbleMVCCScanner \<Rightarrow> (bool \<times> 'i pebbleMVCCScanner) option" where
  "advanceKeyAtNewKeyReverse fuel env p = prevKey fuel env (machineOrigKey p) p"

definition setAdvanceKeyAtEnd :: "'i pebbleMVCCScanner \<Rightarrow> 'i pebbleMVCCScanner" where
  "setAdvanceKeyAtEnd p = p\<lparr>machineFn := (if reverse p then advanceKeyAtEndReverse_fn else advanceKeyAtEndForward_fn)\<rparr>"

definition setAdvanceKeyAtNewKey :: "bytes \<Rightarrow> 'i pebbleMVCCScanner \<Rightarrow> 'i pebbleMVCCScanner" where
  "setAdvanceKeyAtNewKey origKey p =
     p\<lparr>machineOrigKey := origKey,
       machineFn := (if reverse p then advanceKeyAtNewKeyReverse_fn else advanceKeyAtNewKeyForward_fn)\<rparr>"

definition advance :: "nat \<Rightarrow> 'i Env \<Rightarrow> 'i pebbleMVCCScanner \<Rightarrow> (bool \<times> 'i pebbleMVCCScanner) option" where
  "advance fuel env p =
    (case machineFn p of
       advanceKeyForward_fn \<Rightarrow> advanceKeyForward fuel env p
     | advanceKeyAtEndForward_fn \<Rightarrow> Some (False, p)
     | advanceKeyAtNewKeyForward_fn \<Rightarrow> Some (True, p\<lparr>machineFn := advanceKeyForward_fn\<rparr>)
     | advanceKeyReverse_fn \<Rightarrow> advanceKeyReverse fuel env p
     | advanceKeyAtEndReverse_fn \<Rightarrow> advanceKeyAtEndReverse fuel env (p\<lparr>machineFn := advanceKeyReverse_fn\<rparr>)
     | advanceKeyAtNewKeyReverse_fn \<Rightarrow> advanceKeyAtNewKeyReverse fuel env (p\<lparr>machineFn := advanceKeyReverse_fn\<rparr>)
     | advanceNone \<Rightarrow> Some (False, fail (GoError (Errorf ''unexpected advanceFn: %d'')) p))"

definition seekToStartOfScan :: "nat \<Rightarrow> 'i Env \<Rightarrow> 'i pebbleMVCCScanner \<Rightarrow> (bool \<times> 'i pebbleMVCCScanner) option" where
  "seekToStartOfScan fuel env p = do {
     (ok, p1) \<leftarrow> (if reverse p then iterSeekReverse fuel env \<lparr>MKey = endKey p, MTimestamp = emptyTimestamp\<rparr> p
                  else iterSeek fuel env \<lparr>MKey = startKey p, MTimestamp = emptyTimestamp\<rparr> p);
     if \<not> ok then Some (False, maybeFailOnMoreRecent p1)
     else Some (True, p1\<lparr>machineFn := (if reverse p then advanceKeyReverse_fn else advanceKeyForward_fn)\<rparr>)
   }"

subsection \<open>Reading one key\<close>

definition decodeCurrentValue :: "'i pebbleMVCCScanner \<Rightarrow> bool \<times> 'i pebbleMVCCScanner" where
  "decodeCurrentValue p =
    (case curRawValue p of
       Inl e \<Rightarrow> (False, fail (GoError e) p)
     | Inr v \<Rightarrow>
         case DecodeMVCCValue v of
           Inl e \<Rightarrow> (False, fail (GoError e) p)
         | Inr value \<Rightarrow> (True, p\<lparr>curUnsafeValue := value, err := None\<rparr>))"

definition decodeCurrentMetadata :: "'i Env \<Rightarrow> 'i pebbleMVCCScanner \<Rightarrow> bool \<times> 'i pebbleMVCCScanner" where
  "decodeCurrentMetadata env p =
    (case curRawValue p of
       Inl e \<Rightarrow> (False, fail (GoError e) p)
     | Inr v \<Rightarrow>
         if length v = 0 then (False, fail (GoError (Errorf ''zero-length mvcc metadata'')) p)
         else case unmarshalMeta env v of
           Inl e \<Rightarrow> (False, fail (GoError e) p)
         | Inr m \<Rightarrow> (True, p\<lparr>scanMeta := m\<rparr>))"

text \<open>The version the scanner is on, once it is no newer than the timestamp sought: it is the result, or an
  uncertain value, or the search goes on (\<open>None\<close>).\<close>

definition visitVersion ::
    "'i Env \<Rightarrow> bool \<Rightarrow> 'i pebbleMVCCScanner \<Rightarrow> (bool \<times> bool) option \<times> 'i pebbleMVCCScanner" where
  "visitVersion env uncertaintyCheck p =
    (let (valid, p1) = decodeCurrentValue p; ts = MTimestamp (curUnsafeKey p1) in
     if \<not> valid then (Some (False, False), p1)
     else if \<not> uncertaintyCheck \<or> LessEq ts (readTS p1) then
       (case coveredByRangeKey ts p1 of
          Some rkv \<Rightarrow> apfst Some (addSynthetic env (MKey (curUnsafeKey p1)) rkv p1)
        | None \<Rightarrow> apfst Some (add env (MKey (curUnsafeKey p1)) (curRawKey p1) (RawBytes (curUnsafeValue p1)) p1))
     else
       let localTS = GetLocalTimestamp (curUnsafeValue p1) ts in
       case IsUncertain (uncertainty p1) ts localTS of
         Inl e \<Rightarrow> (Some (False, False), fail (GoError e) p1)
       | Inr True \<Rightarrow> (Some (False, False), uncertaintyError ts localTS p1)
       | Inr False \<Rightarrow> (None, p1))"

text \<open>Up to \<open>n\<close> steps towards the version; \<open>None\<close> when they did not suffice.\<close>

primrec seekNextLoop ::
    "nat \<Rightarrow> nat \<Rightarrow> 'i Env \<Rightarrow> bytes \<Rightarrow> Timestamp \<Rightarrow> bool \<Rightarrow> 'i pebbleMVCCScanner \<Rightarrow>
      ((bool \<times> bool) option \<times> 'i pebbleMVCCScanner) option" where
  "seekNextLoop 0 fuel env origKey seekTS uncertaintyCheck p = Some (None, p)"
| "seekNextLoop (Suc n) fuel env origKey seekTS uncertaintyCheck p = do {
     (ok, p1) \<leftarrow> iterNext fuel env p;
     if \<not> ok then Some (Some (True, False), setAdvanceKeyAtEnd p1)
     else if MKey (curUnsafeKey p1) \<noteq> origKey
     then Some (Some (True, False), setAdvanceKeyAtNewKey origKey (incrementItersBeforeSeek env p1))
     else if LessEq (MTimestamp (curUnsafeKey p1)) seekTS
     then (case visitVersion env uncertaintyCheck (incrementItersBeforeSeek env p1) of
             (Some r, p2) \<Rightarrow> Some (Some r, p2)
           | (None, p2) \<Rightarrow> seekNextLoop n fuel env origKey seekTS uncertaintyCheck p2)
     else seekNextLoop n fuel env origKey seekTS uncertaintyCheck p1
   }"

primrec seekVersionLoop ::
    "nat \<Rightarrow> 'i Env \<Rightarrow> bytes \<Rightarrow> bool \<Rightarrow> 'i pebbleMVCCScanner \<Rightarrow> ((bool \<times> bool) \<times> 'i pebbleMVCCScanner) option" where
  "seekVersionLoop 0 env origKey uncertaintyCheck p = None"
| "seekVersionLoop (Suc fuel) env origKey uncertaintyCheck p =
    (if MKey (curUnsafeKey p) \<noteq> origKey then Some ((True, False), setAdvanceKeyAtNewKey origKey p)
     else case visitVersion env uncertaintyCheck p of
       (Some r, p1) \<Rightarrow> Some (r, p1)
     | (None, p1) \<Rightarrow> do {
         (ok, p2) \<leftarrow> iterNext fuel env p1;
         if \<not> ok then Some ((True, False), setAdvanceKeyAtEnd p2)
         else seekVersionLoop fuel env origKey uncertaintyCheck p2
       })"

definition seekVersion ::
    "nat \<Rightarrow> 'i Env \<Rightarrow> Timestamp \<Rightarrow> bool \<Rightarrow> 'i pebbleMVCCScanner \<Rightarrow> ((bool \<times> bool) \<times> 'i pebbleMVCCScanner) option" where
  "seekVersion fuel env seekTS uncertaintyCheck p =
    (if IsEmpty seekTS then Some ((True, False), p)
     else
       let origKey = MKey (curUnsafeKey p); seekKey = \<lparr>MKey = origKey, MTimestamp = seekTS\<rparr> in do {
         (r, p1) \<leftarrow> seekNextLoop (nat (itersBeforeSeek p)) fuel env origKey seekTS uncertaintyCheck p;
         case r of
           Some x \<Rightarrow> Some (x, p1)
         | None \<Rightarrow> do {
             (ok, p2) \<leftarrow> iterSeek fuel env seekKey (decrementItersBeforeSeek env p1);
             if \<not> ok then Some ((True, False), setAdvanceKeyAtEnd p2)
             else seekVersionLoop fuel env origKey uncertaintyCheck p2
           }
       })"

text \<open>What a version at or above the read timestamp does to a scan that has to fail on it: skip the key if
  it is locked, or remember the conflict.\<close>

definition moreRecent :: "'i Env \<Rightarrow> 'i pebbleMVCCScanner \<Rightarrow> (bool \<times> bool) \<times> 'i pebbleMVCCScanner" where
  "moreRecent env p =
    (let (locked, ok, p1) = (if skipLocked p then isKeyLockedByConflictingTxn env (curRawKey p) p else (False, True, p)) in
     if \<not> ok then ((False, False), p1)
     else if locked then ((True, False), p1)
     else ((True, False), p1\<lparr>mostRecentTS := fst (Forward (mostRecentTS p1) (MTimestamp (curUnsafeKey p1))),
            mostRecentKey := (if length (mostRecentKey p1) = 0 then MKey (curUnsafeKey p1) else mostRecentKey p1)\<rparr>))"

definition getOneVersion :: "nat \<Rightarrow> 'i Env \<Rightarrow> 'i pebbleMVCCScanner \<Rightarrow> ((bool \<times> bool) \<times> 'i pebbleMVCCScanner) option" where
  "getOneVersion fuel env p =
    (let ts = MTimestamp (curUnsafeKey p) in
     case coveredByRangeKey ts p of
       Some rkv \<Rightarrow> Some (addSynthetic env (MKey (curUnsafeKey p)) rkv p)
     | None \<Rightarrow>
         let (valid, p1) = decodeCurrentValue p in
         if \<not> valid then Some ((False, False), p1)
         else if Less ts (readTS p1)
         then Some (add env (MKey (curUnsafeKey p1)) (curRawKey p1) (RawBytes (curUnsafeValue p1)) p1)
         else if EqOrdering ts (readTS p1) then
           (if failOnMoreRecent p1 then Some (moreRecent env p1)
            else Some (add env (MKey (curUnsafeKey p1)) (curRawKey p1) (RawBytes (curUnsafeValue p1)) p1))
         else if failOnMoreRecent p1 then Some (moreRecent env p1)
         else if checkUncertainty p1 then
           let localTS = GetLocalTimestamp (curUnsafeValue p1) ts in
           (case IsUncertain (uncertainty p1) ts localTS of
              Inl e \<Rightarrow> Some ((False, False), fail (GoError e) p1)
            | Inr True \<Rightarrow> Some ((False, False), uncertaintyError ts localTS p1)
            | Inr False \<Rightarrow> seekVersion fuel env (GlobalLimit (uncertainty p1)) True p1)
         else seekVersion fuel env (readTS p1) False p1)"

definition otherIntent ::
    "nat \<Rightarrow> 'i Env \<Rightarrow> Timestamp \<Rightarrow> Timestamp \<Rightarrow> 'i pebbleMVCCScanner \<Rightarrow> ((bool \<times> bool) \<times> 'i pebbleMVCCScanner) option" where
  "otherIntent fuel env metaTS prevTS p =
    (if \<not> (LessEq metaTS (readTS p) \<or> failOnMoreRecent p) then
       (if checkUncertainty p then seekVersion fuel env (GlobalLimit (uncertainty p)) True p
        else seekVersion fuel env (readTS p) False p)
     else if inconsistent p then
       (case addCurIntent env p of
          (False, p1) \<Rightarrow> Some ((False, False), p1)
        | (True, p1) \<Rightarrow> seekVersion fuel env prevTS False p1)
     else if skipLocked p then
       (if hasRoom p
        then (case addCurIntent env p of (False, p1) \<Rightarrow> Some ((False, False), p1) | (True, p1) \<Rightarrow> Some ((True, False), p1))
        else Some ((True, False), p))
     else case addCurIntent env p of
       (False, p1) \<Rightarrow> Some ((False, False), p1)
     | (True, p1) \<Rightarrow>
         if maxIntents p1 > 0 \<and> int (length (intents p1)) \<ge> maxIntents p1
         then Some ((False, False), p1\<lparr>resumeReason := RESUME_INTENT_LIMIT\<rparr>)
         else Some ((True, False), p1))"

definition ownIntent ::
    "nat \<Rightarrow> 'i Env \<Rightarrow> TxnMeta \<Rightarrow> Timestamp \<Rightarrow> Timestamp \<Rightarrow> 'i pebbleMVCCScanner \<Rightarrow>
      ((bool \<times> bool) \<times> 'i pebbleMVCCScanner) option" where
  "ownIntent fuel env metaTxn metaTS prevTS p =
    (if txnEpoch p = Epoch metaTxn then
       if sint (txnSequence p) \<ge> sint (Sequence metaTxn) \<and> \<not> TxnSeqIsIgnored (Sequence metaTxn) (txnIgnoredSeqNums p)
       then seekVersion fuel env metaTS False p
       else case getFromIntentHistory p of
         Some intentValueRaw \<Rightarrow>
           let p1 = p\<lparr>curUnsafeKey := (curUnsafeKey p)\<lparr>MTimestamp := metaTS\<rparr>\<rparr> in
           (case DecodeMVCCValue intentValueRaw of
              Inl e \<Rightarrow> Some ((False, False), fail (GoError e) p1)
            | Inr v \<Rightarrow>
                Some (add env (MKey (curUnsafeKey p1)) (EncodeMVCCKey (curUnsafeKey p1)) (RawBytes v)
                  (p1\<lparr>curUnsafeValue := v, err := None\<rparr>)))
       | None \<Rightarrow> seekVersion fuel env prevTS False p
     else if sint (txnEpoch p) < sint (Epoch metaTxn)
     then Some ((False, False), fail (GoError (Errorf ''failed to read with epoch %d due to a write intent with epoch %d'')) p)
     else seekVersion fuel env prevTS False p)"

definition getOneIntent :: "nat \<Rightarrow> 'i Env \<Rightarrow> 'i pebbleMVCCScanner \<Rightarrow> ((bool \<times> bool) \<times> 'i pebbleMVCCScanner) option" where
  "getOneIntent fuel env p =
    (let (ok, p1) = decodeCurrentMetadata env p in
     if \<not> ok then Some ((False, False), p1)
     else if length (MetaRawBytes (scanMeta p1)) \<noteq> 0
     then Some (add env (MKey (curUnsafeKey p1)) (curRawKey p1) (MetaRawBytes (scanMeta p1)) p1)
     else case MetaTxn (scanMeta p1) of
       None \<Rightarrow> Some ((False, False), fail (GoError (Errorf ''intent without transaction'')) p1)
     | Some metaTxn \<Rightarrow>
         let metaTS = LegacyToTimestamp (MetaTimestamp (scanMeta p1)) in
         case (if LessEq metaTS (readTS p1) then Prev metaTS else Inr (readTS p1)) of
           Inl e \<Rightarrow> Some ((False, False), fail (GoError e) p1)
         | Inr prevTS \<Rightarrow>
             if (case scanTxn p1 of None \<Rightarrow> False | Some t \<Rightarrow> ID metaTxn = ID t)
             then ownIntent fuel env metaTxn metaTS prevTS p1 else otherIntent fuel env metaTS prevTS p1)"

definition getOne :: "nat \<Rightarrow> 'i Env \<Rightarrow> 'i pebbleMVCCScanner \<Rightarrow> ((bool \<times> bool) \<times> 'i pebbleMVCCScanner) option" where
  "getOne fuel env p =
    (if \<not> IsEmpty (MTimestamp (curUnsafeKey p)) then getOneVersion fuel env p else getOneIntent fuel env p)"

subsection \<open>Gets and scans\<close>

definition get :: "nat \<Rightarrow> 'i Env \<Rightarrow> 'i pebbleMVCCScanner \<Rightarrow> 'i pebbleMVCCScanner option" where
  "get fuel env p =
    (let p1 = p\<lparr>parent := iSeekGE (iter env) \<lparr>MKey = startKey p, MTimestamp = emptyTimestamp\<rparr> (parent p)\<rparr>;
         (valid, p2) = iterValid env p1
     in if \<not> valid then Some p2
        else
          let rangeTombstone =
                (if tombstones p2 \<and> snd (iHasPointAndRange (iter env) (parent p2))
                 then FirstAtOrBelow (Versions (iRangeKeys (iter env) (parent p2))) (readTS p2) else None)
          in do {
            (ok, p3) \<leftarrow> processRangeKeys fuel env True False p2;
            (added, p4) \<leftarrow>
              (if ok then
                 (case updateCurrent env p3 of
                    (False, p4) \<Rightarrow> Some (False, p4)
                  | (True, p4) \<Rightarrow> do {((_, added), p5) \<leftarrow> getOne fuel env p4; Some (added, p5)})
               else Some (False, p3));
            let p5 = maybeFailOnMoreRecent p4;
            case rangeTombstone of
              Some rkv \<Rightarrow> if tombstones p5 \<and> \<not> added \<and> err p5 = None
                         then Some (snd (addSynthetic env (startKey p5) rkv p5)) else Some p5
            | None \<Rightarrow> Some p5
          })"

primrec scanLoop :: "nat \<Rightarrow> 'i Env \<Rightarrow> 'i pebbleMVCCScanner \<Rightarrow> 'i pebbleMVCCScanner option" where
  "scanLoop 0 env p = None"
| "scanLoop (Suc fuel) env p = do {
     ((ok, _), p1) \<leftarrow> getOne fuel env p;
     if \<not> ok then Some p1
     else do {
       (ok1, p2) \<leftarrow> advance fuel env p1;
       if \<not> ok1 then Some p2 else scanLoop fuel env p2
     }
   }"

text \<open>The resume span, its reason and the size of the next result, or the error.\<close>

type_synonym scan_result = "scan_error + Span option \<times> ResumeReason \<times> int"

definition resumeSpan :: "bytes \<Rightarrow> 'i pebbleMVCCScanner \<Rightarrow> Span" where
  "resumeSpan key p =
    (if reverse p then \<lparr>Key = startKey p, EndKey = KeyNext key\<rparr> else \<lparr>Key = key, EndKey = endKey p\<rparr>)"

definition afterScan :: "nat \<Rightarrow> 'i Env \<Rightarrow> 'i pebbleMVCCScanner \<Rightarrow> (scan_result \<times> 'i pebbleMVCCScanner) option" where
  "afterScan fuel env p =
    (let p1 = maybeFailOnMoreRecent p in
     case err p1 of
       Some e \<Rightarrow> Some (Inl e, p1)
     | None \<Rightarrow>
         if resumeReason p1 = RESUME_UNKNOWN then Some (Inr (None, RESUME_UNKNOWN, 0), p1)
         else if length (resumeKey p1) \<noteq> 0
         then Some (Inr (Some (resumeSpan (resumeKey p1) p1), resumeReason p1, resumeNextBytes p1), p1)
         else do {
           (ok, p2) \<leftarrow> (if reverse p1 then advanceKeyReverse fuel env p1 else advanceKeyForward fuel env p1);
           if \<not> ok then Some (Inr (None, RESUME_UNKNOWN, 0), p2)
           else Some (Inr (Some (resumeSpan (MKey (curUnsafeKey p2)) p2), resumeReason p2, resumeNextBytes p2), p2)
         })"

definition scan :: "nat \<Rightarrow> 'i Env \<Rightarrow> 'i pebbleMVCCScanner \<Rightarrow> (scan_result \<times> 'i pebbleMVCCScanner) option" where
  "scan fuel env p =
    (if wholeRows p \<and> \<not> lastOffsetsEnabled (results p)
     then Some (Inl (GoError (Errorf ''cannot use wholeRows without trackLastOffsets'')), p)
     else do {
       (ok, p1) \<leftarrow> seekToStartOfScan fuel env p;
       if \<not> ok then Some (case err p1 of Some e \<Rightarrow> Inl e | None \<Rightarrow> Inr (None, RESUME_UNKNOWN, 0), p1)
       else do {
         p2 \<leftarrow> scanLoop fuel env p1;
         afterScan fuel env p2
       }
     })"

end
