(* ===== verification/Mvcc_Read.thy ===== *)
theory Mvcc_Read
  imports Mvcc_Scan
begin

text \<open>
  What the scanner of theory \<open>Mvcc_Scan\<close> reads.  The hypothesis on the iterator is the documented contract
  of \<open>MVCCIterator\<close> (\<open>engine/pkg/storage/engine.go\<close>) over a snapshot without range keys: a list of versioned
  keys in the order of the store.  The reference is \<open>readKey\<close>, which looks at the versions of one key
  newest first, without steps, seeks or positions.
\<close>

declare not_LessEq [simp del] not_Less [simp del]

subsection \<open>The snapshot\<close>

type_synonym snapshot = "(MVCCKey \<times> bytes) list"

definition seekIdx :: "snapshot \<Rightarrow> MVCCKey \<Rightarrow> nat" where
  "seekIdx es k = length (takeWhile (\<lambda>e. MVCCKeyLess (fst e) k) es)"

definition nextKeyIdx :: "snapshot \<Rightarrow> nat \<Rightarrow> nat" where
  "nextKeyIdx es n = n + length (takeWhile (\<lambda>e. MKey (fst e) = MKey (fst (es ! n))) (drop n es))"

definition iterates :: "'i MVCCIterator \<Rightarrow> snapshot \<Rightarrow> ('i \<Rightarrow> nat \<Rightarrow> bool) \<Rightarrow> bool" where
  "iterates it es at \<longleftrightarrow>
    (\<forall>i n. at i n \<and> n < length es \<longrightarrow>
       iValid it i = Inr True \<and> iUnsafeRawMVCCKey it i = EncodeMVCCKey (fst (es ! n)) \<and>
       iUnsafeLazyValue it i = Inr (snd (es ! n)) \<and> iHasPointAndRange it i = (True, False) \<and>
       \<not> iRangeKeyChanged it i \<and> at (iNext it i) (Suc n) \<and> at (iNextKey it i) (nextKeyIdx es n)) \<and>
    (\<forall>i n. at i n \<and> length es \<le> n \<longrightarrow> iValid it i = Inr False) \<and>
    (\<forall>i n k. at i n \<longrightarrow> at (iSeekGE it k i) (seekIdx es k))"

text \<open>The order of the store: keys ascending, for one key first the metadata and then the versions from
  newest to oldest.\<close>

definition stored :: "snapshot \<Rightarrow> bool" where
  "stored es \<longleftrightarrow> sorted_wrt (\<lambda>a b. MVCCKeyLess (fst a) (fst b)) es \<and> list_all (\<lambda>e. nonneg_ts (MTimestamp (fst e))) es"

subsection \<open>Positions\<close>

abbreviation (input) noStack :: MVCCRangeKeyStack where
  "noStack \<equiv> \<lparr>Bounds = \<lparr>Key = [], EndKey = []\<rparr>, Versions = []\<rparr>"

definition goto :: "'i \<Rightarrow> MVCCKey \<times> bytes \<Rightarrow> 'i pebbleMVCCScanner \<Rightarrow> 'i pebbleMVCCScanner" where
  "goto i e p = p\<lparr>parent := i, curRawKey := EncodeMVCCKey (fst e), curUnsafeKey := fst e, curRawValue := Inr (snd e)\<rparr>"

definition on :: "snapshot \<Rightarrow> ('i \<Rightarrow> nat \<Rightarrow> bool) \<Rightarrow> 'i pebbleMVCCScanner \<Rightarrow> nat \<Rightarrow> bool" where
  "on es at p n \<longleftrightarrow> at (parent p) n \<and> n < length es \<and> curRawKey p = EncodeMVCCKey (fst (es ! n)) \<and>
     curUnsafeKey p = fst (es ! n) \<and> curRawValue p = Inr (snd (es ! n))"

definition forwardScan :: "'i pebbleMVCCScanner \<Rightarrow> bool" where
  "forwardScan p \<longleftrightarrow> \<not> reverse p \<and> curRangeKeys p = noStack"

lemma arrive_eq:
  assumes "iterates (iter env) es at" "at (parent p) n" "forwardScan p"
  shows "arrive (Suc fuel) env seeked False p =
    Some (if n < length es then (True, goto (parent p) (es ! n) p) else (False, p))"
proof (cases "n < length es")
  case True
  have r: "p\<lparr>curRangeKeys := noStack\<rparr> = p" using assms(3) by (cases p) (simp add: forwardScan_def)
  show ?thesis using True assms(1,2) r
    by (simp add: iterates_def arrive_def iterValid_def updateCurrent_def goto_def DecodeMVCCKey_enc Let_def)
next
  case False
  then have "iValid (iter env) (parent p) = Inr False" using assms(1,2) unfolding iterates_def by (meson not_less)
  then show ?thesis using False by (simp add: arrive_def iterValid_def)
qed

lemma iterNext_eq:
  assumes "iterates (iter env) es at" "at (parent p) n" "n < length es" "forwardScan p"
  shows "iterNext (Suc fuel) env p =
    Some (if Suc n < length es then (True, goto (iNext (iter env) (parent p)) (es ! Suc n) p)
          else (False, p\<lparr>parent := iNext (iter env) (parent p)\<rparr>))"
proof -
  have "at (iNext (iter env) (parent p)) (Suc n)" using assms(1-3) by (simp add: iterates_def)
  then show ?thesis using arrive_eq [OF assms(1), of "p\<lparr>parent := iNext (iter env) (parent p)\<rparr>" "Suc n" fuel False] assms(4)
    by (simp add: iterNext_def forwardScan_def goto_def)
qed

lemma iterSeek_eq:
  assumes "iterates (iter env) es at" "at (parent p) n" "forwardScan p"
  shows "iterSeek (Suc fuel) env k p =
    Some (if seekIdx es k < length es then (True, goto (iSeekGE (iter env) k (parent p)) (es ! seekIdx es k) p)
          else (False, p\<lparr>parent := iSeekGE (iter env) k (parent p)\<rparr>))"
proof -
  have "at (iSeekGE (iter env) k (parent p)) (seekIdx es k)" using assms(1,2) unfolding iterates_def by blast
  then show ?thesis using arrive_eq [OF assms(1), of "p\<lparr>parent := iSeekGE (iter env) k (parent p)\<rparr>" "seekIdx es k" fuel True] assms(3)
    by (simp add: iterSeek_def forwardScan_def goto_def clearPeeked_def)
qed

lemma nextKey_eq:
  assumes "iterates (iter env) es at" "at (parent p) n" "n < length es" "forwardScan p"
  shows "nextKey (Suc fuel) env p =
    Some (if nextKeyIdx es n < length es then (True, goto (iNextKey (iter env) (parent p)) (es ! nextKeyIdx es n) p)
          else (False, p\<lparr>parent := iNextKey (iter env) (parent p)\<rparr>))"
proof -
  have "at (iNextKey (iter env) (parent p)) (nextKeyIdx es n)" using assms(1-3) by (simp add: iterates_def)
  then show ?thesis using arrive_eq [OF assms(1), of "p\<lparr>parent := iNextKey (iter env) (parent p)\<rparr>" "nextKeyIdx es n" fuel False] assms(4)
    by (simp add: nextKey_def forwardScan_def goto_def)
qed

subsection \<open>The reference\<close>

datatype key_read = Absent | Value MVCCKey bytes | Intent bytes bytes | Failed scan_error

text \<open>The search for a version among the versions of a key, newest first.\<close>

fun pick :: "Timestamp \<Rightarrow> Interval \<Rightarrow> Timestamp \<Rightarrow> bool \<Rightarrow> snapshot \<Rightarrow> key_read" where
  "pick ts ui seekTS unc [] = Absent"
| "pick ts ui seekTS unc ((k, raw) # vs) =
    (if \<not> LessEq (MTimestamp k) seekTS then pick ts ui seekTS unc vs
     else case DecodeMVCCValue raw of
       Inl e \<Rightarrow> Failed (GoError e)
     | Inr v \<Rightarrow>
         if \<not> unc \<or> LessEq (MTimestamp k) ts then Value k (RawBytes v)
         else
           let localTS = GetLocalTimestamp v (MTimestamp k) in
           case IsUncertain ui (MTimestamp k) localTS of
             Inl e \<Rightarrow> Failed (GoError e)
           | Inr True \<Rightarrow> Failed (ReadWithinUncertaintyIntervalError ts (LocalLimit ui) (MTimestamp k) localTS)
           | Inr False \<Rightarrow> pick ts ui seekTS unc vs)"

text \<open>What a read does to the scanner, and whether the scan goes on.\<close>

definition effect :: "'i Env \<Rightarrow> key_read \<Rightarrow> 'i pebbleMVCCScanner \<Rightarrow> 'i pebbleMVCCScanner" where
  "effect env r p =
    (case r of
       Absent \<Rightarrow> p
     | Value k raw \<Rightarrow>
         if raw = [] then p else p\<lparr>results := snd (put (Grow env) (results p) (EncodeMVCCKey k) raw 0)\<rparr>
     | Intent rk rv \<Rightarrow> p\<lparr>intents := intents p @ [(rk, rv)]\<rparr>
     | Failed (GoError e) \<Rightarrow> p\<lparr>err := Some (GoError e)\<rparr>
     | Failed e \<Rightarrow> p\<lparr>err := Some e, results := noResults, intents := []\<rparr>)"

definition goesOn :: "key_read \<Rightarrow> bool" where
  "goesOn r \<longleftrightarrow> (\<forall>e. r \<noteq> Failed e)"

subsection \<open>Scanners without limits\<close>

text \<open>The fields that do not depend on where the scanner is.\<close>

definition core :: "'i pebbleMVCCScanner \<Rightarrow> 'i pebbleMVCCScanner" where
  "core p = p\<lparr>parent := undefined, curRawKey := [], curUnsafeKey := MakeMVCCMetadataKey [], curRawValue := Inr [],
     curUnsafeValue := \<lparr>ValueHeader = noHeader, RawBytes = []\<rparr>, scanMeta := noMeta, itersBeforeSeek := 0,
     machineFn := advanceNone, machineOrigKey := []\<rparr>"

lemma core_updates [simp]:
  "core (p\<lparr>parent := i\<rparr>) = core p" "core (p\<lparr>curRawKey := a\<rparr>) = core p" "core (p\<lparr>curUnsafeKey := b\<rparr>) = core p"
  "core (p\<lparr>curRawValue := c\<rparr>) = core p" "core (p\<lparr>curUnsafeValue := d\<rparr>) = core p" "core (p\<lparr>scanMeta := m\<rparr>) = core p"
  "core (p\<lparr>itersBeforeSeek := n\<rparr>) = core p" "core (p\<lparr>machineFn := f\<rparr>) = core p" "core (p\<lparr>machineOrigKey := g\<rparr>) = core p"
  "core (p\<lparr>results := r\<rparr>) = core p\<lparr>results := r\<rparr>" "core (p\<lparr>intents := t\<rparr>) = core p\<lparr>intents := t\<rparr>"
  "core (p\<lparr>err := e\<rparr>) = core p\<lparr>err := e\<rparr>"
  "core (goto i x p) = core p" "core (core p) = core p"
  by (simp_all add: core_def goto_def)

lemma core_fields [simp]:
  "readTS (core p) = readTS p" "uncertainty (core p) = uncertainty p" "checkUncertainty (core p) = checkUncertainty p"
  "results (core p) = results p" "intents (core p) = intents p" "err (core p) = err p" "reverse (core p) = reverse p"
  "curRangeKeys (core p) = curRangeKeys p" "tombstones (core p) = tombstones p" "skipLocked (core p) = skipLocked p"
  "inconsistent (core p) = inconsistent p" "failOnMoreRecent (core p) = failOnMoreRecent p" "maxKeys (core p) = maxKeys p"
  "targetBytes (core p) = targetBytes p" "resumeReason (core p) = resumeReason p" "maxIntents (core p) = maxIntents p"
  "scanTxn (core p) = scanTxn p" "txnEpoch (core p) = txnEpoch p" "txnSequence (core p) = txnSequence p"
  "txnIgnoredSeqNums (core p) = txnIgnoredSeqNums p" "mostRecentTS (core p) = mostRecentTS p" "resumeKey (core p) = resumeKey p"
  by (simp_all add: core_def)

lemma core_iters [simp]:
  "core (incrementItersBeforeSeek env p) = core p" "core (decrementItersBeforeSeek env p) = core p"
  "core (setAdvanceKeyAtEnd p) = core p" "core (setAdvanceKeyAtNewKey k p) = core p"
  by (simp_all add: incrementItersBeforeSeek_def decrementItersBeforeSeek_def setAdvanceKeyAtEnd_def setAdvanceKeyAtNewKey_def Let_def)

text \<open>A consistent forward scan without limits, whose result set accepts every pair.\<close>

definition plain :: "'i Env \<Rightarrow> 'i pebbleMVCCScanner \<Rightarrow> bool" where
  "plain env p \<longleftrightarrow> \<not> reverse p \<and> curRangeKeys p = noStack \<and> \<not> tombstones p \<and> \<not> skipLocked p \<and> \<not> inconsistent p \<and>
     \<not> failOnMoreRecent p \<and> maxKeys p = 0 \<and> targetBytes p = 0 \<and> maxIntents p = 0 \<and> resumeReason p = RESUME_UNKNOWN \<and>
     err p = None \<and> IsEmpty (mostRecentTS p) \<and> (\<forall>n. Grow env n = Inr ()) \<and> \<not> lastOffsetsEnabled (results p)"

lemma plain_core: "core p = core q \<Longrightarrow> plain env p \<longleftrightarrow> plain env q"
proof -
  have "plain env (core p) \<longleftrightarrow> plain env p" for p :: "'a pebbleMVCCScanner" by (simp add: plain_def)
  then show "core p = core q \<Longrightarrow> plain env p \<longleftrightarrow> plain env q" by metis
qed

lemma plain_forward: "plain env p \<Longrightarrow> forwardScan p"
  by (simp add: plain_def forwardScan_def)

lemma put_plain:
  assumes "\<forall>n. Grow env n = Inr ()" "\<not> lastOffsetsEnabled r"
  shows "put (Grow env) r k v 0 = (Inr (), snd (put (Grow env) r k v 0))"
    "\<not> lastOffsetsEnabled (snd (put (Grow env) r k v 0))"
  using assms by (simp_all add: put_def makeRoom_def Let_def)

lemma add_plain:
  assumes "plain env p"
  shows "add env k (EncodeMVCCKey key) raw p =
    (if raw = [] then ((True, False), p)
     else ((True, True), p\<lparr>results := snd (put (Grow env) (results p) (EncodeMVCCKey key) raw 0)\<rparr>))"
  using assms put_plain(1) [of env "results p" "EncodeMVCCKey key" raw]
  by (auto simp: plain_def add_def addLimits_def addPut_def sizeInfo_def Let_def split: prod.splits sum.splits)

lemma core_add:
  assumes "plain env p" "add env k (EncodeMVCCKey key) raw p = (r, p')"
  shows "core p' = effect env (Value key raw) (core p)" "fst r" "parent p' = parent p" "machineFn p' = machineFn p"
    "curUnsafeKey p' = curUnsafeKey p"
  using assms(2) unfolding add_plain [OF assms(1)] by (auto simp: effect_def split: if_splits)

subsection \<open>Searching for a version\<close>

lemma core_err_None: "err p = None \<Longrightarrow> core p\<lparr>err := None\<rparr> = core p"
  by (cases p) (simp add: core_def)

lemma covered_plain: "plain env p \<Longrightarrow> coveredByRangeKey ts p = None"
  by (simp add: plain_def coveredByRangeKey_def)

lemma plain_value: "plain env p \<Longrightarrow> plain env (p\<lparr>curUnsafeValue := v, err := None\<rparr>)"
  by (simp add: plain_def)

text \<open>One visited version: either the search goes on, or the read is decided.\<close>

definition visited ::
    "'i Env \<Rightarrow> key_read \<Rightarrow> 'i pebbleMVCCScanner \<Rightarrow> (bool \<times> bool) option \<times> 'i pebbleMVCCScanner \<Rightarrow> bool \<Rightarrow> bool" where
  "visited env r p res passed \<longleftrightarrow> parent (snd res) = parent p \<and> machineFn (snd res) = machineFn p \<and>
     (case fst res of
        None \<Rightarrow> passed \<and> core (snd res) = core p
      | Some (ok, _) \<Rightarrow> \<not> passed \<and> core (snd res) = effect env r (core p) \<and> ok = goesOn r)"

definition passes :: "Timestamp \<Rightarrow> Interval \<Rightarrow> bool \<Rightarrow> MVCCKey \<times> bytes \<Rightarrow> bool" where
  "passes ts ui unc e \<longleftrightarrow> unc \<and> \<not> LessEq (MTimestamp (fst e)) ts \<and>
     (\<exists>v. DecodeMVCCValue (snd e) = Inr v \<and> IsUncertain ui (MTimestamp (fst e)) (GetLocalTimestamp v (MTimestamp (fst e))) = Inr False)"

lemma pick_Cons:
  "LessEq (MTimestamp (fst e)) seekTS \<Longrightarrow> passes ts ui unc e \<Longrightarrow> pick ts ui seekTS unc (e # vs) = pick ts ui seekTS unc vs"
  "\<not> LessEq (MTimestamp (fst e)) seekTS \<Longrightarrow> pick ts ui seekTS unc (e # vs) = pick ts ui seekTS unc vs"
  "LessEq (MTimestamp (fst e)) seekTS \<Longrightarrow> \<not> passes ts ui unc e \<Longrightarrow> pick ts ui seekTS unc (e # vs) = pick ts ui seekTS unc [e]"
proof -
  obtain k raw where e: "e = (k, raw)" by fastforce
  let ?ts = "MTimestamp k"
  have p: "pick ts ui seekTS unc ((k, raw) # vs) = pick ts ui seekTS unc vs"
    if "LessEq ?ts seekTS" "unc" "\<not> LessEq ?ts ts" "DecodeMVCCValue raw = Inr v"
      "IsUncertain ui ?ts (GetLocalTimestamp v ?ts) = Inr False" for v
    using that by (simp only: pick.simps sum.case simp_thms if_True if_False Let_def bool.case)
  show "LessEq (MTimestamp (fst e)) seekTS \<Longrightarrow> passes ts ui unc e \<Longrightarrow> pick ts ui seekTS unc (e # vs) = pick ts ui seekTS unc vs"
    using p unfolding passes_def e fst_conv snd_conv by blast
  show "\<not> LessEq (MTimestamp (fst e)) seekTS \<Longrightarrow> pick ts ui seekTS unc (e # vs) = pick ts ui seekTS unc vs"
    by (simp only: e fst_conv pick.simps simp_thms if_True)
  assume le: "LessEq (MTimestamp (fst e)) seekTS" and np: "\<not> passes ts ui unc e"
  show "pick ts ui seekTS unc (e # vs) = pick ts ui seekTS unc [e]"
  proof (cases "DecodeMVCCValue raw")
    case (Inr v)
    let ?u = "IsUncertain ui ?ts (GetLocalTimestamp v ?ts)"
    have le': "LessEq ?ts seekTS" using le e by simp
    have "(\<exists>x. ?u = Inl x) \<or> ?u = Inr True \<or> ?u = Inr False" by (cases ?u) auto
    then consider "\<not> unc \<or> LessEq ?ts ts" | x where "unc" "\<not> LessEq ?ts ts" "?u = Inl x" | "unc" "\<not> LessEq ?ts ts" "?u = Inr True"
      using np Inr unfolding e passes_def fst_conv snd_conv by blast
    then show ?thesis by cases (use le' Inr in \<open>simp_all add: e Let_def\<close>)
  qed (use le in \<open>simp add: e\<close>)
qed

lemma visitVersion_found:
  assumes "plain env p" "curUnsafeKey p = fst e" "curRawKey p = EncodeMVCCKey (fst e)" "curRawValue p = Inr (snd e)"
    and "DecodeMVCCValue (snd e) = Inr v" "\<not> unc \<or> LessEq (MTimestamp (fst e)) (readTS p)"
  shows "visitVersion env unc p =
    apfst Some (add env (MKey (fst e)) (EncodeMVCCKey (fst e)) (RawBytes v) (p\<lparr>curUnsafeValue := v, err := None\<rparr>))"
proof -
  let ?p = "p\<lparr>curUnsafeValue := v, err := None\<rparr>"
  have d: "decodeCurrentValue p = (True, ?p)" using assms(4,5) by (simp add: decodeCurrentValue_def)
  have f: "MTimestamp (curUnsafeKey ?p) = MTimestamp (fst e)" "readTS ?p = readTS p" "curUnsafeKey ?p = fst e"
    "curRawKey ?p = EncodeMVCCKey (fst e)" "curUnsafeValue ?p = v" using assms(2,3) by simp_all
  show ?thesis
    unfolding visitVersion_def d Let_def prod.case f covered_plain [OF plain_value [OF assms(1)]] option.case
    using assms(6) by argo
qed

lemma visitVersion_newer:
  assumes "curUnsafeKey p = fst e" "curRawValue p = Inr (snd e)" "DecodeMVCCValue (snd e) = Inr v"
    and "unc" "\<not> LessEq (MTimestamp (fst e)) (readTS p)"
  shows "visitVersion env unc p =
    (let p1 = p\<lparr>curUnsafeValue := v, err := None\<rparr>; ts = MTimestamp (fst e); localTS = GetLocalTimestamp v ts in
     case IsUncertain (uncertainty p) ts localTS of
       Inl x \<Rightarrow> (Some (False, False), fail (GoError x) p1)
     | Inr True \<Rightarrow> (Some (False, False), uncertaintyError ts localTS p1)
     | Inr False \<Rightarrow> (None, p1))"
proof -
  let ?p = "p\<lparr>curUnsafeValue := v, err := None\<rparr>"
  have d: "decodeCurrentValue p = (True, ?p)" using assms(2,3) by (simp add: decodeCurrentValue_def)
  have f: "MTimestamp (curUnsafeKey ?p) = MTimestamp (fst e)" "readTS ?p = readTS p"
    "curUnsafeValue ?p = v" "uncertainty ?p = uncertainty p" using assms(1) by simp_all
  show ?thesis
    unfolding visitVersion_def d Let_def prod.case f if_not_P [OF assms(5)]
    using assms(4,5) by argo
qed

lemma pick_one:
  assumes "LessEq (MTimestamp (fst e)) seekTS" "DecodeMVCCValue (snd e) = Inr v"
  shows "\<not> unc \<or> LessEq (MTimestamp (fst e)) ts \<Longrightarrow> pick ts ui seekTS unc [e] = Value (fst e) (RawBytes v)"
    "unc \<Longrightarrow> \<not> LessEq (MTimestamp (fst e)) ts \<Longrightarrow> pick ts ui seekTS unc [e] =
      (let localTS = GetLocalTimestamp v (MTimestamp (fst e)) in
       case IsUncertain ui (MTimestamp (fst e)) localTS of
         Inl x \<Rightarrow> Failed (GoError x)
       | Inr True \<Rightarrow> Failed (ReadWithinUncertaintyIntervalError ts (LocalLimit ui) (MTimestamp (fst e)) localTS)
       | Inr False \<Rightarrow> Absent)"
proof -
  obtain k raw where e: "e = (k, raw)" by fastforce
  note s = pick.simps e fst_conv snd_conv not_not
  show "\<not> unc \<or> LessEq (MTimestamp (fst e)) ts \<Longrightarrow> pick ts ui seekTS unc [e] = Value (fst e) (RawBytes v)"
    using assms unfolding s by (simp only: sum.case if_True simp_thms if_False)
  show "unc \<Longrightarrow> \<not> LessEq (MTimestamp (fst e)) ts \<Longrightarrow> pick ts ui seekTS unc [e] =
      (let localTS = GetLocalTimestamp v (MTimestamp (fst e)) in
       case IsUncertain ui (MTimestamp (fst e)) localTS of
         Inl x \<Rightarrow> Failed (GoError x)
       | Inr True \<Rightarrow> Failed (ReadWithinUncertaintyIntervalError ts (LocalLimit ui) (MTimestamp (fst e)) localTS)
       | Inr False \<Rightarrow> Absent)"
    using assms unfolding s by (simp only: sum.case if_True simp_thms if_False Let_def)
qed

lemma visited_SomeI:
  assumes "parent p' = parent p" "machineFn p' = machineFn p" "core p' = effect env r (core p)" "ok = goesOn r" "\<not> passed"
  shows "visited env r p (Some (ok, b), p') passed"
  using assms unfolding visited_def by simp

lemma visited_NoneI:
  assumes "parent p' = parent p" "machineFn p' = machineFn p" "core p' = core p" "passed"
  shows "visited env r p (None, p') passed"
  using assms unfolding visited_def by simp

lemma visited_error:
  assumes "curRawValue p = Inr (snd e)" "LessEq (MTimestamp (fst e)) seekTS" "DecodeMVCCValue (snd e) = Inl x"
  shows "visited env (pick (readTS p) (uncertainty p) seekTS unc [e]) p (visitVersion env unc p)
    (passes (readTS p) (uncertainty p) unc e)"
proof -
  have d: "decodeCurrentValue p = (False, fail (GoError x) p)" using assms(1,3) by (simp add: decodeCurrentValue_def)
  have vis: "visitVersion env unc p = (Some (False, False), fail (GoError x) p)"
    unfolding visitVersion_def d Let_def prod.case by (simp only: if_True simp_thms)
  have pk: "pick (readTS p) (uncertainty p) seekTS unc [e] = Failed (GoError x)"
    using assms(2,3) by (cases e) simp
  have np: "\<not> passes (readTS p) (uncertainty p) unc e" using assms(3) unfolding passes_def by simp
  show ?thesis using np unfolding vis pk by (simp add: visited_def fail_def effect_def goesOn_def)
qed

lemma visited_found:
  assumes "plain env p" "curUnsafeKey p = fst e" "curRawKey p = EncodeMVCCKey (fst e)" "curRawValue p = Inr (snd e)"
    and "LessEq (MTimestamp (fst e)) seekTS" "DecodeMVCCValue (snd e) = Inr v" "\<not> unc \<or> LessEq (MTimestamp (fst e)) (readTS p)"
  shows "visited env (pick (readTS p) (uncertainty p) seekTS unc [e]) p (visitVersion env unc p)
    (passes (readTS p) (uncertainty p) unc e)"
proof -
  let ?p = "p\<lparr>curUnsafeValue := v, err := None\<rparr>" and ?ts = "MTimestamp (fst e)"
  have p: "plain env ?p" "core ?p = core p" "parent ?p = parent p" "machineFn ?p = machineFn p"
    using plain_value [OF assms(1)] assms(1) by (simp_all add: plain_def core_err_None)
  obtain b c p' where a: "add env (MKey (fst e)) (EncodeMVCCKey (fst e)) (RawBytes v) ?p = ((b, c), p')"
    by (metis prod.exhaust)
  have vis: "visitVersion env unc p = (Some (b, c), p')"
    unfolding visitVersion_found [OF assms(1-4,6,7)] a by simp
  have np: "\<not> passes (readTS p) (uncertainty p) unc e" using assms(7) unfolding passes_def by blast
  note c = core_add [OF p(1) a]
  show ?thesis unfolding vis pick_one(1) [OF assms(5-7)]
  proof (rule visited_SomeI [OF _ _ _ _ np])
    show "parent p' = parent p" "machineFn p' = machineFn p" using c(3,4) by simp_all
    show "core p' = effect env (Value (fst e) (RawBytes v)) (core p)" using c(1) unfolding p(2) .
    show "b = goesOn (Value (fst e) (RawBytes v))" using c(2) by (simp add: goesOn_def)
  qed
qed

lemma visited_newer:
  assumes "plain env p" "curUnsafeKey p = fst e" "curRawValue p = Inr (snd e)"
    and "LessEq (MTimestamp (fst e)) seekTS" "DecodeMVCCValue (snd e) = Inr v" "unc" "\<not> LessEq (MTimestamp (fst e)) (readTS p)"
  shows "visited env (pick (readTS p) (uncertainty p) seekTS unc [e]) p (visitVersion env unc p)
    (passes (readTS p) (uncertainty p) unc e)"
proof -
  let ?p = "p\<lparr>curUnsafeValue := v, err := None\<rparr>" and ?ts = "MTimestamp (fst e)"
  let ?l = "GetLocalTimestamp v ?ts"
  let ?u = "IsUncertain (uncertainty p) ?ts ?l"
  have p: "core ?p = core p" "parent ?p = parent p" "machineFn ?p = machineFn p"
    using assms(1) by (simp_all add: plain_def core_err_None)
  note vis = visitVersion_newer [where env = env, OF assms(2,3,5-7)] and pk = pick_one(2) [OF assms(4-7)]
  have np: "passes (readTS p) (uncertainty p) unc e \<longleftrightarrow> ?u = Inr False"
    using assms(5-7) unfolding passes_def by (simp only: sum.inject simp_thms)
  have "(\<exists>x. ?u = Inl x) \<or> ?u = Inr True \<or> ?u = Inr False" by (cases ?u) auto
  then consider x where "?u = Inl x" | "?u = Inr True" | "?u = Inr False" by blast
  then show ?thesis
  proof cases
    case (1 x)
    show ?thesis unfolding vis pk np 1 sum.case Let_def by (rule visited_SomeI) (simp_all add: fail_def effect_def goesOn_def)
  next
    case 2
    show ?thesis unfolding vis pk np 2 sum.case bool.case Let_def
      by (rule visited_SomeI) (simp_all add: fail_def uncertaintyError_def effect_def goesOn_def)
  next
    case 3
    show ?thesis unfolding vis pk np 3 sum.case bool.case Let_def by (rule visited_NoneI [OF p(2,3,1) refl])
  qed
qed

lemma visitVersion_eq:
  assumes "plain env p" "curUnsafeKey p = fst e" "curRawKey p = EncodeMVCCKey (fst e)" "curRawValue p = Inr (snd e)"
    and "LessEq (MTimestamp (fst e)) seekTS"
  shows "visited env (pick (readTS p) (uncertainty p) seekTS unc [e]) p (visitVersion env unc p)
    (passes (readTS p) (uncertainty p) unc e)"
  using visited_error [OF assms(4,5)] visited_found [OF assms] visited_newer [OF assms(1,2,4,5)]
  by (cases "DecodeMVCCValue (snd e)") blast+

end
