(* ===== verification/Mvcc_Refine.thy ===== *)
theory Mvcc_Refine
  imports Mvcc_Read
begin

text \<open>
  The scanner of theory \<open>Mvcc_Scan\<close> refines a fold over the keys of the snapshot.  For one key, whatever number
  of steps \<open>itersBeforeSeek\<close> allows before the fallback to a seek, the search of \<open>seekVersion\<close> decides what the
  scan-free reference \<open>pick\<close> decides; \<open>readKey\<close> adds the treatment of intents, and a scan is \<open>readKey\<close> on one
  key after the other.
\<close>

declare not_LessEq [simp del] not_Less [simp del]

subsection \<open>Blocks of versions\<close>

lemma nth_takeWhile_P: "i < length (takeWhile P xs) \<Longrightarrow> P (xs ! i)"
  by (metis nth_mem set_takeWhileD takeWhile_nth)

lemma length_takeWhile_eqI:
  assumes "q \<le> length xs" "\<And>i. i < q \<Longrightarrow> P (xs ! i)" "q < length xs \<Longrightarrow> \<not> P (xs ! q)"
  shows "length (takeWhile P xs) = q"
proof -
  let ?n = "length (takeWhile P xs)"
  have "\<not> ?n < q" using assms(1,2) nth_length_takeWhile [of P xs] length_takeWhile_le [of P xs] by fastforce
  moreover have "\<not> q < ?n"
  proof
    assume q: "q < ?n"
    then have "q < length xs" using length_takeWhile_le [of P xs] by simp
    moreover have "P (xs ! q)" by (rule nth_takeWhile_P [OF q])
    ultimately show False using assms(3) by blast
  qed
  ultimately show ?thesis by simp
qed

lemma MVCCKeyLess_iff:
  "MVCCKeyLess a b \<longleftrightarrow> MKey a < MKey b \<or>
     MKey a = MKey b \<and> IsValue b \<and> (\<not> IsValue a \<or> Less (MTimestamp b) (MTimestamp a))"
  by (auto simp: MVCCKeyLess_def bytes_Compare_def)

definition slice :: "snapshot \<Rightarrow> nat \<Rightarrow> nat \<Rightarrow> snapshot" where
  "slice es a b = drop a (take b es)"

lemma slice_Cons: "a < b \<Longrightarrow> b \<le> length es \<Longrightarrow> slice es a b = es ! a # slice es (Suc a) b"
  by (simp add: slice_def Cons_nth_drop_Suc [symmetric])

lemma slice_empty [simp]: "b \<le> a \<Longrightarrow> slice es a b = []"
  by (simp add: slice_def)

text \<open>The positions \<open>n\<close> to \<open>m\<close> hold the entries of the key \<open>k\<close>.\<close>

definition block :: "snapshot \<Rightarrow> bytes \<Rightarrow> nat \<Rightarrow> nat \<Rightarrow> bool" where
  "block es k n m \<longleftrightarrow> stored es \<and> n < m \<and> m \<le> length es \<and> (\<forall>j. n \<le> j \<and> j < m \<longrightarrow> MKey (fst (es ! j)) = k) \<and>
     (\<forall>j<n. MKey (fst (es ! j)) < k) \<and> (\<forall>j. m \<le> j \<and> j < length es \<longrightarrow> k < MKey (fst (es ! j)))"

lemma stored_less: "stored es \<Longrightarrow> i < j \<Longrightarrow> j < length es \<Longrightarrow> MVCCKeyLess (fst (es ! i)) (fst (es ! j))"
  by (simp add: stored_def sorted_wrt_iff_nth_less)

lemma block_next:
  assumes "block es k n m" "n \<le> j" "j < m"
  shows "nextKeyIdx es j = m"
proof -
  have "length (takeWhile (\<lambda>e. MKey (fst e) = MKey (fst (es ! j))) (drop j es)) = m - j"
    by (rule length_takeWhile_eqI) (use assms in \<open>auto simp: block_def\<close>)
  then show ?thesis using assms(3) by (simp add: nextKeyIdx_def)
qed

lemma block_older:
  assumes "block es k n m" "n \<le> i" "i < j" "j < m"
  shows "IsValue (fst (es ! j))" "IsValue (fst (es ! i)) \<Longrightarrow> Less (MTimestamp (fst (es ! j))) (MTimestamp (fst (es ! i)))"
proof -
  have "MVCCKeyLess (fst (es ! i)) (fst (es ! j))" using assms stored_less [of es i j] by (simp add: block_def)
  moreover have "MKey (fst (es ! i)) = MKey (fst (es ! j))" using assms by (auto simp: block_def)
  ultimately show "IsValue (fst (es ! j))" "IsValue (fst (es ! i)) \<Longrightarrow> Less (MTimestamp (fst (es ! j))) (MTimestamp (fst (es ! i)))"
    by (auto simp: MVCCKeyLess_iff)
qed

text \<open>The position a seek in the block goes to.\<close>

lemma block_seek:
  assumes b: "block es k n m" and ne: "\<not> IsEmpty ts"
  defines "q \<equiv> seekIdx es \<lparr>MKey = k, MTimestamp = ts\<rparr>"
  shows "n \<le> q" "q \<le> m"
    "n \<le> j \<Longrightarrow> j < q \<Longrightarrow> IsValue (fst (es ! j)) \<Longrightarrow> \<not> LessEq (MTimestamp (fst (es ! j))) ts"
    "q \<le> j \<Longrightarrow> j < m \<Longrightarrow> IsValue (fst (es ! j)) \<and> LessEq (MTimestamp (fst (es ! j))) ts"
proof -
  let ?P = "\<lambda>e. MVCCKeyLess (fst e) \<lparr>MKey = k, MTimestamp = ts\<rparr>"
  have q: "q = length (takeWhile ?P es)" by (simp add: q_def seekIdx_def)
  have less: "?P (es ! j)" if "j < q" for j
    using that unfolding q by (rule nth_takeWhile_P)
  have stop: "q < length es \<Longrightarrow> \<not> ?P (es ! q)" unfolding q by (rule nth_length_takeWhile)
  have v: "IsValue \<lparr>MKey = k, MTimestamp = ts\<rparr>" using ne by (simp add: IsValue_def)
  have "m \<le> length es" using b by (simp add: block_def)
  have "\<not> q < n"
    using stop b by (auto simp: block_def MVCCKeyLess_iff)
  then show nq: "n \<le> q" by simp
  show qm: "q \<le> m"
  proof (rule ccontr)
    assume "\<not> q \<le> m"
    then have "m < q" by simp
    moreover have "q \<le> length es" unfolding q by (rule length_takeWhile_le)
    ultimately have "?P (es ! m)" "k < MKey (fst (es ! m))" using less [of m] b by (auto simp: block_def)
    then show False by (auto simp: MVCCKeyLess_iff)
  qed
  have key: "MKey (fst (es ! j)) = k" if "n \<le> j" "j < m" for j using b that by (simp add: block_def)
  show "\<not> LessEq (MTimestamp (fst (es ! j))) ts" if "n \<le> j" "j < q" "IsValue (fst (es ! j))"
    using less [OF that(2)] key [of j] that qm by (auto simp: MVCCKeyLess_iff not_LessEq)
  show "IsValue (fst (es ! j)) \<and> LessEq (MTimestamp (fst (es ! j))) ts" if j: "q \<le> j" "j < m"
  proof -
    have at: "IsValue (fst (es ! q)) \<and> LessEq (MTimestamp (fst (es ! q))) ts"
      using stop key [of q] nq j \<open>m \<le> length es\<close> v by (auto simp: MVCCKeyLess_iff not_Less)
    show ?thesis
    proof (cases "j = q")
      case False
      then show ?thesis using block_older [OF b nq, of j] j at by (metis Less_imp_LessEq le_neq_implies_less ts_trans(1))
    qed (use at in simp)
  qed
qed

subsection \<open>The search for a version\<close>

text \<open>After a key has been read, the scanner can advance to the entry \<open>m\<close>.\<close>

definition ready :: "snapshot \<Rightarrow> ('i \<Rightarrow> nat \<Rightarrow> bool) \<Rightarrow> nat \<Rightarrow> 'i pebbleMVCCScanner \<Rightarrow> bool" where
  "ready es at m p \<longleftrightarrow>
    (machineFn p = advanceKeyForward_fn \<and> (\<exists>j<length es. at (parent p) j \<and> nextKeyIdx es j = m)) \<or>
    (machineFn p = advanceKeyAtNewKeyForward_fn \<and> on es at p m) \<or>
    (machineFn p = advanceKeyAtEndForward_fn \<and> m = length es)"

definition reads ::
    "snapshot \<Rightarrow> ('i \<Rightarrow> nat \<Rightarrow> bool) \<Rightarrow> nat \<Rightarrow> 'i Env \<Rightarrow> key_read \<Rightarrow> 'i pebbleMVCCScanner \<Rightarrow>
      (bool \<times> bool) \<times> 'i pebbleMVCCScanner \<Rightarrow> bool" where
  "reads es at m env r p res \<longleftrightarrow>
     core (snd res) = effect env r (core p) \<and> fst (fst res) = goesOn r \<and> (goesOn r \<longrightarrow> ready es at m (snd res))"

lemma reads_core:
  assumes "core p = core q"
  shows "reads es at m env r p res \<longleftrightarrow> reads es at m env r q res"
  unfolding reads_def assms ..

lemma readsI:
  assumes "core p' = effect env r (core p)" "ok = goesOn r" "goesOn r \<Longrightarrow> ready es at m p'"
  shows "reads es at m env r p ((ok, b), p')"
  using assms by (simp add: reads_def)

lemma effect_Absent [simp]: "effect env Absent p = p" "goesOn Absent" "goesOn (Value k v)" "goesOn (Intent rk rv)" "\<not> goesOn (Failed e)"
  by (simp_all add: effect_def goesOn_def)

lemma reads_end:
  assumes "core p' = core p" "\<not> reverse p'" "m = length es"
  shows "reads es at m env Absent p ((True, b), setAdvanceKeyAtEnd p')"
  by (rule readsI) (use assms in \<open>simp_all add: ready_def setAdvanceKeyAtEnd_def\<close>)

lemma reads_new_key:
  assumes "core p' = core p" "\<not> reverse p'" "on es at p' m"
  shows "reads es at m env Absent p ((True, b), setAdvanceKeyAtNewKey k p')"
  by (rule readsI) (use assms in \<open>simp_all add: ready_def setAdvanceKeyAtNewKey_def on_def\<close>)

lemma ready_block:
  assumes "block es k n m" "n \<le> j" "j < m" "at (parent p) j" "machineFn p = advanceKeyForward_fn"
  shows "ready es at m p"
proof -
  have "nextKeyIdx es j = m" "j < length es" using block_next [OF assms(1-3)] assms(1,3) by (simp_all add: block_def)
  then show ?thesis using assms(4,5) unfolding ready_def by auto
qed

lemma reads_visited:
  assumes "visited env r p (Some (ok, b), p') passed" "at (parent p) j" "block es k n m" "n \<le> j" "j < m"
    and "machineFn p = advanceKeyForward_fn" "core p = core p0"
  shows "reads es at m env r p0 ((ok, b), p')"
proof -
  have "ready es at m p'"
    by (rule ready_block [where at = at, OF assms(3-5)]) (use assms(1,2,6) in \<open>simp_all add: visited_def\<close>)
  then show ?thesis using assms(1,7) unfolding reads_def visited_def by simp
qed

lemma visitedD:
  "visited env r p (None, p') passed \<Longrightarrow> passed \<and> core p' = core p \<and> parent p' = parent p \<and> machineFn p' = machineFn p"
  "visited env r p (Some x, p') passed \<Longrightarrow> \<not> passed"
  unfolding visited_def by (auto split: prod.splits)

lemma goto_on:
  "at i j \<Longrightarrow> j < length es \<Longrightarrow> on es at (goto i (es ! j) p) j"
  by (simp add: on_def goto_def)

lemma goto_fields [simp]:
  "machineFn (goto i e p) = machineFn p" "parent (goto i e p) = i" "curUnsafeKey (goto i e p) = fst e"
  "reverse (goto i e p) = reverse p" "curRawKey (goto i e p) = EncodeMVCCKey (fst e)" "curRawValue (goto i e p) = Inr (snd e)"
  by (simp_all add: goto_def)

lemma iters_fields [simp]:
  "machineFn (incrementItersBeforeSeek env p) = machineFn p" "parent (incrementItersBeforeSeek env p) = parent p"
  "curUnsafeKey (incrementItersBeforeSeek env p) = curUnsafeKey p" "curRawKey (incrementItersBeforeSeek env p) = curRawKey p"
  "curRawValue (incrementItersBeforeSeek env p) = curRawValue p" "reverse (incrementItersBeforeSeek env p) = reverse p"
  "machineFn (decrementItersBeforeSeek env p) = machineFn p" "parent (decrementItersBeforeSeek env p) = parent p"
  "reverse (decrementItersBeforeSeek env p) = reverse p"
  by (simp_all add: incrementItersBeforeSeek_def decrementItersBeforeSeek_def Let_def)

lemma core_readTS: "core p = core q \<Longrightarrow> readTS p = readTS q \<and> uncertainty p = uncertainty q \<and> reverse p = reverse q"
  by (metis core_fields(1,2,7))

text \<open>A visit to an entry of the block that is no newer than sought.\<close>

lemma visit_step:
  assumes "block es k n m" "n \<le> j" "j < m" "plain env p" "machineFn p = advanceKeyForward_fn" "on es at p j"
    and "LessEq (MTimestamp (fst (es ! j))) seekTS"
  obtains (decided) x p' where "visitVersion env unc p = (Some x, p')"
      "reads es at m env (pick (readTS p) (uncertainty p) seekTS unc (slice es j m)) p (x, p')"
    | (passed) p' where "visitVersion env unc p = (None, p')" "core p' = core p" "parent p' = parent p"
      "machineFn p' = advanceKeyForward_fn"
      "pick (readTS p) (uncertainty p) seekTS unc (slice es j m) = pick (readTS p) (uncertainty p) seekTS unc (slice es (Suc j) m)"
proof -
  obtain r p' where v: "visitVersion env unc p = (r, p')" by fastforce
  have sl: "slice es j m = es ! j # slice es (Suc j) m" using assms(1,3) by (simp add: slice_Cons block_def)
  have vis: "visited env (pick (readTS p) (uncertainty p) seekTS unc [es ! j]) p (r, p')
      (passes (readTS p) (uncertainty p) unc (es ! j))"
    unfolding v [symmetric] by (rule visitVersion_eq [OF assms(4)]) (use assms(6,7) in \<open>simp_all add: on_def\<close>)
  have at: "at (parent p) j" using assms(6) by (simp add: on_def)
  show thesis
  proof (cases r)
    case None
    note d = visitedD(1) [OF vis [unfolded None]]
    have "pick (readTS p) (uncertainty p) seekTS unc (slice es j m) = pick (readTS p) (uncertainty p) seekTS unc (slice es (Suc j) m)"
      unfolding sl using pick_Cons(1) [OF assms(7)] d by blast
    then show thesis using passed [OF v [unfolded None]] d assms(5) by simp
  next
    case (Some x)
    obtain ok b where x: "x = (ok, b)" by fastforce
    have pk: "pick (readTS p) (uncertainty p) seekTS unc (slice es j m) = pick (readTS p) (uncertainty p) seekTS unc [es ! j]"
      unfolding sl by (rule pick_Cons(3) [OF assms(7) visitedD(2) [OF vis [unfolded Some]]])
    have "reads es at m env (pick (readTS p) (uncertainty p) seekTS unc [es ! j]) p ((ok, b), p')"
      by (rule reads_visited [where at = at, OF vis [unfolded Some x] at assms(1-3,5) refl])
    then show thesis using decided [OF v [unfolded Some]] unfolding pk x by blast
  qed
qed

lemma seekNextLoop_Suc:
  assumes "iterNext fuel env p = Some (True, p1)" "MKey (curUnsafeKey p1) = k"
  shows "LessEq (MTimestamp (curUnsafeKey p1)) seekTS \<Longrightarrow>
      seekNextLoop (Suc s) fuel env k seekTS unc p =
        (case visitVersion env unc (incrementItersBeforeSeek env p1) of
           (Some r, p2) \<Rightarrow> Some (Some r, p2)
         | (None, p2) \<Rightarrow> seekNextLoop s fuel env k seekTS unc p2)"
    "\<not> LessEq (MTimestamp (curUnsafeKey p1)) seekTS \<Longrightarrow>
      seekNextLoop (Suc s) fuel env k seekTS unc p = seekNextLoop s fuel env k seekTS unc p1"
  using assms by simp_all

text \<open>Stepping either decides the read, or leaves the scanner in the block, as it was.\<close>

definition stepped ::
    "snapshot \<Rightarrow> ('i \<Rightarrow> nat \<Rightarrow> bool) \<Rightarrow> nat \<Rightarrow> 'i Env \<Rightarrow> key_read \<Rightarrow> 'i pebbleMVCCScanner \<Rightarrow>
      ((bool \<times> bool) option \<times> 'i pebbleMVCCScanner) option \<Rightarrow> bool" where
  "stepped es at m env r p res \<longleftrightarrow>
    (case res of
       None \<Rightarrow> False
     | Some (Some x, p') \<Rightarrow> reads es at m env r p (x, p')
     | Some (None, p') \<Rightarrow> core p' = core p \<and> machineFn p' = advanceKeyForward_fn \<and> (\<exists>j. at (parent p') j))"

lemma stepped_core: "core p = core q \<Longrightarrow> stepped es at m env r p res \<longleftrightarrow> stepped es at m env r q res"
proof -
  assume c: "core p = core q"
  show ?thesis unfolding stepped_def reads_def c ..
qed

lemma steppedE:
  assumes "stepped es at m env r p res"
  obtains x p' where "res = Some (Some x, p')" "reads es at m env r p (x, p')"
  | p' j where "res = Some (None, p')" "core p' = core p" "machineFn p' = advanceKeyForward_fn" "at (parent p') j"
proof (cases res)
  case (Some y)
  then show thesis using assms that unfolding stepped_def by (cases y; cases "fst y") auto
qed (use assms in \<open>simp add: stepped_def\<close>)

lemma seekNextLoop_eq:
  assumes "iterates (iter env) es at" "block es k n0 m" "plain env p" "machineFn p = advanceKeyForward_fn"
    and "at (parent p) n" "n0 \<le> n" "n < m"
  shows "stepped es at m env (pick (readTS p) (uncertainty p) seekTS unc (slice es (Suc n) m)) p
    (seekNextLoop s (Suc fuel) env k seekTS unc p)"
  using assms(3-)
proof (induction s arbitrary: p n)
  case 0
  then show ?case by (auto simp: stepped_def)
next
  case (Suc s)
  note plain = Suc.prems(1) and fn = Suc.prems(2) and at = Suc.prems(3) and pos = Suc.prems(4,5)
  have m: "m \<le> length es" using assms(2) by (simp add: block_def)
  have rev: "\<not> reverse p" using plain by (simp add: plain_def)
  have n: "n < length es" using pos(2) m by simp
  note step = iterNext_eq [OF assms(1) at n plain_forward [OF plain], of fuel]
  have at': "at (iNext (iter env) (parent p)) (Suc n)" using assms(1) at n by (simp add: iterates_def)
  let ?p1 = "goto (iNext (iter env) (parent p)) (es ! Suc n) p"
  consider "Suc n = m" "m = length es" | "Suc n = m" "m < length es" | "Suc n < m" using pos(2) m by linarith
  then show ?case
  proof cases
    case 1
    then have "seekNextLoop (Suc s) (Suc fuel) env k seekTS unc p =
        Some (Some (True, False), setAdvanceKeyAtEnd (p\<lparr>parent := iNext (iter env) (parent p)\<rparr>))"
      using step by simp
    then show ?thesis using reads_end [of "p\<lparr>parent := iNext (iter env) (parent p)\<rparr>" p m es at env False] rev 1
      by (simp add: stepped_def)
  next
    case 2
    have "MKey (fst (es ! m)) \<noteq> k" using assms(2) 2(2) by (auto simp: block_def)
    then have "seekNextLoop (Suc s) (Suc fuel) env k seekTS unc p =
        Some (Some (True, False), setAdvanceKeyAtNewKey k (incrementItersBeforeSeek env ?p1))"
      using step 2 by simp
    moreover have "on es at (incrementItersBeforeSeek env ?p1) m" using at' 2 by (simp add: on_def)
    ultimately show ?thesis using reads_new_key [of "incrementItersBeforeSeek env ?p1" p es at m env False k] rev 2
      by (simp add: stepped_def)
  next
    case 3
    have key: "MKey (fst (es ! Suc n)) = k" using assms(2) 3 pos by (simp add: block_def)
    have sl: "slice es (Suc n) m = es ! Suc n # slice es (Suc (Suc n)) m" using 3 m by (simp add: slice_Cons)
    have it: "iterNext (Suc fuel) env p = Some (True, ?p1)" using step 3 m by simp
    have ih: "stepped es at m env (pick (readTS p) (uncertainty p) seekTS unc (slice es (Suc (Suc n)) m)) p
        (seekNextLoop s (Suc fuel) env k seekTS unc p2)"
      if c: "core p2 = core p" "machineFn p2 = advanceKeyForward_fn" "parent p2 = iNext (iter env) (parent p)" for p2
    proof -
      have "plain env p2" "readTS p2 = readTS p" "uncertainty p2 = uncertainty p"
        using plain plain_core [OF c(1), of env] core_readTS [OF c(1)] by blast+
      then show ?thesis using Suc.IH [of p2 "Suc n"] c at' pos 3 stepped_core [OF c(1)] by simp
    qed
    show ?thesis
    proof (cases "LessEq (MTimestamp (fst (es ! Suc n))) seekTS")
      case False
      then have "seekNextLoop (Suc s) (Suc fuel) env k seekTS unc p = seekNextLoop s (Suc fuel) env k seekTS unc ?p1"
        using seekNextLoop_Suc(2) [OF it] key by simp
      then show ?thesis using ih [of ?p1] fn pick_Cons(2) [OF False] sl by simp
    next
      case True
      let ?q = "incrementItersBeforeSeek env ?p1"
      have cq: "core ?q = core p" by simp
      have same: "readTS ?q = readTS p" "uncertainty ?q = uncertainty p" "plain env ?q"
        using core_readTS [OF cq] plain_core [OF cq, of env] plain by blast+
      have on: "on es at ?q (Suc n)" using at' 3 m by (simp add: on_def)
      have fq: "machineFn ?q = advanceKeyForward_fn" using fn by simp
      note loop = seekNextLoop_Suc(1) [OF it, of k seekTS s unc]
      show ?thesis
      proof (rule visit_step [where at = at and unc = unc, OF assms(2) _ 3 same(3) fq on True])
        show "n0 \<le> Suc n" using pos by simp
      next
        fix x p2
        assume v: "visitVersion env unc ?q = (Some x, p2)"
          and r: "reads es at m env (pick (readTS ?q) (uncertainty ?q) seekTS unc (slice es (Suc n) m)) ?q (x, p2)"
        have "seekNextLoop (Suc s) (Suc fuel) env k seekTS unc p = Some (Some x, p2)" using loop key True v by simp
        then show ?thesis using r unfolding same reads_core [OF cq] by (simp add: stepped_def)
      next
        fix p2
        assume v: "visitVersion env unc ?q = (None, p2)" "core p2 = core ?q" "parent p2 = parent ?q"
          "machineFn p2 = advanceKeyForward_fn"
          and pk: "pick (readTS ?q) (uncertainty ?q) seekTS unc (slice es (Suc n) m) =
            pick (readTS ?q) (uncertainty ?q) seekTS unc (slice es (Suc (Suc n)) m)"
        have "seekNextLoop (Suc s) (Suc fuel) env k seekTS unc p = seekNextLoop s (Suc fuel) env k seekTS unc p2"
          using loop key True v(1) by simp
        then show ?thesis using ih [of p2] v(2-4) pk unfolding same by simp
      qed
    qed
  qed
qed

lemma seekVersionLoop_eq:
  assumes "iterates (iter env) es at" "block es k n0 m" "n0 \<le> q" "plain env p" "machineFn p = advanceKeyForward_fn"
    and "on es at p q" "q \<le> m" "\<And>j. q \<le> j \<Longrightarrow> j < m \<Longrightarrow> LessEq (MTimestamp (fst (es ! j))) seekTS" "m - q + 2 \<le> fuel"
  shows "\<exists>x. seekVersionLoop fuel env k unc p = Some x \<and>
    reads es at m env (pick (readTS p) (uncertainty p) seekTS unc (slice es q m)) p x"
  using assms(3-)
proof (induction fuel arbitrary: p q)
  case (Suc fuel)
  note plain = Suc.prems(2) and fn = Suc.prems(3) and on = Suc.prems(4)
  have rev: "\<not> reverse p" using plain by (simp add: plain_def)
  have q: "q < length es" "at (parent p) q" "curUnsafeKey p = fst (es ! q)" using on by (simp_all add: on_def)
  show ?case
  proof (cases "q = m")
    case True
    then have "MKey (curUnsafeKey p) \<noteq> k" using assms(2) q by (auto simp: block_def)
    then show ?thesis using reads_new_key [OF refl rev, of es at m env False k] on True by simp
  next
    case False
    then have qm: "q < m" using Suc.prems(5) by simp
    have m: "m \<le> length es" using assms(2) by (simp add: block_def)
    have key: "MKey (curUnsafeKey p) = k" using assms(2) qm Suc.prems(1) q by (simp add: block_def)
    have le: "LessEq (MTimestamp (fst (es ! q))) seekTS" using Suc.prems(6) [of q] qm by simp
    show ?thesis
    proof (rule visit_step [where at = at and unc = unc, OF assms(2) Suc.prems(1) qm plain fn on le])
      fix x p1
      assume "visitVersion env unc p = (Some x, p1)"
        "reads es at m env (pick (readTS p) (uncertainty p) seekTS unc (slice es q m)) p (x, p1)"
      then show ?thesis using key by simp
    next
      fix p1
      assume v: "visitVersion env unc p = (None, p1)" and c: "core p1 = core p" "parent p1 = parent p" "machineFn p1 = advanceKeyForward_fn"
        and pk: "pick (readTS p) (uncertainty p) seekTS unc (slice es q m) = pick (readTS p) (uncertainty p) seekTS unc (slice es (Suc q) m)"
      have plain1: "plain env p1" using plain_core [OF c(1), of env] plain by blast
      obtain g where g: "fuel = Suc g" using Suc.prems(7) qm by (cases fuel) auto
      have at1: "at (parent p1) q" using c(2) q(2) by simp
      note step = iterNext_eq [OF assms(1) at1 q(1) plain_forward [OF plain1], of g]
      have at': "at (iNext (iter env) (parent p1)) (Suc q)" using assms(1) at1 q(1) by (simp add: iterates_def)
      show ?thesis
      proof (cases "Suc q < length es")
        case True
        let ?p2 = "goto (iNext (iter env) (parent p1)) (es ! Suc q) p1"
        have c2: "core ?p2 = core p" using c(1) by simp
        have "plain env ?p2" and same2: "readTS ?p2 = readTS p" "uncertainty ?p2 = uncertainty p"
          using plain_core [OF c2, of env] plain core_readTS [OF c2] by blast+
        moreover have "m - Suc q + 2 \<le> fuel" using Suc.prems(7) qm by linarith
        ultimately obtain x where "seekVersionLoop fuel env k unc ?p2 = Some x"
          "reads es at m env (pick (readTS p) (uncertainty p) seekTS unc (slice es (Suc q) m)) ?p2 x"
          using Suc.IH [of "Suc q" ?p2] Suc.prems qm c(3) goto_on [where p = p1 and at = at, OF at' True] same2 by auto
        then show ?thesis unfolding pk reads_core [OF c2] using key v step g True by simp
      next
        case False
        let ?p2 = "p1\<lparr>parent := iNext (iter env) (parent p1)\<rparr>"
        have e: "m = length es" "slice es (Suc q) m = []" using False qm m by simp_all
        have "seekVersionLoop (Suc fuel) env k unc p = Some ((True, False), setAdvanceKeyAtEnd ?p2)"
          using key v step g False by simp
        moreover have "reads es at m env Absent p ((True, False), setAdvanceKeyAtEnd ?p2)"
          by (rule reads_end) (use c(1) plain1 e in \<open>simp_all add: plain_def\<close>)
        ultimately show ?thesis unfolding pk e(2) by simp
      qed
    qed
  qed
qed simp

text \<open>The whole search, from the first entry of a key: the number of steps before the seek has no influence.
  The entry itself is metadata, or newer than sought, or known not to be uncertain.\<close>

definition seekRead :: "Timestamp \<Rightarrow> Interval \<Rightarrow> Timestamp \<Rightarrow> bool \<Rightarrow> snapshot \<Rightarrow> key_read" where
  "seekRead ts ui seekTS unc vs = (if IsEmpty seekTS then Absent else pick ts ui seekTS unc vs)"

lemma pick_skip:
  assumes "a \<le> q" "q \<le> m" "m \<le> length es" "\<And>j. a \<le> j \<Longrightarrow> j < q \<Longrightarrow> \<not> LessEq (MTimestamp (fst (es ! j))) seekTS"
  shows "pick ts ui seekTS unc (slice es a m) = pick ts ui seekTS unc (slice es q m)"
  using assms
proof (induction "q - a" arbitrary: a)
  case (Suc d)
  then have "slice es a m = es ! a # slice es (Suc a) m" by (simp add: slice_Cons)
  then have "pick ts ui seekTS unc (slice es a m) = pick ts ui seekTS unc (slice es (Suc a) m)"
    using pick_Cons(2) [of "es ! a" seekTS] Suc.prems(4) [of a] Suc.hyps(2) by simp
  also have "\<dots> = pick ts ui seekTS unc (slice es q m)" using Suc by simp
  finally show ?case .
qed simp

lemma pick_from_seek:
  assumes "block es k n m" "\<not> IsEmpty seekTS"
    and "\<not> IsValue (fst (es ! n)) \<or> \<not> LessEq (MTimestamp (fst (es ! n))) seekTS \<or> passes ts ui unc (es ! n)"
  shows "pick ts ui seekTS unc (slice es (seekIdx es \<lparr>MKey = k, MTimestamp = seekTS\<rparr>) m) =
    pick ts ui seekTS unc (slice es (Suc n) m)"
proof -
  let ?q = "seekIdx es \<lparr>MKey = k, MTimestamp = seekTS\<rparr>"
  note q = block_seek [OF assms(1,2)]
  have n: "n < m" "m \<le> length es" using assms(1) by (simp_all add: block_def)
  show ?thesis
  proof (cases "?q = n")
    case True
    then have v: "IsValue (fst (es ! n))" "LessEq (MTimestamp (fst (es ! n))) seekTS" using q(4) [of n] n by simp_all
    then have "passes ts ui unc (es ! n)" using assms(3) by blast
    then show ?thesis unfolding True slice_Cons [OF n] by (rule pick_Cons(1) [OF v(2)])
  next
    case False
    then have "Suc n \<le> ?q" using q(1) by simp
    moreover have "\<not> LessEq (MTimestamp (fst (es ! j))) seekTS" if "Suc n \<le> j" "j < ?q" for j
      using q(3) [of j] block_older(1) [OF assms(1) le_refl, of j] that q(2) by simp
    ultimately show ?thesis using pick_skip [of "Suc n" ?q m es seekTS] q(2) n by simp
  qed
qed

lemma seekVersion_eq:
  assumes "iterates (iter env) es at" "block es k n m" "plain env p" "machineFn p = advanceKeyForward_fn"
    and "at (parent p) n" "MKey (curUnsafeKey p) = k" "length es + 2 \<le> fuel"
    and "\<not> IsValue (fst (es ! n)) \<or> \<not> LessEq (MTimestamp (fst (es ! n))) seekTS \<or>
      passes (readTS p) (uncertainty p) unc (es ! n)"
  shows "\<exists>x. seekVersion fuel env seekTS unc p = Some x \<and>
    reads es at m env (seekRead (readTS p) (uncertainty p) seekTS unc (slice es (Suc n) m)) p x"
proof (cases "IsEmpty seekTS")
  case True
  have n: "n < m" "m \<le> length es" using assms(2) by (simp_all add: block_def)
  have "ready es at m p" by (rule ready_block [where at = at, OF assms(2) le_refl n(1) assms(5,4)])
  then show ?thesis using True by (simp add: seekVersion_def seekRead_def reads_def)
next
  case False
  let ?R = "pick (readTS p) (uncertainty p) seekTS unc (slice es (Suc n) m)"
  have n: "n < m" "m \<le> length es" using assms(2) by (simp_all add: block_def)
  obtain g where g: "fuel = Suc g" using assms(7) by (cases fuel) auto
  note sv = seekVersion_def [of fuel env seekTS unc p] and sr = seekRead_def [of "readTS p" "uncertainty p" seekTS unc]
  show ?thesis
    using seekNextLoop_eq [OF assms(1-5) le_refl n(1), where fuel = g and seekTS = seekTS and unc = unc and s = "nat (itersBeforeSeek p)"]
  proof (cases rule: steppedE)
    case (1 x p1)
    then have "seekVersion fuel env seekTS unc p = Some (x, p1)" using False assms(6) using sv g by (simp add: Let_def)
    then show ?thesis using 1(2) False unfolding sr by simp
  next
    case (2 p1 j)
    let ?p1 = "decrementItersBeforeSeek env p1" and ?sk = "\<lparr>MKey = k, MTimestamp = seekTS\<rparr>"
    let ?q = "seekIdx es ?sk" and ?i = "iSeekGE (iter env) ?sk (parent p1)"
    have sv2: "seekVersion fuel env seekTS unc p = (iterSeek fuel env ?sk ?p1 \<bind> (\<lambda>(ok, p2).
        if \<not> ok then Some ((True, False), setAdvanceKeyAtEnd p2) else seekVersionLoop fuel env k unc p2))"
      using 2(1) False assms(6) using sv g by (simp add: Let_def)
    have c1: "core ?p1 = core p" "at (parent ?p1) j" using 2 by simp_all
    have plain1: "plain env ?p1" using plain_core [OF c1(1), of env] assms(3) by blast
    note seek = iterSeek_eq [OF assms(1) c1(2) plain_forward [OF plain1], of g ?sk, folded g]
    have at': "at ?i ?q" using assms(1) 2(4) unfolding iterates_def by blast
    note q = block_seek [OF assms(2) False] and pk = pick_from_seek [OF assms(2) False assms(8)]
    show ?thesis
    proof (cases "?q < length es")
      case True
      let ?p2 = "goto ?i (es ! ?q) ?p1"
      have c2: "core ?p2 = core p" using c1 by simp
      have plain2: "plain env ?p2" and same2: "readTS ?p2 = readTS p" "uncertainty ?p2 = uncertainty p"
        using plain_core [OF c2, of env] assms(3) core_readTS [OF c2] by blast+
      have "\<exists>x. seekVersionLoop fuel env k unc ?p2 = Some x \<and>
          reads es at m env (pick (readTS ?p2) (uncertainty ?p2) seekTS unc (slice es ?q m)) ?p2 x"
        by (rule seekVersionLoop_eq [OF assms(1,2) q(1) plain2 _ goto_on [where at = at, OF at' True] q(2)])
          (use q(4) 2(3) assms(7) n in auto)
      then obtain x where x: "seekVersionLoop fuel env k unc ?p2 = Some x" "reads es at m env ?R p x"
        unfolding same2 pk reads_core [OF c2] by blast
      have "seekVersion fuel env seekTS unc p = Some x" unfolding sv2 seek using True x(1) by simp
      then show ?thesis using x(2) False unfolding sr by simp
    next
      case nq: False
      have e: "m = length es" "?q = m" using q(2) n nq by simp_all
      have R: "?R = Absent" unfolding pk [symmetric] e(2) by simp
      have "\<not> reverse p1" using plain1 by (simp add: plain_def)
      then have "reads es at m env Absent p ((True, False), setAdvanceKeyAtEnd (?p1\<lparr>parent := ?i\<rparr>))"
        using c1(1) e(1) by (intro reads_end) simp_all
      moreover have "seekVersion fuel env seekTS unc p = Some ((True, False), setAdvanceKeyAtEnd (?p1\<lparr>parent := ?i\<rparr>))"
        unfolding sv2 seek using nq by simp
      ultimately show ?thesis using False R unfolding sr by simp
    qed
  qed
qed

subsection \<open>Reading a key\<close>

text \<open>The versions of a key without metadata.\<close>

fun readVersions :: "bool \<Rightarrow> Timestamp \<Rightarrow> Interval \<Rightarrow> snapshot \<Rightarrow> key_read" where
  "readVersions check ts ui [] = Absent"
| "readVersions check ts ui ((k, raw) # vs) =
    (case DecodeMVCCValue raw of
       Inl e \<Rightarrow> Failed (GoError e)
     | Inr v \<Rightarrow>
         if LessEq (MTimestamp k) ts then Value k (RawBytes v)
         else if \<not> check then seekRead ts ui ts False vs
         else
           let localTS = GetLocalTimestamp v (MTimestamp k) in
           case IsUncertain ui (MTimestamp k) localTS of
             Inl e \<Rightarrow> Failed (GoError e)
           | Inr u \<Rightarrow>
               if u then Failed (ReadWithinUncertaintyIntervalError ts (LocalLimit ui) (MTimestamp k) localTS)
               else seekRead ts ui (GlobalLimit ui) True vs)"

text \<open>The metadata of a key and the versions below it.  The read sees its own transaction's writes up to
  its sequence number, and nothing of another transaction's intent but the intent itself, when that is
  at or below the read timestamp.\<close>

definition readOwn ::
    "'i pebbleMVCCScanner \<Rightarrow> MVCCMetadata \<Rightarrow> TxnMeta \<Rightarrow> Timestamp \<Rightarrow> Timestamp \<Rightarrow> bytes \<Rightarrow> snapshot \<Rightarrow> key_read" where
  "readOwn p meta metaTxn metaTS prevTS key vs =
    (let older = (\<lambda>ts. seekRead (readTS p) (uncertainty p) ts False vs) in
     if txnEpoch p = Epoch metaTxn then
       if sint (Sequence metaTxn) \<le> sint (txnSequence p) \<and> \<not> TxnSeqIsIgnored (Sequence metaTxn) (txnIgnoredSeqNums p)
       then older metaTS
       else (case getFromIntentHistory (p\<lparr>scanMeta := meta\<rparr>) of
               None \<Rightarrow> older prevTS
             | Some raw \<Rightarrow>
                 case DecodeMVCCValue raw of
                   Inl e \<Rightarrow> Failed (GoError e)
                 | Inr v \<Rightarrow> Value \<lparr>MKey = key, MTimestamp = metaTS\<rparr> (RawBytes v))
     else if sint (txnEpoch p) < sint (Epoch metaTxn)
     then Failed (GoError (Errorf ''failed to read with epoch %d due to a write intent with epoch %d''))
     else older prevTS)"

definition readMeta :: "'i Env \<Rightarrow> 'i pebbleMVCCScanner \<Rightarrow> MVCCKey \<Rightarrow> bytes \<Rightarrow> snapshot \<Rightarrow> key_read" where
  "readMeta env p k raw vs =
    (if length raw = 0 then Failed (GoError (Errorf ''zero-length mvcc metadata''))
     else case unmarshalMeta env raw of
       Inl e \<Rightarrow> Failed (GoError e)
     | Inr meta \<Rightarrow>
         if length (MetaRawBytes meta) \<noteq> 0 then Value k (MetaRawBytes meta)
         else case MetaTxn meta of
           None \<Rightarrow> Failed (GoError (Errorf ''intent without transaction''))
         | Some metaTxn \<Rightarrow>
             let metaTS = LegacyToTimestamp (MetaTimestamp meta) in
             case (if LessEq metaTS (readTS p) then Prev metaTS else Inr (readTS p)) of
               Inl e \<Rightarrow> Failed (GoError e)
             | Inr prevTS \<Rightarrow>
                 if (case scanTxn p of None \<Rightarrow> False | Some t \<Rightarrow> ID metaTxn = ID t)
                 then readOwn p meta metaTxn metaTS prevTS (MKey k) vs
                 else if LessEq metaTS (readTS p) then Intent (EncodeMVCCKey k) raw
                 else if checkUncertainty p then seekRead (readTS p) (uncertainty p) (GlobalLimit (uncertainty p)) True vs
                 else seekRead (readTS p) (uncertainty p) (readTS p) False vs)"

fun readKey :: "'i Env \<Rightarrow> 'i pebbleMVCCScanner \<Rightarrow> snapshot \<Rightarrow> key_read" where
  "readKey env p [] = Absent"
| "readKey env p ((k, raw) # vs) =
    (if IsValue k then readVersions (checkUncertainty p) (readTS p) (uncertainty p) ((k, raw) # vs)
     else readMeta env p k raw vs)"

text \<open>The fields a read depends on.\<close>

definition config :: "'i pebbleMVCCScanner \<Rightarrow> _" where
  "config p = (readTS p, uncertainty p, checkUncertainty p, scanTxn p, txnEpoch p, txnSequence p, txnIgnoredSeqNums p)"

lemma readKey_config:
  assumes "config p = config q"
  shows "readKey env p b = readKey env q b"
proof -
  have f: "readTS p = readTS q" "uncertainty p = uncertainty q" "checkUncertainty p = checkUncertainty q" "scanTxn p = scanTxn q"
    "txnEpoch p = txnEpoch q" "txnSequence p = txnSequence q" "txnIgnoredSeqNums p = txnIgnoredSeqNums q"
    using assms by (simp_all add: config_def)
  have h: "getFromIntentHistory (p\<lparr>scanMeta := m\<rparr>) = getFromIntentHistory (q\<lparr>scanMeta := m\<rparr>)" for m
    by (simp add: getFromIntentHistory_def f)
  have o: "readOwn p = readOwn q" by (intro ext) (unfold readOwn_def f h, rule refl)
  have "readMeta env p = readMeta env q" by (intro ext) (unfold readMeta_def f o, rule refl)
  then show ?thesis by (cases b; cases "hd b") (simp_all add: f del: readVersions.simps)
qed

lemma config_core: "config (core p) = config p"
  by (simp add: config_def)

lemma config_effect: "config (effect env r p) = config p"
  by (auto simp: effect_def config_def split: key_read.split scan_error.split)

text \<open>Reads that are decided on the first entry.\<close>

lemma reads_here:
  assumes "block es k n m" "at (parent p) n" "machineFn p = advanceKeyForward_fn"
    and "parent p' = parent p" "machineFn p' = machineFn p" "core p' = effect env r (core p)" "ok = goesOn r"
  shows "reads es at m env r p ((ok, b), p')"
proof -
  have "n < m" using assms(1) by (simp add: block_def)
  then have "ready es at m p'" by (rule ready_block [where at = at, OF assms(1) le_refl]) (use assms in simp_all)
  then show ?thesis by (rule readsI [OF assms(6,7)])
qed

lemma reads_fail:
  assumes "block es k n m" "at (parent p) n" "machineFn p = advanceKeyForward_fn"
    and "core p' = core p" "parent p' = parent p" "machineFn p' = machineFn p"
  shows "reads es at m env (Failed (GoError e)) p ((False, b), fail (GoError e) p')"
  by (rule reads_here [where at = at, OF assms(1-3)]) (use assms in \<open>simp_all add: fail_def effect_def\<close>)

lemma reads_add:
  assumes "block es k n m" "at (parent p) n" "machineFn p = advanceKeyForward_fn" "plain env p"
    and "core p' = core p" "parent p' = parent p" "machineFn p' = machineFn p"
  shows "reads es at m env (Value key raw) p (add env k0 (EncodeMVCCKey key) raw p')"
proof -
  obtain ok b p2 where a: "add env k0 (EncodeMVCCKey key) raw p' = ((ok, b), p2)" by (metis prod.exhaust)
  have "plain env p'" using plain_core [OF assms(5), of env] assms(4) by blast
  note c = core_add [OF this a]
  show ?thesis unfolding a
    by (rule reads_here [where at = at, OF assms(1-3)]) (use c assms(5-7) in simp_all)
qed

lemma reads_seek:
  assumes "iterates (iter env) es at" "block es k n m" "plain env p" "machineFn p = advanceKeyForward_fn"
    and "at (parent p) n" "MKey (curUnsafeKey p) = k" "length es + 2 \<le> fuel"
    and "\<not> IsValue (fst (es ! n)) \<or> \<not> LessEq (MTimestamp (fst (es ! n))) seekTS \<or>
      passes (readTS p) (uncertainty p) unc (es ! n)"
    and "core p' = core p" "parent p' = parent p" "machineFn p' = machineFn p" "curUnsafeKey p' = curUnsafeKey p"
  shows "\<exists>x. seekVersion fuel env seekTS unc p' = Some x \<and>
    reads es at m env (seekRead (readTS p) (uncertainty p) seekTS unc (slice es (Suc n) m)) p x"
proof -
  have pl: "plain env p'" and same: "readTS p' = readTS p" "uncertainty p' = uncertainty p"
    using plain_core [OF assms(9), of env] assms(3) core_readTS [OF assms(9)] by blast+
  have pos: "machineFn p' = advanceKeyForward_fn" "at (parent p') n" "MKey (curUnsafeKey p') = k" using assms by simp_all
  have "\<not> IsValue (fst (es ! n)) \<or> \<not> LessEq (MTimestamp (fst (es ! n))) seekTS \<or>
      passes (readTS p') (uncertainty p') unc (es ! n)" using assms(8) unfolding same .
  from seekVersion_eq [where at = at, OF assms(1,2) pl pos assms(7) this] show ?thesis
    unfolding same reads_core [OF assms(9)] .
qed

lemma getOneVersion_decoded:
  assumes "plain env p" "curUnsafeKey p = key" "curRawKey p = EncodeMVCCKey key" "curRawValue p = Inr raw" "DecodeMVCCValue raw = Inr v"
  shows "getOneVersion fuel env p =
    (let p1 = p\<lparr>curUnsafeValue := v, err := None\<rparr>; ts = MTimestamp key; localTS = GetLocalTimestamp v ts in
     if LessEq ts (readTS p) then Some (add env (MKey key) (EncodeMVCCKey key) (RawBytes v) p1)
     else if \<not> checkUncertainty p then seekVersion fuel env (readTS p) False p1
     else case IsUncertain (uncertainty p) ts localTS of
       Inl x \<Rightarrow> Some ((False, False), fail (GoError x) p1)
     | Inr True \<Rightarrow> Some ((False, False), uncertaintyError ts localTS p1)
     | Inr False \<Rightarrow> seekVersion fuel env (GlobalLimit (uncertainty p)) True p1)"
proof -
  let ?p = "p\<lparr>curUnsafeValue := v, err := None\<rparr>" and ?ts = "MTimestamp key"
  have d: "decodeCurrentValue p = (True, ?p)" using assms(4,5) by (simp add: decodeCurrentValue_def)
  have f: "\<not> failOnMoreRecent p" "readTS ?p = readTS p" "curUnsafeKey ?p = key" "curRawKey ?p = EncodeMVCCKey key" "curUnsafeValue ?p = v"
    "checkUncertainty ?p = checkUncertainty p" "uncertainty ?p = uncertainty p" "failOnMoreRecent ?p = failOnMoreRecent p"
    using assms(1-3) by (simp_all add: plain_def)
  note gov = getOneVersion_def [of fuel env p, unfolded assms(2) covered_plain [OF assms(1)] Let_def option.case d prod.case f(2-)]
  show ?thesis
  proof (cases "LessEq ?ts (readTS p)")
    case True
    then have "Less ?ts (readTS p) \<or> EqOrdering ?ts (readTS p)"
      by (auto simp: Less_def LessEq_def EqOrdering_def order_le_less sint_eq_iff)
    then show ?thesis using True f(1) unfolding gov Let_def by auto
  next
    case False
    then have "\<not> Less ?ts (readTS p)" "\<not> EqOrdering ?ts (readTS p)" by (auto simp: Less_def LessEq_def EqOrdering_def)
    then show ?thesis using False f(1) unfolding gov Let_def by simp
  qed
qed

lemma getOneVersion_eq:
  assumes "iterates (iter env) es at" "block es k n m" "plain env p" "machineFn p = advanceKeyForward_fn"
    and "on es at p n" "length es + 2 \<le> fuel"
  shows "\<exists>x. getOneVersion fuel env p = Some x \<and>
    reads es at m env (readVersions (checkUncertainty p) (readTS p) (uncertainty p) (slice es n m)) p x"
proof -
  obtain key raw where e: "es ! n = (key, raw)" by fastforce
  have at: "at (parent p) n" and cur: "curUnsafeKey p = key" "curRawKey p = EncodeMVCCKey key" "curRawValue p = Inr raw"
    using assms(5) e by (simp_all add: on_def)
  have n: "n < m" "m \<le> length es" and key: "MKey key = k" using assms(2) e by (auto simp: block_def)
  have sl: "slice es n m = (key, raw) # slice es (Suc n) m" using slice_Cons [OF n] e by simp
  let ?ts = "MTimestamp key" and ?vs = "slice es (Suc n) m"
  note here = assms(2) at assms(4)
  show ?thesis
  proof (cases "DecodeMVCCValue raw")
    case (Inl x)
    then have "getOneVersion fuel env p = Some ((False, False), fail (GoError x) p)"
      using cur covered_plain [OF assms(3)] by (simp add: getOneVersion_def decodeCurrentValue_def)
    moreover have "reads es at m env (Failed (GoError x)) p ((False, False), fail (GoError x) p)"
      by (rule reads_fail [where at = at, OF here refl refl refl])
    ultimately show ?thesis using Inl sl by simp
  next
    case (Inr v)
    let ?p = "p\<lparr>curUnsafeValue := v, err := None\<rparr>" and ?l = "GetLocalTimestamp v ?ts"
    let ?u = "IsUncertain (uncertainty p) ?ts ?l"
    have c: "core ?p = core p" "parent ?p = parent p" "machineFn ?p = machineFn p" "curUnsafeKey ?p = curUnsafeKey p"
      using assms(3) by (simp_all add: core_err_None plain_def)
    note go = getOneVersion_decoded [OF assms(3) cur Inr, of fuel, unfolded Let_def]
    have k: "MKey (curUnsafeKey p) = k" using cur key by simp
    note seek = reads_seek [OF assms(1-4) at k assms(6) _ c]
    have "(\<exists>x. ?u = Inl x) \<or> ?u = Inr True \<or> ?u = Inr False" by (cases ?u) auto
    then consider (old) "LessEq ?ts (readTS p)" | (noCheck) "\<not> LessEq ?ts (readTS p)" "\<not> checkUncertainty p"
      | (bad) x where "\<not> LessEq ?ts (readTS p)" "checkUncertainty p" "?u = Inl x"
      | (uncertain) "\<not> LessEq ?ts (readTS p)" "checkUncertainty p" "?u = Inr True"
      | (pass) "\<not> LessEq ?ts (readTS p)" "checkUncertainty p" "?u = Inr False" by blast
    then show ?thesis
    proof cases
      case old
      then show ?thesis using reads_add [where at = at, OF here assms(3) c(1-3), of key "RawBytes v" "MKey key"] Inr sl
        unfolding go by simp
    next
      case noCheck
      then show ?thesis using seek [of "readTS p" False] Inr sl e unfolding go by simp
    next
      case bad
      then show ?thesis using reads_fail [where at = at, OF here c(1-3)] Inr sl unfolding go by simp
    next
      case uncertain
      have "reads es at m env (Failed (ReadWithinUncertaintyIntervalError (readTS p) (LocalLimit (uncertainty p)) ?ts ?l)) p
          ((False, False), uncertaintyError ?ts ?l ?p)"
        by (rule reads_here [where at = at, OF here]) (simp_all add: uncertaintyError_def fail_def effect_def)
      then show ?thesis using uncertain Inr sl unfolding go by (simp add: Let_def)
    next
      case pass
      then have "passes (readTS p) (uncertainty p) True (es ! n)" using Inr e by (simp add: passes_def)
      then show ?thesis using seek [of "GlobalLimit (uncertainty p)" True] pass Inr sl unfolding go by simp
    qed
  qed
qed

text \<open>A scanner at the first entry of a key that is metadata.\<close>

definition onMeta :: "snapshot \<Rightarrow> ('i \<Rightarrow> nat \<Rightarrow> bool) \<Rightarrow> 'i Env \<Rightarrow> nat \<Rightarrow> nat \<Rightarrow> nat \<Rightarrow> 'i pebbleMVCCScanner \<Rightarrow> bool" where
  "onMeta es at env fuel n m p \<longleftrightarrow> iterates (iter env) es at \<and> block es (MKey (fst (es ! n))) n m \<and> plain env p \<and>
     machineFn p = advanceKeyForward_fn \<and> on es at p n \<and> length es + 2 \<le> fuel \<and> \<not> IsValue (fst (es ! n))"

lemma onMeta_seek:
  assumes "onMeta es at env fuel n m p"
  shows "\<exists>x. seekVersion fuel env ts unc (p\<lparr>scanMeta := meta\<rparr>) = Some x \<and>
    reads es at m env (seekRead (readTS p) (uncertainty p) ts unc (slice es (Suc n) m)) p x"
  by (rule reads_seek [where at = at]) (use assms in \<open>auto simp: onMeta_def on_def\<close>)

lemma onMeta_fail:
  assumes "onMeta es at env fuel n m p" "core p' = core p" "parent p' = parent p" "machineFn p' = machineFn p"
  shows "reads es at m env (Failed (GoError e)) p ((False, b), fail (GoError e) p')"
  by (rule reads_fail [where at = at]) (use assms in \<open>auto simp: onMeta_def on_def\<close>)

lemma onMeta_add:
  assumes "onMeta es at env fuel n m p" "core p' = core p" "parent p' = parent p" "machineFn p' = machineFn p"
  shows "reads es at m env (Value key raw) p (add env k0 (EncodeMVCCKey key) raw p')"
  by (rule reads_add [where at = at]) (use assms in \<open>auto simp: onMeta_def on_def\<close>)

lemma ownIntent_eq:
  assumes "onMeta es at env fuel n m p"
  shows "\<exists>x. ownIntent fuel env metaTxn metaTS prevTS (p\<lparr>scanMeta := meta\<rparr>) = Some x \<and>
    reads es at m env (readOwn p meta metaTxn metaTS prevTS (MKey (fst (es ! n))) (slice es (Suc n) m)) p x"
proof -
  let ?p = "p\<lparr>scanMeta := meta\<rparr>"
  have cur: "curUnsafeKey p = fst (es ! n)" "err p = None" using assms by (auto simp: onMeta_def on_def plain_def)
  have f: "txnEpoch ?p = txnEpoch p" "txnSequence ?p = txnSequence p" "txnIgnoredSeqNums ?p = txnIgnoredSeqNums p" by simp_all
  note s = ownIntent_def readOwn_def f Let_def
  consider (new) "txnEpoch p = Epoch metaTxn" "sint (Sequence metaTxn) \<le> sint (txnSequence p)"
      "\<not> TxnSeqIsIgnored (Sequence metaTxn) (txnIgnoredSeqNums p)"
    | (hist) "txnEpoch p = Epoch metaTxn" "\<not> (sint (Sequence metaTxn) \<le> sint (txnSequence p) \<and>
      \<not> TxnSeqIsIgnored (Sequence metaTxn) (txnIgnoredSeqNums p))"
    | (epoch) "txnEpoch p \<noteq> Epoch metaTxn" by blast
  then show ?thesis
  proof cases
    case new
    then show ?thesis using onMeta_seek [OF assms] unfolding s by simp
  next
    case epoch
    show ?thesis
    proof (cases "sint (txnEpoch p) < sint (Epoch metaTxn)")
      case True
      have "reads es at m env (Failed (GoError e)) p ((False, False), fail (GoError e) ?p)" for e
        by (rule onMeta_fail [OF assms]) simp_all
      then show ?thesis unfolding s if_not_P [OF epoch] if_P [OF True] by blast
    next
      case False
      then show ?thesis using onMeta_seek [OF assms, of prevTS False meta] unfolding s if_not_P [OF epoch] by simp
    qed
  next
    case hist
    show ?thesis
    proof (cases "getFromIntentHistory ?p")
      case None
      then show ?thesis using hist onMeta_seek [OF assms, of prevTS False meta] unfolding s if_P [OF hist(1)] if_not_P [OF hist(2)] by simp
    next
      case (Some raw)
      let ?k = "\<lparr>MKey = MKey (fst (es ! n)), MTimestamp = metaTS\<rparr>"
      let ?p1 = "?p\<lparr>curUnsafeKey := (curUnsafeKey ?p)\<lparr>MTimestamp := metaTS\<rparr>\<rparr>"
      have k: "(fst (es ! n))\<lparr>MTimestamp := metaTS\<rparr> = ?k" by simp
      note h = if_P [OF hist(1)] if_not_P [OF hist(2)] Some option.case
      show ?thesis
      proof (cases "DecodeMVCCValue raw")
        case (Inl e)
        have "reads es at m env (Failed (GoError e)) p ((False, False), fail (GoError e) ?p1)"
          by (rule onMeta_fail [OF assms]) simp_all
        then show ?thesis unfolding s h Inl sum.case by blast
      next
        case (Inr v)
        have "reads es at m env (Value ?k (RawBytes v)) p
            (add env (MKey ?k) (EncodeMVCCKey ?k) (RawBytes v) (?p1\<lparr>curUnsafeValue := v, err := None\<rparr>))"
          by (rule onMeta_add [OF assms]) (simp_all add: core_err_None cur)
        then show ?thesis unfolding s h Inr sum.case by (simp add: cur k)
      qed
    qed
  qed
qed

lemma otherIntent_eq:
  assumes "onMeta es at env fuel n m p"
  shows "\<exists>x. otherIntent fuel env metaTS prevTS (p\<lparr>scanMeta := meta\<rparr>) = Some x \<and>
    reads es at m env
      (if LessEq metaTS (readTS p) then Intent (EncodeMVCCKey (fst (es ! n))) (snd (es ! n))
       else if checkUncertainty p then seekRead (readTS p) (uncertainty p) (GlobalLimit (uncertainty p)) True (slice es (Suc n) m)
       else seekRead (readTS p) (uncertainty p) (readTS p) False (slice es (Suc n) m)) p x"
proof (cases "LessEq metaTS (readTS p)")
  case True
  let ?p = "p\<lparr>scanMeta := meta\<rparr>"
  let ?p1 = "?p\<lparr>err := None, intents := intents p @ [(EncodeMVCCKey (fst (es ! n)), snd (es ! n))]\<rparr>"
  have p: "\<not> inconsistent p" "\<not> skipLocked p" "maxIntents p = 0" "err p = None" "\<forall>n. Grow env n = Inr ()"
    "curRawKey p = EncodeMVCCKey (fst (es ! n))" "curRawValue p = Inr (snd (es ! n))"
    using assms by (auto simp: onMeta_def on_def plain_def)
  have "addCurIntent env ?p = (True, ?p1)" using p by (simp add: addCurIntent_def addRawIntent_def)
  then have "otherIntent fuel env metaTS prevTS ?p = Some ((True, False), ?p1)"
    using True p by (simp add: otherIntent_def)
  moreover have "reads es at m env (Intent (EncodeMVCCKey (fst (es ! n))) (snd (es ! n))) p ((True, False), ?p1)"
    by (rule reads_here [where at = at]) (use assms p in \<open>auto simp: onMeta_def on_def effect_def core_err_None\<close>)
  ultimately show ?thesis using True by simp
next
  case False
  then show ?thesis using onMeta_seek [OF assms] assms unfolding otherIntent_def by (simp add: onMeta_def plain_def)
qed

lemma getOneIntent_eq:
  assumes "onMeta es at env fuel n m p"
  shows "\<exists>x. getOneIntent fuel env p = Some x \<and>
    reads es at m env (readMeta env p (fst (es ! n)) (snd (es ! n)) (slice es (Suc n) m)) p x"
proof -
  let ?raw = "snd (es ! n)" and ?k = "fst (es ! n)"
  have cur: "curUnsafeKey p = ?k" "curRawKey p = EncodeMVCCKey ?k" "curRawValue p = Inr ?raw"
    using assms by (auto simp: onMeta_def on_def)
  note dm = decodeCurrentMetadata_def [of env p, unfolded cur sum.case]
  show ?thesis
  proof (cases "length ?raw = 0 \<or> (\<exists>e. unmarshalMeta env ?raw = Inl e)")
    case True
    have "\<exists>e. decodeCurrentMetadata env p = (False, fail (GoError e) p) \<and>
        readMeta env p ?k ?raw (slice es (Suc n) m) = Failed (GoError e)"
      using True by (cases "length ?raw = 0") (auto simp: dm readMeta_def)
    then obtain e where "decodeCurrentMetadata env p = (False, fail (GoError e) p)"
      "readMeta env p ?k ?raw (slice es (Suc n) m) = Failed (GoError e)" by blast
    then show ?thesis using onMeta_fail [OF assms refl refl refl, of e False] unfolding getOneIntent_def by simp
  next
    case False
    then obtain meta where m: "unmarshalMeta env ?raw = Inr meta" "length ?raw \<noteq> 0" by (metis sum.exhaust)
    let ?p = "p\<lparr>scanMeta := meta\<rparr>" and ?ts = "LegacyToTimestamp (MetaTimestamp meta)"
    have d: "decodeCurrentMetadata env p = (True, ?p)" using m unfolding dm by simp
    have f: "scanMeta ?p = meta" "curUnsafeKey ?p = ?k" "curRawKey ?p = EncodeMVCCKey ?k" "readTS ?p = readTS p"
      "scanTxn ?p = scanTxn p" using cur by simp_all
    note go = getOneIntent_def [of fuel env p, unfolded d Let_def prod.case f]
      and rm = readMeta_def [of env p ?k ?raw, unfolded if_not_P [OF m(2)] m(1) sum.case Let_def]
    have fl: "reads es at m env (Failed (GoError e)) p ((False, False), fail (GoError e) ?p)" for e
      by (rule onMeta_fail [OF assms]) simp_all
    show ?thesis
    proof (cases "length (MetaRawBytes meta) \<noteq> 0")
      case True
      then show ?thesis using onMeta_add [OF assms, of ?p ?k] unfolding go rm by simp
    next
      case inl: False
      show ?thesis
      proof (cases "MetaTxn meta")
        case None
        show ?thesis using fl unfolding go rm if_not_P [OF inl] None option.case by simp
      next
        case (Some metaTxn)
        note g = go [unfolded if_not_P [OF inl] Some option.case] rm [unfolded if_not_P [OF inl] Some option.case]
        show ?thesis
        proof (cases "if LessEq ?ts (readTS p) then Prev ?ts else Inr (readTS p)")
          case (Inl e)
          show ?thesis using fl [of e] unfolding g Inl sum.case by simp
        next
          case (Inr prevTS)
          show ?thesis
            using ownIntent_eq [OF assms, of metaTxn ?ts prevTS meta] otherIntent_eq [OF assms, of ?ts prevTS meta]
            unfolding g Inr sum.case by (cases "case scanTxn p of None \<Rightarrow> False | Some t \<Rightarrow> ID metaTxn = ID t") simp_all
        qed
      qed
    qed
  qed
qed

lemma getOne_eq:
  assumes "iterates (iter env) es at" "block es k n m" "plain env p" "machineFn p = advanceKeyForward_fn"
    and "on es at p n" "length es + 2 \<le> fuel"
  shows "\<exists>x. getOne fuel env p = Some x \<and> reads es at m env (readKey env p (slice es n m)) p x"
proof -
  have n: "n < m" "m \<le> length es" "MKey (fst (es ! n)) = k" using assms(2) by (simp_all add: block_def)
  have sl: "slice es n m = (fst (es ! n), snd (es ! n)) # slice es (Suc n) m" using slice_Cons [OF n(1,2)] by simp
  have cur: "curUnsafeKey p = fst (es ! n)" using assms(5) by (simp add: on_def)
  have rk: "readKey env p (slice es n m) =
      (if IsValue (fst (es ! n)) then readVersions (checkUncertainty p) (readTS p) (uncertainty p) (slice es n m)
       else readMeta env p (fst (es ! n)) (snd (es ! n)) (slice es (Suc n) m))" unfolding sl by (rule readKey.simps(2))
  show ?thesis
  proof (cases "IsValue (fst (es ! n))")
    case True
    then show ?thesis using getOneVersion_eq [OF assms] cur unfolding rk by (simp add: getOne_def IsValue_def)
  next
    case False
    then have "onMeta es at env fuel n m p" using assms n(3) by (simp add: onMeta_def)
    from getOneIntent_eq [OF this] show ?thesis using False cur unfolding rk by (simp add: getOne_def IsValue_def)
  qed
qed

subsection \<open>Scanning\<close>

text \<open>The whole scan: the pairs and the intents it returns, or its error.\<close>

type_synonym scan_read = "scan_error + (bytes \<times> bytes) list \<times> (bytes \<times> bytes) list"

definition answer :: "key_read \<Rightarrow> scan_read \<Rightarrow> scan_read" where
  "answer r rest =
    (case r of
       Failed e \<Rightarrow> Inl e
     | Absent \<Rightarrow> rest
     | Value k raw \<Rightarrow> map_sum (\<lambda>e. e) (apfst ((@) (if raw = [] then [] else [(EncodeMVCCKey k, raw)]))) rest
     | Intent rk rv \<Rightarrow> map_sum (\<lambda>e. e) (apsnd ((#) (rk, rv))) rest)"

function readKeys :: "'i Env \<Rightarrow> 'i pebbleMVCCScanner \<Rightarrow> snapshot \<Rightarrow> scan_read" where
  "readKeys env p [] = Inr ([], [])"
| "readKeys env p (e # es) =
    (let same = (\<lambda>e'. MKey (fst e') = MKey (fst e)) in
     answer (readKey env p (e # takeWhile same es)) (readKeys env p (dropWhile same es)))"
  by pat_completeness auto

termination
  by (relation "measure (\<lambda>(_, _, es). length es)") (auto simp: length_dropWhile_le le_imp_less_Suc)

definition answered :: "'i Env \<Rightarrow> (bytes \<times> bytes) list \<Rightarrow> (bytes \<times> bytes) list \<Rightarrow> scan_read \<Rightarrow> 'i pebbleMVCCScanner \<Rightarrow> bool" where
  "answered env kvs ints r p \<longleftrightarrow>
    (case r of
       Inl e \<Rightarrow> err p = Some e
     | Inr (kvs', ints') \<Rightarrow> plain env p \<and> holds (results p) (kvs @ kvs') \<and> intents p = ints @ ints')"

lemma readKeys_config:
  assumes "config p = config q"
  shows "readKeys env p es = readKeys env q es"
proof (induction "length es" arbitrary: es rule: less_induct)
  case less
  show ?case
  proof (cases es)
    case (Cons e vs)
    let ?rest = "dropWhile (\<lambda>e'. MKey (fst e') = MKey (fst e)) vs"
    have "readKeys env p ?rest = readKeys env q ?rest"
      by (rule less) (simp add: Cons length_dropWhile_le le_imp_less_Suc)
    then show ?thesis unfolding Cons readKeys.simps Let_def readKey_config [OF assms] by (rule arg_cong)
  qed simp
qed

lemma stored_block:
  assumes "stored es" "n < length es" "\<And>j. j < n \<Longrightarrow> MKey (fst (es ! j)) < MKey (fst (es ! n))"
  shows "block es (MKey (fst (es ! n))) n (nextKeyIdx es n)"
proof -
  let ?k = "MKey (fst (es ! n))" and ?P = "\<lambda>e. MKey (fst e) = MKey (fst (es ! n))"
  let ?l = "length (takeWhile ?P (drop n es))"
  have m: "nextKeyIdx es n = n + ?l" by (simp add: nextKeyIdx_def)
  have le: "n + ?l \<le> length es" using length_takeWhile_le [of ?P "drop n es"] assms(2) by simp
  have in_block: "MKey (fst (es ! j)) = ?k" if "n \<le> j" "j < n + ?l" for j
  proof -
    have "j - n < ?l" using that by simp
    then have "?P (drop n es ! (j - n))" by (rule nth_takeWhile_P)
    then show ?thesis using that assms(2) by simp
  qed
  have pos: "0 < ?l" unfolding Cons_nth_drop_Suc [OF assms(2), symmetric] by simp
  have stop: "MKey (fst (es ! (n + ?l))) \<noteq> ?k" if "n + ?l < length es"
    using nth_length_takeWhile [of ?P "drop n es"] that by simp
  have mono: "MKey (fst (es ! i)) \<le> MKey (fst (es ! j))" if "i \<le> j" "j < length es" for i j
  proof (cases "i = j")
    case False
    then have "MVCCKeyLess (fst (es ! i)) (fst (es ! j))" using stored_less [OF assms(1)] that by simp
    then show ?thesis unfolding MVCCKeyLess_iff by (metis order.strict_implies_order order_refl)
  qed simp
  have "?k < MKey (fst (es ! j))" if "n + ?l \<le> j" "j < length es" for j
  proof -
    have "n + ?l < length es" using that by simp
    then have "?k < MKey (fst (es ! (n + ?l)))" using mono [of n "n + ?l"] stop by (metis le_add1 order_le_imp_less_or_eq)
    also have "\<dots> \<le> MKey (fst (es ! j))" by (rule mono [OF that])
    finally show ?thesis .
  qed
  then show ?thesis unfolding block_def m using assms(1,3) le in_block pos
    by (intro conjI allI impI) (assumption | linarith | blast)+
qed

lemma block_span:
  assumes "block es k n m"
  defines "same \<equiv> \<lambda>e. MKey (fst e) = MKey (fst (es ! n))"
  shows "drop n es = es ! n # drop (Suc n) es" "es ! n # takeWhile same (drop (Suc n) es) = slice es n m"
    "dropWhile same (drop (Suc n) es) = drop m es"
proof -
  have n: "n < m" "m \<le> length es" using assms(1) by (simp_all add: block_def)
  show d: "drop n es = es ! n # drop (Suc n) es" using n by (simp add: Cons_nth_drop_Suc)
  have len: "length (takeWhile same (drop (Suc n) es)) = m - Suc n"
    by (rule length_takeWhile_eqI) (use assms(1) n in \<open>auto simp: block_def same_def\<close>)
  show "es ! n # takeWhile same (drop (Suc n) es) = slice es n m"
    unfolding slice_Cons [OF n] unfolding slice_def using takeWhile_eq_take [of same "drop (Suc n) es"] unfolding len
    by (simp only: drop_take)
  show "dropWhile same (drop (Suc n) es) = drop m es"
    using dropWhile_eq_drop [of same "drop (Suc n) es"] n unfolding len by (simp only: drop_drop le_add_diff_inverse2 Suc_leI)
qed

lemma plain_effect:
  assumes "core p' = effect env r (core p)" "plain env p" "goesOn r"
  shows "plain env p'" "readKeys env p' es = readKeys env p es"
proof -
  let ?c = "effect env r (core p)"
  have pc: "plain env (core p)" using plain_core [of "core p" p env] assms(2) by simp
  then have g: "\<forall>n. Grow env n = Inr ()" "\<not> lastOffsetsEnabled (results (core p))" by (simp_all add: plain_def)
  have "plain env ?c" using pc assms(3) put_plain(2) [OF g]
    by (cases r) (auto simp: effect_def plain_def goesOn_def)
  moreover have "core p' = core ?c" using assms(1) by (metis core_updates(14))
  ultimately show "plain env p'" using plain_core by blast
  have "config p' = config p" using config_core [of p'] config_core [of p] config_effect [of env r "core p"] assms(1) by simp
  then show "readKeys env p' es = readKeys env p es" by (rule readKeys_config)
qed

lemma answered_answer:
  assumes "goesOn r"
    and "answered env (kvs @ (case r of Value k raw \<Rightarrow> if raw = [] then [] else [(EncodeMVCCKey k, raw)] | _ \<Rightarrow> []))
      (ints @ (case r of Intent rk rv \<Rightarrow> [(rk, rv)] | _ \<Rightarrow> [])) rest p"
  shows "answered env kvs ints (answer r rest) p"
  using assms by (cases r; cases rest) (auto simp: answered_def answer_def)

lemma results_effect:
  assumes "core p' = effect env r (core p)" "plain env p" "goesOn r" "holds (results p) kvs" "intents p = ints"
  shows "holds (results p') (kvs @ (case r of Value k raw \<Rightarrow> if raw = [] then [] else [(EncodeMVCCKey k, raw)] | _ \<Rightarrow> []))"
    "intents p' = ints @ (case r of Intent rk rv \<Rightarrow> [(rk, rv)] | _ \<Rightarrow> [])"
proof -
  have g: "\<forall>n. Grow env n = Inr ()" "\<not> lastOffsetsEnabled (results p)" using assms(2) by (simp_all add: plain_def)
  have e: "results p' = results (effect env r (core p))" "intents p' = intents (effect env r (core p))"
    using assms(1) core_fields(4,5) [of p'] by simp_all
  show "holds (results p') (kvs @ (case r of Value k raw \<Rightarrow> if raw = [] then [] else [(EncodeMVCCKey k, raw)] | _ \<Rightarrow> []))"
    unfolding e using assms(3,4) holds_put [OF assms(4) put_plain(1) [OF g]]
    by (cases r) (auto simp: effect_def goesOn_def)
  show "intents p' = ints @ (case r of Intent rk rv \<Rightarrow> [(rk, rv)] | _ \<Rightarrow> [])"
    unfolding e using assms(3,5) by (cases r) (auto simp: effect_def goesOn_def)
qed

lemma advance_eq:
  assumes "iterates (iter env) es at" "plain env p" "ready es at m p"
  shows "m < length es \<Longrightarrow> \<exists>p'. advance (Suc g) env p = Some (True, p') \<and> core p' = core p \<and>
      machineFn p' = advanceKeyForward_fn \<and> on es at p' m"
    "\<not> m < length es \<Longrightarrow> \<exists>p'. advance (Suc g) env p = Some (False, p') \<and> core p' = core p"
proof -
  consider (fwd) j where "machineFn p = advanceKeyForward_fn" "j < length es" "at (parent p) j" "nextKeyIdx es j = m"
    | (new) "machineFn p = advanceKeyAtNewKeyForward_fn" "on es at p m"
    | (fin) "machineFn p = advanceKeyAtEndForward_fn" "m = length es" using assms(3) unfolding ready_def by blast
  note c = this
  have at: "at (iNextKey (iter env) (parent p)) (nextKeyIdx es j)" if "j < length es" "at (parent p) j" for j
    using assms(1) that by (simp add: iterates_def)
  note nk = nextKey_eq [OF assms(1) _ _ plain_forward [OF assms(2)], of _ g]
  show "\<exists>p'. advance (Suc g) env p = Some (True, p') \<and> core p' = core p \<and> machineFn p' = advanceKeyForward_fn \<and> on es at p' m"
    if m: "m < length es"
  proof (cases rule: c)
    case (fwd j)
    then show ?thesis using nk [of j] at [of j] m goto_on [of at _ m es p]
      by (auto simp: advance_def advanceKeyForward_def)
  next
    case new
    then show ?thesis by (auto simp: advance_def on_def)
  next
    case fin
    then show ?thesis using m by simp
  qed
  show "\<exists>p'. advance (Suc g) env p = Some (False, p') \<and> core p' = core p" if m: "\<not> m < length es"
  proof (cases rule: c)
    case (fwd j)
    then show ?thesis using nk [of j] m by (auto simp: advance_def advanceKeyForward_def)
  next
    case new
    then show ?thesis using m by (simp add: on_def)
  next
    case fin
    then show ?thesis by (auto simp: advance_def)
  qed
qed

lemma block_succ:
  assumes "block es k n m" "m < length es"
  shows "block es (MKey (fst (es ! m))) m (nextKeyIdx es m)"
proof (rule stored_block)
  show "stored es" "m < length es" using assms by (simp_all add: block_def)
  have km: "k < MKey (fst (es ! m))" using assms by (simp add: block_def)
  show "MKey (fst (es ! j)) < MKey (fst (es ! m))" if "j < m" for j
  proof (cases "j < n")
    case True
    then have "MKey (fst (es ! j)) < k" using assms(1) by (simp add: block_def)
    then show ?thesis using km by (rule less_trans)
  next
    case False
    then show ?thesis using assms(1) that km by (simp add: block_def)
  qed
qed

lemma core_same:
  assumes "core p = core q"
  shows "results p = results q \<and> intents p = intents q \<and> config p = config q \<and> err p = err q"
  using core_fields(4,5,6) config_core assms by metis

lemma scanLoop_eq:
  assumes "iterates (iter env) es at" "block es k n m" "plain env p" "machineFn p = advanceKeyForward_fn" "on es at p n"
    and "holds (results p) kvs" "intents p = ints" "2 * length es - n + 3 \<le> fuel"
  shows "\<exists>p'. scanLoop fuel env p = Some p' \<and> answered env kvs ints (readKeys env p (drop n es)) p'"
  using assms(2-)
proof (induction fuel arbitrary: p n m k kvs ints)
  case (Suc fuel)
  note b = Suc.prems(1) and plain = Suc.prems(2)
  have n: "n < m" "m \<le> length es" using b by (simp_all add: block_def)
  let ?r = "readKey env p (slice es n m)"
  have rk: "readKeys env p (drop n es) = answer ?r (readKeys env p (drop m es))"
    using block_span [OF b] by (simp add: Let_def)
  have f: "length es + 2 \<le> fuel" using Suc.prems(7) n by linarith
  obtain ok bb p1 where g: "getOne fuel env p = Some ((ok, bb), p1)" "reads es at m env ?r p ((ok, bb), p1)"
    using getOne_eq [OF assms(1) Suc.prems(1-4) f] by (metis prod.exhaust)
  then have c: "core p1 = effect env ?r (core p)" "ok = goesOn ?r" "goesOn ?r \<Longrightarrow> ready es at m p1" by (simp_all add: reads_def)
  show ?case
  proof (cases "goesOn ?r")
    case False
    then obtain e where e: "?r = Failed e" by (auto simp: goesOn_def)
    have "err p1 = Some e" using c(1) core_fields(6) [of p1] unfolding e by (cases e) (simp_all add: effect_def)
    then show ?thesis using g(1) c(2) False rk e by (simp add: answered_def answer_def)
  next
    case True
    note pe = plain_effect [OF c(1) plain True] and re = results_effect [OF c(1) plain True Suc.prems(5,6)]
    obtain h where h: "fuel = Suc h" using f by (cases fuel) auto
    note adv = advance_eq [OF assms(1) pe(1) c(3) [OF True], of h, folded h]
    let ?kvs = "kvs @ (case ?r of Value k raw \<Rightarrow> if raw = [] then [] else [(EncodeMVCCKey k, raw)] | _ \<Rightarrow> [])"
    let ?ints = "ints @ (case ?r of Intent rk rv \<Rightarrow> [(rk, rv)] | _ \<Rightarrow> [])"
    have loop: "scanLoop (Suc fuel) env p = (if a then scanLoop fuel env p2 else Some p2)"
      if "advance fuel env p1 = Some (a, p2)" for a p2 using g(1) c(2) True that by simp
    have "\<exists>p'. scanLoop (Suc fuel) env p = Some p' \<and> answered env ?kvs ?ints (readKeys env p (drop m es)) p'"
    proof (cases "m < length es")
      case m: True
      obtain p2 where p2: "advance fuel env p1 = Some (True, p2)" "core p2 = core p1" "machineFn p2 = advanceKeyForward_fn" "on es at p2 m"
        using adv(1) [OF m] by blast
      note b2 = block_succ [OF b m]
      have s2: "results p2 = results p1" "intents p2 = intents p1" "plain env p2"
        using core_same [OF p2(2)] plain_core [OF p2(2), of env] pe(1) by blast+
      have rk2: "readKeys env p2 (drop m es) = readKeys env p (drop m es)"
        using trans [OF readKeys_config pe(2)] core_same [OF p2(2)] by blast
      have "2 * length es - m + 3 \<le> fuel" using Suc.prems(7) n by linarith
      then show ?thesis
        using Suc.IH [OF b2 s2(3) p2(3,4), of ?kvs ?ints] re unfolding s2 rk2
        unfolding loop [OF p2(1)] by simp
    next
      case False
      then obtain p2 where p2: "advance fuel env p1 = Some (False, p2)" "core p2 = core p1" using adv(2) by blast
      have s2: "results p2 = results p1" "intents p2 = intents p1" "plain env p2"
        using core_same [OF p2(2)] plain_core [OF p2(2), of env] pe(1) by blast+
      then have "answered env ?kvs ?ints (readKeys env p (drop m es)) p2" using False re by (simp add: answered_def)
      then show ?thesis unfolding loop [OF p2(1)] by simp
    qed
    then show ?thesis unfolding rk using answered_answer [OF True] by blast
  qed
qed simp

lemma MVCCKeyLess_meta: "MVCCKeyLess a \<lparr>MKey = k, MTimestamp = emptyTimestamp\<rparr> \<longleftrightarrow> MKey a < k"
  by (simp add: MVCCKeyLess_iff IsValue_def IsEmpty_eq)

lemma seekStart_eq:
  assumes "iterates (iter env) es at" "stored es" "at (parent p) i" "plain env p"
  defines "q \<equiv> seekIdx es \<lparr>MKey = startKey p, MTimestamp = emptyTimestamp\<rparr>"
  shows "dropWhile (\<lambda>e. MKey (fst e) < startKey p) es = drop q es"
    "q < length es \<Longrightarrow> block es (MKey (fst (es ! q))) q (nextKeyIdx es q)"
    "q < length es \<Longrightarrow> \<exists>p'. seekToStartOfScan (Suc g) env p = Some (True, p') \<and> core p' = core p \<and>
      machineFn p' = advanceKeyForward_fn \<and> on es at p' q"
    "\<not> q < length es \<Longrightarrow> \<exists>p'. seekToStartOfScan (Suc g) env p = Some (False, p') \<and> core p' = core p"
proof -
  let ?k = "\<lparr>MKey = startKey p, MTimestamp = emptyTimestamp\<rparr>"
  have q: "q = length (takeWhile (\<lambda>e. MKey (fst e) < startKey p) es)" by (simp add: q_def seekIdx_def MVCCKeyLess_meta)
  show "dropWhile (\<lambda>e. MKey (fst e) < startKey p) es = drop q es" unfolding q by (rule dropWhile_eq_drop)
  show "block es (MKey (fst (es ! q))) q (nextKeyIdx es q)" if "q < length es"
  proof (rule stored_block [OF assms(2) that])
    fix j
    assume "j < q"
    then have "MKey (fst (es ! j)) < startKey p" unfolding q by (rule nth_takeWhile_P)
    also have "\<not> MKey (fst (es ! q)) < startKey p" using nth_length_takeWhile that unfolding q by blast
    then have "startKey p \<le> MKey (fst (es ! q))" by simp
    finally show "MKey (fst (es ! j)) < MKey (fst (es ! q))" .
  qed
  have p: "\<not> reverse p" "forwardScan p" "err p = None" "IsEmpty (mostRecentTS p)" using assms(4) by (simp_all add: plain_def forwardScan_def)
  note seek = iterSeek_eq [OF assms(1,3) p(2), of g ?k, folded q_def]
  have at': "at (iSeekGE (iter env) ?k (parent p)) q" using assms(1,3) unfolding iterates_def q_def by blast
  show "\<exists>p'. seekToStartOfScan (Suc g) env p = Some (True, p') \<and> core p' = core p \<and>
      machineFn p' = advanceKeyForward_fn \<and> on es at p' q" if "q < length es"
    using that seek p(1) at' by (auto simp: seekToStartOfScan_def on_def)
  show "\<exists>p'. seekToStartOfScan (Suc g) env p = Some (False, p') \<and> core p' = core p" if "\<not> q < length es"
    using that seek p by (auto simp: seekToStartOfScan_def maybeFailOnMoreRecent_def)
qed

lemma afterScan_eq:
  assumes "answered env kvs ints r p"
  shows "afterScan fuel env p = Some (case r of Inl e \<Rightarrow> Inl e | Inr _ \<Rightarrow> Inr (None, RESUME_UNKNOWN, 0), p)"
  using assms by (cases r) (auto simp: answered_def afterScan_def maybeFailOnMoreRecent_def plain_def)

text \<open>A scanner as a request sets it up for an unlimited consistent forward scan.\<close>

definition fresh :: "'i Env \<Rightarrow> 'i pebbleMVCCScanner \<Rightarrow> bool" where
  "fresh env p \<longleftrightarrow> plain env p \<and> \<not> wholeRows p \<and> results p = noResults \<and> intents p = []"

lemma holds_noResults: "holds noResults []"
  unfolding holds_def by (intro exI [of _ "[]"]) (simp add: packed_def noResults_def)

lemma scan_eq:
  assumes "iterates (iter env) es at" "stored es" "at (parent p) i" "fresh env p" "2 * length es + 4 \<le> fuel"
  defines "r \<equiv> readKeys env p (dropWhile (\<lambda>e. MKey (fst e) < startKey p) es)"
  shows "\<exists>p'. scan fuel env p = Some (case r of Inl e \<Rightarrow> Inl e | Inr _ \<Rightarrow> Inr (None, RESUME_UNKNOWN, 0), p') \<and> answered env [] [] r p'"
proof -
  have plain: "plain env p" and nw: "\<not> wholeRows p" and h: "holds (results p) []" "intents p = []"
    using assms(4) holds_noResults by (simp_all add: fresh_def)
  obtain g where g: "fuel = Suc g" using assms(5) by (cases fuel) auto
  let ?q = "seekIdx es \<lparr>MKey = startKey p, MTimestamp = emptyTimestamp\<rparr>"
  note st = seekStart_eq [OF assms(1-3) plain]
  show ?thesis
  proof (cases "?q < length es")
    case True
    obtain p1 where p1: "seekToStartOfScan fuel env p = Some (True, p1)" "core p1 = core p" "machineFn p1 = advanceKeyForward_fn" "on es at p1 ?q"
      using st(3) [OF True, of g, folded g] by blast
    have s: "results p1 = results p" "intents p1 = intents p" "plain env p1" "config p1 = config p"
      using core_same [OF p1(2)] plain_core [OF p1(2), of env] plain by blast+
    have "2 * length es - ?q + 3 \<le> fuel" using assms(5) by linarith
    from scanLoop_eq [OF assms(1) st(2) [OF True] s(3) p1(3,4) h [folded s(1,2)] this]
    obtain p2 where p2: "scanLoop fuel env p1 = Some p2" "answered env [] [] r p2"
      unfolding readKeys_config [OF s(4)] r_def st(1) by blast
    have "scan fuel env p = afterScan fuel env p2" using nw p1(1) p2(1) by (simp add: scan_def)
    then show ?thesis using afterScan_eq [OF p2(2)] p2(2) by simp
  next
    case False
    obtain p1 where p1: "seekToStartOfScan fuel env p = Some (False, p1)" "core p1 = core p" using st(4) [OF False, of g, folded g] by blast
    have s: "results p1 = results p" "intents p1 = intents p" "plain env p1" "err p1 = None"
      using core_same [OF p1(2)] plain_core [OF p1(2), of env] plain by (auto simp: plain_def)
    have r: "r = Inr ([], [])" unfolding r_def st(1) using False by simp
    have "scan fuel env p = Some (Inr (None, RESUME_UNKNOWN, 0), p1)" using nw p1(1) s(4) by (simp add: scan_def)
    then show ?thesis unfolding r using s h by (simp add: answered_def)
  qed
qed

subsection \<open>The newest visible version\<close>

text \<open>Without metadata and uncertainty, a scan returns the newest version at or below its timestamp of every
  key, unless that is a tombstone.\<close>

definition valueOf :: "MVCCKey \<times> bytes \<Rightarrow> bytes" where
  "valueOf e = (case DecodeMVCCValue (snd e) of Inl _ \<Rightarrow> [] | Inr v \<Rightarrow> RawBytes v)"

definition newest :: "Timestamp \<Rightarrow> snapshot \<Rightarrow> MVCCKey \<times> bytes \<Rightarrow> bool" where
  "newest ts es e \<longleftrightarrow> LessEq (MTimestamp (fst e)) ts \<and>
     list_all (\<lambda>e'. MKey (fst e') = MKey (fst e) \<and> LessEq (MTimestamp (fst e')) ts \<longrightarrow>
       LessEq (MTimestamp (fst e')) (MTimestamp (fst e))) es"

definition visible :: "Timestamp \<Rightarrow> snapshot \<Rightarrow> (bytes \<times> bytes) list" where
  "visible ts es = map (\<lambda>e. (EncodeMVCCKey (fst e), valueOf e)) (filter (\<lambda>e. valueOf e \<noteq> [] \<and> newest ts es e) es)"

lemma visible_append:
  assumes "\<And>x y. x \<in> set a \<Longrightarrow> y \<in> set b \<Longrightarrow> MKey (fst x) \<noteq> MKey (fst y)"
  shows "visible ts (a @ b) = visible ts a @ visible ts b"
proof -
  have "newest ts (a @ b) x \<longleftrightarrow> newest ts a x" if "x \<in> set a" for x
    using assms [OF that] unfolding newest_def list_all_append by (fastforce simp: list_all_iff)
  moreover have "newest ts (a @ b) y \<longleftrightarrow> newest ts b y" if "y \<in> set b" for y
    using assms [OF _ that] unfolding newest_def list_all_append by (fastforce simp: list_all_iff)
  ultimately show ?thesis unfolding visible_def filter_append map_append
    by (intro arg_cong2 [where f = "(@)"] arg_cong [where f = "map _"] filter_cong) auto
qed

text \<open>Versions of one key, from newest to oldest.\<close>

definition versions :: "bytes \<Rightarrow> snapshot \<Rightarrow> bool" where
  "versions k b \<longleftrightarrow> list_all (\<lambda>e. MKey (fst e) = k \<and> IsValue (fst e) \<and> (\<exists>v. DecodeMVCCValue (snd e) = Inr v)) b \<and>
     sorted_wrt (\<lambda>x y. Less (MTimestamp (fst y)) (MTimestamp (fst x))) b"

definition first :: "Timestamp \<Rightarrow> snapshot \<Rightarrow> key_read" where
  "first ts b = (case dropWhile (\<lambda>e. \<not> LessEq (MTimestamp (fst e)) ts) b of [] \<Rightarrow> Absent | e # _ \<Rightarrow> Value (fst e) (valueOf e))"

lemma pick_first:
  assumes "versions k b"
  shows "pick ts ui ts False b = first ts b"
  using assms
proof (induction b)
  case (Cons e b)
  then obtain v where v: "DecodeMVCCValue (snd e) = Inr v" "versions k b" by (auto simp: versions_def)
  show ?case
  proof (cases "LessEq (MTimestamp (fst e)) ts")
    case True
    have np: "\<not> passes ts ui False e" by (simp add: passes_def)
    show ?thesis using pick_Cons(3) [OF True np] pick_one(1) [OF True v(1), of False] True v(1)
      by (simp add: first_def valueOf_def)
  next
    case False
    then show ?thesis using Cons.IH [OF v(2)] pick_Cons(2) [OF False] by (simp add: first_def)
  qed
qed (simp add: first_def)

lemma readVersions_first:
  assumes "versions k b" "\<not> IsEmpty ts"
  shows "readVersions False ts ui b = first ts b"
proof (cases b)
  case (Cons e vs)
  then obtain v where v: "DecodeMVCCValue (snd e) = Inr v" "versions k vs" using assms(1) by (auto simp: versions_def)
  show ?thesis using v(1) pick_first [OF v(2), of ts ui] assms(2) unfolding Cons
    by (cases e) (simp add: seekRead_def first_def valueOf_def)
qed (simp add: first_def)

lemma visible_Cons:
  assumes "versions k (e # b)"
  shows "LessEq (MTimestamp (fst e)) ts \<Longrightarrow> visible ts (e # b) = (if valueOf e = [] then [] else [(EncodeMVCCKey (fst e), valueOf e)])"
    "\<not> LessEq (MTimestamp (fst e)) ts \<Longrightarrow> visible ts (e # b) = visible ts b"
proof -
  have b: "MKey (fst e) = MKey (fst y)" "Less (MTimestamp (fst y)) (MTimestamp (fst e))" if "y \<in> set b" for y
    using assms that by (auto simp: versions_def list_all_iff)
  show "visible ts (e # b) = (if valueOf e = [] then [] else [(EncodeMVCCKey (fst e), valueOf e)])"
    if le: "LessEq (MTimestamp (fst e)) ts"
  proof -
    have "newest ts (e # b) e" using le b(2) Less_imp_LessEq by (simp add: newest_def list_all_iff)
    moreover have "\<not> newest ts (e # b) y" if "y \<in> set b" for y
      using b [OF that] le by (simp add: newest_def not_LessEq)
    ultimately show ?thesis by (simp add: visible_def filter_False)
  qed
  show "visible ts (e # b) = visible ts b" if "\<not> LessEq (MTimestamp (fst e)) ts"
    using that by (simp add: visible_def newest_def)
qed

lemma visible_first:
  assumes "versions k b"
  shows "visible ts b = (case first ts b of Value key raw \<Rightarrow> if raw = [] then [] else [(EncodeMVCCKey key, raw)] | _ \<Rightarrow> [])"
  using assms
proof (induction b)
  case (Cons e b)
  then have "versions k b" by (simp add: versions_def)
  then show ?case using Cons.IH visible_Cons [OF Cons.prems, of ts]
    by (cases "LessEq (MTimestamp (fst e)) ts") (simp_all add: first_def)
qed (simp add: visible_def first_def)

definition committed :: "snapshot \<Rightarrow> bool" where
  "committed es \<longleftrightarrow> list_all (\<lambda>e. IsValue (fst e) \<and> (\<exists>v. DecodeMVCCValue (snd e) = Inr v)) es"

lemma stored_split:
  assumes "stored (e # es)"
  defines "same \<equiv> \<lambda>e'. MKey (fst e') = MKey (fst e)"
  shows "stored (dropWhile same es)" "y \<in> set (dropWhile same es) \<Longrightarrow> MKey (fst e) < MKey (fst y)"
    "committed (e # es) \<Longrightarrow> versions (MKey (fst e)) (e # takeWhile same es)" "committed (e # es) \<Longrightarrow> committed (dropWhile same es)"
proof -
  have es: "takeWhile same es @ dropWhile same es = es" by simp
  have "stored (e # takeWhile same es @ dropWhile same es)" using assms(1) unfolding es .
  then have srt: "sorted_wrt (\<lambda>a b. MVCCKeyLess (fst a) (fst b)) (takeWhile same es)"
      "sorted_wrt (\<lambda>a b. MVCCKeyLess (fst a) (fst b)) (dropWhile same es)"
      "list_all (\<lambda>e. nonneg_ts (MTimestamp (fst e))) (dropWhile same es)"
      "\<And>x. x \<in> set (takeWhile same es) \<Longrightarrow> MVCCKeyLess (fst e) (fst x)" "\<And>x. x \<in> set (dropWhile same es) \<Longrightarrow> MVCCKeyLess (fst e) (fst x)"
    unfolding stored_def list_all_append list.pred_inject sorted_wrt.simps sorted_wrt_append set_append by blast+
  show "stored (dropWhile same es)" using srt(2,3) by (simp add: stored_def)
  show "MKey (fst e) < MKey (fst y)" if y: "y \<in> set (dropWhile same es)"
  proof (cases "dropWhile same es")
    case (Cons z zs)
    have "\<not> same z" using Cons by (simp add: dropWhile_eq_Cons_conv)
    then have z: "MKey (fst e) < MKey (fst z)" using srt(5) [of z] Cons by (auto simp: MVCCKeyLess_iff same_def)
    have "y = z \<or> MVCCKeyLess (fst z) (fst y)" using srt(2) y unfolding Cons by auto
    then show ?thesis using z by (auto simp: MVCCKeyLess_iff)
  next
    case Nil
    show ?thesis using y unfolding Nil by simp
  qed
  assume c: "committed (e # es)"
  have tw: "MKey (fst x) = MKey (fst e)" "x \<in> set es" if "x \<in> set (takeWhile same es)" for x
    using set_takeWhileD [OF that] by (simp_all add: same_def)
  have val: "IsValue (fst x) \<and> (\<exists>v. DecodeMVCCValue (snd x) = Inr v)" if "x \<in> set (e # es)" for x
    using c that unfolding committed_def list_all_iff by blast
  have "Less (MTimestamp (fst x)) (MTimestamp (fst e))" if "x \<in> set (takeWhile same es)" for x
    using srt(4) [OF that] tw [OF that] val [of e] by (auto simp: MVCCKeyLess_iff)
  moreover have "sorted_wrt (\<lambda>x y. Less (MTimestamp (fst y)) (MTimestamp (fst x))) (takeWhile same es)"
    using srt(1) by (rule sorted_wrt_mono_rel [rotated]) (use tw val in \<open>auto simp: MVCCKeyLess_iff\<close>)
  ultimately show "versions (MKey (fst e)) (e # takeWhile same es)"
    unfolding versions_def using tw val by (simp add: list_all_iff)
  show "committed (dropWhile same es)" using c by (auto simp: committed_def list_all_iff dest: set_dropWhileD)
qed

lemma answer_first:
  "versions k b \<Longrightarrow> answer (first ts b) (Inr (kvs, ints)) = Inr (visible ts b @ kvs, ints)"
  unfolding visible_first by (auto simp: answer_def first_def split: list.split)

lemma readKeys_visible:
  assumes "stored es" "committed es" "\<not> checkUncertainty p" "\<not> IsEmpty (readTS p)"
  shows "readKeys env p es = Inr (visible (readTS p) es, [])"
  using assms(1,2)
proof (induction "length es" arbitrary: es rule: less_induct)
  case less
  show ?case
  proof (cases es)
    case (Cons e vs)
    let ?same = "\<lambda>e'. MKey (fst e') = MKey (fst e)"
    let ?b = "e # takeWhile ?same vs" and ?rest = "dropWhile ?same vs"
    note st = stored_split [OF less.prems(1) [unfolded Cons]]
    have v: "versions (MKey (fst e)) ?b" "committed ?rest" using st(3,4) less.prems(2) unfolding Cons by blast+
    have rest: "readKeys env p ?rest = Inr (visible (readTS p) ?rest, [])"
      by (rule less.hyps [OF _ st(1) v(2)]) (simp add: Cons length_dropWhile_le le_imp_less_Suc)
    have "IsValue (fst e)" using less.prems(2) Cons by (simp add: committed_def)
    then have rk: "readKey env p ?b = first (readTS p) ?b"
      using readVersions_first [OF v(1) assms(4), of "uncertainty p"] assms(3) by (cases e) (simp del: readVersions.simps)
    have "visible (readTS p) es = visible (readTS p) (?b @ ?rest)" using Cons by simp
    also have "\<dots> = visible (readTS p) ?b @ visible (readTS p) ?rest"
    proof (rule visible_append)
      fix x y
      assume "x \<in> set ?b" "y \<in> set ?rest"
      then have "MKey (fst x) = MKey (fst e)" "MKey (fst e) < MKey (fst y)"
        using v(1) st(2) unfolding versions_def list_all_iff by blast+
      then show "MKey (fst x) \<noteq> MKey (fst y)" by simp
    qed
    finally show ?thesis using answer_first [OF v(1)] rest rk unfolding Cons readKeys.simps Let_def by simp
  qed (simp add: visible_def)
qed

text \<open>The start key cuts the snapshot between two keys.\<close>

lemma visible_from:
  fixes start :: bytes
  assumes "stored es"
  defines "d \<equiv> dropWhile (\<lambda>e. MKey (fst e) < start) es"
  shows "stored d" "visible ts d = map (\<lambda>e. (EncodeMVCCKey (fst e), valueOf e))
    (filter (\<lambda>e. start \<le> MKey (fst e) \<and> valueOf e \<noteq> [] \<and> newest ts es e) es)"
proof -
  let ?t = "takeWhile (\<lambda>e. MKey (fst e) < start) es"
  have es: "es = ?t @ d" by (simp add: d_def)
  have "stored (?t @ d)" using assms(1) unfolding d_def by simp
  then have srt: "sorted_wrt (\<lambda>a b. MVCCKeyLess (fst a) (fst b)) d" "list_all (\<lambda>e. nonneg_ts (MTimestamp (fst e))) d"
    unfolding stored_def list_all_append sorted_wrt_append by blast+
  then show "stored d" by (simp add: stored_def)
  have t: "MKey (fst x) < start" if "x \<in> set ?t" for x using set_takeWhileD [OF that] by blast
  have dd: "start \<le> MKey (fst x)" if x: "x \<in> set d" for x
  proof (cases d)
    case (Cons z zs)
    then have "\<not> MKey (fst z) < start" unfolding d_def by (simp add: dropWhile_eq_Cons_conv)
    then have z: "start \<le> MKey (fst z)" by simp
    have "x = z \<or> MVCCKeyLess (fst z) (fst x)" using srt(1) x unfolding Cons by auto
    then have "MKey (fst z) \<le> MKey (fst x)" by (auto simp: MVCCKeyLess_iff)
    then show ?thesis by (rule order_trans [OF z])
  qed (use x in simp)
  have new: "newest ts es x \<longleftrightarrow> newest ts d x" if "x \<in> set d" for x
  proof -
    have "MKey (fst y) \<noteq> MKey (fst x)" if "y \<in> set ?t" for y using t [OF that] dd [OF \<open>x \<in> set d\<close>] by auto
    then have "newest ts (?t @ d) x \<longleftrightarrow> newest ts d x" unfolding newest_def list_all_append by (fastforce simp: list_all_iff)
    then show ?thesis unfolding es [symmetric] .
  qed
  let ?Q = "\<lambda>e. start \<le> MKey (fst e) \<and> valueOf e \<noteq> [] \<and> newest ts es e"
  have "filter ?Q ?t = []" unfolding filter_empty_conv using t by (metis leD)
  moreover have "filter ?Q d = filter (\<lambda>e. valueOf e \<noteq> [] \<and> newest ts d e) d"
    by (rule filter_cong [OF refl]) (simp add: dd new)
  ultimately have "filter ?Q (?t @ d) = filter (\<lambda>e. valueOf e \<noteq> [] \<and> newest ts d e) d" unfolding filter_append by simp
  then show "visible ts d = map (\<lambda>e. (EncodeMVCCKey (fst e), valueOf e)) (filter ?Q es)"
    unfolding visible_def es [symmetric] by (rule arg_cong [OF sym])
qed

subsection \<open>What scans return\<close>

text \<open>The cursor of a snapshot meets the contract of the iterator.\<close>

definition cursor :: "snapshot \<Rightarrow> nat MVCCIterator" where
  "cursor es = \<lparr>iSeekGE = (\<lambda>k _. seekIdx es k), iSeekLT = (\<lambda>k _. seekIdx es k - 1), iNext = Suc,
     iNextKey = nextKeyIdx es, iPrev = (\<lambda>n. n - 1), iValid = (\<lambda>n. Inr (n < length es)),
     iUnsafeRawMVCCKey = (\<lambda>n. EncodeMVCCKey (fst (es ! n))), iUnsafeKey = (\<lambda>n. fst (es ! n)),
     iUnsafeLazyValue = (\<lambda>n. Inr (snd (es ! n))), iHasPointAndRange = (\<lambda>_. (True, False)), iRangeKeys = (\<lambda>_. noStack),
     iRangeKeyChanged = (\<lambda>_. False)\<rparr>"

lemma cursor_iterates: "iterates (cursor es) es (=)"
  by (simp add: iterates_def cursor_def)

definition ex_meta :: MVCCMetadata where
  "ex_meta = noMeta\<lparr>MetaTxn := Some zeroTxnMeta, MetaTimestamp := ToLegacyTimestamp \<lparr>WallTime = 3, Logical = 0, Synthetic = False\<rparr>\<rparr>"

definition ex_env :: "snapshot \<Rightarrow> nat Env" where
  "ex_env es = \<lparr>iter = cursor es, unmarshalMeta = (\<lambda>_. Inr ex_meta), marshalMeta = (\<lambda>_. Inr []), IsKeyLocked = (\<lambda>_ _. (False, None)),
     Grow = (\<lambda>_. Inr ()), maxItersBeforeSeek = 10\<rparr>"

definition ex_scanner :: "nat pebbleMVCCScanner" where
  "ex_scanner = \<lparr>parent = 0, reverse = False, peeked = False, startKey = [1], endKey = [9],
     readTS = \<lparr>WallTime = 4, Logical = 0, Synthetic = False\<rparr>, maxKeys = 0, targetBytes = 0, allowEmpty = False, wholeRows = False,
     maxIntents = 0, resumeReason = RESUME_UNKNOWN, resumeKey = [], resumeNextBytes = 0, scanTxn = None, txnEpoch = 0, txnSequence = 0,
     txnIgnoredSeqNums = [], uncertainty = noInterval, checkUncertainty = False, scanMeta = noMeta, inconsistent = False,
     skipLocked = False, tombstones = False, failOnMoreRecent = False, curUnsafeKey = MakeMVCCMetadataKey [], curRawKey = [],
     curUnsafeValue = \<lparr>ValueHeader = noHeader, RawBytes = []\<rparr>, curRawValue = Inr [], curRangeKeys = noStack, results = noResults,
     intents = [], mostRecentTS = emptyTimestamp, mostRecentKey = [], err = None, itersBeforeSeek = 5, machineFn = advanceNone,
     machineOrigKey = []\<rparr>"

lemma ex_fresh: "fresh (ex_env es) ex_scanner"
  by (simp add: fresh_def plain_def ex_env_def ex_scanner_def noResults_def IsEmpty_eq)

abbreviation (input) "vkey k w \<equiv> \<lparr>MKey = k, MTimestamp = \<lparr>WallTime = w, Logical = 0, Synthetic = False\<rparr>\<rparr>"

definition ex_versions :: snapshot where
  "ex_versions = [(vkey [1] 5, [0, 0, 0, 0, 3, 5]), (vkey [1] 3, [0, 0, 0, 0, 3, 7]), (vkey [2] 9, [0, 0, 0, 0, 3, 8])]"

definition ex_intent :: snapshot where
  "ex_intent = [(MakeMVCCMetadataKey [1], [1]), (vkey [1] 3, []), (vkey [2] 2, [0, 0, 0, 0, 3, 8])]"

lemma ex_stored: "stored ex_versions" "stored ex_intent"
  by (simp_all add: stored_def ex_versions_def ex_intent_def MVCCKeyLess_iff IsValue_def IsEmpty_def Less_def nonneg_ts_def
      MakeMVCCMetadataKey_def emptyTimestamp_def)


lemma ex_value: "DecodeMVCCValue [0, 0, 0, 0, 3, b] = Inr \<lparr>ValueHeader = noHeader, RawBytes = [0, 0, 0, 0, 3, b]\<rparr>"
  by (simp add: DecodeMVCCValue_def tryDecodeSimpleMVCCValue_def)



lemma scan_versions:
  assumes "iterates (iter env) es at" "stored es" "at (parent p) i" "fresh env p" "2 * length es + 4 \<le> fuel"
    and "committed es" "\<not> checkUncertainty p" "\<not> IsEmpty (readTS p)"
  shows "\<exists>p'. scan fuel env p = Some (Inr (None, RESUME_UNKNOWN, 0), p') \<and> intents p' = [] \<and>
    concat (fst (finish (results p'))) =
      pack (map (\<lambda>e. (EncodeMVCCKey (fst e), valueOf e))
        (filter (\<lambda>e. startKey p \<le> MKey (fst e) \<and> valueOf e \<noteq> [] \<and> newest (readTS p) es e) es))"
proof -
  let ?d = "dropWhile (\<lambda>e. MKey (fst e) < startKey p) es"
  note v = visible_from [where start = "startKey p", OF assms(2)]
  have "committed ?d" using assms(6) by (auto simp: committed_def list_all_iff dest: set_dropWhileD)
  then have r: "readKeys env p ?d = Inr (visible (readTS p) ?d, [])" by (rule readKeys_visible [OF v(1) _ assms(7,8)])
  obtain p' where p': "scan fuel env p = Some (Inr (None, RESUME_UNKNOWN, 0), p')" "answered env [] [] (readKeys env p ?d) p'"
    using scan_eq [OF assms(1-5)] unfolding r by auto
  then have "intents p' = []" "holds (results p') (visible (readTS p) ?d)" unfolding r by (simp_all add: answered_def)
  then show ?thesis using p'(1) holds_contents [of "results p'"] unfolding v(2) by blast
qed

text \<open>C1: on a snapshot without intents and range keys whose values decode, an unlimited, consistent, forward scan
  that need not check for uncertainty ends without an error and returns, in the order of the keys from
  its start key on, exactly the versions with a value that are the newest of their key at or below the
  read timestamp.\<close>

theorem scan_newest:
  assumes "iterates (iter env) es at" "stored es" "at (parent p) i" "fresh env p" "2 * length es + 4 \<le> fuel"
    and "committed es" "\<not> checkUncertainty p" "\<not> IsEmpty (readTS p)"
  shows "\<exists>p'. scan fuel env p = Some (Inr (None, RESUME_UNKNOWN, 0), p') \<and> intents p' = [] \<and>
    concat (fst (finish (results p'))) =
      pack (map (\<lambda>e. (EncodeMVCCKey (fst e), valueOf e))
        (filter (\<lambda>e. startKey p \<le> MKey (fst e) \<and> valueOf e \<noteq> [] \<and> newest (readTS p) es e) es))"
  by (rule scan_versions [OF assms])

theorem scan_newest_witness:
  "\<exists>p'. scan 10 (ex_env ex_versions) ex_scanner = Some (Inr (None, RESUME_UNKNOWN, 0), p') \<and> intents p' = [] \<and>
     concat (fst (finish (results p'))) = pack [(EncodeMVCCKey (vkey [1] 3), [0, 0, 0, 0, 3, 7])]"
proof -
  have it: "iterates (iter (ex_env ex_versions)) ex_versions (=)" using cursor_iterates by (simp add: ex_env_def)
  have c: "committed ex_versions"
    by (simp add: committed_def ex_versions_def IsValue_def IsEmpty_def ex_value)
  have f: "filter (\<lambda>e. startKey ex_scanner \<le> MKey (fst e) \<and> valueOf e \<noteq> [] \<and> newest (readTS ex_scanner) ex_versions e) ex_versions =
      [(vkey [1] 3, [0, 0, 0, 0, 3, 7])]"
    by (simp add: ex_versions_def ex_scanner_def newest_def valueOf_def ex_value LessEq_def)
  show ?thesis
    using scan_newest [OF it ex_stored(1) refl ex_fresh _ c] unfolding f
    by (simp add: ex_versions_def ex_scanner_def IsEmpty_def valueOf_def ex_value)
qed

end
