(* ===== verification/Gc_Iterator.thy ===== *)
theory Gc_Iterator
  imports Mvcc_Refine
begin

text \<open>
  The iterator of garbage collection: \<open>engine/pkg/kv/kvserver/gc/gc_iterator.go\<close>.  It walks the versions of a range in
  reverse, from the last key to the first and for each key from the oldest version to the newest and then its
  metadata, and looks two versions ahead through a ring buffer of three.

  The iterator of the store is the list of what is still ahead of it, in reverse order: points with the range keys over
  them, range keys without a point, and \<open>Broken\<close> where it or the decoding of a value fails.
\<close>

subsection \<open>The ring buffer\<close>

record mvccKeyValue =
  kvKey :: MVCCKey
  mvccValueLen :: int
  mvccValueIsTombstone :: bool
  metaValue :: bytes

abbreviation (input) gcIteratorRingBufSize :: nat where "gcIteratorRingBufSize \<equiv> 3"

definition noKV :: mvccKeyValue where
  "noKV = \<lparr>kvKey = \<lparr>MKey = [], MTimestamp = emptyTimestamp\<rparr>, mvccValueLen = 0, mvccValueIsTombstone = False, metaValue = []\<rparr>"

record gcIteratorRingBuf =
  ringKVs :: "mvccKeyValue list"
  firstRangeTombstoneAtOrBelowGCTss :: "Timestamp list"
  ringLen :: nat
  ringHead :: nat

definition emptyRing :: gcIteratorRingBuf where
  "emptyRing = \<lparr>ringKVs = replicate gcIteratorRingBufSize noKV, firstRangeTombstoneAtOrBelowGCTss = replicate gcIteratorRingBufSize emptyTimestamp,
     ringLen = 0, ringHead = 0\<rparr>"

definition ringAt :: "gcIteratorRingBuf \<Rightarrow> nat \<Rightarrow> (mvccKeyValue \<times> Timestamp) result" where
  "ringAt b i =
    (if i \<ge> ringLen b then Inl (Panic ''index out of range'')
     else let idx = (ringHead b + i) mod gcIteratorRingBufSize in Inr (ringKVs b ! idx, firstRangeTombstoneAtOrBelowGCTss b ! idx))"

definition removeFront :: "gcIteratorRingBuf \<Rightarrow> gcIteratorRingBuf result" where
  "removeFront b =
    (if ringLen b = 0 then Inl (Panic ''cannot remove from empty gcIteratorRingBuf'')
     else Inr (b\<lparr>ringKVs := (ringKVs b)[ringHead b := noKV],
       firstRangeTombstoneAtOrBelowGCTss := (firstRangeTombstoneAtOrBelowGCTss b)[ringHead b := emptyTimestamp],
       ringHead := (ringHead b + 1) mod gcIteratorRingBufSize, ringLen := ringLen b - 1\<rparr>))"

definition pushBack :: "gcIteratorRingBuf \<Rightarrow> mvccKeyValue \<Rightarrow> Timestamp \<Rightarrow> gcIteratorRingBuf result" where
  "pushBack b kv rangeTS =
    (if ringLen b = gcIteratorRingBufSize then Inl (Panic ''cannot add to full gcIteratorRingBuf'')
     else let i = (ringHead b + ringLen b) mod gcIteratorRingBufSize
          in Inr (b\<lparr>ringKVs := (ringKVs b)[i := kv], firstRangeTombstoneAtOrBelowGCTss := (firstRangeTombstoneAtOrBelowGCTss b)[i := rangeTS],
               ringLen := ringLen b + 1\<rparr>))"

subsection \<open>The iterator\<close>

datatype gcItem = Point mvccKeyValue "MVCCRangeKeyStack option" | BareRange MVCCRangeKeyStack | Broken go_error

record gcIterator =
  ahead :: "gcItem list"
  gcThreshold :: Timestamp
  gcErr :: "go_error option"
  gcBuf :: gcIteratorRingBuf
  cachedRangeTombstoneTS :: Timestamp
  cachedRangeTombstoneKey :: bytes

definition makeGCIterator :: "gcItem list \<Rightarrow> Timestamp \<Rightarrow> gcIterator" where
  "makeGCIterator items threshold = \<lparr>ahead = items, gcThreshold = threshold, gcErr = None, gcBuf = emptyRing,
     cachedRangeTombstoneTS = emptyTimestamp, cachedRangeTombstoneKey = []\<rparr>"

definition currentRangeTS :: "MVCCRangeKeyStack \<Rightarrow> gcIterator \<Rightarrow> Timestamp \<times> gcIterator" where
  "currentRangeTS stack it =
    (let start = Key (Bounds stack)
     in if start = cachedRangeTombstoneKey it then (cachedRangeTombstoneTS it, it)
        else let ts = (case FirstAtOrBelow (Versions stack) (gcThreshold it) of Some v \<Rightarrow> VTimestamp v | None \<Rightarrow> emptyTimestamp)
             in (ts, it\<lparr>cachedRangeTombstoneKey := start, cachedRangeTombstoneTS := ts\<rparr>))"

fun fillLoop :: "nat \<Rightarrow> gcItem list \<Rightarrow> gcIterator \<Rightarrow> (bool \<times> gcIterator) result" where
  "fillLoop targetLen items it =
    (if ringLen (gcBuf it) \<ge> targetLen then Inr (True, it\<lparr>ahead := items\<rparr>)
     else case items of
       [] \<Rightarrow> Inr (False, it\<lparr>ahead := items, gcErr := None\<rparr>)
     | Broken e # _ \<Rightarrow> Inr (False, it\<lparr>ahead := items, gcErr := Some e\<rparr>)
     | BareRange _ # rest \<Rightarrow> fillLoop targetLen rest it
     | Point kv stack # rest \<Rightarrow>
         (let (ts, it1) = (case stack of None \<Rightarrow> (emptyTimestamp, it) | Some st \<Rightarrow> currentRangeTS st it)
          in rbind (pushBack (gcBuf it1) kv ts) (\<lambda>b. fillLoop targetLen rest (it1\<lparr>gcBuf := b\<rparr>))))"

definition fillTo :: "nat \<Rightarrow> gcIterator \<Rightarrow> (bool \<times> gcIterator) result" where
  "fillTo targetLen it = fillLoop targetLen (ahead it) it"

definition peekAt :: "nat \<Rightarrow> gcIterator \<Rightarrow> ((mvccKeyValue \<times> Timestamp) option \<times> gcIterator) result" where
  "peekAt i it =
    rbind (if ringLen (gcBuf it) \<le> i then fillTo (i + 1) it else Inr (True, it)) (\<lambda>(ok, it).
      if \<not> ok then Inr (None, it) else rbind (ringAt (gcBuf it) i) (\<lambda>x. Inr (Some x, it)))"

record gcIteratorState =
  cur :: mvccKeyValue
  nextKV :: "mvccKeyValue option"
  afterNext :: "mvccKeyValue option"
  firstRangeTombstoneTsAtOrBelowGC :: Timestamp

definition curIsNewest :: "gcIteratorState \<Rightarrow> bool" where
  "curIsNewest s \<longleftrightarrow> IsValue (kvKey (cur s)) \<and>
    (nextKV s = None \<or> (case afterNext s of None \<Rightarrow> False | Some a \<Rightarrow> \<not> IsValue (kvKey a)))"

definition curLastKeyVersion :: "gcIteratorState \<Rightarrow> bool" where
  "curLastKeyVersion s \<longleftrightarrow> nextKV s = None"

definition curIsNotValue :: "gcIteratorState \<Rightarrow> bool" where
  "curIsNotValue s \<longleftrightarrow> \<not> IsValue (kvKey (cur s))"

definition curIsIntent :: "gcIteratorState \<Rightarrow> bool" where
  "curIsIntent s \<longleftrightarrow> (case nextKV s of None \<Rightarrow> False | Some n \<Rightarrow> \<not> IsValue (kvKey n))"

definition state :: "gcIterator \<Rightarrow> (gcIteratorState option \<times> gcIterator) result" where
  "state it =
    rbind (peekAt 0 it) (\<lambda>(c, it). case c of None \<Rightarrow> Inr (None, it) | Some (c, ts) \<Rightarrow>
    rbind (peekAt 1 it) (\<lambda>(n, it).
    let s = \<lparr>cur = c, nextKV = None, afterNext = None, firstRangeTombstoneTsAtOrBelowGC = ts\<rparr> in
    case n of None \<Rightarrow> if gcErr it \<noteq> None then Inr (None, it) else Inr (Some s, it)
    | Some (n, _) \<Rightarrow>
      if MKey (kvKey n) \<noteq> MKey (kvKey c) then Inr (Some s, it)
      else
        let s = s\<lparr>nextKV := Some n\<rparr> in
        rbind (peekAt 2 it) (\<lambda>(a, it).
        case a of None \<Rightarrow> if gcErr it \<noteq> None then Inr (None, it) else Inr (Some s, it)
        | Some (a, _) \<Rightarrow> if MKey (kvKey a) \<noteq> MKey (kvKey c) then Inr (Some s, it) else Inr (Some (s\<lparr>afterNext := Some a\<rparr>), it))))"

definition stepIt :: "gcIterator \<Rightarrow> gcIterator result" where
  "stepIt it = rbind (removeFront (gcBuf it)) (\<lambda>b. Inr (it\<lparr>gcBuf := b\<rparr>))"

declare fillLoop.simps [simp del]

subsection \<open>The ring buffer is a queue\<close>

definition ring_ok :: "gcIteratorRingBuf \<Rightarrow> bool" where
  "ring_ok b \<longleftrightarrow> length (ringKVs b) = 3 \<and> length (firstRangeTombstoneAtOrBelowGCTss b) = 3 \<and> ringHead b < 3 \<and> ringLen b \<le> 3"

definition ringList :: "gcIteratorRingBuf \<Rightarrow> (mvccKeyValue \<times> Timestamp) list" where
  "ringList b = map (\<lambda>i. (ringKVs b ! ((ringHead b + i) mod 3), firstRangeTombstoneAtOrBelowGCTss b ! ((ringHead b + i) mod 3))) [0..<ringLen b]"

lemma ringList_simps [simp]: "length (ringList b) = ringLen b" "ringList emptyRing = []" "ring_ok emptyRing"
  by (simp_all add: ringList_def emptyRing_def ring_ok_def)

lemma ringAt_nth: "i < ringLen b \<Longrightarrow> ringAt b i = Inr (ringList b ! i)"
  by (simp add: ringAt_def ringList_def Let_def)

lemma ring_slots: "(h + i) mod 3 = (h + j) mod 3 \<longleftrightarrow> i = j" if "i < 3" "j < 3" for h i j :: nat
proof -
  have "i = 0 \<or> i = 1 \<or> i = 2" "j = 0 \<or> j = 1 \<or> j = 2" using that by auto
  then show ?thesis by (elim disjE) (simp_all, presburger+)
qed

lemma pushBack_ok:
  assumes "ring_ok b" "ringLen b < 3"
  obtains b' where "pushBack b kv ts = Inr b'" "ring_ok b'" "ringList b' = ringList b @ [(kv, ts)]" "ringLen b' = ringLen b + 1"
proof -
  let ?i = "(ringHead b + ringLen b) mod 3"
  let ?b = "b\<lparr>ringKVs := (ringKVs b)[?i := kv], firstRangeTombstoneAtOrBelowGCTss := (firstRangeTombstoneAtOrBelowGCTss b)[?i := ts], ringLen := ringLen b + 1\<rparr>"
  have "ringList ?b = ringList b @ [(kv, ts)]"
    using assms by (auto simp: ringList_def ring_ok_def nth_list_update ring_slots)
  then show thesis using that [of ?b] assms by (simp add: pushBack_def ring_ok_def Let_def)
qed

lemma removeFront_ok:
  assumes "ring_ok b" "0 < ringLen b"
  obtains b' where "removeFront b = Inr b'" "ring_ok b'" "ringList b' = tl (ringList b)" "ringLen b' = ringLen b - 1"
proof -
  let ?b = "b\<lparr>ringKVs := (ringKVs b)[ringHead b := noKV], firstRangeTombstoneAtOrBelowGCTss := (firstRangeTombstoneAtOrBelowGCTss b)[ringHead b := emptyTimestamp],
    ringHead := (ringHead b + 1) mod 3, ringLen := ringLen b - 1\<rparr>"
  have h: "ringHead b = (ringHead b + 0) mod 3" using assms(1) by (simp add: ring_ok_def)
  have n: "(ringHead b + Suc i) mod 3 \<noteq> ringHead b" if "Suc i < ringLen b" for i
    using ring_slots [of "Suc i" 0 "ringHead b"] that assms(1) h by (auto simp: ring_ok_def)
  have s: "(Suc (ringHead b) mod 3 + i) mod 3 = Suc (ringHead b + i) mod 3" for i by (simp add: mod_add_left_eq)
  have "ringList ?b = tl (ringList b)"
  proof (rule nth_equalityI)
    fix i assume "i < length (ringList ?b)"
    then have i: "Suc i < ringLen b" by simp
    then show "ringList ?b ! i = tl (ringList b) ! i"
      using assms n [OF i] by (simp add: ringList_def ring_ok_def nth_tl s nth_list_update)
  qed simp
  then show thesis using that [of ?b] assms by (auto simp: removeFront_def ring_ok_def)
qed

subsection \<open>What is ahead\<close>

text \<open>The versions ahead of the iterator with the timestamp of their range tombstone, and the error at their end.\<close>

fun entriesOf :: "Timestamp \<Rightarrow> bytes \<times> Timestamp \<Rightarrow> gcItem list \<Rightarrow> (mvccKeyValue \<times> Timestamp) list \<times> go_error option" where
  "entriesOf thr c [] = ([], None)"
| "entriesOf thr c (Broken e # _) = ([], Some e)"
| "entriesOf thr c (BareRange _ # rest) = entriesOf thr c rest"
| "entriesOf thr c (Point kv None # rest) = apfst ((#) (kv, emptyTimestamp)) (entriesOf thr c rest)"
| "entriesOf thr c (Point kv (Some st) # rest) =
    (let c' = (if Key (Bounds st) = fst c then c
       else (Key (Bounds st), case FirstAtOrBelow (Versions st) thr of Some v \<Rightarrow> VTimestamp v | None \<Rightarrow> emptyTimestamp))
     in apfst ((#) (kv, snd c')) (entriesOf thr c' rest))"

definition window :: "gcIterator \<Rightarrow> (mvccKeyValue \<times> Timestamp) list \<times> go_error option" where
  "window it = apfst ((@) (ringList (gcBuf it)))
    (entriesOf (gcThreshold it) (cachedRangeTombstoneKey it, cachedRangeTombstoneTS it) (ahead it))"

definition it_size :: "gcIterator \<Rightarrow> nat" where
  "it_size it = ringLen (gcBuf it) + length (ahead it)"

lemma window_point:
  assumes "(case stack of None \<Rightarrow> (emptyTimestamp, it) | Some st \<Rightarrow> currentRangeTS st it) = (ts, it1)"
    and "ringList b = ringList (gcBuf it1) @ [(kv, ts)]"
  shows "gcBuf it1 = gcBuf it" "window (it1\<lparr>gcBuf := b, ahead := rest\<rparr>) = window (it\<lparr>ahead := Point kv stack # rest\<rparr>)"
proof -
  have "gcBuf it1 = gcBuf it \<and> window (it1\<lparr>gcBuf := b, ahead := rest\<rparr>) = window (it\<lparr>ahead := Point kv stack # rest\<rparr>)"
  proof (cases stack)
    case None
    then show ?thesis using assms by (cases "entriesOf (gcThreshold it) (cachedRangeTombstoneKey it, cachedRangeTombstoneTS it) rest") (auto simp: window_def)
  next
    case (Some st)
    let ?c = "if Key (Bounds st) = cachedRangeTombstoneKey it then (cachedRangeTombstoneKey it, cachedRangeTombstoneTS it)
      else (Key (Bounds st), case FirstAtOrBelow (Versions st) (gcThreshold it) of Some v \<Rightarrow> VTimestamp v | None \<Rightarrow> emptyTimestamp)"
    have "(cachedRangeTombstoneKey it1, cachedRangeTombstoneTS it1) = ?c" "ts = snd ?c" "gcThreshold it1 = gcThreshold it" "gcBuf it1 = gcBuf it"
      using assms(1) Some by (auto simp: currentRangeTS_def Let_def split: if_splits)
    then show ?thesis using assms(2) Some by (cases "entriesOf (gcThreshold it) ?c rest") (simp add: window_def Let_def)
  qed
  then show "gcBuf it1 = gcBuf it" "window (it1\<lparr>gcBuf := b, ahead := rest\<rparr>) = window (it\<lparr>ahead := Point kv stack # rest\<rparr>)" by simp_all
qed

lemma fillLoop_ok:
  assumes "ring_ok (gcBuf it)" "n \<le> 3"
  shows "\<exists>ok it'. fillLoop n items it = Inr (ok, it') \<and> ring_ok (gcBuf it') \<and> window it' = window (it\<lparr>ahead := items\<rparr>) \<and>
    it_size it' \<le> ringLen (gcBuf it) + length items \<and>
    (if ok then n \<le> ringLen (gcBuf it') else ringLen (gcBuf it') < n \<and> fst (window it') = ringList (gcBuf it') \<and> gcErr it' = snd (window it'))"
  using assms(1)
proof (induction items arbitrary: it)
  case Nil
  show ?case using Nil by (subst fillLoop.simps) (auto simp: window_def it_size_def)
next
  case (Cons x rest)
  show ?case
  proof (cases "n \<le> ringLen (gcBuf it)")
    case True
    then show ?thesis using Cons.prems by (subst fillLoop.simps) (auto simp: window_def it_size_def)
  next
    case less: False
    show ?thesis
    proof (cases x)
      case (Broken e)
      then show ?thesis using Cons.prems less by (subst fillLoop.simps) (auto simp: window_def it_size_def)
    next
      case (BareRange s)
      have w: "window (it\<lparr>ahead := x # rest\<rparr>) = window (it\<lparr>ahead := rest\<rparr>)" by (simp add: BareRange window_def)
      have f: "fillLoop n (x # rest) it = fillLoop n rest it" using less by (subst fillLoop.simps) (simp add: BareRange)
      have l: "ringLen (gcBuf it) + length rest \<le> ringLen (gcBuf it) + length (x # rest)" by simp
      show ?thesis using Cons.IH [OF Cons.prems] le_trans [OF _ l] unfolding f w by metis
    next
      case (Point kv stack)
      obtain ts it1 where c: "(case stack of None \<Rightarrow> (emptyTimestamp, it) | Some st \<Rightarrow> currentRangeTS st it) = (ts, it1)" by fastforce
      then have r: "gcBuf it1 = gcBuf it" by (auto simp: currentRangeTS_def Let_def split: option.splits if_splits)
      obtain b where b: "pushBack (gcBuf it1) kv ts = Inr b" "ring_ok b" "ringList b = ringList (gcBuf it1) @ [(kv, ts)]" "ringLen b = ringLen (gcBuf it1) + 1"
        using pushBack_ok [of "gcBuf it1" kv ts] Cons.prems less assms(2) unfolding r by auto
      have w: "window (it1\<lparr>gcBuf := b, ahead := rest\<rparr>) = window (it\<lparr>ahead := x # rest\<rparr>)"
        using window_point(2) [OF c b(3)] Point by simp
      have f: "fillLoop n (x # rest) it = fillLoop n rest (it1\<lparr>gcBuf := b\<rparr>)"
        using less c b(1) by (subst fillLoop.simps) (simp add: Point)
      have l: "ringLen (gcBuf (it1\<lparr>gcBuf := b\<rparr>)) + length rest = ringLen (gcBuf it) + length (x # rest)" using b(4) r by simp
      show ?thesis using Cons.IH [of "it1\<lparr>gcBuf := b\<rparr>"] b(2) unfolding f w [symmetric] l [symmetric] by simp
    qed
  qed
qed

lemma peekAt_ok:
  assumes "ring_ok (gcBuf it)" "i < 3"
  shows "\<exists>it'. peekAt i it = Inr (if i < length (fst (window it)) then Some (fst (window it) ! i) else None, it') \<and>
    ring_ok (gcBuf it') \<and> window it' = window it \<and> it_size it' \<le> it_size it \<and>
    (if i < length (fst (window it)) then i < ringLen (gcBuf it') else gcErr it' = snd (window it) \<and> ringLen (gcBuf it') = length (fst (window it)))"
proof -
  have "\<exists>ok it'. (if ringLen (gcBuf it) \<le> i then fillTo (i + 1) it else Inr (True, it)) = Inr (ok, it') \<and> ring_ok (gcBuf it') \<and>
      window it' = window it \<and> it_size it' \<le> it_size it \<and>
      (if ok then i < ringLen (gcBuf it') else ringLen (gcBuf it') \<le> i \<and> fst (window it') = ringList (gcBuf it') \<and> gcErr it' = snd (window it'))"
  proof (cases "ringLen (gcBuf it) \<le> i")
    case True
    then have n: "i + 1 \<le> 3" using assms(2) by simp
    have "it\<lparr>ahead := ahead it\<rparr> = it" by simp
    then obtain ok it' where "fillLoop (i + 1) (ahead it) it = Inr (ok, it')" "ring_ok (gcBuf it')" "window it' = window it" "it_size it' \<le> it_size it"
        "if ok then i + 1 \<le> ringLen (gcBuf it') else ringLen (gcBuf it') < i + 1 \<and> fst (window it') = ringList (gcBuf it') \<and> gcErr it' = snd (window it')"
      using fillLoop_ok [OF assms(1) n, of "ahead it"] unfolding it_size_def [of it] by metis
    then show ?thesis using True by (intro exI [of _ ok] exI [of _ it']) (auto simp: fillTo_def split: if_splits)
  next
    case False
    then show ?thesis using assms(1) by auto
  qed
  then obtain ok it' where f: "(if ringLen (gcBuf it) \<le> i then fillTo (i + 1) it else Inr (True, it)) = Inr (ok, it')"
      "ring_ok (gcBuf it')" "window it' = window it" "it_size it' \<le> it_size it"
      "if ok then i < ringLen (gcBuf it') else ringLen (gcBuf it') \<le> i \<and> fst (window it') = ringList (gcBuf it') \<and> gcErr it' = snd (window it')"
    by blast
  show ?thesis
  proof (cases ok)
    case True
    then have i: "i < ringLen (gcBuf it')" using f(5) by simp
    then have "i < length (fst (window it))" "fst (window it) ! i = ringList (gcBuf it') ! i"
      unfolding f(3) [symmetric] by (simp_all add: window_def nth_append)
    then show ?thesis using f True i by (simp add: peekAt_def ringAt_nth)
  next
    case False
    then have "\<not> i < length (fst (window it))" using f(3,5) by simp
    then show ?thesis using f False by (simp add: peekAt_def)
  qed
qed

text \<open>The state is a function of the next three versions.\<close>

definition lookahead :: "(mvccKeyValue \<times> Timestamp) list \<times> go_error option \<Rightarrow> gcIteratorState option" where
  "lookahead w =
    (let same = (\<lambda>i. i < length (fst w) \<and> MKey (kvKey (fst (fst w ! i))) = MKey (kvKey (fst (fst w ! 0))));
         broken = (\<lambda>i. \<not> i < length (fst w) \<and> snd w \<noteq> None)
     in if \<not> 0 < length (fst w) \<or> broken 1 \<or> same 1 \<and> broken 2 then None
        else Some \<lparr>cur = fst (fst w ! 0), nextKV = (if same 1 then Some (fst (fst w ! 1)) else None),
          afterNext = (if same 1 \<and> same 2 then Some (fst (fst w ! 2)) else None),
          firstRangeTombstoneTsAtOrBelowGC = snd (fst w ! 0)\<rparr>)"

lemma state_ok:
  assumes "ring_ok (gcBuf it)"
  shows "\<exists>it'. state it = Inr (lookahead (window it), it') \<and> ring_ok (gcBuf it') \<and> window it' = window it \<and> it_size it' \<le> it_size it \<and>
    (if lookahead (window it) = None then gcErr it' = snd (window it) else
      0 < ringLen (gcBuf it') \<and> (case lookahead (window it) of None \<Rightarrow> True | Some s \<Rightarrow> nextKV s \<noteq> None \<longrightarrow> 1 < ringLen (gcBuf it')))"
proof -
  let ?w = "window it" and ?n = "length (fst (window it))"
  define r where "r = (\<lambda>i. if i < ?n then Some (fst ?w ! i) else None)"
  define good where "good = (\<lambda>i it'. ring_ok (gcBuf it') \<and> window it' = ?w \<and> it_size it' \<le> it_size it \<and>
    (if i < ?n then i < ringLen (gcBuf it') else gcErr it' = snd ?w \<and> ringLen (gcBuf it') = ?n))"
  have peek: "\<exists>it''. peekAt i it' = Inr (r i, it'') \<and> good i it''" if "ring_ok (gcBuf it')" "window it' = ?w" "it_size it' \<le> it_size it" "i < 3" for i it'
  proof -
    note h = that
    obtain it'' where "peekAt i it' = Inr (if i < length (fst (window it')) then Some (fst (window it') ! i) else None, it'')" "ring_ok (gcBuf it'')"
        "window it'' = window it'" "it_size it'' \<le> it_size it'"
        "if i < length (fst (window it')) then i < ringLen (gcBuf it'') else gcErr it'' = snd (window it') \<and> ringLen (gcBuf it'') = length (fst (window it'))"
      using peekAt_ok [OF h(1,4)] by blast
    then show ?thesis using h(2,3) by (intro exI [of _ it'']) (simp add: r_def good_def)
  qed
  obtain it0 where p0: "peekAt 0 it = Inr (r 0, it0)" and g0: "good 0 it0" using peek [of it 0] assms by auto
  obtain it1 where p1: "peekAt 1 it0 = Inr (r 1, it1)" and g1: "good 1 it1" using peek [of it0 1] g0 by (auto simp: good_def)
  obtain it2 where p2: "peekAt 2 it1 = Inr (r 2, it2)" and g2: "good 2 it2" using peek [of it1 2] g1 by (auto simp: good_def)
  have k: "good i it' \<Longrightarrow> ring_ok (gcBuf it') \<and> window it' = ?w \<and> it_size it' \<le> it_size it" for i it' by (simp add: good_def)
  note st = state_def [of it, unfolded p0 rbind_simps prod.case]
  let ?same = "MKey (kvKey (fst (fst ?w ! 1))) = MKey (kvKey (fst (fst ?w ! 0)))"
  have fin: ?thesis
    if "state it = Inr (lookahead ?w, it')" "good i it'" "lookahead ?w = None \<Longrightarrow> \<not> i < ?n"
      "lookahead ?w \<noteq> None \<Longrightarrow> 0 < ?n" "\<And>s. lookahead ?w = Some s \<Longrightarrow> nextKV s \<noteq> None \<Longrightarrow> 1 < ?n \<and> 1 < i" for i it'
  proof -
    have "0 < ringLen (gcBuf it')" if "lookahead ?w \<noteq> None"
      using \<open>good i it'\<close> \<open>lookahead ?w \<noteq> None \<Longrightarrow> 0 < ?n\<close> [OF that] unfolding good_def by (cases "i < ?n") auto
    moreover have "1 < ringLen (gcBuf it')" if "lookahead ?w = Some s" "nextKV s \<noteq> None" for s
      using \<open>good i it'\<close> that(1,2) \<open>\<And>s. lookahead ?w = Some s \<Longrightarrow> nextKV s \<noteq> None \<Longrightarrow> 1 < ?n \<and> 1 < i\<close> [OF that]
      unfolding good_def by (cases "i < ?n") auto
    moreover have "gcErr it' = snd ?w" if "lookahead ?w = None" using that \<open>good i it'\<close> \<open>lookahead ?w = None \<Longrightarrow> \<not> i < ?n\<close> unfolding good_def by simp
    ultimately show ?thesis using \<open>state it = Inr (lookahead ?w, it')\<close> k [OF \<open>good i it'\<close>]
      by (intro exI [of _ it']) (simp split: option.split)
  qed
  consider (a) "?n = 0" | (b) "?n = 1" | (c) "?n > 1" "\<not> ?same" | (d) "?n = 2" ?same | (e) "?n > 2" ?same by linarith
  then show ?thesis
  proof cases
    case a
    have "state it = Inr (lookahead ?w, it0)" unfolding st by (simp add: r_def a lookahead_def)
    then show ?thesis by (rule fin [OF _ g0]) (simp_all add: a lookahead_def)
  next
    case b
    have "state it = Inr (lookahead ?w, it1)" unfolding st using p1 g1
      by (cases "fst ?w ! 0") (simp add: r_def b lookahead_def good_def)
    then show ?thesis by (rule fin [OF _ g1]) (auto simp: b lookahead_def Let_def split: if_splits)
  next
    case c
    have "state it = Inr (lookahead ?w, it1)" unfolding st using p1
      by (cases "fst ?w ! 0"; cases "fst ?w ! 1") (use c in \<open>auto simp: r_def lookahead_def\<close>)
    then show ?thesis by (rule fin [OF _ g1]) (use c in \<open>auto simp: lookahead_def Let_def split: if_splits\<close>)
  next
    case d
    have "state it = Inr (lookahead ?w, it2)" unfolding st using p1 p2 g2
      by (cases "fst ?w ! 0"; cases "fst ?w ! 1") (use d in \<open>auto simp: r_def lookahead_def good_def\<close>)
    then show ?thesis by (rule fin [OF _ g2]) (use d in \<open>auto simp: lookahead_def Let_def split: if_splits\<close>)
  next
    case e
    have "state it = Inr (lookahead ?w, it2)" unfolding st using p1 p2
      by (cases "fst ?w ! 0"; cases "fst ?w ! 1"; cases "fst ?w ! 2") (use e in \<open>auto simp: r_def lookahead_def\<close>)
    then show ?thesis by (rule fin [OF _ g2]) (use e in \<open>auto simp: lookahead_def Let_def split: if_splits\<close>)
  qed
qed

lemma step_ok:
  assumes "ring_ok (gcBuf it)" "0 < ringLen (gcBuf it)"
  shows "\<exists>it'. stepIt it = Inr it' \<and> ring_ok (gcBuf it') \<and> window it' = apfst tl (window it) \<and> it_size it' < it_size it \<and>
    ringLen (gcBuf it') = ringLen (gcBuf it) - 1"
proof -
  obtain b where b: "removeFront (gcBuf it) = Inr b" "ring_ok b" "ringList b = tl (ringList (gcBuf it))" "ringLen b = ringLen (gcBuf it) - 1"
    using removeFront_ok [OF assms] by metis
  have "ringList (gcBuf it) \<noteq> []" using assms(2) by (metis length_0_conv less_irrefl ringList_simps(1))
  then show ?thesis using b assms(2) by (auto simp: stepIt_def window_def it_size_def apfst_def map_prod_def split: prod.splits)
qed

end
