(* ===== verification/Gc_Run.thy ===== *)
theory Gc_Run
  imports Gc_Iterator
begin

text \<open>
  Finding the garbage of a range: \<open>isGarbage\<close> and the loop of \<open>processReplicatedKeyRange\<close> in
  \<open>engine/pkg/kv/kvserver/gc/gc.go\<close>.  The loop hands every version to a sink, which is told whether the version is garbage, and
  every metadata record of an intent to the handler of intents.  The sink, in the code the batcher that turns garbage into
  requests (\<open>gcKeyBatcher\<close>), is an argument.  The fast path that clears a whole range under a range tombstone, and checks
  that only run in race builds, are left out.
\<close>

subsection \<open>Garbage\<close>

definition CalculateThreshold :: "Timestamp \<Rightarrow> int64 \<Rightarrow> Timestamp" where
  "CalculateThreshold now gcttl = Add now (- gcttl) 0"

definition TimestampForThreshold :: "Timestamp \<Rightarrow> int64 \<Rightarrow> Timestamp" where
  "TimestampForThreshold threshold gcttl = Add threshold gcttl 0"

definition isGarbage :: "Timestamp \<Rightarrow> mvccKeyValue \<Rightarrow> mvccKeyValue option \<Rightarrow> bool \<Rightarrow> Timestamp \<Rightarrow> bool result" where
  "isGarbage threshold c next isNewestPoint rangeTombstoneTS =
    (if \<not> LessEq (MTimestamp (kvKey c)) threshold then Inr False
     else if Less (MTimestamp (kvKey c)) rangeTombstoneTS then Inr True
     else if isNewestPoint \<and> \<not> mvccValueIsTombstone c then Inr False
     else if \<not> mvccValueIsTombstone c \<and> next = None then Inl (Panic ''huh'')
     else Inr (mvccValueIsTombstone c \<or> (case next of None \<Rightarrow> False | Some n \<Rightarrow> LessEq (MTimestamp (kvKey n)) threshold)))"

subsection \<open>The loop\<close>

record 'b gcSink =
  sinkGarbage :: "mvccKeyValue \<Rightarrow> bool \<Rightarrow> 'b \<Rightarrow> 'b result"
  sinkNonGCable :: "mvccKeyValue \<Rightarrow> bool \<Rightarrow> 'b \<Rightarrow> 'b result"
  sinkIntent :: "mvccKeyValue \<Rightarrow> 'b \<Rightarrow> 'b result"

text \<open>What one turn of the loop tells the sink, and whether it steps over the metadata of an intent as well.\<close>

definition gcTurn :: "'b gcSink \<Rightarrow> Timestamp \<Rightarrow> gcIteratorState \<Rightarrow> 'b \<Rightarrow> 'b result" where
  "gcTurn k threshold s b =
    (if curIsNotValue s then sinkNonGCable k (cur s) True b
     else if curIsIntent s then
       rbind (sinkNonGCable k (cur s) True b) (\<lambda>b. case nextKV s of None \<Rightarrow> Inr b | Some n \<Rightarrow> sinkIntent k n b)
     else rbind (isGarbage threshold (cur s) (nextKV s) (curIsNewest s) (firstRangeTombstoneTsAtOrBelowGC s)) (\<lambda>g.
       if g then sinkGarbage k (cur s) (curLastKeyVersion s) b else sinkNonGCable k (cur s) (curLastKeyVersion s) b))"

definition twoSteps :: "gcIteratorState \<Rightarrow> bool" where
  "twoSteps s \<longleftrightarrow> \<not> curIsNotValue s \<and> curIsIntent s"

definition gcStep :: "gcIteratorState \<Rightarrow> gcIterator \<Rightarrow> gcIterator result" where
  "gcStep s it = (if twoSteps s then rbind (stepIt it) stepIt else stepIt it)"

lemma fillLoop_size: "fillLoop n items it = Inr (ok, it') \<Longrightarrow> it_size it' \<le> ringLen (gcBuf it) + length items"
proof (induction items arbitrary: it)
  case Nil
  then show ?case by (subst (asm) fillLoop.simps) (auto simp: it_size_def split: if_splits)
next
  case (Cons x rest)
  show ?case
  proof (cases "n \<le> ringLen (gcBuf it)")
    case True
    then show ?thesis using Cons.prems by (subst (asm) fillLoop.simps) (auto simp: it_size_def)
  next
    case less: False
    show ?thesis
    proof (cases x)
      case (Point kv stack)
      obtain ts it1 where c: "(case stack of None \<Rightarrow> (emptyTimestamp, it) | Some st \<Rightarrow> currentRangeTS st it) = (ts, it1)" by fastforce
      then have r: "gcBuf it1 = gcBuf it" by (auto simp: currentRangeTS_def Let_def split: option.splits if_splits)
      from Cons.prems less c obtain b where "pushBack (gcBuf it1) kv ts = Inr b" "fillLoop n rest (it1\<lparr>gcBuf := b\<rparr>) = Inr (ok, it')"
        by (subst (asm) fillLoop.simps) (auto simp: Point rbind_Inr_conv)
      then show ?thesis using Cons.IH [of "it1\<lparr>gcBuf := b\<rparr>"] r by (auto simp: pushBack_def Let_def split: if_splits)
    next
      case (BareRange s)
      then show ?thesis using Cons.prems less Cons.IH [of it] by (subst (asm) fillLoop.simps) auto
    next
      case (Broken e)
      then show ?thesis using Cons.prems less by (subst (asm) fillLoop.simps) (auto simp: it_size_def)
    qed
  qed
qed

lemma peekAt_size:
  assumes "peekAt i it = Inr (r, it')"
  shows "it_size it' \<le> it_size it"
proof -
  obtain ok it1 where f: "(if ringLen (gcBuf it) \<le> i then fillTo (i + 1) it else Inr (True, it)) = Inr (ok, it1)"
      "(if \<not> ok then Inr (None, it1) else rbind (ringAt (gcBuf it1) i) (\<lambda>x. Inr (Some x, it1))) = Inr (r, it')"
    using assms by (auto simp: peekAt_def rbind_Inr_conv)
  have "it1 = it'" using f(2) by (auto simp: rbind_Inr_conv split: if_splits)
  moreover have "it_size it1 \<le> it_size it"
    using f(1) fillLoop_size [of "i + 1" "ahead it" it ok it1] by (auto simp: fillTo_def it_size_def split: if_splits)
  ultimately show ?thesis by simp
qed

lemma state_size:
  assumes "state it = Inr (r, it')"
  shows "it_size it' \<le> it_size it"
proof -
  obtain c it0 where p0: "peekAt 0 it = Inr (c, it0)" using assms by (cases "peekAt 0 it") (auto simp: state_def)
  show ?thesis
  proof (cases c)
    case None
    then show ?thesis using assms p0 peekAt_size [OF p0] by (simp add: state_def)
  next
    case (Some x)
    obtain cv ts where x: "x = (cv, ts)" by (cases x)
    obtain n it1 where p1: "peekAt 1 it0 = Inr (n, it1)" using assms p0 Some x by (cases "peekAt 1 it0") (auto simp: state_def)
    have l: "it_size it1 \<le> it_size it" using peekAt_size [OF p0] peekAt_size [OF p1] by simp
    consider (one) "it' = it1" | (two) y z a it2 where "n = Some (y, z)" "peekAt 2 it1 = Inr (a, it2)" "it' = it2"
      using assms p0 p1 Some x unfolding state_def
      by (cases n; cases "peekAt 2 it1") (auto simp: Let_def split: if_splits option.splits prod.splits)
    then show ?thesis using l peekAt_size by cases fastforce+
  qed
qed

lemma stepIt_size: "stepIt it = Inr it' \<Longrightarrow> it_size it' < it_size it"
  by (auto simp: stepIt_def removeFront_def rbind_Inr_conv it_size_def split: if_splits)

lemma gcStep_size: "gcStep s it = Inr it' \<Longrightarrow> it_size it' < it_size it"
  by (auto simp: gcStep_def rbind_Inr_conv dest!: stepIt_size split: if_splits)

function gcLoop :: "'b gcSink \<Rightarrow> Timestamp \<Rightarrow> gcIterator \<Rightarrow> 'b \<Rightarrow> 'b result" where
  "gcLoop k threshold it b =
    (case state it of
       Inl e \<Rightarrow> Inl e
     | Inr (None, it') \<Rightarrow> (case gcErr it' of None \<Rightarrow> Inr b | Some e \<Rightarrow> Inl e)
     | Inr (Some s, it') \<Rightarrow>
         (case gcTurn k threshold s b of
            Inl e \<Rightarrow> Inl e
          | Inr b' \<Rightarrow> (case gcStep s it' of Inl e \<Rightarrow> Inl e | Inr it'' \<Rightarrow> gcLoop k threshold it'' b')))"
  by pat_completeness auto
termination
  by (relation "measure (\<lambda>(_, _, it, _). it_size it)") (auto dest!: state_size gcStep_size)

declare gcLoop.simps [simp del]

definition processKeyRange :: "'b gcSink \<Rightarrow> gcItem list \<Rightarrow> Timestamp \<Rightarrow> 'b \<Rightarrow> 'b result" where
  "processKeyRange k items threshold b = gcLoop k threshold (makeGCIterator items threshold) b"

subsection \<open>The loop over a list\<close>

text \<open>What the sink is told.\<close>

datatype gcEvent = Garbage mvccKeyValue bool | NonGCable mvccKeyValue bool | IntentAt mvccKeyValue

fun tell :: "'b gcSink \<Rightarrow> gcEvent \<Rightarrow> 'b \<Rightarrow> 'b result" where
  "tell k (Garbage c l) b = sinkGarbage k c l b"
| "tell k (NonGCable c l) b = sinkNonGCable k c l b"
| "tell k (IntentAt m) b = sinkIntent k m b"

fun tellAll :: "'b gcSink \<Rightarrow> gcEvent list \<Rightarrow> 'b \<Rightarrow> 'b result" where
  "tellAll k [] b = Inr b"
| "tellAll k (e # es) b = rbind (tell k e b) (\<lambda>b. tellAll k es b)"

lemma tellAll_append: "tellAll k (xs @ ys) b = rbind (tellAll k xs b) (tellAll k ys)"
  by (induction xs arbitrary: b) (auto simp: rbind_def split: sum.splits)

definition turnEvents :: "Timestamp \<Rightarrow> gcIteratorState \<Rightarrow> gcEvent list" where
  "turnEvents threshold s =
    (if curIsNotValue s then [NonGCable (cur s) True]
     else if curIsIntent s then [NonGCable (cur s) True, IntentAt (the (nextKV s))]
     else if isGarbage threshold (cur s) (nextKV s) (curIsNewest s) (firstRangeTombstoneTsAtOrBelowGC s) = Inr True
     then [Garbage (cur s) (curLastKeyVersion s)] else [NonGCable (cur s) (curLastKeyVersion s)])"

lemma lookahead_simps:
  "lookahead w = None \<Longrightarrow> snd w = None \<Longrightarrow> fst w = []"
  "lookahead w = Some s \<Longrightarrow> fst w \<noteq> []"
  "lookahead w = Some s \<Longrightarrow> cur s = fst (hd (fst w))"
  "lookahead w = Some s \<Longrightarrow> nextKV s \<noteq> None \<Longrightarrow> 1 < length (fst w)"
  by (auto simp: lookahead_def Let_def hd_conv_nth split: if_splits)

lemma rbind_right [simp]: "rbind x (tellAll k []) = x" "rbind x Inr = x"
  by (cases x; simp)+

lemma tell_intent [simp]: "tell k (IntentAt m) = sinkIntent k m"
  by (rule ext) simp

lemma rbind_one [simp]: "rbind x (tellAll k [e]) = rbind x (tell k e)"
  by (cases x) simp_all

lemma gcTurn_events:
  assumes "lookahead w = Some s"
  shows "gcTurn k threshold s b = tellAll k (turnEvents threshold s) b"
proof (cases "curIsNotValue s \<or> curIsIntent s")
  case True
  then show ?thesis by (cases "curIsNotValue s"; cases "nextKV s") (simp_all add: gcTurn_def turnEvents_def curIsIntent_def)
next
  case False
  then have "\<exists>g. isGarbage threshold (cur s) (nextKV s) (curIsNewest s) (firstRangeTombstoneTsAtOrBelowGC s) = Inr g"
    by (auto simp: isGarbage_def curIsNewest_def curIsNotValue_def)
  then obtain g where "isGarbage threshold (cur s) (nextKV s) (curIsNewest s) (firstRangeTombstoneTsAtOrBelowGC s) = Inr g" by blast
  then show ?thesis using False by (cases g) (simp_all add: gcTurn_def turnEvents_def)
qed

function gcEvents :: "Timestamp \<Rightarrow> (mvccKeyValue \<times> Timestamp) list \<times> go_error option \<Rightarrow> gcEvent list \<times> go_error option" where
  "gcEvents threshold w =
    (case lookahead w of
       None \<Rightarrow> ([], snd w)
     | Some s \<Rightarrow> apfst ((@) (turnEvents threshold s)) (gcEvents threshold (apfst (drop (if twoSteps s then 2 else 1)) w)))"
  by pat_completeness auto
termination
  by (relation "measure (\<lambda>(_, w). length (fst w))") (auto dest: lookahead_simps(2))

declare gcEvents.simps [simp del]

definition outcome :: "'b gcSink \<Rightarrow> gcEvent list \<times> go_error option \<Rightarrow> 'b \<Rightarrow> 'b result" where
  "outcome k w b = rbind (tellAll k (fst w) b) (\<lambda>b. case snd w of None \<Rightarrow> Inr b | Some e \<Rightarrow> Inl e)"

lemma gcLoop_events: "ring_ok (gcBuf it) \<Longrightarrow> gcLoop k threshold it b = outcome k (gcEvents threshold (window it)) b"
proof (induction "it_size it" arbitrary: it b rule: less_induct)
  case less
  obtain it' where st: "state it = Inr (lookahead (window it), it')" "ring_ok (gcBuf it')" "window it' = window it" "it_size it' \<le> it_size it"
      "if lookahead (window it) = None then gcErr it' = snd (window it) else
        0 < ringLen (gcBuf it') \<and> (case lookahead (window it) of None \<Rightarrow> True | Some s \<Rightarrow> nextKV s \<noteq> None \<longrightarrow> 1 < ringLen (gcBuf it'))"
    using state_ok [OF less.prems] by blast
  show ?case
  proof (cases "lookahead (window it)")
    case None
    then show ?thesis using st(1,5) by (subst gcLoop.simps) (simp add: gcEvents.simps [of threshold "window it"] outcome_def)
  next
    case (Some s)
    have l: "0 < ringLen (gcBuf it')" "twoSteps s \<Longrightarrow> 1 < ringLen (gcBuf it')"
      using st(5) Some by (auto simp: twoSteps_def curIsIntent_def split: option.splits)
    have "\<exists>it''. gcStep s it' = Inr it'' \<and> ring_ok (gcBuf it'') \<and> window it'' = apfst (drop (if twoSteps s then 2 else 1)) (window it) \<and> it_size it'' < it_size it"
    proof -
      obtain it1 where i1: "stepIt it' = Inr it1" "ring_ok (gcBuf it1)" "window it1 = apfst tl (window it')" "it_size it1 < it_size it'"
          "ringLen (gcBuf it1) = ringLen (gcBuf it') - 1" using step_ok [OF st(2) l(1)] by blast
      show ?thesis
      proof (cases "twoSteps s")
        case True
        then obtain it2 where "stepIt it1 = Inr it2" "ring_ok (gcBuf it2)" "window it2 = apfst tl (window it1)" "it_size it2 < it_size it1"
          using step_ok [OF i1(2)] i1(5) l(2) by auto
        moreover have "tl (tl xs) = drop 2 xs" for xs :: "(mvccKeyValue \<times> Timestamp) list" by (simp add: drop_Suc numeral_2_eq_2)
        ultimately show ?thesis using True i1 st(3,4) by (cases "window it") (simp add: gcStep_def)
      next
        case False
        then show ?thesis using i1 st(3,4) by (cases "window it") (simp add: gcStep_def drop_Suc)
      qed
    qed
    then obtain it'' where n: "gcStep s it' = Inr it''" "ring_ok (gcBuf it'')" "window it'' = apfst (drop (if twoSteps s then 2 else 1)) (window it)"
        "it_size it'' < it_size it" by blast
    have IH: "gcLoop k threshold it'' b' = outcome k (gcEvents threshold (window it'')) b'" for b' by (rule less.hyps [OF n(4,2)])
    show ?thesis using st(1) Some n(1) gcTurn_events [OF Some, of k threshold b]
      by (subst gcLoop.simps) (simp add: gcEvents.simps [of threshold "window it"] n(3) [symmetric] IH outcome_def tellAll_append rbind_def split: sum.split)
  qed
qed

end
