(* ===== verification/Gc_Safe.thy ===== *)
theory Gc_Safe
  imports Gc_Run
begin

text \<open>
  What the garbage of theory \<open>Gc_Run\<close> is, on a snapshot of the store with intents and range tombstones, and that removing it
  changes no read at or above the threshold.
\<close>

declare not_LessEq [simp del] not_Less [simp del]

subsection \<open>The snapshot as the iterator sees it\<close>

text \<open>A range tombstone stack for every key that has one over it; stacks are told apart by their start key.\<close>

type_synonym rangeKeys = "bytes \<Rightarrow> MVCCRangeKeyStack option"

definition consistent :: "rangeKeys \<Rightarrow> bool" where
  "consistent rk \<longleftrightarrow> (\<forall>k st. rk k = Some st \<longrightarrow> Key (Bounds st) \<noteq> [] \<and> newest_first (Versions st) \<and>
      list_all (\<lambda>v. \<not> IsEmpty (VTimestamp v)) (Versions st)) \<and>
    (\<forall>k k' st st'. rk k = Some st \<and> rk k' = Some st' \<and> Key (Bounds st) = Key (Bounds st') \<longrightarrow> st = st')"

definition kvOf :: "MVCCKey \<times> bytes \<Rightarrow> mvccKeyValue" where
  "kvOf e = (if IsValue (fst e)
     then \<lparr>kvKey = fst e, mvccValueLen = int (length (snd e)), mvccValueIsTombstone = (EncodedMVCCValueIsTombstone (snd e) = Inr True), metaValue = []\<rparr>
     else \<lparr>kvKey = fst e, mvccValueLen = 0, mvccValueIsTombstone = False, metaValue = snd e\<rparr>)"

definition itemOf :: "rangeKeys \<Rightarrow> MVCCKey \<times> bytes \<Rightarrow> gcItem" where
  "itemOf rk e =
    (case EncodedMVCCValueIsTombstone (snd e) of
       Inl x \<Rightarrow> if IsValue (fst e) then Broken x else Point (kvOf e) (rk (MKey (fst e)))
     | Inr _ \<Rightarrow> Point (kvOf e) (rk (MKey (fst e))))"

definition gcItems :: "rangeKeys \<Rightarrow> snapshot \<Rightarrow> gcItem list" where
  "gcItems rk es = map (itemOf rk) (rev es)"

definition readable :: "snapshot \<Rightarrow> bool" where
  "readable es \<longleftrightarrow> list_all (\<lambda>e. IsValue (fst e) \<longrightarrow> (\<exists>v. DecodeMVCCValue (snd e) = Inr v)) es"

definition tombstoneTS :: "Timestamp \<Rightarrow> MVCCRangeKeyStack option \<Rightarrow> Timestamp" where
  "tombstoneTS thr st = (case st of None \<Rightarrow> emptyTimestamp | Some s \<Rightarrow>
     (case FirstAtOrBelow (Versions s) thr of Some v \<Rightarrow> VTimestamp v | None \<Rightarrow> emptyTimestamp))"

lemma decode_tombstone:
  assumes "DecodeMVCCValue raw = Inr v"
  shows "EncodedMVCCValueIsTombstone raw = Inr (RawBytes v = [])"
  using assms by (auto simp: DecodeMVCCValue_def tryDecodeSimpleMVCCValue_def decodeExtendedMVCCValue_def EncodedMVCCValueIsTombstone_def
      Let_def rbind_Inr_conv split: if_splits)

lemma entries_snapshot:
  assumes "consistent rk" "readable es" "fst c \<noteq> [] \<Longrightarrow> \<exists>k st. rk k = Some st \<and> Key (Bounds st) = fst c \<and> snd c = tombstoneTS thr (Some st)"
  shows "entriesOf thr c (map (itemOf rk) es) = (map (\<lambda>e. (kvOf e, tombstoneTS thr (rk (MKey (fst e))))) es, None)"
  using assms(2,3)
proof (induction es arbitrary: c)
  case (Cons e es)
  obtain p where p: "itemOf rk e = Point (kvOf e) (rk (MKey (fst e)))"
    using Cons.prems(1) decode_tombstone [of "snd e"] by (auto simp: itemOf_def readable_def split: sum.split)
  have r: "readable es" using Cons.prems(1) by (simp add: readable_def)
  show ?case
  proof (cases "rk (MKey (fst e))")
    case None
    then show ?thesis using Cons.IH [OF r Cons.prems(2)] p by (simp add: tombstoneTS_def)
  next
    case (Some st)
    let ?c = "if Key (Bounds st) = fst c then c
       else (Key (Bounds st), case FirstAtOrBelow (Versions st) thr of Some v \<Rightarrow> VTimestamp v | None \<Rightarrow> emptyTimestamp)"
    have ne: "Key (Bounds st) \<noteq> []" using assms(1) Some by (auto simp: consistent_def)
    have c: "fst ?c = Key (Bounds st)" "snd ?c = tombstoneTS thr (Some st)"
    proof -
      show "fst ?c = Key (Bounds st)" by simp
      show "snd ?c = tombstoneTS thr (Some st)"
      proof (cases "Key (Bounds st) = fst c")
        case True
        then obtain k st' where "rk k = Some st'" "Key (Bounds st') = fst c" "snd c = tombstoneTS thr (Some st')"
          using Cons.prems(2) ne by auto
        moreover have "st' = st" using assms(1) Some calculation True unfolding consistent_def by metis
        ultimately show ?thesis using True by simp
      qed (simp add: tombstoneTS_def)
    qed
    have "entriesOf thr ?c (map (itemOf rk) es) = (map (\<lambda>e. (kvOf e, tombstoneTS thr (rk (MKey (fst e))))) es, None)"
      using Cons.IH [OF r, of ?c] c Some by metis
    then show ?thesis using p Some c(2) by (simp add: Let_def)
  qed
qed simp

lemma readable_rev: "readable (rev es) \<longleftrightarrow> readable es"
  by (simp add: readable_def list_all_iff)

definition entries :: "Timestamp \<Rightarrow> rangeKeys \<Rightarrow> snapshot \<Rightarrow> (mvccKeyValue \<times> Timestamp) list" where
  "entries thr rk es = map (\<lambda>e. (kvOf e, tombstoneTS thr (rk (MKey (fst e))))) (rev es)"

lemma processKeyRange_events:
  assumes "consistent rk" "readable es"
  shows "processKeyRange k (gcItems rk es) thr b = outcome k (gcEvents thr (entries thr rk es, None)) b"
proof -
  have "window (makeGCIterator (gcItems rk es) thr) = (entries thr rk es, None)"
    using entries_snapshot [OF assms(1), of "rev es" "([], emptyTimestamp)" thr] assms(2)
    by (simp add: window_def makeGCIterator_def gcItems_def entries_def readable_rev)
  then show ?thesis unfolding processKeyRange_def by (subst gcLoop_events) (simp_all add: makeGCIterator_def)
qed

subsection \<open>The garbage of a snapshot\<close>

abbreviation sameKey :: "MVCCKey \<times> bytes \<Rightarrow> MVCCKey \<times> bytes \<Rightarrow> bool" where "sameKey x y \<equiv> MKey (fst x) = MKey (fst y)"

abbreviation tsOf :: "MVCCKey \<times> bytes \<Rightarrow> Timestamp" where "tsOf e \<equiv> MTimestamp (fst e)"

text \<open>The newest version of a key with metadata is provisional, the value of an intent.\<close>

definition provisional :: "snapshot \<Rightarrow> MVCCKey \<times> bytes \<Rightarrow> bool" where
  "provisional es e \<longleftrightarrow> IsValue (fst e) \<and> list_ex (\<lambda>m. sameKey m e \<and> \<not> IsValue (fst m)) es \<and>
    list_all (\<lambda>x. sameKey x e \<and> IsValue (fst x) \<longrightarrow> LessEq (tsOf x) (tsOf e)) es"

definition committedIn :: "snapshot \<Rightarrow> MVCCKey \<times> bytes \<Rightarrow> bool" where
  "committedIn es e \<longleftrightarrow> IsValue (fst e) \<and> \<not> provisional es e"

definition garbage :: "Timestamp \<Rightarrow> rangeKeys \<Rightarrow> snapshot \<Rightarrow> MVCCKey \<times> bytes \<Rightarrow> bool" where
  "garbage thr rk es e \<longleftrightarrow> committedIn es e \<and> LessEq (tsOf e) thr \<and>
    (Less (tsOf e) (tombstoneTS thr (rk (MKey (fst e)))) \<or> mvccValueIsTombstone (kvOf e) \<or>
     list_ex (\<lambda>x. sameKey x e \<and> committedIn es x \<and> Less (tsOf e) (tsOf x) \<and> LessEq (tsOf x) thr) es)"

fun garbageOf :: "gcEvent list \<Rightarrow> mvccKeyValue list" where
  "garbageOf [] = []"
| "garbageOf (Garbage c _ # evs) = c # garbageOf evs"
| "garbageOf (_ # evs) = garbageOf evs"

lemma garbageOf_append [simp]: "garbageOf (xs @ ys) = garbageOf xs @ garbageOf ys"
  by (induction xs rule: garbageOf.induct) simp_all

lemma kvOf_key [simp]: "kvKey (kvOf e) = fst e"
  by (simp add: kvOf_def)

lemma lookahead_list:
  "lookahead (x # xs, None) = Some \<lparr>cur = fst x,
    nextKV = (case xs of [] \<Rightarrow> None | y # _ \<Rightarrow> if MKey (kvKey (fst y)) = MKey (kvKey (fst x)) then Some (fst y) else None),
    afterNext = (case xs of [] \<Rightarrow> None | y # ys \<Rightarrow> (case ys of [] \<Rightarrow> None | z # _ \<Rightarrow>
      if MKey (kvKey (fst y)) = MKey (kvKey (fst x)) \<and> MKey (kvKey (fst z)) = MKey (kvKey (fst x)) then Some (fst z) else None)),
    firstRangeTombstoneTsAtOrBelowGC = snd x\<rparr>"
  by (cases xs; cases "tl xs") (auto simp: lookahead_def Let_def)

lemma stored_split_order:
  assumes "stored (a @ e # b)"
  shows "x \<in> set a \<Longrightarrow> MVCCKeyLess (fst x) (fst e)" "y \<in> set b \<Longrightarrow> MVCCKeyLess (fst e) (fst y)"
  using assms by (auto simp: stored_def sorted_wrt_append)

text \<open>The next newer entry of the key.\<close>

definition newer :: "snapshot \<Rightarrow> MVCCKey \<times> bytes \<Rightarrow> (MVCCKey \<times> bytes) option" where
  "newer a e = (case rev a of [] \<Rightarrow> None | x # _ \<Rightarrow> if sameKey x e then Some x else None)"

lemma newer_None:
  assumes "stored (a @ e # b)" "newer a e = None" "x \<in> set a"
  shows "\<not> sameKey x e"
proof (cases a rule: rev_cases)
  case (snoc ys y)
  then have ne: "\<not> sameKey y e" using assms(2) by (auto simp: newer_def split: if_splits)
  have "stored ((ys @ [y]) @ e # b)" "stored (ys @ y # e # b)" using assms(1) snoc by simp_all
  then have "MKey (fst y) \<le> MKey (fst e)" "x \<in> set ys \<Longrightarrow> MKey (fst x) \<le> MKey (fst y)"
    using stored_split_order(1) [of "ys @ [y]" e b y] stored_split_order(1) [of ys y "e # b" x] by (auto simp: MVCCKeyLess_iff)
  then show ?thesis using ne assms(3) snoc by auto
qed (use assms(3) in simp)

lemma newer_Some:
  assumes "stored (a @ e # b)" "newer a e = Some x"
  obtains a' where "a = a' @ [x]" "sameKey x e" "stored (a' @ x # e # b)" "\<And>y. y \<in> set a' \<Longrightarrow> MVCCKeyLess (fst y) (fst x)"
proof (cases a rule: rev_cases)
  case (snoc ys y)
  then have y: "y = x" "sameKey x e" using assms(2) by (auto simp: newer_def split: if_splits)
  have s: "stored (ys @ x # e # b)" using assms(1) snoc y by simp
  show thesis using that [of ys] snoc y s stored_split_order(1) [OF s] by simp
qed (use assms(2) in \<open>simp add: newer_def\<close>)

lemma provisional_iff:
  assumes "stored (a @ e # b)" "IsValue (fst e)"
  shows "provisional (a @ e # b) e \<longleftrightarrow> (\<exists>m. newer a e = Some m \<and> \<not> IsValue (fst m))"
proof (cases "newer a e")
  case None
  have "IsValue (fst y)" if "y \<in> set b" "sameKey y e" for y
    using stored_split_order(2) [OF assms(1) that(1)] that(2) by (auto simp: MVCCKeyLess_iff)
  then show ?thesis using newer_None [OF assms(1) None] assms(2) None by (auto simp: provisional_def list_ex_iff)
next
  case (Some x)
  obtain a' where x: "a = a' @ [x]" "sameKey x e" "\<And>y. y \<in> set a' \<Longrightarrow> MVCCKeyLess (fst y) (fst x)"
    using newer_Some [OF assms(1) Some] by metis
  show ?thesis
  proof (cases "IsValue (fst x)")
    case True
    have "MVCCKeyLess (fst x) (fst e)" using stored_split_order(1) [OF assms(1)] x(1) by simp
    then have "Less (tsOf e) (tsOf x)" using True x(2) by (auto simp: MVCCKeyLess_iff)
    then show ?thesis using True x Some by (auto simp: provisional_def not_LessEq)
  next
    case False
    have "\<not> sameKey y e" if "y \<in> set a'" for y using x(2) x(3) [OF that] False by (auto simp: MVCCKeyLess_iff)
    moreover have "LessEq (tsOf y) (tsOf e)" if "y \<in> set b" "sameKey y e" for y
      using stored_split_order(2) [OF assms(1) that(1)] that(2) assms(2) by (auto simp: MVCCKeyLess_iff Less_imp_LessEq)
    ultimately show ?thesis using False x(1,2) Some assms(2)
      by (auto simp: provisional_def list_ex_iff list_all_iff)
  qed
qed

lemma lookahead_snapshot:
  "lookahead (entries thr rk (a @ [e]), None) = Some \<lparr>cur = kvOf e, nextKV = map_option kvOf (newer a e),
    afterNext = (case newer a e of None \<Rightarrow> None | Some _ \<Rightarrow> map_option kvOf (newer (butlast a) e)),
    firstRangeTombstoneTsAtOrBelowGC = tombstoneTS thr (rk (MKey (fst e)))\<rparr>"
proof (cases a rule: rev_cases)
  case (snoc ys y)
  then show ?thesis by (cases ys rule: rev_cases) (simp_all add: entries_def lookahead_list newer_def butlast_append)
qed (simp add: entries_def lookahead_list newer_def)

lemma newer_committed:
  assumes "stored (a @ e # b)" "IsValue (fst e)" "newer a e = Some x" "IsValue (fst x)"
  shows "committedIn (a @ e # b) x \<longleftrightarrow> \<not> (\<exists>m. newer (butlast a) e = Some m \<and> \<not> IsValue (fst m))"
proof -
  obtain a' where x: "a = a' @ [x]" "sameKey x e" "stored (a' @ x # e # b)" using newer_Some [OF assms(1,3)] by metis
  have "newer a' x = newer a' e" unfolding newer_def x(2) ..
  then show ?thesis using provisional_iff [OF x(3) assms(4)] x(1) assms(4) by (simp add: committedIn_def)
qed

lemma garbage_iff:
  assumes "stored (a @ e # b)" "IsValue (fst e)"
  shows "garbage thr rk (a @ e # b) e \<longleftrightarrow> \<not> (\<exists>m. newer a e = Some m \<and> \<not> IsValue (fst m)) \<and> LessEq (tsOf e) thr \<and>
    (Less (tsOf e) (tombstoneTS thr (rk (MKey (fst e)))) \<or> mvccValueIsTombstone (kvOf e) \<or>
     (\<exists>x. newer a e = Some x \<and> \<not> (\<exists>m. newer (butlast a) e = Some m \<and> \<not> IsValue (fst m)) \<and> LessEq (tsOf x) thr))"
proof -
  let ?es = "a @ e # b"
  have older: "\<not> Less (tsOf e) (tsOf y)" if "y \<in> set b" "sameKey y e" for y
    using stored_split_order(2) [OF assms(1) that(1)] that(2) assms(2) by (auto simp: MVCCKeyLess_iff not_Less Less_imp_LessEq)
  have "list_ex (\<lambda>x. sameKey x e \<and> committedIn ?es x \<and> Less (tsOf e) (tsOf x) \<and> LessEq (tsOf x) thr) ?es \<longleftrightarrow>
      (\<exists>x. newer a e = Some x \<and> \<not> (\<exists>m. newer (butlast a) e = Some m \<and> \<not> IsValue (fst m)) \<and> LessEq (tsOf x) thr)"
    if nm: "\<not> (\<exists>m. newer a e = Some m \<and> \<not> IsValue (fst m))"
  proof (cases "newer a e")
    case None
    then show ?thesis using newer_None [OF assms(1) None] older by (auto simp: list_ex_iff)
  next
    case (Some x)
    then have v: "IsValue (fst x)" using nm by simp
    obtain a' where x: "a = a' @ [x]" "sameKey x e" "\<And>y. y \<in> set a' \<Longrightarrow> MVCCKeyLess (fst y) (fst x)"
      using newer_Some [OF assms(1) Some] by metis
    have less: "Less (tsOf e) (tsOf x)"
      using stored_split_order(1) [OF assms(1), of x] x(1,2) v assms(2) by (auto simp: MVCCKeyLess_iff)
    have c: "committedIn ?es x \<longleftrightarrow> \<not> (\<exists>m. newer (butlast a) e = Some m \<and> \<not> IsValue (fst m))" by (rule newer_committed [OF assms Some v])
    have "committedIn ?es x \<and> LessEq (tsOf x) thr" if y: "y \<in> set ?es" "sameKey y e" "committedIn ?es y" "Less (tsOf e) (tsOf y)" "LessEq (tsOf y) thr" for y
    proof (cases "y = x")
      case False
      have "y \<notin> set b" "y \<noteq> e" using older [OF _ y(2)] y(4) by (blast, auto)
      then have "y \<in> set a'" using y(1) x(1) False by simp
      then have "MVCCKeyLess (fst y) (fst x)" by (rule x(3))
      then have xy: "Less (tsOf x) (tsOf y)" using x(2) y(2,3) v by (auto simp: MVCCKeyLess_iff committedIn_def)
      have "\<not> provisional ?es x" using xy y(1,2,3) x(2) by (auto simp: provisional_def list_all_iff committedIn_def not_LessEq)
      then show ?thesis using v ts_trans(1) xy y(5) by (auto simp: committedIn_def intro: ts_trans Less_imp_LessEq)
    qed (use y in simp)
    then show ?thesis using Some x(1,2) less c by (auto simp: list_ex_iff)
  qed
  then show ?thesis using provisional_iff [OF assms] assms(2) by (auto simp: garbage_def committedIn_def)
qed

subsection \<open>The loop finds the garbage\<close>

lemma turn_snapshot:
  assumes "stored (a @ e # b)" "lookahead (entries thr rk (a @ [e]), None) = Some s"
  shows "garbageOf (turnEvents thr s) = (if garbage thr rk (a @ e # b) e then [kvOf e] else [])"
    and "twoSteps s \<longleftrightarrow> IsValue (fst e) \<and> (\<exists>m. newer a e = Some m \<and> \<not> IsValue (fst m))"
proof -
  have s: "cur s = kvOf e" "nextKV s = map_option kvOf (newer a e)"
      "afterNext s = (case newer a e of None \<Rightarrow> None | Some _ \<Rightarrow> map_option kvOf (newer (butlast a) e))"
      "firstRangeTombstoneTsAtOrBelowGC s = tombstoneTS thr (rk (MKey (fst e)))"
    using assms(2) unfolding lookahead_snapshot option.inject by (drule_tac [!] sym) simp_all
  show "twoSteps s \<longleftrightarrow> IsValue (fst e) \<and> (\<exists>m. newer a e = Some m \<and> \<not> IsValue (fst m))"
    by (cases "newer a e") (simp_all add: twoSteps_def curIsNotValue_def curIsIntent_def s)
  show "garbageOf (turnEvents thr s) = (if garbage thr rk (a @ e # b) e then [kvOf e] else [])"
  proof (cases "IsValue (fst e)")
    case True
    note turn = turnEvents_def curIsNotValue_def curIsIntent_def curIsNewest_def isGarbage_def s True
    show ?thesis
    proof (cases "newer a e")
      case None
      then show ?thesis unfolding garbage_iff [OF assms(1) True] by (simp add: turn)
    next
      case (Some x)
      then show ?thesis unfolding garbage_iff [OF assms(1) True] by (cases "newer (butlast a) e") (simp_all add: turn)
    qed
  next
    case False
    then show ?thesis by (simp add: turnEvents_def curIsNotValue_def s garbage_def committedIn_def)
  qed
qed

lemma entries_snoc [simp]: "entries thr rk (a @ [e]) = (kvOf e, tombstoneTS thr (rk (MKey (fst e)))) # entries thr rk a"
  "entries thr rk [] = []"
  by (simp_all add: entries_def)

lemma not_value_kept: "\<not> IsValue (fst m) \<Longrightarrow> \<not> garbage thr rk es m"
  by (simp add: garbage_def committedIn_def)

lemma events_garbage:
  "stored (a @ b) \<Longrightarrow> snd (gcEvents thr (entries thr rk a, None)) = None \<and>
    garbageOf (fst (gcEvents thr (entries thr rk a, None))) = map kvOf (filter (garbage thr rk (a @ b)) (rev a))"
proof (induction "length a" arbitrary: a b rule: less_induct)
  case less
  show ?case
  proof (cases a rule: rev_cases)
    case Nil
    then show ?thesis by (subst (1 2) gcEvents.simps) (simp add: lookahead_def)
  next
    case (snoc a' e)
    have st: "stored (a' @ e # b)" using less.prems snoc by simp
    obtain s where s: "lookahead (entries thr rk (a' @ [e]), None) = Some s" using lookahead_snapshot by blast
    note turn = turn_snapshot [OF st s]
    have ev: "gcEvents thr (entries thr rk a, None) =
        apfst ((@) (turnEvents thr s)) (gcEvents thr (drop (if twoSteps s then 1 else 0) (entries thr rk a'), None))"
      using s unfolding snoc by (subst gcEvents.simps) simp
    show ?thesis
    proof (cases "twoSteps s")
      case False
      have "snd (gcEvents thr (entries thr rk a', None)) = None \<and>
          garbageOf (fst (gcEvents thr (entries thr rk a', None))) = map kvOf (filter (garbage thr rk (a' @ e # b)) (rev a'))"
        using less.hyps [of a' "e # b"] st snoc by simp
      then show ?thesis unfolding ev using False turn(1) snoc by simp
    next
      case True
      then obtain m where m: "newer a' e = Some m" "\<not> IsValue (fst m)" using turn(2) by blast
      obtain a'' where a: "a' = a'' @ [m]" using newer_Some [OF st m(1)] by metis
      have "snd (gcEvents thr (entries thr rk a'', None)) = None \<and>
          garbageOf (fst (gcEvents thr (entries thr rk a'', None))) = map kvOf (filter (garbage thr rk (a'' @ m # e # b)) (rev a''))"
        using less.hyps [of a'' "m # e # b"] st snoc a by simp
      then show ?thesis unfolding ev using True turn(1) snoc a not_value_kept [OF m(2)] by simp
    qed
  qed
qed

subsection \<open>Reads above the threshold\<close>

text \<open>The sink that lists the keys of the garbage, and the snapshot without it.\<close>

definition keySink :: "MVCCKey list gcSink" where
  "keySink = \<lparr>sinkGarbage = (\<lambda>c _ ks. Inr (ks @ [kvKey c])), sinkNonGCable = (\<lambda>_ _ ks. Inr ks), sinkIntent = (\<lambda>_ ks. Inr ks)\<rparr>"

definition without :: "MVCCKey list \<Rightarrow> snapshot \<Rightarrow> snapshot" where
  "without ks es = filter (\<lambda>e. fst e \<notin> set ks) es"

lemma tellAll_keys: "tellAll keySink evs ks = Inr (ks @ map kvKey (garbageOf evs))"
  by (induction evs arbitrary: ks rule: garbageOf.induct) (simp_all add: keySink_def)

lemma processKeyRange_garbage:
  assumes "consistent rk" "readable es" "stored es"
  shows "\<exists>evs. garbageOf evs = map kvOf (filter (garbage thr rk es) (rev es)) \<and>
    (\<forall>k b. processKeyRange (k :: 'b gcSink) (gcItems rk es) thr b = tellAll k evs b)"
  using events_garbage [of es "[]" thr rk] assms(3) processKeyRange_events [OF assms(1,2), where ?'a = 'b and thr = thr]
  by (intro exI [of _ "fst (gcEvents thr (entries thr rk es, None))"]) (simp add: outcome_def)

lemma stored_keys:
  assumes "stored es" "x \<in> set es" "y \<in> set es" "fst x = fst y"
  shows "x = y"
proof -
  obtain a b where es: "es = a @ x # b" using assms(2) by (meson split_list)
  have "\<not> MVCCKeyLess (fst x) (fst x)" by (simp add: MVCCKeyLess_iff)
  then show ?thesis using stored_split_order [of a x b y] assms(1,3,4) es by auto
qed

lemma processKeyRange_keys:
  fixes thr :: Timestamp
  assumes "consistent rk" "readable es" "stored es"
  defines "ks \<equiv> map fst (filter (garbage thr rk es) (rev es))"
  shows "processKeyRange keySink (gcItems rk es) thr [] = Inr ks" "without ks es = filter (\<lambda>e. \<not> garbage thr rk es e) es"
proof -
  obtain evs where e: "garbageOf evs = map kvOf (filter (garbage thr rk es) (rev es))"
      "\<And>k b. processKeyRange (k :: MVCCKey list gcSink) (gcItems rk es) thr b = tellAll k evs b"
    using processKeyRange_garbage [OF assms(1-3), where ?'b = "MVCCKey list"] by metis
  have "map kvKey (garbageOf evs) = ks" unfolding e(1) ks_def by simp
  then show "processKeyRange keySink (gcItems rk es) thr [] = Inr ks" unfolding e(2) tellAll_keys by simp
  have "fst x \<in> set ks \<longleftrightarrow> garbage thr rk es x" if "x \<in> set es" for x
  proof
    assume "fst x \<in> set ks"
    then obtain y where "y \<in> set es" "garbage thr rk es y" "fst x = fst y" by (auto simp: ks_def simp del: split_paired_Ex)
    then show "garbage thr rk es x" using stored_keys [OF assms(3) that] by metis
  next
    assume "garbage thr rk es x"
    then show "fst x \<in> set ks" using that unfolding set_map ks_def by (intro imageI) simp
  qed
  then show "without ks es = filter (\<lambda>e. \<not> garbage thr rk es e) es" unfolding without_def by (intro filter_cong) auto
qed

text \<open>A version hidden by a range tombstone at the timestamp of the read, as \<open>coveredByRangeKey\<close> of the scanner has it, and the
  versions a read returns.\<close>

definition hidden :: "rangeKeys \<Rightarrow> Timestamp \<Rightarrow> MVCCKey \<times> bytes \<Rightarrow> bool" where
  "hidden rk ts e \<longleftrightarrow> (case rk (MKey (fst e)) of None \<Rightarrow> False
     | Some st \<Rightarrow> list_ex (\<lambda>v. LessEq (tsOf e) (VTimestamp v) \<and> LessEq (VTimestamp v) ts) (Versions st))"

definition live :: "rangeKeys \<Rightarrow> Timestamp \<Rightarrow> snapshot \<Rightarrow> MVCCKey \<times> bytes \<Rightarrow> bool" where
  "live rk ts es e \<longleftrightarrow> committedIn es e \<and> LessEq (tsOf e) ts \<and> \<not> mvccValueIsTombstone (kvOf e) \<and> \<not> hidden rk ts e \<and>
    list_all (\<lambda>x. \<not> (sameKey x e \<and> committedIn es x \<and> Less (tsOf e) (tsOf x) \<and> LessEq (tsOf x) ts)) es"

lemma hidden_mono: "hidden rk thr e \<Longrightarrow> LessEq thr ts \<Longrightarrow> hidden rk ts e"
  using ts_trans(1) by (fastforce simp: hidden_def list_ex_iff split: option.splits)

lemma provisional_exists:
  assumes "stored es" "m \<in> set es" "\<not> IsValue (fst m)" "e \<in> set es" "IsValue (fst e)" "sameKey m e"
  obtains p where "p \<in> set es" "sameKey p e" "provisional es p"
proof -
  obtain a b where es: "es = a @ m # b" using assms(2) by (meson split_list)
  have "e \<notin> set a" using stored_split_order(1) [of a m b e] assms es by (auto simp: MVCCKeyLess_iff)
  then have e: "e \<in> set b" using assms es by auto
  then obtain p b' where b: "b = p # b'" by (cases b) auto
  have st: "stored ((a @ [m]) @ p # b')" using assms(1) es b by simp
  have "MKey (fst m) \<le> MKey (fst p)" "e = p \<or> MKey (fst p) \<le> MKey (fst e)"
    using stored_split_order(1) [OF st, of m] stored_split_order(2) [OF st, of e] e b by (auto simp: MVCCKeyLess_iff)
  then have p: "sameKey p e" using assms(6) by auto
  moreover have "IsValue (fst p)" using stored_split_order(1) [OF st, of m] p assms(3,6) by (auto simp: MVCCKeyLess_iff)
  moreover have "newer (a @ [m]) p = Some m" using p assms(6) by (simp add: newer_def)
  ultimately have "provisional es p" using provisional_iff [OF st] assms(3) es b by simp
  then show thesis using that [of p] p es b by simp
qed

text \<open>Versions that may go: what hides a version from reads at the threshold hides it from all later ones, provided the
  older versions of its key go with it.\<close>

definition obsolete :: "Timestamp \<Rightarrow> rangeKeys \<Rightarrow> snapshot \<Rightarrow> MVCCKey \<times> bytes \<Rightarrow> bool" where
  "obsolete thr rk es e \<longleftrightarrow> committedIn es e \<and> LessEq (tsOf e) thr \<and>
    (hidden rk thr e \<or> mvccValueIsTombstone (kvOf e) \<or>
     list_ex (\<lambda>x. sameKey x e \<and> committedIn es x \<and> Less (tsOf e) (tsOf x) \<and> LessEq (tsOf x) thr) es)"

definition removable :: "Timestamp \<Rightarrow> rangeKeys \<Rightarrow> snapshot \<Rightarrow> (MVCCKey \<times> bytes \<Rightarrow> bool) \<Rightarrow> bool" where
  "removable thr rk es R \<longleftrightarrow> list_all (\<lambda>x. R x \<longrightarrow> obsolete thr rk es x \<and>
    list_all (\<lambda>e. sameKey e x \<and> IsValue (fst e) \<and> Less (tsOf e) (tsOf x) \<longrightarrow> R e) es) es"

abbreviation kept :: "(MVCCKey \<times> bytes \<Rightarrow> bool) \<Rightarrow> snapshot \<Rightarrow> snapshot" where
  "kept R es \<equiv> filter (\<lambda>e. \<not> R e) es"

lemma removable_D:
  assumes "removable thr rk es R" "x \<in> set es" "R x"
  shows "obsolete thr rk es x" "e \<in> set es \<Longrightarrow> sameKey e x \<Longrightarrow> IsValue (fst e) \<Longrightarrow> Less (tsOf e) (tsOf x) \<Longrightarrow> R e"
  using assms unfolding removable_def list_all_iff by blast+

lemma not_obsolete: "\<not> IsValue (fst m) \<Longrightarrow> \<not> obsolete thr rk es m" "provisional es m \<Longrightarrow> \<not> obsolete thr rk es m"
  by (simp_all add: obsolete_def committedIn_def)

lemma committedIn_kept:
  assumes "stored es" "removable thr rk es R" "e \<in> set (kept R es)"
  shows "committedIn (kept R es) e \<longleftrightarrow> committedIn es e"
proof (cases "IsValue (fst e)")
  case True
  have "provisional (kept R es) e" if p: "provisional es e"
  proof -
    obtain m where m: "m \<in> set es" "sameKey m e" "\<not> IsValue (fst m)" using p unfolding provisional_def list_ex_iff by blast
    then have "\<not> R m" using removable_D(1) [OF assms(2) m(1)] not_obsolete(1) by blast
    then have "\<exists>m \<in> set (kept R es). sameKey m e \<and> \<not> IsValue (fst m)" using m by (intro bexI [of _ m]) simp_all
    then show ?thesis using p unfolding provisional_def list_ex_iff list_all_iff by simp
  qed
  moreover have "provisional es e" if "provisional (kept R es) e"
  proof -
    from that obtain m where m: "m \<in> set es" "sameKey m e" "\<not> IsValue (fst m)" by (auto simp: provisional_def list_ex_iff)
    obtain p where p: "p \<in> set es" "sameKey p e" "provisional es p"
      using provisional_exists [OF assms(1) m(1,3) _ True m(2)] assms(3) by auto
    then have "p \<in> set (kept R es)" using removable_D(1) [OF assms(2) p(1)] not_obsolete(2) by auto
    then have "LessEq (tsOf p) (tsOf e)" using that p unfolding provisional_def list_all_iff by blast
    then have "LessEq (tsOf x) (tsOf e)" if "x \<in> set es" "sameKey x e" "IsValue (fst x)" for x
      using p that ts_trans(1) [of "tsOf x" "tsOf p"] by (auto simp: provisional_def list_all_iff)
    then show ?thesis using True m by (auto simp: provisional_def list_all_iff list_ex_iff)
  qed
  ultimately show ?thesis unfolding committedIn_def by blast
qed (simp add: committedIn_def)

lemma live_not_obsolete: "LessEq thr ts \<Longrightarrow> live rk ts es e \<Longrightarrow> \<not> obsolete thr rk es e"
  using hidden_mono [of rk thr e ts] ts_trans(1) by (auto simp: live_def obsolete_def list_all_iff list_ex_iff)

lemma live_kept:
  assumes "stored es" "removable thr rk es R" "LessEq thr ts" "e \<in> set (kept R es)"
  shows "live rk ts (kept R es) e \<longleftrightarrow> live rk ts es e"
proof -
  let ?n = "\<lambda>es x. sameKey x e \<and> committedIn es x \<and> Less (tsOf e) (tsOf x) \<and> LessEq (tsOf x) ts"
  have "(\<exists>x \<in> set (kept R es). ?n (kept R es) x) \<longleftrightarrow> (\<exists>x \<in> set es. ?n es x)" if c: "committedIn es e"
  proof
    assume "\<exists>x \<in> set es. ?n es x"
    then obtain x where x: "x \<in> set es" "?n es x" by blast
    have "\<not> R x" using removable_D(2) [OF assms(2) x(1), of e] x(2) assms(4) c by (auto simp: committedIn_def)
    then show "\<exists>x \<in> set (kept R es). ?n (kept R es) x" using x committedIn_kept [OF assms(1,2), of x] by (intro bexI [of _ x]) simp_all
  next
    assume "\<exists>x \<in> set (kept R es). ?n (kept R es) x"
    then obtain x where "x \<in> set (kept R es)" "?n (kept R es) x" by blast
    then show "\<exists>x \<in> set es. ?n es x" using committedIn_kept [OF assms(1,2), of x] by (intro bexI [of _ x]) simp_all
  qed
  then show ?thesis unfolding live_def committedIn_kept [OF assms(1,2,4)] by (auto simp: list_all_iff)
qed

lemma live_unchanged:
  assumes "stored es" "removable thr rk es R" "LessEq thr ts"
  shows "filter (live rk ts (kept R es)) (kept R es) = filter (live rk ts es) es"
proof -
  have "filter (live rk ts (kept R es)) (kept R es) = filter (live rk ts es) (kept R es)"
    using live_kept [OF assms] by (intro filter_cong) simp_all
  also have "\<dots> = filter (live rk ts es) es" unfolding filter_filter
    using live_not_obsolete [OF assms(3)] removable_D(1) [OF assms(2)] by (intro filter_cong) blast+
  finally show ?thesis .
qed

lemma tombstoneTS_hidden:
  assumes "consistent rk" "Less (tsOf e) (tombstoneTS thr (rk (MKey (fst e))))" "nonneg_ts (tsOf e)"
  shows "hidden rk thr e"
proof -
  have "\<not> Less (tsOf e) emptyTimestamp" using assms(3) by (auto simp: Less_def nonneg_ts_def word_sless_alt emptyTimestamp_def)
  then obtain st where st: "rk (MKey (fst e)) = Some st" using assms(2) by (auto simp: tombstoneTS_def split: option.splits)
  then have "newest_first (Versions st)" using assms(1) by (auto simp: consistent_def)
  moreover obtain v where "FirstAtOrBelow (Versions st) thr = Some v" "Less (tsOf e) (VTimestamp v)"
    using assms(2) st \<open>\<not> Less (tsOf e) emptyTimestamp\<close> by (auto simp: tombstoneTS_def split: option.splits)
  ultimately have v: "v \<in> set (filter (\<lambda>x. LessEq (VTimestamp x) thr) (Versions st))" "Less (tsOf e) (VTimestamp v)"
    by (auto simp: FirstAtOrBelow_spec Let_def simp del: set_filter split: if_splits)
  then show ?thesis using st Less_imp_LessEq by (auto simp: hidden_def list_ex_iff)
qed

lemma garbage_older:
  assumes "garbage thr rk es x" "x \<in> set es" "sameKey e x" "IsValue (fst e)" "Less (tsOf e) (tsOf x)"
  shows "garbage thr rk es e"
proof -
  have x: "committedIn es x" "LessEq (tsOf x) thr" "IsValue (fst x)" using assms(1) by (auto simp: garbage_def committedIn_def)
  have "\<not> LessEq (tsOf x) (tsOf e)" using assms(5) by (simp add: not_LessEq)
  then have "\<not> provisional es e" using assms(2,3) x(3) unfolding provisional_def list_all_iff by auto
  then have "committedIn es e" "LessEq (tsOf e) thr"
    using assms(4) ts_trans(1) [OF Less_imp_LessEq [OF assms(5)] x(2)] by (simp_all add: committedIn_def)
  moreover have "list_ex (\<lambda>y. sameKey y e \<and> committedIn es y \<and> Less (tsOf e) (tsOf y) \<and> LessEq (tsOf y) thr) es"
    unfolding list_ex_iff using assms(2,3,5) x by (intro bexI [of _ x]) simp_all
  ultimately show ?thesis by (simp add: garbage_def)
qed

lemma garbage_removable:
  assumes "consistent rk" "stored es"
  shows "removable thr rk es (garbage thr rk es)"
proof -
  have "obsolete thr rk es x" if "x \<in> set es" "garbage thr rk es x" for x
    using that tombstoneTS_hidden [OF assms(1), of x thr] assms(2) by (auto simp: garbage_def obsolete_def stored_def list_all_iff)
  then show ?thesis using garbage_older [of thr rk es] unfolding removable_def list_all_iff by blast
qed

text \<open>C5: finding the garbage of a range ends without an error for every threshold and lists exactly the committed versions at or
  below the threshold that are a tombstone, lie below a range tombstone at or below the threshold, or have a newer committed
  version at or below the threshold.  Taking them away changes no read at or above the threshold: the newest committed versions
  at or below the timestamp of the read that are neither a tombstone nor hidden by a range tombstone are the same as before,
  for snapshots with intents and with range tombstones.\<close>

theorem gc_reads_unchanged:
  assumes "consistent rk" "readable es" "stored es" "LessEq thr ts"
  shows "\<exists>ks. processKeyRange keySink (gcItems rk es) thr [] = Inr ks \<and> set ks = fst ` set (filter (garbage thr rk es) es) \<and>
    filter (live rk ts (without ks es)) (without ks es) = filter (live rk ts es) es"
  using processKeyRange_keys [OF assms(1-3), of thr] live_unchanged [OF assms(3) garbage_removable [OF assms(1,3)] assms(4)]
  by (intro exI [of _ "map fst (filter (garbage thr rk es) (rev es))"]) simp

text \<open>A snapshot with an intent, a tombstone and a range tombstone.\<close>

definition ex_garbage :: snapshot where
  "ex_garbage = [(vkey [1] 5, [0, 0, 0, 0, 3, 5]), (vkey [1] 3, [0, 0, 0, 0, 3, 7]), (vkey [1] 2, [0, 0, 0, 0, 3, 6]),
     (MakeMVCCMetadataKey [2], [1]), (vkey [2] 3, [0, 0, 0, 0, 3, 8]), (vkey [2] 2, [0, 0, 0, 0, 3, 9]),
     (vkey [3] 2, []), (vkey [4] 2, [0, 0, 0, 0, 3, 1])]"

definition ex_rangeKeys :: rangeKeys where
  "ex_rangeKeys k = (if k = [4] then Some \<lparr>Bounds = \<lparr>Key = [4], EndKey = [5]\<rparr>, Versions =
     [\<lparr>VTimestamp = \<lparr>WallTime = 3, Logical = 0, Synthetic = False\<rparr>, VValue = []\<rparr>]\<rparr> else None)"

abbreviation (input) "ts4 \<equiv> \<lparr>WallTime = 4, Logical = 0, Synthetic = False\<rparr>"

lemma ex_garbage_ok: "consistent ex_rangeKeys" "readable ex_garbage" "stored ex_garbage"
proof -
  show "consistent ex_rangeKeys" by (auto simp: consistent_def IsEmpty_def ex_rangeKeys_def newest_first_def split: if_splits)
  have "\<exists>v. DecodeMVCCValue [] = Inr v" by (simp add: DecodeMVCCValue_def tryDecodeSimpleMVCCValue_def)
  then show "readable ex_garbage" by (auto simp: readable_def ex_garbage_def ex_value IsValue_def IsEmpty_def MakeMVCCMetadataKey_def emptyTimestamp_def)
  show "stored ex_garbage"
    by (simp add: stored_def ex_garbage_def MVCCKeyLess_iff IsValue_def IsEmpty_def Less_def nonneg_ts_def MakeMVCCMetadataKey_def emptyTimestamp_def)
qed

lemma ex_tombstone: "mvccValueIsTombstone (kvOf (vkey k w, v)) \<longleftrightarrow> w \<noteq> 0 \<and> EncodedMVCCValueIsTombstone v = Inr True"
  by (simp add: kvOf_def IsValue_def IsEmpty_def)

lemma ex_live: "filter (live ex_rangeKeys ts4 ex_garbage) ex_garbage = [(vkey [1] 3, [0, 0, 0, 0, 3, 7]), (vkey [2] 2, [0, 0, 0, 0, 3, 9])]"
  by (simp add: ex_garbage_def live_def committedIn_def provisional_def hidden_def ex_tombstone ex_rangeKeys_def IsValue_def IsEmpty_def
      MakeMVCCMetadataKey_def emptyTimestamp_def Less_def LessEq_def EncodedMVCCValueIsTombstone_def)

theorem gc_reads_unchanged_witness:
  "\<exists>ks. processKeyRange keySink (gcItems ex_rangeKeys ex_garbage) ts4 [] = Inr ks \<and>
    filter (live ex_rangeKeys ts4 (without ks ex_garbage)) (without ks ex_garbage) =
      [(vkey [1] 3, [0, 0, 0, 0, 3, 7]), (vkey [2] 2, [0, 0, 0, 0, 3, 9])]"
  using gc_reads_unchanged [OF ex_garbage_ok LessEq_refl, of ts4] unfolding ex_live by blast

subsection \<open>Scans above the threshold\<close>

lemma committed_in:
  assumes "committed es" "e \<in> set es"
  shows "committedIn es e" "mvccValueIsTombstone (kvOf e) \<longleftrightarrow> valueOf e = []"
proof -
  have v: "\<And>x. x \<in> set es \<Longrightarrow> IsValue (fst x)" using assms(1) by (auto simp: committed_def list_all_iff)
  then have "\<not> list_ex (\<lambda>m. sameKey m e \<and> \<not> IsValue (fst m)) es" unfolding list_ex_iff by blast
  then show "committedIn es e" using v [OF assms(2)] by (simp add: committedIn_def provisional_def)
  obtain w where "DecodeMVCCValue (snd e) = Inr w" using assms unfolding committed_def list_all_iff by blast
  then show "mvccValueIsTombstone (kvOf e) \<longleftrightarrow> valueOf e = []" using decode_tombstone v [OF assms(2)] by (simp add: kvOf_def valueOf_def)
qed

lemma live_newest:
  assumes "committed es" "e \<in> set es"
  shows "live (\<lambda>_. None) ts es e \<longleftrightarrow> valueOf e \<noteq> [] \<and> newest ts es e"
  using committed_in [OF assms] committed_in(1) [OF assms(1)]
  by (auto simp: live_def hidden_def newest_def list_all_iff not_LessEq simp flip: not_Less)

text \<open>C6: on a snapshot without intents and range keys whose values decode, an unlimited, consistent, forward scan that need not
  check for uncertainty and reads at or above the threshold ends without an error, and returns the same bytes after the garbage
  found by the collector has been taken away as before.\<close>

theorem gc_scans_unchanged:
  assumes "stored es" "committed es" "LessEq thr (readTS p)"
    and "processKeyRange keySink (gcItems (\<lambda>_. None) es) thr [] = Inr ks"
    and "iterates (iter env) es at" "at (parent p) i" "fresh env p"
    and "iterates (iter env') (without ks es) at'" "at' (parent p') j" "fresh env' p'" "startKey p' = startKey p" "readTS p' = readTS p"
    and "\<not> checkUncertainty p" "\<not> checkUncertainty p'" "\<not> IsEmpty (readTS p)" "2 * length es + 4 \<le> fuel"
  shows "\<exists>q q'. scan fuel env p = Some (Inr (None, RESUME_UNKNOWN, 0), q) \<and> scan fuel env' p' = Some (Inr (None, RESUME_UNKNOWN, 0), q') \<and>
    concat (fst (finish (results q'))) = concat (fst (finish (results q)))"
proof -
  let ?rk = "\<lambda>_ :: bytes. None :: MVCCRangeKeyStack option"
  have c: "consistent ?rk" "readable es" using assms(2) by (auto simp: consistent_def readable_def committed_def list_all_iff)
  have w: "without ks es = kept (garbage thr ?rk es) es" using processKeyRange_keys [OF c assms(1), of thr] assms(4) by simp
  have k: "stored (without ks es)" "committed (without ks es)" "2 * length (without ks es) + 4 \<le> fuel"
    using assms(1,2,16) length_filter_le [of _ es] unfolding w
    by (auto simp: stored_def sorted_wrt_filter committed_def list_all_iff intro: order_trans [of _ "2 * length es + 4"])
  let ?v = "\<lambda>es. filter (\<lambda>e. startKey p \<le> MKey (fst e) \<and> valueOf e \<noteq> [] \<and> newest (readTS p) es e) es"
  have v: "?v es = filter (\<lambda>e. startKey p \<le> MKey (fst e)) (filter (live ?rk (readTS p) es) es)" if "committed es" for es
    unfolding filter_filter using live_newest [OF that] by (intro filter_cong) auto
  have "?v (without ks es) = ?v es" unfolding v [OF k(2)] v [OF assms(2)] unfolding w live_unchanged [OF assms(1) garbage_removable [OF c(1) assms(1)] assms(3)] ..
  then show ?thesis
    using scan_versions [OF assms(5,1,6,7,16,2,13,15)] scan_versions [OF assms(8) k(1) assms(9,10) k(3,2) assms(14)] assms(11,12,15) by auto
qed

abbreviation (input) "ex_history \<equiv> [(vkey [1] 5, [0, 0, 0, 0, 3, 5]), (vkey [1] 3, [0, 0, 0, 0, 3, 7]), (vkey [1] 2, [0, 0, 0, 0, 3, 6])] :: snapshot"

lemma ex_history_ok: "stored ex_history" "committed ex_history"
  by (simp_all add: stored_def committed_def MVCCKeyLess_iff IsValue_def IsEmpty_def Less_def nonneg_ts_def ex_value)

lemma ex_history_garbage: "processKeyRange keySink (gcItems (\<lambda>_. None) ex_history) ts4 [] = Inr [vkey [1] 2]"
proof -
  let ?rk = "\<lambda>_ :: bytes. None :: MVCCRangeKeyStack option"
  have c: "consistent ?rk" "readable ex_history" using ex_history_ok(2) by (auto simp: consistent_def readable_def committed_def)
  have "filter (garbage ts4 ?rk ex_history) (rev ex_history) = [(vkey [1] 2, [0, 0, 0, 0, 3, 6])]"
    by (simp add: garbage_def committedIn_def provisional_def tombstoneTS_def ex_tombstone IsValue_def IsEmpty_def Less_def LessEq_def
        emptyTimestamp_def EncodedMVCCValueIsTombstone_def)
  then show ?thesis using processKeyRange_keys(1) [OF c ex_history_ok(1), of ts4] by simp
qed

theorem gc_scans_unchanged_witness:
  "\<exists>q q'. scan 10 (ex_env ex_history) ex_scanner = Some (Inr (None, RESUME_UNKNOWN, 0), q) \<and>
    scan 10 (ex_env (take 2 ex_history)) ex_scanner = Some (Inr (None, RESUME_UNKNOWN, 0), q') \<and>
    concat (fst (finish (results q'))) = concat (fst (finish (results q)))"
proof -
  have it: "iterates (iter (ex_env es)) es (=)" for es using cursor_iterates by (simp add: ex_env_def)
  have w: "without [vkey [1] 2] ex_history = take 2 ex_history" by (simp add: without_def)
  show ?thesis unfolding w [symmetric]
    by (rule gc_scans_unchanged [OF ex_history_ok _ ex_history_garbage it refl ex_fresh it refl ex_fresh])
      (simp_all add: ex_scanner_def IsEmpty_def)
qed

end
