(* ===== verification/Gc_Clear.thy ===== *)
theory Gc_Clear
  imports Gc_Safe
begin

text \<open>
  Clearing a range of garbage: \<open>MVCCGarbageCollectPointsWithClearRange\<close> and \<open>updateStatsOnGC\<close> of
  \<open>engine/pkg/storage/mvcc.go\<close>.  The replica that evaluates a request to clear a range walks the range first and refuses
  the request if it finds a version that is still needed.

  The iterator is the list of the entries between its bounds, with the range tombstone stack over each key given by a
  function as in theory \<open>Gc_Safe\<close>; errors of the iterator itself are left out.  A request that is refused returns its error
  only: what the code has taken from the statistics by then, which is discarded with the failed command, is left out too.
\<close>

subsection \<open>Statistics\<close>

definition isSysLocal :: "bytes \<Rightarrow> bool" where
  "isSysLocal k \<longleftrightarrow> k < LocalMax"

definition noStats :: MVCCStats where
  "noStats = \<lparr>ContainsEstimates = 0, LastUpdateNanos = 0, IntentAge = 0, GCBytesAge = 0, LiveBytes = 0, LiveCount = 0, KeyBytes = 0,
     KeyCount = 0, ValBytes = 0, ValCount = 0, IntentBytes = 0, IntentCount = 0, SeparatedIntentCount = 0, RangeKeyCount = 0,
     RangeKeyBytes = 0, RangeValCount = 0, RangeValBytes = 0, SysBytes = 0, SysCount = 0, AbortSpanBytes = 0\<rparr>"

abbreviation (input) MVCCVersionTimestampSize :: int64 where "MVCCVersionTimestampSize \<equiv> 12"

definition updateStatsOnGC :: "bytes \<Rightarrow> int64 \<Rightarrow> int64 \<Rightarrow> bool \<Rightarrow> int64 \<Rightarrow> MVCCStats" where
  "updateStatsOnGC k keySize valSize metaKey nonLiveMS =
    (if isSysLocal k then
       let ms = noStats\<lparr>SysBytes := SysBytes noStats - (keySize + valSize)\<rparr>
       in if metaKey then ms\<lparr>SysCount := SysCount ms - 1\<rparr> else ms
     else
       let ms = AgeTo noStats nonLiveMS;
           ms = ms\<lparr>KeyBytes := KeyBytes ms - keySize, ValBytes := ValBytes ms - valSize\<rparr>
       in if metaKey then ms\<lparr>KeyCount := KeyCount ms - 1\<rparr> else ms\<lparr>ValCount := ValCount ms - 1\<rparr>)"

subsection \<open>The walk\<close>

record clearState =
  prevPointKey :: MVCCKey
  firstKey :: bool
  clearedStats :: "MVCCStats option"

text \<open>The version that is removed, and its key with the first of its versions.\<close>

definition addRemoved :: "MVCCKey \<times> bytes \<Rightarrow> bool \<Rightarrow> int64 \<Rightarrow> MVCCStats \<Rightarrow> MVCCStats" where
  "addRemoved e newKey validTill ms =
    (let k = MKey (fst e);
         ms = (if newKey then StatsAdd ms (updateStatsOnGC k (of_nat (EncodedMVCCKeyPrefixLength k)) 0 True validTill) else ms)
     in StatsAdd ms (updateStatsOnGC k MVCCVersionTimestampSize (of_nat (length (snd e))) False validTill))"

text \<open>The timestamp that covers a version: that of the next newer version of the key, or of a range tombstone in between.\<close>

definition coveredBy :: "Timestamp \<Rightarrow> MVCCRangeKeyStack option \<Rightarrow> Timestamp \<Rightarrow> Timestamp" where
  "coveredBy prev rangeTombstones ts =
    (case rangeTombstones of None \<Rightarrow> prev
     | Some st \<Rightarrow> (case FirstAtOrAbove (Versions st) ts of None \<Rightarrow> prev
       | Some cover \<Rightarrow> if IsEmpty prev \<or> Less (VTimestamp cover) prev then VTimestamp cover else prev))"

definition clearTurn :: "rangeKeys \<Rightarrow> MVCCKey \<Rightarrow> Timestamp \<Rightarrow> MVCCKey \<times> bytes \<Rightarrow> clearState \<Rightarrow> clearState result" where
  "clearTurn rk start threshold e s =
    (let unsafeKey = fst e;
         newKey = (MKey (prevPointKey s) \<noteq> MKey unsafeKey);
         s = (if newKey then s\<lparr>prevPointKey := unsafeKey\<lparr>MTimestamp := emptyTimestamp\<rparr>\<rparr> else s)
     in if firstKey s \<and> MVCCKeyCompare unsafeKey start < 0
        then Inr (s\<lparr>prevPointKey := (prevPointKey s)\<lparr>MTimestamp := MTimestamp unsafeKey\<rparr>\<rparr>)
        else
          let s = s\<lparr>firstKey := False\<rparr> in
          if IsEmpty (MTimestamp unsafeKey) then Inl (Errorf ''attempt to GC intent %s using clear range'')
          else if Less threshold (MTimestamp unsafeKey) then Inl (Errorf ''attempt to GC data %s above threshold %s with clear range'')
          else rbind (EncodedMVCCValueIsTombstone (snd e)) (\<lambda>isTombstone.
            let cover = coveredBy (MTimestamp (prevPointKey s)) (rk (MKey unsafeKey)) (MTimestamp unsafeKey) in
            if \<not> (\<not> IsEmpty cover \<and> LessEq cover threshold \<or> isTombstone)
            then Inl (Errorf ''attempt to GC data %s still visible at GC threshold %s with clear range'')
            else
              let validTill = (if isTombstone then MTimestamp unsafeKey else cover)
              in Inr (s\<lparr>clearedStats := map_option (addRemoved e newKey (WallTime validTill)) (clearedStats s),
                   prevPointKey := (prevPointKey s)\<lparr>MTimestamp := MTimestamp unsafeKey\<rparr>\<rparr>)))"

fun clearLoop :: "rangeKeys \<Rightarrow> MVCCKey \<Rightarrow> Timestamp \<Rightarrow> snapshot \<Rightarrow> clearState \<Rightarrow> clearState result" where
  "clearLoop rk start threshold [] s = Inr s"
| "clearLoop rk start threshold (e # es) s = rbind (clearTurn rk start threshold e s) (clearLoop rk start threshold es)"

definition clears :: "MVCCKey \<Rightarrow> bytes \<Rightarrow> MVCCKey \<times> bytes \<Rightarrow> bool" where
  "clears start stop e \<longleftrightarrow> \<not> MVCCKeyCompare (fst e) start < 0 \<and> MKey (fst e) < stop"

definition ClearMVCCVersions :: "MVCCKey \<Rightarrow> bytes \<Rightarrow> snapshot \<Rightarrow> snapshot" where
  "ClearMVCCVersions start stop es = filter (\<lambda>e. \<not> clears start stop e) es"

definition MVCCGarbageCollectPointsWithClearRange ::
    "rangeKeys \<Rightarrow> MVCCStats option \<Rightarrow> bytes \<Rightarrow> bytes \<Rightarrow> Timestamp \<Rightarrow> Timestamp \<Rightarrow> snapshot \<Rightarrow> (MVCCStats option \<times> snapshot) result" where
  "MVCCGarbageCollectPointsWithClearRange rk ms start stop startTimestamp threshold es =
    (let from0 = \<lparr>MKey = start, MTimestamp = startTimestamp\<rparr> in
     rbind (clearLoop rk from0 threshold (filter (\<lambda>e. start \<le> MKey (fst e) \<and> MKey (fst e) < stop) es)
         \<lparr>prevPointKey = \<lparr>MKey = [], MTimestamp = emptyTimestamp\<rparr>, firstKey = True, clearedStats = ms\<rparr>)
       (\<lambda>s. Inr (clearedStats s, ClearMVCCVersions from0 stop es)))"

subsection \<open>What the walk accepts\<close>

text \<open>A version may be cleared if it is at or below the threshold and is a tombstone, hidden by a range tombstone, or older
  than another version at or below the threshold, be it the provisional value of an intent.\<close>

definition accepted :: "Timestamp \<Rightarrow> rangeKeys \<Rightarrow> snapshot \<Rightarrow> MVCCKey \<times> bytes \<Rightarrow> bool" where
  "accepted thr rk es e \<longleftrightarrow> IsValue (fst e) \<and> LessEq (tsOf e) thr \<and> (\<exists>t. EncodedMVCCValueIsTombstone (snd e) = Inr t) \<and>
    (hidden rk thr e \<or> mvccValueIsTombstone (kvOf e) \<or>
     list_ex (\<lambda>x. sameKey x e \<and> IsValue (fst x) \<and> Less (tsOf e) (tsOf x) \<and> LessEq (tsOf x) thr) es)"

lemma Compare_neg: "MVCCKeyCompare a b < 0 \<longleftrightarrow> MVCCKeyLess a b"
  by (auto simp: Less_Compare MVCCKeyCompare_def bytes_Compare_def Compare_def Let_def)

lemma MVCCKeyLess_trans: "MVCCKeyLess a b \<Longrightarrow> MVCCKeyLess b c \<Longrightarrow> MVCCKeyLess a c"
  by (auto simp: MVCCKeyLess_iff intro: ts_trans(4))

lemma hidden_HasBetween:
  assumes "consistent rk"
  shows "hidden rk thr e \<longleftrightarrow> (\<exists>st v. rk (MKey (fst e)) = Some st \<and> FirstAtOrAbove (Versions st) (tsOf e) = Some v \<and> LessEq (VTimestamp v) thr)"
proof (cases "rk (MKey (fst e))")
  case (Some st)
  then have "newest_first (Versions st)" using assms by (auto simp: consistent_def)
  from HasBetween_spec [OF this, of "tsOf e" thr] Some show ?thesis
    by (auto simp: hidden_def HasBetween_def inside_def list_ex_iff split: option.splits)
qed (simp add: hidden_def)

lemma newer_value:
  assumes "stored (a @ e # b)" "IsValue (fst e)"
  shows "list_ex (\<lambda>x. sameKey x e \<and> IsValue (fst x) \<and> Less (tsOf e) (tsOf x) \<and> LessEq (tsOf x) thr) (a @ e # b) \<longleftrightarrow>
    (\<exists>x. newer a e = Some x \<and> IsValue (fst x) \<and> LessEq (tsOf x) thr)"
    (is "list_ex ?P ?es \<longleftrightarrow> ?Q")
proof
  assume ?Q
  then obtain x where x: "newer a e = Some x" "IsValue (fst x)" "LessEq (tsOf x) thr" by blast
  then have "x \<in> set a" "sameKey x e" by (auto simp: newer_def split: list.splits if_splits)
  moreover have "Less (tsOf e) (tsOf x)" using stored_split_order(1) [OF assms(1) calculation(1)] calculation(2) x(2) by (auto simp: MVCCKeyLess_iff)
  ultimately show "list_ex ?P ?es" unfolding list_ex_iff using x by (intro bexI [of _ x]) simp_all
next
  assume "list_ex ?P ?es"
  then obtain y where y: "y \<in> set ?es" "?P y" unfolding list_ex_iff by blast
  have "y \<notin> set b" using stored_split_order(2) [OF assms(1), of y] y(2) assms(2) by (auto simp: MVCCKeyLess_iff dest: ts_trans(4))
  then have ya: "y \<in> set a" using y by auto
  then obtain x where x: "newer a e = Some x" using newer_None [OF assms(1) _ ya] y(2) by (cases "newer a e") auto
  obtain a' where a: "a = a' @ [x]" "sameKey x e" "\<And>y. y \<in> set a' \<Longrightarrow> MVCCKeyLess (fst y) (fst x)" using newer_Some [OF assms(1) x] by metis
  have "y = x \<or> IsValue (fst x) \<and> Less (tsOf x) (tsOf y)" using ya a(1,2) a(3) [of y] y(2) by (auto simp: MVCCKeyLess_iff)
  then show ?Q using x y(2) by (auto intro: ts_trans(1) Less_imp_LessEq)
qed

lemma cover_iff:
  assumes "consistent rk"
  defines "c \<equiv> \<lambda>prev e. coveredBy prev (rk (MKey (fst e))) (tsOf e)"
  shows "\<not> IsEmpty (c prev e) \<and> LessEq (c prev e) thr \<longleftrightarrow> hidden rk thr e \<or> \<not> IsEmpty prev \<and> LessEq prev thr"
proof (cases "\<exists>st v. rk (MKey (fst e)) = Some st \<and> FirstAtOrAbove (Versions st) (tsOf e) = Some v")
  case True
  then obtain st v where v: "rk (MKey (fst e)) = Some st" "FirstAtOrAbove (Versions st) (tsOf e) = Some v" by blast
  then have st: "newest_first (Versions st)" "list_all (\<lambda>v. \<not> IsEmpty (VTimestamp v)) (Versions st)" using assms(1) by (auto simp: consistent_def)
  have "v \<in> set (Versions st)" using v(2) unfolding FirstAtOrAbove_spec [OF st(1)]
    by (auto simp: Let_def split: if_splits dest: last_in_set)
  then have "\<not> IsEmpty (VTimestamp v)" using st(2) by (simp add: list_all_iff)
  moreover have "hidden rk thr e \<longleftrightarrow> LessEq (VTimestamp v) thr" using v hidden_HasBetween [OF assms(1)] by auto
  moreover have "LessEq prev thr \<longleftrightarrow> LessEq (VTimestamp v) thr \<or> LessEq prev thr" if "\<not> Less (VTimestamp v) prev"
    using that ts_trans(1) unfolding not_Less by blast
  moreover have "LessEq (VTimestamp v) thr \<longleftrightarrow> LessEq (VTimestamp v) thr \<or> LessEq prev thr" if "Less (VTimestamp v) prev"
    using ts_trans(1) [OF Less_imp_LessEq [OF that]] by blast
  ultimately show ?thesis using v by (auto simp: c_def coveredBy_def)
next
  case False
  then show ?thesis using hidden_HasBetween [OF assms(1)] by (auto simp: c_def coveredBy_def split: option.splits)
qed

text \<open>The state of the walk after the entries \<open>a\<close>.\<close>

definition walked :: "MVCCKey \<Rightarrow> snapshot \<Rightarrow> clearState \<Rightarrow> bool" where
  "walked start a s \<longleftrightarrow> (firstKey s \<longleftrightarrow> list_all (\<lambda>x. MVCCKeyLess (fst x) start) a) \<and>
    prevPointKey s = (if a = [] then \<lparr>MKey = [], MTimestamp = emptyTimestamp\<rparr> else fst (last a))"

lemma same_MVCCKey: "MKey p = MKey k \<Longrightarrow> p\<lparr>MTimestamp := MTimestamp k\<rparr> = (k :: MVCCKey)"
  by (cases p; cases k) simp

lemma clearTurn_ok:
  assumes "stored (a @ e # b)" "consistent rk" "walked start a s"
  shows "if MVCCKeyLess (fst e) start \<or> accepted thr rk (a @ e # b) e
    then \<exists>s' w. clearTurn rk start thr e s = Inr s' \<and> walked start (a @ [e]) s' \<and> clearedStats s' =
      (if MVCCKeyLess (fst e) start then clearedStats s
       else map_option (addRemoved e (MKey (prevPointKey s) \<noteq> MKey (fst e)) w) (clearedStats s))
    else \<exists>x. clearTurn rk start thr e s = Inl x"
proof -
  let ?new = "MKey (prevPointKey s) \<noteq> MKey (fst e)"
  define prev where "prev = (if ?new then emptyTimestamp else MTimestamp (prevPointKey s))"
  have prev: "prev = (case newer a e of None \<Rightarrow> emptyTimestamp | Some x \<Rightarrow> tsOf x)"
    using assms(3) by (cases a rule: rev_cases) (auto simp: prev_def walked_def newer_def)
  have below: "MVCCKeyLess (fst e) start \<Longrightarrow> firstKey s"
    using assms(3) stored_split_order(1) [OF assms(1)] MVCCKeyLess_trans unfolding walked_def list_all_iff by blast
  note turn = clearTurn_def Let_def Compare_neg
  show ?thesis
  proof (cases "MVCCKeyLess (fst e) start")
    case True
    then show ?thesis using below assms(3) by (simp add: turn walked_def same_MVCCKey)
  next
    case False
    consider (refused) "\<not> IsValue (fst e) \<or> Less thr (tsOf e) \<or> (\<exists>x. EncodedMVCCValueIsTombstone (snd e) = Inl x)"
      | (read) t where "IsValue (fst e)" "\<not> Less thr (tsOf e)" "EncodedMVCCValueIsTombstone (snd e) = Inr t"
      by (cases "EncodedMVCCValueIsTombstone (snd e)") auto
    then show ?thesis
    proof cases
      case refused
      then have "\<not> accepted thr rk (a @ e # b) e" by (auto simp: accepted_def not_LessEq [symmetric])
      moreover have "\<exists>x. clearTurn rk start thr e s = Inl x" using False refused by (auto simp: turn IsValue_def)
      ultimately show ?thesis using False by simp
    next
      case read
      define c where "c = coveredBy prev (rk (MKey (fst e))) (tsOf e)"
      have "\<not> IsEmpty prev \<and> LessEq prev thr \<longleftrightarrow> (\<exists>x. newer a e = Some x \<and> IsValue (fst x) \<and> LessEq (tsOf x) thr)"
        unfolding prev by (cases "newer a e") (auto simp: IsValue_def IsEmpty_eq)
      then have acc: "accepted thr rk (a @ e # b) e \<longleftrightarrow> \<not> IsEmpty c \<and> LessEq c thr \<or> t"
        unfolding accepted_def newer_value [OF assms(1) read(1)] c_def cover_iff [OF assms(2)] using read
        by (auto simp: kvOf_def not_Less)
      have "clearTurn rk start thr e s = (if \<not> IsEmpty c \<and> LessEq c thr \<or> t
        then Inr (s\<lparr>firstKey := False, clearedStats := map_option (addRemoved e ?new (WallTime (if t then tsOf e else c))) (clearedStats s),
          prevPointKey := fst e\<rparr>)
        else Inl (Errorf ''attempt to GC data %s still visible at GC threshold %s with clear range''))"
        using False read by (cases ?new) (simp_all add: turn IsValue_def c_def prev_def same_MVCCKey)
      then show ?thesis using False acc by (auto simp: walked_def)
    qed
  qed
qed

text \<open>What the walk takes from the statistics of a range outside the local keys: the versions and their bytes, and the keys that lose
  their newest version.\<close>

abbreviation firstOf :: "snapshot \<Rightarrow> MVCCKey \<times> bytes \<Rightarrow> bool" where
  "firstOf es e \<equiv> \<not> list_ex (\<lambda>x. sameKey x e \<and> MVCCKeyLess (fst x) (fst e)) es"

definition takes :: "snapshot \<Rightarrow> snapshot \<Rightarrow> MVCCStats option \<Rightarrow> MVCCStats option \<Rightarrow> bool" where
  "takes es cleared ms ms' \<longleftrightarrow> (case ms of None \<Rightarrow> ms' = None | Some m \<Rightarrow> (case ms' of None \<Rightarrow> False | Some m' \<Rightarrow>
     ValCount m' = ValCount m - of_nat (length cleared) \<and>
     ValBytes m' = ValBytes m - of_nat (sum_list (map (\<lambda>e. length (snd e)) cleared)) \<and>
     KeyCount m' = KeyCount m - of_nat (length (filter (firstOf es) cleared))))"

lemma addRemoved_counts:
  assumes "\<not> isSysLocal (MKey (fst e))"
  shows "ValCount (addRemoved e new w ms) = ValCount ms - 1" "ValBytes (addRemoved e new w ms) = ValBytes ms - of_nat (length (snd e))"
    "KeyCount (addRemoved e new w ms) = KeyCount ms - (if new then 1 else 0)"
  using assms by (simp_all add: addRemoved_def updateStatsOnGC_def StatsAdd_def StatsForward_def AgeTo_def noStats_def Let_def)

lemma takes_Cons:
  assumes "\<not> isSysLocal (MKey (fst e))" "new \<longleftrightarrow> firstOf es e" "takes es cl (map_option (addRemoved e new w) ms) ms'"
  shows "takes es (e # cl) ms ms'"
  using assms by (auto simp: takes_def addRemoved_counts split: option.splits)

lemma firstOf_newer:
  assumes "stored (a @ e # b)"
  shows "firstOf (a @ e # b) e \<longleftrightarrow> newer a e = None"
proof (cases "newer a e")
  case None
  have "\<not> MVCCKeyLess (fst x) (fst e)" if "x \<in> set (e # b)" for x
    using that stored_split_order(2) [OF assms, of x] MVCCKeyLess_trans [of "fst x" "fst e" "fst x"] by (auto simp: MVCCKeyLess_iff)
  then show ?thesis using None newer_None [OF assms None] unfolding list_ex_iff by auto
next
  case (Some x)
  then have "x \<in> set a" "sameKey x e" by (auto simp: newer_def split: list.splits if_splits)
  then show ?thesis using Some stored_split_order(1) [OF assms, of x] unfolding list_ex_iff by auto
qed

lemma new_newer:
  assumes "walked start a s" "MKey (fst e) \<noteq> []"
  shows "MKey (prevPointKey s) \<noteq> MKey (fst e) \<longleftrightarrow> newer a e = None"
  using assms by (cases a rule: rev_cases) (auto simp: walked_def newer_def)

lemma clearLoop_ok:
  assumes "consistent rk"
  shows "stored (a @ b) \<Longrightarrow> walked start a s \<Longrightarrow> list_all (\<lambda>e. \<not> isSysLocal (MKey (fst e))) b \<Longrightarrow>
    if list_all (\<lambda>e. MVCCKeyLess (fst e) start \<or> accepted thr rk (a @ b) e) b
    then \<exists>s'. clearLoop rk start thr b s = Inr s' \<and> takes (a @ b) (filter (\<lambda>e. \<not> MVCCKeyLess (fst e) start) b) (clearedStats s) (clearedStats s')
    else \<exists>x. clearLoop rk start thr b s = Inl x"
proof (induction b arbitrary: a s)
  case Nil
  then show ?case by (simp add: takes_def split: option.split)
next
  case (Cons e b)
  note turn = clearTurn_ok [OF Cons.prems(1) assms Cons.prems(2), of thr]
  show ?case
  proof (cases "MVCCKeyLess (fst e) start \<or> accepted thr rk (a @ e # b) e")
    case False
    then show ?thesis using turn by auto
  next
    case True
    then obtain s1 w where s1: "clearTurn rk start thr e s = Inr s1" "walked start (a @ [e]) s1" "clearedStats s1 =
        (if MVCCKeyLess (fst e) start then clearedStats s
         else map_option (addRemoved e (MKey (prevPointKey s) \<noteq> MKey (fst e)) w) (clearedStats s))" using turn by auto
    have st: "stored ((a @ [e]) @ b)" using Cons.prems(1) by simp
    have IH: "if list_all (\<lambda>x. MVCCKeyLess (fst x) start \<or> accepted thr rk (a @ e # b) x) b
      then \<exists>s'. clearLoop rk start thr b s1 = Inr s' \<and> takes (a @ e # b) (filter (\<lambda>x. \<not> MVCCKeyLess (fst x) start) b) (clearedStats s1) (clearedStats s')
      else \<exists>x. clearLoop rk start thr b s1 = Inl x"
      using Cons.IH [OF st s1(2)] Cons.prems(3) unfolding append_assoc append_Cons append_Nil list.pred_inject by blast
    have "MKey (fst e) \<noteq> []" "\<not> isSysLocal (MKey (fst e))" using Cons.prems(3) by (auto simp: isSysLocal_def)
    then have t: "takes (a @ e # b) (filter (\<lambda>x. \<not> MVCCKeyLess (fst x) start) (e # b)) (clearedStats s) m"
      if "takes (a @ e # b) (filter (\<lambda>x. \<not> MVCCKeyLess (fst x) start) b) (clearedStats s1) m" for m
      using that takes_Cons firstOf_newer [OF Cons.prems(1)] new_newer [OF Cons.prems(2)] unfolding s1(3) by (simp split: if_splits)
    show ?thesis using True IH t s1(1) by (auto split: if_splits)
  qed
qed

subsection \<open>The whole request\<close>

lemma list_ex_segment:
  assumes "start \<le> MKey (fst e)" "MKey (fst e) < stop"
  shows "list_ex (\<lambda>x. sameKey x e \<and> P x) (filter (\<lambda>x. start \<le> MKey (fst x) \<and> MKey (fst x) < stop) es) \<longleftrightarrow>
    list_ex (\<lambda>x. sameKey x e \<and> P x) es"
  by (induction es) (use assms in auto)

lemma accepted_segment:
  assumes "start \<le> MKey (fst e)" "MKey (fst e) < stop"
  shows "accepted thr rk (filter (\<lambda>x. start \<le> MKey (fst x) \<and> MKey (fst x) < stop) es) e \<longleftrightarrow> accepted thr rk es e"
  by (simp add: accepted_def list_ex_segment [OF assms])

lemma clears_iff:
  "clears \<lparr>MKey = start, MTimestamp = ts\<rparr> stop e \<longleftrightarrow>
    (start \<le> MKey (fst e) \<and> MKey (fst e) < stop) \<and> \<not> MVCCKeyLess (fst e) \<lparr>MKey = start, MTimestamp = ts\<rparr>"
  by (auto simp: clears_def Compare_neg MVCCKeyLess_iff)

lemma clear_range:
  fixes start stop :: bytes and startTS :: Timestamp
  assumes "stored es" "consistent rk" "list_all (\<lambda>e. \<not> isSysLocal (MKey (fst e))) es"
  defines "R \<equiv> clears \<lparr>MKey = start, MTimestamp = startTS\<rparr> stop"
  shows "if list_all (\<lambda>e. R e \<longrightarrow> accepted thr rk es e) es
    then \<exists>ms'. MVCCGarbageCollectPointsWithClearRange rk ms start stop startTS thr es = Inr (ms', kept R es) \<and> takes es (filter R es) ms ms'
    else \<exists>x. MVCCGarbageCollectPointsWithClearRange rk ms start stop startTS thr es = Inl x"
proof -
  let ?from = "\<lparr>MKey = start, MTimestamp = startTS\<rparr>"
  let ?in = "\<lambda>e :: MVCCKey \<times> bytes. start \<le> MKey (fst e) \<and> MKey (fst e) < stop"
  let ?g = "filter ?in es" and ?s = "\<lparr>prevPointKey = \<lparr>MKey = [], MTimestamp = emptyTimestamp\<rparr>, firstKey = True, clearedStats = ms\<rparr>"
  have R: "R e \<longleftrightarrow> ?in e \<and> \<not> MVCCKeyLess (fst e) ?from" for e unfolding R_def by (rule clears_iff)
  have g: "stored ([] @ ?g)" "walked ?from [] ?s" "list_all (\<lambda>e. \<not> isSysLocal (MKey (fst e))) ?g"
    using assms(1,3) by (auto simp: stored_def sorted_wrt_filter walked_def list_all_iff)
  have all: "list_all (\<lambda>e. MVCCKeyLess (fst e) ?from \<or> accepted thr rk ([] @ ?g) e) ?g \<longleftrightarrow> list_all (\<lambda>e. R e \<longrightarrow> accepted thr rk es e) es"
    using accepted_segment unfolding list_all_iff set_filter append_Nil R by blast
  have cl: "filter (\<lambda>e. \<not> MVCCKeyLess (fst e) ?from) ?g = filter R es" unfolding filter_filter R by (meson filter_cong)
  have fst: "filter (firstOf ?g) (filter R es) = filter (firstOf es) (filter R es)"
    using list_ex_segment R by (intro filter_cong) auto
  have tk: "takes ?g (filter R es) ms m \<longleftrightarrow> takes es (filter R es) ms m" for m
    unfolding takes_def fst ..
  have "MVCCGarbageCollectPointsWithClearRange rk ms start stop startTS thr es =
      rbind (clearLoop rk ?from thr ?g ?s) (\<lambda>s. Inr (clearedStats s, kept R es))"
    by (simp add: MVCCGarbageCollectPointsWithClearRange_def ClearMVCCVersions_def R_def Let_def)
  then show ?thesis using clearLoop_ok [OF assms(2) g, of thr] unfolding all cl by (auto simp: tk split: if_splits)
qed

lemma clear_range_removable:
  fixes start stop :: bytes and startTS :: Timestamp
  defines "R \<equiv> clears \<lparr>MKey = start, MTimestamp = startTS\<rparr> stop"
  assumes "stored es" "list_all (\<lambda>m. MKey (fst m) = start \<longrightarrow> IsValue (fst m)) es" "list_all (\<lambda>e. R e \<longrightarrow> accepted thr rk es e) es"
  shows "removable thr rk es R"
proof -
  let ?from = "\<lparr>MKey = start, MTimestamp = startTS\<rparr>"
  have R: "R e \<longleftrightarrow> (start \<le> MKey (fst e) \<and> MKey (fst e) < stop) \<and> \<not> MVCCKeyLess (fst e) ?from" for e unfolding R_def by (rule clears_iff)
  have acc: "accepted thr rk es x" if "x \<in> set es" "R x" for x using assms(4) that unfolding list_all_iff by blast
  have c: "committedIn es y" if "x \<in> set es" "R x" "sameKey y x" "IsValue (fst y)" for x y
  proof -
    have "IsValue (fst m)" if "m \<in> set es" "sameKey m x" for m
    proof (cases "MKey (fst m) = start")
      case True
      then show ?thesis using assms(3) \<open>m \<in> set es\<close> unfolding list_all_iff by blast
    next
      case False
      then have "R m" using \<open>R x\<close> \<open>sameKey m x\<close> unfolding R by (auto simp: MVCCKeyLess_iff)
      then show ?thesis using acc [OF \<open>m \<in> set es\<close>] by (simp add: accepted_def)
    qed
    then have "\<not> provisional es y" using that(3) unfolding provisional_def list_ex_iff by metis
    then show ?thesis using that(4) by (simp add: committedIn_def)
  qed
  have o: "obsolete thr rk es x" if "x \<in> set es" "R x" for x
  proof -
    have a: "IsValue (fst x)" "LessEq (tsOf x) thr"
        "hidden rk thr x \<or> mvccValueIsTombstone (kvOf x) \<or>
         list_ex (\<lambda>y. sameKey y x \<and> IsValue (fst y) \<and> Less (tsOf x) (tsOf y) \<and> LessEq (tsOf y) thr) es"
      using acc [OF that] by (simp_all add: accepted_def)
    then have "hidden rk thr x \<or> mvccValueIsTombstone (kvOf x) \<or>
         list_ex (\<lambda>y. sameKey y x \<and> committedIn es y \<and> Less (tsOf x) (tsOf y) \<and> LessEq (tsOf y) thr) es"
      using c [OF that] unfolding list_ex_iff by blast
    then show ?thesis using a(1,2) c [OF that refl a(1)] by (simp add: obsolete_def)
  qed
  have "R e" if "x \<in> set es" "R x" "sameKey e x" "IsValue (fst e)" "Less (tsOf e) (tsOf x)" for x e
  proof -
    have "MVCCKeyLess (fst x) (fst e)" using that(3,4,5) by (simp add: MVCCKeyLess_iff)
    then show ?thesis using that(2,3) MVCCKeyLess_trans [of "fst x" "fst e" ?from] unfolding R by auto
  qed
  then show ?thesis using o unfolding removable_def list_all_iff by blast
qed

text \<open>C7: for keys outside the system-local span, a request to clear a range succeeds exactly if every version it would clear is
  at or below the threshold and is a tombstone, hidden by a range tombstone or superseded at the threshold, with no intent and no
  malformed value among them; otherwise it is refused with an error.  If it succeeds it clears exactly the versions of the range and takes
  them and the keys that lose their newest version from the statistics; and unless there is an intent on the start key, before
  the versions it walks, it changes no read at or above the threshold.\<close>

theorem clear_range_safe:
  fixes start stop :: bytes and startTS :: Timestamp
  assumes "stored es" "consistent rk" "list_all (\<lambda>e. \<not> isSysLocal (MKey (fst e))) es" "LessEq thr ts"
  defines "R \<equiv> clears \<lparr>MKey = start, MTimestamp = startTS\<rparr> stop"
  shows "if list_all (\<lambda>e. R e \<longrightarrow> accepted thr rk es e) es
    then \<exists>ms'. MVCCGarbageCollectPointsWithClearRange rk ms start stop startTS thr es = Inr (ms', kept R es) \<and>
      takes es (filter R es) ms ms' \<and>
      (list_all (\<lambda>m. MKey (fst m) = start \<longrightarrow> IsValue (fst m)) es \<longrightarrow>
        filter (live rk ts (kept R es)) (kept R es) = filter (live rk ts es) es)
    else \<exists>x. MVCCGarbageCollectPointsWithClearRange rk ms start stop startTS thr es = Inl x"
proof (cases "list_all (\<lambda>e. R e \<longrightarrow> accepted thr rk es e) es")
  case True
  have "filter (live rk ts (kept R es)) (kept R es) = filter (live rk ts es) es"
    if "list_all (\<lambda>m. MKey (fst m) = start \<longrightarrow> IsValue (fst m)) es"
  proof (rule live_unchanged [OF assms(1) _ assms(4)])
    show "removable thr rk es R" using clear_range_removable [OF assms(1) that] True unfolding R_def by blast
  qed
  then show ?thesis using True clear_range [OF assms(1-3), of start startTS stop thr ms, folded R_def] by auto
next
  case False
  then show ?thesis using clear_range [OF assms(1-3), of start startTS stop thr ms, folded R_def] by simp
qed

definition ex_clear :: snapshot where
  "ex_clear = [(vkey [5] 5, [0, 0, 0, 0, 3, 5]), (vkey [5] 3, [0, 0, 0, 0, 3, 7]), (vkey [5] 2, [0, 0, 0, 0, 3, 6]), (vkey [6] 2, [])]"

lemmas ex_clear_simps = ex_clear_def stored_def isSysLocal_def MVCCKeyLess_iff IsValue_def IsEmpty_def Less_def LessEq_def nonneg_ts_def
  accepted_def hidden_def clears_def Compare_neg EncodedMVCCValueIsTombstone_def

theorem clear_range_safe_witness:
  "\<exists>ms'. MVCCGarbageCollectPointsWithClearRange (\<lambda>_. None) (Some noStats) [5] [7] (MTimestamp (vkey [] 2)) ts4 ex_clear = Inr (ms', take 2 ex_clear) \<and>
    takes ex_clear (drop 2 ex_clear) (Some noStats) ms' \<and>
    filter (live (\<lambda>_. None) ts4 (take 2 ex_clear)) (take 2 ex_clear) = filter (live (\<lambda>_. None) ts4 ex_clear) ex_clear"
proof -
  let ?R = "clears \<lparr>MKey = [5], MTimestamp = MTimestamp (vkey [] 2)\<rparr> [7]"
  have k: "kept ?R ex_clear = take 2 ex_clear" "filter ?R ex_clear = drop 2 ex_clear" by (simp_all add: ex_clear_simps)
  have a: "list_all (\<lambda>e. ?R e \<longrightarrow> accepted ts4 (\<lambda>_. None) ex_clear e) ex_clear" by (simp add: ex_clear_simps ex_tombstone ex_bool_eq)
  show ?thesis
    using clear_range_safe [of ex_clear "\<lambda>_. None" ts4 ts4 "[5]" "MTimestamp (vkey [] 2)" "[7]" "Some noStats"] a k
    by (simp add: consistent_def ex_clear_simps)
qed

text \<open>With an intent on the start key the check is not enough: the provisional value of the intent counts as the version that
  supersedes, so the newest committed version below it is cleared, which reads above the threshold still return.\<close>

definition ex_below_intent :: snapshot where
  "ex_below_intent = [(MakeMVCCMetadataKey [5], [1]), (vkey [5] 3, [0, 0, 0, 0, 3, 7]), (vkey [5] 2, [0, 0, 0, 0, 3, 6])]"

lemma clear_range_below_intent:
  "\<exists>ms'. MVCCGarbageCollectPointsWithClearRange (\<lambda>_. None) None [5] [6] (MTimestamp (vkey [] 2)) ts4 ex_below_intent = Inr (ms', take 2 ex_below_intent)"
  "filter (live (\<lambda>_. None) ts4 ex_below_intent) ex_below_intent = [(vkey [5] 2, [0, 0, 0, 0, 3, 6])]"
  "filter (live (\<lambda>_. None) ts4 (take 2 ex_below_intent)) (take 2 ex_below_intent) = []"
proof -
  note ex = ex_below_intent_def ex_clear_simps MakeMVCCMetadataKey_def emptyTimestamp_def
  let ?R = "clears \<lparr>MKey = [5], MTimestamp = MTimestamp (vkey [] 2)\<rparr> [6]"
  have k: "kept ?R ex_below_intent = take 2 ex_below_intent" by (simp add: ex)
  have a: "list_all (\<lambda>e. ?R e \<longrightarrow> accepted ts4 (\<lambda>_. None) ex_below_intent e) ex_below_intent" by (simp add: ex ex_tombstone ex_bool_eq)
  show "\<exists>ms'. MVCCGarbageCollectPointsWithClearRange (\<lambda>_. None) None [5] [6] (MTimestamp (vkey [] 2)) ts4 ex_below_intent = Inr (ms', take 2 ex_below_intent)"
    using clear_range [of ex_below_intent "\<lambda>_. None" "[5]" "MTimestamp (vkey [] 2)" "[6]" ts4 None] a k
    by (auto simp: consistent_def ex)
  show "filter (live (\<lambda>_. None) ts4 ex_below_intent) ex_below_intent = [(vkey [5] 2, [0, 0, 0, 0, 3, 6])]"
    "filter (live (\<lambda>_. None) ts4 (take 2 ex_below_intent)) (take 2 ex_below_intent) = []"
    by (simp_all add: ex live_def committedIn_def provisional_def ex_tombstone)
qed

end
