(* ===== verification/Node_Liveness.thy ===== *)
theory Node_Liveness
  imports Leases
begin

text \<open>
  Node liveness: the records by which nodes show that they are alive and by which the epoch-based
  leases of a dead node are ended (\<open>engine/pkg/kv/kvserver/liveness/liveness.go\<close>), and the task that
  asks for a lease (\<open>requestLease\<close> in \<open>engine/pkg/kv/kvserver/replica_range_lease.go\<close>).

  The state of all nodes is one record: for every node the values written under its liveness key, the
  newest first, and for every node the cache of records its \<open>NodeLiveness\<close> keeps.  With a value the
  history keeps which operation wrote it; the code reads only the newest value, and never the tag.
  An operation waits for a semaphore, for disks and for a transaction; what all the other nodes and
  tasks do meanwhile is a function on the state that each wait carries, so every interleaving is
  covered.  A transaction may commit and still report an error.  Clock readings are arguments,
  \<open>log.Fatal\<close> is a panic, and a context that is cancelled ends the list of attempts.  The protocol
  buffer coding of a record in a \<open>roachpb.Value\<close> is a parameter: \<open>SetProto\<close> and \<open>GetProto\<close>.  Records are compared
  as values; the code compares a pointer to the synthetic flag of the expiration, which is nil for
  expirations computed from clock readings.  Callbacks, metrics and logging are left out.
\<close>

subsection \<open>Records\<close>

record LvRecord =
  RecLiveness :: Liveness
  Raw :: "bytes option"

definition emptyRecord :: LvRecord where
  "emptyRecord = \<lparr>RecLiveness = noLiveness, Raw = None\<rparr>"

definition LvIsLive :: "Liveness \<Rightarrow> Timestamp \<Rightarrow> bool" where
  "LvIsLive l now \<longleftrightarrow> sint (WallTime now) < sint (LWallTime (LvExpiration l))"

record livenessUpdate =
  newLiveness :: Liveness
  oldLiveness :: Liveness
  ignoreCache :: bool
  oldRaw :: "bytes option"

text \<open>The operation that wrote a value: the creation of the record, a heartbeat (with or without an
  increment of the epoch), an increment of the epoch by a node that read its clock first, or a change
  of the draining or membership status.\<close>

datatype Cause = Created | Heartbeated bool | Incremented Timestamp | Changed

record World =
  versions :: "int32 \<Rightarrow> (bytes \<times> Cause) list"
  caches :: "int32 \<Rightarrow> int32 \<Rightarrow> LvRecord option"

definition kvGet :: "World \<Rightarrow> int32 \<Rightarrow> bytes option" where
  "kvGet w n = (case versions w n of [] \<Rightarrow> None | v # _ \<Rightarrow> Some (fst v))"

definition kvPut :: "World \<Rightarrow> int32 \<Rightarrow> bytes \<Rightarrow> Cause \<Rightarrow> World" where
  "kvPut w n v c = w\<lparr>versions := (versions w)(n := (v, c) # versions w n)\<rparr>"

subsection \<open>The cache\<close>

definition GetLiveness :: "World \<Rightarrow> int32 \<Rightarrow> int32 \<Rightarrow> LvRecord option" where
  "GetLiveness w i nodeID = caches w i nodeID"

definition SelfEx :: "World \<Rightarrow> int32 \<Rightarrow> LvRecord option" where
  "SelfEx w i = GetLiveness w i i"

definition Self :: "World \<Rightarrow> int32 \<Rightarrow> Liveness option" where
  "Self w i = map_option RecLiveness (SelfEx w i)"

definition NodeIsLive :: "World \<Rightarrow> int32 \<Rightarrow> int32 \<Rightarrow> Timestamp \<Rightarrow> bool result" where
  "NodeIsLive w i nodeID now =
    (case GetLiveness w i nodeID of
       None \<Rightarrow> Inl (Errorf ''liveness record not found in cache'')
     | Some l \<Rightarrow> Inr (LvIsLive (RecLiveness l) now))"

definition shouldReplaceLiveness :: "LvRecord \<Rightarrow> LvRecord \<Rightarrow> bool result" where
  "shouldReplaceLiveness old new =
    (let oldL = RecLiveness old; newL = RecLiveness new in
     if oldL = noLiveness then Inl (Panic ''invalid old liveness record; found to be empty'')
     else let cmp = LivenessCompare oldL newL in
       if cmp \<noteq> 0 then Inr (cmp < 0)
       else Inr (Draining oldL \<noteq> Draining newL \<or> Membership oldL \<noteq> Membership newL \<or>
                 oldL = newL \<and> Raw old \<noteq> Raw new))"

definition maybeUpdate :: "int32 \<Rightarrow> LvRecord \<Rightarrow> World \<Rightarrow> World result" where
  "maybeUpdate i new w =
    (if RecLiveness new = noLiveness then Inl (Panic ''invalid new liveness record; found to be empty'')
     else
       let nodeID = LvNodeID (RecLiveness new) in
       rbind (case GetLiveness w i nodeID of None \<Rightarrow> Inr True | Some old \<Rightarrow> shouldReplaceLiveness old new)
         (\<lambda>shouldReplace. Inr (if shouldReplace
            then w\<lparr>caches := (caches w)(i := (caches w i)(nodeID \<mapsto> new))\<rparr> else w)))"

text \<open>A gossiped record and a record read from the store.\<close>

definition livenessGossipUpdate :: "(bytes \<Rightarrow> Liveness result) \<Rightarrow> int32 \<Rightarrow> bytes \<Rightarrow> World \<Rightarrow> World result" where
  "livenessGossipUpdate GetProto i content w =
    (case GetProto content of Inl e \<Rightarrow> Inr w
     | Inr l \<Rightarrow> maybeUpdate i \<lparr>RecLiveness = l, Raw = Some content\<rparr> w)"

definition getLivenessRecordFromKV ::
    "(bytes \<Rightarrow> Liveness result) \<Rightarrow> int32 \<Rightarrow> int32 \<Rightarrow> go_error option \<Rightarrow> World \<Rightarrow> (LvRecord \<times> World) result" where
  "getLivenessRecordFromKV GetProto i nodeID getErr w =
    (case getErr of Some e \<Rightarrow> Inl e | None \<Rightarrow>
     case kvGet w nodeID of None \<Rightarrow> Inl (Errorf ''missing liveness record'')
     | Some v \<Rightarrow> rbind (GetProto v) (\<lambda>liveness.
         let livenessRec = \<lparr>RecLiveness = liveness, Raw = Some v\<rparr> in
         rbind (maybeUpdate i livenessRec w) (\<lambda>w1. Inr (livenessRec, w1))))"

subsection \<open>The conditional write\<close>

text \<open>What the transaction reports: its outcome, an error after which the update is tried again, or
  another error; with an error the write may have been made or not.\<close>

datatype TxnFault = NoFault | RetryFault bool | OtherFault bool go_error

definition errRetryLiveness :: go_error where
  "errRetryLiveness = Errorf ''errRetryLiveness''"

type_synonym CondFailed = "Timestamp \<Rightarrow> LvRecord \<Rightarrow> World \<Rightarrow> go_error option \<times> World"

text \<open>\<open>between\<close> is what others do between the look into the cache and the transaction, \<open>after\<close> what they
  do before its answer is handled, and \<open>now\<close> the clock reading of the handler of a failed condition.\<close>

definition condFailed :: "CondFailed \<Rightarrow> Timestamp \<Rightarrow> LvRecord \<Rightarrow> World \<Rightarrow> LvRecord result \<times> World" where
  "condFailed handle now actual w =
    (case handle now actual w of (None, w1) \<Rightarrow> (Inr emptyRecord, w1) | (Some e, w1) \<Rightarrow> (Inl e, w1))"

definition cputTxn ::
    "(Liveness \<Rightarrow> bytes) \<Rightarrow> (bytes \<Rightarrow> Liveness result) \<Rightarrow> livenessUpdate \<Rightarrow> Cause \<Rightarrow> bytes option \<Rightarrow> CondFailed \<Rightarrow>
      TxnFault \<Rightarrow> (World \<Rightarrow> World) \<Rightarrow> Timestamp \<Rightarrow> World \<Rightarrow> LvRecord result \<times> World" where
  "cputTxn SetProto GetProto update cause expected handle fault after now w =
    (let nodeID = LvNodeID (newLiveness update);
         v = SetProto (newLiveness update);
         w1 = kvPut w nodeID v cause;
         holds = (kvGet w nodeID = expected)
     in case fault of
          RetryFault done \<Rightarrow> (Inl errRetryLiveness, after (if done \<and> holds then w1 else w))
        | OtherFault done e \<Rightarrow> (Inl e, after (if done \<and> holds then w1 else w))
        | NoFault \<Rightarrow>
            if holds then (Inr \<lparr>RecLiveness = newLiveness update, Raw = Some v\<rparr>, after w1)
            else case kvGet w nodeID of
              None \<Rightarrow> condFailed handle now emptyRecord (after w)
            | Some actual \<Rightarrow>
                case GetProto actual of
                  Inl e \<Rightarrow> (Inl (Errorf ''couldn't update node liveness from CPut actual value''), after w)
                | Inr l \<Rightarrow> condFailed handle now \<lparr>RecLiveness = l, Raw = Some actual\<rparr> (after w))"

definition updateLivenessAttempt ::
    "(Liveness \<Rightarrow> bytes) \<Rightarrow> (bytes \<Rightarrow> Liveness result) \<Rightarrow> int32 \<Rightarrow> livenessUpdate \<Rightarrow> Cause \<Rightarrow> CondFailed \<Rightarrow>
      (World \<Rightarrow> World) \<Rightarrow> TxnFault \<Rightarrow> (World \<Rightarrow> World) \<Rightarrow> Timestamp \<Rightarrow> World \<Rightarrow> LvRecord result \<times> World" where
  "updateLivenessAttempt SetProto GetProto i update cause handle between fault after now w =
    (if ignoreCache update
     then cputTxn SetProto GetProto update cause (oldRaw update) handle fault after now (between w)
     else if oldRaw update \<noteq> None then (Inl (Panic ''unexpected oldRaw when ignoreCache not specified''), w)
     else case GetLiveness w i (LvNodeID (newLiveness update)) of
       None \<Rightarrow> (Inl (Errorf ''liveness record not found in cache''), w)
     | Some l \<Rightarrow>
         if RecLiveness l \<noteq> oldLiveness update then condFailed handle now l w
         else cputTxn SetProto GetProto update cause (Raw l) handle fault after now (between w))"

text \<open>One turn of the retry loop: what others do before it, the error of the disk write, what others do
  inside the attempt before and after its transaction, the outcome of the transaction and the clock
  reading of the handler.\<close>

record Turn =
  TOther :: "World \<Rightarrow> World"
  TDisk :: "go_error option"
  TBetween :: "World \<Rightarrow> World"
  TFault :: TxnFault
  TAfter :: "World \<Rightarrow> World"
  TNow :: Timestamp

fun updateLiveness ::
    "(Liveness \<Rightarrow> bytes) \<Rightarrow> (bytes \<Rightarrow> Liveness result) \<Rightarrow> int32 \<Rightarrow> livenessUpdate \<Rightarrow> Cause \<Rightarrow> CondFailed \<Rightarrow> Turn list \<Rightarrow>
      World \<Rightarrow> LvRecord result \<times> World" where
  "updateLiveness SetProto GetProto i update cause handle [] w = (Inl (Errorf ''context canceled''), w)"
| "updateLiveness SetProto GetProto i update cause handle (t # ts) w =
    (let w1 = TOther t w in
     case TDisk t of
       Some e \<Rightarrow> (Inl (Errorf ''disk write failed while updating node liveness''), w1)
     | None \<Rightarrow>
         case updateLivenessAttempt SetProto GetProto i update cause handle (TBetween t) (TFault t) (TAfter t) (TNow t) w1 of
           (Inl e, w2) \<Rightarrow>
             if e = errRetryLiveness then updateLiveness SetProto GetProto i update cause handle ts w2 else (Inl e, w2)
         | (Inr written, w2) \<Rightarrow> (Inr written, w2))"

subsection \<open>The operations\<close>

text \<open>What an operation meets: what others do while it waits for its semaphore, whether its context is
  cancelled there, its clock readings before and after the wait, and the turns of its update.\<close>

record OpEnv =
  EOther :: "World \<Rightarrow> World"
  ECancelled :: bool
  EBefore :: Timestamp
  EAfter :: Timestamp
  ETurns :: "Turn list"

definition heartbeatNew :: "Liveness \<Rightarrow> bool \<Rightarrow> int64 \<Rightarrow> Timestamp \<Rightarrow> Liveness result" where
  "heartbeatNew old incrementEpoch livenessThreshold afterQueueTS =
    (if old = noLiveness then Inl (Errorf ''invalid old liveness record; found to be empty'')
     else
       let new = (if incrementEpoch then old\<lparr>LvEpoch := LvEpoch old + 1, Draining := False\<rparr> else old);
           new1 = new\<lparr>LvExpiration := ToLegacyTimestamp (Add afterQueueTS livenessThreshold 0)\<rparr>
       in if LegacyLess (LvExpiration new1) (LvExpiration old)
          then Inl (Errorf ''proposed liveness update expires earlier than previous record'')
          else Inr new1)"

definition errNodeAlreadyLive :: go_error where
  "errNodeAlreadyLive = Errorf ''node already live''"

definition ErrEpochIncremented :: go_error where
  "ErrEpochIncremented = Errorf ''heartbeat failed on epoch increment''"

definition heartbeatCondFailed :: "int32 \<Rightarrow> bool \<Rightarrow> CondFailed" where
  "heartbeatCondFailed i incrementEpoch now actual w =
    (case maybeUpdate i actual w of
       Inl e \<Rightarrow> (Some e, w)
     | Inr w1 \<Rightarrow>
         (Some (if LvIsLive (RecLiveness actual) now \<and> \<not> incrementEpoch then errNodeAlreadyLive else ErrEpochIncremented), w1))"

text \<open>The result is the error the operation returns, if any.\<close>

definition noteWritten :: "int32 \<Rightarrow> LvRecord \<Rightarrow> World \<Rightarrow> go_error option \<times> World" where
  "noteWritten i written w = (case maybeUpdate i written w of Inl e \<Rightarrow> (Some e, w) | Inr w1 \<Rightarrow> (None, w1))"

definition heartbeatInternal ::
    "(Liveness \<Rightarrow> bytes) \<Rightarrow> (bytes \<Rightarrow> Liveness result) \<Rightarrow> int64 \<Rightarrow> int32 \<Rightarrow> Liveness \<Rightarrow> bool \<Rightarrow> OpEnv \<Rightarrow> World \<Rightarrow>
      go_error option \<times> World" where
  "heartbeatInternal SetProto GetProto livenessThreshold i old incrementEpoch env w0 =
    (let minExpiration = ToLegacyTimestamp (Add (EBefore env) livenessThreshold 0);
         w = EOther env w0
     in if ECancelled env then (Some (Errorf ''context canceled''), w)
        else if \<not> incrementEpoch \<and>
                (case Self w i of None \<Rightarrow> False | Some cl \<Rightarrow> LegacyLess minExpiration (LvExpiration cl))
        then (None, w)
        else case heartbeatNew old incrementEpoch livenessThreshold (EAfter env) of
          Inl e \<Rightarrow> (Some e, w)
        | Inr new \<Rightarrow>
            let update = \<lparr>newLiveness = new, oldLiveness = old, ignoreCache = False, oldRaw = None\<rparr> in
            case updateLiveness SetProto GetProto i update (Heartbeated incrementEpoch)
                   (heartbeatCondFailed i incrementEpoch) (ETurns env) w of
              (Inl e, w1) \<Rightarrow> if e = errNodeAlreadyLive then (None, w1) else (Some e, w1)
            | (Inr written, w1) \<Rightarrow> noteWritten i written w1)"

definition Heartbeat ::
    "(Liveness \<Rightarrow> bytes) \<Rightarrow> (bytes \<Rightarrow> Liveness result) \<Rightarrow> int64 \<Rightarrow> int32 \<Rightarrow> Liveness \<Rightarrow> OpEnv \<Rightarrow> World \<Rightarrow>
      go_error option \<times> World" where
  "Heartbeat SetProto GetProto livenessThreshold i liveness env w =
     heartbeatInternal SetProto GetProto livenessThreshold i liveness False env w"

definition ErrEpochAlreadyIncremented :: go_error where
  "ErrEpochAlreadyIncremented = Errorf ''epoch already incremented''"

definition incrementCondFailed :: "int32 \<Rightarrow> Liveness \<Rightarrow> CondFailed" where
  "incrementCondFailed i liveness now actual w =
    (case maybeUpdate i actual w of
       Inl e \<Rightarrow> (Some e, w)
     | Inr w1 \<Rightarrow>
         (Some (if sint (LvEpoch (RecLiveness actual)) > sint (LvEpoch liveness) then ErrEpochAlreadyIncremented
                else if sint (LvEpoch (RecLiveness actual)) < sint (LvEpoch liveness)
                then Errorf ''unexpected liveness epoch %d; expected >= %d''
                else Errorf ''liveness record changed while incrementing epoch for %+v; actual is %+v; is the node still live?''),
          w1))"

definition IncrementEpoch ::
    "(Liveness \<Rightarrow> bytes) \<Rightarrow> (bytes \<Rightarrow> Liveness result) \<Rightarrow> int32 \<Rightarrow> Liveness \<Rightarrow> OpEnv \<Rightarrow> World \<Rightarrow> go_error option \<times> World" where
  "IncrementEpoch SetProto GetProto i liveness env w0 =
    (let w = EOther env w0 in
     if ECancelled env then (Some (Errorf ''context canceled''), w)
     else if LvIsLive liveness (EAfter env) then (Some (Errorf ''cannot increment epoch on live node: %+v''), w)
     else
       let update = \<lparr>newLiveness = liveness\<lparr>LvEpoch := LvEpoch liveness + 1\<rparr>, oldLiveness = liveness,
                     ignoreCache = False, oldRaw = None\<rparr>
       in case updateLiveness SetProto GetProto i update (Incremented (EAfter env)) (incrementCondFailed i liveness)
                 (ETurns env) w of
            (Inl e, w1) \<Rightarrow> (Some e, w1)
          | (Inr written, w1) \<Rightarrow> noteWritten i written w1)"

definition errNodeDrainingSet :: go_error where
  "errNodeDrainingSet = Errorf ''node is already draining''"

definition drainingCondFailed :: "int32 \<Rightarrow> bool \<Rightarrow> CondFailed" where
  "drainingCondFailed i drain now actual w =
    (case maybeUpdate i actual w of
       Inl e \<Rightarrow> (Some e, w)
     | Inr w1 \<Rightarrow> (Some (if Draining (RecLiveness actual) = drain then errNodeDrainingSet
                        else Errorf ''failed to update liveness record because record has changed''), w1))"

definition setDrainingInternal ::
    "(Liveness \<Rightarrow> bytes) \<Rightarrow> (bytes \<Rightarrow> Liveness result) \<Rightarrow> int32 \<Rightarrow> LvRecord \<Rightarrow> bool \<Rightarrow> OpEnv \<Rightarrow> World \<Rightarrow>
      go_error option \<times> World" where
  "setDrainingInternal SetProto GetProto i oldLivenessRec drain env w0 =
    (let w = EOther env w0 in
     if ECancelled env then (Some (Errorf ''context canceled''), w)
     else if RecLiveness oldLivenessRec = noLiveness
     then (Some (Errorf ''invalid old liveness record; found to be empty''), w)
     else
       let update = \<lparr>newLiveness = (RecLiveness oldLivenessRec)\<lparr>Draining := drain\<rparr>, oldLiveness = RecLiveness oldLivenessRec,
                     ignoreCache = True, oldRaw = Raw oldLivenessRec\<rparr>
       in case updateLiveness SetProto GetProto i update Changed (drainingCondFailed i drain) (ETurns env) w of
            (Inl e, w1) \<Rightarrow> if e = errNodeDrainingSet then (None, w1) else (Some e, w1)
          | (Inr written, w1) \<Rightarrow> noteWritten i written w1)"

definition membershipCondFailed :: "MembershipStatus \<Rightarrow> CondFailed" where
  "membershipCondFailed targetStatus now actual w =
    (if Membership (RecLiveness actual) \<noteq> targetStatus then (Some (Errorf ''failed to change the membership status''), w)
     else (None, w))"

text \<open>The status counts as changed unless the handler of the failed condition found it set already.\<close>

definition setMembershipStatusInternal ::
    "(Liveness \<Rightarrow> bytes) \<Rightarrow> (bytes \<Rightarrow> Liveness result) \<Rightarrow> int32 \<Rightarrow> LvRecord \<Rightarrow> MembershipStatus \<Rightarrow> Turn list \<Rightarrow> World \<Rightarrow>
      bool result \<times> World" where
  "setMembershipStatusInternal SetProto GetProto i oldLivenessRec targetStatus turns w =
    (let old = RecLiveness oldLivenessRec; new = old\<lparr>Membership := targetStatus\<rparr> in
     if old = noLiveness then (Inl (Errorf ''invalid old liveness record; found to be empty''), w)
     else if Membership old = Membership new then (Inr False, w)
     else if Membership old = DECOMMISSIONED \<and> Membership new = DECOMMISSIONING then (Inr False, w)
     else case ValidateTransition old new of
       Inl e \<Rightarrow> (Inl e, w)
     | Inr _ \<Rightarrow>
         let update = \<lparr>newLiveness = new, oldLiveness = old, ignoreCache = True, oldRaw = Raw oldLivenessRec\<rparr>
         in case updateLiveness SetProto GetProto i update Changed (membershipCondFailed targetStatus) turns w of
              (Inl e, w1) \<Rightarrow> (Inl e, w1)
            | (Inr written, w1) \<Rightarrow> (Inr (written \<noteq> emptyRecord), w1))"

text \<open>The creation of a record, one attempt for each outcome of the transaction.\<close>

fun CreateLivenessRecord :: "(Liveness \<Rightarrow> bytes) \<Rightarrow> int32 \<Rightarrow> ((World \<Rightarrow> World) \<times> TxnFault) list \<Rightarrow> World \<Rightarrow> go_error option \<times> World" where
  "CreateLivenessRecord SetProto nodeID [] w = (Some (Errorf ''context canceled''), w)"
| "CreateLivenessRecord SetProto nodeID ((other, fault) # ts) w0 =
    (let w = other w0;
         v = SetProto (noLiveness\<lparr>LvNodeID := nodeID\<rparr>);
         holds = (kvGet w nodeID = None);
         w1 = kvPut w nodeID v Created
     in case fault of
          NoFault \<Rightarrow> if holds then (None, w1) else (Some (Errorf ''ConditionFailedError''), w)
        | RetryFault done \<Rightarrow> CreateLivenessRecord SetProto nodeID ts (if done \<and> holds then w1 else w)
        | OtherFault done e \<Rightarrow> (Some e, if done \<and> holds then w1 else w))"

subsection \<open>Asking for a lease\<close>

text \<open>The heartbeats that keep the expiration from going back when an expiration-based lease becomes an
  epoch-based one.  The result is the error returned, or nothing when the task goes on.\<close>

definition NotLeaseHolder :: go_error where
  "NotLeaseHolder = Errorf ''NotLeaseHolderError: failed to manipulate liveness record: %s''"

fun promoteLoop ::
    "(Liveness \<Rightarrow> bytes) \<Rightarrow> (bytes \<Rightarrow> Liveness result) \<Rightarrow> int64 \<Rightarrow> int32 \<Rightarrow> Lease \<Rightarrow> int32 \<Rightarrow> Liveness \<Rightarrow> OpEnv list \<Rightarrow> World \<Rightarrow>
      go_error option \<times> World" where
  "promoteLoop SetProto GetProto thr i lease nodeID curLiveness [] w = (None, w)"
| "promoteLoop SetProto GetProto thr i lease nodeID curLiveness (env # envs) w =
    (case Heartbeat SetProto GetProto thr i curLiveness env w of
       (Some e, w1) \<Rightarrow> (Some NotLeaseHolder, w1)
     | (None, w1) \<Rightarrow>
         case GetLiveness w1 i nodeID of
           None \<Rightarrow> (Some (Errorf ''after heartbeat''), w1)
         | Some l \<Rightarrow>
             if Less (LegacyToTimestamp (LvExpiration (RecLiveness l))) (GetExpiration lease)
             then promoteLoop SetProto GetProto thr i lease nodeID (RecLiveness l) envs w1
             else (None, w1))"

definition promote_lease ::
    "(Liveness \<Rightarrow> bytes) \<Rightarrow> (bytes \<Rightarrow> Liveness result) \<Rightarrow> int64 \<Rightarrow> int32 \<Rightarrow> LeaseStatus \<Rightarrow> Lease \<Rightarrow> Liveness \<Rightarrow> OpEnv list \<Rightarrow>
      World \<Rightarrow> go_error option \<times> World" where
  "promote_lease SetProto GetProto thr i status reqLease reqLeaseLiveness envs w =
    (let extension = StOwnedBy status (StoreID (LeaseReplica reqLease));
         expToEpochPromo = (extension \<and> LeaseType (StLease status) = LeaseExpiration \<and> LeaseType reqLease = LeaseEpoch)
     in if expToEpochPromo \<and>
           Less (LegacyToTimestamp (LvExpiration reqLeaseLiveness)) (GetExpiration (StLease status))
        then promoteLoop SetProto GetProto thr i (StLease status) (LvNodeID reqLeaseLiveness) reqLeaseLiveness envs w
        else (None, w))"

text \<open>The end of the epoch of an expired epoch-based lease; \<open>now\<close> is the clock reading of \<open>IsLive\<close>.\<close>

definition end_epoch ::
    "(Liveness \<Rightarrow> bytes) \<Rightarrow> (bytes \<Rightarrow> Liveness result) \<Rightarrow> int64 \<Rightarrow> int32 \<Rightarrow> LeaseStatus \<Rightarrow> Lease \<Rightarrow> Timestamp \<Rightarrow> OpEnv \<Rightarrow>
      World \<Rightarrow> go_error option \<times> World" where
  "end_epoch SetProto GetProto thr i status reqLease now env w =
    (if LeaseType (StLease status) = LeaseEpoch \<and> State status = EXPIRED then
       let res =
         (if StOwnedBy status (StoreID (LeaseReplica reqLease))
          then Heartbeat SetProto GetProto thr i (StLiveness status) env w
          else if LvEpoch (StLiveness status) = LeaseEpochNo (StLease status)
          then (case NodeIsLive w i (NodeID (LeaseReplica reqLease)) now of
                  Inr True \<Rightarrow> IncrementEpoch SetProto GetProto i (StLiveness status) env w
                | _ \<Rightarrow> (Some (Errorf ''not incrementing epoch on n%d because next leaseholder (n%d) not live''), w))
          else (None, w))
       in (case fst res of None \<Rightarrow> None | Some e \<Rightarrow> Some NotLeaseHolder, snd res)
     else (None, w))"

text \<open>The task: it fails, or the request is sent.\<close>

definition requestLease ::
    "(Liveness \<Rightarrow> bytes) \<Rightarrow> (bytes \<Rightarrow> Liveness result) \<Rightarrow> int64 \<Rightarrow> int32 \<Rightarrow> LeaseStatus \<Rightarrow> Lease \<Rightarrow> Liveness \<Rightarrow> OpEnv list \<Rightarrow>
      Timestamp \<Rightarrow> OpEnv \<Rightarrow> LeaseRequest \<Rightarrow> World \<Rightarrow> LeaseRequest result \<times> World" where
  "requestLease SetProto GetProto thr i status reqLease reqLeaseLiveness envs now env leaseReq w =
    (case promote_lease SetProto GetProto thr i status reqLease reqLeaseLiveness envs w of
       (Some e, w1) \<Rightarrow> (Inl e, w1)
     | (None, w1) \<Rightarrow>
         case end_epoch SetProto GetProto thr i status reqLease now env w1 of
           (Some e, w2) \<Rightarrow> (Inl e, w2)
         | (None, w2) \<Rightarrow> (Inr leaseReq, w2))"

subsection \<open>The steps of all nodes\<close>

text \<open>The writes and cache updates the operations are made of.  A write replaces the record it was
  computed from; a record enters a cache once it has been written, at any later time (gossip, a read, a
  failed condition or the writer itself); a node that restarts has an empty cache.\<close>

inductive liveness_step :: "(Liveness \<Rightarrow> bytes) \<Rightarrow> (bytes \<Rightarrow> Liveness result) \<Rightarrow> World \<Rightarrow> World \<Rightarrow> bool"
  for SetProto :: "Liveness \<Rightarrow> bytes" and GetProto :: "bytes \<Rightarrow> Liveness result" where
  create: "kvGet w n = None \<Longrightarrow>
    liveness_step SetProto GetProto w (kvPut w n (SetProto (noLiveness\<lparr>LvNodeID := n\<rparr>)) Created)"
| heartbeat: "heartbeatNew old inc thr now = Inr new \<Longrightarrow> kvGet w (LvNodeID old) = Some raw \<Longrightarrow> GetProto raw = Inr old \<Longrightarrow>
    liveness_step SetProto GetProto w (kvPut w (LvNodeID old) (SetProto new) (Heartbeated inc))"
| increment: "\<not> LvIsLive old now \<Longrightarrow> kvGet w (LvNodeID old) = Some raw \<Longrightarrow> GetProto raw = Inr old \<Longrightarrow>
    liveness_step SetProto GetProto w (kvPut w (LvNodeID old) (SetProto (old\<lparr>LvEpoch := LvEpoch old + 1\<rparr>)) (Incremented now))"
| drain: "kvGet w (LvNodeID old) = Some raw \<Longrightarrow> GetProto raw = Inr old \<Longrightarrow>
    liveness_step SetProto GetProto w (kvPut w (LvNodeID old) (SetProto (old\<lparr>Draining := d\<rparr>)) Changed)"
| member: "kvGet w (LvNodeID old) = Some raw \<Longrightarrow> GetProto raw = Inr old \<Longrightarrow>
    liveness_step SetProto GetProto w (kvPut w (LvNodeID old) (SetProto (old\<lparr>Membership := m\<rparr>)) Changed)"
| learn: "raw \<in> fst ` set (versions w n) \<Longrightarrow> GetProto raw = Inr l \<Longrightarrow>
    maybeUpdate i \<lparr>RecLiveness = l, Raw = Some raw\<rparr> w = Inr w' \<Longrightarrow> liveness_step SetProto GetProto w w'"
| restart: "liveness_step SetProto GetProto w (w\<lparr>caches := (caches w)(i := \<lambda>_. None)\<rparr>)"

abbreviation liveness_steps where
  "liveness_steps SetProto GetProto \<equiv> (liveness_step SetProto GetProto)\<^sup>*\<^sup>*"

definition initWorld :: World where
  "initWorld = \<lparr>versions = \<lambda>_. [], caches = \<lambda>_ _. None\<rparr>"

text \<open>How a value follows another.\<close>

fun follows :: "Cause \<Rightarrow> Liveness \<Rightarrow> Liveness \<Rightarrow> bool" where
  "follows Created old new = False"
| "follows (Heartbeated inc) old new \<longleftrightarrow> LvEpoch new = (if inc then LvEpoch old + 1 else LvEpoch old) \<and>
     \<not> LegacyLess (LvExpiration new) (LvExpiration old)"
| "follows (Incremented now) old new \<longleftrightarrow> LvEpoch new = LvEpoch old + 1 \<and> LvExpiration new = LvExpiration old \<and>
     \<not> LvIsLive old now"
| "follows Changed old new \<longleftrightarrow> LvEpoch new = LvEpoch old \<and> LvExpiration new = LvExpiration old"

definition decodes :: "(bytes \<Rightarrow> Liveness result) \<Rightarrow> int32 \<Rightarrow> bytes \<Rightarrow> Liveness \<Rightarrow> bool" where
  "decodes GetProto n raw l \<longleftrightarrow> GetProto raw = Inr l \<and> LvNodeID l = n"

fun history_ok :: "(bytes \<Rightarrow> Liveness result) \<Rightarrow> int32 \<Rightarrow> (bytes \<times> Cause) list \<Rightarrow> bool" where
  "history_ok GetProto n [] = True"
| "history_ok GetProto n [(raw, c)] \<longleftrightarrow> decodes GetProto n raw (noLiveness\<lparr>LvNodeID := n\<rparr>)"
| "history_ok GetProto n ((raw, c) # (raw', c') # vs) \<longleftrightarrow>
    (\<exists>l l'. decodes GetProto n raw l \<and> decodes GetProto n raw' l' \<and> follows c l' l) \<and> history_ok GetProto n ((raw', c') # vs)"

definition cached_ok :: "(bytes \<Rightarrow> Liveness result) \<Rightarrow> World \<Rightarrow> int32 \<Rightarrow> LvRecord \<Rightarrow> bool" where
  "cached_ok GetProto w n r \<longleftrightarrow>
    (\<exists>raw \<in> fst ` set (versions w n). Raw r = Some raw \<and> decodes GetProto n raw (RecLiveness r))"

definition liveness_inv :: "(bytes \<Rightarrow> Liveness result) \<Rightarrow> World \<Rightarrow> bool" where
  "liveness_inv GetProto w \<longleftrightarrow> (\<forall>n. history_ok GetProto n (versions w n)) \<and>
     (\<forall>i n r. caches w i n = Some r \<longrightarrow> cached_ok GetProto w n r)"

lemma liveness_init: "liveness_inv GetProto initWorld"
  by (simp add: liveness_inv_def initWorld_def)

lemma heartbeatNew_follows:
  "heartbeatNew old inc thr now = Inr new \<Longrightarrow> follows (Heartbeated inc) old new \<and> LvNodeID new = LvNodeID old"
  by (auto simp: heartbeatNew_def Let_def split: if_splits)

lemma kvPut_versions: "versions (kvPut w n v c) m = (if m = n then (v, c) # versions w n else versions w m)"
  "caches (kvPut w n v c) = caches w"
  by (simp_all add: kvPut_def)

lemma history_decodes: "history_ok GetProto n vs \<Longrightarrow> (raw, c) \<in> set vs \<Longrightarrow> \<exists>l. decodes GetProto n raw l"
  by (induction GetProto n vs rule: history_ok.induct) auto

lemma cached_ok_kvPut: "cached_ok GetProto w n r \<Longrightarrow> cached_ok GetProto (kvPut w m v c) n r"
  unfolding cached_ok_def kvPut_versions by auto

lemma inv_kvPut:
  assumes "\<forall>l. GetProto (SetProto l) = Inr l" "liveness_inv GetProto w" "kvGet w (LvNodeID old) = Some raw"
    and "GetProto raw = Inr old" "follows c old new" "LvNodeID new = LvNodeID old"
  shows "liveness_inv GetProto (kvPut w (LvNodeID old) (SetProto new) c)"
proof -
  obtain c' vs where vs: "versions w (LvNodeID old) = (raw, c') # vs"
    using assms(3) by (cases "versions w (LvNodeID old)") (auto simp: kvGet_def)
  have "history_ok GetProto (LvNodeID old) ((raw, c') # vs)" using assms(2) vs by (metis liveness_inv_def)
  then have "history_ok GetProto (LvNodeID old) ((SetProto new, c) # (raw, c') # vs)"
    using assms(1,4-6) by (auto simp: decodes_def)
  then show ?thesis using assms(2) vs cached_ok_kvPut by (auto simp: liveness_inv_def kvPut_versions)
qed

lemma cached_ok_caches [simp]: "cached_ok GetProto (w\<lparr>caches := x\<rparr>) n r \<longleftrightarrow> cached_ok GetProto w n r"
  by (simp add: cached_ok_def)

lemma maybeUpdate_Inr:
  "maybeUpdate i r w = Inr w' \<Longrightarrow> w' = w \<or> w' = w\<lparr>caches := (caches w)(i := (caches w i)(LvNodeID (RecLiveness r) \<mapsto> r))\<rparr>"
  by (auto simp: maybeUpdate_def Let_def rbind_Inr_conv split: if_splits)

lemma inv_maybeUpdate:
  assumes "liveness_inv GetProto w" "maybeUpdate i r w = Inr w'" "cached_ok GetProto w (LvNodeID (RecLiveness r)) r"
  shows "liveness_inv GetProto w'"
  using assms(1,3) maybeUpdate_Inr [OF assms(2)] by (auto simp: liveness_inv_def split: if_splits)

lemma liveness_step_inv:
  assumes "liveness_step SetProto GetProto w w'" "\<forall>l. GetProto (SetProto l) = Inr l" "liveness_inv GetProto w"
  shows "liveness_inv GetProto w'"
  using assms
proof (induction rule: liveness_step.induct)
  case (create w n)
  then have "versions w n = []" by (auto simp: kvGet_def split: list.splits)
  then show ?case using create cached_ok_kvPut by (auto simp: liveness_inv_def kvPut_versions decodes_def)
next
  case (heartbeat old inc thr now new w raw)
  then show ?case using inv_kvPut heartbeatNew_follows by blast
next
  case (learn raw w n l i w')
  obtain c where "(raw, c) \<in> set (versions w n)" using learn.hyps(1) by auto
  then have "decodes GetProto n raw l"
    using learn.prems(2) learn.hyps(2) history_decodes by (force simp: liveness_inv_def decodes_def)
  then have "cached_ok GetProto w (LvNodeID l) \<lparr>RecLiveness = l, Raw = Some raw\<rparr>"
    using learn.hyps(1) by (auto simp: cached_ok_def decodes_def)
  then show ?case using inv_maybeUpdate [OF learn.prems(2) learn.hyps(3)] by simp
next
  case (restart w i)
  then show ?case by (auto simp: liveness_inv_def cached_ok_def)
qed (auto intro!: inv_kvPut)

lemma liveness_steps_inv:
  "liveness_steps SetProto GetProto w w' \<Longrightarrow> \<forall>l. GetProto (SetProto l) = Inr l \<Longrightarrow> liveness_inv GetProto w \<Longrightarrow>
    liveness_inv GetProto w'"
  by (induction rule: rtranclp_induct) (auto intro: liveness_step_inv)

lemma liveness_step_versions: "liveness_step SetProto GetProto w w' \<Longrightarrow> \<exists>vs. versions w' n = vs @ versions w n"
  by (induction rule: liveness_step.induct) (auto simp: kvPut_versions dest!: maybeUpdate_Inr)

lemma liveness_steps_versions:
  assumes "liveness_steps SetProto GetProto w w'"
  shows "\<exists>vs. versions w' n = vs @ versions w n"
  using assms
proof (induction rule: rtranclp_induct)
  case (step y z)
  then show ?case using liveness_step_versions [OF step.hyps(2), of n] by (metis append.assoc)
qed simp

subsection \<open>The operations are made of these steps\<close>

text \<open>What others do is a run of steps, from any state.\<close>

abbreviation others where
  "others SetProto GetProto f \<equiv> (\<forall>w. liveness_steps SetProto GetProto w (f w))"

definition others_turn :: "(Liveness \<Rightarrow> bytes) \<Rightarrow> (bytes \<Rightarrow> Liveness result) \<Rightarrow> Turn \<Rightarrow> bool" where
  "others_turn SetProto GetProto t \<longleftrightarrow>
     others SetProto GetProto (TOther t) \<and> others SetProto GetProto (TBetween t) \<and> others SetProto GetProto (TAfter t)"

definition others_env :: "(Liveness \<Rightarrow> bytes) \<Rightarrow> (bytes \<Rightarrow> Liveness result) \<Rightarrow> OpEnv \<Rightarrow> bool" where
  "others_env SetProto GetProto env \<longleftrightarrow>
     others SetProto GetProto (EOther env) \<and> (\<forall>t \<in> set (ETurns env). others_turn SetProto GetProto t)"

definition update_ok :: "(Liveness \<Rightarrow> bytes) \<Rightarrow> (bytes \<Rightarrow> Liveness result) \<Rightarrow> livenessUpdate \<Rightarrow> Cause \<Rightarrow> bool" where
  "update_ok SetProto GetProto u c \<longleftrightarrow>
    (\<forall>w raw. kvGet w (LvNodeID (newLiveness u)) = Some raw \<longrightarrow> GetProto raw = Inr (oldLiveness u) \<longrightarrow>
      liveness_step SetProto GetProto w (kvPut w (LvNodeID (newLiveness u)) (SetProto (newLiveness u)) c)) \<and>
    (if ignoreCache u then \<exists>raw. oldRaw u = Some raw \<and> GetProto raw = Inr (oldLiveness u) else True)"

definition handler_ok :: "(Liveness \<Rightarrow> bytes) \<Rightarrow> (bytes \<Rightarrow> Liveness result) \<Rightarrow> CondFailed \<Rightarrow> bool" where
  "handler_ok SetProto GetProto handle \<longleftrightarrow>
    (\<forall>now r w. liveness_inv GetProto w \<and> (r = emptyRecord \<or> cached_ok GetProto w (LvNodeID (RecLiveness r)) r) \<longrightarrow>
      liveness_steps SetProto GetProto w (snd (handle now r w)))"

text \<open>The conditional write was made: at some point the newest value was the old record.\<close>

definition wrote :: "(Liveness \<Rightarrow> bytes) \<Rightarrow> (bytes \<Rightarrow> Liveness result) \<Rightarrow> livenessUpdate \<Rightarrow> Cause \<Rightarrow> World \<Rightarrow> World \<Rightarrow> bool" where
  "wrote SetProto GetProto u c w w' \<longleftrightarrow>
    (\<exists>wa raw. liveness_steps SetProto GetProto w wa \<and> kvGet wa (LvNodeID (newLiveness u)) = Some raw \<and>
      GetProto raw = Inr (oldLiveness u) \<and>
      liveness_steps SetProto GetProto (kvPut wa (LvNodeID (newLiveness u)) (SetProto (newLiveness u)) c) w')"

definition written :: "(Liveness \<Rightarrow> bytes) \<Rightarrow> livenessUpdate \<Rightarrow> LvRecord" where
  "written SetProto u = \<lparr>RecLiveness = newLiveness u, Raw = Some (SetProto (newLiveness u))\<rparr>"

text \<open>A result of the update: it ran as steps, and a record it returns is either the one it wrote or
  empty, when the handler accepted what it found.\<close>

definition update_result where
  "update_result SetProto GetProto u c handle w res \<longleftrightarrow>
    liveness_steps SetProto GetProto w (snd res) \<and>
    (\<forall>r. fst res = Inr r \<longrightarrow> r = written SetProto u \<and> wrote SetProto GetProto u c w (snd res) \<or>
      r = emptyRecord \<and> (\<exists>now x w1 w2. handle now x w1 = (None, w2)))"

lemma wrote_later:
  "wrote SetProto GetProto u c w1 w2 \<Longrightarrow> liveness_steps SetProto GetProto w w1 \<Longrightarrow> wrote SetProto GetProto u c w w2"
  "wrote SetProto GetProto u c w w1 \<Longrightarrow> liveness_steps SetProto GetProto w1 w2 \<Longrightarrow> wrote SetProto GetProto u c w w2"
  unfolding wrote_def by (meson rtranclp_trans)+

lemma update_result_later:
  "update_result SetProto GetProto u c handle w1 res \<Longrightarrow> liveness_steps SetProto GetProto w w1 \<Longrightarrow>
    update_result SetProto GetProto u c handle w res"
  unfolding update_result_def by (meson rtranclp_trans wrote_later(1))

lemma kvGet_versions: "kvGet w n = Some raw \<Longrightarrow> raw \<in> fst ` set (versions w n)"
  by (auto simp: kvGet_def split: list.splits intro: rev_image_eqI)

lemma kvGet_cached_ok:
  assumes "liveness_inv GetProto w" "kvGet w n = Some raw" "GetProto raw = Inr l"
  shows "cached_ok GetProto w (LvNodeID l) \<lparr>RecLiveness = l, Raw = Some raw\<rparr>"
proof -
  obtain c where c: "(raw, c) \<in> set (versions w n)" using kvGet_versions [OF assms(2)] by auto
  then have "LvNodeID l = n"
    using assms(1,3) history_decodes [OF _ c, of GetProto] by (auto simp: liveness_inv_def decodes_def)
  then show ?thesis using kvGet_versions [OF assms(2)] assms(3) by (auto simp: cached_ok_def decodes_def)
qed

lemma cached_ok_steps:
  assumes "cached_ok GetProto w n r" "liveness_steps SetProto GetProto w w'"
  shows "cached_ok GetProto w' n r"
  using assms(1) liveness_steps_versions [OF assms(2), of n] by (auto simp: cached_ok_def)

lemma condFailed_result:
  assumes "handler_ok SetProto GetProto handle" "liveness_inv GetProto w"
    and "r = emptyRecord \<or> cached_ok GetProto w (LvNodeID (RecLiveness r)) r"
  shows "update_result SetProto GetProto u c handle w (condFailed handle now r w)"
proof -
  have "liveness_steps SetProto GetProto w (snd (handle now r w))" using assms by (simp add: handler_ok_def)
  then show ?thesis
    by (cases "handle now r w") (auto simp: update_result_def condFailed_def split: option.splits)
qed

lemma cputTxn_result:
  assumes inv: "liveness_inv GetProto w" and rt: "\<forall>l. GetProto (SetProto l) = Inr l"
    and up: "update_ok SetProto GetProto u c" and h: "handler_ok SetProto GetProto handle"
    and af: "others SetProto GetProto after" and raw: "GetProto raw = Inr (oldLiveness u)"
  shows "update_result SetProto GetProto u c handle w (cputTxn SetProto GetProto u c (Some raw) handle fault after now w)"
proof -
  let ?n = "LvNodeID (newLiveness u)"
  let ?w1 = "kvPut w ?n (SetProto (newLiveness u)) c"
  have put: "liveness_steps SetProto GetProto w (after ?w1) \<and> wrote SetProto GetProto u c w (after ?w1)"
    if "kvGet w ?n = Some raw"
    using that up raw af unfolding update_ok_def wrote_def by (meson r_into_rtranclp rtranclp_trans rtranclp.rtrancl_refl)
  have aft: "liveness_steps SetProto GetProto w (after w)" using af by blast
  have inva: "liveness_inv GetProto (after w)" by (rule liveness_steps_inv [OF aft rt inv])
  have fail: "update_result SetProto GetProto u c handle w (condFailed handle now r (after w))"
    if "r = emptyRecord \<or> cached_ok GetProto (after w) (LvNodeID (RecLiveness r)) r" for r
    by (rule update_result_later [OF condFailed_result [OF h inva that] aft])
  have act: "cached_ok GetProto (after w) (LvNodeID l) \<lparr>RecLiveness = l, Raw = Some a\<rparr>"
    if "kvGet w ?n = Some a" "GetProto a = Inr l" for a l
    by (rule cached_ok_steps [OF kvGet_cached_ok [OF inv that] aft])
  show ?thesis
  proof (cases fault)
    case NoFault
    then show ?thesis using put aft fail act
      by (auto simp: cputTxn_def Let_def update_result_def [of _ _ _ _ _ _ "(Inr _, _)"] update_result_def [of _ _ _ _ _ _ "(Inl _, _)"]
          written_def split: option.splits sum.splits)
  qed (use put aft in \<open>auto simp: cputTxn_def Let_def update_result_def\<close>)
qed

lemma attempt_result:
  assumes inv: "liveness_inv GetProto w" and rt: "\<forall>l. GetProto (SetProto l) = Inr l"
    and up: "update_ok SetProto GetProto u c" and h: "handler_ok SetProto GetProto handle"
    and ot: "others SetProto GetProto between" "others SetProto GetProto after"
  shows "update_result SetProto GetProto u c handle w
    (updateLivenessAttempt SetProto GetProto i u c handle between fault after now w)"
proof -
  have bt: "liveness_steps SetProto GetProto w (between w)" using ot by blast
  have cput: "update_result SetProto GetProto u c handle w (cputTxn SetProto GetProto u c (Some raw) handle fault after now (between w))"
    if "GetProto raw = Inr (oldLiveness u)" for raw
    by (rule update_result_later [OF cputTxn_result [OF liveness_steps_inv [OF bt rt inv] rt up h ot(2) that] bt])
  show ?thesis
  proof (cases "ignoreCache u")
    case True
    then show ?thesis using up cput by (auto simp: update_ok_def updateLivenessAttempt_def)
  next
    case False
    show ?thesis
    proof (cases "oldRaw u = None \<and> GetLiveness w i (LvNodeID (newLiveness u)) \<noteq> None")
      case True
      then obtain r where r: "GetLiveness w i (LvNodeID (newLiveness u)) = Some r" by auto
      then have ok: "cached_ok GetProto w (LvNodeID (newLiveness u)) r" using inv by (simp add: liveness_inv_def GetLiveness_def)
      then have "cached_ok GetProto w (LvNodeID (RecLiveness r)) r" by (auto simp: cached_ok_def decodes_def)
      then have "update_result SetProto GetProto u c handle w (condFailed handle now r w)"
        using condFailed_result [OF h inv] by blast
      moreover obtain raw where "Raw r = Some raw" "GetProto raw = Inr (RecLiveness r)" using ok by (auto simp: cached_ok_def decodes_def)
      ultimately show ?thesis using cput True False r by (auto simp: updateLivenessAttempt_def)
    qed (use False in \<open>auto simp: updateLivenessAttempt_def update_result_def\<close>)
  qed
qed

lemma updateLiveness_result:
  assumes "liveness_inv GetProto w" "\<forall>l. GetProto (SetProto l) = Inr l"
    and "update_ok SetProto GetProto u c" "handler_ok SetProto GetProto handle" "\<forall>t \<in> set ts. others_turn SetProto GetProto t"
  shows "update_result SetProto GetProto u c handle w (updateLiveness SetProto GetProto i u c handle ts w)"
  using assms(1,5)
proof (induction ts arbitrary: w)
  case Nil
  then show ?case by (simp add: update_result_def)
next
  case (Cons t ts)
  have t: "others SetProto GetProto (TOther t)" "others SetProto GetProto (TBetween t)" "others SetProto GetProto (TAfter t)"
    using Cons.prems(2) by (simp_all add: others_turn_def)
  let ?w1 = "TOther t w"
  have w1: "liveness_steps SetProto GetProto w ?w1" using t(1) by blast
  note inv1 = liveness_steps_inv [OF w1 assms(2) Cons.prems(1)]
  let ?a = "updateLivenessAttempt SetProto GetProto i u c handle (TBetween t) (TFault t) (TAfter t) (TNow t) ?w1"
  have a: "update_result SetProto GetProto u c handle w ?a"
    by (rule update_result_later [OF attempt_result [OF inv1 assms(2-4) t(2,3)] w1])
  have w2: "liveness_steps SetProto GetProto w (snd ?a)" using a by (simp add: update_result_def)
  have retry: "update_result SetProto GetProto u c handle w (updateLiveness SetProto GetProto i u c handle ts (snd ?a))"
    using update_result_later [OF Cons.IH [OF liveness_steps_inv [OF w2 assms(2) Cons.prems(1)]] w2] Cons.prems(2) by simp
  obtain res w2' where aa: "?a = (res, w2')" by (cases ?a)
  show ?case
  proof (cases "TDisk t")
    case None
    then show ?thesis using a retry by (cases res) (auto simp: Let_def aa)
  qed (use w1 in \<open>simp add: update_result_def Let_def\<close>)
qed

lemma maybeUpdate_steps:
  assumes "cached_ok GetProto w (LvNodeID (RecLiveness r)) r" "maybeUpdate i r w = Inr w'"
  shows "liveness_steps SetProto GetProto w w'"
proof -
  obtain raw where raw: "raw \<in> fst ` set (versions w (LvNodeID (RecLiveness r)))" "Raw r = Some raw" "GetProto raw = Inr (RecLiveness r)"
    using assms(1) by (auto simp: cached_ok_def decodes_def)
  have "r = \<lparr>RecLiveness = RecLiveness r, Raw = Some raw\<rparr>" using raw(2) by simp
  then have "liveness_step SetProto GetProto w w'"
    using raw(1,3) assms(2) by (metis liveness_step.learn)
  then show ?thesis by blast
qed

lemma maybeUpdate_empty [simp]: "maybeUpdate i emptyRecord w = Inl (Panic ''invalid new liveness record; found to be empty'')"
  by (simp add: maybeUpdate_def emptyRecord_def)

lemma handlers_ok:
  "handler_ok SetProto GetProto (heartbeatCondFailed i inc)" "handler_ok SetProto GetProto (incrementCondFailed i l)"
  "handler_ok SetProto GetProto (drainingCondFailed i d)" "handler_ok SetProto GetProto (membershipCondFailed m)"
  by (auto simp: handler_ok_def heartbeatCondFailed_def incrementCondFailed_def drainingCondFailed_def membershipCondFailed_def
      split: sum.splits intro: maybeUpdate_steps)

lemma handlers_fail:
  "heartbeatCondFailed i inc now r w \<noteq> (None, w')" "incrementCondFailed i l now r w \<noteq> (None, w')"
  "drainingCondFailed i d now r w \<noteq> (None, w')"
  by (auto simp: heartbeatCondFailed_def incrementCondFailed_def drainingCondFailed_def split: sum.splits)

lemma updates_ok:
  "heartbeatNew old inc thr now = Inr new \<Longrightarrow>
    update_ok SetProto GetProto \<lparr>newLiveness = new, oldLiveness = old, ignoreCache = False, oldRaw = None\<rparr> (Heartbeated inc)"
  "\<not> LvIsLive old now \<Longrightarrow> update_ok SetProto GetProto
    \<lparr>newLiveness = old\<lparr>LvEpoch := LvEpoch old + 1\<rparr>, oldLiveness = old, ignoreCache = False, oldRaw = None\<rparr> (Incremented now)"
  "GetProto raw = Inr old \<Longrightarrow> update_ok SetProto GetProto
    \<lparr>newLiveness = old\<lparr>Draining := d\<rparr>, oldLiveness = old, ignoreCache = True, oldRaw = Some raw\<rparr> Changed"
  "GetProto raw = Inr old \<Longrightarrow> update_ok SetProto GetProto
    \<lparr>newLiveness = old\<lparr>Membership := m\<rparr>, oldLiveness = old, ignoreCache = True, oldRaw = Some raw\<rparr> Changed"
  using heartbeatNew_follows [of old inc thr now new]
  by (auto simp: update_ok_def intro: liveness_step.intros)

lemma wrote_versions:
  assumes "wrote SetProto GetProto u c w w'" "\<forall>l. GetProto (SetProto l) = Inr l"
  shows "cached_ok GetProto w' (LvNodeID (newLiveness u)) (written SetProto u)"
proof -
  obtain wa where wa: "liveness_steps SetProto GetProto (kvPut wa (LvNodeID (newLiveness u)) (SetProto (newLiveness u)) c) w'"
    using assms(1) by (auto simp: wrote_def)
  have "cached_ok GetProto (kvPut wa (LvNodeID (newLiveness u)) (SetProto (newLiveness u)) c) (LvNodeID (newLiveness u)) (written SetProto u)"
    using assms(2) by (simp add: cached_ok_def written_def kvPut_versions decodes_def)
  then show ?thesis by (rule cached_ok_steps [OF _ wa])
qed

text \<open>The end of an operation whose handler never accepts what it found.\<close>

lemma noteWritten_result:
  assumes "update_result SetProto GetProto u c handle w (Inr r, w1)" "\<And>now x w1 w2. handle now x w1 \<noteq> (None, w2)"
    and "\<forall>l. GetProto (SetProto l) = Inr l"
  shows "liveness_steps SetProto GetProto w (snd (noteWritten i r w1))"
    "wrote SetProto GetProto u c w (snd (noteWritten i r w1))"
proof -
  have r: "r = written SetProto u" and wr: "wrote SetProto GetProto u c w w1" and st: "liveness_steps SetProto GetProto w w1"
    using assms(1,2) by (auto simp: update_result_def)
  have "cached_ok GetProto w1 (LvNodeID (RecLiveness r)) r" using wrote_versions [OF wr assms(3)] by (simp add: r written_def)
  then have n: "liveness_steps SetProto GetProto w1 (snd (noteWritten i r w1))"
    by (auto simp: noteWritten_def split: sum.splits intro: maybeUpdate_steps)
  show "liveness_steps SetProto GetProto w (snd (noteWritten i r w1))" using st n by (rule rtranclp_trans)
  show "wrote SetProto GetProto u c w (snd (noteWritten i r w1))" by (rule wrote_later(2) [OF wr n])
qed

lemma update_result_steps: "update_result SetProto GetProto u c handle w (res, w1) \<Longrightarrow> liveness_steps SetProto GetProto w w1"
  by (simp add: update_result_def)

lemma env_start:
  assumes "others_env SetProto GetProto env" "\<forall>l. GetProto (SetProto l) = Inr l" "liveness_inv GetProto w"
  shows "liveness_steps SetProto GetProto w (EOther env w)" "liveness_inv GetProto (EOther env w)"
    "\<forall>t \<in> set (ETurns env). others_turn SetProto GetProto t"
proof -
  show s: "liveness_steps SetProto GetProto w (EOther env w)" using assms(1) by (simp add: others_env_def)
  show "liveness_inv GetProto (EOther env w)" by (rule liveness_steps_inv [OF s assms(2,3)])
  show "\<forall>t \<in> set (ETurns env). others_turn SetProto GetProto t" using assms(1) by (simp add: others_env_def)
qed

lemma heartbeat_steps:
  assumes "others_env SetProto GetProto env" "\<forall>l. GetProto (SetProto l) = Inr l" "liveness_inv GetProto w"
  shows "liveness_steps SetProto GetProto w (snd (heartbeatInternal SetProto GetProto thr i old inc env w))"
proof -
  note s = env_start [OF assms]
  show ?thesis
  proof (cases "heartbeatNew old inc thr (EAfter env)")
    case (Inr new)
    let ?u = "\<lparr>newLiveness = new, oldLiveness = old, ignoreCache = False, oldRaw = None\<rparr>"
    note res = updateLiveness_result [OF s(2) assms(2) updates_ok(1) [OF Inr] handlers_ok(1) s(3), of i inc i]
    obtain x w1 where x: "updateLiveness SetProto GetProto i ?u (Heartbeated inc) (heartbeatCondFailed i inc) (ETurns env) (EOther env w) = (x, w1)"
      by fastforce
    have "liveness_steps SetProto GetProto (EOther env w) (snd (noteWritten i r w1))" if "x = Inr r" for r
      using noteWritten_result(1) [OF res [unfolded x that] handlers_fail(1) assms(2)] .
    then show ?thesis using s(1) res unfolding heartbeatInternal_def x
      by (cases x) (auto simp: Let_def x Inr dest!: update_result_steps intro: rtranclp_trans)
  qed (use s in \<open>auto simp: heartbeatInternal_def Let_def\<close>)
qed

lemma IncrementEpoch_result:
  assumes "others_env SetProto GetProto env" "\<forall>l. GetProto (SetProto l) = Inr l" "liveness_inv GetProto w"
    and "IncrementEpoch SetProto GetProto i l env w = (e, w')"
  shows "liveness_steps SetProto GetProto w w'"
    "e = None \<Longrightarrow> \<not> LvIsLive l (EAfter env) \<and>
      wrote SetProto GetProto \<lparr>newLiveness = l\<lparr>LvEpoch := LvEpoch l + 1\<rparr>, oldLiveness = l, ignoreCache = False, oldRaw = None\<rparr>
        (Incremented (EAfter env)) w w'"
proof -
  note s = env_start [OF assms(1-3)]
  let ?u = "\<lparr>newLiveness = l\<lparr>LvEpoch := LvEpoch l + 1\<rparr>, oldLiveness = l, ignoreCache = False, oldRaw = None\<rparr>"
  have "liveness_steps SetProto GetProto w w' \<and> (e = None \<longrightarrow> \<not> LvIsLive l (EAfter env) \<and>
      wrote SetProto GetProto ?u (Incremented (EAfter env)) w w')"
  proof (cases "ECancelled env \<or> LvIsLive l (EAfter env)")
    case True
    then show ?thesis using s(1) assms(4) by (auto simp: IncrementEpoch_def Let_def split: if_splits)
  next
    case False
    then have nl: "\<not> LvIsLive l (EAfter env)" "\<not> ECancelled env" by simp_all
    note res = updateLiveness_result [OF s(2) assms(2) updates_ok(2) [OF nl(1)] handlers_ok(2) s(3), of i l i]
    obtain x w1 where x: "updateLiveness SetProto GetProto i ?u (Incremented (EAfter env)) (incrementCondFailed i l) (ETurns env) (EOther env w) = (x, w1)"
      by fastforce
    show ?thesis
    proof (cases x)
      case (Inl y)
      then have "e = Some y" "w' = w1" using assms(4) nl x by (auto simp: IncrementEpoch_def Let_def)
      then show ?thesis using res s(1) unfolding x by (auto dest!: update_result_steps intro: rtranclp_trans)
    next
      case (Inr r)
      then have w': "w' = snd (noteWritten i r w1)" using assms(4) nl x by (auto simp: IncrementEpoch_def Let_def)
      show ?thesis using noteWritten_result [OF res [unfolded x Inr] handlers_fail(2) assms(2), of i] s(1) nl(1)
        unfolding w' by (auto intro: wrote_later(1) rtranclp_trans)
    qed
  qed
  then show "liveness_steps SetProto GetProto w w'"
    "e = None \<Longrightarrow> \<not> LvIsLive l (EAfter env) \<and> wrote SetProto GetProto ?u (Incremented (EAfter env)) w w'"
    by simp_all
qed

lemma draining_steps:
  assumes "others_env SetProto GetProto env" "\<forall>l. GetProto (SetProto l) = Inr l" "liveness_inv GetProto w"
    and "Raw r = Some raw" "GetProto raw = Inr (RecLiveness r)"
  shows "liveness_steps SetProto GetProto w (snd (setDrainingInternal SetProto GetProto i r d env w))"
proof -
  note s = env_start [OF assms(1-3)]
  note res = updateLiveness_result [OF s(2) assms(2) updates_ok(3) [where GetProto = GetProto and raw = raw, OF assms(5)] handlers_ok(3) s(3), of d i d i]
  let ?u = "\<lparr>newLiveness = (RecLiveness r)\<lparr>Draining := d\<rparr>, oldLiveness = RecLiveness r, ignoreCache = True, oldRaw = Some raw\<rparr>"
  obtain x w1 where x: "updateLiveness SetProto GetProto i ?u Changed (drainingCondFailed i d) (ETurns env) (EOther env w) = (x, w1)"
    by fastforce
  have "liveness_steps SetProto GetProto (EOther env w) (snd (noteWritten i y w1))" if "x = Inr y" for y
    using noteWritten_result(1) [OF res [unfolded x that] handlers_fail(3) assms(2)] .
  then show ?thesis using s(1) res unfolding x
    by (cases x) (auto simp: setDrainingInternal_def Let_def x assms(4) dest!: update_result_steps intro: rtranclp_trans)
qed

lemma membership_steps:
  assumes "\<forall>t \<in> set ts. others_turn SetProto GetProto t" "\<forall>l. GetProto (SetProto l) = Inr l" "liveness_inv GetProto w"
    and "Raw r = Some raw" "GetProto raw = Inr (RecLiveness r)"
  shows "liveness_steps SetProto GetProto w (snd (setMembershipStatusInternal SetProto GetProto i r m ts w))"
proof -
  note res = updateLiveness_result [OF assms(3,2) updates_ok(4) [where GetProto = GetProto and raw = raw, OF assms(5)] handlers_ok(4) assms(1), of m m i]
  let ?u = "\<lparr>newLiveness = (RecLiveness r)\<lparr>Membership := m\<rparr>, oldLiveness = RecLiveness r, ignoreCache = True, oldRaw = Some raw\<rparr>"
  obtain x w1 where x: "updateLiveness SetProto GetProto i ?u Changed (membershipCondFailed m) ts w = (x, w1)" by fastforce
  show ?thesis using res unfolding x
    by (cases x) (auto simp: setMembershipStatusInternal_def Let_def x assms(4) dest!: update_result_steps split: sum.splits)
qed

lemma create_steps:
  assumes "\<forall>t \<in> set ts. others SetProto GetProto (fst t)"
  shows "liveness_steps SetProto GetProto w (snd (CreateLivenessRecord SetProto n ts w))"
  using assms
proof (induction SetProto n ts w rule: CreateLivenessRecord.induct)
  case (2 SetProto n other fault ts w0)
  let ?w = "other w0"
  let ?w1 = "kvPut ?w n (SetProto (noLiveness\<lparr>LvNodeID := n\<rparr>)) Created"
  have w: "liveness_steps SetProto GetProto w0 ?w" using 2(2) by simp
  have w1: "kvGet ?w n = None \<Longrightarrow> liveness_steps SetProto GetProto w0 ?w1"
    by (rule rtranclp.rtrancl_into_rtrancl [OF w liveness_step.create])
  have wb: "liveness_steps SetProto GetProto w0 (if b \<and> kvGet ?w n = None then ?w1 else ?w)" for b
    using w w1 by auto
  show ?case
  proof (cases fault)
    case (RetryFault b)
    have "liveness_steps SetProto GetProto w0
        (snd (CreateLivenessRecord SetProto n ts (if b \<and> kvGet ?w n = None then ?w1 else ?w)))"
      by (rule rtranclp_trans [OF wb 2(1) [OF refl refl refl refl RetryFault]]) (use 2(2) in simp)
    then show ?thesis by (simp add: RetryFault Let_def)
  qed (use w w1 in \<open>auto simp: Let_def\<close>)
qed simp

lemma gossip_steps:
  assumes "content \<in> fst ` set (versions w n)" "livenessGossipUpdate GetProto i content w = Inr w'"
  shows "liveness_steps SetProto GetProto w w'"
  using assms by (auto simp: livenessGossipUpdate_def split: sum.splits intro!: r_into_rtranclp liveness_step.learn)

lemma kv_read_steps:
  assumes "getLivenessRecordFromKV GetProto i n getErr w = Inr (r, w')"
  shows "liveness_steps SetProto GetProto w w'"
  using assms kvGet_versions [of w n]
  by (auto simp: getLivenessRecordFromKV_def rbind_Inr_conv Let_def split: option.splits intro!: r_into_rtranclp liveness_step.learn)

lemma promoteLoop_steps:
  assumes "\<forall>e \<in> set envs. others_env SetProto GetProto e" "\<forall>l. GetProto (SetProto l) = Inr l" "liveness_inv GetProto w"
  shows "liveness_steps SetProto GetProto w (snd (promoteLoop SetProto GetProto thr i lease n cl envs w))"
  using assms(1,3)
proof (induction envs arbitrary: cl w)
  case (Cons env envs)
  obtain e w1 where hb: "Heartbeat SetProto GetProto thr i cl env w = (e, w1)" by fastforce
  then have w1: "liveness_steps SetProto GetProto w w1"
    using heartbeat_steps [OF _ assms(2) Cons.prems(2)] Cons.prems(1) by (metis Heartbeat_def list.set_intros(1) snd_conv)
  have "liveness_steps SetProto GetProto w (snd (promoteLoop SetProto GetProto thr i lease n cl' envs w1))" for cl'
    using Cons.IH [OF _ liveness_steps_inv [OF w1 assms(2) Cons.prems(2)]] Cons.prems(1) w1 by (auto intro: rtranclp_trans)
  then show ?case using w1 by (auto simp: hb split: option.splits)
qed simp

lemma end_epoch_result:
  assumes "others_env SetProto GetProto env" "\<forall>l. GetProto (SetProto l) = Inr l" "liveness_inv GetProto w"
    and "end_epoch SetProto GetProto thr i st new now env w = (e, w')"
  shows "liveness_steps SetProto GetProto w w'"
    "e = None \<Longrightarrow> LeaseType (StLease st) = LeaseEpoch \<Longrightarrow> State st = EXPIRED \<Longrightarrow>
      \<not> StOwnedBy st (StoreID (LeaseReplica new)) \<Longrightarrow> LvEpoch (StLiveness st) = LeaseEpochNo (StLease st) \<Longrightarrow>
      IncrementEpoch SetProto GetProto i (StLiveness st) env w = (None, w')"
proof -
  have hb: "liveness_steps SetProto GetProto w (snd (Heartbeat SetProto GetProto thr i l env w))" for l
    unfolding Heartbeat_def by (rule heartbeat_steps [OF assms(1-3)])
  have inc: "liveness_steps SetProto GetProto w (snd (IncrementEpoch SetProto GetProto i l env w))" for l
    by (rule IncrementEpoch_result(1) [OF assms(1-3)]) (rule surjective_pairing)
  show "liveness_steps SetProto GetProto w w'"
    using assms(4) hb inc by (auto simp: end_epoch_def Let_def split: if_splits sum.splits bool.splits)
  show "e = None \<Longrightarrow> LeaseType (StLease st) = LeaseEpoch \<Longrightarrow> State st = EXPIRED \<Longrightarrow>
      \<not> StOwnedBy st (StoreID (LeaseReplica new)) \<Longrightarrow> LvEpoch (StLiveness st) = LeaseEpochNo (StLease st) \<Longrightarrow>
      IncrementEpoch SetProto GetProto i (StLiveness st) env w = (None, w')"
    using assms(4) by (auto simp: end_epoch_def Let_def prod_eq_iff split: if_splits sum.splits bool.splits option.splits)
qed

text \<open>The task that asks for a lease runs as steps; if it sends the request for a lease of another store
  whose epoch it saw as current, it has ended that epoch.\<close>

lemma requestLease_result:
  assumes "\<forall>e \<in> set (env # envs). others_env SetProto GetProto e" "\<forall>l. GetProto (SetProto l) = Inr l" "liveness_inv GetProto w"
    and "requestLease SetProto GetProto thr i st new lv envs now env leaseReq w = (res, w')"
  shows "liveness_steps SetProto GetProto w w'"
    "res = Inr sent \<Longrightarrow> LeaseType (StLease st) = LeaseEpoch \<Longrightarrow> State st = EXPIRED \<Longrightarrow>
      \<not> StOwnedBy st (StoreID (LeaseReplica new)) \<Longrightarrow> LvEpoch (StLiveness st) = LeaseEpochNo (StLease st) \<Longrightarrow>
      wrote SetProto GetProto \<lparr>newLiveness = (StLiveness st)\<lparr>LvEpoch := LvEpoch (StLiveness st) + 1\<rparr>,
          oldLiveness = StLiveness st, ignoreCache = False, oldRaw = None\<rparr> (Incremented (EAfter env)) w w'"
proof -
  obtain e1 w1 where p: "promote_lease SetProto GetProto thr i st new lv envs w = (e1, w1)" by fastforce
  have w1: "liveness_steps SetProto GetProto w w1"
    using p promoteLoop_steps [OF _ assms(2,3), of envs thr i "StLease st" "LvNodeID lv" lv] assms(1)
    by (auto simp: promote_lease_def Let_def split: if_splits)
  note inv1 = liveness_steps_inv [OF w1 assms(2,3)]
  obtain e2 w2 where d: "end_epoch SetProto GetProto thr i st new now env w1 = (e2, w2)" by fastforce
  have env: "others_env SetProto GetProto env" using assms(1) by simp
  note r = end_epoch_result [OF env assms(2) inv1 d]
  show "liveness_steps SetProto GetProto w w'"
    using assms(4) w1 r(1) by (auto simp: requestLease_def p d split: option.splits intro: rtranclp_trans)
  assume a: "res = Inr sent" "LeaseType (StLease st) = LeaseEpoch" "State st = EXPIRED"
    "\<not> StOwnedBy st (StoreID (LeaseReplica new))" "LvEpoch (StLiveness st) = LeaseEpochNo (StLease st)"
  have e: "e2 = None" "w' = w2" using assms(4) a(1) by (auto simp: requestLease_def p d split: option.splits)
  show "wrote SetProto GetProto \<lparr>newLiveness = (StLiveness st)\<lparr>LvEpoch := LvEpoch (StLiveness st) + 1\<rparr>,
          oldLiveness = StLiveness st, ignoreCache = False, oldRaw = None\<rparr> (Incremented (EAfter env)) w w'"
    using IncrementEpoch_result(2) [OF env assms(2) inv1 r(2) [OF e(1) a(2-5)]] w1 e(2) wrote_later(1) by blast
qed

subsection \<open>What the history of a record tells\<close>

abbreviation expTS :: "Liveness \<Rightarrow> Timestamp" where
  "expTS l \<equiv> LegacyToTimestamp (LvExpiration l)"

lemma follows_le:
  assumes "follows c old new" "sint (LvEpoch old) < 2 ^ 63 - 1"
  shows "sint (LvEpoch old) \<le> sint (LvEpoch new)" "sint (LvEpoch new) \<le> sint (LvEpoch old) + 1" "LessEq (expTS old) (expTS new)"
proof -
  have "LvEpoch old \<noteq> MaxInt64" using assms(2) by (auto simp: sint_max)
  then show "sint (LvEpoch old) \<le> sint (LvEpoch new)" "sint (LvEpoch new) \<le> sint (LvEpoch old) + 1" "LessEq (expTS old) (expTS new)"
    using assms(1) by (cases c; auto simp: sint_succ64 LegacyLess_def split: if_splits)+
qed

lemma decodes_unique: "decodes GetProto n raw l \<Longrightarrow> decodes GetProto n raw l' \<Longrightarrow> l' = l"
  by (simp add: decodes_def)

lemma history_newest_value:
  assumes "history_ok GetProto n ((raw, c) # vs)" "decodes GetProto n raw l" "int (length vs) < 2 ^ 63 - 1"
  shows "0 \<le> sint (LvEpoch l)" "sint (LvEpoch l) \<le> int (length vs)" "0 \<le> sint (WallTime (expTS l))"
    "\<And>raw' c' l'. (raw', c') \<in> set vs \<Longrightarrow> decodes GetProto n raw' l' \<Longrightarrow>
      sint (LvEpoch l') \<le> sint (LvEpoch l) \<and> LessEq (expTS l') (expTS l)"
proof -
  have "0 \<le> sint (LvEpoch l) \<and> sint (LvEpoch l) \<le> int (length vs) \<and> 0 \<le> sint (WallTime (expTS l)) \<and>
    (\<forall>raw' c' l'. (raw', c') \<in> set vs \<and> decodes GetProto n raw' l' \<longrightarrow>
      sint (LvEpoch l') \<le> sint (LvEpoch l) \<and> LessEq (expTS l') (expTS l))"
    using assms
  proof (induction vs arbitrary: raw c l)
    case Nil
    then have "l = noLiveness\<lparr>LvNodeID := n\<rparr>" using decodes_unique by auto
    then show ?case by (simp add: noLiveness_def ToLegacyTimestamp_def LegacyToTimestamp_def emptyTimestamp_def)
  next
    case (Cons v vs)
    obtain raw1 c1 where v: "v = (raw1, c1)" by fastforce
    obtain l1 where l1: "decodes GetProto n raw1 l1" "follows c l1 l"
      using Cons.prems(1,2) decodes_unique unfolding v by (metis history_ok.simps(3))
    have "history_ok GetProto n ((raw1, c1) # vs)" "int (length vs) < 2 ^ 63 - 1" using Cons.prems unfolding v by simp_all
    note IH = Cons.IH [OF this(1) l1(1) this(2)]
    then have small: "sint (LvEpoch l1) < 2 ^ 63 - 1" using Cons.prems(3) by simp
    note f = follows_le [OF l1(2) small]
    have wall: "0 \<le> sint (WallTime (expTS l))" using f(3) IH by (auto simp: LessEq_def)
    have "sint (LvEpoch l') \<le> sint (LvEpoch l) \<and> LessEq (expTS l') (expTS l)"
      if "(raw', c') \<in> set (v # vs)" "decodes GetProto n raw' l'" for raw' c' l'
    proof (cases "(raw', c') = v")
      case True
      then show ?thesis using decodes_unique [OF l1(1)] that(2) f by (auto simp: v)
    next
      case False
      then have "sint (LvEpoch l') \<le> sint (LvEpoch l1) \<and> LessEq (expTS l') (expTS l1)" using IH that by auto
      then show ?thesis using f ts_trans(1) by (meson order_trans)
    qed
    then show ?case using IH f wall by auto
  qed
  then show "0 \<le> sint (LvEpoch l)" "sint (LvEpoch l) \<le> int (length vs)" "0 \<le> sint (WallTime (expTS l))"
    "\<And>raw' c' l'. (raw', c') \<in> set vs \<Longrightarrow> decodes GetProto n raw' l' \<Longrightarrow>
      sint (LvEpoch l') \<le> sint (LvEpoch l) \<and> LessEq (expTS l') (expTS l)" by blast+
qed

lemma history_suffix: "history_ok GetProto n (xs @ ys) \<Longrightarrow> history_ok GetProto n ys"
proof (induction xs)
  case (Cons v xs)
  then show ?case by (cases v; cases "xs @ ys") auto
qed simp

text \<open>Once the epoch of a record has been incremented, no value of the epoch expires later than it.\<close>

lemma incremented_epoch:
  assumes inv: "history_ok GetProto n (zs @ (raw1, c1) # (raw0, c0) # vs)" and len: "int (length (zs @ (raw1, c1) # (raw0, c0) # vs)) < 2 ^ 63"
    and d: "decodes GetProto n raw1 l1" "decodes GetProto n raw0 l0" "LvEpoch l1 = LvEpoch l0 + 1"
    and x: "(raw, c) \<in> set (zs @ (raw1, c1) # (raw0, c0) # vs)" "decodes GetProto n raw l" "LvEpoch l = LvEpoch l0"
  shows "LessEq (expTS l) (expTS l0)"
proof -
  have h0: "history_ok GetProto n ((raw0, c0) # vs)"
    using history_suffix [of GetProto n "zs @ [(raw1, c1)]"] inv by simp
  have len0: "int (length vs) < 2 ^ 63 - 1" using len by simp
  note b0 = history_newest_value [OF h0 d(2) len0]
  have "sint (LvEpoch l0) < 2 ^ 63 - 1" using b0(2) len0 by linarith
  then have "LvEpoch l0 \<noteq> MaxInt64" by (auto simp: sint_max)
  then have up: "sint (LvEpoch l1) = sint (LvEpoch l0) + 1" using d(3) sint_succ64 by simp
  have "sint (LvEpoch l1) \<le> sint (LvEpoch l)" if z: "(raw, c) \<in> set (zs @ [(raw1, c1)])"
  proof (cases "(raw, c) = (raw1, c1)")
    case True
    then show ?thesis using decodes_unique [OF d(1)] x(2) by auto
  next
    case False
    then obtain ys zs' where zs: "zs = ys @ (raw, c) # zs'" using z split_list by fastforce
    have "history_ok GetProto n ((raw, c) # zs' @ (raw1, c1) # (raw0, c0) # vs)"
      using history_suffix [of GetProto n ys] inv unfolding zs by simp
    from history_newest_value(4) [OF this x(2)] show ?thesis using len d(1) unfolding zs by fastforce
  qed
  then have "(raw, c) \<in> set ((raw0, c0) # vs)" using up x(1,3) by auto
  then show ?thesis using b0(4) x(2) decodes_unique [OF d(2)] by auto
qed

lemma wrote_ends:
  assumes rt: "\<forall>l. GetProto (SetProto l) = Inr l" and hz: "history_ok GetProto n (versions wz n)" and node: "LvNodeID l = n"
    and wr: "wrote SetProto GetProto
      \<lparr>newLiveness = l\<lparr>LvEpoch := LvEpoch l + 1\<rparr>, oldLiveness = l, ignoreCache = False, oldRaw = None\<rparr> c w w'"
    and run: "liveness_steps SetProto GetProto w' wz" and len: "int (length (versions wz n)) < 2 ^ 63"
  shows "(raw, c') \<in> set (versions wz n) \<Longrightarrow> decodes GetProto n raw hl \<Longrightarrow> LvEpoch hl = LvEpoch l \<Longrightarrow>
      LessEq (expTS hl) (expTS l)"
    "kvGet wz n = Some raw \<Longrightarrow> decodes GetProto n raw hl \<Longrightarrow> sint (LvEpoch l) < sint (LvEpoch hl)"
proof -
  let ?l = "l\<lparr>LvEpoch := LvEpoch l + 1\<rparr>"
  obtain wa ra where wa: "kvGet wa n = Some ra" "GetProto ra = Inr l" "liveness_steps SetProto GetProto (kvPut wa n (SetProto ?l) c) w'"
    using wr node by (auto simp: wrote_def)
  obtain ca vs where va: "versions wa n = (ra, ca) # vs" using wa(1) by (auto simp: kvGet_def split: list.splits)
  obtain zs where zs: "versions wz n = zs @ (SetProto ?l, c) # (ra, ca) # vs"
    using liveness_steps_versions [OF rtranclp_trans [OF wa(3) run], of n] va by (auto simp: kvPut_versions)
  have d: "decodes GetProto n (SetProto ?l) ?l" "decodes GetProto n ra l" using rt wa(2) node by (auto simp: decodes_def)
  have old: "LessEq (expTS hl) (expTS l)" if "(raw, c') \<in> set (versions wz n)" "decodes GetProto n raw hl" "LvEpoch hl = LvEpoch l" for raw c' hl
    by (rule incremented_epoch [OF hz [unfolded zs] len [unfolded zs] d _ that(1) [unfolded zs] that(2,3)]) simp
  then show "(raw, c') \<in> set (versions wz n) \<Longrightarrow> decodes GetProto n raw hl \<Longrightarrow> LvEpoch hl = LvEpoch l \<Longrightarrow>
      LessEq (expTS hl) (expTS l)" .
  assume h: "kvGet wz n = Some raw" "decodes GetProto n raw hl"
  have h0: "history_ok GetProto n ((ra, ca) # vs)"
    using history_suffix [of GetProto n "zs @ [(SetProto ?l, c)]"] hz unfolding zs by simp
  have "sint (LvEpoch l) < 2 ^ 63 - 1"
    using history_newest_value(2) [OF h0 d(2)] len unfolding zs by simp
  then have "LvEpoch l \<noteq> MaxInt64" by (auto simp: sint_max)
  then have up: "sint (LvEpoch ?l) = sint (LvEpoch l) + 1" using sint_succ64 by simp
  have "sint (LvEpoch ?l) \<le> sint (LvEpoch hl)"
  proof (cases zs)
    case Nil
    then show ?thesis using h decodes_unique [OF d(1)] zs by (auto simp: kvGet_def)
  next
    case (Cons v vs')
    obtain c' where v: "v = (raw, c')" using h(1) zs Cons by (cases v) (auto simp: kvGet_def)
    have "history_ok GetProto n ((raw, c') # vs' @ (SetProto ?l, c) # (ra, ca) # vs)"
      "int (length (vs' @ (SetProto ?l, c) # (ra, ca) # vs)) < 2 ^ 63 - 1" using hz len unfolding zs Cons v by simp_all
    from history_newest_value(4) [OF this(1) h(2) this(2) _ d(1)] show ?thesis by auto
  qed
  then show "sint (LvEpoch l) < sint (LvEpoch hl)" using up by simp
qed

text \<open>The epoch \<open>e\<close> was ended by increments made at clock readings with property \<open>P\<close>.\<close>

fun ended_by :: "(bytes \<Rightarrow> Liveness result) \<Rightarrow> int64 \<Rightarrow> (Timestamp \<Rightarrow> bool) \<Rightarrow> (bytes \<times> Cause) list \<Rightarrow> bool" where
  "ended_by GetProto e P (v # v' # vs) \<longleftrightarrow>
    (case (GetProto (fst v), GetProto (fst v')) of
       (Inr l, Inr l') \<Rightarrow> LvEpoch l' = e \<and> LvEpoch l \<noteq> e \<longrightarrow> (case snd v of Incremented t \<Rightarrow> P t | _ \<Rightarrow> False)
     | _ \<Rightarrow> True) \<and> ended_by GetProto e P (v' # vs)"
| "ended_by GetProto e P _ = True"

lemma ended_suffix: "ended_by GetProto e P (xs @ ys) \<Longrightarrow> ended_by GetProto e P ys"
proof (induction xs)
  case (Cons v xs)
  then show ?case by (cases "xs @ ys") auto
qed simp

lemma ended_epoch:
  assumes "history_ok GetProto n ((raw, c) # vs)" "int (length vs) < 2 ^ 63 - 1" "decodes GetProto n raw l"
    and "LvEpoch l \<noteq> e" "(raw', c') \<in> set vs" "decodes GetProto n raw' l'" "LvEpoch l' = e"
    and "ended_by GetProto e P ((raw, c) # vs)"
  shows "\<exists>t. P t \<and> sint (WallTime (expTS l')) \<le> sint (WallTime t)"
  using assms
proof (induction vs arbitrary: raw c l)
  case (Cons v vs)
  obtain raw1 c1 where v: "v = (raw1, c1)" by fastforce
  obtain l1 where l1: "decodes GetProto n raw1 l1" "follows c l1 l"
    using Cons.prems(1,3) decodes_unique unfolding v by (metis history_ok.simps(3))
  have h1: "history_ok GetProto n ((raw1, c1) # vs)" and n1: "int (length vs) < 2 ^ 63 - 1" using Cons.prems unfolding v by simp_all
  show ?case
  proof (cases "LvEpoch l1 = e")
    case True
    then obtain t where t: "c = Incremented t" "P t"
      using Cons.prems(3,4,8) l1(1) by (auto simp: v decodes_def split: Cause.splits)
    have "LessEq (expTS l') (expTS l1)"
      using history_newest_value(4) [OF h1 l1(1) n1] decodes_unique [OF l1(1)] Cons.prems(5,6) by (auto simp: v)
    moreover have "sint (WallTime (expTS l1)) \<le> sint (WallTime t)"
      using l1(2) t(1) by (simp add: LvIsLive_def LegacyToTimestamp_def)
    ultimately show ?thesis using t(2) by (auto simp: LessEq_def)
  next
    case False
    then have "(raw', c') \<in> set vs" using Cons.prems(5-7) decodes_unique [OF l1(1)] by (auto simp: v)
    moreover have "ended_by GetProto e P ((raw1, c1) # vs)" using Cons.prems(8) by (simp add: v)
    ultimately show ?thesis using Cons.IH [OF h1 n1 l1(1) False _ Cons.prems(6,7)] by blast
  qed
qed simp

subsection \<open>Leases are disjoint\<close>

text \<open>The liveness records a replica of node \<open>i\<close> reads.\<close>

definition cachedLiveness :: "World \<Rightarrow> int32 \<Rightarrow> int32 \<Rightarrow> Liveness option" where
  "cachedLiveness w i n = map_option RecLiveness (GetLiveness w i n)"

lemma cachedLiveness_version:
  assumes "liveness_inv GetProto w" "cachedLiveness w i n = Some l"
  shows "\<exists>raw c. (raw, c) \<in> set (versions w n) \<and> decodes GetProto n raw l"
  using assms by (fastforce simp: cachedLiveness_def GetLiveness_def liveness_inv_def cached_ok_def)

lemma leaseStatus_epoch:
  assumes "leaseStatus r l now mp mv req = Inr st" "State st = EXPIRED" "LeaseType l = LeaseEpoch" "NodeLiveness r = Some get"
  shows "get (NodeID (LeaseReplica l)) = Some (StLiveness st)" "StLease st = l"
    "LvEpoch (StLiveness st) = LeaseEpochNo l \<Longrightarrow> LessEq (expTS (StLiveness st)) now"
    "LvEpoch (StLiveness st) \<noteq> LeaseEpochNo l \<Longrightarrow> sint (LeaseEpochNo l) < sint (LvEpoch (StLiveness st))"
  using assms by (auto simp: leaseStatus_def Let_def leaseState_iff sint_eq_iff split: if_splits option.splits)

text \<open>An expiration that does not precede the reading of a clock by less than the maximum offset.\<close>

lemma stasis_before:
  assumes "Less req (Add e (- off) 0)" "0 \<le> sint off" "0 \<le> sint (WallTime e)" "sint (WallTime e) < sint (WallTime now) + sint off"
  shows "Less req now"
  using assms sint_diff_nonneg [OF assms(3,2)] by (auto simp: Less_def Add_def)

text \<open>The old holder's record of the epoch: it expires by the reading \<open>now\<close> the taker judged by, or before
  it by more than the stasis period.\<close>

lemma takeover_epoch:
  assumes rt: "\<forall>l. GetProto (SetProto l) = Inr l" and init: "liveness_steps SetProto GetProto initWorld w0"
    and run: "liveness_steps SetProto GetProto w0 w1" "liveness_steps SetProto GetProto w2 wz" "liveness_steps SetProto GetProto w1 w2"
    and len: "int (length (versions wz n)) < 2 ^ 63"
    and lv: "cachedLiveness w0 i n = Some lv" "sint e < sint (LvEpoch lv) \<or> LvEpoch lv = e \<and> LessEq (expTS lv) now"
    and inc: "LvEpoch lv = e \<Longrightarrow> wrote SetProto GetProto
      \<lparr>newLiveness = lv\<lparr>LvEpoch := LvEpoch lv + 1\<rparr>, oldLiveness = lv, ignoreCache = False, oldRaw = None\<rparr> c w1 w2"
    and ended: "LvEpoch lv \<noteq> e \<Longrightarrow> ended_by GetProto e P (versions w0 n)"
    and hl: "(raw, c') \<in> set (versions wz n)" "decodes GetProto n raw hl" "LvEpoch hl = e"
  shows "LessEq (expTS hl) now \<or> (\<exists>t. P t \<and> sint (WallTime (expTS hl)) \<le> sint (WallTime t))"
    "0 \<le> sint (WallTime (expTS hl))"
proof -
  note inv0 = liveness_steps_inv [OF init rt liveness_init]
  have invz: "liveness_inv GetProto wz"
    using liveness_steps_inv [OF _ rt inv0] run by (meson rtranclp_trans)
  then have hz: "history_ok GetProto n (versions wz n)" by (simp add: liveness_inv_def)
  show "0 \<le> sint (WallTime (expTS hl))"
  proof -
    obtain xs ys where s: "versions wz n = xs @ (raw, c') # ys" using split_list [OF hl(1)] by blast
    have "history_ok GetProto n ((raw, c') # ys)" "int (length ys) < 2 ^ 63 - 1"
      using hz len history_suffix unfolding s by auto
    then show ?thesis using history_newest_value(3) hl(2) by blast
  qed
  obtain raw0 c0 where v0: "(raw0, c0) \<in> set (versions w0 n)" "decodes GetProto n raw0 lv"
    using cachedLiveness_version [OF inv0 lv(1)] by blast
  have node: "LvNodeID lv = n" using v0(2) by (simp add: decodes_def)
  show "LessEq (expTS hl) now \<or> (\<exists>t. P t \<and> sint (WallTime (expTS hl)) \<le> sint (WallTime t))"
  proof (cases "LvEpoch lv = e")
    case True
    then have "LessEq (expTS hl) (expTS lv)"
      using wrote_ends(1) [OF rt hz _ inc [OF True] run(2) _ hl(1,2)] node len hl(3) by simp
    then show ?thesis using lv(2) True ts_trans(1) by blast
  next
    case False
    then have gt: "sint e < sint (LvEpoch lv)" using lv(2) by blast
    obtain xs ys where s: "versions w0 n = xs @ (raw0, c0) # ys" using split_list [OF v0(1)] by blast
    obtain zs where zs: "versions wz n = (zs @ xs) @ (raw0, c0) # ys"
      using liveness_steps_versions [of SetProto GetProto w0 wz n] run s by (metis append.assoc rtranclp_trans)
    have h0: "history_ok GetProto n ((raw0, c0) # ys)" using hz history_suffix unfolding zs by blast
    have l0: "int (length ys) < 2 ^ 63 - 1" using len unfolding zs by simp
    have "(raw, c') \<notin> set (zs @ xs)"
    proof
      assume "(raw, c') \<in> set (zs @ xs)"
      then obtain as bs where ab: "zs @ xs = as @ (raw, c') # bs" using split_list by fastforce
      have "history_ok GetProto n ((raw, c') # bs @ (raw0, c0) # ys)" "int (length (bs @ (raw0, c0) # ys)) < 2 ^ 63 - 1"
        using hz len history_suffix [of GetProto n as] unfolding zs ab by simp_all
      from history_newest_value(4) [OF this(1) hl(2) this(2) _ v0(2)] gt hl(3) show False by auto
    qed
    then have "(raw, c') \<in> set ys" using hl decodes_unique [OF v0(2)] False unfolding zs by auto
    moreover have "ended_by GetProto e P ((raw0, c0) # ys)" using ended_suffix ended [OF False] unfolding s by blast
    ultimately show ?thesis using ended_epoch [OF h0 l0 v0(2) False _ hl(2,3)] by blast
  qed
qed

text \<open>C40: an increment ends an epoch.  If \<open>IncrementEpoch\<close> returns without error for a record, then, whatever
  all nodes do before, during and after it, the record had expired by the clock reading of the caller, no
  node ever has a record of the same epoch that expires later than the one given, and the stored record
  has moved to a later epoch, for good.  The record is written fewer than \<open>2 ^ 63\<close> times, so epochs do not wrap.\<close>

theorem increment_ends_epoch:
  assumes "\<forall>l. GetProto (SetProto l) = Inr l" "others_env SetProto GetProto env"
    and "liveness_steps SetProto GetProto initWorld w" "IncrementEpoch SetProto GetProto i l env w = (None, w')"
    and "liveness_steps SetProto GetProto w' wz" "liveness_steps SetProto GetProto initWorld wh" "liveness_steps SetProto GetProto wh wz"
    and "cachedLiveness wh j (LvNodeID l) = Some hl" "int (length (versions wz (LvNodeID l))) < 2 ^ 63"
  shows "\<not> LvIsLive l (EAfter env) \<and> (LvEpoch hl = LvEpoch l \<longrightarrow> LessEq (expTS hl) (expTS l)) \<and>
    (\<exists>raw nl. kvGet wz (LvNodeID l) = Some raw \<and> GetProto raw = Inr nl \<and> sint (LvEpoch l) < sint (LvEpoch nl) \<and>
      sint (LvEpoch hl) \<le> sint (LvEpoch nl) \<and> LessEq (expTS hl) (expTS nl))"
proof -
  let ?n = "LvNodeID l"
  note inv = liveness_steps_inv [OF assms(3,1) liveness_init]
  note r = IncrementEpoch_result [OF assms(2,1) inv assms(4)]
  note wr = conjunct2 [OF r(2) [OF refl]]
  have hz: "history_ok GetProto ?n (versions wz ?n)"
    using liveness_steps_inv [OF rtranclp_trans [OF r(1) assms(5)] assms(1) inv] by (simp add: liveness_inv_def)
  obtain raw0 c0 where v: "(raw0, c0) \<in> set (versions wh ?n)" "decodes GetProto ?n raw0 hl"
    using cachedLiveness_version [OF liveness_steps_inv [OF assms(6,1) liveness_init] assms(8)] by blast
  have vz: "(raw0, c0) \<in> set (versions wz ?n)" using v(1) liveness_steps_versions [OF assms(7), of ?n] by auto
  obtain raw c vs where h: "versions wz ?n = (raw, c) # vs" using vz by (cases "versions wz ?n") auto
  then have g: "kvGet wz ?n = Some raw" by (simp add: kvGet_def)
  obtain nl where nl: "decodes GetProto ?n raw nl" using history_decodes [OF hz] h by auto
  have "sint (LvEpoch hl) \<le> sint (LvEpoch nl) \<and> LessEq (expTS hl) (expTS nl)"
  proof (cases "(raw0, c0) = (raw, c)")
    case True
    then show ?thesis using decodes_unique [OF nl] v(2) by auto
  next
    case False
    then have "(raw0, c0) \<in> set vs" using vz h by auto
    then show ?thesis using history_newest_value(4) [OF hz [unfolded h] nl _ _ v(2)] assms(9) h by simp
  qed
  then show ?thesis
    using r(2) wrote_ends [OF assms(1) hz refl wr assms(5,9)] vz v(2) g nl by (auto simp: decodes_def)
qed

text \<open>C4: leases are disjoint.  A replica of node \<open>i\<close> finds the lease of another store expired, by its
  cached liveness records if the lease is epoch-based, asks for a new one, ends the epoch if need be and
  its request is accepted, while all nodes heartbeat, increment epochs, change their status, gossip and
  restart in between.  Then every timestamp at which the old holder, with the liveness record it has
  cached at any time before or after, considers its lease valid lies before the start of the new lease,
  and the new holder is told to assume reads up to that start.  If the epoch had been ended already when
  the replica looked, this needs that it was ended by an increment (not by a restart of the holder)
  whose clock reading was less than the maximum clock offset ahead.  The liveness record of the holder is
  written fewer than \<open>2 ^ 63\<close> times, so epochs do not wrap.\<close>

theorem lease_disjoint:
  assumes "\<forall>l. GetProto (SetProto l) = Inr l" "\<forall>e \<in> set (env # envs). others_env SetProto GetProto e"
    and "liveness_steps SetProto GetProto initWorld w0" "NodeLiveness r = Some (cachedLiveness w0 i)"
    and "leaseStatus r prev now mp mv req0 = Inr st" "\<not> OwnedBy prev (storeID r)" "StoreID (LeaseReplica prev) \<noteq> 0"
    and "InitOrJoinRequest r rep st bypass te started = Inr (Pending (RequestLeaseRequest new prev minTS), r')"
    and "liveness_steps SetProto GetProto w0 w1"
    and "requestLease SetProto GetProto thr i st new lv envs tnow env (RequestLeaseRequest new prev minTS) w1 = (Inr sent, w2)"
    and "RequestLease desc SetLease SetSummary prev new prev (Some minTS) = Inr res"
    and "liveness_steps SetProto GetProto initWorld wh" "NodeLiveness h = Some (cachedLiveness wh j)"
    and "leaseStatus h prev hnow hmp hmv req = Inr hst" "State hst = VALID"
    and "liveness_steps SetProto GetProto wh wz" "liveness_steps SetProto GetProto w2 wz"
    and "int (length (versions wz (NodeID (LeaseReplica prev)))) < 2 ^ 63"
    and "0 \<le> sint (MaxOffset h)" "0 \<le> sint (WallTime (GetExpiration prev))"
    and "LvEpoch (StLiveness st) \<noteq> LeaseEpochNo prev \<longrightarrow>
      ended_by GetProto (LeaseEpochNo prev) (\<lambda>t. sint (WallTime t) < sint (WallTime now) + sint (MaxOffset h))
        (versions w0 (NodeID (LeaseReplica prev)))"
  shows "Less req (LeaseStart (ResLease res)) \<and>
    (case PriorReadSummary res of None \<Rightarrow> False
     | Some s \<Rightarrow> Less req (LocalLowWater s) \<and> Less req (GlobalLowWater s))"
proof -
  have st: "StLease st = prev" "StNow st = now" using leaseStatus_fields [OF assms(5)] by simp_all
  note acq = InitOrJoinRequest_acquisition [OF assms(8), unfolded st, OF assms(6)]
  have ne: "StoreID (LeaseReplica prev) \<noteq> StoreID (LeaseReplica new)" using assms(6) acq(3) by (simp add: OwnedBy_def)
  note take = RequestLease_takeover [OF assms(11) ne]
  obtain e where e: "expires h prev e" "leaseState h prev hnow hmp req e = VALID"
    using leaseStatus_VALID [OF assms(14,15)] by blast
  have stasis: "Less req (Add e (- MaxOffset h) 0)" using e(2) unfolding leaseState_iff(2) by blast
  have "Less req (LeaseStart (ResLease res))"
  proof (cases "LeaseType prev = LeaseExpiration")
    case True
    then have ee: "e = GetExpiration prev" using e(1) by (simp add: expires_def)
    have "Less req e" using stasis stasis_le [OF assms(19,20)] ts_trans(2) unfolding ee by blast
    then show ?thesis using take(1) [OF True] ts_trans(2) unfolding ee by blast
  next
    case False
    then have ty: "LeaseType prev = LeaseEpoch" using LeaseType_cases by blast
    then have start: "LeaseStart (ResLease res) = now" using take(2) assms(7) acq(2) st(2) by simp
    note s = leaseStatus_epoch [OF assms(5) acq(1) ty assms(4)]
    obtain hl where hl: "cachedLiveness wh j (NodeID (LeaseReplica prev)) = Some hl" "LvEpoch hl = LeaseEpochNo prev" "e = expTS hl"
      using e(1) ty assms(13) by (auto simp: expires_def)
    obtain raw c' where v: "(raw, c') \<in> set (versions wh (NodeID (LeaseReplica prev)))" "decodes GetProto (NodeID (LeaseReplica prev)) raw hl"
      using cachedLiveness_version [OF liveness_steps_inv [OF assms(12,1) liveness_init] hl(1)] by blast
    have vz: "(raw, c') \<in> set (versions wz (NodeID (LeaseReplica prev)))"
      using v(1) liveness_steps_versions [OF assms(16), of "NodeID (LeaseReplica prev)"] by auto
    have inv1: "liveness_inv GetProto w1" by (rule liveness_steps_inv [OF rtranclp_trans [OF assms(3,9)] assms(1) liveness_init])
    note req = requestLease_result [OF assms(2,1) inv1 assms(10)]
    have own: "\<not> StOwnedBy st (StoreID (LeaseReplica new))" using assms(6) acq(3) st(1) by (simp add: StOwnedBy_def)
    have cur: "sint (LeaseEpochNo prev) < sint (LvEpoch (StLiveness st)) \<or>
        LvEpoch (StLiveness st) = LeaseEpochNo prev \<and> LessEq (expTS (StLiveness st)) now" using s(3,4) by blast
    have wr: "LvEpoch (StLiveness st) = LeaseEpochNo prev \<Longrightarrow> wrote SetProto GetProto
        \<lparr>newLiveness = (StLiveness st)\<lparr>LvEpoch := LvEpoch (StLiveness st) + 1\<rparr>, oldLiveness = StLiveness st,
          ignoreCache = False, oldRaw = None\<rparr> (Incremented (EAfter env)) w1 w2"
      using req(2) [OF refl _ acq(1) own] ty st(1) by simp
    note ep = takeover_epoch [OF assms(1,3,9,17) req(1) assms(18) s(1) cur wr assms(21) [rule_format] vz v(2) hl(2), folded hl(3)]
    have pos: "0 \<le> sint (WallTime e)" by (rule ep(2))
    have "Less req now"
      using ep(1) ts_trans(2) [OF stasis] stasis_le [OF assms(19) pos] stasis_before [OF stasis assms(19) pos] ts_trans(2)
      by (meson order_le_less_trans)
    then show ?thesis by (simp add: start)
  qed
  then show ?thesis using take(3) by (simp add: FromTimestamp_def)
qed

subsection \<open>A takeover\<close>

text \<open>A coding of records, and two nodes: node 1 holds an epoch-based lease in its first epoch and lets its
  record expire at 10; node 2, alive until 24, takes the lease over at 20.\<close>

definition ex_marshal :: "Liveness \<Rightarrow> bytes" where
  "ex_marshal l = EncodeUint32Ascending [] (LvNodeID l) @ EncodeUint64Ascending [] (LvEpoch l) @
     EncodeUint64Ascending [] (LWallTime (LvExpiration l)) @ EncodeUint32Ascending [] (LLogical (LvExpiration l)) @
     [case LSynthetic (LvExpiration l) of None \<Rightarrow> 0 | Some False \<Rightarrow> 1 | Some True \<Rightarrow> 2, if Draining l then 1 else 0,
      case Membership l of ACTIVE \<Rightarrow> 0 | DECOMMISSIONING \<Rightarrow> 1 | DECOMMISSIONED \<Rightarrow> 2]"

definition ex_unmarshal :: "bytes \<Rightarrow> Liveness result" where
  "ex_unmarshal b =
     rbind (DecodeUint32Ascending b) (\<lambda>(b, n). rbind (DecodeUint64Ascending b) (\<lambda>(b, e).
     rbind (DecodeUint64Ascending b) (\<lambda>(b, wall). rbind (DecodeUint32Ascending b) (\<lambda>(b, lg).
       case b of [s, d, m] \<Rightarrow>
         Inr \<lparr>LvNodeID = n, LvEpoch = e,
              LvExpiration = \<lparr>LWallTime = wall, LLogical = lg,
                LSynthetic = (if s = 0 then None else Some (s = 2))\<rparr>,
              Draining = (d = 1), Membership = (if m = 0 then ACTIVE else if m = 1 then DECOMMISSIONING else DECOMMISSIONED)\<rparr>
       | _ \<Rightarrow> Inl (Errorf ''unexpected EOF'')))))"

lemma ex_codec: "\<forall>l. ex_unmarshal (ex_marshal l) = Inr l"
proof
  fix l :: Liveness
  obtain n e wall lg s d m where l: "l = \<lparr>LvNodeID = n, LvEpoch = e,
      LvExpiration = \<lparr>LWallTime = wall, LLogical = lg, LSynthetic = s\<rparr>, Draining = d, Membership = m\<rparr>"
    by (metis (full_types) LegacyTimestamp.cases Liveness.cases old.unit.exhaust)
  show "ex_unmarshal (ex_marshal l) = Inr l"
    by (cases m; cases s; cases "s = Some True")
      (auto simp: l ex_marshal_def ex_unmarshal_def uint32_asc.roundtrip uint64_asc.roundtrip split: bool.splits)
qed

definition ex_lv :: "int32 \<Rightarrow> int64 \<Rightarrow> int64 \<Rightarrow> Liveness" where
  "ex_lv n e x = \<lparr>LvNodeID = n, LvEpoch = e, LvExpiration = \<lparr>LWallTime = x, LLogical = 0, LSynthetic = None\<rparr>,
     Draining = False, Membership = ACTIVE\<rparr>"

definition ex_rec :: "Liveness \<Rightarrow> LvRecord" where
  "ex_rec l = \<lparr>RecLiveness = l, Raw = Some (ex_marshal l)\<rparr>"

definition ex_kv :: World where
  "ex_kv = kvPut (kvPut (kvPut (kvPut initWorld 1 (ex_marshal (ex_lv 1 0 0)) Created) 2 (ex_marshal (ex_lv 2 0 0)) Created)
     1 (ex_marshal (ex_lv 1 1 10)) (Heartbeated True)) 2 (ex_marshal (ex_lv 2 1 24)) (Heartbeated True)"

definition ex_world :: World where
  "ex_world = ex_kv\<lparr>caches := (\<lambda>_ _. None)(1 := [1 \<mapsto> ex_rec (ex_lv 1 1 10)],
     2 := [1 \<mapsto> ex_rec (ex_lv 1 1 10), 2 \<mapsto> ex_rec (ex_lv 2 1 24)])\<rparr>"

definition ex_turn :: Turn where
  "ex_turn = \<lparr>TOther = \<lambda>w. w, TDisk = None, TBetween = \<lambda>w. w, TFault = NoFault, TAfter = \<lambda>w. w, TNow = ex_ts 20\<rparr>"

definition ex_opEnv :: OpEnv where
  "ex_opEnv = \<lparr>EOther = \<lambda>w. w, ECancelled = False, EBefore = ex_ts 20, EAfter = ex_ts 20, ETurns = [ex_turn]\<rparr>"

definition ex_eprev :: Lease where
  "ex_eprev = emptyLease\<lparr>LeaseStart := ex_ts 1, LeaseEpochNo := 1, LeaseReplica := ex_replica 1,
     LeaseProposedTS := Some (ex_ts 1), LeaseSeq := 3\<rparr>"

definition ex_live_node :: "int32 \<Rightarrow> Replica_t" where
  "ex_live_node i = (ex_node i)\<lparr>NodeLiveness := Some (cachedLiveness ex_world i), stateLease := ex_eprev\<rparr>"

definition ex_estatus :: "int64 \<Rightarrow> int64 \<Rightarrow> LeaseState \<Rightarrow> LeaseStatus" where
  "ex_estatus now req s = \<lparr>StLease = ex_eprev, StNow = ex_ts now, RequestTime = ex_ts req, State = s, ErrInfo = [],
     StLiveness = ex_lv 1 1 10, MinValidObservedTimestamp = emptyTimestamp\<rparr>"

definition ex_etaken :: LeaseResult where
  "ex_etaken = \<lparr>ResLease = (ex_lease 2 20 30)\<lparr>LeaseStasis := Some (ex_ts 30), LeaseSeq := 4, LeaseAcq := 2\<rparr>,
     PrevLeaseProposal = Some (ex_ts 1), PriorReadSummary = Some (FromTimestamp (ex_ts 20))\<rparr>"

lemmas ex_world_simps = ex_world_def ex_kv_def kvPut_def kvGet_def initWorld_def GetLiveness_def cachedLiveness_def ex_rec_def

lemma ex_erequest:
  "RequestLease ex_desc (\<lambda>_. Inr ()) (\<lambda>_. Inr ()) ex_eprev (ex_lease 2 20 30) ex_eprev (Some emptyTimestamp) = Inr ex_etaken"
  by (simp add: ex_defs ex_eprev_def ex_etaken_def RequestLease_def CheckCanReceiveLease_def IsVoterNewConfig_def
      effectiveStartOf_def checkOverlap_def evalNewLease_def LeaseType_def GetExpiration_def Equivalent_iff IsSame_def
      Let_def Less_def LessEq_def GetReplicaDescriptor_def FromTimestamp_def)

lemma ex_eexpired:
  "leaseStatus (ex_live_node 2) ex_eprev (ex_ts 20) emptyTimestamp emptyTimestamp (ex_ts 20) = Inr (ex_estatus 20 20 EXPIRED)"
  by (simp add: leaseStatus_def leaseState_def ex_estatus_def ex_live_node_def ex_node_def ex_eprev_def ex_defs LeaseType_def
      OwnedBy_def Let_def LessEq_def ex_world_simps ex_lv_def LegacyToTimestamp_def)

lemma ex_evalid:
  "leaseStatus (ex_live_node 1) ex_eprev (ex_ts 5) emptyTimestamp emptyTimestamp (ex_ts 7) = Inr (ex_estatus 5 7 VALID)"
  by (simp add: leaseStatus_def leaseState_def ex_estatus_def ex_live_node_def ex_node_def ex_eprev_def ex_defs LeaseType_def
      OwnedBy_def Let_def LessEq_def Less_def Add_def ex_world_simps ex_lv_def LegacyToTimestamp_def)

lemma ex_easks:
  "InitOrJoinRequest (ex_live_node 2) (ex_replica 2) (ex_estatus 20 20 EXPIRED) False False True =
     Inr (Pending (RequestLeaseRequest (ex_lease 2 20 30) ex_eprev emptyTimestamp), (ex_live_node 2)\<lparr>nextLease := ex_lease 2 20 30\<rparr>)"
  by (simp add: InitOrJoinRequest_def RequestPending_def makeReqLease_def shouldUseExpirationLeaseRLocked_def ex_estatus_def
      ex_live_node_def ex_node_def ex_eprev_def ex_defs OwnedBy_def Add_def Let_def)

definition ex_after :: World where
  "ex_after = (kvPut ex_world 1 (ex_marshal (ex_lv 1 2 10)) (Incremented (ex_ts 20)))
     \<lparr>caches := (caches ex_world)(2 := (caches ex_world 2)(1 \<mapsto> ex_rec (ex_lv 1 2 10)))\<rparr>"

lemma ex_increment: "IncrementEpoch ex_marshal ex_unmarshal 2 (ex_lv 1 1 10) ex_opEnv ex_world = (None, ex_after)"
  by (simp add: IncrementEpoch_def ex_opEnv_def ex_turn_def LvIsLive_def ex_lv_def ex_ts_def Let_def updateLivenessAttempt_def
      cputTxn_def noteWritten_def maybeUpdate_def shouldReplaceLiveness_def LivenessCompare_def noLiveness_def ex_after_def
      ex_world_simps fun_upd_twist)

lemma ex_erun:
  "requestLease ex_marshal ex_unmarshal 9 2 (ex_estatus 20 20 EXPIRED) (ex_lease 2 20 30) noLiveness [] (ex_ts 20) ex_opEnv
     (RequestLeaseRequest (ex_lease 2 20 30) ex_eprev emptyTimestamp) ex_world =
   (Inr (RequestLeaseRequest (ex_lease 2 20 30) ex_eprev emptyTimestamp), ex_after)"
proof -
  have live: "NodeIsLive ex_world 2 2 (ex_ts 20) = Inr True"
    by (simp add: NodeIsLive_def ex_world_simps LvIsLive_def ex_ts_def ex_lv_def)
  have ty: "LeaseType ex_eprev = LeaseEpoch" "StoreID (LeaseReplica ex_eprev) = 1" "LeaseEpochNo ex_eprev = LvEpoch (ex_lv 1 1 10)"
    and rep: "StoreID (LeaseReplica (ex_lease 2 20 30)) = 2" "NodeID (LeaseReplica (ex_lease 2 20 30)) = 2"
    by (simp_all add: ex_eprev_def emptyLease_def LeaseType_def ex_lease_def ex_replica_def ex_lv_def)
  show ?thesis
    by (simp add: requestLease_def promote_lease_def end_epoch_def ex_estatus_def StOwnedBy_def OwnedBy_def ty rep live ex_increment)
qed

lemma ex_world_run: "liveness_steps ex_marshal ex_unmarshal initWorld ex_world"
proof -
  let ?R = "liveness_step ex_marshal ex_unmarshal"
  let ?a = "kvPut initWorld 1 (ex_marshal (ex_lv 1 0 0)) Created"
  let ?b = "kvPut ?a 2 (ex_marshal (ex_lv 2 0 0)) Created"
  let ?c = "kvPut ?b 1 (ex_marshal (ex_lv 1 1 10)) (Heartbeated True)"
  have new: "noLiveness\<lparr>LvNodeID := n\<rparr> = ex_lv n 0 0" "LvNodeID (ex_lv n e x) = n" for n e x
    by (simp_all add: noLiveness_def ex_lv_def ToLegacyTimestamp_def emptyTimestamp_def)
  have "?R initWorld ?a" using liveness_step.create [of initWorld 1] by (simp add: new kvGet_def initWorld_def)
  moreover have "?R ?a ?b" using liveness_step.create [of ?a 2] by (simp add: new kvGet_def kvPut_def initWorld_def)
  moreover have "?R ?b ?c"
    using liveness_step.heartbeat [of "ex_lv 1 0 0" True 9 "ex_ts 1" "ex_lv 1 1 10" ?b "ex_marshal (ex_lv 1 0 0)" ex_unmarshal ex_marshal]
    by (simp add: new kvGet_def kvPut_versions ex_codec heartbeatNew_def)
      (simp add: ex_lv_def noLiveness_def ex_ts_def Add_def ToLegacyTimestamp_def emptyTimestamp_def LegacyLess_def Less_def
        LegacyToTimestamp_def Let_def)
  moreover have "?R ?c ex_kv" unfolding ex_kv_def
    using liveness_step.heartbeat [of "ex_lv 2 0 0" True 9 "ex_ts 15" "ex_lv 2 1 24" ?c "ex_marshal (ex_lv 2 0 0)" ex_unmarshal ex_marshal]
    by (simp add: new kvGet_def kvPut_versions ex_codec heartbeatNew_def)
      (simp add: ex_lv_def noLiveness_def ex_ts_def Add_def ToLegacyTimestamp_def emptyTimestamp_def LegacyLess_def Less_def
        LegacyToTimestamp_def Let_def)
  moreover have "liveness_steps ex_marshal ex_unmarshal ex_kv ex_world"
  proof -
    have learn: "?R w (w\<lparr>caches := (caches w)(i := (caches w i)(n \<mapsto> ex_rec (ex_lv n 1 x)))\<rparr>)"
      if "versions w = versions ex_kv" "caches w i n = None" "(n, x) = (1, 10) \<or> (n, x) = (2, 24)" for w i n x
    proof (rule liveness_step.learn [of "ex_marshal (ex_lv n 1 x)" _ n])
      show "ex_marshal (ex_lv n 1 x) \<in> fst ` set (versions w n)" using that by (auto simp: ex_kv_def kvPut_versions)
      show "maybeUpdate i \<lparr>RecLiveness = ex_lv n 1 x, Raw = Some (ex_marshal (ex_lv n 1 x))\<rparr> w =
          Inr (w\<lparr>caches := (caches w)(i := (caches w i)(n \<mapsto> ex_rec (ex_lv n 1 x)))\<rparr>)"
        using that by (simp add: maybeUpdate_def new GetLiveness_def ex_rec_def) (auto simp: noLiveness_def ex_lv_def)
    qed (simp add: ex_codec)
    let ?w1 = "ex_kv\<lparr>caches := (\<lambda>_ _. None)(1 := [1 \<mapsto> ex_rec (ex_lv 1 1 10)])\<rparr>"
    let ?w2 = "?w1\<lparr>caches := (\<lambda>_ _. None)(1 := [1 \<mapsto> ex_rec (ex_lv 1 1 10)], 2 := [1 \<mapsto> ex_rec (ex_lv 1 1 10)])\<rparr>"
    have none: "caches ex_kv = (\<lambda>_ _. None)" by (simp add: ex_kv_def kvPut_def initWorld_def)
    have "?R ex_kv ?w1" using learn [of ex_kv 1 1 10] by (simp add: none)
    moreover have "?R ?w1 ?w2" using learn [of ?w1 2 1 10] by simp
    moreover have "?R ?w2 ex_world" using learn [of ?w2 2 2 24] by (simp add: ex_world_def)
    ultimately show ?thesis by (meson converse_rtranclp_into_rtranclp rtranclp.rtrancl_refl)
  qed
  ultimately show ?thesis by (meson converse_rtranclp_into_rtranclp)
qed

theorem increment_ends_epoch_witness:
  "fst (IncrementEpoch ex_marshal ex_unmarshal 2 (ex_lv 1 1 10) ex_opEnv ex_world) = None \<and>
   (\<exists>raw nl. kvGet ex_after 1 = Some raw \<and> ex_unmarshal raw = Inr nl \<and> 1 < sint (LvEpoch nl))"
proof -
  have env: "others_env ex_marshal ex_unmarshal ex_opEnv"
    by (simp add: others_env_def ex_opEnv_def ex_turn_def others_turn_def)
  note inv = liveness_steps_inv [OF ex_world_run ex_codec liveness_init]
  note run = IncrementEpoch_result(1) [OF env ex_codec inv ex_increment]
  have c: "cachedLiveness ex_world 1 1 = Some (ex_lv 1 1 10)" by (simp add: ex_world_simps)
  have n: "LvNodeID (ex_lv 1 1 10) = 1" "LvEpoch (ex_lv 1 1 10) = 1" by (simp_all add: ex_lv_def)
  have len: "int (length (versions ex_after 1)) < 2 ^ 63"
    by (simp add: ex_after_def kvPut_versions ex_world_def ex_kv_def initWorld_def)
  show ?thesis
    using increment_ends_epoch [OF ex_codec env ex_world_run ex_increment rtranclp.rtrancl_refl ex_world_run run, of 1 "ex_lv 1 1 10"]
      c len ex_increment by (auto simp: n)
qed

theorem lease_disjoint_witness:
  "LeaseType ex_eprev = LeaseEpoch \<and> Less (ex_ts 7) (LeaseStart (ResLease ex_etaken)) \<and>
   map snd (versions ex_after 1) = [Incremented (ex_ts 20), Heartbeated True, Created]"
proof -
  have env: "\<forall>e \<in> set [ex_opEnv]. others_env ex_marshal ex_unmarshal e"
    by (simp add: others_env_def ex_opEnv_def ex_turn_def others_turn_def)
  have fin: "map snd (versions ex_after 1) = [Incremented (ex_ts 20), Heartbeated True, Created]"
    by (simp add: ex_after_def kvPut_versions ex_world_def ex_kv_def initWorld_def)
  then have "length (versions ex_after 1) = 3" by (metis length_map length_Cons list.size(3) numeral_3_eq_3)
  then have len: "int (length (versions ex_after 1)) < 2 ^ 63" by simp
  have run: "liveness_steps ex_marshal ex_unmarshal ex_world ex_after"
    using requestLease_result(1) [OF env ex_codec liveness_steps_inv [OF ex_world_run ex_codec liveness_init] ex_erun] .
  have ty: "LeaseType ex_eprev = LeaseEpoch" "StoreID (LeaseReplica ex_eprev) = 1" "NodeID (LeaseReplica ex_eprev) = 1"
    "LeaseEpochNo ex_eprev = 1" "0 \<le> sint (WallTime (GetExpiration ex_eprev))"
    by (simp_all add: ex_eprev_def emptyLease_def LeaseType_def ex_replica_def GetExpiration_def emptyTimestamp_def)
  have nodes: "NodeLiveness (ex_live_node i) = Some (cachedLiveness ex_world i)" "0 \<le> sint (MaxOffset (ex_live_node i))" "storeID (ex_live_node i) = i" for i
    by (simp_all add: ex_live_node_def ex_node_def)
  have "Less (ex_ts 7) (LeaseStart (ResLease ex_etaken))"
    using lease_disjoint [OF ex_codec env ex_world_run nodes(1) ex_eexpired _ _ ex_easks rtranclp.rtrancl_refl ex_erun ex_erequest
        ex_world_run nodes(1) ex_evalid _ run rtranclp.rtrancl_refl _ nodes(2) ty(5)] len
    by (simp add: ty nodes OwnedBy_def ex_estatus_def ex_lv_def)
  then show ?thesis using fin ty(1) by blast
qed

end
