(* ===== verification/Enc_Peek.thy ===== *)
theory Enc_Peek
  imports Enc_Floats
begin

text \<open>
  The length of an encoded column, \<open>PeekLength\<close> of \<open>engine/pkg/util/encoding/encoding.go\<close> with
  \<open>getDecimalLen\<close> of \<open>decimal.go\<close>: what lets a reader of keys cut a row into columns without knowing their
  types.  Every tag of the key encoding is here, the ones of bit arrays, boxes, decimals and inverted
  indexes too.  The lemmas show that a peek takes at least a byte (so the loop over the elements of an array
  and the recursion both end within the length of the buffer) and that it finds the end of every column the
  encoders of this library write.
\<close>

subsection \<open>Lengths by type\<close>

abbreviation (input) decimalNegativeInfinity :: byte where "decimalNegativeInfinity \<equiv> 25"
abbreviation (input) decimalNegLarge :: byte where "decimalNegLarge \<equiv> 26"
abbreviation (input) decimalNegSmall :: byte where "decimalNegSmall \<equiv> 38"
abbreviation (input) decimalZero :: byte where "decimalZero \<equiv> 39"
abbreviation (input) decimalPosSmall :: byte where "decimalPosSmall \<equiv> 40"
abbreviation (input) decimalPosLarge :: byte where "decimalPosLarge \<equiv> 52"
abbreviation (input) decimalInfinity :: byte where "decimalInfinity \<equiv> 53"
abbreviation (input) decimalTerminator :: byte where "decimalTerminator \<equiv> 0x00"
abbreviation (input) bitArrayDataTerminator :: byte where "bitArrayDataTerminator \<equiv> 0x00"
abbreviation (input) bitArrayDataDescTerminator :: byte where "bitArrayDataDescTerminator \<equiv> 0xff"
abbreviation (input) geoInvertedTwoFloats :: byte where "geoInvertedTwoFloats \<equiv> 1"

lemma getVarintLen_bounds: "getVarintLen b = Inr l \<Longrightarrow> 1 \<le> l \<and> l \<le> int (length b)"
  by (auto simp: getVarintLen_def Let_def split: list.splits if_splits)

text \<open>The loop over the words of a bit array: the number of words and their bytes so far.\<close>

function getBitArrayWordsLenLoop :: "bytes \<Rightarrow> byte \<Rightarrow> int \<Rightarrow> int \<Rightarrow> (int \<times> int) result" where
  "getBitArrayWordsLenLoop bSearch tmn numWords sz =
    (case bSearch of [] \<Rightarrow> Inl (Errorf ''slice too short for bit array (%d)'')
     | m # _ \<Rightarrow>
       if m = tmn then Inr (numWords, sz)
       else case getVarintLen bSearch of Inl e \<Rightarrow> Inl e
         | Inr vLen \<Rightarrow> getBitArrayWordsLenLoop (drop (nat vLen) bSearch) tmn (numWords + 1) (sz + vLen))"
  by pat_completeness auto
termination
  by (relation "measure (\<lambda>(b, _). length b)") (auto dest!: getVarintLen_bounds)

declare getBitArrayWordsLenLoop.simps [simp del]

definition getBitArrayWordsLen :: "bytes \<Rightarrow> byte \<Rightarrow> (int \<times> int) result" where
  "getBitArrayWordsLen b tmn = getBitArrayWordsLenLoop b tmn 0 0"

fun peekBox2DLengthLoop :: "nat \<Rightarrow> bytes \<Rightarrow> int \<Rightarrow> int result" where
  "peekBox2DLengthLoop 0 cur len = Inr len"
| "peekBox2DLengthLoop (Suc i) cur len =
    (case cur of [] \<Rightarrow> Inl (Errorf ''slice too short for box2d'')
     | m # cur1 \<Rightarrow>
       if m = floatNaN \<or> m = floatNaNDesc \<or> m = floatZero then peekBox2DLengthLoop i cur1 (len + 1)
       else if m = floatNeg \<or> m = floatPos
       then if length cur < 9 then Inl (Panic ''slice bounds out of range'')
            else peekBox2DLengthLoop i (drop 9 cur) (len + 9)
       else Inl (Errorf ''unexpected marker for box2d: %x''))"

definition peekBox2DLength :: "bytes \<Rightarrow> int result" where
  "peekBox2DLength b = peekBox2DLengthLoop 4 b 0"

definition findDecimalTerminator :: "bytes \<Rightarrow> int result" where
  "findDecimalTerminator buf =
    (case IndexByte buf decimalTerminator of Some idx \<Rightarrow> Inr (int idx)
     | None \<Rightarrow> Inl (Errorf ''did not find terminator %#x in buffer %#x''))"

definition getDecimalLen :: "bytes \<Rightarrow> int result" where
  "getDecimalLen buf =
    (case buf of [] \<Rightarrow> Inl (Panic ''index out of range'')
     | m # _ \<Rightarrow>
       if m < decimalNaN \<or> m > decimalNaNDesc then Inl (Panic ''invalid tag %d'')
       else if m \<in> {decimalNaN, decimalNegativeInfinity, decimalNaNDesc, decimalInfinity, decimalZero} then Inr 1
       else
         rbind (if m \<in> {decimalNegLarge, decimalNegSmall, decimalPosLarge, decimalPosSmall}
                then rbind (getVarintLen (drop 1 buf)) (\<lambda>l. Inr (1 + l))
                else Inr 1) (\<lambda>p.
         rbind (findDecimalTerminator (drop (nat p) buf)) (\<lambda>idx. Inr (p + idx + 1))))"

function getInvertedIndexKeyLengthLoop :: "bytes \<Rightarrow> nat \<Rightarrow> int result" where
  "getInvertedIndexKeyLengthLoop b skipped =
    (if skipped > length b then Inl (Panic ''slice bounds out of range'')
     else case IndexByte (drop skipped b) escape of
       None \<Rightarrow> Inl (Errorf ''malformed inverted index key in buffer %#x'')
     | Some i \<Rightarrow>
         let skipped' = skipped + i + escapeLength in
         if skipped' - 1 \<ge> length b then Inl (Panic ''index out of range'')
         else if b ! (skipped' - 1) \<in> {escapedTerm, jsonEmptyObject, jsonEmptyArray} then Inr (int skipped')
         else getInvertedIndexKeyLengthLoop b skipped')"
  by pat_completeness auto
termination
  by (relation "measure (\<lambda>(b, skipped). Suc (length b) - skipped)") auto

declare getInvertedIndexKeyLengthLoop.simps [simp del]

definition getInvertedIndexKeyLength :: "bytes \<Rightarrow> int result" where
  "getInvertedIndexKeyLength b = getInvertedIndexKeyLengthLoop b 0"

definition getGeoInvertedIndexKeyLength :: "bytes \<Rightarrow> int result" where
  "getGeoInvertedIndexKeyLength buf =
    (if length buf < 3 + 2 * 8 then Inl (Errorf ''buf length %d too small'')
     else rbind (getVarintLen (drop 1 buf)) (\<lambda>cellLen.
       if 1 + cellLen \<ge> int (length buf) then Inl (Panic ''index out of range'')
       else Inr (1 + cellLen + 1 + (if buf ! nat (1 + cellLen) = geoInvertedTwoFloats then 2 * 8 else 4 * 8))))"

subsection \<open>The length of a column\<close>

text \<open>\<open>PeekLength\<close> calls itself on the elements of an array and on the value of an inverted JSON key.  Here
  the callee is a parameter of the two helpers, and \<open>PeekLengthFuel\<close> ties the knot with the depth of the
  recursion as fuel.\<close>

primrec getArrayLengthLoop :: "nat \<Rightarrow> (bytes \<Rightarrow> int result) \<Rightarrow> bytes \<Rightarrow> Direction \<Rightarrow> int \<Rightarrow> int result" where
  "getArrayLengthLoop 0 peek buf dir res = Inl (Panic ''out of fuel'')"
| "getArrayLengthLoop (Suc n) peek buf dir res =
    (if length buf = 0 then Inl (Errorf ''invalid array encoding (unterminated)'')
     else rbind (IsArrayKeyDone buf dir) (\<lambda>done0.
       if done0 then Inr (res + 1)
       else rbind (peek buf) (\<lambda>nxt.
         if nxt > int (length buf) then Inl (Panic ''slice bounds out of range'')
         else getArrayLengthLoop n peek (drop (nat nxt) buf) dir (res + nxt))))"

definition getArrayLength :: "(bytes \<Rightarrow> int result) \<Rightarrow> bytes \<Rightarrow> Direction \<Rightarrow> int result" where
  "getArrayLength peek buf dir = getArrayLengthLoop (Suc (length buf)) peek buf dir 0"

definition getJSONInvertedIndexKeyLength :: "(bytes \<Rightarrow> int result) \<Rightarrow> bytes \<Rightarrow> int result" where
  "getJSONInvertedIndexKeyLength peek buf =
    rbind (getInvertedIndexKeyLength buf) (\<lambda>len.
      if len \<ge> int (length buf) then Inl (Panic ''index out of range'')
      else if buf ! nat len = jsonEmptyArray \<or> buf ! nat len = jsonEmptyObject then Inr (len + 1)
      else rbind (peek (drop (nat len) buf)) (\<lambda>valLen. Inr (len + valLen)))"

definition bytesLen :: "bytes \<Rightarrow> escapes \<Rightarrow> int result" where
  "bytesLen b e = rbind (getBytesLength b e) (\<lambda>n. Inr (int n))"

definition peekStep :: "(bytes \<Rightarrow> int result) \<Rightarrow> bytes \<Rightarrow> int result" where
  "peekStep peek b =
    (case b of [] \<Rightarrow> Inl (Errorf ''empty slice'')
     | m # b1 \<Rightarrow>
       if m \<in> {encodedNull, encodedNullDesc, encodedNotNull, encodedNotNullDesc, floatNaN, floatNaNDesc, floatZero,
               decimalZero, 10, 11, emptyArray, voidMarker} then Inr 1
       else if m = bitArrayMarker \<or> m = bitArrayDescMarker then
         rbind (getBitArrayWordsLen b1 (if m = bitArrayDescMarker then bitArrayDataDescTerminator else bitArrayDataTerminator))
           (\<lambda>(_, n). rbind (getVarintLen (drop (nat (n + 2)) b)) (\<lambda>k. Inr (1 + n + k + 1)))
       else if m = arrayKeyMarker \<or> m = arrayKeyDescendingMarker then
         rbind (getArrayLength peek b1 (if m = arrayKeyDescendingMarker then Descending else Ascending))
           (\<lambda>len. Inr (1 + len))
       else if m = bytesMarker then bytesLen b ascendingBytesEscapes
       else if m = box2DMarker then rbind (peekBox2DLength b1) (\<lambda>len. Inr (1 + len))
       else if m = geoInvertedIndexMarker then getGeoInvertedIndexKeyLength b
       else if m = geoMarker then
         if length b < 8 then Inl (Errorf ''slice too short for spatial object (%d)'')
         else rbind (bytesLen (drop 8 b) ascendingGeoEscapes) (\<lambda>ret. Inr (8 + ret))
       else if m = jsonInvertedIndex then getJSONInvertedIndexKeyLength peek b
       else if m = bytesDescMarker then bytesLen b descendingBytesEscapes
       else if m = geoDescMarker then
         if length b < 8 then Inl (Errorf ''slice too short for spatial object (%d)'')
         else rbind (bytesLen (drop 8 b) descendingGeoEscapes) (\<lambda>ret. Inr (8 + ret))
       else if m = timeMarker \<or> m = timeTZMarker then GetMultiVarintLen b 2
       else if m = durationBigNegMarker \<or> m = durationMarker \<or> m = durationBigPosMarker then GetMultiVarintLen b 3
       else if m = floatNeg \<or> m = floatPos then
         if length b < 9 then Inl (Errorf ''slice too short for float (%d)'') else Inr 9
       else if IntMin \<le> m \<and> m \<le> IntMax then getVarintLen b
       else if decimalNaN \<le> m \<and> m \<le> decimalNaNDesc then getDecimalLen b
       else Inl (Errorf ''unknown tag %d''))"

primrec PeekLengthFuel :: "nat \<Rightarrow> bytes \<Rightarrow> int result" where
  "PeekLengthFuel 0 b = Inl (Panic ''out of fuel'')"
| "PeekLengthFuel (Suc fuel) b = peekStep (PeekLengthFuel fuel) b"

definition PeekLength :: "bytes \<Rightarrow> int result" where
  "PeekLength b = PeekLengthFuel (Suc (length b)) b"

declare getArrayLengthLoop.simps [simp del]

subsection \<open>A peek takes at least a byte\<close>

lemma getBitArrayWordsLen_ge: "getBitArrayWordsLenLoop b tmn nw sz = Inr (k, n) \<Longrightarrow> sz \<le> n"
proof (induction b tmn nw sz rule: getBitArrayWordsLenLoop.induct)
  case (1 b tmn nw sz)
  then show ?case
    by (subst (asm) (2) getBitArrayWordsLenLoop.simps) (fastforce split: list.splits if_splits sum.splits dest!: getVarintLen_bounds)
qed

lemma peekBox2DLength_ge: "peekBox2DLengthLoop i cur len = Inr l \<Longrightarrow> len \<le> l"
  by (induction i cur len rule: peekBox2DLengthLoop.induct) (auto split: list.splits if_splits)

lemma getBytesLength_ge: "getBytesLengthLoop b e skipped = Inr n \<Longrightarrow> skipped \<le> n"
proof (induction b e skipped rule: getBytesLengthLoop.induct)
  case (1 b e skipped)
  then show ?case
    by (subst (asm) (2) getBytesLengthLoop.simps) (fastforce simp: Let_def split: if_splits option.splits)
qed

lemma bytesLen_ge: "bytesLen b e = Inr l \<Longrightarrow> 1 \<le> l"
  by (cases "getBytesLength b e") (auto simp: bytesLen_def getBytesLength_def dest!: getBytesLength_ge)

lemma getInvertedIndexKeyLength_ge: "getInvertedIndexKeyLengthLoop b skipped = Inr n \<Longrightarrow> int skipped + 2 \<le> n"
proof (induction b skipped rule: getInvertedIndexKeyLengthLoop.induct)
  case (1 b skipped)
  then show ?case
    by (subst (asm) (2) getInvertedIndexKeyLengthLoop.simps) (fastforce simp: Let_def split: if_splits option.splits)
qed

lemma GetMultiVarintLen_ge: "GetMultiVarintLenLoop b n p = Inr l \<Longrightarrow> p \<le> l"
proof (induction b n p rule: GetMultiVarintLenLoop.induct)
  case (2 b n p)
  then show ?case by (cases "getVarintLen (drop (nat p) b)") (fastforce split: if_splits dest: getVarintLen_bounds)+
qed simp

lemma getDecimalLen_ge: "getDecimalLen b = Inr l \<Longrightarrow> 1 \<le> l"
  by (auto simp: getDecimalLen_def findDecimalTerminator_def rbind_def split: list.splits if_splits sum.splits option.splits
      dest!: getVarintLen_bounds)

lemma getArrayLengthLoop_ge:
  "(\<And>c l. peek c = Inr l \<Longrightarrow> 1 \<le> l) \<Longrightarrow> getArrayLengthLoop n peek buf dir res = Inr l \<Longrightarrow> res \<le> l"
proof (induction n arbitrary: buf res)
  case (Suc n)
  show ?case
  proof (cases "peek buf")
    case (Inr nxt)
    then have "1 \<le> nxt" using Suc.prems(1) by blast
    moreover have "getArrayLengthLoop n peek (drop (nat nxt) buf) dir (res + nxt) = Inr l \<Longrightarrow> res + nxt \<le> l"
      using Suc.prems(1) by (rule Suc.IH)
    ultimately show ?thesis using Suc.prems(2) Inr by (auto simp: getArrayLengthLoop.simps rbind_Inr_conv split: if_splits)
  qed (use Suc.prems in \<open>auto simp: getArrayLengthLoop.simps rbind_Inr_conv split: if_splits\<close>)
qed (simp add: getArrayLengthLoop.simps)

lemma peekStep_ge:
  assumes "\<And>c l. peek c = Inr l \<Longrightarrow> 1 \<le> l" "peekStep peek b = Inr l"
  shows "1 \<le> l"
proof (cases b)
  case (Cons m b1)
  have arr: "0 \<le> k" if "getArrayLength peek b1 dir = Inr k" for k dir
    using that getArrayLengthLoop_ge [OF assms(1)] by (simp add: getArrayLength_def)
  have json: "1 \<le> k" if "getJSONInvertedIndexKeyLength peek b = Inr k" for k
    using that assms(1) getInvertedIndexKeyLength_ge [of b 0]
    by (fastforce simp: getJSONInvertedIndexKeyLength_def getInvertedIndexKeyLength_def rbind_Inr_conv split: if_splits)
  have geo: "1 \<le> k" if "getGeoInvertedIndexKeyLength b = Inr k" for k
    using that by (fastforce simp: getGeoInvertedIndexKeyLength_def rbind_Inr_conv split: if_splits dest: getVarintLen_bounds)
  have bits: "0 \<le> n" if "getBitArrayWordsLen c t = Inr (k, n)" for c t k n
    using that getBitArrayWordsLen_ge by (simp add: getBitArrayWordsLen_def)
  have box: "0 \<le> k" if "peekBox2DLength b1 = Inr k" for k using that peekBox2DLength_ge by (simp add: peekBox2DLength_def)
  have multi: "1 \<le> k" if "GetMultiVarintLen b n = Inr k" for n k using that GetMultiVarintLen_ge by (simp add: GetMultiVarintLen_def)
  show ?thesis using assms(2) unfolding peekStep_def Cons list.case
    by (simp only: split: if_split_asm)
      (use arr json geo bits box multi Cons in \<open>auto simp: rbind_Inr_conv dest: getVarintLen_bounds bytesLen_ge getDecimalLen_ge\<close>)
qed (use assms(2) in \<open>simp add: peekStep_def\<close>)

lemma PeekLengthFuel_ge: "PeekLengthFuel f b = Inr l \<Longrightarrow> 1 \<le> l"
proof (induction f arbitrary: b l)
  case (Suc f)
  then show ?case using peekStep_ge [of "PeekLengthFuel f" b l] by simp
qed simp

subsection \<open>The recursion of the code\<close>

lemma getArrayLengthLoop_cong:
  assumes "\<And>c. length c \<le> length buf \<Longrightarrow> p c = q c" "\<And>c l. q c = Inr l \<Longrightarrow> 1 \<le> l" "length buf < n" "length buf < m"
  shows "getArrayLengthLoop n p buf dir res = getArrayLengthLoop m q buf dir res"
  using assms(1,3,4)
proof (induction n arbitrary: m buf res)
  case (Suc n)
  then obtain m' where m: "m = Suc m'" by (cases m) auto
  have "getArrayLengthLoop n p (drop (nat nxt) buf) dir (res + nxt) = getArrayLengthLoop m' q (drop (nat nxt) buf) dir (res + nxt)"
    if "q buf = Inr nxt" "buf \<noteq> []" for nxt
  proof -
    have "length (drop (nat nxt) buf) < length buf" using assms(2) [OF that(1)] that(2) by simp
    then show ?thesis using Suc.prems m by (intro Suc.IH) simp_all
  qed
  then show ?case unfolding m getArrayLengthLoop.simps Suc.prems(1) [OF order_refl]
    by (cases "q buf"; cases "IsArrayKeyDone buf dir"; simp)
qed simp

lemma peekStep_cong:
  assumes "\<And>c. length c < length b \<Longrightarrow> p c = q c" "\<And>c l. q c = Inr l \<Longrightarrow> 1 \<le> l"
  shows "peekStep p b = peekStep q b"
proof (cases b)
  case (Cons m b1)
  have arr: "getArrayLength p b1 dir = getArrayLength q b1 dir" for dir
    unfolding getArrayLength_def using assms Cons by (intro getArrayLengthLoop_cong) auto
  have json: "getJSONInvertedIndexKeyLength p b = getJSONInvertedIndexKeyLength q b"
  proof (cases "getInvertedIndexKeyLength b")
    case (Inr k)
    then have "2 \<le> k" using getInvertedIndexKeyLength_ge [of b 0 k] by (simp add: getInvertedIndexKeyLength_def)
    then have "p (drop (nat k) b) = q (drop (nat k) b)" using Cons by (intro assms(1)) simp
    then show ?thesis by (simp add: getJSONInvertedIndexKeyLength_def Inr)
  qed (simp add: getJSONInvertedIndexKeyLength_def)
  show ?thesis unfolding peekStep_def Cons list.case using json unfolding arr Cons by (simp only:)
qed (simp add: peekStep_def)

lemma PeekLengthFuel_enough: "length b < n \<Longrightarrow> length b < m \<Longrightarrow> PeekLengthFuel n b = PeekLengthFuel m b"
proof (induction n arbitrary: m b)
  case (Suc n)
  then obtain m' where m: "m = Suc m'" by (cases m) auto
  show ?case unfolding m PeekLengthFuel.simps
  proof (rule peekStep_cong)
    show "PeekLengthFuel n c = PeekLengthFuel m' c" if "length c < length b" for c
      using that Suc.prems m by (intro Suc.IH) simp_all
  qed (rule PeekLengthFuel_ge)
qed simp

text \<open>Fuel for the length of the buffer is always enough: \<open>PeekLength\<close> satisfies the equations of the code,
  with itself as the callee, and so does the loop over the elements of an array.\<close>

lemma PeekLength_rec: "PeekLength b = peekStep PeekLength b"
proof -
  have "PeekLength b = peekStep (PeekLengthFuel (length b)) b" by (simp add: PeekLength_def)
  also have "\<dots> = peekStep PeekLength b"
    unfolding PeekLength_def by (rule peekStep_cong) (rule PeekLengthFuel_enough, simp_all only: lessI, rule PeekLengthFuel_ge)
  finally show ?thesis .
qed

lemma PeekLength_ge: "PeekLength b = Inr l \<Longrightarrow> 1 \<le> l"
  unfolding PeekLength_def by (rule PeekLengthFuel_ge)

subsection \<open>Peeking at encoded columns\<close>

lemma PeekLength_int: "128 \<le> unat m \<Longrightarrow> unat m \<le> 253 \<Longrightarrow> PeekLength (m # b) = getVarintLen (m # b)"
proof -
  assume m: "128 \<le> unat m" "unat m \<le> 253"
  then have "m \<noteq> k" if "unat k < 128 \<or> 253 < unat k" for k using that by auto
  moreover have "0x80 \<le> m" "m \<le> 0xfd" using m by (simp_all add: word_le_nat_alt)
  ultimately show ?thesis unfolding PeekLength_rec [of "m # b"] peekStep_def list.case by simp
qed

lemma PeekLength_varint: "PeekLength (EncodeVarintAscending [] v @ rest) = Inr (int (length (EncodeVarintAscending [] v)))"
proof -
  obtain m xs where m: "EncodeVarintAscending [] v = m # xs" "128 \<le> unat m" "unat m \<le> 253" using varint_tag_range by blast
  then show ?thesis using getVarintLen_encoded [of v rest] PeekLength_int [of m "xs @ rest"] by simp
qed

lemma PeekLength_bytes:
  "PeekLength (EncodeBytesAscending [] s @ rest) = Inr (int (length (EncodeBytesAscending [] s)))"
  "PeekLength (EncodeBytesDescending 8 [] s @ rest) = Inr (int (length (EncodeBytesDescending 8 [] s)))"
proof -
  have "PeekLength (bytesMarker # b) = bytesLen (bytesMarker # b) ascendingBytesEscapes"
    "PeekLength (bytesDescMarker # b) = bytesLen (bytesDescMarker # b) descendingBytesEscapes" for b
    unfolding PeekLength_rec [of "_ # b"] peekStep_def by simp_all
  moreover have "\<exists>xs. EncodeBytesAscending [] s = bytesMarker # xs" "\<exists>xs. EncodeBytesDescending 8 [] s = bytesDescMarker # xs"
    by (simp_all add: append_buf)
  ultimately show "PeekLength (EncodeBytesAscending [] s @ rest) = Inr (int (length (EncodeBytesAscending [] s)))"
    "PeekLength (EncodeBytesDescending 8 [] s @ rest) = Inr (int (length (EncodeBytesDescending 8 [] s)))"
    using getBytesLength_behaviour [of s rest] by (auto simp: bytesLen_def)
qed

lemma PeekLength_times:
  "PeekLength (EncodeTimeAscending [] t @ rest) = Inr (int (length (EncodeTimeAscending [] t)))"
  "PeekLength (EncodeTimeDescending [] t @ rest) = Inr (int (length (EncodeTimeDescending [] t)))"
  "PeekLength (EncodeTimeTZAscending [] z @ rest) = Inr (int (length (EncodeTimeTZAscending [] z)))"
  "PeekLength (EncodeTimeTZDescending [] z @ rest) = Inr (int (length (EncodeTimeTZDescending [] z)))"
proof -
  have "PeekLength (m # time_pair.enc2 p @ rest) = Inr (int (length (m # time_pair.enc2 p)))"
    if "m = timeMarker \<or> m = timeTZMarker" for m p
  proof -
    have "PeekLength (m # b) = GetMultiVarintLen (m # b) 2" for b using that unfolding PeekLength_rec [of "m # b"] peekStep_def by auto
    then show ?thesis using multi_varint_pair [of m "fst p" "snd p" rest] by simp
  qed
  then show "PeekLength (EncodeTimeAscending [] t @ rest) = Inr (int (length (EncodeTimeAscending [] t)))"
    "PeekLength (EncodeTimeDescending [] t @ rest) = Inr (int (length (EncodeTimeDescending [] t)))"
    "PeekLength (EncodeTimeTZAscending [] z @ rest) = Inr (int (length (EncodeTimeTZAscending [] z)))"
    "PeekLength (EncodeTimeTZDescending [] z @ rest) = Inr (int (length (EncodeTimeTZDescending [] z)))"
    by (simp_all add: EncodeTimeAscending_def EncodeTimeDescending_def EncodeTimeTZAscending_def EncodeTimeTZDescending_def
        encodeTime_pair encodeTimeTZ_pair)
qed

lemma PeekLength_single:
  "m \<in> {encodedNull, encodedNullDesc, encodedNotNull, encodedNotNullDesc, floatNaN, floatNaNDesc, floatZero, voidMarker} \<Longrightarrow>
    PeekLength (m # rest) = Inr 1"
proof -
  assume "m \<in> {encodedNull, encodedNullDesc, encodedNotNull, encodedNotNullDesc, floatNaN, floatNaNDesc, floatZero, voidMarker}"
  then have "m \<in> {encodedNull, encodedNullDesc, encodedNotNull, encodedNotNullDesc, floatNaN, floatNaNDesc, floatZero,
      decimalZero, 10, 11, emptyArray, voidMarker}" by blast
  then show ?thesis unfolding PeekLength_rec [of "m # rest"] peekStep_def list.case by (simp only: if_True)
qed

lemma PeekLength_floats:
  "PeekLength (EncodeFloatAscending [] f @ rest) = Inr (int (length (EncodeFloatAscending [] f)))"
  "PeekLength (EncodeFloatDescending [] f @ rest) = Inr (int (length (EncodeFloatDescending [] f)))"
proof -
  have "PeekLength (m # be_bytes 8 (g :: float64) @ rest) = Inr 9" if "m = floatNeg \<or> m = floatPos" for m g
  proof -
    have "PeekLength (3 # b) = Inr 9" "PeekLength (5 # b) = Inr 9" if "8 \<le> length b" for b
      using that unfolding PeekLength_rec [of "_ # b"] peekStep_def list.case by simp_all
    moreover have "8 \<le> length (be_bytes 8 g @ rest)" by simp
    ultimately show ?thesis using that by blast
  qed
  then show "PeekLength (EncodeFloatAscending [] f @ rest) = Inr (int (length (EncodeFloatAscending [] f)))"
    "PeekLength (EncodeFloatDescending [] f @ rest) = Inr (int (length (EncodeFloatDescending [] f)))"
    unfolding asc_cases desc_cases by (simp_all add: PeekLength_single)
qed

lemma PeekLength_array:
  assumes "getArrayLength PeekLength b dir = Inr k" "m = (if dir = Descending then arrayKeyDescendingMarker else arrayKeyMarker)"
    "dir = Ascending \<or> dir = Descending"
  shows "PeekLength (m # b) = Inr (1 + k)"
  using assms unfolding PeekLength_rec [of "m # b"] peekStep_def by auto

subsection \<open>The fuel is never used up\<close>

abbreviation (input) fuelOut :: "go_error" where "fuelOut \<equiv> Panic ''out of fuel''"

lemma lengths_fuel:
  "getVarintLen b \<noteq> Inl fuelOut" "getDecimalLen b \<noteq> Inl fuelOut" "getGeoInvertedIndexKeyLength b \<noteq> Inl fuelOut"
proof -
  show v: "getVarintLen b \<noteq> Inl fuelOut" for b by (auto simp: getVarintLen_def Let_def split: list.split)
  show "getDecimalLen b \<noteq> Inl fuelOut"
    by (auto simp: getDecimalLen_def findDecimalTerminator_def rbind_Inl_conv v split: list.split option.split)
  show "getGeoInvertedIndexKeyLength b \<noteq> Inl fuelOut" by (auto simp: getGeoInvertedIndexKeyLength_def rbind_Inl_conv v)
qed

lemma bits_fuel: "getBitArrayWordsLenLoop b tmn nw sz \<noteq> Inl fuelOut"
proof (induction b tmn nw sz rule: getBitArrayWordsLenLoop.induct)
  case (1 b tmn nw sz)
  then show ?case using lengths_fuel(1) [of b]
    by (subst getBitArrayWordsLenLoop.simps) (auto split: list.split sum.split)
qed

lemma box_fuel: "peekBox2DLengthLoop i cur len \<noteq> Inl fuelOut"
  by (induction i cur len rule: peekBox2DLengthLoop.induct) (auto split: list.split)

lemma bytes_fuel: "getBytesLengthLoop b e skipped \<noteq> Inl fuelOut"
proof (induction b e skipped rule: getBytesLengthLoop.induct)
  case (1 b e skipped)
  then show ?case by (subst getBytesLengthLoop.simps) (auto simp: Let_def split: option.split)
qed

lemma inverted_fuel: "getInvertedIndexKeyLengthLoop b skipped \<noteq> Inl fuelOut"
proof (induction b skipped rule: getInvertedIndexKeyLengthLoop.induct)
  case (1 b skipped)
  then show ?case by (subst getInvertedIndexKeyLengthLoop.simps) (auto simp: Let_def split: option.split)
qed

lemma multi_fuel: "GetMultiVarintLenLoop b n p \<noteq> Inl fuelOut"
  by (induction b n p rule: GetMultiVarintLenLoop.induct) (auto simp: rbind_Inl_conv lengths_fuel)

lemma array_fuel:
  assumes "\<And>c. length c \<le> length buf \<Longrightarrow> peek c \<noteq> Inl fuelOut" "\<And>c l. peek c = Inr l \<Longrightarrow> 1 \<le> l" "length buf < n"
  shows "getArrayLengthLoop n peek buf dir res \<noteq> Inl fuelOut"
  using assms(1,3)
proof (induction n arbitrary: buf res)
  case (Suc n)
  have "getArrayLengthLoop n peek (drop (nat nxt) buf) dir (res + nxt) \<noteq> Inl fuelOut" if "peek buf = Inr nxt" "buf \<noteq> []" for nxt
  proof (rule Suc.IH)
    have "length (drop (nat nxt) buf) < length buf" using assms(2) [OF that(1)] that(2) by simp
    then show "length (drop (nat nxt) buf) < n" using Suc.prems(2) by simp
    show "peek c \<noteq> Inl fuelOut" if "length c \<le> length (drop (nat nxt) buf)" for c using that by (intro Suc.prems(1)) simp
  qed
  moreover have "IsArrayKeyDone buf dir \<noteq> Inl fuelOut" by (auto simp: IsArrayKeyDone_def Let_def split: list.split)
  ultimately show ?case using Suc.prems(1) [of buf] by (auto simp: getArrayLengthLoop.simps rbind_Inl_conv)
qed simp

lemma peekStep_fuel:
  assumes "\<And>c. length c < length b \<Longrightarrow> peek c \<noteq> Inl fuelOut" "\<And>c l. peek c = Inr l \<Longrightarrow> 1 \<le> l"
  shows "peekStep peek b \<noteq> Inl fuelOut"
proof (cases b)
  case (Cons m b1)
  have arr: "getArrayLength peek b1 dir \<noteq> Inl fuelOut" for dir
    unfolding getArrayLength_def using assms Cons by (intro array_fuel) auto
  have json: "getJSONInvertedIndexKeyLength peek b \<noteq> Inl fuelOut"
  proof (cases "getInvertedIndexKeyLength b")
    case (Inr k)
    then have "2 \<le> k" using getInvertedIndexKeyLength_ge [of b 0 k] by (simp add: getInvertedIndexKeyLength_def)
    then have "peek (drop (nat k) b) \<noteq> Inl fuelOut" using Cons by (intro assms(1)) simp
    then show ?thesis by (auto simp: getJSONInvertedIndexKeyLength_def Inr rbind_Inl_conv)
  qed (use inverted_fuel in \<open>auto simp: getJSONInvertedIndexKeyLength_def getInvertedIndexKeyLength_def\<close>)
  have bl: "bytesLen c e \<noteq> Inl fuelOut" for c e
    using bytes_fuel by (auto simp: bytesLen_def getBytesLength_def rbind_Inl_conv)
  have bits: "getBitArrayWordsLen b1 k \<noteq> Inl fuelOut" "peekBox2DLength b1 \<noteq> Inl fuelOut" "GetMultiVarintLen b n \<noteq> Inl fuelOut" for k n
    by (simp_all only: getBitArrayWordsLen_def peekBox2DLength_def GetMultiVarintLen_def bits_fuel box_fuel multi_fuel not_False_eq_True)
  have i: "(if c then x else y) \<noteq> z" if "x \<noteq> z" "y \<noteq> z" for c and x y z :: "int result" using that by simp
  have p: "rbind x f \<noteq> Inl fuelOut" if "x \<noteq> Inl fuelOut" "\<And>k y. f (k, y) \<noteq> Inl fuelOut"
    for x :: "(int \<times> int) result" and f :: "int \<times> int \<Rightarrow> int result"
    using that by (auto simp: rbind_Inl_conv)
  have q: "rbind x f \<noteq> Inl fuelOut" if "x \<noteq> Inl fuelOut" "\<And>y. f y \<noteq> Inl fuelOut" for x :: "int result" and f :: "int \<Rightarrow> int result"
    using that by (auto simp: rbind_Inl_conv)
  show ?thesis unfolding peekStep_def Cons list.case unfolding Cons [symmetric]
    by (intro i; (rule p [OF bits(1)], unfold prod.case)?;
        (rule arr json bl lengths_fuel bits | rule q [OF arr] q [OF bl] q [OF lengths_fuel(1)] q [OF bits(2)])?; simp)
qed (simp add: peekStep_def)

lemma PeekLengthFuel_returns: "length b < n \<Longrightarrow> PeekLengthFuel n b \<noteq> Inl fuelOut"
proof (induction n arbitrary: b)
  case (Suc n)
  have "peekStep (PeekLengthFuel n) b \<noteq> Inl fuelOut"
    by (rule peekStep_fuel) (use Suc in simp, rule PeekLengthFuel_ge)
  then show ?case by simp
qed simp

text \<open>The fuel is enough for every buffer: \<open>PeekLength\<close> ends within recursion no deeper than the buffer is long and with
  at most a turn for every byte of an array, and satisfies the equation of the code, with itself as the function called
  for array elements and inverted JSON values; a length is at least one, so that a loop over the columns of a key
  advances.  (On buffers that end within a column the code can still panic.)\<close>

lemma PeekLength_returns:
  "PeekLength b = peekStep PeekLength b \<and> PeekLength b \<noteq> Inl (Panic ''out of fuel'') \<and>
   (case PeekLength b of Inl e \<Rightarrow> True | Inr l \<Rightarrow> 1 \<le> l)"
  using PeekLength_rec [of b] PeekLength_ge [of b] PeekLengthFuel_returns [of b "Suc (length b)"]
  by (auto simp: PeekLength_def split: sum.split)

end
