(* ===== verification/Sql_Keys.thy ===== *)
theory Sql_Keys
  imports Keys_Sql Keys_Local Enc_Peek Engine_Key
begin

text \<open>
  The keys of table rows: the encoding of SQL values as key columns (\<open>engine/pkg/sql/rowenc/keyside\<close>) and
  the index keys built from them (\<open>engine/pkg/sql/rowenc/index_encoding.go\<close>).  Values are the datums of
  \<open>sql/sem/tree\<close>; decimals, intervals, addresses, bit arrays and geospatial values have encoders outside
  this library and are left out; a JSON column of a key is skipped, not decoded.  The object identifier that
  \<open>MaybeSetCustomOid\<close> gives vectors is left out; it fails only for types that are not arrays.

  A column type with its direction is an order-preserving codec in the sense of theory \<open>Codec\<close>, NULL
  included; a row of columns of any types is one again, which gives the order of rows in the store.
\<close>

subsection \<open>Dates\<close>

record Date =
  days :: int32
  hasOrig :: bool
  orig :: int64

abbreviation (input) unixEpochToPGEpoch :: int where "unixEpochToPGEpoch \<equiv> 10957"
abbreviation (input) lowDays :: int where "lowDays \<equiv> - 2451545"
abbreviation (input) highDays :: int where "highDays \<equiv> 2145031948"

definition UnixEpochDays :: "Date \<Rightarrow> int64" where
  "UnixEpochDays d =
    (if sint (days d) = - (2 ^ 31) then word_of_int (- (2 ^ 63))
     else if sint (days d) = 2 ^ 31 - 1 then word_of_int (2 ^ 63 - 1)
     else scast (days d) + word_of_int unixEpochToPGEpoch)"

definition UnixEpochDaysWithOrig :: "Date \<Rightarrow> int64" where
  "UnixEpochDaysWithOrig d = (if hasOrig d then orig d else UnixEpochDays d)"

definition MakeCompatibleDateFromDisk :: "int64 \<Rightarrow> Date" where
  "MakeCompatibleDateFromDisk unixDays =
    (let pgDays = sint unixDays - unixEpochToPGEpoch in
     \<lparr>days =
        (if pgDays < - (2 ^ 63) then word_of_int (- (2 ^ 31))
         else if pgDays > highDays then word_of_int (2 ^ 31 - 1)
         else if pgDays < lowDays then word_of_int (- (2 ^ 31))
         else word_of_int pgDays),
      hasOrig = True, orig = unixDays\<rparr>)"

subsection \<open>Values and their key encoding\<close>

datatype datum =
  DNull
| DBool bool
| DInt int64
| DFloat float64
| DString bytes
| DName bytes
| DBytes bytes
| DVoid
| DDate Date
| DTime int64
| DTimestamp GoTime
| DTimestampTZ GoTime
| DTimeTZ TimeTZ_t
| DUuid bytes
| DTuple "datum list"
| DArray "datum list"
| DCollatedString bytes
| DOid uint32
| DEnum bytes
| DEncodedKey bytes
| DJSON

text \<open>The branches of one line each: an ascending and a descending encoder.\<close>

definition directed :: "Direction \<Rightarrow> bytes \<Rightarrow> bytes \<Rightarrow> bytes result" where
  "directed dir asc desc = (if dir = Ascending then Inr asc else Inr desc)"

definition encodeInt :: "bytes \<Rightarrow> int64 \<Rightarrow> Direction \<Rightarrow> bytes result" where
  "encodeInt b v dir = directed dir (EncodeVarintAscending b v) (EncodeVarintDescending b v)"

definition encodeString :: "bytes \<Rightarrow> bytes \<Rightarrow> Direction \<Rightarrow> bytes result" where
  "encodeString b s dir = directed dir (EncodeStringAscending b s) (EncodeStringDescending 8 b s)"

definition encodeBytesKey :: "bytes \<Rightarrow> bytes \<Rightarrow> Direction \<Rightarrow> bytes result" where
  "encodeBytesKey b s dir = directed dir (EncodeBytesAscending b s) (EncodeBytesDescending 8 b s)"

function (sequential) Encode :: "bytes \<Rightarrow> datum \<Rightarrow> Direction \<Rightarrow> bytes result"
  and encodeTuple :: "bytes \<Rightarrow> datum list \<Rightarrow> Direction \<Rightarrow> bytes result"
  and encodeArrayElems :: "bytes \<Rightarrow> datum list \<Rightarrow> Direction \<Rightarrow> bytes result" where
  "Encode b val dir =
    (if dir \<noteq> Ascending \<and> dir \<noteq> Descending then Inl (Errorf ''invalid direction: %d'')
     else case val of
       DNull \<Rightarrow> directed dir (EncodeNullAscending b) (EncodeNullDescending b)
     | DBool t \<Rightarrow> encodeInt b (if t then 1 else 0) dir
     | DInt t \<Rightarrow> encodeInt b t dir
     | DFloat t \<Rightarrow> directed dir (EncodeFloatAscending b t) (EncodeFloatDescending b t)
     | DString t \<Rightarrow> encodeString b t dir
     | DName t \<Rightarrow> encodeString b t dir
     | DBytes t \<Rightarrow> encodeString b t dir
     | DVoid \<Rightarrow> Inr (EncodeVoidAscendingOrDescending b)
     | DDate t \<Rightarrow> encodeInt b (UnixEpochDaysWithOrig t) dir
     | DTime t \<Rightarrow> encodeInt b t dir
     | DTimestamp t \<Rightarrow> directed dir (EncodeTimeAscending b t) (EncodeTimeDescending b t)
     | DTimestampTZ t \<Rightarrow> directed dir (EncodeTimeAscending b t) (EncodeTimeDescending b t)
     | DTimeTZ t \<Rightarrow> directed dir (EncodeTimeTZAscending b t) (EncodeTimeTZDescending b t)
     | DUuid t \<Rightarrow> encodeBytesKey b t dir
     | DTuple ds \<Rightarrow> encodeTuple b ds dir
     | DArray ds \<Rightarrow>
         rbind (EncodeArrayKeyMarker b dir) (\<lambda>b1.
         rbind (encodeArrayElems b1 ds dir) (\<lambda>b2. EncodeArrayKeyTerminator b2 dir))
     | DCollatedString k \<Rightarrow> encodeBytesKey b k dir
     | DOid t \<Rightarrow> encodeInt b (ucast t) dir
     | DEnum r \<Rightarrow> encodeBytesKey b r dir
     | DEncodedKey k \<Rightarrow> Inr (b @ k)
     | DJSON \<Rightarrow> Inl (Errorf ''unable to encode JSON as a table key''))"
| "encodeTuple b [] dir = Inr b"
| "encodeTuple b (d # ds) dir = rbind (Encode b d dir) (\<lambda>b1. encodeTuple b1 ds dir)"
| "encodeArrayElems b [] dir = Inr b"
| "encodeArrayElems b (d # ds) dir =
    rbind (if d = DNull then EncodeNullWithinArrayKey b dir else Encode b d dir) (\<lambda>b1. encodeArrayElems b1 ds dir)"
  by pat_completeness auto

termination
  by (relation "measure (\<lambda>x. case x of Inl (_, d, _) \<Rightarrow> 2 * size d
      | Inr (Inl (_, ds, _)) \<Rightarrow> Suc (2 * size_list size ds) | Inr (Inr (_, ds, _)) \<Rightarrow> Suc (2 * size_list size ds))") auto

subsection \<open>Decoding a column\<close>

datatype family =
  BoolFamily | IntFamily | FloatFamily | StringFamily bool | BytesFamily | VoidFamily | DateFamily | TimeFamily
| TimeTZFamily | TimestampFamily | TimestampTZFamily | UuidFamily | OidFamily | EnumFamily "bytes list"
| JsonFamily | EncodedKeyFamily | ArrayFamily family

fun EnumGetIdxOfPhysical :: "bytes list \<Rightarrow> nat \<Rightarrow> bytes \<Rightarrow> nat result" where
  "EnumGetIdxOfPhysical [] i phys = Inl (Errorf ''could not find %v in enum %q representation %s %s'')"
| "EnumGetIdxOfPhysical (r # reps) i phys = (if phys = r then Inr i else EnumGetIdxOfPhysical reps (Suc i) phys)"

definition GetEnumComponentsFromPhysicalRep :: "bytes list \<Rightarrow> bytes \<Rightarrow> bytes result" where
  "GetEnumComponentsFromPhysicalRep reps rep = rbind (EnumGetIdxOfPhysical reps 0 rep) (\<lambda>idx. Inr (reps ! idx))"

definition decodeInt :: "bytes \<Rightarrow> Direction \<Rightarrow> (bytes \<times> int64) result" where
  "decodeInt key dir = (if dir = Ascending then DecodeVarintAscending key else DecodeVarintDescending key)"

definition decodeString :: "bytes \<Rightarrow> Direction \<Rightarrow> (bytes \<times> bytes) result" where
  "decodeString key dir =
    (if dir = Ascending then DecodeUnsafeStringAscendingDeepCopy key [] else DecodeUnsafeStringDescending 8 key [])"

definition decodeBytesKey :: "bytes \<Rightarrow> Direction \<Rightarrow> (bytes \<times> bytes) result" where
  "decodeBytesKey key dir = (if dir = Ascending then DecodeBytesAscending key [] else DecodeBytesDescending 8 key [])"

definition decodeTimeKey :: "bytes \<Rightarrow> Direction \<Rightarrow> (bytes \<times> GoTime) result" where
  "decodeTimeKey key dir = (if dir = Ascending then DecodeTimeAscending key else DecodeTimeDescending key)"

text \<open>\<open>DArray.Append\<close>: the length of an array is limited, and arrays in an array are not NULL and have one length.
  The elements decoded from a key have the type of the array.\<close>

abbreviation (input) maxArrayLength :: int where "maxArrayLength \<equiv> 2 ^ 31 - 1"

definition isArray :: "family \<Rightarrow> bool" where
  "isArray t = (case t of ArrayFamily _ \<Rightarrow> True | _ \<Rightarrow> False)"

definition MustBeDArray :: "datum \<Rightarrow> datum list result" where
  "MustBeDArray e = (case e of DArray ds \<Rightarrow> Inr ds | _ \<Rightarrow> Inl (Panic ''expected *DArray, found %T''))"

definition DArray_Append :: "family \<Rightarrow> datum list \<Rightarrow> datum \<Rightarrow> datum list result" where
  "DArray_Append ParamTyp arr v =
    (if int (length arr) \<ge> maxArrayLength then Inl (Errorf ''ARRAYs can be at most 2^31-1 elements long'')
     else if isArray ParamTyp then
       if v = DNull then Inl (Errorf ''multidimensional arrays must have array expressions with matching dimensions'')
       else if arr = [] then Inr (arr @ [v])
       else if last arr = DNull then Inl (Errorf ''multidimensional arrays must have array expressions with matching dimensions'')
       else rbind (MustBeDArray (last arr)) (\<lambda>prevItem. rbind (MustBeDArray v) (\<lambda>item.
         if length item \<noteq> length prevItem
         then Inl (Errorf ''multidimensional arrays must have array expressions with matching dimensions'')
         else Inr (arr @ [v])))
     else Inr (arr @ [v]))"

text \<open>The loop over the elements of an array key.  Every turn takes at least a byte, so the length of the
  buffer bounds the number of turns.\<close>

primrec decodeArrayLoop ::
    "nat \<Rightarrow> family \<Rightarrow> (bytes \<Rightarrow> (bytes \<times> datum) result) \<Rightarrow> Direction \<Rightarrow> bytes \<Rightarrow> datum list \<Rightarrow> (bytes \<times> datum) result" where
  "decodeArrayLoop 0 t decodeElem dir buf result = Inl (Errorf ''invalid array encoding (unterminated)'')"
| "decodeArrayLoop (Suc n) t decodeElem dir buf result =
    (if length buf = 0 then Inl (Errorf ''invalid array encoding (unterminated)'')
     else rbind (IsArrayKeyDone buf dir) (\<lambda>done0.
       if done0 then Inr (drop 1 buf, DArray result)
       else rbind (IsNextByteArrayEncodedNull buf dir) (\<lambda>null.
         rbind (if null then Inr (drop 1 buf, DNull) else decodeElem buf) (\<lambda>(buf1, d).
         rbind (DArray_Append t result d) (\<lambda>result1. decodeArrayLoop n t decodeElem dir buf1 result1)))))"

fun Decode :: "family \<Rightarrow> bytes \<Rightarrow> Direction \<Rightarrow> (bytes \<times> datum) result" where
  "Decode valType key0 dir =
    (if dir \<noteq> Ascending \<and> dir \<noteq> Descending then Inl (Errorf ''invalid direction: %d'')
     else case DecodeIfNull key0 of (key, isNull) \<Rightarrow>
     if isNull then Inr (key, DNull)
     else case valType of
       ArrayFamily t \<Rightarrow>
         rbind (ValidateAndConsumeArrayKeyMarker key dir) (\<lambda>buf.
           decodeArrayLoop (length buf) t (\<lambda>b. Decode t b dir) dir buf [])
     | BoolFamily \<Rightarrow> rbind (decodeInt key dir) (\<lambda>(rkey, i). Inr (rkey, DBool (i \<noteq> 0)))
     | IntFamily \<Rightarrow> rbind (decodeInt key dir) (\<lambda>(rkey, i). Inr (rkey, DInt i))
     | FloatFamily \<Rightarrow>
         rbind (if dir = Ascending then DecodeFloatAscending key else DecodeFloatDescending key) (\<lambda>(rkey, f). Inr (rkey, DFloat f))
     | StringFamily name \<Rightarrow> rbind (decodeString key dir) (\<lambda>(rkey, r). Inr (rkey, if name then DName r else DString r))
     | BytesFamily \<Rightarrow> rbind (decodeBytesKey key dir) (\<lambda>(rkey, r). Inr (rkey, DBytes r))
     | VoidFamily \<Rightarrow> rbind (DecodeVoidAscendingOrDescending key) (\<lambda>rkey. Inr (rkey, DVoid))
     | DateFamily \<Rightarrow> rbind (decodeInt key dir) (\<lambda>(rkey, t). Inr (rkey, DDate (MakeCompatibleDateFromDisk t)))
     | TimeFamily \<Rightarrow> rbind (decodeInt key dir) (\<lambda>(rkey, t). Inr (rkey, DTime t))
     | TimeTZFamily \<Rightarrow>
         rbind (if dir = Ascending then DecodeTimeTZAscending key else DecodeTimeTZDescending key) (\<lambda>(rkey, t). Inr (rkey, DTimeTZ t))
     | TimestampFamily \<Rightarrow> rbind (decodeTimeKey key dir) (\<lambda>(rkey, t). Inr (rkey, DTimestamp t))
     | TimestampTZFamily \<Rightarrow> rbind (decodeTimeKey key dir) (\<lambda>(rkey, t). Inr (rkey, DTimestampTZ t))
     | UuidFamily \<Rightarrow> rbind (decodeBytesKey key dir) (\<lambda>(rkey, r). rbind (FromBytes r) (\<lambda>u. Inr (rkey, DUuid u)))
     | OidFamily \<Rightarrow> rbind (decodeInt key dir) (\<lambda>(rkey, i). Inr (rkey, DOid (ucast i)))
     | EnumFamily reps \<Rightarrow>
         rbind (decodeBytesKey key dir) (\<lambda>(rkey, r). rbind (GetEnumComponentsFromPhysicalRep reps r) (\<lambda>phys. Inr (rkey, DEnum phys)))
     | JsonFamily \<Rightarrow>
         rbind (PeekLength key) (\<lambda>jsonLen.
           if jsonLen > int (length key) then Inl (Panic ''slice bounds out of range'') else Inr (drop (nat jsonLen) key, DNull))
     | EncodedKeyFamily \<Rightarrow>
         rbind (PeekLength key) (\<lambda>len.
           if len > int (length key) then Inl (Panic ''slice bounds out of range'')
           else Inr (drop (nat len) key, DEncodedKey (take (nat len) key))))"

declare Decode.simps [simp del]

definition Skip :: "bytes \<Rightarrow> bytes result" where
  "Skip key = rbind (PeekLength key) (\<lambda>skipLen.
     if skipLen > int (length key) then Inl (Panic ''slice bounds out of range'') else Inr (drop (nat skipLen) key))"

subsection \<open>Types and order of values\<close>

text \<open>The values of a column type other than NULL.  Floats are the ones keys can hold: one NaN, and zero
  without a sign; dates are as read from disk; arrays are not too long, and arrays of arrays are rectangular.\<close>

definition same_length :: "datum \<Rightarrow> datum \<Rightarrow> bool" where
  "same_length e f = (case e of DArray es \<Rightarrow> (case f of DArray fs \<Rightarrow> length es = length fs | _ \<Rightarrow> False) | _ \<Rightarrow> False)"

definition homogeneous :: "family \<Rightarrow> datum list \<Rightarrow> bool" where
  "homogeneous t ds \<longleftrightarrow> int (length ds) \<le> maxArrayLength \<and> (isArray t \<longrightarrow> list_all (same_length (hd ds)) ds)"

primrec typed :: "family \<Rightarrow> datum \<Rightarrow> bool" where
  "typed BoolFamily d = (case d of DBool _ \<Rightarrow> True | _ \<Rightarrow> False)"
| "typed IntFamily d = (case d of DInt _ \<Rightarrow> True | _ \<Rightarrow> False)"
| "typed FloatFamily d = (case d of DFloat f \<Rightarrow> canonical f | _ \<Rightarrow> False)"
| "typed (StringFamily name) d = (case d of DString _ \<Rightarrow> \<not> name | DName _ \<Rightarrow> name | _ \<Rightarrow> False)"
| "typed BytesFamily d = (case d of DBytes _ \<Rightarrow> True | _ \<Rightarrow> False)"
| "typed VoidFamily d = (d = DVoid)"
| "typed DateFamily d = (case d of DDate t \<Rightarrow> t = MakeCompatibleDateFromDisk (orig t) | _ \<Rightarrow> False)"
| "typed TimeFamily d = (case d of DTime _ \<Rightarrow> True | _ \<Rightarrow> False)"
| "typed TimeTZFamily d = (case d of DTimeTZ _ \<Rightarrow> True | _ \<Rightarrow> False)"
| "typed TimestampFamily d = (case d of DTimestamp t \<Rightarrow> wf_time t | _ \<Rightarrow> False)"
| "typed TimestampTZFamily d = (case d of DTimestampTZ t \<Rightarrow> wf_time t | _ \<Rightarrow> False)"
| "typed UuidFamily d = (case d of DUuid u \<Rightarrow> length u = 16 | _ \<Rightarrow> False)"
| "typed OidFamily d = (case d of DOid _ \<Rightarrow> True | _ \<Rightarrow> False)"
| "typed (EnumFamily reps) d = (case d of DEnum r \<Rightarrow> r \<in> set reps | _ \<Rightarrow> False)"
| "typed JsonFamily d = False"
| "typed EncodedKeyFamily d = False"
| "typed (ArrayFamily t) d = (case d of DArray ds \<Rightarrow> homogeneous t ds \<and> list_all (\<lambda>e. e = DNull \<or> typed t e) ds | _ \<Rightarrow> False)"

text \<open>The order of values of one type; arrays compare element by element, NULL below the rest, and a
  prefix below its extensions.\<close>

function datum_less :: "datum \<Rightarrow> datum \<Rightarrow> bool" and datums_less :: "datum list \<Rightarrow> datum list \<Rightarrow> bool" where
  "datum_less v w =
    (case v of
       DBool a \<Rightarrow> (case w of DBool b \<Rightarrow> \<not> a \<and> b | _ \<Rightarrow> False)
     | DInt a \<Rightarrow> (case w of DInt b \<Rightarrow> sint a < sint b | _ \<Rightarrow> False)
     | DFloat a \<Rightarrow> (case w of DFloat b \<Rightarrow> float_less a b | _ \<Rightarrow> False)
     | DString a \<Rightarrow> (case w of DString b \<Rightarrow> a < b | _ \<Rightarrow> False)
     | DName a \<Rightarrow> (case w of DName b \<Rightarrow> a < b | _ \<Rightarrow> False)
     | DBytes a \<Rightarrow> (case w of DBytes b \<Rightarrow> a < b | _ \<Rightarrow> False)
     | DDate a \<Rightarrow> (case w of DDate b \<Rightarrow> sint (orig a) < sint (orig b) | _ \<Rightarrow> False)
     | DTime a \<Rightarrow> (case w of DTime b \<Rightarrow> sint a < sint b | _ \<Rightarrow> False)
     | DTimestamp a \<Rightarrow> (case w of DTimestamp b \<Rightarrow> Before a b | _ \<Rightarrow> False)
     | DTimestampTZ a \<Rightarrow> (case w of DTimestampTZ b \<Rightarrow> Before a b | _ \<Rightarrow> False)
     | DTimeTZ a \<Rightarrow> (case w of DTimeTZ b \<Rightarrow> tz_before a b | _ \<Rightarrow> False)
     | DUuid a \<Rightarrow> (case w of DUuid b \<Rightarrow> a < b | _ \<Rightarrow> False)
     | DOid a \<Rightarrow> (case w of DOid b \<Rightarrow> a < b | _ \<Rightarrow> False)
     | DEnum a \<Rightarrow> (case w of DEnum b \<Rightarrow> a < b | _ \<Rightarrow> False)
     | DArray ds \<Rightarrow> (case w of DArray es \<Rightarrow> datums_less ds es | _ \<Rightarrow> False)
     | _ \<Rightarrow> False)"
| "datums_less [] es = (es \<noteq> [])"
| "datums_less (d # ds) [] = False"
| "datums_less (d # ds) (e # es) =
    (d = DNull \<and> e \<noteq> DNull \<or> d \<noteq> DNull \<and> e \<noteq> DNull \<and> datum_less d e \<or> d = e \<and> datums_less ds es)"
  by pat_completeness auto

termination
  by (relation "measure (\<lambda>x. case x of Inl (d, _) \<Rightarrow> 2 * size d | Inr (ds, _) \<Rightarrow> Suc (2 * size_list size ds))") auto

definition null_less :: "datum \<Rightarrow> datum \<Rightarrow> bool" where
  "null_less d e \<longleftrightarrow> d = DNull \<and> e \<noteq> DNull \<or> d \<noteq> DNull \<and> e \<noteq> DNull \<and> datum_less d e"

text \<open>The order of a column: NULL first in ascending columns and last in descending ones.\<close>

definition column_less :: "Direction \<Rightarrow> datum \<Rightarrow> datum \<Rightarrow> bool" where
  "column_less dir d e \<longleftrightarrow> (if dir = Ascending then null_less d e else null_less e d)"

subsection \<open>The encoding in closed form\<close>

definition ikey :: "Direction \<Rightarrow> int64 \<Rightarrow> bytes" where
  "ikey dir v = (if dir = Ascending then EncodeVarintAscending [] v else EncodeVarintDescending [] v)"

definition bkey :: "Direction \<Rightarrow> bytes \<Rightarrow> bytes" where
  "bkey dir s = (if dir = Ascending then EncodeBytesAscending [] s else EncodeBytesDescending 8 [] s)"

definition tkey :: "Direction \<Rightarrow> GoTime \<Rightarrow> bytes" where
  "tkey dir t = (if dir = Ascending then EncodeTimeAscending [] t else EncodeTimeDescending [] t)"

fun valKey :: "Direction \<Rightarrow> datum \<Rightarrow> bytes" where
  "valKey dir d =
    (case d of
       DBool t \<Rightarrow> ikey dir (if t then 1 else 0)
     | DInt t \<Rightarrow> ikey dir t
     | DFloat f \<Rightarrow> (if dir = Ascending then EncodeFloatAscending [] f else EncodeFloatDescending [] f)
     | DString s \<Rightarrow> bkey dir s
     | DName s \<Rightarrow> bkey dir s
     | DBytes s \<Rightarrow> bkey dir s
     | DVoid \<Rightarrow> [voidMarker]
     | DDate t \<Rightarrow> ikey dir (UnixEpochDaysWithOrig t)
     | DTime t \<Rightarrow> ikey dir t
     | DTimestamp t \<Rightarrow> tkey dir t
     | DTimestampTZ t \<Rightarrow> tkey dir t
     | DTimeTZ z \<Rightarrow> (if dir = Ascending then EncodeTimeTZAscending [] z else EncodeTimeTZDescending [] z)
     | DUuid u \<Rightarrow> bkey dir u
     | DOid t \<Rightarrow> ikey dir (ucast t)
     | DEnum r \<Rightarrow> bkey dir r
     | DArray ds \<Rightarrow>
         (if dir = Ascending then arrayKeyMarker else arrayKeyDescendingMarker) #
         concat (map (\<lambda>e. if e = DNull then [if dir = Ascending then ascendingNullWithinArrayKey else descendingNullWithinArrayKey]
                          else valKey dir e) ds) @
         [if dir = Ascending then arrayKeyTerminator else arrayKeyDescendingTerminator]
     | _ \<Rightarrow> [])"

declare valKey.simps [simp del] Encode.simps [simp del] datum_less.simps [simp del]

definition colKey :: "Direction \<Rightarrow> datum \<Rightarrow> bytes" where
  "colKey dir d = (if d = DNull then [if dir = Ascending then encodedNull else encodedNullDesc] else valKey dir d)"

abbreviation (input) elemKey :: "Direction \<Rightarrow> datum \<Rightarrow> bytes" where
  "elemKey dir e \<equiv> (if e = DNull then [if dir = Ascending then ascendingNullWithinArrayKey else descendingNullWithinArrayKey]
     else valKey dir e)"

abbreviation (input) directions :: "Direction set" where "directions \<equiv> {Ascending, Descending}"

lemma encoders_append:
  "directed dir (EncodeVarintAscending b v) (EncodeVarintDescending b v) = Inr (b @ ikey dir v)"
  "directed dir (EncodeStringAscending b s) (EncodeStringDescending 8 b s) = Inr (b @ bkey dir s)"
  "directed dir (EncodeBytesAscending b s) (EncodeBytesDescending 8 b s) = Inr (b @ bkey dir s)"
  "directed dir (EncodeTimeAscending b t) (EncodeTimeDescending b t) = Inr (b @ tkey dir t)"
  "directed dir (EncodeTimeTZAscending b z) (EncodeTimeTZDescending b z) =
    Inr (b @ (if dir = Ascending then EncodeTimeTZAscending [] z else EncodeTimeTZDescending [] z))"
  "directed dir (EncodeFloatAscending b f) (EncodeFloatDescending b f) =
    Inr (b @ (if dir = Ascending then EncodeFloatAscending [] f else EncodeFloatDescending [] f))"
proof -
  have s: "EncodeStringAscending b s = EncodeBytesAscending b s" "EncodeStringDescending 8 b s = EncodeBytesDescending 8 b s"
    by (simp_all add: EncodeStringAscending_def EncodeStringDescending_def encodeStringAscendingWithTerminatorAndPrefix_def
        UnsafeConvertStringToBytes_def EncodeBytesAscending_def)
  show "directed dir (EncodeVarintAscending b v) (EncodeVarintDescending b v) = Inr (b @ ikey dir v)"
    by (simp add: directed_def ikey_def EncodeVarintDescending_def append_buf)
  show "directed dir (EncodeBytesAscending b s) (EncodeBytesDescending 8 b s) = Inr (b @ bkey dir s)"
    by (simp add: directed_def bkey_def append_buf)
  then show "directed dir (EncodeStringAscending b s) (EncodeStringDescending 8 b s) = Inr (b @ bkey dir s)" unfolding s .
  show "directed dir (EncodeTimeAscending b t) (EncodeTimeDescending b t) = Inr (b @ tkey dir t)"
    by (simp add: directed_def tkey_def EncodeTimeAscending_def EncodeTimeDescending_def encodeTime_pair)
  show "directed dir (EncodeTimeTZAscending b z) (EncodeTimeTZDescending b z) =
      Inr (b @ (if dir = Ascending then EncodeTimeTZAscending [] z else EncodeTimeTZDescending [] z))"
    by (simp add: directed_def EncodeTimeTZAscending_def EncodeTimeTZDescending_def encodeTimeTZ_pair)
  show "directed dir (EncodeFloatAscending b f) (EncodeFloatDescending b f) =
      Inr (b @ (if dir = Ascending then EncodeFloatAscending [] f else EncodeFloatDescending [] f))"
    unfolding directed_def asc_cases desc_cases by simp
qed

lemma Encode_scalar:
  assumes "dir \<in> directions" "typed t d" "\<And>u. t \<noteq> ArrayFamily u"
  shows "Encode b d dir = Inr (b @ valKey dir d)"
  using assms
  by (cases t; cases d)
    (auto simp: Encode.simps valKey.simps encodeInt_def encodeString_def encodeBytesKey_def encoders_append EncodeVoidAscendingOrDescending_def)

lemma Encode_elems:
  assumes "dir \<in> directions" "\<And>b e. e \<in> set ds \<Longrightarrow> e \<noteq> DNull \<Longrightarrow> Encode b e dir = Inr (b @ valKey dir e)"
  shows "encodeArrayElems b ds dir = Inr (b @ concat (map (elemKey dir) ds))"
  using assms(2)
proof (induction ds arbitrary: b)
  case (Cons e ds)
  then show ?case using assms(1) by (auto simp: EncodeNullWithinArrayKey_def)
qed simp

lemma Encode_key:
  assumes "dir \<in> directions"
  shows "typed t d \<Longrightarrow> Encode b d dir = Inr (b @ valKey dir d)"
proof (induction t arbitrary: b d)
  case (ArrayFamily t)
  then obtain ds where d: "d = DArray ds" "list_all (\<lambda>e. e = DNull \<or> typed t e) ds" by (auto split: datum.splits)
  have "encodeArrayElems b ds dir = Inr (b @ concat (map (elemKey dir) ds))" for b
    by (rule Encode_elems [OF assms]) (use d(2) ArrayFamily.IH in \<open>auto simp: list_all_iff\<close>)
  then show ?case using assms
    by (auto simp: d(1) Encode.simps [of _ "DArray ds"] valKey.simps [of _ "DArray ds"] EncodeArrayKeyMarker_def EncodeArrayKeyTerminator_def)
qed (use Encode_scalar [OF assms] in blast)+

lemma Encode_column:
  "dir \<in> directions \<Longrightarrow> d = DNull \<or> typed t d \<Longrightarrow> Encode b d dir = Inr (b @ colKey dir d)"
proof (cases "d = DNull")
  case True
  assume "dir \<in> directions"
  then show ?thesis using True
    by (auto simp: Encode.simps colKey_def directed_def EncodeNullAscending_def EncodeNullDescending_def)
qed (simp add: colKey_def Encode_key)

subsection \<open>The first byte\<close>

definition tagged :: "bytes \<Rightarrow> bool" where
  "tagged b \<longleftrightarrow> (\<exists>m xs. b = m # xs \<and> 1 < m \<and> m < 0xfe)"

lemma tagged_keys:
  "tagged (ikey dir v)" "tagged (bkey dir s)" "tagged (tkey dir t)"
  "tagged (EncodeTimeTZAscending [] z)" "tagged (EncodeTimeTZDescending [] z)"
  "tagged (EncodeFloatAscending [] f)" "tagged (EncodeFloatDescending [] f)" "tagged [voidMarker]"
proof -
  show "tagged [voidMarker]" by (simp add: tagged_def)
  show "tagged (ikey dir v)"
    using varint_column_tag unfolding tagged_def ikey_def EncodeVarintDescending_def by (metis (full_types))
  show "tagged (bkey dir s)" using bytes_tag(1) [of s] bytes_tag(2) [of 8 s] by (auto simp: tagged_def bkey_def)
  show "tagged (tkey dir t)" using time_tag(1,2) [of t] by (auto simp: tagged_def tkey_def)
  show "tagged (EncodeTimeTZAscending [] z)" "tagged (EncodeTimeTZDescending [] z)"
    using time_tag(3,4) [of z] by (auto simp: tagged_def)
  show "tagged (EncodeFloatAscending [] f)" "tagged (EncodeFloatDescending [] f)"
    unfolding asc_cases desc_cases by (simp_all add: tagged_def)
qed

lemma tagged_key: "typed t d \<Longrightarrow> tagged (valKey dir d)"
proof (cases t)
  case (ArrayFamily u)
  assume "typed t d"
  then obtain ds where "d = DArray ds" using ArrayFamily by (auto split: datum.splits)
  then show ?thesis by (simp add: valKey.simps [of _ "DArray ds"] tagged_def)
qed (cases d; auto simp: valKey.simps tagged_keys)+

lemma DecodeIfNull_tagged: "tagged b \<Longrightarrow> DecodeIfNull (b @ r) = (b @ r, False)"
proof -
  assume "tagged b"
  then obtain m xs where b: "b = m # xs" "1 < m" "m < 0xfe" unfolding tagged_def by blast
  then have "m \<noteq> 0" "m \<noteq> 0xff" by auto
  then show ?thesis using b by (simp add: DecodeIfNull_def PeekType_eq slowPeekType_def)
qed

lemma DecodeIfNull_null: "dir \<in> directions \<Longrightarrow> DecodeIfNull (colKey dir DNull @ r) = (r, True)"
  by (auto simp: colKey_def DecodeIfNull_def PeekType_eq slowPeekType_def)

subsection \<open>Decoding\<close>

lemma decoders_keys:
  assumes "dir \<in> directions"
  shows "decodeInt (ikey dir v @ rest) dir = Inr (rest, v)" "decodeBytesKey (bkey dir s @ rest) dir = Inr (rest, s)"
    "decodeString (bkey dir s @ rest) dir = Inr (rest, s)" "wf_time t \<Longrightarrow> decodeTimeKey (tkey dir t @ rest) dir = Inr (rest, t)"
  using assms
  by (auto simp: decodeInt_def ikey_def varint_asc.roundtrip varint_desc.roundtrip decodeBytesKey_def bkey_def bytes_asc.roundtrip
      bytes_desc.roundtrip decodeString_def DecodeUnsafeStringAscendingDeepCopy_def DecodeBytesAscendingDeepCopy_def
      DecodeUnsafeStringDescending_def decodeBytesInternal_asc decodeTimeKey_def tkey_def time_asc.roundtrip time_desc.roundtrip)

lemma EnumGetIdx: "r \<in> set reps \<Longrightarrow> \<exists>j. EnumGetIdxOfPhysical reps i r = Inr (i + j) \<and> reps ! j = r"
proof (induction reps arbitrary: i)
  case (Cons x reps)
  show ?case
  proof (cases "r = x")
    case True
    then show ?thesis by (intro exI [of _ 0]) simp
  next
    case False
    then obtain j where "EnumGetIdxOfPhysical reps (Suc i) r = Inr (Suc i + j)" "reps ! j = r"
      using Cons.IH [of "Suc i"] Cons.prems by auto
    then show ?thesis using False by (intro exI [of _ "Suc j"]) simp
  qed
qed simp

lemma GetEnumComponents: "r \<in> set reps \<Longrightarrow> GetEnumComponentsFromPhysicalRep reps r = Inr r"
  using EnumGetIdx [of r reps 0] by (auto simp: GetEnumComponentsFromPhysicalRep_def)

lemma ucast_oid: "(ucast (ucast (t :: uint32) :: int64) :: uint32) = t"
  by (rule ucast_ucast32)

lemma Decode_scalar:
  assumes "dir \<in> directions" "typed t d" "\<And>u. t \<noteq> ArrayFamily u"
  shows "Decode t (valKey dir d @ rest) dir = Inr (rest, d)"
proof -
  have dir: "\<not> (dir \<noteq> Ascending \<and> dir \<noteq> Descending)" using assms(1) by auto
  have date: "UnixEpochDaysWithOrig x = orig x" if "x = MakeCompatibleDateFromDisk (orig x)" for x
  proof -
    have "hasOrig (MakeCompatibleDateFromDisk (orig x))" by (simp add: MakeCompatibleDateFromDisk_def Let_def)
    then have "hasOrig x" using that by simp
    then show ?thesis by (simp add: UnixEpochDaysWithOrig_def)
  qed
  have void: "DecodeVoidAscendingOrDescending (68 # rest) = Inr rest"
    by (simp add: DecodeVoidAscendingOrDescending_def PeekType_eq slowPeekType_def)
  note D = Decode.simps [of t "valKey dir d @ rest" dir, unfolded if_not_P [OF dir] DecodeIfNull_tagged [OF tagged_key [OF assms(2)]]
      prod.case if_False]
  show ?thesis unfolding D using assms
    by (cases t; cases d)
      (auto simp: valKey.simps decoders_keys float_asc.roundtrip float_desc.roundtrip timetz_asc.roundtrip timetz_desc.roundtrip
        FromBytes_def GetEnumComponents ucast_oid void date)
qed

abbreviation (input) terminator :: "Direction \<Rightarrow> byte" where
  "terminator dir \<equiv> (if dir = Ascending then arrayKeyTerminator else arrayKeyDescendingTerminator)"

lemma same_length_iff: "same_length e f \<longleftrightarrow> (\<exists>es fs. e = DArray es \<and> f = DArray fs \<and> length es = length fs)"
  by (cases e; cases f; simp add: same_length_def)

lemma DArray_Append_homogeneous:
  assumes "homogeneous t (arr @ v # vs)"
  shows "DArray_Append t arr v = Inr (arr @ [v])"
proof -
  have n: "\<not> int (length arr) \<ge> maxArrayLength" using assms by (auto simp: homogeneous_def)
  show ?thesis
  proof (cases "isArray t \<and> arr \<noteq> []")
    case True
    then have "same_length (hd arr) (last arr)" "same_length (hd arr) v"
      using assms by (auto simp: homogeneous_def list_all_iff)
    then show ?thesis using n True by (auto simp: same_length_iff DArray_Append_def MustBeDArray_def)
  next
    case False
    have "v \<noteq> DNull" if "isArray t" using assms that by (cases arr) (auto simp: homogeneous_def same_length_iff)
    then show ?thesis using n False by (auto simp: DArray_Append_def)
  qed
qed

lemma decodeArrayLoop_eq:
  assumes "dir \<in> directions" "\<And>e r. e \<in> set ds \<Longrightarrow> e \<noteq> DNull \<Longrightarrow> tagged (valKey dir e) \<and> dec (valKey dir e @ r) = Inr (r, e)"
    "length ds < n" "homogeneous t (acc @ ds)"
  shows "decodeArrayLoop n t dec dir (concat (map (elemKey dir) ds) @ terminator dir # rest) acc = Inr (rest, DArray (acc @ ds))"
  using assms(2-4)
proof (induction n arbitrary: ds acc)
  case (Suc n)
  show ?case
  proof (cases ds)
    case Nil
    then show ?thesis using assms(1) by (auto simp: IsArrayKeyDone_def)
  next
    case (Cons e es)
    have ih: "decodeArrayLoop n t dec dir (concat (map (elemKey dir) es) @ terminator dir # rest) (acc @ [e]) = Inr (rest, DArray (acc @ ds))"
      using Suc.IH [of es "acc @ [e]"] Suc.prems Cons by simp
    have app: "DArray_Append t acc e = Inr (acc @ [e])" using Suc.prems(3) Cons DArray_Append_homogeneous by simp
    show ?thesis
    proof (cases "e = DNull")
      case True
      then show ?thesis using ih app assms(1) Cons
        by (auto simp: IsArrayKeyDone_def IsNextByteArrayEncodedNull_def cong: if_cong map_cong)
    next
      case False
      let ?r = "concat (map (elemKey dir) es) @ terminator dir # rest"
      have "tagged (valKey dir e)" using Suc.prems(1) [of e] Cons False by simp
      then obtain m xs where k: "valKey dir e = m # xs" "1 < m" "m < 0xfe" unfolding tagged_def by blast
      then have m: "m \<noteq> 0" "m \<noteq> 0xff" "m \<noteq> 1" "m \<noteq> 0xfe" by auto
      have dec: "dec (m # xs @ ?r) = Inr (?r, e)" using Suc.prems(1) [of e ?r] Cons False k(1) by simp
      have "IsArrayKeyDone (m # xs @ ?r) dir = Inr False" "IsNextByteArrayEncodedNull (m # xs @ ?r) dir = Inr False"
        using m by (simp_all add: IsArrayKeyDone_def IsNextByteArrayEncodedNull_def)
      then have "decodeArrayLoop (Suc n) t dec dir (m # xs @ ?r) acc = decodeArrayLoop n t dec dir ?r (acc @ [e])"
        unfolding decodeArrayLoop.simps dec by (simp add: app)
      then show ?thesis using ih Cons False k(1) by simp
    qed
  qed
qed simp

lemma length_elems: "(\<And>e. e \<in> set ds \<Longrightarrow> e \<noteq> DNull \<Longrightarrow> tagged (valKey dir e)) \<Longrightarrow> length ds \<le> length (concat (map (elemKey dir) ds))"
proof (induction ds)
  case (Cons e ds)
  have "elemKey dir e \<noteq> []" using Cons.prems [of e] by (auto simp: tagged_def)
  then have "0 < length (elemKey dir e)" by blast
  moreover have "length ds \<le> length (concat (map (elemKey dir) ds))" using Cons by simp
  ultimately show ?case by (simp only: list.map concat.simps length_append list.size)
qed simp

lemma Decode_key:
  assumes "dir \<in> directions"
  shows "typed t d \<Longrightarrow> Decode t (valKey dir d @ rest) dir = Inr (rest, d)"
proof (induction t arbitrary: d rest)
  case (ArrayFamily t)
  then obtain ds where d: "d = DArray ds" and ds: "list_all (\<lambda>e. e = DNull \<or> typed t e) ds" "homogeneous t ds"
    by (auto split: datum.splits)
  have dir: "\<not> (dir \<noteq> Ascending \<and> dir \<noteq> Descending)" using assms by auto
  let ?m = "if dir = Ascending then arrayKeyMarker else arrayKeyDescendingMarker"
  let ?buf = "concat (map (elemKey dir) ds) @ terminator dir # rest"
  have k: "valKey dir d @ rest = ?m # ?buf" by (simp add: d valKey.simps [of _ "DArray ds"])
  have tagged: "tagged (valKey dir e)" if "e \<in> set ds" "e \<noteq> DNull" for e using ds that tagged_key by (auto simp: list_all_iff)
  have v: "ValidateAndConsumeArrayKeyMarker (?m # ?buf) dir = Inr ?buf" using assms
    by (auto simp: ValidateAndConsumeArrayKeyMarker_def PeekType_eq slowPeekType_def Let_def)
  have n: "length ds < length ?buf" using length_elems [of ds dir] tagged by simp
  have loop: "decodeArrayLoop (length ?buf) t (\<lambda>b. Decode t b dir) dir ?buf [] = Inr (rest, d)"
  proof -
    have "tagged (valKey dir e) \<and> Decode t (valKey dir e @ r) dir = Inr (r, e)" if "e \<in> set ds" "e \<noteq> DNull" for e r
      using tagged [OF that] ArrayFamily.IH ds that by (auto simp: list_all_iff)
    from decodeArrayLoop_eq [OF assms this n, of t "[]" rest] ds(2) show ?thesis unfolding d by simp
  qed
  note D = Decode.simps [of "ArrayFamily t" "valKey dir d @ rest" dir, unfolded if_not_P [OF dir]
      DecodeIfNull_tagged [OF tagged_key [OF ArrayFamily.prems]] prod.case if_False family.case]
  show ?case unfolding D unfolding k unfolding v rbind_simps by (rule loop)
qed (use Decode_scalar [OF assms] in blast)+

lemma Decode_column:
  assumes "dir \<in> directions" "d = DNull \<or> typed t d"
  shows "Decode t (colKey dir d @ rest) dir = Inr (rest, d)"
proof (cases "d = DNull")
  case True
  have dir: "\<not> (dir \<noteq> Ascending \<and> dir \<noteq> Descending)" using assms(1) by auto
  show ?thesis unfolding True Decode.simps [of t] if_not_P [OF dir] DecodeIfNull_null [OF assms(1)] by simp
next
  case False
  then show ?thesis using Decode_key [OF assms(1)] assms(2) by (simp add: colKey_def)
qed

subsection \<open>Order\<close>

text \<open>Columns of a type sort as their values; \<open>dir_less\<close> is the order of values in a direction.\<close>

definition dir_less :: "Direction \<Rightarrow> datum \<Rightarrow> datum \<Rightarrow> bool" where
  "dir_less dir d e = (if dir = Ascending then datum_less d e else datum_less e d)"

lemma prim_ordered:
  assumes "dir \<in> directions"
  shows "(if dir = Ascending then sint v < sint w else sint w < sint v) \<Longrightarrow> dless (ikey dir v) (ikey dir w)"
    "(if dir = Ascending then a < b else b < a) \<Longrightarrow> dless (bkey dir a) (bkey dir b)"
    "wf_time t \<Longrightarrow> wf_time u \<Longrightarrow> (if dir = Ascending then Before t u else Before u t) \<Longrightarrow> dless (tkey dir t) (tkey dir u)"
  using assms varint_asc.ordered varint_desc.ordered bytes_asc.ordered bytes_desc.ordered time_asc.ordered time_desc.ordered
  by (auto simp: ikey_def bkey_def tkey_def)

lemma oid_sint: "sint (ucast (t :: uint32) :: int64) = uint t"
proof -
  have u: "uint (ucast t :: int64) = uint t" using unat_ucast32 [of t] by (metis uint_nat)
  have "0 \<le> uint t" "uint t < 2 ^ 32" using unsigned_less [of t, where ?'a = int] by simp_all
  moreover have "- (2 ^ 63) \<le> (0 :: int)" "(2 :: int) ^ 32 < 2 ^ 63" by simp_all
  ultimately have "- (2 ^ 63) \<le> uint t" "uint t < 2 ^ 63" by linarith+
  with u show ?thesis by (simp add: sint_uint signed_take_bit_int_eq_self)
qed

lemma date_days: "x = MakeCompatibleDateFromDisk (orig x) \<Longrightarrow> UnixEpochDaysWithOrig x = orig x"
proof -
  assume "x = MakeCompatibleDateFromDisk (orig x)"
  then have "hasOrig x" by (metis MakeCompatibleDateFromDisk_def Date.select_convs(2))
  then show ?thesis by (simp add: UnixEpochDaysWithOrig_def)
qed

lemma typed_shape:
  "typed BoolFamily d \<Longrightarrow> \<exists>x. d = DBool x" "typed IntFamily d \<Longrightarrow> \<exists>x. d = DInt x"
  "typed FloatFamily d \<Longrightarrow> \<exists>x. d = DFloat x \<and> canonical x"
  "typed (StringFamily n) d \<Longrightarrow> \<exists>x. d = (if n then DName x else DString x)"
  "typed BytesFamily d \<Longrightarrow> \<exists>x. d = DBytes x" "typed DateFamily d \<Longrightarrow> \<exists>x. d = DDate x \<and> UnixEpochDaysWithOrig x = orig x"
  "typed TimeFamily d \<Longrightarrow> \<exists>x. d = DTime x" "typed TimeTZFamily d \<Longrightarrow> \<exists>x. d = DTimeTZ x"
  "typed TimestampFamily d \<Longrightarrow> \<exists>x. d = DTimestamp x \<and> wf_time x" "typed TimestampTZFamily d \<Longrightarrow> \<exists>x. d = DTimestampTZ x \<and> wf_time x"
  "typed UuidFamily d \<Longrightarrow> \<exists>x. d = DUuid x" "typed OidFamily d \<Longrightarrow> \<exists>x. d = DOid x" "typed (EnumFamily reps) d \<Longrightarrow> \<exists>x. d = DEnum x"
  "typed (ArrayFamily t) d \<Longrightarrow> \<exists>x. d = DArray x \<and> list_all (\<lambda>e. e = DNull \<or> typed t e) x"
  by (cases d; auto simp: date_days)+

declare typed.simps [simp del]

lemma datum_less_simps:
  "datum_less (DBool a) (DBool b) \<longleftrightarrow> \<not> a \<and> b" "datum_less (DInt v) (DInt w) \<longleftrightarrow> sint v < sint w"
  "datum_less (DFloat f) (DFloat g) \<longleftrightarrow> float_less f g" "datum_less (DString x) (DString y) \<longleftrightarrow> x < y"
  "datum_less (DName x) (DName y) \<longleftrightarrow> x < y" "datum_less (DBytes x) (DBytes y) \<longleftrightarrow> x < y" "\<not> datum_less DVoid DVoid"
  "datum_less (DDate p) (DDate q) \<longleftrightarrow> sint (orig p) < sint (orig q)" "datum_less (DTime v) (DTime w) \<longleftrightarrow> sint v < sint w"
  "datum_less (DTimestamp t) (DTimestamp u) \<longleftrightarrow> Before t u" "datum_less (DTimestampTZ t) (DTimestampTZ u) \<longleftrightarrow> Before t u"
  "datum_less (DTimeTZ y1) (DTimeTZ z1) \<longleftrightarrow> tz_before y1 z1" "datum_less (DUuid x) (DUuid y) \<longleftrightarrow> x < y"
  "datum_less (DOid i) (DOid j) \<longleftrightarrow> i < j" "datum_less (DEnum x) (DEnum y) \<longleftrightarrow> x < y"
  "datum_less (DArray ds) (DArray es) \<longleftrightarrow> datums_less ds es"
  by (simp_all add: datum_less.simps)

lemma key_simps:
  "valKey dir (DBool a) = ikey dir (if a then 1 else 0)" "valKey dir (DInt v) = ikey dir v"
  "valKey dir (DFloat f) = (if dir = Ascending then EncodeFloatAscending [] f else EncodeFloatDescending [] f)"
  "valKey dir (DString x) = bkey dir x" "valKey dir (DName x) = bkey dir x" "valKey dir (DBytes x) = bkey dir x" "valKey dir DVoid = [voidMarker]"
  "valKey dir (DDate p) = ikey dir (UnixEpochDaysWithOrig p)" "valKey dir (DTime v) = ikey dir v" "valKey dir (DTimestamp t) = tkey dir t"
  "valKey dir (DTimestampTZ t) = tkey dir t"
  "valKey dir (DTimeTZ z) = (if dir = Ascending then EncodeTimeTZAscending [] z else EncodeTimeTZDescending [] z)"
  "valKey dir (DUuid x) = bkey dir x" "valKey dir (DOid i) = ikey dir (ucast i)" "valKey dir (DEnum x) = bkey dir x"
  by (simp_all add: valKey.simps)

lemma key_ordered_scalar:
  assumes "dir \<in> directions" "typed t d" "typed t e" "\<And>u. t \<noteq> ArrayFamily u" "dir_less dir d e"
  shows "dless (valKey dir d) (valKey dir e)"
proof -
  note p = prim_ordered [of Ascending, simplified] prim_ordered [of Descending, simplified]
  have dir: "dir = Descending" if "dir \<noteq> Ascending" using assms(1) that by simp
  note o = float_asc.ordered float_desc.ordered timetz_asc.ordered timetz_desc.ordered
  show ?thesis using assms(2-5)
    by (cases t) (auto dest!: typed_shape simp: dir_less_def datum_less_simps key_simps oid_sint word_less_def typed.simps(6,15,16) dir
        intro!: p o split: if_splits)
qed

text \<open>In an array the terminator is below the NULL of arrays, which is below the tag of every value, so that
  arrays compare element by element.\<close>

lemma tagged_first: "tagged b \<Longrightarrow> \<exists>m xs. b = m # xs \<and> 1 < m \<and> m < 0xfe \<and> 0 < m \<and> m < 0xff"
proof -
  assume "tagged b"
  then obtain m xs where b: "b = m # xs" "1 < m" "m < 0xfe" unfolding tagged_def by blast
  have "(0 :: byte) < 1" "(0xfe :: byte) < 0xff" by simp_all
  then show ?thesis using b by (metis less_trans)
qed

abbreviation (input) elem_less :: "Direction \<Rightarrow> datum \<Rightarrow> datum \<Rightarrow> bool" where
  "elem_less dir d e \<equiv> (if dir = Ascending then null_less d e else null_less e d)"

lemma elem_ordered:
  assumes "dir \<in> directions" "d = DNull \<or> tagged (valKey dir d)" "e = DNull \<or> tagged (valKey dir e)" "elem_less dir d e"
    "d \<noteq> DNull \<Longrightarrow> e \<noteq> DNull \<Longrightarrow> dir_less dir d e \<Longrightarrow> dless (valKey dir d) (valKey dir e)"
  shows "dless (elemKey dir d) (elemKey dir e)"
  using assms by (auto simp: null_less_def dir_less_def tagged_def split: if_splits)

lemma datums_ordered:
  assumes "dir \<in> directions"
    "\<And>d. d \<in> set ds \<union> set es \<Longrightarrow> d = DNull \<or> tagged (valKey dir d)"
    "\<And>d e. d \<in> set ds \<Longrightarrow> e \<in> set es \<Longrightarrow> d \<noteq> DNull \<Longrightarrow> e \<noteq> DNull \<Longrightarrow> dir_less dir d e \<Longrightarrow> dless (valKey dir d) (valKey dir e)"
    "if dir = Ascending then datums_less ds es else datums_less es ds"
  shows "dless (concat (map (elemKey dir) ds) @ [terminator dir]) (concat (map (elemKey dir) es) @ [terminator dir])"
  using assms(2-4)
proof (induction ds arbitrary: es)
  case Nil
  then obtain e es' where es: "es = e # es'" "dir = Ascending" using assms(1) by (cases es) (auto split: if_splits)
  then show ?case using Nil.prems(1) [of e] by (auto dest!: tagged_first)
next
  case (Cons d ds)
  show ?case
  proof (cases es)
    case Nil
    then have "dir = Descending" using Cons.prems(3) assms(1) by (auto split: if_splits)
    then show ?thesis using Cons.prems(1) [of d] Nil by (auto dest!: tagged_first)
  next
    case (Cons e es')
    show ?thesis
    proof (cases "elem_less dir d e")
      case True
      have "dless (elemKey dir d) (elemKey dir e)"
        using Cons.prems(1) [of d] Cons.prems(1) [of e] Cons.prems(2) [of d e] Cons True by (intro elem_ordered [OF assms(1)]) simp_all
      from dless_append [OF this] show ?thesis unfolding Cons by (simp only: list.map concat.simps append_assoc)
    next
      case False
      then have eq: "d = e" and "if dir = Ascending then datums_less ds es' else datums_less es' ds"
        using Cons.prems(3) Cons by (auto simp: null_less_def split: if_splits)
      then have "dless (concat (map (elemKey dir) ds) @ [terminator dir]) (concat (map (elemKey dir) es') @ [terminator dir])"
        using Cons.prems(1,2) Cons by (intro Cons.IH) auto
      then show ?thesis unfolding Cons eq by (simp only: list.map concat.simps append_assoc dless_same_prefix)
    qed
  qed
qed

lemma key_ordered:
  assumes "dir \<in> directions"
  shows "typed t d \<Longrightarrow> typed t e \<Longrightarrow> dir_less dir d e \<Longrightarrow> dless (valKey dir d) (valKey dir e)"
proof (induction t arbitrary: d e)
  case (ArrayFamily t)
  from typed_shape(14) [OF ArrayFamily.prems(1)] typed_shape(14) [OF ArrayFamily.prems(2)] obtain ds es where
    d: "d = DArray ds" "list_all (\<lambda>e. e = DNull \<or> typed t e) ds" and
    e: "e = DArray es" "list_all (\<lambda>e. e = DNull \<or> typed t e) es" by blast
  have "if dir = Ascending then datums_less ds es else datums_less es ds"
    using ArrayFamily.prems(3) unfolding d(1) e(1) dir_less_def datum_less_simps .
  moreover have "d = DNull \<or> typed t d" if "d \<in> set ds \<union> set es" for d using d(2) e(2) that by (auto simp: list_all_iff)
  ultimately have "dless (concat (map (elemKey dir) ds) @ [terminator dir]) (concat (map (elemKey dir) es) @ [terminator dir])"
    using tagged_key [of t _ dir] ArrayFamily.IH by (intro datums_ordered [OF assms]) blast+
  then show ?case by (simp add: d(1) e(1) valKey.simps [of _ "DArray _"])
qed (use key_ordered_scalar [OF assms] in blast)+

lemma column_ordered:
  assumes "dir \<in> directions" "d = DNull \<or> typed t d" "e = DNull \<or> typed t e" "column_less dir d e"
  shows "dless (colKey dir d) (colKey dir e)"
proof (cases "d = DNull \<or> e = DNull")
  case True
  then show ?thesis using assms tagged_key [of t d dir] tagged_key [of t e dir]
    by (auto simp: colKey_def column_less_def null_less_def dest!: tagged_first split: if_splits)
next
  case False
  then show ?thesis using assms key_ordered [of dir t d e]
    by (auto simp: colKey_def column_less_def null_less_def dir_less_def split: if_splits)
qed

lemma datum_trichotomy: "typed t d \<Longrightarrow> typed t e \<Longrightarrow> datum_less d e \<or> d = e \<or> datum_less e d"
proof (induction t arbitrary: d e)
  case (ArrayFamily t)
  from typed_shape(14) [OF ArrayFamily.prems(1)] typed_shape(14) [OF ArrayFamily.prems(2)] obtain ds es where
    d: "d = DArray ds" "list_all (\<lambda>e. e = DNull \<or> typed t e) ds" and
    e: "e = DArray es" "list_all (\<lambda>e. e = DNull \<or> typed t e) es" by blast
  from d(2) e(2) have "datums_less ds es \<or> ds = es \<or> datums_less es ds"
  proof (induction ds arbitrary: es)
    case (Cons x xs)
    show ?case
    proof (cases es)
      case es: (Cons y ys)
      then have "datums_less xs ys \<or> xs = ys \<or> datums_less ys xs" using Cons.IH [of ys] Cons.prems by simp
      moreover have "x = DNull \<or> y = DNull \<or> datum_less x y \<or> x = y \<or> datum_less y x"
        using ArrayFamily.IH Cons.prems es by auto
      ultimately show ?thesis unfolding es by auto
    qed simp
  qed (cases es; simp)
  then show ?case by (simp add: d(1) e(1) datum_less_simps)
next
  case DateFamily
  then obtain x y where xy: "d = DDate x" "e = DDate y" "x = MakeCompatibleDateFromDisk (orig x)" "y = MakeCompatibleDateFromDisk (orig y)"
    unfolding typed.simps by (auto split: datum.splits)
  have "x = y" if "orig x = orig y" using xy(3,4) that by metis
  then show ?case unfolding xy(1,2) datum_less_simps using sint_eq_iff [of "orig x" "orig y"] by fastforce
next
  case (StringFamily n)
  then show ?case by (cases n) (auto dest!: typed_shape simp: datum_less_simps)
next
  case TimeTZFamily
  then obtain x y where "d = DTimeTZ x" "e = DTimeTZ y" by (auto dest!: typed_shape)
  then show ?case using timetz_asc.trichotomy [of x y] by (simp add: datum_less_simps)
qed (auto dest!: typed_shape simp: datum_less_simps typed.simps(6,15,16) not_less sint_eq_iff
      dest: float_asc.trichotomy time_asc.trichotomy)

text \<open>A column of any type, in either direction, is an order-preserving codec.\<close>

lemma column_trichotomy:
  "d = DNull \<or> typed t d \<Longrightarrow> e = DNull \<or> typed t e \<Longrightarrow> column_less dir d e \<or> d = e \<or> column_less dir e d"
  using datum_trichotomy [of t d e] by (auto simp: column_less_def null_less_def)

interpretation asc_column: key_codec "colKey Ascending" "\<lambda>b. Decode t b Ascending" "column_less Ascending" "\<lambda>d. d = DNull \<or> typed t d"
  for t using Decode_column column_ordered column_trichotomy by unfold_locales simp_all

interpretation desc_column: key_codec "colKey Descending" "\<lambda>b. Decode t b Descending" "column_less Descending" "\<lambda>d. d = DNull \<or> typed t d"
  for t using Decode_column column_ordered column_trichotomy by unfold_locales simp_all

end
