(* ===== verification/Sql_Index.thy ===== *)
theory Sql_Index
  imports Sql_Keys
begin

text \<open>
  Index keys of tables: \<open>engine/pkg/sql/rowenc/index_encoding.go\<close> with the lazily decoded values of
  \<open>encoded_datum.go\<close> and the column directions of \<open>sql/catalog/catalogkeys\<close>.  A key is the index prefix
  followed by the key columns of the row; column values are found through a map from column IDs to positions
  in the row.  An \<open>EncDatum\<close> here has one of the two key encodings: values in the value encoding do not occur
  in keys.

  The columns of a row have different types and directions.  The locale \<open>row_codec\<close> is the contract of a
  family of column codecs, one for each column, and gives the round trip and the order of whole rows; it is
  interpreted on the columns of theory \<open>Sql_Keys\<close>.
\<close>

subsection \<open>Columns\<close>

datatype IndexColumn_Direction = ASC | DESC | BadDirection int

definition IndexColumnEncodingDirection :: "IndexColumn_Direction \<Rightarrow> Direction result" where
  "IndexColumnEncodingDirection dir =
    (case dir of ASC \<Rightarrow> Inr Ascending | DESC \<Rightarrow> Inr Descending | _ \<Rightarrow> Inl (Errorf ''invalid direction: %s''))"

record KeyColumn =
  ColumnID :: uint32
  ColumnType :: family
  ColumnDirection :: IndexColumn_Direction

type_synonym TableColMap = "uint32 \<rightharpoonup> nat"

definition findColumnValue :: "uint32 \<Rightarrow> TableColMap \<Rightarrow> datum list \<Rightarrow> datum result" where
  "findColumnValue column colMap values =
    (case colMap column of
       Some i \<Rightarrow> if i < length values then Inr (values ! i) else Inl (Panic ''index out of range'')
     | None \<Rightarrow> Inr DNull)"

definition Directions_Get :: "IndexColumn_Direction list \<Rightarrow> nat \<Rightarrow> Direction result" where
  "Directions_Get d i = (if i < length d then IndexColumnEncodingDirection (d ! i) else Inr Ascending)"

subsection \<open>Encoding\<close>

definition MakeIndexKeyPrefix :: "SQLCodec \<Rightarrow> uint32 \<Rightarrow> uint32 \<Rightarrow> bytes" where
  "MakeIndexKeyPrefix codec tableID indexID = IndexPrefix codec tableID indexID"

primrec EncodePartialIndexKeyLoop ::
    "KeyColumn list \<Rightarrow> TableColMap \<Rightarrow> datum list \<Rightarrow> bytes \<Rightarrow> bool \<Rightarrow> (bytes \<times> bool) result" where
  "EncodePartialIndexKeyLoop [] colMap values key containsNull = Inr (key, containsNull)"
| "EncodePartialIndexKeyLoop (keyCol # keyCols) colMap values key containsNull =
    rbind (findColumnValue (ColumnID keyCol) colMap values) (\<lambda>val.
    let containsNull' = (if val = DNull then True else containsNull) in
    rbind (IndexColumnEncodingDirection (ColumnDirection keyCol)) (\<lambda>dir.
    rbind (Encode key val dir) (\<lambda>key'.
      EncodePartialIndexKeyLoop keyCols colMap values key' containsNull')))"

definition EncodePartialIndexKey ::
    "KeyColumn list \<Rightarrow> TableColMap \<Rightarrow> datum list \<Rightarrow> bytes \<Rightarrow> (bytes \<times> bool) result" where
  "EncodePartialIndexKey keyCols colMap values keyPrefix = EncodePartialIndexKeyLoop keyCols colMap values keyPrefix False"

definition EncodePartialIndexSpan ::
    "KeyColumn list \<Rightarrow> TableColMap \<Rightarrow> datum list \<Rightarrow> bytes \<Rightarrow> (Span \<times> bool) result" where
  "EncodePartialIndexSpan keyCols colMap values keyPrefix =
    rbind (EncodePartialIndexKey keyCols colMap values keyPrefix) (\<lambda>(key, containsNull).
      Inr (\<lparr>Key = key, EndKey = PrefixEnd key\<rparr>, containsNull))"

primrec EncodeColumnsLoop ::
    "uint32 list \<Rightarrow> nat \<Rightarrow> IndexColumn_Direction list \<Rightarrow> TableColMap \<Rightarrow> datum list \<Rightarrow> bytes \<Rightarrow> bool \<Rightarrow> (bytes \<times> bool) result" where
  "EncodeColumnsLoop [] colIdx dirs colMap values key containsNull = Inr (key, containsNull)"
| "EncodeColumnsLoop (i # ids) colIdx dirs colMap values key containsNull =
    rbind (findColumnValue i colMap values) (\<lambda>val.
    let containsNull' = (if val = DNull then True else containsNull) in
    rbind (Directions_Get dirs colIdx) (\<lambda>dir.
    rbind (Encode key val dir) (\<lambda>key'.
      EncodeColumnsLoop ids (Suc colIdx) dirs colMap values key' containsNull')))"

definition EncodeColumns ::
    "uint32 list \<Rightarrow> IndexColumn_Direction list \<Rightarrow> TableColMap \<Rightarrow> datum list \<Rightarrow> bytes \<Rightarrow> (bytes \<times> bool) result" where
  "EncodeColumns columnIDs dirs colMap values keyPrefix = EncodeColumnsLoop columnIDs 0 dirs colMap values keyPrefix False"

subsection \<open>Lazily decoded values\<close>

datatype DatumEncoding = ASCENDING_KEY | DESCENDING_KEY

record EncDatum =
  ed_encoding :: DatumEncoding
  ed_encoded :: "bytes option"
  ed_Datum :: "datum option"

definition EncDatumFromEncoded :: "DatumEncoding \<Rightarrow> bytes \<Rightarrow> EncDatum result" where
  "EncDatumFromEncoded enc encoded =
    (if length encoded = 0 then Inl (Panic ''empty encoded value'')
     else Inr \<lparr>ed_encoding = enc, ed_encoded = Some encoded, ed_Datum = None\<rparr>)"

definition EncDatumFromBuffer :: "DatumEncoding \<Rightarrow> bytes \<Rightarrow> (EncDatum \<times> bytes) result" where
  "EncDatumFromBuffer enc buf =
    (if length buf = 0 then Inl (Errorf ''empty encoded value'')
     else rbind (PeekLength buf) (\<lambda>encLen.
       if encLen > int (length buf) then Inl (Panic ''slice bounds out of range'')
       else rbind (EncDatumFromEncoded enc (take (nat encLen) buf)) (\<lambda>ed. Inr (ed, drop (nat encLen) buf))))"

definition EncDatum_IsNull :: "EncDatum \<Rightarrow> bool result" where
  "EncDatum_IsNull ed =
    (case ed_Datum ed of Some d \<Rightarrow> Inr (d = DNull)
     | None \<Rightarrow> (case ed_encoded ed of None \<Rightarrow> Inl (Panic ''IsNull on unset EncDatum'')
        | Some b \<Rightarrow> Inr (snd (DecodeIfNull b))))"

text \<open>\<open>EnsureDecoded\<close> returns the value with its \<open>Datum\<close> set.\<close>

definition EnsureDecoded :: "EncDatum \<Rightarrow> family \<Rightarrow> EncDatum result" where
  "EnsureDecoded ed t =
    (case ed_Datum ed of Some _ \<Rightarrow> Inr ed
     | None \<Rightarrow> (case ed_encoded ed of None \<Rightarrow> Inl (Errorf ''decoding unset EncDatum'')
        | Some b \<Rightarrow>
            rbind (Decode t b (case ed_encoding ed of ASCENDING_KEY \<Rightarrow> Ascending | DESCENDING_KEY \<Rightarrow> Descending)) (\<lambda>(rem, d).
              if length rem \<noteq> 0 then Inl (Errorf ''%d trailing bytes in encoded value: %+v'')
              else Inr (ed\<lparr>ed_Datum := Some d\<rparr>))))"

definition EncDatum_Encode :: "EncDatum \<Rightarrow> family \<Rightarrow> DatumEncoding \<Rightarrow> bytes \<Rightarrow> bytes result" where
  "EncDatum_Encode ed t enc appendTo =
    (if ed_encoded ed \<noteq> None \<and> enc = ed_encoding ed then Inr (appendTo @ the (ed_encoded ed))
     else rbind (EnsureDecoded ed t) (\<lambda>ed1.
       Encode appendTo (the (ed_Datum ed1)) (case enc of ASCENDING_KEY \<Rightarrow> Ascending | DESCENDING_KEY \<Rightarrow> Descending)))"

primrec MakeKeyFromEncDatumsLoop :: "EncDatum list \<Rightarrow> KeyColumn list \<Rightarrow> bytes \<Rightarrow> bool \<Rightarrow> (bytes \<times> bool) result" where
  "MakeKeyFromEncDatumsLoop [] keyCols key containsNull = Inr (key, containsNull)"
| "MakeKeyFromEncDatumsLoop (val # vals) keyCols key containsNull =
    (case keyCols of [] \<Rightarrow> Inl (Panic ''index out of range'')
     | c # cs \<Rightarrow>
       let enc = (if ColumnDirection c = DESC then DESCENDING_KEY else ASCENDING_KEY) in
       rbind (EncDatum_IsNull val) (\<lambda>null.
       rbind (EncDatum_Encode val (ColumnType c) enc key) (\<lambda>key'.
         MakeKeyFromEncDatumsLoop vals cs key' (if null then True else containsNull))))"

definition MakeKeyFromEncDatums :: "EncDatum list \<Rightarrow> KeyColumn list \<Rightarrow> bytes \<Rightarrow> (bytes \<times> bool) result" where
  "MakeKeyFromEncDatums vals keyCols keyPrefix =
    (if length vals > length keyCols then Inl (Errorf ''%d values, %d key cols'')
     else MakeKeyFromEncDatumsLoop vals keyCols keyPrefix False)"

definition MakeSpanFromEncDatums :: "EncDatum list \<Rightarrow> KeyColumn list \<Rightarrow> bytes \<Rightarrow> (Span \<times> bool) result" where
  "MakeSpanFromEncDatums vals keyCols keyPrefix =
    rbind (MakeKeyFromEncDatums vals keyCols keyPrefix) (\<lambda>(startKey, containsNull).
      Inr (\<lparr>Key = startKey, EndKey = PrefixEnd startKey\<rparr>, containsNull))"

subsection \<open>Decoding\<close>

definition DecodePartialTableIDIndexID :: "bytes \<Rightarrow> (bytes \<times> uint32 \<times> uint32) result" where
  "DecodePartialTableIDIndexID key = DecodeTableIDIndexID key"

definition DecodeIndexKeyPrefix :: "SQLCodec \<Rightarrow> uint32 \<Rightarrow> bytes \<Rightarrow> (uint32 \<times> bytes) result" where
  "DecodeIndexKeyPrefix codec expectedTableID key =
    rbind (codecStripTenantPrefix codec key) (\<lambda>key1.
    rbind (DecodePartialTableIDIndexID key1) (\<lambda>(key2, tableID, indexID).
      if tableID \<noteq> expectedTableID then Inl (Errorf ''unexpected table ID %d, expected %d instead'')
      else Inr (indexID, key2)))"

text \<open>The loop fills \<open>vals\<close> from the front while bytes are left.  \<open>dirs\<close> is \<open>None\<close> for the nil slice; \<open>n\<close>
  columns are left and \<open>done1\<close> holds the values set so far.\<close>

primrec DecodeKeyValsLoop ::
    "nat \<Rightarrow> IndexColumn_Direction list option \<Rightarrow> bytes \<Rightarrow> EncDatum list \<Rightarrow> (bytes \<times> EncDatum list) result" where
  "DecodeKeyValsLoop 0 dirs key done1 = Inr (key, done1)"
| "DecodeKeyValsLoop (Suc n) dirs key done1 =
    (if length key = 0 then Inr (key, done1)
     else
       let enc = (case dirs of Some ds \<Rightarrow> if ds ! length done1 = DESC then DESCENDING_KEY else ASCENDING_KEY
         | None \<Rightarrow> ASCENDING_KEY)
       in rbind (EncDatumFromBuffer enc key) (\<lambda>(ed, key'). DecodeKeyValsLoop n dirs key' (done1 @ [ed])))"

definition DecodeKeyVals ::
    "nat \<Rightarrow> IndexColumn_Direction list option \<Rightarrow> bytes \<Rightarrow> (bytes \<times> EncDatum list) result" where
  "DecodeKeyVals n dirs key =
    (case dirs of Some ds \<Rightarrow>
       if length ds \<noteq> n then Inl (Errorf ''encoding directions doesn't parallel vals: %d vs %d.'')
       else DecodeKeyValsLoop n dirs key []
     | None \<Rightarrow> DecodeKeyValsLoop n dirs key [])"

primrec DecodeKeyValsUsingSpec :: "nat \<Rightarrow> KeyColumn list \<Rightarrow> bytes \<Rightarrow> (bytes \<times> EncDatum list \<times> bool) result" where
  "DecodeKeyValsUsingSpec 0 keyCols key = Inr (key, [], False)"
| "DecodeKeyValsUsingSpec (Suc n) keyCols key =
    (case keyCols of [] \<Rightarrow> Inl (Panic ''index out of range'')
     | c # cs \<Rightarrow>
       rbind (EncDatumFromBuffer (if ColumnDirection c = DESC then DESCENDING_KEY else ASCENDING_KEY) key) (\<lambda>(ed, key').
       rbind (EncDatum_IsNull ed) (\<lambda>null.
       rbind (DecodeKeyValsUsingSpec n cs key') (\<lambda>(rem, eds, found). Inr (rem, ed # eds, null \<or> found)))))"

definition DecodeIndexKey :: "SQLCodec \<Rightarrow> nat \<Rightarrow> IndexColumn_Direction list option \<Rightarrow> bytes \<Rightarrow> EncDatum list result" where
  "DecodeIndexKey codec n colDirs key =
    rbind (codecStripTenantPrefix codec key) (\<lambda>key1.
    rbind (DecodePartialTableIDIndexID key1) (\<lambda>(key2, _, _).
    rbind (DecodeKeyVals n colDirs key2) (\<lambda>(_, eds). Inr eds)))"

subsection \<open>Rows of columns\<close>

text \<open>A codec for each column: what the encoding of values promises to the encoding of rows.\<close>

locale row_codec =
  fixes enc :: "'c \<Rightarrow> 'a \<Rightarrow> bytes" and dec :: "'c \<Rightarrow> bytes \<Rightarrow> (bytes \<times> 'a) result"
    and lt :: "'c \<Rightarrow> 'a \<Rightarrow> 'a \<Rightarrow> bool" and ok :: "'c \<Rightarrow> 'a \<Rightarrow> bool"
  assumes column: "key_codec (enc c) (dec c) (lt c) (ok c)"
begin

definition rowEnc :: "'c list \<Rightarrow> 'a list \<Rightarrow> bytes" where
  "rowEnc cs vs = concat (map2 enc cs vs)"

definition rowOk :: "'c list \<Rightarrow> 'a list \<Rightarrow> bool" where
  "rowOk cs vs = list_all2 ok cs vs"

primrec rowDec :: "'c list \<Rightarrow> bytes \<Rightarrow> (bytes \<times> 'a list) result" where
  "rowDec [] b = Inr (b, [])"
| "rowDec (c # cs) b = rbind (dec c b) (\<lambda>(b1, v). rbind (rowDec cs b1) (\<lambda>(b2, vs). Inr (b2, v # vs)))"

primrec rowLt :: "'c list \<Rightarrow> 'a list \<Rightarrow> 'a list \<Rightarrow> bool" where
  "rowLt [] vs ws = False"
| "rowLt (c # cs) vs ws =
    (case vs of [] \<Rightarrow> False | v # vs1 \<Rightarrow> case ws of [] \<Rightarrow> False | w # ws1 \<Rightarrow> lt c v w \<or> v = w \<and> rowLt cs vs1 ws1)"

lemma rowEnc_simps: "rowEnc [] vs = []" "rowEnc (c # cs) (v # vs) = enc c v @ rowEnc cs vs"
  by (simp_all add: rowEnc_def)

lemma rowOk_Cons: "rowOk (c # cs) vs \<longleftrightarrow> (\<exists>v us. vs = v # us \<and> ok c v \<and> rowOk cs us)"
  by (cases vs) (auto simp: rowOk_def)

lemma rowDec_enc: "rowOk cs vs \<Longrightarrow> rowDec cs (rowEnc cs vs @ rest) = Inr (rest, vs)"
proof (induction cs arbitrary: vs)
  case (Cons c cs)
  then obtain v us where "vs = v # us" "ok c v" "rowOk cs us" by (auto simp: rowOk_Cons)
  then show ?case using Cons.IH [of us] key_codec.roundtrip [OF column] by (simp add: rowEnc_simps)
qed (simp add: rowOk_def rowEnc_simps)

lemma row_less_append_iff:
  "rowOk cs vs \<Longrightarrow> rowOk cs ws \<Longrightarrow> rowEnc cs vs @ r < rowEnc cs ws @ s \<longleftrightarrow> rowLt cs vs ws \<or> vs = ws \<and> r < s"
proof (induction cs arbitrary: vs ws)
  case (Cons c cs)
  from Cons.prems obtain v us w xs where v: "vs = v # us" "ok c v" "rowOk cs us" and w: "ws = w # xs" "ok c w" "rowOk cs xs"
    unfolding rowOk_Cons by blast
  have "rowEnc (c # cs) vs @ r < rowEnc (c # cs) ws @ s \<longleftrightarrow> lt c v w \<or> v = w \<and> rowEnc cs us @ r < rowEnc cs xs @ s"
    unfolding v(1) w(1) rowEnc_simps append_assoc by (rule key_codec.less_append_iff [OF column v(2) w(2)])
  also have "\<dots> \<longleftrightarrow> rowLt (c # cs) vs ws \<or> vs = ws \<and> r < s"
    unfolding Cons.IH [OF v(3) w(3)] v(1) w(1) by auto
  finally show ?case .
qed (simp add: rowOk_def rowEnc_simps)

end

definition colDir :: "KeyColumn \<Rightarrow> Direction" where
  "colDir c = (if ColumnDirection c = DESC then Descending else Ascending)"

definition colEnc :: "KeyColumn \<Rightarrow> DatumEncoding" where
  "colEnc c = (if ColumnDirection c = DESC then DESCENDING_KEY else ASCENDING_KEY)"

lemma colDir_directions: "colDir c \<in> directions"
  by (simp add: colDir_def)

interpretation rows: row_codec "\<lambda>c. colKey (colDir c)" "\<lambda>c b. Decode (ColumnType c) b (colDir c)"
    "\<lambda>c. column_less (colDir c)" "\<lambda>c d. d = DNull \<or> typed (ColumnType c) d"
proof (intro row_codec.intro key_codec.intro)
  show "Decode (ColumnType c) (colKey (colDir c) v @ rest) (colDir c) = Inr (rest, v)"
    if "v = DNull \<or> typed (ColumnType c) v" for c v rest
    using that by (rule Decode_column [OF colDir_directions])
  show "dless (colKey (colDir c) v) (colKey (colDir c) w)"
    if "v = DNull \<or> typed (ColumnType c) v" "w = DNull \<or> typed (ColumnType c) w" "column_less (colDir c) v w" for c v w
    using that by (rule column_ordered [OF colDir_directions])
  show "column_less (colDir c) v w \<or> v = w \<or> column_less (colDir c) w v"
    if "v = DNull \<or> typed (ColumnType c) v" "w = DNull \<or> typed (ColumnType c) w" for c v w
    using that by (rule column_trichotomy)
qed

text \<open>The rows of an index, their key and their order, in closed form.\<close>

definition typed_row :: "KeyColumn list \<Rightarrow> datum list \<Rightarrow> bool" where
  "typed_row cols vs = list_all2 (\<lambda>c d. d = DNull \<or> typed (ColumnType c) d) cols vs"

definition rowKey :: "KeyColumn list \<Rightarrow> datum list \<Rightarrow> bytes" where
  "rowKey cols vs = concat (map2 (\<lambda>c. colKey (colDir c)) cols vs)"

primrec row_less :: "KeyColumn list \<Rightarrow> datum list \<Rightarrow> datum list \<Rightarrow> bool" where
  "row_less [] vs ws = False"
| "row_less (c # cs) vs ws =
    (case vs of [] \<Rightarrow> False | v # vs1 \<Rightarrow> case ws of [] \<Rightarrow> False
     | w # ws1 \<Rightarrow> column_less (colDir c) v w \<or> v = w \<and> row_less cs vs1 ws1)"

lemma rows_eq: "rows.rowOk = typed_row" "rows.rowEnc = rowKey" "rows.rowLt = row_less"
proof -
  show "rows.rowOk = typed_row" "rows.rowEnc = rowKey"
    by (simp_all add: fun_eq_iff rows.rowOk_def typed_row_def rows.rowEnc_def rowKey_def)
  have "rows.rowLt cs vs ws = row_less cs vs ws" for cs vs ws
    by (induction cs arbitrary: vs ws) (simp_all split: list.splits)
  then show "rows.rowLt = row_less" by (simp add: fun_eq_iff)
qed

lemmas rowKey_less = rows.row_less_append_iff [unfolded rows_eq]
lemmas rowKey_simps = rows.rowEnc_simps [unfolded rows_eq]
lemmas typed_row_Cons = rows.rowOk_Cons [unfolded rows_eq]

subsection \<open>Cutting a key into columns\<close>

lemma getArrayLengthLoop_elems:
  assumes "dir \<in> directions"
    "\<And>e r. e \<in> set ds \<Longrightarrow> e \<noteq> DNull \<Longrightarrow> tagged (valKey dir e) \<and> PeekLength (valKey dir e @ r) = Inr (int (length (valKey dir e)))"
    "length ds < n"
  shows "getArrayLengthLoop n PeekLength (concat (map (elemKey dir) ds) @ terminator dir # rest) dir res =
    Inr (res + int (length (concat (map (elemKey dir) ds))) + 1)"
  using assms(2,3)
proof (induction n arbitrary: ds res)
  case (Suc n)
  show ?case
  proof (cases ds)
    case Nil
    then show ?thesis using assms(1) by (auto simp: getArrayLengthLoop.simps IsArrayKeyDone_def)
  next
    case (Cons e es)
    let ?r = "concat (map (elemKey dir) es) @ terminator dir # rest"
    have ih: "getArrayLengthLoop n PeekLength ?r dir k = Inr (k + int (length (concat (map (elemKey dir) es))) + 1)" for k
      using Suc.IH [of es k] Suc.prems Cons by simp
    have "\<exists>m xs. elemKey dir e = m # xs \<and> m \<noteq> terminator dir"
    proof (cases "e = DNull")
      case False
      then have "tagged (valKey dir e)" using Suc.prems(1) Cons by simp
      then show ?thesis using False tagged_first [of "valKey dir e"] by auto
    qed simp
    then obtain m xs where m: "elemKey dir e = m # xs" "m \<noteq> terminator dir" by blast
    have peek: "PeekLength (m # xs @ ?r) = Inr (1 + int (length xs))"
    proof (cases "e = DNull")
      case True
      then show ?thesis using m assms(1) by (auto simp: PeekLength_single)
    next
      case False
      then show ?thesis using Suc.prems(1) [of e ?r] Cons m by simp
    qed
    have don: "IsArrayKeyDone (m # xs @ ?r) dir = Inr False" using m(2) assms(1) by (auto simp: IsArrayKeyDone_def)
    have "getArrayLengthLoop (Suc n) PeekLength (m # xs @ ?r) dir res = getArrayLengthLoop n PeekLength ?r dir (res + (1 + int (length xs)))"
      unfolding getArrayLengthLoop.simps don peek rbind_simps by (simp add: nat_add_distrib)
    then show ?thesis unfolding Cons using m(1) ih by simp
  qed
qed simp

lemma PeekLength_valKey:
  assumes "dir \<in> directions"
  shows "typed t d \<Longrightarrow> PeekLength (valKey dir d @ rest) = Inr (int (length (valKey dir d)))"
proof (induction t arbitrary: d rest)
  case (ArrayFamily t)
  from typed_shape(14) [OF ArrayFamily.prems] obtain ds where
    d: "d = DArray ds" "list_all (\<lambda>e. e = DNull \<or> typed t e) ds" by blast
  have el: "tagged (valKey dir e) \<and> PeekLength (valKey dir e @ r) = Inr (int (length (valKey dir e)))"
    if "e \<in> set ds" "e \<noteq> DNull" for e r
    using that d(2) tagged_key ArrayFamily.IH by (auto simp: list_all_iff)
  let ?b = "concat (map (elemKey dir) ds) @ terminator dir # rest"
  have "length ds < Suc (length ?b)" using length_elems [of ds dir] el by simp
  then have "getArrayLength PeekLength ?b dir = Inr (int (length (concat (map (elemKey dir) ds))) + 1)"
    unfolding getArrayLength_def using getArrayLengthLoop_elems [OF assms el] by simp
  from PeekLength_array [OF this refl] show ?case using assms by (auto simp: d(1) valKey.simps [of _ "DArray _"] cong: if_cong map_cong)
qed (use assms in \<open>auto dest!: typed_shape simp: key_simps typed.simps(6,15,16) ikey_def bkey_def tkey_def EncodeVarintDescending_def
      PeekLength_varint PeekLength_bytes PeekLength_times PeekLength_floats PeekLength_single split: if_splits\<close>)

lemma PeekLength_column:
  assumes "dir \<in> directions" "d = DNull \<or> typed t d"
  shows "PeekLength (colKey dir d @ rest) = Inr (int (length (colKey dir d)))"
  using assms PeekLength_valKey [OF assms(1), of t d rest] by (cases "d = DNull") (auto simp: colKey_def PeekLength_single)

lemma Skip_column: "dir \<in> directions \<Longrightarrow> d = DNull \<or> typed t d \<Longrightarrow> Skip (colKey dir d @ rest) = Inr rest"
  using PeekLength_column [of dir d t rest] by (simp add: Skip_def)

text \<open>C21: the length of an encoded column.  For NULL and for every value of the modelled types, arrays of arrays
  included, in both directions, \<open>PeekLength\<close> finds at the front of a buffer exactly the number of bytes \<open>Encode\<close>
  appended for the value, whatever bytes follow, and \<open>Skip\<close> returns what follows.\<close>

theorem PeekLength_exact:
  assumes "dir \<in> directions" "d = DNull \<or> typed t d"
  shows "\<exists>enc. Encode b d dir = Inr (b @ enc) \<and> PeekLength (enc @ rest) = Inr (int (length enc)) \<and> Skip (enc @ rest) = Inr rest"
  using Encode_column [OF assms] PeekLength_column [OF assms] Skip_column [OF assms] by blast

theorem PeekLength_exact_witness:
  "\<exists>enc. Encode [] (DArray [DString [97, 0], DNull]) Descending = Inr enc \<and>
    PeekLength (enc @ [1, 2]) = Inr (int (length enc)) \<and> Skip (enc @ [1, 2]) = Inr [1, 2]"
  using PeekLength_exact [of Descending "DArray [DString [97, 0], DNull]" "ArrayFamily (StringFamily False)" "[]" "[1, 2]"]
  by (simp add: typed.simps homogeneous_def isArray_def)

lemma EncDatumFromBuffer_column:
  assumes "dir \<in> directions" "d = DNull \<or> typed t d"
  shows "EncDatumFromBuffer e (colKey dir d @ rest) =
    Inr (\<lparr>ed_encoding = e, ed_encoded = Some (colKey dir d), ed_Datum = None\<rparr>, rest)"
proof -
  have "colKey dir d \<noteq> []" using PeekLength_ge [OF PeekLength_column [OF assms]] by auto
  then show ?thesis using PeekLength_column [OF assms] by (simp add: EncDatumFromBuffer_def EncDatumFromEncoded_def)
qed

subsection \<open>Index keys\<close>

text \<open>The values of the key columns of a row, and that they can be looked up and have the types and directions of
  the index.\<close>

definition rowValues :: "KeyColumn list \<Rightarrow> TableColMap \<Rightarrow> datum list \<Rightarrow> datum list" where
  "rowValues cols colMap values = map (\<lambda>c. case colMap (ColumnID c) of Some i \<Rightarrow> values ! i | None \<Rightarrow> DNull) cols"

definition index_row :: "KeyColumn list \<Rightarrow> TableColMap \<Rightarrow> datum list \<Rightarrow> bool" where
  "index_row cols colMap values \<longleftrightarrow>
    list_all (\<lambda>c. (ColumnDirection c = ASC \<or> ColumnDirection c = DESC) \<and>
      (case colMap (ColumnID c) of Some i \<Rightarrow> i < length values | None \<Rightarrow> True)) cols \<and>
    typed_row cols (rowValues cols colMap values)"

lemma index_row_Cons:
  assumes "index_row (c # cols) colMap values"
  shows "\<exists>v. findColumnValue (ColumnID c) colMap values = Inr v \<and> rowValues (c # cols) colMap values = v # rowValues cols colMap values \<and>
    (v = DNull \<or> typed (ColumnType c) v) \<and> IndexColumnEncodingDirection (ColumnDirection c) = Inr (colDir c) \<and>
    index_row cols colMap values"
  using assms
  by (auto simp: index_row_def rowValues_def typed_row_def findColumnValue_def IndexColumnEncodingDirection_def colDir_def
      split: option.splits)

lemma EncodePartialIndexKeyLoop_row:
  "index_row cols colMap values \<Longrightarrow> EncodePartialIndexKeyLoop cols colMap values key n =
    Inr (key @ rowKey cols (rowValues cols colMap values), n \<or> DNull \<in> set (rowValues cols colMap values))"
proof (induction cols arbitrary: key n)
  case Nil
  then show ?case by (simp add: rowValues_def rowKey_def)
next
  case (Cons c cols)
  then obtain v where v: "findColumnValue (ColumnID c) colMap values = Inr v"
    "rowValues (c # cols) colMap values = v # rowValues cols colMap values" "v = DNull \<or> typed (ColumnType c) v"
    "IndexColumnEncodingDirection (ColumnDirection c) = Inr (colDir c)" "index_row cols colMap values"
    using index_row_Cons by blast
  show ?case unfolding v(2) using Cons.IH [OF v(5)] Encode_column [OF colDir_directions v(3)]
    by (auto simp: v(1,4) rowKey_simps Let_def)
qed

lemma EncodePartialIndexKey_row:
  "index_row cols colMap values \<Longrightarrow> EncodePartialIndexKey cols colMap values p =
    Inr (p @ rowKey cols (rowValues cols colMap values), DNull \<in> set (rowValues cols colMap values))"
  unfolding EncodePartialIndexKey_def by (subst EncodePartialIndexKeyLoop_row) simp_all

lemma EncodeColumnsLoop_eq:
  "EncodeColumnsLoop (map ColumnID cols) (length pre) (map ColumnDirection (pre @ cols)) colMap values key n =
    EncodePartialIndexKeyLoop cols colMap values key n"
proof (induction cols arbitrary: pre key n)
  case (Cons c cols)
  have "EncodeColumnsLoop (map ColumnID cols) (Suc (length pre)) (map ColumnDirection pre @ ColumnDirection c # map ColumnDirection cols)
      colMap values k m = EncodePartialIndexKeyLoop cols colMap values k m" for k m
    using Cons.IH [of "pre @ [c]" k m] by simp
  then show ?case by (simp add: Directions_Get_def nth_append)
qed simp

text \<open>The values \<open>DecodeKeyVals\<close> cuts off are the columns, still encoded.\<close>

definition encoded :: "KeyColumn \<Rightarrow> datum \<Rightarrow> EncDatum" where
  "encoded c v = \<lparr>ed_encoding = colEnc c, ed_encoded = Some (colKey (colDir c) v), ed_Datum = None\<rparr>"

lemma colKey_nonempty: "dir \<in> directions \<Longrightarrow> d = DNull \<or> typed t d \<Longrightarrow> colKey dir d \<noteq> []"
  using PeekLength_ge [OF PeekLength_column] by fastforce

lemma DecodeKeyValsLoop_row:
  assumes "typed_row cols vs" "length pre = length done1"
  shows "DecodeKeyValsLoop (length cols) (Some (map ColumnDirection (pre @ cols))) (rowKey cols vs @ rest) done1 =
    Inr (rest, done1 @ map2 encoded cols vs)"
  using assms
proof (induction cols arbitrary: vs pre done1)
  case Nil
  then show ?case by (simp add: typed_row_def rowKey_simps)
next
  case (Cons c cols)
  then obtain v us where v: "vs = v # us" "v = DNull \<or> typed (ColumnType c) v" "typed_row cols us"
    unfolding typed_row_Cons by blast
  have e: "(if map ColumnDirection (pre @ c # cols) ! length done1 = DESC then DESCENDING_KEY else ASCENDING_KEY) = colEnc c"
    using Cons.prems(2) by (simp add: colEnc_def nth_append)
  have ih: "DecodeKeyValsLoop (length cols) (Some (map ColumnDirection (pre @ c # cols))) (rowKey cols us @ rest) (done1 @ [encoded c v]) =
      Inr (rest, (done1 @ [encoded c v]) @ map2 encoded cols us)"
    using Cons.IH [OF v(3), of "pre @ [c]" "done1 @ [encoded c v]"] Cons.prems(2) by simp
  have "EncDatumFromBuffer (colEnc c) (colKey (colDir c) v @ rowKey cols us @ rest) = Inr (encoded c v, rowKey cols us @ rest)"
    using EncDatumFromBuffer_column [OF colDir_directions v(2)] by (simp add: encoded_def)
  then show ?case using ih e colKey_nonempty [OF colDir_directions v(2)]
    by (simp add: v(1) rowKey_simps Let_def del: map_append nth_append)
qed

lemma EnsureDecoded_encoded:
  "v = DNull \<or> typed (ColumnType c) v \<Longrightarrow> EnsureDecoded (encoded c v) (ColumnType c) = Inr ((encoded c v)\<lparr>ed_Datum := Some v\<rparr>)"
  using Decode_column [OF colDir_directions, of v "ColumnType c" c "[]"]
  by (simp add: EnsureDecoded_def encoded_def colEnc_def colDir_def split: if_splits)

lemma MakeKeyFromEncDatumsLoop_row:
  "typed_row cols vs \<Longrightarrow> MakeKeyFromEncDatumsLoop (map2 encoded cols vs) cols key n = Inr (key @ rowKey cols vs, n \<or> DNull \<in> set vs)"
proof (induction cols arbitrary: vs key n)
  case Nil
  then show ?case by (simp add: typed_row_def rowKey_simps)
next
  case (Cons c cols)
  then obtain v us where v: "vs = v # us" "v = DNull \<or> typed (ColumnType c) v" "typed_row cols us"
    unfolding typed_row_Cons by blast
  have "EncDatum_IsNull (encoded c v) = Inr (v = DNull)"
  proof (cases "v = DNull")
    case True
    then show ?thesis using DecodeIfNull_null [OF colDir_directions, of c "[]"] by (simp add: EncDatum_IsNull_def encoded_def)
  next
    case False
    then have "tagged (colKey (colDir c) v)" using v(2) tagged_key by (auto simp: colKey_def)
    then show ?thesis using False DecodeIfNull_tagged [of "colKey (colDir c) v" "[]"] by (simp add: EncDatum_IsNull_def encoded_def)
  qed
  moreover have "EncDatum_Encode (encoded c v) t (colEnc c) key = Inr (key @ colKey (colDir c) v)" for t
    by (simp add: EncDatum_Encode_def encoded_def)
  ultimately show ?case using Cons.IH [OF v(3)] by (simp add: v(1) rowKey_simps Let_def flip: colEnc_def)
qed

lemma rowKey_cut:
  assumes "typed_row cols vs" "typed_row cols us" "rowKey cols vs @ a = rowKey cols us @ b"
  shows "vs = us \<and> a = b"
  using rows.rowDec_enc [unfolded rows_eq, OF assms(1), of a] rows.rowDec_enc [unfolded rows_eq, OF assms(2), of b]
  unfolding assms(3) by simp

lemma rowKey_prefix_iff:
  assumes "typed_row cols vs" "typed_row cols us"
  shows "prefix (rowKey cols vs) (rowKey cols us @ b) \<longleftrightarrow> vs = us"
proof
  assume "prefix (rowKey cols vs) (rowKey cols us @ b)"
  then obtain z where "rowKey cols us @ b = rowKey cols vs @ z" by (rule prefixE)
  then show "vs = us" using rowKey_cut [OF assms(2,1)] by blast
qed simp

lemma index_prefix_decode:
  "codecStripTenantPrefix codec (MakeIndexKeyPrefix codec tbl idx @ r) =
    Inr (EncodeUvarintAscending [] (ucast tbl) @ EncodeUvarintAscending [] (ucast idx) @ r)"
  "DecodePartialTableIDIndexID (EncodeUvarintAscending [] (ucast tbl) @ EncodeUvarintAscending [] (ucast idx) @ r) = Inr (r, tbl, idx)"
  using uvarint_asc.roundtrip [of "ucast tbl" "EncodeUvarintAscending [] (ucast idx) @ r"] uvarint_asc.roundtrip [of "ucast idx" r]
  by (simp_all add: codecStripTenantPrefix_def MakeIndexKeyPrefix_def IndexPrefix_closed DecodePartialTableIDIndexID_def
      DecodeTableIDIndexID_def)

lemma DecodeIndexKey_row:
  assumes "typed_row cols vs"
  shows "DecodeIndexKey codec (length cols) (Some (map ColumnDirection cols)) (MakeIndexKeyPrefix codec tbl idx @ rowKey cols vs @ rest) =
    Inr (map2 encoded cols vs)"
  using DecodeKeyValsLoop_row [OF assms, of "[]" "[]" rest]
  by (simp add: DecodeIndexKey_def index_prefix_decode DecodeKeyVals_def)

lemma index_prefix_not_max:
  "MakeIndexKeyPrefix codec tbl idx @ r \<noteq> replicate (length (MakeIndexKeyPrefix codec tbl idx @ r)) 255"
proof -
  obtain x xs where x: "EncodeUvarintAscending [] (ucast tbl) = x # xs" "unat x \<le> 253" using uvarint_tag_range by blast
  then have "x \<in> set (MakeIndexKeyPrefix codec tbl idx @ r)" "x \<noteq> 255"
    by (auto simp: MakeIndexKeyPrefix_def IndexPrefix_closed)
  then show ?thesis by (metis in_set_replicate)
qed

lemma ContainsKey_PrefixEnd:
  "b \<noteq> replicate (length b) 255 \<Longrightarrow> ContainsKey \<lparr>Key = b, EndKey = PrefixEnd b\<rparr> k \<longleftrightarrow> prefix b k"
  using prefix_iff_PrefixEnd [of b k] by (simp add: ContainsKey_def)

lemma decode_row:
  "typed_row cols vs \<Longrightarrow> list_all2 (\<lambda>(ed, c) v. \<exists>ed'. EnsureDecoded ed (ColumnType c) = Inr ed' \<and> ed_Datum ed' = Some v)
    (zip (map2 encoded cols vs) cols) vs"
proof (induction cols arbitrary: vs)
  case (Cons c cols)
  then obtain v us where v: "vs = v # us" "v = DNull \<or> typed (ColumnType c) v" "typed_row cols us"
    unfolding typed_row_Cons by blast
  then show ?case using Cons.IH EnsureDecoded_encoded by simp
qed (simp add: typed_row_def)

subsection \<open>Properties of index keys\<close>

text \<open>C8: the key of an index row, built from the index prefix and the values of its key columns, gives back the
  index, and its columns decode one by one to the values of the row, NULLs included, in both directions and
  whatever follows the columns; the key rebuilt from the undecoded columns is the same, and
  \<open>EncodeColumns\<close> writes it too.\<close>

theorem index_key_roundtrip:
  assumes "index_row cols colMap values"
  shows "\<exists>key eds. EncodePartialIndexKey cols colMap values (MakeIndexKeyPrefix codec tbl idx) =
      Inr (key, DNull \<in> set (rowValues cols colMap values)) \<and>
    EncodeColumns (map ColumnID cols) (map ColumnDirection cols) colMap values (MakeIndexKeyPrefix codec tbl idx) =
      Inr (key, DNull \<in> set (rowValues cols colMap values)) \<and>
    (\<exists>r. DecodeIndexKeyPrefix codec tbl (key @ rest) = Inr (idx, r)) \<and>
    DecodeIndexKey codec (length cols) (Some (map ColumnDirection cols)) (key @ rest) = Inr eds \<and>
    list_all2 (\<lambda>(ed, c) v. \<exists>ed'. EnsureDecoded ed (ColumnType c) = Inr ed' \<and> ed_Datum ed' = Some v)
      (zip eds cols) (rowValues cols colMap values) \<and>
    MakeKeyFromEncDatums eds cols (MakeIndexKeyPrefix codec tbl idx) =
      Inr (key, DNull \<in> set (rowValues cols colMap values))"
proof -
  let ?p = "MakeIndexKeyPrefix codec tbl idx" and ?vs = "rowValues cols colMap values"
  have t: "typed_row cols ?vs" using assms by (simp add: index_row_def)
  let ?key = "?p @ rowKey cols ?vs" and ?eds = "map2 encoded cols ?vs"
  have e: "EncodePartialIndexKey cols colMap values ?p = Inr (?key, DNull \<in> set ?vs)"
    by (rule EncodePartialIndexKey_row [OF assms])
  moreover have "EncodeColumns (map ColumnID cols) (map ColumnDirection cols) colMap values ?p = Inr (?key, DNull \<in> set ?vs)"
    using e EncodeColumnsLoop_eq [of cols "[]"] by (simp add: EncodeColumns_def EncodePartialIndexKey_def)
  moreover have "DecodeIndexKeyPrefix codec tbl (?key @ rest) = Inr (idx, rowKey cols ?vs @ rest)"
    by (simp add: DecodeIndexKeyPrefix_def index_prefix_decode)
  moreover have "DecodeIndexKey codec (length cols) (Some (map ColumnDirection cols)) (?key @ rest) = Inr ?eds"
    using DecodeIndexKey_row [OF t] by simp
  moreover have "MakeKeyFromEncDatums ?eds cols ?p = Inr (?key, DNull \<in> set ?vs)"
    using MakeKeyFromEncDatumsLoop_row [OF t, of ?p False] by (simp add: MakeKeyFromEncDatums_def)
  ultimately show ?thesis using decode_row [OF t] by blast
qed

text \<open>C9: keys of rows of one index sort as the rows: column by column in the direction of each column, NULL
  first in ascending and last in descending columns, arrays element by element; and the span of some values for the
  first columns holds exactly the keys of the rows with these values, whatever the other columns are.\<close>

theorem index_key_order:
  assumes "index_row cols colMap values" "index_row (cols @ rest_cols) colMap' values'"
  shows "\<exists>key key' span. EncodePartialIndexKey cols colMap values (MakeIndexKeyPrefix codec tbl idx) =
      Inr (key, DNull \<in> set (rowValues cols colMap values)) \<and>
    EncodePartialIndexKey (cols @ rest_cols) colMap' values' (MakeIndexKeyPrefix codec tbl idx) =
      Inr (key', DNull \<in> set (rowValues (cols @ rest_cols) colMap' values')) \<and>
    EncodePartialIndexSpan cols colMap values (MakeIndexKeyPrefix codec tbl idx) =
      Inr (span, DNull \<in> set (rowValues cols colMap values)) \<and>
    (key @ r < key' @ s \<longleftrightarrow>
      row_less cols (rowValues cols colMap values) (rowValues cols colMap' values') \<or>
      rowValues cols colMap values = rowValues cols colMap' values' \<and> r < rowKey rest_cols (rowValues rest_cols colMap' values') @ s) \<and>
    (ContainsKey span (key' @ s) \<longleftrightarrow> rowValues cols colMap values = rowValues cols colMap' values')"
proof -
  let ?p = "MakeIndexKeyPrefix codec tbl idx"
  let ?vs = "rowValues cols colMap values" and ?us = "rowValues cols colMap' values'" and ?xs = "rowValues rest_cols colMap' values'"
  have split: "rowValues (cols @ rest_cols) colMap' values' = ?us @ ?xs" "length ?us = length cols" by (simp_all add: rowValues_def)
  have t: "typed_row cols ?vs" "typed_row (cols @ rest_cols) (?us @ ?xs)" using assms split(1) by (simp_all add: index_row_def)
  then have tu: "typed_row cols ?us" using split(2) by (simp add: typed_row_def list_all2_append)
  have k: "rowKey (cols @ rest_cols) (?us @ ?xs) = rowKey cols ?us @ rowKey rest_cols ?xs" using split(2) by (simp add: rowKey_def)
  let ?key = "?p @ rowKey cols ?vs" and ?key' = "?p @ rowKey cols ?us @ rowKey rest_cols ?xs"
  have e: "EncodePartialIndexKey cols colMap values ?p = Inr (?key, DNull \<in> set ?vs)"
    by (rule EncodePartialIndexKey_row [OF assms(1)])
  have e': "EncodePartialIndexKey (cols @ rest_cols) colMap' values' ?p = Inr (?key', DNull \<in> set (rowValues (cols @ rest_cols) colMap' values'))"
    using EncodePartialIndexKey_row [OF assms(2), of ?p] by (simp only: split(1) k)
  have lt: "?key @ r < ?key' @ s \<longleftrightarrow> row_less cols ?vs ?us \<or> ?vs = ?us \<and> r < rowKey rest_cols ?xs @ s"
    using rowKey_less [OF t(1) tu, of r "rowKey rest_cols ?xs @ s"] by simp
  have "prefix (rowKey cols ?vs) (rowKey cols ?us @ rowKey rest_cols ?xs @ s) \<longleftrightarrow> ?vs = ?us" by (rule rowKey_prefix_iff [OF t(1) tu])
  then have "prefix ?key (?key' @ s) \<longleftrightarrow> ?vs = ?us" by simp
  then have c: "ContainsKey \<lparr>Key = ?key, EndKey = PrefixEnd ?key\<rparr> (?key' @ s) \<longleftrightarrow> ?vs = ?us"
    unfolding ContainsKey_PrefixEnd [OF index_prefix_not_max] .
  have sp: "EncodePartialIndexSpan cols colMap values ?p = Inr (\<lparr>Key = ?key, EndKey = PrefixEnd ?key\<rparr>, DNull \<in> set ?vs)"
    unfolding EncodePartialIndexSpan_def e by simp
  show ?thesis by (intro exI conjI) (rule e e' sp lt c)+
qed

theorem index_key_roundtrip_witness:
  "\<exists>key eds.
    EncodePartialIndexKey
      [\<lparr>ColumnID = 1, ColumnType = IntFamily, ColumnDirection = ASC\<rparr>,
       \<lparr>ColumnID = 2, ColumnType = ArrayFamily (StringFamily False), ColumnDirection = DESC\<rparr>]
      [1 \<mapsto> 1, 2 \<mapsto> 0] [DArray [DString [97], DNull], DInt 300]
      (MakeIndexKeyPrefix \<lparr>cbuf = [], cendKey = []\<rparr> 104 1) = Inr (key, False) \<and>
    DecodeIndexKey \<lparr>cbuf = [], cendKey = []\<rparr> 2 (Some [ASC, DESC]) (key @ [136]) = Inr eds"
proof -
  let ?cols = "[\<lparr>ColumnID = 1, ColumnType = IntFamily, ColumnDirection = ASC\<rparr>,
       \<lparr>ColumnID = 2, ColumnType = ArrayFamily (StringFamily False), ColumnDirection = DESC\<rparr>]"
  have v: "rowValues ?cols [1 \<mapsto> 1, 2 \<mapsto> 0] [DArray [DString [97], DNull], DInt 300] = [DInt 300, DArray [DString [97], DNull]]"
    by (simp add: rowValues_def)
  have "index_row ?cols [1 \<mapsto> 1, 2 \<mapsto> 0] [DArray [DString [97], DNull], DInt 300]"
    unfolding index_row_def v by (simp add: typed_row_def typed.simps homogeneous_def isArray_def)
  from index_key_roundtrip [OF this, of "\<lparr>cbuf = [], cendKey = []\<rparr>" 104 1 "[136]"] show ?thesis unfolding v
    by (auto simp: numeral_2_eq_2)
qed

theorem index_key_order_witness:
  "\<exists>key key'.
    EncodePartialIndexKey [\<lparr>ColumnID = 1, ColumnType = IntFamily, ColumnDirection = DESC\<rparr>] [1 \<mapsto> 0] [DInt 300]
      (MakeIndexKeyPrefix \<lparr>cbuf = [], cendKey = []\<rparr> 104 1) = Inr (key, False) \<and>
    EncodePartialIndexKey [\<lparr>ColumnID = 1, ColumnType = IntFamily, ColumnDirection = DESC\<rparr>] [1 \<mapsto> 0] [DInt 7]
      (MakeIndexKeyPrefix \<lparr>cbuf = [], cendKey = []\<rparr> 104 1) = Inr (key', False) \<and> key < key'"
proof -
  let ?cols = "[\<lparr>ColumnID = 1, ColumnType = IntFamily, ColumnDirection = DESC\<rparr>]"
  have v: "rowValues ?cols [1 \<mapsto> 0] [d] = [d]" for d by (simp add: rowValues_def)
  have i: "index_row ?cols [1 \<mapsto> 0] [DInt x]" "index_row (?cols @ []) [1 \<mapsto> 0] [DInt x]" for x
    unfolding append_Nil2 index_row_def v by (simp_all add: typed_row_def typed.simps)
  have lt: "row_less ?cols [DInt 300] [DInt 7]"
    by (simp add: column_less_def null_less_def colDir_def datum_less_simps)
  show ?thesis
    using index_key_order [OF i(1) [of 300] i(2) [of 7], of "\<lparr>cbuf = [], cendKey = []\<rparr>" 104 1 "[]" "[]"] lt
    unfolding append_Nil2 v by auto
qed

subsection \<open>Column families of a row\<close>

text \<open>\<open>prev\<close> is the family before, \<open>neededFamilies[i-1]\<close>.\<close>

primrec SplitRowKeyLoop :: "Span list \<Rightarrow> bytes \<Rightarrow> uint32 option \<Rightarrow> uint32 list \<Rightarrow> Span list" where
  "SplitRowKeyLoop appendTo key prev [] = appendTo"
| "SplitRowKeyLoop appendTo key prev (familyID # fams) =
    (let famSpan = \<lparr>Key = MakeFamilyKey key familyID, EndKey = []\<rparr> in
     if (case prev of Some p \<Rightarrow> familyID = p + 1 | None \<Rightarrow> False)
     then SplitRowKeyLoop (butlast appendTo @ [(last appendTo)\<lparr>EndKey := PrefixEnd (Key famSpan)\<rparr>]) key (Some familyID) fams
     else SplitRowKeyLoop (appendTo @ [famSpan]) key (Some familyID) fams)"

definition SplitRowKeyIntoFamilySpans :: "Span list \<Rightarrow> bytes \<Rightarrow> uint32 list \<Rightarrow> Span list" where
  "SplitRowKeyIntoFamilySpans appendTo key neededFamilies = SplitRowKeyLoop appendTo key None neededFamilies"

definition runSpan :: "bytes \<Rightarrow> uint32 \<times> uint32 \<Rightarrow> Span" where
  "runSpan key = (\<lambda>(a, b). \<lparr>Key = MakeFamilyKey key a, EndKey = (if a = b then [] else PrefixEnd (MakeFamilyKey key b))\<rparr>)"

lemma family_key_form:
  "\<exists>w. MakeFamilyKey key f = key @ EncodeUvarintAscending [] (ucast f) @ w"
  by (cases "f = 0") (auto simp: MakeFamilyKey_closed family_suffix_def uvarint_append)

lemma family_key_not_max: "MakeFamilyKey key f \<noteq> replicate (length (MakeFamilyKey key f)) 255"
proof -
  obtain x xs where x: "EncodeUvarintAscending [] (ucast f) = x # xs" "unat x \<le> 253" using uvarint_tag_range by blast
  then have "x \<in> set (MakeFamilyKey key f)" "x \<noteq> 255" using family_key_form [of key f] by auto
  then show ?thesis by (metis in_set_replicate)
qed

lemma family_key_prefix: "prefix (MakeFamilyKey key b) (MakeFamilyKey key f) \<longleftrightarrow> b = f"
proof
  assume "prefix (MakeFamilyKey key b) (MakeFamilyKey key f)"
  then obtain z where z: "MakeFamilyKey key f = MakeFamilyKey key b @ z" by (rule prefixE)
  obtain v w where "MakeFamilyKey key f = key @ EncodeUvarintAscending [] (ucast f) @ v"
    "MakeFamilyKey key b = key @ EncodeUvarintAscending [] (ucast b) @ w" using family_key_form by meson
  then have "EncodeUvarintAscending [] (ucast f) @ v = EncodeUvarintAscending [] (ucast b) @ (w @ z)" using z by simp
  then have "(ucast f :: uint64) = ucast b" using uvarint_asc.cut by blast
  then show "b = f" by (metis ucast_ucast32)
qed simp

lemma family_key_le: "MakeFamilyKey key f \<le> MakeFamilyKey key g \<longleftrightarrow> f \<le> g"
  using MakeFamilyKey_less [of key g f] by (metis not_less)

lemma runSpan_member: "a \<le> b \<Longrightarrow> MakeFamilyKey key f \<in> span_keys (runSpan key (a, b)) \<longleftrightarrow> a \<le> f \<and> f \<le> b"
proof -
  assume ab: "a \<le> b"
  have p: "prefix (MakeFamilyKey key b) k \<longleftrightarrow> MakeFamilyKey key b \<le> k \<and> k < PrefixEnd (MakeFamilyKey key b)" for k
    by (rule prefix_iff_PrefixEnd [OF family_key_not_max])
  have lt: "MakeFamilyKey key f < PrefixEnd (MakeFamilyKey key b) \<longleftrightarrow> f \<le> b"
  proof (cases "f \<le> b")
    case True
    then show ?thesis using p [of "MakeFamilyKey key b"] family_key_le [of key f b] by auto
  next
    case False
    then show ?thesis using p [of "MakeFamilyKey key f"] family_key_prefix [of key b f] family_key_le [of key b f] by auto
  qed
  have "PrefixEnd (MakeFamilyKey key b) \<noteq> []" using p [of "MakeFamilyKey key b"] by auto
  moreover have "MakeFamilyKey key a \<noteq> []" using family_key_not_max [of key a] by auto
  ultimately show ?thesis using ab lt family_key_le [of key a f] MakeFamilyKey_less [of key a f] MakeFamilyKey_less [of key f a]
    by (auto simp: span_keys_cases runSpan_def family_key_le intro: order_antisym)
qed

text \<open>The loop keeps a list of runs of consecutive families, each a span of the row.\<close>

primrec runs :: "(uint32 \<times> uint32) list \<Rightarrow> uint32 option \<Rightarrow> uint32 list \<Rightarrow> (uint32 \<times> uint32) list" where
  "runs ivs prev [] = ivs"
| "runs ivs prev (f # fams) =
    (if (case prev of Some p \<Rightarrow> f = p + 1 | None \<Rightarrow> False)
     then runs (butlast ivs @ [(fst (last ivs), f)]) (Some f) fams else runs (ivs @ [(f, f)]) (Some f) fams)"

definition covered :: "(uint32 \<times> uint32) list \<Rightarrow> uint32 set" where
  "covered ivs = {x. \<exists>(a, b) \<in> set ivs. a \<le> x \<and> x \<le> b}"

text \<open>Runs in increasing order with a gap between them, so that no two could be merged.\<close>

definition separate_runs :: "(uint32 \<times> uint32) list \<Rightarrow> bool" where
  "separate_runs ivs \<longleftrightarrow> list_all (\<lambda>(a, b). a \<le> b) ivs \<and> sorted_wrt (\<lambda>(a, b) (c, d). unat b + 1 < unat c) ivs"

definition run_state :: "(uint32 \<times> uint32) list \<Rightarrow> uint32 option \<Rightarrow> uint32 list \<Rightarrow> bool" where
  "run_state ivs prev fams \<longleftrightarrow> separate_runs ivs \<and> sorted_wrt (<) fams \<and>
    (case prev of None \<Rightarrow> ivs = [] | Some p \<Rightarrow> ivs \<noteq> [] \<and> snd (last ivs) = p \<and> list_all (\<lambda>f. p < f) fams)"

lemma word_le_succ: "p < p + 1 \<Longrightarrow> x \<le> p + 1 \<longleftrightarrow> x \<le> p \<or> x = p + (1 :: uint32)"
proof -
  assume "p < p + 1"
  moreover have "p + 1 \<le> x" if "p < x" using that by (rule inc_le)
  ultimately show ?thesis by (meson antisym less_imp_le not_less order_refl order_trans)
qed

lemma runs_step:
  assumes "run_state ivs (Some p) (f # fams)" "f = p + 1"
  obtains ivs' a where "ivs = ivs' @ [(a, p)]" "a \<le> p" "p < f" "run_state (ivs' @ [(a, f)]) (Some f) fams"
    "covered (ivs' @ [(a, f)]) = covered ivs \<union> {f}"
proof -
  have "ivs \<noteq> []" "snd (last ivs) = p" using assms(1) by (simp_all add: run_state_def)
  then obtain ivs' a where i: "ivs = ivs' @ [(a, p)]" by (cases ivs rule: rev_cases) auto
  have a: "a \<le> p" "p < f" using assms(1) by (auto simp: run_state_def separate_runs_def i)
  have "a \<le> x \<and> x \<le> f \<longleftrightarrow> a \<le> x \<and> x \<le> p \<or> x = f" for x
    using a word_le_succ [of p x] unfolding assms(2) by (meson order_trans less_imp_le)
  then have "covered (ivs' @ [(a, f)]) = covered ivs \<union> {f}" by (auto simp: covered_def i)
  moreover have "run_state (ivs' @ [(a, f)]) (Some f) fams"
    using assms(1) a by (auto simp: run_state_def separate_runs_def i list_all_iff sorted_wrt_append)
  ultimately show ?thesis using that i a by blast
qed

lemma runs_apart:
  assumes "run_state ivs prev (f # fams)" "\<not> (\<exists>p. prev = Some p \<and> f = p + 1)"
  shows "run_state (ivs @ [(f, f)]) (Some f) fams"
proof -
  have "unat b + 1 < unat f" if ab: "(a, b) \<in> set ivs" for a b
  proof (cases prev)
    case None
    then show ?thesis using assms(1) ab by (simp add: run_state_def)
  next
    case (Some p)
    then have "ivs \<noteq> []" "snd (last ivs) = p" "p < f" using assms(1) by (simp_all add: run_state_def)
    then obtain ivs' c where i: "ivs = ivs' @ [(c, p)]" by (cases ivs rule: rev_cases) auto
    have "unat p + 1 < unat f"
    proof -
      have ne: "f \<noteq> p + 1" using assms(2) Some by simp
      have lt: "unat p < unat f" using \<open>p < f\<close> by (simp add: word_less_nat_alt)
      have "unat f < 2 ^ 32" using unsigned_less [of f] by simp
      then have "unat (p + 1) = unat p + 1" using lt by (simp add: unat_word_ariths)
      then show ?thesis using lt ne by (metis Suc_eq_plus1 Suc_lessI unsigned_word_eqI)
    qed
    moreover have "b = p \<or> unat b + 1 < unat c \<and> c \<le> p"
      using assms(1) ab by (auto simp: run_state_def separate_runs_def i sorted_wrt_append)
    ultimately show ?thesis by (auto simp: word_le_nat_alt)
  qed
  then show ?thesis using assms(1) by (auto simp: run_state_def separate_runs_def sorted_wrt_append list_all_iff split: option.splits)
qed

lemma SplitRowKeyLoop_runs:
  assumes "run_state ivs prev fams"
  shows "SplitRowKeyLoop (acc @ map (runSpan key) ivs) key prev fams = acc @ map (runSpan key) (runs ivs prev fams) \<and>
    covered (runs ivs prev fams) = covered ivs \<union> set fams \<and> separate_runs (runs ivs prev fams)"
  using assms
proof (induction fams arbitrary: ivs prev)
  case (Cons f fams)
  show ?case
  proof (cases "\<exists>p. prev = Some p \<and> f = p + 1")
    case True
    then obtain p where p: "prev = Some p" "f = p + 1" by blast
    then obtain ivs' a where i: "ivs = ivs' @ [(a, p)]" "a \<le> p" "p < f" "run_state (ivs' @ [(a, f)]) (Some f) fams"
      "covered (ivs' @ [(a, f)]) = covered ivs \<union> {f}" using runs_step Cons.prems by metis
    have "a \<noteq> f" using i(2,3) by auto
    then have s: "SplitRowKeyLoop (acc @ map (runSpan key) ivs) key prev (f # fams) =
        SplitRowKeyLoop (acc @ map (runSpan key) (ivs' @ [(a, f)])) key (Some f) fams"
      using p by (simp add: i(1) runSpan_def butlast_append Let_def)
    have r: "runs ivs prev (f # fams) = runs (ivs' @ [(a, f)]) (Some f) fams" using p by (simp add: i(1))
    show ?thesis unfolding s r using Cons.IH [OF i(4)] i(5) by auto
  next
    case False
    then have n: "\<not> (case prev of Some p \<Rightarrow> f = p + 1 | None \<Rightarrow> False)" by (auto split: option.splits)
    have s: "SplitRowKeyLoop (acc @ map (runSpan key) ivs) key prev (f # fams) =
        SplitRowKeyLoop (acc @ map (runSpan key) (ivs @ [(f, f)])) key (Some f) fams"
      using n by (simp add: Let_def runSpan_def)
    have r: "runs ivs prev (f # fams) = runs (ivs @ [(f, f)]) (Some f) fams" using n by simp
    have "run_state (ivs @ [(f, f)]) (Some f) fams" by (rule runs_apart [OF Cons.prems False])
    moreover have "covered (ivs @ [(f, f)]) = covered ivs \<union> {f}" by (auto simp: covered_def)
    ultimately show ?thesis unfolding s r using Cons.IH [of "ivs @ [(f, f)]" "Some f"] by auto
  qed
qed (simp add: run_state_def)

text \<open>C22: for needed column families given in increasing order, \<open>SplitRowKeyIntoFamilySpans\<close> leaves the spans it was
  given as they are and appends one span for each maximal run of adjacent families, in order: a point lookup for a
  single family, and from the first family to the end of the last one otherwise, up to the greatest family ID.  No
  two of the runs could be merged, and of the families of the row the spans hold exactly the needed ones.\<close>

theorem family_spans_exact:
  assumes "sorted_wrt (<) neededFamilies"
  shows "\<exists>ivs. SplitRowKeyIntoFamilySpans appendTo key neededFamilies = appendTo @ map (runSpan key) ivs \<and>
    list_all (\<lambda>(a, b). a \<le> b) ivs \<and> sorted_wrt (\<lambda>(a, b) (c, d). unat b + 1 < unat c) ivs \<and>
    (\<forall>f. (\<exists>s \<in> set (map (runSpan key) ivs). MakeFamilyKey key f \<in> span_keys s) \<longleftrightarrow> f \<in> set neededFamilies)"
proof -
  let ?r = "runs [] None neededFamilies"
  have "run_state [] None neededFamilies" using assms by (simp add: run_state_def separate_runs_def)
  from SplitRowKeyLoop_runs [OF this, of appendTo key]
  have r: "SplitRowKeyIntoFamilySpans appendTo key neededFamilies = appendTo @ map (runSpan key) ?r"
    "covered ?r = set neededFamilies" "separate_runs ?r"
    by (simp_all add: SplitRowKeyIntoFamilySpans_def covered_def)
  have "(\<exists>s \<in> set (map (runSpan key) ?r). MakeFamilyKey key f \<in> span_keys s) \<longleftrightarrow> f \<in> covered ?r" for f
    using r(3) runSpan_member by (fastforce simp: covered_def separate_runs_def list_all_iff)
  then show ?thesis using r unfolding separate_runs_def by blast
qed

theorem family_spans_exact_witness:
  "\<exists>ivs. SplitRowKeyIntoFamilySpans [] [1] [0, 3, 4, 0xffffffff] = map (runSpan [1]) ivs \<and>
    sorted_wrt (\<lambda>(a, b) (c, d). unat b + 1 < unat c) ivs \<and> (\<exists>s \<in> set (map (runSpan [1]) ivs). MakeFamilyKey [1] 4 \<in> span_keys s)"
proof -
  have "sorted_wrt (<) [0, 3, 4, 0xffffffff :: uint32]" by simp
  from family_spans_exact [OF this, of "[]" "[1]"] show ?thesis by (auto simp del: set_map)
qed

end
