(* ===== verification/Raft_Log.thy ===== *)
theory Raft_Log
  imports Prelude
begin

text \<open>
  Raft log truncation, the decision: \<open>engine/pkg/kv/kvserver/raft_log_queue.go\<close>.  The leader of a range decides up to
  which index its log can go, from the status of the Raft group, the size of the log and the snapshots in flight.
  \<open>Progress\<close> is the leader's view of a follower (vendored package \<open>raft/tracker\<close>).  The code ranges over a Go map
  of followers, whose order is not specified: here it is a list in some order, and the index decided does not depend
  on it.  Priorities of the queue, which are floats, are left out.
\<close>

subsection \<open>Input and decision\<close>

datatype ProgressState = StateProbe | StateReplicate | StateSnapshot

record Progress =
  Match :: uint64
  Next :: uint64
  PState :: ProgressState
  PendingSnapshot :: uint64
  RecentActive :: bool

record truncateDecisionInput =
  Commit :: uint64
  progress :: "(uint64 \<times> Progress) list"
  LogSize :: int64
  MaxLogSize :: int64
  LogSizeTrusted :: bool
  FirstIndex :: uint64
  LastIndex :: uint64
  PendingSnapshotIndex :: uint64

definition LogTooLarge :: "truncateDecisionInput \<Rightarrow> bool" where
  "LogTooLarge input \<longleftrightarrow> sint (LogSize input) > sint (MaxLogSize input)"

datatype chosenVia = ViaNone | ViaCommitIndex | ViaFollowers | ViaProbingFollower | ViaPendingSnap | ViaFirstIndex | ViaLastIndex

text \<open>\<open>ViaNone\<close> is the empty string, of the zero value of the decision.\<close>

record truncateDecision =
  Input :: truncateDecisionInput
  CommitIndex :: uint64
  NewFirstIndex :: uint64
  ChosenVia :: chosenVia

subsection \<open>Activity of the followers\<close>

definition activityOf :: "(int32 \<Rightarrow> bool) \<Rightarrow> int32 \<Rightarrow> Progress \<Rightarrow> Progress" where
  "activityOf replicaActive replicaID pr = pr\<lparr>RecentActive := replicaActive replicaID, PendingSnapshot := 0\<rparr>"

primrec updateRaftProgressFromActivity ::
    "(uint64 \<times> Progress) list \<Rightarrow> int32 list \<Rightarrow> (int32 \<Rightarrow> bool) \<Rightarrow> (uint64 \<times> Progress) list" where
  "updateRaftProgressFromActivity prs [] replicaActive = prs"
| "updateRaftProgressFromActivity prs (replicaID # replicas) replicaActive =
    updateRaftProgressFromActivity
      (map (\<lambda>(i, pr). if i = scast replicaID then (i, activityOf replicaActive replicaID pr) else (i, pr)) prs) replicas replicaActive"

subsection \<open>The decision\<close>

definition ProtectIndex :: "uint64 \<Rightarrow> chosenVia \<Rightarrow> truncateDecision \<Rightarrow> truncateDecision" where
  "ProtectIndex index via td = (if NewFirstIndex td > index then td\<lparr>NewFirstIndex := index, ChosenVia := via\<rparr> else td)"

definition protectFollower :: "truncateDecisionInput \<Rightarrow> Progress \<Rightarrow> truncateDecision \<Rightarrow> truncateDecision" where
  "protectFollower input pr decision =
    (if RecentActive pr then
       if PState pr = StateProbe then ProtectIndex (FirstIndex input) ViaProbingFollower decision
       else ProtectIndex (Match pr) ViaFollowers decision
     else if \<not> LogTooLarge input then ProtectIndex (Match pr) ViaFollowers decision
     else decision)"

definition computeTruncateDecision :: "truncateDecisionInput \<Rightarrow> truncateDecision result" where
  "computeTruncateDecision input =
    (let d0 = \<lparr>Input = input, CommitIndex = Commit input, NewFirstIndex = LastIndex input, ChosenVia = ViaLastIndex\<rparr>;
         d1 = ProtectIndex (CommitIndex d0) ViaCommitIndex d0;
         d2 = fold (\<lambda>(_, pr). protectFollower input pr) (progress input) d1;
         d3 = (if PendingSnapshotIndex input > 0 then ProtectIndex (PendingSnapshotIndex input) ViaPendingSnap d2 else d2);
         d4 = (if NewFirstIndex d3 < FirstIndex input
               then d3\<lparr>NewFirstIndex := FirstIndex input, ChosenVia := ViaFirstIndex\<rparr> else d3);
         logEmpty = (FirstIndex input > LastIndex input);
         noCommittedEntries = (FirstIndex input > Commit input);
         logIndexValid = (logEmpty \<or> NewFirstIndex d4 \<ge> FirstIndex input \<and> NewFirstIndex d4 \<le> LastIndex input);
         commitIndexValid = (noCommittedEntries \<or> NewFirstIndex d4 \<le> CommitIndex d4)
     in if \<not> (logIndexValid \<and> commitIndexValid) then Inl (Panic ''invalid truncation decision'') else Inr d4)"

definition raftSnapshotsForIndex :: "truncateDecision \<Rightarrow> uint64 \<Rightarrow> int" where
  "raftSnapshotsForIndex td index =
    int (length (filter (\<lambda>(_, p). PState p = StateReplicate \<and> Match p < index \<and> Next p \<le> index) (progress (Input td)))) +
    (if PendingSnapshotIndex (Input td) \<noteq> 0 \<and> PendingSnapshotIndex (Input td) < index then 1 else 0)"

definition NumNewRaftSnapshots :: "truncateDecision \<Rightarrow> int" where
  "NumNewRaftSnapshots td = raftSnapshotsForIndex td (NewFirstIndex td) - raftSnapshotsForIndex td (FirstIndex (Input td))"

text \<open>The conversion to \<open>int\<close> wraps to a negative number for differences from \<open>2 ^ 63\<close> on.\<close>

definition NumTruncatableIndexes :: "truncateDecision \<Rightarrow> int" where
  "NumTruncatableIndexes td =
    (if NewFirstIndex td < FirstIndex (Input td) then 0 else sint (NewFirstIndex td - FirstIndex (Input td)))"

abbreviation (input) RaftLogQueueStaleThreshold :: int where "RaftLogQueueStaleThreshold \<equiv> 100"
abbreviation (input) RaftLogQueueStaleSize :: int where "RaftLogQueueStaleSize \<equiv> 65536"

definition ShouldTruncate :: "truncateDecision \<Rightarrow> bool" where
  "ShouldTruncate td =
    (let n = NumTruncatableIndexes td in
     n \<ge> RaftLogQueueStaleThreshold \<or> n > 0 \<and> sint (LogSize (Input td)) \<ge> RaftLogQueueStaleSize)"

text \<open>Whether to queue the replica, and whether to recompute the size of its log.\<close>

definition shouldQueueImpl :: "truncateDecision \<Rightarrow> bool \<times> bool" where
  "shouldQueueImpl decision =
    (if ShouldTruncate decision then (True, \<not> LogSizeTrusted (Input decision))
     else if LogSizeTrusted (Input decision) \<or> LastIndex (Input decision) = FirstIndex (Input decision) then (False, False)
     else (True, True))"

subsection \<open>The index decided\<close>

text \<open>The index up to which a follower keeps the log, if it does.\<close>

definition followerLimit :: "truncateDecisionInput \<Rightarrow> Progress \<Rightarrow> uint64 option" where
  "followerLimit input pr =
    (if RecentActive pr \<and> PState pr = StateProbe then Some (FirstIndex input)
     else if RecentActive pr \<or> \<not> LogTooLarge input then Some (Match pr) else None)"

definition followerLimits :: "truncateDecisionInput \<Rightarrow> (uint64 \<times> Progress) list \<Rightarrow> uint64 set" where
  "followerLimits input prs = {i. \<exists>(r, pr) \<in> set prs. followerLimit input pr = Some i}"

definition limits :: "truncateDecisionInput \<Rightarrow> uint64 set" where
  "limits input = {LastIndex input, Commit input} \<union> followerLimits input (progress input) \<union>
    (if PendingSnapshotIndex input > 0 then {PendingSnapshotIndex input} else {})"

lemma ProtectIndex_min [simp]:
  "NewFirstIndex (ProtectIndex i via d) = min i (NewFirstIndex d)" "CommitIndex (ProtectIndex i via d) = CommitIndex d"
  "Input (ProtectIndex i via d) = Input d"
  by (auto simp: ProtectIndex_def min_def)

lemma protectFollower_min:
  "NewFirstIndex (protectFollower input pr d) =
    (case followerLimit input pr of Some i \<Rightarrow> min i (NewFirstIndex d) | None \<Rightarrow> NewFirstIndex d)"
  "CommitIndex (protectFollower input pr d) = CommitIndex d" "Input (protectFollower input pr d) = Input d"
  by (auto simp: protectFollower_def followerLimit_def)

lemma followerLimits_simps:
  "followerLimits input [] = {}"
  "followerLimits input ((r, pr) # prs) =
    (case followerLimit input pr of Some i \<Rightarrow> insert i (followerLimits input prs) | None \<Rightarrow> followerLimits input prs)"
  by (auto simp: followerLimits_def split: option.splits)

lemma finite_followerLimits: "finite (followerLimits input prs)"
proof (induction prs)
  case (Cons x prs)
  then show ?case by (cases x) (simp add: followerLimits_simps split: option.split)
qed (simp add: followerLimits_simps)

lemma finite_limits: "finite (limits input)"
  by (simp add: limits_def finite_followerLimits)

lemma Min_pair: "finite A \<Longrightarrow> Min (insert (min a b) A) = Min (insert a (insert b A))" for a :: uint64
  by (cases "A = {}") (simp_all add: min.assoc)

lemma protect_fold:
  "NewFirstIndex (fold (\<lambda>(_, pr). protectFollower input pr) prs d) = Min (insert (NewFirstIndex d) (followerLimits input prs)) \<and>
   CommitIndex (fold (\<lambda>(_, pr). protectFollower input pr) prs d) = CommitIndex d \<and>
   Input (fold (\<lambda>(_, pr). protectFollower input pr) prs d) = Input d"
proof (induction prs arbitrary: d)
  case (Cons x prs)
  obtain r pr where x: "x = (r, pr)" by (cases x)
  show ?case using Cons.IH [of "protectFollower input pr d"]
    by (simp add: x followerLimits_simps protectFollower_min Min_pair finite_followerLimits insert_commute del: Min_insert split: option.split)
qed (simp add: followerLimits_simps)

lemma computeTruncateDecision_eq:
  "\<exists>d. computeTruncateDecision input = Inr d \<and> Input d = input \<and> CommitIndex d = Commit input \<and>
    NewFirstIndex d = max (FirstIndex input) (Min (limits input))"
proof -
  let ?S = "followerLimits input (progress input)"
  let ?d1 = "ProtectIndex (Commit input) ViaCommitIndex
    \<lparr>Input = input, CommitIndex = Commit input, NewFirstIndex = LastIndex input, ChosenVia = ViaLastIndex\<rparr>"
  let ?d2 = "fold (\<lambda>(_, pr). protectFollower input pr) (progress input) ?d1"
  let ?d3 = "if PendingSnapshotIndex input > 0 then ProtectIndex (PendingSnapshotIndex input) ViaPendingSnap ?d2 else ?d2"
  let ?d4 = "if NewFirstIndex ?d3 < FirstIndex input then ?d3\<lparr>NewFirstIndex := FirstIndex input, ChosenVia := ViaFirstIndex\<rparr> else ?d3"
  have d2: "NewFirstIndex ?d2 = Min (insert (LastIndex input) (insert (Commit input) ?S))" "CommitIndex ?d2 = Commit input" "Input ?d2 = input"
    using protect_fold [of input "progress input" ?d1] by (simp_all add: Min_pair finite_followerLimits insert_commute del: Min_insert)
  have d3: "NewFirstIndex ?d3 = Min (limits input)" "CommitIndex ?d3 = Commit input" "Input ?d3 = input"
  proof -
    have "min x (Min (insert a A)) = Min (insert a A \<union> {x})" if "finite A" for A and a x :: uint64
      using that Min_insert [of "insert a A" x] by simp
    from this [of "insert (Commit input) ?S" "PendingSnapshotIndex input" "LastIndex input"] finite_followerLimits
    show "NewFirstIndex ?d3 = Min (limits input)" using d2(1) by (simp add: limits_def insert_commute del: Min_insert)
  qed (use d2(2,3) in simp_all)
  have d4: "NewFirstIndex ?d4 = max (FirstIndex input) (Min (limits input))" "CommitIndex ?d4 = Commit input" "Input ?d4 = input"
    using d3 by (auto simp: max_def not_less)
  have "Min (limits input) \<le> LastIndex input" "Min (limits input) \<le> Commit input"
    by (rule Min_le [OF finite_limits], simp add: limits_def)+
  then have "computeTruncateDecision input = Inr ?d4"
    unfolding computeTruncateDecision_def Let_def truncateDecision.simps using d4(1,2) by auto
  then show ?thesis using d4 by blast
qed

lemma limits_cases:
  assumes "computeTruncateDecision input = Inr d"
  shows "NewFirstIndex d = max (FirstIndex input) (Min (limits input))" "Input d = input" "\<And>i. i \<in> limits input \<Longrightarrow> NewFirstIndex d \<le> max (FirstIndex input) i"
proof -
  show n: "NewFirstIndex d = max (FirstIndex input) (Min (limits input))" and "Input d = input"
    using computeTruncateDecision_eq [of input] assms by auto
  show "NewFirstIndex d \<le> max (FirstIndex input) i" if "i \<in> limits input" for i
    unfolding n using Min_le [OF finite_limits that] by (rule max.mono [OF order_refl])
qed

lemma limits_follower:
  assumes "computeTruncateDecision input = Inr d" "(r, p) \<in> set (progress input)" "RecentActive p"
  shows "if PState p = StateProbe then NewFirstIndex d = FirstIndex input else NewFirstIndex d \<le> max (FirstIndex input) (Match p)"
proof -
  note l = limits_cases [OF assms(1)]
  have "(if PState p = StateProbe then FirstIndex input else Match p) \<in> limits input"
    using assms(2,3) by (force simp: limits_def followerLimits_def followerLimit_def)
  from l(3) [OF this] show ?thesis using l(1) by (auto simp: max_def split: if_splits)
qed

text \<open>A snapshot more is needed only by followers that were not active while the log was too large.\<close>

lemma snapshots_zero:
  assumes "computeTruncateDecision input = Inr d" "\<not> LogTooLarge input \<or> list_all (\<lambda>(_, p). RecentActive p) (progress input)"
  shows "NumNewRaftSnapshots d = 0"
proof (cases "NewFirstIndex d = FirstIndex input")
  case True
  then show ?thesis using limits_cases(2) [OF assms(1)] by (simp add: NumNewRaftSnapshots_def)
next
  case False
  let ?n = "NewFirstIndex d"
  have gt: "FirstIndex input < ?n" using False limits_cases(1) [OF assms(1)] by (metis less_max_iff_disj less_irrefl max_def not_le order_le_less)
  have le: "?n \<le> i" if "i \<in> limits input" for i using limits_cases(3) [OF assms(1) that] gt by (auto simp: le_max_iff_disj)
  have "?n \<le> Match p" if "(r, p) \<in> set (progress input)" "PState p = StateReplicate" for r p
  proof -
    have "followerLimit input p = Some (Match p)" using assms(2) that by (fastforce simp: followerLimit_def list_all_iff)
    then show ?thesis using that by (intro le) (force simp: limits_def followerLimits_def)
  qed
  then have "filter (\<lambda>(_, p). PState p = StateReplicate \<and> Match p < i \<and> Next p \<le> i) (progress input) = []" if "i \<le> ?n" for i
    using that by (fastforce simp: filter_empty_conv)
  moreover have "\<not> (PendingSnapshotIndex input \<noteq> 0 \<and> PendingSnapshotIndex input < i)" if "i \<le> ?n" for i
    using le [of "PendingSnapshotIndex input"] that by (auto simp: limits_def word_neq_0_conv split: if_splits)
  ultimately show ?thesis using gt limits_cases(2) [OF assms(1)]
    by (simp add: NumNewRaftSnapshots_def raftSnapshotsForIndex_def)
qed

subsection \<open>Properties\<close>

text \<open>C20: for every input the decision is made without a panic.  The new first index is the least of the last index,
  the commit index, the match index of every follower that is active or, while the log is not too large, of any follower,
  and the index of a pending snapshot, but never below the old first index; while an active follower is being probed
  nothing is truncated.  It does not depend on the order of the followers, and as long as the log is not too large or all
  followers are active it makes no follower need a snapshot.\<close>

theorem truncate_decision:
  "\<exists>d. computeTruncateDecision input = Inr d \<and>
    NewFirstIndex d = max (FirstIndex input) (Min (limits input)) \<and>
    (FirstIndex input \<le> LastIndex input \<longrightarrow> NewFirstIndex d \<le> LastIndex input) \<and>
    (FirstIndex input \<le> Commit input \<longrightarrow> NewFirstIndex d \<le> Commit input) \<and>
    (\<forall>r p. (r, p) \<in> set (progress input) \<longrightarrow> RecentActive p \<longrightarrow>
      (if PState p = StateProbe then NewFirstIndex d = FirstIndex input else NewFirstIndex d \<le> max (FirstIndex input) (Match p))) \<and>
    (\<not> LogTooLarge input \<or> list_all (\<lambda>(_, p). RecentActive p) (progress input) \<longrightarrow> NumNewRaftSnapshots d = 0) \<and>
    (\<forall>prs e. set prs = set (progress input) \<longrightarrow> computeTruncateDecision (input\<lparr>progress := prs\<rparr>) = Inr e \<longrightarrow>
      NewFirstIndex e = NewFirstIndex d)"
proof -
  obtain d where d: "computeTruncateDecision input = Inr d" using computeTruncateDecision_eq by blast
  note l = limits_cases [OF d]
  have "NewFirstIndex d \<le> max (FirstIndex input) (LastIndex input)" "NewFirstIndex d \<le> max (FirstIndex input) (Commit input)"
    by (rule l(3), simp add: limits_def)+
  then have a: "FirstIndex input \<le> LastIndex input \<longrightarrow> NewFirstIndex d \<le> LastIndex input"
    "FirstIndex input \<le> Commit input \<longrightarrow> NewFirstIndex d \<le> Commit input" by (metis max_absorb2)+
  have c: "NewFirstIndex e = NewFirstIndex d"
    if "set prs = set (progress input)" "computeTruncateDecision (input\<lparr>progress := prs\<rparr>) = Inr e" for prs e
  proof -
    have "limits (input\<lparr>progress := prs\<rparr>) = limits input"
      using that(1) by (simp add: limits_def followerLimits_def followerLimit_def LogTooLarge_def)
    then show ?thesis using limits_cases(1) [OF that(2)] l(1) by simp
  qed
  show ?thesis using d l(1) a limits_follower [OF d] c snapshots_zero [OF d] by blast
qed

theorem truncate_decision_witness:
  "\<exists>d. computeTruncateDecision \<lparr>Commit = 90, progress = [(1, \<lparr>Match = 100, Next = 101, PState = StateReplicate, PendingSnapshot = 0, RecentActive = True\<rparr>),
      (2, \<lparr>Match = 40, Next = 41, PState = StateReplicate, PendingSnapshot = 0, RecentActive = False\<rparr>)], LogSize = 10, MaxLogSize = 100,
      LogSizeTrusted = True, FirstIndex = 10, LastIndex = 100, PendingSnapshotIndex = 60\<rparr> = Inr d \<and> NumNewRaftSnapshots d = 0"
  using truncate_decision [of "\<lparr>Commit = 90, progress = [(1, \<lparr>Match = 100, Next = 101, PState = StateReplicate, PendingSnapshot = 0, RecentActive = True\<rparr>),
      (2, \<lparr>Match = 40, Next = 41, PState = StateReplicate, PendingSnapshot = 0, RecentActive = False\<rparr>)], LogSize = 10, MaxLogSize = 100,
      LogSizeTrusted = True, FirstIndex = 10, LastIndex = 100, PendingSnapshotIndex = 60\<rparr>"]
  by (auto simp: LogTooLarge_def)

end
