(* ===== verification/Raft_Truncator.thy ===== *)
theory Raft_Truncator
  imports Keys_Local
begin

text \<open>
  Raft log truncation, the execution: \<open>engine/pkg/kv/kvserver/raft_log_truncator.go\<close> with the parts of a replica it works
  on (\<open>raft_truncator_replica.go\<close>, \<open>replica_application_result.go\<close>), the removal of log entries (\<open>replica_raft.go\<close>) and the
  sideloaded files (\<open>logstore/sideload_disk.go\<close>).  A truncation that has been replicated is queued at its replica and
  enacted once the store has made the applied state durable up to its index.

  The engine is a map from keys to log entries and truncated states; the keys are the byte strings of \<open>Keys_Local\<close>.  What the
  engine and the file system fail on is an argument (\<open>truncEnv\<close>, \<open>fsFaults\<close>), and so is the durable applied index of a
  range.  The clearing loop counts with a \<open>uint64\<close> and does not end if the index to truncate is the greatest one: it is a
  partial function.  A batch that is not committed leaves the engine as it was.  Critical sections are steps of the truncator;
  the work on one replica is one step as it holds the lock \<open>raftMu\<close>.
\<close>

subsection \<open>Pending truncations\<close>

record RaftTruncatedState =
  Index :: uint64
  Term :: uint64

record pendingTruncation =
  TruncState :: RaftTruncatedState
  expectedFirstIndex :: uint64
  logDeltaBytes :: int64
  isDeltaTrusted :: bool

abbreviation noTruncation :: pendingTruncation where
  "noTruncation \<equiv> \<lparr>TruncState = \<lparr>Index = 0, Term = 0\<rparr>, expectedFirstIndex = 0, logDeltaBytes = 0, isDeltaTrusted = False\<rparr>"

abbreviation TIndex :: "pendingTruncation \<Rightarrow> uint64" where "TIndex t \<equiv> Index (TruncState t)"

type_synonym pendingLogTruncations = "pendingTruncation \<times> pendingTruncation"

definition firstIndexAfterTrunc :: "pendingTruncation \<Rightarrow> uint64" where
  "firstIndexAfterTrunc pt = TIndex pt + 1"

definition isEmptyLocked :: "pendingLogTruncations \<Rightarrow> bool" where
  "isEmptyLocked p \<longleftrightarrow> fst p = noTruncation"

definition frontLocked :: "pendingLogTruncations \<Rightarrow> pendingTruncation" where
  "frontLocked p = fst p"

definition popLocked :: "pendingLogTruncations \<Rightarrow> pendingLogTruncations" where
  "popLocked p = (snd p, noTruncation)"

definition iterateLocked :: "(nat \<Rightarrow> pendingTruncation \<Rightarrow> 's \<Rightarrow> 's) \<Rightarrow> pendingLogTruncations \<Rightarrow> 's \<Rightarrow> 's" where
  "iterateLocked f p s = fold (\<lambda>(i, t) s. if t \<noteq> noTruncation then f i t s else s) [(0, fst p), (1, snd p)] s"

text \<open>The number of slots up to the last one in use.\<close>

definition slots :: "pendingLogTruncations \<Rightarrow> nat" where
  "slots p = (if snd p \<noteq> noTruncation then 2 else if fst p \<noteq> noTruncation then 1 else 0)"

lemma slots_pop: "\<not> isEmptyLocked p \<Longrightarrow> slots (popLocked p) < slots p"
  by (auto simp: slots_def popLocked_def isEmptyLocked_def)

function reset :: "pendingLogTruncations \<Rightarrow> pendingLogTruncations" where
  "reset p = (if \<not> isEmptyLocked p then reset (popLocked p) else p)"
  by auto
termination by (relation "measure slots") (simp_all add: slots_pop)

definition computePostTruncLogSize :: "pendingLogTruncations \<Rightarrow> int64 \<Rightarrow> int64" where
  "computePostTruncLogSize p raftLogSize =
    (let s = iterateLocked (\<lambda>_ trunc s. s + logDeltaBytes trunc) p raftLogSize in if sint s < 0 then 0 else s)"

definition computePostTruncFirstIndex :: "pendingLogTruncations \<Rightarrow> uint64 \<Rightarrow> uint64" where
  "computePostTruncFirstIndex p firstIndex =
    iterateLocked (\<lambda>_ trunc i. if i < firstIndexAfterTrunc trunc then firstIndexAfterTrunc trunc else i) p firstIndex"

subsection \<open>Sideloaded files\<close>

text \<open>A file \<open>i<index>.t<term>\<close> of the directory, with its size, in the order the directory is listed.\<close>

record sideFile =
  fileIndex :: uint64
  fileTerm :: uint64
  fileBytes :: int64

record fsFaults =
  listFails :: bool
  fileFails :: "sideFile \<Rightarrow> bool"

fun truncateFiles :: "(sideFile \<Rightarrow> bool) \<Rightarrow> uint64 \<Rightarrow> uint64 \<Rightarrow> bool \<Rightarrow> sideFile list \<Rightarrow> int64 \<times> int64 \<Rightarrow>
    (int64 \<times> int64) result \<times> sideFile list" where
  "truncateFiles fails from to doTruncate [] bs = (Inr bs, [])"
| "truncateFiles fails from to doTruncate (f # fs) bs =
    (let keep = (\<lambda>bs. let (r, fs') = truncateFiles fails from to doTruncate fs bs in (r, f # fs'))
     in if fileIndex f \<ge> to then
          if fails f then (Inl (Errorf ''stat''), f # fs) else keep (fst bs, snd bs + fileBytes f)
        else if fileIndex f < from then keep bs
        else if fails f then (Inl (Errorf ''purge''), f # fs)
        else if doTruncate then truncateFiles fails from to doTruncate fs (fst bs + fileBytes f, snd bs)
        else keep (fst bs + fileBytes f, snd bs))"

definition possiblyTruncateTo :: "fsFaults \<Rightarrow> sideFile list \<Rightarrow> uint64 \<Rightarrow> uint64 \<Rightarrow> bool \<Rightarrow> (int64 \<times> int64) result \<times> sideFile list" where
  "possiblyTruncateTo e ss from to doTruncate =
    (if listFails e then (Inl (Errorf ''list''), ss) else truncateFiles (fileFails e) from to doTruncate ss (0, 0))"

definition TruncateTo :: "fsFaults \<Rightarrow> sideFile list \<Rightarrow> uint64 \<Rightarrow> (int64 \<times> int64) result \<times> sideFile list" where
  "TruncateTo e ss firstIndex = possiblyTruncateTo e ss 0 firstIndex True"

definition BytesIfTruncatedFromTo :: "fsFaults \<Rightarrow> sideFile list \<Rightarrow> uint64 \<Rightarrow> uint64 \<Rightarrow> (int64 \<times> int64) result" where
  "BytesIfTruncatedFromTo e ss from to = fst (possiblyTruncateTo e ss from to False)"

definition HasAnyEntry :: "fsFaults \<Rightarrow> sideFile list \<Rightarrow> uint64 \<Rightarrow> uint64 \<Rightarrow> bool result" where
  "HasAnyEntry e ss from to =
    (if listFails e then Inl (Errorf ''list'') else Inr (list_ex (\<lambda>f. fileIndex f \<ge> from \<and> fileIndex f < to) ss))"

subsection \<open>The replica\<close>

record Replica =
  TruncatedState :: RaftTruncatedState
  raftLogSize :: int64
  raftLogLastCheckSize :: int64
  raftLogSizeTrusted :: bool
  pendingTruncs :: pendingLogTruncations
  sideloaded :: "sideFile list"
  raftEntryCache :: "uint64 set"

definition handleTruncatedStateResult :: "fsFaults \<Rightarrow> Replica \<Rightarrow> RaftTruncatedState \<Rightarrow> uint64 \<Rightarrow> Replica \<times> int64 \<times> bool" where
  "handleTruncatedStateResult e r t expectedFirstIndexPreTruncation =
    (let accurate = (Index (TruncatedState r) + 1 = expectedFirstIndexPreTruncation);
         (res, files) = TruncateTo e (sideloaded r) (Index t + 1);
         size = (case res of Inr (freed, _) \<Rightarrow> freed | Inl _ \<Rightarrow> 0)
     in (r\<lparr>TruncatedState := t, raftEntryCache := {i \<in> raftEntryCache r. i \<ge> Index t + 1}, sideloaded := files\<rparr>, - size, accurate))"

definition setTruncatedStateAndSideEffects :: "fsFaults \<Rightarrow> Replica \<Rightarrow> RaftTruncatedState \<Rightarrow> uint64 \<Rightarrow> Replica \<times> bool" where
  "setTruncatedStateAndSideEffects e r trunc expectedFirst =
    (let (r', _, accurate) = handleTruncatedStateResult e r trunc expectedFirst in (r', accurate))"

definition setTruncationDeltaAndTrusted :: "Replica \<Rightarrow> int64 \<Rightarrow> bool \<Rightarrow> Replica" where
  "setTruncationDeltaAndTrusted r deltaBytes trusted =
    (let size = raftLogSize r + deltaBytes; last = raftLogLastCheckSize r + deltaBytes
     in r\<lparr>raftLogSize := (if sint size < 0 then 0 else size), raftLogLastCheckSize := (if sint last < 0 then 0 else last),
          raftLogSizeTrusted := (raftLogSizeTrusted r \<and> trusted)\<rparr>)"

definition sideloadedBytesIfTruncatedFromTo :: "fsFaults \<Rightarrow> Replica \<Rightarrow> uint64 \<Rightarrow> uint64 \<Rightarrow> int64 \<times> bool" where
  "sideloadedBytesIfTruncatedFromTo e r from to =
    (case BytesIfTruncatedFromTo e (sideloaded r) from to of Inr (freed, _) \<Rightarrow> (freed, False) | Inl _ \<Rightarrow> (0, True))"

subsection \<open>Removing the entries\<close>

datatype logValue = LogEntry bytes | TruncatedStateProto RaftTruncatedState

type_synonym engine = "bytes \<rightharpoonup> logValue"

record truncEnv =
  clearRangeThreshold :: uint64
  clearRangeFails :: bool
  clearFails :: "bytes \<Rightarrow> bool"
  putFails :: bool
  commitFails :: bool
  durableAppliedIndex :: "int64 \<Rightarrow> uint64 option"
  shouldQuiesce :: "int64 \<Rightarrow> bool"
  fsEnv :: fsFaults

definition ClearRawRange :: "bytes \<Rightarrow> bytes \<Rightarrow> engine \<Rightarrow> engine" where
  "ClearRawRange start stop m = (\<lambda>k. if start \<le> k \<and> k < stop then None else m k)"

partial_function (option) clearEntries :: "(bytes \<Rightarrow> bool) \<Rightarrow> bytes \<Rightarrow> uint64 \<Rightarrow> uint64 \<Rightarrow> engine \<Rightarrow> engine result option" where
  "clearEntries fails logPrefix idx lastIdx m =
    (if idx \<le> lastIdx then
       if fails (RaftLogKeyFromPrefix logPrefix idx) then Some (Inl (Errorf ''unable to clear truncated Raft entries''))
       else clearEntries fails logPrefix (idx + 1) lastIdx (m(RaftLogKeyFromPrefix logPrefix idx := None))
     else Some (Inr m))"

definition handleTruncatedStateBelowRaftPreApply ::
    "truncEnv \<Rightarrow> int64 \<Rightarrow> RaftTruncatedState \<Rightarrow> RaftTruncatedState \<Rightarrow> engine \<Rightarrow> (bool \<times> engine) result option" where
  "handleTruncatedStateBelowRaftPreApply e rangeID cur suggested m =
    (if Index suggested \<le> Index cur then Some (Inr (False, m))
     else
       let prefixBuf = MakeRangeIDPrefixBuf rangeID;
           cleared =
             (if Index suggested - Index cur \<ge> clearRangeThreshold e then
                if clearRangeFails e then Some (Inl (Errorf ''unable to clear truncated Raft entries''))
                else Some (Inr (ClearRawRange (bufRaftLogKey prefixBuf (Index cur + 1)) (bufRaftLogKey prefixBuf (Index suggested + 1)) m))
              else clearEntries (clearFails e) (bufRaftLogPrefix prefixBuf) (Index cur + 1) (Index suggested) m)
       in case cleared of
            None \<Rightarrow> None
          | Some (Inl err) \<Rightarrow> Some (Inl err)
          | Some (Inr m') \<Rightarrow>
              if putFails e then Some (Inl (Errorf ''unable to write RaftTruncatedState''))
              else Some (Inr (True, m'(bufRaftTruncatedStateKey prefixBuf \<mapsto> TruncatedStateProto suggested))))"

subsection \<open>The request\<close>

text \<open>\<open>TruncateLog\<close> is evaluated on the leaseholder.  What it reads is an argument: the first index, the term of an entry and the
  bytes that \<open>ComputeStats\<close> finds between two keys.  The result, if any, is the truncated state to replicate with the change of
  the log size and the first index it was computed for.\<close>

record TruncateLogRequest =
  reqIndex :: uint64
  reqRangeID :: int64
  ExpectedFirstIndex :: uint64

record evalContext =
  GetRangeID :: int64
  GetFirstIndex :: uint64
  GetTerm :: "uint64 \<Rightarrow> uint64 result"
  sysBytes :: "bytes \<Rightarrow> bytes \<Rightarrow> int64 result"

definition TruncateLog :: "evalContext \<Rightarrow> TruncateLogRequest \<Rightarrow> (RaftTruncatedState \<times> int64 \<times> uint64) option result" where
  "TruncateLog c args =
    (if GetRangeID c \<noteq> reqRangeID args then Inr None
     else if GetFirstIndex c \<ge> reqIndex args then Inr None
     else rbind (GetTerm c (reqIndex args - 1)) (\<lambda>term.
       let firstIndex = (if ExpectedFirstIndex args > GetFirstIndex c then ExpectedFirstIndex args else GetFirstIndex c)
       in rbind (sysBytes c (RaftLogKey (GetRangeID c) firstIndex) (RaftLogKey (GetRangeID c) (reqIndex args))) (\<lambda>n.
         Inr (Some (\<lparr>Index = reqIndex args - 1, Term = term\<rparr>, - n, firstIndex)))))"

subsection \<open>The truncator\<close>

record raftLogTruncator =
  replicas :: "int64 \<rightharpoonup> Replica"
  logEngine :: engine
  addRanges :: "int64 list"
  drainRanges :: "int64 list"
  runningTruncation :: bool
  queuedDurabilityCB :: bool

definition enqueueRange :: "int64 \<Rightarrow> raftLogTruncator \<Rightarrow> raftLogTruncator" where
  "enqueueRange rangeID t = t\<lparr>addRanges := List.insert rangeID (addRanges t)\<rparr>"

text \<open>The new pending truncation and the slot it goes to, if it advances what is truncated.\<close>

definition newPendingTruncation :: "fsFaults \<Rightarrow> Replica \<Rightarrow> RaftTruncatedState \<Rightarrow> uint64 \<Rightarrow> int64 \<Rightarrow> (nat \<times> bool \<times> pendingTruncation) option" where
  "newPendingTruncation e r trunc raftExpectedFirstIndex raftLogDelta =
    (let p = pendingTruncs r;
         (i, alreadyTruncIndex) = iterateLocked (\<lambda>index t (i, a). (Some index, if TIndex t > a then TIndex t else a)) p
           (None, Index (TruncatedState r))
     in if alreadyTruncIndex \<ge> Index trunc then None
        else
          let pos = (case i of None \<Rightarrow> 0 | Some n \<Rightarrow> n + 1);
              merge = (pos = 2);
              pos = (if merge then pos - 1 else pos);
              (freed, err) = sideloadedBytesIfTruncatedFromTo e r (alreadyTruncIndex + 1) (Index trunc + 1);
              old = (if pos = 0 then fst p else snd p);
              pt = \<lparr>TruncState = trunc, expectedFirstIndex = raftExpectedFirstIndex, logDeltaBytes = raftLogDelta - freed, isDeltaTrusted = \<not> err\<rparr>
          in Some (pos, merge,
               if merge then pt\<lparr>isDeltaTrusted := (isDeltaTrusted pt \<and> isDeltaTrusted old \<and> firstIndexAfterTrunc old = expectedFirstIndex pt),
                                logDeltaBytes := logDeltaBytes pt + logDeltaBytes old, expectedFirstIndex := expectedFirstIndex old\<rparr>
               else pt))"

definition addPendingTruncation ::
    "fsFaults \<Rightarrow> int64 \<Rightarrow> Replica \<Rightarrow> RaftTruncatedState \<Rightarrow> uint64 \<Rightarrow> int64 \<Rightarrow> raftLogTruncator \<Rightarrow> raftLogTruncator result" where
  "addPendingTruncation e rangeID r trunc raftExpectedFirstIndex raftLogDelta t =
    (case newPendingTruncation e r trunc raftExpectedFirstIndex raftLogDelta of
       None \<Rightarrow> Inr t
     | Some (pos, merge, pt) \<Rightarrow>
         let p = pendingTruncs r;
             p' = (if pos = 0 then (pt, snd p) else (fst p, pt));
             t' = t\<lparr>replicas := (replicas t)(rangeID \<mapsto> r\<lparr>pendingTruncs := p'\<rparr>)\<rparr>
         in if pos = 0 then
              if merge then Inl (Panic ''should never be merging pending truncations at pos 0'') else Inr (enqueueRange rangeID t')
            else Inr t')"

function dropNoops :: "uint64 \<Rightarrow> pendingLogTruncations \<Rightarrow> pendingLogTruncations" where
  "dropNoops truncIndex p =
    (if \<not> isEmptyLocked p \<and> TIndex (frontLocked p) \<le> truncIndex then dropNoops truncIndex (popLocked p) else p)"
  by auto
termination by (relation "measure (slots \<circ> snd)") (simp_all add: slots_pop)

definition enactOne :: "fsFaults \<Rightarrow> pendingTruncation \<Rightarrow> Replica \<Rightarrow> Replica" where
  "enactOne e trunc r =
    (let (r', accurate) = setTruncatedStateAndSideEffects e r (TruncState trunc) (expectedFirstIndex trunc)
     in setTruncationDeltaAndTrusted r' (logDeltaBytes trunc) (accurate \<and> isDeltaTrusted trunc))"

definition tryEnactTruncations :: "truncEnv \<Rightarrow> int64 \<Rightarrow> raftLogTruncator \<Rightarrow> raftLogTruncator option" where
  "tryEnactTruncations e rangeID t =
    (case replicas t rangeID of
       None \<Rightarrow> Some t
     | Some r \<Rightarrow>
         let truncState = TruncatedState r;
             p = dropNoops (Index truncState) (pendingTruncs r);
             put = (\<lambda>r'. t\<lparr>replicas := (replicas t)(rangeID \<mapsto> r')\<rparr>);
             drop = put (r\<lparr>pendingTruncs := reset p\<rparr>)
         in if isEmptyLocked p then Some (put (r\<lparr>pendingTruncs := p\<rparr>))
            else case durableAppliedIndex e rangeID of
              None \<Rightarrow> Some drop
            | Some applied \<Rightarrow>
                (case iterateLocked (\<lambda>index trunc i. if TIndex trunc > applied then i else Some index) p None of
                   None \<Rightarrow> Some (enqueueRange rangeID (put (r\<lparr>pendingTruncs := p\<rparr>)))
                 | Some enactIndex \<Rightarrow>
                     (case handleTruncatedStateBelowRaftPreApply e rangeID truncState
                         (TruncState (if enactIndex = 0 then fst p else snd p)) (logEngine t) of
                        None \<Rightarrow> None
                      | Some (Inl err) \<Rightarrow> Some drop
                      | Some (Inr (apply, m)) \<Rightarrow>
                          if \<not> apply then Some drop
                          else if commitFails e then Some drop
                          else
                            let r' = iterateLocked (\<lambda>index trunc r. if index > enactIndex then r else enactOne (fsEnv e) trunc r) p r;
                                p' = (popLocked ^^ (enactIndex + 1)) p;
                                t' = (put (r'\<lparr>pendingTruncs := p'\<rparr>))\<lparr>logEngine := m\<rparr>
                            in Some (if \<not> isEmptyLocked p' then enqueueRange rangeID t' else t'))))"

subsection \<open>The background task\<close>

text \<open>Whether to start the task, and the state after the callback; what is done if the task cannot be started; the
  ranges a round of \<open>durabilityAdvanced\<close> takes, in order; the end of a round, which tells whether the task returns.\<close>

definition durabilityAdvancedCallback :: "raftLogTruncator \<Rightarrow> bool \<times> raftLogTruncator" where
  "durabilityAdvancedCallback t =
    (let run = (\<not> runningTruncation t \<and> addRanges t \<noteq> []);
         t1 = (if run then t\<lparr>runningTruncation := True\<rparr> else t);
         t2 = (if \<not> run \<and> addRanges t1 \<noteq> [] then t1\<lparr>queuedDurabilityCB := True\<rparr> else t1)
     in (run, t2))"

definition taskNotStarted :: "raftLogTruncator \<Rightarrow> raftLogTruncator result" where
  "taskNotStarted t = (if \<not> runningTruncation t then Inl (Panic ''expected runningTruncation'') else Inr (t\<lparr>runningTruncation := False\<rparr>))"

definition takeRanges :: "raftLogTruncator \<Rightarrow> int64 list \<times> raftLogTruncator" where
  "takeRanges t = (sort_key sint (addRanges t), t\<lparr>addRanges := drainRanges t, drainRanges := []\<rparr>)"

fun enactRanges :: "truncEnv \<Rightarrow> int64 list \<Rightarrow> raftLogTruncator \<Rightarrow> raftLogTruncator option" where
  "enactRanges e [] t = Some t"
| "enactRanges e (rangeID # ranges) t =
    (case tryEnactTruncations e rangeID t of
       None \<Rightarrow> None
     | Some t' \<Rightarrow> if shouldQuiesce e rangeID then Some t' else enactRanges e ranges t')"

definition durabilityAdvanced :: "truncEnv \<Rightarrow> raftLogTruncator \<Rightarrow> raftLogTruncator option" where
  "durabilityAdvanced e t = (let (ranges, t') = takeRanges t in if ranges = [] then Some t' else enactRanges e ranges t')"

definition finishRound :: "raftLogTruncator \<Rightarrow> bool \<times> raftLogTruncator" where
  "finishRound t =
    (let queued = queuedDurabilityCB t; t1 = t\<lparr>queuedDurabilityCB := False\<rparr>
     in if \<not> queued then (True, t1\<lparr>runningTruncation := False\<rparr>) else (False, t1))"

subsection \<open>Runs of the truncator\<close>

text \<open>Where the background task is: not running, being started, about to start a round, or with ranges left in its round.\<close>

datatype worker = Idle | Starting | Ready | Draining "int64 list"

text \<open>What other code may do: create, remove or change replicas and the engine in any way that leaves pending
  truncations alone (snapshots move the truncated state, proposals grow the log).\<close>

definition otherChange :: "raftLogTruncator \<Rightarrow> raftLogTruncator \<Rightarrow> bool" where
  "otherChange t t' \<longleftrightarrow> addRanges t' = addRanges t \<and> drainRanges t' = drainRanges t \<and>
    runningTruncation t' = runningTruncation t \<and> queuedDurabilityCB t' = queuedDurabilityCB t \<and>
    (\<forall>i r'. replicas t' i = Some r' \<longrightarrow>
      pendingTruncs r' = (noTruncation, noTruncation) \<or> (\<exists>r. replicas t i = Some r \<and> pendingTruncs r' = pendingTruncs r))"

text \<open>Truncations come from \<open>TruncateLog\<close>, evaluated at some time on some replica.  The flag tells whether the store is stopping, in which case a round may be cut short and the task may not start.\<close>

inductive tstep :: "bool \<Rightarrow> worker \<times> raftLogTruncator \<Rightarrow> worker \<times> raftLogTruncator \<Rightarrow> bool" for stopping where
  add: "replicas t i = Some r \<Longrightarrow> TruncateLog c args = Inr (Some (trunc, delta, exp)) \<Longrightarrow> addPendingTruncation fe i r trunc exp delta t = Inr t' \<Longrightarrow> tstep stopping (w, t) (w, t')"
| other: "otherChange t t' \<Longrightarrow> tstep stopping (w, t) (w, t')"
| callback: "durabilityAdvancedCallback t = (run, t') \<Longrightarrow> tstep stopping (w, t) (if run then Starting else w, t')"
| start: "tstep stopping (Starting, t) (Ready, t)"
| fails: "stopping \<Longrightarrow> taskNotStarted t = Inr t' \<Longrightarrow> tstep stopping (Starting, t) (Idle, t')"
| take: "takeRanges t = (ranges, t') \<Longrightarrow> tstep stopping (Ready, t) (Draining ranges, t')"
| enact: "tryEnactTruncations e i t = Some t' \<Longrightarrow> stopping \<or> \<not> shouldQuiesce e i \<Longrightarrow>
    tstep stopping (Draining (i # ranges), t) (Draining (if shouldQuiesce e i then [] else ranges), t')"
| finish: "finishRound t = (ret, t') \<Longrightarrow> tstep stopping (Draining [], t) (if ret then Idle else Ready, t')"

definition makeRaftLogTruncator :: "raftLogTruncator" where
  "makeRaftLogTruncator = \<lparr>replicas = Map.empty, logEngine = Map.empty, addRanges = [], drainRanges = [],
    runningTruncation = False, queuedDurabilityCB = False\<rparr>"

subsection \<open>The log after a truncation\<close>

definition clearedLog :: "bytes \<Rightarrow> uint64 \<Rightarrow> uint64 \<Rightarrow> engine \<Rightarrow> engine" where
  "clearedLog logPrefix lo hi m = (\<lambda>k. if \<exists>i. lo \<le> i \<and> i \<le> hi \<and> k = RaftLogKeyFromPrefix logPrefix i then None else m k)"

lemma word_succ: "i \<noteq> -1 \<Longrightarrow> unat (i + 1) = unat i + 1" "i \<noteq> -1 \<Longrightarrow> lo < i + 1 \<longleftrightarrow> lo \<le> i" "i \<noteq> -1 \<Longrightarrow> i + 1 \<le> j \<longleftrightarrow> i < j" for i :: uint64
proof -
  assume "i \<noteq> -1"
  then have "1 + i \<noteq> 0" by (metis add.inverse_unique)
  then show *: "unat (i + 1) = unat i + 1" by (simp add: unatSuc add.commute)
  show "lo < i + 1 \<longleftrightarrow> lo \<le> i" "i + 1 \<le> j \<longleftrightarrow> i < j"
    using * by (auto simp: word_less_nat_alt word_le_nat_alt)
qed

lemma clearEntries_eq:
  assumes "hi \<noteq> -1"
  shows "clearEntries fails p lo hi m =
    Some (if \<exists>i. lo \<le> i \<and> i \<le> hi \<and> fails (RaftLogKeyFromPrefix p i) then Inl (Errorf ''unable to clear truncated Raft entries'')
          else Inr (clearedLog p lo hi m))"
proof (induction "unat hi + 1 - unat lo" arbitrary: lo m)
  case 0
  then have "hi < lo" by (simp add: word_less_nat_alt)
  then have "\<not> (\<exists>i. lo \<le> i \<and> i \<le> hi \<and> Q i)" for Q by auto
  then have "clearedLog p lo hi m = m" "\<not> (\<exists>i. lo \<le> i \<and> i \<le> hi \<and> fails (RaftLogKeyFromPrefix p i))"
    unfolding clearedLog_def by (simp_all only: if_False not_False_eq_True)
  then show ?case using \<open>hi < lo\<close> by (subst clearEntries.simps) auto
next
  case (Suc n)
  then have le: "lo \<le> hi" by (simp add: word_le_nat_alt)
  then have "lo \<noteq> -1" using assms word_order.extremum_unique by blast
  then have s: "unat (lo + 1) = unat lo + 1" and m: "lo + 1 \<le> j \<longleftrightarrow> lo < j" for j
    by (rule word_succ)+
  have c: "lo \<le> j \<longleftrightarrow> j = lo \<or> lo + 1 \<le> j" for j by (auto simp: m)
  have "clearedLog p (lo + 1) hi (m(RaftLogKeyFromPrefix p lo := None)) = clearedLog p lo hi m"
  proof
    fix k
    have "(\<exists>i. lo \<le> i \<and> i \<le> hi \<and> k = RaftLogKeyFromPrefix p i) \<longleftrightarrow>
        k = RaftLogKeyFromPrefix p lo \<or> (\<exists>i. lo + 1 \<le> i \<and> i \<le> hi \<and> k = RaftLogKeyFromPrefix p i)"
      using le c by metis
    then show "clearedLog p (lo + 1) hi (m(RaftLogKeyFromPrefix p lo := None)) k = clearedLog p lo hi m k"
      unfolding clearedLog_def by auto
  qed
  moreover have "n = unat hi + 1 - unat (lo + 1)" using Suc.hyps(2) s by simp
  note IH = Suc.hyps(1) [OF this]
  moreover have "(\<exists>i. lo \<le> i \<and> i \<le> hi \<and> fails (RaftLogKeyFromPrefix p i)) \<longleftrightarrow>
      fails (RaftLogKeyFromPrefix p lo) \<or> (\<exists>i. lo + 1 \<le> i \<and> i \<le> hi \<and> fails (RaftLogKeyFromPrefix p i))"
    using le c by metis
  ultimately show ?case using le by (subst clearEntries.simps) (auto simp: IH)
qed

lemma RaftLogKey_eq: "RaftLogKey r i = RaftLogKey r' i' \<longleftrightarrow> r = r' \<and> i = i'"
  by (metis RaftLogKey_less less_irrefl linorder_neq_iff)

lemma RaftLogKey_le: "RaftLogKey r i \<le> RaftLogKey r' i' \<longleftrightarrow> r < r' \<or> r = r' \<and> i \<le> i'"
  using RaftLogKey_less [of r' i' r i] by (auto simp: not_less [symmetric])

lemma RaftLogKey_buf:
  "bufRaftLogKey (MakeRangeIDPrefixBuf r) i = RaftLogKey r i" "RaftLogKeyFromPrefix (bufRaftLogPrefix (MakeRangeIDPrefixBuf r)) i = RaftLogKey r i"
  by (simp_all add: RaftLogKey_def bufRaftLogKey_def)

lemma RaftTruncatedStateKey_neq: "RaftTruncatedStateKey r \<noteq> RaftLogKey r' i"
proof
  assume eq: "RaftTruncatedStateKey r = RaftLogKey r' i"
  let ?x = "localRangeIDUnreplicatedInfix @ LocalRaftTruncatedStateSuffix"
  let ?y = "localRangeIDUnreplicatedInfix @ LocalRaftLogSuffix @ EncodeUint64Ascending [] i"
  have "MakeRangeIDPrefix r @ ?x = MakeRangeIDPrefix r' @ ?y"
    using eq by (simp add: raft_log_defs append_buf RaftTruncatedStateKey_def bufRaftTruncatedStateKey_def)
  then have "?x = ?y" using range_id_keys_less [of r ?x r' ?y] range_id_keys_less [of r' ?y r ?x] by (metis less_irrefl linorder_neq_iff)
  then show False by (simp add: infix_defs suffix_defs)
qed

text \<open>What a truncation to \<open>hi\<close> of a log truncated at \<open>lo\<close> does to log entries and to the truncated state.\<close>

definition truncatedLog :: "int64 \<Rightarrow> uint64 \<Rightarrow> RaftTruncatedState \<Rightarrow> engine \<Rightarrow> engine \<Rightarrow> bool" where
  "truncatedLog rangeID lo ts m m' \<longleftrightarrow>
    (\<forall>r i. m' (RaftLogKey r i) = (if r = rangeID \<and> lo < i \<and> i \<le> Index ts then None else m (RaftLogKey r i))) \<and>
    m' (RaftTruncatedStateKey rangeID) = Some (TruncatedStateProto ts)"

definition noEngineFaults :: "truncEnv \<Rightarrow> bool" where
  "noEngineFaults e \<longleftrightarrow> \<not> clearRangeFails e \<and> (\<forall>k. \<not> clearFails e k) \<and> \<not> putFails e \<and> \<not> commitFails e"

lemma handle_forward:
  assumes "Index cur < Index sug" "Index sug \<noteq> -1"
  obtains (error) err where "handleTruncatedStateBelowRaftPreApply e i cur sug m = Some (Inl err)" "\<not> noEngineFaults e"
  | (ok) m' where "handleTruncatedStateBelowRaftPreApply e i cur sug m = Some (Inr (True, m'))" "truncatedLog i (Index cur) sug m m'"
proof -
  have "Index cur \<noteq> -1" using assms by (metis word_order.extremum_strict)
  note s = word_succ(2,3) [OF this] word_succ(2,3) [OF assms(2)]
  let ?lo = "Index cur + 1"
  let ?m1 = "ClearRawRange (RaftLogKey i ?lo) (RaftLogKey i (Index sug + 1)) m"
  let ?m2 = "clearedLog (bufRaftLogPrefix (MakeRangeIDPrefixBuf i)) ?lo (Index sug) m"
  have l: "m' (RaftLogKey r j) = (if r = i \<and> Index cur < j \<and> j \<le> Index sug then None else m (RaftLogKey r j))"
    if "m' = ?m1 \<or> m' = ?m2" for m' r j
    using that by (auto simp: ClearRawRange_def clearedLog_def RaftLogKey_buf RaftLogKey_eq RaftLogKey_le RaftLogKey_less s)
  have t: "truncatedLog i (Index cur) sug m (m'(RaftTruncatedStateKey i \<mapsto> TruncatedStateProto sug))" if "m' = ?m1 \<or> m' = ?m2" for m'
    using l [OF that] RaftTruncatedStateKey_neq [of i] by (simp add: truncatedLog_def) metis
  note d = handleTruncatedStateBelowRaftPreApply_def [of e i cur sug m, unfolded Let_def RaftLogKey_buf RaftTruncatedStateKey_def [symmetric]]
  let ?fails = "if clearRangeThreshold e \<le> Index sug - Index cur then clearRangeFails e else
    (\<exists>j. ?lo \<le> j \<and> j \<le> Index sug \<and> clearFails e (RaftLogKey i j))"
  show thesis
  proof (cases "?fails \<or> putFails e")
    case True
    then have "\<not> noEngineFaults e" by (auto simp: noEngineFaults_def split: if_splits)
    moreover have "\<exists>err. handleTruncatedStateBelowRaftPreApply e i cur sug m = Some (Inl err)"
      using True assms unfolding d by (auto simp: clearEntries_eq RaftLogKey_buf split: if_splits)
    ultimately show thesis using error by blast
  next
    case False
    then have "\<exists>m'. (m' = ?m1 \<or> m' = ?m2) \<and> handleTruncatedStateBelowRaftPreApply e i cur sug m =
        Some (Inr (True, m'(RaftTruncatedStateKey i \<mapsto> TruncatedStateProto sug)))"
      using assms unfolding d by (auto simp: clearEntries_eq RaftLogKey_buf not_le split: if_splits)
    then show thesis using ok t by blast
  qed
qed

subsection \<open>The queue of a replica\<close>

text \<open>The contract of a queue: what its test, its front and its removal mean for the elements it holds.\<close>

locale fifo =
  fixes inv :: "'q \<Rightarrow> bool" and elems :: "'q \<Rightarrow> 'a list" and isEmpty :: "'q \<Rightarrow> bool" and front :: "'q \<Rightarrow> 'a" and pop :: "'q \<Rightarrow> 'q"
  assumes inv_pop: "inv q \<Longrightarrow> inv (pop q)"
    and elems_pop: "inv q \<Longrightarrow> elems (pop q) = tl (elems q)"
    and empty_iff: "isEmpty q \<longleftrightarrow> elems q = []"
    and front_hd: "\<not> isEmpty q \<Longrightarrow> front q = hd (elems q)"
begin

lemma front_pop: "inv q \<Longrightarrow> \<not> isEmpty q \<Longrightarrow> elems q = front q # elems (pop q)"
  by (simp add: elems_pop front_hd empty_iff)

lemma pops: "inv q \<Longrightarrow> inv ((pop ^^ n) q) \<and> elems ((pop ^^ n) q) = drop n (elems q)"
  by (induction n) (auto simp: inv_pop elems_pop drop_Suc drop_tl)

end

text \<open>The invariants of \<open>pendingLogTruncations\<close>, and that no truncation goes to the greatest index, which keeps the
  clearing loop from running for ever.\<close>

definition queue_ok :: "pendingLogTruncations \<Rightarrow> bool" where
  "queue_ok p \<longleftrightarrow> (fst p = noTruncation \<longrightarrow> snd p = noTruncation) \<and> (snd p \<noteq> noTruncation \<longrightarrow> TIndex (fst p) < TIndex (snd p))"

definition queued :: "pendingLogTruncations \<Rightarrow> pendingTruncation list" where
  "queued p = (if fst p = noTruncation then [] else if snd p = noTruncation then [fst p] else [fst p, snd p])"

definition bounded :: "pendingLogTruncations \<Rightarrow> bool" where
  "bounded p \<longleftrightarrow> list_all (\<lambda>x. TIndex x \<noteq> -1) (queued p)"

lemma TruncateLog_bounded:
  assumes "TruncateLog c args = Inr (Some (trunc, delta, ex))"
  shows "Index trunc \<noteq> -1" "Index trunc < reqIndex args"
proof -
  have "GetFirstIndex c < reqIndex args" "Index trunc = reqIndex args - 1"
    using assms by (auto simp: TruncateLog_def rbind_Inr_conv Let_def split: if_splits)
  then have "reqIndex args \<noteq> 0" "Index trunc + 1 = reqIndex args" using word_gt_0_no by auto
  then show "Index trunc \<noteq> -1" by auto
  then show "Index trunc < reqIndex args" using word_succ(2) [of "Index trunc" "Index trunc"] \<open>Index trunc + 1 = reqIndex args\<close> by simp
qed

interpretation truncs: fifo queue_ok queued isEmptyLocked frontLocked popLocked
  by unfold_locales (auto simp: queue_ok_def popLocked_def queued_def isEmptyLocked_def frontLocked_def)

lemmas queued_empty = truncs.empty_iff

lemma queued_sorted: "queue_ok p \<Longrightarrow> sorted_wrt (\<lambda>a b. TIndex a < TIndex b) (queued p)"
  by (auto simp: queued_def queue_ok_def)

lemma iterate_queued: "queue_ok p \<Longrightarrow> iterateLocked f p s = fold (\<lambda>(i, t). f i t) (List.enumerate 0 (queued p)) s"
  by (auto simp: iterateLocked_def queued_def queue_ok_def)

declare reset.simps [simp del] dropNoops.simps [simp del]

lemma reset_empty: "queue_ok p \<Longrightarrow> reset p = (noTruncation, noTruncation)"
proof (induction p rule: reset.induct)
  case (1 p)
  show ?case
  proof (cases "isEmptyLocked p")
    case True
    then show ?thesis using 1(2) by (subst reset.simps) (auto simp: isEmptyLocked_def queue_ok_def prod_eq_iff)
  next
    case False
    then show ?thesis using 1 by (simp add: reset.simps [of p] truncs.inv_pop)
  qed
qed

lemma dropNoops_queued:
  "queue_ok p \<Longrightarrow> queue_ok (dropNoops i p) \<and> queued (dropNoops i p) = dropWhile (\<lambda>t. TIndex t \<le> i) (queued p)"
proof (induction i p rule: dropNoops.induct)
  case (1 i p)
  show ?case
  proof (cases "\<not> isEmptyLocked p \<and> TIndex (frontLocked p) \<le> i")
    case True
    then have "queued p = frontLocked p # queued (popLocked p)" using 1(2) truncs.front_pop by blast
    then show ?thesis using 1(1) [OF True truncs.inv_pop [OF 1(2)]] True by (simp add: dropNoops.simps [of i p])
  next
    case False
    then have "dropNoops i p = p" by (subst dropNoops.simps) auto
    then show ?thesis using False 1(2) by (cases "queued p") (auto simp: queued_empty truncs.front_hd)
  qed
qed

text \<open>Adding a truncation: the queue stays in order, and the range is queued when its first truncation is.\<close>

lemma iterate_last:
  "iterateLocked (\<lambda>index t (i, a). (Some index, if TIndex t > a then TIndex t else a)) p (None, c) =
    (if snd p \<noteq> noTruncation then Some 1 else if fst p \<noteq> noTruncation then Some 0 else None,
     max (if fst p \<noteq> noTruncation then max c (TIndex (fst p)) else c) (if snd p \<noteq> noTruncation then TIndex (snd p) else 0))"
  by (auto simp: iterateLocked_def max_def word_greater_zero_iff)

lemma newPending_cases:
  assumes "queue_ok (pendingTruncs r)" "newPendingTruncation e r trunc ex delta = Some (pos, merge, pt)"
  shows "TruncState pt = trunc" "\<And>q. q \<in> set (queued (pendingTruncs r)) \<Longrightarrow> TIndex q < Index trunc" "Index (TruncatedState r) < Index trunc"
    "pos = (if isEmptyLocked (pendingTruncs r) then 0 else 1)" "merge \<longleftrightarrow> length (queued (pendingTruncs r)) = 2"
proof -
  show "TruncState pt = trunc" "pos = (if isEmptyLocked (pendingTruncs r) then 0 else 1)" "merge \<longleftrightarrow> length (queued (pendingTruncs r)) = 2"
    "Index (TruncatedState r) < Index trunc"
    using assms by (auto simp: newPendingTruncation_def iterate_last Let_def queue_ok_def queued_def isEmptyLocked_def not_le split: if_splits prod.splits)
  show "TIndex q < Index trunc" if "q \<in> set (queued (pendingTruncs r))" for q
    using assms that by (auto simp: newPendingTruncation_def iterate_last Let_def queue_ok_def queued_def not_le split: if_splits prod.splits)
qed

lemma addPending_returns: "queue_ok (pendingTruncs r) \<Longrightarrow> \<exists>t'. addPendingTruncation e i r trunc ex delta t = Inr t'"
proof (cases "newPendingTruncation e r trunc ex delta")
  case (Some x)
  assume q: "queue_ok (pendingTruncs r)"
  obtain pos merge pt where x: "x = (pos, merge, pt)" by (cases x)
  have "\<not> (pos = 0 \<and> merge)" using newPending_cases(4,5) [OF q Some [unfolded x]] by (auto simp: queued_empty split: if_splits)
  then show ?thesis by (auto simp: addPendingTruncation_def Some x Let_def)
qed (simp add: addPendingTruncation_def)

subsection \<open>Enacting truncations\<close>

text \<open>The replica, the sets of ranges and the flags after a try; whatever happens, the range is queued again exactly if its queue is
  not empty.\<close>

definition within :: "pendingLogTruncations \<Rightarrow> pendingLogTruncations \<Rightarrow> bool" where
  "within p p' \<longleftrightarrow> queue_ok p' \<and> set (queued p') \<subseteq> set (queued p)"

lemma tryEnact_frame:
  assumes "tryEnactTruncations e i t = Some t'" "replicas t i = Some r" "queue_ok (pendingTruncs r)"
  shows "\<exists>r'. replicas t' = (replicas t)(i \<mapsto> r') \<and> within (pendingTruncs r) (pendingTruncs r') \<and>
    addRanges t' = (if isEmptyLocked (pendingTruncs r') then addRanges t else List.insert i (addRanges t)) \<and>
    drainRanges t' = drainRanges t \<and> runningTruncation t' = runningTruncation t \<and> queuedDurabilityCB t' = queuedDurabilityCB t"
proof -
  let ?p = "dropNoops (Index (TruncatedState r)) (pendingTruncs r)"
  have q: "queue_ok ?p" "within (pendingTruncs r) ?p" using dropNoops_queued [OF assms(3)] by (auto simp: within_def dest: set_dropWhileD)
  have r: "isEmptyLocked (reset ?p)" "within (pendingTruncs r) (reset ?p)"
    by (simp_all add: reset_empty [OF q(1)] isEmptyLocked_def within_def queue_ok_def queued_def)
  have d: "within (pendingTruncs r) ((popLocked ^^ n) ?p)" for n
    using truncs.pops [OF q(1), of n] q(2) set_drop_subset [of n "queued ?p"] by (auto simp: within_def)
  show ?thesis using assms(1) q(2) r d unfolding tryEnactTruncations_def assms(2) Let_def option.case
    by (auto simp: enqueueRange_def simp del: funpow.simps split: option.splits sum.splits if_splits prod.splits)
qed

lemma tryEnact_None: "replicas t i = None \<Longrightarrow> tryEnactTruncations e i t = Some t"
  by (simp add: tryEnactTruncations_def)

lemma enactOne_simps [simp]:
  "TruncatedState (enactOne e q r) = TruncState q" "pendingTruncs (enactOne e q r) = pendingTruncs r"
  "raftLogSize (enactOne e q r) = (if sint (raftLogSize r + logDeltaBytes q) < 0 then 0 else raftLogSize r + logDeltaBytes q)"
  by (auto simp: enactOne_def setTruncatedStateAndSideEffects_def handleTruncatedStateResult_def setTruncationDeltaAndTrusted_def
      Let_def split: prod.split)

lemma fold_enactOne: "es \<noteq> [] \<Longrightarrow> TruncatedState (fold (enactOne e) es r) = TruncState (last es)"
  "pendingTruncs (fold (enactOne e) es r) = pendingTruncs r"
  by (induction es arbitrary: r) auto

lemma queue_cases:
  assumes "queue_ok p"
  obtains (zero) "p = (noTruncation, noTruncation)" | (one) a where "p = (a, noTruncation)" "a \<noteq> noTruncation"
  | (two) a b where "p = (a, b)" "a \<noteq> noTruncation" "b \<noteq> noTruncation" "TIndex a < TIndex b"
  using assms by (cases p) (auto simp: queue_ok_def)

lemma enactIndex:
  assumes "queue_ok p"
  shows "iterateLocked (\<lambda>index trunc i. if TIndex trunc > a then i else Some index) p None =
    (case takeWhile (\<lambda>q. TIndex q \<le> a) (queued p) of [] \<Rightarrow> None | es \<Rightarrow> Some (length es - 1))"
  using assms by (cases rule: queue_cases) (auto simp: iterateLocked_def queued_def not_less)

lemma enact_queued:
  assumes "queue_ok p" "es = takeWhile (\<lambda>q. TIndex q \<le> a) (queued p)" "es \<noteq> []" "n = length es - 1"
  shows "(if n = 0 then fst p else snd p) = last es"
    "iterateLocked (\<lambda>index trunc r. if index > n then r else enactOne e trunc r) p r = fold (enactOne e) es r"
    "queued ((popLocked ^^ (n + 1)) p) = dropWhile (\<lambda>q. TIndex q \<le> a) (queued p)"
  using assms by (cases rule: queue_cases; auto simp: iterateLocked_def queued_def popLocked_def split: if_splits)+

lemma dropWhile_above: "sorted_wrt (\<lambda>a b. f a < f b) xs \<Longrightarrow> x \<in> set (dropWhile (\<lambda>x. f x \<le> c) xs) \<Longrightarrow> c < f x" for c :: uint64
  by (induction xs) (auto simp: not_le split: if_splits)

lemma tryEnact_cases:
  assumes r: "replicas t i = Some r" and q: "queue_ok (pendingTruncs r)"
    and bound: "\<And>x. x \<in> set (queued (pendingTruncs r)) \<Longrightarrow> TIndex x \<noteq> -1"
    and qs: "qs = dropWhile (\<lambda>x. TIndex x \<le> Index (TruncatedState r)) (queued (pendingTruncs r))"
  obtains (kept) t' p where "tryEnactTruncations e i t = Some t'" "replicas t' = (replicas t)(i \<mapsto> r\<lparr>pendingTruncs := p\<rparr>)"
      "logEngine t' = logEngine t" "queued p = [] \<or> queued p = qs"
      "\<And>a. noEngineFaults e \<Longrightarrow> durableAppliedIndex e i = Some a \<Longrightarrow> takeWhile (\<lambda>x. TIndex x \<le> a) qs = []"
  | (enacted) t' p es a where "tryEnactTruncations e i t = Some t'" "durableAppliedIndex e i = Some a"
      "es = takeWhile (\<lambda>x. TIndex x \<le> a) qs" "es \<noteq> []"
      "replicas t' = (replicas t)(i \<mapsto> (fold (enactOne (fsEnv e)) es r)\<lparr>pendingTruncs := p\<rparr>)"
      "queued p = dropWhile (\<lambda>x. TIndex x \<le> a) qs" "Index (TruncatedState r) < TIndex (last es)"
      "truncatedLog i (Index (TruncatedState r)) (TruncState (last es)) (logEngine t) (logEngine t')"
proof -
  let ?p = "dropNoops (Index (TruncatedState r)) (pendingTruncs r)"
  have p: "queue_ok ?p" "queued ?p = qs" using dropNoops_queued [OF q] qs by simp_all
  have z: "queued (reset ?p) = []" by (simp add: reset_empty [OF p(1)] queued_def)
  note d = tryEnactTruncations_def [of e i t, unfolded r Let_def option.case]
  consider (empty) "qs = []" | (error) "qs \<noteq> []" "durableAppliedIndex e i = None"
    | (early) a where "qs \<noteq> []" "durableAppliedIndex e i = Some a" "takeWhile (\<lambda>x. TIndex x \<le> a) qs = []"
    | (go) a es where "qs \<noteq> []" "durableAppliedIndex e i = Some a" "es = takeWhile (\<lambda>x. TIndex x \<le> a) qs" "es \<noteq> []"
    by (cases "qs = []"; cases "durableAppliedIndex e i") auto
  then show thesis
  proof cases
    case empty
    then show thesis using kept [of "t\<lparr>replicas := (replicas t)(i \<mapsto> r\<lparr>pendingTruncs := ?p\<rparr>)\<rparr>" ?p] p(2)
      by (simp add: d queued_empty)
  next
    case error
    then show thesis using kept [of "t\<lparr>replicas := (replicas t)(i \<mapsto> r\<lparr>pendingTruncs := reset ?p\<rparr>)\<rparr>" "reset ?p"] p(2) z
      by (simp add: d queued_empty)
  next
    case early
    then show thesis using kept [of "enqueueRange i (t\<lparr>replicas := (replicas t)(i \<mapsto> r\<lparr>pendingTruncs := ?p\<rparr>)\<rparr>)" ?p] p(2)
      by (auto simp: d queued_empty enactIndex [OF p(1)] enqueueRange_def)
  next
    case go
    let ?n = "length es - 1"
    let ?drop = "t\<lparr>replicas := (replicas t)(i \<mapsto> r\<lparr>pendingTruncs := reset ?p\<rparr>)\<rparr>"
    let ?ts = "TruncState (last es)"
    note es = enact_queued [OF p(1) go(3) [folded p(2)] go(4) refl]
    have ei: "iterateLocked (\<lambda>index trunc i. if TIndex trunc > a then i else Some index) ?p None = Some ?n"
      using go(3,4) by (simp add: enactIndex [OF p(1)] p(2) split: list.split)
    have last: "last es \<in> set qs" "last es \<in> set (queued (pendingTruncs r))"
      using last_in_set [OF go(4)] set_takeWhileD set_dropWhileD unfolding go(3) qs by metis+
    have lt: "Index (TruncatedState r) < TIndex (last es)"
      using dropWhile_above [OF queued_sorted [OF q]] last(1) unfolding qs by blast
    consider (error) err where "handleTruncatedStateBelowRaftPreApply e i (TruncatedState r) ?ts (logEngine t) = Some (Inl err)" "\<not> noEngineFaults e"
      | (ok) m' where "handleTruncatedStateBelowRaftPreApply e i (TruncatedState r) ?ts (logEngine t) = Some (Inr (True, m'))"
          "truncatedLog i (Index (TruncatedState r)) ?ts (logEngine t) m'"
      using handle_forward [OF lt bound [OF last(2)], of e i "logEngine t"] by blast
    then show thesis
    proof cases
      case (error err)
      have "tryEnactTruncations e i t = Some ?drop" using go(1) error(1) unfolding d go(2) option.case ei es(1,2) by (simp add: queued_empty p(2))
      then show thesis using kept [of ?drop "reset ?p"] z error(2) by simp
    next
      case (ok m')
      let ?p' = "(popLocked ^^ (?n + 1)) ?p"
      let ?t = "t\<lparr>replicas := (replicas t)(i \<mapsto> (fold (enactOne (fsEnv e)) es r)\<lparr>pendingTruncs := ?p'\<rparr>), logEngine := m'\<rparr>"
      show thesis
      proof (cases "commitFails e")
        case True
        have "tryEnactTruncations e i t = Some ?drop" using go(1) ok(1) True unfolding d go(2) option.case ei es(1,2) by (simp add: queued_empty p(2))
        then show thesis using kept [of ?drop "reset ?p"] z True by (simp add: noEngineFaults_def)
      next
        case False
        have "tryEnactTruncations e i t = Some (if isEmptyLocked ?p' then ?t else enqueueRange i ?t)"
          using go(1) ok(1) False unfolding d go(2) option.case ei es(1,2) by (simp add: queued_empty p(2) del: funpow.simps)
        then show thesis
          using enacted [of "if isEmptyLocked ?p' then ?t else enqueueRange i ?t" a es ?p'] go es(3) [unfolded p(2)] ok(2) lt
          by (simp add: enqueueRange_def del: funpow.simps)
      qed
    qed
  qed
qed

subsection \<open>The invariant of runs\<close>

primrec draining :: "worker \<Rightarrow> int64 set" where
  "draining Idle = {}"
| "draining Starting = {}"
| "draining Ready = {}"
| "draining (Draining ranges) = set ranges"

definition tinv :: "bool \<Rightarrow> worker \<Rightarrow> raftLogTruncator \<Rightarrow> bool" where
  "tinv stopping w t \<longleftrightarrow> drainRanges t = [] \<and> (runningTruncation t \<longleftrightarrow> w \<noteq> Idle) \<and>
    (\<forall>i r. replicas t i = Some r \<longrightarrow> queue_ok (pendingTruncs r) \<and> bounded (pendingTruncs r)) \<and>
    (\<not> stopping \<longrightarrow> (queuedDurabilityCB t \<longrightarrow> w \<noteq> Idle) \<and>
      (\<forall>i r. replicas t i = Some r \<and> \<not> isEmptyLocked (pendingTruncs r) \<longrightarrow> i \<in> set (addRanges t) \<union> draining w))"

lemma addPending_tinv:
  assumes "tinv stopping w t" "replicas t i = Some r" "addPendingTruncation fe i r trunc ex delta t = Inr t'" "Index trunc \<noteq> -1"
  shows "tinv stopping w t'"
proof (cases "newPendingTruncation fe r trunc ex delta")
  case None
  then show ?thesis using assms by (simp add: addPendingTruncation_def)
next
  case (Some x)
  obtain pos merge pt where x: "x = (pos, merge, pt)" by (cases x)
  have q: "queue_ok (pendingTruncs r)" "bounded (pendingTruncs r)" using assms(1,2) by (auto simp: tinv_def)
  note n = newPending_cases [OF q(1) Some [unfolded x]]
  let ?p = "if pos = 0 then (pt, snd (pendingTruncs r)) else (fst (pendingTruncs r), pt)"
  have "pt \<noteq> noTruncation" using n(1,3) by auto
  then have "queue_ok ?p" "bounded ?p"
    using n(1,2,4) q assms(4) by (auto simp: queue_ok_def bounded_def queued_def isEmptyLocked_def split: if_splits)
  moreover have "t' = (let t1 = t\<lparr>replicas := (replicas t)(i \<mapsto> r\<lparr>pendingTruncs := ?p\<rparr>)\<rparr> in if pos = 0 then enqueueRange i t1 else t1)"
    using assms(3) by (auto simp: addPendingTruncation_def Some x Let_def split: if_splits)
  ultimately show ?thesis using assms(1,2) n(4) by (auto simp: tinv_def Let_def enqueueRange_def split: if_splits)
qed

lemma tryEnact_tinv:
  assumes "tinv stopping (Draining (i # ranges)) t" "tryEnactTruncations e i t = Some t'" "stopping \<or> ranges' = ranges"
  shows "tinv stopping (Draining ranges') t'"
proof (cases "replicas t i")
  case None
  then show ?thesis using assms by (auto simp: tinv_def tryEnact_None)
next
  case (Some r)
  then have qb: "queue_ok (pendingTruncs r)" "bounded (pendingTruncs r)" using assms(1) by (auto simp: tinv_def)
  from tryEnact_frame [OF assms(2) Some this(1)] obtain r' where f: "replicas t' = (replicas t)(i \<mapsto> r')" "within (pendingTruncs r) (pendingTruncs r')"
      "addRanges t' = (if isEmptyLocked (pendingTruncs r') then addRanges t else List.insert i (addRanges t))"
      "drainRanges t' = drainRanges t" "runningTruncation t' = runningTruncation t" "queuedDurabilityCB t' = queuedDurabilityCB t" by blast
  have "bounded (pendingTruncs r')" "queue_ok (pendingTruncs r')" using qb(2) f(2) by (auto simp: bounded_def list_all_iff within_def)
  then have q: "queue_ok (pendingTruncs s) \<and> bounded (pendingTruncs s)" if "replicas t' j = Some s" for j s
    using that f(1) assms(1) by (auto simp: tinv_def split: if_splits)
  have a: "j \<in> set (addRanges t') \<union> set ranges'" if "\<not> stopping" "replicas t' j = Some s" "\<not> isEmptyLocked (pendingTruncs s)" for j s
  proof (cases "j = i")
    case True
    then show ?thesis using that f(1,3) by simp
  next
    case False
    then have "j \<in> set (addRanges t) \<union> set ranges'" using that f(1) assms(1,3) by (auto simp: tinv_def)
    then show ?thesis using f(3) by auto
  qed
  have "drainRanges t' = []" "runningTruncation t'" using f(4,5) assms(1) by (simp_all add: tinv_def)
  then show ?thesis unfolding tinv_def draining.simps using q a by (intro conjI allI impI) (simp, simp, blast, blast, simp, blast)
qed

lemma tstep_tinv: "tstep stopping c c' \<Longrightarrow> tinv stopping (fst c) (snd c) \<Longrightarrow> tinv stopping (fst c') (snd c')"
proof (induction rule: tstep.induct)
  case (add t i r c args trunc delta exp fe t' w)
  then show ?case using addPending_tinv TruncateLog_bounded(1) by simp
next
  case (other t t' w)
  then show ?case by (fastforce simp: tinv_def otherChange_def queue_ok_def isEmptyLocked_def bounded_def queued_def)
next
  case (enact e i t t' ranges)
  then show ?case using tryEnact_tinv [of stopping i ranges t e t'] by auto
qed (auto simp: tinv_def durabilityAdvancedCallback_def taskNotStarted_def takeRanges_def finishRound_def Let_def split: if_splits)

lemma run_tinv: "(tstep stopping)\<^sup>*\<^sup>* c c' \<Longrightarrow> tinv stopping (fst c) (snd c) \<Longrightarrow> tinv stopping (fst c') (snd c')"
  by (induction rule: rtranclp_induct) (auto dest: tstep_tinv)

lemma tinv_make: "tinv stopping Idle makeRaftLogTruncator"
  by (simp add: tinv_def makeRaftLogTruncator_def)

subsection \<open>What is announced of the log\<close>

text \<open>The size and the first index that the log queue uses are those after all pending truncations.\<close>

lemma max_succ: "i \<noteq> -1 \<Longrightarrow> a \<noteq> -1 \<Longrightarrow> (if i + 1 < a + 1 then a + 1 else i + 1) = max a i + 1" for i a :: uint64
  by (simp add: word_succ max_def not_le [symmetric])

lemma postTruncFirstIndex:
  assumes "queue_ok p" "\<And>x. x \<in> set (queued p) \<Longrightarrow> TIndex x \<noteq> -1" "i \<noteq> -1"
  shows "computePostTruncFirstIndex p (i + 1) = fold max (map TIndex (queued p)) i + 1"
proof -
  have m: "fold (\<lambda>x j. if j < firstIndexAfterTrunc x then firstIndexAfterTrunc x else j) xs (i + 1) = fold max (map TIndex xs) i + 1"
    if "\<And>x. x \<in> set xs \<Longrightarrow> TIndex x \<noteq> -1" "i \<noteq> -1" for xs i using that
  proof (induction xs arbitrary: i)
    case (Cons x xs)
    have "max (TIndex x) i \<noteq> -1" using Cons.prems by (simp add: max_def)
    moreover have "(if i + 1 < firstIndexAfterTrunc x then firstIndexAfterTrunc x else i + 1) = max (TIndex x) i + 1"
      unfolding firstIndexAfterTrunc_def by (rule max_succ [OF Cons.prems(2) Cons.prems(1) [of x]]) simp
    ultimately show ?case using Cons.IH [of "max (TIndex x) i", OF Cons.prems(1) [OF list.set_intros(2)]] by (simp only: fold_simps list.map simp_thms)
  qed simp
  have en: "fold (\<lambda>(i, t). f t) (List.enumerate n xs) j = fold f xs j" for f n and xs :: "pendingTruncation list" and j :: uint64
    by (induction xs arbitrary: n j) simp_all
  show ?thesis unfolding computePostTruncFirstIndex_def iterate_queued [OF assms(1)] en by (rule m [OF assms(2,3)])
qed

lemma fold_max_sorted:
  "sorted_wrt (\<lambda>a b. f a < f b) xs \<Longrightarrow>
    fold max (map f xs) i = (case dropWhile (\<lambda>x. f x \<le> i) xs of [] \<Rightarrow> i | ys \<Rightarrow> f (last ys))" for i :: uint64
proof (induction xs arbitrary: i)
  case (Cons x xs)
  show ?case
  proof (cases "f x \<le> i")
    case True
    then show ?thesis using Cons by (simp add: max_def)
  next
    case False
    then have "max (f x) i = f x" by (simp add: max_def)
    moreover have "dropWhile (\<lambda>y. f y \<le> f x) xs = xs" using Cons.prems by (cases xs) auto
    ultimately show ?thesis using False Cons.IH [of "f x"] Cons.prems by (simp split: list.split)
  qed
qed simp

lemma sint_add: "- (2 ^ 63) \<le> sint a + sint b \<Longrightarrow> sint a + sint b < 2 ^ 63 \<Longrightarrow> sint (a + b) = sint a + sint b" for a b :: int64
  by (simp add: sint_word_ariths signed_take_bit_int_eq_self)

definition clampAdd :: "int64 \<Rightarrow> int64 \<Rightarrow> int64" where
  "clampAdd s d = (if sint (s + d) < 0 then 0 else s + d)"

text \<open>Deltas are not positive and, together, fit the type.\<close>

definition deltas_ok :: "pendingLogTruncations \<Rightarrow> bool" where
  "deltas_ok p \<longleftrightarrow> sint (logDeltaBytes (fst p)) \<le> 0 \<and> sint (logDeltaBytes (snd p)) \<le> 0 \<and>
    - (2 ^ 63) \<le> sint (logDeltaBytes (fst p)) + sint (logDeltaBytes (snd p))"

lemma clampAdd_twice:
  assumes "0 \<le> sint s" "sint a \<le> 0" "sint b \<le> 0" "- (2 ^ 63) \<le> sint a + sint b"
  shows "clampAdd (clampAdd s a) b = clampAdd (s + a) b"
proof -
  have u: "sint s < 2 ^ 63" using sint_bounds(2) [of s] sint_range_size [of s] by (simp add: word_size)
  have sa: "sint (s + a) = sint s + sint a" and sab: "sint (s + a + b) = sint s + sint a + sint b"
    using sint_add [of s a] sint_add [of "s + a" b] assms u by simp_all
  have "sint b = 0 \<Longrightarrow> b = 0" by (metis sint_eq_iff sint_0)
  then show ?thesis using sa sab assms by (auto simp: clampAdd_def)
qed

lemma raftLogSize_fold: "raftLogSize (fold (enactOne e) es r) = fold (\<lambda>q s. clampAdd s (logDeltaBytes q)) es (raftLogSize r)"
  by (induction es arbitrary: r) (simp_all add: clampAdd_def)

lemma postTruncLogSize:
  assumes "queue_ok p" "deltas_ok p" "0 \<le> sint s"
  shows "computePostTruncLogSize p s = fold (\<lambda>q s. clampAdd s (logDeltaBytes q)) (queued p) s"
  using assms(1)
proof (cases rule: queue_cases)
  case zero
  then show ?thesis using assms by (simp add: computePostTruncLogSize_def iterateLocked_def queued_def)
next
  case (one a)
  then show ?thesis by (simp add: computePostTruncLogSize_def iterateLocked_def queued_def clampAdd_def Let_def)
next
  case (two a b)
  then show ?thesis using clampAdd_twice [of s "logDeltaBytes a" "logDeltaBytes b"] assms(2,3)
    by (simp add: computePostTruncLogSize_def iterateLocked_def queued_def deltas_ok_def Let_def) (simp add: clampAdd_def)
qed

subsection \<open>Properties\<close>

text \<open>C12: in every run of the truncator, with any interleaving of new truncations, changes of replicas and engine by other
  code, callbacks and the background task, the queues of the replicas keep their invariants and hold no truncation to the greatest index, the task runs exactly while
  the truncator is marked as running, and none of the assertions panics.  Unless the store is stopping, every replica with
  pending truncations is queued or among the ranges the task still has to work on, so that no truncation is forgotten, and
  a callback that came during a round is only noted while the task is there to see it.\<close>

theorem truncator_invariant:
  assumes "(tstep stopping)\<^sup>*\<^sup>* (Idle, makeRaftLogTruncator) (w, t)"
  shows "(\<forall>i r. replicas t i = Some r \<longrightarrow> queue_ok (pendingTruncs r) \<and> bounded (pendingTruncs r) \<and>
      (\<forall>e trunc ex delta. \<exists>t'. addPendingTruncation e i r trunc ex delta t = Inr t')) \<and>
    (runningTruncation t \<longleftrightarrow> w \<noteq> Idle) \<and> (w = Starting \<longrightarrow> (\<exists>t'. taskNotStarted t = Inr t')) \<and>
    (\<not> stopping \<longrightarrow> (queuedDurabilityCB t \<longrightarrow> w \<noteq> Idle) \<and>
      (\<forall>i r. replicas t i = Some r \<and> \<not> isEmptyLocked (pendingTruncs r) \<longrightarrow> i \<in> set (addRanges t) \<union> draining w))"
proof -
  have inv: "tinv stopping w t" using run_tinv [OF assms] tinv_make by simp
  then have "w = Starting \<longrightarrow> (\<exists>t'. taskNotStarted t = Inr t')" by (simp add: tinv_def taskNotStarted_def)
  then show ?thesis using inv addPending_returns unfolding tinv_def by blast
qed

definition exReplica :: "pendingLogTruncations \<Rightarrow> Replica" where
  "exReplica p = \<lparr>TruncatedState = \<lparr>Index = 3, Term = 1\<rparr>, raftLogSize = 90, raftLogLastCheckSize = 90, raftLogSizeTrusted = True,
    pendingTruncs = p, sideloaded = [], raftEntryCache = {}\<rparr>"

definition exTrunc :: pendingTruncation where
  "exTrunc = \<lparr>TruncState = \<lparr>Index = 7, Term = 1\<rparr>, expectedFirstIndex = 4, logDeltaBytes = -40, isDeltaTrusted = True\<rparr>"

theorem truncator_invariant_witness:
  "let t = makeRaftLogTruncator\<lparr>replicas := [1 \<mapsto> exReplica (exTrunc, noTruncation)], addRanges := [1]\<rparr>
   in queue_ok (exTrunc, noTruncation) \<and> bounded (exTrunc, noTruncation) \<and> 1 \<in> set (addRanges t) \<union> draining Idle"
proof -
  let ?s = "makeRaftLogTruncator\<lparr>replicas := [1 \<mapsto> exReplica (noTruncation, noTruncation)]\<rparr>"
  let ?t = "makeRaftLogTruncator\<lparr>replicas := [1 \<mapsto> exReplica (exTrunc, noTruncation)], addRanges := [1]\<rparr>"
  have "tstep False (Idle, makeRaftLogTruncator) (Idle, ?s)"
  proof (rule tstep.other)
    show "otherChange makeRaftLogTruncator ?s" unfolding otherChange_def makeRaftLogTruncator_def
      by (intro conjI) (simp_all, simp add: exReplica_def)
  qed
  moreover have "tstep False (Idle, ?s) (Idle, ?t)"
  proof (rule tstep.add)
    show "replicas ?s 1 = Some (exReplica (noTruncation, noTruncation))" by simp
    let ?c = "\<lparr>GetRangeID = 1, GetFirstIndex = 4, GetTerm = (\<lambda>_. Inr 1), sysBytes = (\<lambda>_ _. Inr 40)\<rparr>"
    show "TruncateLog ?c \<lparr>reqIndex = 8, reqRangeID = 1, ExpectedFirstIndex = 4\<rparr> = Inr (Some (\<lparr>Index = 7, Term = 1\<rparr>, -40, 4))"
      by (simp add: TruncateLog_def)
    show "addPendingTruncation \<lparr>listFails = False, fileFails = \<lambda>_. False\<rparr> 1 (exReplica (noTruncation, noTruncation)) \<lparr>Index = 7, Term = 1\<rparr> 4 (-40) ?s = Inr ?t"
      by (simp add: addPendingTruncation_def newPendingTruncation_def iterateLocked_def sideloadedBytesIfTruncatedFromTo_def exReplica_def
          BytesIfTruncatedFromTo_def possiblyTruncateTo_def enqueueRange_def makeRaftLogTruncator_def exTrunc_def)
  qed
  ultimately have "(tstep False)\<^sup>*\<^sup>* (Idle, makeRaftLogTruncator) (Idle, ?t)" by (meson converse_rtranclp_into_rtranclp r_into_rtranclp)
  note inv = truncator_invariant [OF this]
  have r: "replicas ?t 1 = Some (exReplica (exTrunc, noTruncation))" by simp
  have "\<not> isEmptyLocked (pendingTruncs (exReplica (exTrunc, noTruncation)))" by (simp add: exReplica_def isEmptyLocked_def exTrunc_def)
  then have "1 \<in> set (addRanges ?t) \<union> draining Idle" "queue_ok (pendingTruncs (exReplica (exTrunc, noTruncation)))"
      "bounded (pendingTruncs (exReplica (exTrunc, noTruncation)))"
    using inv r by blast+
  then show ?thesis by (simp add: exReplica_def)
qed

text \<open>C11: a try to enact the truncations of a replica returns, and touches no other replica.  It never moves the
  truncated index back nor past the applied index that is durable; if it moves it, the log loses the entries in between,
  whether by one range deletion or entry by entry, and nothing else, no log of another range either, and the truncated state
  is stored; otherwise the engine stays as it is.  If the engine does not fail and everything pending is durable, the queue is empty
  afterwards, and the first index and, if no pending truncation was overtaken, the size of the log are those that were
  announced before.\<close>

theorem truncations_enacted:
  assumes r: "replicas t i = Some r" and q: "queue_ok (pendingTruncs r)"
    and bound: "bounded (pendingTruncs r)" "Index (TruncatedState r) \<noteq> -1"
  shows "\<exists>t' r'. tryEnactTruncations e i t = Some t' \<and> replicas t' = (replicas t)(i \<mapsto> r') \<and>
    Index (TruncatedState r) \<le> Index (TruncatedState r') \<and>
    (if TruncatedState r' = TruncatedState r then logEngine t' = logEngine t
     else truncatedLog i (Index (TruncatedState r)) (TruncatedState r') (logEngine t) (logEngine t') \<and>
       (\<exists>a. durableAppliedIndex e i = Some a \<and> Index (TruncatedState r') \<le> a)) \<and>
    (\<forall>a. noEngineFaults e \<and> durableAppliedIndex e i = Some a \<and> list_all (\<lambda>x. TIndex x \<le> a) (queued (pendingTruncs r)) \<longrightarrow>
      isEmptyLocked (pendingTruncs r') \<and>
      Index (TruncatedState r') + 1 = computePostTruncFirstIndex (pendingTruncs r) (Index (TruncatedState r) + 1) \<and>
      (list_all (\<lambda>x. Index (TruncatedState r) < TIndex x) (queued (pendingTruncs r)) \<and> deltas_ok (pendingTruncs r) \<and> 0 \<le> sint (raftLogSize r) \<longrightarrow>
        raftLogSize r' = computePostTruncLogSize (pendingTruncs r) (raftLogSize r)))"
proof -
  let ?i = "Index (TruncatedState r)" and ?qs = "queued (pendingTruncs r)"
  let ?d = "dropWhile (\<lambda>x. TIndex x \<le> ?i) ?qs"
  have b: "x \<in> set ?qs \<Longrightarrow> TIndex x \<noteq> -1" for x using bound(1) by (auto simp: bounded_def list_all_iff)
  have first: "computePostTruncFirstIndex (pendingTruncs r) (?i + 1) = (case ?d of [] \<Rightarrow> ?i | ys \<Rightarrow> TIndex (last ys)) + 1"
    using postTruncFirstIndex [OF q b bound(2)] fold_max_sorted [OF queued_sorted [OF q]] by simp
  have size: "computePostTruncLogSize (pendingTruncs r) (raftLogSize r) = raftLogSize (fold (enactOne (fsEnv e)) ?qs r)"
    if "deltas_ok (pendingTruncs r)" "0 \<le> sint (raftLogSize r)" using postTruncLogSize [OF q that] by (simp add: raftLogSize_fold)
  have all: "?d = ?qs" if "list_all (\<lambda>x. ?i < TIndex x) ?qs" using that by (cases ?qs) auto
  show ?thesis
  proof (rule tryEnact_cases [OF r q _ refl, of e], goal_cases)
    case (1 x)
    then show ?case by (rule b)
  next
    case kept: (2 t' p)
    have none: "?d = []" if "noEngineFaults e" "durableAppliedIndex e i = Some a" "list_all (\<lambda>x. TIndex x \<le> a) ?qs" for a
    proof -
      have "\<forall>x \<in> set ?d. TIndex x \<le> a" using that(3) by (auto simp: list_all_iff dest: set_dropWhileD)
      then show ?thesis using kept(5) [OF that(1,2)] by (cases ?d) auto
    qed
    have "isEmptyLocked p \<and> ?i + 1 = computePostTruncFirstIndex (pendingTruncs r) (?i + 1) \<and>
        (list_all (\<lambda>x. ?i < TIndex x) ?qs \<and> deltas_ok (pendingTruncs r) \<and> 0 \<le> sint (raftLogSize r) \<longrightarrow>
          raftLogSize r = computePostTruncLogSize (pendingTruncs r) (raftLogSize r))"
      if "noEngineFaults e" "durableAppliedIndex e i = Some a" "list_all (\<lambda>x. TIndex x \<le> a) ?qs" for a
    proof -
      note d0 = none [OF that]
      have "?qs = []" if "list_all (\<lambda>x. ?i < TIndex x) ?qs" using all [OF that] d0 by simp
      then show ?thesis using size kept(4) unfolding first d0 queued_empty by auto
    qed
    then show ?thesis using kept(1-3) by (intro exI [of _ t'] exI [of _ "r\<lparr>pendingTruncs := p\<rparr>"]) simp
  next
    case enacted: (3 t' p es a)
    let ?r = "fold (enactOne (fsEnv e)) es r"
    have ts: "TruncatedState ?r = TruncState (last es)" using fold_enactOne(1) [OF enacted(4)] by simp
    have a: "TIndex (last es) \<le> a" using last_in_set [OF enacted(4)] set_takeWhileD unfolding enacted(3) by metis
    have "isEmptyLocked p \<and> TIndex (last es) + 1 = computePostTruncFirstIndex (pendingTruncs r) (?i + 1) \<and>
        (list_all (\<lambda>x. ?i < TIndex x) ?qs \<and> deltas_ok (pendingTruncs r) \<and> 0 \<le> sint (raftLogSize r) \<longrightarrow>
          raftLogSize ?r = computePostTruncLogSize (pendingTruncs r) (raftLogSize r))" if "list_all (\<lambda>x. TIndex x \<le> a) ?qs"
    proof -
      have "\<forall>x \<in> set ?d. TIndex x \<le> a" using that by (auto simp: list_all_iff dest: set_dropWhileD)
      then have d: "?d = es" and p: "queued p = []"
        using enacted(3,6) takeWhile_eq_all_conv [of "\<lambda>x. TIndex x \<le> a" ?d] dropWhile_eq_Nil_conv [of "\<lambda>x. TIndex x \<le> a" ?d] by metis+
      have c: "(case es of [] \<Rightarrow> ?i | y # ys \<Rightarrow> TIndex (last (y # ys))) = TIndex (last es)" using enacted(4) by (cases es) auto
      have "raftLogSize ?r = computePostTruncLogSize (pendingTruncs r) (raftLogSize r)"
        if "list_all (\<lambda>x. ?i < TIndex x) ?qs" "deltas_ok (pendingTruncs r)" "0 \<le> sint (raftLogSize r)"
        using size [OF that(2,3)] all [OF that(1)] d by simp
      then show ?thesis unfolding first d c queued_empty using p by blast
    qed
    then show ?thesis using enacted(1,2,5,7,8) ts a
      by (intro exI [of _ t'] exI [of _ "?r\<lparr>pendingTruncs := p\<rparr>"]) auto
  qed
qed

definition exEnv :: truncEnv where
  "exEnv = \<lparr>clearRangeThreshold = 100000, clearRangeFails = False, clearFails = (\<lambda>_. False), putFails = False, commitFails = False,
    durableAppliedIndex = (\<lambda>_. Some 9), shouldQuiesce = (\<lambda>_. False), fsEnv = \<lparr>listFails = False, fileFails = \<lambda>_. False\<rparr>\<rparr>"

theorem truncations_enacted_witness:
  "\<exists>t' r'. tryEnactTruncations exEnv 1 (makeRaftLogTruncator\<lparr>replicas := [1 \<mapsto> exReplica (exTrunc, noTruncation)], addRanges := [1]\<rparr>) = Some t' \<and>
    replicas t' 1 = Some r' \<and> isEmptyLocked (pendingTruncs r') \<and> Index (TruncatedState r') + 1 = 8 \<and> raftLogSize r' = 50"
proof -
  have q: "queued (exTrunc, noTruncation) = [exTrunc]" "queue_ok (exTrunc, noTruncation)"
    by (simp_all add: queued_def queue_ok_def exTrunc_def)
  have "computePostTruncFirstIndex (exTrunc, noTruncation) 4 = 8" "computePostTruncLogSize (exTrunc, noTruncation) 90 = 50" "deltas_ok (exTrunc, noTruncation)"
    by (simp_all add: computePostTruncFirstIndex_def computePostTruncLogSize_def iterateLocked_def firstIndexAfterTrunc_def exTrunc_def deltas_ok_def)
  then show ?thesis
    using truncations_enacted [of "makeRaftLogTruncator\<lparr>replicas := [1 \<mapsto> exReplica (exTrunc, noTruncation)], addRanges := [1]\<rparr>"
      1 "exReplica (exTrunc, noTruncation)" exEnv] q
    by (auto simp: exReplica_def exEnv_def noEngineFaults_def exTrunc_def bounded_def)
qed

end
