(* ===== verification/Raft_Log_Queue.thy ===== *)
theory Raft_Log_Queue
  imports Raft_Log Raft_Truncator
begin

text \<open>
  The queue that truncates Raft logs, from the decision to the request: the rest of \<open>engine/pkg/kv/kvserver/raft_log_queue.go\<close>
  with what it reads of the replica (\<open>replica_raft.go\<close>, \<open>replica_raftstorage.go\<close>).  It joins the decision (theory
  \<open>Raft_Log\<close>) and the execution (theory \<open>Raft_Truncator\<close>).  \<open>leaderView\<close> is what the queue reads of its replica; times are
  integers, and the size that \<open>ComputeRaftLogSize\<close> finds is an argument.
\<close>

subsection \<open>What the queue reads\<close>

record snapTruncationInfo =
  snapIndex :: uint64
  recipientStore :: int32
  initialSnap :: bool

record raftStatus =
  isLeader :: bool
  statusCommit :: uint64
  statusProgress :: "(uint64 \<times> Progress) list"

record leaderView =
  viewReplica :: Replica
  RaftLogTruncationThreshold :: int64
  RangeMaxBytes :: int64
  viewStatus :: "raftStatus option"
  snapshotLogTruncationConstraints :: "snapTruncationInfo list"
  lastIndexNotDurable :: uint64
  descReplicas :: "int32 list"
  lastUpdateTimes :: "int32 \<rightharpoonup> int"
  viewNow :: int
  RangeLeaseDuration :: int

fun snapshotConstraints :: "int32 \<Rightarrow> bool \<Rightarrow> snapTruncationInfo list \<Rightarrow> snapTruncationInfo list \<times> uint64 \<Rightarrow> snapTruncationInfo list \<times> uint64" where
  "snapshotConstraints store initialOnly [] acc = acc"
| "snapshotConstraints store initialOnly (item # items) (sl, minSnapIndex) =
    (if initialOnly \<and> \<not> initialSnap item then snapshotConstraints store initialOnly items (sl, minSnapIndex)
     else if store \<noteq> 0 \<and> recipientStore item \<noteq> store then snapshotConstraints store initialOnly items (sl, minSnapIndex)
     else snapshotConstraints store initialOnly items
       (sl @ [item], if minSnapIndex = 0 \<or> minSnapIndex > snapIndex item then snapIndex item else minSnapIndex))"

definition getSnapshotLogTruncationConstraintsRLocked :: "leaderView \<Rightarrow> int32 \<Rightarrow> bool \<Rightarrow> snapTruncationInfo list \<times> uint64" where
  "getSnapshotLogTruncationConstraintsRLocked v store initialOnly =
    snapshotConstraints store initialOnly (snapshotLogTruncationConstraints v) ([], 0)"

definition isFollowerActiveSince :: "(int32 \<rightharpoonup> int) \<Rightarrow> int32 \<Rightarrow> int \<Rightarrow> int \<Rightarrow> bool" where
  "isFollowerActiveSince m replicaID now threshold = (case m replicaID of None \<Rightarrow> False | Some t \<Rightarrow> now - t \<le> threshold)"

definition raftFirstIndexRLocked :: "Replica \<Rightarrow> uint64" where
  "raftFirstIndexRLocked r = Index (TruncatedState r) + 1"

subsection \<open>From the decision to the request\<close>

definition noDecision :: truncateDecision where
  "noDecision = \<lparr>Input = \<lparr>Commit = 0, progress = [], LogSize = 0, MaxLogSize = 0, LogSizeTrusted = False, FirstIndex = 0, LastIndex = 0,
     PendingSnapshotIndex = 0\<rparr>, CommitIndex = 0, NewFirstIndex = 0, ChosenVia = ViaNone\<rparr>"

definition viewInput :: "leaderView \<Rightarrow> raftStatus \<Rightarrow> truncateDecisionInput" where
  "viewInput v st =
    (let r = viewReplica v;
         targetSize = (if sint (RaftLogTruncationThreshold v) > sint (RangeMaxBytes v) then RangeMaxBytes v else RaftLogTruncationThreshold v)
     in \<lparr>Commit = statusCommit st,
         progress = updateRaftProgressFromActivity (statusProgress st) (descReplicas v)
           (\<lambda>id. isFollowerActiveSince (lastUpdateTimes v) id (viewNow v) (RangeLeaseDuration v)),
         LogSize = computePostTruncLogSize (pendingTruncs r) (raftLogSize r), MaxLogSize = targetSize,
         LogSizeTrusted = raftLogSizeTrusted r,
         FirstIndex = computePostTruncFirstIndex (pendingTruncs r) (raftFirstIndexRLocked r), LastIndex = lastIndexNotDurable v,
         PendingSnapshotIndex = snd (getSnapshotLogTruncationConstraintsRLocked v 0 False)\<rparr>)"

definition newTruncateDecision :: "leaderView \<Rightarrow> truncateDecision result" where
  "newTruncateDecision v =
    (case viewStatus v of
       None \<Rightarrow> Inr noDecision
     | Some st \<Rightarrow> if \<not> isLeader st then Inr noDecision else computeTruncateDecision (viewInput v st))"

definition shouldQueue :: "leaderView \<Rightarrow> bool result" where
  "shouldQueue v = rbind (newTruncateDecision v) (\<lambda>d. Inr (fst (shouldQueueImpl d)))"

definition setLogSize :: "int64 \<Rightarrow> leaderView \<Rightarrow> leaderView" where
  "setLogSize n v = v\<lparr>viewReplica := (viewReplica v)\<lparr>raftLogSize := n, raftLogLastCheckSize := n, raftLogSizeTrusted := True\<rparr>\<rparr>"

text \<open>The request that is sent, if any, and the view it was computed from.  \<open>meanwhile\<close> and \<open>later\<close> are what becomes of the replica
  while the size of the log is recomputed and between setting it and the second decision.\<close>

definition process :: "int64 \<Rightarrow> int64 result \<Rightarrow> (leaderView \<Rightarrow> leaderView) \<Rightarrow> (leaderView \<Rightarrow> leaderView) \<Rightarrow> leaderView \<Rightarrow>
    (TruncateLogRequest option \<times> leaderView) result" where
  "process rangeID computedSize meanwhile later v =
    rbind (newTruncateDecision v) (\<lambda>decision.
    rbind (if snd (shouldQueueImpl decision)
           then rbind computedSize (\<lambda>n.
             let v2 = later (setLogSize n (meanwhile v)) in rbind (newTruncateDecision v2) (\<lambda>d. Inr (d, v2)))
           else Inr (decision, v)) (\<lambda>(decision, v).
    if \<not> ShouldTruncate decision then Inr (None, v)
    else Inr (Some \<lparr>reqIndex = NewFirstIndex decision, reqRangeID = rangeID, ExpectedFirstIndex = FirstIndex (Input decision)\<rparr>, v)))"

subsection \<open>Lemmas\<close>

lemma newTruncateDecision_returns: "\<exists>d. newTruncateDecision v = Inr d"
  using computeTruncateDecision_eq by (auto simp: newTruncateDecision_def split: option.split)

lemma ShouldTruncate_advances: "ShouldTruncate d \<Longrightarrow> FirstIndex (Input d) < NewFirstIndex d"
  by (auto simp: ShouldTruncate_def NumTruncatableIndexes_def Let_def not_less order_le_less split: if_splits)

lemma noDecision_rests: "\<not> ShouldTruncate noDecision" "\<not> snd (shouldQueueImpl noDecision)"
  by (simp_all add: noDecision_def ShouldTruncate_def NumTruncatableIndexes_def shouldQueueImpl_def)

lemma process_cases:
  assumes "process rangeID computedSize meanwhile later v = Inr (Some req, v')"
  obtains st d where "viewStatus v' = Some st" "isLeader st" "computeTruncateDecision (viewInput v' st) = Inr d" "ShouldTruncate d"
    "req = \<lparr>reqIndex = NewFirstIndex d, reqRangeID = rangeID, ExpectedFirstIndex = FirstIndex (viewInput v' st)\<rparr>"
proof -
  obtain d where d: "newTruncateDecision v' = Inr d" "ShouldTruncate d"
      "req = \<lparr>reqIndex = NewFirstIndex d, reqRangeID = rangeID, ExpectedFirstIndex = FirstIndex (Input d)\<rparr>"
    using assms by (auto simp: process_def rbind_Inr_conv Let_def split: if_splits)
  then have "d \<noteq> noDecision" using noDecision_rests by blast
  then show thesis using that d limits_cases(2) by (auto simp: newTruncateDecision_def split: option.splits if_splits)
qed

lemma snapshotConstraints_min:
  assumes "list_all (\<lambda>s. snapIndex s \<noteq> 0) items"
  shows "(\<forall>s \<in> set items. snd (snapshotConstraints 0 False items (sl, m)) \<noteq> 0 \<and> snd (snapshotConstraints 0 False items (sl, m)) \<le> snapIndex s) \<and>
    (m \<noteq> 0 \<longrightarrow> snd (snapshotConstraints 0 False items (sl, m)) \<noteq> 0 \<and> snd (snapshotConstraints 0 False items (sl, m)) \<le> m)"
  using assms
proof (induction items arbitrary: sl m)
  case (Cons x items)
  let ?m = "if m = 0 \<or> m > snapIndex x then snapIndex x else m"
  have "?m \<noteq> 0" "?m \<le> snapIndex x" "m \<noteq> 0 \<Longrightarrow> ?m \<le> m" using Cons.prems by auto
  then show ?case using Cons.IH [of "sl @ [x]" ?m] Cons.prems by (auto intro: order_trans split del: if_split)
qed simp

lemma pendingSnapshot_limit:
  assumes "list_all (\<lambda>s. snapIndex s \<noteq> 0) (snapshotLogTruncationConstraints v)" "s \<in> set (snapshotLogTruncationConstraints v)"
  shows "\<exists>j \<in> limits (viewInput v st). j \<le> snapIndex s"
proof -
  have "PendingSnapshotIndex (viewInput v st) \<noteq> 0" "PendingSnapshotIndex (viewInput v st) \<le> snapIndex s"
    using snapshotConstraints_min [OF assms(1), of "[]" 0] assms(2) by (auto simp: viewInput_def getSnapshotLogTruncationConstraintsRLocked_def Let_def)
  then show ?thesis by (intro bexI [of _ "PendingSnapshotIndex (viewInput v st)"]) (simp_all add: limits_def word_greater_zero_iff)
qed

text \<open>A truncation computed for the announced first index adjoins the queued ones, so merging it costs no trust.\<close>

lemma truncateFiles_ok: "(\<And>f. \<not> fails f) \<Longrightarrow> \<exists>n. fst (truncateFiles fails from to doTruncate fs bs) = Inr n"
proof (induction fs arbitrary: bs)
  case (Cons f fs)
  then show ?case by (cases doTruncate) (simp_all add: Let_def case_prod_beta)
qed simp

lemma sideloaded_ok: "\<not> listFails e \<Longrightarrow> (\<And>f. \<not> fileFails e f) \<Longrightarrow> \<exists>n. sideloadedBytesIfTruncatedFromTo e r a b = (n, False)"
  using truncateFiles_ok [of "fileFails e" a b False "sideloaded r" "(0, 0)"]
  by (auto simp: sideloadedBytesIfTruncatedFromTo_def BytesIfTruncatedFromTo_def possiblyTruncateTo_def)

lemma newPending_trusted:
  assumes "queue_ok (pendingTruncs r)" "bounded (pendingTruncs r)" "list_all (\<lambda>x. Index (TruncatedState r) < TIndex x) (queued (pendingTruncs r))"
    "\<not> listFails e" "\<And>f. \<not> fileFails e f"
    "newPendingTruncation e r trunc (computePostTruncFirstIndex (pendingTruncs r) (Index (TruncatedState r) + 1)) delta = Some (pos, merge, pt)"
  shows "isDeltaTrusted pt \<longleftrightarrow> (merge \<longrightarrow> isDeltaTrusted (snd (pendingTruncs r)))"
proof -
  let ?p = "pendingTruncs r" and ?i = "Index (TruncatedState r)"
  have m: "merge \<longleftrightarrow> snd ?p \<noteq> noTruncation"
    using newPending_cases(5) [OF assms(1,6)] assms(1) by (auto simp: queued_def queue_ok_def)
  have "computePostTruncFirstIndex ?p (?i + 1) = firstIndexAfterTrunc (snd ?p)" if merge
  proof -
    have q: "queued ?p = [fst ?p, snd ?p]" using that m assms(1) by (auto simp: queued_def queue_ok_def)
    have lt: "?i < TIndex (fst ?p)" "TIndex (fst ?p) < TIndex (snd ?p)" using q assms(1,3) that m by (auto simp: queue_ok_def)
    then have "?i \<noteq> -1" by (metis word_order.extremum_strict)
    moreover have "TIndex x \<noteq> -1" if "x \<in> set (queued ?p)" for x using that assms(2) by (auto simp: bounded_def list_all_iff)
    ultimately have "computePostTruncFirstIndex ?p (?i + 1) = fold max (map TIndex (queued ?p)) ?i + 1"
      by (intro postTruncFirstIndex [OF assms(1)])
    moreover have "max (TIndex (fst ?p)) ?i = TIndex (fst ?p)" "max (TIndex (snd ?p)) (TIndex (fst ?p)) = TIndex (snd ?p)"
      using lt by (simp_all add: max.absorb1)
    ultimately show ?thesis by (simp add: q firstIndexAfterTrunc_def)
  qed
  moreover obtain n where "sideloadedBytesIfTruncatedFromTo e r a b = (n a b, False)" for a b
    using sideloaded_ok [OF assms(4,5)] by metis
  ultimately show ?thesis using assms(1,6) m
    by (auto simp: newPendingTruncation_def iterate_last Let_def queue_ok_def split: if_splits)
qed

subsection \<open>Properties\<close>

text \<open>C13: a truncation that the queue asks for and the leaseholder evaluates comes from the leader and goes forward, whatever
  happens to the replica while the size of its log is recomputed.  By the view the request was computed from, it stays
  below the commit index and the last index, below what any follower that was active is known to have, none of which
  is being probed, and below the index of every snapshot in flight, so that the log keeps what they need next.  The first index it is
  computed for is the one after all pending truncations, unless the leaseholder's log already starts later; so, if it does not, the new
  pending truncation adjoins the queued ones and its size is trusted as far as they were.\<close>

theorem log_queue_truncation:
  assumes "process rangeID computedSize meanwhile later v = Inr (Some req, v')" "TruncateLog c req = Inr (Some (trunc, delta, ex))" "viewStatus v' = Some st"
  shows "isLeader st \<and> FirstIndex (viewInput v' st) \<le> Index trunc \<and> Index trunc < statusCommit st \<and> Index trunc < lastIndexNotDurable v' \<and>
    (\<forall>i p. (i, p) \<in> set (progress (viewInput v' st)) \<and> RecentActive p \<longrightarrow> PState p \<noteq> StateProbe \<and> Index trunc < Match p) \<and>
    (list_all (\<lambda>s. snapIndex s \<noteq> 0) (snapshotLogTruncationConstraints v') \<longrightarrow>
      list_all (\<lambda>s. Index trunc < snapIndex s) (snapshotLogTruncationConstraints v')) \<and>
    ex = max (GetFirstIndex c) (FirstIndex (viewInput v' st)) \<and>
    (\<forall>e pos merge pt. GetFirstIndex c \<le> FirstIndex (viewInput v' st) \<and> queue_ok (pendingTruncs (viewReplica v')) \<and> bounded (pendingTruncs (viewReplica v')) \<and>
      list_all (\<lambda>x. Index (TruncatedState (viewReplica v')) < TIndex x) (queued (pendingTruncs (viewReplica v'))) \<and>
      \<not> listFails e \<and> (\<forall>f. \<not> fileFails e f) \<and> newPendingTruncation e (viewReplica v') trunc ex delta = Some (pos, merge, pt) \<longrightarrow>
      (isDeltaTrusted pt \<longleftrightarrow> (merge \<longrightarrow> isDeltaTrusted (snd (pendingTruncs (viewReplica v'))))))"
proof -
  obtain d where d: "isLeader st" "computeTruncateDecision (viewInput v' st) = Inr d" "ShouldTruncate d"
      "req = \<lparr>reqIndex = NewFirstIndex d, reqRangeID = rangeID, ExpectedFirstIndex = FirstIndex (viewInput v' st)\<rparr>"
    using process_cases [OF assms(1)] assms(3) by (metis option.inject)
  let ?f = "FirstIndex (viewInput v' st)" and ?n = "NewFirstIndex d"
  have new: "?f < ?n" using ShouldTruncate_advances [OF d(3)] limits_cases(2) [OF d(2)] by simp
  have t: "Index trunc < ?n" "Index trunc = ?n - 1" "ex = max (GetFirstIndex c) ?f"
    using TruncateLog_bounded(2) [OF assms(2)] assms(2) d(4)
    by (auto simp: TruncateLog_def rbind_Inr_conv Let_def max_def split: if_splits)
  have lim: "Index trunc < j" if "j \<in> limits (viewInput v' st)" for j
    using limits_cases(3) [OF d(2) that] new t(1) by (auto simp: le_max_iff_disj)
  have ge: "?f \<le> Index trunc" using new t(2) word_succ(2) [OF TruncateLog_bounded(1) [OF assms(2)], of ?f] by simp
  have "Index trunc < Commit (viewInput v' st)" "Index trunc < LastIndex (viewInput v' st)" by (rule lim, simp add: limits_def)+
  then have c: "Index trunc < statusCommit st" "Index trunc < lastIndexNotDurable v'" by (simp_all add: viewInput_def Let_def)
  have f: "PState p \<noteq> StateProbe \<and> Index trunc < Match p" if "(i, p) \<in> set (progress (viewInput v' st))" "RecentActive p" for i p
    using limits_follower [OF d(2) that] new t(1) by (auto simp: le_max_iff_disj split: if_splits)
  have s: "list_all (\<lambda>s. Index trunc < snapIndex s) (snapshotLogTruncationConstraints v')"
    if "list_all (\<lambda>s. snapIndex s \<noteq> 0) (snapshotLogTruncationConstraints v')"
    using pendingSnapshot_limit [OF that] lim by (fastforce simp: list_all_iff)
  have ex: "ex = computePostTruncFirstIndex (pendingTruncs (viewReplica v')) (Index (TruncatedState (viewReplica v')) + 1)" if "GetFirstIndex c \<le> ?f"
    using t(3) that by (simp add: max_def viewInput_def Let_def raftFirstIndexRLocked_def)
  have tr: "isDeltaTrusted pt \<longleftrightarrow> (merge \<longrightarrow> isDeltaTrusted (snd (pendingTruncs (viewReplica v'))))"
    if "GetFirstIndex c \<le> ?f" "queue_ok (pendingTruncs (viewReplica v'))" "bounded (pendingTruncs (viewReplica v'))"
      "list_all (\<lambda>x. Index (TruncatedState (viewReplica v')) < TIndex x) (queued (pendingTruncs (viewReplica v')))"
      "\<not> listFails e" "\<forall>f. \<not> fileFails e f" "newPendingTruncation e (viewReplica v') trunc ex delta = Some (pos, merge, pt)" for e pos merge pt
    using newPending_trusted [OF that(2-5) _ that(7) [unfolded ex [OF that(1)]]] that(6) by blast
  show ?thesis using d(1) ge c f s t(3) tr by blast
qed

definition exView :: leaderView where
  "exView = \<lparr>viewReplica = exReplica (noTruncation, noTruncation), RaftLogTruncationThreshold = 1000000, RangeMaxBytes = 2000000,
    viewStatus = Some \<lparr>isLeader = True, statusCommit = 190,
      statusProgress = [(2, \<lparr>Match = 180, Next = 181, PState = StateReplicate, PendingSnapshot = 0, RecentActive = True\<rparr>)]\<rparr>,
    snapshotLogTruncationConstraints = [\<lparr>snapIndex = 150, recipientStore = 3, initialSnap = True\<rparr>], lastIndexNotDurable = 200,
    descReplicas = [2], lastUpdateTimes = [2 \<mapsto> 95], viewNow = 100, RangeLeaseDuration = 9\<rparr>"

theorem log_queue_truncation_witness:
  "\<exists>req v' trunc delta ex. process 1 (Inr 0) (\<lambda>v. v) (\<lambda>v. v) exView = Inr (Some req, v') \<and>
    TruncateLog \<lparr>GetRangeID = 1, GetFirstIndex = 4, GetTerm = (\<lambda>_. Inr 1), sysBytes = (\<lambda>_ _. Inr 40)\<rparr> req = Inr (Some (trunc, delta, ex)) \<and>
    Index trunc < 190 \<and> ex = 4"
proof -
  let ?req = "\<lparr>reqIndex = 150, reqRangeID = 1, ExpectedFirstIndex = 4\<rparr>"
  have f: "FirstIndex (viewInput exView st) = 4" for st
    by (simp add: viewInput_def exView_def exReplica_def raftFirstIndexRLocked_def computePostTruncFirstIndex_def iterateLocked_def)
  have "process 1 (Inr 0) (\<lambda>v. v) (\<lambda>v. v) exView = Inr (Some ?req, exView)"
    by (simp add: process_def newTruncateDecision_def viewInput_def exView_def exReplica_def raftFirstIndexRLocked_def computePostTruncFirstIndex_def
        computePostTruncLogSize_def iterateLocked_def getSnapshotLogTruncationConstraintsRLocked_def isFollowerActiveSince_def activityOf_def
        computeTruncateDecision_def protectFollower_def ProtectIndex_def ShouldTruncate_def NumTruncatableIndexes_def shouldQueueImpl_def Let_def)
  moreover have "TruncateLog \<lparr>GetRangeID = 1, GetFirstIndex = 4, GetTerm = (\<lambda>_. Inr 1), sysBytes = (\<lambda>_ _. Inr 40)\<rparr> ?req =
      Inr (Some (\<lparr>Index = 149, Term = 1\<rparr>, -40, 4))" by (simp add: TruncateLog_def)
  moreover have "viewStatus exView = Some \<lparr>isLeader = True, statusCommit = 190,
      statusProgress = [(2, \<lparr>Match = 180, Next = 181, PState = StateReplicate, PendingSnapshot = 0, RecentActive = True\<rparr>)]\<rparr>"
    by (simp add: exView_def)
  ultimately show ?thesis using log_queue_truncation f by fastforce
qed

end
