(* ===== verification/Spec2Isabelle.thy ===== *)
theory Spec2Isabelle
  imports Enc_Values Enc_Floats Hlc_Clock Merge_Spans Lock_Modes Engine_Key Keys_Meta Keys_Sql Replica_Change
    Gc_Hint Gc_Clear Node_Liveness Sql_Index Raft_Log_Queue
begin

text \<open>
  R1DB: a verification library of its storage and transaction core.

  \<^bold>\<open>The program.\<close>  R1DB is a distribution of CockroachDB v23.1.28.  Its engine, the Go code under \<open>src/engine/pkg\<close>,
  is a replicated, transactional key-value store with SQL on top.  A row of a table becomes a few keys
  (\<open>sql/rowenc\<close>, \<open>keys\<close>), whose bytes sort as the row (\<open>util/encoding\<close>).  The key space is cut into ranges
  (\<open>roachpb\<close>), each replicated by Raft and served by the holder of its lease (\<open>kv/kvserver\<close>).  The store keeps many
  versions of a key, ordered by timestamp (\<open>storage\<close>); the timestamps come from hybrid logical clocks
  (\<open>util/hlc\<close>), and a transaction reads at its timestamp, watching for values in its uncertainty interval.
  The library follows a row on that way: from SQL values to keys, from keys to ranges and their replicas and leases, and to
  the versions of a key and the read that selects one.

  \<^bold>\<open>Conventions.\<close>  Byte slices are \<open>8 word list\<close>, Go integers are words of their width (a signed one is read through
  \<open>sint\<close>), so that overflow wraps as in the code; \<open>int\<close> and \<open>nat\<close> stand for lengths and indices that cannot overflow.  A
  call returns \<open>go_error + 'a\<close>: \<open>Errorf\<close> is a returned error, \<open>Panic\<close> a run-time panic, and an index or a slice
  out of range is written out as a panic.  A method that changes its receiver returns the changed record.  Definitions
  keep the names of the code; a suffix \<open>Loop\<close> or \<open>Step\<close> names the body of a loop.  All of them compute.

  \<^bold>\<open>The theories\<close>, in the order they build on each other (paths under \<open>src/engine/pkg\<close>):

  \<^item> \<open>Prelude\<close>: results, the byte order and \<open>dless\<close>, the order that is decided before either string ends; big-endian
    bytes.  \<open>Codec\<close>: the locale \<open>key_codec\<close>, the contract of an order-preserving encoder and decoder (round trip,
    order, trichotomy), with the order of concatenated columns proved once; \<open>pair_codec\<close>, two columns as one.
  \<^item> \<open>Enc_Ints\<close>, \<open>Enc_Bytes\<close>, \<open>Enc_Keys\<close>, \<open>Enc_Floats\<close> (\<open>util/encoding/encoding.go\<close>, \<open>float.go\<close>,
    \<open>complement_fast.go\<close>): fixed and variable-width integers, escaped strings, type markers, NULL, times, array
    markers and floats.  Every encoder interprets \<open>key_codec\<close>, ascending and descending.  \<open>Enc_Peek\<close>: \<open>PeekLength\<close>,
    the length of a column of any type.  \<open>Enc_Values\<close>: the tagged values that need not sort.
  \<^item> \<open>Hlc\<close>, \<open>Hlc_Clock\<close> (\<open>util/hlc\<close>): timestamps and the clock; runs of the clock as an inductive step relation.
  \<^item> \<open>Keys_Spans\<close>, \<open>Merge_Spans\<close> (\<open>roachpb/data.go\<close>, \<open>merge_spans.go\<close>, \<open>keysbase\<close>): keys, spans as sets of keys, and
    the operations on lists of spans.
  \<^item> \<open>Keys_Local\<close>, \<open>Keys_Meta\<close>, \<open>Keys_Sql\<close> (\<open>keys\<close>): local keys and their addresses, the meta keys that locate
    ranges, and the keys of tenants, tables, indexes and column families.
  \<^item> \<open>Sql_Keys\<close>, \<open>Sql_Index\<close> (\<open>sql/rowenc/keyside\<close>, \<open>sql/rowenc/index_encoding.go\<close>, \<open>encoded_datum.go\<close>): SQL values as key
    columns, arrays and NULL included, and rows of columns as index keys.  The locale \<open>row_codec\<close> is a family of
    column codecs, one per column; its interpretation \<open>rows\<close> gives the round trip and the order of whole rows.
  \<^item> \<open>Mvcc_Key\<close>, \<open>Engine_Key\<close>, \<open>Range_Keys\<close>, \<open>Proto_Wire\<close>, \<open>Mvcc_Value\<close>, \<open>Mvcc_Meta\<close> (\<open>storage\<close>,
    \<open>storage/enginepb\<close>): versioned keys and the comparison of the store, lock table keys, range keys and their stacks,
    the wire format of timestamps and value headers, versioned values, range statistics and intent histories.
  \<^item> \<open>Mvcc_Results\<close>, \<open>Mvcc_Scan\<close>, \<open>Mvcc_Read\<close>, \<open>Mvcc_Refine\<close> (\<open>storage/pebble_mvcc_scanner.go\<close>): the scanner, its
    result set, and that it refines one read per key.
  \<^item> \<open>Gc_Iterator\<close>, \<open>Gc_Run\<close>, \<open>Gc_Safe\<close>, \<open>Gc_Clear\<close> (\<open>kv/kvserver/gc\<close>, \<open>storage/mvcc.go\<close>): the iterator that walks the versions of
    a range backwards and looks ahead through a ring buffer, the loop that tells garbage from data, what may be removed
    without changing a read, and the evaluation of a request to clear a range, which checks what it clears.
  \<^item> \<open>Txn\<close>, \<open>Uncertainty\<close>, \<open>Lock_Modes\<close> (\<open>roachpb/data.go\<close>, \<open>kv/kvserver/uncertainty\<close>,
    \<open>kv/kvserver/concurrency/lock\<close>): transaction records and their updates, the uncertainty interval of a request, lock
    strengths.
  \<^item> \<open>Replicas\<close>, \<open>Gc_Hint\<close>, \<open>Replica_Change\<close>, \<open>Leases\<close> (\<open>roachpb/metadata*.go\<close>, \<open>kv/kvserver\<close>): replica sets and range
    descriptors, GC hints, the trigger of a replica change and its raft configuration, and leases from request to use.
    \<open>Node_Liveness\<close> (\<open>kv/kvserver/liveness/liveness.go\<close>, \<open>requestLease\<close> in \<open>replica_range_lease.go\<close>): the liveness
    records of all nodes with the caches of each, the operations that write them conditionally, and the task that ends the
    epoch of a dead holder before it asks for its lease.  The steps of all nodes are an inductive relation with an
    invariant, and every operation is a run of such steps, whatever others do while it waits.
  \<^item> \<open>Raft_Log\<close>, \<open>Raft_Truncator\<close>, \<open>Raft_Log_Queue\<close> (\<open>kv/kvserver/raft_log_queue.go\<close>, \<open>raft_log_truncator.go\<close>): the decision
    how far a Raft log can be truncated, the truncator that carries it out once it is durable, as a state machine of its
    callbacks and its background task, and the queue that joins them.  The locale \<open>fifo\<close> is the contract of a queue, met
    by the two slots of pending truncations.

  \<^bold>\<open>What is shown.\<close>
  Encoders and decoders are inverse, and byte order is the order of what is encoded: for integers, strings, times, floats,
  SQL values, index rows, local and meta keys, lock table keys and versioned keys; theorem \<open>table_store_order\<close> below joins
  the two ends.  Decoders return errors and do not panic, but for the inputs the theorems name.
  The length of a column that is peeked at is the length that was encoded.
  An unlimited, consistent, forward scan returns, with intents, uncertainty, range keys and errors, what a fold of one read per key
  returns, however often the iterator is stepped before it seeks; where there are no intents and range keys and no
  uncertainty is checked, this is exactly the newest visible version of every key.  Garbage collection finds exactly the
  committed versions at or below its threshold that are a tombstone, lie below a range tombstone or are superseded there, and
  reads at or above the threshold are the same after they are gone; a request to clear a range without an
  intent on its start key is refused unless that holds for all it clears.  Clock readings are causally ordered, and stay within
  the maximum offset of the physical clock as long as remote timestamps are checked.  The binary searches of a stack of
  range key versions select what their comments say.
  Transaction records stay well-formed over any run of updates, do not move their read and write timestamps and their priority back,
  and leave a final status only from committed to aborted, when they absorb an aborted state; absorbing a state twice is
  absorbing it once.  A value is uncertain exactly when it lies below the global limit and is not known, by the clock of the
  leaseholder, to be written after it was read.  Accepted replica changes keep a quorum of
  the old and the new configuration intersecting.  The increment of an epoch ends it for every node, and a lease that is taken
  over, of either kind, serves no timestamp of its successor.  Span operations
  are set operations on keys.  A Raft log is truncated below what active followers and snapshots in flight still need and not
  past what is durably applied, loses no other entry, and no pending truncation is forgotten in any interleaving.

  \<^bold>\<open>Loops and fuel.\<close>  Loops are structural recursion or \<open>function\<close> with a measure.  Four have fuel.  The loops of the
  scanner take the number of turns and return \<open>None\<close> when it is used up: twice the number of entries of the snapshot and
  four is enough, which \<open>scan_reads\<close> and \<open>scan_newest\<close> prove by their result.  \<open>PeekLength\<close> recurses at most as deep as its
  buffer is long and visits at most that many elements of an array, shown by \<open>PeekLength_returns\<close>; the loop over the
  elements of an array key (\<open>decodeArrayLoop\<close>) takes the length of the buffer, since every element has at least a byte; the
  loop that unwraps local addresses (\<open>Addr\<close>) is bounded by \<open>Addr_terminates\<close>.  The loop that clears log entries
  (\<open>clearEntries\<close>) runs for ever if its bound is the greatest \<open>uint64\<close> and is a partial function; \<open>truncator_invariant\<close> keeps
  such a bound out of the queues, and then \<open>truncations_enacted\<close> shows that it ends.  Loops that retry until their context is
  cancelled, and the sleep of the clock, go through a list of what they meet in each turn.

  \<^bold>\<open>Parameters.\<close>  The scanner is parametric in the iterator over the Pebble store, a third-party library: the hypothesis
  \<open>iterates\<close> states its documented contract (the entries of a snapshot in order, seeks to the first entry at or after a
  key), and a cursor over a list satisfies it.  The lock table, the memory account and the value decoder of protocol
  buffers are parameters as well.  The truncator has the faults of the engine and the file system, and the durable applied
  index of a range, as arguments.  Node liveness has the protocol buffer coding of a record as two parameters, of which one
  inverts the other, and the outcome of its transactions as arguments.  Physical time is an argument of every clock operation.

  \<^bold>\<open>Not modelled.\<close>  Concurrency inside a process: mutexes, goroutines, channels and latches; an operation is one step; only for
  the log truncator and node liveness are the critical sections interleaved.  The heartbeat loop of a node and its callbacks.
  I/O, RPC, gossip, the HTTP API and console, the command line and packaging.  The Raft library, the Pebble store and
  other third-party code.  The parser, optimizer and execution engine of SQL, much of it generated code.  Decimals, intervals, IP addresses, bit
  arrays, collated strings and geospatial values in keys, whose encoders rest on third-party arithmetic and geometry,
  and inverted indexes.  Formatting for logs.  Writes of versions (\<open>mvccPutInternal\<close>).  Of garbage collection the batching of
  requests, requests for single keys, the resolution of intents and the removal of transaction records and range tombstones.
\<close>

subsection \<open>Tables in the store\<close>

lemma family_key_append_less:
  assumes "typed_row cols vs" "typed_row cols ws"
  shows "MakeFamilyKey (p @ rowKey cols vs) f < MakeFamilyKey (p @ rowKey cols ws) g \<longleftrightarrow>
    row_less cols vs ws \<or> vs = ws \<and> f < g"
proof -
  have m: "MakeFamilyKey (p @ k) h = p @ k @ MakeFamilyKey [] h" for k h by (simp add: MakeFamilyKey_closed)
  show ?thesis using rowKey_less [OF assms, of "MakeFamilyKey [] f" "MakeFamilyKey [] g"] MakeFamilyKey_less [of "[]" f g]
    unfolding m by simp
qed

lemma family_key_append_eq:
  assumes "typed_row cols vs" "typed_row cols ws"
  shows "MakeFamilyKey (p @ rowKey cols vs) f = MakeFamilyKey (p @ rowKey cols ws) g \<longleftrightarrow> vs = ws \<and> f = g"
proof -
  have m: "MakeFamilyKey (p @ k) h = p @ k @ MakeFamilyKey [] h" for k h by (simp add: MakeFamilyKey_closed)
  show ?thesis unfolding m same_append_eq
    using rowKey_cut [OF assms, of "MakeFamilyKey [] f" "MakeFamilyKey [] g"] family_key_prefix [of "[]" f g] by auto
qed

text \<open>C10: the store holds the rows of an index in the order of their key columns, the column families of a row by
  their ID, and the versions of a column family from the newest to the oldest, with the intent first.\<close>

theorem table_store_order:
  assumes "index_row cols colMap values" "index_row cols colMap' values'"
    and "EncodePartialIndexKey cols colMap values (MakeIndexKeyPrefix codec tbl idx) = Inr (key, n)"
    and "EncodePartialIndexKey cols colMap' values' (MakeIndexKeyPrefix codec tbl idx) = Inr (key', n')"
    and "nonneg_ts t" "nonneg_ts u"
  shows "EngineKeyCompare (EncodeMVCCKey \<lparr>MKey = MakeFamilyKey key f, MTimestamp = t\<rparr>)
      (EncodeMVCCKey \<lparr>MKey = MakeFamilyKey key' g, MTimestamp = u\<rparr>) < 0 \<longleftrightarrow>
    row_less cols (rowValues cols colMap values) (rowValues cols colMap' values') \<or>
    rowValues cols colMap values = rowValues cols colMap' values' \<and>
      (f < g \<or> f = g \<and> (if IsEmpty t \<or> IsEmpty u then IsEmpty t \<and> \<not> IsEmpty u else Compare t u > 0))"
proof -
  let ?vs = "rowValues cols colMap values" and ?ws = "rowValues cols colMap' values'"
  have t: "typed_row cols ?vs" "typed_row cols ?ws" using assms(1,2) by (simp_all add: index_row_def)
  have k: "key = MakeIndexKeyPrefix codec tbl idx @ rowKey cols ?vs" "key' = MakeIndexKeyPrefix codec tbl idx @ rowKey cols ?ws"
    using assms(3,4) EncodePartialIndexKey_row [OF assms(1)] EncodePartialIndexKey_row [OF assms(2)] by simp_all
  have lt: "MakeFamilyKey key f < MakeFamilyKey key' g \<longleftrightarrow> row_less cols ?vs ?ws \<or> ?vs = ?ws \<and> f < g"
    unfolding k by (rule family_key_append_less [OF t])
  have eq: "MakeFamilyKey key f = MakeFamilyKey key' g \<longleftrightarrow> ?vs = ?ws \<and> f = g" unfolding k by (rule family_key_append_eq [OF t])
  have irr: "\<not> row_less cols ?vs ?ws" if "?vs = ?ws" using that rowKey_less [OF t, of "[]" "[]"] by auto
  have e: "Compare t u = 0" if "IsEmpty t" "IsEmpty u" using that by (simp add: IsEmpty_eq Compare_def)
  show ?thesis
  proof (cases "MakeFamilyKey key f = MakeFamilyKey key' g")
    case True
    then show ?thesis using eq irr e EngineKeyCompare_Compare [of "\<lparr>MKey = MakeFamilyKey key f, MTimestamp = t\<rparr>"
        "\<lparr>MKey = MakeFamilyKey key' g, MTimestamp = u\<rparr>"] assms(5,6)
      by (simp add: MVCCKeyCompare_def)
  next
    case False
    then show ?thesis using eq lt EngineKeyCompare_Compare [of "\<lparr>MKey = MakeFamilyKey key f, MTimestamp = t\<rparr>"
        "\<lparr>MKey = MakeFamilyKey key' g, MTimestamp = u\<rparr>"] assms(5,6)
      by (auto simp: MVCCKeyCompare_def Let_def)
  qed
qed

theorem table_store_order_witness:
  "\<exists>key. EncodePartialIndexKey [\<lparr>ColumnID = 1, ColumnType = IntFamily, ColumnDirection = DESC\<rparr>] [1 \<mapsto> 0] [DInt 300]
      (MakeIndexKeyPrefix \<lparr>cbuf = [], cendKey = []\<rparr> 104 1) = Inr (key, False) \<and>
    EngineKeyCompare (EncodeMVCCKey \<lparr>MKey = MakeFamilyKey key 0, MTimestamp = \<lparr>WallTime = 9, Logical = 0, Synthetic = False\<rparr>\<rparr>)
      (EncodeMVCCKey \<lparr>MKey = MakeFamilyKey key 2, MTimestamp = \<lparr>WallTime = 5, Logical = 0, Synthetic = False\<rparr>\<rparr>) < 0"
proof -
  let ?cols = "[\<lparr>ColumnID = 1, ColumnType = IntFamily, ColumnDirection = DESC\<rparr>]"
  have v: "rowValues ?cols [1 \<mapsto> 0] [DInt 300] = [DInt 300]" by (simp add: rowValues_def)
  have i: "index_row ?cols [1 \<mapsto> 0] [DInt 300]" unfolding index_row_def v by (simp add: typed_row_def typed.simps)
  obtain key where k: "EncodePartialIndexKey ?cols [1 \<mapsto> 0] [DInt 300] (MakeIndexKeyPrefix \<lparr>cbuf = [], cendKey = []\<rparr> 104 1) = Inr (key, False)"
    using EncodePartialIndexKey_row [OF i] unfolding v by simp
  show ?thesis
    using k table_store_order [OF i i k k, of "\<lparr>WallTime = 9, Logical = 0, Synthetic = False\<rparr>"
        "\<lparr>WallTime = 5, Logical = 0, Synthetic = False\<rparr>" 0 2] by (auto simp: nonneg_ts_def)
qed

end
